(* ===== verification/Prelude.thy ===== *)
theory Prelude
  imports Main "HOL-Library.Multiset"
begin

text \<open>
  The shared vocabulary of the development: Python's run-time errors as values, the
  result type and its sequencing, loops over a list that may stop with an error, the
  draws of Python's pseudo-random generator, Python's list and dict operations with what
  they do out of range, and the interface of a machine that executes a sequence of
  operations and keeps an invariant.
\<close>

section \<open>Errors and results\<close>

text \<open>
  A raise, a failed \<open>assert\<close> and a call of \<open>exit(n)\<close> end the program; each is a value of
  \<open>py_error\<close>. \<open>Out_Of_Draws\<close> and \<open>Out_Of_Fuel\<close> are not Python errors: they say that the finite supply of
  random numbers, or the number of loop iterations, given to a model was used up. \<open>Outside_Model\<close> is
  the boundary of a model (an instruction of the x86 simulator read as a number, a negative size).
\<close>

datatype py_error =
    AssertionError
  | KeyError
  | IndexError
  | ValueError
  | TypeError
  | NameError
  | AttributeError
  | SyntaxError
  | ZeroDivisionError
  | SystemExit int
  | Out_Of_Draws
  | Out_Of_Fuel
  | Outside_Model

type_synonym 'a res = "py_error + 'a"

named_theorems result_simps \<open>computation rules of results and of loops over them\<close>
named_theorems dict_simps \<open>lookup laws of insertion-ordered dicts\<close>
named_theorems list_simps \<open>laws of Python's list operations\<close>

definition rbind :: "'a res \<Rightarrow> ('a \<Rightarrow> 'b res) \<Rightarrow> 'b res" where
  "rbind m f = (case m of Inl e \<Rightarrow> Inl e | Inr x \<Rightarrow> f x)"

lemma rbind_Inl [simp, result_simps]: "rbind (Inl e) f = Inl e"
  by (simp add: rbind_def)

lemma rbind_Inr [simp, result_simps]: "rbind (Inr x) f = f x"
  by (simp add: rbind_def)

lemma rbind_eq_Inr: "rbind m f = Inr y \<longleftrightarrow> (\<exists>x. m = Inr x \<and> f x = Inr y)"
  by (cases m) auto

lemma rbind_InrE [elim]:
  assumes "rbind m f = Inr y"
  obtains x where "m = Inr x" "f x = Inr y"
  using assms by (auto simp: rbind_eq_Inr)

lemma rbind_cong [fundef_cong]:
  "m = m' \<Longrightarrow> (\<And>x. m' = Inr x \<Longrightarrow> f x = f' x) \<Longrightarrow> rbind m f = rbind m' f'"
  by (cases m') auto

definition py_assert :: "bool \<Rightarrow> unit res" where
  "py_assert b = (if b then Inr () else Inl AssertionError)"

lemma py_assert_simps [simp, result_simps]:
  "py_assert True = Inr ()" "py_assert False = Inl AssertionError"
  by (simp_all add: py_assert_def)

lemma py_assert_eq_Inr [simp]: "py_assert b = Inr u \<longleftrightarrow> b"
  by (simp add: py_assert_def)

text \<open>A \<open>for\<close> loop over a list whose body may raise.\<close>

fun rfold :: "('a \<Rightarrow> 's \<Rightarrow> 's res) \<Rightarrow> 'a list \<Rightarrow> 's \<Rightarrow> 's res" where
  "rfold f [] s = Inr s"
| "rfold f (x # xs) s = rbind (f x s) (rfold f xs)"

lemma rfold_append [result_simps]: "rfold f (xs @ ys) s = rbind (rfold f xs s) (rfold f ys)"
proof (induction xs arbitrary: s)
  case (Cons x xs)
  then show ?case by (cases "f x s") auto
qed simp

lemma rfold_inv:
  assumes "\<And>x s s'. x \<in> set xs \<Longrightarrow> P s \<Longrightarrow> f x s = Inr s' \<Longrightarrow> P s'"
    and "P s" and "rfold f xs s = Inr s'"
  shows "P s'"
  using assms
proof (induction xs arbitrary: s)
  case (Cons x xs)
  from Cons.prems(3) obtain t where t: "f x s = Inr t" "rfold f xs t = Inr s'"
    by auto
  have "P t" using Cons.prems(1,2) t(1) by auto
  then show ?case using Cons.IH Cons.prems(1) t(2) by (metis list.set_intros(2))
qed simp

section \<open>Machines that keep an invariant\<close>

text \<open>
  The interface shared by the simulators: an operation either raises or gives the next
  state, and every operation keeps the invariant. A client that runs a sequence of operations
  only needs these laws.
\<close>

locale step_system =
  fixes step :: "'op \<Rightarrow> 's \<Rightarrow> 's res"
    and inv :: "'s \<Rightarrow> bool"
  assumes step_keeps: "inv s \<Longrightarrow> step x s = Inr s' \<Longrightarrow> inv s'"
begin

lemma run_keeps: "inv s \<Longrightarrow> rfold step xs s = Inr s' \<Longrightarrow> inv s'"
  by (rule rfold_inv [where f = step and P = inv]) (auto intro: step_keeps)

end

locale total_system = step_system +
  fixes legal :: "'op \<Rightarrow> bool"
  assumes step_runs: "inv s \<Longrightarrow> legal x \<Longrightarrow> \<exists>s'. step x s = Inr s'"
begin

lemma run_total:
  assumes "inv s" and "\<forall>x \<in> set xs. legal x"
  shows "\<exists>s'. rfold step xs s = Inr s' \<and> inv s'"
  using assms
proof (induction xs arbitrary: s)
  case (Cons x xs)
  obtain t where t: "step x s = Inr t" using step_runs [of s x] Cons.prems by auto
  have "inv t" using step_keeps [OF Cons.prems(1) t] .
  with Cons t show ?case by auto
qed simp

end

section \<open>Random draws\<close>

text \<open>
  \<open>random.random()\<close> returns \<open>k / 2 ^ 53\<close> for an integer \<open>0 \<le> k < 2 ^ 53\<close>; a draw is that \<open>k\<close>.
  \<open>int(random.random() * n)\<close> is \<open>pick k n\<close> (the product taken exactly) and
  \<open>random.random() < a / b\<close> is \<open>below k a b\<close>. The supply of draws is an argument of a model, so that
  a theorem about all supplies is a theorem about all runs.
\<close>

type_synonym draw = nat

definition pick :: "draw \<Rightarrow> nat \<Rightarrow> nat" where
  "pick k n = k * n div 2 ^ 53"

text \<open>\<open>int(random.random() * n)\<close> for an \<open>n\<close> of either sign: \<open>int\<close> truncates towards zero.\<close>

definition pick_int :: "draw \<Rightarrow> int \<Rightarrow> int" where
  "pick_int k n = (if 0 \<le> n then int (pick k (nat n)) else - int (pick k (nat (- n))))"

definition below :: "draw \<Rightarrow> nat \<Rightarrow> nat \<Rightarrow> bool" where
  "below k a b \<longleftrightarrow> k * b < a * 2 ^ 53"

definition valid_draw :: "draw \<Rightarrow> bool" where
  "valid_draw k \<longleftrightarrow> k < 2 ^ 53"

lemma pick_less: "valid_draw k \<Longrightarrow> 0 < n \<Longrightarrow> pick k n < n"
  by (simp add: valid_draw_def pick_def less_mult_imp_div_less mult.commute)

lemma pick_int_range: "valid_draw k \<Longrightarrow> 0 < n \<Longrightarrow> 0 \<le> pick_int k n \<and> pick_int k n < n"
  using pick_less [of k "nat n"] by (simp add: pick_int_def)

lemma pick_int_nonneg: "0 \<le> n \<Longrightarrow> 0 \<le> pick_int k n"
  by (simp add: pick_int_def)

text \<open>\<open>int(a / b)\<close> rounds towards zero.\<close>

definition trunc_div :: "int \<Rightarrow> int \<Rightarrow> int" where
  "trunc_div a b = sgn a * sgn b * (\<bar>a\<bar> div \<bar>b\<bar>)"

fun next_draw :: "draw list \<Rightarrow> (draw \<times> draw list) res" where
  "next_draw [] = Inl Out_Of_Draws"
| "next_draw (k # ks) = Inr (k, ks)"

text \<open>A result that meets a specification, unless the supply of draws was too short.\<close>

definition or_no_draws :: "('a \<Rightarrow> bool) \<Rightarrow> 'a res \<Rightarrow> bool" where
  "or_no_draws P r = (case r of Inl e \<Rightarrow> e = Out_Of_Draws | Inr x \<Rightarrow> P x)"

lemma or_no_draws_simps [simp]:
  "or_no_draws P (Inr x) \<longleftrightarrow> P x" "or_no_draws P (Inl e) \<longleftrightarrow> e = Out_Of_Draws"
  by (simp_all add: or_no_draws_def)

lemma or_no_draws_bind: "or_no_draws P m \<Longrightarrow> (\<And>x. P x \<Longrightarrow> or_no_draws Q (f x)) \<Longrightarrow> or_no_draws Q (rbind m f)"
  by (cases m) auto

lemma or_no_draws_mono: "or_no_draws P r \<Longrightarrow> (\<And>x. P x \<Longrightarrow> Q x) \<Longrightarrow> or_no_draws Q r"
  by (cases r) auto

lemma or_no_draws_fold:
  assumes "P 0 s" and "\<And>i s. i < n \<Longrightarrow> P i s \<Longrightarrow> or_no_draws (P (Suc i)) (f i s)"
  shows "or_no_draws (P n) (rfold f [0..<n] s)"
  using assms(2)
proof (induction n)
  case 0
  then show ?case using assms(1) by simp
next
  case (Suc n)
  have "or_no_draws (P n) (rfold f [0..<n] s)" using Suc by simp
  moreover have "rfold f [0..<Suc n] s = rbind (rfold f [0..<n] s) (f n)"
    by (cases "rfold f [0..<n] s") (simp_all add: rfold_append rbind_def split: sum.split)
  ultimately show ?case using Suc.prems by (auto intro: or_no_draws_bind)
qed

section \<open>Lists\<close>

text \<open>Indexing, \<open>pop\<close>, \<open>remove\<close> and \<open>index\<close> with the errors Python raises.\<close>

definition py_get :: "'a list \<Rightarrow> int \<Rightarrow> 'a res" where
  "py_get xs i =
     (let j = (if 0 \<le> i then i else i + int (length xs))
      in if j < 0 \<or> int (length xs) \<le> j then Inl IndexError else Inr (xs ! nat j))"

lemma py_get_nat [list_simps]: "py_get xs (int i) = (if i < length xs then Inr (xs ! i) else Inl IndexError)"
  by (simp add: py_get_def)

definition delete_at :: "nat \<Rightarrow> 'a list \<Rightarrow> 'a list" where
  "delete_at i xs = take i xs @ drop (Suc i) xs"

definition py_pop :: "'a list \<Rightarrow> nat \<Rightarrow> ('a \<times> 'a list) res" where
  "py_pop xs i = (if i < length xs then Inr (xs ! i, delete_at i xs) else Inl IndexError)"

definition py_remove :: "'a list \<Rightarrow> 'a \<Rightarrow> 'a list res" where
  "py_remove xs x = (if x \<in> set xs then Inr (remove1 x xs) else Inl ValueError)"

fun index_of :: "'a \<Rightarrow> 'a list \<Rightarrow> nat option" where
  "index_of x [] = None"
| "index_of x (y # ys) = (if x = y then Some 0 else map_option Suc (index_of x ys))"

lemma delete_at_simps [simp, list_simps]:
  "delete_at 0 xs = tl xs" "delete_at (Suc i) (x # xs) = x # delete_at i xs"
  "delete_at i [] = []"
  by (simp_all add: delete_at_def drop_Suc)

lemma length_delete_at [list_simps]: "i < length xs \<Longrightarrow> length (delete_at i xs) = length xs - 1"
  by (simp add: delete_at_def)

lemma mset_delete_at: "i < length xs \<Longrightarrow> mset xs = add_mset (xs ! i) (mset (delete_at i xs))"
  by (metis add_mset_add_single delete_at_def id_take_nth_drop mset.simps(2) mset_append
      union_mset_add_mset_right)

lemma set_delete_at_subset: "set (delete_at i xs) \<subseteq> set xs"
  unfolding delete_at_def using set_take_subset [of i xs] set_drop_subset [of "Suc i" xs] by auto

lemma distinct_delete_at: "distinct xs \<Longrightarrow> distinct (delete_at i xs)"
proof (induction xs arbitrary: i)
  case (Cons x xs)
  then show ?case
    by (cases i) (use set_delete_at_subset in fastforce)+
qed simp

lemma set_delete_at: "distinct xs \<Longrightarrow> i < length xs \<Longrightarrow> set (delete_at i xs) = set xs - {xs ! i}"
proof (induction xs arbitrary: i)
  case (Cons x xs)
  then show ?case by (cases i) auto
qed simp

lemma index_of_None [simp]: "index_of x xs = None \<longleftrightarrow> x \<notin> set xs"
  by (induction xs) auto

lemma index_of_Some: "index_of x xs = Some i \<Longrightarrow> i < length xs \<and> xs ! i = x"
  by (induction xs arbitrary: i) (auto split: if_splits)

section \<open>Insertion-ordered dicts\<close>

text \<open>
  A Python dict is an association list in insertion order with distinct keys: assigning to
  a key that is present replaces its value in place, a new key goes to the end.
\<close>

type_synonym ('k, 'v) dict = "('k \<times> 'v) list"

definition dict_get :: "('k, 'v) dict \<Rightarrow> 'k \<Rightarrow> 'v res" where
  "dict_get d k = (case map_of d k of None \<Rightarrow> Inl KeyError | Some v \<Rightarrow> Inr v)"

fun dict_set :: "'k \<Rightarrow> 'v \<Rightarrow> ('k, 'v) dict \<Rightarrow> ('k, 'v) dict" where
  "dict_set k v [] = [(k, v)]"
| "dict_set k v ((k', v') # d) = (if k' = k then (k, v) # d else (k', v') # dict_set k v d)"

definition dict_keys :: "('k, 'v) dict \<Rightarrow> 'k set" where
  "dict_keys d = fst ` set d"

definition dict_del :: "'k \<Rightarrow> ('k, 'v) dict \<Rightarrow> ('k, 'v) dict" where
  "dict_del k d = filter (\<lambda>(k', v). k' \<noteq> k) d"

lemma map_of_dict_set [simp, dict_simps]: "map_of (dict_set k v d) = (map_of d)(k \<mapsto> v)"
  by (induction d) (auto simp: fun_eq_iff)

lemma dict_get_set [simp, dict_simps]:
  "dict_get (dict_set k v d) k' = (if k' = k then Inr v else dict_get d k')"
  by (simp add: dict_get_def)

lemma dict_keys_map_of: "k \<in> dict_keys d \<longleftrightarrow> (\<exists>v. map_of d k = Some v)"
  by (metis dict_keys_def map_of_eq_None_iff not_None_eq)

lemma dict_keys_set [simp, dict_simps]: "dict_keys (dict_set k v d) = insert k (dict_keys d)"
  by (auto simp: dict_keys_map_of split: if_splits)

lemma dict_get_Inr [dict_simps]: "dict_get d k = Inr v \<longleftrightarrow> map_of d k = Some v"
  by (simp add: dict_get_def split: option.splits)

lemma dict_get_total: "k \<in> dict_keys d \<Longrightarrow> \<exists>v. dict_get d k = Inr v"
  by (auto simp: dict_keys_map_of dict_get_def)

lemma map_fst_dict_set [dict_simps]:
  "map fst (dict_set k v d) = (if k \<in> dict_keys d then map fst d else map fst d @ [k])"
  by (induction d) (force simp: dict_keys_def image_iff)+

lemma distinct_dict_set [simp, dict_simps]:
  "distinct (map fst (dict_set k v d)) = distinct (map fst d)"
  by (auto simp: map_fst_dict_set dict_keys_def)

lemma dict_set_fresh: "k \<notin> dict_keys d \<Longrightarrow> dict_set k v d = d @ [(k, v)]"
  by (induction d) (auto simp: dict_keys_def)

lemma map_of_dict_del [simp, dict_simps]: "map_of (dict_del k d) = (map_of d)(k := None)"
  by (induction d) (auto simp: dict_del_def fun_eq_iff)

lemma distinct_dict_del: "distinct (map fst d) \<Longrightarrow> distinct (map fst (dict_del k d))"
  by (induction d) (auto simp: dict_del_def)

lemma mset_dict_del:
  assumes "distinct (map fst d)" and "map_of d k = Some v"
  shows "mset d = add_mset (k, v) (mset (dict_del k d))"
  using assms
proof (induction d)
  case (Cons e d)
  obtain k' v' where e: "e = (k', v')" by (cases e)
  show ?case
  proof (cases "k' = k")
    case True
    with Cons.prems e have "k \<notin> fst ` set d" by auto
    then have "dict_del k d = d"
      by (force simp: dict_del_def filter_id_conv)
    with True e Cons.prems show ?thesis by (simp add: dict_del_def)
  next
    case False
    with Cons e show ?thesis by (simp add: dict_del_def)
  qed
qed simp

end
