(* ===== verification/PyString.thy ===== *)
theory PyString
  imports Prelude
begin

text \<open>
  Python's string methods on ASCII strings (\<open>split\<close>, \<open>strip\<close>, \<open>isdigit\<close>, \<open>isalpha\<close>, \<open>join\<close>), the conversion
  \<open>int(s)\<close> and the format \<open>%d\<close>, with the round trips the parsers and path functions rest on.
  \<open>int\<close> accepts surrounding white space and a sign as Python does; the digit separator \<open>_\<close> is
  not accepted.
\<close>

section \<open>Characters\<close>

definition is_digit :: "char \<Rightarrow> bool" where
  "is_digit c \<longleftrightarrow> c \<in> set ''0123456789''"

definition is_alpha :: "char \<Rightarrow> bool" where
  "is_alpha c \<longleftrightarrow> c \<in> set ''abcdefghijklmnopqrstuvwxyzABCDEFGHIJKLMNOPQRSTUVWXYZ''"

definition is_space :: "char \<Rightarrow> bool" where
  "is_space c \<longleftrightarrow> c \<in> {CHR '' '', CHR 0x09, CHR 0x0A, CHR 0x0B, CHR 0x0C, CHR 0x0D}"

definition digit_val :: "char \<Rightarrow> nat" where
  "digit_val c = (of_char c :: nat) - 48"

definition char_of_digit :: "nat \<Rightarrow> char" where
  "char_of_digit d = ''0123456789'' ! d"

section \<open>Splitting and joining\<close>

text \<open>\<open>s.split(c)\<close> for a one-character separator: never empty, empty pieces kept.\<close>

fun py_split :: "char \<Rightarrow> string \<Rightarrow> string list" where
  "py_split c [] = [[]]"
| "py_split c (x # xs) =
     (if x = c then [] # py_split c xs
      else (case py_split c xs of [] \<Rightarrow> [[x]] | p # ps \<Rightarrow> (x # p) # ps))"

fun py_join :: "char \<Rightarrow> string list \<Rightarrow> string" where
  "py_join c [] = []"
| "py_join c [x] = x"
| "py_join c (x # y # ys) = x @ c # py_join c (y # ys)"

definition lstrip :: "string \<Rightarrow> string" where
  "lstrip s = dropWhile is_space s"

definition rstrip :: "string \<Rightarrow> string" where
  "rstrip s = rev (dropWhile is_space (rev s))"

definition strip :: "string \<Rightarrow> string" where
  "strip s = lstrip (rstrip s)"

text \<open>\<open>s.split()\<close>: the maximal runs of characters that are not white space.\<close>

function py_words :: "string \<Rightarrow> string list" where
  "py_words s =
     (let t = dropWhile is_space s
      in if t = [] then []
         else takeWhile (\<lambda>c. \<not> is_space c) t # py_words (dropWhile (\<lambda>c. \<not> is_space c) t))"
  by pat_completeness auto
termination
proof (relation "measure length", goal_cases)
  case (2 s t)
  then obtain c cs where t: "t = c # cs" by (meson neq_Nil_conv)
  have "\<not> is_space c"
    using 2 t by (metis hd_dropWhile list.sel(1))
  then have "length (dropWhile (\<lambda>c. \<not> is_space c) t) \<le> length cs"
    using t by (simp add: length_dropWhile_le)
  moreover have "length t \<le> length s" using 2 by (simp add: length_dropWhile_le)
  ultimately show ?case using t by simp
qed auto

declare py_words.simps [simp del]

text \<open>\<open>s.split(None, 1)\<close>: the first word and the rest after the white space that follows it.\<close>

definition split_first :: "string \<Rightarrow> string list" where
  "split_first s =
     (let t = dropWhile is_space s;
          r = dropWhile is_space (dropWhile (\<lambda>c. \<not> is_space c) t)
      in if t = [] then []
         else takeWhile (\<lambda>c. \<not> is_space c) t # (if r = [] then [] else [r]))"

lemma py_split_not_Nil [simp]: "py_split c s \<noteq> []"
  by (cases s) (auto split: list.splits)

lemma py_split_plain: "c \<notin> set s \<Longrightarrow> py_split c s = [s]"
  by (induction s) auto

lemma py_split_append:
  "c \<notin> set s \<Longrightarrow> py_split c (s @ c # t) = s # py_split c t"
  by (induction s) auto

lemma py_split_join:
  "ps \<noteq> [] \<Longrightarrow> \<forall>p \<in> set ps. c \<notin> set p \<Longrightarrow> py_split c (py_join c ps) = ps"
  by (induction c ps rule: py_join.induct) (auto simp: py_split_plain py_split_append)

lemma py_join_split: "py_join c (py_split c s) = s"
proof (induction s)
  case (Cons x xs)
  obtain p ps where "py_split c xs = p # ps" by (cases "py_split c xs") auto
  with Cons show ?case by (cases ps) auto
qed simp

lemma py_split_no_sep: "p \<in> set (py_split c s) \<Longrightarrow> c \<notin> set p"
proof (induction s arbitrary: p)
  case (Cons x xs)
  obtain q qs where "py_split c xs = q # qs" by (cases "py_split c xs") auto
  with Cons show ?case by (auto split: if_splits)
qed simp

section \<open>Numbers\<close>

definition isdigit :: "string \<Rightarrow> bool" where
  "isdigit s \<longleftrightarrow> s \<noteq> [] \<and> list_all is_digit s"

fun digits_val :: "nat \<Rightarrow> string \<Rightarrow> nat" where
  "digits_val a [] = a"
| "digits_val a (c # cs) = digits_val (10 * a + digit_val c) cs"

definition nat_text :: "string \<Rightarrow> nat res" where
  "nat_text t = (if isdigit t then Inr (digits_val 0 t) else Inl ValueError)"

definition py_int :: "string \<Rightarrow> int res" where
  "py_int s =
     (let t = strip s in
      if t \<noteq> [] \<and> hd t = CHR ''-'' then rbind (nat_text (tl t)) (\<lambda>n. Inr (- int n))
      else if t \<noteq> [] \<and> hd t = CHR ''+'' then rbind (nat_text (tl t)) (\<lambda>n. Inr (int n))
      else rbind (nat_text t) (\<lambda>n. Inr (int n)))"

fun show_nat :: "nat \<Rightarrow> string" where
  "show_nat n = (if n < 10 then [char_of_digit n] else show_nat (n div 10) @ [char_of_digit (n mod 10)])"

declare show_nat.simps [simp del]

definition show_int :: "int \<Rightarrow> string" where
  "show_int i = (if i < 0 then CHR ''-'' # show_nat (nat (- i)) else show_nat (nat i))"

lemma all_digits: "d < 10 \<Longrightarrow> d \<in> set [0..<10::nat]"
  by simp

lemma char_of_digit_props:
  assumes "d < 10"
  shows "is_digit (char_of_digit d)" and "digit_val (char_of_digit d) = d"
    and "\<not> is_space (char_of_digit d)"
    and "char_of_digit d \<noteq> CHR ''-''" and "char_of_digit d \<noteq> CHR ''+''"
proof -
  have "d = 0 \<or> d = 1 \<or> d = 2 \<or> d = 3 \<or> d = 4 \<or> d = 5 \<or> d = 6 \<or> d = 7 \<or> d = 8 \<or> d = 9"
    using assms by arith
  then show "is_digit (char_of_digit d)" "digit_val (char_of_digit d) = d"
    "\<not> is_space (char_of_digit d)"
    "char_of_digit d \<noteq> CHR ''-''" "char_of_digit d \<noteq> CHR ''+''"
    by (auto simp: is_digit_def char_of_digit_def digit_val_def is_space_def)
qed

lemma digits_val_append: "digits_val a (s @ [c]) = 10 * digits_val a s + digit_val c"
  by (induction s arbitrary: a) auto

lemma show_nat_digits: "s = show_nat n \<Longrightarrow> isdigit s \<and> digits_val 0 s = n \<and> list_all (\<lambda>c. \<not> is_space c) s"
proof (induction n arbitrary: s rule: show_nat.induct)
  case (1 n)
  show ?case
  proof (cases "n < 10")
    case True
    with 1 show ?thesis
      by (simp add: isdigit_def char_of_digit_props show_nat.simps [of n])
  next
    case False
    with 1 show ?thesis
      by (auto simp: isdigit_def char_of_digit_props digits_val_append show_nat.simps [of n])
  qed
qed

lemma strip_no_space: "list_all (\<lambda>c. \<not> is_space c) s \<Longrightarrow> strip s = s"
proof -
  assume a: "list_all (\<lambda>c. \<not> is_space c) s"
  have d: "list_all (\<lambda>c. \<not> is_space c) t \<Longrightarrow> dropWhile is_space t = t" for t
    by (cases t) auto
  from a have "list_all (\<lambda>c. \<not> is_space c) (rev s)" by (simp add: list_all_iff)
  then have "rstrip s = s" by (simp add: rstrip_def d)
  then show ?thesis using a by (simp add: strip_def lstrip_def d)
qed

lemma not_digit_sign: "\<not> is_digit CHR ''-''" "\<not> is_digit CHR ''+''"
  by (simp_all add: is_digit_def)

lemma py_int_digits:
  assumes "isdigit s" and "list_all (\<lambda>c. \<not> is_space c) s"
  shows "py_int s = Inr (int (digits_val 0 s))"
proof -
  obtain c cs where s: "s = c # cs" using assms(1) by (cases s) (auto simp: isdigit_def)
  have "is_digit c" using assms(1) s by (simp add: isdigit_def)
  then have "c \<noteq> CHR ''-''" "c \<noteq> CHR ''+''" using not_digit_sign by auto
  moreover have "strip s = s" by (rule strip_no_space [OF assms(2)])
  ultimately show ?thesis using assms(1) s by (simp add: py_int_def nat_text_def)
qed

theorem py_int_show_int: "py_int (show_int i) = Inr i"
proof (cases "i < 0")
  case True
  have s: "isdigit (show_nat (nat (- i))) \<and> digits_val 0 (show_nat (nat (- i))) = nat (- i)
      \<and> list_all (\<lambda>c. \<not> is_space c) (show_nat (nat (- i)))"
    by (rule show_nat_digits) simp
  have "strip (show_int i) = show_int i"
    using True s by (intro strip_no_space) (simp add: show_int_def is_space_def)
  then show ?thesis using True s by (simp add: py_int_def show_int_def nat_text_def)
next
  case False
  have "isdigit (show_nat (nat i)) \<and> digits_val 0 (show_nat (nat i)) = nat i
      \<and> list_all (\<lambda>c. \<not> is_space c) (show_nat (nat i))"
    by (rule show_nat_digits) simp
  then show ?thesis using False by (simp add: show_int_def py_int_digits)
qed

end
