(* ===== verification/Malloc.thy ===== *)
theory Malloc
  imports PyString
begin

text \<open>
  The free-list allocator of \<open>vm-freespace/malloc.py\<close>: the class \<open>malloc\<close> with its three search
  policies and five list orders, coalescing, alignment and headers, and the two drivers
  (random operations, and the operation list of the option \<open>-A\<close>). The invariant says that the
  extents on the free list and in the size map tile the heap: every address of the heap is
  covered exactly once.
\<close>

section \<open>State\<close>

datatype policy = BEST | WORST | FIRST

datatype list_order = ADDRSORT | SIZESORT_UP | SIZESORT_DOWN | INSERT_FRONT | INSERT_BACK

type_synonym extent = "int \<times> int"

record heap =
  heap_size :: int
  headerSize :: int
  freelist :: "extent list"
  sizemap :: "(int, int) dict"
  policy :: policy
  returnPolicy :: list_order
  coalesce :: bool
  align :: int

definition policy_of :: "string \<Rightarrow> policy res" where
  "policy_of s =
     (if s = ''FIRST'' then Inr FIRST
      else if s = ''BEST'' then Inr BEST
      else if s = ''WORST'' then Inr WORST
      else Inl AssertionError)"

definition order_of :: "string \<Rightarrow> list_order res" where
  "order_of s =
     (if s = ''ADDRSORT'' then Inr ADDRSORT
      else if s = ''SIZESORT+'' then Inr SIZESORT_UP
      else if s = ''SIZESORT-'' then Inr SIZESORT_DOWN
      else if s = ''INSERT-FRONT'' then Inr INSERT_FRONT
      else if s = ''INSERT-BACK'' then Inr INSERT_BACK
      else Inl AssertionError)"

definition malloc_init :: "int \<Rightarrow> int \<Rightarrow> int \<Rightarrow> string \<Rightarrow> string \<Rightarrow> bool \<Rightarrow> int \<Rightarrow> heap res" where
  "malloc_init sz start hdr pol ord coal algn =
     rbind (policy_of pol) (\<lambda>p.
     rbind (order_of ord) (\<lambda>r.
     rbind (py_assert (algn = - 1 \<or> 0 < algn)) (\<lambda>_.
     Inr \<lparr>heap_size = sz, headerSize = hdr, freelist = [(start, sz)], sizemap = [],
          policy = p, returnPolicy = r, coalesce = coal, align = algn\<rparr>)))"

section \<open>Operations\<close>

definition addToMap :: "int \<Rightarrow> int \<Rightarrow> heap \<Rightarrow> heap res" where
  "addToMap addr sz h =
     rbind (py_assert (addr \<notin> dict_keys (sizemap h))) (\<lambda>_.
     Inr (h\<lparr>sizemap := dict_set addr sz (sizemap h)\<rparr>))"

definition padded :: "heap \<Rightarrow> int \<Rightarrow> int" where
  "padded h sz =
     (if align h \<noteq> - 1
      then let left = sz mod align h; diff = (if left \<noteq> 0 then align h - left else 0) in sz + diff
      else sz) + headerSize h"

text \<open>
  The search loop. The accumulator holds \<open>bestIdx\<close> (\<open>-1\<close> for none), \<open>bestAddr\<close> (unbound in the code
  until a candidate is found; 0 here), \<open>bestSize\<close> and \<open>count\<close>.
\<close>

fun search :: "policy \<Rightarrow> int \<Rightarrow> nat \<Rightarrow> extent list \<Rightarrow> int \<times> int \<times> int \<times> nat \<Rightarrow> int \<times> int \<times> int \<times> nat" where
  "search pol sz i [] acc = acc"
| "search pol sz i ((eaddr, esize) # es) (bestIdx, bestAddr, bestSize, cnt) =
     (if esize \<ge> sz \<and> ((pol = BEST \<and> esize < bestSize) \<or> (pol = WORST \<and> esize > bestSize) \<or> pol = FIRST)
      then if pol = FIRST then (int i, eaddr, esize, Suc cnt)
           else search pol sz (Suc i) es (int i, eaddr, esize, Suc cnt)
      else search pol sz (Suc i) es (bestIdx, bestAddr, bestSize, Suc cnt))"

definition search_start :: "heap \<Rightarrow> int \<times> int \<times> int \<times> nat" where
  "search_start h = (- 1, 0, (if policy h = BEST then heap_size h + 1 else - 1), 0)"

definition malloc :: "int \<Rightarrow> heap \<Rightarrow> ((int \<times> nat) \<times> heap) res" where
  "malloc sz0 h =
     (let sz = padded h sz0;
          (bestIdx, bestAddr, bestSize, cnt) = search (policy h) sz 0 (freelist h) (search_start h)
      in if bestIdx \<noteq> - 1 then
           if bestSize > sz then
             rbind (addToMap bestAddr sz
                      (h\<lparr>freelist := (freelist h)[nat bestIdx := (bestAddr + sz, bestSize - sz)]\<rparr>))
               (\<lambda>h'. Inr ((bestAddr, cnt), h'))
           else if bestSize = sz then
             rbind (addToMap bestAddr sz (h\<lparr>freelist := delete_at (nat bestIdx) (freelist h)\<rparr>))
               (\<lambda>h'. Inr ((bestAddr, cnt), h'))
           else Inl NameError
         else Inr ((- 1, cnt), h))"

definition insert_extent :: "list_order \<Rightarrow> extent \<Rightarrow> extent list \<Rightarrow> extent list" where
  "insert_extent ord e es =
     (case ord of
        INSERT_BACK \<Rightarrow> es @ [e]
      | INSERT_FRONT \<Rightarrow> e # es
      | ADDRSORT \<Rightarrow> sort_key fst (es @ [e])
      | SIZESORT_UP \<Rightarrow> sort_key snd (es @ [e])
      | SIZESORT_DOWN \<Rightarrow> sort_key (\<lambda>x. - snd x) (es @ [e]))"

text \<open>The coalescing loop; \<open>sorted(..., reverse=True)\<close> is stable too, hence the negated key above.\<close>

fun coalesce_loop :: "extent \<Rightarrow> extent list \<Rightarrow> extent list \<Rightarrow> extent list" where
  "coalesce_loop cur [] newlist = newlist @ [cur]"
| "coalesce_loop cur ((eaddr, esize) # es) newlist =
     (if eaddr = fst cur + snd cur
      then coalesce_loop (fst cur, snd cur + esize) es newlist
      else coalesce_loop (eaddr, esize) es (newlist @ [cur]))"

definition coalesce_list :: "extent list \<Rightarrow> extent list res" where
  "coalesce_list es = (case es of [] \<Rightarrow> Inl IndexError | e # es' \<Rightarrow> Inr (coalesce_loop e es' []))"

definition free :: "int \<Rightarrow> heap \<Rightarrow> (int \<times> heap) res" where
  "free addr h =
     (case map_of (sizemap h) addr of
        None \<Rightarrow> Inr (- 1, h)
      | Some sz \<Rightarrow>
          let fl = insert_extent (returnPolicy h) (addr, sz) (freelist h) in
          rbind (if coalesce h then coalesce_list fl else Inr fl) (\<lambda>fl'.
          Inr (0, h\<lparr>freelist := fl', sizemap := dict_del addr (sizemap h)\<rparr>)))"

section \<open>The drivers\<close>

text \<open>
  What one operation prints: the operation, what it returned and the free list after it.
\<close>

datatype event =
    Alloc_Event int int int nat "extent list"
  | Free_Event int int "extent list"
  | Invalid_Free

record driver =
  mem :: heap
  ptrs :: "(int, int) dict"
  live :: "int list"
  next_c :: int
  printed :: "event list"

definition driver_init :: "heap \<Rightarrow> driver" where
  "driver_init h = \<lparr>mem = h, ptrs = [], live = [], next_c = 0, printed = []\<rparr>"

definition do_alloc :: "int \<Rightarrow> bool \<Rightarrow> driver \<Rightarrow> driver res" where
  "do_alloc sz track d =
     rbind (malloc sz (mem d)) (\<lambda>((ptr, cnt), h).
     Inr (d\<lparr>mem := h,
            ptrs := (if ptr \<noteq> - 1 then dict_set (next_c d) ptr (ptrs d) else ptrs d),
            live := (if ptr \<noteq> - 1 \<and> track then live d @ [next_c d] else live d),
            next_c := next_c d + 1,
            printed := printed d @
              [Alloc_Event (next_c d) sz (if track then ptr + headerSize h else ptr) cnt (freelist h)]\<rparr>))"

text \<open>
  The random driver: \<open>opsNum\<close> operations, each an allocation with probability \<open>pAlloc\<close> percent,
  otherwise a free of a random live pointer; a free with nothing to free is drawn again.
\<close>

function random_ops :: "nat \<Rightarrow> nat \<Rightarrow> int \<Rightarrow> draw list \<Rightarrow> driver \<Rightarrow> driver res" where
  "random_ops n pAlloc rng ds d =
     (if n = 0 then Inr d
      else case ds of
        [] \<Rightarrow> Inl Out_Of_Draws
      | r # ds1 \<Rightarrow>
          if below r pAlloc 100 then
            (case ds1 of
               [] \<Rightarrow> Inl Out_Of_Draws
             | r2 # ds2 \<Rightarrow>
                 rbind (do_alloc (pick_int r2 rng + 1) True d) (random_ops (n - 1) pAlloc rng ds2))
          else if ptrs d \<noteq> [] then
            (case ds1 of
               [] \<Rightarrow> Inl Out_Of_Draws
             | r2 # ds2 \<Rightarrow>
                 let i = pick r2 (length (live d)) in
                 rbind (py_get (live d) (int i)) (\<lambda>c.
                 rbind (dict_get (ptrs d) c) (\<lambda>a.
                 rbind (free a (mem d)) (\<lambda>(rc, h).
                 random_ops (n - 1) pAlloc rng ds2
                   (d\<lparr>mem := h, ptrs := dict_del c (ptrs d), live := delete_at i (live d),
                      printed := printed d @ [Free_Event c rc (freelist h)]\<rparr>)))))
          else random_ops n pAlloc rng ds1 d)"
  by pat_completeness auto
termination
  by (relation "measure (\<lambda>(n, p, r, ds, d). length ds)") auto

declare random_ops.simps [simp del]

text \<open>One entry of the operation list of \<open>-A\<close>: \<open>+size\<close> or \<open>-index\<close>.\<close>

definition list_op :: "string \<Rightarrow> driver \<Rightarrow> driver res" where
  "list_op s d =
     (if s = [] then Inl IndexError
      else if hd s = CHR ''+'' then
        rbind (py_get (py_split CHR ''+'' s) 1) (\<lambda>t.
        rbind (py_int t) (\<lambda>sz. do_alloc sz False d))
      else if hd s = CHR ''-'' then
        rbind (py_get (py_split CHR ''-'' s) 1) (\<lambda>t.
        rbind (py_int t) (\<lambda>index.
          if index \<ge> int (length (ptrs d)) then Inr (d\<lparr>printed := printed d @ [Invalid_Free]\<rparr>)
          else
            rbind (dict_get (ptrs d) index) (\<lambda>a.
            rbind (free a (mem d)) (\<lambda>(rc, h).
            Inr (d\<lparr>mem := h, printed := printed d @ [Free_Event index rc (freelist h)]\<rparr>)))))
      else Inl NameError)"

definition list_ops :: "string \<Rightarrow> driver \<Rightarrow> driver res" where
  "list_ops s d = rfold list_op (py_split CHR '','' s) d"

record malloc_options =
  opt_heapSize :: int
  opt_baseAddr :: int
  opt_headerSize :: int
  opt_alignment :: int
  opt_policy :: string
  opt_order :: string
  opt_coalesce :: bool
  opt_opsNum :: int
  opt_opsRange :: int
  opt_opsPAlloc :: int
  opt_opsList :: string

definition malloc_defaults :: malloc_options where
  "malloc_defaults = \<lparr>opt_heapSize = 100, opt_baseAddr = 1000, opt_headerSize = 0, opt_alignment = - 1,
     opt_policy = ''BEST'', opt_order = ''ADDRSORT'', opt_coalesce = False, opt_opsNum = 10,
     opt_opsRange = 10, opt_opsPAlloc = 50, opt_opsList = ''''\<rparr>"

definition malloc_main :: "malloc_options \<Rightarrow> draw list \<Rightarrow> driver res" where
  "malloc_main opt ds =
     rbind (malloc_init (opt_heapSize opt) (opt_baseAddr opt) (opt_headerSize opt)
              (opt_policy opt) (opt_order opt) (opt_coalesce opt) (opt_alignment opt)) (\<lambda>h.
     rbind (py_assert (opt_opsPAlloc opt > 0)) (\<lambda>_.
     if opt_opsList opt = '''' then
       random_ops (nat (opt_opsNum opt)) (nat (opt_opsPAlloc opt)) (opt_opsRange opt) ds (driver_init h)
     else list_ops (opt_opsList opt) (driver_init h)))"


section \<open>The heap is tiled by its extents\<close>

definition cells :: "extent \<Rightarrow> int multiset" where
  "cells e = mset_set {fst e..<fst e + snd e}"

definition covered :: "extent list \<Rightarrow> int multiset" where
  "covered es = sum_list (map cells es)"

text \<open>
  The invariant: the extents of the free list and the size map cover every address of the heap
  exactly once (so they are disjoint, inside the heap and lose nothing), and none is empty.
\<close>

definition heap_inv :: "int \<Rightarrow> heap \<Rightarrow> bool" where
  "heap_inv base h \<longleftrightarrow>
     covered (freelist h @ sizemap h) = mset_set {base..<base + heap_size h} \<and>
     (\<forall>e \<in> set (freelist h @ sizemap h). 0 < snd e) \<and>
     distinct (map fst (sizemap h)) \<and> 0 \<le> heap_size h"

named_theorems cover_simps \<open>rules for the addresses that extents cover\<close>

lemma covered_simps [simp, cover_simps]:
  "covered [] = {#}" "covered (e # es) = cells e + covered es"
  "covered (es @ es') = covered es + covered es'"
  by (simp_all add: covered_def)

lemma covered_mset: "mset es = mset es' \<Longrightarrow> covered es = covered es'"
  unfolding covered_def by (metis mset_map sum_mset_sum_list)

lemma covered_add: "mset es = add_mset e (mset es') \<Longrightarrow> covered es = cells e + covered es'"
  using covered_mset [of es "e # es'"] by simp

lemma covered_sort [simp, cover_simps]: "covered (sort_key f es) = covered es"
  by (rule covered_mset) simp

lemma cells_split [cover_simps]:
  assumes "0 \<le> k" "k \<le> n"
  shows "cells (a, n) = cells (a, k) + cells (a + k, n - k)"
proof -
  have "{a..<a + n} = {a..<a + k} \<union> {a + k..<a + n}" using assms by auto
  then show ?thesis unfolding cells_def by (simp add: mset_set_Union)
qed

lemma cells_join [cover_simps]: "0 \<le> m \<Longrightarrow> 0 \<le> n \<Longrightarrow> cells (a, m + n) = cells (a, m) + cells (a + m, n)"
  using cells_split [of m "m + n" a] by simp

lemma count_cells: "count (cells e) x = (if fst e \<le> x \<and> x < fst e + snd e then 1 else 0)"
  by (simp add: cells_def count_mset_set')

lemma covered_count_mono: "e \<in> set es \<Longrightarrow> count (cells e) x \<le> count (covered es) x"
  by (induction es) auto

lemma covered_disjoint:
  assumes "covered (es @ es') = mset_set S" and "e \<in> set es" and "e' \<in> set es'"
    and "0 < snd e" "0 < snd e'"
  shows "fst e \<noteq> fst e'"
proof
  assume eq: "fst e = fst e'"
  have "1 \<le> count (covered es) (fst e)" "1 \<le> count (covered es') (fst e)"
    using covered_count_mono [OF assms(2), of "fst e"] covered_count_mono [OF assms(3), of "fst e"]
      assms(4,5) eq by (simp_all add: count_cells)
  then have "2 \<le> count (covered (es @ es')) (fst e)"
    by (simp only: covered_simps plus_multiset.rep_eq)
  also have "\<dots> \<le> 1" using assms(1) by (simp add: count_mset_set')
  finally show False by simp
qed

lemma size_cells: "0 \<le> snd e \<Longrightarrow> size (cells e) = nat (snd e)"
  by (simp add: cells_def)

lemma extent_le_heap:
  assumes "covered es = mset_set {base..<base + n}" "e \<in> set es" "0 < snd e" "0 \<le> n"
  shows "snd e \<le> n" and "base \<le> fst e" and "fst e + snd e \<le> base + n"
proof -
  have c: "count (mset_set {base..<base + n}) x \<ge> 1" if "fst e \<le> x" "x < fst e + snd e" for x
    using covered_count_mono [OF assms(2), of x] assms(1) that by (simp add: count_cells)
  have "fst e \<in># mset_set {base..<base + n}" using c [of "fst e"] assms(3) by auto
  moreover have "fst e + snd e - 1 \<in># mset_set {base..<base + n}"
    using c [of "fst e + snd e - 1"] assms(3) by auto
  ultimately show "snd e \<le> n" "base \<le> fst e" "fst e + snd e \<le> base + n" by auto
qed

subsection \<open>The search\<close>

definition better :: "policy \<Rightarrow> int \<Rightarrow> int \<Rightarrow> bool" where
  "better pol a b \<longleftrightarrow> (case pol of BEST \<Rightarrow> a < b | WORST \<Rightarrow> b < a | FIRST \<Rightarrow> True)"

text \<open>
  What the search returns on a list \<open>es\<close> scanned from index \<open>i\<close>: either nothing in it fits and improves
  on the candidate so far, or the entry at an offset \<open>k\<close> that fits, that improves on every fitting entry
  before it and on the candidate, and that no later fitting entry improves on.
\<close>

lemma search_result:
  assumes "search pol sz i es (bi, ba, bs, cnt) = (bi', ba', bs', cnt')"
  shows "(bi' = bi \<and> ba' = ba \<and> bs' = bs \<and> (\<forall>e \<in> set es. sz \<le> snd e \<longrightarrow> \<not> better pol (snd e) bs)) \<or>
    (\<exists>k < length es. bi' = int (i + k) \<and> es ! k = (ba', bs') \<and> sz \<le> bs' \<and> better pol bs' bs \<and>
       (\<forall>j < k. sz \<le> snd (es ! j) \<longrightarrow> better pol bs' (snd (es ! j)) \<and> pol \<noteq> FIRST) \<and>
       (\<forall>e \<in> set es. sz \<le> snd e \<longrightarrow> pol = FIRST \<or> \<not> better pol (snd e) bs'))"
  using assms
proof (induction es arbitrary: i bi ba bs cnt)
  case (Cons e es)
  obtain ea es' where e: "e = (ea, es')" by (cases e)
  let ?hit = "sz \<le> es' \<and> better pol es' bs"
  show ?case
  proof (cases "?hit \<and> pol = FIRST")
    case True
    then show ?thesis using Cons.prems e
      by (intro disjI2 exI [of _ 0]) (auto simp: better_def)
  next
    case nofirst: False
    show ?thesis
    proof (cases ?hit)
      case True
      with nofirst have np: "pol \<noteq> FIRST" by simp
      then have "search pol sz (Suc i) es (int i, ea, es', Suc cnt) = (bi', ba', bs', cnt')"
        using Cons.prems e True by (cases pol) (auto simp: better_def)
      from Cons.IH [OF this] show ?thesis
      proof (elim disjE exE conjE)
        assume "bi' = int i" "ba' = ea" "bs' = es'"
          "\<forall>e\<in>set es. sz \<le> snd e \<longrightarrow> \<not> better pol (snd e) es'"
        then show ?thesis using True e np
          by (intro disjI2 exI [of _ 0]) (cases pol; auto simp: better_def)
      next
        fix k assume k: "k < length es" "bi' = int (Suc i + k)" "es ! k = (ba', bs')" "sz \<le> bs'"
          "better pol bs' es'"
          "\<forall>j<k. sz \<le> snd (es ! j) \<longrightarrow> better pol bs' (snd (es ! j)) \<and> pol \<noteq> FIRST"
          "\<forall>e\<in>set es. sz \<le> snd e \<longrightarrow> pol = FIRST \<or> \<not> better pol (snd e) bs'"
        then show ?thesis using True e np
          by (intro disjI2 exI [of _ "Suc k"])
             (cases pol; auto simp: better_def nth_Cons split: nat.splits)
      qed
    next
      case False
      then have "search pol sz (Suc i) es (bi, ba, bs, Suc cnt) = (bi', ba', bs', cnt')"
        using Cons.prems e by (cases pol) (auto simp: better_def)
      from Cons.IH [OF this] show ?thesis
      proof (elim disjE exE conjE)
        fix k assume k: "k < length es" "bi' = int (Suc i + k)" "es ! k = (ba', bs')" "sz \<le> bs'"
          "better pol bs' bs"
          "\<forall>j<k. sz \<le> snd (es ! j) \<longrightarrow> better pol bs' (snd (es ! j)) \<and> pol \<noteq> FIRST"
          "\<forall>e\<in>set es. sz \<le> snd e \<longrightarrow> pol = FIRST \<or> \<not> better pol (snd e) bs'"
        then show ?thesis using False e
          by (intro disjI2 exI [of _ "Suc k"])
             (cases pol; auto simp: better_def nth_Cons split: nat.splits)
      qed (use False e in auto)
    qed
  qed
qed simp


text \<open>What a policy promises about the entry it chooses.\<close>

definition chosen :: "policy \<Rightarrow> int \<Rightarrow> extent list \<Rightarrow> nat \<Rightarrow> bool" where
  "chosen pol sz es k \<longleftrightarrow> k < length es \<and> sz \<le> snd (es ! k) \<and>
     (case pol of
        FIRST \<Rightarrow> \<forall>j < k. snd (es ! j) < sz
      | BEST \<Rightarrow> (\<forall>e \<in> set es. sz \<le> snd e \<longrightarrow> snd (es ! k) \<le> snd e) \<and>
               (\<forall>j < k. sz \<le> snd (es ! j) \<longrightarrow> snd (es ! k) < snd (es ! j))
      | WORST \<Rightarrow> (\<forall>e \<in> set es. snd e \<le> snd (es ! k)) \<and>
               (\<forall>j < k. snd (es ! j) < snd (es ! k)))"

lemma search_chosen:
  assumes inv: "heap_inv base h"
    and res: "search (policy h) sz 0 (freelist h) (search_start h) = (bi, ba, bs, cnt)"
  shows "(bi = - 1 \<and> (\<forall>e \<in> set (freelist h). snd e < sz)) \<or>
         (\<exists>k. bi = int k \<and> freelist h ! k = (ba, bs) \<and> chosen (policy h) sz (freelist h) k)"
proof -
  have small: "snd e \<le> heap_size h" if "e \<in> set (freelist h)" for e
    using inv that extent_le_heap(1) [of "freelist h @ sizemap h" base "heap_size h" e]
    by (auto simp: heap_inv_def)
  have pos: "0 < snd e" if "e \<in> set (freelist h)" for e
    using inv that by (auto simp: heap_inv_def)
  from search_result [OF res [unfolded search_start_def]] show ?thesis
  proof (elim disjE exE conjE)
    assume "bi = - 1" and no: "\<forall>e\<in>set (freelist h). sz \<le> snd e \<longrightarrow>
      \<not> better (policy h) (snd e) (if policy h = BEST then heap_size h + 1 else - 1)"
    have "snd e < sz" if "e \<in> set (freelist h)" for e
      using no that small [OF that] pos [OF that]
      by (cases "policy h") (force simp: better_def)+
    with \<open>bi = - 1\<close> show ?thesis by blast
  next
    fix k assume k: "k < length (freelist h)" "bi = int (0 + k)" "freelist h ! k = (ba, bs)" "sz \<le> bs"
      "\<forall>j<k. sz \<le> snd (freelist h ! j) \<longrightarrow> better (policy h) bs (snd (freelist h ! j)) \<and> policy h \<noteq> FIRST"
      "\<forall>e\<in>set (freelist h). sz \<le> snd e \<longrightarrow> policy h = FIRST \<or> \<not> better (policy h) (snd e) bs"
    have "snd e \<le> bs" if "policy h = WORST" "e \<in> set (freelist h)" for e
      using k that by (force simp: better_def)
    moreover have "snd (freelist h ! j) < bs" if "policy h = WORST" "j < k" for j
      using k that by (force simp: better_def)
    ultimately have "chosen (policy h) sz (freelist h) k"
      using k by (cases "policy h") (force simp: chosen_def better_def)+
    with k show ?thesis by (intro disjI2) auto
  qed
qed

lemma search_count:
  "pol \<noteq> FIRST \<Longrightarrow> search pol sz i es (bi, ba, bs, cnt) = (bi', ba', bs', cnt') \<Longrightarrow>
   cnt' = cnt + length es"
  by (induction es arbitrary: i bi ba bs cnt) (fastforce split: if_splits)+

subsection \<open>Allocation and release keep the tiling\<close>

lemma heap_invD:
  assumes "heap_inv base h"
  shows "e \<in> set (freelist h) \<Longrightarrow> 0 < snd e" and "e \<in> set (sizemap h) \<Longrightarrow> 0 < snd e"
    and "distinct (map fst (sizemap h))"
    and "covered (freelist h @ sizemap h) = mset_set {base..<base + heap_size h}"
  using assms by (auto simp: heap_inv_def)

lemma heap_inv_fresh:
  assumes "heap_inv base h" "e \<in> set (freelist h)"
  shows "fst e \<notin> dict_keys (sizemap h)"
proof
  assume "fst e \<in> dict_keys (sizemap h)"
  then obtain e' where "e' \<in> set (sizemap h)" "fst e = fst e'" by (auto simp: dict_keys_def)
  then show False
    using covered_disjoint [OF heap_invD(4) [OF assms(1)] assms(2)] heap_invD(1,2) [OF assms(1)] assms(2)
    by blast
qed

lemma heap_inv_update:
  assumes "heap_inv base h" "covered (fl @ sm) = covered (freelist h @ sizemap h)"
    and "\<forall>e \<in> set fl. 0 < snd e" "\<forall>e \<in> set sm. 0 < snd e" "distinct (map fst sm)"
  shows "heap_inv base (h\<lparr>freelist := fl, sizemap := sm\<rparr>)"
  using assms unfolding heap_inv_def by (simp add: ball_Un)

lemma heap_inv_add:
  assumes "heap_inv base h" "covered fl + cells (a, n) = covered (freelist h)"
    and "\<forall>e \<in> set fl. 0 < snd e" "0 < n" "a \<notin> dict_keys (sizemap h)"
  shows "heap_inv base (h\<lparr>freelist := fl, sizemap := sizemap h @ [(a, n)]\<rparr>)"
proof (rule heap_inv_update [OF assms(1)])
  show "covered (fl @ sizemap h @ [(a, n)]) = covered (freelist h @ sizemap h)"
    using assms(2) by (simp flip: assms(2) add: ac_simps)
qed (use assms heap_invD [OF assms(1)] in \<open>auto simp: dict_keys_def\<close>)

lemma addToMap_fresh:
  "addr \<notin> dict_keys (sizemap h) \<Longrightarrow> addToMap addr sz h = Inr (h\<lparr>sizemap := sizemap h @ [(addr, sz)]\<rparr>)"
  by (simp add: addToMap_def dict_set_fresh)

text \<open>The three outcomes of \<open>malloc\<close>: failure, a split and a perfect match.\<close>

lemma malloc_cases:
  assumes inv: "heap_inv base h"
  obtains (fail) cnt where "malloc sz h = Inr ((- 1, cnt), h)"
      "\<forall>e \<in> set (freelist h). snd e < padded h sz"
  | (split) k a s cnt where "chosen (policy h) (padded h sz) (freelist h) k"
      "freelist h ! k = (a, s)" "padded h sz < s"
      "malloc sz h = Inr ((a, cnt), h\<lparr>freelist := (freelist h)[k := (a + padded h sz, s - padded h sz)],
         sizemap := sizemap h @ [(a, padded h sz)]\<rparr>)"
  | (match) k a s cnt where "chosen (policy h) (padded h sz) (freelist h) k"
      "freelist h ! k = (a, s)" "s = padded h sz"
      "malloc sz h = Inr ((a, cnt), h\<lparr>freelist := delete_at k (freelist h),
         sizemap := sizemap h @ [(a, padded h sz)]\<rparr>)"
proof -
  obtain bi ba bs cnt where
    res: "search (policy h) (padded h sz) 0 (freelist h) (search_start h) = (bi, ba, bs, cnt)"
    by (metis prod_cases4)
  from search_chosen [OF inv res] show ?thesis
  proof (elim disjE exE conjE)
    assume "bi = - 1" and "\<forall>e\<in>set (freelist h). snd e < padded h sz"
    then show ?thesis using res by (intro fail [of cnt]) (simp_all add: malloc_def)
  next
    fix k assume k: "bi = int k" "freelist h ! k = (ba, bs)" "chosen (policy h) (padded h sz) (freelist h) k"
    then have len: "k < length (freelist h)" and fits: "padded h sz \<le> bs" by (auto simp: chosen_def)
    then have "(ba, bs) \<in> set (freelist h)" using k(2) by (metis nth_mem)
    then have fresh: "ba \<notin> dict_keys (sizemap h)" using heap_inv_fresh [OF inv] by fastforce
    show ?thesis
    proof (cases "padded h sz < bs")
      case True
      show ?thesis
        by (rule split [OF k(3,2) True, of cnt])
          (use k res True fresh in \<open>simp add: malloc_def addToMap_fresh Let_def\<close>)
    next
      case False
      with fits have eq: "bs = padded h sz" by simp
      show ?thesis
        by (rule match [OF k(3,2) eq, of cnt])
          (use k res eq fresh in \<open>simp add: malloc_def addToMap_fresh Let_def\<close>)
    qed
  qed
qed

lemma malloc_keeps:
  assumes inv: "heap_inv base h" and pos: "0 < padded h sz"
  shows "\<exists>p cnt h'. malloc sz h = Inr ((p, cnt), h') \<and> heap_inv base h' \<and> heap_size h' = heap_size h \<and>
           headerSize h' = headerSize h \<and> align h' = align h \<and> policy h' = policy h"
proof -
  let ?n = "padded h sz"
  have fresh: "a \<notin> dict_keys (sizemap h)" if "k < length (freelist h)" "freelist h ! k = (a, s)" for k a s
    using heap_inv_fresh [OF inv, of "(a, s)"] that by (metis fst_conv nth_mem)
  show ?thesis
    using inv
  proof (cases rule: malloc_cases [where sz = sz])
    case (fail cnt)
    then show ?thesis using inv by simp
  next
    case (split k a s cnt)
    have k: "k < length (freelist h)" using split(1) by (simp add: chosen_def)
    have m: "mset (freelist h) = add_mset (a, s) (mset (delete_at k (freelist h)))"
      using mset_delete_at [OF k] split(2) by simp
    have m': "mset ((freelist h)[k := e]) = add_mset e (mset (delete_at k (freelist h)))" for e
      using k m by (simp add: mset_update split(2))
    have "cells (a, s) = cells (a, ?n) + cells (a + ?n, s - ?n)"
      using cells_split [of ?n s a] pos split(3) by simp
    then have c: "covered ((freelist h)[k := (a + ?n, s - ?n)]) + cells (a, ?n) = covered (freelist h)"
      using covered_add [OF m] covered_add [OF m'] by (simp add: ac_simps)
    have "0 < snd e" if "e \<in> set ((freelist h)[k := (a + ?n, s - ?n)])" for e
      using that set_update_subset_insert [of "freelist h" k "(a + ?n, s - ?n)"]
        heap_invD(1) [OF inv, of e] split(3) by auto
    then show ?thesis
      using heap_inv_add [OF inv c _ pos fresh [OF k split(2)]] split(4) by auto
  next
    case (match k a s cnt)
    have k: "k < length (freelist h)" using match(1) by (simp add: chosen_def)
    have m: "mset (freelist h) = add_mset (a, s) (mset (delete_at k (freelist h)))"
      using mset_delete_at [OF k] match(2) by simp
    have c: "covered (delete_at k (freelist h)) + cells (a, ?n) = covered (freelist h)"
      using covered_add [OF m] match(3) by (simp add: ac_simps)
    have "0 < snd e" if "e \<in> set (delete_at k (freelist h))" for e
      using that set_delete_at_subset [of k "freelist h"] heap_invD(1) [OF inv, of e] by auto
    then show ?thesis
      using heap_inv_add [OF inv c _ pos fresh [OF k match(2)]] match(4) by auto
  qed
qed

lemma mset_insert_extent [simp]: "mset (insert_extent ord e es) = add_mset e (mset es)"
  by (simp add: insert_extent_def split: list_order.splits)

lemma insert_extent_not_Nil: "insert_extent ord e es \<noteq> []"
  by (metis add_mset_not_empty mset.simps(1) mset_insert_extent)

lemma coalesce_loop_covered:
  "0 < snd cur \<Longrightarrow> \<forall>e \<in> set es. 0 < snd e \<Longrightarrow>
   covered (coalesce_loop cur es acc) = covered acc + cells cur + covered es"
proof (induction es arbitrary: cur acc)
  case (Cons e es)
  then show ?case using cells_join [of "snd cur" "snd e" "fst cur"] by (cases e) (auto simp: ac_simps)
qed simp

lemma coalesce_loop_pos:
  "0 < snd cur \<Longrightarrow> \<forall>e \<in> set es. 0 < snd e \<Longrightarrow> \<forall>e \<in> set acc. 0 < snd e \<Longrightarrow>
   \<forall>e \<in> set (coalesce_loop cur es acc). 0 < snd e"
proof (induction es arbitrary: cur acc)
  case (Cons e es)
  show ?case
  proof (cases "fst e = fst cur + snd cur")
    case True
    then show ?thesis using Cons.IH [of "(fst cur, snd cur + snd e)" acc] Cons.prems by (cases e) simp
  next
    case False
    then show ?thesis using Cons.IH [of e "acc @ [cur]"] Cons.prems by (cases e) simp
  qed
qed simp

lemma coalesce_list_keeps:
  assumes "es \<noteq> []" "\<forall>e \<in> set es. 0 < snd e"
  shows "\<exists>es'. coalesce_list es = Inr es' \<and> covered es' = covered es \<and> (\<forall>e \<in> set es'. 0 < snd e)"
proof -
  obtain e es' where es: "es = e # es'" using assms(1) by (cases es) auto
  show ?thesis
    using assms coalesce_loop_covered [of e es' "[]"] coalesce_loop_pos [of e es' "[]"]
    by (simp add: coalesce_list_def es)
qed

lemma free_unknown: "addr \<notin> dict_keys (sizemap h) \<Longrightarrow> free addr h = Inr (- 1, h)"
  by (auto simp: free_def dict_keys_map_of split: option.splits)

lemma free_keeps:
  assumes inv: "heap_inv base h" and key: "addr \<in> dict_keys (sizemap h)"
  shows "\<exists>h'. free addr h = Inr (0, h') \<and> heap_inv base h' \<and> heap_size h' = heap_size h \<and>
           headerSize h' = headerSize h \<and> align h' = align h \<and> sizemap h' = dict_del addr (sizemap h) \<and>
           coalesce h' = coalesce h \<and> returnPolicy h' = returnPolicy h"
proof -
  obtain sz where sz: "map_of (sizemap h) addr = Some sz" using key by (auto simp: dict_keys_map_of)
  let ?fl = "insert_extent (returnPolicy h) (addr, sz) (freelist h)"
  have m: "mset (sizemap h) = add_mset (addr, sz) (mset (dict_del addr (sizemap h)))"
    by (rule mset_dict_del [OF heap_invD(3) [OF inv] sz])
  have "(addr, sz) \<in> set (sizemap h)" using sz by (rule map_of_SomeD)
  then have "0 < sz" using heap_invD(2) [OF inv] by fastforce
  then have pos: "\<forall>e \<in> set ?fl. 0 < snd e"
    using heap_invD(1) [OF inv] by (auto simp flip: set_mset_mset)
  have "covered ?fl = cells (addr, sz) + covered (freelist h)" by (rule covered_add) simp
  then have cov: "covered (?fl @ dict_del addr (sizemap h)) = covered (freelist h @ sizemap h)"
    using covered_add [OF m] by (simp add: ac_simps)
  have "\<exists>fl'. (if coalesce h then coalesce_list ?fl else Inr ?fl) = Inr fl' \<and> covered fl' = covered ?fl \<and>
      (\<forall>e \<in> set fl'. 0 < snd e)"
    using coalesce_list_keeps [OF insert_extent_not_Nil pos] pos by simp
  then obtain fl' where fl': "(if coalesce h then coalesce_list ?fl else Inr ?fl) = Inr fl'"
    "covered fl' = covered ?fl" "\<forall>e \<in> set fl'. 0 < snd e" by blast
  have "heap_inv base (h\<lparr>freelist := fl', sizemap := dict_del addr (sizemap h)\<rparr>)"
  proof (rule heap_inv_update [OF inv])
    show "covered (fl' @ dict_del addr (sizemap h)) = covered (freelist h @ sizemap h)"
      using fl'(2) cov by simp
  qed (use fl'(3) heap_invD [OF inv] distinct_dict_del in \<open>auto simp: dict_del_def\<close>)
  then show ?thesis using fl'(1) sz by (auto simp: free_def Let_def)
qed


section \<open>Sequences of operations\<close>

datatype heap_op = Alloc int | Release int

definition heap_step :: "heap_op \<Rightarrow> heap \<Rightarrow> heap res" where
  "heap_step x h =
     (case x of
        Alloc n \<Rightarrow> rbind (malloc n h) (\<lambda>(_, h'). Inr h')
      | Release a \<Rightarrow> rbind (free a h) (\<lambda>(_, h'). Inr h'))"

definition heap_ok :: "int \<Rightarrow> heap \<Rightarrow> bool" where
  "heap_ok base h \<longleftrightarrow> heap_inv base h \<and> 0 \<le> headerSize h \<and> (align h = - 1 \<or> 0 < align h)"

definition legal_op :: "heap_op \<Rightarrow> bool" where
  "legal_op x = (case x of Alloc n \<Rightarrow> 0 < n | Release a \<Rightarrow> True)"

lemma padded_ge:
  assumes "0 \<le> headerSize h" "align h = - 1 \<or> 0 < align h"
  shows "n \<le> padded h n"
proof (cases "align h = - 1")
  case False
  then have "n mod align h < align h" using assms(2) by simp
  then show ?thesis using False assms(1) by (simp add: padded_def Let_def)
qed (use assms in \<open>simp add: padded_def\<close>)

lemma malloc_ok:
  assumes "heap_ok base h" "0 < n"
  shows "\<exists>p cnt h'. malloc n h = Inr ((p, cnt), h') \<and> heap_ok base h'"
proof -
  have "0 < padded h n" using padded_ge [of h n] assms by (auto simp: heap_ok_def)
  then show ?thesis using malloc_keeps [of base h n] assms by (auto simp: heap_ok_def)
qed

lemma free_ok:
  assumes "heap_ok base h"
  shows "\<exists>rc h'. free a h = Inr (rc, h') \<and> heap_ok base h'"
proof (cases "a \<in> dict_keys (sizemap h)")
  case True
  then show ?thesis using free_keeps [of base h a] assms by (auto simp: heap_ok_def)
next
  case False
  then show ?thesis using free_unknown assms by auto
qed

lemma heap_step_total: "heap_ok base h \<Longrightarrow> legal_op x \<Longrightarrow> \<exists>h'. heap_step x h = Inr h' \<and> heap_ok base h'"
proof (cases x)
  case (Alloc n)
  assume "heap_ok base h" "legal_op x"
  then show ?thesis using malloc_ok [of base h n] Alloc by (auto simp: heap_step_def legal_op_def)
next
  case (Release a)
  assume "heap_ok base h"
  then show ?thesis using free_ok [of base h a] Release by (auto simp: heap_step_def)
qed

lemma malloc_frame: "malloc n h = Inr ((p, cnt), h') \<Longrightarrow>
    returnPolicy h' = returnPolicy h \<and> coalesce h' = coalesce h \<and> heap_size h' = heap_size h"
  by (auto simp: malloc_def Let_def rbind_eq_Inr addToMap_def split: prod.splits if_splits)

lemma free_frame: "free a h = Inr (rc, h') \<Longrightarrow>
    returnPolicy h' = returnPolicy h \<and> coalesce h' = coalesce h \<and> heap_size h' = heap_size h"
  by (auto simp: free_def Let_def rbind_eq_Inr split: option.splits)

lemma heap_step_frame: "heap_step x h = Inr h' \<Longrightarrow>
    returnPolicy h' = returnPolicy h \<and> coalesce h' = coalesce h \<and> heap_size h' = heap_size h"
  by (auto simp: heap_step_def rbind_eq_Inr dest: malloc_frame free_frame split: heap_op.splits)

text \<open>
  The interface of \<open>total_system\<close> on the allocator: the operations are restricted to legal ones
  (allocations of at least one unit), for which the invariant is kept and no assertion fails.
\<close>

definition guarded_step :: "heap_op \<Rightarrow> heap \<Rightarrow> heap res" where
  "guarded_step x h = (if legal_op x then heap_step x h else Inr h)"

interpretation heap_sys: total_system guarded_step
    "\<lambda>h. heap_ok base h \<and> heap_size h = n" legal_op for base n
proof unfold_locales
  fix h x h' assume "heap_ok base h \<and> heap_size h = n" "guarded_step x h = Inr h'"
  then show "heap_ok base h' \<and> heap_size h' = n"
    using heap_step_total [of base h x] heap_step_frame [of x h h']
    by (auto simp: guarded_step_def split: if_splits)
next
  fix h x assume "heap_ok base h \<and> heap_size h = n" "legal_op x"
  then show "\<exists>h'. guarded_step x h = Inr h'"
    using heap_step_total [of base h x] by (auto simp: guarded_step_def)
qed

lemma guarded_run: "\<forall>x \<in> set xs. legal_op x \<Longrightarrow> rfold guarded_step xs h = rfold heap_step xs h"
  by (induction xs arbitrary: h) (auto simp: guarded_step_def intro!: rbind_cong)

lemma malloc_init_ok:
  assumes "0 < sz" "0 \<le> hdr" "malloc_init sz base hdr pol ord coal algn = Inr h"
  shows "heap_ok base h" and "freelist h = [(base, sz)]" and "sizemap h = []" and "heap_size h = sz"
    and "coalesce h = coal" and "order_of ord = Inr (returnPolicy h)" and "policy_of pol = Inr (policy h)"
  using assms by (auto simp: malloc_init_def heap_ok_def heap_inv_def cells_def rbind_eq_Inr)

lemma heap_run_ok:
  assumes "0 < sz" "0 \<le> hdr" "malloc_init sz base hdr pol ord coal algn = Inr h"
    and "\<forall>x \<in> set xs. legal_op x"
  shows "\<exists>h'. rfold heap_step xs h = Inr h' \<and> heap_ok base h' \<and> heap_size h' = sz"
  using heap_sys.run_total [of base h sz xs] malloc_init_ok [OF assms(1-3)] assms(4)
  by (simp add: guarded_run)

section \<open>Full coalescing\<close>

text \<open>
  With the list sorted by address and coalescing on, every extent of the free list ends strictly
  before the next one starts: no two neighbours can be merged.
\<close>

definition separated :: "extent list \<Rightarrow> bool" where
  "separated es \<longleftrightarrow> sorted_wrt (\<lambda>e e'. fst e + snd e < fst e') es"

lemma covered_sep:
  assumes "covered es = mset_set S - M" "i < j" "j < length es" "0 < snd (es ! i)" "0 < snd (es ! j)"
    and "fst (es ! i) \<le> fst (es ! j)"
  shows "fst (es ! i) + snd (es ! i) \<le> fst (es ! j)"
proof (rule ccontr)
  assume n: "\<not> ?thesis"
  let ?x = "fst (es ! j)"
  have "es = take j es @ es ! j # drop (Suc j) es" using assms(3) by (rule id_take_nth_drop)
  then have "covered es = covered (take j es) + (cells (es ! j) + covered (drop (Suc j) es))"
    using covered_simps(2,3) by metis
  moreover have "es ! i \<in> set (take j es)" using assms(2,3) by (auto simp: in_set_conv_nth intro!: exI [of _ i])
  then have "1 \<le> count (covered (take j es)) ?x"
    using covered_count_mono [of "es ! i" "take j es" ?x] assms(6) n by (simp add: count_cells)
  moreover have "count (cells (es ! j)) ?x = 1" using assms(5) by (simp add: count_cells)
  ultimately have "2 \<le> count (covered es) ?x" by (simp only: plus_multiset.rep_eq)
  moreover have "count (covered es) ?x \<le> 1"
    unfolding assms(1) by (simp add: count_mset_set')
  ultimately show False by simp
qed

lemma coalesce_loop_separated:
  assumes "sorted_wrt (\<lambda>e e'. fst e + snd e \<le> fst e') (acc @ cur # es)"
    and "separated (acc @ [cur])" and "\<forall>e \<in> set es. 0 < snd e" "0 < snd cur"
  shows "separated (coalesce_loop cur es acc)"
  using assms
proof (induction es arbitrary: cur acc)
  case (Cons e es)
  obtain a n where e: "e = (a, n)" by (cases e)
  show ?case
  proof (cases "a = fst cur + snd cur")
    case True
    have "separated (acc @ [(fst cur, snd cur + n)])"
      using Cons.prems(2) by (simp add: separated_def sorted_wrt_append)
    moreover have "sorted_wrt (\<lambda>e e'. fst e + snd e \<le> fst e') (acc @ (fst cur, snd cur + n) # es)"
      using Cons.prems(1) True e by (force simp: sorted_wrt_append)
    ultimately show ?thesis
      using Cons.IH [of acc "(fst cur, snd cur + n)"] Cons.prems(3,4) True e by simp
  next
    case False
    have "separated ((acc @ [cur]) @ [e])"
      using Cons.prems(1,2,4) False e by (force simp: separated_def sorted_wrt_append)
    then show ?thesis using Cons.IH [of "acc @ [cur]" e] Cons.prems False e by simp
  qed
qed (simp add: separated_def)

lemma sorted_wrt_delete_at: "sorted_wrt P xs \<Longrightarrow> sorted_wrt P (delete_at k xs)"
proof (induction xs arbitrary: k)
  case (Cons x xs)
  then show ?case using set_delete_at_subset by (cases k) (fastforce)+
qed simp

lemma malloc_separated:
  assumes inv: "heap_inv base h" and sep: "separated (freelist h)" and pos: "0 < padded h sz"
    and m: "malloc sz h = Inr ((p, cnt), h')"
  shows "separated (freelist h')"
  using inv
proof (cases rule: malloc_cases [where sz = sz])
  case (fail c)
  then show ?thesis using m sep by simp
next
  case (match k a s c)
  then show ?thesis using m sep sorted_wrt_delete_at by (auto simp: separated_def)
next
  case (split k a s c)
  have k: "k < length (freelist h)" using split(1) by (simp add: chosen_def)
  have "separated ((freelist h)[k := (a + padded h sz, s - padded h sz)])"
    unfolding separated_def sorted_wrt_iff_nth_less
  proof (intro allI impI)
    fix i j assume ij: "i < j" "j < length ((freelist h)[k := (a + padded h sz, s - padded h sz)])"
    have "fst (freelist h ! i) + snd (freelist h ! i) < fst (freelist h ! j)"
      using sep ij unfolding separated_def sorted_wrt_iff_nth_less by simp
    then show "fst ((freelist h)[k := (a + padded h sz, s - padded h sz)] ! i) +
        snd ((freelist h)[k := (a + padded h sz, s - padded h sz)] ! i)
        < fst ((freelist h)[k := (a + padded h sz, s - padded h sz)] ! j)"
      using ij k split(2,3) pos by (auto simp: nth_list_update)
  qed
  then show ?thesis using m split(4) by auto
qed

lemma free_separated:
  assumes inv: "heap_inv base h" and sep: "separated (freelist h)"
    and pol: "returnPolicy h = ADDRSORT" "coalesce h"
    and f: "free a h = Inr (rc, h')"
  shows "separated (freelist h')"
proof (cases "map_of (sizemap h) a")
  case None
  then show ?thesis using f sep by (simp add: free_def)
next
  case (Some sz)
  let ?fl = "sort_key fst (freelist h @ [(a, sz)])"
  have mem: "(a, sz) \<in> set (sizemap h)" using Some by (rule map_of_SomeD)
  have pos: "\<forall>e \<in> set ?fl. 0 < snd e"
    using heap_invD(1,2) [OF inv] mem by fastforce
  have "mset (sizemap h) = add_mset (a, sz) (mset (dict_del a (sizemap h)))"
    by (rule mset_dict_del [OF heap_invD(3) [OF inv] Some])
  then have "covered (sizemap h) = cells (a, sz) + covered (dict_del a (sizemap h))"
    by (rule covered_add)
  then have cov: "covered ?fl = mset_set {base..<base + heap_size h} - covered (dict_del a (sizemap h))"
    using heap_invD(4) [OF inv] by (simp flip: heap_invD(4) [OF inv] add: ac_simps)
  have sorted: "sorted (map fst ?fl)" by simp
  have "fst (?fl ! i) + snd (?fl ! i) \<le> fst (?fl ! j)" if "i < j" "j < length ?fl" for i j
  proof (rule covered_sep [OF cov that])
    show "0 < snd (?fl ! i)" "0 < snd (?fl ! j)"
      using pos that by (meson nth_mem order_less_trans)+
    show "fst (?fl ! i) \<le> fst (?fl ! j)"
      using sorted_nth_mono [OF sorted, of i j] that by simp
  qed
  then have "sorted_wrt (\<lambda>e e'. fst e + snd e \<le> fst e') ?fl"
    by (simp add: sorted_wrt_iff_nth_less)
  moreover obtain e es where es: "?fl = e # es" by (cases ?fl) (auto dest: arg_cong [of _ _ length])
  ultimately have "separated (coalesce_loop e es [])"
    using coalesce_loop_separated [of "[]" e es] pos by (simp add: separated_def)
  then show ?thesis
    using f Some pol es by (auto simp: free_def insert_extent_def coalesce_list_def Let_def)
qed


lemma separated_whole:
  assumes "separated es" "\<forall>e \<in> set es. 0 < snd e" "covered es = mset_set {base..<base + n}" "0 < n"
  shows "es = [(base, n)]"
proof (cases es)
  case Nil
  with assms(3,4) show ?thesis by (simp add: mset_set_empty_iff)
next
  case (Cons e es')
  have in_cover: "x \<in># covered fs \<longleftrightarrow> (\<exists>e \<in> set fs. fst e \<le> x \<and> x < fst e + snd e)" for x fs
    by (induction fs) (auto simp: cells_def)
  have e: "base \<le> fst e" "fst e + snd e \<le> base + n" "0 < snd e"
    using extent_le_heap(2,3) [OF assms(3), of e] assms(2,4) Cons by auto
  have later: "fst e + snd e < fst x" if "x \<in> set es'" for x
    using assms(1) Cons that by (simp add: separated_def)
  have "base \<in># covered es" using assms(3,4) by simp
  then have "fst e = base" using in_cover [of base es] e later Cons by force
  moreover have "fst e + snd e = base + n"
  proof (rule ccontr)
    assume "fst e + snd e \<noteq> base + n"
    then have "fst e + snd e \<in># covered es" using assms(3) e by simp
    then show False using in_cover [of "fst e + snd e" es] later Cons e(3) by force
  qed
  moreover have "es' = []"
  proof (rule ccontr)
    assume "es' \<noteq> []"
    then obtain x where "x \<in> set es'" by (cases es') auto
    then show False
      using later [of x] extent_le_heap(3) [OF assms(3), of x] assms(2,4) Cons \<open>fst e + snd e = base + n\<close>
      by fastforce
  qed
  ultimately show ?thesis using Cons by (cases e) auto
qed

definition full_coalescing :: "int \<Rightarrow> heap \<Rightarrow> bool" where
  "full_coalescing base h \<longleftrightarrow> heap_ok base h \<and> separated (freelist h) \<and>
     returnPolicy h = ADDRSORT \<and> coalesce h"

lemma guarded_full_coalescing:
  assumes "full_coalescing base h" "guarded_step x h = Inr h'"
  shows "full_coalescing base h' \<and> heap_size h' = heap_size h"
proof (cases "legal_op x")
  case False
  then show ?thesis using assms by (simp add: guarded_step_def)
next
  case True
  have ok: "heap_ok base h'"
    using heap_sys.step_keeps [of base h "heap_size h" x h'] assms by (auto simp: full_coalescing_def)
  show ?thesis
  proof (cases x)
    case (Alloc n)
    then obtain p c where m: "malloc n h = Inr ((p, c), h')"
      using assms(2) True by (auto simp: guarded_step_def heap_step_def)
    have "0 < padded h n" using padded_ge [of h n] assms(1) True Alloc
      by (auto simp: full_coalescing_def heap_ok_def legal_op_def)
    then have "separated (freelist h')" using malloc_separated [OF _ _ _ m] assms(1)
      by (auto simp: full_coalescing_def heap_ok_def)
    then show ?thesis using ok malloc_frame [OF m] assms(1) by (simp add: full_coalescing_def)
  next
    case (Release a)
    then obtain rc where f: "free a h = Inr (rc, h')"
      using assms(2) True by (auto simp: guarded_step_def heap_step_def)
    then have "separated (freelist h')" using free_separated [OF _ _ _ _ f] assms(1)
      by (auto simp: full_coalescing_def heap_ok_def)
    then show ?thesis using ok free_frame [OF f] assms(1) by (simp add: full_coalescing_def)
  qed
qed

interpretation coalesced: step_system guarded_step
    "\<lambda>h. full_coalescing base h \<and> heap_size h = n" for base n
  by unfold_locales (use guarded_full_coalescing in blast)

section \<open>The random driver\<close>

text \<open>
  What the random driver keeps: its table of pointers is injective, its keys are the live operation
  numbers, all below the next one, and every pointer is allocated in the heap.
\<close>

definition driver_ok :: "int \<Rightarrow> driver \<Rightarrow> bool" where
  "driver_ok base d \<longleftrightarrow> heap_ok base (mem d) \<and>
     mset (map fst (ptrs d)) = mset (live d) \<and> distinct (live d) \<and> (\<forall>c \<in> set (live d). c < next_c d) \<and>
     distinct (map snd (ptrs d)) \<and> snd ` set (ptrs d) \<subseteq> dict_keys (sizemap (mem d))"

lemma malloc_keys:
  assumes "heap_inv base h" "malloc n h = Inr ((p, cnt), h')"
  shows "(p = - 1 \<and> h' = h) \<or> (p \<notin> dict_keys (sizemap h) \<and> dict_keys (sizemap h') = insert p (dict_keys (sizemap h)))"
  using assms(1)
proof (cases rule: malloc_cases [where sz = n])
  case (split k a s c)
  then have "(a, s) \<in> set (freelist h)" by (auto simp: chosen_def dest: nth_mem)
  then show ?thesis using split(4) assms heap_inv_fresh [OF assms(1), of "(a, s)"]
    by (auto simp: dict_keys_def)
next
  case (match k a s c)
  then have "(a, s) \<in> set (freelist h)" by (auto simp: chosen_def dest: nth_mem)
  then show ?thesis using match(4) assms heap_inv_fresh [OF assms(1), of "(a, s)"]
    by (auto simp: dict_keys_def)
qed (use assms in auto)

lemma do_alloc_ok:
  assumes ok: "driver_ok base d" and n: "0 < n"
  shows "\<exists>d'. do_alloc n True d = Inr d' \<and> driver_ok base d'"
proof -
  obtain p cnt h' where m: "malloc n (mem d) = Inr ((p, cnt), h')" and h': "heap_ok base h'"
    using malloc_ok [of base "mem d" n] ok n by (auto simp: driver_ok_def)
  have inv: "heap_inv base (mem d)" using ok by (auto simp: driver_ok_def heap_ok_def)
  have "set (live d) = fst ` set (ptrs d)" using ok
    by (metis driver_ok_def list.set_map mset_eq_setD)
  then have "next_c d \<notin> dict_keys (ptrs d)"
    using ok by (auto simp: driver_ok_def dict_keys_def)
  moreover have "p \<notin> snd ` set (ptrs d)" if "p \<noteq> - 1"
    using malloc_keys [OF inv m] that ok by (auto simp: driver_ok_def)
  ultimately show ?thesis
    using m h' ok malloc_keys [OF inv m]
    by (auto simp: do_alloc_def driver_ok_def dict_set_fresh image_Un)
qed

lemma driver_free_ok:
  assumes ok: "driver_ok base d" and "ptrs d \<noteq> []" "valid_draw r"
  shows "\<exists>c a rc h. let i = pick r (length (live d)) in
     py_get (live d) (int i) = Inr c \<and> dict_get (ptrs d) c = Inr a \<and> free a (mem d) = Inr (rc, h) \<and> rc = 0 \<and>
     driver_ok base (d\<lparr>mem := h, ptrs := dict_del c (ptrs d), live := delete_at i (live d), printed := pr c h\<rparr>)"
proof -
  let ?i = "pick r (length (live d))"
  let ?c = "live d ! ?i"
  have keys: "mset (map fst (ptrs d)) = mset (live d)" using ok by (simp add: driver_ok_def)
  then have len: "length (live d) = length (ptrs d)" by (metis length_map size_mset)
  have i: "?i < length (live d)" using pick_less [OF assms(3)] assms(2) len by simp
  have dk: "distinct (map fst (ptrs d))" using keys ok by (metis driver_ok_def mset_eq_imp_distinct_iff)
  have "?c \<in> fst ` set (ptrs d)" using i keys by (metis list.set_map mset_eq_setD nth_mem)
  then obtain a where a: "map_of (ptrs d) ?c = Some a"
    by (metis dict_keys_def dict_keys_map_of)
  then have mem: "(?c, a) \<in> set (ptrs d)" by (rule map_of_SomeD)
  then have "a \<in> dict_keys (sizemap (mem d))" using ok by (force simp: driver_ok_def)
  then obtain h where h: "free a (mem d) = Inr (0, h)" "heap_ok base h"
    "sizemap h = dict_del a (sizemap (mem d))"
    using free_keeps [of base "mem d" a] ok by (auto simp: driver_ok_def heap_ok_def)
  have m: "mset (ptrs d) = add_mset (?c, a) (mset (dict_del ?c (ptrs d)))"
    by (rule mset_dict_del [OF dk a])
  have "mset (map snd (ptrs d)) = add_mset a (mset (map snd (dict_del ?c (ptrs d))))"
    using m by (metis image_mset_add_mset mset_map snd_conv)
  then have "distinct (map snd (ptrs d)) = distinct (a # map snd (dict_del ?c (ptrs d)))"
    by (intro mset_eq_imp_distinct_iff) (simp only: mset.simps)
  moreover have "distinct (map snd (ptrs d))" using ok by (simp only: driver_ok_def)
  ultimately have d2: "distinct (map snd (dict_del ?c (ptrs d)))" "a \<notin> snd ` set (dict_del ?c (ptrs d))"
    by simp_all
  have k: "mset (map fst (dict_del ?c (ptrs d))) = mset (delete_at ?i (live d))"
  proof -
    have "add_mset ?c (mset (map fst (dict_del ?c (ptrs d)))) = mset (map fst (ptrs d))"
      using m by (simp only: mset_map image_mset_add_mset fst_conv)
    also have "\<dots> = add_mset ?c (mset (delete_at ?i (live d)))"
      using keys mset_delete_at [OF i] by (simp only:)
    finally show ?thesis by (simp only: add_mset_add_mset_same_iff)
  qed
  have sub: "snd ` set (dict_del ?c (ptrs d)) \<subseteq> dict_keys (sizemap h)"
  proof
    fix x assume x: "x \<in> snd ` set (dict_del ?c (ptrs d))"
    then have "x \<in> dict_keys (sizemap (mem d))" using ok by (auto simp: driver_ok_def dict_del_def)
    moreover have "x \<noteq> a" using x d2(2) by auto
    ultimately show "x \<in> dict_keys (sizemap h)" using h(3) by (auto simp: dict_keys_map_of)
  qed
  have less: "\<forall>c \<in> set (delete_at ?i (live d)). c < next_c d"
    using ok set_delete_at_subset [of ?i "live d"] by (auto simp: driver_ok_def)
  have dist: "distinct (delete_at ?i (live d))"
    using ok distinct_delete_at by (auto simp: driver_ok_def)
  have final: "driver_ok base (d\<lparr>mem := h, ptrs := dict_del ?c (ptrs d), live := delete_at ?i (live d), printed := pr ?c h\<rparr>)"
    unfolding driver_ok_def using k sub less dist d2(1) h(2) by simp
  have get: "py_get (live d) (int ?i) = Inr ?c" using i by (simp only: py_get_nat if_True)
  have look: "dict_get (ptrs d) ?c = Inr a" using a by (simp only: dict_get_Inr)
  show ?thesis unfolding Let_def
    by (rule exI [of _ ?c], rule exI [of _ a], rule exI [of _ 0], rule exI [of _ h])
       (intro conjI get look h(1) final refl)
qed

lemma random_ops_0: "random_ops 0 pAlloc rng ds d = Inr d"
  by (simp add: random_ops.simps [of 0])

lemma random_ops_short:
  "n \<noteq> 0 \<Longrightarrow> random_ops n pAlloc rng [] d = Inl Out_Of_Draws"
  "n \<noteq> 0 \<Longrightarrow> below a pAlloc 100 \<or> ptrs d \<noteq> [] \<Longrightarrow> random_ops n pAlloc rng [a] d = Inl Out_Of_Draws"
  by (auto simp: random_ops.simps [of n pAlloc rng "[]"] random_ops.simps [of n pAlloc rng "[a]"])

lemma random_ops_outcome:
  assumes "driver_ok base d" "0 \<le> rng" "\<forall>r \<in> set ds. valid_draw r"
  shows "(\<exists>d'. random_ops n pAlloc rng ds d = Inr d' \<and> driver_ok base d') \<or>
         random_ops n pAlloc rng ds d = Inl Out_Of_Draws"
  using assms
proof (induction n pAlloc rng ds d rule: random_ops.induct)
  case (1 n pAlloc rng ds d)
  show ?case
  proof (cases "n = 0 \<or> length ds < 2 \<and> (ds = [] \<or> below (hd ds) pAlloc 100 \<or> ptrs d \<noteq> [])")
    case True
    then show ?thesis using "1.prems"
      by (cases "n = 0"; cases ds) (auto simp: random_ops_0 random_ops_short)
  next
    case False
    then have n0: "n \<noteq> 0" by simp
    obtain r ds1 where ds: "ds = r # ds1" using False by (cases ds) auto
    show ?thesis
    proof (cases "below r pAlloc 100 \<or> ptrs d \<noteq> []")
      case skip: False
      then show ?thesis using "1.IH"(3) [OF n0 ds] "1.prems" n0 ds
        by (simp add: random_ops.simps [of n pAlloc rng "r # ds1" d])
    next
      case use2: True
      then obtain r2 ds2 where ds1: "ds1 = r2 # ds2" using False ds by (cases ds1) auto
      show ?thesis
      proof (cases "below r pAlloc 100")
        case al: True
        obtain d' where d': "do_alloc (pick_int r2 rng + 1) True d = Inr d'" "driver_ok base d'"
          using do_alloc_ok [of base d "pick_int r2 rng + 1"] pick_int_nonneg "1.prems" by fastforce
        show ?thesis using "1.IH"(1) [OF n0 ds al ds1, of d'] d' "1.prems" n0 ds ds1 al
          by (simp add: random_ops.simps [of n pAlloc rng "r # r2 # ds2" d])
      next
        case fr: False
        then have p: "ptrs d \<noteq> []" using use2 by simp
        have "valid_draw r2" using "1.prems"(3) ds ds1 by simp
        from driver_free_ok [OF "1.prems"(1) p this, of "\<lambda>c h. printed d @ [Free_Event c 0 (freelist h)]"]
        obtain c a h where
          s: "py_get (live d) (int (pick r2 (length (live d)))) = Inr c" "dict_get (ptrs d) c = Inr a"
          "free a (mem d) = Inr (0, h)"
          "driver_ok base (d\<lparr>mem := h, ptrs := dict_del c (ptrs d),
             live := delete_at (pick r2 (length (live d))) (live d),
             printed := printed d @ [Free_Event c 0 (freelist h)]\<rparr>)"
          unfolding Let_def by blast
        show ?thesis
          using "1.IH"(2) [OF n0 ds fr p ds1 refl s(1,2)] s "1.prems" n0 ds ds1 fr p
          by (simp add: Let_def random_ops.simps [of n pAlloc rng "r # r2 # ds2" d])
      qed
    qed
  qed
qed


lemma random_ops_enough:
  assumes "driver_ok base d" "0 \<le> rng" "\<forall>r \<in> set ds. valid_draw r"
    and "2 * n + length (filter (\<lambda>r. \<not> below r pAlloc 100) ds) \<le> length ds"
  shows "random_ops n pAlloc rng ds d \<noteq> Inl Out_Of_Draws"
  using assms
proof (induction n pAlloc rng ds d rule: random_ops.induct)
  case (1 n pAlloc rng ds d)
  show ?case
  proof (cases "n = 0")
    case n0: False
    have two: "2 \<le> length ds" using "1.prems"(4) n0 by linarith
    then obtain r ds1 where ds: "ds = r # ds1" by (cases ds) auto
    with two obtain r2 ds2 where ds1: "ds1 = r2 # ds2" by (cases ds1) auto
    consider (al) "below r pAlloc 100" | (fr) "\<not> below r pAlloc 100" "ptrs d \<noteq> []"
      | (skip) "\<not> below r pAlloc 100" "ptrs d = []" by blast
    then show ?thesis
    proof cases
      case al
      obtain d' where d': "do_alloc (pick_int r2 rng + 1) True d = Inr d'" "driver_ok base d'"
        using do_alloc_ok [of base d "pick_int r2 rng + 1"] pick_int_nonneg "1.prems" by fastforce
      have "2 * (n - 1) + length (filter (\<lambda>r. \<not> below r pAlloc 100) ds2) \<le> length ds2"
        using "1.prems"(4) n0 ds ds1 by (auto split: if_splits)
      then show ?thesis using "1.IH"(1) [OF n0 ds al ds1, of d'] d' "1.prems" n0 ds ds1 al
        by (simp add: random_ops.simps [of n pAlloc rng "r # r2 # ds2" d])
    next
      case fr
      have "valid_draw r2" using "1.prems"(3) ds ds1 by simp
      from driver_free_ok [OF "1.prems"(1) fr(2) this, of "\<lambda>c h. printed d @ [Free_Event c 0 (freelist h)]"]
      obtain c a h where
        s: "py_get (live d) (int (pick r2 (length (live d)))) = Inr c" "dict_get (ptrs d) c = Inr a"
        "free a (mem d) = Inr (0, h)"
        "driver_ok base (d\<lparr>mem := h, ptrs := dict_del c (ptrs d),
           live := delete_at (pick r2 (length (live d))) (live d),
           printed := printed d @ [Free_Event c 0 (freelist h)]\<rparr>)"
        unfolding Let_def by blast
      have "2 * (n - 1) + length (filter (\<lambda>r. \<not> below r pAlloc 100) ds2) \<le> length ds2"
        using "1.prems"(4) n0 ds ds1 by (auto split: if_splits)
      then show ?thesis
        using "1.IH"(2) [OF n0 ds fr ds1 refl s(1,2)] s "1.prems" n0 ds ds1 fr
        by (simp add: Let_def random_ops.simps [of n pAlloc rng "r # r2 # ds2" d])
    next
      case skip
      then show ?thesis using "1.IH"(3) [OF n0 ds] "1.prems" n0 ds
        by (simp add: random_ops.simps [of n pAlloc rng "r # ds1" d])
    qed
  qed (simp add: random_ops_0)
qed

lemma driver_init_ok: "heap_ok base h \<Longrightarrow> driver_ok base (driver_init h)"
  by (simp add: driver_ok_def driver_init_def)

section \<open>Properties\<close>

text \<open>
  C4. Started on a heap of positive size, any sequence of allocations of at least one unit and of
  frees (of any address, allocated or not), under every policy, list order, alignment, header
  size and coalescing choice, runs without a failed assertion or any other error, and afterwards the
  free extents and the allocated extents cover every address of the heap exactly once.
\<close>

theorem malloc_run_tiles_heap:
  assumes "0 < sz" "0 \<le> hdr" "malloc_init sz base hdr pol ord coal algn = Inr h"
    and "\<forall>x \<in> set xs. legal_op x"
  shows "\<exists>h'. rfold heap_step xs h = Inr h' \<and>
           covered (freelist h' @ sizemap h') = mset_set {base..<base + sz} \<and>
           (\<forall>e \<in> set (freelist h' @ sizemap h'). 0 < snd e)"
proof -
  obtain h' where h': "rfold heap_step xs h = Inr h'" "heap_ok base h'" "heap_size h' = sz"
    using heap_run_ok [OF assms] by blast
  then have "heap_inv base h'" by (simp add: heap_ok_def)
  then show ?thesis using heap_invD(1,2,4) [of base h'] h' by (intro exI [of _ h']) auto
qed

theorem malloc_run_tiles_heap_witness:
  "\<exists>h h'. malloc_init 100 1000 4 ''BEST'' ''SIZESORT+'' True 8 = Inr h \<and>
     rfold heap_step [Alloc 10, Alloc 5, Release 1000, Release 7, Alloc 200] h = Inr h' \<and>
     covered (freelist h' @ sizemap h') = mset_set {1000..<1000 + 100}"
proof -
  obtain h where h: "malloc_init 100 1000 4 ''BEST'' ''SIZESORT+'' True 8 = Inr h"
    by (simp add: malloc_init_def policy_of_def order_of_def)
  have "\<forall>x \<in> set [Alloc 10, Alloc 5, Release 1000, Release 7, Alloc 200]. legal_op x"
    by (simp add: legal_op_def)
  from malloc_run_tiles_heap [OF _ _ h this] show ?thesis using h by auto
qed

text \<open>
  C37. The search finds what its policy promises: \<open>malloc\<close> returns \<open>-1\<close>, leaving the heap unchanged,
  exactly when no free extent is large enough for the padded request; otherwise it returns the
  start of the first fitting extent (FIRST), the earliest of the smallest fitting ones (BEST) or the
  earliest of the largest ones (WORST), and records the padded size.
\<close>

theorem malloc_by_policy:
  assumes "heap_ok base h"
  shows "(\<exists>cnt. malloc n h = Inr ((- 1, cnt), h) \<and> (\<forall>e \<in> set (freelist h). snd e < padded h n)) \<or>
    (\<exists>k cnt h'. malloc n h = Inr ((fst (freelist h ! k), cnt), h') \<and>
       chosen (policy h) (padded h n) (freelist h) k \<and>
       sizemap h' = sizemap h @ [(fst (freelist h ! k), padded h n)])"
proof -
  have inv: "heap_inv base h" using assms by (simp add: heap_ok_def)
  then show ?thesis
  proof (cases rule: malloc_cases [where sz = n])
    case (split k a s cnt)
    then show ?thesis by - (rule disjI2, rule exI [of _ k], rule exI [of _ cnt], simp)
  next
    case (match k a s cnt)
    then show ?thesis by - (rule disjI2, rule exI [of _ k], rule exI [of _ cnt], simp)
  qed auto
qed

definition sample_heap :: heap where
  "sample_heap = \<lparr>heap_size = 100, headerSize = 0, freelist = [(1000, 20), (1030, 10), (1060, 40)],
     sizemap = [(1020, 10), (1040, 20)], policy = BEST, returnPolicy = ADDRSORT, coalesce = False,
     align = - 1\<rparr>"

lemma sample_heap_ok: "heap_ok 1000 sample_heap"
proof -
  have "cells (1000, 100) = cells (1000, 20) + cells (1020, 10) + cells (1030, 10) + cells (1040, 20)
      + cells (1060, 40)"
    using cells_join [of 20 80 1000] cells_join [of 10 70 1020] cells_join [of 10 60 1030]
      cells_join [of 20 40 1040] by (simp add: ac_simps)
  then show ?thesis
    by (simp add: heap_ok_def heap_inv_def sample_heap_def) (simp add: cells_def ac_simps)
qed

theorem malloc_by_policy_witness:
  "heap_ok 1000 sample_heap \<and>
   (\<exists>k cnt h'. malloc 7 sample_heap = Inr ((fst (freelist sample_heap ! k), cnt), h') \<and> k = 1 \<and>
      chosen (policy sample_heap) (padded sample_heap 7) (freelist sample_heap) k)"
proof -
  have m: "malloc 7 sample_heap = Inr ((1030, 3), sample_heap\<lparr>freelist := [(1000, 20), (1037, 3), (1060, 40)],
      sizemap := [(1020, 10), (1040, 20), (1030, 7)]\<rparr>)"
    by (simp add: malloc_def padded_def search_start_def addToMap_def sample_heap_def dict_keys_def)
  have three: "k = 0 \<or> k = 1 \<or> k = 2" if "k < 3" for k :: nat using that by arith
  show ?thesis
    using malloc_by_policy [OF sample_heap_ok, of 7] sample_heap_ok m
    by (auto simp: chosen_def sample_heap_def padded_def dest!: three)
qed

text \<open>
  C29. With the free list kept in address order and coalescing on, freeing everything gives the heap
  back whole: after any run at whose end nothing is allocated, the free list is the single extent
  it started with.
\<close>

theorem free_all_restores_heap:
  assumes "0 < sz" "0 \<le> hdr" "malloc_init sz base hdr pol ''ADDRSORT'' True algn = Inr h"
    and "\<forall>x \<in> set xs. legal_op x"
    and "rfold heap_step xs h = Inr h'" "sizemap h' = []"
  shows "freelist h' = freelist h"
proof -
  note init = malloc_init_ok [OF assms(1-3)]
  have "returnPolicy h = ADDRSORT" using init(6) by (simp add: order_of_def)
  then have "full_coalescing base h \<and> heap_size h = sz"
    using init by (simp add: full_coalescing_def separated_def)
  then have fin: "full_coalescing base h'" "heap_size h' = sz"
    using coalesced.run_keeps [of base h sz xs h'] assms(4,5) by (auto simp: guarded_run)
  then have "freelist h' = [(base, sz)]"
    using separated_whole [of "freelist h'" base sz] assms(1,6)
    by (auto simp: full_coalescing_def heap_ok_def heap_inv_def)
  then show ?thesis using init(2) by simp
qed

theorem free_all_restores_heap_witness:
  "\<exists>h h'. malloc_init 100 1000 0 ''BEST'' ''ADDRSORT'' True (- 1) = Inr h \<and>
     rfold heap_step [Alloc 3, Alloc 5, Alloc 8, Release 1003, Release 1000, Release 1008] h = Inr h' \<and>
     freelist h' = [(1000, 100)]"
proof -
  let ?h = "\<lparr>heap_size = 100, headerSize = 0, freelist = [(1000, 100)], sizemap = [], policy = BEST,
    returnPolicy = ADDRSORT, coalesce = True, align = - 1\<rparr>"
  let ?xs = "[Alloc 3, Alloc 5, Alloc 8, Release 1003, Release 1000, Release 1008]"
  have h: "malloc_init 100 1000 0 ''BEST'' ''ADDRSORT'' True (- 1) = Inr ?h"
    by (simp add: malloc_init_def policy_of_def order_of_def)
  have r: "\<exists>h'. rfold heap_step ?xs ?h = Inr h' \<and> sizemap h' = []"
    by (simp add: heap_step_def malloc_def padded_def search_start_def addToMap_def dict_keys_def
      free_def insert_extent_def coalesce_list_def dict_del_def)
  then obtain h' where h': "rfold heap_step ?xs ?h = Inr h'" "sizemap h' = []" by blast
  have "\<forall>x \<in> set ?xs. legal_op x" by (simp add: legal_op_def)
  from free_all_restores_heap [OF _ _ h this h'] show ?thesis using h h'(1) by auto
qed

text \<open>
  The random driver is safe: for every supply of draws it either completes, with the heap
  tiled, its pointers distinct and each of them allocated, or runs out of draws; and it
  completes whenever there are two draws per operation besides the draws that ask for a free. In
  particular no assertion, key or index error is ever raised.
\<close>

theorem random_driver_safe:
  assumes "0 < sz" "0 \<le> hdr" "malloc_init sz base hdr pol ord coal algn = Inr h"
    and "0 \<le> rng" "\<forall>r \<in> set ds. valid_draw r"
  shows "case random_ops n pAlloc rng ds (driver_init h) of
      Inl e \<Rightarrow> e = Out_Of_Draws \<and>
        length ds < 2 * n + length (filter (\<lambda>r. \<not> below r pAlloc 100) ds)
    | Inr d \<Rightarrow> heap_inv base (mem d) \<and> distinct (map snd (ptrs d)) \<and>
        snd ` set (ptrs d) \<subseteq> dict_keys (sizemap (mem d))"
proof -
  have ok: "driver_ok base (driver_init h)"
    using driver_init_ok malloc_init_ok(1) [OF assms(1-3)] by simp
  show ?thesis
  proof (cases "random_ops n pAlloc rng ds (driver_init h)")
    case (Inl e)
    then show ?thesis
      using random_ops_outcome [OF ok assms(4,5), of n pAlloc]
        random_ops_enough [OF ok assms(4,5), of n pAlloc] by (simp add: linorder_not_le [symmetric]) blast
  next
    case (Inr d)
    then show ?thesis
      using random_ops_outcome [OF ok assms(4,5), of n pAlloc] by (simp add: driver_ok_def heap_ok_def)
  qed
qed

theorem random_driver_safe_witness:
  "\<exists>h d. malloc_init 100 1000 0 ''BEST'' ''ADDRSORT'' False (- 1) = Inr h \<and>
     random_ops 2 50 10 [0, 0, 0, 0] (driver_init h) = Inr d \<and> heap_inv 1000 (mem d)"
proof -
  obtain h where h: "malloc_init 100 1000 0 ''BEST'' ''ADDRSORT'' False (- 1) = Inr h"
    by (simp add: malloc_init_def policy_of_def order_of_def)
  have v: "\<forall>r \<in> set [0, 0, 0, 0]. valid_draw r" by (simp add: valid_draw_def)
  show ?thesis
    using random_driver_safe [OF _ _ h _ v, of 10 2 50] h by (auto simp: below_def split: sum.splits)
qed

text \<open>
  The driver for an explicit operation list can fail. After a failed allocation the
  table of pointers has a gap, so a free of an index below its size raises a key error; and two
  allocations of size zero without headers get the same address and fail the assertion of
  \<open>addToMap\<close>.
\<close>

theorem list_driver_failures:
  "malloc_main (malloc_defaults\<lparr>opt_opsList := ''+200,+10,-0''\<rparr>) ds = Inl KeyError \<and>
   malloc_main (malloc_defaults\<lparr>opt_opsList := ''+0,+0''\<rparr>) ds = Inl AssertionError"
  by (simp add: malloc_main_def malloc_defaults_def malloc_init_def policy_of_def order_of_def
    list_ops_def list_op_def driver_init_def py_get_def py_int_def nat_text_def isdigit_def strip_def
    lstrip_def rstrip_def is_space_def is_digit_def digit_val_def do_alloc_def malloc_def padded_def
    search_start_def addToMap_def dict_keys_def dict_get_def)

end
