(* ===== verification/Ssd.thy ===== *)
theory Ssd
  imports PyString
begin

text \<open>
  The flash device of \<open>file-ssd/ssd.py\<close>: the raw flash (erase, program, read), the three flash
  translation layers (direct, log-structured, ideal), the garbage collector, and the command
  loop and generator of the main program. The contract of a block device is a locale; the three
  kinds of device are its interpretations. The value \<open>-1\<close> of the maps and of the cursor is \<open>None\<close>.
\<close>

section \<open>State\<close>

datatype ssd_kind = TYPE_DIRECT | TYPE_LOGGING | TYPE_IDEAL

datatype page_state = STATE_INVALID | STATE_ERASED | STATE_VALID

record ssd_conf =
  ssd_type :: ssd_kind
  num_logical_pages :: nat
  num_blocks :: nat
  pages_per_block :: nat
  gc_high_water_mark :: int
  gc_low_water_mark :: int
  block_erase_time :: int
  page_program_time :: int
  page_read_time :: int

record flash =
  state :: "page_state list"
  data :: "string list"
  physical_erase_count :: "nat list"
  physical_read_count :: "nat list"
  physical_write_count :: "nat list"
  physical_erase_sum :: nat
  physical_write_sum :: nat
  physical_read_sum :: nat

record stat_sums =
  logical_trim_sum :: nat
  logical_write_sum :: nat
  logical_read_sum :: nat
  logical_trim_fail_sum :: nat
  logical_write_fail_sum :: nat
  logical_read_fail_sum :: nat

record ssd =
  conf :: ssd_conf
  flash :: flash
  current_page :: "nat option"
  current_block :: nat
  gc_count :: nat
  gc_current_block :: nat
  gc_used_blocks :: "nat list"
  forward_map :: "nat option list"
  reverse_map :: "nat option list"
  sums :: stat_sums

definition num_pages :: "ssd \<Rightarrow> nat" where
  "num_pages s = num_blocks (conf s) * pages_per_block (conf s)"

definition ssd_kind_of :: "string \<Rightarrow> ssd_kind res" where
  "ssd_kind_of t =
     (if t = ''direct'' then Inr TYPE_DIRECT
      else if t = ''log'' then Inr TYPE_LOGGING
      else if t = ''ideal'' then Inr TYPE_IDEAL
      else Inl (SystemExit 1))"

definition ssd_init :: "string \<Rightarrow> nat \<Rightarrow> nat \<Rightarrow> nat \<Rightarrow> int \<Rightarrow> int \<Rightarrow> int \<Rightarrow> int \<Rightarrow> int \<Rightarrow> ssd res" where
  "ssd_init t lpages blocks ppb erase_t prog_t read_t high low =
     rbind (ssd_kind_of t) (\<lambda>k.
     Inr \<lparr>conf = \<lparr>ssd_type = k, num_logical_pages = lpages, num_blocks = blocks, pages_per_block = ppb,
            gc_high_water_mark = high, gc_low_water_mark = low, block_erase_time = erase_t,
            page_program_time = prog_t, page_read_time = read_t\<rparr>,
          flash = \<lparr>state = replicate (blocks * ppb) STATE_INVALID, data = replicate (blocks * ppb) '' '',
            physical_erase_count = replicate blocks 0, physical_read_count = replicate blocks 0,
            physical_write_count = replicate blocks 0, physical_erase_sum = 0, physical_write_sum = 0,
            physical_read_sum = 0\<rparr>,
          current_page = None, current_block = 0, gc_count = 0, gc_current_block = 0,
          gc_used_blocks = replicate blocks 0,
          forward_map = replicate lpages None, reverse_map = replicate (blocks * ppb) None,
          sums = \<lparr>logical_trim_sum = 0, logical_write_sum = 0, logical_read_sum = 0,
            logical_trim_fail_sum = 0, logical_write_fail_sum = 0, logical_read_fail_sum = 0\<rparr>\<rparr>)"

section \<open>The raw flash\<close>

definition blocks_in_use :: "ssd \<Rightarrow> nat" where
  "blocks_in_use s = sum_list (gc_used_blocks s)"

definition block_pages :: "ssd \<Rightarrow> nat \<Rightarrow> nat list" where
  "block_pages s b = [b * pages_per_block (conf s)..<b * pages_per_block (conf s) + pages_per_block (conf s)]"

definition bump :: "nat list \<Rightarrow> nat \<Rightarrow> nat list" where
  "bump xs i = xs[i := xs ! i + 1]"

definition physical_erase :: "nat \<Rightarrow> ssd \<Rightarrow> ssd res" where
  "physical_erase b s =
     (if b < num_blocks (conf s) then
        let f = flash s in
        Inr (s\<lparr>flash := f\<lparr>data := fold (\<lambda>p xs. xs[p := '' '']) (block_pages s b) (data f),
                          state := fold (\<lambda>p xs. xs[p := STATE_ERASED]) (block_pages s b) (state f),
                          physical_erase_count := bump (physical_erase_count f) b,
                          physical_erase_sum := physical_erase_sum f + 1\<rparr>,
               gc_used_blocks := (gc_used_blocks s)[b := 0]\<rparr>)
      else Inl KeyError)"

definition physical_program :: "nat \<Rightarrow> string \<Rightarrow> ssd \<Rightarrow> ssd res" where
  "physical_program p d s =
     (if pages_per_block (conf s) = 0 then Inl ZeroDivisionError
      else if p < num_pages s then
        let f = flash s in
        Inr (s\<lparr>flash := f\<lparr>data := (data f)[p := d], state := (state f)[p := STATE_VALID],
                          physical_write_count := bump (physical_write_count f) (p div pages_per_block (conf s)),
                          physical_write_sum := physical_write_sum f + 1\<rparr>\<rparr>)
      else Inl KeyError)"

definition physical_read :: "nat \<Rightarrow> ssd \<Rightarrow> (string \<times> ssd) res" where
  "physical_read p s =
     (if pages_per_block (conf s) = 0 then Inl ZeroDivisionError
      else if p < num_pages s then
        let f = flash s in
        Inr (data f ! p,
             s\<lparr>flash := f\<lparr>physical_read_count := bump (physical_read_count f) (p div pages_per_block (conf s)),
                          physical_read_sum := physical_read_sum f + 1\<rparr>\<rparr>)
      else Inl KeyError)"

section \<open>The translation layers\<close>

text \<open>What a logical operation returns: the code's success and failure strings, or the data read.\<close>

datatype rc =
    Success
  | Device_Full
  | Illegal_Trim_Address
  | Uninitialized_Trim
  | Illegal_Read_Address
  | Uninitialized_Read
  | Illegal_Write_Address
  | Data string

definition set_maps :: "nat \<Rightarrow> nat \<Rightarrow> ssd \<Rightarrow> ssd" where
  "set_maps l p s = s\<lparr>forward_map := (forward_map s)[l := Some p], reverse_map := (reverse_map s)[p := Some l]\<rparr>"

fun read_old :: "nat list \<Rightarrow> ssd \<Rightarrow> ((nat \<times> string) list \<times> ssd) res" where
  "read_old [] s = Inr ([], s)"
| "read_old (p # ps) s =
     (if p < num_pages s then
        if state (flash s) ! p = STATE_VALID then
          rbind (physical_read p s) (\<lambda>(d, s1).
          rbind (read_old ps s1) (\<lambda>(old, s2). Inr ((p, d) # old, s2)))
        else read_old ps s
      else Inl KeyError)"

definition write_direct :: "nat \<Rightarrow> string \<Rightarrow> ssd \<Rightarrow> (rc \<times> ssd) res" where
  "write_direct p d s =
     (if pages_per_block (conf s) = 0 then Inl ZeroDivisionError
      else
        let b = p div pages_per_block (conf s) in
        rbind (read_old (block_pages s b) s) (\<lambda>(old_list, s1).
        rbind (physical_erase b s1) (\<lambda>s2.
        rbind (rfold (\<lambda>(q, e) t. if q = p then Inr t else physical_program q e t) old_list s2) (\<lambda>s3.
        rbind (physical_program p d s3) (\<lambda>s4.
        Inr (Success, set_maps p p s4))))))"

definition write_ideal :: "nat \<Rightarrow> string \<Rightarrow> ssd \<Rightarrow> (rc \<times> ssd) res" where
  "write_ideal p d s = rbind (physical_program p d s) (\<lambda>s1. Inr (Success, set_maps p p s1))"

definition is_block_free :: "nat \<Rightarrow> ssd \<Rightarrow> (bool \<times> ssd) res" where
  "is_block_free b s =
     (let first_page = b * pages_per_block (conf s) in
      if \<not> first_page < num_pages s then Inl KeyError
      else if state (flash s) ! first_page = STATE_INVALID \<or> state (flash s) ! first_page = STATE_ERASED then
        rbind (if state (flash s) ! first_page = STATE_INVALID then physical_erase b s else Inr s) (\<lambda>s1.
        Inr (True, s1\<lparr>current_block := b, current_page := Some first_page,
                      gc_used_blocks := (gc_used_blocks s1)[b := 1]\<rparr>))
      else Inr (False, s))"

fun find_block :: "nat list \<Rightarrow> ssd \<Rightarrow> (bool \<times> ssd) res" where
  "find_block [] s = Inr (False, s)"
| "find_block (b # bs) s =
     rbind (is_block_free b s) (\<lambda>(ok, s1). if ok then Inr (True, s1) else find_block bs s1)"

text \<open>\<open>get_cursor\<close> returns 0 (here \<open>True\<close>) when there is a page to write to and \<open>-1\<close> (here \<open>False\<close>) when not.\<close>

definition get_cursor :: "ssd \<Rightarrow> (bool \<times> ssd) res" where
  "get_cursor s =
     (if current_page s = None then
        find_block ([current_block s..<num_blocks (conf s)] @ [0..<current_block s]) s
      else Inr (True, s))"

definition update_cursor :: "ssd \<Rightarrow> ssd res" where
  "update_cursor s =
     (case current_page s of
        None \<Rightarrow> Inl TypeError
      | Some p \<Rightarrow>
          if pages_per_block (conf s) = 0 then Inl ZeroDivisionError
          else Inr (s\<lparr>current_page :=
                       (if Suc p mod pages_per_block (conf s) = 0 then None else Some (Suc p))\<rparr>))"

definition write_logging :: "nat \<Rightarrow> string \<Rightarrow> ssd \<Rightarrow> (rc \<times> ssd) res" where
  "write_logging l d s =
     rbind (get_cursor s) (\<lambda>(ok, s1).
     if \<not> ok then
       Inr (Device_Full, s1\<lparr>sums := (sums s1)\<lparr>logical_write_fail_sum := logical_write_fail_sum (sums s1) + 1\<rparr>\<rparr>)
     else
       case current_page s1 of
         None \<Rightarrow> Inl KeyError
       | Some p \<Rightarrow>
           if \<not> p < num_pages s1 then Inl KeyError
           else
             rbind (py_assert (state (flash s1) ! p = STATE_ERASED)) (\<lambda>_.
             rbind (physical_program p d s1) (\<lambda>s2.
             rbind (update_cursor (set_maps l p s2)) (\<lambda>s3.
             Inr (Success, s3)))))"

section \<open>The logical interface\<close>

definition ssd_write :: "int \<Rightarrow> string \<Rightarrow> ssd \<Rightarrow> (rc \<times> ssd) res" where
  "ssd_write a d s0 =
     (let s = s0\<lparr>sums := (sums s0)\<lparr>logical_write_sum := logical_write_sum (sums s0) + 1\<rparr>\<rparr> in
      if a < 0 \<or> a \<ge> int (num_logical_pages (conf s)) then
        Inr (Illegal_Write_Address,
             s\<lparr>sums := (sums s)\<lparr>logical_write_fail_sum := logical_write_fail_sum (sums s) + 1\<rparr>\<rparr>)
      else case ssd_type (conf s) of
        TYPE_DIRECT \<Rightarrow> write_direct (nat a) d s
      | TYPE_IDEAL \<Rightarrow> write_ideal (nat a) d s
      | TYPE_LOGGING \<Rightarrow> write_logging (nat a) d s)"

definition ssd_read :: "int \<Rightarrow> ssd \<Rightarrow> (rc \<times> ssd) res" where
  "ssd_read a s0 =
     (let s = s0\<lparr>sums := (sums s0)\<lparr>logical_read_sum := logical_read_sum (sums s0) + 1\<rparr>\<rparr>;
          failed = s\<lparr>sums := (sums s)\<lparr>logical_read_fail_sum := logical_read_fail_sum (sums s) + 1\<rparr>\<rparr> in
      if a < 0 \<or> a \<ge> int (num_logical_pages (conf s)) then Inr (Illegal_Read_Address, failed)
      else case forward_map s ! nat a of
        None \<Rightarrow> Inr (Uninitialized_Read, failed)
      | Some p \<Rightarrow> rbind (physical_read p s) (\<lambda>(d, s1). Inr (Data d, s1)))"

definition ssd_trim :: "int \<Rightarrow> ssd \<Rightarrow> (rc \<times> ssd) res" where
  "ssd_trim a s0 =
     (let s = s0\<lparr>sums := (sums s0)\<lparr>logical_trim_sum := logical_trim_sum (sums s0) + 1\<rparr>\<rparr>;
          failed = s\<lparr>sums := (sums s)\<lparr>logical_trim_fail_sum := logical_trim_fail_sum (sums s) + 1\<rparr>\<rparr> in
      if a < 0 \<or> a \<ge> int (num_logical_pages (conf s)) then Inr (Illegal_Trim_Address, failed)
      else case forward_map s ! nat a of
        None \<Rightarrow> Inr (Uninitialized_Trim, failed)
      | Some _ \<Rightarrow> Inr (Success, s\<lparr>forward_map := (forward_map s)[nat a := None]\<rparr>))"

section \<open>Garbage collection\<close>

definition live_pages :: "nat \<Rightarrow> ssd \<Rightarrow> nat list" where
  "live_pages b s =
     filter (\<lambda>p. case reverse_map s ! p of None \<Rightarrow> False | Some l \<Rightarrow> forward_map s ! l = Some p) (block_pages s b)"

text \<open>Copying one live page: the result of \<open>self.write\<close> is ignored, as in the code.\<close>

definition gc_copy :: "nat \<Rightarrow> ssd \<Rightarrow> ssd res" where
  "gc_copy p s =
     rbind (physical_read p s) (\<lambda>(d, s1).
     case reverse_map s1 ! p of
       None \<Rightarrow> rbind (ssd_write (- 1) d s1) (\<lambda>(_, s2). Inr s2)
     | Some l \<Rightarrow> rbind (ssd_write (int l) d s1) (\<lambda>(_, s2). Inr s2))"

fun gc_blocks :: "nat list \<Rightarrow> ssd \<Rightarrow> ssd res" where
  "gc_blocks [] s = Inr s"
| "gc_blocks (b # bs) s =
     (if b = current_block s then gc_blocks bs s
      else if \<not> b * pages_per_block (conf s) < num_pages s then Inl KeyError
      else if state (flash s) ! (b * pages_per_block (conf s)) = STATE_ERASED then gc_blocks bs s
      else
        let live = live_pages b s in
        if length live = pages_per_block (conf s) then gc_blocks bs s
        else
          rbind (rfold gc_copy live s) (\<lambda>s1.
          rbind (physical_erase b s1) (\<lambda>s2.
          if int (blocks_in_use s2) \<le> gc_low_water_mark (conf s2) then
            Inr (s2\<lparr>gc_current_block := b, gc_count := gc_count s2 + 1\<rparr>)
          else gc_blocks bs s2)))"

definition garbage_collect :: "ssd \<Rightarrow> ssd res" where
  "garbage_collect s =
     gc_blocks ([gc_current_block s..<num_blocks (conf s)] @ [0..<gc_current_block s]) s"

definition upkeep :: "ssd \<Rightarrow> ssd res" where
  "upkeep s = (if int (blocks_in_use s) \<ge> gc_high_water_mark (conf s) then garbage_collect s else Inr s)"

section \<open>Reporting\<close>

definition printable_state :: "page_state \<Rightarrow> char" where
  "printable_state st = (case st of STATE_INVALID \<Rightarrow> CHR ''i'' | STATE_ERASED \<Rightarrow> CHR ''E'' | STATE_VALID \<Rightarrow> CHR ''v'')"

text \<open>The rows of \<open>dump\<close>: the mapped logical pages, and per page its state, data and liveness.\<close>

definition dump_ftl :: "ssd \<Rightarrow> (nat \<times> nat) list" where
  "dump_ftl s = concat (map (\<lambda>l. case forward_map s ! l of None \<Rightarrow> [] | Some p \<Rightarrow> [(l, p)])
                            [0..<num_logical_pages (conf s)])"

definition dump_pages :: "ssd \<Rightarrow> (char \<times> string \<times> char) list res" where
  "dump_pages s =
     rfold (\<lambda>p rows.
       if state (flash s) ! p = STATE_VALID then
         (case reverse_map s ! p of
            None \<Rightarrow> Inl KeyError
          | Some l \<Rightarrow> Inr (rows @ [(printable_state STATE_VALID, data (flash s) ! p,
                                   if forward_map s ! l = Some p then CHR ''+'' else CHR '' '')]))
       else Inr (rows @ [(printable_state (state (flash s) ! p), '' '', CHR '' '')]))
     [0..<num_pages s] []"

definition total_time :: "ssd \<Rightarrow> int" where
  "total_time s =
     int (physical_erase_sum (flash s)) * block_erase_time (conf s) +
     int (physical_write_sum (flash s)) * page_program_time (conf s) +
     int (physical_read_sum (flash s)) * page_read_time (conf s)"

section \<open>The main program\<close>

definition random_randint :: "draw \<Rightarrow> int \<Rightarrow> int \<Rightarrow> int" where
  "random_randint k low hi = low + pick_int k (hi - low + 1)"

text \<open>
  The command generator. \<open>hot\<close> is the option \<open>--skew\<close>: the percentage of hot writes and the largest hot
  address, \<open>int(hot_target * (max_page_addr - 1))\<close>.
\<close>

record gen_conf =
  num_cmds :: nat
  percent_reads :: nat
  percent_writes :: nat
  read_fail :: int
  max_page_addr :: int
  hot :: "(nat \<times> int) option"

definition printable :: string where
  "printable = ''0123456789abcdefghijklmnopqrstuvwxyzABCDEFGHIJKLMNOPQRSTUVWXYZ''"

datatype gen_step = Retry | Emit string "int list" nat

text \<open>One pass of the generator's loop: a command with the new valid addresses and skew counter, or a retry.\<close>

definition gen_cmd :: "gen_conf \<Rightarrow> int list \<Rightarrow> nat \<Rightarrow> draw list \<Rightarrow> (gen_step \<times> draw list) res" where
  "gen_cmd g valid_addresses skew_start ds0 =
     rbind (next_draw ds0) (\<lambda>(k, ds1).
     let which_cmd = pick k 100 in
     if which_cmd < percent_reads g then
       rbind (next_draw ds1) (\<lambda>(k2, ds2).
       if random_randint k2 0 99 < read_fail g then
         rbind (next_draw ds2) (\<lambda>(k3, ds3).
         Inr (Emit (CHR ''r'' # show_int (random_randint k3 0 (max_page_addr g - 1))) valid_addresses skew_start, ds3))
       else if length valid_addresses < 2 then Inr (Retry, ds2)
       else
         rbind (next_draw ds2) (\<lambda>(k3, ds3).
         rbind (py_get valid_addresses (random_randint k3 0 (int (length valid_addresses) - 1))) (\<lambda>a.
         Inr (Emit (CHR ''r'' # show_int a) valid_addresses skew_start, ds3))))
     else if which_cmd < percent_reads g + percent_writes g then
       rbind (case hot g of
           None \<Rightarrow> Inr (None, ds1)
         | Some (hp, hmax) \<Rightarrow>
             if skew_start = 0 then rbind (next_draw ds1) (\<lambda>(k2, ds2). Inr (if below k2 hp 100 then Some hmax else None, ds2))
             else Inr (None, ds1)) (\<lambda>(target, ds2).
       rbind (next_draw ds2) (\<lambda>(k3, ds3).
       let a = random_randint k3 0 (case target of Some hmax \<Rightarrow> hmax | None \<Rightarrow> max_page_addr g - 1);
           valid = (if a \<in> set valid_addresses then valid_addresses else valid_addresses @ [a]) in
       rbind (next_draw ds3) (\<lambda>(k4, ds4).
       rbind (py_get printable (random_randint k4 0 (int (length printable) - 1))) (\<lambda>c.
       Inr (Emit (CHR ''w'' # show_int a @ [CHR '':'', c]) valid (skew_start - 1), ds4)))))
     else if valid_addresses = [] then Inr (Retry, ds1)
     else
       rbind (next_draw ds1) (\<lambda>(k2, ds2).
       rbind (py_get valid_addresses (random_randint k2 0 (int (length valid_addresses) - 1))) (\<lambda>a.
       rbind (py_remove valid_addresses a) (\<lambda>valid.
       Inr (Emit (CHR ''t'' # show_int a) valid skew_start, ds2)))))"

fun gen_cmds :: "nat \<Rightarrow> gen_conf \<Rightarrow> string list \<Rightarrow> int list \<Rightarrow> nat \<Rightarrow> draw list \<Rightarrow> string list res" where
  "gen_cmds 0 g cmd_list valid skew ds = (if length cmd_list < num_cmds g then Inl Out_Of_Fuel else Inr cmd_list)"
| "gen_cmds (Suc fuel) g cmd_list valid skew ds =
     (if length cmd_list < num_cmds g then
        rbind (gen_cmd g valid skew ds) (\<lambda>(st, ds').
        case st of
          Retry \<Rightarrow> gen_cmds fuel g cmd_list valid skew ds'
        | Emit c valid' skew' \<Rightarrow> gen_cmds fuel g (cmd_list @ [c]) valid' skew' ds')
      else Inr cmd_list)"

datatype cmd = Read int | Write int string | Trim int

definition parse_cmd :: "string \<Rightarrow> cmd option res" where
  "parse_cmd c =
     (if c = [] then Inl IndexError
      else if hd c = CHR ''r'' then
        rbind (py_get (py_split CHR ''r'' c) 1) (\<lambda>t. rbind (py_int t) (\<lambda>a. Inr (Some (Read a))))
      else if hd c = CHR ''w'' then
        rbind (py_get (py_split CHR '':'' c) 0) (\<lambda>p0.
        rbind (py_get (py_split CHR ''w'' p0) 1) (\<lambda>t.
        rbind (py_int t) (\<lambda>a.
        rbind (py_get (py_split CHR '':'' c) 1) (\<lambda>d. Inr (Some (Write a d))))))
      else if hd c = CHR ''t'' then
        rbind (py_get (py_split CHR ''t'' c) 1) (\<lambda>t. rbind (py_int t) (\<lambda>a. Inr (Some (Trim a))))
      else Inr None)"

definition exec_cmd :: "cmd \<Rightarrow> ssd \<Rightarrow> (rc \<times> ssd) res" where
  "exec_cmd c s = (case c of Read a \<Rightarrow> ssd_read a s | Write a d \<Rightarrow> ssd_write a d s | Trim a \<Rightarrow> ssd_trim a s)"

text \<open>The command loop; an empty command ends it, an unknown one only does the upkeep.\<close>

fun run_cmds :: "string list \<Rightarrow> rc list \<times> ssd \<Rightarrow> (rc list \<times> ssd) res" where
  "run_cmds [] (out, s) = Inr (out, s)"
| "run_cmds (c # cs) (out, s) =
     (if c = [] then Inr (out, s)
      else
        rbind (parse_cmd c) (\<lambda>pc.
        rbind (case pc of
            None \<Rightarrow> Inr (out, s)
          | Some x \<Rightarrow> rbind (exec_cmd x s) (\<lambda>(r, s1). Inr (out @ [r], s1))) (\<lambda>(out1, s1).
        rbind (upkeep s1) (\<lambda>s2. run_cmds cs (out1, s2)))))"


section \<open>The contract of a block device\<close>

text \<open>
  What a client relies on: a device holds a partial map from logical pages to data. A write either
  succeeds and stores the data, or fails and changes nothing; a read returns exactly what is stored;
  a trim removes a page. No operation raises.
\<close>

definition page_at :: "(nat \<Rightarrow> string option) \<Rightarrow> int \<Rightarrow> string option" where
  "page_at m a = (if a < 0 then None else m (nat a))"

locale block_device =
  fixes dev_inv :: "'s \<Rightarrow> bool"
    and contents :: "'s \<Rightarrow> nat \<Rightarrow> string option"
    and dev_write :: "int \<Rightarrow> string \<Rightarrow> 's \<Rightarrow> (rc \<times> 's) res"
    and dev_read :: "int \<Rightarrow> 's \<Rightarrow> (rc \<times> 's) res"
    and dev_trim :: "int \<Rightarrow> 's \<Rightarrow> (rc \<times> 's) res"
  assumes write_law: "dev_inv s \<Longrightarrow> \<exists>r s'. dev_write a d s = Inr (r, s') \<and> dev_inv s' \<and>
      contents s' = (if r = Success then (contents s)(nat a \<mapsto> d) else contents s) \<and>
      (r = Success \<longrightarrow> 0 \<le> a)"
    and read_law: "dev_inv s \<Longrightarrow> \<exists>r s'. dev_read a s = Inr (r, s') \<and> dev_inv s' \<and>
      contents s' = contents s \<and> (\<forall>d. r = Data d \<longleftrightarrow> page_at (contents s) a = Some d)"
    and trim_law: "dev_inv s \<Longrightarrow> \<exists>r s'. dev_trim a s = Inr (r, s') \<and> dev_inv s' \<and>
      contents s' = (if r = Success then (contents s)(nat a := None) else contents s) \<and>
      (r = Success \<longleftrightarrow> page_at (contents s) a \<noteq> None)"
begin

lemma read_after_write:
  assumes "dev_inv s" "dev_write a d s = Inr (Success, s')"
  shows "\<exists>s''. dev_read a s' = Inr (Data d, s'')"
proof -
  have w: "dev_inv s'" "contents s' = (contents s)(nat a \<mapsto> d)" "0 \<le> a"
    using write_law [OF assms(1), of a d] assms(2) by auto
  obtain r s'' where "dev_read a s' = Inr (r, s'')" "\<forall>x. r = Data x \<longleftrightarrow> page_at (contents s') a = Some x"
    using read_law [OF w(1), of a] by auto
  then show ?thesis using w by (auto simp: page_at_def)
qed

lemma read_other:
  assumes "dev_inv s" "dev_write a d s = Inr (r, s')" "b \<noteq> a" "dev_read b s = Inr (Data x, t)"
  shows "\<exists>t'. dev_read b s' = Inr (Data x, t')"
proof -
  have w: "dev_inv s'" "contents s' = (if r = Success then (contents s)(nat a \<mapsto> d) else contents s)"
    "r = Success \<longrightarrow> 0 \<le> a"
    using write_law [OF assms(1), of a d] assms(2) by auto
  have "page_at (contents s) b = Some x" using read_law [OF assms(1), of b] assms(4) by auto
  then have "page_at (contents s') b = Some x"
    using w assms(3) by (auto simp: page_at_def split: if_splits)
  moreover obtain r' t' where "dev_read b s' = Inr (r', t')" "\<forall>d. r' = Data d \<longleftrightarrow> page_at (contents s') b = Some d"
    using read_law [OF w(1), of b] by auto
  ultimately show ?thesis by auto
qed

lemma trimmed_unreadable:
  assumes "dev_inv s" "dev_trim a s = Inr (Success, s')" "dev_read a s' = Inr (r, s'')"
  shows "r \<noteq> Data d"
  using trim_law [OF assms(1), of a] assms(2,3) read_law [of s' a] by (auto simp: page_at_def)

end

section \<open>Invariants\<close>

definition contents :: "ssd \<Rightarrow> nat \<Rightarrow> string option" where
  "contents s l = (if l < num_logical_pages (conf s)
     then map_option (\<lambda>p. data (flash s) ! p) (forward_map s ! l) else None)"

definition sized :: "ssd \<Rightarrow> bool" where
  "sized s \<longleftrightarrow> 0 < pages_per_block (conf s) \<and>
     length (state (flash s)) = num_pages s \<and> length (data (flash s)) = num_pages s \<and>
     length (reverse_map s) = num_pages s \<and> length (forward_map s) = num_logical_pages (conf s)"

text \<open>Every mapped logical page is a valid physical page that maps back to it.\<close>

definition mapped :: "ssd \<Rightarrow> bool" where
  "mapped s \<longleftrightarrow> (\<forall>l < num_logical_pages (conf s). \<forall>p. forward_map s ! l = Some p \<longrightarrow>
     p < num_pages s \<and> state (flash s) ! p = STATE_VALID \<and> reverse_map s ! p = Some l)"

definition owned :: "ssd \<Rightarrow> bool" where
  "owned s \<longleftrightarrow> (\<forall>p < num_pages s. \<forall>l. reverse_map s ! p = Some l \<longrightarrow> l < num_logical_pages (conf s))"

text \<open>
  The log: the current block is written up to the cursor and erased from it on; the pages of a block
  whose first page is not valid are all in the state of that page.
\<close>

definition log_shape :: "ssd \<Rightarrow> bool" where
  "log_shape s \<longleftrightarrow> current_block s \<le> num_blocks (conf s) \<and>
     (\<forall>p. current_page s = Some p \<longrightarrow> p < num_pages s \<and> current_block s = p div pages_per_block (conf s) \<and>
        (\<forall>q. q div pages_per_block (conf s) = current_block s \<longrightarrow>
           state (flash s) ! q = (if q < p then STATE_VALID else STATE_ERASED))) \<and>
     (\<forall>b < num_blocks (conf s). state (flash s) ! (b * pages_per_block (conf s)) \<noteq> STATE_VALID \<longrightarrow>
        (\<forall>q. q div pages_per_block (conf s) = b \<longrightarrow>
           state (flash s) ! q = state (flash s) ! (b * pages_per_block (conf s))))"

definition log_inv :: "ssd \<Rightarrow> bool" where
  "log_inv s \<longleftrightarrow> ssd_type (conf s) = TYPE_LOGGING \<and> sized s \<and> mapped s \<and> owned s \<and> log_shape s"

text \<open>The direct and the ideal device map each logical page to the physical page of the same number.\<close>

definition direct_inv :: "ssd_kind \<Rightarrow> ssd \<Rightarrow> bool" where
  "direct_inv k s \<longleftrightarrow> ssd_type (conf s) = k \<and> k \<noteq> TYPE_LOGGING \<and> sized s \<and> mapped s \<and>
     num_logical_pages (conf s) \<le> num_pages s \<and>
     (\<forall>l < num_logical_pages (conf s). \<forall>p. forward_map s ! l = Some p \<longrightarrow> p = l)"

lemmas inv_defs = log_inv_def direct_inv_def sized_def mapped_def owned_def log_shape_def num_pages_def

text \<open>The statistics are no part of the invariants.\<close>

definition same_core :: "ssd \<Rightarrow> ssd \<Rightarrow> bool" where
  "same_core s t \<longleftrightarrow> conf t = conf s \<and> state (flash t) = state (flash s) \<and> data (flash t) = data (flash s) \<and>
     current_page t = current_page s \<and> current_block t = current_block s \<and>
     forward_map t = forward_map s \<and> reverse_map t = reverse_map s"

lemma same_coreD:
  assumes "same_core s t"
  shows "log_inv t = log_inv s" "direct_inv k t = direct_inv k s" "contents t = contents s"
    "num_pages t = num_pages s" "sized t = sized s" "mapped t = mapped s"
  using assms unfolding same_core_def inv_defs contents_def by (simp_all add: fun_eq_iff contents_def)

lemma same_core_refl [simp]: "same_core s s"
  by (simp add: same_core_def)

lemma same_core_trans: "same_core s t \<Longrightarrow> same_core t u \<Longrightarrow> same_core s u"
  by (simp add: same_core_def)

lemma same_core_sums [simp]: "same_core s (s\<lparr>sums := x\<rparr>)"
  by (simp add: same_core_def)

lemma fold_update_nth [simp]:
  "length (fold (\<lambda>p xs. xs[p := c]) ps xs) = length xs"
  "q < length xs \<Longrightarrow> fold (\<lambda>p xs. xs[p := c]) ps xs ! q = (if q \<in> set ps then c else xs ! q)"
proof -
  show len: "length (fold (\<lambda>p xs. xs[p := c]) ps xs) = length xs"
    by (induction ps arbitrary: xs) auto
  show "q < length xs \<Longrightarrow> fold (\<lambda>p xs. xs[p := c]) ps xs ! q = (if q \<in> set ps then c else xs ! q)"
    by (induction ps arbitrary: xs) (auto simp: nth_list_update)
qed

lemma in_block_pages:
  assumes "0 < pages_per_block (conf s)"
  shows "q \<in> set (block_pages s b) \<longleftrightarrow> q div pages_per_block (conf s) = b"
proof -
  let ?n = "pages_per_block (conf s)"
  have "q < q div ?n * ?n + ?n" "q div ?n * ?n \<le> q"
    using dividend_less_times_div [OF assms, of q] by (simp_all add: ac_simps div_times_less_eq_dividend)
  moreover have "q div ?n = b" if "b * ?n \<le> q" "q < b * ?n + ?n"
    using that by (intro div_nat_eqI) (simp_all add: ac_simps)
  ultimately show ?thesis unfolding block_pages_def by auto
qed

lemma block_page_less:
  "b < num_blocks (conf s) \<Longrightarrow> q div pages_per_block (conf s) = b \<Longrightarrow> 0 < pages_per_block (conf s) \<Longrightarrow> q < num_pages s"
  unfolding num_pages_def by (metis div_less_iff_less_mult)

lemma page_block_less: "p < num_pages s \<Longrightarrow> p div pages_per_block (conf s) < num_blocks (conf s)"
  unfolding num_pages_def by (simp add: less_mult_imp_div_less)

lemma physical_read_spec:
  assumes "sized s" "p < num_pages s"
  shows "\<exists>s'. physical_read p s = Inr (data (flash s) ! p, s') \<and> same_core s s' \<and> sums s' = sums s"
  using assms by (simp add: physical_read_def sized_def same_core_def Let_def)

lemma physical_erase_spec:
  assumes "sized s" "b < num_blocks (conf s)"
  shows "\<exists>s'. physical_erase b s = Inr s' \<and> conf s' = conf s \<and> sized s' \<and> sums s' = sums s \<and>
     forward_map s' = forward_map s \<and> reverse_map s' = reverse_map s \<and>
     current_page s' = current_page s \<and> current_block s' = current_block s \<and>
     (\<forall>q < num_pages s. q div pages_per_block (conf s) = b \<longrightarrow> state (flash s') ! q = STATE_ERASED) \<and>
     (\<forall>q < num_pages s. q div pages_per_block (conf s) \<noteq> b \<longrightarrow>
        state (flash s') ! q = state (flash s) ! q \<and> data (flash s') ! q = data (flash s) ! q)"
  using assms in_block_pages [of s]
  by (auto simp: physical_erase_def sized_def Let_def num_pages_def)

lemma physical_program_spec:
  assumes "sized s" "p < num_pages s"
  shows "\<exists>s'. physical_program p d s = Inr s' \<and> conf s' = conf s \<and> sized s' \<and> sums s' = sums s \<and>
     forward_map s' = forward_map s \<and> reverse_map s' = reverse_map s \<and>
     current_page s' = current_page s \<and> current_block s' = current_block s \<and>
     state (flash s') = (state (flash s))[p := STATE_VALID] \<and> data (flash s') = (data (flash s))[p := d]"
  using assms by (simp add: physical_program_def sized_def Let_def num_pages_def)


section \<open>The log-structured device\<close>

text \<open>Taking a free block: nothing mapped is lost, and the cursor is at its first, erased page.\<close>

definition at_cursor :: "ssd \<Rightarrow> ssd \<Rightarrow> bool" where
  "at_cursor s s' \<longleftrightarrow> log_inv s' \<and> contents s' = contents s \<and> conf s' = conf s \<and> sums s' = sums s \<and>
     current_page s' \<noteq> None \<and>
     (\<forall>b < num_blocks (conf s). state (flash s) ! (b * pages_per_block (conf s)) = STATE_VALID \<and>
        b \<noteq> current_block s \<longrightarrow> b \<noteq> current_block s') \<and>
     forward_map s' = forward_map s \<and> reverse_map s' = reverse_map s \<and>
     (\<forall>p < num_pages s. state (flash s) ! p = STATE_VALID \<longrightarrow>
        state (flash s') ! p = STATE_VALID \<and> data (flash s') ! p = data (flash s) ! p)"

lemma first_page: "0 < n \<Longrightarrow> b * n div n = (b::nat)"
  by simp

lemma at_cursor_contents:
  assumes "mapped s" "conf s' = conf s" "forward_map s' = forward_map s"
    and "\<forall>p < num_pages s. state (flash s) ! p = STATE_VALID \<longrightarrow> data (flash s') ! p = data (flash s) ! p"
  shows "contents s' = contents s"
proof
  fix l show "contents s' l = contents s l"
    using assms unfolding contents_def mapped_def by (cases "forward_map s ! l") auto
qed

lemma is_block_free_spec:
  assumes inv: "log_inv s" and none: "current_page s = None" and b: "b < num_blocks (conf s)"
  shows "is_block_free b s = Inr (False, s) \<or> (\<exists>s'. is_block_free b s = Inr (True, s') \<and> at_cursor s s')"
proof -
  let ?n = "pages_per_block (conf s)"
  have sz: "sized s" and n: "0 < ?n" and mp: "mapped s" and shape: "log_shape s"
    using inv by (auto simp: log_inv_def sized_def)
  have fp: "b * ?n < num_pages s" using block_page_less [OF b first_page [OF n] n] .
  have same: "state (flash s) ! q = state (flash s) ! (b * ?n)"
    if "state (flash s) ! (b * ?n) \<noteq> STATE_VALID" "q div ?n = b" for q
    using shape b that unfolding log_shape_def by blast
  have fin: "at_cursor s (t\<lparr>current_block := b, current_page := Some (b * ?n), gc_used_blocks := u\<rparr>)"
    if t: "conf t = conf s" "sized t" "sums t = sums s" "forward_map t = forward_map s"
      "reverse_map t = reverse_map s"
      "\<forall>q < num_pages s. q div ?n = b \<longrightarrow> state (flash t) ! q = STATE_ERASED"
      "\<forall>q < num_pages s. q div ?n \<noteq> b \<longrightarrow> state (flash t) ! q = state (flash s) ! q \<and>
         data (flash t) ! q = data (flash s) ! q"
      and nv: "state (flash s) ! (b * ?n) \<noteq> STATE_VALID" for t u
  proof -
    let ?t = "t\<lparr>current_block := b, current_page := Some (b * ?n), gc_used_blocks := u\<rparr>"
    have np: "num_pages ?t = num_pages s" using t(1) by (simp add: num_pages_def)
    have keep: "state (flash t) ! p = STATE_VALID \<and> data (flash t) ! p = data (flash s) ! p"
      if "p < num_pages s" "state (flash s) ! p = STATE_VALID" for p
      using t(7) same [of p] that nv by metis
    have "sized ?t" using t(2) by (simp add: sized_def num_pages_def)
    moreover have "mapped ?t" using mp keep t(1,4,5) np unfolding mapped_def by auto
    moreover have "log_shape ?t"
      unfolding log_shape_def
    proof (intro conjI allI impI)
      fix p q assume cp: "current_page ?t = Some p" and "q div pages_per_block (conf ?t) = current_block ?t"
      then have "q div ?n = b" by (simp add: t(1))
      moreover from this have "q < num_pages s" "b * ?n \<le> q"
        using block_page_less [OF b _ n] by auto
      ultimately show "state (flash ?t) ! q = (if q < p then STATE_VALID else STATE_ERASED)"
        using t(6) cp by auto
    next
      fix c q assume c: "c < num_blocks (conf ?t)"
        "state (flash ?t) ! (c * pages_per_block (conf ?t)) \<noteq> STATE_VALID"
        "q div pages_per_block (conf ?t) = c"
      have q: "q < num_pages s" "c * ?n < num_pages s" "q div ?n = c"
        using block_page_less [of c s q] block_page_less [of c s "c * ?n"] c(1,3) n by (auto simp: t(1))
      show "state (flash ?t) ! q = state (flash ?t) ! (c * pages_per_block (conf ?t))"
      proof (cases "c = b")
        case True
        then show ?thesis using t(1,6) q fp n by simp
      next
        case False
        then have first: "state (flash t) ! (c * ?n) = state (flash s) ! (c * ?n)"
          and at_q: "state (flash t) ! q = state (flash s) ! q" using t(7) q n by simp_all
        have "c < num_blocks (conf s)" "state (flash s) ! (c * ?n) \<noteq> STATE_VALID"
          using c first t(1) by simp_all
        then have "state (flash s) ! q = state (flash s) ! (c * ?n)"
          using shape q(3) unfolding log_shape_def by blast
        then show ?thesis using first at_q t(1) by simp
      qed
    qed (use fp n t(1) np b in auto)
    moreover have "owned ?t" using inv t(1,5) np by (simp add: owned_def log_inv_def)
    ultimately have "log_inv ?t" using inv t(1) by (simp add: log_inv_def)
    moreover have "contents ?t = contents s"
      by (rule at_cursor_contents [OF mp]) (use t(1,4) keep in auto)
    moreover have "\<forall>c < num_blocks (conf s). state (flash s) ! (c * ?n) = STATE_VALID \<and> c \<noteq> current_block s \<longrightarrow>
        c \<noteq> current_block ?t" using nv by auto
    moreover have "\<forall>p < num_pages s. state (flash s) ! p = STATE_VALID \<longrightarrow>
        state (flash ?t) ! p = STATE_VALID \<and> data (flash ?t) ! p = data (flash s) ! p" using keep by simp
    moreover have "conf ?t = conf s" "sums ?t = sums s" "forward_map ?t = forward_map s"
      "reverse_map ?t = reverse_map s" "current_page ?t \<noteq> None" using t(1,3-5) by simp_all
    ultimately show ?thesis unfolding at_cursor_def by blast
  qed
  consider (inval) "state (flash s) ! (b * ?n) = STATE_INVALID" | (eras) "state (flash s) ! (b * ?n) = STATE_ERASED"
    | (valid) "state (flash s) ! (b * ?n) = STATE_VALID"
    by (cases "state (flash s) ! (b * ?n)") auto
  then show ?thesis
  proof cases
    case inval
    obtain t where t: "physical_erase b s = Inr t" "conf t = conf s" "sized t" "sums t = sums s"
      "forward_map t = forward_map s" "reverse_map t = reverse_map s"
      "\<forall>q < num_pages s. q div ?n = b \<longrightarrow> state (flash t) ! q = STATE_ERASED"
      "\<forall>q < num_pages s. q div ?n \<noteq> b \<longrightarrow> state (flash t) ! q = state (flash s) ! q \<and>
         data (flash t) ! q = data (flash s) ! q"
      using physical_erase_spec [OF sz b] by blast
    show ?thesis using t(1) fp inval fin [OF t(2-8)] by (simp add: is_block_free_def)
  next
    case eras
    then have "\<forall>q < num_pages s. q div ?n = b \<longrightarrow> state (flash s) ! q = STATE_ERASED"
      using same by simp
    then show ?thesis using fp eras fin [of s] sz by (simp add: is_block_free_def)
  next
    case valid
    then show ?thesis using fp by (simp add: is_block_free_def)
  qed
qed

lemma find_block_spec:
  assumes "log_inv s" "current_page s = None" "\<forall>b \<in> set bs. b < num_blocks (conf s)"
  shows "find_block bs s = Inr (False, s) \<or> (\<exists>s'. find_block bs s = Inr (True, s') \<and> at_cursor s s')"
  using assms
proof (induction bs)
  case (Cons b bs)
  then show ?case using is_block_free_spec [of s b] by auto
qed simp

lemma at_cursor_refl: "log_inv s \<Longrightarrow> current_page s \<noteq> None \<Longrightarrow> at_cursor s s"
  by (simp add: at_cursor_def)


lemma get_cursor_spec:
  assumes "log_inv s"
  shows "get_cursor s = Inr (False, s) \<or> (\<exists>s'. get_cursor s = Inr (True, s') \<and> at_cursor s s')"
proof (cases "current_page s = None")
  case True
  have "\<forall>b \<in> set ([current_block s..<num_blocks (conf s)] @ [0..<current_block s]). b < num_blocks (conf s)"
    using assms by (auto simp: log_inv_def log_shape_def)
  from find_block_spec [OF assms True this] True show ?thesis by (simp add: get_cursor_def)
next
  case False
  from False have "get_cursor s = Inr (True, s)" by (simp add: get_cursor_def del: not_None_eq)
  with at_cursor_refl [OF assms False] show ?thesis by blast
qed

text \<open>
  Room for \<open>k\<close> more writes, as far as one block goes: a free block besides the current one, or
  enough pages left in the current one.
\<close>

definition free_block :: "ssd \<Rightarrow> nat \<Rightarrow> bool" where
  "free_block s f \<longleftrightarrow> f < num_blocks (conf s) \<and> (current_page s = None \<or> f \<noteq> current_block s) \<and>
     state (flash s) ! (f * pages_per_block (conf s)) \<noteq> STATE_VALID"

definition room :: "nat \<Rightarrow> ssd \<Rightarrow> bool" where
  "room k s \<longleftrightarrow> k = 0 \<or> (\<exists>f < num_blocks (conf s). free_block s f) \<or>
     (\<exists>p. current_page s = Some p \<and> p mod pages_per_block (conf s) + k \<le> pages_per_block (conf s))"

lemma is_block_free_True:
  "is_block_free b s = Inr (False, s') \<Longrightarrow> state (flash s) ! (b * pages_per_block (conf s)) = STATE_VALID \<and> s' = s"
  "is_block_free b s = Inr (True, s') \<Longrightarrow> current_page s' = Some (current_block s' * pages_per_block (conf s))"
  by (auto simp: is_block_free_def Let_def rbind_eq_Inr split: if_splits intro: page_state.exhaust
      [of "state (flash s) ! (b * pages_per_block (conf s))"])

lemma find_block_True:
  "find_block bs s = Inr (False, s') \<Longrightarrow> \<forall>b \<in> set bs. state (flash s) ! (b * pages_per_block (conf s)) = STATE_VALID"
  "find_block bs s = Inr (True, s') \<Longrightarrow> current_page s' = Some (current_block s' * pages_per_block (conf s))"
  by (induction bs) (auto simp: rbind_eq_Inr dest: is_block_free_True dest!: is_block_free_True(1) split: if_splits)

lemma get_cursor_room:
  assumes "get_cursor s = Inr (ok, s')"
  shows "\<not> ok \<Longrightarrow> \<not> room (Suc k) s"
    and "ok \<Longrightarrow> current_page s = None \<Longrightarrow> current_page s' = Some (current_block s' * pages_per_block (conf s))"
    and "current_page s \<noteq> None \<Longrightarrow> s' = s"
  using assms find_block_True [of "[current_block s..<num_blocks (conf s)] @ [0..<current_block s]" s s']
  by (auto simp: get_cursor_def room_def free_block_def split: if_splits)

text \<open>A write that succeeded appended the data to the log at a page that was not in use.\<close>

definition logged :: "nat \<Rightarrow> string \<Rightarrow> ssd \<Rightarrow> ssd \<Rightarrow> bool" where
  "logged l d s s' \<longleftrightarrow> log_inv s' \<and> conf s' = conf s \<and> sums s' = sums s \<and>
     (\<forall>k. Suc k \<le> pages_per_block (conf s) \<and> room (Suc k) s \<longrightarrow> room k s') \<and>
     (\<exists>p < num_pages s. state (flash s) ! p \<noteq> STATE_VALID \<and>
        forward_map s' = (forward_map s)[l := Some p] \<and> reverse_map s' = (reverse_map s)[p := Some l] \<and>
        data (flash s') ! p = d \<and> state (flash s') ! p = STATE_VALID \<and>
        (\<forall>q < num_pages s. state (flash s) ! q = STATE_VALID \<longrightarrow>
           state (flash s') ! q = STATE_VALID \<and> data (flash s') ! q = data (flash s) ! q) \<and>
        (\<forall>b < num_blocks (conf s). state (flash s) ! (b * pages_per_block (conf s)) = STATE_VALID \<and>
           b \<noteq> current_block s \<longrightarrow> b \<noteq> current_block s' \<and> p div pages_per_block (conf s) \<noteq> b))"

lemma logged_contents:
  assumes "mapped s" "l < num_logical_pages (conf s)" "sized s" "logged l d s s'"
  shows "contents s' = (contents s)(l \<mapsto> d)"
proof
  fix k
  show "contents s' k = ((contents s)(l \<mapsto> d)) k"
    using assms unfolding logged_def contents_def mapped_def sized_def
    by (cases "forward_map s ! k") (auto simp: nth_list_update)
qed

lemma program_cursor:
  assumes inv: "log_inv s" and p: "current_page s = Some p" and l: "l < num_logical_pages (conf s)"
  shows "\<exists>s2 s3. state (flash s) ! p = STATE_ERASED \<and> p < num_pages s \<and>
     physical_program p d s = Inr s2 \<and> update_cursor (set_maps l p s2) = Inr s3 \<and> log_inv s3 \<and>
     conf s3 = conf s \<and> sums s3 = sums s \<and> current_block s3 = current_block s \<and>
     forward_map s3 = (forward_map s)[l := Some p] \<and> reverse_map s3 = (reverse_map s)[p := Some l] \<and>
     state (flash s3) = (state (flash s))[p := STATE_VALID] \<and> data (flash s3) = (data (flash s))[p := d] \<and>
     current_page s3 = (if Suc p mod pages_per_block (conf s) = 0 then None else Some (Suc p))"
proof -
  let ?n = "pages_per_block (conf s)"
  have sz: "sized s" and n: "0 < ?n" and mp: "mapped s" and shape: "log_shape s"
    using inv by (auto simp: log_inv_def sized_def)
  have cur: "p < num_pages s" "current_block s = p div ?n"
    "\<And>q. q div ?n = p div ?n \<Longrightarrow> state (flash s) ! q = (if q < p then STATE_VALID else STATE_ERASED)"
    using shape p by (auto simp: log_shape_def)
  obtain s2 where s2: "physical_program p d s = Inr s2" "conf s2 = conf s" "sized s2" "sums s2 = sums s"
    "forward_map s2 = forward_map s" "reverse_map s2 = reverse_map s" "current_page s2 = current_page s"
    "current_block s2 = current_block s"
    "state (flash s2) = (state (flash s))[p := STATE_VALID]" "data (flash s2) = (data (flash s))[p := d]"
    using physical_program_spec [OF sz cur(1), of d] by blast
  define s3 where "s3 = (set_maps l p s2)\<lparr>current_page := (if Suc p mod ?n = 0 then None else Some (Suc p))\<rparr>"
  have up: "update_cursor (set_maps l p s2) = Inr s3"
    using s2 n p by (simp add: update_cursor_def set_maps_def s3_def)
  have f3: "conf s3 = conf s" "sums s3 = sums s" "current_block s3 = current_block s"
    "forward_map s3 = (forward_map s)[l := Some p]" "reverse_map s3 = (reverse_map s)[p := Some l]"
    "state (flash s3) = (state (flash s))[p := STATE_VALID]" "data (flash s3) = (data (flash s))[p := d]"
    "current_page s3 = (if Suc p mod ?n = 0 then None else Some (Suc p))"
    using s2 by (simp_all add: s3_def set_maps_def)
  have np: "num_pages s3 = num_pages s" using f3(1) by (simp add: num_pages_def)
  have erased: "state (flash s) ! p = STATE_ERASED" using cur(3) [of p] by simp
  have "sized s3" using sz f3 np by (simp add: sized_def)
  moreover have "mapped s3"
    unfolding mapped_def
  proof (intro allI impI)
    fix k q assume k: "k < num_logical_pages (conf s3)" "forward_map s3 ! k = Some q"
    show "q < num_pages s3 \<and> state (flash s3) ! q = STATE_VALID \<and> reverse_map s3 ! q = Some k"
      using k mp cur(1) sz erased unfolding mapped_def f3 np sized_def
      by (cases "k = l") (auto simp: nth_list_update)
  qed
  moreover have "log_shape s3"
    unfolding log_shape_def
  proof (intro conjI allI impI)
    show "current_block s3 \<le> num_blocks (conf s3)" using shape f3 by (simp add: log_shape_def)
  next
    fix q assume q: "current_page s3 = Some q"
    then have "q = Suc p" "Suc p mod ?n \<noteq> 0" using f3(8) by (auto split: if_splits)
    then have div: "q div ?n = p div ?n" by (simp add: div_Suc)
    show "current_block s3 = q div pages_per_block (conf s3)" using div f3 cur(2) by simp
    have "p div ?n < num_blocks (conf s)" using page_block_less [OF cur(1)] .
    then show "q < num_pages s3" using block_page_less [of _ s q] div n np by simp
    fix r assume r: "r div pages_per_block (conf s3) = current_block s3"
    have "state (flash s) ! r = (if r < p then STATE_VALID else STATE_ERASED)"
      using cur(2) cur(3) [of r] r f3 by simp
    then show "state (flash s3) ! r = (if r < q then STATE_VALID else STATE_ERASED)"
      using f3 cur(1) sz \<open>q = Suc p\<close> by (auto simp: nth_list_update sized_def)
  next
    fix b q assume b: "b < num_blocks (conf s3)"
      "state (flash s3) ! (b * pages_per_block (conf s3)) \<noteq> STATE_VALID" "q div pages_per_block (conf s3) = b"
    have first: "state (flash s) ! (b * ?n) \<noteq> STATE_VALID" "b * ?n \<noteq> p"
      using b(2) f3 cur(1) sz by (auto simp: sized_def nth_list_update split: if_splits)
    have "b \<noteq> p div ?n"
    proof
      assume e: "b = p div ?n"
      then have "b * ?n \<le> p" by simp
      with first(2) have "b * ?n < p" by simp
      moreover have "b * ?n div ?n = p div ?n" using e n by simp
      ultimately show False using cur(3) [of "b * ?n"] first(1) by simp
    qed
    then have "q \<noteq> p" using b(3) f3 by auto
    then show "state (flash s3) ! q = state (flash s3) ! (b * pages_per_block (conf s3))"
      using shape b first f3 unfolding log_shape_def by (simp add: nth_list_update)
  qed
  moreover have "owned s3"
    unfolding owned_def
  proof (intro allI impI)
    fix q k assume "q < num_pages s3" "reverse_map s3 ! q = Some k"
    then show "k < num_logical_pages (conf s3)"
      using inv sz l f3 np by (cases "q = p") (simp_all add: owned_def log_inv_def sized_def)
  qed
  ultimately have "log_inv s3" using inv f3(1) by (simp add: log_inv_def)
  then show ?thesis using erased cur(1) s2(1) up f3 by blast
qed

lemma write_logging_spec:
  assumes inv: "log_inv s" and l: "l < num_logical_pages (conf s)"
  shows "(\<exists>s'. write_logging l d s = Inr (Device_Full, s') \<and> same_core s s' \<and> (\<forall>k. \<not> room (Suc k) s) \<and>
       sums s' = (sums s)\<lparr>logical_write_fail_sum := logical_write_fail_sum (sums s) + 1\<rparr>) \<or>
     (\<exists>s'. write_logging l d s = Inr (Success, s') \<and> logged l d s s')"
  using get_cursor_spec [OF inv]
proof (elim disjE exE conjE)
  assume "get_cursor s = Inr (False, s)"
  then show ?thesis using get_cursor_room(1) [of s False s] by (intro disjI1) (simp add: write_logging_def)
next
  fix s1 assume g: "get_cursor s = Inr (True, s1)" and c: "at_cursor s s1"
  then obtain p where p: "current_page s1 = Some p" by (auto simp: at_cursor_def)
  have inv1: "log_inv s1" and conf1: "conf s1 = conf s" using c by (auto simp: at_cursor_def)
  have np: "num_pages s1 = num_pages s" using conf1 by (simp add: num_pages_def)
  have "l < num_logical_pages (conf s1)" using l conf1 by simp
  from program_cursor [OF inv1 p this, where d = d] obtain s2 s3 where
    r: "state (flash s1) ! p = STATE_ERASED" "p < num_pages s1" "physical_program p d s1 = Inr s2"
      "update_cursor (set_maps l p s2) = Inr s3" "log_inv s3"
      "conf s3 = conf s1" "sums s3 = sums s1" "current_block s3 = current_block s1"
      "forward_map s3 = (forward_map s1)[l := Some p]" "reverse_map s3 = (reverse_map s1)[p := Some l]"
      "state (flash s3) = (state (flash s1))[p := STATE_VALID]" "data (flash s3) = (data (flash s1))[p := d]"
      "current_page s3 = (if Suc p mod pages_per_block (conf s1) = 0 then None else Some (Suc p))"
    by blast
  have w: "write_logging l d s = Inr (Success, s3)"
    using g p r by (simp add: write_logging_def)
  have len: "length (state (flash s1)) = num_pages s" "length (data (flash s1)) = num_pages s"
    using inv1 np by (auto simp: log_inv_def sized_def)
  have nv: "state (flash s) ! p \<noteq> STATE_VALID" using c r(1,2) np unfolding at_cursor_def by force
  have block: "current_block s1 = p div pages_per_block (conf s)"
    using inv1 p conf1 by (simp add: log_inv_def log_shape_def)
  have n: "0 < pages_per_block (conf s)" using inv by (simp add: log_inv_def sized_def)
  have rm: "room k s3" if k: "Suc k \<le> pages_per_block (conf s)" "room (Suc k) s" for k
  proof (cases "current_page s")
    case None
    then have "p = current_block s1 * pages_per_block (conf s)"
      using get_cursor_room(2) [OF g] p by simp
    then show ?thesis using r(6,13) k conf1 by (simp add: room_def mod_Suc)
  next
    case (Some p')
    then have s1: "s1 = s" using get_cursor_room(3) [OF g] by simp
    consider f where "free_block s f" | "p mod pages_per_block (conf s) + Suc k \<le> pages_per_block (conf s)"
      using k(2) p s1 by (auto simp: room_def)
    then show ?thesis
    proof cases
      case 1
      then have "f * pages_per_block (conf s) \<noteq> p" using block p s1 n by (auto simp: free_block_def)
      then show ?thesis using 1 r s1 p by (auto simp: room_def free_block_def)
    next
      case 2
      then show ?thesis using r(6,13) s1 n by (auto simp: room_def mod_Suc)
    qed
  qed
  have "logged l d s s3"
    unfolding logged_def
  proof (intro conjI exI [of _ p])
    show "\<forall>k. Suc k \<le> pages_per_block (conf s) \<and> room (Suc k) s \<longrightarrow> room k s3" using rm by blast
    show "\<forall>q<num_pages s. state (flash s) ! q = STATE_VALID \<longrightarrow>
        state (flash s3) ! q = STATE_VALID \<and> data (flash s3) ! q = data (flash s) ! q"
    proof (intro allI impI)
      fix q assume q: "q < num_pages s" "state (flash s) ! q = STATE_VALID"
      then have "q \<noteq> p" using nv by auto
      then show "state (flash s3) ! q = STATE_VALID \<and> data (flash s3) ! q = data (flash s) ! q"
        using c q r(11,12) by (simp add: at_cursor_def)
    qed
    show "\<forall>b<num_blocks (conf s). state (flash s) ! (b * pages_per_block (conf s)) = STATE_VALID \<and>
        b \<noteq> current_block s \<longrightarrow> b \<noteq> current_block s3 \<and> p div pages_per_block (conf s) \<noteq> b"
      using c r(8) block unfolding at_cursor_def by auto
  qed (use c nv r conf1 np len in \<open>auto simp: at_cursor_def\<close>)
  with w show ?thesis by blast
qed


lemma same_core_room: "same_core s t \<Longrightarrow> room k t = room k s \<and> free_block t f = free_block s f"
  by (simp add: same_core_def room_def free_block_def)

text \<open>
  The blocks and their flags: a block that is not in use is free, a block that is closed is written to its end, and the next block to collect exists.
\<close>

definition used_ok :: "ssd_conf \<Rightarrow> ssd \<Rightarrow> bool" where
  "used_ok c s \<longleftrightarrow> conf s = c \<and> length (gc_used_blocks s) = num_blocks c \<and> (\<forall>x \<in> set (gc_used_blocks s). x \<le> 1)"

definition tidy :: "ssd \<Rightarrow> bool" where
  "tidy s \<longleftrightarrow> used_ok (conf s) s \<and> gc_current_block s \<le> num_blocks (conf s) \<and>
     (\<forall>b < num_blocks (conf s). gc_used_blocks s ! b = 0 \<longrightarrow> free_block s b) \<and>
     (\<forall>q < num_pages s. state (flash s) ! (q div pages_per_block (conf s) * pages_per_block (conf s)) = STATE_VALID \<longrightarrow>
        current_page s = None \<or> q div pages_per_block (conf s) \<noteq> current_block s \<longrightarrow> state (flash s) ! q = STATE_VALID)"

definition same_use :: "ssd \<Rightarrow> ssd \<Rightarrow> bool" where
  "same_use s t \<longleftrightarrow> conf t = conf s \<and> gc_used_blocks t = gc_used_blocks s \<and> gc_current_block t = gc_current_block s \<and>
     state (flash t) = state (flash s) \<and> current_page t = current_page s \<and> current_block t = current_block s"

lemma same_use_refl [simp]: "same_use s s"
  by (simp add: same_use_def)

lemma same_use_tidy: "same_use s t \<Longrightarrow> tidy s \<Longrightarrow> tidy t"
  by (simp add: same_use_def tidy_def used_ok_def free_block_def num_pages_def)

lemma same_use_read: "physical_read p s = Inr (d, t) \<Longrightarrow> same_use s t"
  by (auto simp: physical_read_def same_use_def Let_def split: if_splits)

lemma erase_fields:
  assumes "physical_erase b s = Inr t"
  shows "conf t = conf s \<and> gc_used_blocks t = (gc_used_blocks s)[b := 0] \<and> gc_current_block t = gc_current_block s \<and>
    current_page t = current_page s \<and> current_block t = current_block s"
  using assms by (auto simp: physical_erase_def Let_def split: if_splits)

lemma used_ok_set: "used_ok c s \<Longrightarrow> conf t = c \<Longrightarrow> gc_used_blocks t = (gc_used_blocks s)[b := v] \<Longrightarrow> v \<le> 1 \<Longrightarrow> used_ok c t"
  using set_update_subset_insert [of "gc_used_blocks s" b v] by (fastforce simp: used_ok_def)

text \<open>Erasing a block that is not open frees it.\<close>

lemma tidy_erase:
  assumes inv: "log_inv s" and td: "tidy s" and b: "b < num_blocks (conf s)" "current_page s = None \<or> b \<noteq> current_block s"
    and e: "physical_erase b s = Inr t"
  shows "tidy t"
proof -
  let ?n = "pages_per_block (conf s)"
  have sz: "sized s" and n: "0 < ?n" using inv by (auto simp: log_inv_def sized_def)
  have f: "conf t = conf s" "gc_used_blocks t = (gc_used_blocks s)[b := 0]" "gc_current_block t = gc_current_block s"
    "current_page t = current_page s" "current_block t = current_block s" using erase_fields [OF e] by simp_all
  have st: "\<forall>q < num_pages s. q div ?n = b \<longrightarrow> state (flash t) ! q = STATE_ERASED"
    "\<forall>q < num_pages s. q div ?n \<noteq> b \<longrightarrow> state (flash t) ! q = state (flash s) ! q"
    using physical_erase_spec [OF sz b(1)] e by auto
  have np: "num_pages t = num_pages s" using f(1) by (simp add: num_pages_def)
  have less: "q < num_pages s" if "q div ?n < num_blocks (conf s)" for q using block_page_less [OF that _ n] by simp
  have len: "length (gc_used_blocks s) = num_blocks (conf s)" using td by (simp add: tidy_def used_ok_def)
  have u: "used_ok (conf t) t" using used_ok_set [of "conf s" s t b 0] td f(1,2) by (simp add: tidy_def)
  have fr: "free_block t c" if c: "c < num_blocks (conf s)" "gc_used_blocks t ! c = 0" for c
  proof (cases "c = b")
    case True
    then show ?thesis using b st(1) less [of "c * ?n"] n f by (simp add: free_block_def)
  next
    case False
    then have "free_block s c" using c td f(2) by (simp add: tidy_def)
    then show ?thesis using False c(1) st(2) less [of "c * ?n"] n f by (simp add: free_block_def)
  qed
  have cl: "state (flash t) ! q = STATE_VALID"
    if q: "q < num_pages s" "state (flash t) ! (q div ?n * ?n) = STATE_VALID" "current_page s = None \<or> q div ?n \<noteq> current_block s" for q
  proof -
    have qb: "q div ?n < num_blocks (conf s)" using page_block_less [OF q(1)] .
    have "q div ?n * ?n < num_pages s" using less [of "q div ?n * ?n"] qb n by simp
    moreover have "q div ?n * ?n div ?n = q div ?n" using n by simp
    ultimately have "q div ?n \<noteq> b" "state (flash s) ! (q div ?n * ?n) = STATE_VALID" using q(2) st by (cases "q div ?n = b"; force)+
    then have "state (flash s) ! q = STATE_VALID" using td q(1,3) unfolding tidy_def by blast
    then show ?thesis using st(2) q(1) \<open>q div ?n \<noteq> b\<close> by simp
  qed
  have g: "gc_current_block t \<le> num_blocks (conf t)" using td f(1,3) by (simp add: tidy_def)
  show ?thesis unfolding tidy_def f(1,4,5) np using u [unfolded f(1)] g [unfolded f(1)] fr cl by blast
qed

text \<open>Opening a free block, when none is open.\<close>

lemma tidy_is_block_free:
  assumes inv: "log_inv s" and td: "tidy s" and none: "current_page s = None" and b: "b < num_blocks (conf s)"
    and e: "is_block_free b s = Inr (ok, t)"
  shows "tidy t \<and> (\<forall>q < num_pages s. state (flash t) ! q = STATE_VALID \<longleftrightarrow> state (flash s) ! q = STATE_VALID)"
proof (cases ok)
  case False
  then show ?thesis using e is_block_free_True(1) [of b s t] td by auto
next
  case True
  let ?n = "pages_per_block (conf s)"
  have n: "0 < ?n" and sz: "sized s" and sh: "log_shape s" using inv by (auto simp: log_inv_def sized_def)
  obtain u where u: "(if state (flash s) ! (b * ?n) = STATE_INVALID then physical_erase b s else Inr s) = Inr u"
    "t = u\<lparr>current_block := b, current_page := Some (b * ?n), gc_used_blocks := (gc_used_blocks u)[b := 1]\<rparr>"
    "state (flash s) ! (b * ?n) \<noteq> STATE_VALID"
    using e True by (auto simp: is_block_free_def Let_def rbind_eq_Inr split: if_splits)
  have tu: "tidy u" using u(1) tidy_erase [OF inv td b] none td by (auto split: if_splits)
  have cu: "conf u = conf s" "current_page u = None" using u(1) erase_fields [of b s u] none by (auto split: if_splits)
  have vs: "state (flash u) ! q = STATE_VALID \<longleftrightarrow> state (flash s) ! q = STATE_VALID" if q: "q < num_pages s" for q
  proof (cases "state (flash s) ! (b * ?n) = STATE_INVALID")
    case True
    then have "physical_erase b s = Inr u" using u(1) by simp
    then have st: "q div ?n = b \<longrightarrow> state (flash u) ! q = STATE_ERASED" "q div ?n \<noteq> b \<longrightarrow> state (flash u) ! q = state (flash s) ! q"
      using physical_erase_spec [OF sz b] q by auto
    have "q div ?n = b \<longrightarrow> state (flash s) ! q = state (flash s) ! (b * ?n)" using sh b u(3) unfolding log_shape_def by blast
    then show ?thesis using st u(3) by (cases "q div ?n = b") auto
  qed (use u(1) in simp)
  have np: "num_pages u = num_pages s" "num_pages t = num_pages s" using cu(1) u(2) by (simp_all add: num_pages_def)
  have used: "used_ok (conf t) t" using used_ok_set [of "conf u" u t b 1] tu u(2) by (simp add: tidy_def)
  have len: "length (gc_used_blocks u) = num_blocks (conf s)" using tu cu(1) by (simp add: tidy_def used_ok_def)
  have fr: "free_block t c" if c: "c < num_blocks (conf s)" "gc_used_blocks t ! c = 0" for c
  proof -
    have "c \<noteq> b" using c u(2) len by (auto simp: nth_list_update)
    moreover have "gc_used_blocks u ! c = 0" using c u(2) \<open>c \<noteq> b\<close> by simp
    then have "free_block u c" using tu c(1) cu(1) by (simp add: tidy_def)
    ultimately show ?thesis using u(2) by (simp add: free_block_def)
  qed
  have cl: "state (flash t) ! q = STATE_VALID"
    if "q < num_pages s" "state (flash t) ! (q div ?n * ?n) = STATE_VALID" for q
    using tu that cu np u(2) by (simp add: tidy_def)
  have "gc_current_block t \<le> num_blocks (conf t)" using tu u(2) by (simp add: tidy_def)
  then have "tidy t" unfolding tidy_def using used fr cl u(2) cu np by simp
  then show ?thesis using vs u(2) by simp
qed

lemma tidy_find_block:
  assumes "log_inv s" and "tidy s" and "current_page s = None" and "\<forall>b \<in> set bs. b < num_blocks (conf s)" and "find_block bs s = Inr (ok, t)"
  shows "tidy t \<and> (\<forall>q < num_pages s. state (flash t) ! q = STATE_VALID \<longleftrightarrow> state (flash s) ! q = STATE_VALID)"
  using assms(4,5)
proof (induction bs)
  case (Cons b bs)
  obtain ok1 u where u: "is_block_free b s = Inr (ok1, u)" "if ok1 then ok \<and> t = u else find_block bs u = Inr (ok, t)"
    using Cons.prems(2) by (auto simp: rbind_eq_Inr split: if_splits)
  show ?case
  proof (cases ok1)
    case True
    then show ?thesis using tidy_is_block_free [OF assms(1-3) _ u(1)] u(2) Cons.prems(1) by simp
  next
    case False
    then have "u = s" using is_block_free_True(1) [of b s u] u(1) by simp
    then show ?thesis using Cons.IH Cons.prems(1) u(2) False by simp
  qed
qed (use assms in simp)

lemma tidy_get_cursor:
  assumes "log_inv s" and "tidy s" and "get_cursor s = Inr (ok, t)"
  shows "tidy t \<and> (\<forall>q < num_pages s. state (flash t) ! q = STATE_VALID \<longleftrightarrow> state (flash s) ! q = STATE_VALID)"
proof (cases "current_page s = None")
  case True
  have "\<forall>b \<in> set ([current_block s..<num_blocks (conf s)] @ [0..<current_block s]). b < num_blocks (conf s)"
    using assms by (auto simp: log_inv_def log_shape_def)
  from tidy_find_block [OF assms(1,2) True this] assms(3) True show ?thesis by (simp add: get_cursor_def)
next
  case False
  then show ?thesis using assms by (auto simp: get_cursor_def)
qed

lemma program_fields:
  assumes "physical_program p d s = Inr t"
  shows "conf t = conf s \<and> gc_used_blocks t = gc_used_blocks s \<and> gc_current_block t = gc_current_block s \<and>
    current_page t = current_page s \<and> current_block t = current_block s \<and> state (flash t) = (state (flash s))[p := STATE_VALID]"
  using assms by (auto simp: physical_program_def Let_def split: if_splits)

definition valid_pages :: "ssd \<Rightarrow> nat set" where
  "valid_pages s = {q. q < num_pages s \<and> state (flash s) ! q = STATE_VALID}"

text \<open>A write keeps the blocks tidy, and takes exactly one page when it succeeds.\<close>

lemma tidy_write_logging:
  assumes inv: "log_inv s" and td: "tidy s" and l: "l < num_logical_pages (conf s)" and w: "write_logging l d s = Inr (r, s')"
  shows "tidy s' \<and> card (valid_pages s') = card (valid_pages s) + (if r = Success then 1 else 0) \<and> (r = Success \<longrightarrow> card (valid_pages s) < num_pages s)"
proof -
  let ?n = "pages_per_block (conf s)"
  obtain ok s1 where g: "get_cursor s = Inr (ok, s1)" using w by (auto simp: write_logging_def rbind_eq_Inr)
  note t1 = tidy_get_cursor [OF inv td g]
  show ?thesis
  proof (cases ok)
    case False
    then have s1: "s1 = s" using get_cursor_spec [OF inv] g by auto
    then have r: "r = Device_Full" "s' = s\<lparr>sums := (sums s)\<lparr>logical_write_fail_sum := logical_write_fail_sum (sums s) + 1\<rparr>\<rparr>"
      using w g False by (auto simp: write_logging_def)
    have "same_use s s'" using r(2) by (simp add: same_use_def)
    then show ?thesis using same_use_tidy td r by (simp add: valid_pages_def num_pages_def)
  next
    case True
    have c: "at_cursor s s1" using get_cursor_spec [OF inv] g True by auto
    then obtain p where p: "current_page s1 = Some p" by (auto simp: at_cursor_def)
    have inv1: "log_inv s1" and conf1: "conf s1 = conf s" using c by (auto simp: at_cursor_def)
    have np: "num_pages s1 = num_pages s" using conf1 by (simp add: num_pages_def)
    have "l < num_logical_pages (conf s1)" using l conf1 by simp
    from program_cursor [OF inv1 p this, where d = d] obtain s2 s3 where
      q: "state (flash s1) ! p = STATE_ERASED" "p < num_pages s1" "physical_program p d s1 = Inr s2"
        "update_cursor (set_maps l p s2) = Inr s3" "log_inv s3" "conf s3 = conf s1" "current_block s3 = current_block s1"
        "state (flash s3) = (state (flash s1))[p := STATE_VALID]"
        "current_page s3 = (if Suc p mod pages_per_block (conf s1) = 0 then None else Some (Suc p))"
      by blast
    have w': "r = Success" "s' = s3" using w g True p q by (auto simp: write_logging_def)
    have f: "gc_used_blocks s3 = gc_used_blocks s1" "gc_current_block s3 = gc_current_block s1"
      using program_fields [OF q(3)] q(4) by (auto simp: update_cursor_def set_maps_def split: option.splits if_splits)
    have n: "0 < ?n" and len: "length (state (flash s1)) = num_pages s" using inv1 np conf1 by (auto simp: log_inv_def sized_def)
    have sh: "current_block s1 = p div ?n" "\<forall>q. q div ?n = p div ?n \<longrightarrow> state (flash s1) ! q = (if q < p then STATE_VALID else STATE_ERASED)"
      using inv1 p conf1 by (auto simp: log_inv_def log_shape_def)
    have np3: "num_pages s3 = num_pages s" using q(6) conf1 by (simp add: num_pages_def)
    have td1: "tidy s1" using t1 by simp
    have first: "state (flash s3) ! (b * ?n) = state (flash s1) ! (b * ?n)" if "b \<noteq> p div ?n" for b
    proof -
      have "b * ?n \<noteq> p" using that n by auto
      then show ?thesis using q(8) by simp
    qed
    have fr: "free_block s3 b" if b: "b < num_blocks (conf s)" "gc_used_blocks s3 ! b = 0" for b
    proof -
      have fb: "free_block s1 b" using td1 b f(1) conf1 by (simp add: tidy_def)
      then have "b \<noteq> p div ?n" using p sh(1) by (auto simp: free_block_def)
      then show ?thesis using fb first [of b] sh(1) q(6,7) conf1 p by (auto simp: free_block_def)
    qed
    have cl: "state (flash s3) ! x = STATE_VALID"
      if x: "x < num_pages s" "state (flash s3) ! (x div ?n * ?n) = STATE_VALID" "current_page s3 = None \<or> x div ?n \<noteq> current_block s3" for x
    proof (cases "x div ?n = p div ?n")
      case False
      then have "state (flash s1) ! (x div ?n * ?n) = STATE_VALID" using x(2) first by simp
      then have "state (flash s1) ! x = STATE_VALID" using td1 x(1) False sh(1) np conf1 by (simp add: tidy_def)
      then show ?thesis using q(8) len x(1) by (cases "x = p") simp_all
    next
      case same: True
      then have "Suc p mod ?n = 0" using x(3) sh(1) q(7,9) conf1 by (auto split: if_splits)
      then have "p mod ?n = ?n - 1" using n by (auto simp: mod_Suc split: if_splits)
      moreover have "x mod ?n < ?n" using n by simp
      ultimately have "x mod ?n \<le> p mod ?n" by simp
      then have "x \<le> p" using same by (metis div_mult_mod_eq add_le_mono1 add.commute add_le_cancel_left)
      then show ?thesis using same sh(2) q(8) len x(1) by (cases "x = p") auto
    qed
    have "used_ok (conf s3) s3" using td1 f(1) q(6) by (simp add: tidy_def used_ok_def)
    then have tidy3: "tidy s3" unfolding tidy_def using fr cl f(2) td1 q(6) conf1 np3 by (simp add: tidy_def)
    have vp: "valid_pages s3 = insert p (valid_pages s)"
      using t1 q(2,8) len np np3 by (auto simp: valid_pages_def nth_list_update)
    have "p \<notin> valid_pages s" using t1 q(1,2) np by (auto simp: valid_pages_def)
    moreover have "finite (valid_pages s)" by (simp add: valid_pages_def)
    moreover have "valid_pages s \<subset> {..<num_pages s}" using \<open>p \<notin> valid_pages s\<close> q(2) np by (auto simp: valid_pages_def)
    then have "card (valid_pages s) < num_pages s" using psubset_card_mono [of "{..<num_pages s}" "valid_pages s"] by simp
    ultimately show ?thesis using w' tidy3 vp by simp
  qed
qed

lemma tidy_ssd_write:
  assumes inv: "log_inv s" and td: "tidy s" and w: "ssd_write a d s = Inr (r, s')"
  shows "tidy s' \<and> card (valid_pages s') = card (valid_pages s) + (if r = Success then 1 else 0) \<and> (r = Success \<longrightarrow> card (valid_pages s) < num_pages s)"
proof -
  let ?t = "s\<lparr>sums := (sums s)\<lparr>logical_write_sum := logical_write_sum (sums s) + 1\<rparr>\<rparr>"
  have c: "same_core s ?t" "same_use s ?t" by (simp_all add: same_use_def)
  have it: "log_inv ?t" "tidy ?t" using inv td same_coreD(1) [OF c(1)] same_use_tidy [OF c(2)] by simp_all
  have vp: "valid_pages ?t = valid_pages s" "num_pages ?t = num_pages s" by (simp_all add: valid_pages_def num_pages_def)
  show ?thesis
  proof (cases "a < 0 \<or> a \<ge> int (num_logical_pages (conf s))")
    case True
    then have "r = Illegal_Write_Address" "same_use s s'" using w by (auto simp: ssd_write_def Let_def same_use_def)
    then show ?thesis using same_use_tidy td by (simp add: valid_pages_def num_pages_def same_use_def)
  next
    case False
    then have "write_logging (nat a) d ?t = Inr (r, s')" "nat a < num_logical_pages (conf ?t)"
      using w inv by (auto simp: ssd_write_def Let_def log_inv_def nat_less_iff)
    from tidy_write_logging [OF it this(2,1)] show ?thesis unfolding vp .
  qed
qed

text \<open>A full device has no page left.\<close>

lemma full_pages:
  assumes "tidy s" and "0 < pages_per_block (conf s)" and "\<not> room 1 s" and "log_inv s"
  shows "card (valid_pages s) = num_pages s"
proof -
  let ?n = "pages_per_block (conf s)"
  have "current_page s = None"
  proof (rule ccontr)
    assume "current_page s \<noteq> None"
    then obtain p where "current_page s = Some p" by blast
    moreover have "p mod ?n + 1 \<le> ?n" using assms(2) by (simp add: Suc_leI)
    ultimately show False using assms(3) by (auto simp: room_def)
  qed
  moreover have "state (flash s) ! (b * ?n) = STATE_VALID" if "b < num_blocks (conf s)" for b
    using assms(3) that \<open>current_page s = None\<close> by (auto simp: room_def free_block_def)
  ultimately have "state (flash s) ! q = STATE_VALID" if "q < num_pages s" for q
    using assms(1) that page_block_less [OF that] by (simp add: tidy_def)
  then have "valid_pages s = {..<num_pages s}" by (auto simp: valid_pages_def)
  then show ?thesis by simp
qed

text \<open>A write at a legal address, in any state of the log.\<close>

lemma ssd_write_log:
  assumes inv: "log_inv s" and a: "l < num_logical_pages (conf s)"
  shows "\<exists>r s' t. ssd_write (int l) d s = Inr (r, s') \<and> same_core s t \<and>
     logical_write_fail_sum (sums t) = logical_write_fail_sum (sums s) \<and>
     (r = Device_Full \<and> same_core t s' \<and> (\<forall>k. \<not> room (Suc k) t) \<and>
        logical_write_fail_sum (sums s') = logical_write_fail_sum (sums s) + 1 \<or>
      r = Success \<and> logged l d t s')"
proof -
  let ?t = "s\<lparr>sums := (sums s)\<lparr>logical_write_sum := logical_write_sum (sums s) + 1\<rparr>\<rparr>"
  have c: "same_core s ?t" by simp
  then have it: "log_inv ?t" using inv same_coreD(1) by blast
  have w: "ssd_write (int l) d s = write_logging l d ?t"
    using a inv by (simp add: ssd_write_def Let_def log_inv_def)
  have "l < num_logical_pages (conf ?t)" using a by simp
  from write_logging_spec [OF it this, of d] show ?thesis
    unfolding w using c by (elim disjE exE conjE) fastforce+
qed

definition only_mapped :: "nat \<Rightarrow> ssd \<Rightarrow> nat list \<Rightarrow> bool" where
  "only_mapped b s ps \<longleftrightarrow> (\<forall>q. q div pages_per_block (conf s) = b \<longrightarrow>
     (q \<in> set ps \<longleftrightarrow> (\<exists>m < num_logical_pages (conf s). forward_map s ! m = Some q)))"

definition collecting :: "nat \<Rightarrow> ssd \<Rightarrow> nat list \<Rightarrow> bool" where
  "collecting b s ps \<longleftrightarrow> log_inv s \<and> b < num_blocks (conf s) \<and> b \<noteq> current_block s \<and>
     (ps \<noteq> [] \<longrightarrow> state (flash s) ! (b * pages_per_block (conf s)) = STATE_VALID) \<and>
     distinct ps \<and> (\<forall>q \<in> set ps. q div pages_per_block (conf s) = b) \<and>
     length ps < pages_per_block (conf s) \<and> room (length ps) s \<and> only_mapped b s ps"

lemma gc_copy_step:
  assumes c: "collecting b s (p # ps)"
  shows "\<exists>s'. gc_copy p s = Inr s' \<and> collecting b s' ps \<and> contents s' = contents s \<and> conf s' = conf s \<and>
     logical_write_fail_sum (sums s') = logical_write_fail_sum (sums s) \<and> (tidy s \<longrightarrow> tidy s')"
proof -
  let ?n = "pages_per_block (conf s)"
  have inv: "log_inv s" and sz: "sized s" and mp: "mapped s" and b: "b < num_blocks (conf s)" "b \<noteq> current_block s"
    and first: "state (flash s) ! (b * ?n) = STATE_VALID" and pb: "p div ?n = b"
    and len: "Suc (length ps) < ?n" and rm: "room (Suc (length ps)) s" and om: "only_mapped b s (p # ps)"
    and n: "0 < ?n"
    using c by (auto simp: collecting_def log_inv_def)
  obtain l where l: "l < num_logical_pages (conf s)" "forward_map s ! l = Some p"
    using om pb by (auto simp: only_mapped_def)
  have p: "p < num_pages s" "state (flash s) ! p = STATE_VALID" "reverse_map s ! p = Some l"
    using mp l by (auto simp: mapped_def)
  obtain s1 where s1: "physical_read p s = Inr (data (flash s) ! p, s1)" "same_core s s1" "sums s1 = sums s"
    using physical_read_spec [OF sz p(1)] by blast
  have inv1: "log_inv s1" using inv same_coreD(1) [OF s1(2)] by simp
  have l1: "l < num_logical_pages (conf s1)" using l(1) s1(2) by (simp add: same_core_def)
  let ?d = "data (flash s) ! p"
  obtain r s' t where w: "ssd_write (int l) ?d s1 = Inr (r, s')" "same_core s1 t"
    "logical_write_fail_sum (sums t) = logical_write_fail_sum (sums s1)"
    "r = Device_Full \<and> same_core t s' \<and> (\<forall>k. \<not> room (Suc k) t) \<and>
        logical_write_fail_sum (sums s') = logical_write_fail_sum (sums s1) + 1 \<or> r = Success \<and> logged l ?d t s'"
    using ssd_write_log [OF inv1 l1, of ?d] by blast
  have t: "same_core s t" using same_core_trans [OF s1(2) w(2)] .
  then have rt: "room (Suc (length ps)) t" using rm same_core_room by blast
  have lg: "logged l ?d t s'" using w(4) rt by blast
  have eq: "conf t = conf s" "state (flash t) = state (flash s)" "data (flash t) = data (flash s)"
    "current_block t = current_block s" "forward_map t = forward_map s" "reverse_map t = reverse_map s"
    "num_pages t = num_pages s" "contents t = contents s" "sized t" "mapped t"
    using t same_coreD [OF t] sz mp by (auto simp: same_core_def)
  obtain p' where lg': "log_inv s'" "conf s' = conf s" "sums s' = sums t" "p' < num_pages s"
    "state (flash s) ! p' \<noteq> STATE_VALID" "forward_map s' = (forward_map s)[l := Some p']"
    "\<forall>k. Suc k \<le> ?n \<and> room (Suc k) t \<longrightarrow> room k s'"
    "\<forall>q<num_pages s. state (flash s) ! q = STATE_VALID \<longrightarrow> state (flash s') ! q = STATE_VALID"
    "\<forall>c<num_blocks (conf s). state (flash s) ! (c * ?n) = STATE_VALID \<and> c \<noteq> current_block s \<longrightarrow>
       c \<noteq> current_block s' \<and> p' div ?n \<noteq> c"
    using lg unfolding logged_def eq by blast
  have "contents s' = (contents s)(l \<mapsto> ?d)"
    using logged_contents [OF eq(10) _ eq(9) lg] l(1) eq by simp
  also have "\<dots> = contents s" using l by (auto simp: contents_def)
  finally have cont: "contents s' = contents s" .
  have fw: "forward_map s' ! m = (if m = l then Some p' else forward_map s ! m)" if "m < num_logical_pages (conf s)" for m
    using that lg'(6) sz l(1) by (simp add: sized_def nth_list_update)
  have p'b: "p' div ?n \<noteq> b" "b \<noteq> current_block s'" using lg'(9) b first by blast+
  have uniq: "m = l" if "m < num_logical_pages (conf s)" "forward_map s ! m = Some p" for m
    using mp that p(3) by (auto simp: mapped_def)
  have om': "only_mapped b s' ps"
    unfolding only_mapped_def lg'(2)
  proof (intro allI impI)
    fix q assume q: "q div ?n = b"
    have "q \<in> set ps \<longleftrightarrow> q \<noteq> p \<and> q \<in> set (p # ps)" using c by (auto simp: collecting_def)
    also have "\<dots> \<longleftrightarrow> q \<noteq> p \<and> (\<exists>m<num_logical_pages (conf s). forward_map s ! m = Some q)"
      using om q by (simp add: only_mapped_def)
    also have "\<dots> \<longleftrightarrow> (\<exists>m<num_logical_pages (conf s). forward_map s' ! m = Some q)"
      using fw p'b(1) q uniq l by (metis option.inject)
    finally show "q \<in> set ps \<longleftrightarrow> (\<exists>m<num_logical_pages (conf s). forward_map s' ! m = Some q)" .
  qed
  have fb: "b * ?n < num_pages s" using block_page_less [OF b(1) first_page [OF n] n] .
  have "collecting b s' ps"
    unfolding collecting_def lg'(2)
    using lg'(1,7,8) b(1) p'b(2) first fb c len rt om' by (auto simp: collecting_def)
  moreover have "reverse_map s1 ! p = Some l" using p(3) s1(2) by (simp add: same_core_def)
  then have "gc_copy p s = Inr s'" using s1(1) w(1) by (simp add: gc_copy_def)
  moreover have "tidy s \<longrightarrow> tidy s'"
    using tidy_ssd_write [OF inv1 _ w(1)] same_use_tidy [OF same_use_read [OF s1(1)]] by blast
  ultimately show ?thesis using cont lg'(2,3) w(3) s1(3) by (intro exI [of _ s']) simp
qed

lemma gc_copy_all:
  "collecting b s ps \<Longrightarrow> \<exists>s'. rfold gc_copy ps s = Inr s' \<and> collecting b s' [] \<and> contents s' = contents s \<and>
     conf s' = conf s \<and> logical_write_fail_sum (sums s') = logical_write_fail_sum (sums s) \<and> (tidy s \<longrightarrow> tidy s')"
proof (induction ps arbitrary: s)
  case (Cons p ps)
  obtain t where t: "gc_copy p s = Inr t" "collecting b t ps" "contents t = contents s" "conf t = conf s"
    "logical_write_fail_sum (sums t) = logical_write_fail_sum (sums s)" "tidy s \<longrightarrow> tidy t"
    using gc_copy_step [OF Cons.prems] by blast
  from Cons.IH [OF t(2)] t show ?case by auto
qed simp

lemma erase_collected:
  assumes c: "collecting b s []"
  shows "\<exists>s'. physical_erase b s = Inr s' \<and> log_inv s' \<and> contents s' = contents s \<and> conf s' = conf s \<and>
     sums s' = sums s \<and> free_block s' b \<and> (tidy s \<longrightarrow> tidy s')"
proof -
  let ?n = "pages_per_block (conf s)"
  have inv: "log_inv s" and sz: "sized s" and mp: "mapped s" and shape: "log_shape s" and n: "0 < ?n"
    and b: "b < num_blocks (conf s)" "b \<noteq> current_block s" and om: "only_mapped b s []"
    using c by (auto simp: collecting_def log_inv_def)
  obtain t where t: "physical_erase b s = Inr t" "conf t = conf s" "sized t" "sums t = sums s"
      "forward_map t = forward_map s" "reverse_map t = reverse_map s"
      "current_page t = current_page s" "current_block t = current_block s"
      "\<forall>q < num_pages s. q div ?n = b \<longrightarrow> state (flash t) ! q = STATE_ERASED"
      "\<forall>q < num_pages s. q div ?n \<noteq> b \<longrightarrow> state (flash t) ! q = state (flash s) ! q \<and>
         data (flash t) ! q = data (flash s) ! q"
    using physical_erase_spec [OF sz b(1)] by blast
  have np: "num_pages t = num_pages s" using t(2) by (simp add: num_pages_def)
  have less: "q < num_pages s" if "q div ?n < num_blocks (conf s)" for q
    using block_page_less [OF that _ n] by simp
  have away: "q div ?n \<noteq> b" if "m < num_logical_pages (conf s)" "forward_map s ! m = Some q" for m q
    using om that by (auto simp: only_mapped_def)
  have live: "q < num_pages s" "state (flash t) ! q = STATE_VALID" "data (flash t) ! q = data (flash s) ! q"
      "reverse_map s ! q = Some m"
    if "m < num_logical_pages (conf s)" "forward_map s ! m = Some q" for m q
    using mp that away [OF that] t(10) by (auto simp: mapped_def)
  have mt: "mapped t"
    unfolding mapped_def np using live t(2,5,6) by simp
  have st: "log_shape t"
    unfolding log_shape_def
  proof (intro conjI allI impI)
    fix p q assume p: "current_page t = Some p" and q: "q div pages_per_block (conf t) = current_block t"
    have old: "p < num_pages s" "current_block s = p div ?n"
      "state (flash s) ! q = (if q < p then STATE_VALID else STATE_ERASED)"
      using shape p q t(2,7,8) by (auto simp: log_shape_def)
    moreover have "q div ?n \<noteq> b" "q < num_pages s"
      using q b(2) t(2,8) less [of q] page_block_less [OF old(1)] old(2) by auto
    ultimately show "state (flash t) ! q = (if q < p then STATE_VALID else STATE_ERASED)" using t(10) by simp
  next
    fix c q assume c: "c < num_blocks (conf t)"
        "state (flash t) ! (c * pages_per_block (conf t)) \<noteq> STATE_VALID" "q div pages_per_block (conf t) = c"
    have q: "q < num_pages s" "c * ?n < num_pages s" "c * ?n div ?n = c" "q div ?n = c"
      using c t(2) less [of q] less [of "c * ?n"] n by auto
    show "state (flash t) ! q = state (flash t) ! (c * pages_per_block (conf t))"
    proof (cases "c = b")
      case True
      then show ?thesis using q t(2,9) by simp
    next
      case False
      then have e: "state (flash t) ! q = state (flash s) ! q"
        "state (flash t) ! (c * ?n) = state (flash s) ! (c * ?n)" using q t(10) by simp_all
      then have "state (flash s) ! (c * ?n) \<noteq> STATE_VALID" "c < num_blocks (conf s)" using c t(2) by simp_all
      then have "state (flash s) ! q = state (flash s) ! (c * ?n)"
        using shape q(4) unfolding log_shape_def by blast
      then show ?thesis using e t(2) by simp
    qed
  qed (use shape t(2,7,8) np in \<open>auto simp: log_shape_def\<close>)
  have "owned t" using inv t(2,6) np by (simp add: owned_def log_inv_def)
  then have "log_inv t" using inv t(2,3) mt st by (simp add: log_inv_def)
  moreover have "contents t = contents s"
  proof
    fix l show "contents t l = contents s l"
      using live(3) [of l] t(2,5) by (cases "forward_map s ! l") (simp_all add: contents_def)
  qed
  moreover have "free_block t b"
    using b t less [of "b * ?n"] n by (simp add: free_block_def)
  moreover have "tidy s \<longrightarrow> tidy t" using tidy_erase [OF inv _ b(1) _ t(1)] b(2) by blast
  ultimately show ?thesis using t by blast
qed

lemma room_less: "room k s \<Longrightarrow> j \<le> k \<Longrightarrow> room j s"
  by (auto simp: room_def)

lemma room_free: "free_block s f \<Longrightarrow> room k s"
  by (auto simp: room_def free_block_def)

lemma live_pages_collecting:
  assumes inv: "log_inv s" and b: "b < num_blocks (conf s)" "b \<noteq> current_block s"
    and live: "length (live_pages b s) \<noteq> pages_per_block (conf s)" and free: "room (pages_per_block (conf s) - 1) s"
  shows "collecting b s (live_pages b s)"
proof -
  let ?n = "pages_per_block (conf s)"
  have mp: "mapped s" and shape: "log_shape s" and n: "0 < ?n" using inv by (auto simp: log_inv_def sized_def)
  have "length (block_pages s b) = ?n" by (simp add: block_pages_def)
  then have "length (live_pages b s) \<le> ?n" unfolding live_pages_def by (metis length_filter_le)
  with live have len: "length (live_pages b s) < ?n" by simp
  have rm: "room (length (live_pages b s)) s" using room_less [OF free] len by simp
  have less: "q < num_pages s" if "q div ?n = b" for q using block_page_less [OF b(1) that n] .
  have om: "only_mapped b s (live_pages b s)"
    unfolding only_mapped_def
  proof (intro allI impI)
    fix q assume q: "q div ?n = b"
    then have q': "q \<in> set (block_pages s b)" "q < num_pages s" using in_block_pages [OF n] less by auto
    show "q \<in> set (live_pages b s) \<longleftrightarrow> (\<exists>m<num_logical_pages (conf s). forward_map s ! m = Some q)"
    proof
      assume "q \<in> set (live_pages b s)"
      then obtain m where "reverse_map s ! q = Some m" "forward_map s ! m = Some q"
        by (auto simp: live_pages_def split: option.splits)
      then show "\<exists>m<num_logical_pages (conf s). forward_map s ! m = Some q"
        using inv q'(2) by (auto simp: log_inv_def owned_def)
    next
      assume "\<exists>m<num_logical_pages (conf s). forward_map s ! m = Some q"
      then obtain m where "m < num_logical_pages (conf s)" "forward_map s ! m = Some q" by blast
      moreover from this have "reverse_map s ! q = Some m" using mp by (simp add: mapped_def)
      ultimately show "q \<in> set (live_pages b s)" using q'(1) by (simp add: live_pages_def)
    qed
  qed
  have inb: "\<forall>q \<in> set (live_pages b s). q div ?n = b"
    using in_block_pages [OF n] by (auto simp: live_pages_def)
  have fv: "state (flash s) ! (b * ?n) = STATE_VALID" if ne: "live_pages b s \<noteq> []"
  proof (rule ccontr)
    assume nv: "state (flash s) ! (b * ?n) \<noteq> STATE_VALID"
    obtain q where q: "q \<in> set (live_pages b s)" using ne by (cases "live_pages b s") auto
    then have "q div ?n = b" using inb by blast
    with om q obtain m where "m<num_logical_pages (conf s)" "forward_map s ! m = Some q"
      unfolding only_mapped_def by blast
    then have "state (flash s) ! q = STATE_VALID" using mp by (simp add: mapped_def)
    moreover have "state (flash s) ! q = state (flash s) ! (b * ?n)"
      using shape b(1) nv \<open>q div ?n = b\<close> unfolding log_shape_def by blast
    ultimately show False using nv by simp
  qed
  have "distinct (live_pages b s)" by (simp add: live_pages_def block_pages_def)
  with inv b fv inb len rm om show ?thesis unfolding collecting_def by blast
qed

text \<open>
  Garbage collection started with a free block never fails, loses nothing, and leaves a free block.
\<close>

text \<open>Collecting one block for which there is room.\<close>

lemma collect_block:
  assumes inv: "log_inv s" and rm: "room (pages_per_block (conf s) - 1) s" and b: "b < num_blocks (conf s)" "b \<noteq> current_block s"
    and live: "length (live_pages b s) \<noteq> pages_per_block (conf s)"
  shows "\<exists>s1 s2. rfold gc_copy (live_pages b s) s = Inr s1 \<and> physical_erase b s1 = Inr s2 \<and> log_inv s2 \<and> contents s2 = contents s \<and>
    conf s2 = conf s \<and> logical_write_fail_sum (sums s2) = logical_write_fail_sum (sums s) \<and> free_block s2 b \<and> (tidy s \<longrightarrow> tidy s2)"
proof -
  obtain s1 where s1: "rfold gc_copy (live_pages b s) s = Inr s1"
    "collecting b s1 []" "contents s1 = contents s" "conf s1 = conf s"
    "logical_write_fail_sum (sums s1) = logical_write_fail_sum (sums s)" "tidy s \<longrightarrow> tidy s1"
    using gc_copy_all [OF live_pages_collecting [OF inv b live rm]] by blast
  from erase_collected [OF s1(2)] obtain s2 where "physical_erase b s1 = Inr s2" "log_inv s2"
    "contents s2 = contents s1" "conf s2 = conf s1" "sums s2 = sums s1" "free_block s2 b" "tidy s1 \<longrightarrow> tidy s2" by blast
  then show ?thesis using s1 by auto
qed

text \<open>What the rest of a collection may rely on, and what it leaves behind.\<close>

definition collected :: "ssd \<Rightarrow> ssd \<Rightarrow> bool" where
  "collected s s' \<longleftrightarrow> log_inv s' \<and> (\<exists>f. free_block s' f) \<and> contents s' = contents s \<and> conf s' = conf s \<and>
     logical_write_fail_sum (sums s') = logical_write_fail_sum (sums s) \<and> (tidy s \<longrightarrow> tidy s')"

lemma collection_ends:
  assumes "log_inv s" and "free_block s b" and "b < num_blocks (conf s)"
  shows "collected s (s\<lparr>gc_current_block := b, gc_count := gc_count s + 1\<rparr>)"
proof -
  let ?t = "s\<lparr>gc_current_block := b, gc_count := gc_count s + 1\<rparr>"
  have c: "same_core s ?t" by (simp add: same_core_def)
  have "tidy s \<longrightarrow> tidy ?t" using assms(3) by (simp add: tidy_def used_ok_def free_block_def num_pages_def)
  then show ?thesis using same_coreD [OF c] same_core_room [OF c] assms by (auto simp: collected_def)
qed

lemma collected_trans: "collected s t \<Longrightarrow> collected t u \<Longrightarrow> collected s u"
  by (simp add: collected_def)

lemma gc_blocks_collected:
  "log_inv s \<Longrightarrow> free_block s f \<Longrightarrow> \<forall>b \<in> set bs. b < num_blocks (conf s) \<Longrightarrow> \<exists>s'. gc_blocks bs s = Inr s' \<and> collected s s'"
proof (induction bs arbitrary: s f)
  case (Cons b bs)
  let ?n = "pages_per_block (conf s)"
  have n: "0 < ?n" using Cons.prems(1) by (simp add: log_inv_def sized_def)
  have b: "b < num_blocks (conf s)" using Cons.prems(3) by simp
  have fp: "b * ?n < num_pages s" using block_page_less [OF b first_page [OF n] n] .
  show ?case
  proof (cases "b = current_block s \<or> state (flash s) ! (b * ?n) = STATE_ERASED \<or> length (live_pages b s) = ?n")
    case True
    then show ?thesis using Cons.IH Cons.prems fp by (auto simp: Let_def)
  next
    case False
    then obtain s1 s2 where s2: "rfold gc_copy (live_pages b s) s = Inr s1" "physical_erase b s1 = Inr s2" "log_inv s2" "contents s2 = contents s"
      "conf s2 = conf s" "logical_write_fail_sum (sums s2) = logical_write_fail_sum (sums s)" "free_block s2 b" "tidy s \<longrightarrow> tidy s2"
      using collect_block [OF Cons.prems(1) room_free [OF Cons.prems(2)] b] by blast
    have c: "collected s s2" using s2 by (auto simp: collected_def)
    show ?thesis
    proof (cases "int (blocks_in_use s2) \<le> gc_low_water_mark (conf s2)")
      case True
      then show ?thesis using False fp s2(1,2) collected_trans [OF c collection_ends [OF s2(3,7)]] b s2(5) by (auto simp: Let_def)
    next
      case low: False
      have "\<forall>b\<in>set bs. b < num_blocks (conf s2)" using Cons.prems(3) s2(5) by simp
      then obtain s' where "gc_blocks bs s2 = Inr s'" "collected s2 s'" using Cons.IH [OF s2(3,7)] by blast
      then show ?thesis using False fp s2(1,2) low collected_trans [OF c] by (auto simp: Let_def)
    qed
  qed
qed (auto simp: collected_def)

lemma gc_blocks_spec:
  "log_inv s \<Longrightarrow> free_block s f \<Longrightarrow> \<forall>b \<in> set bs. b < num_blocks (conf s) \<Longrightarrow>
   \<exists>s'. gc_blocks bs s = Inr s' \<and> log_inv s' \<and> (\<exists>f. free_block s' f) \<and> contents s' = contents s \<and>
     conf s' = conf s \<and> logical_write_fail_sum (sums s') = logical_write_fail_sum (sums s)"
  using gc_blocks_collected [of s f bs] unfolding collected_def by blast

text \<open>Without a free block it is enough that the current block can take the live pages of one block, and that there is a block to collect.\<close>

definition collectable :: "ssd \<Rightarrow> nat \<Rightarrow> bool" where
  "collectable s b \<longleftrightarrow> b \<noteq> current_block s \<and> state (flash s) ! (b * pages_per_block (conf s)) \<noteq> STATE_ERASED \<and>
     length (live_pages b s) \<noteq> pages_per_block (conf s)"

lemma gc_blocks_room:
  assumes inv: "log_inv s" and rm: "room (pages_per_block (conf s) - 1) s"
  shows "\<forall>b \<in> set bs. b < num_blocks (conf s) \<Longrightarrow> \<exists>b \<in> set bs. collectable s b \<Longrightarrow> \<exists>s'. gc_blocks bs s = Inr s' \<and> collected s s'"
proof (induction bs)
  case (Cons b bs)
  let ?n = "pages_per_block (conf s)"
  have n: "0 < ?n" using inv by (simp add: log_inv_def sized_def)
  have b: "b < num_blocks (conf s)" using Cons.prems(1) by simp
  have fp: "b * ?n < num_pages s" using block_page_less [OF b first_page [OF n] n] .
  show ?case
  proof (cases "collectable s b")
    case False
    then show ?thesis using Cons fp by (auto simp: collectable_def Let_def)
  next
    case True
    then have nc: "b \<noteq> current_block s" "state (flash s) ! (b * ?n) \<noteq> STATE_ERASED" "length (live_pages b s) \<noteq> ?n" by (simp_all add: collectable_def)
    obtain s1 s2 where s2: "rfold gc_copy (live_pages b s) s = Inr s1" "physical_erase b s1 = Inr s2" "log_inv s2" "contents s2 = contents s"
      "conf s2 = conf s" "logical_write_fail_sum (sums s2) = logical_write_fail_sum (sums s)" "free_block s2 b" "tidy s \<longrightarrow> tidy s2"
      using collect_block [OF inv rm b nc(1,3)] by blast
    have c: "collected s s2" using s2 by (auto simp: collected_def)
    show ?thesis
    proof (cases "int (blocks_in_use s2) \<le> gc_low_water_mark (conf s2)")
      case True
      then show ?thesis using nc fp s2(1,2) collected_trans [OF c collection_ends [OF s2(3,7)]] b s2(5) by (auto simp: Let_def)
    next
      case low: False
      have "\<forall>b\<in>set bs. b < num_blocks (conf s2)" using Cons.prems(1) s2(5) by simp
      then obtain s' where "gc_blocks bs s2 = Inr s'" "collected s2 s'" using gc_blocks_collected [OF s2(3,7)] by blast
      then show ?thesis using nc fp s2(1,2) low collected_trans [OF c] by (auto simp: Let_def)
    qed
  qed
qed simp

text \<open>With one block more than the logical pages fill there is always a block to collect.\<close>

lemma some_collectable:
  assumes inv: "log_inv s" and few: "num_logical_pages (conf s) + pages_per_block (conf s) < num_pages s" and none: "\<And>f. \<not> free_block s f"
  shows "\<exists>b < num_blocks (conf s). collectable s b"
proof (rule ccontr)
  let ?n = "pages_per_block (conf s)" and ?B = "num_blocks (conf s)"
  assume no: "\<not> (\<exists>b < ?B. collectable s b)"
  have n: "0 < ?n" and ow: "owned s" using inv by (auto simp: log_inv_def sized_def)
  let ?Q = "{q. q < num_pages s \<and> q div ?n \<noteq> current_block s}"
  have live: "\<exists>l < num_logical_pages (conf s). forward_map s ! l = Some q" if q: "q \<in> ?Q" for q
  proof -
    have b: "q div ?n < ?B" using page_block_less [of q s] q by simp
    have "state (flash s) ! (q div ?n * ?n) = STATE_VALID" using none [of "q div ?n"] b q by (auto simp: free_block_def)
    then have "length (live_pages (q div ?n) s) = ?n" using no b q by (auto simp: collectable_def)
    moreover have "length (block_pages s (q div ?n)) = ?n" by (simp add: block_pages_def)
    ultimately have "live_pages (q div ?n) s = block_pages s (q div ?n)" unfolding live_pages_def by (metis length_filter_less less_irrefl filter_True)
    moreover have "q \<in> set (block_pages s (q div ?n))" using in_block_pages [OF n] by simp
    ultimately have "q \<in> set (live_pages (q div ?n) s)" by simp
    then obtain l where "reverse_map s ! q = Some l" "forward_map s ! l = Some q" by (auto simp: live_pages_def split: option.splits)
    then show ?thesis using ow q by (auto simp: owned_def)
  qed
  have "?Q \<subseteq> (\<lambda>l. the (forward_map s ! l)) ` {..<num_logical_pages (conf s)}" using live by (force simp: image_iff)
  then have "card ?Q \<le> num_logical_pages (conf s)" using surj_card_le [OF finite_lessThan] by fastforce
  moreover have "{..<num_pages s} \<subseteq> ?Q \<union> {current_block s * ?n..<current_block s * ?n + ?n}"
  proof
    fix q assume "q \<in> {..<num_pages s}"
    show "q \<in> ?Q \<union> {current_block s * ?n..<current_block s * ?n + ?n}"
    proof (cases "q div ?n = current_block s")
      case True
      then have "q = current_block s * ?n + q mod ?n" by (metis div_mult_mod_eq)
      moreover have "q mod ?n < ?n" using n by simp
      ultimately show ?thesis by (metis UnI2 atLeastLessThan_iff le_add1 nat_add_left_cancel_less)
    qed (use \<open>q \<in> _\<close> in simp)
  qed
  then have "card {..<num_pages s} \<le> card (?Q \<union> {current_block s * ?n..<current_block s * ?n + ?n})" by (intro card_mono) auto
  then have "num_pages s \<le> card ?Q + ?n" using card_Un_le [of ?Q "{current_block s * ?n..<current_block s * ?n + ?n}"] by simp
  ultimately show False using few by simp
qed

section \<open>Reading and trimming\<close>

lemma ssd_read_spec:
  assumes sz: "sized s" and mp: "mapped s"
  shows "\<exists>r s'. ssd_read a s = Inr (r, s') \<and> same_core s s' \<and> (\<forall>d. r = Data d \<longleftrightarrow> page_at (contents s) a = Some d)"
proof (cases "a < 0 \<or> a \<ge> int (num_logical_pages (conf s)) \<or> forward_map s ! nat a = None")
  case True
  then show ?thesis
    by (auto simp: ssd_read_def Let_def page_at_def contents_def same_core_def nat_less_iff split: if_splits option.splits)
next
  case False
  let ?t = "s\<lparr>sums := (sums s)\<lparr>logical_read_sum := logical_read_sum (sums s) + 1\<rparr>\<rparr>"
  have c: "same_core s ?t" by simp
  obtain p where p: "forward_map s ! nat a = Some p" using False by auto
  have a: "nat a < num_logical_pages (conf s)" using False by (simp add: nat_less_iff)
  then have "p < num_pages s" using mp p by (simp add: mapped_def)
  then have "sized ?t" "p < num_pages ?t" using sz same_coreD(4,5) [OF c] by auto
  from physical_read_spec [OF this] obtain s' where
    s': "physical_read p ?t = Inr (data (flash s) ! p, s')" "same_core ?t s'" by auto
  have "ssd_read a s = Inr (Data (data (flash s) ! p), s')"
    using False p s'(1) by (simp add: ssd_read_def Let_def)
  moreover have "page_at (contents s) a = Some (data (flash s) ! p)"
    using False a p by (simp add: page_at_def contents_def)
  ultimately show ?thesis using same_core_trans [OF c s'(2)] by auto
qed

lemma ssd_trim_spec:
  assumes "sized s"
  shows "(\<exists>r s'. ssd_trim a s = Inr (r, s') \<and> r \<noteq> Success \<and> same_core s s' \<and> page_at (contents s) a = None) \<or>
    (\<exists>s' t. ssd_trim a s = Inr (Success, s') \<and> same_core s t \<and> s' = t\<lparr>forward_map := (forward_map t)[nat a := None]\<rparr> \<and>
      0 \<le> a \<and> nat a < num_logical_pages (conf s) \<and> page_at (contents s) a \<noteq> None)"
proof (cases "a < 0 \<or> a \<ge> int (num_logical_pages (conf s)) \<or> forward_map s ! nat a = None")
  case True
  then show ?thesis
    by (intro disjI1) (auto simp: ssd_trim_def Let_def page_at_def contents_def same_core_def nat_less_iff split: option.splits)
next
  case False
  let ?t = "s\<lparr>sums := (sums s)\<lparr>logical_trim_sum := logical_trim_sum (sums s) + 1\<rparr>\<rparr>"
  have "ssd_trim a s = Inr (Success, ?t\<lparr>forward_map := (forward_map ?t)[nat a := None]\<rparr>)"
    using False by (auto simp: ssd_trim_def Let_def split: option.splits)
  moreover have "page_at (contents s) a \<noteq> None" "nat a < num_logical_pages (conf s)" "0 \<le> a"
    using False by (auto simp: page_at_def contents_def nat_less_iff)
  ultimately show ?thesis by (intro disjI2 exI [of _ "?t\<lparr>forward_map := (forward_map ?t)[nat a := None]\<rparr>"] exI [of _ ?t]) simp
qed

lemma unmap_keeps:
  assumes "sized s" "l < num_logical_pages (conf s)"
  shows "log_inv s \<Longrightarrow> log_inv (s\<lparr>forward_map := (forward_map s)[l := None]\<rparr>)"
    and "direct_inv k s \<Longrightarrow> direct_inv k (s\<lparr>forward_map := (forward_map s)[l := None]\<rparr>)"
    and "contents (s\<lparr>forward_map := (forward_map s)[l := None]\<rparr>) = (contents s)(l := None)"
proof -
  let ?s = "s\<lparr>forward_map := (forward_map s)[l := None]\<rparr>"
  have len: "l < length (forward_map s)" using assms by (simp add: sized_def)
  have fw: "forward_map ?s ! m = Some p \<Longrightarrow> forward_map s ! m = Some p" for m p
    using len by (cases "m = l") auto
  have np: "num_pages ?s = num_pages s" by (simp add: num_pages_def)
  have sz: "sized s \<Longrightarrow> sized ?s" by (simp add: sized_def np)
  have mp: "mapped s \<Longrightarrow> mapped ?s" unfolding mapped_def np using fw by simp
  have ow: "owned s \<Longrightarrow> owned ?s" by (simp add: owned_def np)
  have sh: "log_shape s \<Longrightarrow> log_shape ?s" by (simp add: log_shape_def np)
  show "log_inv s \<Longrightarrow> log_inv ?s" using sz mp ow sh by (simp add: log_inv_def)
  show "direct_inv k s \<Longrightarrow> direct_inv k ?s" using sz mp fw np by (simp add: direct_inv_def)
  show "contents ?s = (contents s)(l := None)"
    using len assms(2) by (auto simp: contents_def fun_eq_iff nth_list_update)
qed

text \<open>The three laws, once, for an invariant that the statistics and unmapping do not disturb.\<close>

lemma device_reads:
  assumes "sized s" "mapped s" and inv: "P s" and stable: "\<And>s t. same_core s t \<Longrightarrow> P s \<Longrightarrow> P t"
  shows "\<exists>r s'. ssd_read a s = Inr (r, s') \<and> P s' \<and> contents s' = contents s \<and>
    (\<forall>d. r = Data d \<longleftrightarrow> page_at (contents s) a = Some d)"
proof -
  obtain r s' where r: "ssd_read a s = Inr (r, s')" "same_core s s'"
    "\<forall>d. r = Data d \<longleftrightarrow> page_at (contents s) a = Some d"
    using ssd_read_spec [OF assms(1,2), of a] by blast
  then show ?thesis using stable [OF r(2) inv] same_coreD(3) [OF r(2)] by blast
qed

lemma device_trims:
  assumes "sized s" and inv: "P s" and stable: "\<And>s t. same_core s t \<Longrightarrow> P s \<Longrightarrow> P t"
    and unmap: "\<And>s l. P s \<Longrightarrow> sized s \<Longrightarrow> l < num_logical_pages (conf s) \<Longrightarrow> P (s\<lparr>forward_map := (forward_map s)[l := None]\<rparr>)"
  shows "\<exists>r s'. ssd_trim a s = Inr (r, s') \<and> P s' \<and>
    contents s' = (if r = Success then (contents s)(nat a := None) else contents s) \<and>
    (r = Success \<longleftrightarrow> page_at (contents s) a \<noteq> None)"
  using ssd_trim_spec [OF assms(1), of a]
proof (elim disjE exE conjE)
  fix r s' assume r: "ssd_trim a s = Inr (r, s')" "r \<noteq> Success" "same_core s s'" "page_at (contents s) a = None"
  show ?thesis using r stable [OF r(3) inv] same_coreD(3) [OF r(3)] by auto
next
  fix s' t assume r: "ssd_trim a s = Inr (Success, s')" "same_core s t"
    "s' = t\<lparr>forward_map := (forward_map t)[nat a := None]\<rparr>"
    "nat a < num_logical_pages (conf s)" "page_at (contents s) a \<noteq> None"
  have t: "sized t" "nat a < num_logical_pages (conf t)"
    using assms(1) r(2,4) same_coreD(5) [OF r(2)] by (auto simp: same_core_def)
  have "P s'" "contents s' = (contents s)(nat a := None)"
    using unmap [OF stable [OF r(2) inv] t] unmap_keeps(3) [OF t] same_coreD(3) [OF r(2)] r(3) by auto
  then show ?thesis using r(1,5) by auto
qed

lemma log_write_law:
  assumes "log_inv s"
  shows "\<exists>r s'. ssd_write a d s = Inr (r, s') \<and> log_inv s' \<and>
      contents s' = (if r = Success then (contents s)(nat a \<mapsto> d) else contents s) \<and> (r = Success \<longrightarrow> 0 \<le> a)"
proof (cases "a < 0 \<or> a \<ge> int (num_logical_pages (conf s))")
  case True
  let ?s' = "s\<lparr>sums := (sums s)\<lparr>logical_write_sum := logical_write_sum (sums s) + 1,
    logical_write_fail_sum := logical_write_fail_sum (sums s) + 1\<rparr>\<rparr>"
  have "ssd_write a d s = Inr (Illegal_Write_Address, ?s')" using True by (auto simp: ssd_write_def Let_def)
  moreover have c: "same_core s ?s'" by simp
  ultimately show ?thesis using assms same_coreD(1,3) [OF c] by auto
next
  case False
  then have l: "nat a < num_logical_pages (conf s)" "int (nat a) = a" by (simp_all add: nat_less_iff)
  obtain r s' t where w: "ssd_write a d s = Inr (r, s')" "same_core s t"
    "r = Device_Full \<and> same_core t s' \<or> r = Success \<and> logged (nat a) d t s'"
    using ssd_write_log [OF assms l(1), of d] l(2) by auto
  have t: "log_inv t" "contents t = contents s" "conf t = conf s"
    using assms same_coreD [OF w(2)] w(2) by (simp_all add: same_core_def)
  show ?thesis
    using w(3)
  proof (elim disjE conjE)
    assume "r = Device_Full" "same_core t s'"
    then show ?thesis using w(1) t same_coreD(1,3) [of t s'] by simp
  next
    assume r: "r = Success" "logged (nat a) d t s'"
    have "contents s' = (contents t)(nat a \<mapsto> d)"
      using logged_contents [OF _ _ _ r(2)] t l(1) by (simp add: log_inv_def)
    then show ?thesis using w(1) r t False by (simp add: logged_def)
  qed
qed

interpretation log_device: block_device log_inv contents ssd_write ssd_read ssd_trim
proof
  fix s a d assume inv: "log_inv s"
  then have sz: "sized s" "mapped s" by (simp_all add: log_inv_def)
  have st: "\<And>s t. same_core s t \<Longrightarrow> log_inv s \<Longrightarrow> log_inv t" using same_coreD(1) by blast
  show "\<exists>r s'. ssd_write a d s = Inr (r, s') \<and> log_inv s' \<and>
      contents s' = (if r = Success then (contents s)(nat a \<mapsto> d) else contents s) \<and> (r = Success \<longrightarrow> 0 \<le> a)"
    by (rule log_write_law [OF inv])
  show "\<exists>r s'. ssd_read a s = Inr (r, s') \<and> log_inv s' \<and> contents s' = contents s \<and>
      (\<forall>d. r = Data d \<longleftrightarrow> page_at (contents s) a = Some d)"
    by (rule device_reads [where P = log_inv, OF sz inv st])
  show "\<exists>r s'. ssd_trim a s = Inr (r, s') \<and> log_inv s' \<and>
      contents s' = (if r = Success then (contents s)(nat a := None) else contents s) \<and>
      (r = Success \<longleftrightarrow> page_at (contents s) a \<noteq> None)"
    by (rule device_trims [where P = log_inv, OF sz(1) inv st]) (auto intro: unmap_keeps(1))
qed

section \<open>The direct-mapped and the ideal device\<close>

lemma read_old_spec:
  "sized s \<Longrightarrow> \<forall>p \<in> set ps. p < num_pages s \<Longrightarrow>
   \<exists>s'. read_old ps s = Inr (map (\<lambda>p. (p, data (flash s) ! p)) (filter (\<lambda>p. state (flash s) ! p = STATE_VALID) ps), s') \<and>
     same_core s s'"
proof (induction ps arbitrary: s)
  case (Cons p ps)
  show ?case
  proof (cases "state (flash s) ! p = STATE_VALID")
    case False
    then show ?thesis using Cons.IH [OF Cons.prems(1)] Cons.prems(2) by auto
  next
    case True
    obtain t where t: "physical_read p s = Inr (data (flash s) ! p, t)" "same_core s t"
      using physical_read_spec [OF Cons.prems(1), of p] Cons.prems(2) by auto
    have "sized t" "\<forall>p \<in> set ps. p < num_pages t"
      using Cons.prems same_coreD(4,5) [OF t(2)] by simp_all
    from Cons.IH [OF this] obtain s' where
      s': "read_old ps t = Inr (map (\<lambda>p. (p, data (flash t) ! p)) (filter (\<lambda>p. state (flash t) ! p = STATE_VALID) ps), s')"
        "same_core t s'" by blast
    have "state (flash t) = state (flash s)" "data (flash t) = data (flash s)"
      using t(2) by (simp_all add: same_core_def)
    then show ?thesis using True Cons.prems(2) t(1) s' same_core_trans [OF t(2) s'(2)] by auto
  qed
qed simp

text \<open>Same maps and configuration, after changes of the flash only.\<close>

definition same_maps :: "ssd \<Rightarrow> ssd \<Rightarrow> bool" where
  "same_maps s t \<longleftrightarrow> conf t = conf s \<and> sized t \<and> forward_map t = forward_map s \<and> reverse_map t = reverse_map s"

lemma program_others:
  "sized s \<Longrightarrow> \<forall>q \<in> set qs. q < num_pages s \<Longrightarrow>
   \<exists>s'. rfold (\<lambda>(q, e) t. if q = p then Inr t else physical_program q e t) (map (\<lambda>q. (q, f q)) qs) s = Inr s' \<and>
     same_maps s s' \<and>
     (\<forall>q < num_pages s. q \<in> set qs \<and> q \<noteq> p \<longrightarrow> state (flash s') ! q = STATE_VALID \<and> data (flash s') ! q = f q) \<and>
     (\<forall>q < num_pages s. \<not> (q \<in> set qs \<and> q \<noteq> p) \<longrightarrow>
        state (flash s') ! q = state (flash s) ! q \<and> data (flash s') ! q = data (flash s) ! q)"
proof (induction qs arbitrary: s)
  case Nil
  then show ?case by (simp add: same_maps_def)
next
  case (Cons r qs)
  show ?case
  proof (cases "r = p")
    case True
    then show ?thesis using Cons.IH [OF Cons.prems(1)] Cons.prems(2) by auto
  next
    case False
    obtain t where t: "physical_program r (f r) s = Inr t" "conf t = conf s" "sized t"
      "forward_map t = forward_map s" "reverse_map t = reverse_map s"
      "state (flash t) = (state (flash s))[r := STATE_VALID]" "data (flash t) = (data (flash s))[r := f r]"
      using physical_program_spec [OF Cons.prems(1), of r "f r"] Cons.prems(2) by auto
    have np: "num_pages t = num_pages s" using t(2) by (simp add: num_pages_def)
    then have "\<forall>q \<in> set qs. q < num_pages t" using Cons.prems(2) by simp
    from Cons.IH [OF t(3) this] obtain s' where
      s': "rfold (\<lambda>(q, e) t. if q = p then Inr t else physical_program q e t) (map (\<lambda>q. (q, f q)) qs) t = Inr s'"
        "same_maps t s'"
        "\<forall>q < num_pages s. q \<in> set qs \<and> q \<noteq> p \<longrightarrow> state (flash s') ! q = STATE_VALID \<and> data (flash s') ! q = f q"
        "\<forall>q < num_pages s. \<not> (q \<in> set qs \<and> q \<noteq> p) \<longrightarrow>
           state (flash s') ! q = state (flash t) ! q \<and> data (flash s') ! q = data (flash t) ! q"
      unfolding np by blast
    have len: "length (state (flash s)) = num_pages s" "length (data (flash s)) = num_pages s"
      using Cons.prems(1) by (simp_all add: sized_def)
    show ?thesis
    proof (intro exI [of _ s'] conjI allI impI)
      show "rfold (\<lambda>(q, e) t. if q = p then Inr t else physical_program q e t) (map (\<lambda>q. (q, f q)) (r # qs)) s = Inr s'"
        using False t(1) s'(1) by simp
      show "same_maps s s'" using s'(2) t by (simp add: same_maps_def)
    next
      fix q assume q: "q < num_pages s" "q \<in> set (r # qs) \<and> q \<noteq> p"
      show "state (flash s') ! q = STATE_VALID" "data (flash s') ! q = f q"
        using q s'(3,4) t(6,7) len by (cases "q \<in> set qs"; simp)+
    next
      fix q assume q: "q < num_pages s" "\<not> (q \<in> set (r # qs) \<and> q \<noteq> p)"
      then have "q \<noteq> r" using False by auto
      then show "state (flash s') ! q = state (flash s) ! q" "data (flash s') ! q = data (flash s) ! q"
        using q s'(4) t(6,7) by auto
    qed
  qed
qed

text \<open>Programming page \<open>l\<close> and mapping it to itself, in a state that kept all other mapped pages.\<close>

lemma program_direct:
  assumes inv: "direct_inv k s" and l: "l < num_logical_pages (conf s)" and m: "same_maps s t"
    and keep: "\<forall>q < num_pages s. q \<noteq> l \<and> state (flash s) ! q = STATE_VALID \<longrightarrow>
      state (flash t) ! q = STATE_VALID \<and> data (flash t) ! q = data (flash s) ! q"
  shows "\<exists>t'. physical_program l d t = Inr t' \<and> direct_inv k (set_maps l l t') \<and>
    contents (set_maps l l t') = (contents s)(l \<mapsto> d)"
proof -
  have sz: "sized s" "sized t" and mp: "mapped s" and np: "num_pages t = num_pages s" and lp: "l < num_pages s"
    and own: "\<And>i p. i < num_logical_pages (conf s) \<Longrightarrow> forward_map s ! i = Some p \<Longrightarrow> p = i"
    using inv l m by (auto simp: direct_inv_def same_maps_def num_pages_def)
  obtain t' where t': "physical_program l d t = Inr t'" "conf t' = conf t" "sized t'"
      "forward_map t' = forward_map t" "reverse_map t' = reverse_map t"
      "state (flash t') = (state (flash t))[l := STATE_VALID]" "data (flash t') = (data (flash t))[l := d]"
    using physical_program_spec [OF sz(2), of l d] lp np by auto
  let ?u = "set_maps l l t'"
  have f: "conf ?u = conf s" "forward_map ?u = (forward_map s)[l := Some l]" "reverse_map ?u = (reverse_map s)[l := Some l]"
    "state (flash ?u) = (state (flash t))[l := STATE_VALID]" "data (flash ?u) = (data (flash t))[l := d]"
    using t' m by (simp_all add: set_maps_def same_maps_def)
  have npu: "num_pages ?u = num_pages s" using f(1) by (simp add: num_pages_def)
  have len: "length (state (flash t)) = num_pages s" "length (data (flash t)) = num_pages s"
    "length (forward_map s) = num_logical_pages (conf s)" "length (reverse_map s) = num_pages s"
    using sz np by (simp_all add: sized_def)
  have fw: "forward_map ?u ! i = (if i = l then Some l else forward_map s ! i)" if "i < num_logical_pages (conf s)" for i
    using that f(2) len(3) l by simp
  have live: "i < num_pages s" "state (flash s) ! i = STATE_VALID" "reverse_map s ! i = Some i" "p = i"
    if "i < num_logical_pages (conf s)" "forward_map s ! i = Some p" for i p
    using own [OF that] mp that by (auto simp: mapped_def)
  have mu: "mapped ?u"
    unfolding mapped_def f(1) npu
  proof (intro allI impI)
    fix i p assume i: "i < num_logical_pages (conf s)" "forward_map ?u ! i = Some p"
    show "p < num_pages s \<and> state (flash ?u) ! p = STATE_VALID \<and> reverse_map ?u ! p = Some i"
      using i(2) fw [OF i(1)] live [OF i(1), of p] lp len keep f(3,4) by (cases "i = l") auto
  qed
  have "sized ?u" using sz(1) f t'(3) len npu by (simp add: sized_def)
  moreover have "\<forall>i<num_logical_pages (conf s). \<forall>p. forward_map ?u ! i = Some p \<longrightarrow> p = i"
    using fw own by auto
  ultimately have "direct_inv k ?u" using inv f(1) npu mu by (simp add: direct_inv_def)
  moreover have "contents ?u i = ((contents s)(l \<mapsto> d)) i" for i
  proof (cases "i < num_logical_pages (conf s)")
    case i: True
    show ?thesis
      using fw [OF i] live [OF i] keep len lp i f(1,5) by (cases "i = l"; cases "forward_map s ! i") (auto simp: contents_def)
  qed (use l f(1) in \<open>auto simp: contents_def\<close>)
  ultimately show ?thesis using t'(1) by blast
qed

lemma write_direct_spec:
  assumes inv: "direct_inv k s" and l: "l < num_logical_pages (conf s)"
  shows "\<exists>s'. write_direct l d s = Inr (Success, s') \<and> direct_inv k s' \<and> contents s' = (contents s)(l \<mapsto> d)"
proof -
  let ?n = "pages_per_block (conf s)"
  let ?b = "l div ?n"
  let ?qs = "filter (\<lambda>p. state (flash s) ! p = STATE_VALID) (block_pages s ?b)"
  let ?loop = "rfold (\<lambda>(q, e) t. if q = l then Inr t else physical_program q e t)"
  have sz: "sized s" and n: "0 < ?n" and lp: "l < num_pages s"
    using inv l by (auto simp: direct_inv_def sized_def)
  have b: "?b < num_blocks (conf s)" by (rule page_block_less [OF lp])
  have inb: "q \<in> set (block_pages s ?b) \<longleftrightarrow> q div ?n = ?b" for q using in_block_pages [OF n] .
  have less: "\<forall>q \<in> set (block_pages s ?b). q < num_pages s" using inb block_page_less [OF b _ n] by blast
  obtain s1 where s1: "read_old (block_pages s ?b) s = Inr (map (\<lambda>p. (p, data (flash s) ! p)) ?qs, s1)" "same_core s s1"
    using read_old_spec [OF sz less] by blast
  have c1: "conf s1 = conf s" "sized s1" "num_pages s1 = num_pages s" "state (flash s1) = state (flash s)"
    "data (flash s1) = data (flash s)" "forward_map s1 = forward_map s" "reverse_map s1 = reverse_map s"
    using s1(2) sz same_coreD(4,5) [OF s1(2)] by (simp_all add: same_core_def)
  obtain s2 where s2: "physical_erase ?b s1 = Inr s2" "conf s2 = conf s" "sized s2"
      "forward_map s2 = forward_map s" "reverse_map s2 = reverse_map s"
      "\<forall>q < num_pages s. q div ?n \<noteq> ?b \<longrightarrow> state (flash s2) ! q = state (flash s) ! q \<and>
         data (flash s2) ! q = data (flash s) ! q"
    using physical_erase_spec [OF c1(2), of ?b] b c1 by auto
  have np2: "num_pages s2 = num_pages s" using s2(2) by (simp add: num_pages_def)
  have "\<forall>q \<in> set ?qs. q < num_pages s2" using less np2 by simp
  from program_others [OF s2(3) this, of l "\<lambda>q. data (flash s) ! q"] obtain s3 where
    s3: "?loop (map (\<lambda>q. (q, data (flash s) ! q)) ?qs) s2 = Inr s3" "same_maps s2 s3"
      "\<forall>q < num_pages s. q \<in> set ?qs \<and> q \<noteq> l \<longrightarrow> state (flash s3) ! q = STATE_VALID \<and> data (flash s3) ! q = data (flash s) ! q"
      "\<forall>q < num_pages s. \<not> (q \<in> set ?qs \<and> q \<noteq> l) \<longrightarrow>
         state (flash s3) ! q = state (flash s2) ! q \<and> data (flash s3) ! q = data (flash s2) ! q"
    unfolding np2 by blast
  have m: "same_maps s s3" using s3(2) s2 by (simp add: same_maps_def)
  have keep: "\<forall>q < num_pages s. q \<noteq> l \<and> state (flash s) ! q = STATE_VALID \<longrightarrow>
      state (flash s3) ! q = STATE_VALID \<and> data (flash s3) ! q = data (flash s) ! q"
  proof (intro allI impI)
    fix q assume q: "q < num_pages s" "q \<noteq> l \<and> state (flash s) ! q = STATE_VALID"
    show "state (flash s3) ! q = STATE_VALID \<and> data (flash s3) ! q = data (flash s) ! q"
    proof (cases "q div ?n = ?b")
      case True
      then have "q \<in> set ?qs" using q inb by simp
      then show ?thesis using q s3(3) by blast
    next
      case False
      then have "q \<notin> set ?qs" using inb by simp
      then show ?thesis using q s3(4) s2(6) False by simp
    qed
  qed
  obtain t' where t': "physical_program l d s3 = Inr t'" "direct_inv k (set_maps l l t')"
    "contents (set_maps l l t') = (contents s)(l \<mapsto> d)"
    using program_direct [OF inv l m keep, of d] by blast
  have "write_direct l d s = Inr (Success, set_maps l l t')"
    using n s1(1) s2(1) s3(1) t'(1) by (simp add: write_direct_def Let_def)
  then show ?thesis using t' by blast
qed

lemma write_ideal_spec:
  assumes inv: "direct_inv k s" and l: "l < num_logical_pages (conf s)"
  shows "\<exists>s'. write_ideal l d s = Inr (Success, s') \<and> direct_inv k s' \<and> contents s' = (contents s)(l \<mapsto> d)"
proof -
  have "same_maps s s" using inv by (simp add: same_maps_def direct_inv_def)
  from program_direct [OF inv l this, of d] show ?thesis by (auto simp: write_ideal_def)
qed

lemma direct_write_law:
  assumes inv: "direct_inv k s"
  shows "\<exists>r s'. ssd_write a d s = Inr (r, s') \<and> direct_inv k s' \<and>
      contents s' = (if r = Success then (contents s)(nat a \<mapsto> d) else contents s) \<and> (r = Success \<longrightarrow> 0 \<le> a)"
proof (cases "a < 0 \<or> a \<ge> int (num_logical_pages (conf s))")
  case True
  let ?s' = "s\<lparr>sums := (sums s)\<lparr>logical_write_sum := logical_write_sum (sums s) + 1,
    logical_write_fail_sum := logical_write_fail_sum (sums s) + 1\<rparr>\<rparr>"
  have "ssd_write a d s = Inr (Illegal_Write_Address, ?s')" using True by (auto simp: ssd_write_def Let_def)
  moreover have c: "same_core s ?s'" by simp
  ultimately show ?thesis using assms same_coreD(2,3) [OF c] by auto
next
  case False
  let ?t = "s\<lparr>sums := (sums s)\<lparr>logical_write_sum := logical_write_sum (sums s) + 1\<rparr>\<rparr>"
  have c: "same_core s ?t" by simp
  have l: "nat a < num_logical_pages (conf ?t)" and it: "direct_inv k ?t" and ct: "contents ?t = contents s"
    using False inv same_coreD(2,3) [OF c] by (auto simp: nat_less_iff)
  have "ssd_write a d s = (if k = TYPE_DIRECT then write_direct (nat a) d ?t else write_ideal (nat a) d ?t)"
    using False inv by (cases k) (auto simp: ssd_write_def Let_def direct_inv_def)
  then show ?thesis
    using write_direct_spec [OF it l, of d] write_ideal_spec [OF it l, of d] ct False by auto
qed

lemma direct_laws:
  assumes inv: "direct_inv k s"
  shows "\<exists>r s'. ssd_read a s = Inr (r, s') \<and> direct_inv k s' \<and> contents s' = contents s \<and>
      (\<forall>d. r = Data d \<longleftrightarrow> page_at (contents s) a = Some d)"
    and "\<exists>r s'. ssd_trim a s = Inr (r, s') \<and> direct_inv k s' \<and>
      contents s' = (if r = Success then (contents s)(nat a := None) else contents s) \<and>
      (r = Success \<longleftrightarrow> page_at (contents s) a \<noteq> None)"
proof -
  have sz: "sized s" "mapped s" using inv by (simp_all add: direct_inv_def)
  have st: "\<And>s t. same_core s t \<Longrightarrow> direct_inv k s \<Longrightarrow> direct_inv k t" using same_coreD(2) by blast
  show "\<exists>r s'. ssd_read a s = Inr (r, s') \<and> direct_inv k s' \<and> contents s' = contents s \<and>
      (\<forall>d. r = Data d \<longleftrightarrow> page_at (contents s) a = Some d)"
    by (rule device_reads [where P = "direct_inv k", OF sz inv st])
  show "\<exists>r s'. ssd_trim a s = Inr (r, s') \<and> direct_inv k s' \<and>
      contents s' = (if r = Success then (contents s)(nat a := None) else contents s) \<and>
      (r = Success \<longleftrightarrow> page_at (contents s) a \<noteq> None)"
    by (rule device_trims [where P = "direct_inv k", OF sz(1) inv st]) (auto intro: unmap_keeps(2))
qed

interpretation direct_device: block_device "direct_inv TYPE_DIRECT" contents ssd_write ssd_read ssd_trim
  by unfold_locales (use direct_write_law direct_laws in blast)+

interpretation ideal_device: block_device "direct_inv TYPE_IDEAL" contents ssd_write ssd_read ssd_trim
  by unfold_locales (use direct_write_law direct_laws in blast)+

text \<open>A device in service: of any kind, in a state it can be in.\<close>

definition ssd_inv :: "ssd \<Rightarrow> bool" where
  "ssd_inv s \<longleftrightarrow> (case ssd_type (conf s) of TYPE_LOGGING \<Rightarrow> log_inv s | k \<Rightarrow> direct_inv k s)"

lemma ssd_inv_cases: "ssd_inv s \<longleftrightarrow> log_inv s \<or> direct_inv TYPE_DIRECT s \<or> direct_inv TYPE_IDEAL s"
  unfolding ssd_inv_def log_inv_def direct_inv_def by (cases "ssd_type (conf s)") auto

interpretation any_device: block_device ssd_inv contents ssd_write ssd_read ssd_trim
proof
  fix s a d assume "ssd_inv s"
  then consider "log_inv s" | "direct_inv TYPE_DIRECT s" | "direct_inv TYPE_IDEAL s" by (auto simp: ssd_inv_cases)
  note inv = this
  show "\<exists>r s'. ssd_write a d s = Inr (r, s') \<and> ssd_inv s' \<and>
      contents s' = (if r = Success then (contents s)(nat a \<mapsto> d) else contents s) \<and> (r = Success \<longrightarrow> 0 \<le> a)"
    using inv
  proof cases
    case 1 from log_device.write_law [OF this, of a d] show ?thesis unfolding ssd_inv_cases by blast
  next
    case 2 from direct_device.write_law [OF this, of a d] show ?thesis unfolding ssd_inv_cases by blast
  next
    case 3 from ideal_device.write_law [OF this, of a d] show ?thesis unfolding ssd_inv_cases by blast
  qed
  show "\<exists>r s'. ssd_read a s = Inr (r, s') \<and> ssd_inv s' \<and> contents s' = contents s \<and>
      (\<forall>d. r = Data d \<longleftrightarrow> page_at (contents s) a = Some d)"
    using inv
  proof cases
    case 1 from log_device.read_law [OF this, of a] show ?thesis unfolding ssd_inv_cases by blast
  next
    case 2 from direct_device.read_law [OF this, of a] show ?thesis unfolding ssd_inv_cases by blast
  next
    case 3 from ideal_device.read_law [OF this, of a] show ?thesis unfolding ssd_inv_cases by blast
  qed
  show "\<exists>r s'. ssd_trim a s = Inr (r, s') \<and> ssd_inv s' \<and>
      contents s' = (if r = Success then (contents s)(nat a := None) else contents s) \<and>
      (r = Success \<longleftrightarrow> page_at (contents s) a \<noteq> None)"
    using inv
  proof cases
    case 1 from log_device.trim_law [OF this, of a] show ?thesis unfolding ssd_inv_cases by blast
  next
    case 2 from direct_device.trim_law [OF this, of a] show ?thesis unfolding ssd_inv_cases by blast
  next
    case 3 from ideal_device.trim_law [OF this, of a] show ?thesis unfolding ssd_inv_cases by blast
  qed
qed

section \<open>Blocks in use\<close>

lemma used_ok_update:
  "x \<in> set (xs[b := v]) \<Longrightarrow> \<forall>x \<in> set xs. x \<le> Suc 0 \<Longrightarrow> v \<le> Suc 0 \<Longrightarrow> x \<le> Suc 0"
  using set_update_subset_insert [of xs b v] by auto

lemma used_ok_blocks: "used_ok c s \<Longrightarrow> blocks_in_use s \<le> num_blocks c"
  unfolding used_ok_def blocks_in_use_def
  using sum_list_mono [of "gc_used_blocks s" id "\<lambda>_. 1"] by (simp add: sum_list_triv)

lemma used_ok_sums [simp]: "used_ok c (s\<lparr>sums := x\<rparr>) = used_ok c s"
  by (simp add: used_ok_def)

lemma used_ok_maps [simp]: "used_ok c (set_maps l p s) = used_ok c s" "used_ok c (s\<lparr>forward_map := f\<rparr>) = used_ok c s"
  by (simp_all add: used_ok_def set_maps_def)

lemma used_ok_flash:
  "physical_erase b s = Inr s' \<Longrightarrow> used_ok c s \<Longrightarrow> used_ok c s'"
  "physical_program p d s = Inr s' \<Longrightarrow> used_ok c s \<Longrightarrow> used_ok c s'"
  "physical_read p s = Inr (x, s') \<Longrightarrow> used_ok c s \<Longrightarrow> used_ok c s'"
  by (auto simp: physical_erase_def physical_program_def physical_read_def used_ok_def Let_def split: if_splits
      dest!: used_ok_update)

lemma used_ok_cursor:
  "is_block_free b s = Inr (ok, s') \<Longrightarrow> used_ok c s \<Longrightarrow> used_ok c s'"
  "find_block bs s = Inr (ok, s') \<Longrightarrow> used_ok c s \<Longrightarrow> used_ok c s'"
  "get_cursor s = Inr (ok, s') \<Longrightarrow> used_ok c s \<Longrightarrow> used_ok c s'"
  "update_cursor s = Inr s' \<Longrightarrow> used_ok c s \<Longrightarrow> used_ok c s'"
proof -
  have take: "used_ok c (t\<lparr>current_block := x, current_page := y, gc_used_blocks := (gc_used_blocks t)[b := Suc 0]\<rparr>)"
    if "used_ok c t" for t x y b
    using that by (auto simp: used_ok_def dest!: used_ok_update)
  show free: "is_block_free b s = Inr (ok, s') \<Longrightarrow> used_ok c s \<Longrightarrow> used_ok c s'" for b s ok s'
    by (auto simp: is_block_free_def Let_def rbind_eq_Inr split: if_splits intro!: take dest: used_ok_flash(1))
  show find: "find_block bs s = Inr (ok, s') \<Longrightarrow> used_ok c s \<Longrightarrow> used_ok c s'" for s ok bs
    by (induction bs arbitrary: s) (auto simp: rbind_eq_Inr split: if_splits dest: free)
  show "get_cursor s = Inr (ok, s') \<Longrightarrow> used_ok c s \<Longrightarrow> used_ok c s'"
    by (auto simp: get_cursor_def split: if_splits dest: find)
  show "update_cursor s = Inr s' \<Longrightarrow> used_ok c s \<Longrightarrow> used_ok c s'"
    by (auto simp: update_cursor_def used_ok_def split: option.splits if_splits)
qed

lemma used_ok_read_old: "read_old ps s = Inr (xs, s') \<Longrightarrow> used_ok c s \<Longrightarrow> used_ok c s'"
  by (induction ps arbitrary: s xs) (auto simp: rbind_eq_Inr split: if_splits dest: used_ok_flash(3))

lemma used_ok_writes:
  "write_direct l d s = Inr (r, s') \<Longrightarrow> used_ok c s \<Longrightarrow> used_ok c s'"
  "write_ideal l d s = Inr (r, s') \<Longrightarrow> used_ok c s \<Longrightarrow> used_ok c s'"
  "write_logging l d s = Inr (r, s') \<Longrightarrow> used_ok c s \<Longrightarrow> used_ok c s'"
proof -
  have loop: "rfold (\<lambda>(q, e) t. if q = l then Inr t else physical_program q e t) xs s = Inr s' \<Longrightarrow>
      used_ok c s \<Longrightarrow> used_ok c s'" for xs s s'
    by (induction xs arbitrary: s) (auto simp: rbind_eq_Inr split: if_splits prod.splits dest: used_ok_flash(2))
  show "write_direct l d s = Inr (r, s') \<Longrightarrow> used_ok c s \<Longrightarrow> used_ok c s'"
    by (auto simp: write_direct_def Let_def rbind_eq_Inr split: if_splits
        dest!: used_ok_read_old used_ok_flash(1,2) loop)
  show "write_ideal l d s = Inr (r, s') \<Longrightarrow> used_ok c s \<Longrightarrow> used_ok c s'"
    by (auto simp: write_ideal_def rbind_eq_Inr dest: used_ok_flash)
  show "write_logging l d s = Inr (r, s') \<Longrightarrow> used_ok c s \<Longrightarrow> used_ok c s'"
    by (auto simp: write_logging_def rbind_eq_Inr split: if_splits option.splits
        dest!: used_ok_cursor(3,4) used_ok_flash(2))
qed

lemma used_ok_exec: "exec_cmd x s = Inr (r, s') \<Longrightarrow> used_ok c s \<Longrightarrow> used_ok c s'"
  by (auto simp: exec_cmd_def ssd_write_def ssd_read_def ssd_trim_def Let_def rbind_eq_Inr
      split: cmd.splits if_splits option.splits ssd_kind.splits
      dest!: used_ok_writes used_ok_flash(3))

lemma upkeep_idle:
  assumes "used_ok c s" "int (num_blocks c) < gc_high_water_mark c"
  shows "upkeep s = Inr s"
  using assms used_ok_blocks [OF assms(1)] by (simp add: upkeep_def used_ok_def)


section \<open>Commands as text\<close>

definition show_cmd :: "cmd \<Rightarrow> string" where
  "show_cmd c = (case c of
      Read a \<Rightarrow> CHR ''r'' # show_int a
    | Write a d \<Rightarrow> CHR ''w'' # show_int a @ CHR '':'' # d
    | Trim a \<Rightarrow> CHR ''t'' # show_int a)"

lemma show_int_chars: "c \<in> set (show_int i) \<Longrightarrow> c = CHR ''-'' \<or> is_digit c"
proof -
  have "c \<in> set (show_nat n) \<Longrightarrow> is_digit c" for n
    using show_nat_digits [OF refl, of n] unfolding isdigit_def list_all_iff by blast
  then show "c \<in> set (show_int i) \<Longrightarrow> c = CHR ''-'' \<or> is_digit c"
    unfolding show_int_def by (cases "i < 0") auto
qed

lemma show_int_tags [simp]:
  "CHR ''r'' \<notin> set (show_int i)" "CHR ''w'' \<notin> set (show_int i)" "CHR ''t'' \<notin> set (show_int i)"
  "CHR '':'' \<notin> set (show_int i)"
  using show_int_chars [of _ i] by (force simp: is_digit_def)+

lemma split_tagged:
  "c \<notin> set s \<Longrightarrow> py_split c (c # s) = [[], s]"
  by (simp add: py_split_plain)

lemma parse_show_cmd:
  assumes "\<And>a d. c = Write a d \<Longrightarrow> CHR '':'' \<notin> set d"
  shows "parse_cmd (show_cmd c) = Inr (Some c)"
proof (cases c)
  case (Read a)
  show ?thesis by (simp add: Read show_cmd_def parse_cmd_def py_split_plain py_get_def py_int_show_int)
next
  case (Write a d)
  have "py_split CHR '':'' ((CHR ''w'' # show_int a) @ CHR '':'' # d) = (CHR ''w'' # show_int a) # [d]"
    using py_split_append [of "CHR '':''" "CHR ''w'' # show_int a" d] assms [OF Write]
    by (simp add: py_split_plain)
  then show ?thesis
    by (simp add: Write show_cmd_def parse_cmd_def py_split_plain py_get_def py_int_show_int)
next
  case (Trim a)
  show ?thesis by (simp add: Trim show_cmd_def parse_cmd_def py_split_plain py_get_def py_int_show_int)
qed

section \<open>The abstract device\<close>

text \<open>
  The reference: a partial map from the logical pages to data, and the number of writes done. Every answer is determined: by the map, by the
  number of logical pages, and, on a device that never reclaims pages (\<open>cap\<close> is the number of its pages), by the number of writes.
\<close>

fun spec_step :: "nat \<Rightarrow> nat option \<Rightarrow> cmd \<Rightarrow> (nat \<Rightarrow> string option) \<times> nat \<Rightarrow> rc \<times> (nat \<Rightarrow> string option) \<times> nat" where
  "spec_step lp cap (Read a) (m, u) =
     (if a < 0 \<or> int lp \<le> a then Illegal_Read_Address else case m (nat a) of None \<Rightarrow> Uninitialized_Read | Some d \<Rightarrow> Data d, m, u)"
| "spec_step lp cap (Trim a) (m, u) =
     (if a < 0 \<or> int lp \<le> a then (Illegal_Trim_Address, m, u)
      else case m (nat a) of None \<Rightarrow> (Uninitialized_Trim, m, u) | Some d \<Rightarrow> (Success, m(nat a := None), u))"
| "spec_step lp cap (Write a d) (m, u) =
     (if a < 0 \<or> int lp \<le> a then (Illegal_Write_Address, m, u)
      else if (case cap of None \<Rightarrow> False | Some c \<Rightarrow> c \<le> u) then (Device_Full, m, u)
      else (Success, m(nat a \<mapsto> d), u + 1))"

fun spec_run :: "nat \<Rightarrow> nat option \<Rightarrow> cmd list \<Rightarrow> (nat \<Rightarrow> string option) \<times> nat \<Rightarrow> rc list \<times> (nat \<Rightarrow> string option) \<times> nat" where
  "spec_run lp cap [] st = ([], st)"
| "spec_run lp cap (c # cs) st = (let (r, st1) = spec_step lp cap c st; (rs, st2) = spec_run lp cap cs st1 in (r # rs, st2))"

lemma same_use_sums [simp]: "same_use s (s\<lparr>sums := x\<rparr>)"
  by (simp add: same_use_def)

lemma same_use_pages: "same_use s t \<Longrightarrow> valid_pages t = valid_pages s \<and> (free_block t f \<longleftrightarrow> free_block s f) \<and> (room k t \<longleftrightarrow> room k s)"
  by (simp add: same_use_def valid_pages_def num_pages_def free_block_def room_def)

lemma contents_legal: "contents s l = Some d \<Longrightarrow> l < num_logical_pages (conf s)"
  by (simp add: contents_def split: if_splits)

lemma read_answer:
  assumes "sized s" and "mapped s"
  shows "\<exists>s'. ssd_read a s = Inr (fst (spec_step (num_logical_pages (conf s)) cap (Read a) (contents s, u)), s') \<and> same_core s s' \<and> same_use s s'"
proof -
  obtain r s' where r: "ssd_read a s = Inr (r, s')" "same_core s s'" "\<forall>d. r = Data d \<longleftrightarrow> page_at (contents s) a = Some d"
    using ssd_read_spec [OF assms] by blast
  have "same_use s s'"
    using r(1) by (auto simp: ssd_read_def Let_def rbind_eq_Inr same_use_def physical_read_def split: if_splits option.splits)
  moreover have "r = fst (spec_step (num_logical_pages (conf s)) cap (Read a) (contents s, u))"
    using r(1,3) by (auto simp: ssd_read_def Let_def rbind_eq_Inr page_at_def contents_def nat_less_iff split: if_splits option.splits)
  ultimately show ?thesis using r by blast
qed

lemma trim_answer:
  assumes "ssd_trim a s = Inr (r, s')"
  shows "(r, contents s', u) = spec_step (num_logical_pages (conf s)) cap (Trim a) (contents s, u) \<or> \<not> sized s" and "same_use s s'"
proof -
  show "same_use s s'" using assms by (auto simp: ssd_trim_def Let_def same_use_def split: if_splits option.splits)
  have "(r, contents s', u) = spec_step (num_logical_pages (conf s)) cap (Trim a) (contents s, u)" if "sized s"
    using assms that
    by (auto simp: ssd_trim_def Let_def contents_def sized_def fun_eq_iff nat_less_iff nth_list_update split: if_splits option.splits)
  then show "(r, contents s', u) = spec_step (num_logical_pages (conf s)) cap (Trim a) (contents s, u) \<or> \<not> sized s" by blast
qed

lemma trim_runs: "\<exists>r s'. ssd_trim a s = Inr (r, s')"
  by (auto simp: ssd_trim_def Let_def split: option.split)

lemma write_illegal:
  "a < 0 \<or> int (num_logical_pages (conf s)) \<le> a \<Longrightarrow> \<exists>s'. ssd_write a d s = Inr (Illegal_Write_Address, s') \<and> same_core s s' \<and> same_use s s'"
  by (auto simp: ssd_write_def Let_def same_core_def same_use_def)

section \<open>The log in service\<close>

text \<open>Whenever the collector must run it can: there is a free block, or the current block takes the live pages of one block.\<close>

lemma upkeep_collects:
  assumes inv: "log_inv s" and td: "tidy s" and rm: "room (pages_per_block (conf s) - 1) s"
    and few: "num_logical_pages (conf s) + pages_per_block (conf s) < num_pages s" and high: "gc_high_water_mark (conf s) \<le> int (num_blocks (conf s))"
  shows "\<exists>s'. upkeep s = Inr s' \<and> log_inv s' \<and> tidy s' \<and> (\<exists>f. free_block s' f) \<and> contents s' = contents s \<and> conf s' = conf s"
proof (cases "int (blocks_in_use s) \<ge> gc_high_water_mark (conf s)")
  case True
  let ?bs = "[gc_current_block s..<num_blocks (conf s)] @ [0..<gc_current_block s]"
  have g: "gc_current_block s \<le> num_blocks (conf s)" using td by (simp add: tidy_def)
  then have bs: "\<forall>b \<in> set ?bs. b < num_blocks (conf s)" by auto
  have "\<exists>s'. gc_blocks ?bs s = Inr s' \<and> collected s s'"
  proof (cases "\<exists>f. free_block s f")
    case True
    then show ?thesis using gc_blocks_collected [OF inv _ bs] by blast
  next
    case False
    then obtain b where "b < num_blocks (conf s)" "collectable s b" using some_collectable [OF inv few] by blast
    then have "\<exists>b \<in> set ?bs. collectable s b" by (intro bexI [of _ b]) auto
    then show ?thesis by (rule gc_blocks_room [OF inv rm bs])
  qed
  then show ?thesis using True td by (auto simp: upkeep_def garbage_collect_def collected_def)
next
  case False
  have "\<exists>f. free_block s f"
  proof (rule ccontr)
    assume no: "\<not> (\<exists>f. free_block s f)"
    have len: "length (gc_used_blocks s) = num_blocks (conf s)" using td by (simp add: tidy_def used_ok_def)
    have "gc_used_blocks s ! b \<noteq> 0" if "b < num_blocks (conf s)" for b using td that no by (auto simp: tidy_def)
    then have "\<forall>x \<in> set (gc_used_blocks s). 1 \<le> x" using len by (force simp: in_set_conv_nth)
    then have "length (gc_used_blocks s) \<le> sum_list (gc_used_blocks s)" by (induction "gc_used_blocks s" rule: list.induct) (use sum_list_mono [of "gc_used_blocks s" "\<lambda>_. 1" id] in \<open>simp_all add: sum_list_triv\<close>)
    then show False using False high len by (simp add: blocks_in_use_def)
  qed
  then show ?thesis using False inv td by (auto simp: upkeep_def)
qed

text \<open>A write to a legal address: with a free block it succeeds and leaves what the collector needs; without one it is the number of pages that counts.\<close>

lemma log_write_legal:
  assumes inv: "log_inv s" and td: "tidy s" and l: "l < num_logical_pages (conf s)"
  shows "\<exists>r s'. ssd_write (int l) d s = Inr (r, s') \<and> log_inv s' \<and> tidy s' \<and> conf s' = conf s \<and>
    (r = Success \<and> contents s' = (contents s)(l \<mapsto> d) \<and> card (valid_pages s') = card (valid_pages s) + 1 \<and> card (valid_pages s) < num_pages s \<or>
     r = Device_Full \<and> contents s' = contents s \<and> valid_pages s' = valid_pages s \<and> card (valid_pages s) = num_pages s \<and> (\<nexists>f. free_block s f)) \<and>
    ((\<exists>f. free_block s f) \<longrightarrow> room (pages_per_block (conf s) - 1) s')"
proof -
  obtain r s' t where w: "ssd_write (int l) d s = Inr (r, s')" "same_core s t"
     "r = Device_Full \<and> same_core t s' \<and> (\<forall>k. \<not> room (Suc k) t) \<or> r = Success \<and> logged l d t s'"
    using ssd_write_log [OF inv l, of d] by blast
  have n: "0 < pages_per_block (conf s)" using inv by (simp add: log_inv_def sized_def)
  have t: "log_inv t" "contents t = contents s" "conf t = conf s" "num_pages t = num_pages s" "sized t" "mapped t"
    using inv same_coreD [OF w(2)] w(2) by (simp_all add: same_core_def log_inv_def)
  have rm: "room k t = room k s" for k using same_core_room [OF w(2)] by simp
  note ty = tidy_ssd_write [OF inv td w(1)]
  show ?thesis
    using w(3)
  proof (elim disjE conjE)
    assume f: "r = Device_Full" "same_core t s'" "\<forall>k. \<not> room (Suc k) t"
    have nr: "\<not> room 1 s" using f(3) rm by simp
    have "valid_pages s' = valid_pages s"
      using w(2) f(2) by (simp add: same_core_def valid_pages_def num_pages_def)
    moreover have "card (valid_pages s) = num_pages s" by (rule full_pages [OF td n nr inv])
    moreover have "\<nexists>f. free_block s f" using room_free nr by blast
    moreover have "log_inv s'" "contents s' = contents s" "conf s' = conf s"
      using t same_coreD [OF f(2)] f(2) by (simp_all add: same_core_def)
    ultimately show ?thesis using w(1) ty f(1) by blast
  next
    assume f: "r = Success" "logged l d t s'"
    have "contents s' = (contents s)(l \<mapsto> d)" using logged_contents [OF t(6) _ t(5) f(2)] t l by simp
    moreover have "room (pages_per_block (conf s) - 1) s'" if "free_block s g" for g
    proof -
      have "room (Suc (pages_per_block (conf s) - 1)) t" using room_free [OF that] rm by blast
      then show ?thesis using f(2) t(3) n by (simp add: logged_def)
    qed
    moreover have "log_inv s'" "conf s' = conf s" using f(2) t(3) by (simp_all add: logged_def)
    ultimately show ?thesis using w(1) ty f(1) by auto
  qed
qed

section \<open>Runs of commands\<close>

text \<open>No block of a direct-mapped or ideal device is ever marked as in use.\<close>

definition none_used :: "ssd \<Rightarrow> bool" where
  "none_used s \<longleftrightarrow> (\<forall>x \<in> set (gc_used_blocks s). x = 0)"

lemma none_used_update: "x \<in> set (xs[b := 0]) \<Longrightarrow> \<forall>x \<in> set xs. x = 0 \<Longrightarrow> x = (0 :: nat)"
  using set_update_subset_insert [of xs b 0] by auto

lemma none_used_flash:
  "physical_erase b s = Inr s' \<Longrightarrow> none_used s \<Longrightarrow> none_used s'"
  "physical_program p d s = Inr s' \<Longrightarrow> none_used s \<Longrightarrow> none_used s'"
  "physical_read p s = Inr (x, s') \<Longrightarrow> none_used s \<Longrightarrow> none_used s'"
  by (auto simp: physical_erase_def physical_program_def physical_read_def none_used_def Let_def split: if_splits dest!: none_used_update)

lemma none_used_sums [simp]: "none_used (s\<lparr>sums := x\<rparr>) = none_used s" "none_used (set_maps l p s) = none_used s"
  by (simp_all add: none_used_def set_maps_def)

lemma none_used_write:
  assumes "ssd_write a d s = Inr (r, s')" and "none_used s" and "ssd_type (conf s) \<noteq> TYPE_LOGGING"
  shows "none_used s'"
proof -
  have old: "read_old ps s = Inr (xs, s') \<Longrightarrow> none_used s \<Longrightarrow> none_used s'" for ps s xs s'
    by (induction ps arbitrary: s xs) (auto simp: rbind_eq_Inr split: if_splits dest: none_used_flash(3))
  have loop: "rfold (\<lambda>(q, e) t. if q = l then Inr t else physical_program q e t) xs s = Inr s' \<Longrightarrow> none_used s \<Longrightarrow> none_used s'" for l xs s s'
    by (induction xs arbitrary: s) (auto simp: rbind_eq_Inr split: if_splits prod.splits dest: none_used_flash(2))
  have direct: "write_direct l d s = Inr (r, s') \<Longrightarrow> none_used s \<Longrightarrow> none_used s'" for l s s'
    by (auto simp: write_direct_def Let_def rbind_eq_Inr split: if_splits dest!: old none_used_flash(1,2) loop)
  have ideal: "write_ideal l d s = Inr (r, s') \<Longrightarrow> none_used s \<Longrightarrow> none_used s'" for l s s'
    by (auto simp: write_ideal_def rbind_eq_Inr dest: none_used_flash)
  show ?thesis
    using assms by (auto simp: ssd_write_def Let_def split: if_splits ssd_kind.splits dest!: direct ideal)
qed

text \<open>
  A device in service after \<open>u\<close> writes: a log that never collects, a log that collects and has a free block, or one of the others.
\<close>

definition serves :: "nat option \<Rightarrow> nat \<Rightarrow> ssd \<Rightarrow> bool" where
  "serves cap u s \<longleftrightarrow>
     (if ssd_type (conf s) = TYPE_LOGGING then
        log_inv s \<and> tidy s \<and>
        (case cap of
           Some c \<Rightarrow> c = num_pages s \<and> int (num_blocks (conf s)) < gc_high_water_mark (conf s) \<and> card (valid_pages s) = u
         | None \<Rightarrow> gc_high_water_mark (conf s) \<le> int (num_blocks (conf s)) \<and>
             num_logical_pages (conf s) + pages_per_block (conf s) < num_pages s \<and> (\<exists>f. free_block s f))
      else (\<exists>k. direct_inv k s) \<and> cap = None \<and> 0 < gc_high_water_mark (conf s) \<and> none_used s \<and> used_ok (conf s) s)"

lemma serves_same:
  assumes "serves cap u s" and "same_core s t" and "same_use s t"
  shows "serves cap u t"
proof -
  have c: "none_used t = none_used s" "conf t = conf s" "used_ok (conf s) t = used_ok (conf s) s"
    using assms(3) by (simp_all add: same_use_def none_used_def used_ok_def)
  have "free_block t = free_block s" using same_use_pages [OF assms(3)] by blast
  moreover have "direct_inv k t = direct_inv k s" for k by (rule same_coreD(2) [OF assms(2)])
  moreover have "valid_pages t = valid_pages s" using same_use_pages [OF assms(3)] by blast
  ultimately show ?thesis
    using assms(1) same_coreD(1,4) [OF assms(2)] same_use_tidy [OF assms(3)] c
    unfolding serves_def by (simp split: option.splits)
qed

lemma serves_idle:
  assumes "serves cap u s" and "cap \<noteq> None \<or> ssd_type (conf s) \<noteq> TYPE_LOGGING"
  shows "upkeep s = Inr s"
proof (cases "ssd_type (conf s) = TYPE_LOGGING")
  case True
  then obtain c where "cap = Some c" using assms(2) by auto
  then have "used_ok (conf s) s" "int (num_blocks (conf s)) < gc_high_water_mark (conf s)"
    using assms(1) True by (simp_all add: serves_def tidy_def)
  then show ?thesis by (rule upkeep_idle)
next
  case False
  then have "none_used s" "0 < gc_high_water_mark (conf s)" using assms(1) by (simp_all add: serves_def)
  then have "blocks_in_use s = 0" by (simp add: blocks_in_use_def none_used_def)
  then show ?thesis using \<open>0 < gc_high_water_mark (conf s)\<close> by (simp add: upkeep_def)
qed

lemma serves_upkeep:
  assumes "serves cap u s"
  shows "\<exists>s'. upkeep s = Inr s' \<and> serves cap u s' \<and> contents s' = contents s \<and> conf s' = conf s"
proof (cases "cap \<noteq> None \<or> ssd_type (conf s) \<noteq> TYPE_LOGGING")
  case True
  then show ?thesis using serves_idle [OF assms] assms by blast
next
  case False
  then have s: "log_inv s" "tidy s" "gc_high_water_mark (conf s) \<le> int (num_blocks (conf s))"
    "num_logical_pages (conf s) + pages_per_block (conf s) < num_pages s" "\<exists>f. free_block s f"
    using assms by (auto simp: serves_def)
  obtain s' where s': "upkeep s = Inr s'" "log_inv s'" "tidy s'" "\<exists>f. free_block s' f" "contents s' = contents s" "conf s' = conf s"
    using upkeep_collects [OF s(1,2) _ s(4,3)] room_free s(5) by blast
  then have "serves cap u s'" using False s(3,4) by (auto simp: serves_def num_pages_def)
  then show ?thesis using s' by blast
qed

lemma serves_trim:
  assumes sv: "serves cap u s" and t: "ssd_trim a s = Inr (r, t)" and us: "same_use s t"
  shows "serves cap u t"
proof -
  have c: "none_used t = none_used s" "conf t = conf s" "used_ok (conf s) t = used_ok (conf s) s" "num_pages t = num_pages s"
    using us by (simp_all add: same_use_def none_used_def used_ok_def num_pages_def)
  have "free_block t = free_block s" "valid_pages t = valid_pages s" using same_use_pages [OF us] by blast+
  moreover have "log_inv s \<Longrightarrow> log_inv t" using log_device.trim_law [of s a] t by auto
  moreover have "direct_inv k s \<Longrightarrow> direct_inv k t" for k using direct_laws(2) [of k s a] t by auto
  ultimately show ?thesis using sv same_use_tidy [OF us] c unfolding serves_def by (auto split: option.splits if_splits)
qed

lemma serves_write:
  assumes sv: "serves cap u s" and a: "0 \<le> a" "a < int (num_logical_pages (conf s))"
  shows "\<exists>r m u' t s'. spec_step (num_logical_pages (conf s)) cap (Write a d) (contents s, u) = (r, m, u') \<and>
    ssd_write a d s = Inr (r, t) \<and> upkeep t = Inr s' \<and> serves cap u' s' \<and> contents s' = m \<and> conf s' = conf s"
proof (cases "ssd_type (conf s) = TYPE_LOGGING")
  case True
  have l: "nat a < num_logical_pages (conf s)" "int (nat a) = a" using a by simp_all
  have lg: "log_inv s" "tidy s" using sv True by (simp_all add: serves_def)
  obtain r t where w: "ssd_write a d s = Inr (r, t)" "log_inv t" "tidy t" "conf t = conf s"
    "r = Success \<and> contents t = (contents s)(nat a \<mapsto> d) \<and> card (valid_pages t) = card (valid_pages s) + 1 \<and> card (valid_pages s) < num_pages s \<or>
     r = Device_Full \<and> contents t = contents s \<and> valid_pages t = valid_pages s \<and> card (valid_pages s) = num_pages s \<and> (\<nexists>f. free_block s f)"
    "(\<exists>f. free_block s f) \<longrightarrow> room (pages_per_block (conf s) - 1) t"
    using log_write_legal [OF lg l(1), of d] l(2) by auto
  have np: "num_pages t = num_pages s" using w(4) by (simp add: num_pages_def)
  show ?thesis
  proof (cases cap)
    case None
    then have s: "gc_high_water_mark (conf s) \<le> int (num_blocks (conf s))"
      "num_logical_pages (conf s) + pages_per_block (conf s) < num_pages s" "\<exists>f. free_block s f"
      using sv True by (simp_all add: serves_def)
    have f: "r = Success" "contents t = (contents s)(nat a \<mapsto> d)" using w(5) s(3) by auto
    have "room (pages_per_block (conf t) - 1) t" using w(4,6) s(3) by simp
    then obtain s' where s': "upkeep t = Inr s'" "log_inv s'" "tidy s'" "\<exists>f. free_block s' f" "contents s' = contents t" "conf s' = conf t"
      using upkeep_collects [OF w(2,3)] s w(4) np by auto
    then have "serves cap (u + 1) s'" using None True s(1,2) w(4) by (simp add: serves_def num_pages_def)
    then show ?thesis using None a f w(1,4) s' by simp
  next
    case (Some c)
    then have s: "c = num_pages s" "int (num_blocks (conf s)) < gc_high_water_mark (conf s)" "card (valid_pages s) = u"
      using sv True by (simp_all add: serves_def)
    let ?u = "if r = Success then u + 1 else u"
    have "serves cap ?u t" using True Some s w(2-5) np by (auto simp: serves_def)
    moreover from this have "upkeep t = Inr t" using Some by (intro serves_idle) auto
    moreover have "spec_step (num_logical_pages (conf s)) cap (Write a d) (contents s, u) = (r, contents t, ?u)"
      using Some a s(1,3) w(5) by auto
    ultimately show ?thesis using w(1,4) by blast
  qed
next
  case False
  then obtain k where k: "direct_inv k s" and c: "cap = None" "0 < gc_high_water_mark (conf s)" "none_used s" "used_ok (conf s) s" using sv by (auto simp: serves_def)
  let ?t = "s\<lparr>sums := (sums s)\<lparr>logical_write_sum := logical_write_sum (sums s) + 1\<rparr>\<rparr>"
  have sc: "same_core s ?t" by simp
  have l: "nat a < num_logical_pages (conf ?t)" and it: "direct_inv k ?t" and ct: "contents ?t = contents s"
    using a k same_coreD(2,3) [OF sc] by (auto simp: nat_less_iff)
  have "ssd_write a d s = (if k = TYPE_DIRECT then write_direct (nat a) d ?t else write_ideal (nat a) d ?t)"
    using a k by (cases k) (auto simp: ssd_write_def Let_def direct_inv_def)
  then have "\<exists>t. ssd_write a d s = Inr (Success, t) \<and> direct_inv k t \<and> contents t = (contents s)(nat a \<mapsto> d)"
    using write_direct_spec [OF it l, of d] write_ideal_spec [OF it l, of d] unfolding ct by (cases "k = TYPE_DIRECT") simp_all
  then obtain t where w: "ssd_write a d s = Inr (Success, t)" "direct_inv k t" "contents t = (contents s)(nat a \<mapsto> d)" by blast
  have ut: "used_ok (conf s) t" using used_ok_exec [of "Write a d" s] w(1) c(4) by (simp add: exec_cmd_def)
  then have cf: "conf t = conf s" by (simp add: used_ok_def)
  have "serves cap (u + 1) t" using False c w(2) none_used_write [OF w(1) c(3) False] cf ut by (auto simp: serves_def)
  moreover from this have "upkeep t = Inr t" using False cf by (intro serves_idle) auto
  ultimately show ?thesis using w cf a c(1) by simp
qed

text \<open>A command and the upkeep after it do what the abstract device does.\<close>

lemma serves_step:
  assumes sv: "serves cap u s"
  shows "\<exists>r m u' t s'. spec_step (num_logical_pages (conf s)) cap c (contents s, u) = (r, m, u') \<and>
    exec_cmd c s = Inr (r, t) \<and> upkeep t = Inr s' \<and> serves cap u' s' \<and> contents s' = m \<and> conf s' = conf s"
proof -
  have sz: "sized s" "mapped s" using sv by (auto simp: serves_def log_inv_def direct_inv_def split: if_splits)
  have stay: "\<exists>s'. upkeep t = Inr s' \<and> serves cap u s' \<and> contents s' = contents s \<and> conf s' = conf s"
    if "same_core s t" "same_use s t" for t
    using serves_upkeep [OF serves_same [OF sv that]] same_coreD(3) [OF that(1)] that(1) by (auto simp: same_core_def)
  show ?thesis
  proof (cases c)
    case (Read a)
    obtain t where t: "ssd_read a s = Inr (fst (spec_step (num_logical_pages (conf s)) cap (Read a) (contents s, u)), t)" "same_core s t" "same_use s t"
      using read_answer [OF sz] by blast
    then show ?thesis using stay [OF t(2,3)] Read by (auto simp: exec_cmd_def)
  next
    case (Write a d)
    show ?thesis
    proof (cases "a < 0 \<or> int (num_logical_pages (conf s)) \<le> a")
      case True
      obtain t where t: "ssd_write a d s = Inr (Illegal_Write_Address, t)" "same_core s t" "same_use s t" using write_illegal [OF True] by blast
      then show ?thesis using stay [OF t(2,3)] Write True by (auto simp: exec_cmd_def)
    next
      case False
      then show ?thesis using serves_write [OF sv, of a d] Write by (simp add: exec_cmd_def)
    qed
  next
    case (Trim a)
    obtain r t where t: "ssd_trim a s = Inr (r, t)" using trim_runs by blast
    have sp: "spec_step (num_logical_pages (conf s)) cap (Trim a) (contents s, u) = (r, contents t, u)" and us: "same_use s t"
      using trim_answer(1) [OF t, of u cap] trim_answer(2) [OF t] sz(1) by auto
    have "serves cap u t" by (rule serves_trim [OF sv t us])
    from serves_upkeep [OF this] show ?thesis using t sp us Trim by (auto simp: exec_cmd_def same_use_def)
  qed
qed

lemma serves_run:
  assumes "serves cap u s" and "\<forall>c \<in> set cs. \<forall>a d. c = Write a d \<longrightarrow> CHR '':'' \<notin> set d"
  shows "\<exists>rs m u' s'. spec_run (num_logical_pages (conf s)) cap cs (contents s, u) = (rs, m, u') \<and>
    run_cmds (map show_cmd cs) (out, s) = Inr (out @ rs, s') \<and> serves cap u' s' \<and> contents s' = m"
  using assms
proof (induction cs arbitrary: out s u)
  case (Cons c cs)
  obtain r m u1 t s1 where t: "spec_step (num_logical_pages (conf s)) cap c (contents s, u) = (r, m, u1)"
    "exec_cmd c s = Inr (r, t)" "upkeep t = Inr s1" "serves cap u1 s1" "contents s1 = m" "conf s1 = conf s"
    using serves_step [OF Cons.prems(1)] by blast
  obtain rs m' u' s' where s': "spec_run (num_logical_pages (conf s1)) cap cs (contents s1, u1) = (rs, m', u')"
    "run_cmds (map show_cmd cs) (out @ [r], s1) = Inr ((out @ [r]) @ rs, s')" "serves cap u' s'" "contents s' = m'"
    using Cons.IH [OF t(4), of "out @ [r]"] Cons.prems(2) by (meson list.set_intros(2))
  have "parse_cmd (show_cmd c) = Inr (Some c)" by (rule parse_show_cmd) (use Cons.prems(2) in auto)
  moreover have "show_cmd c \<noteq> []" by (simp add: show_cmd_def split: cmd.split)
  ultimately have "run_cmds (map show_cmd (c # cs)) (out, s) = Inr (out @ (r # rs), s')" using t(2,3) s'(2) by simp
  then show ?case using t(1,5,6) s' by simp
qed simp

lemma ssd_init_inv:
  assumes "ssd_init t lpages blocks ppb et pt rt high low = Inr s" "0 < ppb"
    "t \<noteq> ''log'' \<Longrightarrow> lpages \<le> blocks * ppb"
  shows "ssd_inv s \<and> used_ok (conf s) s \<and> contents s = (\<lambda>_. None) \<and> num_blocks (conf s) = blocks \<and>
    gc_high_water_mark (conf s) = high"
proof -
  have np: "q < blocks * ppb" if "q div ppb < blocks" for q
    using that assms(2) by (simp add: div_less_iff_less_mult)
  have nb: "b * ppb < blocks * ppb" if "b < blocks" for b using that assms(2) by simp
  obtain k where k: "ssd_kind_of t = Inr k" using assms(1) by (auto simp: ssd_init_def)
  then have d: "k \<noteq> TYPE_LOGGING \<Longrightarrow> lpages \<le> blocks * ppb"
    using assms(3) by (auto simp: ssd_kind_of_def split: if_splits)
  have s: "conf s = \<lparr>ssd_type = k, num_logical_pages = lpages, num_blocks = blocks, pages_per_block = ppb,
            gc_high_water_mark = high, gc_low_water_mark = low, block_erase_time = et,
            page_program_time = pt, page_read_time = rt\<rparr>"
    "state (flash s) = replicate (blocks * ppb) STATE_INVALID" "data (flash s) = replicate (blocks * ppb) '' ''"
    "current_page s = None" "current_block s = 0" "gc_used_blocks s = replicate blocks 0"
    "forward_map s = replicate lpages None" "reverse_map s = replicate (blocks * ppb) None"
    using assms(1) k by (auto simp: ssd_init_def)
  have sz: "sized s" "mapped s" "owned s" using assms(2) s by (simp_all add: inv_defs)
  have sh: "log_shape s" using s np nb by (simp add: log_shape_def)
  have "ssd_inv s"
  proof (cases k)
    case TYPE_LOGGING
    then show ?thesis using sz sh s(1) by (simp add: ssd_inv_def log_inv_def)
  next
    case TYPE_DIRECT
    then show ?thesis using sz s d by (simp add: ssd_inv_def direct_inv_def num_pages_def)
  next
    case TYPE_IDEAL
    then show ?thesis using sz s d by (simp add: ssd_inv_def direct_inv_def num_pages_def)
  qed
  then show ?thesis using s by (simp add: used_ok_def contents_def fun_eq_iff)
qed

lemma ssd_init_serves:
  assumes init: "ssd_init t lpages blocks ppb et pt rt high low = Inr s" and n: "0 < ppb"
    and direct: "t \<noteq> ''log'' \<Longrightarrow> lpages \<le> blocks * ppb \<and> 0 < high"
    and spare: "t = ''log'' \<Longrightarrow> high \<le> int blocks \<Longrightarrow> lpages + ppb < blocks * ppb"
  shows "serves (if t = ''log'' \<and> int blocks < high then Some (blocks * ppb) else None) 0 s"
proof -
  have iv: "ssd_inv s" "used_ok (conf s) s" using ssd_init_inv [OF init n] direct by blast+
  have nb: "b * ppb < blocks * ppb" if "b < blocks" for b using that n by simp
  obtain k where k: "ssd_kind_of t = Inr k" using init by (auto simp: ssd_init_def)
  have s: "conf s = \<lparr>ssd_type = k, num_logical_pages = lpages, num_blocks = blocks, pages_per_block = ppb,
            gc_high_water_mark = high, gc_low_water_mark = low, block_erase_time = et,
            page_program_time = pt, page_read_time = rt\<rparr>"
    "state (flash s) = replicate (blocks * ppb) STATE_INVALID" "gc_used_blocks s = replicate blocks 0" "current_page s = None" "gc_current_block s = 0"
    using init k by (auto simp: ssd_init_def)
  have np: "num_pages s = blocks * ppb" using s(1) by (simp add: num_pages_def)
  have fr: "free_block s b" if "b < blocks" for b using s nb [OF that] that by (simp add: free_block_def)
  have nv: "state (flash s) ! q \<noteq> STATE_VALID" if "q < blocks * ppb" for q using s(2) that by simp
  have "state (flash s) ! (q div ppb * ppb) \<noteq> STATE_VALID" if "q < blocks * ppb" for q
    using nv [of "q div ppb * ppb"] that div_times_less_eq_dividend [of q ppb] by (meson le_less_trans)
  then have td: "tidy s" using iv(2) fr s(1,5) np unfolding tidy_def by simp
  have vp: "valid_pages s = {}" using nv np by (auto simp: valid_pages_def)
  show ?thesis
  proof (cases "t = ''log''")
    case True
    then have kl: "k = TYPE_LOGGING" using k by (simp add: ssd_kind_of_def)
    then have "log_inv s" using iv(1) s(1) by (simp add: ssd_inv_def)
    moreover have "\<exists>f. free_block s f" if "\<not> int blocks < high" using spare [OF True] that fr [of 0] by (cases "blocks = 0") auto
    ultimately show ?thesis using True kl td s(1) np vp spare [OF True] by (auto simp: serves_def)
  next
    case False
    then have "k \<noteq> TYPE_LOGGING" using k by (auto simp: ssd_kind_of_def split: if_splits)
    then have "direct_inv k s" using iv(1) s(1) by (cases k) (simp_all add: ssd_inv_def)
    then show ?thesis using False \<open>k \<noteq> TYPE_LOGGING\<close> direct s(1,3) iv(2) by (auto simp: serves_def none_used_def)
  qed
qed

section \<open>The command generator\<close>

definition legal_addr :: "gen_conf \<Rightarrow> int \<Rightarrow> bool" where
  "legal_addr g a \<longleftrightarrow> 0 \<le> a \<and> a < max_page_addr g"

definition legal_cmd :: "gen_conf \<Rightarrow> cmd \<Rightarrow> bool" where
  "legal_cmd g c = (case c of Read a \<Rightarrow> legal_addr g a | Trim a \<Rightarrow> legal_addr g a
     | Write a d \<Rightarrow> legal_addr g a \<and> (\<exists>x \<in> set printable. d = [x]))"

definition gen_conf_ok :: "gen_conf \<Rightarrow> bool" where
  "gen_conf_ok g \<longleftrightarrow> 0 < max_page_addr g \<and> (case hot g of None \<Rightarrow> True | Some (_, h) \<Rightarrow> legal_addr g h)"

lemma random_randint_range: "valid_draw k \<Longrightarrow> lo \<le> hi \<Longrightarrow> lo \<le> random_randint k lo hi \<and> random_randint k lo hi \<le> hi"
  using pick_int_range [of k "hi - lo + 1"] by (simp add: random_randint_def)

lemma random_choice_ok:
  assumes "valid_draw k" "xs \<noteq> []"
  shows "\<exists>x. py_get xs (random_randint k 0 (int (length xs) - 1)) = Inr x \<and> x \<in> set xs"
proof -
  let ?i = "random_randint k 0 (int (length xs) - 1)"
  have "0 \<le> ?i \<and> ?i \<le> int (length xs) - 1"
    by (rule random_randint_range [OF assms(1)]) (use assms(2) in \<open>cases xs; simp\<close>)
  then have "nat ?i < length xs" by (simp add: nat_less_iff)
  with \<open>0 \<le> ?i \<and> ?i \<le> int (length xs) - 1\<close> show ?thesis by (simp add: py_get_def)
qed

definition gen_step_ok :: "gen_conf \<Rightarrow> draw list \<Rightarrow> (gen_step \<times> draw list) res \<Rightarrow> bool" where
  "gen_step_ok g ds r = (case r of
      Inl e \<Rightarrow> e = Out_Of_Draws
    | Inr (Retry, ds') \<Rightarrow> set ds' \<subseteq> set ds
    | Inr (Emit c valid' k, ds') \<Rightarrow> set ds' \<subseteq> set ds \<and> (\<forall>a \<in> set valid'. legal_addr g a) \<and>
        (\<exists>x. c = show_cmd x \<and> legal_cmd g x))"

lemma gen_step_ok_draw:
  assumes "\<forall>k \<in> set ds. valid_draw k"
    and "\<And>k ds'. valid_draw k \<Longrightarrow> \<forall>k \<in> set ds'. valid_draw k \<Longrightarrow> set ds' \<subseteq> set ds \<Longrightarrow> gen_step_ok g ds' (f k ds')"
  shows "gen_step_ok g ds (rbind (next_draw ds) (\<lambda>(k, ds'). f k ds'))"
proof (cases ds)
  case (Cons k ds')
  then have "gen_step_ok g ds' (f k ds')" using assms by auto
  then show ?thesis using Cons by (auto simp: gen_step_ok_def split: sum.splits prod.splits gen_step.splits)
qed (simp add: gen_step_ok_def)

lemma gen_read_ok:
  assumes "valid_draw k" "legal_addr g a" "\<forall>a \<in> set valid. legal_addr g a"
  shows "gen_step_ok g ds (Inr (Emit (CHR ''r'' # show_int a) valid n, ds))"
  using assms by (auto simp: gen_step_ok_def legal_cmd_def show_cmd_def intro!: exI [of _ "Read a"])

lemma gen_cmd_ok:
  assumes g: "gen_conf_ok g" and ds: "\<forall>k \<in> set ds. valid_draw k" and v: "\<forall>a \<in> set valid. legal_addr g a"
  shows "gen_step_ok g ds (gen_cmd g valid skew ds)"
  unfolding gen_cmd_def Let_def
proof (rule gen_step_ok_draw [OF ds], goal_cases)
  case (1 k ds1)
  let ?read = "rbind (next_draw ds1) (\<lambda>(k2, ds2).
       if random_randint k2 0 99 < read_fail g then
         rbind (next_draw ds2) (\<lambda>(k3, ds3).
         Inr (Emit (CHR ''r'' # show_int (random_randint k3 0 (max_page_addr g - 1))) valid skew, ds3))
       else if length valid < 2 then Inr (Retry, ds2)
       else
         rbind (next_draw ds2) (\<lambda>(k3, ds3).
         rbind (py_get valid (random_randint k3 0 (int (length valid) - 1))) (\<lambda>a.
         Inr (Emit (CHR ''r'' # show_int a) valid skew, ds3))))"
  have r: "gen_step_ok g ds1 ?read"
  proof (rule gen_step_ok_draw [OF 1(2)], goal_cases)
    case (1 k2 ds2)
    have a: "gen_step_ok g ds2 (rbind (next_draw ds2) (\<lambda>(k3, ds3).
         Inr (Emit (CHR ''r'' # show_int (random_randint k3 0 (max_page_addr g - 1))) valid skew, ds3)))"
    proof (rule gen_step_ok_draw [OF 1(2)], goal_cases)
      case (1 k3 ds3)
      have "legal_addr g (random_randint k3 0 (max_page_addr g - 1))"
        using random_randint_range [OF 1(1), of 0 "max_page_addr g - 1"] g by (auto simp: legal_addr_def gen_conf_ok_def)
      then show ?case by (rule gen_read_ok [OF 1(1) _ v])
    qed
    have b: "gen_step_ok g ds2 (rbind (next_draw ds2) (\<lambda>(k3, ds3).
         rbind (py_get valid (random_randint k3 0 (int (length valid) - 1))) (\<lambda>a.
         Inr (Emit (CHR ''r'' # show_int a) valid skew, ds3))))" if ne: "valid \<noteq> []"
    proof (rule gen_step_ok_draw [OF 1(2)], goal_cases)
      case (1 k3 ds3)
      obtain a where "py_get valid (random_randint k3 0 (int (length valid) - 1)) = Inr a" "a \<in> set valid"
        using random_choice_ok [OF 1(1) ne] by blast
      then show ?case using gen_read_ok [OF 1(1) _ v, of a] v by simp
    qed
    have c: "gen_step_ok g ds2 (Inr (Retry, ds2))" by (simp add: gen_step_ok_def)
    have "valid \<noteq> []" if "\<not> length valid < 2" using that by auto
    with a b c show ?case by (simp only: split: if_split) blast
  qed
  let ?wr = "\<lambda>target ds2. rbind (next_draw ds2) (\<lambda>(k3, ds3).
       rbind (next_draw ds3) (\<lambda>(k4, ds4).
       rbind (py_get printable (random_randint k4 0 (int (length printable) - 1))) (\<lambda>c.
       Inr (Emit (CHR ''w'' # show_int (random_randint k3 0 (case target of Some hmax \<Rightarrow> hmax | None \<Rightarrow> max_page_addr g - 1)) @ [CHR '':'', c])
         (if random_randint k3 0 (case target of Some hmax \<Rightarrow> hmax | None \<Rightarrow> max_page_addr g - 1) \<in> set valid then valid
          else valid @ [random_randint k3 0 (case target of Some hmax \<Rightarrow> hmax | None \<Rightarrow> max_page_addr g - 1)])
         (skew - 1), ds4))))"
  have w: "gen_step_ok g ds2 (?wr target ds2)"
    if t: "\<forall>h. target = Some h \<longrightarrow> legal_addr g h" and d: "\<forall>k \<in> set ds2. valid_draw k" for target ds2
  proof (rule gen_step_ok_draw [OF d], goal_cases)
    case (1 k3 ds3)
    let ?a = "random_randint k3 0 (case target of Some hmax \<Rightarrow> hmax | None \<Rightarrow> max_page_addr g - 1)"
    have a: "legal_addr g ?a"
      using random_randint_range [OF 1(1), of 0 "case target of Some hmax \<Rightarrow> hmax | None \<Rightarrow> max_page_addr g - 1"] g t
      by (cases target) (auto simp: legal_addr_def gen_conf_ok_def)
    show ?case
    proof (rule gen_step_ok_draw [OF 1(2)], goal_cases)
      case (1 k4 ds4)
      have "printable \<noteq> []" by (simp add: printable_def)
      from random_choice_ok [OF 1(1) this] obtain c where
        c: "py_get printable (random_randint k4 0 (int (length printable) - 1)) = Inr c" "c \<in> set printable" by blast
      then have "legal_cmd g (Write ?a [c])" "show_cmd (Write ?a [c]) = CHR ''w'' # show_int ?a @ [CHR '':'', c]"
        using a by (simp_all add: legal_cmd_def show_cmd_def)
      then have "\<exists>x. CHR ''w'' # show_int ?a @ [CHR '':'', c] = show_cmd x \<and> legal_cmd g x" by metis
      then show ?case using c(1) a v by (simp add: gen_step_ok_def)
    qed
  qed
  have trim: "gen_step_ok g ds1 (rbind (next_draw ds1) (\<lambda>(k2, ds2).
       rbind (py_get valid (random_randint k2 0 (int (length valid) - 1))) (\<lambda>a.
       rbind (py_remove valid a) (\<lambda>valid. Inr (Emit (CHR ''t'' # show_int a) valid skew, ds2)))))" if ne: "valid \<noteq> []"
  proof (rule gen_step_ok_draw [OF 1(2)], goal_cases)
    case (1 k2 ds2)
    obtain a where a: "py_get valid (random_randint k2 0 (int (length valid) - 1)) = Inr a" "a \<in> set valid"
      using random_choice_ok [OF 1(1) ne] by blast
    have "\<forall>x \<in> set (remove1 a valid). legal_addr g x" using v set_remove1_subset [of a valid] by blast
    then show ?case using a v
      by (auto simp: gen_step_ok_def py_remove_def legal_cmd_def show_cmd_def intro!: exI [of _ "Trim a"])
  qed
  have hot: "\<forall>h. (case hot g of None \<Rightarrow> None | Some (x, y) \<Rightarrow> Some y) = Some h \<longrightarrow> legal_addr g h"
    using g by (auto simp: gen_conf_ok_def split: option.splits)
  have sub: "gen_step_ok g (k # ds) r" if "gen_step_ok g ds r" for k ds r
    using that by (auto simp: gen_step_ok_def split: sum.splits prod.splits gen_step.splits)
  have wr: "gen_step_ok g ds1 (rbind (case hot g of
           None \<Rightarrow> Inr (None, ds1)
         | Some (hp, hmax) \<Rightarrow>
             if skew = 0 then rbind (next_draw ds1) (\<lambda>(k2, ds2). Inr (if below k2 hp 100 then Some hmax else None, ds2))
             else Inr (None, ds1)) (\<lambda>(target, ds2). ?wr target ds2))"
  proof (cases "hot g = None \<or> skew \<noteq> 0")
    case True
    then show ?thesis using w [of None ds1] 1(2) by (auto split: option.splits)
  next
    case False
    then obtain hp hm where h: "hot g = Some (hp, hm)" "skew = 0" by auto
    have lh: "legal_addr g hm" using g h by (simp add: gen_conf_ok_def)
    show ?thesis
    proof (cases ds1)
      case Nil
      then show ?thesis using h by (simp add: gen_step_ok_def)
    next
      case (Cons k2 ds2)
      have d2: "\<forall>k \<in> set ds2. valid_draw k" using 1(2) Cons by simp
      show ?thesis using sub [OF w [OF _ d2, of "if below k2 hp 100 then Some hm else None"], of k2] lh h Cons by simp
    qed
  qed
  have retry: "gen_step_ok g ds1 (Inr (Retry, ds1))" by (simp add: gen_step_ok_def)
  show ?case using r wr trim retry by (simp only: split: if_split) blast
qed

lemma gen_cmds_ok:
  "gen_conf_ok g \<Longrightarrow> \<forall>k \<in> set ds. valid_draw k \<Longrightarrow> \<forall>a \<in> set valid. legal_addr g a \<Longrightarrow>
   \<forall>c \<in> set cl. \<exists>x. c = show_cmd x \<and> legal_cmd g x \<Longrightarrow> length cl \<le> num_cmds g \<Longrightarrow>
   case gen_cmds fuel g cl valid skew ds of
     Inl e \<Rightarrow> e = Out_Of_Draws \<or> e = Out_Of_Fuel
   | Inr out \<Rightarrow> length out = num_cmds g \<and> (\<forall>c \<in> set out. \<exists>x. c = show_cmd x \<and> legal_cmd g x)"
proof (induction fuel arbitrary: cl valid skew ds)
  case (Suc fuel)
  show ?case
  proof (cases "length cl < num_cmds g")
    case True
    have ok: "gen_step_ok g ds (gen_cmd g valid skew ds)" using gen_cmd_ok Suc.prems(1-3) by blast
    show ?thesis
    proof (cases "gen_cmd g valid skew ds")
      case (Inl e)
      then show ?thesis using ok True by (simp add: gen_step_ok_def)
    next
      case (Inr r)
      obtain st ds' where r: "r = (st, ds')" by fastforce
      have ds': "\<forall>k \<in> set ds'. valid_draw k"
        using ok Inr r Suc.prems(2) by (auto simp: gen_step_ok_def split: gen_step.splits)
      show ?thesis
      proof (cases st)
        case Retry
        then show ?thesis using Inr r True Suc.IH [OF Suc.prems(1) ds' Suc.prems(3,4,5)] by simp
      next
        case (Emit c valid' k)
        then have "\<forall>a \<in> set valid'. legal_addr g a" "\<exists>x. c = show_cmd x \<and> legal_cmd g x"
          using ok Inr r by (auto simp: gen_step_ok_def)
        then show ?thesis
          using Emit Inr r True Suc.IH [OF Suc.prems(1) ds', of valid' "cl @ [c]"] Suc.prems(4) by auto
      qed
    qed
  qed (use Suc.prems in simp)
qed auto

section \<open>Properties\<close>

text \<open>
  C2. The device refines a partial map from logical pages to data. From start-up, any sequence of read, write and trim commands given as text
  (data without a colon) runs without an error, and its answers and its final contents are exactly those of the abstract device
  \<open>spec_run\<close>: legal addresses only, a read gives the data last written and not trimmed, a trim succeeds on stored pages only. A write to a legal
  address always succeeds, with one exception: a log whose high water mark is above the number of its blocks, and which so never collects,
  is full after as many writes as it has pages. The log that collects must have spare room: its logical pages and one block more must
  not fill it (with less, data may be lost, as shown below). A direct-mapped or ideal device must have a physical page for each logical one, and a positive high water mark.
\<close>

theorem ssd_run_refines_map:
  assumes "ssd_init t lpages blocks ppb et pt rt high low = Inr s" and "0 < ppb"
    and "t \<noteq> ''log'' \<Longrightarrow> lpages \<le> blocks * ppb \<and> 0 < high"
    and "t = ''log'' \<Longrightarrow> high \<le> int blocks \<Longrightarrow> lpages + ppb < blocks * ppb"
    and "\<forall>c \<in> set cs. \<forall>a d. c = Write a d \<longrightarrow> CHR '':'' \<notin> set d"
  shows "let (rs, m, u) = spec_run lpages (if t = ''log'' \<and> int blocks < high then Some (blocks * ppb) else None) cs (\<lambda>_. None, 0)
    in \<exists>s'. run_cmds (map show_cmd cs) ([], s) = Inr (rs, s') \<and> contents s' = m"
proof -
  have "contents s = (\<lambda>_. None)" using ssd_init_inv [OF assms(1,2)] assms(3) by blast
  moreover have "num_logical_pages (conf s) = lpages" using assms(1) by (auto simp: ssd_init_def)
  ultimately show ?thesis using serves_run [OF ssd_init_serves [OF assms(1-4)] assms(5), of "[]"] by auto
qed

text \<open>A log of eight pages takes nine writes, since the collector reclaims pages, and keeps all three logical pages.\<close>

definition demo_cmds :: "cmd list" where
  "demo_cmds = [Write 0 ''a'', Write 1 ''b'', Write 2 ''c'', Write 0 ''d'', Write 0 ''e'', Write 0 ''f'', Write 0 ''g'', Write 0 ''h'', Write 0 ''i'',
     Read 0, Read 1, Trim 2, Read 2, Write 7 ''x'']"

theorem ssd_run_refines_map_witness:
  "\<exists>s s'. ssd_init ''log'' 3 4 2 1000 40 10 2 1 = Inr s \<and>
     run_cmds (map show_cmd demo_cmds) ([], s) = Inr (replicate 9 Success @ [Data ''i'', Data ''b'', Success, Uninitialized_Read, Illegal_Write_Address], s') \<and>
     contents s' 0 = Some ''i'' \<and> contents s' 1 = Some ''b'' \<and> contents s' 2 = None"
proof -
  obtain s where s: "ssd_init ''log'' 3 4 2 1000 40 10 2 1 = Inr s" by (simp add: ssd_init_def ssd_kind_of_def)
  have d: "\<forall>c \<in> set demo_cmds. \<forall>a d. c = Write a d \<longrightarrow> CHR '':'' \<notin> set d" by (simp add: demo_cmds_def)
  have "spec_run 3 None demo_cmds (\<lambda>_. None, 0) =
      (replicate 9 Success @ [Data ''i'', Data ''b'', Success, Uninitialized_Read, Illegal_Write_Address], [0 \<mapsto> ''i'', 1 \<mapsto> ''b''], 9)"
    by (simp add: demo_cmds_def numeral_eq_Suc fun_eq_iff)
  then show ?thesis using ssd_run_refines_map [OF s _ _ _ d] s by auto
qed

text \<open>
  A write to a legal address fails only on a full log: no page is left in the current block and
  every block has been written to.
\<close>

theorem ssd_write_fails_only_full:
  assumes "ssd_inv s" and "0 \<le> a" and "a < int (num_logical_pages (conf s))"
  shows "\<exists>r s'. ssd_write a d s = Inr (r, s') \<and>
    (r = Success \<and> contents s' = (contents s)(nat a \<mapsto> d) \<or>
     r = Device_Full \<and> contents s' = contents s \<and> ssd_type (conf s) = TYPE_LOGGING \<and> current_page s = None \<and>
       (\<forall>b < num_blocks (conf s). state (flash s) ! (b * pages_per_block (conf s)) = STATE_VALID))"
proof (cases "log_inv s")
  case True
  have l: "nat a < num_logical_pages (conf s)" "int (nat a) = a" using assms by auto
  obtain r s' t where w: "ssd_write a d s = Inr (r, s')" "same_core s t"
    "r = Device_Full \<and> (\<forall>k. \<not> room (Suc k) t) \<or> r = Success \<and> logged (nat a) d t s'"
    using ssd_write_log [OF True l(1), of d] l(2) by auto
  have n: "0 < pages_per_block (conf s)" using True by (simp add: log_inv_def sized_def)
  have "current_page s = None \<and>
       (\<forall>b < num_blocks (conf s). state (flash s) ! (b * pages_per_block (conf s)) = STATE_VALID)"
    if "r = Device_Full"
  proof -
    have nr: "\<not> room (Suc 0) s" using w(3) that same_core_room [OF w(2)] by simp
    then have "current_page s = None" using n by (auto simp: room_def Suc_le_eq)
    with nr show ?thesis by (auto simp: room_def free_block_def)
  qed
  then show ?thesis using any_device.write_law [OF assms(1), of a d] w True
    by (auto simp: log_inv_def)
next
  case False
  then obtain k where k: "direct_inv k s" using assms(1) by (auto simp: ssd_inv_cases)
  let ?t = "s\<lparr>sums := (sums s)\<lparr>logical_write_sum := logical_write_sum (sums s) + 1\<rparr>\<rparr>"
  have c: "same_core s ?t" by simp
  have l: "nat a < num_logical_pages (conf ?t)" and it: "direct_inv k ?t" and ct: "contents ?t = contents s"
    using assms k same_coreD(2,3) [OF c] by (auto simp: nat_less_iff)
  have "ssd_write a d s = (if k = TYPE_DIRECT then write_direct (nat a) d ?t else write_ideal (nat a) d ?t)"
    using assms k by (cases k) (auto simp: ssd_write_def Let_def direct_inv_def)
  then show ?thesis using write_direct_spec [OF it l, of d] write_ideal_spec [OF it l, of d] ct by auto
qed

text \<open>
  C10. Garbage collection that starts with a free block finishes without an error or a failed write, keeps the
  contents of every logical page, and leaves a free block.
\<close>

theorem garbage_collect_keeps_contents:
  assumes "log_inv s" and "free_block s f" and "gc_current_block s \<le> num_blocks (conf s)"
  shows "\<exists>s'. garbage_collect s = Inr s' \<and> log_inv s' \<and> contents s' = contents s \<and> (\<exists>g. free_block s' g) \<and>
    logical_write_fail_sum (sums s') = logical_write_fail_sum (sums s)"
proof -
  have "\<forall>b \<in> set ([gc_current_block s..<num_blocks (conf s)] @ [0..<gc_current_block s]). b < num_blocks (conf s)"
    using assms(3) by auto
  from gc_blocks_spec [OF assms(1,2) this] show ?thesis unfolding garbage_collect_def by blast
qed

text \<open>
  Without a free block the collector loses data: the copy of a live page fails with a full device, the
  result is ignored, and the block is erased, so the page last written with \<open>b\<close> reads as blank.
\<close>

theorem garbage_collect_loses_data:
  "rbind (ssd_init ''log'' 3 2 2 1000 40 10 2 1) (\<lambda>s.
   rbind (run_cmds [''w0:a'', ''w1:b'', ''r1'', ''w2:c'', ''w0:d'', ''r1''] ([], s)) (\<lambda>(rs, s').
   Inr (rs, logical_write_fail_sum (sums s')))) =
   Inr ([Success, Success, Data ''b'', Success, Success, Data '' ''], 1)"
  by code_simp

definition demo_log :: ssd where
  "demo_log = snd (projr (rbind (ssd_init ''log'' 3 3 2 1000 40 10 10 8) (\<lambda>s.
     run_cmds (map show_cmd [Write 0 ''a'', Write 1 ''b'', Write 0 ''c'']) ([], s))))"

theorem garbage_collect_keeps_contents_witness:
  "\<exists>s'. free_block demo_log 2 \<and> live_pages 0 demo_log = [1] \<and> garbage_collect demo_log = Inr s' \<and>
    contents s' = contents demo_log \<and> contents s' 0 = Some ''c'' \<and> contents s' 1 = Some ''b''"
proof -
  obtain s where s: "ssd_init ''log'' 3 3 2 1000 40 10 10 8 = Inr s" by (simp add: ssd_init_def ssd_kind_of_def)
  have sv: "serves (Some 6) 0 s" using ssd_init_serves [OF s] by simp
  have "\<exists>u. serves (Some 6) u demo_log"
    using serves_run [OF sv, of "[Write 0 ''a'', Write 1 ''b'', Write 0 ''c'']" "[]"] s by (auto simp: demo_log_def)
  moreover have "ssd_type (conf demo_log) = TYPE_LOGGING" by code_simp
  ultimately have inv: "log_inv demo_log" by (auto simp: serves_def)
  have f: "free_block demo_log 2" by code_simp
  have g: "gc_current_block demo_log \<le> num_blocks (conf demo_log)" by code_simp
  have c: "contents demo_log 0 = Some ''c''" "contents demo_log 1 = Some ''b''" by code_simp+
  have l: "live_pages 0 demo_log = [1]" by code_simp
  from garbage_collect_keeps_contents [OF inv f g] f c l show ?thesis by auto
qed

theorem ssd_write_fails_only_full_witness:
  "\<exists>s r s'. ssd_inv s \<and> num_logical_pages (conf s) = 3 \<and> ssd_write 2 ''x'' s = Inr (r, s') \<and>
    (r = Success \<or> r = Device_Full)"
proof -
  obtain s where s: "ssd_init ''log'' 3 3 2 1000 40 10 10 8 = Inr s" by (simp add: ssd_init_def ssd_kind_of_def)
  then have n: "num_logical_pages (conf s) = 3" by (auto simp: ssd_init_def ssd_kind_of_def)
  have "ssd_inv s" using ssd_init_inv [OF s] by auto
  from ssd_write_fails_only_full [OF this, of 2 "''x''"] n this show ?thesis by auto
qed

text \<open>
  The generator with valid draws produces exactly the number of commands asked for, each of them the text of a read,
  write or trim of an address of the device; the only other outcomes are that the supply of draws, or the number of
  passes allowed, is used up: no index, no removal and no choice in it raises.
\<close>

theorem gen_cmds_legal:
  assumes "0 < max_page_addr g" and "\<forall>p h. hot g = Some (p, h) \<longrightarrow> 0 \<le> h \<and> h < max_page_addr g"
    and "\<forall>k \<in> set ds. valid_draw k"
  shows "gen_cmds fuel g [] [] skew ds = Inl Out_Of_Draws \<or> gen_cmds fuel g [] [] skew ds = Inl Out_Of_Fuel \<or>
    (\<exists>out. gen_cmds fuel g [] [] skew ds = Inr out \<and> length out = num_cmds g \<and>
       (\<forall>c \<in> set out. \<exists>x. parse_cmd c = Inr (Some x) \<and> legal_cmd g x))"
proof -
  have g: "gen_conf_ok g" using assms(1,2) by (auto simp: gen_conf_ok_def legal_addr_def split: option.splits)
  have p: "parse_cmd (show_cmd x) = Inr (Some x)" if "legal_cmd g x" for x
    by (rule parse_show_cmd) (use that in \<open>auto simp: legal_cmd_def printable_def\<close>)
  show ?thesis
    using gen_cmds_ok [OF g assms(3), of "[]" "[]" fuel skew] p
    by (cases "gen_cmds fuel g [] [] skew ds") fastforce+
qed

theorem gen_cmds_legal_witness:
  "\<exists>out. gen_cmds (Suc (Suc (Suc 0))) \<lparr>num_cmds = 3, percent_reads = 40, percent_writes = 50, read_fail = 0, max_page_addr = 8,
       hot = Some (80, 1)\<rparr> [] [] 0 [2 ^ 52, 0, 2 ^ 51, 7, 2 ^ 52, 2 ^ 52, 2 ^ 51, 7, 2 ^ 53 - 1, 9] = Inr out \<and>
     out = [''w0:0'', ''w0:0'', ''t0''] \<and> (\<forall>c \<in> set out. \<exists>x. parse_cmd c = Inr (Some x))"
proof -
  let ?g = "\<lparr>num_cmds = 3, percent_reads = 40, percent_writes = 50, read_fail = 0, max_page_addr = 8, hot = Some (80, 1)\<rparr>"
  let ?ds = "[2 ^ 52, 0, 2 ^ 51, 7, 2 ^ 52, 2 ^ 52, 2 ^ 51, 7, 2 ^ 53 - 1, 9] :: nat list"
  have e: "gen_cmds (Suc (Suc (Suc 0))) ?g [] [] 0 ?ds = Inr [''w0:0'', ''w0:0'', ''t0'']"
    by (simp add: gen_cmd_def random_randint_def pick_int_def pick_def below_def printable_def show_int_def
        show_nat.simps char_of_digit_def py_get_def py_remove_def Let_def)
  have "\<forall>k \<in> set ?ds. valid_draw k" by (simp add: valid_draw_def)
  from gen_cmds_legal [OF _ _ this, of ?g "Suc (Suc (Suc 0))" 0] e show ?thesis by auto
qed
end
