(* ===== verification/X86.thy ===== *)
theory X86
  imports PyString
begin

text \<open>
  The x86-like machine of \<open>threads-locks/x86.py\<close>: the processor and its instructions, the loader that parses
  assembly text, the processes and the process list, and the run loop with its timer interrupts. A memory cell
  holds a number or an instruction; reading an instruction as a number is \<open>Outside_Model\<close> (Python would go on with
  the instruction's text). The refinement at the end shows that the one processor with save and restore
  is a set of threads with registers of their own over a shared memory.
\<close>

section \<open>The processor\<close>

datatype register = REG_ZERO | REG_AX | REG_BX | REG_CX | REG_DX | REG_EX | REG_FX | REG_SP | REG_BP

datatype condition = COND_GT | COND_GTE | COND_LT | COND_LTE | COND_EQ | COND_NEQ

datatype instr =
    Halt | Iyield | Nop | Rdump | Mdump string
  | Move_i_to_r int register
  | Move_i_to_m int int register register int
  | Move_m_to_r int register register int register
  | Move_r_to_m register int register register int
  | Move_r_to_r register register
  | Lea_m_to_r int register register int register
  | Add_i_to_r int register | Add_r_to_r register register
  | Mul_i_to_r int register | Mul_r_to_r register register
  | Sub_i_to_r int register | Sub_r_to_r register register
  | Neg_r register
  | Atomic_exchange register int register register
  | Fetchadd register int register register
  | Test_i_r int register | Test_r_i register int | Test_r_r register register
  | Jump int | Jump_if condition int
  | Call int | Ret
  | Push_r register | Push_m int register register int
  | Pop | Pop_r register

datatype cell = Num int | Code instr

record cpu =
  PC :: int
  registers :: "register \<Rightarrow> int"
  conditions :: "condition \<Rightarrow> bool"
  memory :: "int \<Rightarrow> cell option"
  pmemory :: "int \<Rightarrow> string option"
  labels :: "(string, int) dict"
  vars :: "(string, int) dict"
  memtrace :: "string list"
  regtrace :: "register list"
  cctrace :: bool
  compute :: bool
  printstats :: bool
  headercount :: int

definition condlist :: "condition list" where
  "condlist = [COND_GTE, COND_GT, COND_LTE, COND_LT, COND_NEQ, COND_EQ]"

definition regnums :: "register list" where
  "regnums = [REG_ZERO, REG_AX, REG_BX, REG_CX, REG_DX, REG_EX, REG_FX, REG_SP, REG_BP]"

definition regnames :: "(string, register) dict" where
  "regnames = [(''zero'', REG_ZERO), (''ax'', REG_AX), (''bx'', REG_BX), (''cx'', REG_CX), (''dx'', REG_DX),
     (''ex'', REG_EX), (''fx'', REG_FX), (''sp'', REG_SP), (''bp'', REG_BP)]"

definition cpu_init :: "int \<Rightarrow> string list \<Rightarrow> string list \<Rightarrow> bool \<Rightarrow> bool \<Rightarrow> bool \<Rightarrow> int \<Rightarrow> cpu res" where
  "cpu_init mem mtrace rtrace cc solve stats hdr =
     rbind (rfold (\<lambda>r acc. case map_of regnames r of None \<Rightarrow> Inl (SystemExit 1) | Some n \<Rightarrow> Inr (acc @ [n])) rtrace []) (\<lambda>rs.
     Inr \<lparr>PC = 0, registers = (\<lambda>_. 0), conditions = (\<lambda>_. False),
          memory = (\<lambda>a. if 0 \<le> a \<and> a < mem * 1024 then Some (Num 0) else None), pmemory = (\<lambda>_. None),
          labels = [], vars = [], memtrace = mtrace, regtrace = rs, cctrace = cc, compute = solve,
          printstats = stats, headercount = hdr\<rparr>)"

definition get_regnum :: "string \<Rightarrow> register res" where
  "get_regnum name = rbind (py_assert (map_of regnames name \<noteq> None)) (\<lambda>_. Inr (the (map_of regnames name)))"

definition get_regname :: "register \<Rightarrow> string" where
  "get_regname num = (case filter (\<lambda>(n, r). r = num) regnames of [] \<Rightarrow> [] | (n, r) # _ \<Rightarrow> n)"

definition set_reg :: "register \<Rightarrow> int \<Rightarrow> cpu \<Rightarrow> cpu" where
  "set_reg r v c = c\<lparr>registers := (registers c)(r := v)\<rparr>"

definition set_cond :: "condition \<Rightarrow> bool \<Rightarrow> cpu \<Rightarrow> cpu" where
  "set_cond k v c = c\<lparr>conditions := (conditions c)(k := v)\<rparr>"

definition set_mem :: "int \<Rightarrow> int \<Rightarrow> cpu \<Rightarrow> cpu" where
  "set_mem a v c = c\<lparr>memory := (memory c)(a \<mapsto> Num v)\<rparr>"

definition read_mem :: "int \<Rightarrow> cpu \<Rightarrow> int res" where
  "read_mem a c = (case memory c a of None \<Rightarrow> Inl KeyError | Some (Num v) \<Rightarrow> Inr v | Some (Code _) \<Rightarrow> Inl Outside_Model)"

section \<open>Instructions\<close>

text \<open>The address \<open>value + reg1 + scale * reg2\<close> of a memory operand.\<close>

definition address :: "cpu \<Rightarrow> int \<Rightarrow> register \<Rightarrow> register \<Rightarrow> int \<Rightarrow> int" where
  "address c value reg1 reg2 scale = value + registers c reg1 + scale * registers c reg2"

definition mdump :: "int \<Rightarrow> cpu \<Rightarrow> cpu res" where
  "mdump index c = (case memory c index of None \<Rightarrow> Inl KeyError | Some _ \<Rightarrow> Inr c)"

definition move_i_to_r :: "int \<Rightarrow> register \<Rightarrow> cpu \<Rightarrow> cpu res" where
  "move_i_to_r src dst c = Inr (set_reg dst src c)"

definition move_i_to_m :: "int \<Rightarrow> int \<Rightarrow> register \<Rightarrow> register \<Rightarrow> int \<Rightarrow> cpu \<Rightarrow> cpu res" where
  "move_i_to_m src value reg1 reg2 scale c = Inr (set_mem (address c value reg1 reg2 scale) src c)"

definition move_m_to_r :: "int \<Rightarrow> register \<Rightarrow> register \<Rightarrow> int \<Rightarrow> register \<Rightarrow> cpu \<Rightarrow> cpu res" where
  "move_m_to_r value reg1 reg2 scale dst c =
     rbind (read_mem (address c value reg1 reg2 scale) c) (\<lambda>v. Inr (set_reg dst v c))"

definition move_r_to_m :: "register \<Rightarrow> int \<Rightarrow> register \<Rightarrow> register \<Rightarrow> int \<Rightarrow> cpu \<Rightarrow> cpu res" where
  "move_r_to_m src value reg1 reg2 scale c = Inr (set_mem (address c value reg1 reg2 scale) (registers c src) c)"

definition move_r_to_r :: "register \<Rightarrow> register \<Rightarrow> cpu \<Rightarrow> cpu res" where
  "move_r_to_r src dst c = Inr (set_reg dst (registers c src) c)"

definition lea_m_to_r :: "int \<Rightarrow> register \<Rightarrow> register \<Rightarrow> int \<Rightarrow> register \<Rightarrow> cpu \<Rightarrow> cpu res" where
  "lea_m_to_r value reg1 reg2 scale dst c = Inr (set_reg dst (address c value reg1 reg2 scale) c)"

definition add_i_to_r :: "int \<Rightarrow> register \<Rightarrow> cpu \<Rightarrow> cpu res" where
  "add_i_to_r src dst c = Inr (set_reg dst (registers c dst + src) c)"

definition add_r_to_r :: "register \<Rightarrow> register \<Rightarrow> cpu \<Rightarrow> cpu res" where
  "add_r_to_r src dst c = Inr (set_reg dst (registers c dst + registers c src) c)"

definition mul_i_to_r :: "int \<Rightarrow> register \<Rightarrow> cpu \<Rightarrow> cpu res" where
  "mul_i_to_r src dst c = Inr (set_reg dst (registers c dst * src) c)"

definition mul_r_to_r :: "register \<Rightarrow> register \<Rightarrow> cpu \<Rightarrow> cpu res" where
  "mul_r_to_r src dst c = Inr (set_reg dst (registers c dst * registers c src) c)"

definition sub_i_to_r :: "int \<Rightarrow> register \<Rightarrow> cpu \<Rightarrow> cpu res" where
  "sub_i_to_r src dst c = Inr (set_reg dst (registers c dst - src) c)"

definition sub_r_to_r :: "register \<Rightarrow> register \<Rightarrow> cpu \<Rightarrow> cpu res" where
  "sub_r_to_r src dst c = Inr (set_reg dst (registers c dst - registers c src) c)"

definition neg_r :: "register \<Rightarrow> cpu \<Rightarrow> cpu res" where
  "neg_r src c = Inr (set_reg src (- registers c src) c)"

definition atomic_exchange :: "register \<Rightarrow> int \<Rightarrow> register \<Rightarrow> register \<Rightarrow> cpu \<Rightarrow> cpu res" where
  "atomic_exchange src value reg1 reg2 c =
     (let tmp = value + registers c reg1 + registers c reg2 in
      rbind (read_mem tmp c) (\<lambda>old. Inr (set_reg src old (set_mem tmp (registers c src) c))))"

definition fetchadd :: "register \<Rightarrow> int \<Rightarrow> register \<Rightarrow> register \<Rightarrow> cpu \<Rightarrow> cpu res" where
  "fetchadd src value reg1 reg2 c =
     (let tmp = value + registers c reg1 + registers c reg2 in
      rbind (read_mem tmp c) (\<lambda>old. Inr (set_reg src old (set_mem tmp (old + registers c src) c))))"

definition init_condition_codes :: "cpu \<Rightarrow> cpu" where
  "init_condition_codes c = fold (\<lambda>k. set_cond k False) condlist c"

definition test_all :: "int \<Rightarrow> int \<Rightarrow> cpu \<Rightarrow> cpu res" where
  "test_all src dst c =
     (let c0 = init_condition_codes c;
          c1 = (if dst > src then set_cond COND_GT True c0 else c0);
          c2 = (if dst \<ge> src then set_cond COND_GTE True c1 else c1);
          c3 = (if dst < src then set_cond COND_LT True c2 else c2);
          c4 = (if dst \<le> src then set_cond COND_LTE True c3 else c3);
          c5 = (if dst = src then set_cond COND_EQ True c4 else c4)
      in Inr (if dst \<noteq> src then set_cond COND_NEQ True c5 else c5))"

definition test_i_r :: "int \<Rightarrow> register \<Rightarrow> cpu \<Rightarrow> cpu res" where
  "test_i_r src dst c = test_all src (registers c dst) (init_condition_codes c)"

definition test_r_i :: "register \<Rightarrow> int \<Rightarrow> cpu \<Rightarrow> cpu res" where
  "test_r_i src dst c = test_all (registers c src) dst (init_condition_codes c)"

definition test_r_r :: "register \<Rightarrow> register \<Rightarrow> cpu \<Rightarrow> cpu res" where
  "test_r_r src dst c = test_all (registers c src) (registers c dst) (init_condition_codes c)"

definition jump :: "int \<Rightarrow> cpu \<Rightarrow> cpu res" where
  "jump targ c = Inr (c\<lparr>PC := targ\<rparr>)"

text \<open>\<open>jump_notequal\<close>, \<open>jump_equal\<close>, \<open>jump_lessthan\<close>, ...: one per condition.\<close>

definition jump_if :: "condition \<Rightarrow> int \<Rightarrow> cpu \<Rightarrow> cpu res" where
  "jump_if k targ c = Inr (if conditions c k then c\<lparr>PC := targ\<rparr> else c)"

definition call :: "int \<Rightarrow> cpu \<Rightarrow> cpu res" where
  "call targ c =
     (let c1 = set_reg REG_SP (registers c REG_SP - 4) c;
          c2 = set_mem (registers c1 REG_SP) (PC c1) c1
      in Inr (c2\<lparr>PC := targ\<rparr>))"

definition ret :: "cpu \<Rightarrow> cpu res" where
  "ret c = rbind (read_mem (registers c REG_SP) c) (\<lambda>v.
     Inr (set_reg REG_SP (registers c REG_SP + 4) (c\<lparr>PC := v\<rparr>)))"

definition push_r :: "register \<Rightarrow> cpu \<Rightarrow> cpu res" where
  "push_r reg c =
     (let c1 = set_reg REG_SP (registers c REG_SP - 4) c
      in Inr (set_mem (registers c1 REG_SP) (registers c1 reg) c1))"

definition push_m :: "int \<Rightarrow> register \<Rightarrow> register \<Rightarrow> int \<Rightarrow> cpu \<Rightarrow> cpu res" where
  "push_m value reg1 reg2 scale c =
     (let c1 = set_reg REG_SP (registers c REG_SP - 4) c
      in Inr (set_mem (registers c1 REG_SP) (address c1 value reg1 reg2 scale) c1))"

definition pop :: "cpu \<Rightarrow> cpu res" where
  "pop c = Inr (set_reg REG_SP (registers c REG_SP + 4) c)"

definition pop_r :: "register \<Rightarrow> cpu \<Rightarrow> cpu res" where
  "pop_r dst c = rbind (read_mem (registers c REG_SP) c) (\<lambda>v.
     let c1 = set_reg dst v c in Inr (set_reg REG_SP (registers c1 REG_SP + 4) c1))"

text \<open>
  \<open>eval\<close> of the stored text of an instruction: the method it calls, and \<open>-1\<close> for a halt, \<open>-2\<close> for a yield.
  The argument of \<open>mdump\<close> is a Python expression; the model evaluates decimal literals only.
\<close>

definition decimal :: "string \<Rightarrow> bool" where
  "decimal t \<longleftrightarrow> isdigit t \<and> (hd t \<noteq> CHR ''0'' \<or> list_all (\<lambda>d. d = CHR ''0'') t)"

definition eval_instr :: "instr \<Rightarrow> cpu \<Rightarrow> (int \<times> cpu) res" where
  "eval_instr i c =
     (case i of
        Halt \<Rightarrow> Inr (- 1, c)
      | Iyield \<Rightarrow> Inr (- 2, c)
      | _ \<Rightarrow> rbind (case i of
            Mdump t \<Rightarrow> (if decimal t then rbind (py_int t) (\<lambda>a. mdump a c) else Inl Outside_Model)
          | Move_i_to_r v d \<Rightarrow> move_i_to_r v d c
          | Move_i_to_m v a r1 r2 k \<Rightarrow> move_i_to_m v a r1 r2 k c
          | Move_m_to_r a r1 r2 k d \<Rightarrow> move_m_to_r a r1 r2 k d c
          | Move_r_to_m r a r1 r2 k \<Rightarrow> move_r_to_m r a r1 r2 k c
          | Move_r_to_r r d \<Rightarrow> move_r_to_r r d c
          | Lea_m_to_r a r1 r2 k d \<Rightarrow> lea_m_to_r a r1 r2 k d c
          | Add_i_to_r v d \<Rightarrow> add_i_to_r v d c | Add_r_to_r r d \<Rightarrow> add_r_to_r r d c
          | Mul_i_to_r v d \<Rightarrow> mul_i_to_r v d c | Mul_r_to_r r d \<Rightarrow> mul_r_to_r r d c
          | Sub_i_to_r v d \<Rightarrow> sub_i_to_r v d c | Sub_r_to_r r d \<Rightarrow> sub_r_to_r r d c
          | Neg_r r \<Rightarrow> neg_r r c
          | Atomic_exchange r a r1 r2 \<Rightarrow> atomic_exchange r a r1 r2 c
          | Fetchadd r a r1 r2 \<Rightarrow> fetchadd r a r1 r2 c
          | Test_i_r v r \<Rightarrow> test_i_r v r c | Test_r_i r v \<Rightarrow> test_r_i r v c | Test_r_r r1 r2 \<Rightarrow> test_r_r r1 r2 c
          | Jump t \<Rightarrow> jump t c | Jump_if k t \<Rightarrow> jump_if k t c
          | Call t \<Rightarrow> call t c | Ret \<Rightarrow> ret c
          | Push_r r \<Rightarrow> push_r r c | Push_m a r1 r2 k \<Rightarrow> push_m a r1 r2 k c
          | Pop \<Rightarrow> pop c | Pop_r d \<Rightarrow> pop_r d c
          | _ \<Rightarrow> Inr c) (\<lambda>c'. Inr (0, c')))"


section \<open>The loader\<close>

text \<open>Operands: \<open>TYPE_IMMEDIATE\<close>, \<open>TYPE_REGISTER\<close>, \<open>TYPE_LABEL\<close> and \<open>TYPE_MEMORY\<close> with its four numbers.\<close>

datatype operand = Imm int | Reg register | Label string | Mem int register register int

text \<open>\<open>s.split(sep)\<close> for a separator of several characters, and \<open>s.split(c, 1)\<close>.\<close>

function split_str :: "string \<Rightarrow> string \<Rightarrow> string list" where
  "split_str sep s =
     (if sep = [] \<or> s = [] then [s]
      else if take (length sep) s = sep then [] # split_str sep (drop (length sep) s)
      else (case split_str sep (tl s) of [] \<Rightarrow> [s] | p # ps \<Rightarrow> (hd s # p) # ps))"
  by pat_completeness auto
termination by (relation "measure (\<lambda>(sep, s). length s)") auto

declare split_str.simps [simp del]

definition split_once :: "char \<Rightarrow> string \<Rightarrow> string list" where
  "split_once k s = (if k \<in> set s then [takeWhile (\<lambda>x. x \<noteq> k) s, tl (dropWhile (\<lambda>x. x \<noteq> k) s)] else [s])"

fun drop_space_tab :: "string \<Rightarrow> string" where
  "drop_space_tab (x # y # s) = (if x = CHR '' '' \<and> y = CHR 0x09 then drop_space_tab s else x # drop_space_tab (y # s))"
| "drop_space_tab s = s"

definition zassert :: "bool \<Rightarrow> unit res" where
  "zassert b = (if b then Inr () else Inl (SystemExit 1))"

definition register_translate :: "string \<Rightarrow> register res" where
  "register_translate r = (case map_of regnames r of None \<Rightarrow> Inl (SystemExit 1) | Some n \<Rightarrow> Inr n)"

definition getregname :: "string \<Rightarrow> string res" where
  "getregname r =
     (let t = strip r in
      if t = [] then Inr ''zero''
      else rbind (zassert (hd t = CHR ''%'')) (\<lambda>_.
           rbind (py_get (py_split CHR ''%'' r) 1) (\<lambda>n. Inr (strip n))))"

definition getarg :: "cpu \<Rightarrow> string \<Rightarrow> operand res" where
  "getarg c arg =
     (let tmp = drop_space_tab (map (\<lambda>x. if x = CHR '','' then CHR '' '' else x) arg) in
      if tmp = [] then Inl IndexError
      else if hd tmp = CHR ''$'' then
        rbind (py_get (py_split CHR ''$'' tmp) 1) (\<lambda>value.
        if value = [] then Inl IndexError
        else
          let (neg, digits) = (if hd value = CHR ''-'' then (- 1, tl value) else (1, value)) in
          rbind (zassert (isdigit digits)) (\<lambda>_. rbind (py_int digits) (\<lambda>v. Inr (Imm (neg * v)))))
      else if hd tmp = CHR ''%'' then
        rbind (py_get (py_split CHR ''%'' tmp) 1) (\<lambda>r. rbind (register_translate r) (\<lambda>n. Inr (Reg n)))
      else if hd tmp = CHR ''.'' then Inr (Label tmp)
      else if is_alpha (hd tmp) then
        (case map_of (vars c) tmp of None \<Rightarrow> Inl (SystemExit 1) | Some v \<Rightarrow> Inr (Mem v REG_ZERO REG_ZERO 1))
      else if is_digit (hd tmp) \<or> hd tmp = CHR ''-'' \<or> hd tmp = CHR ''('' then
        let (neg, tmp) = (if hd tmp = CHR ''-'' then (- 1, tl tmp) else (1, tmp));
            s = py_split CHR ''('' tmp in
        if length s = 1 then rbind (py_int tmp) (\<lambda>v. Inr (Mem (neg * v) REG_ZERO REG_ZERO 1))
        else if length s = 2 then
          rbind (if hd tmp \<noteq> CHR ''('' then
                   rbind (zassert (isdigit (strip (s ! 0)))) (\<lambda>_. rbind (py_int (s ! 0)) (\<lambda>v. Inr (neg * v)))
                 else Inr 0) (\<lambda>value.
          let t = split_str ''__BREAK__'' (py_split CHR '')'' (s ! 1) ! 0) in
          if length t = 1 then
            rbind (getregname (t ! 0)) (\<lambda>r. rbind (register_translate r) (\<lambda>n. Inr (Mem value n REG_ZERO 1)))
          else if length t = 2 then
            rbind (getregname (t ! 0)) (\<lambda>r1. rbind (getregname (t ! 1)) (\<lambda>r2.
            rbind (register_translate r1) (\<lambda>n1. rbind (register_translate r2) (\<lambda>n2. Inr (Mem value n1 n2 1)))))
          else if length t = 3 then
            rbind (getregname (t ! 0)) (\<lambda>r1. rbind (getregname (t ! 1)) (\<lambda>r2. rbind (py_int (t ! 2)) (\<lambda>scale.
            rbind (register_translate r1) (\<lambda>n1. rbind (register_translate r2) (\<lambda>n2. Inr (Mem value n1 n2 scale))))))
          else Inl (SystemExit 1))
        else Inl (SystemExit 1)
      else Inl TypeError)"

fun removecommas :: "bool \<Rightarrow> string \<Rightarrow> string res" where
  "removecommas inparen [] = rbind (zassert (\<not> inparen)) (\<lambda>_. Inr [])"
| "removecommas inparen (x # xs) =
     rbind (if x = CHR ''('' then rbind (zassert (\<not> inparen)) (\<lambda>_. Inr True)
            else if x = CHR '')'' then rbind (zassert inparen) (\<lambda>_. Inr False)
            else Inr inparen) (\<lambda>inparen'.
     rbind (removecommas inparen' xs) (\<lambda>out.
     Inr ((if inparen' \<and> x = CHR '','' then ''__BREAK__'' else [x]) @ out)))"

definition clean_line :: "string \<Rightarrow> string res" where
  "clean_line line =
     (let cline = rstrip line; ctmp = py_split CHR ''#'' cline in
      rbind (py_assert (length ctmp = 1 \<or> length ctmp = 2)) (\<lambda>_.
      Inr (if length ctmp = 2 then ctmp ! 0 else cline)))"

text \<open>First pass over a line: variables and labels; the state is the next address and the next data address.\<close>

definition first_pass :: "int \<Rightarrow> string \<Rightarrow> cpu \<times> int \<times> int \<Rightarrow> (cpu \<times> int \<times> int) res" where
  "first_pass bpc line st =
     (let (c, pc, dat) = st in
      rbind (clean_line line) (\<lambda>cline.
      let tmp = py_words cline in
      if tmp = [] then Inr st
      else if tmp ! 0 = ''.var'' then
        rbind (py_assert (length tmp = 2 \<or> length tmp = 3)) (\<lambda>_.
        rbind (py_assert (map_of (vars c) (tmp ! 0) = None)) (\<lambda>_.
        rbind (if length tmp = 3 then py_int (tmp ! 2) else Inr 1) (\<lambda>mul.
        rbind (zassert (dat + 4 * mul < bpc)) (\<lambda>_.
        Inr (c\<lparr>vars := dict_set (tmp ! 1) dat (vars c)\<rparr>, pc, dat + 4 * mul)))))
      else if hd (tmp ! 0) = CHR ''.'' then
        rbind (py_assert (length tmp = 1)) (\<lambda>_. Inr (c\<lparr>labels := dict_set (tmp ! 0) pc (labels c)\<rparr>, pc, dat))
      else Inr (c, pc + 1, dat)))"

text \<open>
  The opcode loop. \<open>tmp\<close> is \<open>cline.split(None, 1)\<close>; \<open>two_args\<close> are the operands of the instructions that split at the
  first comma.
\<close>

definition two_args :: "cpu \<Rightarrow> string list \<Rightarrow> (operand \<times> operand) res" where
  "two_args c tmp =
     rbind (py_get tmp 1) (\<lambda>t.
     let rtmp = split_once CHR '','' t in
     rbind (zassert (length tmp = 2 \<and> length rtmp = 2)) (\<lambda>_.
     rbind (getarg c (strip (rtmp ! 0))) (\<lambda>src.
     rbind (getarg c (strip (rtmp ! 1))) (\<lambda>dst. Inr (src, dst)))))"

definition parse_mov :: "cpu \<Rightarrow> string list \<Rightarrow> instr res" where
  "parse_mov c tmp =
     rbind (py_get tmp 1) (\<lambda>t.
     rbind (removecommas False t) (\<lambda>outargs.
     let rtmp = py_split CHR '','' outargs in
     rbind (zassert (length rtmp = 2)) (\<lambda>_.
     rbind (getarg c (strip (rtmp ! 0))) (\<lambda>src.
     rbind (getarg c (strip (rtmp ! 1))) (\<lambda>dst.
     case (src, dst) of
       (Imm v, Reg d) \<Rightarrow> Inr (Move_i_to_r v d)
     | (Mem a r1 r2 k, Reg d) \<Rightarrow> Inr (Move_m_to_r a r1 r2 k d)
     | (Reg r, Mem a r1 r2 k) \<Rightarrow> Inr (Move_r_to_m r a r1 r2 k)
     | (Reg r, Reg d) \<Rightarrow> Inr (Move_r_to_r r d)
     | (Imm v, Mem a r1 r2 k) \<Rightarrow> Inr (Move_i_to_m v a r1 r2 k)
     | _ \<Rightarrow> Inl (SystemExit 1))))))"

definition parse_lea :: "cpu \<Rightarrow> string list \<Rightarrow> instr res" where
  "parse_lea c tmp = rbind (two_args c tmp) (\<lambda>(src, dst).
     case (src, dst) of (Mem a r1 r2 k, Reg d) \<Rightarrow> Inr (Lea_m_to_r a r1 r2 k d) | _ \<Rightarrow> Inl (SystemExit 1))"

definition parse_neg :: "cpu \<Rightarrow> string list \<Rightarrow> instr res" where
  "parse_neg c tmp =
     rbind (zassert (length tmp = 2)) (\<lambda>_. rbind (getarg c (strip (tmp ! 1))) (\<lambda>dst.
     case dst of Reg d \<Rightarrow> Inr (Neg_r d) | _ \<Rightarrow> Inl (SystemExit 1)))"

definition parse_pop :: "cpu \<Rightarrow> string list \<Rightarrow> instr res" where
  "parse_pop c tmp =
     (if length tmp = 1 then Inr Pop
      else if length tmp = 2 then
        rbind (getarg c (strip (tmp ! 1))) (\<lambda>dst. case dst of Reg d \<Rightarrow> Inr (Pop_r d) | _ \<Rightarrow> Inl (SystemExit 1))
      else Inl (SystemExit 1))"

definition parse_push :: "cpu \<Rightarrow> string list \<Rightarrow> instr res" where
  "parse_push c tmp =
     rbind (py_get tmp 1) (\<lambda>t. rbind (getarg c (strip t)) (\<lambda>src.
     case src of Reg r \<Rightarrow> Inr (Push_r r) | Mem a r1 r2 k \<Rightarrow> Inr (Push_m a r1 r2 k) | _ \<Rightarrow> Inl (SystemExit 1)))"

definition parse_call :: "cpu \<Rightarrow> string list \<Rightarrow> instr res" where
  "parse_call c tmp =
     rbind (py_get tmp 1) (\<lambda>t. rbind (getarg c (strip t)) (\<lambda>targ.
     case targ of Label l \<Rightarrow> rbind (dict_get (labels c) l) (\<lambda>a. Inr (Call a)) | _ \<Rightarrow> Inl (SystemExit 1)))"

definition parse_ret :: "cpu \<Rightarrow> string list \<Rightarrow> instr res" where
  "parse_ret c tmp = rbind (py_assert (length tmp = 1)) (\<lambda>_. Inr Ret)"

definition parse_mul :: "cpu \<Rightarrow> string list \<Rightarrow> instr res" where
  "parse_mul c tmp = rbind (two_args c tmp) (\<lambda>(src, dst).
     case (src, dst) of (Imm v, Reg d) \<Rightarrow> Inr (Mul_i_to_r v d) | (Reg r, Reg d) \<Rightarrow> Inr (Mul_r_to_r r d)
     | _ \<Rightarrow> Inl (SystemExit 1))"

definition parse_add :: "cpu \<Rightarrow> string list \<Rightarrow> instr res" where
  "parse_add c tmp = rbind (two_args c tmp) (\<lambda>(src, dst).
     case (src, dst) of (Imm v, Reg d) \<Rightarrow> Inr (Add_i_to_r v d) | (Reg r, Reg d) \<Rightarrow> Inr (Add_r_to_r r d)
     | _ \<Rightarrow> Inl (SystemExit 1))"

definition parse_sub :: "cpu \<Rightarrow> string list \<Rightarrow> instr res" where
  "parse_sub c tmp = rbind (two_args c tmp) (\<lambda>(src, dst).
     case (src, dst) of (Imm v, Reg d) \<Rightarrow> Inr (Sub_i_to_r v d) | (Reg r, Reg d) \<Rightarrow> Inr (Sub_r_to_r r d)
     | _ \<Rightarrow> Inl (SystemExit 1))"

text \<open>\<open>dst.split(',')\<close> is only defined on text: a memory operand or a label.\<close>

definition parse_fetchadd :: "cpu \<Rightarrow> string list \<Rightarrow> instr res" where
  "parse_fetchadd c tmp = rbind (two_args c tmp) (\<lambda>(src, dst).
     case dst of
       Mem a r1 r2 k \<Rightarrow> (case src of Reg r \<Rightarrow> Inr (Fetchadd r a r1 r2) | _ \<Rightarrow> Inl (SystemExit 1))
     | Label l \<Rightarrow> Inl AssertionError
     | _ \<Rightarrow> Inl AttributeError)"

definition parse_xchg :: "cpu \<Rightarrow> string list \<Rightarrow> instr res" where
  "parse_xchg c tmp = rbind (two_args c tmp) (\<lambda>(src, dst).
     case dst of
       Mem a r1 r2 k \<Rightarrow> (case src of Reg r \<Rightarrow> Inr (Atomic_exchange r a r1 r2) | _ \<Rightarrow> Inl (SystemExit 1))
     | Label l \<Rightarrow> Inl AssertionError
     | _ \<Rightarrow> Inl AttributeError)"

definition parse_test :: "cpu \<Rightarrow> string list \<Rightarrow> instr res" where
  "parse_test c tmp = rbind (two_args c tmp) (\<lambda>(src, dst).
     case (src, dst) of
       (Imm v, Reg d) \<Rightarrow> Inr (Test_i_r v d)
     | (Reg r, Reg d) \<Rightarrow> Inr (Test_r_r r d)
     | (Reg r, Imm v) \<Rightarrow> Inr (Test_r_i r v)
     | _ \<Rightarrow> Inl (SystemExit 1))"

definition parse_jump :: "(int \<Rightarrow> instr) \<Rightarrow> cpu \<Rightarrow> string list \<Rightarrow> instr res" where
  "parse_jump mk c tmp =
     rbind (py_get tmp 1) (\<lambda>t. rbind (getarg c (strip t)) (\<lambda>targ.
     case targ of Label l \<Rightarrow> rbind (dict_get (labels c) l) (\<lambda>a. Inr (mk a)) | _ \<Rightarrow> Inl (SystemExit 1)))"

definition opcodes :: "(string, cpu \<Rightarrow> string list \<Rightarrow> instr res) dict" where
  "opcodes =
     [(''mov'', parse_mov), (''lea'', parse_lea), (''neg'', parse_neg), (''pop'', parse_pop), (''push'', parse_push),
      (''call'', parse_call), (''ret'', parse_ret), (''mul'', parse_mul), (''add'', parse_add), (''sub'', parse_sub),
      (''fetchadd'', parse_fetchadd), (''xchg'', parse_xchg), (''test'', parse_test),
      (''j'', parse_jump Jump), (''jne'', parse_jump (Jump_if COND_NEQ)), (''je'', parse_jump (Jump_if COND_EQ)),
      (''jlt'', parse_jump (Jump_if COND_LT)), (''jlte'', parse_jump (Jump_if COND_LTE)),
      (''jgt'', parse_jump (Jump_if COND_GT)), (''jgte'', parse_jump (Jump_if COND_GTE)),
      (''nop'', \<lambda>c tmp. Inr Nop), (''halt'', \<lambda>c tmp. Inr Halt), (''yield'', \<lambda>c tmp. Inr Iyield),
      (''rdump'', \<lambda>c tmp. Inr Rdump), (''mdump'', \<lambda>c tmp. rbind (py_get tmp 1) (\<lambda>t. Inr (Mdump t)))]"

definition parse_instr :: "cpu \<Rightarrow> string \<Rightarrow> instr res" where
  "parse_instr c cline =
     (let tmp = split_first cline in
      case map_of opcodes (tmp ! 0) of None \<Rightarrow> Inl (SystemExit 1) | Some f \<Rightarrow> f c tmp)"

definition second_pass :: "string \<Rightarrow> cpu \<times> int \<Rightarrow> (cpu \<times> int) res" where
  "second_pass line st =
     (let (c, pc) = st in
      rbind (clean_line line) (\<lambda>cline.
      if py_words cline = [] then Inr st
      else if hd cline = CHR ''.'' then Inr st
      else
        rbind (parse_instr c cline) (\<lambda>i.
        Inr (c\<lparr>pmemory := (pmemory c)(pc \<mapsto> strip cline), memory := (memory c)(pc \<mapsto> Code i)\<rparr>, pc + 1))))"

definition load :: "string list \<Rightarrow> int \<Rightarrow> cpu \<Rightarrow> cpu res" where
  "load file loadaddr c =
     rbind (rfold (first_pass loadaddr) file (c, loadaddr, 100)) (\<lambda>(c1, _, _).
     rbind (rfold second_pass file (c1, loadaddr)) (\<lambda>(c2, _). Inr c2))"

section \<open>Processes\<close>

record process =
  tid :: nat
  pc :: int
  regs :: "register \<Rightarrow> int"
  cc :: "condition \<Rightarrow> bool"
  isdone :: bool
  stack :: int

definition process_init :: "nat \<Rightarrow> int \<Rightarrow> int \<Rightarrow> string \<Rightarrow> process res" where
  "process_init t startpc stackbottom reginit =
     rbind (if reginit = [] then Inr (\<lambda>_. 0)
            else rfold (\<lambda>r rs.
              let tmp = py_split CHR ''='' r in
              rbind (py_assert (length tmp = 2)) (\<lambda>_.
              rbind (py_int (tmp ! 1)) (\<lambda>v.
              rbind (get_regnum (tmp ! 0)) (\<lambda>n. Inr (rs(n := v)))))) (py_split CHR '':'' reginit) (\<lambda>_. 0)) (\<lambda>rs.
     Inr \<lparr>tid = t, pc = startpc, regs = rs(REG_SP := stackbottom), cc = (\<lambda>_. False), isdone = False, stack = stackbottom\<rparr>)"

definition process_save :: "cpu \<Rightarrow> process \<Rightarrow> process" where
  "process_save c p =
     (let p1 = p\<lparr>pc := PC c\<rparr>;
          p2 = fold (\<lambda>k q. q\<lparr>cc := (cc q)(k := conditions c k)\<rparr>) condlist p1
      in fold (\<lambda>r q. q\<lparr>regs := (regs q)(r := registers c r)\<rparr>) regnums p2)"

definition process_restore :: "process \<Rightarrow> cpu \<Rightarrow> cpu" where
  "process_restore p c =
     (let c1 = c\<lparr>PC := pc p\<rparr>;
          c2 = fold (\<lambda>k. set_cond k (cc p k)) condlist c1
      in fold (\<lambda>r. set_reg r (regs p r)) regnums c2)"

section \<open>The process list\<close>

record proclist =
  plist :: "process list"
  active :: int
  manual :: bool
  procsched :: "nat list"
  cur :: nat

definition proclist_init :: proclist where
  "proclist_init = \<lparr>plist = [], active = 0, manual = False, procsched = [], cur = 0\<rparr>"

definition addproc :: "process \<Rightarrow> proclist \<Rightarrow> proclist" where
  "addproc p ps = ps\<lparr>active := active ps + 1, plist := plist ps @ [p]\<rparr>"

definition current :: "proclist \<Rightarrow> nat res" where
  "current ps = rbind (py_get (procsched ps) (int (cur ps))) (\<lambda>p. if p < length (plist ps) then Inr p else Inl IndexError)"

definition proc_done :: "proclist \<Rightarrow> proclist res" where
  "proc_done ps = rbind (current ps) (\<lambda>p.
     Inr (ps\<lparr>plist := (plist ps)[p := (plist ps ! p)\<lparr>isdone := True\<rparr>], active := active ps - 1\<rparr>))"

definition numdone :: "proclist \<Rightarrow> int" where
  "numdone ps = int (length (plist ps)) - active ps"

definition proc_save :: "cpu \<Rightarrow> proclist \<Rightarrow> proclist res" where
  "proc_save c ps = rbind (current ps) (\<lambda>p. Inr (ps\<lparr>plist := (plist ps)[p := process_save c (plist ps ! p)]\<rparr>))"

definition proc_restore :: "cpu \<Rightarrow> proclist \<Rightarrow> cpu res" where
  "proc_restore c ps = rbind (current ps) (\<lambda>p. Inr (process_restore (plist ps ! p) c))"

definition finalize :: "string \<Rightarrow> cpu \<Rightarrow> proclist \<Rightarrow> (cpu \<times> proclist) res" where
  "finalize sched c ps =
     rbind (if sched = [] then Inr (ps\<lparr>procsched := procsched ps @ [0..<length (plist ps)], cur := 0\<rparr>)
            else
              rbind (rfold (\<lambda>x q.
                 rbind (py_int [x]) (\<lambda>p.
                 if p \<ge> int (length (plist q)) then Inl (SystemExit 1)
                 else Inr (q\<lparr>procsched := procsched q @ [nat p]\<rparr>))) sched (ps\<lparr>manual := True\<rparr>)) (\<lambda>q.
              if int (card (set (procsched q))) \<noteq> active q then Inl (SystemExit 1)
              else Inr (q\<lparr>cur := 0\<rparr>))) (\<lambda>q.
     rbind (proc_restore c q) (\<lambda>c'. Inr (c', q)))"

text \<open>\<open>next\<close>: its \<open>while True\<close> has to find a live process within one round of the schedule.\<close>

fun next_loop :: "nat \<Rightarrow> proclist \<Rightarrow> proclist res" where
  "next_loop 0 ps = Inl Out_Of_Fuel"
| "next_loop (Suc n) ps =
     (let k = (if cur ps + 1 = length (procsched ps) then 0 else cur ps + 1); q = ps\<lparr>cur := k\<rparr> in
      rbind (current q) (\<lambda>p. if isdone (plist q ! p) then next_loop n q else Inr q))"

definition next_proc :: "proclist \<Rightarrow> proclist res" where
  "next_proc ps = next_loop (length (procsched ps)) ps"

section \<open>The run loop\<close>

datatype trace_event =
    Headers "string list" "string list" bool nat
  | Row "nat option" "int option list" "int option list" "bool option list"
  | Executed nat int string
  | Halt_Switch nat
  | Interrupt_Switch nat

record machine =
  proc :: cpu
  procs :: proclist
  icount :: nat
  interrupt :: int
  intfreq :: int
  intrand :: bool
  draws :: "draw list"
  out :: "trace_event list"

definition emit :: "trace_event \<Rightarrow> machine \<Rightarrow> machine" where
  "emit e m = m\<lparr>out := out m @ [e]\<rparr>"

text \<open>The address of a traced location: a number, or a declared variable.\<close>

definition traced :: "cpu \<Rightarrow> string \<Rightarrow> int res" where
  "traced c t =
     (if t = [] then Inl IndexError
      else if is_digit (hd t) then py_int t
      else case map_of (vars c) t of None \<Rightarrow> Inl (SystemExit 1) | Some a \<Rightarrow> Inr a)"

definition print_headers :: "machine \<Rightarrow> machine res" where
  "print_headers m =
     rbind (rfold (\<lambda>t u. rbind (traced (proc m) t) (\<lambda>_. Inr u)) (memtrace (proc m)) ()) (\<lambda>_.
     Inr (emit (Headers (memtrace (proc m)) (map get_regname (regtrace (proc m))) (cctrace (proc m))
                  (length (plist (procs m)))) m))"

definition print_trace :: "machine \<Rightarrow> machine res" where
  "print_trace m =
     (let c = proc m in
      rbind (rfold (\<lambda>t vs. if compute c then rbind (traced c t) (\<lambda>a. rbind (read_mem a c) (\<lambda>v. Inr (vs @ [Some v])))
                           else Inr (vs @ [None])) (memtrace c) []) (\<lambda>mem.
      Inr (emit (Row (if printstats c then Some (icount m) else None) mem
             (map (\<lambda>r. if compute c then Some (registers c r) else None) (regtrace c))
             (if cctrace c then map (\<lambda>k. if compute c then Some (conditions c k) else None) condlist else [])) m)))"

definition setint :: "machine \<Rightarrow> machine res" where
  "setint m =
     (if \<not> intrand m then Inr (m\<lparr>interrupt := intfreq m\<rparr>)
      else rbind (next_draw (draws m)) (\<lambda>(k, ds). Inr (m\<lparr>interrupt := pick_int k (intfreq m) + 1, draws := ds\<rparr>)))"

definition run_start :: "cpu \<Rightarrow> proclist \<Rightarrow> int \<Rightarrow> bool \<Rightarrow> draw list \<Rightarrow> machine res" where
  "run_start c ps freq rand ds =
     (let m = \<lparr>proc = c, procs = ps, icount = 0, interrupt = 1,
               intfreq = (if manual ps then 1 else freq), intrand = (if manual ps then False else rand),
               draws = ds, out = []\<rparr> in
      rbind (setint m) (\<lambda>m. rbind (print_headers m) print_trace))"

datatype outcome = Running machine | Finished nat machine

text \<open>A switch: to the next live process, with the registers it saved.\<close>

definition switch :: "machine \<Rightarrow> machine res" where
  "switch m =
     rbind (next_proc (procs m)) (\<lambda>ps.
     rbind (proc_restore (proc m) ps) (\<lambda>c. Inr (m\<lparr>proc := c, procs := ps\<rparr>)))"

definition headers_due :: "machine \<Rightarrow> machine res" where
  "headers_due m =
     (if headercount (proc m) > 0 \<and> int (icount m) mod headercount (proc m) = 0 \<and> icount m > 0 then
        rbind (print_headers m) print_trace
      else Inr m)"

text \<open>Fetch and execute one instruction of the current process; the result code comes with the machine.\<close>

definition execute :: "machine \<Rightarrow> (int \<times> machine) res" where
  "execute m =
     rbind (current (procs m)) (\<lambda>p.
     let c = proc m; prevPC = PC c in
     case memory c prevPC of
       None \<Rightarrow> Inl KeyError
     | Some (Num v) \<Rightarrow> Inl TypeError
     | Some (Code i) \<Rightarrow>
         rbind (eval_instr i (c\<lparr>PC := prevPC + 1\<rparr>)) (\<lambda>(rc, c').
         rbind (print_trace (m\<lparr>proc := c'\<rparr>)) (\<lambda>m'.
         case pmemory c' prevPC of
           None \<Rightarrow> Inl KeyError
         | Some text \<Rightarrow> Inr (rc, emit (Executed (tid (plist (procs m) ! p)) prevPC text) (m'\<lparr>icount := icount m' + 1\<rparr>)))))"

definition halt_step :: "machine \<Rightarrow> outcome res" where
  "halt_step m =
     rbind (proc_done (procs m)) (\<lambda>ps.
     if numdone ps = int (length (plist ps)) then Inr (Finished (icount m) (m\<lparr>procs := ps\<rparr>))
     else
       rbind (switch (m\<lparr>procs := ps\<rparr>)) (\<lambda>m1.
       rbind (print_trace m1) (\<lambda>m2. Inr (Running (emit (Halt_Switch (length (plist ps))) m2)))))"

definition interrupt_step :: "int \<Rightarrow> machine \<Rightarrow> machine res" where
  "interrupt_step rc m0 =
     (let m = m0\<lparr>interrupt := interrupt m0 - 1\<rparr> in
      if interrupt m = 0 \<or> rc = - 2 then
        rbind (setint m) (\<lambda>m1.
        rbind (current (procs m1)) (\<lambda>old.
        rbind (proc_save (proc m1) (procs m1)) (\<lambda>ps.
        rbind (switch (m1\<lparr>procs := ps\<rparr>)) (\<lambda>m2.
        rbind (current (procs m2)) (\<lambda>new.
        if \<not> manual (procs m2) \<or> old \<noteq> new then
          rbind (print_trace m2) (\<lambda>m3. Inr (emit (Interrupt_Switch (length (plist (procs m3)))) m3))
        else Inr m2)))))
      else Inr m)"

definition run_iter :: "machine \<Rightarrow> outcome res" where
  "run_iter m =
     rbind (headers_due m) (\<lambda>m0.
     rbind (execute m0) (\<lambda>(rc, m1).
     rbind (if rc = - 1 then halt_step m1 else Inr (Running m1)) (\<lambda>o1.
     case o1 of
       Finished n m2 \<Rightarrow> Inr (Finished n m2)
     | Running m2 \<Rightarrow> rbind (interrupt_step rc m2) (\<lambda>m3. Inr (Running m3)))))"

fun run :: "nat \<Rightarrow> machine \<Rightarrow> (nat \<times> machine) res" where
  "run 0 m = Inl Out_Of_Fuel"
| "run (Suc fuel) m = rbind (run_iter m) (\<lambda>r. case r of Finished n m' \<Rightarrow> Inr (n, m') | Running m' \<Rightarrow> run fuel m')"

section \<open>The main program\<close>

record options =
  o_threads :: nat
  o_program :: "string list"
  o_intfreq :: int
  o_intrand :: bool
  o_argv :: string
  o_procsched :: string
  o_loadaddr :: int
  o_memsize :: int
  o_memtrace :: string
  o_regtrace :: string
  o_cctrace :: bool
  o_printstats :: bool
  o_headercount :: int
  o_solve :: bool

definition default_options :: options where
  "default_options = \<lparr>o_threads = 2, o_program = [], o_intfreq = 50, o_intrand = False, o_argv = [], o_procsched = [],
     o_loadaddr = 1000, o_memsize = 128, o_memtrace = [], o_regtrace = [], o_cctrace = False, o_printstats = False,
     o_headercount = - 1, o_solve = False\<rparr>"

definition check_options :: "options \<Rightarrow> string list res" where
  "check_options opt =
     rbind (zassert (o_intfreq opt > 0)) (\<lambda>_.
     let argv = py_split CHR '','' (o_argv opt) in
     rbind (zassert (length argv = o_threads opt \<or> length argv = 1)) (\<lambda>_. Inr argv))"

definition trace_list :: "string \<Rightarrow> string list" where
  "trace_list t = (if t = [] then [] else py_split CHR '','' t)"

definition start_threads :: "options \<Rightarrow> string list \<Rightarrow> proclist res" where
  "start_threads opt argv =
     rfold (\<lambda>t ps.
       rbind (process_init t (o_loadaddr opt) (o_memsize opt * 1000 - 1000 * int t)
                (if length argv > 1 then argv ! t else argv ! 0)) (\<lambda>p. Inr (addproc p ps)))
     [0..<o_threads opt] proclist_init"

definition main_start :: "options \<Rightarrow> draw list \<Rightarrow> machine res" where
  "main_start opt ds =
     rbind (check_options opt) (\<lambda>argv.
     rbind (cpu_init (o_memsize opt) (trace_list (o_memtrace opt)) (trace_list (o_regtrace opt)) (o_cctrace opt)
              (o_solve opt) (o_printstats opt) (o_headercount opt)) (\<lambda>c.
     rbind (load (o_program opt) (o_loadaddr opt) c) (\<lambda>c1.
     rbind (start_threads opt argv) (\<lambda>ps.
     rbind (finalize (o_procsched opt) c1 ps) (\<lambda>(c2, ps1).
     run_start c2 ps1 (o_intfreq opt) (o_intrand opt) ds)))))"

definition x86_main :: "nat \<Rightarrow> options \<Rightarrow> draw list \<Rightarrow> (nat \<times> machine) res" where
  "x86_main fuel opt ds = rbind (main_start opt ds) (run fuel)"

section \<open>Saving and restoring\<close>

lemma fold_set_cond:
  "fold (\<lambda>k. set_cond k (f k)) ks c = c\<lparr>conditions := (\<lambda>k. if k \<in> set ks then f k else conditions c k)\<rparr>"
  by (induction ks arbitrary: c) (auto simp: set_cond_def fun_eq_iff)

lemma fold_set_reg:
  "fold (\<lambda>r. set_reg r (f r)) rs c = c\<lparr>registers := (\<lambda>r. if r \<in> set rs then f r else registers c r)\<rparr>"
  by (induction rs arbitrary: c) (auto simp: set_reg_def fun_eq_iff)

lemma fold_save_cc:
  "fold (\<lambda>k q. q\<lparr>cc := (cc q)(k := f k)\<rparr>) ks p = p\<lparr>cc := (\<lambda>k. if k \<in> set ks then f k else cc p k)\<rparr>"
  by (induction ks arbitrary: p) (auto simp: fun_eq_iff)

lemma fold_save_regs:
  "fold (\<lambda>r q. q\<lparr>regs := (regs q)(r := f r)\<rparr>) rs p = p\<lparr>regs := (\<lambda>r. if r \<in> set rs then f r else regs p r)\<rparr>"
  by (induction rs arbitrary: p) (auto simp: fun_eq_iff)

lemma all_conditions [simp]: "k \<in> set condlist"
  by (cases k) (simp_all add: condlist_def)

lemma all_registers [simp]: "r \<in> set regnums"
  by (cases r) (simp_all add: regnums_def)

lemma process_save_eq: "process_save c p = p\<lparr>pc := PC c, cc := conditions c, regs := registers c\<rparr>"
  by (simp add: process_save_def fold_save_cc fold_save_regs)

lemma process_restore_eq: "process_restore p c = c\<lparr>PC := pc p, conditions := cc p, registers := regs p\<rparr>"
  by (simp add: process_restore_def fold_set_cond fold_set_reg)

lemma init_condition_codes_eq: "init_condition_codes c = c\<lparr>conditions := (\<lambda>_. False)\<rparr>"
  using fold_set_cond [of "\<lambda>_. False" condlist c] by (simp add: init_condition_codes_def)

section \<open>Threads\<close>

text \<open>
  The threads the process list stands for: the current thread has its context in the processor, every other
  thread has it in its process object.
\<close>

type_synonym thread_context = "int \<times> (register \<Rightarrow> int) \<times> (condition \<Rightarrow> bool)"

definition cpu_context :: "cpu \<Rightarrow> thread_context" where
  "cpu_context c = (PC c, registers c, conditions c)"

definition process_context :: "process \<Rightarrow> thread_context" where
  "process_context p = (pc p, regs p, cc p)"

definition cur_proc :: "machine \<Rightarrow> nat" where
  "cur_proc m = procsched (procs m) ! cur (procs m)"

definition thread :: "machine \<Rightarrow> nat \<Rightarrow> thread_context" where
  "thread m q = (if q = cur_proc m then cpu_context (proc m) else process_context (plist (procs m) ! q))"

definition live :: "machine \<Rightarrow> nat set" where
  "live m = {q. q < length (plist (procs m)) \<and> \<not> isdone (plist (procs m) ! q)}"

definition live_procs :: "proclist \<Rightarrow> nat set" where
  "live_procs ps = {q. q < length (plist ps) \<and> \<not> isdone (plist ps ! q)}"

text \<open>The list is in order: every process is scheduled, and the count of active processes is right.\<close>

definition sched_ok :: "proclist \<Rightarrow> bool" where
  "sched_ok ps \<longleftrightarrow> cur ps < length (procsched ps) \<and> set (procsched ps) = {..<length (plist ps)} \<and>
     active ps = int (card (live_procs ps))"

definition machine_ok :: "machine \<Rightarrow> bool" where
  "machine_ok m \<longleftrightarrow> sched_ok (procs m) \<and> cur_proc m \<in> live m"

lemma live_eq: "live m = live_procs (procs m)"
  by (simp add: live_def live_procs_def)

lemma finite_live [simp]: "finite (live_procs ps)"
  by (rule finite_subset [of _ "{..<length (plist ps)}"]) (auto simp: live_procs_def)

lemma current_ok: "sched_ok ps \<Longrightarrow> current ps = Inr (procsched ps ! cur ps) \<and> procsched ps ! cur ps < length (plist ps)"
  using nth_mem [of "cur ps" "procsched ps"] by (auto simp: current_def sched_ok_def py_get_nat simp del: nth_mem)

text \<open>\<open>next\<close> stops at the first live process after the current one, in the cyclic order of the schedule.\<close>

lemma next_loop_spec:
  assumes "\<forall>p \<in> set (procsched ps). p < length (plist ps)" "cur ps < length (procsched ps)"
    and "d < n" and "\<not> isdone (plist ps ! (procsched ps ! ((cur ps + 1 + d) mod length (procsched ps))))"
    and "\<forall>e < d. isdone (plist ps ! (procsched ps ! ((cur ps + 1 + e) mod length (procsched ps))))"
  shows "next_loop n ps = Inr (ps\<lparr>cur := (cur ps + 1 + d) mod length (procsched ps)\<rparr>)"
  using assms
proof (induction d arbitrary: n ps)
  case 0
  then obtain n' where n: "n = Suc n'" by (cases n) auto
  let ?k = "if cur ps + 1 = length (procsched ps) then 0 else cur ps + 1"
  have k: "?k = (cur ps + 1) mod length (procsched ps)" "?k < length (procsched ps)" using "0.prems"(2) by auto
  then have "procsched ps ! ?k < length (plist ps)" using "0.prems"(1) nth_mem by blast
  then show ?case using n k "0.prems"(4) by (simp add: current_def py_get_nat Let_def del: mod_Suc)
next
  case (Suc d)
  then obtain n' where n: "n = Suc n'" by (cases n) auto
  let ?len = "length (procsched ps)"
  let ?k = "if cur ps + 1 = ?len then 0 else cur ps + 1"
  let ?q = "ps\<lparr>cur := ?k\<rparr>"
  have k: "?k = (cur ps + 1) mod ?len" "?k < ?len" using Suc.prems(2) by auto
  then have lt: "procsched ps ! ?k < length (plist ps)" using Suc.prems(1) nth_mem by blast
  have done0: "isdone (plist ps ! (procsched ps ! ?k))" using Suc.prems(5) k(1) by (metis add.right_neutral zero_less_Suc)
  have sh: "(cur ?q + 1 + e) mod ?len = (cur ps + 1 + Suc e) mod ?len" for e
    using k(1) by (simp add: mod_simps) (metis Suc_eq_plus1 add.commute add_Suc mod_Suc_eq mod_add_left_eq)
  have "next_loop n' ?q = Inr (?q\<lparr>cur := (cur ?q + 1 + d) mod length (procsched ?q)\<rparr>)"
  proof (rule Suc.IH)
    show "\<forall>p\<in>set (procsched ?q). p < length (plist ?q)" "cur ?q < length (procsched ?q)" "d < n'"
      using Suc.prems n k(2) by auto
    show "\<not> isdone (plist ?q ! (procsched ?q ! ((cur ?q + 1 + d) mod length (procsched ?q))))"
      using Suc.prems(4) sh by simp
    show "\<forall>e<d. isdone (plist ?q ! (procsched ?q ! ((cur ?q + 1 + e) mod length (procsched ?q))))"
    proof (intro allI impI)
      fix e assume "e < d"
      then have "isdone (plist ps ! (procsched ps ! ((cur ps + 1 + Suc e) mod ?len)))" using Suc.prems(5) by blast
      then show "isdone (plist ?q ! (procsched ?q ! ((cur ?q + 1 + e) mod length (procsched ?q))))"
        unfolding sh [of e, symmetric] by simp
    qed
  qed
  then show ?case using n lt done0 sh [of d] k(2) by (simp add: current_def py_get_nat Let_def)
qed

lemma next_proc_spec:
  assumes ok: "sched_ok ps" and l: "live_procs ps \<noteq> {}"
  shows "\<exists>d < length (procsched ps). next_proc ps = Inr (ps\<lparr>cur := (cur ps + 1 + d) mod length (procsched ps)\<rparr>) \<and>
    procsched ps ! ((cur ps + 1 + d) mod length (procsched ps)) \<in> live_procs ps \<and>
    (\<forall>e < d. procsched ps ! ((cur ps + 1 + e) mod length (procsched ps)) \<notin> live_procs ps)"
proof -
  let ?n = "length (procsched ps)"
  let ?at = "\<lambda>e. procsched ps ! ((cur ps + 1 + e) mod ?n)"
  have c: "cur ps < ?n" "set (procsched ps) = {..<length (plist ps)}" using ok by (auto simp: sched_ok_def)
  have at: "?at e < length (plist ps)" for e
  proof -
    have "(cur ps + 1 + e) mod ?n < ?n" by (rule mod_less_divisor) (use c(1) in linarith)
    then show ?thesis using c(2) nth_mem by blast
  qed
  obtain q where q: "q \<in> live_procs ps" using l by blast
  then have "q \<in> set (procsched ps)" using c(2) by (auto simp: live_procs_def)
  then obtain i where i: "i < ?n" "procsched ps ! i = q" by (auto simp: in_set_conv_nth)
  define e where "e = (i + ?n - (cur ps + 1)) mod ?n"
  have "(cur ps + 1 + e) mod ?n = (cur ps + 1 + (i + ?n - (cur ps + 1))) mod ?n"
    unfolding e_def by (simp only: mod_add_right_eq)
  also have "cur ps + 1 + (i + ?n - (cur ps + 1)) = i + ?n" using c(1) by linarith
  also have "(i + ?n) mod ?n = i" using i(1) by simp
  finally have "?at e = q" using i(2) by simp
  moreover have "e < ?n" unfolding e_def by (rule mod_less_divisor) (use c(1) in linarith)
  ultimately have e: "e < ?n" "?at e \<in> live_procs ps" using q by simp_all
  define d where "d = (LEAST d. ?at d \<in> live_procs ps)"
  have d: "?at d \<in> live_procs ps" "d \<le> e" "\<And>f. f < d \<Longrightarrow> ?at f \<notin> live_procs ps"
    unfolding d_def
    by (rule LeastI [of "\<lambda>d. ?at d \<in> live_procs ps", OF e(2)], rule Least_le [of "\<lambda>d. ?at d \<in> live_procs ps", OF e(2)],
        erule not_less_Least [of _ "\<lambda>d. ?at d \<in> live_procs ps"])
  have "next_proc ps = Inr (ps\<lparr>cur := (cur ps + 1 + d) mod ?n\<rparr>)"
    unfolding next_proc_def
  proof (rule next_loop_spec)
    show "\<forall>p\<in>set (procsched ps). p < length (plist ps)" using c(2) by auto
    show "cur ps < ?n" "d < ?n" using c(1) d(2) e(1) by auto
    show "\<not> isdone (plist ps ! ?at d)" using d(1) by (simp add: live_procs_def)
    show "\<forall>e<d. isdone (plist ps ! ?at e)" using d(3) at by (auto simp: live_procs_def)
  qed
  then show ?thesis using d e(1) by (intro exI [of _ d]) auto
qed

text \<open>A switch keeps every thread as it is, and only changes whose turn it is.\<close>

definition same_threads :: "machine \<Rightarrow> machine \<Rightarrow> bool" where
  "same_threads m m' \<longleftrightarrow> live m' = live m \<and> memory (proc m') = memory (proc m) \<and>
     (\<forall>q \<in> live m. thread m' q = thread m q)"

lemma context_restored: "cpu_context (process_restore p c) = process_context p"
  by (simp add: cpu_context_def process_context_def process_restore_eq)

lemma switch_spec:
  assumes ok: "sched_ok (procs m)" and l: "live m \<noteq> {}"
  shows "\<exists>m'. switch m = Inr m' \<and> machine_ok m' \<and> live m' = live m \<and> memory (proc m') = memory (proc m) \<and>
    (\<forall>q \<in> live m. thread m' q = process_context (plist (procs m) ! q)) \<and>
    plist (procs m') = plist (procs m) \<and> out m' = out m \<and> icount m' = icount m \<and> interrupt m' = interrupt m"
proof -
  let ?ps = "procs m" and ?n = "length (procsched (procs m))"
  obtain d where d: "d < ?n" "next_proc ?ps = Inr (?ps\<lparr>cur := (cur ?ps + 1 + d) mod ?n\<rparr>)"
    "procsched ?ps ! ((cur ?ps + 1 + d) mod ?n) \<in> live_procs ?ps"
    using next_proc_spec [OF ok] l by (auto simp: live_eq)
  let ?ps' = "?ps\<lparr>cur := (cur ?ps + 1 + d) mod ?n\<rparr>"
  have "(cur ?ps + 1 + d) mod ?n < ?n" by (rule mod_less_divisor) (use d(1) in linarith)
  then have ok': "sched_ok ?ps'" using ok by (simp add: sched_ok_def live_procs_def)
  let ?p = "procsched ?ps ! ((cur ?ps + 1 + d) mod ?n)"
  let ?c = "process_restore (plist ?ps ! ?p) (proc m)"
  let ?m = "m\<lparr>proc := ?c, procs := ?ps'\<rparr>"
  have "switch m = Inr ?m" using d(2) current_ok [OF ok'] by (simp add: switch_def proc_restore_def)
  moreover have "live ?m = live m" by (simp add: live_def)
  moreover have "machine_ok ?m"
    using ok' d(3) by (simp add: machine_ok_def cur_proc_def live_eq) (simp add: live_procs_def)
  moreover have "memory (proc ?m) = memory (proc m)" by (simp add: process_restore_eq)
  moreover have "\<forall>q \<in> live m. thread ?m q = process_context (plist ?ps ! q)"
    using context_restored by (simp add: thread_def cur_proc_def)
  ultimately show ?thesis by (intro exI [of _ ?m]) simp
qed

section \<open>One turn of the run loop\<close>

lemma print_trace_out: "print_trace m = Inr m' \<Longrightarrow> \<exists>e. m' = emit e m"
  by (auto simp: print_trace_def Let_def rbind_eq_Inr)

lemma headers_due_out: "headers_due m = Inr m' \<Longrightarrow> \<exists>es. m' = m\<lparr>out := out m @ es\<rparr>"
proof -
  have "\<exists>es. m = m\<lparr>out := out m @ es\<rparr>" by (rule exI [of _ "[]"]) simp
  then show "headers_due m = Inr m' \<Longrightarrow> \<exists>es. m' = m\<lparr>out := out m @ es\<rparr>"
    by (auto simp: headers_due_def print_headers_def rbind_eq_Inr emit_def dest!: print_trace_out split: if_splits)
qed

lemma machine_cong:
  assumes "proc m' = proc m" "procs m' = procs m"
  shows "machine_ok m' = machine_ok m" "live m' = live m" "thread m' = thread m" "cur_proc m' = cur_proc m"
  using assms by (simp_all add: machine_ok_def live_def thread_def cur_proc_def fun_eq_iff)

lemma setint_same:
  "setint m = Inr m' \<Longrightarrow> proc m' = proc m \<and> procs m' = procs m \<and> icount m' = icount m"
  by (auto simp: setint_def rbind_eq_Inr split: if_splits)

lemma execute_spec:
  assumes "execute m = Inr (rc, m')"
  shows "\<exists>i. memory (proc m) (PC (proc m)) = Some (Code i) \<and>
    eval_instr i ((proc m)\<lparr>PC := PC (proc m) + 1\<rparr>) = Inr (rc, proc m') \<and> procs m' = procs m \<and> icount m' = icount m + 1 \<and>
    intrand m' = intrand m \<and> draws m' = draws m"
proof -
  let ?c = "proc m"
  obtain p where "current (procs m) = Inr p" using assms by (auto simp: execute_def)
  with assms obtain i where i: "memory ?c (PC ?c) = Some (Code i)"
    by (auto simp: execute_def Let_def split: option.splits cell.splits)
  with assms obtain c' m1 where e: "eval_instr i (?c\<lparr>PC := PC ?c + 1\<rparr>) = Inr (rc, c')"
    "print_trace (m\<lparr>proc := c'\<rparr>) = Inr m1" "\<exists>e. m' = emit e (m1\<lparr>icount := icount m1 + 1\<rparr>)"
    by (auto simp: execute_def Let_def rbind_eq_Inr split: option.splits)
  obtain e1 where "m1 = emit e1 (m\<lparr>proc := c'\<rparr>)" using print_trace_out [OF e(2)] by blast
  with i e(1,3) show ?thesis by (auto simp: emit_def)
qed

lemma proc_done_spec:
  assumes "machine_ok m"
  shows "\<exists>ps. proc_done (procs m) = Inr ps \<and> sched_ok ps \<and> live_procs ps = live m - {cur_proc m} \<and>
    (\<forall>q \<in> live_procs ps. plist ps ! q = plist (procs m) ! q)"
proof -
  let ?ps = "procs m" and ?p = "cur_proc m"
  have ok: "sched_ok ?ps" and lv: "?p \<in> live_procs ?ps" using assms by (auto simp: machine_ok_def live_eq)
  let ?q = "?ps\<lparr>plist := (plist ?ps)[?p := (plist ?ps ! ?p)\<lparr>isdone := True\<rparr>], active := active ?ps - 1\<rparr>"
  have "proc_done ?ps = Inr ?q" using current_ok [OF ok] by (simp add: proc_done_def cur_proc_def)
  moreover have l: "live_procs ?q = live_procs ?ps - {?p}"
  proof (rule set_eqI)
    fix x show "x \<in> live_procs ?q \<longleftrightarrow> x \<in> live_procs ?ps - {?p}"
      by (cases "x = ?p") (auto simp: live_procs_def)
  qed
  moreover have "card (live_procs ?ps) = Suc (card (live_procs ?ps - {?p}))"
    using lv by (intro card.remove) auto
  then have "sched_ok ?q" using ok l by (simp add: sched_ok_def)
  moreover have "\<forall>q \<in> live_procs ?q. plist ?q ! q = plist ?ps ! q" unfolding l by simp
  ultimately show ?thesis by (intro exI [of _ ?q]) (simp add: live_eq)
qed

lemma halt_step_spec:
  assumes ok: "machine_ok m" and h: "halt_step m = Inr r"
  shows "case r of
      Finished n m' \<Rightarrow> n = icount m \<and> live m' = {} \<and> live m = {cur_proc m} \<and> memory (proc m') = memory (proc m)
    | Running m' \<Rightarrow> machine_ok m' \<and> live m' = live m - {cur_proc m} \<and> memory (proc m') = memory (proc m) \<and>
        icount m' = icount m \<and> (\<forall>q \<in> live m'. thread m' q = thread m q)"
proof -
  obtain ps where ps: "proc_done (procs m) = Inr ps" "sched_ok ps" "live_procs ps = live m - {cur_proc m}"
    "\<forall>q \<in> live_procs ps. plist ps ! q = plist (procs m) ! q"
    using proc_done_spec [OF ok] by blast
  let ?m = "m\<lparr>procs := ps\<rparr>"
  have lm: "live ?m = live_procs ps" by (simp add: live_eq)
  have zero: "numdone ps = int (length (plist ps)) \<longleftrightarrow> live_procs ps = {}"
    using ps(2) by (auto simp: numdone_def sched_ok_def)
  show ?thesis
  proof (cases "live_procs ps = {}")
    case True
    then have "r = Finished (icount m) ?m" using h ps(1) zero by (simp add: halt_step_def)
    then show ?thesis using True ps(3) ok lm by (auto simp: machine_ok_def)
  next
    case False
    have sok: "sched_ok (procs ?m)" "live ?m \<noteq> {}" using ps(2) False lm by simp_all
    obtain m1 where m1: "switch ?m = Inr m1" "machine_ok m1" "live m1 = live ?m" "memory (proc m1) = memory (proc ?m)"
      "\<forall>q \<in> live ?m. thread m1 q = process_context (plist (procs ?m) ! q)" "icount m1 = icount m"
      using switch_spec [OF sok] by auto
    obtain m2 where pt: "print_trace m1 = Inr m2" and rr: "r = Running (emit (Halt_Switch (length (plist ps))) m2)"
      using h ps(1) zero False m1(1) by (auto simp: halt_step_def rbind_eq_Inr)
    obtain e where me: "m2 = emit e m1" using print_trace_out [OF pt] by blast
    note m2 = pt me rr
    let ?r = "emit (Halt_Switch (length (plist ps))) m2"
    have same: "proc ?r = proc m1" "procs ?r = procs m1" "icount ?r = icount m1" using m2(2) by (simp_all add: emit_def)
    have "\<forall>q \<in> live m1. thread m1 q = thread m q"
      using m1(3,5) lm ps(3,4) by (simp add: thread_def)
    then show ?thesis using m2(3) machine_cong [OF same(1,2)] same m1 lm ps(3) by simp
  qed
qed

lemma interrupt_step_cases:
  assumes "interrupt_step rc m = Inr u"
  shows "u = m\<lparr>interrupt := interrupt m - 1\<rparr> \<or>
    (\<exists>m1 ps m2 es. setint (m\<lparr>interrupt := interrupt m - 1\<rparr>) = Inr m1 \<and> proc_save (proc m1) (procs m1) = Inr ps \<and>
       switch (m1\<lparr>procs := ps\<rparr>) = Inr m2 \<and> u = m2\<lparr>out := out m2 @ es\<rparr>)"
proof (cases "interrupt m - 1 = 0 \<or> rc = - 2")
  case False
  then show ?thesis using assms by (simp add: interrupt_step_def Let_def)
next
  case True
  then obtain m1 p ps m2 q where m: "setint (m\<lparr>interrupt := interrupt m - 1\<rparr>) = Inr m1" "current (procs m1) = Inr p"
    "proc_save (proc m1) (procs m1) = Inr ps" "switch (m1\<lparr>procs := ps\<rparr>) = Inr m2" "current (procs m2) = Inr q"
    using assms by (auto simp: interrupt_step_def Let_def rbind_eq_Inr)
  have "\<exists>es. u = m2\<lparr>out := out m2 @ es\<rparr>"
  proof (cases "\<not> manual (procs m2) \<or> p \<noteq> q")
    case False
    then have "u = m2\<lparr>out := out m2 @ []\<rparr>" using assms True m by (simp add: interrupt_step_def)
    then show ?thesis by blast
  next
    case c: True
    then obtain m3 where m3: "print_trace m2 = Inr m3" "u = emit (Interrupt_Switch (length (plist (procs m3)))) m3"
      using assms True m by (auto simp: interrupt_step_def rbind_eq_Inr)
    then show ?thesis using print_trace_out [OF m3(1)] by (auto simp: emit_def)
  qed
  with m show ?thesis by blast
qed

lemma interrupt_step_spec:
  assumes ok: "machine_ok m0" and h: "interrupt_step rc m0 = Inr m'"
  shows "machine_ok m' \<and> live m' = live m0 \<and> memory (proc m') = memory (proc m0) \<and> icount m' = icount m0 \<and>
    (\<forall>q \<in> live m'. thread m' q = thread m0 q)"
proof -
  let ?m = "m0\<lparr>interrupt := interrupt m0 - 1\<rparr>"
  show ?thesis
  proof (cases "interrupt ?m = 0 \<or> rc = - 2")
    case False
    then have "m' = ?m" using h by (simp add: interrupt_step_def Let_def)
    then show ?thesis using ok machine_cong [of ?m m0] by simp
  next
    case True
    then obtain m1 where m1: "setint ?m = Inr m1" using h by (auto simp: interrupt_step_def Let_def)
    then have s1: "proc m1 = proc m0" "procs m1 = procs m0" "icount m1 = icount m0" using setint_same by fastforce+
    have ok1: "sched_ok (procs m0)" "cur_proc m0 \<in> live m0" using ok by (auto simp: machine_ok_def)
    let ?p = "cur_proc m0"
    let ?ps = "(procs m0)\<lparr>plist := (plist (procs m0))[?p := process_save (proc m0) (plist (procs m0) ! ?p)]\<rparr>"
    have cu: "current (procs m0) = Inr ?p" "?p < length (plist (procs m0))"
      using current_ok [OF ok1(1)] by (simp_all add: cur_proc_def)
    then have sv: "proc_save (proc m1) (procs m1) = Inr ?ps" by (simp add: proc_save_def s1)
    let ?m1 = "m1\<lparr>procs := ?ps\<rparr>"
    have lp: "live_procs ?ps = live_procs (procs m0)"
    proof (rule set_eqI)
      fix x show "x \<in> live_procs ?ps \<longleftrightarrow> x \<in> live_procs (procs m0)"
        by (cases "x = ?p") (auto simp: live_procs_def process_save_eq)
    qed
    then have l1: "live ?m1 = live m0" by (simp add: live_eq)
    have sok: "sched_ok (procs ?m1)" "live ?m1 \<noteq> {}" using ok1 lp l1 by (auto simp: sched_ok_def)
    obtain m2 where m2: "switch ?m1 = Inr m2" "machine_ok m2" "live m2 = live ?m1" "memory (proc m2) = memory (proc ?m1)"
      "\<forall>q \<in> live ?m1. thread m2 q = process_context (plist (procs ?m1) ! q)" "icount m2 = icount ?m1"
      using switch_spec [OF sok] by auto
    have "\<exists>es. m' = m2\<lparr>out := out m2 @ es\<rparr>"
      using h True m1 cu sv m2(1) s1
      by (auto simp: interrupt_step_def Let_def rbind_eq_Inr emit_def split: if_splits dest!: print_trace_out
          intro: exI [of _ "[]"])
    then have same: "proc m' = proc m2" "procs m' = procs m2" "icount m' = icount m2" by auto
    have "\<forall>q \<in> live m0. thread m2 q = thread m0 q"
      using m2(5) l1 cu(2)
      by (simp add: thread_def nth_list_update process_save_eq process_context_def cpu_context_def)
    then show ?thesis using machine_cong [OF same(1,2)] same m2 l1 s1 by simp
  qed
qed

lemma run_iter_spec:
  assumes ok: "machine_ok m" and r: "run_iter m = Inr r"
  shows "\<exists>i rc c'. memory (proc m) (PC (proc m)) = Some (Code i) \<and>
    eval_instr i ((proc m)\<lparr>PC := PC (proc m) + 1\<rparr>) = Inr (rc, c') \<and>
    (case r of
       Finished n m' \<Rightarrow> rc = - 1 \<and> n = icount m + 1 \<and> live m = {cur_proc m} \<and> live m' = {} \<and> memory (proc m') = memory c'
     | Running m' \<Rightarrow> machine_ok m' \<and> live m' = (if rc = - 1 then live m - {cur_proc m} else live m) \<and>
         memory (proc m') = memory c' \<and> icount m' = icount m + 1 \<and>
         (\<forall>q \<in> live m'. thread m' q = (if q = cur_proc m then cpu_context c' else thread m q)))"
proof -
  obtain m0 rc m1 where m: "headers_due m = Inr m0" "execute m0 = Inr (rc, m1)"
    using r by (auto simp: run_iter_def rbind_eq_Inr)
  have s0: "proc m0 = proc m" "procs m0 = procs m" "icount m0 = icount m" using headers_due_out [OF m(1)] by auto
  have ok0: "machine_ok m0" using machine_cong(1) [OF s0(1,2)] ok by simp
  obtain i where i: "memory (proc m) (PC (proc m)) = Some (Code i)"
    "eval_instr i ((proc m)\<lparr>PC := PC (proc m) + 1\<rparr>) = Inr (rc, proc m1)" "procs m1 = procs m" "icount m1 = icount m + 1"
    using execute_spec [OF m(2)] s0 by auto
  have ok1: "machine_ok m1" and c1: "cur_proc m1 = cur_proc m" and l1: "live m1 = live m"
    using ok i(3) by (auto simp: machine_ok_def live_def cur_proc_def)
  have t1: "thread m1 q = (if q = cur_proc m then cpu_context (proc m1) else thread m q)" for q
    using i(3) c1 by (simp add: thread_def)
  show ?thesis
  proof (intro exI conjI)
    show "case r of
       Finished n m' \<Rightarrow> rc = - 1 \<and> n = icount m + 1 \<and> live m = {cur_proc m} \<and> live m' = {} \<and> memory (proc m') = memory (proc m1)
     | Running m' \<Rightarrow> machine_ok m' \<and> live m' = (if rc = - 1 then live m - {cur_proc m} else live m) \<and>
         memory (proc m') = memory (proc m1) \<and> icount m' = icount m + 1 \<and>
         (\<forall>q \<in> live m'. thread m' q = (if q = cur_proc m then cpu_context (proc m1) else thread m q))"
    proof (cases "rc = - 1")
      case False
      then obtain m' where "r = Running m'" "interrupt_step rc m1 = Inr m'"
        using r m by (auto simp: run_iter_def rbind_eq_Inr)
      then show ?thesis using interrupt_step_spec [OF ok1] t1 l1 i(4) False by simp
    next
      case True
      then obtain o1 where o1: "halt_step m1 = Inr o1" using r m by (auto simp: run_iter_def rbind_eq_Inr)
      show ?thesis
      proof (cases o1)
        case (Finished n m2)
        then have "r = Finished n m2" using r m o1 True by (simp add: run_iter_def)
        then show ?thesis using halt_step_spec [OF ok1 o1] Finished True i(4) l1 c1 by simp
      next
        case (Running m2)
        then obtain m' where m': "r = Running m'" "interrupt_step rc m2 = Inr m'"
          using r m o1 True by (auto simp: run_iter_def rbind_eq_Inr)
        have h: "machine_ok m2" "live m2 = live m - {cur_proc m}" "memory (proc m2) = memory (proc m1)"
          "icount m2 = icount m + 1" "\<forall>q \<in> live m2. thread m2 q = thread m1 q"
          using halt_step_spec [OF ok1 o1] Running l1 c1 i(4) by auto
        then show ?thesis using m'(1) interrupt_step_spec [OF h(1) m'(2)] t1 True by auto
      qed
    qed
  qed (use i in auto)
qed

section \<open>The run as an interleaving of threads\<close>

text \<open>
  The abstract machine: threads with contexts of their own over a shared memory. \<open>b\<close> fixes what no
  instruction changes. A thread that halts leaves the set of live threads.
\<close>

type_synonym threads = "(int \<Rightarrow> cell option) \<times> (nat \<Rightarrow> thread_context) \<times> nat set"

definition load_context :: "cpu \<Rightarrow> (int \<Rightarrow> cell option) \<Rightarrow> thread_context \<Rightarrow> cpu" where
  "load_context b mem t = (case t of (p, r, k) \<Rightarrow> b\<lparr>PC := p, registers := r, conditions := k, memory := mem\<rparr>)"

inductive thread_step :: "cpu \<Rightarrow> nat \<Rightarrow> threads \<Rightarrow> threads \<Rightarrow> bool" for b where
  thread_step:
  "q \<in> L \<Longrightarrow> T q = (p, r, k) \<Longrightarrow> mem p = Some (Code i) \<Longrightarrow>
   eval_instr i (load_context b mem (p + 1, r, k)) = Inr (rc, c) \<Longrightarrow>
   thread_step b q (mem, T, L) (memory c, T(q := cpu_context c), if rc = - 1 then L - {q} else L)"

inductive thread_steps :: "cpu \<Rightarrow> nat list \<Rightarrow> threads \<Rightarrow> threads \<Rightarrow> bool" for b where
  none: "thread_steps b [] S S"
| more: "thread_step b q S S' \<Longrightarrow> thread_steps b qs S' S'' \<Longrightarrow> thread_steps b (q # qs) S S''"

inductive_cases thread_stepE: "thread_step b q S S'"
inductive_simps thread_steps_simps: "thread_steps b [] S S'" "thread_steps b (q # qs) S S'"

text \<open>No instruction touches more than the context and the memory.\<close>

definition based :: "cpu \<Rightarrow> cpu \<Rightarrow> bool" where
  "based b c \<longleftrightarrow> c = load_context b (memory c) (cpu_context c)"

lemma based_updates [simp]:
  "based b (set_reg r v c) = based b c" "based b (set_mem a v c) = based b c" "based b (c\<lparr>PC := p\<rparr>) = based b c"
  "based b (set_cond k w c) = based b c"
  "based b (c\<lparr>conditions := f\<rparr>) = based b c"
  by (cases b; cases c; simp add: based_def load_context_def cpu_context_def set_reg_def set_mem_def set_cond_def)+

lemma based_restore [simp]: "based b (process_restore p c) = based b c"
  by (cases b; cases c; simp add: based_def load_context_def cpu_context_def process_restore_eq)

lemmas instr_defs = mdump_def move_i_to_r_def move_i_to_m_def move_m_to_r_def move_r_to_m_def move_r_to_r_def
  lea_m_to_r_def add_i_to_r_def add_r_to_r_def mul_i_to_r_def mul_r_to_r_def sub_i_to_r_def sub_r_to_r_def neg_r_def
  atomic_exchange_def fetchadd_def test_i_r_def test_r_i_def test_r_r_def jump_def jump_if_def call_def ret_def
  push_r_def push_m_def pop_def pop_r_def

lemma test_all_eq:
  "test_all src dst c = Inr (c\<lparr>conditions := (\<lambda>k. case k of COND_GT \<Rightarrow> dst > src | COND_GTE \<Rightarrow> dst \<ge> src
     | COND_LT \<Rightarrow> dst < src | COND_LTE \<Rightarrow> dst \<le> src | COND_EQ \<Rightarrow> dst = src | COND_NEQ \<Rightarrow> dst \<noteq> src)\<rparr>)"
  by (auto simp: test_all_def Let_def init_condition_codes_eq set_cond_def fun_eq_iff split: condition.split)

lemma based_eval: "eval_instr i c = Inr (rc, c') \<Longrightarrow> based b c \<Longrightarrow> based b c'"
  by (cases i) (auto simp: eval_instr_def instr_defs Let_def rbind_eq_Inr test_all_eq init_condition_codes_eq
      split: option.splits sum.splits if_splits)

definition simulates :: "machine \<Rightarrow> threads \<Rightarrow> bool" where
  "simulates m S \<longleftrightarrow> (case S of (mem, T, L) \<Rightarrow>
     mem = memory (proc m) \<and> L = live m \<and> (\<forall>q \<in> L. T q = thread m q))"

lemma load_context_based:
  assumes "based b c"
  shows "load_context b (memory c) (p, registers c, conditions c) = c\<lparr>PC := p\<rparr>"
proof -
  have "c = b\<lparr>PC := PC c, registers := registers c, conditions := conditions c, memory := memory c\<rparr>"
    using assms unfolding based_def load_context_def cpu_context_def by simp
  then have "c\<lparr>PC := p\<rparr> = (b\<lparr>PC := PC c, registers := registers c, conditions := conditions c, memory := memory c\<rparr>)\<lparr>PC := p\<rparr>"
    by metis
  then show ?thesis by (simp add: load_context_def)
qed

lemma based_run_iter:
  assumes "run_iter m = Inr r" "based b (proc m)"
  shows "case r of Finished n m' \<Rightarrow> True | Running m' \<Rightarrow> based b (proc m')"
proof -
  obtain m0 rc m1 where m: "headers_due m = Inr m0" "execute m0 = Inr (rc, m1)"
    using assms(1) by (auto simp: run_iter_def rbind_eq_Inr)
  have b0: "based b (proc m0)" using headers_due_out [OF m(1)] assms(2) by auto
  obtain i where e: "eval_instr i ((proc m0)\<lparr>PC := PC (proc m0) + 1\<rparr>) = Inr (rc, proc m1)"
    using execute_spec [OF m(2)] by blast
  have b1: "based b (proc m1)" using based_eval [OF e] b0 by simp
  have sw: "based b (proc u)" if "switch t = Inr u" "based b (proc t)" for t u
    using that unfolding switch_def proc_restore_def by (auto simp: rbind_eq_Inr)
  have pt: "proc u = proc t" if "print_trace t = Inr u" for t u
    using print_trace_out [OF that] by (auto simp: emit_def)
  have int: "based b (proc u)" if "interrupt_step rc t = Inr u" "based b (proc t)" for t u
    using interrupt_step_cases [OF that(1)]
  proof (elim disjE exE conjE)
    assume "u = t\<lparr>interrupt := interrupt t - 1\<rparr>"
    then show ?thesis using that(2) by simp
  next
    fix m1 ps m2 es assume u: "setint (t\<lparr>interrupt := interrupt t - 1\<rparr>) = Inr m1"
      "switch (m1\<lparr>procs := ps\<rparr>) = Inr m2" "u = m2\<lparr>out := out m2 @ es\<rparr>"
    have "based b (proc m1)" using setint_same [OF u(1)] that(2) by simp
    then show ?thesis using sw [OF u(2)] u(3) by simp
  qed
  have hs: "case o1 of Finished n t' \<Rightarrow> True | Running t' \<Rightarrow> based b (proc t')"
    if ht: "halt_step t = Inr o1" "based b (proc t)" for t o1
  proof -
    obtain ps where ps: "proc_done (procs t) = Inr ps" using ht(1) by (auto simp: halt_step_def rbind_eq_Inr)
    show ?thesis
    proof (cases "numdone ps = int (length (plist ps))")
      case True
      then show ?thesis using ht(1) ps by (auto simp: halt_step_def)
    next
      case False
      then obtain m1 m2 where u: "switch (t\<lparr>procs := ps\<rparr>) = Inr m1" "print_trace m1 = Inr m2"
        "o1 = Running (emit (Halt_Switch (length (plist ps))) m2)"
        using ht(1) ps by (auto simp: halt_step_def rbind_eq_Inr)
      then show ?thesis using sw [OF u(1)] pt [OF u(2)] ht(2) by (simp add: emit_def)
    qed
  qed
  obtain o1 where o1: "(if rc = - 1 then halt_step m1 else Inr (Running m1)) = Inr o1"
    "(case o1 of Finished n m2 \<Rightarrow> Inr (Finished n m2) | Running m2 \<Rightarrow> rbind (interrupt_step rc m2) (\<lambda>m3. Inr (Running m3))) = Inr r"
    using assms(1) m by (auto simp: run_iter_def rbind_eq_Inr)
  have "case o1 of Finished n t' \<Rightarrow> True | Running t' \<Rightarrow> based b (proc t')"
    using o1(1) hs b1 by (auto split: if_splits)
  then show ?thesis using o1(2) int by (cases o1) (auto simp: rbind_eq_Inr)
qed

lemma run_iter_simulates:
  assumes ok: "machine_ok m" and b: "based b (proc m)" and sim: "simulates m S" and r: "run_iter m = Inr r"
  shows "\<exists>S'. thread_step b (cur_proc m) S S' \<and>
    (case r of Finished n m' \<Rightarrow> n = icount m + 1 \<and> fst S' = memory (proc m') \<and> snd (snd S') = {}
     | Running m' \<Rightarrow> machine_ok m' \<and> simulates m' S' \<and> icount m' = icount m + 1)"
proof -
  obtain i rc c' where i: "memory (proc m) (PC (proc m)) = Some (Code i)"
    "eval_instr i ((proc m)\<lparr>PC := PC (proc m) + 1\<rparr>) = Inr (rc, c')"
    "case r of
       Finished n m' \<Rightarrow> rc = - 1 \<and> n = icount m + 1 \<and> live m = {cur_proc m} \<and> live m' = {} \<and> memory (proc m') = memory c'
     | Running m' \<Rightarrow> machine_ok m' \<and> live m' = (if rc = - 1 then live m - {cur_proc m} else live m) \<and>
         memory (proc m') = memory c' \<and> icount m' = icount m + 1 \<and>
         (\<forall>q \<in> live m'. thread m' q = (if q = cur_proc m then cpu_context c' else thread m q))"
    using run_iter_spec [OF ok r] by blast
  let ?q = "cur_proc m"
  obtain T where S: "S = (memory (proc m), T, live m)" "\<forall>q \<in> live m. T q = thread m q"
    using sim by (auto simp: simulates_def)
  have q: "?q \<in> live m" using ok by (simp add: machine_ok_def)
  have t: "T ?q = (PC (proc m), registers (proc m), conditions (proc m))"
    using S(2) q by (simp add: thread_def cpu_context_def)
  let ?S' = "(memory c', T(?q := cpu_context c'), if rc = - 1 then live m - {?q} else live m)"
  have "thread_step b ?q S ?S'"
    unfolding S(1)
    using thread_step.intros [of ?q "live m" T "PC (proc m)" "registers (proc m)" "conditions (proc m)"
        "memory (proc m)" i b rc c'] q t i(1,2) load_context_based [OF b] by simp
  then show ?thesis
  proof (intro exI [of _ ?S'] conjI)
    show "case r of Finished n m' \<Rightarrow> n = icount m + 1 \<and> fst ?S' = memory (proc m') \<and> snd (snd ?S') = {}
     | Running m' \<Rightarrow> machine_ok m' \<and> simulates m' ?S' \<and> icount m' = icount m + 1"
      using i(3) S(2) by (cases r) (auto simp: simulates_def split: if_splits)
  qed
qed

section \<open>Start-up\<close>

text \<open>\<open>int\<close> of one character is a digit's value: a sign or a space alone is not a number.\<close>

lemma py_int_single: "py_int [x] = Inr v \<Longrightarrow> 0 \<le> v"
proof -
  assume a: "py_int [x] = Inr v"
  have "strip [x] = (if is_space x then [] else [x])" by (simp add: strip_def lstrip_def rstrip_def)
  then show ?thesis using a
    by (auto simp: py_int_def Let_def nat_text_def isdigit_def rbind_eq_Inr split: if_splits)
qed

lemma process_init_spec:
  "process_init t a b r = Inr p \<Longrightarrow> tid p = t \<and> pc p = a \<and> \<not> isdone p \<and> cc p = (\<lambda>_. False) \<and> regs p REG_SP = b"
  by (auto simp: process_init_def rbind_eq_Inr split: if_splits)

lemma start_threads_spec:
  assumes "rfold (\<lambda>t ps. rbind (process_init t a (stk - 1000 * int t) (arg t)) (\<lambda>p. Inr (addproc p ps))) [0..<n] proclist_init = Inr ps"
  shows "length (plist ps) = n \<and> active ps = int n \<and> procsched ps = [] \<and> \<not> manual ps \<and>
    (\<forall>t < n. tid (plist ps ! t) = t \<and> pc (plist ps ! t) = a \<and> \<not> isdone (plist ps ! t) \<and> cc (plist ps ! t) = (\<lambda>_. False) \<and>
       regs (plist ps ! t) REG_SP = stk - 1000 * int t)"
  using assms
proof (induction n arbitrary: ps)
  case 0
  then show ?case by (auto simp: proclist_init_def)
next
  case (Suc n)
  let ?f = "\<lambda>t ps. rbind (process_init t a (stk - 1000 * int t) (arg t)) (\<lambda>p. Inr (addproc p ps))"
  have "rbind (rfold ?f [0..<n] proclist_init) (rfold ?f [n]) = Inr ps"
    using Suc.prems by (simp add: rfold_append)
  then obtain qs where qs: "rfold ?f [0..<n] proclist_init = Inr qs" "rfold ?f [n] qs = Inr ps" by auto
  obtain p where p: "process_init n a (stk - 1000 * int n) (arg n) = Inr p" "ps = addproc p qs"
    using qs(2) by (auto simp: rbind_eq_Inr)
  have IH: "length (plist qs) = n" "active qs = int n" "procsched qs = []" "\<not> manual qs"
    "\<forall>t < n. tid (plist qs ! t) = t \<and> pc (plist qs ! t) = a \<and> \<not> isdone (plist qs ! t) \<and> cc (plist qs ! t) = (\<lambda>_. False) \<and>
       regs (plist qs ! t) REG_SP = stk - 1000 * int t"
    using Suc.IH [OF qs(1)] by simp_all
  show ?case
    using IH p(2) process_init_spec [OF p(1)] by (auto simp: addproc_def nth_append less_Suc_eq)
qed

lemma finalize_spec:
  assumes f: "finalize sched c ps = Inr (c', qs)" and ps: "procsched ps = []" "active ps = int (length (plist ps))"
    and live: "live_procs ps = {..<length (plist ps)}"
  shows "sched_ok qs \<and> plist qs = plist ps \<and> c' = process_restore (plist ps ! (procsched qs ! cur qs)) c"
proof -
  obtain q where q: "(if sched = [] then Inr (ps\<lparr>procsched := procsched ps @ [0..<length (plist ps)], cur := 0\<rparr>)
            else
              rbind (rfold (\<lambda>x q.
                 rbind (py_int [x]) (\<lambda>p.
                 if p \<ge> int (length (plist q)) then Inl (SystemExit 1)
                 else Inr (q\<lparr>procsched := procsched q @ [nat p]\<rparr>))) sched (ps\<lparr>manual := True\<rparr>)) (\<lambda>q.
              if int (card (set (procsched q))) \<noteq> active q then Inl (SystemExit 1)
              else Inr (q\<lparr>cur := 0\<rparr>))) = Inr q" "proc_restore c q = Inr c'" "qs = q"
    using f unfolding finalize_def by (auto simp only: rbind_eq_Inr sum.inject prod.inject)
  have cq: "current q = Inr (procsched q ! cur q)" "c' = process_restore (plist q ! (procsched q ! cur q)) c"
    using q(2) by (auto simp: proc_restore_def current_def rbind_eq_Inr py_get_nat split: if_splits)
  have len: "cur q < length (procsched q)"
    using cq(1) by (auto simp: current_def rbind_eq_Inr py_get_nat split: if_splits)
  have "set (procsched q) = {..<length (plist ps)} \<and> plist q = plist ps \<and> active q = active ps \<and> cur q = 0"
  proof (cases "sched = []")
    case True
    then show ?thesis using q(1) ps(1) by (auto simp: atLeast0LessThan)
  next
    case False
    let ?g = "\<lambda>x q. rbind (py_int [x]) (\<lambda>p. if p \<ge> int (length (plist q)) then Inl (SystemExit 1)
                 else Inr (q\<lparr>procsched := procsched q @ [nat p]\<rparr>))"
    obtain r where r: "rfold ?g sched (ps\<lparr>manual := True\<rparr>) = Inr r" "int (card (set (procsched r))) = active r"
      "q = r\<lparr>cur := 0\<rparr>" using q(1) False by (auto simp: rbind_eq_Inr split: if_splits)
    let ?P = "\<lambda>r. plist r = plist ps \<and> active r = active ps \<and> set (procsched r) \<subseteq> {..<length (plist ps)}"
    have P: "?P r"
    proof (rule rfold_inv [where P = ?P, OF _ _ r(1)])
      show "?P (ps\<lparr>manual := True\<rparr>)" using ps by simp
    next
      fix x s s' assume x: "?P s" "?g x s = Inr s'"
      then obtain v where v: "py_int [x] = Inr v" "\<not> v \<ge> int (length (plist s))" "s' = s\<lparr>procsched := procsched s @ [nat v]\<rparr>"
        by (auto simp: rbind_eq_Inr split: if_splits)
      have "0 \<le> v" using py_int_single [OF v(1)] .
      then show "?P s'" using x(1) v by auto
    qed
    then have "card (set (procsched r)) = card {..<length (plist ps)}" using r(2) ps(2) by simp
    then have "set (procsched r) = {..<length (plist ps)}" using P by (intro card_subset_eq) auto
    then show ?thesis using P r(3) by simp
  qed
  moreover from this have "live_procs q = {..<length (plist ps)}" using live by (simp add: live_procs_def)
  ultimately show ?thesis using q(3) cq len ps(2) by (simp add: sched_ok_def)
qed

section \<open>What the loader builds\<close>

text \<open>The text of a line without its comment, and the lines that hold an instruction.\<close>

definition line_text :: "string \<Rightarrow> string" where
  "line_text line = (case clean_line line of Inl _ \<Rightarrow> [] | Inr t \<Rightarrow> t)"

definition is_code :: "string \<Rightarrow> bool" where
  "is_code t \<longleftrightarrow> py_words t \<noteq> [] \<and> hd t \<noteq> CHR ''.''"

definition code_lines :: "string list \<Rightarrow> string list" where
  "code_lines file = filter is_code (map line_text file)"

text \<open>The label a line declares.\<close>

definition label_of :: "string \<Rightarrow> string option" where
  "label_of line =
     (case py_words (line_text line) of
        [] \<Rightarrow> None
      | w # ws \<Rightarrow> if w \<noteq> ''.var'' \<and> hd w = CHR ''.'' then Some w else None)"

lemma code_lines_simps [simp]:
  "code_lines [] = []" "code_lines (l # ls) = (if is_code (line_text l) then line_text l # code_lines ls else code_lines ls)"
  "code_lines (ls @ ks) = code_lines ls @ code_lines ks"
  by (simp_all add: code_lines_def)

lemma words_hd: "py_words s \<noteq> [] \<Longrightarrow> hd (py_words s) = takeWhile (\<lambda>c. \<not> is_space c) (dropWhile is_space s) \<and> dropWhile is_space s \<noteq> []"
  by (auto simp: py_words.simps [of s] Let_def split: if_splits)

lemma dot_word: "py_words s \<noteq> [] \<Longrightarrow> hd s = CHR ''.'' \<Longrightarrow> hd (hd (py_words s)) = CHR ''.''"
  using words_hd [of s] by (cases s) (auto simp: is_space_def)

lemma split_first_hd: "py_words s \<noteq> [] \<Longrightarrow> split_first s ! 0 = hd (py_words s)"
proof -
  assume a: "py_words s \<noteq> []"
  then have "dropWhile is_space s \<noteq> []" using words_hd by blast
  then show ?thesis using words_hd [OF a] unfolding split_first_def Let_def by (simp only: if_False nth_Cons_0)
qed

text \<open>A word that starts with a period is no opcode, so an indented label is refused in the second pass.\<close>

lemma no_dot_opcode: "hd w = CHR ''.'' \<Longrightarrow> map_of opcodes w = None"
  by (cases w) (auto simp: opcodes_def)

lemma getarg_cong: "vars c = vars c' \<Longrightarrow> getarg c t = getarg c' t"
  by (simp only: getarg_def)

lemma two_args_cong: "labels c = labels c' \<Longrightarrow> vars c = vars c' \<Longrightarrow> two_args c t = two_args c' t"
  using getarg_cong [of c c'] by (simp add: two_args_def)

lemma parse_instr_cong: "labels c = labels c' \<Longrightarrow> vars c = vars c' \<Longrightarrow> parse_instr c t = parse_instr c' t"
proof -
  assume a: "labels c = labels c'" "vars c = vars c'"
  have g: "getarg c = getarg c'" using getarg_cong [OF a(2)] by (rule ext)
  have "f c u = f c' u" if "map_of opcodes w = Some f" for w f u
  proof -
    have "(w, f) \<in> set opcodes" using that by (rule map_of_SomeD)
    then show ?thesis
      using a g two_args_cong [OF a]
      by (auto simp: opcodes_def parse_mov_def parse_lea_def parse_neg_def parse_pop_def parse_push_def parse_call_def
          parse_ret_def parse_mul_def parse_add_def parse_sub_def parse_fetchadd_def parse_xchg_def parse_test_def parse_jump_def
          cong: operand.case_cong)
  qed
  then show ?thesis by (simp add: parse_instr_def Let_def split: option.split)
qed

definition dotted_ok :: "string \<Rightarrow> bool" where
  "dotted_ok t \<longleftrightarrow> (py_words t \<noteq> [] \<and> hd (hd (py_words t)) = CHR ''.'' \<longrightarrow> hd t = CHR ''.'')"

lemma second_pass_step:
  assumes "second_pass l (c, ad) = Inr (c2, pc2)"
  shows "dotted_ok (line_text l) \<and>
    (if is_code (line_text l) then \<exists>i. parse_instr c (line_text l) = Inr i \<and> pc2 = ad + 1 \<and>
        c2 = c\<lparr>pmemory := (pmemory c)(ad \<mapsto> strip (line_text l)), memory := (memory c)(ad \<mapsto> Code i)\<rparr>
     else c2 = c \<and> pc2 = ad)"
proof -
  obtain t where t: "clean_line l = Inr t" "line_text l = t" using assms by (auto simp: second_pass_def line_text_def)
  show ?thesis
  proof (cases "is_code t")
    case False
    then show ?thesis using assms t by (auto simp: second_pass_def is_code_def dotted_ok_def Let_def split: if_splits)
  next
    case True
    then obtain i where i: "parse_instr c t = Inr i" "pc2 = ad + 1"
      "c2 = c\<lparr>pmemory := (pmemory c)(ad \<mapsto> strip t), memory := (memory c)(ad \<mapsto> Code i)\<rparr>"
      using assms t by (auto simp: second_pass_def is_code_def Let_def rbind_eq_Inr)
    have "hd (hd (py_words t)) \<noteq> CHR ''.''"
      using i(1) no_dot_opcode [of "hd (py_words t)"] split_first_hd [of t] True
      by (auto simp: parse_instr_def Let_def is_code_def)
    then show ?thesis using True i t(2) by (simp add: dotted_ok_def)
  qed
qed

lemma second_pass_spec:
  "rfold second_pass fl (c, ad) = Inr (c2, pc2) \<Longrightarrow>
   pc2 = ad + int (length (code_lines fl)) \<and> labels c2 = labels c \<and> vars c2 = vars c \<and>
   (\<forall>l \<in> set fl. dotted_ok (line_text l)) \<and>
   (\<forall>i < length (code_lines fl). \<exists>ins. parse_instr c (code_lines fl ! i) = Inr ins \<and>
      memory c2 (ad + int i) = Some (Code ins) \<and> pmemory c2 (ad + int i) = Some (strip (code_lines fl ! i))) \<and>
   (\<forall>x. x < ad \<or> ad + int (length (code_lines fl)) \<le> x \<longrightarrow> memory c2 x = memory c x \<and> pmemory c2 x = pmemory c x)"
proof (induction fl arbitrary: c ad)
  case (Cons l fl)
  obtain c1 pc1 where s: "second_pass l (c, ad) = Inr (c1, pc1)" "rfold second_pass fl (c1, pc1) = Inr (c2, pc2)"
    using Cons.prems by (auto simp: rbind_eq_Inr)
  have st: "dotted_ok (line_text l)" using second_pass_step [OF s(1)] by blast
  show ?case
  proof (cases "is_code (line_text l)")
    case False
    then have "c1 = c" "pc1 = ad" using second_pass_step [OF s(1)] by auto
    then show ?thesis using Cons.IH [of c ad] s(2) st False by simp
  next
    case True
    then obtain i where i: "parse_instr c (line_text l) = Inr i" "pc1 = ad + 1"
      "c1 = c\<lparr>pmemory := (pmemory c)(ad \<mapsto> strip (line_text l)), memory := (memory c)(ad \<mapsto> Code i)\<rparr>"
      using second_pass_step [OF s(1)] by auto
    have same: "parse_instr c1 t = parse_instr c t" for t by (rule parse_instr_cong) (simp_all add: i(3))
    have IH: "pc2 = pc1 + int (length (code_lines fl))" "labels c2 = labels c1" "vars c2 = vars c1"
      "\<forall>l \<in> set fl. dotted_ok (line_text l)"
      "\<And>k. k < length (code_lines fl) \<Longrightarrow> \<exists>ins. parse_instr c1 (code_lines fl ! k) = Inr ins \<and>
        memory c2 (pc1 + int k) = Some (Code ins) \<and> pmemory c2 (pc1 + int k) = Some (strip (code_lines fl ! k))"
      "\<And>x. x < pc1 \<or> pc1 + int (length (code_lines fl)) \<le> x \<Longrightarrow> memory c2 x = memory c1 x \<and> pmemory c2 x = pmemory c1 x"
      using Cons.IH [OF s(2)] by auto
    have "\<exists>ins. parse_instr c (code_lines (l # fl) ! k) = Inr ins \<and>
        memory c2 (ad + int k) = Some (Code ins) \<and> pmemory c2 (ad + int k) = Some (strip (code_lines (l # fl) ! k))"
      if "k < length (code_lines (l # fl))" for k
    proof (cases k)
      case 0
      then show ?thesis using True i IH(6) [of ad] by simp
    next
      case (Suc k')
      then show ?thesis using that True i(2) IH(5) [of k'] same by (simp add: ac_simps)
    qed
    moreover have "memory c2 x = memory c x \<and> pmemory c2 x = pmemory c x"
      if "x < ad \<or> ad + int (length (code_lines (l # fl))) \<le> x" for x
      using IH(6) [of x] that True i(2,3) by auto
    ultimately show ?thesis using IH(1-4) st True i(2,3) by simp
  qed
qed simp

lemma first_pass_step:
  assumes "first_pass b l (c, ad, d) = Inr (c1, pc1, d1)" "dotted_ok (line_text l)"
  shows "memory c1 = memory c \<and> pmemory c1 = pmemory c \<and> pc1 = ad + (if is_code (line_text l) then 1 else 0) \<and>
    (case label_of l of None \<Rightarrow> labels c1 = labels c | Some w \<Rightarrow> labels c1 = dict_set w ad (labels c))"
proof -
  obtain t where t: "clean_line l = Inr t" "line_text l = t" using assms(1) by (auto simp: first_pass_def line_text_def)
  show ?thesis
  proof (cases "py_words t")
    case Nil
    then show ?thesis using assms(1) t by (auto simp: first_pass_def is_code_def label_of_def)
  next
    case (Cons w ws)
    have d: "hd w = CHR ''.'' \<longleftrightarrow> hd t = CHR ''.''"
      using assms(2) t(2) Cons dot_word [of t] by (auto simp: dotted_ok_def)
    consider "w = ''.var''" | "w \<noteq> ''.var''" "hd w = CHR ''.''" | "w \<noteq> ''.var''" "hd w \<noteq> CHR ''.''" by blast
    then show ?thesis
    proof cases
      case 1
      then have "hd t = CHR ''.''" using d by simp
      then show ?thesis using assms(1) t Cons 1
        by (auto simp: first_pass_def is_code_def label_of_def Let_def rbind_eq_Inr split: if_splits)
    next
      case 2
      then show ?thesis using assms(1) t Cons d
        by (auto simp: first_pass_def is_code_def label_of_def Let_def rbind_eq_Inr split: if_splits)
    next
      case 3
      then show ?thesis using assms(1) t Cons d
        by (auto simp: first_pass_def is_code_def label_of_def Let_def)
    qed
  qed
qed

lemma first_pass_spec:
  "rfold (first_pass b) fl (c, ad, d) = Inr (c1, pc1, d1) \<Longrightarrow> \<forall>l \<in> set fl. dotted_ok (line_text l) \<Longrightarrow>
   memory c1 = memory c \<and> pmemory c1 = pmemory c \<and> pc1 = ad + int (length (code_lines fl)) \<and>
   (\<forall>w. (\<forall>l \<in> set fl. label_of l \<noteq> Some w) \<longrightarrow> map_of (labels c1) w = map_of (labels c) w)"
proof (induction fl arbitrary: c ad d)
  case (Cons l fl)
  obtain c2 pc2 d2 where s: "first_pass b l (c, ad, d) = Inr (c2, pc2, d2)" "rfold (first_pass b) fl (c2, pc2, d2) = Inr (c1, pc1, d1)"
    using Cons.prems(1) by (auto simp: rbind_eq_Inr)
  have st: "memory c2 = memory c" "pmemory c2 = pmemory c" "pc2 = ad + (if is_code (line_text l) then 1 else 0)"
    "case label_of l of None \<Rightarrow> labels c2 = labels c | Some w \<Rightarrow> labels c2 = dict_set w ad (labels c)"
    using first_pass_step [OF s(1)] Cons.prems(2) by auto
  have "map_of (labels c2) w = map_of (labels c) w" if "label_of l \<noteq> Some w" for w
    using st(4) that by (cases "label_of l") auto
  then show ?case using Cons.IH [OF s(2)] Cons.prems(2) st(1-3) by simp
qed simp

lemma first_pass_labels:
  assumes "rfold (first_pass b) (pre @ l # post) (c, ad, d) = Inr (c1, pc1, d1)"
    and "\<forall>k \<in> set (pre @ l # post). dotted_ok (line_text k)"
    and "label_of l = Some w" "\<forall>k \<in> set post. label_of k \<noteq> Some w"
  shows "map_of (labels c1) w = Some (ad + int (length (code_lines pre)))"
proof -
  obtain c2 pc2 d2 where a: "rfold (first_pass b) pre (c, ad, d) = Inr (c2, pc2, d2)"
    "rfold (first_pass b) (l # post) (c2, pc2, d2) = Inr (c1, pc1, d1)"
    using assms(1) by (auto simp: rfold_append rbind_eq_Inr)
  obtain c3 pc3 d3 where e: "first_pass b l (c2, pc2, d2) = Inr (c3, pc3, d3)"
    "rfold (first_pass b) post (c3, pc3, d3) = Inr (c1, pc1, d1)"
    using a(2) by (auto simp: rbind_eq_Inr)
  have "pc2 = ad + int (length (code_lines pre))" using first_pass_spec [OF a(1)] assms(2) by simp
  moreover have "labels c3 = dict_set w pc2 (labels c2)" using first_pass_step [OF e(1)] assms(2,3) by simp
  moreover have "map_of (labels c1) w = map_of (labels c3) w" using first_pass_spec [OF e(2)] assms(2,4) by simp
  ultimately show ?thesis by simp
qed

section \<open>Progress\<close>

lemma based_self: "based c c"
  by (cases c) (simp add: based_def load_context_def cpu_context_def)

lemma based_fields:
  "based b c \<Longrightarrow> memtrace c = memtrace b \<and> pmemory c = pmemory b \<and> headercount c = headercount b \<and> vars c = vars b \<and> compute c = compute b"
proof -
  assume "based b c"
  then have c: "c = b\<lparr>PC := PC c, registers := registers c, conditions := conditions c, memory := memory c\<rparr>"
    by (simp add: based_def load_context_def cpu_context_def)
  show ?thesis using arg_cong [OF c, of memtrace] arg_cong [OF c, of pmemory] arg_cong [OF c, of headercount]
      arg_cong [OF c, of vars] arg_cong [OF c, of compute] by simp
qed

text \<open>Every traced location can be read, and every instruction has its printed text. Instructions keep both.\<close>

definition trace_ok :: "cpu \<Rightarrow> bool" where
  "trace_ok c \<longleftrightarrow> (\<forall>t \<in> set (memtrace c). \<exists>a. traced c t = Inr a \<and> (compute c \<longrightarrow> (\<exists>v. memory c a = Some (Num v))))"

definition coded :: "cpu \<Rightarrow> bool" where
  "coded c \<longleftrightarrow> (\<forall>a i. memory c a = Some (Code i) \<longrightarrow> pmemory c a \<noteq> None)"

definition stores :: "cpu \<Rightarrow> cpu \<Rightarrow> bool" where
  "stores b c \<longleftrightarrow> (\<forall>a v. memory b a = Some (Num v) \<longrightarrow> (\<exists>w. memory c a = Some (Num w))) \<and>
     (\<forall>a i. memory c a = Some (Code i) \<longrightarrow> memory b a = Some (Code i))"

lemma stores_updates [simp]:
  "stores b (set_reg r v c) = stores b c" "stores b (set_cond k w c) = stores b c" "stores b (c\<lparr>PC := p\<rparr>) = stores b c"
  "stores b (c\<lparr>conditions := f\<rparr>) = stores b c" "stores b c \<Longrightarrow> stores b (set_mem a v c)"
  by (auto simp: stores_def set_reg_def set_cond_def set_mem_def)

lemma eval_stores: "eval_instr i c = Inr (rc, c') \<Longrightarrow> stores b c \<Longrightarrow> stores b c'"
  by (cases i) (auto simp: eval_instr_def instr_defs Let_def rbind_eq_Inr test_all_eq init_condition_codes_eq
      split: option.splits sum.splits if_splits)

lemma stores_self: "stores c (c\<lparr>PC := p\<rparr>)"
  by (simp add: stores_def)

lemma kept_ok:
  assumes "based b c" and "stores b c"
  shows "trace_ok b \<Longrightarrow> trace_ok c" and "coded b \<Longrightarrow> coded c"
proof -
  note f = based_fields [OF assms(1)]
  have t: "traced c x = traced b x" for x using f by (simp add: traced_def)
  show "trace_ok b \<Longrightarrow> trace_ok c" using f assms(2) unfolding trace_ok_def stores_def t by metis
  show "coded b \<Longrightarrow> coded c" using f assms(2) unfolding coded_def stores_def by metis
qed

lemma trace_ok_cong: "memtrace c = memtrace b \<Longrightarrow> vars c = vars b \<Longrightarrow> compute c = compute b \<Longrightarrow> memory c = memory b \<Longrightarrow> trace_ok c = trace_ok b"
  by (simp add: trace_ok_def traced_def)

lemma coded_cong: "pmemory c = pmemory b \<Longrightarrow> memory c = memory b \<Longrightarrow> coded c = coded b"
  by (simp add: coded_def)

lemma rfold_total: "(\<And>x s. x \<in> set xs \<Longrightarrow> \<exists>t. f x s = Inr t) \<Longrightarrow> \<exists>t. rfold f xs s = Inr t"
proof (induction xs arbitrary: s)
  case (Cons x xs)
  obtain t where "f x s = Inr t" using Cons.prems by force
  moreover obtain u where "rfold f xs t = Inr u" using Cons by force
  ultimately show ?case by simp
qed simp

lemma rfold_each: "rfold f xs s = Inr t \<Longrightarrow> x \<in> set xs \<Longrightarrow> \<exists>u v. f x u = Inr v"
  by (induction xs arbitrary: s) (auto simp: rbind_eq_Inr)

text \<open>What each phase of a turn does when it does not go through.\<close>

lemma setint_cases: "(\<exists>m'. setint m = Inr m') \<or> setint m = Inl Out_Of_Draws \<and> intrand m \<and> draws m = []"
  by (cases "draws m") (auto simp: setint_def)

lemma print_trace_total:
  assumes "trace_ok (proc m)"
  shows "\<exists>e. print_trace m = Inr (emit e m)"
proof -
  let ?f = "\<lambda>t vs. if compute (proc m) then rbind (traced (proc m) t) (\<lambda>a. rbind (read_mem a (proc m)) (\<lambda>v. Inr (vs @ [Some v]))) else Inr (vs @ [None])"
  have "\<exists>vs. rfold ?f (memtrace (proc m)) [] = Inr vs"
    by (rule rfold_total) (use assms in \<open>force simp: trace_ok_def read_mem_def\<close>)
  then show ?thesis by (auto simp: print_trace_def Let_def)
qed

lemma headers_due_total:
  assumes "trace_ok (proc m)"
  shows "\<exists>m'. headers_due m = Inr m'"
proof -
  have "\<exists>u. rfold (\<lambda>t u. rbind (traced (proc m) t) (\<lambda>_. Inr u)) (memtrace (proc m)) () = Inr u"
    by (rule rfold_total) (use assms in \<open>force simp: trace_ok_def\<close>)
  then obtain e where h: "print_headers m = Inr (emit e m)" by (auto simp: print_headers_def)
  have "trace_ok (proc (emit e m))" using assms by (simp add: emit_def)
  then show ?thesis using h print_trace_total [of "emit e m"] by (auto simp: headers_due_def)
qed

lemma switch_total:
  assumes "sched_ok (procs m)" "live m \<noteq> {}"
  shows "\<exists>m'. switch m = Inr m' \<and> (trace_ok (proc m) \<longrightarrow> trace_ok (proc m')) \<and> machine_ok m'"
proof -
  obtain m' where m': "switch m = Inr m'" "machine_ok m'" using switch_spec [OF assms(1,2)] by blast
  obtain p where "proc m' = process_restore p (proc m)" using m'(1) by (auto simp: switch_def proc_restore_def rbind_eq_Inr)
  then have "trace_ok (proc m') = trace_ok (proc m)" by (intro trace_ok_cong) (simp_all add: process_restore_eq)
  then show ?thesis using m' by auto
qed

lemma interrupt_step_total:
  assumes ok: "machine_ok m0" and tr: "trace_ok (proc m0)"
  shows "(\<exists>m'. interrupt_step rc m0 = Inr m') \<or> interrupt_step rc m0 = Inl Out_Of_Draws \<and> intrand m0 \<and> draws m0 = []"
proof (cases "interrupt m0 - 1 = 0 \<or> rc = - 2")
  case True
  let ?m = "m0\<lparr>interrupt := interrupt m0 - 1\<rparr>"
  show ?thesis
  proof (cases "\<exists>m1. setint ?m = Inr m1")
    case False
    then show ?thesis using setint_cases [of ?m] True by (auto simp: interrupt_step_def)
  next
    case c: True
    then obtain m1 where m1: "setint ?m = Inr m1" by blast
    have s1: "proc m1 = proc m0" "procs m1 = procs m0" using setint_same [OF m1] by simp_all
    have ok0: "sched_ok (procs m0)" "cur_proc m0 \<in> live m0" using ok by (auto simp: machine_ok_def)
    have cu: "current (procs m1) = Inr (cur_proc m0)" using current_ok [OF ok0(1)] s1 by (simp add: cur_proc_def)
    let ?ps = "(procs m0)\<lparr>plist := (plist (procs m0))[cur_proc m0 := process_save (proc m0) (plist (procs m0) ! cur_proc m0)]\<rparr>"
    have sv: "proc_save (proc m1) (procs m1) = Inr ?ps" using cu s1 by (simp add: proc_save_def)
    have lp: "live_procs ?ps = live_procs (procs m0)"
    proof (rule set_eqI)
      fix x show "x \<in> live_procs ?ps \<longleftrightarrow> x \<in> live_procs (procs m0)"
        by (cases "x = cur_proc m0") (auto simp: live_procs_def process_save_eq)
    qed
    have "sched_ok (procs (m1\<lparr>procs := ?ps\<rparr>))" "live (m1\<lparr>procs := ?ps\<rparr>) \<noteq> {}" "trace_ok (proc (m1\<lparr>procs := ?ps\<rparr>))"
      using ok0 lp s1 tr by (auto simp: sched_ok_def live_eq)
    then obtain m2 where m2: "switch (m1\<lparr>procs := ?ps\<rparr>) = Inr m2" "trace_ok (proc m2)" "machine_ok m2" using switch_total by blast
    obtain q where q: "current (procs m2) = Inr q" using current_ok m2(3) by (auto simp: machine_ok_def)
    obtain e where "print_trace m2 = Inr (emit e m2)" using print_trace_total [OF m2(2)] by blast
    then show ?thesis using True m1 cu sv m2(1) q by (simp add: interrupt_step_def)
  qed
qed (simp add: interrupt_step_def)

lemma halt_step_total:
  assumes ok: "machine_ok m" and tr: "trace_ok (proc m)"
  shows "\<exists>r. halt_step m = Inr r \<and> (\<forall>m'. r = Running m' \<longrightarrow> trace_ok (proc m'))"
proof -
  obtain ps where ps: "proc_done (procs m) = Inr ps" "sched_ok ps" using proc_done_spec [OF ok] by blast
  show ?thesis
  proof (cases "numdone ps = int (length (plist ps))")
    case True
    then show ?thesis using ps by (simp add: halt_step_def)
  next
    case False
    then have "live_procs ps \<noteq> {}" using ps(2) by (auto simp: numdone_def sched_ok_def)
    then have "sched_ok (procs (m\<lparr>procs := ps\<rparr>))" "live (m\<lparr>procs := ps\<rparr>) \<noteq> {}" "trace_ok (proc (m\<lparr>procs := ps\<rparr>))"
      using ps(2) tr by (auto simp: live_eq)
    then obtain m1 where m1: "switch (m\<lparr>procs := ps\<rparr>) = Inr m1" "trace_ok (proc m1)" using switch_total by blast
    moreover obtain e where "print_trace m1 = Inr (emit e m1)" using print_trace_total [OF m1(2)] by blast
    ultimately show ?thesis using ps(1) False by (simp add: halt_step_def emit_def)
  qed
qed

text \<open>The instruction of a turn, with its effect on the processor or its error.\<close>

definition fetch :: "machine \<Rightarrow> (int \<times> cpu) res" where
  "fetch m =
     (case memory (proc m) (PC (proc m)) of
        None \<Rightarrow> Inl KeyError
      | Some (Num v) \<Rightarrow> Inl TypeError
      | Some (Code i) \<Rightarrow> eval_instr i ((proc m)\<lparr>PC := PC (proc m) + 1\<rparr>))"

lemma execute_cases:
  assumes ok: "machine_ok m" and tr: "trace_ok (proc m)" and co: "coded (proc m)"
  shows "case fetch m of Inl e \<Rightarrow> execute m = Inl e
    | Inr (rc, c') \<Rightarrow> \<exists>m1. execute m = Inr (rc, m1) \<and> proc m1 = c' \<and> procs m1 = procs m \<and> intrand m1 = intrand m \<and> draws m1 = draws m \<and> trace_ok c'"
proof -
  let ?a = "PC (proc m)"
  have cu: "current (procs m) = Inr (cur_proc m)" using current_ok ok by (simp add: machine_ok_def cur_proc_def)
  show ?thesis
  proof (cases "memory (proc m) ?a")
    case (Some x)
    show ?thesis
    proof (cases x)
      case (Code i)
      show ?thesis
      proof (cases "eval_instr i ((proc m)\<lparr>PC := ?a + 1\<rparr>)")
        case (Inr y)
        obtain rc c' where y: "y = (rc, c')" by (cases y)
        have e: "eval_instr i ((proc m)\<lparr>PC := ?a + 1\<rparr>) = Inr (rc, c')" using Inr y by simp
        have b: "based (proc m) c'" "stores (proc m) c'" using based_eval [OF e, of "proc m"] eval_stores [OF e stores_self] based_self by simp_all
        have tr': "trace_ok c'" using kept_ok(1) [OF b tr] .
        obtain ev where ev: "print_trace (m\<lparr>proc := c'\<rparr>) = Inr (emit ev (m\<lparr>proc := c'\<rparr>))" using print_trace_total [of "m\<lparr>proc := c'\<rparr>"] tr' by auto
        have "pmemory (proc m) ?a \<noteq> None" using co Some Code by (simp add: coded_def)
        then obtain tx where "pmemory c' ?a = Some tx" using based_fields [OF b(1)] by auto
        then show ?thesis using cu Some Code e ev tr' by (simp add: fetch_def execute_def Let_def emit_def)
      qed (use cu Some Code in \<open>simp add: fetch_def execute_def\<close>)
    qed (use cu Some in \<open>simp add: fetch_def execute_def\<close>)
  qed (use cu in \<open>simp add: fetch_def execute_def\<close>)
qed

lemma run_iter_cases:
  assumes ok: "machine_ok m" and tr: "trace_ok (proc m)" and co: "coded (proc m)"
  shows "case fetch m of Inl e \<Rightarrow> run_iter m = Inl e
    | Inr _ \<Rightarrow> (\<exists>r. run_iter m = Inr r) \<or> run_iter m = Inl Out_Of_Draws \<and> intrand m \<and> draws m = []"
proof -
  obtain m0 where m0: "headers_due m = Inr m0" using headers_due_total [OF tr] by blast
  obtain es where s0: "m0 = m\<lparr>out := out m @ es\<rparr>" using headers_due_out [OF m0] by blast
  have f0: "fetch m0 = fetch m" "machine_ok m0" "proc m0 = proc m" "intrand m0 = intrand m" "draws m0 = draws m"
    using s0 ok by (simp_all add: fetch_def machine_ok_def cur_proc_def live_def cong: cell.case_cong option.case_cong)
  note ex = execute_cases [OF f0(2), unfolded f0(1,3), OF tr co]
  show ?thesis
  proof (cases "fetch m")
    case (Inl e)
    then show ?thesis using ex m0 by (simp add: run_iter_def)
  next
    case (Inr y)
    obtain rc c' where y: "y = (rc, c')" by (cases y)
    obtain m1 where m1: "execute m0 = Inr (rc, m1)" "procs m1 = procs m0" "intrand m1 = intrand m" "draws m1 = draws m" "trace_ok (proc m1)"
      using ex Inr y f0 by auto
    have ok1: "machine_ok m1" using f0(2) m1(2) by (simp add: machine_ok_def live_def cur_proc_def)
    show ?thesis
    proof (cases "rc = - 1")
      case False
      from interrupt_step_total [OF ok1 m1(5), of rc] show ?thesis using m0 m1 False Inr by (auto simp: run_iter_def)
    next
      case True
      obtain r where r: "halt_step m1 = Inr r" "\<forall>m'. r = Running m' \<longrightarrow> trace_ok (proc m')" using halt_step_total [OF ok1 m1(5)] by blast
      show ?thesis
      proof (cases r)
        case (Finished n m2)
        then show ?thesis using m0 m1(1) True r(1) Inr by (simp add: run_iter_def)
      next
        case (Running m2)
        have "machine_ok m2" using halt_step_spec [OF ok1 r(1)] Running by simp
        moreover have "intrand m2 = intrand m1 \<and> draws m2 = draws m1"
          using r(1) Running by (auto simp: halt_step_def rbind_eq_Inr switch_def emit_def dest!: print_trace_out split: if_splits)
        ultimately show ?thesis using interrupt_step_total [of m2 rc] r(2) Running m0 m1 True r(1) Inr by (auto simp: run_iter_def)
      qed
    qed
  qed
qed

lemma fetch_spec: "run_iter m = Inr r \<Longrightarrow> machine_ok m \<Longrightarrow> \<exists>rc c'. fetch m = Inr (rc, c') \<and> (case r of Finished n m' \<Rightarrow> True | Running m' \<Rightarrow> memory (proc m') = memory c')"
  using run_iter_spec [of m r] by (fastforce simp: fetch_def split: outcome.splits)

lemma turn_total:
  assumes "machine_ok m" and "trace_ok (proc m)" and "coded (proc m)"
  shows "case run_iter m of
      Inl e \<Rightarrow> fetch m = Inl e \<or> e = Out_Of_Draws \<and> intrand m \<and> draws m = []
    | Inr (Running m') \<Rightarrow> (\<exists>y. fetch m = Inr y) \<and> machine_ok m' \<and> trace_ok (proc m') \<and> coded (proc m')
    | Inr (Finished n m') \<Rightarrow> \<exists>y. fetch m = Inr y"
proof (cases "run_iter m")
  case (Inl e)
  then show ?thesis using run_iter_cases [OF assms] by (cases "fetch m") auto
next
  case (Inr r)
  obtain rc c' where f: "fetch m = Inr (rc, c')" "case r of Finished n m' \<Rightarrow> True | Running m' \<Rightarrow> memory (proc m') = memory c'"
    using fetch_spec [OF Inr assms(1)] by blast
  show ?thesis
  proof (cases r)
    case (Running m')
    have b: "based (proc m) (proc m')" using based_run_iter [OF Inr based_self] Running by simp
    obtain i where "eval_instr i ((proc m)\<lparr>PC := PC (proc m) + 1\<rparr>) = Inr (rc, c')" using f(1) by (auto simp: fetch_def split: option.splits cell.splits)
    from eval_stores [OF this stores_self] have "stores (proc m) (proc m')" using f(2) Running by (simp add: stores_def)
    then have "trace_ok (proc m')" "coded (proc m')" using kept_ok [OF b] assms by simp_all
    moreover have "machine_ok m'" using run_iter_spec [OF assms(1) Inr] Running by auto
    ultimately show ?thesis using Inr Running f(1) by simp
  qed (use Inr f(1) in simp)
qed

lemma run_iter_draws:
  assumes "run_iter m = Inr (Running m')"
  shows "intrand m' = intrand m \<and> length (draws m) \<le> Suc (length (draws m'))"
proof -
  obtain m0 rc m1 o1 where m0: "headers_due m = Inr m0" "execute m0 = Inr (rc, m1)"
    "(if rc = - 1 then halt_step m1 else Inr (Running m1)) = Inr o1"
    "(case o1 of Finished n m2 \<Rightarrow> Inr (Finished n m2) | Running m2 \<Rightarrow> rbind (interrupt_step rc m2) (\<lambda>m3. Inr (Running m3))) = Inr (Running m')"
    using assms by (auto simp: run_iter_def rbind_eq_Inr)
  then obtain m2 where "o1 = Running m2" by (cases o1) auto
  with m0 have m: "headers_due m = Inr m0" "execute m0 = Inr (rc, m1)"
    "(if rc = - 1 then halt_step m1 else Inr (Running m1)) = Inr (Running m2)" "interrupt_step rc m2 = Inr m'"
    by (auto simp: rbind_eq_Inr)
  have 0: "intrand m0 = intrand m \<and> draws m0 = draws m" using headers_due_out [OF m(1)] by auto
  have 1: "intrand m1 = intrand m0 \<and> draws m1 = draws m0"
    using execute_spec [OF m(2)] by blast
  have 2: "intrand m2 = intrand m1 \<and> draws m2 = draws m1"
    using m(3) by (auto simp: halt_step_def rbind_eq_Inr switch_def emit_def dest!: print_trace_out split: if_splits)
  have "intrand m' = intrand m2 \<and> length (draws m2) \<le> Suc (length (draws m'))"
    using interrupt_step_cases [OF m(4)]
  proof (elim disjE exE conjE)
    fix m3 ps m4 es assume u: "setint (m2\<lparr>interrupt := interrupt m2 - 1\<rparr>) = Inr m3" "switch (m3\<lparr>procs := ps\<rparr>) = Inr m4" "m' = m4\<lparr>out := out m4 @ es\<rparr>"
    have "intrand m3 = intrand m2 \<and> length (draws m2) \<le> Suc (length (draws m3))"
      using u(1) by (cases "draws m2") (auto simp: setint_def split: if_splits)
    moreover have "intrand m4 = intrand m3 \<and> draws m4 = draws m3" using u(2) by (auto simp: switch_def rbind_eq_Inr)
    ultimately show ?thesis using u(3) by simp
  qed simp
  then show ?thesis using 0 1 2 by simp
qed

text \<open>A thread whose next instruction raises.\<close>

definition thread_error :: "cpu \<Rightarrow> threads \<Rightarrow> nat \<Rightarrow> py_error \<Rightarrow> bool" where
  "thread_error b S q e \<longleftrightarrow> (case S of (mem, T, L) \<Rightarrow> q \<in> L \<and> (case T q of (p, r, k) \<Rightarrow> (case mem p of
       None \<Rightarrow> e = KeyError
     | Some (Num v) \<Rightarrow> e = TypeError
     | Some (Code i) \<Rightarrow> eval_instr i (load_context b mem (p + 1, r, k)) = Inl e)))"

lemma fetch_thread:
  assumes "machine_ok m" and "based b (proc m)" and "simulates m S" and "fetch m = Inl e"
  shows "thread_error b S (cur_proc m) e"
proof -
  obtain T where S: "S = (memory (proc m), T, live m)" "\<forall>q \<in> live m. T q = thread m q" using assms(3) by (auto simp: simulates_def)
  have q: "cur_proc m \<in> live m" using assms(1) by (simp add: machine_ok_def)
  have "T (cur_proc m) = (PC (proc m), registers (proc m), conditions (proc m))" using S(2) q by (simp add: thread_def cpu_context_def)
  then show ?thesis using S(1) q assms(4) load_context_based [OF assms(2)]
    by (auto simp: thread_error_def fetch_def split: option.splits cell.splits)
qed

lemma run_prefix:
  "machine_ok m \<Longrightarrow> based b (proc m) \<Longrightarrow> simulates m S \<Longrightarrow> trace_ok (proc m) \<Longrightarrow> coded (proc m) \<Longrightarrow>
   \<exists>qs S'. thread_steps b qs S S' \<and>
     (case run fuel m of
        Inr (n, m') \<Rightarrow> n = icount m + length qs \<and> length qs \<le> fuel \<and> fst S' = memory (proc m') \<and> snd (snd S') = {}
      | Inl e \<Rightarrow> snd (snd S') \<noteq> {} \<and>
          (e = Out_Of_Fuel \<and> length qs = fuel \<or>
           length qs < fuel \<and> ((\<exists>q. thread_error b S' q e) \<or> e = Out_Of_Draws \<and> intrand m \<and> length (draws m) \<le> length qs)))"
proof (induction fuel arbitrary: m S)
  case 0
  have "snd (snd S) \<noteq> {}" using 0 by (auto simp: simulates_def machine_ok_def)
  then show ?case by (intro exI [of _ "[]"] exI [of _ S]) (auto intro: thread_steps.none)
next
  case (Suc fuel)
  note t = turn_total [OF Suc.prems(1,4,5)]
  have ne: "snd (snd S) \<noteq> {}" using Suc.prems by (auto simp: simulates_def machine_ok_def)
  show ?case
  proof (cases "run_iter m")
    case (Inl e)
    then have "(\<exists>q. thread_error b S q e) \<or> e = Out_Of_Draws \<and> intrand m \<and> draws m = []"
      using t fetch_thread [OF Suc.prems(1-3)] by auto
    then show ?thesis using ne Inl by (intro exI [of _ "[]"] exI [of _ S]) (auto intro: thread_steps.none)
  next
    case (Inr r)
    obtain S1 where S1: "thread_step b (cur_proc m) S S1"
      "case r of Finished n m' \<Rightarrow> n = icount m + 1 \<and> fst S1 = memory (proc m') \<and> snd (snd S1) = {}
       | Running m' \<Rightarrow> machine_ok m' \<and> simulates m' S1 \<and> icount m' = icount m + 1"
      using run_iter_simulates [OF Suc.prems(1-3) Inr] by blast
    show ?thesis
    proof (cases r)
      case (Finished k m1)
      then show ?thesis using S1 Inr by (intro exI [of _ "[cur_proc m]"] exI [of _ S1]) (auto intro: thread_steps.intros)
    next
      case (Running m1)
      have m1: "machine_ok m1" "trace_ok (proc m1)" "coded (proc m1)" using t Inr Running by auto
      have b1: "based b (proc m1)" using based_run_iter [OF Inr Suc.prems(2)] Running by simp
      have s1: "simulates m1 S1" "icount m1 = icount m + 1" using S1(2) Running by simp_all
      have d1: "intrand m1 = intrand m" "length (draws m) \<le> Suc (length (draws m1))" using run_iter_draws Inr Running by blast+
      obtain qs S' where q: "thread_steps b qs S1 S'"
        "case run fuel m1 of
           Inr (n, m') \<Rightarrow> n = icount m1 + length qs \<and> length qs \<le> fuel \<and> fst S' = memory (proc m') \<and> snd (snd S') = {}
         | Inl e \<Rightarrow> snd (snd S') \<noteq> {} \<and>
             (e = Out_Of_Fuel \<and> length qs = fuel \<or>
              length qs < fuel \<and> ((\<exists>q. thread_error b S' q e) \<or> e = Out_Of_Draws \<and> intrand m1 \<and> length (draws m1) \<le> length qs))"
        using Suc.IH [OF m1(1) b1 s1(1) m1(2,3)] by blast
      have "run (Suc fuel) m = run fuel m1" using Inr Running by simp
      moreover have "thread_steps b (cur_proc m # qs) S S'" using S1(1) q(1) by (rule thread_steps.more)
      ultimately show ?thesis using q(2) s1(2) d1
        by (intro exI [of _ "cur_proc m # qs"] exI [of _ S']) (auto split: sum.splits)
    qed
  qed
qed

text \<open>Threads that all jump to themselves run for ever: no number of turns is enough for the loop.\<close>

definition spins :: "machine \<Rightarrow> bool" where
  "spins m \<longleftrightarrow> machine_ok m \<and> trace_ok (proc m) \<and> coded (proc m) \<and> \<not> intrand m \<and>
     (\<forall>q \<in> live m. memory (proc m) (fst (thread m q)) = Some (Code (Jump (fst (thread m q)))))"

lemma spins_step:
  assumes "spins m"
  shows "\<exists>m'. run_iter m = Inr (Running m') \<and> spins m'"
proof -
  have ok: "machine_ok m" "trace_ok (proc m)" "coded (proc m)" "\<not> intrand m" using assms by (simp_all add: spins_def)
  have q: "cur_proc m \<in> live m" using ok(1) by (simp add: machine_ok_def)
  let ?a = "PC (proc m)"
  have t: "thread m (cur_proc m) = (?a, registers (proc m), conditions (proc m))" by (simp add: thread_def cpu_context_def)
  have i: "memory (proc m) ?a = Some (Code (Jump ?a))" using assms q t unfolding spins_def by (metis fst_conv)
  then have f: "fetch m = Inr (0, (proc m)\<lparr>PC := ?a\<rparr>)" by (simp add: fetch_def eval_instr_def jump_def)
  note turn = turn_total [OF ok(1-3)]
  then obtain r where r: "run_iter m = Inr r" using f ok(4) by (cases "run_iter m") auto
  obtain j rc c' where s: "memory (proc m) ?a = Some (Code j)" "eval_instr j ((proc m)\<lparr>PC := ?a + 1\<rparr>) = Inr (rc, c')"
    "case r of
       Finished n m' \<Rightarrow> rc = - 1 \<and> n = icount m + 1 \<and> live m = {cur_proc m} \<and> live m' = {} \<and> memory (proc m') = memory c'
     | Running m' \<Rightarrow> machine_ok m' \<and> live m' = (if rc = - 1 then live m - {cur_proc m} else live m) \<and>
         memory (proc m') = memory c' \<and> icount m' = icount m + 1 \<and>
         (\<forall>q \<in> live m'. thread m' q = (if q = cur_proc m then cpu_context c' else thread m q))"
    using run_iter_spec [OF ok(1) r] by blast
  have "j = Jump ?a" using s(1) i by simp
  then have c: "rc = 0" "c' = (proc m)\<lparr>PC := ?a\<rparr>" using s(2) by (auto simp: eval_instr_def jump_def)
  then obtain m' where m': "r = Running m'" using s(3) by (cases r) auto
  have "thread m' q = thread m q" if "q \<in> live m'" for q using s(3) m' c that t by (auto simp: cpu_context_def)
  then have "spins m'" using s(3) m' c turn r run_iter_draws [of m m'] assms by (auto simp: spins_def)
  then show ?thesis using r m' by blast
qed

lemma spins_for_ever: "spins m \<Longrightarrow> run turns m = Inl Out_Of_Fuel"
proof (induction turns arbitrary: m)
  case (Suc turns)
  then show ?case using spins_step [OF Suc.prems] by auto
qed simp

section \<open>A program of two threads\<close>

definition demo_program :: "string list" where
  "demo_program = [''.var count'', ''.main'', ''mov count, %ax  # read'', ''add $1, %ax'', ''mov %ax, count'', ''halt'']"

definition demo_options :: options where
  "demo_options = default_options\<lparr>o_program := demo_program, o_intfreq := 2, o_memsize := 1\<rparr>"

lemma demo_parse:
  assumes "vars c = [(''count'', 100)]"
  shows "parse_instr c ''mov count, %ax  '' = Inr (Move_m_to_r 100 REG_ZERO REG_ZERO 1 REG_AX)"
    "parse_instr c ''add $1, %ax'' = Inr (Add_i_to_r 1 REG_AX)"
    "parse_instr c ''mov %ax, count'' = Inr (Move_r_to_m REG_AX 100 REG_ZERO REG_ZERO 1)"
    "parse_instr c ''halt'' = Inr Halt"
  using assms
  by (simp_all add: parse_instr_def opcodes_def split_first_def Let_def is_space_def parse_mov_def parse_add_def two_args_def
      removecommas.simps zassert_def getarg_def py_get_def strip_def lstrip_def rstrip_def split_once_def regnames_def register_translate_def
      is_digit_def is_alpha_def isdigit_def py_int_def nat_text_def digit_val_def)

lemma demo_lines:
  "clean_line ''.var count'' = Inr ''.var count''" "py_words ''.var count'' = [''.var'', ''count'']"
  "clean_line ''.main'' = Inr ''.main''" "py_words ''.main'' = [''.main'']"
  "clean_line ''mov count, %ax  # read'' = Inr ''mov count, %ax  ''" "py_words ''mov count, %ax  '' = [''mov'', ''count,'', ''%ax'']"
  "clean_line ''add $1, %ax'' = Inr ''add $1, %ax''" "py_words ''add $1, %ax'' = [''add'', ''$1,'', ''%ax'']"
  "clean_line ''mov %ax, count'' = Inr ''mov %ax, count''" "py_words ''mov %ax, count'' = [''mov'', ''%ax,'', ''count'']"
  "clean_line ''halt'' = Inr ''halt''" "py_words ''halt'' = [''halt'']"
  by (code_simp)+

lemma demo_load:
  assumes "vars c = []" "labels c = []"
  shows "load demo_program 1000 c = Inr (c\<lparr>vars := [(''count'', 100)], labels := [(''.main'', 1000)],
    pmemory := (pmemory c)(1000 \<mapsto> strip ''mov count, %ax  '', 1001 \<mapsto> strip ''add $1, %ax'', 1002 \<mapsto> strip ''mov %ax, count'', 1003 \<mapsto> strip ''halt''),
    memory := (memory c)(1000 \<mapsto> Code (Move_m_to_r 100 REG_ZERO REG_ZERO 1 REG_AX),
      1001 \<mapsto> Code (Add_i_to_r 1 REG_AX), 1002 \<mapsto> Code (Move_r_to_m REG_AX 100 REG_ZERO REG_ZERO 1), 1003 \<mapsto> Code Halt)\<rparr>)"
proof -
  let ?c = "c\<lparr>vars := [(''count'', 100)], labels := [(''.main'', 1000)]\<rparr>"
  have "rfold (first_pass 1000) demo_program (c, 1000, 100) = Inr (?c, 1004, 104)"
    using assms by (simp add: demo_program_def first_pass_def demo_lines Let_def zassert_def)
  moreover have "rfold second_pass demo_program (?c, 1000) = Inr (?c\<lparr>
    pmemory := (pmemory c)(1000 \<mapsto> strip ''mov count, %ax  '', 1001 \<mapsto> strip ''add $1, %ax'', 1002 \<mapsto> strip ''mov %ax, count'', 1003 \<mapsto> strip ''halt''),
    memory := (memory c)(1000 \<mapsto> Code (Move_m_to_r 100 REG_ZERO REG_ZERO 1 REG_AX),
      1001 \<mapsto> Code (Add_i_to_r 1 REG_AX), 1002 \<mapsto> Code (Move_r_to_m REG_AX 100 REG_ZERO REG_ZERO 1), 1003 \<mapsto> Code Halt)\<rparr>, 1004)"
    by (simp add: demo_program_def second_pass_def demo_lines demo_parse)
  ultimately show ?thesis by (simp add: load_def)
qed

lemmas run_simps = run_iter_def headers_due_def execute_def print_trace_def print_headers_def setint_def switch_def
  interrupt_step_def halt_step_def proc_done_def numdone_def proc_save_def proc_restore_def current_def py_get_def
  process_save_eq process_restore_eq next_proc_def emit_def eval_instr_def move_m_to_r_def move_r_to_m_def add_i_to_r_def
  address_def read_mem_def set_reg_def set_mem_def Let_def

lemma demo_runs: "\<exists>m m'. main_start demo_options [] = Inr m \<and> run 10 m = Inr (8, m') \<and> read_mem 100 (proc m') = Inr 1"
proof -
  let ?c = "\<lparr>PC = 0, registers = (\<lambda>_. 0), conditions = (\<lambda>_. False),
          memory = (\<lambda>a. if 0 \<le> a \<and> a < 1024 then Some (Num 0) else None), pmemory = (\<lambda>_. None),
          labels = [], vars = [], memtrace = [], regtrace = [], cctrace = False, compute = False,
          printstats = False, headercount = - 1\<rparr>"
  let ?d = "?c\<lparr>vars := [(''count'', 100)], labels := [(''.main'', 1000)],
    pmemory := (pmemory ?c)(1000 \<mapsto> strip ''mov count, %ax  '', 1001 \<mapsto> strip ''add $1, %ax'', 1002 \<mapsto> strip ''mov %ax, count'', 1003 \<mapsto> strip ''halt''),
    memory := (memory ?c)(1000 \<mapsto> Code (Move_m_to_r 100 REG_ZERO REG_ZERO 1 REG_AX),
      1001 \<mapsto> Code (Add_i_to_r 1 REG_AX), 1002 \<mapsto> Code (Move_r_to_m REG_AX 100 REG_ZERO REG_ZERO 1), 1003 \<mapsto> Code Halt)\<rparr>"
  let ?p = "\<lambda>q. \<lparr>tid = q, pc = 1000, regs = (\<lambda>_. 0)(REG_SP := 1000 - 1000 * int q), cc = (\<lambda>_. False), isdone = False, stack = 1000 - 1000 * int q\<rparr>"
  let ?m = "\<lparr>proc = process_restore (?p 0) ?d,
    procs = \<lparr>plist = [?p 0, ?p 1], active = 2, manual = False, procsched = [0, 1], cur = 0\<rparr>,
    icount = 0, interrupt = 2, intfreq = 2, intrand = False, draws = [],
    out = [Headers [] [] False 2, Row None [] [] []]\<rparr>"
  have s: "main_start demo_options [] = Inr ?m"
    using demo_load [of ?c]
    by (simp add: main_start_def check_options_def demo_options_def default_options_def zassert_def Let_def cpu_init_def
        trace_list_def start_threads_def process_init_def addproc_def finalize_def proclist_init_def upt_rec proc_restore_def
        current_def py_get_def run_start_def setint_def print_headers_def print_trace_def emit_def
        process_restore_eq)
  have r: "\<exists>m'. run 10 ?m = Inr (8, m') \<and> read_mem 100 (proc m') = Inr 1"
    by (simp add: run_simps eval_nat_numeral)
  show ?thesis using s r by blast
qed

section \<open>Properties\<close>

lemma load_coded:
  assumes "\<forall>a i. memory c a \<noteq> Some (Code i)" and "load file a0 c = Inr c'"
  shows "coded c'"
proof -
  obtain c1 p d p' where l: "rfold (first_pass a0) file (c, a0, 100) = Inr (c1, p, d)" "rfold second_pass file (c1, a0) = Inr (c', p')"
    using assms(2) by (auto simp: load_def rbind_eq_Inr)
  have "case (c1, p, d) of (u, _) \<Rightarrow> coded u"
  proof (rule rfold_inv [OF _ _ l(1), where P = "\<lambda>(u, _). coded u"])
    fix x s s' assume "case s of (u, _) \<Rightarrow> coded u" "first_pass a0 x s = Inr s'"
    then show "case s' of (u, _) \<Rightarrow> coded u" by (auto simp: first_pass_def Let_def rbind_eq_Inr coded_def split: if_splits prod.splits)
  qed (use assms(1) in \<open>simp add: coded_def\<close>)
  then have "case (c1, a0) of (u, _) \<Rightarrow> coded u" by simp
  then have "case (c', p') of (u, _) \<Rightarrow> coded u"
  proof (rule rfold_inv [OF _ _ l(2), where P = "\<lambda>(u, _). coded u", rotated])
    fix x s s' assume "case s of (u, _) \<Rightarrow> coded u" "second_pass x s = Inr s'"
    then show "case s' of (u, _) \<Rightarrow> coded u" by (auto simp: second_pass_def Let_def rbind_eq_Inr coded_def split: if_splits prod.splits)
  qed
  then show ?thesis by simp
qed

text \<open>A machine that starts has printed its traced locations once, so they can be read.\<close>

lemma main_start_regular:
  assumes "main_start opt ds = Inr m"
  shows "trace_ok (proc m) \<and> coded (proc m) \<and> (intrand m \<longrightarrow> o_intrand opt) \<and> length ds \<le> Suc (length (draws m))"
proof -
  obtain argv c c1 ps c2 ps1 where s: "cpu_init (o_memsize opt) (trace_list (o_memtrace opt)) (trace_list (o_regtrace opt)) (o_cctrace opt)
      (o_solve opt) (o_printstats opt) (o_headercount opt) = Inr c" "load (o_program opt) (o_loadaddr opt) c = Inr c1"
    "finalize (o_procsched opt) c1 ps = Inr (c2, ps1)" "run_start c2 ps1 (o_intfreq opt) (o_intrand opt) ds = Inr m"
    using assms by (auto simp: main_start_def rbind_eq_Inr)
  have "\<forall>a i. memory c a \<noteq> Some (Code i)" using s(1) by (auto simp: cpu_init_def rbind_eq_Inr split: if_splits)
  then have "coded c1" using load_coded s(2) by blast
  moreover obtain p where "c2 = process_restore p c1"
    using s(3) unfolding finalize_def by (auto simp: proc_restore_def rbind_eq_Inr)
  then have "memory c2 = memory c1" "pmemory c2 = pmemory c1" by (simp_all add: process_restore_eq)
  ultimately have co: "coded c2" using coded_cong by blast
  obtain m0 m1 where m0: "setint \<lparr>proc = c2, procs = ps1, icount = 0, interrupt = 1,
      intfreq = (if manual ps1 then 1 else o_intfreq opt), intrand = (if manual ps1 then False else o_intrand opt),
      draws = ds, out = []\<rparr> = Inr m0" "print_headers m0 = Inr m1" "print_trace m1 = Inr m"
    using s(4) by (auto simp: run_start_def Let_def rbind_eq_Inr)
  have e0: "proc m0 = c2" "intrand m0 \<longrightarrow> o_intrand opt" "length ds \<le> Suc (length (draws m0))"
    using m0(1) by (cases ds; auto simp: setint_def split: if_splits)+
  obtain e e' where e1: "m1 = emit e m0" "m = emit e' m1" using m0(2) print_trace_out [OF m0(3)] by (auto simp: print_headers_def rbind_eq_Inr)
  have pm: "proc m = c2" "proc m1 = c2" using e0(1) e1 by (simp_all add: emit_def)
  have "trace_ok c2"
    unfolding trace_ok_def
  proof
    fix t assume t: "t \<in> set (memtrace c2)"
    obtain u where "rfold (\<lambda>t u. rbind (traced c2 t) (\<lambda>_. Inr u)) (memtrace c2) () = Inr u"
      using m0(2) e0(1) by (auto simp: print_headers_def rbind_eq_Inr)
    from rfold_each [OF this t] obtain a where a: "traced c2 t = Inr a" by (auto simp: rbind_eq_Inr)
    obtain vs where "rfold (\<lambda>t vs. if compute c2 then rbind (traced c2 t) (\<lambda>a. rbind (read_mem a c2) (\<lambda>v. Inr (vs @ [Some v])))
                           else Inr (vs @ [None])) (memtrace c2) [] = Inr vs"
      using m0(3) pm(2) by (auto simp: print_trace_def Let_def rbind_eq_Inr)
    from rfold_each [OF this t] have "compute c2 \<longrightarrow> (\<exists>v. read_mem a c2 = Inr v)" using a by (auto simp: rbind_eq_Inr)
    then show "\<exists>a. traced c2 t = Inr a \<and> (compute c2 \<longrightarrow> (\<exists>v. memory c2 a = Some (Num v)))"
      using a by (auto simp: read_mem_def split: option.splits cell.splits)
  qed
  then show ?thesis using co e0 e1 pm by (simp add: emit_def)
qed

lemma main_start_ok:
  assumes "main_start opt ds = Inr m"
  shows "machine_ok m \<and> live m = {..<o_threads opt} \<and> icount m = 0 \<and>
    (\<forall>t < o_threads opt. \<exists>rs. thread m t = (o_loadaddr opt, rs, \<lambda>_. False) \<and>
       rs REG_SP = o_memsize opt * 1000 - 1000 * int t)"
proof -
  obtain argv c1 ps c2 ps1 where s: "start_threads opt argv = Inr ps" "finalize (o_procsched opt) c1 ps = Inr (c2, ps1)"
    "run_start c2 ps1 (o_intfreq opt) (o_intrand opt) ds = Inr m"
    using assms by (auto simp: main_start_def rbind_eq_Inr)
  have ps: "length (plist ps) = o_threads opt" "active ps = int (o_threads opt)" "procsched ps = []"
    "\<forall>t < o_threads opt. pc (plist ps ! t) = o_loadaddr opt \<and> \<not> isdone (plist ps ! t) \<and> cc (plist ps ! t) = (\<lambda>_. False) \<and>
       regs (plist ps ! t) REG_SP = o_memsize opt * 1000 - 1000 * int t"
    using start_threads_spec [OF s(1) [unfolded start_threads_def]] by auto
  have lp: "live_procs ps = {..<length (plist ps)}" using ps(1,4) by (auto simp: live_procs_def)
  have f: "sched_ok ps1" "plist ps1 = plist ps" "c2 = process_restore (plist ps ! (procsched ps1 ! cur ps1)) c1"
    using finalize_spec [OF s(2) ps(3) _ lp] ps(1,2) by auto
  obtain m0 m1 where m0: "setint \<lparr>proc = c2, procs = ps1, icount = 0, interrupt = 1,
      intfreq = (if manual ps1 then 1 else o_intfreq opt), intrand = (if manual ps1 then False else o_intrand opt),
      draws = ds, out = []\<rparr> = Inr m0" "print_headers m0 = Inr m1" "print_trace m1 = Inr m"
    using s(3) by (auto simp: run_start_def Let_def rbind_eq_Inr)
  have eq: "proc m = c2" "procs m = ps1" "icount m = 0"
    using setint_same [OF m0(1)] m0(2) print_trace_out [OF m0(3)]
    by (auto simp: print_headers_def rbind_eq_Inr emit_def)
  have lm: "live m = {..<o_threads opt}" using eq(2) f(2) lp ps(1) by (simp add: live_eq live_procs_def)
  have "cur_proc m \<in> live m" using current_ok [OF f(1)] eq(2) f(2) ps(1) lm by (simp add: cur_proc_def)
  then have "machine_ok m" using f(1) eq(2) by (simp add: machine_ok_def)
  moreover have "thread m t = process_context (plist ps ! t)" for t
    using eq f(2,3) context_restored by (simp add: thread_def cur_proc_def)
  ultimately show ?thesis using lm eq(3) ps(4) by (simp add: process_context_def)
qed

text \<open>
  C1. A run of the simulator is an interleaving of independent threads: whatever the program, the timer, the schedule, the draws and the number of
  turns, the instructions it executes are those of threads that each have a program counter, registers and condition codes of their own over one
  memory, started at the load address with a stack each, one instruction at a time. Saving and restoring contexts never mixes them up. The run
  ends when every thread has halted, with the memory they leave. Until then some thread is live, and the run stops early only with the error that
  the next instruction of a live thread raises, or for want of a draw when the timer is random; otherwise it has made every turn it was given.
\<close>

theorem x86_run_interleaves_threads:
  assumes "main_start opt ds = Inr m"
  shows "(\<forall>t < o_threads opt. \<exists>rs. thread m t = (o_loadaddr opt, rs, \<lambda>_. False) \<and> rs REG_SP = o_memsize opt * 1000 - 1000 * int t) \<and>
    (\<exists>qs S. thread_steps (proc m) qs (memory (proc m), thread m, {..<o_threads opt}) S \<and>
      (case run turns m of
         Inr (n, m') \<Rightarrow> n = length qs \<and> length qs \<le> turns \<and> fst S = memory (proc m') \<and> snd (snd S) = {}
       | Inl e \<Rightarrow> snd (snd S) \<noteq> {} \<and>
           (e = Out_Of_Fuel \<and> length qs = turns \<or>
            length qs < turns \<and> ((\<exists>q. thread_error (proc m) S q e) \<or> e = Out_Of_Draws \<and> o_intrand opt \<and> length ds \<le> Suc (length qs)))))"
proof -
  have m: "machine_ok m" "live m = {..<o_threads opt}" "icount m = 0"
    "\<forall>t < o_threads opt. \<exists>rs. thread m t = (o_loadaddr opt, rs, \<lambda>_. False) \<and> rs REG_SP = o_memsize opt * 1000 - 1000 * int t"
    using main_start_ok [OF assms(1)] by auto
  have g: "trace_ok (proc m)" "coded (proc m)" "intrand m \<longrightarrow> o_intrand opt" "length ds \<le> Suc (length (draws m))"
    using main_start_regular [OF assms] by auto
  have "simulates m (memory (proc m), thread m, {..<o_threads opt})" using m(2) by (simp add: simulates_def)
  from run_prefix [OF m(1) based_self this g(1,2), of turns] obtain qs S where
    q: "thread_steps (proc m) qs (memory (proc m), thread m, {..<o_threads opt}) S"
      "case run turns m of
        Inr (n, m') \<Rightarrow> n = icount m + length qs \<and> length qs \<le> turns \<and> fst S = memory (proc m') \<and> snd (snd S) = {}
      | Inl e \<Rightarrow> snd (snd S) \<noteq> {} \<and>
          (e = Out_Of_Fuel \<and> length qs = turns \<or>
           length qs < turns \<and> ((\<exists>q. thread_error (proc m) S q e) \<or> e = Out_Of_Draws \<and> intrand m \<and> length (draws m) \<le> length qs))"
    by blast
  have "case run turns m of
         Inr (n, m') \<Rightarrow> n = length qs \<and> length qs \<le> turns \<and> fst S = memory (proc m') \<and> snd (snd S) = {}
       | Inl e \<Rightarrow> snd (snd S) \<noteq> {} \<and>
           (e = Out_Of_Fuel \<and> length qs = turns \<or>
            length qs < turns \<and> ((\<exists>q. thread_error (proc m) S q e) \<or> e = Out_Of_Draws \<and> o_intrand opt \<and> length ds \<le> Suc (length qs)))"
    using q(2) m(3) g(3,4) by (cases "run turns m") auto
  with m(4) q(1) show ?thesis by blast
qed

text \<open>Two threads each add one to a variable, and the interrupt between the read and the write loses one of the updates.\<close>

theorem x86_run_interleaves_threads_witness:
  "\<exists>m m' qs S. main_start demo_options [] = Inr m \<and> run 10 m = Inr (8, m') \<and> read_mem 100 (proc m') = Inr 1 \<and>
     thread_steps (proc m) qs (memory (proc m), thread m, {..<2}) S \<and> length qs = 8 \<and> fst S = memory (proc m') \<and> snd (snd S) = {}"
proof -
  obtain m m' where m: "main_start demo_options [] = Inr m" "run 10 m = Inr (8, m')" "read_mem 100 (proc m') = Inr 1"
    using demo_runs by blast
  have th: "o_threads demo_options = 2" by (simp add: demo_options_def default_options_def)
  obtain qs S where "thread_steps (proc m) qs (memory (proc m), thread m, {..<2}) S" "8 = length qs" "fst S = memory (proc m')" "snd (snd S) = {}"
    using x86_run_interleaves_threads [OF m(1), of 10] m(2) unfolding th by auto
  then show ?thesis using m by (intro exI [of _ m] exI [of _ m'] exI [of _ qs] exI [of _ S]) simp
qed

text \<open>
  C18. The next thread is the first live one after the current thread in the cyclic order of the schedule, and
  the loop that looks for it ends within one round; no live thread is passed over.
\<close>

theorem next_proc_round_robin:
  assumes "sched_ok ps" and "live_procs ps \<noteq> {}"
  shows "\<exists>d < length (procsched ps). next_proc ps = Inr (ps\<lparr>cur := (cur ps + 1 + d) mod length (procsched ps)\<rparr>) \<and>
    procsched ps ! ((cur ps + 1 + d) mod length (procsched ps)) \<in> live_procs ps \<and>
    (\<forall>e < d. procsched ps ! ((cur ps + 1 + e) mod length (procsched ps)) \<notin> live_procs ps)"
  using next_proc_spec [OF assms] .

definition demo_procs :: proclist where
  "demo_procs =
     (let p = \<lparr>tid = 0, pc = 1000, regs = (\<lambda>_. 0), cc = (\<lambda>_. False), isdone = False, stack = 0\<rparr>
      in \<lparr>plist = [p, p\<lparr>tid := 1, isdone := True\<rparr>, p\<lparr>tid := 2\<rparr>], active = 2, manual = False, procsched = [0, 1, 2], cur = 0\<rparr>)"

theorem next_proc_round_robin_witness:
  "\<exists>d < 3. next_proc demo_procs = Inr (demo_procs\<lparr>cur := (1 + d) mod 3\<rparr>) \<and> (1 + d) mod 3 = 2"
proof -
  have l: "live_procs demo_procs = {0, 2}"
  proof (rule set_eqI)
    fix x :: nat
    have "x < 3 \<longleftrightarrow> x = 0 \<or> x = 1 \<or> x = 2" by arith
    then show "x \<in> live_procs demo_procs \<longleftrightarrow> x \<in> {0, 2}"
      by (cases "x < 3") (auto simp: live_procs_def demo_procs_def Let_def numeral_2_eq_2 numeral_3_eq_3)
  qed
  have ok: "sched_ok demo_procs"
    unfolding sched_ok_def l by (auto simp: demo_procs_def Let_def)
  have f: "length (procsched demo_procs) = 3" "cur demo_procs = 0" "procsched demo_procs = [0, 1, 2]"
    by (simp_all add: demo_procs_def Let_def)
  have ne: "live_procs demo_procs \<noteq> {}" unfolding l by simp
  have "\<exists>d < 3. next_proc demo_procs = Inr (demo_procs\<lparr>cur := (0 + 1 + d) mod 3\<rparr>) \<and>
    [0, 1, 2] ! ((0 + 1 + d) mod 3) \<in> {0, 2::nat} \<and> (\<forall>e < d. [0, 1, 2] ! ((0 + 1 + e) mod 3) \<notin> {0, 2::nat})"
    using next_proc_round_robin [OF ok ne] unfolding l f(1,2) unfolding f(3) .
  then obtain d where d: "d < 3" "next_proc demo_procs = Inr (demo_procs\<lparr>cur := (0 + 1 + d) mod 3\<rparr>)"
    "[0, 1, 2] ! ((0 + 1 + d) mod 3) \<in> {0, 2::nat}" "\<forall>e < d. [0, 1, 2] ! ((0 + 1 + e) mod 3) \<notin> {0, 2::nat}" by blast
  have "d \<noteq> 0" using d(3) by (intro notI) simp
  moreover have "\<not> 1 < d" using d(4) [rule_format, of 1] by (intro notI) simp
  ultimately have "d = 1" by linarith
  then show ?thesis using d(2) by (intro exI [of _ 1]) simp
qed

text \<open>
  C22. In a machine whose traced locations can be read, a turn of the run loop raises only what the instruction that it fetches raises, or stops
  for want of a draw for a random timer: neither the halt, the timer, the switch nor the printing fails. The next machine has readable locations again.
\<close>

theorem run_iter_progress:
  assumes "machine_ok m" and "trace_ok (proc m)" and "coded (proc m)"
  shows "case run_iter m of
      Inl e \<Rightarrow> fetch m = Inl e \<or> e = Out_Of_Draws \<and> intrand m \<and> draws m = []
    | Inr (Running m') \<Rightarrow> (\<exists>y. fetch m = Inr y) \<and> machine_ok m' \<and> trace_ok (proc m') \<and> coded (proc m')
    | Inr (Finished n m') \<Rightarrow> \<exists>y. fetch m = Inr y"
  using turn_total [OF assms] .

theorem run_iter_progress_witness:
  "\<exists>m r. main_start demo_options [] = Inr m \<and> run_iter m = Inr r"
proof -
  obtain m m' where m: "main_start demo_options [] = Inr m" "run 10 m = Inr (8, m')" using demo_runs by blast
  have ok: "machine_ok m" "trace_ok (proc m)" "coded (proc m)" "\<not> intrand m" using main_start_ok [OF m(1)] main_start_regular [OF m(1)] by (auto simp: demo_options_def default_options_def)
  have "PC (proc m) = 1000 \<and> memory (proc m) 1000 = Some (Code (Move_m_to_r 100 REG_ZERO REG_ZERO 1 REG_AX)) \<and>
      memory (proc m) 100 = Some (Num 0) \<and> registers (proc m) REG_ZERO = 0"
  proof -
    have "main_start demo_options [] = Inr m" by (fact m(1))
    then show ?thesis
      by (simp add: main_start_def check_options_def demo_options_def default_options_def zassert_def Let_def cpu_init_def
        trace_list_def start_threads_def process_init_def addproc_def finalize_def proclist_init_def upt_rec proc_restore_def
        current_def py_get_def run_start_def setint_def print_headers_def print_trace_def emit_def
        process_restore_eq demo_load) auto
  qed
  then have "\<exists>y. fetch m = Inr y" by (simp add: fetch_def eval_instr_def move_m_to_r_def address_def read_mem_def)
  then have "run_iter m \<noteq> Inl e" for e using run_iter_progress [OF ok(1-3)] ok(4) by auto
  then show ?thesis using m(1) by (metis sum.exhaust)
qed

lemma push_r_eq:
  "push_r r c = Inr (c\<lparr>registers := (registers c)(REG_SP := registers c REG_SP - 4),
     memory := (memory c)(registers c REG_SP - 4 \<mapsto> Num ((if r = REG_SP then -4 else 0) + registers c r))\<rparr>)"
  by (simp add: push_r_def set_reg_def set_mem_def Let_def)

lemma pushes:
  "rfold push_r rs c = Inr c1 \<Longrightarrow> REG_SP \<notin> set rs \<Longrightarrow> registers c1 REG_SP = registers c REG_SP - 4 * int (length rs) \<and>
     (\<forall>r. r \<noteq> REG_SP \<longrightarrow> registers c1 r = registers c r)"
proof (induction rs arbitrary: c)
  case (Cons r rs)
  let ?c = "c\<lparr>registers := (registers c)(REG_SP := registers c REG_SP - 4),
     memory := (memory c)(registers c REG_SP - 4 \<mapsto> Num (registers c r))\<rparr>"
  have "rfold push_r rs ?c = Inr c1" using Cons.prems push_r_eq [of r c] by (auto split: if_splits)
  from Cons.IH [OF this] Cons.prems(2) show ?case by simp
qed simp

lemma push_pop:
  "rfold push_r rs c = Inr c1 \<Longrightarrow> REG_SP \<notin> set rs \<Longrightarrow> registers c2 REG_SP = registers c1 REG_SP \<Longrightarrow>
   \<forall>x. registers c1 REG_SP \<le> x \<and> x < registers c REG_SP \<longrightarrow> memory c2 x = memory c1 x \<Longrightarrow>
   \<exists>c3. rfold pop_r (rev rs) c2 = Inr c3 \<and> registers c3 REG_SP = registers c REG_SP \<and>
    (\<forall>r \<in> set rs. registers c3 r = registers c r) \<and> memory c3 = memory c2"
proof (induction rs arbitrary: c1 c2 rule: rev_induct)
  case (snoc r rs)
  obtain d where d: "rfold push_r rs c = Inr d" "push_r r d = Inr c1"
    using snoc.prems(1) by (auto simp: rfold_append rbind_eq_Inr)
  have r: "r \<noteq> REG_SP" "REG_SP \<notin> set rs" using snoc.prems(2) by auto
  have c1: "registers c1 REG_SP = registers d REG_SP - 4" "memory c1 = (memory d)(registers d REG_SP - 4 \<mapsto> Num (registers d r))"
    using d(2) r(1) by (auto simp: push_r_eq)
  have p: "registers d REG_SP = registers c REG_SP - 4 * int (length rs)" "registers d r = registers c r"
    using pushes [OF d(1) r(2)] r(1) by simp_all
  have "memory c2 (registers c2 REG_SP) = memory c1 (registers c1 REG_SP)" using snoc.prems(3,4) c1(1) p(1) by simp
  then have "read_mem (registers c2 REG_SP) c2 = Inr (registers c r)" using c1 p(2) by (simp add: read_mem_def)
  then obtain c2' where c2': "pop_r r c2 = Inr c2'" "registers c2' = (registers c2)(r := registers c r, REG_SP := registers c2 REG_SP + 4)"
    "memory c2' = memory c2"
    using r(1) by (simp add: pop_r_def Let_def set_reg_def)
  have sp: "registers c2' REG_SP = registers d REG_SP" using c2'(2) snoc.prems(3) c1(1) by simp
  have "\<forall>x. registers d REG_SP \<le> x \<and> x < registers c REG_SP \<longrightarrow> memory c2' x = memory d x"
    using snoc.prems(4) c1 c2'(3) by simp
  from snoc.IH [OF d(1) r(2) sp this] obtain c3 where c3: "rfold pop_r (rev rs) c2' = Inr c3"
    "registers c3 REG_SP = registers c REG_SP" "\<forall>r \<in> set rs. registers c3 r = registers c r" "memory c3 = memory c2'" by blast
  have keep: "q \<notin> set qs \<Longrightarrow> q \<noteq> REG_SP \<Longrightarrow> rfold pop_r qs u = Inr v \<Longrightarrow> registers v q = registers u q" for q qs u v
    by (induction qs arbitrary: u) (auto simp: pop_r_def rbind_eq_Inr set_reg_def Let_def)
  have "registers c3 r = registers c r"
  proof (cases "r \<in> set rs")
    case False
    then show ?thesis using keep [of r "rev rs" c2' c3] c3(1) r(1) c2'(2) by simp
  qed (use c3(3) in blast)
  then show ?case using c2' c3 by auto
qed simp

text \<open>
  C17. The loader's two passes agree: the i-th instruction line of the program is parsed into the cell at the load address
  plus i, nothing else of the memory changes, and every label stands for the address of the
  instruction that follows it.
\<close>

theorem load_layout:
  assumes "load program a c = Inr c'"
  shows "(\<forall>i < length (code_lines program). \<exists>ins. parse_instr c' (code_lines program ! i) = Inr ins \<and>
      memory c' (a + int i) = Some (Code ins)) \<and>
    (\<forall>x. x < a \<or> a + int (length (code_lines program)) \<le> x \<longrightarrow> memory c' x = memory c x) \<and>
    (\<forall>pre l post w. program = pre @ l # post \<and> label_of l = Some w \<and> (\<forall>k \<in> set post. label_of k \<noteq> Some w) \<longrightarrow>
      map_of (labels c') w = Some (a + int (length (code_lines pre))))"
proof -
  obtain c1 pc1 d1 pc2 where l: "rfold (first_pass a) program (c, a, 100) = Inr (c1, pc1, d1)"
    "rfold second_pass program (c1, a) = Inr (c', pc2)"
    using assms by (auto simp: load_def rbind_eq_Inr)
  note s = second_pass_spec [OF l(2)]
  have dots: "\<forall>k \<in> set program. dotted_ok (line_text k)" and lb: "labels c' = labels c1" "vars c' = vars c1" using s by auto
  have m: "memory c1 = memory c" using first_pass_spec [OF l(1) dots] by blast
  have same: "parse_instr c' t = parse_instr c1 t" for t by (rule parse_instr_cong) (simp_all add: lb)
  have "map_of (labels c') w = Some (a + int (length (code_lines pre)))"
    if "program = pre @ x # post" "label_of x = Some w" "\<forall>k \<in> set post. label_of k \<noteq> Some w" for pre x post w
    using first_pass_labels [of a pre x post c a 100] l(1) dots that lb by simp
  then show ?thesis using s m same by auto
qed

theorem load_layout_witness:
  "\<exists>c c'. load demo_program 1000 c = Inr c' \<and> length (code_lines demo_program) = 4 \<and>
     map_of (labels c') ''.main'' = Some 1000 \<and> (\<exists>ins. memory c' 1003 = Some (Code ins))"
proof -
  let ?c = "\<lparr>PC = 0, registers = (\<lambda>_. 0), conditions = (\<lambda>_. False), memory = (\<lambda>_. None), pmemory = (\<lambda>_. None),
    labels = [], vars = [], memtrace = [], regtrace = [], cctrace = False, compute = False, printstats = False, headercount = 0\<rparr>"
  obtain c' where c': "load demo_program 1000 ?c = Inr c'" using demo_load [of ?c] by simp
  have t: "map line_text demo_program = [''.var count'', ''.main'', ''mov count, %ax  '', ''add $1, %ax'', ''mov %ax, count'', ''halt'']"
    by (simp add: demo_program_def line_text_def demo_lines)
  have n: "length (code_lines demo_program) = 4" unfolding code_lines_def t by (simp add: is_code_def demo_lines)
  note L = load_layout [OF c']
  have "label_of ''.main'' = Some ''.main''" by (simp add: label_of_def line_text_def demo_lines)
  moreover have "\<forall>k \<in> set (drop 2 demo_program). label_of k \<noteq> Some ''.main''"
    by (simp add: demo_program_def label_of_def line_text_def demo_lines)
  moreover have "demo_program = [''.var count''] @ ''.main'' # drop 2 demo_program" by (simp add: demo_program_def)
  ultimately have "map_of (labels c') ''.main'' = Some (1000 + int (length (code_lines [''.var count''])))"
    using L by blast
  moreover have "code_lines [''.var count''] = []" by (simp add: is_code_def line_text_def demo_lines)
  moreover obtain ins where "memory c' (1000 + int 3) = Some (Code ins)"
    using L [THEN conjunct1, rule_format, of 3] n by auto
  ultimately show ?thesis using c' n by (intro exI [of _ ?c] exI [of _ c']) auto
qed

definition holds :: "condition \<Rightarrow> int \<Rightarrow> int \<Rightarrow> bool" where
  "holds k x y = (case k of COND_GT \<Rightarrow> x > y | COND_GTE \<Rightarrow> x \<ge> y | COND_LT \<Rightarrow> x < y | COND_LTE \<Rightarrow> x \<le> y
     | COND_EQ \<Rightarrow> x = y | COND_NEQ \<Rightarrow> x \<noteq> y)"

lemma test_jump_aux:
  "rbind (test_all src dst c) (jump_if k t) =
     Inr (c\<lparr>conditions := (\<lambda>j. holds j dst src), PC := (if holds k dst src then t else PC c)\<rparr>)"
proof -
  have "(\<lambda>j. case j of COND_GT \<Rightarrow> dst > src | COND_GTE \<Rightarrow> dst \<ge> src | COND_LT \<Rightarrow> dst < src
     | COND_LTE \<Rightarrow> dst \<le> src | COND_EQ \<Rightarrow> dst = src | COND_NEQ \<Rightarrow> dst \<noteq> src) = (\<lambda>j. holds j dst src)"
    by (simp add: holds_def)
  then have "test_all src dst c = Inr (c\<lparr>conditions := (\<lambda>j. holds j dst src)\<rparr>)" by (simp only: test_all_eq)
  then show ?thesis by (cases c) (simp add: jump_if_def)
qed

text \<open>
  A conditional jump after a test is taken exactly when the comparison of the second operand with the first
  holds, in all three forms of the test; registers and memory stay as they are.
\<close>

theorem test_jump_follows_comparison:
  "rbind (test_r_r a b c) (jump_if k t) = Inr (c\<lparr>conditions := (\<lambda>j. holds j (registers c b) (registers c a)),
     PC := (if holds k (registers c b) (registers c a) then t else PC c)\<rparr>) \<and>
   rbind (test_i_r v b c) (jump_if k t) = Inr (c\<lparr>conditions := (\<lambda>j. holds j (registers c b) v),
     PC := (if holds k (registers c b) v then t else PC c)\<rparr>) \<and>
   rbind (test_r_i a v c) (jump_if k t) = Inr (c\<lparr>conditions := (\<lambda>j. holds j v (registers c a)),
     PC := (if holds k v (registers c a) then t else PC c)\<rparr>)"
  by (simp add: test_r_r_def test_i_r_def test_r_i_def test_jump_aux init_condition_codes_eq)

text \<open>
  C33. Saving registers on the stack works: after pushing any list of registers other than the stack pointer, and after any
  code that leaves the stack pointer and the pushed words as they were, popping them in
  reverse order gives each register the value it had and the stack pointer its old value.
\<close>

theorem push_pop_restores:
  assumes "rfold push_r rs c = Inr c1" and "REG_SP \<notin> set rs"
    and "registers c2 REG_SP = registers c1 REG_SP"
    and "\<forall>x. registers c1 REG_SP \<le> x \<and> x < registers c REG_SP \<longrightarrow> memory c2 x = memory c1 x"
  shows "\<exists>c3. rfold pop_r (rev rs) c2 = Inr c3 \<and> registers c3 REG_SP = registers c REG_SP \<and>
    (\<forall>r \<in> set rs. registers c3 r = registers c r)"
  using push_pop [OF assms] by blast


theorem push_pop_restores_witness:
  "\<exists>c c1 c3. rfold push_r [REG_AX, REG_BX] c = Inr c1 \<and>
     rfold pop_r [REG_BX, REG_AX] (c1\<lparr>registers := (registers c1)(REG_AX := 7, REG_BX := 8)\<rparr>) = Inr c3 \<and>
     registers c REG_AX = 1 \<and> registers c3 REG_AX = 1 \<and> registers c3 REG_SP = 100"
proof -
  let ?c = "\<lparr>PC = 0, registers = (\<lambda>_. 1)(REG_SP := 100), conditions = (\<lambda>_. False), memory = (\<lambda>_. None), pmemory = (\<lambda>_. None),
    labels = [], vars = [], memtrace = [], regtrace = [], cctrace = False, compute = False, printstats = False, headercount = 0\<rparr>"
  obtain c1 where c1: "rfold push_r [REG_AX, REG_BX] ?c = Inr c1" by (simp add: push_r_eq)
  have "REG_SP \<notin> set [REG_AX, REG_BX]" by simp
  from push_pop_restores [OF c1 this, of "c1\<lparr>registers := (registers c1)(REG_AX := 7, REG_BX := 8)\<rparr>"]
  obtain c3 where "rfold pop_r [REG_BX, REG_AX] (c1\<lparr>registers := (registers c1)(REG_AX := 7, REG_BX := 8)\<rparr>) = Inr c3"
    "registers c3 REG_SP = 100" "registers c3 REG_AX = 1" by auto
  with c1 show ?thesis by (intro exI [of _ ?c] exI [of _ c1] exI [of _ c3]) simp
qed

text \<open>
  The instructions for locks: an exchange and a fetch-and-add read and write one memory cell in one step, give the
  register the old value and the memory the register's old value (added to the old one), and change nothing
  else; on a cell that is not there they raise. A call and the return of its callee come back to the
  instruction after the call with every register as it was.
\<close>

theorem lock_instructions:
  "atomic_exchange r v r1 r2 c =
     (let a = v + registers c r1 + registers c r2 in
      case read_mem a c of Inl e \<Rightarrow> Inl e
      | Inr old \<Rightarrow> Inr (c\<lparr>registers := (registers c)(r := old), memory := (memory c)(a \<mapsto> Num (registers c r))\<rparr>)) \<and>
   fetchadd r v r1 r2 c =
     (let a = v + registers c r1 + registers c r2 in
      case read_mem a c of Inl e \<Rightarrow> Inl e
      | Inr old \<Rightarrow> Inr (c\<lparr>registers := (registers c)(r := old), memory := (memory c)(a \<mapsto> Num (registers c r + old))\<rparr>)) \<and>
   rbind (call t c) ret = Inr (c\<lparr>memory := (memory c)(registers c REG_SP - 4 \<mapsto> Num (PC c))\<rparr>)"
  by (cases c) (auto simp: atomic_exchange_def fetchadd_def call_def ret_def Let_def set_reg_def set_mem_def read_mem_def
      rbind_def fun_eq_iff split: sum.split option.split cell.split)

text \<open>
  \<open>lea\<close> does not protect the commas inside parentheses as \<open>mov\<close> does, so the form with two registers that its arguments are
  documented to have ends the program, while the same operand of a \<open>mov\<close> is accepted. A second declaration of a variable
  is accepted and moves it, since the check looks up the word \<open>.var\<close> and not the name. The hidden
  zero register can be written, after which a direct address is no longer direct.
\<close>

theorem loader_and_register_defects:
  "parse_instr c ''lea 10(%ax,%bx), %cx'' = Inl (SystemExit 1) \<and>
   parse_instr c ''mov 10(%ax,%bx), %cx'' = Inr (Move_m_to_r 10 REG_AX REG_BX 1 REG_CX) \<and>
   rfold (first_pass 1000) [''.var x'', ''.var x''] (c\<lparr>vars := []\<rparr>, 1000, 100) = Inr (c\<lparr>vars := [(''x'', 104)]\<rparr>, 1000, 108) \<and>
   parse_instr c ''mov $1, %zero'' = Inr (Move_i_to_r 1 REG_ZERO) \<and>
   address (set_reg REG_ZERO 1 c) 100 REG_ZERO REG_ZERO 1 = 102"
proof -
  have l: "clean_line ''.var x'' = Inr ''.var x''" "py_words ''.var x'' = [''.var'', ''x'']" by code_simp+
  have "rfold (first_pass 1000) [''.var x'', ''.var x''] (c\<lparr>vars := []\<rparr>, 1000, 100) = Inr (c\<lparr>vars := [(''x'', 104)]\<rparr>, 1000, 108)"
    by (simp add: first_pass_def l zassert_def)
  then show ?thesis
    by (simp add: parse_instr_def opcodes_def split_first_def Let_def is_space_def parse_mov_def parse_lea_def two_args_def
      removecommas.simps zassert_def getarg_def py_get_def strip_def lstrip_def rstrip_def split_once_def regnames_def register_translate_def
      is_digit_def is_alpha_def isdigit_def py_int_def nat_text_def digit_val_def split_str.simps getregname_def address_def set_reg_def)
qed

end
