(* ===== verification/Vsfs.thy ===== *)
theory Vsfs
  imports PyString
begin

text \<open>
  The very simple file system of \<open>file-implementation/vsfs.py\<close>: bitmaps, data blocks, inodes, the file system with its
  operations and the generator of random requests. Bitmaps are an instance of an allocator of slots, and
  the invariant of the file system (bitmaps, inodes, blocks, directory entries, reference counts and
  the two lists of names agree) is preserved by every request, so no assertion of the code can fail.
\<close>

section \<open>Bitmaps\<close>

record bitmap =
  size_of :: nat
  bmap :: "bool list"
  numAllocated :: int

definition bitmap_init :: "nat \<Rightarrow> bitmap" where
  "bitmap_init n = \<lparr>size_of = n, bmap = replicate n False, numAllocated = 0\<rparr>"

definition bitmap_alloc :: "bitmap \<Rightarrow> nat option \<times> bitmap" where
  "bitmap_alloc b =
     (case index_of False (bmap b) of
        None \<Rightarrow> (None, b)
      | Some n \<Rightarrow> (Some n, b\<lparr>bmap := (bmap b)[n := True], numAllocated := numAllocated b + 1\<rparr>))"

definition bitmap_free :: "nat \<Rightarrow> bitmap \<Rightarrow> bitmap res" where
  "bitmap_free n b =
     (if n < length (bmap b) then
        rbind (py_assert (bmap b ! n)) (\<lambda>_.
        Inr (b\<lparr>bmap := (bmap b)[n := False], numAllocated := numAllocated b - 1\<rparr>))
      else Inl IndexError)"

definition markAllocated :: "nat \<Rightarrow> bitmap \<Rightarrow> bitmap res" where
  "markAllocated n b =
     (if n < length (bmap b) then
        rbind (py_assert (\<not> bmap b ! n)) (\<lambda>_.
        Inr (b\<lparr>bmap := (bmap b)[n := True], numAllocated := numAllocated b + 1\<rparr>))
      else Inl IndexError)"

definition numFree :: "bitmap \<Rightarrow> int" where
  "numFree b = int (size_of b) - numAllocated b"

definition bitmap_dump :: "bitmap \<Rightarrow> string" where
  "bitmap_dump b = map (\<lambda>x. if x then CHR ''1'' else CHR ''0'') (bmap b)"

section \<open>Blocks\<close>

datatype ftype = Free | File | Dir

record block =
  bftype :: ftype
  dirUsed :: int
  maxUsed :: int
  dirList :: "(string \<times> nat) list"
  bdata :: string

definition block_init :: "ftype \<Rightarrow> block" where
  "block_init t = \<lparr>bftype = t, dirUsed = 0, maxUsed = 32, dirList = [], bdata = []\<rparr>"

definition ftype_text :: "ftype \<Rightarrow> string" where
  "ftype_text t = (case t of Free \<Rightarrow> ''free'' | File \<Rightarrow> ''f'' | Dir \<Rightarrow> ''d'')"

definition block_dump :: "block \<Rightarrow> string" where
  "block_dump b =
     (case bftype b of
        Free \<Rightarrow> ''[]''
      | Dir \<Rightarrow> ''['' @ foldl (\<lambda>rc (n, i). let short = ''('' @ n @ '','' @ show_nat i @ '')'' in
                 if rc = [] then short else rc @ '' '' @ short) [] (dirList b) @ '']''
      | File \<Rightarrow> ''['' @ bdata b @ '']'')"

definition setType :: "ftype \<Rightarrow> block \<Rightarrow> block res" where
  "setType t b = rbind (py_assert (bftype b = Free)) (\<lambda>_. Inr (b\<lparr>bftype := t\<rparr>))"

definition addData :: "string \<Rightarrow> block \<Rightarrow> block res" where
  "addData d b = rbind (py_assert (bftype b = File)) (\<lambda>_. Inr (b\<lparr>bdata := d\<rparr>))"

definition getFreeEntries :: "block \<Rightarrow> int res" where
  "getFreeEntries b = rbind (py_assert (bftype b = Dir)) (\<lambda>_. Inr (maxUsed b - dirUsed b))"

definition addDirEntry :: "string \<Rightarrow> nat \<Rightarrow> block \<Rightarrow> block res" where
  "addDirEntry name inum b =
     rbind (py_assert (bftype b = Dir)) (\<lambda>_.
     let b' = b\<lparr>dirList := dirList b @ [(name, inum)], dirUsed := dirUsed b + 1\<rparr> in
     rbind (py_assert (dirUsed b' \<le> maxUsed b')) (\<lambda>_. Inr b'))"

fun find_entry :: "string \<Rightarrow> (string \<times> nat) list \<Rightarrow> nat option" where
  "find_entry n [] = None"
| "find_entry n ((m, i) # es) = (if m = n then Some 0 else map_option Suc (find_entry n es))"

definition delDirEntry :: "string \<Rightarrow> block \<Rightarrow> block res" where
  "delDirEntry name b =
     rbind (py_assert (bftype b = Dir)) (\<lambda>_.
     case find_entry (last (py_split CHR ''/'' name)) (dirList b) of
       None \<Rightarrow> Inl AssertionError
     | Some i \<Rightarrow> Inr (b\<lparr>dirList := delete_at i (dirList b), dirUsed := dirUsed b - 1\<rparr>))"

definition dirEntryExists :: "string \<Rightarrow> block \<Rightarrow> bool res" where
  "dirEntryExists name b = rbind (py_assert (bftype b = Dir)) (\<lambda>_. Inr (\<exists>e \<in> set (dirList b). fst e = name))"

definition block_free :: "block \<Rightarrow> block res" where
  "block_free b =
     rbind (py_assert (bftype b \<noteq> Free)) (\<lambda>_.
     rbind (if bftype b = Dir then rbind (py_assert (dirUsed b = 2)) (\<lambda>_. Inr (b\<lparr>dirUsed := 0\<rparr>)) else Inr b) (\<lambda>b'.
     Inr (b'\<lparr>bdata := [], bftype := Free\<rparr>)))"

section \<open>Inodes\<close>

text \<open>\<open>addr\<close> is \<open>-1\<close> (here \<open>None\<close>) for a file without data.\<close>

record inode =
  iftype :: ftype
  addr :: "nat option"
  refCnt :: int

definition inode_init :: inode where
  "inode_init = \<lparr>iftype = Free, addr = None, refCnt = 1\<rparr>"

definition inode_setAll :: "ftype \<Rightarrow> nat option \<Rightarrow> int \<Rightarrow> inode \<Rightarrow> inode" where
  "inode_setAll t a r i = i\<lparr>iftype := t, addr := a, refCnt := r\<rparr>"

definition getSize :: "inode \<Rightarrow> nat" where
  "getSize i = (if addr i = None then 0 else 1)"

definition inode_free :: "inode \<Rightarrow> inode" where
  "inode_free i = i\<lparr>iftype := Free, addr := None\<rparr>"

section \<open>The file system\<close>

record fs =
  ibitmap :: bitmap
  inodes :: "inode list"
  dbitmap :: bitmap
  blocks :: "block list"
  files :: "string list"
  dirs :: "string list"
  nameToInum :: "(string, nat) dict"

text \<open>Access to an inode, a block and its update; \<open>data[-1]\<close> is the last block.\<close>

definition get_inode :: "nat \<Rightarrow> fs \<Rightarrow> inode res" where
  "get_inode i s = py_get (inodes s) (int i)"

definition upd_inode :: "nat \<Rightarrow> (inode \<Rightarrow> inode) \<Rightarrow> fs \<Rightarrow> fs res" where
  "upd_inode i f s = rbind (get_inode i s) (\<lambda>x. Inr (s\<lparr>inodes := (inodes s)[i := f x]\<rparr>))"

definition block_index :: "nat option \<Rightarrow> fs \<Rightarrow> nat res" where
  "block_index a s =
     (case a of
        Some b \<Rightarrow> if b < length (blocks s) then Inr b else Inl IndexError
      | None \<Rightarrow> if blocks s = [] then Inl IndexError else Inr (length (blocks s) - 1))"

definition upd_block :: "nat option \<Rightarrow> (block \<Rightarrow> block res) \<Rightarrow> fs \<Rightarrow> fs res" where
  "upd_block a f s = rbind (block_index a s) (\<lambda>b. rbind (f (blocks s ! b)) (\<lambda>x. Inr (s\<lparr>blocks := (blocks s)[b := x]\<rparr>)))"

definition ROOT :: nat where
  "ROOT = 0"

definition fs_init :: "nat \<Rightarrow> nat \<Rightarrow> fs res" where
  "fs_init numInodes numData =
     rbind (markAllocated ROOT (bitmap_init numInodes)) (\<lambda>ib.
     rbind (markAllocated ROOT (bitmap_init numData)) (\<lambda>db.
     let s = \<lparr>ibitmap = ib, inodes = replicate numInodes inode_init, dbitmap = db,
              blocks = replicate numData (block_init Free), files = [], dirs = [''/''], nameToInum = [(''/'', ROOT)]\<rparr> in
     rbind (upd_inode ROOT (inode_setAll Dir (Some 0) 2) s) (\<lambda>s.
     rbind (upd_block (Some 0) (setType Dir) s) (\<lambda>s.
     rbind (upd_block (Some 0) (addDirEntry ''.'' ROOT) s) (\<lambda>s.
     upd_block (Some 0) (addDirEntry ''..'' ROOT) s)))))"

definition fs_dump :: "fs \<Rightarrow> string \<times> (ftype \<times> nat option \<times> int) option list \<times> string \<times> string list" where
  "fs_dump s =
     (bitmap_dump (ibitmap s),
      map (\<lambda>i. if iftype i = Free then None else Some (iftype i, addr i, refCnt i)) (inodes s),
      bitmap_dump (dbitmap s), map block_dump (blocks s))"

definition name_chars :: string where
  "name_chars = ''abcdefghjkmnopqrstuvwxyz''"

definition makeName :: "draw \<Rightarrow> string" where
  "makeName k = [name_chars ! pick k (length name_chars)]"

definition inodeAlloc :: "fs \<Rightarrow> nat option \<times> fs" where
  "inodeAlloc s = (let (n, b) = bitmap_alloc (ibitmap s) in (n, s\<lparr>ibitmap := b\<rparr>))"

definition inodeFree :: "nat \<Rightarrow> fs \<Rightarrow> fs res" where
  "inodeFree i s = rbind (bitmap_free i (ibitmap s)) (\<lambda>b. upd_inode i inode_free (s\<lparr>ibitmap := b\<rparr>))"

definition dataAlloc :: "fs \<Rightarrow> nat option \<times> fs" where
  "dataAlloc s = (let (n, b) = bitmap_alloc (dbitmap s) in (n, s\<lparr>dbitmap := b\<rparr>))"

definition dataFree :: "nat \<Rightarrow> fs \<Rightarrow> fs res" where
  "dataFree n s = rbind (bitmap_free n (dbitmap s)) (\<lambda>b. upd_block (Some n) block_free (s\<lparr>dbitmap := b\<rparr>))"

definition getParent :: "string \<Rightarrow> string" where
  "getParent name =
     (let tmp = py_split CHR ''/'' name in
      if length tmp = 2 then ''/''
      else foldl (\<lambda>pname t. pname @ ''/'' @ t) [] (butlast (tl tmp)))"

definition deleteFile :: "string \<Rightarrow> fs \<Rightarrow> fs res" where
  "deleteFile tfile s =
     rbind (dict_get (nameToInum s) tfile) (\<lambda>inum.
     rbind (get_inode inum s) (\<lambda>ino.
     rbind (if refCnt ino = 1 then
              rbind (case addr ino of None \<Rightarrow> Inr s | Some b \<Rightarrow> dataFree b s) (inodeFree inum)
            else upd_inode inum (\<lambda>i. i\<lparr>refCnt := refCnt i - 1\<rparr>) s) (\<lambda>s1.
     rbind (dict_get (nameToInum s1) (getParent tfile)) (\<lambda>pinum.
     rbind (get_inode pinum s1) (\<lambda>pino.
     rbind (if iftype ino = Dir then upd_inode pinum (\<lambda>i. i\<lparr>refCnt := refCnt i - 1\<rparr>) s1 else Inr s1) (\<lambda>s2.
     rbind (upd_block (addr pino) (delDirEntry tfile) s2) (\<lambda>s3.
     rbind (py_remove (files s3) tfile) (\<lambda>fl. Inr (s3\<lparr>files := fl\<rparr>)))))))))"

definition createLink :: "string \<Rightarrow> string \<Rightarrow> string \<Rightarrow> fs \<Rightarrow> (nat option \<times> fs) res" where
  "createLink target newfile parent s =
     rbind (dict_get (nameToInum s) parent) (\<lambda>parentInum.
     rbind (get_inode parentInum s) (\<lambda>pino.
     rbind (block_index (addr pino) s) (\<lambda>pblock.
     rbind (getFreeEntries (blocks s ! pblock)) (\<lambda>fe.
     if fe \<le> 0 then Inr (None, s)
     else
       rbind (dirEntryExists newfile (blocks s ! pblock)) (\<lambda>ex.
       if ex then Inr (None, s)
       else
         rbind (dict_get (nameToInum s) target) (\<lambda>tinum.
         rbind (upd_inode tinum (\<lambda>i. i\<lparr>refCnt := refCnt i + 1\<rparr>) s) (\<lambda>s1.
         rbind (upd_block (addr pino) (addDirEntry (last (py_split CHR ''/'' newfile)) tinum) s1) (\<lambda>s2.
         Inr (Some tinum, s2)))))))))"

definition createFile :: "string \<Rightarrow> string \<Rightarrow> ftype \<Rightarrow> fs \<Rightarrow> (nat option \<times> fs) res" where
  "createFile parent newfile t s =
     rbind (dict_get (nameToInum s) parent) (\<lambda>parentInum.
     rbind (get_inode parentInum s) (\<lambda>pino.
     rbind (block_index (addr pino) s) (\<lambda>pblock.
     rbind (getFreeEntries (blocks s ! pblock)) (\<lambda>fe.
     if fe \<le> 0 then Inr (None, s)
     else
       rbind (dirEntryExists newfile (blocks s ! pblock)) (\<lambda>ex.
       if ex then Inr (None, s)
       else
         case inodeAlloc s of
           (None, s1) \<Rightarrow> Inr (None, s1)
         | (Some inum, s1) \<Rightarrow>
             if t = Dir then
               (case dataAlloc s1 of
                  (None, s2) \<Rightarrow> rbind (inodeFree inum s2) (\<lambda>s3. Inr (None, s3))
                | (Some fblock, s2) \<Rightarrow>
                    rbind (upd_block (Some fblock) (setType Dir) s2) (\<lambda>s3.
                    rbind (upd_block (Some fblock) (addDirEntry ''.'' inum) s3) (\<lambda>s4.
                    rbind (upd_block (Some fblock) (addDirEntry ''..'' parentInum) s4) (\<lambda>s5.
                    rbind (upd_inode inum (inode_setAll t (Some fblock) 2) s5) (\<lambda>s6.
                    rbind (upd_inode parentInum (\<lambda>i. i\<lparr>refCnt := refCnt i + 1\<rparr>) s6) (\<lambda>s7.
                    rbind (upd_block (addr pino) (addDirEntry newfile inum) s7) (\<lambda>s8.
                    Inr (Some inum, s8))))))))
             else
               rbind (upd_inode inum (inode_setAll t None 1) s1) (\<lambda>s2.
               rbind (upd_block (addr pino) (addDirEntry newfile inum) s2) (\<lambda>s3.
               Inr (Some inum, s3))))))))"

definition writeFile :: "string \<Rightarrow> string \<Rightarrow> fs \<Rightarrow> (bool \<times> fs) res" where
  "writeFile tfile d s =
     rbind (dict_get (nameToInum s) tfile) (\<lambda>inum.
     rbind (get_inode inum s) (\<lambda>ino.
     if getSize ino = 1 then Inr (False, s)
     else
       case dataAlloc s of
         (None, s1) \<Rightarrow> Inr (False, s1)
       | (Some fblock, s1) \<Rightarrow>
           rbind (upd_block (Some fblock) (setType File) s1) (\<lambda>s2.
           rbind (upd_block (Some fblock) (addData d) s2) (\<lambda>s3.
           rbind (upd_inode inum (\<lambda>i. i\<lparr>addr := Some fblock\<rparr>) s3) (\<lambda>s4.
           Inr (True, s4))))))"

section \<open>Random requests\<close>

text \<open>The printed operations.\<close>

datatype op = Unlink string | Link_Op string string | Mkdir string | Creat string | Append string

definition fullName :: "string \<Rightarrow> string \<Rightarrow> string" where
  "fullName parent nfile = (if parent = ''/'' then parent @ nfile else parent @ ''/'' @ nfile)"

definition pick_one :: "'a list \<Rightarrow> draw \<Rightarrow> 'a res" where
  "pick_one xs k = py_get xs (int (pick k (length xs)))"

text \<open>A request: the operation if it took place, the new state and the draws left.\<close>

definition doDelete :: "fs \<Rightarrow> draw list \<Rightarrow> (op option \<times> fs \<times> draw list) res" where
  "doDelete s ds =
     (if files s = [] then Inr (None, s, ds)
      else
        rbind (next_draw ds) (\<lambda>(k, ds1). rbind (pick_one (files s) k) (\<lambda>dfile.
        rbind (deleteFile dfile s) (\<lambda>s1. Inr (Some (Unlink dfile), s1, ds1)))))"

definition doLink :: "fs \<Rightarrow> draw list \<Rightarrow> (op option \<times> fs \<times> draw list) res" where
  "doLink s ds =
     (if files s = [] then Inr (None, s, ds)
      else
        rbind (next_draw ds) (\<lambda>(k1, ds1). rbind (pick_one (dirs s) k1) (\<lambda>parent.
        rbind (next_draw ds1) (\<lambda>(k2, ds2). let nfile = makeName k2 in
        rbind (next_draw ds2) (\<lambda>(k3, ds3). rbind (pick_one (files s) k3) (\<lambda>target.
        rbind (createLink target nfile parent s) (\<lambda>(inum, s1).
        case inum of
          None \<Rightarrow> Inr (None, s1, ds3)
        | Some n \<Rightarrow>
            let f = fullName parent nfile in
            Inr (Some (Link_Op target f), s1\<lparr>files := files s1 @ [f], nameToInum := dict_set f n (nameToInum s1)\<rparr>, ds3))))))))"

definition doCreate :: "ftype \<Rightarrow> fs \<Rightarrow> draw list \<Rightarrow> (op option \<times> fs \<times> draw list) res" where
  "doCreate t s ds =
     rbind (next_draw ds) (\<lambda>(k1, ds1). rbind (pick_one (dirs s) k1) (\<lambda>parent.
     rbind (next_draw ds1) (\<lambda>(k2, ds2). let nfile = makeName k2 in
     rbind (createFile parent nfile t s) (\<lambda>(inum, s1).
     case inum of
       None \<Rightarrow> Inr (None, s1, ds2)
     | Some n \<Rightarrow>
         let f = fullName parent nfile;
             s2 = (if t = Dir then s1\<lparr>dirs := dirs s1 @ [f]\<rparr> else s1\<lparr>files := files s1 @ [f]\<rparr>) in
         Inr (Some (if t = Dir then Mkdir f else Creat f), s2\<lparr>nameToInum := dict_set f n (nameToInum s2)\<rparr>, ds2)))))"

definition doAppend :: "fs \<Rightarrow> draw list \<Rightarrow> (op option \<times> fs \<times> draw list) res" where
  "doAppend s ds =
     (if files s = [] then Inr (None, s, ds)
      else
        rbind (next_draw ds) (\<lambda>(k1, ds1). rbind (pick_one (files s) k1) (\<lambda>afile.
        rbind (next_draw ds1) (\<lambda>(k2, ds2).
        rbind (writeFile afile [char_of (97 + pick k2 26)] s) (\<lambda>(ok, s1).
        Inr (if ok then Some (Append afile) else None, s1, ds2))))))"

text \<open>The literals 0.3, 0.5, 0.7 and 0.75 as floats, against a draw \<open>k / 2 ^ 53\<close>.\<close>

definition request :: "fs \<Rightarrow> draw list \<Rightarrow> (op option \<times> fs \<times> draw list) res" where
  "request s ds =
     rbind (next_draw ds) (\<lambda>(k, ds1).
     if k < 2702159776422298 then doAppend s ds1
     else if k < 4503599627370496 then doDelete s ds1
     else if k < 6305039478318694 then doLink s ds1
     else
       rbind (next_draw ds1) (\<lambda>(k', ds2).
       if k' < 6755399441055744 then doCreate File s ds2 else doCreate Dir s ds2))"

text \<open>The \<open>while rc == -1\<close> loop; each pass uses a draw, so the draws bound its passes.\<close>

fun attempt :: "nat \<Rightarrow> fs \<Rightarrow> draw list \<Rightarrow> (op \<times> fs \<times> draw list) res" where
  "attempt 0 s ds = Inl Out_Of_Fuel"
| "attempt (Suc n) s ds =
     rbind (request s ds) (\<lambda>(rc, s1, ds1).
     if numFree (ibitmap s1) = 0 then Inl (SystemExit 1)
     else if numFree (dbitmap s1) = 0 then Inl (SystemExit 1)
     else case rc of None \<Rightarrow> attempt n s1 ds1 | Some p \<Rightarrow> Inr (p, s1, ds1))"

fun vsfs_run :: "nat \<Rightarrow> op list \<Rightarrow> fs \<Rightarrow> draw list \<Rightarrow> (op list \<times> fs) res" where
  "vsfs_run 0 ops s ds = Inr (ops, s)"
| "vsfs_run (Suc n) ops s ds =
     rbind (attempt (Suc (length ds)) s ds) (\<lambda>(p, s1, ds1). vsfs_run n (ops @ [p]) s1 ds1)"

record vsfs_options =
  o_numInodes :: nat
  o_numData :: nat
  o_numRequests :: nat

definition vsfs_defaults :: vsfs_options where
  "vsfs_defaults = \<lparr>o_numInodes = 8, o_numData = 8, o_numRequests = 10\<rparr>"

definition vsfs_main :: "vsfs_options \<Rightarrow> draw list \<Rightarrow> (op list \<times> fs) res" where
  "vsfs_main opt ds =
     rbind (fs_init (o_numInodes opt) (o_numData opt)) (\<lambda>s. vsfs_run (o_numRequests opt) [] s ds)"


section \<open>Allocators of slots\<close>

text \<open>
  The contract of the two bitmaps: \<open>slots s xs\<close> says that the allocator stands for the slots \<open>xs\<close>, taken or not. An
  allocation gives a slot that was not taken and fails only when all are; a taken slot can be given back.
\<close>

locale slot_allocator =
  fixes slots :: "'s \<Rightarrow> bool list \<Rightarrow> bool"
    and alloc :: "'s \<Rightarrow> nat option \<times> 's"
    and release :: "nat \<Rightarrow> 's \<Rightarrow> 's res"
  assumes alloc_room: "slots s xs \<Longrightarrow> False \<in> set xs \<Longrightarrow>
      \<exists>n s'. alloc s = (Some n, s') \<and> n < length xs \<and> \<not> xs ! n \<and> slots s' (xs[n := True])"
    and alloc_full: "slots s xs \<Longrightarrow> False \<notin> set xs \<Longrightarrow> alloc s = (None, s)"
    and release_law: "slots s xs \<Longrightarrow> n < length xs \<Longrightarrow> xs ! n \<Longrightarrow> \<exists>s'. release n s = Inr s' \<and> slots s' (xs[n := False])"
begin

lemma alloc_cases:
  assumes "slots s xs"
  obtains (full) "alloc s = (None, s)" "False \<notin> set xs"
  | (got) n s' where "alloc s = (Some n, s')" "n < length xs" "\<not> xs ! n" "slots s' (xs[n := True])"
  using alloc_room [OF assms] alloc_full [OF assms] by blast

lemma alloc_release:
  assumes "slots s xs" "alloc s = (Some n, s')"
  shows "\<exists>t. release n s' = Inr t \<and> slots t xs"
  using assms(1)
proof (cases rule: alloc_cases)
  case (got m t)
  then have e: "m = n" "t = s'" using assms(2) by auto
  obtain u where "release n s' = Inr u" "slots u (xs[n := True, n := False])"
    using release_law [of s' "xs[n := True]" n] got e by auto
  moreover have "xs[n := True, n := False] = xs" using got e by (metis (full_types) list_update_id list_update_overwrite)
  ultimately show ?thesis by auto
qed (use assms(2) in auto)

lemma alloc_distinct:
  assumes "slots s xs" "alloc s = (Some n, s')" "alloc s' = (Some m, s'')"
  shows "m \<noteq> n"
  using assms(1)
proof (cases rule: alloc_cases)
  case (got k t)
  then have s': "slots s' (xs[n := True])" "n < length xs" using assms(2) by auto
  show ?thesis
    using s'(1)
  proof (cases rule: alloc_cases)
    case (got m' u)
    then show ?thesis using assms(3) s'(2) by auto
  qed (use assms(3) in auto)
qed (use assms(2) in auto)

end

definition tracks :: "bitmap \<Rightarrow> bool list \<Rightarrow> bool" where
  "tracks b xs \<longleftrightarrow> size_of b = length xs \<and> bmap b = xs \<and> numAllocated b = int (length (filter id xs))"

lemma count_flip:
  "n < length xs \<Longrightarrow> \<not> xs ! n \<Longrightarrow> length (filter id (xs[n := True])) = Suc (length (filter id xs))"
  "n < length xs \<Longrightarrow> xs ! n \<Longrightarrow> Suc (length (filter id (xs[n := False]))) = length (filter id xs)"
proof -
  show t: "n < length xs \<Longrightarrow> \<not> xs ! n \<Longrightarrow> length (filter id (xs[n := True])) = Suc (length (filter id xs))" for n xs
  proof (induction xs arbitrary: n)
    case (Cons x xs)
    then show ?case by (cases n) auto
  qed simp
  show "n < length xs \<Longrightarrow> xs ! n \<Longrightarrow> Suc (length (filter id (xs[n := False]))) = length (filter id xs)"
    using t [of n "xs[n := False]"] by (metis (full_types) length_list_update list_update_id list_update_overwrite nth_list_update_eq)
qed

interpretation bitmaps: slot_allocator tracks bitmap_alloc bitmap_free
proof
  fix s xs n
  assume t: "tracks s xs"
  show "\<exists>n s'. bitmap_alloc s = (Some n, s') \<and> n < length xs \<and> \<not> xs ! n \<and> tracks s' (xs[n := True])" if f: "False \<in> set xs"
  proof -
    obtain n where n: "index_of False (bmap s) = Some n" using f t by (cases "index_of False (bmap s)") (auto simp: tracks_def)
    then have "n < length xs" "\<not> xs ! n" using index_of_Some t by (fastforce simp: tracks_def)+
    then show ?thesis using n t count_flip(1) [of n xs] by (simp add: bitmap_alloc_def tracks_def)
  qed
  show "bitmap_alloc s = (None, s)" if "False \<notin> set xs"
  proof -
    have "index_of False (bmap s) = None" using that t by (simp add: tracks_def)
    then show ?thesis unfolding bitmap_alloc_def by (simp only: option.case)
  qed
  show "\<exists>s'. bitmap_free n s = Inr s' \<and> tracks s' (xs[n := False])" if "n < length xs" "xs ! n"
    using that t count_flip(2) [of n xs] by (simp add: bitmap_free_def tracks_def)
qed

section \<open>Paths\<close>

definition name_ok :: "string \<Rightarrow> bool" where
  "name_ok n \<longleftrightarrow> n \<noteq> [] \<and> CHR ''/'' \<notin> set n \<and> n \<noteq> ''.'' \<and> n \<noteq> ''..''"

definition path_of :: "string list \<Rightarrow> string" where
  "path_of cs = concat (map (\<lambda>c. CHR ''/'' # c) cs)"

definition valid_path :: "string \<Rightarrow> bool" where
  "valid_path d \<longleftrightarrow> d = ''/'' \<or> (\<exists>cs. cs \<noteq> [] \<and> d = path_of cs \<and> (\<forall>c \<in> set cs. name_ok c))"

lemma split_path_of: "\<forall>c \<in> set cs. CHR ''/'' \<notin> set c \<Longrightarrow> py_split CHR ''/'' (path_of cs) = [] # cs"
proof (induction cs rule: rev_induct)
  case (snoc c cs)
  have s: "CHR ''/'' \<notin> set t \<Longrightarrow> py_split CHR ''/'' (s @ CHR ''/'' # t) = py_split CHR ''/'' s @ [t]" for s t
    by (induction s) (auto simp: py_split_plain split: list.splits)
  show ?case using snoc s [of c "path_of cs"] by (simp add: path_of_def)
qed (simp add: path_of_def)

lemma foldl_path: "foldl (\<lambda>p t. p @ CHR ''/'' # t) a cs = a @ path_of cs"
  by (induction cs arbitrary: a) (auto simp: path_of_def)

lemma fullName_parts:
  assumes d: "valid_path d" and n: "name_ok n"
  shows "getParent (fullName d n) = d" and "last (py_split CHR ''/'' (fullName d n)) = n"
    and "valid_path (fullName d n)" and "fullName d n \<noteq> ''/''"
proof -
  have sl: "CHR ''/'' \<notin> set n" "n \<noteq> []" using n by (auto simp: name_ok_def)
  have "getParent (fullName d n) = d \<and> last (py_split CHR ''/'' (fullName d n)) = n \<and> valid_path (fullName d n) \<and> fullName d n \<noteq> ''/''"
  proof (cases "d = ''/''")
    case True
    have "fullName d n = path_of [n]" using True by (simp add: fullName_def path_of_def)
    then show ?thesis using True sl n split_path_of [of "[n]"]
      by (auto simp: getParent_def Let_def valid_path_def path_of_def intro!: exI [of _ "[n]"])
  next
    case False
    then obtain cs where cs: "cs \<noteq> []" "d = path_of cs" "\<forall>c \<in> set cs. name_ok c" using d by (auto simp: valid_path_def)
    then have f: "fullName d n = path_of (cs @ [n])" using False by (simp add: fullName_def path_of_def)
    have sp: "py_split CHR ''/'' (path_of (cs @ [n])) = [] # cs @ [n]"
      using split_path_of [of "cs @ [n]"] cs(3) sl by (auto simp: name_ok_def)
    have "valid_path (path_of (cs @ [n]))" unfolding valid_path_def using cs(3) n by (intro disjI2 exI [of _ "cs @ [n]"]) auto
    moreover have "getParent (path_of (cs @ [n])) = path_of cs"
      using sp cs(1) by (simp add: getParent_def Let_def foldl_path)
    moreover have "path_of (cs @ [n]) \<noteq> ''/''" using sp sl cs(1) by (auto simp: path_of_def neq_Nil_conv)
    ultimately show ?thesis using f sp cs(2) by simp
  qed
  then show "getParent (fullName d n) = d" "last (py_split CHR ''/'' (fullName d n)) = n"
    "valid_path (fullName d n)" "fullName d n \<noteq> ''/''" by auto
qed

lemma fullName_inject:
  assumes "valid_path d" "valid_path d'" "name_ok n" "name_ok n'"
  shows "fullName d n = fullName d' n' \<longleftrightarrow> d = d' \<and> n = n'"
  using fullName_parts(1,2) [OF assms(1,3)] fullName_parts(1,2) [OF assms(2,4)] by auto

lemma getParent_root: "getParent ''/'' = ''/''"
  by (simp add: getParent_def)

lemma makeName_ok: "valid_draw k \<Longrightarrow> name_ok (makeName k)"
proof -
  assume "valid_draw k"
  then have "pick k (length name_chars) < length name_chars" by (rule pick_less) (simp add: name_chars_def)
  then have "name_chars ! pick k (length name_chars) \<in> set name_chars" by (rule nth_mem)
  then show ?thesis by (auto simp: makeName_def name_ok_def name_chars_def)
qed

section \<open>The disk: bitmaps, inodes and blocks agree\<close>

definition used_inodes :: "fs \<Rightarrow> bool list" where
  "used_inodes s = map (\<lambda>i. iftype i \<noteq> Free) (inodes s)"

definition used_blocks :: "fs \<Rightarrow> bool list" where
  "used_blocks s = map (\<lambda>b. bftype b \<noteq> Free) (blocks s)"

definition block_ok :: "block \<Rightarrow> bool" where
  "block_ok b \<longleftrightarrow> maxUsed b = 32 \<and> dirUsed b = int (length (dirList b)) \<and> (bftype b \<noteq> Dir \<longrightarrow> dirList b = [])"

text \<open>Every block in use belongs to exactly one inode, of the same type.\<close>

definition owned :: "fs \<Rightarrow> bool" where
  "owned s \<longleftrightarrow>
     (\<forall>i < length (inodes s). \<forall>b. addr (inodes s ! i) = Some b \<longrightarrow> b < length (blocks s) \<and>
        iftype (inodes s ! i) \<noteq> Free \<and> bftype (blocks s ! b) = iftype (inodes s ! i)) \<and>
     (\<forall>i < length (inodes s). \<forall>j < length (inodes s). \<forall>b.
        addr (inodes s ! i) = Some b \<longrightarrow> addr (inodes s ! j) = Some b \<longrightarrow> i = j) \<and>
     (\<forall>b < length (blocks s). bftype (blocks s ! b) \<noteq> Free \<longrightarrow> (\<exists>i < length (inodes s). addr (inodes s ! i) = Some b))"

definition disk_ok :: "fs \<Rightarrow> bool" where
  "disk_ok s \<longleftrightarrow> tracks (ibitmap s) (used_inodes s) \<and> tracks (dbitmap s) (used_blocks s) \<and> owned s \<and>
     (\<forall>b \<in> set (blocks s). block_ok b)"

lemma used_inodes_update: "used_inodes (s\<lparr>inodes := (inodes s)[i := x]\<rparr>) = (used_inodes s)[i := iftype x \<noteq> Free]"
  by (simp add: used_inodes_def map_update)

lemma used_blocks_update: "used_blocks (s\<lparr>blocks := (blocks s)[b := y]\<rparr>) = (used_blocks s)[b := bftype y \<noteq> Free]"
  by (simp add: used_blocks_def map_update)

lemma used_nth:
  "i < length (inodes s) \<Longrightarrow> used_inodes s ! i \<longleftrightarrow> iftype (inodes s ! i) \<noteq> Free"
  "b < length (blocks s) \<Longrightarrow> used_blocks s ! b \<longleftrightarrow> bftype (blocks s ! b) \<noteq> Free"
  "length (used_inodes s) = length (inodes s)" "length (used_blocks s) = length (blocks s)"
  by (simp_all add: used_inodes_def used_blocks_def)

lemma all_update: "\<forall>b \<in> set xs. P b \<Longrightarrow> P y \<Longrightarrow> \<forall>b \<in> set (xs[i := y]). P b"
  using set_update_subset_insert [of xs i y] by auto

lemma used_same:
  "i < length (inodes s) \<Longrightarrow> iftype x = iftype (inodes s ! i) \<Longrightarrow> used_inodes (s\<lparr>inodes := (inodes s)[i := x]\<rparr>) = used_inodes s"
  "b < length (blocks s) \<Longrightarrow> bftype y = bftype (blocks s ! b) \<Longrightarrow> used_blocks (s\<lparr>blocks := (blocks s)[b := y]\<rparr>) = used_blocks s"
proof -
  show "used_inodes (s\<lparr>inodes := (inodes s)[i := x]\<rparr>) = used_inodes s"
    if "i < length (inodes s)" "iftype x = iftype (inodes s ! i)"
    using that used_nth(1) [OF that(1)] list_update_id [of "used_inodes s" i] by (simp add: used_inodes_update)
  show "used_blocks (s\<lparr>blocks := (blocks s)[b := y]\<rparr>) = used_blocks s"
    if "b < length (blocks s)" "bftype y = bftype (blocks s ! b)"
    using that used_nth(2) [OF that(1)] list_update_id [of "used_blocks s" b] by (simp add: used_blocks_update)
qed

text \<open>The six ways in which a request changes the disk.\<close>

lemma disk_inode:
  assumes "disk_ok s" "i < length (inodes s)" "iftype x = iftype (inodes s ! i)" "addr x = addr (inodes s ! i)"
  shows "disk_ok (s\<lparr>inodes := (inodes s)[i := x]\<rparr>)"
proof -
  have "iftype ((inodes s)[i := x] ! j) = iftype (inodes s ! j)" "addr ((inodes s)[i := x] ! j) = addr (inodes s ! j)"
    for j using assms(2-4) by (cases "j = i"; simp)+
  then have "owned (s\<lparr>inodes := (inodes s)[i := x]\<rparr>)" using assms(1) by (simp add: disk_ok_def owned_def)
  then show ?thesis using assms used_same(1) [OF assms(2,3)] by (simp add: disk_ok_def used_blocks_def)
qed

lemma disk_block:
  assumes "disk_ok s" "b < length (blocks s)" "bftype y = bftype (blocks s ! b)" "block_ok y"
  shows "disk_ok (s\<lparr>blocks := (blocks s)[b := y]\<rparr>)"
proof -
  have "bftype ((blocks s)[b := y] ! j) = bftype (blocks s ! j)" for j using assms(2,3) by (cases "j = b") simp_all
  then have "owned (s\<lparr>blocks := (blocks s)[b := y]\<rparr>)" using assms(1) by (simp add: disk_ok_def owned_def)
  then show ?thesis using assms used_same(2) [OF assms(2,3)] all_update [of "blocks s" block_ok y b]
    by (simp add: disk_ok_def used_inodes_def)
qed

lemma disk_new_inode:
  assumes "disk_ok s" "i < length (inodes s)" "iftype (inodes s ! i) = Free" "iftype x \<noteq> Free" "addr x = None"
    and "tracks ib ((used_inodes s)[i := True])"
  shows "disk_ok (s\<lparr>ibitmap := ib, inodes := (inodes s)[i := x]\<rparr>)"
proof -
  have o: "owned s" using assms(1) by (simp add: disk_ok_def)
  have n: "addr (inodes s ! i) = None" using o assms(2,3) by (cases "addr (inodes s ! i)") (auto simp: owned_def)
  have e: "addr ((inodes s)[i := x] ! j) = addr (inodes s ! j)" for j using assms(2,5) n by (cases "j = i") simp_all
  have f: "addr (inodes s ! j) = Some b \<Longrightarrow> iftype ((inodes s)[i := x] ! j) = iftype (inodes s ! j)" for j b
    using n by (cases "j = i") simp_all
  have "owned (s\<lparr>ibitmap := ib, inodes := (inodes s)[i := x]\<rparr>)"
    using o unfolding owned_def by (simp add: e f)
  then show ?thesis using assms used_inodes_update [of s i x] by (simp add: disk_ok_def used_blocks_def used_inodes_def)
qed

lemma disk_free_inode:
  assumes "disk_ok s" "i < length (inodes s)" "addr (inodes s ! i) = None" "iftype x = Free" "addr x = None"
    and "tracks ib ((used_inodes s)[i := False])"
  shows "disk_ok (s\<lparr>ibitmap := ib, inodes := (inodes s)[i := x]\<rparr>)"
proof -
  have o: "owned s" using assms(1) by (simp add: disk_ok_def)
  have e: "addr ((inodes s)[i := x] ! j) = addr (inodes s ! j)" for j using assms(2,3,5) by (cases "j = i") simp_all
  have f: "addr (inodes s ! j) = Some b \<Longrightarrow> iftype ((inodes s)[i := x] ! j) = iftype (inodes s ! j)" for j b
    using assms(3) by (cases "j = i") simp_all
  have "owned (s\<lparr>ibitmap := ib, inodes := (inodes s)[i := x]\<rparr>)"
    using o unfolding owned_def by (simp add: e f)
  then show ?thesis using assms used_inodes_update [of s i x] by (simp add: disk_ok_def used_blocks_def used_inodes_def)
qed

lemma disk_attach:
  assumes d: "disk_ok s" and i: "i < length (inodes s)" "addr (inodes s ! i) = None" "iftype (inodes s ! i) \<noteq> Free"
    and b: "b < length (blocks s)" "bftype (blocks s ! b) = Free" "tracks db ((used_blocks s)[b := True])"
    and x: "iftype x = iftype (inodes s ! i)" "addr x = Some b" and y: "bftype y = iftype x" "block_ok y"
  shows "disk_ok (s\<lparr>inodes := (inodes s)[i := x], dbitmap := db, blocks := (blocks s)[b := y]\<rparr>)"
proof -
  let ?t = "s\<lparr>inodes := (inodes s)[i := x], dbitmap := db, blocks := (blocks s)[b := y]\<rparr>"
  have o: "owned s" using d by (simp add: disk_ok_def)
  have fresh: "addr (inodes s ! j) \<noteq> Some b" if "j < length (inodes s)" for j
    using o b(1,2) that by (auto simp: owned_def)
  have "owned ?t"
    unfolding owned_def
  proof (intro conjI allI impI)
    fix j c assume j: "j < length (inodes ?t)" and a: "addr (inodes ?t ! j) = Some c"
    have "c < length (blocks ?t) \<and> iftype (inodes ?t ! j) \<noteq> Free \<and> bftype (blocks ?t ! c) = iftype (inodes ?t ! j)"
    proof (cases "j = i")
      case True
      then show ?thesis using a i b x y by auto
    next
      case False
      then have a': "addr (inodes s ! j) = Some c" "j < length (inodes s)" using j a by simp_all
      then have "c \<noteq> b" using fresh by auto
      moreover have "c < length (blocks s)" "iftype (inodes s ! j) \<noteq> Free" "bftype (blocks s ! c) = iftype (inodes s ! j)"
        using o a' unfolding owned_def by blast+
      ultimately show ?thesis using False by simp
    qed
    then show "c < length (blocks ?t)" "iftype (inodes ?t ! j) \<noteq> Free" "bftype (blocks ?t ! c) = iftype (inodes ?t ! j)"
      by blast+
  next
    fix j k c assume "j < length (inodes ?t)" "k < length (inodes ?t)" "addr (inodes ?t ! j) = Some c" "addr (inodes ?t ! k) = Some c"
    then show "j = k" using o i x fresh by (cases "j = i"; cases "k = i") (auto simp: owned_def)
  next
    fix c assume c: "c < length (blocks ?t)" "bftype (blocks ?t ! c) \<noteq> Free"
    show "\<exists>k < length (inodes ?t). addr (inodes ?t ! k) = Some c"
    proof (cases "c = b")
      case True
      then show ?thesis using i x by (intro exI [of _ i]) simp
    next
      case False
      then obtain k where k: "k < length (inodes s)" "addr (inodes s ! k) = Some c" using o c by (auto simp: owned_def)
      then have "k \<noteq> i" using i by auto
      then show ?thesis using k by (intro exI [of _ k]) simp
    qed
  qed
  moreover have "used_inodes ?t = used_inodes s" using used_same(1) [OF i(1) x(1)] by (simp add: used_inodes_def)
  moreover have "used_blocks ?t = (used_blocks s)[b := True]"
    using used_blocks_update [of s b y] y(1) x(1) i(3) by (simp add: used_blocks_def)
  ultimately show ?thesis using d b(3) y(2) all_update [of "blocks s" block_ok y b] by (simp add: disk_ok_def)
qed

lemma disk_detach:
  assumes d: "disk_ok s" and i: "i < length (inodes s)" "addr (inodes s ! i) = Some b"
    and b: "tracks db ((used_blocks s)[b := False])"
    and x: "iftype x = iftype (inodes s ! i)" "addr x = None" and y: "bftype y = Free" "block_ok y"
  shows "disk_ok (s\<lparr>inodes := (inodes s)[i := x], dbitmap := db, blocks := (blocks s)[b := y]\<rparr>)"
proof -
  let ?t = "s\<lparr>inodes := (inodes s)[i := x], dbitmap := db, blocks := (blocks s)[b := y]\<rparr>"
  have o: "owned s" using d by (simp add: disk_ok_def)
  then have bl: "b < length (blocks s)" using i by (auto simp: owned_def)
  have uniq: "j = i" if "j < length (inodes s)" "addr (inodes s ! j) = Some b" for j
    using o i that unfolding owned_def by blast
  have "owned ?t"
    unfolding owned_def
  proof (intro conjI allI impI)
    fix j c assume j: "j < length (inodes ?t)" and a: "addr (inodes ?t ! j) = Some c"
    then have "j \<noteq> i" using i(1) x by auto
    moreover then have "c \<noteq> b" using uniq j a by auto
    ultimately show "c < length (blocks ?t)" "iftype (inodes ?t ! j) \<noteq> Free" "bftype (blocks ?t ! c) = iftype (inodes ?t ! j)"
      using j a o by (auto simp: owned_def)
  next
    fix j k c assume jk: "j < length (inodes ?t)" "k < length (inodes ?t)" "addr (inodes ?t ! j) = Some c" "addr (inodes ?t ! k) = Some c"
    then have "j \<noteq> i" "k \<noteq> i" using i(1) x by auto
    then show "j = k" using jk o unfolding owned_def by simp
  next
    fix c assume c: "c < length (blocks ?t)" "bftype (blocks ?t ! c) \<noteq> Free"
    then have "c \<noteq> b" using y by auto
    then obtain k where k: "k < length (inodes s)" "addr (inodes s ! k) = Some c" using o c by (auto simp: owned_def)
    then have "k \<noteq> i" using i \<open>c \<noteq> b\<close> by auto
    then show "\<exists>k < length (inodes ?t). addr (inodes ?t ! k) = Some c" using k by (intro exI [of _ k]) simp
  qed
  moreover have "used_inodes ?t = used_inodes s" using used_same(1) [OF i(1) x(1)] by (simp add: used_inodes_def)
  moreover have "used_blocks ?t = (used_blocks s)[b := False]"
    using used_blocks_update [of s b y] y(1) by (simp add: used_blocks_def)
  ultimately show ?thesis using d b y(2) all_update [of "blocks s" block_ok y b] by (simp add: disk_ok_def)
qed

section \<open>The tree: names, links and directory entries agree\<close>

abbreviation inum_of :: "fs \<Rightarrow> string \<Rightarrow> nat option" where
  "inum_of s \<equiv> map_of (nameToInum s)"

definition all_names :: "fs \<Rightarrow> string set" where
  "all_names s = set (files s) \<union> set (dirs s)"

definition names_ok :: "fs \<Rightarrow> bool" where
  "names_ok s \<longleftrightarrow> distinct (files s @ dirs s) \<and> ''/'' \<in> set (dirs s) \<and> (\<forall>d \<in> set (dirs s). valid_path d) \<and>
     (\<forall>x \<in> all_names s. x \<noteq> ''/'' \<longrightarrow> (\<exists>d \<in> set (dirs s). \<exists>n. name_ok n \<and> x = fullName d n))"

definition link_count :: "fs \<Rightarrow> nat \<Rightarrow> nat" where
  "link_count s i = length (filter (\<lambda>f. inum_of s f = Some i) (files s))"

definition subdirs :: "fs \<Rightarrow> string \<Rightarrow> nat" where
  "subdirs s d = length (filter (\<lambda>x. x \<noteq> ''/'' \<and> getParent x = d) (dirs s))"

text \<open>Directories and inodes of type directory are in one-to-one correspondence; a file inode counts its names.\<close>

definition links_ok :: "fs \<Rightarrow> bool" where
  "links_ok s \<longleftrightarrow>
     (\<forall>d \<in> set (dirs s). \<exists>i < length (inodes s). inum_of s d = Some i \<and> iftype (inodes s ! i) = Dir \<and>
        addr (inodes s ! i) \<noteq> None \<and> refCnt (inodes s ! i) = 2 + int (subdirs s d)) \<and>
     (\<forall>d \<in> set (dirs s). \<forall>d' \<in> set (dirs s). inum_of s d = inum_of s d' \<longrightarrow> d = d') \<and>
     (\<forall>i < length (inodes s). iftype (inodes s ! i) = Dir \<longrightarrow> (\<exists>d \<in> set (dirs s). inum_of s d = Some i)) \<and>
     (\<forall>f \<in> set (files s). \<exists>i < length (inodes s). inum_of s f = Some i \<and> iftype (inodes s ! i) = File) \<and>
     (\<forall>i < length (inodes s). iftype (inodes s ! i) = File \<longrightarrow> refCnt (inodes s ! i) = int (link_count s i) \<and> 0 < link_count s i)"

definition children :: "fs \<Rightarrow> string \<Rightarrow> (string \<times> nat) set" where
  "children s d = {(n, j). name_ok n \<and> fullName d n \<in> all_names s \<and> inum_of s (fullName d n) = Some j}"

definition dir_entries :: "fs \<Rightarrow> string \<Rightarrow> nat \<Rightarrow> (string \<times> nat) list \<Rightarrow> bool" where
  "dir_entries s d i xs \<longleftrightarrow> (\<exists>p es. xs = (''.'', i) # (''..'', p) # es \<and> inum_of s (getParent d) = Some p \<and>
     distinct (map fst es) \<and> set es = children s d)"

definition tree_ok :: "fs \<Rightarrow> bool" where
  "tree_ok s \<longleftrightarrow> (\<forall>d \<in> set (dirs s). \<forall>i b. inum_of s d = Some i \<longrightarrow> addr (inodes s ! i) = Some b \<longrightarrow>
     dir_entries s d i (dirList (blocks s ! b)))"

definition fs_inv :: "fs \<Rightarrow> bool" where
  "fs_inv s \<longleftrightarrow> disk_ok s \<and> names_ok s \<and> links_ok s \<and> tree_ok s"

lemma dir_lookup:
  assumes inv: "fs_inv s" and d: "d \<in> set (dirs s)"
  shows "\<exists>i b. inum_of s d = Some i \<and> i < length (inodes s) \<and> iftype (inodes s ! i) = Dir \<and> addr (inodes s ! i) = Some b \<and>
    b < length (blocks s) \<and> bftype (blocks s ! b) = Dir \<and> block_ok (blocks s ! b) \<and>
    dir_entries s d i (dirList (blocks s ! b)) \<and> refCnt (inodes s ! i) = 2 + int (subdirs s d)"
proof -
  have "links_ok s" using inv by (simp add: fs_inv_def)
  then obtain i where i: "inum_of s d = Some i" "i < length (inodes s)" "iftype (inodes s ! i) = Dir"
    "addr (inodes s ! i) \<noteq> None" "refCnt (inodes s ! i) = 2 + int (subdirs s d)"
    using d unfolding links_ok_def by blast
  then obtain b where b: "addr (inodes s ! i) = Some b" by auto
  have "owned s" "\<forall>b \<in> set (blocks s). block_ok b" using inv by (auto simp: fs_inv_def disk_ok_def)
  then have "b < length (blocks s)" "bftype (blocks s ! b) = Dir" "block_ok (blocks s ! b)"
    using i b by (auto simp: owned_def)
  moreover have "dir_entries s d i (dirList (blocks s ! b))" using inv d i(1) b by (simp add: fs_inv_def tree_ok_def)
  ultimately show ?thesis using i b by blast
qed

lemma file_lookup:
  assumes inv: "fs_inv s" and f: "f \<in> set (files s)"
  shows "\<exists>i. inum_of s f = Some i \<and> i < length (inodes s) \<and> iftype (inodes s ! i) = File \<and>
    refCnt (inodes s ! i) = int (link_count s i) \<and> 0 < link_count s i"
  using assms unfolding fs_inv_def links_ok_def by blast

lemma get_inode_ok: "i < length (inodes s) \<Longrightarrow> get_inode i s = Inr (inodes s ! i)"
  by (simp add: get_inode_def py_get_nat)

lemma upd_inode_ok: "i < length (inodes s) \<Longrightarrow> upd_inode i f s = Inr (s\<lparr>inodes := (inodes s)[i := f (inodes s ! i)]\<rparr>)"
  by (simp add: upd_inode_def get_inode_ok)

lemma upd_block_ok:
  "b < length (blocks s) \<Longrightarrow> f (blocks s ! b) = Inr y \<Longrightarrow> upd_block (Some b) f s = Inr (s\<lparr>blocks := (blocks s)[b := y]\<rparr>)"
  by (simp add: upd_block_def block_index_def)

lemma tracks_unique: "tracks b xs \<Longrightarrow> tracks c xs \<Longrightarrow> b = c"
  by (cases b; cases c) (simp add: tracks_def)

lemma dataAlloc_cases:
  assumes "disk_ok s"
  obtains (full) "dataAlloc s = (None, s)"
  | (got) b db where "dataAlloc s = (Some b, s\<lparr>dbitmap := db\<rparr>)" "b < length (blocks s)" "bftype (blocks s ! b) = Free"
      "tracks db ((used_blocks s)[b := True])"
proof -
  have "tracks (dbitmap s) (used_blocks s)" using assms by (simp add: disk_ok_def)
  then show ?thesis
  proof (cases rule: bitmaps.alloc_cases)
    case full
    then show ?thesis by (intro that(1)) (simp add: dataAlloc_def)
  next
    case (got n b)
    then show ?thesis by (intro that(2) [of n b]) (auto simp: dataAlloc_def used_nth)
  qed
qed

lemma inodeAlloc_cases:
  assumes "disk_ok s"
  obtains (full) "inodeAlloc s = (None, s)"
  | (got) i ib where "inodeAlloc s = (Some i, s\<lparr>ibitmap := ib\<rparr>)" "i < length (inodes s)" "iftype (inodes s ! i) = Free"
      "tracks ib ((used_inodes s)[i := True])"
proof -
  have "tracks (ibitmap s) (used_inodes s)" using assms by (simp add: disk_ok_def)
  then show ?thesis
  proof (cases rule: bitmaps.alloc_cases)
    case full
    then show ?thesis by (intro that(1)) (simp add: inodeAlloc_def)
  next
    case (got n b)
    then show ?thesis by (intro that(2) [of n b]) (auto simp: inodeAlloc_def used_nth)
  qed
qed

section \<open>Writing\<close>

text \<open>Changes that no name and no directory can see.\<close>

lemma links_frame:
  assumes "links_ok s" "files t = files s" "dirs t = dirs s" "nameToInum t = nameToInum s"
    and "length (inodes t) = length (inodes s)"
    and "\<And>j. j < length (inodes s) \<Longrightarrow> iftype (inodes t ! j) = iftype (inodes s ! j) \<and> refCnt (inodes t ! j) = refCnt (inodes s ! j)"
    and "\<And>j. j < length (inodes s) \<Longrightarrow> iftype (inodes s ! j) = Dir \<Longrightarrow> addr (inodes t ! j) = addr (inodes s ! j)"
  shows "links_ok t"
proof -
  have c: "link_count t = link_count s" "subdirs t = subdirs s" using assms(2-4) by (simp_all add: fun_eq_iff link_count_def subdirs_def)
  show ?thesis
    unfolding links_ok_def assms(2-5) c
  proof (intro conjI ballI allI impI)
    fix d assume "d \<in> set (dirs s)"
    then obtain i where i: "i < length (inodes s)" "inum_of s d = Some i" "iftype (inodes s ! i) = Dir"
      "addr (inodes s ! i) \<noteq> None" "refCnt (inodes s ! i) = 2 + int (subdirs s d)"
      using assms(1) unfolding links_ok_def by blast
    then show "\<exists>i<length (inodes s). inum_of s d = Some i \<and> iftype (inodes t ! i) = Dir \<and>
        addr (inodes t ! i) \<noteq> None \<and> refCnt (inodes t ! i) = 2 + int (subdirs s d)"
      using assms(6) [OF i(1)] assms(7) [OF i(1,3)] by (intro exI [of _ i]) simp
  next
    fix d d' assume "d \<in> set (dirs s)" "d' \<in> set (dirs s)" "inum_of s d = inum_of s d'"
    then show "d = d'" using assms(1) unfolding links_ok_def by blast
  next
    fix i assume i: "i < length (inodes s)" "iftype (inodes t ! i) = Dir"
    then show "\<exists>d \<in> set (dirs s). inum_of s d = Some i"
      using assms(1) assms(6) [OF i(1)] unfolding links_ok_def by simp
  next
    fix f assume "f \<in> set (files s)"
    then obtain i where i: "i < length (inodes s)" "inum_of s f = Some i" "iftype (inodes s ! i) = File"
      using assms(1) unfolding links_ok_def by blast
    then show "\<exists>i<length (inodes s). inum_of s f = Some i \<and> iftype (inodes t ! i) = File"
      using assms(6) [OF i(1)] by (intro exI [of _ i]) simp
  next
    fix i assume i: "i < length (inodes s)" "iftype (inodes t ! i) = File"
    then have "refCnt (inodes s ! i) = int (link_count s i) \<and> 0 < link_count s i"
      using assms(1) assms(6) [OF i(1)] unfolding links_ok_def by simp
    then show "refCnt (inodes t ! i) = int (link_count s i)" "0 < link_count s i"
      using assms(6) [OF i(1)] by simp_all
  qed
qed

lemma children_frame:
  assumes "files t = files s" "dirs t = dirs s" "nameToInum t = nameToInum s"
  shows "children t = children s" "all_names t = all_names s" "names_ok t = names_ok s"
    "dir_entries t = dir_entries s"
  using assms by (simp_all add: fun_eq_iff children_def all_names_def names_ok_def dir_entries_def)

lemma writeFile_spec:
  assumes inv: "fs_inv s" and f: "f \<in> set (files s)"
  shows "\<exists>ok s'. writeFile f d s = Inr (ok, s') \<and> fs_inv s' \<and> (\<not> ok \<longrightarrow> s' = s)"
proof -
  have disk: "disk_ok s" and names: "names_ok s" and links: "links_ok s" and tree: "tree_ok s"
    using inv by (auto simp: fs_inv_def)
  obtain i where i: "inum_of s f = Some i" "i < length (inodes s)" "iftype (inodes s ! i) = File"
    using file_lookup [OF inv f] by blast
  have g: "dict_get (nameToInum s) f = Inr i" using i(1) by (simp add: dict_get_Inr)
  show ?thesis
  proof (cases "addr (inodes s ! i)")
    case (Some a)
    then have "writeFile f d s = Inr (False, s)" using g i inv by (simp add: writeFile_def get_inode_ok getSize_def)
    then show ?thesis using inv by blast
  next
    case None
    show ?thesis
      using disk
    proof (cases rule: dataAlloc_cases)
      case full
      then have "writeFile f d s = Inr (False, s)" using g i None by (simp add: writeFile_def get_inode_ok getSize_def)
      then show ?thesis using inv by blast
    next
      case (got b db)
      let ?y = "(blocks s ! b)\<lparr>bftype := File, bdata := d\<rparr>"
      let ?x = "(inodes s ! i)\<lparr>addr := Some b\<rparr>"
      let ?t = "s\<lparr>inodes := (inodes s)[i := ?x], dbitmap := db, blocks := (blocks s)[b := ?y]\<rparr>"
      have y: "block_ok ?y"
        using disk got(2,3) by (auto simp: disk_ok_def block_ok_def)
      have w: "writeFile f d s = Inr (True, ?t)"
        using g i None got by (simp add: writeFile_def get_inode_ok getSize_def upd_block_ok upd_inode_ok setType_def addData_def)
      have "disk_ok ?t"
        by (rule disk_attach [OF disk i(2) None _ got(2,3,4)]) (use i(3) y in auto)
      moreover have "names_ok ?t" using names children_frame(3) [of ?t s] by simp
      moreover have "links_ok ?t"
      proof (rule links_frame [OF links])
        fix j assume j: "j < length (inodes s)"
        show "iftype (inodes ?t ! j) = iftype (inodes s ! j) \<and> refCnt (inodes ?t ! j) = refCnt (inodes s ! j)"
          using j i(2) by (cases "j = i") simp_all
        show "iftype (inodes s ! j) = Dir \<Longrightarrow> addr (inodes ?t ! j) = addr (inodes s ! j)"
          using j i by (cases "j = i") simp_all
      qed simp_all
      moreover have "tree_ok ?t"
        unfolding tree_ok_def
      proof (intro ballI allI impI)
        fix e j c assume e: "e \<in> set (dirs ?t)" "inum_of ?t e = Some j" "addr (inodes ?t ! j) = Some c"
        obtain j' c' where j: "inum_of s e = Some j'" "j' < length (inodes s)" "iftype (inodes s ! j') = Dir" "addr (inodes s ! j') = Some c'"
          "bftype (blocks s ! c') = Dir" "dir_entries s e j' (dirList (blocks s ! c'))"
          using dir_lookup [OF inv, of e] e(1) by auto
        then have "j' = j" "j \<noteq> i" using e(2) i(3) by auto
        then have "c' = c" using e(3) j(4) by simp
        then have "c \<noteq> b" using j(5) got(3) by auto
        then show "dir_entries ?t e j (dirList (blocks ?t ! c))"
          using j(6) \<open>j' = j\<close> \<open>c' = c\<close> children_frame(4) [of ?t s] by simp
      qed
      ultimately have "fs_inv ?t" by (simp add: fs_inv_def)
      with w show ?thesis by auto
    qed
  qed
qed

section \<open>Creating and linking\<close>

lemma has_inum:
  assumes "fs_inv s" "x \<in> all_names s"
  shows "\<exists>i < length (inodes s). inum_of s x = Some i \<and> iftype (inodes s ! i) \<noteq> Free"
  using assms unfolding all_names_def by (auto dest: dir_lookup file_lookup)

lemma parent_dir:
  assumes "names_ok s" "x \<in> all_names s"
  shows "getParent x \<in> set (dirs s)"
proof (cases "x = ''/''")
  case True
  then show ?thesis using assms(1) getParent_root by (simp add: names_ok_def)
next
  case False
  then obtain d n where "d \<in> set (dirs s)" "name_ok n" "x = fullName d n" using assms unfolding names_ok_def by blast
  then show ?thesis using fullName_parts(1) assms(1) by (auto simp: names_ok_def)
qed

lemma entry_iff:
  assumes inv: "fs_inv s" and e: "dir_entries s d i xs" and n: "name_ok n"
  shows "(\<exists>e \<in> set xs. fst e = n) \<longleftrightarrow> fullName d n \<in> all_names s"
proof -
  obtain p es where xs: "xs = (''.'', i) # (''..'', p) # es" "set es = children s d"
    using e by (auto simp: dir_entries_def)
  have "(\<exists>e \<in> set xs. fst e = n) \<longleftrightarrow> (\<exists>e \<in> children s d. fst e = n)"
    using n xs by (auto simp: name_ok_def)
  also have "\<dots> \<longleftrightarrow> (\<exists>j. (n, j) \<in> children s d)" by force
  also have "\<dots> \<longleftrightarrow> fullName d n \<in> all_names s"
    using n has_inum [OF inv, of "fullName d n"] by (auto simp: children_def)
  finally show ?thesis .
qed

text \<open>A new name in directory \<open>d\<close>, as the names see it.\<close>

definition adds_name :: "fs \<Rightarrow> fs \<Rightarrow> string \<Rightarrow> string \<Rightarrow> nat \<Rightarrow> bool" where
  "adds_name s t d n j \<longleftrightarrow> d \<in> set (dirs s) \<and> name_ok n \<and> fullName d n \<notin> all_names s \<and>
     all_names t = insert (fullName d n) (all_names s) \<and> nameToInum t = dict_set (fullName d n) j (nameToInum s)"

lemma children_add:
  assumes inv: "fs_inv s" and a: "adds_name s t d n j" and e: "e \<in> set (dirs s)"
  shows "children t e = (if e = d then insert (n, j) (children s e) else children s e)"
proof -
  have v: "valid_path e" "valid_path d" and n: "name_ok n"
    using inv a e by (auto simp: fs_inv_def names_ok_def adds_name_def)
  have fresh: "fullName d n \<notin> all_names s" using a by (simp add: adds_name_def)
  have mem: "(m, k) \<in> children t e \<longleftrightarrow> (if e = d \<and> m = n then k = j else (m, k) \<in> children s e)" for m k
  proof (cases "name_ok m")
    case True
    have eq: "fullName e m = fullName d n \<longleftrightarrow> e = d \<and> m = n"
      using fullName_inject [OF v True n] .
    show ?thesis
    proof (cases "e = d \<and> m = n")
      case True
      then show ?thesis using a by (auto simp: children_def adds_name_def)
    next
      case False
      then have "fullName e m \<noteq> fullName d n" using eq by simp
      then show ?thesis unfolding if_not_P [OF False] using a by (simp add: children_def adds_name_def)
    qed
  next
    case False
    then show ?thesis using n by (auto simp: children_def)
  qed
  have old: "(n, k) \<notin> children s d" for k using fresh by (simp add: children_def)
  show ?thesis using mem old by (auto split: if_splits)
qed

lemma entries_add:
  assumes inv: "fs_inv s" and a: "adds_name s t d n j" and e: "e \<in> set (dirs s)" and xs: "dir_entries s e i xs"
  shows "dir_entries t e i (if e = d then xs @ [(n, j)] else xs)"
proof -
  obtain p es where es: "xs = (''.'', i) # (''..'', p) # es" "inum_of s (getParent e) = Some p"
    "distinct (map fst es)" "set es = children s e"
    using xs by (auto simp: dir_entries_def)
  have "getParent e \<noteq> fullName d n"
    using parent_dir [of s e] inv e a by (auto simp: fs_inv_def all_names_def adds_name_def)
  then have p: "inum_of t (getParent e) = Some p" using es(2) a by (simp add: adds_name_def)
  show ?thesis
  proof (cases "e = d")
    case False
    then show ?thesis using es p children_add [OF inv a e] by (simp add: dir_entries_def)
  next
    case True
    have "n \<notin> fst ` set es" using a True unfolding es(4) children_def by (auto simp: adds_name_def)
    then have "distinct (map fst (es @ [(n, j)]))" using es(3) by simp
    then show ?thesis using es p children_add [OF inv a e] True by (auto simp: dir_entries_def)
  qed
qed

lemma subdirs_same: "dirs t = dirs s \<Longrightarrow> subdirs t d = subdirs s d"
  by (simp add: subdirs_def)

text \<open>One more name for a file inode, new or not.\<close>

lemma links_add_file:
  assumes inv: "fs_inv s" and fresh: "x \<notin> all_names s" and j: "j < length (inodes s)" "iftype (inodes s ! j) \<noteq> Dir"
    and t: "files t = files s @ [x]" "dirs t = dirs s" "nameToInum t = dict_set x j (nameToInum s)"
      "inodes t = (inodes s)[j := y]"
    and y: "iftype y = File" "refCnt y = (if iftype (inodes s ! j) = File then refCnt (inodes s ! j) + 1 else 1)"
  shows "links_ok t"
proof -
  have links: "links_ok s" using inv by (simp add: fs_inv_def)
  have len: "length (inodes t) = length (inodes s)" using t(4) by simp
  have N: "inum_of t z = inum_of s z" if "z \<in> all_names s" for z using that fresh t(3) by auto
  have F: "z \<in> set (files s) \<Longrightarrow> inum_of t z = inum_of s z" "z \<in> set (dirs s) \<Longrightarrow> inum_of t z = inum_of s z" for z
    using N by (simp_all add: all_names_def)
  have at: "inodes t ! k = (if k = j then y else inodes s ! k)" if "k < length (inodes s)" for k
    using that t(4) by simp
  have "filter (\<lambda>f. inum_of t f = Some k) (files s) = filter (\<lambda>f. inum_of s f = Some k) (files s)" for k
    by (rule filter_cong) (use F(1) in auto)
  then have cnt: "link_count t k = link_count s k + (if k = j then 1 else 0)" for k
    using t(1,3) by (simp add: link_count_def)
  have zero: "link_count s k = 0" if "k < length (inodes s)" "iftype (inodes s ! k) \<noteq> File" for k
  proof -
    have "inum_of s f \<noteq> Some k" if "f \<in> set (files s)" for f
      using file_lookup [OF inv that] \<open>iftype (inodes s ! k) \<noteq> File\<close> by auto
    then show ?thesis by (simp add: link_count_def filter_empty_conv)
  qed
  show ?thesis
    unfolding links_ok_def len t(2)
  proof (intro conjI ballI allI impI)
    fix d assume d: "d \<in> set (dirs s)"
    then obtain i where i: "i < length (inodes s)" "inum_of s d = Some i" "iftype (inodes s ! i) = Dir"
      "addr (inodes s ! i) \<noteq> None" "refCnt (inodes s ! i) = 2 + int (subdirs s d)"
      using links unfolding links_ok_def by blast
    then have "i \<noteq> j" using j(2) by auto
    then show "\<exists>i<length (inodes s). inum_of t d = Some i \<and> iftype (inodes t ! i) = Dir \<and>
        addr (inodes t ! i) \<noteq> None \<and> refCnt (inodes t ! i) = 2 + int (subdirs t d)"
      using i at [OF i(1)] F(2) [OF d] subdirs_same [OF t(2)] by (intro exI [of _ i]) simp
  next
    fix d d' assume "d \<in> set (dirs s)" "d' \<in> set (dirs s)" "inum_of t d = inum_of t d'"
    then show "d = d'" using links F(2) unfolding links_ok_def by metis
  next
    fix i assume i: "i < length (inodes s)" "iftype (inodes t ! i) = Dir"
    then have "i \<noteq> j" using y(1) at by auto
    then obtain d where "d \<in> set (dirs s)" "inum_of s d = Some i"
      using i at [OF i(1)] links unfolding links_ok_def by auto
    then show "\<exists>d \<in> set (dirs s). inum_of t d = Some i" using F(2) by (intro bexI [of _ d]) simp
  next
    fix f assume f: "f \<in> set (files t)"
    show "\<exists>i<length (inodes s). inum_of t f = Some i \<and> iftype (inodes t ! i) = File"
    proof (cases "f = x")
      case True
      then show ?thesis using j(1) at [OF j(1)] y(1) t(3) by (intro exI [of _ j]) simp
    next
      case False
      then have f': "f \<in> set (files s)" using f t(1) by simp
      then obtain i where i: "i < length (inodes s)" "inum_of s f = Some i" "iftype (inodes s ! i) = File"
        using links unfolding links_ok_def by blast
      then show ?thesis using at [OF i(1)] y(1) F(1) [OF f'] by (intro exI [of _ i]) auto
    qed
  next
    fix i assume i: "i < length (inodes s)" "iftype (inodes t ! i) = File"
    have "refCnt (inodes t ! i) = int (link_count t i) \<and> 0 < link_count t i"
    proof (cases "i = j")
      case True
      show ?thesis
      proof (cases "iftype (inodes s ! j) = File")
        case f: True
        then have "refCnt (inodes s ! j) = int (link_count s j)" using links j(1) unfolding links_ok_def by blast
        then show ?thesis using True f y(2) at [OF j(1)] cnt [of j] by simp
      next
        case False
        then show ?thesis using True y(2) at [OF j(1)] cnt [of j] zero [OF j(1)] by simp
      qed
    next
      case False
      then have "iftype (inodes s ! i) = File" using i at [OF i(1)] by simp
      then have "refCnt (inodes s ! i) = int (link_count s i) \<and> 0 < link_count s i"
        using links i(1) unfolding links_ok_def by blast
      then show ?thesis using False at [OF i(1)] cnt [of i] by simp
    qed
    then show "refCnt (inodes t ! i) = int (link_count t i)" "0 < link_count t i" by blast+
  qed
qed

text \<open>The directories of the old state have the same inode and block, and one of them a new entry.\<close>

lemma tree_add:
  assumes inv: "fs_inv s" and a: "adds_name s t d n j"
    and old: "\<And>e i b. e \<in> set (dirs s) \<Longrightarrow> inum_of s e = Some i \<Longrightarrow> addr (inodes s ! i) = Some b \<Longrightarrow>
        addr (inodes t ! i) = Some b \<and> dirList (blocks t ! b) = (if e = d then dirList (blocks s ! b) @ [(n, j)] else dirList (blocks s ! b))"
    and ds: "set (dirs t) \<subseteq> insert (fullName d n) (set (dirs s))"
    and new: "fullName d n \<in> set (dirs t) \<Longrightarrow> \<exists>b. addr (inodes t ! j) = Some b \<and> dir_entries t (fullName d n) j (dirList (blocks t ! b))"
  shows "tree_ok t"
  unfolding tree_ok_def
proof (intro ballI allI impI)
  fix e i b assume e: "e \<in> set (dirs t)" "inum_of t e = Some i" "addr (inodes t ! i) = Some b"
  have num: "inum_of t = (inum_of s)(fullName d n \<mapsto> j)" using a by (simp add: adds_name_def)
  show "dir_entries t e i (dirList (blocks t ! b))"
  proof (cases "e = fullName d n")
    case True
    then show ?thesis using e new num by auto
  next
    case False
    then have d: "e \<in> set (dirs s)" "inum_of s e = Some i" using e ds num by auto
    then obtain b' where b: "addr (inodes s ! i) = Some b'" "dir_entries s e i (dirList (blocks s ! b'))"
      using dir_lookup [OF inv d(1)] by auto
    then have "b' = b" using old [OF d b(1)] e(3) by simp
    then show ?thesis using old [OF d b(1)] entries_add [OF inv a d(1) b(2)] by simp
  qed
qed

lemma names_add:
  assumes "names_ok s" "adds_name s t d n j"
    and "files t = files s @ [fullName d n] \<and> dirs t = dirs s \<or> files t = files s \<and> dirs t = dirs s @ [fullName d n]"
  shows "names_ok t"
proof -
  have v: "valid_path d" "name_ok n" "d \<in> set (dirs s)" "fullName d n \<notin> set (files s)" "fullName d n \<notin> set (dirs s)"
    using assms(1,2) by (auto simp: names_ok_def adds_name_def all_names_def)
  have al: "all_names t = insert (fullName d n) (all_names s)" using assms(2) by (simp add: adds_name_def)
  have sub: "set (dirs s) \<subseteq> set (dirs t)" using assms(3) by auto
  have "\<forall>e \<in> set (dirs t). valid_path e"
    using assms(1,3) fullName_parts(3) [OF v(1,2)] by (auto simp: names_ok_def)
  moreover have "distinct (files t @ dirs t)" using assms(1,3) v(4,5) by (auto simp: names_ok_def)
  moreover have "''/'' \<in> set (dirs t)" using assms(1) sub by (auto simp: names_ok_def)
  moreover have "\<exists>d' \<in> set (dirs t). \<exists>m. name_ok m \<and> y = fullName d' m" if "y \<in> all_names t" "y \<noteq> ''/''" for y
  proof (cases "y = fullName d n")
    case True
    then show ?thesis using v sub by blast
  next
    case False
    then have "y \<in> all_names s" using that al by simp
    then show ?thesis using assms(1) that(2) sub unfolding names_ok_def by blast
  qed
  ultimately show ?thesis unfolding names_ok_def by blast
qed

definition with_entry :: "string \<Rightarrow> nat \<Rightarrow> block \<Rightarrow> block" where
  "with_entry n j b = b\<lparr>dirList := dirList b @ [(n, j)], dirUsed := dirUsed b + 1\<rparr>"

lemma addDirEntry_ok:
  "bftype b = Dir \<Longrightarrow> maxUsed b = 32 \<Longrightarrow> dirUsed b < 32 \<Longrightarrow> addDirEntry n j b = Inr (with_entry n j b)"
  by (simp add: addDirEntry_def with_entry_def)

lemma with_entry_simps [simp]:
  "bftype (with_entry n j b) = bftype b" "maxUsed (with_entry n j b) = maxUsed b"
  "dirUsed (with_entry n j b) = dirUsed b + 1" "dirList (with_entry n j b) = dirList b @ [(n, j)]"
  "bftype b = Dir \<Longrightarrow> block_ok (with_entry n j b) = block_ok b"
  by (simp_all add: with_entry_def block_ok_def)

lemma same_dir:
  assumes inv: "fs_inv s" and d: "d \<in> set (dirs s)" "e \<in> set (dirs s)"
    and i: "inum_of s d = Some i" "addr (inodes s ! i) = Some b" "inum_of s e = Some k" "addr (inodes s ! k) = Some b"
  shows "d = e"
proof -
  have "i < length (inodes s)" "k < length (inodes s)" using dir_lookup [OF inv d(1)] dir_lookup [OF inv d(2)] i by auto
  moreover have "owned s" using inv by (simp add: fs_inv_def disk_ok_def)
  ultimately have "i = k" using i unfolding owned_def by blast
  then have "inum_of s d = inum_of s e" using i by simp
  then show ?thesis using inv d unfolding fs_inv_def links_ok_def by blast
qed

lemma add_file_inv:
  assumes inv: "fs_inv s" and a: "adds_name s t d n j"
    and p: "inum_of s d = Some i" "addr (inodes s ! i) = Some b"
    and t: "files t = files s @ [fullName d n]" "dirs t = dirs s" "inodes t = (inodes s)[j := y]"
      "blocks t = (blocks s)[b := with_entry n j (blocks s ! b)]" and disk: "disk_ok t"
    and j: "j < length (inodes s)" "iftype (inodes s ! j) \<noteq> Dir"
    and y: "iftype y = File" "refCnt y = (if iftype (inodes s ! j) = File then refCnt (inodes s ! j) + 1 else 1)"
  shows "fs_inv t"
proof -
  have ad: "d \<in> set (dirs s)" "fullName d n \<notin> all_names s" "nameToInum t = dict_set (fullName d n) j (nameToInum s)"
    using a by (simp_all add: adds_name_def)
  have "names_ok t" using inv names_add [OF _ a] t(1,2) by (simp add: fs_inv_def)
  moreover have "links_ok t" by (rule links_add_file [OF inv ad(2) j t(1,2) ad(3) t(3) y])
  moreover have "tree_ok t"
  proof (rule tree_add [OF inv a])
    fix e k c assume e: "e \<in> set (dirs s)" "inum_of s e = Some k" "addr (inodes s ! k) = Some c"
    have k: "iftype (inodes s ! k) = Dir" using dir_lookup [OF inv e(1)] e(2) by auto
    have bl: "b < length (blocks s)" using dir_lookup [OF inv ad(1)] p by auto
    have "c = b \<longleftrightarrow> e = d" using same_dir [OF inv ad(1) e(1) p e(2)] e p by auto
    moreover have "k \<noteq> j" using k j(2) by auto
    ultimately show "addr (inodes t ! k) = Some c \<and>
        dirList (blocks t ! c) = (if e = d then dirList (blocks s ! c) @ [(n, j)] else dirList (blocks s ! c))"
      using e(3) t(3,4) bl by auto
  qed (use t ad in \<open>auto simp: all_names_def\<close>)
  ultimately show ?thesis using disk by (simp add: fs_inv_def)
qed

text \<open>What a request for a new name tests first.\<close>

lemma parent_facts:
  assumes inv: "fs_inv s" and d: "d \<in> set (dirs s)" and n: "name_ok n"
  obtains i b where "dict_get (nameToInum s) d = Inr i" "inum_of s d = Some i" "i < length (inodes s)"
    "get_inode i s = Inr (inodes s ! i)" "iftype (inodes s ! i) = Dir" "addr (inodes s ! i) = Some b"
    "b < length (blocks s)" "block_index (Some b) s = Inr b" "bftype (blocks s ! b) = Dir" "block_ok (blocks s ! b)"
    "getFreeEntries (blocks s ! b) = Inr (32 - dirUsed (blocks s ! b))" "maxUsed (blocks s ! b) = 32"
    "dirEntryExists n (blocks s ! b) = Inr (fullName d n \<in> all_names s)"
proof -
  obtain i b where ib: "inum_of s d = Some i" "i < length (inodes s)" "iftype (inodes s ! i) = Dir" "addr (inodes s ! i) = Some b"
    "b < length (blocks s)" "bftype (blocks s ! b) = Dir" "block_ok (blocks s ! b)" "dir_entries s d i (dirList (blocks s ! b))"
    using dir_lookup [OF inv d] by blast
  show thesis
    by (rule that [of i b]) (use ib entry_iff [OF inv ib(8) n] in
      \<open>auto simp: dict_get_Inr get_inode_ok block_index_def getFreeEntries_def block_ok_def dirEntryExists_def\<close>)
qed

lemma block_ok_with_entry: "block_ok b \<Longrightarrow> bftype b = Dir \<Longrightarrow> block_ok (with_entry n j b)"
  by simp

definition created :: "fs \<Rightarrow> string \<Rightarrow> nat \<Rightarrow> fs" where
  "created s f j = s\<lparr>files := files s @ [f], nameToInum := dict_set f j (nameToInum s)\<rparr>"

lemma createFile_File:
  assumes inv: "fs_inv s" and d: "d \<in> set (dirs s)" and n: "name_ok n"
  shows "\<exists>r s'. createFile d n File s = Inr (r, s') \<and> (case r of None \<Rightarrow> s' = s | Some j \<Rightarrow> fs_inv (created s' (fullName d n) j))"
proof -
  obtain i b where f: "dict_get (nameToInum s) d = Inr i" "inum_of s d = Some i" "i < length (inodes s)"
    "get_inode i s = Inr (inodes s ! i)" "iftype (inodes s ! i) = Dir" "addr (inodes s ! i) = Some b"
    "b < length (blocks s)" "block_index (Some b) s = Inr b" "bftype (blocks s ! b) = Dir" "block_ok (blocks s ! b)"
    "getFreeEntries (blocks s ! b) = Inr (32 - dirUsed (blocks s ! b))" "maxUsed (blocks s ! b) = 32"
    "dirEntryExists n (blocks s ! b) = Inr (fullName d n \<in> all_names s)"
    by (rule parent_facts [OF inv d n])
  have disk: "disk_ok s" using inv by (simp add: fs_inv_def)
  show ?thesis
  proof (cases "32 - dirUsed (blocks s ! b) \<le> 0 \<or> fullName d n \<in> all_names s")
    case True
    then have "createFile d n File s = Inr (None, s)" using f by (auto simp: createFile_def)
    then show ?thesis by auto
  next
    case False
    show ?thesis
      using disk
    proof (cases rule: inodeAlloc_cases)
      case full
      then have "createFile d n File s = Inr (None, s)" using f False by (auto simp: createFile_def)
      then show ?thesis by auto
    next
      case (got j ib)
      let ?y = "inode_setAll File None 1 (inodes s ! j)"
      let ?s1 = "s\<lparr>ibitmap := ib, inodes := (inodes s)[j := ?y]\<rparr>"
      let ?s2 = "?s1\<lparr>blocks := (blocks s)[b := with_entry n j (blocks s ! b)]\<rparr>"
      have j: "j \<noteq> i" using got(3) f(5) by auto
      have c: "createFile d n File s = Inr (Some j, ?s2)"
        using f False got j by (simp add: createFile_def upd_inode_ok upd_block_ok addDirEntry_ok)
      have d1: "disk_ok ?s1"
        by (rule disk_new_inode [OF disk got(2,3) _ _ got(4)]) (simp_all add: inode_setAll_def)
      have "disk_ok (?s1\<lparr>blocks := (blocks ?s1)[b := with_entry n j (blocks s ! b)]\<rparr>)"
        by (rule disk_block [OF d1]) (use f block_ok_with_entry in auto)
      then have "disk_ok (created ?s2 (fullName d n) j)"
        by (simp add: created_def disk_ok_def owned_def used_inodes_def used_blocks_def)
      then have "fs_inv (created ?s2 (fullName d n) j)"
        by (intro add_file_inv [OF inv _ f(2,6), of _ n j ?y])
          (use d n False got in \<open>auto simp: created_def adds_name_def all_names_def inode_setAll_def\<close>)
      with c show ?thesis by auto
    qed
  qed
qed

lemma createLink_spec:
  assumes inv: "fs_inv s" and d: "d \<in> set (dirs s)" and n: "name_ok n" and tg: "target \<in> set (files s)"
  shows "\<exists>r s'. createLink target n d s = Inr (r, s') \<and> (case r of None \<Rightarrow> s' = s | Some j \<Rightarrow> fs_inv (created s' (fullName d n) j))"
proof -
  obtain i b where f: "dict_get (nameToInum s) d = Inr i" "inum_of s d = Some i" "i < length (inodes s)"
    "get_inode i s = Inr (inodes s ! i)" "iftype (inodes s ! i) = Dir" "addr (inodes s ! i) = Some b"
    "b < length (blocks s)" "block_index (Some b) s = Inr b" "bftype (blocks s ! b) = Dir" "block_ok (blocks s ! b)"
    "getFreeEntries (blocks s ! b) = Inr (32 - dirUsed (blocks s ! b))" "maxUsed (blocks s ! b) = 32"
    "dirEntryExists n (blocks s ! b) = Inr (fullName d n \<in> all_names s)"
    by (rule parent_facts [OF inv d n])
  have disk: "disk_ok s" using inv by (simp add: fs_inv_def)
  obtain j where j: "inum_of s target = Some j" "j < length (inodes s)" "iftype (inodes s ! j) = File"
    using file_lookup [OF inv tg] by blast
  show ?thesis
  proof (cases "32 - dirUsed (blocks s ! b) \<le> 0 \<or> fullName d n \<in> all_names s")
    case True
    then have "createLink target n d s = Inr (None, s)" using f by (auto simp: createLink_def)
    then show ?thesis by auto
  next
    case False
    let ?y = "(inodes s ! j)\<lparr>refCnt := refCnt (inodes s ! j) + 1\<rparr>"
    let ?s1 = "s\<lparr>inodes := (inodes s)[j := ?y]\<rparr>"
    let ?s2 = "?s1\<lparr>blocks := (blocks s)[b := with_entry n j (blocks s ! b)]\<rparr>"
    have l: "last (py_split CHR ''/'' n) = n" using n py_split_plain [of "CHR ''/''" n] by (simp add: name_ok_def)
    have g: "dict_get (nameToInum s) target = Inr j" using j(1) by (simp add: dict_get_Inr)
    have c: "createLink target n d s = Inr (Some j, ?s2)"
      using f False j(2) l g by (simp add: createLink_def upd_inode_ok upd_block_ok addDirEntry_ok)
    have d1: "disk_ok ?s1"
      by (rule disk_inode [OF disk j(2)]) simp_all
    have "disk_ok (?s1\<lparr>blocks := (blocks ?s1)[b := with_entry n j (blocks s ! b)]\<rparr>)"
      by (rule disk_block [OF d1]) (use f block_ok_with_entry in auto)
    then have "disk_ok (created ?s2 (fullName d n) j)"
      by (simp add: created_def disk_ok_def owned_def used_inodes_def used_blocks_def)
    then have "fs_inv (created ?s2 (fullName d n) j)"
      by (intro add_file_inv [OF inv _ f(2,6), of _ n j ?y])
        (use d n False j in \<open>auto simp: created_def adds_name_def all_names_def\<close>)
    with c show ?thesis by auto
  qed
qed

section \<open>Deleting\<close>

lemma find_entry_remove:
  assumes "distinct (map fst es)" "(n, j) \<in> set es"
  shows "\<exists>i. find_entry n es = Some i \<and> i < length es \<and> fst (es ! i) = n \<and> set (delete_at i es) = set es - {(n, j)} \<and>
    distinct (map fst (delete_at i es))"
  using assms
proof (induction es)
  case (Cons e es)
  obtain m k where e: "e = (m, k)" by (cases e)
  show ?case
  proof (cases "m = n")
    case True
    then have "(n, j) \<notin> set es" using Cons.prems(1) e by (force simp: image_iff)
    then show ?thesis using True Cons.prems e by auto
  next
    case False
    then obtain i where i: "find_entry n es = Some i" "i < length es" "fst (es ! i) = n"
      "set (delete_at i es) = set es - {(n, j)}" "distinct (map fst (delete_at i es))"
      using Cons e by auto
    moreover have "m \<notin> fst ` set (delete_at i es)" using Cons.prems(1) e i(4) by auto
    ultimately show ?thesis using False e by (intro exI [of _ "Suc i"]) auto
  qed
qed simp

definition removed :: "fs \<Rightarrow> fs \<Rightarrow> string \<Rightarrow> bool" where
  "removed s t x \<longleftrightarrow> x \<in> set (files s) \<and> files t = remove1 x (files s) \<and> dirs t = dirs s \<and> nameToInum t = nameToInum s"

lemma removed_names:
  assumes "names_ok s" "removed s t x"
  shows "all_names t = all_names s - {x}" "names_ok t" "x \<notin> set (dirs s)"
proof -
  have ds: "distinct (files s)" "set (files s) \<inter> set (dirs s) = {}" using assms(1) by (auto simp: names_ok_def)
  have x: "x \<in> set (files s)" using assms(2) by (simp add: removed_def)
  show nd: "x \<notin> set (dirs s)" using ds x by auto
  have ft: "set (files t) = set (files s) - {x}" "distinct (files t)"
    using assms(2) ds by (simp_all add: removed_def)
  then show al: "all_names t = all_names s - {x}" using assms(2) nd by (auto simp: all_names_def removed_def)
  show "names_ok t"
    using assms ft al ds by (auto simp: names_ok_def removed_def)
qed

lemma tree_remove:
  assumes inv: "fs_inv s" and r: "removed s t x"
    and p: "inum_of s (getParent x) = Some pi" "addr (inodes s ! pi) = Some pb"
    and old: "\<And>e i b. e \<in> set (dirs s) \<Longrightarrow> inum_of s e = Some i \<Longrightarrow> addr (inodes s ! i) = Some b \<Longrightarrow>
        addr (inodes t ! i) = Some b \<and> (e \<noteq> getParent x \<longrightarrow> dirList (blocks t ! b) = dirList (blocks s ! b))"
    and del: "\<exists>i. find_entry (last (py_split CHR ''/'' x)) (dirList (blocks s ! pb)) = Some i \<and>
        dirList (blocks t ! pb) = delete_at i (dirList (blocks s ! pb))"
  shows "tree_ok t"
  unfolding tree_ok_def
proof (intro ballI allI impI)
  have nm: "names_ok s" using inv by (simp add: fs_inv_def)
  fix e i b assume e: "e \<in> set (dirs t)" "inum_of t e = Some i" "addr (inodes t ! i) = Some b"
  then have d: "e \<in> set (dirs s)" "inum_of s e = Some i" using r by (simp_all add: removed_def)
  obtain b' where b: "addr (inodes s ! i) = Some b'" "dir_entries s e i (dirList (blocks s ! b'))"
    using dir_lookup [OF inv d(1)] d(2) by auto
  then have bb: "b' = b" using old [OF d b(1)] e(3) by simp
  obtain q es where es: "dirList (blocks s ! b) = (''.'', i) # (''..'', q) # es" "inum_of s (getParent e) = Some q"
    "distinct (map fst es)" "set es = children s e"
    using b(2) bb by (auto simp: dir_entries_def)
  have q: "inum_of t (getParent e) = Some q" using es(2) r by (simp add: removed_def)
  have x: "x \<in> all_names s" "x \<noteq> ''/''" using r removed_names(3) [OF nm r] nm by (auto simp: removed_def all_names_def names_ok_def)
  then obtain d n where dn: "d \<in> set (dirs s)" "name_ok n" "x = fullName d n" using nm unfolding names_ok_def by blast
  have v: "valid_path d" "valid_path e" using nm dn(1) d(1) by (auto simp: names_ok_def)
  have gp: "getParent x = d" "last (py_split CHR ''/'' x) = n" using fullName_parts(1,2) [OF v(1) dn(2)] dn(3) by auto
  have ch: "children t e = {(m, k) \<in> children s e. fullName e m \<noteq> x}"
    using removed_names(1) [OF nm r] r by (auto simp: children_def removed_def)
  show "dir_entries t e i (dirList (blocks t ! b))"
  proof (cases "e = getParent x")
    case False
    have "fullName e m \<noteq> x" if "name_ok m" for m
      using fullName_inject [OF v(2,1) that dn(2)] False gp(1) dn(3) by simp
    then have "children t e = children s e" unfolding ch by (auto simp: children_def)
    then show ?thesis using old [OF d b(1)] False bb es q by (simp add: dir_entries_def)
  next
    case True
    then have pb: "pi = i" "pb = b" using p d(2) b(1) bb by auto
    have eq: "fullName e m = x \<longleftrightarrow> m = n" if "name_ok m" for m
      using fullName_inject [OF v(2,1) that dn(2)] True gp(1) dn(3) by simp
    obtain k where k: "inum_of s x = Some k" using file_lookup [OF inv] r by (auto simp: removed_def)
    then have nk: "(n, k) \<in> set es" using es(4) dn x True gp(1) by (simp add: children_def)
    obtain l where l: "find_entry n es = Some l" "l < length es" "set (delete_at l es) = set es - {(n, k)}"
      "distinct (map fst (delete_at l es))"
      using find_entry_remove [OF es(3) nk] by blast
    have "find_entry n (dirList (blocks s ! b)) = Some (Suc (Suc l))"
      using l(1) dn(2) es(1) by (auto simp: name_ok_def)
    then have dl: "dirList (blocks t ! b) = (''.'', i) # (''..'', q) # delete_at l es"
      using del gp(2) pb es(1) by simp
    have "children t e = children s e - {(n, k)}"
      unfolding ch using eq k dn(3) True gp(1) by (auto simp: children_def)
    then show ?thesis using dl q l(3,4) es(4) by (simp add: dir_entries_def)
  qed
qed

lemma links_remove:
  assumes inv: "fs_inv s" and r: "removed s t x" and j: "inum_of s x = Some j"
    and t: "inodes t = (inodes s)[j := y]"
    and y: "link_count s j = 1 \<Longrightarrow> iftype y = Free"
      "link_count s j \<noteq> 1 \<Longrightarrow> iftype y = File \<and> refCnt y = refCnt (inodes s ! j) - 1"
  shows "links_ok t"
proof -
  have links: "links_ok s" and nm: "names_ok s" using inv by (simp_all add: fs_inv_def)
  have rr: "x \<in> set (files s)" "files t = remove1 x (files s)" "dirs t = dirs s" "nameToInum t = nameToInum s"
    using r by (simp_all add: removed_def)
  have jf: "j < length (inodes s)" "iftype (inodes s ! j) = File" "refCnt (inodes s ! j) = int (link_count s j)" "0 < link_count s j"
    using file_lookup [OF inv rr(1)] j by auto
  have dist: "distinct (files s)" using nm by (simp add: names_ok_def)
  have len: "length (inodes t) = length (inodes s)" using t by simp
  have at: "inodes t ! k = (if k = j then y else inodes s ! k)" if "k < length (inodes s)" for k
    using that t by simp
  have sd: "subdirs t = subdirs s" using rr(3) by (simp add: fun_eq_iff subdirs_def)
  have cnt: "link_count s k = link_count t k + (if k = j then 1 else 0)" for k
  proof -
    have "length (filter P (remove1 x xs)) + (if P x then 1 else 0) = length (filter P xs)" if "x \<in> set xs" for xs :: "string list" and P
      using that by (induction xs) auto
    from this [OF rr(1), of "\<lambda>f. inum_of s f = Some k"] show ?thesis
      using rr(2,4) j by (auto simp: link_count_def)
  qed
  show ?thesis
    unfolding links_ok_def len rr(3,4) sd
  proof (intro conjI ballI allI impI)
    fix d assume "d \<in> set (dirs s)"
    then obtain i where i: "i < length (inodes s)" "inum_of s d = Some i" "iftype (inodes s ! i) = Dir"
      "addr (inodes s ! i) \<noteq> None" "refCnt (inodes s ! i) = 2 + int (subdirs s d)"
      using links unfolding links_ok_def by blast
    then have "i \<noteq> j" using jf(2) by auto
    then show "\<exists>i<length (inodes s). inum_of s d = Some i \<and> iftype (inodes t ! i) = Dir \<and>
        addr (inodes t ! i) \<noteq> None \<and> refCnt (inodes t ! i) = 2 + int (subdirs s d)"
      using i at [OF i(1)] by (intro exI [of _ i]) simp
  next
    fix d d' assume "d \<in> set (dirs s)" "d' \<in> set (dirs s)" "inum_of s d = inum_of s d'"
    then show "d = d'" using links unfolding links_ok_def by blast
  next
    fix i assume i: "i < length (inodes s)" "iftype (inodes t ! i) = Dir"
    then have "i \<noteq> j" using y at by (cases "link_count s j = 1") auto
    then show "\<exists>d \<in> set (dirs s). inum_of s d = Some i" using i at [OF i(1)] links unfolding links_ok_def by auto
  next
    fix f assume f: "f \<in> set (files t)"
    then have f': "f \<in> set (files s)" "f \<noteq> x" using rr(2) dist by simp_all
    then obtain i where i: "i < length (inodes s)" "inum_of s f = Some i" "iftype (inodes s ! i) = File"
      using links unfolding links_ok_def by blast
    have "link_count t j \<noteq> 0" if "i = j"
    proof -
      have "f \<in> set (filter (\<lambda>f. inum_of t f = Some j) (files t))" using f i(2) that rr(4) by simp
      from length_pos_if_in_set [OF this] show ?thesis by (simp add: link_count_def)
    qed
    then have "i = j \<Longrightarrow> iftype y = File" using cnt [of j] y(2) by auto
    then show "\<exists>i<length (inodes s). inum_of s f = Some i \<and> iftype (inodes t ! i) = File"
      using i at [OF i(1)] by (intro exI [of _ i]) auto
  next
    fix i assume i: "i < length (inodes s)" "iftype (inodes t ! i) = File"
    have "refCnt (inodes t ! i) = int (link_count t i) \<and> 0 < link_count t i"
    proof (cases "i = j")
      case True
      then have "link_count s j \<noteq> 1" using i at y(1) by auto
      then show ?thesis using True y(2) at [OF jf(1)] cnt [of j] jf(3,4) by auto
    next
      case False
      then have "iftype (inodes s ! i) = File" using i at [OF i(1)] by simp
      then have "refCnt (inodes s ! i) = int (link_count s i) \<and> 0 < link_count s i"
        using links i(1) unfolding links_ok_def by blast
      then show ?thesis using False at [OF i(1)] cnt [of i] by simp
    qed
    then show "refCnt (inodes t ! i) = int (link_count t i)" "0 < link_count t i" by blast+
  qed
qed

text \<open>The first half of a deletion: one name fewer for the inode, which is freed with its block if it was the last.\<close>

lemma inodeFree_ok:
  assumes "disk_ok s" "i < length (inodes s)" "iftype (inodes s ! i) \<noteq> Free" "addr (inodes s ! i) = None"
  shows "\<exists>ib. inodeFree i s = Inr (s\<lparr>ibitmap := ib, inodes := (inodes s)[i := inode_free (inodes s ! i)]\<rparr>) \<and>
    disk_ok (s\<lparr>ibitmap := ib, inodes := (inodes s)[i := inode_free (inodes s ! i)]\<rparr>)"
proof -
  have t: "tracks (ibitmap s) (used_inodes s)" "i < length (used_inodes s)" "used_inodes s ! i"
    using assms by (simp_all add: disk_ok_def used_nth)
  obtain ib where ib: "bitmap_free i (ibitmap s) = Inr ib" "tracks ib ((used_inodes s)[i := False])"
    using bitmaps.release_law [OF t] by blast
  have "disk_ok (s\<lparr>ibitmap := ib, inodes := (inodes s)[i := inode_free (inodes s ! i)]\<rparr>)"
    by (rule disk_free_inode [OF assms(1,2,4) _ _ ib(2)]) (simp_all add: inode_free_def)
  then show ?thesis using ib(1) assms(2) by (auto simp: inodeFree_def upd_inode_ok)
qed

lemma free_inode_and_block:
  assumes d: "disk_ok s" and i: "i < length (inodes s)" "iftype (inodes s ! i) = File"
  shows "\<exists>s1 y. rbind (case addr (inodes s ! i) of None \<Rightarrow> Inr s | Some b \<Rightarrow> dataFree b s) (inodeFree i) = Inr s1 \<and>
    disk_ok s1 \<and> inodes s1 = (inodes s)[i := y] \<and> iftype y = Free \<and> files s1 = files s \<and> dirs s1 = dirs s \<and>
    nameToInum s1 = nameToInum s \<and> length (blocks s1) = length (blocks s) \<and>
    (\<forall>c < length (blocks s). bftype (blocks s ! c) = Dir \<longrightarrow> blocks s1 ! c = blocks s ! c)"
proof (cases "addr (inodes s ! i)")
  case None
  obtain ib where "inodeFree i s = Inr (s\<lparr>ibitmap := ib, inodes := (inodes s)[i := inode_free (inodes s ! i)]\<rparr>)"
    "disk_ok (s\<lparr>ibitmap := ib, inodes := (inodes s)[i := inode_free (inodes s ! i)]\<rparr>)"
    using inodeFree_ok [OF d i(1) _ None] i(2) by auto
  then show ?thesis using None
    by (intro exI [of _ "s\<lparr>ibitmap := ib, inodes := (inodes s)[i := inode_free (inodes s ! i)]\<rparr>"]
        exI [of _ "inode_free (inodes s ! i)"]) (simp add: inode_free_def)
next
  case (Some b)
  have b: "b < length (blocks s)" "bftype (blocks s ! b) = File" using d i Some by (auto simp: disk_ok_def owned_def)
  let ?y = "(blocks s ! b)\<lparr>bdata := [], bftype := Free\<rparr>"
  let ?x = "(inodes s ! i)\<lparr>addr := None\<rparr>"
  have t: "tracks (dbitmap s) (used_blocks s)" "b < length (used_blocks s)" "used_blocks s ! b"
    using d b by (simp_all add: disk_ok_def used_nth)
  obtain db where db: "bitmap_free b (dbitmap s) = Inr db" "tracks db ((used_blocks s)[b := False])"
    using bitmaps.release_law [OF t] by blast
  let ?s1 = "s\<lparr>dbitmap := db, blocks := (blocks s)[b := ?y]\<rparr>"
  let ?s2 = "s\<lparr>inodes := (inodes s)[i := ?x], dbitmap := db, blocks := (blocks s)[b := ?y]\<rparr>"
  have y: "block_ok ?y" using d b by (auto simp: disk_ok_def block_ok_def)
  have d2: "disk_ok ?s2" by (rule disk_detach [OF d i(1) Some db(2)]) (use y in simp_all)
  obtain ib where ib: "inodeFree i ?s2 = Inr (?s2\<lparr>ibitmap := ib, inodes := (inodes ?s2)[i := inode_free (inodes ?s2 ! i)]\<rparr>)"
    "disk_ok (?s2\<lparr>ibitmap := ib, inodes := (inodes ?s2)[i := inode_free (inodes ?s2 ! i)]\<rparr>)"
    using inodeFree_ok [OF d2, of i] i by auto
  let ?t = "?s2\<lparr>ibitmap := ib, inodes := (inodes ?s2)[i := inode_free (inodes ?s2 ! i)]\<rparr>"
  have u: "dataFree b s = Inr ?s1" using db(1) b by (simp add: dataFree_def upd_block_ok block_free_def)
  have same: "bitmap_free i (ibitmap ?s1) = Inr ib"
    using ib(1) i by (cases "bitmap_free i (ibitmap s)") (auto simp: inodeFree_def upd_inode_ok dest!: arg_cong [of _ _ ibitmap])
  have "inodeFree i ?s1 = Inr ?t"
    using same i by (simp add: inodeFree_def upd_inode_ok inode_free_def)
  then show ?thesis using Some u ib(2) b i
    by (intro exI [of _ ?t] exI [of _ "inode_free (inodes s ! i)"]) (simp add: inode_free_def nth_list_update)
qed

lemma deleteFile_spec:
  assumes inv: "fs_inv s" and x: "x \<in> set (files s)"
  shows "\<exists>s'. deleteFile x s = Inr s' \<and> fs_inv s' \<and> files s' = remove1 x (files s) \<and> dirs s' = dirs s"
proof -
  have disk: "disk_ok s" and names: "names_ok s" using inv by (simp_all add: fs_inv_def)
  obtain j where j: "inum_of s x = Some j" "j < length (inodes s)" "iftype (inodes s ! j) = File"
    "refCnt (inodes s ! j) = int (link_count s j)" "0 < link_count s j"
    using file_lookup [OF inv x] by blast
  have g: "dict_get (nameToInum s) x = Inr j" using j(1) by (simp add: dict_get_Inr)
  have "\<exists>s1 y. (if refCnt (inodes s ! j) = 1 then
             rbind (case addr (inodes s ! j) of None \<Rightarrow> Inr s | Some b \<Rightarrow> dataFree b s) (inodeFree j)
            else upd_inode j (\<lambda>i. i\<lparr>refCnt := refCnt i - 1\<rparr>) s) = Inr s1 \<and>
    disk_ok s1 \<and> inodes s1 = (inodes s)[j := y] \<and> (link_count s j = 1 \<longrightarrow> iftype y = Free) \<and>
    (link_count s j \<noteq> 1 \<longrightarrow> iftype y = File \<and> refCnt y = refCnt (inodes s ! j) - 1) \<and> files s1 = files s \<and> dirs s1 = dirs s \<and>
    nameToInum s1 = nameToInum s \<and> length (blocks s1) = length (blocks s) \<and>
    (\<forall>c < length (blocks s). bftype (blocks s ! c) = Dir \<longrightarrow> blocks s1 ! c = blocks s ! c)"
  proof (cases "link_count s j = 1")
    case True
    then show ?thesis using free_inode_and_block [OF disk j(2,3)] j(4) by simp
  next
    case False
    let ?y = "(inodes s ! j)\<lparr>refCnt := refCnt (inodes s ! j) - 1\<rparr>"
    have "disk_ok (s\<lparr>inodes := (inodes s)[j := ?y]\<rparr>)" by (rule disk_inode [OF disk j(2)]) simp_all
    then show ?thesis using False j
      by (intro exI [of _ "s\<lparr>inodes := (inodes s)[j := ?y]\<rparr>"] exI [of _ ?y]) (simp add: upd_inode_ok)
  qed
  then obtain s1 y where s1: "(if refCnt (inodes s ! j) = 1 then
             rbind (case addr (inodes s ! j) of None \<Rightarrow> Inr s | Some b \<Rightarrow> dataFree b s) (inodeFree j)
            else upd_inode j (\<lambda>i. i\<lparr>refCnt := refCnt i - 1\<rparr>) s) = Inr s1"
    "disk_ok s1" "inodes s1 = (inodes s)[j := y]" "link_count s j = 1 \<Longrightarrow> iftype y = Free"
    "link_count s j \<noteq> 1 \<Longrightarrow> iftype y = File \<and> refCnt y = refCnt (inodes s ! j) - 1" "files s1 = files s" "dirs s1 = dirs s"
    "nameToInum s1 = nameToInum s" "length (blocks s1) = length (blocks s)"
    "\<And>c. c < length (blocks s) \<Longrightarrow> bftype (blocks s ! c) = Dir \<Longrightarrow> blocks s1 ! c = blocks s ! c"
    by blast
  have "getParent x \<in> set (dirs s)" using parent_dir [OF names] x by (simp add: all_names_def)
  then obtain pi pb where p: "inum_of s (getParent x) = Some pi" "pi < length (inodes s)" "iftype (inodes s ! pi) = Dir"
    "addr (inodes s ! pi) = Some pb" "pb < length (blocks s)" "bftype (blocks s ! pb) = Dir" "block_ok (blocks s ! pb)"
    "dir_entries s (getParent x) pi (dirList (blocks s ! pb))"
    using dir_lookup [OF inv] by blast
  have pj: "pi \<noteq> j" using p(3) j(3) by auto
  have xn: "x \<in> all_names s" "x \<noteq> ''/''" using x names by (auto simp: all_names_def names_ok_def)
  then obtain d n where dn: "d \<in> set (dirs s)" "name_ok n" "x = fullName d n" using names unfolding names_ok_def by blast
  have gp: "getParent x = d" "last (py_split CHR ''/'' x) = n"
    using fullName_parts(1,2) [of d n] dn names by (auto simp: names_ok_def)
  obtain q es where es: "dirList (blocks s ! pb) = (''.'', pi) # (''..'', q) # es" "distinct (map fst es)" "set es = children s d"
    using p(8) gp by (auto simp: dir_entries_def)
  have "(n, j) \<in> set es" using es(3) dn xn j(1) by (simp add: children_def)
  then obtain l where l: "find_entry n es = Some l" "l < length es" using find_entry_remove [OF es(2)] by blast
  then have fe: "find_entry n (dirList (blocks s ! pb)) = Some (Suc (Suc l))" using es(1) dn(2) by (auto simp: name_ok_def)
  let ?z = "(blocks s ! pb)\<lparr>dirList := delete_at (Suc (Suc l)) (dirList (blocks s ! pb)), dirUsed := dirUsed (blocks s ! pb) - 1\<rparr>"
  have z: "block_ok ?z" using p(6,7) l(2) es(1) by (simp add: block_ok_def length_delete_at)
  have pb1: "pb < length (blocks s1)" "blocks s1 ! pb = blocks s ! pb" using s1(9,10) p(5,6) by simp_all
  let ?s3 = "s1\<lparr>blocks := (blocks s1)[pb := ?z]\<rparr>"
  let ?t = "?s3\<lparr>files := remove1 x (files s)\<rparr>"
  have dl: "delDirEntry x (blocks s ! pb) = Inr ?z" using p(6) gp(2) fe by (simp add: delDirEntry_def)
  have gi: "get_inode pi s1 = Inr (inodes s ! pi)" using p(2) s1(3) pj get_inode_ok [of pi s1] by simp
  have gd: "dict_get (nameToInum s1) (getParent x) = Inr pi" using p(1) s1(8) by (simp add: dict_get_Inr)
  have ub: "upd_block (Some pb) (delDirEntry x) s1 = Inr ?s3" using pb1 dl by (simp add: upd_block_ok)
  have df: "deleteFile x s = Inr ?t"
    unfolding deleteFile_def using g j(2,3) s1(1,6) gd gi p(4) ub x by (simp add: get_inode_ok py_remove_def)
  have r: "removed s ?t x" using x s1(6,7,8) by (simp add: removed_def)
  have "disk_ok ?s3" by (rule disk_block [OF s1(2) pb1(1)]) (use pb1(2) z in simp_all)
  then have "disk_ok ?t" by (simp add: disk_ok_def owned_def used_inodes_def used_blocks_def)
  moreover have "links_ok ?t" by (rule links_remove [OF inv r j(1), of y]) (use s1(3,4,5) in auto)
  moreover have "tree_ok ?t"
  proof (rule tree_remove [OF inv r p(1,4)])
    fix e i b assume e: "e \<in> set (dirs s)" "inum_of s e = Some i" "addr (inodes s ! i) = Some b"
    have eb: "iftype (inodes s ! i) = Dir" "b < length (blocks s)" "bftype (blocks s ! b) = Dir"
      using dir_lookup [OF inv e(1)] e by auto
    then have ij: "i \<noteq> j" using j(3) by auto
    have "e \<noteq> getParent x \<Longrightarrow> b \<noteq> pb"
      using same_dir [OF inv e(1) dn(1) e(2,3)] p(1,4) gp(1) by auto
    then show "addr (inodes ?t ! i) = Some b \<and> (e \<noteq> getParent x \<longrightarrow> dirList (blocks ?t ! b) = dirList (blocks s ! b))"
      using e(3) ij s1(3) s1(10) [OF eb(2,3)] by (cases "e = getParent x") simp_all
  next
    show "\<exists>i. find_entry (last (py_split CHR ''/'' x)) (dirList (blocks s ! pb)) = Some i \<and>
        dirList (blocks ?t ! pb) = delete_at i (dirList (blocks s ! pb))"
      using fe gp(2) pb1(1) by simp
  qed
  moreover have "names_ok ?t" by (rule removed_names(2) [OF names r])
  ultimately have "fs_inv ?t" by (simp add: fs_inv_def)
  with df s1(7) show ?thesis by auto
qed

section \<open>Making a directory\<close>

lemma disk_ok_cong:
  assumes "ibitmap t = ibitmap s" "dbitmap t = dbitmap s" "inodes t = inodes s" "blocks t = blocks s"
  shows "disk_ok t = disk_ok s"
  using assms by (simp add: disk_ok_def owned_def used_inodes_def used_blocks_def)

lemma links_add_dir:
  assumes inv: "fs_inv s" and a: "adds_name s t d n j" and p: "inum_of s d = Some i"
    and j: "j < length (inodes s)" "iftype (inodes s ! j) = Free"
    and t: "files t = files s" "dirs t = dirs s @ [fullName d n]"
      "inodes t = (inodes s)[j := y, i := (inodes s ! i)\<lparr>refCnt := refCnt (inodes s ! i) + 1\<rparr>]"
    and y: "iftype y = Dir" "addr y \<noteq> None" "refCnt y = 2"
  shows "links_ok t"
proof -
  let ?x = "fullName d n"
  have links: "links_ok s" and names: "names_ok s" using inv by (simp_all add: fs_inv_def)
  have d: "d \<in> set (dirs s)" and fresh: "?x \<notin> set (dirs s)" "?x \<notin> set (files s)"
    and num: "inum_of t = (inum_of s)(?x \<mapsto> j)" and n: "name_ok n"
    using a by (auto simp: adds_name_def all_names_def)
  have v: "valid_path d" using names d by (simp add: names_ok_def)
  have par: "getParent ?x = d" "?x \<noteq> ''/''" using fullName_parts(1,4) [OF v n] by auto
  have i: "i < length (inodes s)" "iftype (inodes s ! i) = Dir" "refCnt (inodes s ! i) = 2 + int (subdirs s d)"
    using dir_lookup [OF inv d] p by auto
  have ij: "i \<noteq> j" using i(2) j(2) by auto
  have len: "length (inodes t) = length (inodes s)" using t(3) by simp
  have at: "inodes t ! k = (if k = i then (inodes s ! i)\<lparr>refCnt := refCnt (inodes s ! i) + 1\<rparr> else if k = j then y else inodes s ! k)"
    if "k < length (inodes s)" for k
    using that t(3) by simp
  have F: "z \<in> set (files s) \<Longrightarrow> inum_of t z = inum_of s z" "z \<in> set (dirs s) \<Longrightarrow> inum_of t z = inum_of s z" for z
    using num fresh by auto
  have "filter (\<lambda>f. inum_of t f = Some k) (files s) = filter (\<lambda>f. inum_of s f = Some k) (files s)" for k
    by (rule filter_cong) (use F(1) in auto)
  then have cnt: "link_count t = link_count s" using t(1) by (simp add: fun_eq_iff link_count_def)
  have sub: "subdirs t e = subdirs s e + (if e = d then 1 else 0)" for e
    using t(2) par by (simp add: subdirs_def)
  have "getParent z \<noteq> ?x" if "z \<in> set (dirs s)" for z
    using parent_dir [OF names, of z] that fresh(1) by (auto simp: all_names_def)
  then have subx: "subdirs s ?x = 0" by (simp add: subdirs_def filter_empty_conv)
  have dj: "inum_of s e \<noteq> Some j" if "e \<in> set (dirs s)" for e using dir_lookup [OF inv that] j(2) by auto
  show ?thesis
    unfolding links_ok_def len
  proof (intro conjI ballI allI impI)
    fix e assume e: "e \<in> set (dirs t)"
    show "\<exists>k<length (inodes s). inum_of t e = Some k \<and> iftype (inodes t ! k) = Dir \<and>
        addr (inodes t ! k) \<noteq> None \<and> refCnt (inodes t ! k) = 2 + int (subdirs t e)"
    proof (cases "e = ?x")
      case True
      moreover have "?x \<noteq> d" using d fresh by auto
      ultimately show ?thesis using num j(1) at [OF j(1)] ij y sub [of ?x] subx by (intro exI [of _ j]) simp
    next
      case False
      then have e: "e \<in> set (dirs s)" using e t(2) by simp
      then obtain k where k: "k < length (inodes s)" "inum_of s e = Some k" "iftype (inodes s ! k) = Dir"
        "addr (inodes s ! k) \<noteq> None" "refCnt (inodes s ! k) = 2 + int (subdirs s e)"
        using links unfolding links_ok_def by blast
      have "k = i \<longleftrightarrow> e = d" using k(2) p e d links unfolding links_ok_def by auto
      moreover have "k \<noteq> j" using k(2) dj [OF e] by auto
      ultimately show ?thesis using k at [OF k(1)] F(2) [OF e] sub [of e] by (intro exI [of _ k]) auto
    qed
  next
    fix e e' assume e: "e \<in> set (dirs t)" "e' \<in> set (dirs t)" "inum_of t e = inum_of t e'"
    then show "e = e'"
      using links dj num t(2) unfolding links_ok_def by (auto split: if_splits)
  next
    fix k assume k: "k < length (inodes s)" "iftype (inodes t ! k) = Dir"
    show "\<exists>e \<in> set (dirs t). inum_of t e = Some k"
    proof (cases "k = j")
      case True
      then show ?thesis using num t(2) by simp
    next
      case False
      then have "iftype (inodes s ! k) = Dir" using k at [OF k(1)] i(2) by (auto split: if_splits)
      then obtain e where "e \<in> set (dirs s)" "inum_of s e = Some k" using links k(1) unfolding links_ok_def by blast
      then show ?thesis using F(2) t(2) by (intro bexI [of _ e]) simp_all
    qed
  next
    fix f assume f: "f \<in> set (files t)"
    then have f': "f \<in> set (files s)" using t(1) by simp
    then obtain k where k: "k < length (inodes s)" "inum_of s f = Some k" "iftype (inodes s ! k) = File"
      using links unfolding links_ok_def by blast
    then have "k \<noteq> i" "k \<noteq> j" using i(2) j(2) by auto
    then show "\<exists>k<length (inodes s). inum_of t f = Some k \<and> iftype (inodes t ! k) = File"
      using k at [OF k(1)] F(1) [OF f'] by (intro exI [of _ k]) simp
  next
    fix k assume k: "k < length (inodes s)" "iftype (inodes t ! k) = File"
    then have "k \<noteq> i" "k \<noteq> j" using at i(2) y(1) ij by auto
    then have "iftype (inodes s ! k) = File" "inodes t ! k = inodes s ! k" using k at [OF k(1)] by auto
    then have "refCnt (inodes t ! k) = int (link_count t k) \<and> 0 < link_count t k"
      using links k(1) cnt unfolding links_ok_def by simp
    then show "refCnt (inodes t ! k) = int (link_count t k)" "0 < link_count t k" by blast+
  qed
qed

lemma new_dir_entries:
  assumes inv: "fs_inv s" and a: "adds_name s t d n j" and p: "inum_of s d = Some i"
  shows "dir_entries t (fullName d n) j [(''.'', j), (''..'', i)]"
proof -
  let ?x = "fullName d n"
  have names: "names_ok s" using inv by (simp add: fs_inv_def)
  have d: "d \<in> set (dirs s)" and fresh: "?x \<notin> set (dirs s)"
    and num: "inum_of t = (inum_of s)(?x \<mapsto> j)" and n: "name_ok n" and al: "all_names t = insert ?x (all_names s)"
    using a by (auto simp: adds_name_def all_names_def)
  have v: "valid_path d" using names d by (simp add: names_ok_def)
  have px: "getParent ?x = d" "valid_path ?x" using fullName_parts(1,3) [OF v n] by auto
  have "fullName ?x m \<notin> all_names t" if m: "name_ok m" for m
  proof -
    have g: "getParent (fullName ?x m) = ?x" by (rule fullName_parts(1) [OF px(2) m])
    then have "fullName ?x m \<noteq> ?x" using px d fresh by auto
    moreover have "fullName ?x m \<notin> all_names s" using parent_dir [OF names, of "fullName ?x m"] g fresh by auto
    ultimately show ?thesis using al by simp
  qed
  then have "children t ?x = {}" by (auto simp: children_def)
  moreover have "?x \<noteq> d" using d fresh by auto
  ultimately show ?thesis using num p px by (simp add: dir_entries_def)
qed

definition made :: "fs \<Rightarrow> string \<Rightarrow> nat \<Rightarrow> fs" where
  "made s f j = s\<lparr>dirs := dirs s @ [f], nameToInum := dict_set f j (nameToInum s)\<rparr>"

lemma dataAlloc_ibitmap: "dataAlloc s = (r, t) \<Longrightarrow> dataAlloc (s\<lparr>ibitmap := ib\<rparr>) = (r, t\<lparr>ibitmap := ib\<rparr>)"
  by (auto simp: dataAlloc_def split: prod.splits)

lemma inodeFree_undo:
  assumes disk: "disk_ok s" and al: "inodeAlloc s = (Some j, s\<lparr>ibitmap := ib\<rparr>)" "j < length (inodes s)" "iftype (inodes s ! j) = Free"
  shows "inodeFree j (s\<lparr>ibitmap := ib\<rparr>) = Inr s"
proof -
  have t: "tracks (ibitmap s) (used_inodes s)" and o: "owned s" using disk by (simp_all add: disk_ok_def)
  have "bitmap_alloc (ibitmap s) = (Some j, ib)"
    using al(1) by (cases "bitmap_alloc (ibitmap s)") (auto simp: inodeAlloc_def dest!: arg_cong [of _ _ ibitmap])
  then obtain b where b: "bitmap_free j ib = Inr b" "tracks b (used_inodes s)" using bitmaps.alloc_release [OF t] by blast
  then have eq: "b = ibitmap s" using tracks_unique t by blast
  have "addr (inodes s ! j) = None" using o al(2,3) by (cases "addr (inodes s ! j)") (auto simp: owned_def)
  then have "inode_free (inodes s ! j) = inodes s ! j" using al(3) by (simp add: inode_free_def)
  then show ?thesis using b(1) eq al(2) by (simp add: inodeFree_def upd_inode_ok)
qed

lemma createFile_Dir:
  assumes inv: "fs_inv s" and d: "d \<in> set (dirs s)" and n: "name_ok n"
  shows "\<exists>r s'. createFile d n Dir s = Inr (r, s') \<and> (case r of None \<Rightarrow> s' = s | Some j \<Rightarrow> fs_inv (made s' (fullName d n) j))"
proof -
  obtain i b where f: "dict_get (nameToInum s) d = Inr i" "inum_of s d = Some i" "i < length (inodes s)"
    "get_inode i s = Inr (inodes s ! i)" "iftype (inodes s ! i) = Dir" "addr (inodes s ! i) = Some b"
    "b < length (blocks s)" "block_index (Some b) s = Inr b" "bftype (blocks s ! b) = Dir" "block_ok (blocks s ! b)"
    "getFreeEntries (blocks s ! b) = Inr (32 - dirUsed (blocks s ! b))" "maxUsed (blocks s ! b) = 32"
    "dirEntryExists n (blocks s ! b) = Inr (fullName d n \<in> all_names s)"
    by (rule parent_facts [OF inv d n])
  have disk: "disk_ok s" using inv by (simp add: fs_inv_def)
  show ?thesis
  proof (cases "32 - dirUsed (blocks s ! b) \<le> 0 \<or> fullName d n \<in> all_names s")
    case True
    then have "createFile d n Dir s = Inr (None, s)" using f by (auto simp: createFile_def)
    then show ?thesis by auto
  next
    case False
    show ?thesis
      using disk
    proof (cases rule: inodeAlloc_cases)
      case full
      then have "createFile d n Dir s = Inr (None, s)" using f False by (auto simp: createFile_def)
      then show ?thesis by auto
    next
      case gi: (got j ib)
      show ?thesis
        using disk
      proof (cases rule: dataAlloc_cases)
        case full
        have "dataAlloc (s\<lparr>ibitmap := ib\<rparr>) = (None, s\<lparr>ibitmap := ib\<rparr>)" by (rule dataAlloc_ibitmap [OF full])
        then have "createFile d n Dir s = Inr (None, s)"
          using f False gi(1) inodeFree_undo [OF disk gi(1,2,3)] by (simp add: createFile_def)
        then show ?thesis by auto
      next
        case (got c db)
        let ?y = "inode_setAll Dir (Some c) 2 (inodes s ! j)"
        let ?p = "(inodes s ! i)\<lparr>refCnt := refCnt (inodes s ! i) + 1\<rparr>"
        let ?z = "with_entry ''..'' i (with_entry ''.'' j ((blocks s ! c)\<lparr>bftype := Dir\<rparr>))"
        let ?w = "with_entry n j (blocks s ! b)"
        let ?s8 = "s\<lparr>ibitmap := ib, dbitmap := db, blocks := (blocks s)[c := ?z, b := ?w], inodes := (inodes s)[j := ?y, i := ?p]\<rparr>"
        let ?t = "made ?s8 (fullName d n) j"
        have ij: "j \<noteq> i" using gi(3) f(5) by auto
        have cb: "c \<noteq> b" using got(3) f(9) by auto
        have bc: "maxUsed (blocks s ! c) = 32" "dirUsed (blocks s ! c) = 0" "dirList (blocks s ! c) = []" "block_ok ?z"
          using disk got(2,3) by (auto simp: disk_ok_def block_ok_def with_entry_def)
        have da: "dataAlloc (s\<lparr>ibitmap := ib\<rparr>) = (Some c, s\<lparr>dbitmap := db, ibitmap := ib\<rparr>)" by (rule dataAlloc_ibitmap [OF got(1)])
        have cr: "createFile d n Dir s = Inr (Some j, ?s8)"
          using f False gi da got(2,3) ij cb bc(1,2)
          by (simp add: createFile_def upd_inode_ok upd_block_ok addDirEntry_ok setType_def)
        let ?u1 = "s\<lparr>ibitmap := ib, inodes := (inodes s)[j := inode_setAll Dir None 2 (inodes s ! j)]\<rparr>"
        let ?u2 = "?u1\<lparr>inodes := (inodes ?u1)[j := ?y], dbitmap := db, blocks := (blocks ?u1)[c := ?z]\<rparr>"
        let ?u3 = "?u2\<lparr>inodes := (inodes ?u2)[i := ?p]\<rparr>"
        have "disk_ok ?u1" by (rule disk_new_inode [OF disk gi(2,3) _ _ gi(4)]) (simp_all add: inode_setAll_def)
        then have "disk_ok ?u2"
          by (rule disk_attach) (use gi(2) got bc(4) in \<open>auto simp: inode_setAll_def used_blocks_def with_entry_def\<close>)
        then have "disk_ok ?u3" by (rule disk_inode) (use f(3) ij in simp_all)
        then have "disk_ok (?u3\<lparr>blocks := (blocks ?u3)[b := ?w]\<rparr>)"
          by (rule disk_block) (use f cb block_ok_with_entry in auto)
        then have dt: "disk_ok ?t" by (subst disk_ok_cong) (simp_all add: made_def)
        have a: "adds_name s ?t d n j"
          using d n False by (auto simp: adds_name_def all_names_def made_def)
        have "names_ok ?t" using inv by (intro names_add [OF _ a]) (simp_all add: made_def fs_inv_def)
        moreover have "links_ok ?t"
          by (rule links_add_dir [OF inv a f(2) gi(2,3), of ?y]) (simp_all add: made_def inode_setAll_def)
        moreover have "tree_ok ?t"
        proof (rule tree_add [OF inv a])
          fix e k m assume e: "e \<in> set (dirs s)" "inum_of s e = Some k" "addr (inodes s ! k) = Some m"
          have k: "iftype (inodes s ! k) = Dir" "bftype (blocks s ! m) = Dir" using dir_lookup [OF inv e(1)] e by auto
          have mb: "m = b \<longleftrightarrow> e = d" using same_dir [OF inv d e(1) f(2,6) e(2)] e f(2,6) by auto
          have "k \<noteq> j" "m \<noteq> c" using k gi(3) got(3) by auto
          then show "addr (inodes ?t ! k) = Some m \<and>
              dirList (blocks ?t ! m) = (if e = d then dirList (blocks s ! m) @ [(n, j)] else dirList (blocks s ! m))"
            using e(3) f(3,7) mb by (auto simp: made_def nth_list_update)
        next
          show "\<exists>b. addr (inodes ?t ! j) = Some b \<and> dir_entries ?t (fullName d n) j (dirList (blocks ?t ! b))"
            using new_dir_entries [OF inv a f(2)] gi(2) got(2) ij cb bc(3) by (simp add: made_def inode_setAll_def)
        qed (simp add: made_def)
        ultimately have "fs_inv ?t" using dt by (simp add: fs_inv_def)
        with cr show ?thesis by auto
      qed
    qed
  qed
qed

section \<open>Requests and runs\<close>

lemma pick_one_ok: "xs \<noteq> [] \<Longrightarrow> valid_draw k \<Longrightarrow> \<exists>x. pick_one xs k = Inr x \<and> x \<in> set xs"
  using pick_less [of k "length xs"] by (auto simp: pick_one_def py_get_nat)

text \<open>
  The outcome of a request on a good state: the draws may run out, otherwise the state is good again, it is the old
  one when the request failed, and a draw is gone.
\<close>

definition good_request :: "fs \<Rightarrow> draw list \<Rightarrow> (op option \<times> fs \<times> draw list) res \<Rightarrow> bool" where
  "good_request s ds r = (case r of
     Inl e \<Rightarrow> e = Out_Of_Draws
   | Inr (rc, s', ds') \<Rightarrow> fs_inv s' \<and> (rc = None \<longrightarrow> s' = s) \<and> set ds' \<subseteq> set ds \<and> length ds' \<le> length ds)"

lemma good_request_later: "good_request s ds r \<Longrightarrow> good_request s (k # ds) r"
  by (auto simp: good_request_def split: sum.splits)

lemma good_none: "fs_inv s \<Longrightarrow> good_request s ds (Inr (None, s, ds))"
  by (simp add: good_request_def)

lemma good_out: "good_request s ds (Inl Out_Of_Draws)"
  by (simp add: good_request_def)

lemma has_root: "fs_inv s \<Longrightarrow> dirs s \<noteq> []"
  by (auto simp: fs_inv_def names_ok_def)

lemma doDelete_good:
  assumes inv: "fs_inv s" and ds: "\<forall>k \<in> set ds. valid_draw k"
  shows "good_request s ds (doDelete s ds)"
proof (cases "files s = []")
  case False
  show ?thesis
  proof (cases ds)
    case (Cons k ds1)
    then obtain x where x: "pick_one (files s) k = Inr x" "x \<in> set (files s)" using pick_one_ok [OF False] ds by auto
    obtain s1 where "deleteFile x s = Inr s1" "fs_inv s1" using deleteFile_spec [OF inv x(2)] by blast
    then show ?thesis using False Cons x(1) by (auto simp: doDelete_def good_request_def)
  qed (simp add: False doDelete_def good_out)
qed (simp add: doDelete_def good_none [OF inv])

lemma doAppend_good:
  assumes inv: "fs_inv s" and ds: "\<forall>k \<in> set ds. valid_draw k"
  shows "good_request s ds (doAppend s ds)"
proof (cases "files s = []")
  case False
  consider "ds = []" | k where "ds = [k]" | k k2 ds2 where "ds = k # k2 # ds2" by (cases ds rule: remdups_adj.cases) auto
  then show ?thesis
  proof cases
    case (2 k)
    then obtain x where x: "pick_one (files s) k = Inr x" using pick_one_ok [OF False] ds by auto
    then show ?thesis using 2 False by (simp add: doAppend_def good_out)
  next
    case (3 k k2 ds2)
    then obtain x where x: "pick_one (files s) k = Inr x" "x \<in> set (files s)" using pick_one_ok [OF False] ds by auto
    obtain ok s1 where "writeFile x [char_of (97 + pick k2 26)] s = Inr (ok, s1)" "fs_inv s1" "\<not> ok \<longrightarrow> s1 = s"
      using writeFile_spec [OF inv x(2)] by blast
    then show ?thesis using False 3 x(1) by (auto simp: doAppend_def good_request_def)
  qed (simp add: False doAppend_def good_out)
qed (simp add: doAppend_def good_none [OF inv])

lemma doLink_good:
  assumes inv: "fs_inv s" and ds: "\<forall>k \<in> set ds. valid_draw k"
  shows "good_request s ds (doLink s ds)"
proof (cases "files s = []")
  case False
  consider "ds = []" | k where "ds = [k]" | k k2 where "ds = [k, k2]" | k k2 k3 ds3 where "ds = k # k2 # k3 # ds3"
    by (metis neq_Nil_conv)
  then show ?thesis
  proof cases
    case (2 k)
    then obtain d where d: "pick_one (dirs s) k = Inr d" using pick_one_ok [OF has_root [OF inv]] ds by auto
    then show ?thesis using 2 False by (simp add: doLink_def good_out)
  next
    case (3 k k2)
    then obtain d where d: "pick_one (dirs s) k = Inr d" using pick_one_ok [OF has_root [OF inv]] ds by auto
    then show ?thesis using 3 False by (simp add: doLink_def good_out Let_def)
  next
    case (4 k k2 k3 ds3)
    then obtain d where d: "pick_one (dirs s) k = Inr d" "d \<in> set (dirs s)" using pick_one_ok [OF has_root [OF inv]] ds by auto
    obtain x where x: "pick_one (files s) k3 = Inr x" "x \<in> set (files s)" using pick_one_ok [OF False] ds 4 by auto
    have n: "name_ok (makeName k2)" using makeName_ok ds 4 by simp
    obtain r s1 where r: "createLink x (makeName k2) d s = Inr (r, s1)"
      "case r of None \<Rightarrow> s1 = s | Some j \<Rightarrow> fs_inv (created s1 (fullName d (makeName k2)) j)"
      using createLink_spec [OF inv d(2) n x(2)] by blast
    show ?thesis
      using False 4 d(1) x(1) r inv by (cases r) (auto simp: doLink_def good_request_def Let_def created_def)
  qed (simp add: False doLink_def good_out)
qed (simp add: doLink_def good_none [OF inv])

lemma doCreate_good:
  assumes inv: "fs_inv s" and ds: "\<forall>k \<in> set ds. valid_draw k" and t: "t = File \<or> t = Dir"
  shows "good_request s ds (doCreate t s ds)"
proof -
  consider "ds = []" | k where "ds = [k]" | k k2 ds2 where "ds = k # k2 # ds2" by (cases ds rule: remdups_adj.cases) auto
  then show ?thesis
  proof cases
    case (2 k)
    then obtain d where "pick_one (dirs s) k = Inr d" using pick_one_ok [OF has_root [OF inv]] ds by auto
    then show ?thesis using 2 by (simp add: doCreate_def good_out)
  next
    case (3 k k2 ds2)
    then obtain d where d: "pick_one (dirs s) k = Inr d" "d \<in> set (dirs s)" using pick_one_ok [OF has_root [OF inv]] ds by auto
    have n: "name_ok (makeName k2)" using makeName_ok ds 3 by simp
    show ?thesis
    proof (cases "t = File")
      case True
      obtain r s1 where r: "createFile d (makeName k2) File s = Inr (r, s1)"
        "case r of None \<Rightarrow> s1 = s | Some j \<Rightarrow> fs_inv (created s1 (fullName d (makeName k2)) j)"
        using createFile_File [OF inv d(2) n] by blast
      show ?thesis
        using True 3 d(1) r inv by (cases r) (auto simp: doCreate_def good_request_def Let_def created_def)
    next
      case False
      then have t: "t = Dir" using t by simp
      obtain r s1 where r: "createFile d (makeName k2) Dir s = Inr (r, s1)"
        "case r of None \<Rightarrow> s1 = s | Some j \<Rightarrow> fs_inv (made s1 (fullName d (makeName k2)) j)"
        using createFile_Dir [OF inv d(2) n] by blast
      show ?thesis
        using t 3 d(1) r inv by (cases r) (auto simp: doCreate_def good_request_def Let_def made_def)
    qed
  qed (simp add: doCreate_def good_out)
qed

lemma request_good:
  assumes inv: "fs_inv s" and ds: "\<forall>k \<in> set ds. valid_draw k"
  shows "good_request s (tl ds) (request s ds)"
proof (cases ds)
  case Nil
  then show ?thesis by (simp add: request_def good_out)
next
  case (Cons k ds1)
  have v: "\<forall>k \<in> set ds1. valid_draw k" using ds Cons by simp
  have "good_request s ds1 (rbind (next_draw ds1) (\<lambda>(k', ds2).
       if k' < 6755399441055744 then doCreate File s ds2 else doCreate Dir s ds2))"
  proof (cases ds1)
    case (Cons k' ds2)
    then have "\<forall>k \<in> set ds2. valid_draw k" using v by simp
    from doCreate_good [OF inv this] show ?thesis using Cons good_request_later by simp
  qed (simp add: good_out)
  then show ?thesis
    using Cons doAppend_good [OF inv v] doDelete_good [OF inv v] doLink_good [OF inv v] by (simp add: request_def)
qed

lemma attempt_good:
  assumes "fs_inv s" "\<forall>k \<in> set ds. valid_draw k" "length ds < n"
  shows "case attempt n s ds of
      Inl e \<Rightarrow> e = Out_Of_Draws \<or> e = SystemExit 1
    | Inr (p, s', ds') \<Rightarrow> fs_inv s' \<and> set ds' \<subseteq> set ds"
  using assms
proof (induction n arbitrary: s ds)
  case (Suc n)
  have g: "good_request s (tl ds) (request s ds)" by (rule request_good [OF Suc.prems(1,2)])
  show ?case
  proof (cases "request s ds")
    case (Inl e)
    then show ?thesis using g by (simp add: good_request_def)
  next
    case (Inr y)
    obtain rc s1 ds1 where y: "y = (rc, s1, ds1)" by (cases y)
    then have r: "fs_inv s1" "set ds1 \<subseteq> set (tl ds)" "length ds1 \<le> length (tl ds)" using g Inr by (simp_all add: good_request_def)
    have "ds \<noteq> []" using Inr by (auto simp: request_def)
    then have d: "set ds1 \<subseteq> set ds" "length ds1 < n" using r(2,3) Suc.prems(3) by (cases ds; auto)+
    have v: "\<forall>k \<in> set ds1. valid_draw k" using d(1) Suc.prems(2) by blast
    show ?thesis
    proof (cases rc)
      case None
      then show ?thesis using Suc.IH [OF r(1) v d(2)] Inr y d(1) by (auto split: sum.splits)
    next
      case (Some p)
      then show ?thesis using Inr y r(1) d(1) by simp
    qed
  qed
qed simp

lemma vsfs_run_good:
  assumes "fs_inv s" "\<forall>k \<in> set ds. valid_draw k"
  shows "case vsfs_run n ops s ds of
      Inl e \<Rightarrow> e = Out_Of_Draws \<or> e = SystemExit 1
    | Inr (ops', s') \<Rightarrow> fs_inv s' \<and> length ops' = length ops + n"
  using assms
proof (induction n arbitrary: ops s ds)
  case (Suc n)
  have a: "case attempt (Suc (length ds)) s ds of
      Inl e \<Rightarrow> e = Out_Of_Draws \<or> e = SystemExit 1
    | Inr (p, s', ds') \<Rightarrow> fs_inv s' \<and> set ds' \<subseteq> set ds"
    by (rule attempt_good [OF Suc.prems]) simp
  show ?case
  proof (cases "attempt (Suc (length ds)) s ds")
    case (Inr y)
    obtain p s1 ds1 where y: "y = (p, s1, ds1)" by (cases y)
    then have "fs_inv s1" "\<forall>k \<in> set ds1. valid_draw k" using a Inr Suc.prems(2) by auto
    from Suc.IH [OF this, of "ops @ [p]"] show ?thesis using Inr y by (auto split: sum.splits simp del: attempt.simps)
  qed (use a in simp)
qed simp

lemma tracks_init: "0 < n \<Longrightarrow> \<exists>b. markAllocated ROOT (bitmap_init n) = Inr b \<and> tracks b (True # replicate (n - 1) False)"
  by (cases n) (simp_all add: markAllocated_def bitmap_init_def ROOT_def tracks_def)

lemma fs_init_inv:
  assumes "0 < ni" "0 < nd"
  shows "\<exists>s. fs_init ni nd = Inr s \<and> fs_inv s"
proof -
  obtain m k where mk: "ni = Suc m" "nd = Suc k" using assms by (cases ni; cases nd) auto
  obtain ib db where b: "markAllocated ROOT (bitmap_init ni) = Inr ib" "tracks ib (True # replicate m False)"
    "markAllocated ROOT (bitmap_init nd) = Inr db" "tracks db (True # replicate k False)"
    using tracks_init [OF assms(1)] tracks_init [OF assms(2)] mk by auto
  let ?r = "with_entry ''..'' 0 (with_entry ''.'' 0 ((block_init Free)\<lparr>bftype := Dir\<rparr>))"
  let ?s = "\<lparr>ibitmap = ib, inodes = inode_setAll Dir (Some 0) 2 inode_init # replicate m inode_init, dbitmap = db,
    blocks = ?r # replicate k (block_init Free), files = [], dirs = [''/''], nameToInum = [(''/'', 0)]\<rparr>"
  have init: "fs_init ni nd = Inr ?s"
    using b(1,3) mk by (simp add: fs_init_def ROOT_def upd_inode_def get_inode_def py_get_def upd_block_ok setType_def
        block_init_def addDirEntry_def with_entry_def)
  have cons: "xs ! i = (if i = 0 then a else b)" if "i < Suc n" "xs = a # replicate n b" for xs :: "'a list" and i n a b
    using that by (cases i) auto
  have "disk_ok ?s"
    using b(2,4) by (auto simp: disk_ok_def used_inodes_def used_blocks_def owned_def block_ok_def inode_init_def inode_setAll_def
        block_init_def with_entry_def nth_Cons split: nat.splits)
  moreover have "names_ok ?s" by (auto simp: names_ok_def valid_path_def all_names_def)
  moreover have "links_ok ?s"
    unfolding links_ok_def
    by (auto simp: inode_init_def inode_setAll_def subdirs_def nth_Cons split: nat.splits)
  moreover have "tree_ok ?s"
  proof -
    have "children ?s ''/'' = {}" by (auto simp: children_def all_names_def fullName_def name_ok_def)
    then show ?thesis by (simp add: tree_ok_def dir_entries_def getParent_root inode_setAll_def block_init_def)
  qed
  ultimately show ?thesis using init by (auto simp: fs_inv_def)
qed

section \<open>Properties\<close>

text \<open>
  C8. Whatever the random draws, a run of the file-system simulator from the empty file system of any positive size never
  raises: no \<open>assert\<close>, no dict lookup and no list access of \<open>vsfs.py\<close> fails. It either performs all the requested operations, and then
  bitmaps, inodes, blocks, directory entries, reference counts and path names agree, or it ends in the \<open>exit(1)\<close> of a full file system
  (or the finite supply of draws is used up).
\<close>

theorem vsfs_main_safe:
  assumes "0 < o_numInodes opt" "0 < o_numData opt" "\<forall>k \<in> set ds. valid_draw k"
  shows "case vsfs_main opt ds of
      Inl e \<Rightarrow> e = Out_Of_Draws \<or> e = SystemExit 1
    | Inr (ops, s) \<Rightarrow> fs_inv s \<and> length ops = o_numRequests opt"
proof -
  obtain s where s: "fs_init (o_numInodes opt) (o_numData opt) = Inr s" "fs_inv s" using fs_init_inv [OF assms(1,2)] by blast
  show ?thesis using vsfs_run_good [OF s(2) assms(3), where n = "o_numRequests opt" and ops = "[]"] s(1)
    by (auto simp: vsfs_main_def split: sum.splits)
qed

text \<open>
  A request that reports failure leaves the file system as it was: the inode or the data block it took
  from a bitmap before failing is given back, and no name, link count or directory changes.
\<close>

theorem failed_request_no_effect:
  assumes "fs_inv s" "\<forall>k \<in> set ds. valid_draw k" "request s ds = Inr (None, s', ds')"
  shows "s' = s"
  using request_good [OF assms(1,2)] assms(3) by (simp add: good_request_def)

text \<open>
  The path of an entry (\<open>fullName\<close>) determines the directory it is in and its name: \<open>getParent\<close> and the last
  component of the split path give them back, so two entries never share a path.
\<close>

theorem path_roundtrip:
  assumes "valid_path d" "name_ok n"
  shows "getParent (fullName d n) = d \<and> last (py_split CHR ''/'' (fullName d n)) = n"
  using fullName_parts(1,2) [OF assms] by (rule conjI)

theorem path_roundtrip_witness: "getParent (fullName ''/a/b'' ''c'') = ''/a/b'' \<and> last (py_split CHR ''/'' (fullName ''/a/b'' ''c'')) = ''c''"
proof (rule path_roundtrip)
  show "valid_path ''/a/b''"
    unfolding valid_path_def by (intro disjI2 exI [of _ "[''a'', ''b'']"]) (simp add: path_of_def name_ok_def)
qed (simp add: name_ok_def)

lemma run_creates:
  "\<exists>s. vsfs_main \<lparr>o_numInodes = 3, o_numData = 3, o_numRequests = 1\<rparr> [9007199254740991, 0, 0, 0] = Inr ([Creat ''/a''], s)"
proof -
  have "replicate 3 x = [x, x, x]" for x :: 'a by (simp add: numeral_3_eq_3)
  then show ?thesis
    by (simp add: vsfs_main_def fs_init_def markAllocated_def bitmap_init_def ROOT_def upd_inode_def get_inode_def numeral_3_eq_3
      py_get_def upd_block_def block_index_def setType_def addDirEntry_def block_init_def inode_setAll_def request_def doCreate_def
      pick_one_def pick_def Let_def createFile_def dict_get_def getFreeEntries_def dirEntryExists_def makeName_def name_chars_def
      inodeAlloc_def bitmap_alloc_def numFree_def fullName_def)
qed

theorem vsfs_main_safe_witness:
  "\<exists>s. vsfs_main \<lparr>o_numInodes = 3, o_numData = 3, o_numRequests = 1\<rparr> [9007199254740991, 0, 0, 0] = Inr ([Creat ''/a''], s) \<and> fs_inv s"
proof -
  let ?o = "\<lparr>o_numInodes = 3, o_numData = 3, o_numRequests = 1\<rparr>" and ?ds = "[9007199254740991, 0, 0, 0] :: draw list"
  obtain s where s: "vsfs_main ?o ?ds = Inr ([Creat ''/a''], s)" using run_creates by blast
  have "case vsfs_main ?o ?ds of Inl e \<Rightarrow> e = Out_Of_Draws \<or> e = SystemExit 1 | Inr (ops, s) \<Rightarrow> fs_inv s \<and> length ops = o_numRequests ?o"
    by (rule vsfs_main_safe) (simp_all add: valid_draw_def)
  then show ?thesis using s by auto
qed

theorem failed_request_no_effect_witness:
  "\<exists>s s'. fs_inv s \<and> request s [0] = Inr (None, s', []) \<and> s' = s"
proof -
  obtain s where s: "fs_init 8 8 = Inr s" "fs_inv s" using fs_init_inv [of 8 8] by auto
  have e: "files s = []"
    using s(1) by (auto simp: fs_init_def rbind_eq_Inr upd_block_def upd_inode_def markAllocated_def)
  have r: "request s [0] = Inr (None, s, [])" using e by (simp add: request_def doAppend_def)
  have "s = s" by (rule failed_request_no_effect [OF s(2) _ r]) (simp add: valid_draw_def)
  then show ?thesis using s(2) r by blast
qed

end
