(* ===== verification/Raid.thy ===== *)
theory Raid
  imports Complex_Main PyString
begin

text \<open>
  The RAID simulator of \<open>file-raid/raid.py\<close>: the disk with its cost model, the block mappings of levels 0, 1, 4
  and 5, reads and writes of whole and partial stripes, and the main program. The mappings are instances of the
  interfaces \<open>striping\<close> and \<open>parity_striping\<close>, in which the facts about rows, parity and distinct places are
  proved once. Times are exact rationals where the code uses floats.
\<close>

section \<open>Sizes\<close>

definition BLOCKSIZE :: int where
  "BLOCKSIZE = 4096"

definition convert :: "string \<Rightarrow> int res" where
  "convert sz =
     (if sz = [] then Inl IndexError
      else
        let lastchar = last sz; scaled = (\<lambda>m. rbind (py_int (butlast sz)) (\<lambda>n. Inr (n * m))) in
        if lastchar = CHR ''k'' \<or> lastchar = CHR ''K'' then scaled 1024
        else if lastchar = CHR ''m'' \<or> lastchar = CHR ''M'' then scaled (1024 * 1024)
        else if lastchar = CHR ''g'' \<or> lastchar = CHR ''G'' then scaled (1024 * 1024 * 1024)
        else py_int sz)"

section \<open>Disks\<close>

record disk =
  seekTime :: rat
  xferTime :: rat
  currAddr :: int
  numTracks :: int
  blocksPerTrack :: int
  blocksPerDisk :: int
  countIO :: nat
  countSeq :: nat
  countNseq :: nat
  countRand :: nat
  utilTime :: rat

definition disk_init :: disk where
  "disk_init = \<lparr>seekTime = 10, xferTime = 1 / 10, currAddr = - 10000, numTracks = 100, blocksPerTrack = 100,
     blocksPerDisk = 100 * 100, countIO = 0, countSeq = 0, countNseq = 0, countRand = 0, utilTime = 0\<rparr>"

definition disk_enqueue :: "nat \<Rightarrow> disk \<Rightarrow> disk res" where
  "disk_enqueue a d =
     rbind (py_assert (int a < blocksPerDisk d)) (\<lambda>_.
     let d1 = d\<lparr>countIO := countIO d + 1\<rparr>;
         currTrack = trunc_div (currAddr d) (numTracks d);
         newTrack = trunc_div (int a) (numTracks d);
         diff = \<bar>int a - currAddr d\<bar>;
         d2 = (if currTrack = newTrack \<or> diff < blocksPerTrack d then
                 (if diff = 1 then d1\<lparr>countSeq := countSeq d + 1\<rparr> else d1\<lparr>countNseq := countNseq d + 1\<rparr>)
                   \<lparr>utilTime := utilTime d + of_int diff * xferTime d\<rparr>
               else d1\<lparr>countRand := countRand d + 1, utilTime := utilTime d + (seekTime d + xferTime d)\<rparr>)
     in Inr (d2\<lparr>currAddr := int a\<rparr>))"

section \<open>The array\<close>

text \<open>What is printed; the flag of a physical operation is the line break after it.\<close>

datatype raid_event =
    Logical_Write nat int | Logical_Read nat int | Physical_Question | Operation_Question
  | Phys_Read nat nat bool | Phys_Write nat nat bool | Blank

record raid =
  chunkSize :: nat
  numDisks :: nat
  raidLevel :: nat
  timing :: bool
  reverse_mode :: bool
  solve :: bool
  raid5type :: string
  blocksInStripe :: nat
  disks :: "disk list"
  printPhysical :: bool
  printed :: "raid_event list"

text \<open>\<open>chunk\<close> is the size in bytes.\<close>

definition raid_init :: "nat \<Rightarrow> nat \<Rightarrow> nat \<Rightarrow> bool \<Rightarrow> bool \<Rightarrow> bool \<Rightarrow> string \<Rightarrow> raid res" where
  "raid_init chunk nd level tm rv sv r5 =
     (if chunk mod nat BLOCKSIZE \<noteq> 0 then Inl (SystemExit 1)
      else if level = 1 \<and> nd mod 2 \<noteq> 0 then Inl (SystemExit 1)
      else let ch = chunk div nat BLOCKSIZE in
        Inr \<lparr>chunkSize = ch, numDisks = nd, raidLevel = level, timing = tm, reverse_mode = rv, solve = sv, raid5type = r5,
             blocksInStripe = (nd - 1) * ch, disks = replicate nd disk_init, printPhysical = False, printed = []\<rparr>)"

text \<open>Utilisation in percent, followed by the counters.\<close>

definition raid_stats :: "rat \<Rightarrow> raid \<Rightarrow> (rat \<times> nat \<times> nat \<times> nat \<times> nat) list" where
  "raid_stats elapsed r =
     map (\<lambda>d. (if elapsed > 0 then 100 * utilTime d / elapsed else 0, countIO d, countSeq d, countNseq d, countRand d)) (disks r)"

definition raid_go :: "raid \<Rightarrow> rat" where
  "raid_go r = foldl (\<lambda>tmax d. if utilTime d > tmax then utilTime d else tmax) 0 (disks r)"

definition say :: "raid_event \<Rightarrow> raid \<Rightarrow> raid" where
  "say e r = r\<lparr>printed := printed r @ [e]\<rparr>"

definition disk_io :: "raid_event \<Rightarrow> nat \<Rightarrow> nat \<Rightarrow> raid \<Rightarrow> raid res" where
  "disk_io e d off r =
     (let r1 = (if printPhysical r then say e r else r) in
      if d < length (disks r1) then
        rbind (disk_enqueue off (disks r1 ! d)) (\<lambda>x. Inr (r1\<lparr>disks := (disks r1)[d := x]\<rparr>))
      else Inl IndexError)"

definition doSingleRead :: "nat \<Rightarrow> nat \<Rightarrow> bool \<Rightarrow> raid \<Rightarrow> raid res" where
  "doSingleRead d off nl r = disk_io (Phys_Read d off nl) d off r"

definition doSingleWrite :: "nat \<Rightarrow> nat \<Rightarrow> bool \<Rightarrow> raid \<Rightarrow> raid res" where
  "doSingleWrite d off nl r = disk_io (Phys_Write d off nl) d off r"

definition blank_line :: "raid \<Rightarrow> raid res" where
  "blank_line r = Inr (if \<not> timing r \<and> printPhysical r then say Blank r else r)"

subsection \<open>Block mappings\<close>

definition div_res :: "nat \<Rightarrow> nat \<Rightarrow> nat res" where
  "div_res a b = (if b = 0 then Inl ZeroDivisionError else Inr (a div b))"

definition bmap0 :: "raid \<Rightarrow> nat \<Rightarrow> (nat \<times> nat) res" where
  "bmap0 r b =
     rbind (div_res b (chunkSize r)) (\<lambda>cnum. let coff = b mod chunkSize r in
     rbind (div_res cnum (numDisks r)) (\<lambda>row. Inr (cnum mod numDisks r, row * chunkSize r + coff)))"

definition bmap1 :: "raid \<Rightarrow> nat \<Rightarrow> (nat \<times> nat \<times> nat) res" where
  "bmap1 r b =
     rbind (div_res b (chunkSize r)) (\<lambda>cnum. let coff = b mod chunkSize r in
     rbind (div_res cnum (numDisks r div 2)) (\<lambda>row.
     let d = 2 * (cnum mod (numDisks r div 2)) in Inr (d, d + 1, row * chunkSize r + coff)))"

definition bmap4 :: "raid \<Rightarrow> nat \<Rightarrow> (nat \<times> nat) res" where
  "bmap4 r b =
     rbind (div_res b (chunkSize r)) (\<lambda>cnum. let coff = b mod chunkSize r in
     rbind (div_res cnum (numDisks r - 1)) (\<lambda>row. Inr (cnum mod (numDisks r - 1), row * chunkSize r + coff)))"

definition pmap4 :: "raid \<Rightarrow> nat \<Rightarrow> nat res" where
  "pmap4 r stripe = Inr (numDisks r - 1)"

definition bmap5_full :: "raid \<Rightarrow> nat \<Rightarrow> (nat \<times> nat \<times> nat) res" where
  "bmap5_full r b =
     rbind (div_res b (chunkSize r)) (\<lambda>cnum. let coff = b mod chunkSize r in
     rbind (div_res cnum (numDisks r - 1)) (\<lambda>ddsk.
     let doff = ddsk * chunkSize r + coff;
         disk = cnum mod (numDisks r - 1);
         col = ddsk mod numDisks r;
         pdisk = (numDisks r - 1) - col in
     rbind (if raid5type r = ''LA'' then Inr (if pdisk \<le> disk then disk + 1 else disk)
            else if raid5type r = ''LS'' then Inr (nat ((int disk - int col) mod int (numDisks r)))
            else Inl (SystemExit 1)) (\<lambda>disk.
     rbind (py_assert (disk \<noteq> pdisk)) (\<lambda>_. Inr (disk, pdisk, doff)))))"

definition bmap5 :: "raid \<Rightarrow> nat \<Rightarrow> (nat \<times> nat) res" where
  "bmap5 r b = rbind (bmap5_full r b) (\<lambda>(disk, pdisk, off). Inr (disk, off))"

definition pmap5 :: "raid \<Rightarrow> nat \<Rightarrow> nat res" where
  "pmap5 r stripe = rbind (bmap5_full r (stripe * blocksInStripe r)) (\<lambda>(disk, pdisk, off). Inr pdisk)"

subsection \<open>Requests\<close>

definition enqueue0 :: "nat \<Rightarrow> nat \<Rightarrow> bool \<Rightarrow> raid \<Rightarrow> raid res" where
  "enqueue0 a sz isWrite r =
     rbind (rfold (\<lambda>b r. rbind (bmap0 r b) (\<lambda>(d, off).
              if isWrite then doSingleWrite d off True r else doSingleRead d off True r)) [a..<a + sz] r) blank_line"

definition enqueue1 :: "nat \<Rightarrow> nat \<Rightarrow> bool \<Rightarrow> raid \<Rightarrow> raid res" where
  "enqueue1 a sz isWrite r =
     rbind (rfold (\<lambda>b r. rbind (bmap1 r b) (\<lambda>(d1, d2, off).
              if isWrite then rbind (doSingleWrite d1 off False r) (doSingleWrite d2 off True)
              else if off mod 2 = 0 then doSingleRead d1 off True r
              else doSingleRead d2 off True r)) [a..<a + sz] r) blank_line"

definition add_off :: "nat \<Rightarrow> nat list \<Rightarrow> nat list" where
  "add_off off offs = (if off \<in> set offs then offs else offs @ [off])"

definition parity_ios :: "(nat \<Rightarrow> nat \<Rightarrow> bool \<Rightarrow> raid \<Rightarrow> raid res) \<Rightarrow> nat \<Rightarrow> nat list \<Rightarrow> raid \<Rightarrow> raid res" where
  "parity_ios io pdisk offs = rfold (\<lambda>i. io pdisk (offs ! i) (i = length offs - 1)) [0..<length offs]"

definition doPartialWrite ::
  "nat \<Rightarrow> nat \<Rightarrow> nat \<Rightarrow> (raid \<Rightarrow> nat \<Rightarrow> (nat \<times> nat) res) \<Rightarrow> (raid \<Rightarrow> nat \<Rightarrow> nat res) \<Rightarrow> raid \<Rightarrow> raid res" where
  "doPartialWrite stripe first end bmap pmap r =
     (let numWrites = end - first in
      rbind (pmap r stripe) (\<lambda>pdisk.
      rbind
        (if int numWrites + 1 \<le> int (blocksInStripe r) - int numWrites then
           rbind (rfold (\<lambda>v (r, offs). rbind (bmap r v) (\<lambda>(d, off).
                    rbind (doSingleRead d off False r) (\<lambda>r. Inr (r, add_off off offs)))) [first..<end] (r, []))
             (\<lambda>(r, offs). parity_ios doSingleRead pdisk offs r)
         else
           let stripeBegin = stripe * blocksInStripe r; stripeEnd = stripeBegin + blocksInStripe r in
           rbind (rfold (\<lambda>v r. rbind (bmap r v) (\<lambda>(d, off).
                    doSingleRead d off (v + 1 = first \<and> end = stripeEnd) r)) [stripeBegin..<first] r)
             (rfold (\<lambda>v r. rbind (bmap r v) (\<lambda>(d, off). doSingleRead d off (v + 1 = stripeEnd) r)) [end..<stripeEnd]))
        (\<lambda>r. rbind (rfold (\<lambda>v (r, offs). rbind (bmap r v) (\<lambda>(d, off).
                rbind (doSingleWrite d off False r) (\<lambda>r. Inr (r, add_off off offs)))) [first..<end] (r, []))
               (\<lambda>(r, offs). parity_ios doSingleWrite pdisk offs r))))"

text \<open>The loop over stripes: the blocks left, the next block.\<close>

definition write_stripe ::
  "(raid \<Rightarrow> nat \<Rightarrow> (nat \<times> nat) res) \<Rightarrow> (raid \<Rightarrow> nat \<Rightarrow> nat res) \<Rightarrow> nat \<Rightarrow> nat \<times> nat \<times> raid \<Rightarrow> (nat \<times> nat \<times> raid) res" where
  "write_stripe bmap pmap stripe st =
     (let (left, first, r) = st;
          endOfStripe = stripe * blocksInStripe r + blocksInStripe r;
          e1 = (if left \<ge> blocksInStripe r then first + blocksInStripe r else first + left);
          e2 = (if e1 \<ge> endOfStripe then endOfStripe else e1)
      in rbind (doPartialWrite stripe first e2 bmap pmap r) (\<lambda>r. Inr (left - (e2 - first), e2, r)))"

definition maps45 :: "raid \<Rightarrow> (raid \<Rightarrow> nat \<Rightarrow> (nat \<times> nat) res) \<times> (raid \<Rightarrow> nat \<Rightarrow> nat res)" where
  "maps45 r = (if raidLevel r = 4 then (bmap4, pmap4) else (bmap5, pmap5))"

text \<open>With \<open>size = 0\<close> the last stripe is that of \<open>addr - 1\<close>, rounded towards zero.\<close>

definition enqueue45 :: "nat \<Rightarrow> nat \<Rightarrow> bool \<Rightarrow> raid \<Rightarrow> raid res" where
  "enqueue45 a sz isWrite r =
     (let (bmap, pmap) = maps45 r in
      rbind
        (if \<not> isWrite then
           rfold (\<lambda>b r. rbind (bmap r b) (\<lambda>(d, off). doSingleRead d off False r)) [a..<a + sz] r
         else if blocksInStripe r = 0 then Inl ZeroDivisionError
         else
           let initStripe = a div blocksInStripe r;
               finalStripe = trunc_div (int a + int sz - 1) (int (blocksInStripe r)) in
           rbind (rfold (write_stripe bmap pmap) [initStripe..<nat (finalStripe + 1)] (sz, a, r)) (\<lambda>(_, _, r). Inr r))
        blank_line)"

definition raid_enqueue :: "nat \<Rightarrow> nat \<Rightarrow> bool \<Rightarrow> raid \<Rightarrow> raid res" where
  "raid_enqueue a sz isWrite r =
     (let r1 = (if timing r then r
                else if solve r \<or> \<not> reverse_mode r then
                  let r = say (if isWrite then Logical_Write a (int sz * BLOCKSIZE) else Logical_Read a (int sz * BLOCKSIZE)) r in
                  if \<not> solve r then say Physical_Question r else r
                else say Operation_Question r);
          r2 = r1\<lparr>printPhysical := \<not> timing r \<and> (solve r \<or> reverse_mode r)\<rparr>
      in if raidLevel r2 = 0 then enqueue0 a sz isWrite r2
         else if raidLevel r2 = 1 then enqueue1 a sz isWrite r2
         else if raidLevel r2 = 4 \<or> raidLevel r2 = 5 then enqueue45 a sz isWrite r2
         else Inr r2)"

section \<open>The main program\<close>

record raid_options =
  r_numDisks :: nat
  r_chunkSize :: string
  r_numRequests :: nat
  r_size :: string
  r_workload :: string
  r_writeFrac :: int
  r_range :: nat
  r_level :: nat
  r_raid5type :: string
  r_reverse :: bool
  r_timing :: bool
  r_solve :: bool

definition raid_defaults :: raid_options where
  "raid_defaults = \<lparr>r_numDisks = 4, r_chunkSize = ''4k'', r_numRequests = 10, r_size = ''4k'', r_workload = ''rand'',
     r_writeFrac = 0, r_range = 10000, r_level = 0, r_raid5type = ''LS'', r_reverse = False, r_timing = False, r_solve = False\<rparr>"

text \<open>One pass of the request loop; the state is the next sequential address, the array and the draws.\<close>

definition raid_request :: "bool \<Rightarrow> nat \<Rightarrow> nat \<Rightarrow> nat \<Rightarrow> nat \<times> raid \<times> draw list \<Rightarrow> (nat \<times> raid \<times> draw list) res" where
  "raid_request sequential sz rng percent st =
     (let (off, r, ds) = st in
      rbind (if sequential then Inr (off, off + sz, ds)
             else rbind (next_draw ds) (\<lambda>(k, ds). Inr (pick k rng, off, ds))) (\<lambda>(blk, off, ds).
      rbind (next_draw ds) (\<lambda>(k, ds).
      rbind (raid_enqueue blk sz (below k percent 100) r) (\<lambda>r. Inr (off, r, ds)))))"

definition raid_setup :: "raid_options \<Rightarrow> (bool \<times> nat \<times> raid) res" where
  "raid_setup opt =
     rbind (py_assert (0 \<le> r_writeFrac opt \<and> r_writeFrac opt \<le> 100)) (\<lambda>_.
     rbind (convert (r_size opt)) (\<lambda>sz.
     if sz mod BLOCKSIZE \<noteq> 0 then Inl (SystemExit 1)
     else
       rbind (if r_workload opt \<in> {''seq'', ''s'', ''sequential''} then Inr True
              else if r_workload opt \<in> {''rand'', ''r'', ''random''} then Inr False
              else Inl (SystemExit 1)) (\<lambda>sequential.
       rbind (py_assert (r_level opt \<in> {0, 1, 4, 5})) (\<lambda>_.
       if r_level opt \<noteq> 0 \<and> r_numDisks opt < 2 then Inl (SystemExit 1)
       else if r_level opt = 5 \<and> r_raid5type opt \<noteq> ''LA'' \<and> r_raid5type opt \<noteq> ''LS'' then Inl (SystemExit 1)
       else
         rbind (convert (r_chunkSize opt)) (\<lambda>ch.
         if sz < 0 \<or> ch < 0 then Inl Outside_Model
         else
           rbind (raid_init (nat ch) (r_numDisks opt) (r_level opt) (r_timing opt) (r_reverse opt) (r_solve opt) (r_raid5type opt))
             (\<lambda>r. Inr (sequential, nat (sz div BLOCKSIZE), r)))))))"

definition raid_main :: "raid_options \<Rightarrow> draw list \<Rightarrow> (raid \<times> rat) res" where
  "raid_main opt ds =
     rbind (raid_setup opt) (\<lambda>(sequential, sz, r).
     rbind (rfold (\<lambda>_. raid_request sequential sz (r_range opt) (nat (r_writeFrac opt))) [0..<r_numRequests opt] (0, r, ds))
       (\<lambda>(_, r, _). Inr (r, raid_go r)))"


section \<open>Striping, with and without parity\<close>

text \<open>
  The contract of a block mapping for chunks of \<open>C\<close> blocks on \<open>N\<close> disks: a row has \<open>cols N\<close> chunks of data; the offset of a
  block is that of its row plus the place in the chunk, and two chunks of a row are never on the same disk.
\<close>

locale striping =
  fixes locate :: "nat \<Rightarrow> nat \<Rightarrow> nat \<Rightarrow> nat \<times> nat" and cols :: "nat \<Rightarrow> nat"
  assumes on_disk: "0 < cols N \<Longrightarrow> fst (locate C N b) < N"
    and offset: "snd (locate C N b) = b div C div cols N * C + b mod C"
    and apart: "0 < cols N \<Longrightarrow> fst (locate C N b) = fst (locate C N c) \<Longrightarrow> b div C div cols N = c div C div cols N \<Longrightarrow> b div C = c div C"
begin

lemma row_place:
  assumes "q * C + m = q' * C + (m' :: nat)" "m < C" "m' < C"
  shows "q = q' \<and> m = m'"
proof -
  have "(q * C + m) div C = (q' * C + m') div C" "(q * C + m) mod C = (q' * C + m') mod C" using assms(1) by simp_all
  then show ?thesis using assms(2,3) by simp
qed

lemma locate_inj:
  assumes pos: "0 < C" "0 < cols N" and eq: "locate C N b = locate C N c"
  shows "b = c"
proof -
  have "b div C div cols N * C + b mod C = c div C div cols N * C + c mod C" using eq by (metis offset)
  then have r: "b div C div cols N = c div C div cols N" "b mod C = c mod C"
    using row_place [of "b div C div cols N" C "b mod C" "c div C div cols N" "c mod C"] pos by simp_all
  have "b div C = c div C" by (rule apart [OF pos(2) _ r(1)]) (simp add: eq)
  then show ?thesis using r(2) by (metis div_mult_mod_eq)
qed

lemma row_of_offset: "0 < C \<Longrightarrow> snd (locate C N b) div C = b div C div cols N"
  by (simp add: offset)

lemma fits:
  assumes "0 < C" "b < L div C * C * cols N"
  shows "snd (locate C N b) < L"
proof -
  have "b < (L div C) * (C * cols N)" using assms(2) by (simp add: mult.assoc)
  then have "b div (C * cols N) < L div C" by (rule less_mult_imp_div_less)
  then have "b div C div cols N < L div C" by (simp add: div_mult2_eq)
  then have "(b div C div cols N + 1) * C \<le> L div C * C" by (intro mult_right_mono) simp_all
  also have "\<dots> \<le> L" by simp
  finally have "C + b div C div cols N * C \<le> L" by simp
  moreover have "b mod C < C" using assms(1) by simp
  ultimately show ?thesis unfolding offset by linarith
qed

lemma exceeds:
  assumes "0 < C" "0 < cols N" "C dvd L" "L div C * C * cols N \<le> b"
  shows "L \<le> snd (locate C N b)"
proof -
  have "L div C * (C * cols N) \<le> b" using assms(4) by (simp add: mult.assoc)
  then have "L div C \<le> b div (C * cols N)" using assms(1,2) by (simp add: less_eq_div_iff_mult_less_eq)
  then have "L div C * C \<le> b div C div cols N * C" by (simp add: div_mult2_eq)
  then show ?thesis using assms(3) by (simp add: offset)
qed

end

locale parity_striping = striping +
  fixes parity :: "nat \<Rightarrow> nat \<Rightarrow> nat"
  assumes disks_law: "0 < cols N \<Longrightarrow> N = Suc (cols N)"
    and parity_disk: "0 < cols N \<Longrightarrow> parity N s < N"
    and parity_apart: "0 < cols N \<Longrightarrow> fst (locate C N b) \<noteq> parity N (b div C div cols N)"
begin

lemma row_full:
  assumes pos: "0 < C" "0 < cols N" and d: "d < N" "d \<noteq> parity N s" and m: "m < C"
  shows "\<exists>j < cols N. locate C N ((s * cols N + j) * C + m) = (d, s * C + m)"
proof -
  let ?b = "\<lambda>j. (s * cols N + j) * C + m"
  have b: "?b j div C = s * cols N + j" "?b j mod C = m" "?b j div C div cols N = s" if "j < cols N" for j
    using that m by simp_all
  let ?f = "\<lambda>j. fst (locate C N (?b j))"
  have inj: "inj_on ?f {..<cols N}"
  proof (rule inj_onI)
    fix i j assume ij: "i \<in> {..<cols N}" "j \<in> {..<cols N}" "?f i = ?f j"
    then have "?b i div C = ?b j div C" using b(3) by (intro apart [OF pos(2) ij(3)]) simp
    then show "i = j" using b(1) ij(1,2) by simp
  qed
  have sub: "?f ` {..<cols N} \<subseteq> {..<N} - {parity N s}"
  proof (rule image_subsetI)
    fix j assume "j \<in> {..<cols N}"
    then have "?b j div C div cols N = s" using b(3) by blast
    then show "?f j \<in> {..<N} - {parity N s}" using on_disk [OF pos(2)] parity_apart [OF pos(2), of C "?b j"] by auto
  qed
  have "card ({..<N} - {parity N s}) = cols N" using parity_disk [OF pos(2)] disks_law [OF pos(2)] by simp
  then have "?f ` {..<cols N} = {..<N} - {parity N s}"
    using card_image [OF inj] by (intro card_subset_eq [OF _ sub]) simp_all
  then have "d \<in> ?f ` {..<cols N}" using d by simp
  then obtain j where j: "j < cols N" "?f j = d" by auto
  have "snd (locate C N (?b j)) = s * C + m" unfolding offset b(3) [OF j(1)] b(2) [OF j(1)] ..
  then show ?thesis using j by (intro exI [of _ j]) (simp add: prod_eq_iff)
qed

text \<open>Every place of the array is the parity of its row or holds exactly one block.\<close>

lemma every_place:
  assumes pos: "0 < C" "0 < cols N" and "d < N"
  shows "if d = parity N (off div C) then \<forall>b. locate C N b \<noteq> (d, off) else \<exists>!b. locate C N b = (d, off)"
proof (cases "d = parity N (off div C)")
  case True
  have "locate C N b \<noteq> (d, off)" for b
    using parity_apart [OF pos(2), of C b] row_of_offset [OF pos(1), of N b] True by (cases "locate C N b") auto
  then show ?thesis using True by simp
next
  case False
  have "\<exists>j < cols N. locate C N (((off div C) * cols N + j) * C + off mod C) = (d, off div C * C + off mod C)"
    using pos(1) by (intro row_full [OF pos assms(3) False]) simp
  then have "\<exists>b. locate C N b = (d, off)" by auto
  then show ?thesis using False locate_inj [OF pos] by auto
qed

end

subsection \<open>The mappings of the code\<close>

definition place0 :: "nat \<Rightarrow> nat \<Rightarrow> nat \<Rightarrow> nat \<times> nat" where
  "place0 C N b = (b div C mod N, b div C div N * C + b mod C)"

definition place1 :: "nat \<Rightarrow> nat \<Rightarrow> nat \<Rightarrow> nat \<times> nat" where
  "place1 C N b = (2 * (b div C mod (N div 2)), b div C div (N div 2) * C + b mod C)"

definition place4 :: "nat \<Rightarrow> nat \<Rightarrow> nat \<Rightarrow> nat \<times> nat" where
  "place4 C N = place0 C (N - 1)"

definition parity4 :: "nat \<Rightarrow> nat \<Rightarrow> nat" where
  "parity4 N s = N - 1"

definition parity5 :: "nat \<Rightarrow> nat \<Rightarrow> nat" where
  "parity5 N s = N - 1 - s mod N"

definition disk5 :: "bool \<Rightarrow> nat \<Rightarrow> nat \<Rightarrow> nat \<Rightarrow> nat" where
  "disk5 la N q j = (if la then (if N - 1 - q mod N \<le> j then j + 1 else j) else (j + (N - q mod N)) mod N)"

definition place5 :: "bool \<Rightarrow> nat \<Rightarrow> nat \<Rightarrow> nat \<Rightarrow> nat \<times> nat" where
  "place5 la C N b = (disk5 la N (b div C div (N - 1)) (b div C mod (N - 1)), b div C div (N - 1) * C + b mod C)"

lemma same_chunk: "b mod K = c mod K \<Longrightarrow> b div K = c div K \<Longrightarrow> b = (c::nat)"
  by (metis div_mult_mod_eq)

lemma rotate_inj: "i < N \<Longrightarrow> j < N \<Longrightarrow> (i + k) mod N = (j + k) mod N \<Longrightarrow> i = (j::nat)"
proof -
  assume a: "i < N" "j < N" "(i + k) mod N = (j + k) mod N"
  have "m = n" if "m \<le> n" "n < N" "(m + k) mod N = (n + k) mod N" for m n
  proof -
    have "N dvd (n + k) - (m + k)" using that by (subst mod_eq_dvd_iff_nat [symmetric]) simp_all
    then have "N dvd n - m" by simp
    then show ?thesis using that dvd_imp_le [of N "n - m"] by (cases "m = n") auto
  qed
  then show ?thesis using a by (metis nat_le_linear)
qed

interpretation level0: striping place0 "\<lambda>N. N"
  by unfold_locales (auto simp: place0_def intro: same_chunk)

interpretation level1: striping place1 "\<lambda>N. N div 2"
proof
  fix C N b :: nat assume "0 < N div 2"
  then have "b div C mod (N div 2) < N div 2" by simp
  then show "fst (place1 C N b) < N" by (simp add: place1_def)
qed (auto simp: place1_def intro: same_chunk)

interpretation level4: parity_striping place4 "\<lambda>N. N - 1" parity4
proof
  fix C N b :: nat assume n: "0 < N - 1"
  then have m: "b div C mod (N - 1) < N - 1" by (rule mod_less_divisor)
  show "fst (place4 C N b) < N" using m by (simp add: place4_def place0_def)
  show "fst (place4 C N b) \<noteq> parity4 N (b div C div (N - 1))" using m by (simp add: place4_def place0_def parity4_def)
qed (auto simp: place4_def place0_def parity4_def intro: same_chunk)

lemma disk5_laws:
  assumes "j < N - 1"
  shows "disk5 la N q j < N" "disk5 la N q j \<noteq> parity5 N q"
    and "i < N - 1 \<Longrightarrow> disk5 la N q i = disk5 la N q j \<Longrightarrow> i = j"
proof -
  have col: "q mod N < N" and n: "0 < N" using assms by auto
  have "j + 1 < N" using assms by linarith
  then show "disk5 la N q j < N" using n by (simp add: disk5_def)
  have "(j + (N - q mod N)) mod N \<noteq> N - 1 - q mod N"
  proof
    assume e: "(j + (N - q mod N)) mod N = N - 1 - q mod N"
    have "N - 1 + (N - q mod N) = N - 1 - q mod N + N" using assms col by linarith
    then have "(N - 1 + (N - q mod N)) mod N = (N - 1 - q mod N + N) mod N" by (simp only:)
    also have "\<dots> = (N - 1 - q mod N) mod N" by (rule mod_add_self2)
    also have "\<dots> = N - 1 - q mod N" using n by (intro mod_less) simp
    finally have "(j + (N - q mod N)) mod N = (N - 1 + (N - q mod N)) mod N" using e by simp
    then have "j = N - 1" using assms by (intro rotate_inj [of j N "N - 1" "N - q mod N"]) simp_all
    then show False using assms by simp
  qed
  then show "disk5 la N q j \<noteq> parity5 N q" by (simp add: disk5_def parity5_def)
  assume e: "i < N - 1" "disk5 la N q i = disk5 la N q j"
  show "i = j"
  proof (cases la)
    case True
    then show ?thesis using e(2) by (simp add: disk5_def split: if_splits)
  next
    case False
    then have "(i + (N - q mod N)) mod N = (j + (N - q mod N)) mod N" using e(2) by (simp add: disk5_def)
    then show ?thesis using e(1) assms by (intro rotate_inj [of i N j "N - q mod N"]) simp_all
  qed
qed

lemma place5_disk:
  assumes "0 < N - 1"
  shows "fst (place5 la C N b) < N" "fst (place5 la C N b) \<noteq> parity5 N (b div C div (N - 1))"
    and "fst (place5 la C N b) = fst (place5 la C N c) \<Longrightarrow> b div C div (N - 1) = c div C div (N - 1) \<Longrightarrow> b div C = c div C"
proof -
  have j: "b div C mod (N - 1) < N - 1" "c div C mod (N - 1) < N - 1" using assms by (rule mod_less_divisor)+
  show "fst (place5 la C N b) < N" "fst (place5 la C N b) \<noteq> parity5 N (b div C div (N - 1))"
    unfolding place5_def fst_conv by (rule disk5_laws(1,2) [OF j(1)])+
  assume e: "fst (place5 la C N b) = fst (place5 la C N c)" "b div C div (N - 1) = c div C div (N - 1)"
  have "b div C mod (N - 1) = c div C mod (N - 1)"
    by (rule disk5_laws(3) [OF j(2,1)]) (use e in \<open>simp add: place5_def\<close>)
  then show "b div C = c div C" using e(2) by (rule same_chunk)
qed

lemma place5_offset: "snd (place5 la C N b) = b div C div (N - 1) * C + b mod C"
  by (simp add: place5_def)

lemma parity5_disk: "0 < N - 1 \<Longrightarrow> parity5 N s < N"
  by (simp add: parity5_def)

lemma pred_disks: "0 < N - 1 \<Longrightarrow> N = Suc (N - 1)"
  by simp

interpretation left_asymmetric: parity_striping "place5 True" "\<lambda>N. N - 1" parity5
  by unfold_locales (erule place5_disk(1) place5_disk(2) parity5_disk pred_disks | rule place5_offset | (rule place5_disk(3); assumption))+

interpretation left_symmetric: parity_striping "place5 False" "\<lambda>N. N - 1" parity5
  by unfold_locales (erule place5_disk(1) place5_disk(2) parity5_disk pred_disks | rule place5_offset | (rule place5_disk(3); assumption))+


section \<open>Requests as sequences of physical operations\<close>

definition perform :: "raid_event \<Rightarrow> raid \<Rightarrow> raid res" where
  "perform e r = (case e of
     Phys_Read d off nl \<Rightarrow> doSingleRead d off nl r
   | Phys_Write d off nl \<Rightarrow> doSingleWrite d off nl r
   | _ \<Rightarrow> Inr r)"

abbreviation "conf_of r \<equiv> (chunkSize r, numDisks r, raidLevel r, raid5type r, blocksInStripe r, timing r, printPhysical r)"

lemma disk_io_conf: "disk_io e d off r = Inr r' \<Longrightarrow> conf_of r' = conf_of r"
  by (auto simp: disk_io_def Let_def say_def rbind_eq_Inr split: if_splits)

lemma perform_conf: "perform e r = Inr r' \<Longrightarrow> conf_of r' = conf_of r"
  by (cases e) (auto simp: perform_def doSingleRead_def doSingleWrite_def dest!: disk_io_conf)

lemma performs_conf: "rfold perform es r = Inr r' \<Longrightarrow> conf_of r' = conf_of r"
  by (rule rfold_inv [where f = perform and P = "\<lambda>x. conf_of x = conf_of r"]) (auto dest!: perform_conf)

lemma rfold_events:
  assumes "\<And>v r'. v \<in> set vs \<Longrightarrow> conf_of r' = conf_of r \<Longrightarrow> f v r' = rfold perform (g v) r'" and "conf_of r0 = conf_of r"
  shows "rfold f vs r0 = rfold perform (concat (map g vs)) r0"
  using assms
proof (induction vs arbitrary: r0)
  case (Cons v vs)
  have "f v r0 = rfold perform (g v) r0" using Cons.prems by simp
  moreover have "rfold f vs r1 = rfold perform (concat (map g vs)) r1" if "rfold perform (g v) r0 = Inr r1" for r1
    using performs_conf [OF that] Cons.prems by (intro Cons.IH) simp_all
  ultimately show ?case by (cases "rfold perform (g v) r0") (simp_all add: rfold_append)
qed simp

definition offsets :: "(nat \<Rightarrow> nat \<times> nat) \<Rightarrow> nat list \<Rightarrow> nat list \<Rightarrow> nat list" where
  "offsets loc vs offs = foldl (\<lambda>offs v. add_off (snd (loc v)) offs) offs vs"

lemma rfold_events_offs:
  assumes "\<And>v r' offs. v \<in> set vs \<Longrightarrow> conf_of r' = conf_of r \<Longrightarrow>
      f v (r', offs) = rbind (rfold perform (g v) r') (\<lambda>r'. Inr (r', add_off (snd (loc v)) offs))"
    and "conf_of r0 = conf_of r"
  shows "rfold f vs (r0, offs) = rbind (rfold perform (concat (map g vs)) r0) (\<lambda>r'. Inr (r', offsets loc vs offs))"
  using assms
proof (induction vs arbitrary: r0 offs)
  case (Cons v vs)
  have "f v (r0, offs) = rbind (rfold perform (g v) r0) (\<lambda>r'. Inr (r', add_off (snd (loc v)) offs))" using Cons.prems by simp
  moreover have "rfold f vs (r1, add_off (snd (loc v)) offs) =
      rbind (rfold perform (concat (map g vs)) r1) (\<lambda>r'. Inr (r', offsets loc vs (add_off (snd (loc v)) offs)))"
    if "rfold perform (g v) r0 = Inr r1" for r1
    using performs_conf [OF that] Cons.prems by (intro Cons.IH) simp_all
  ultimately show ?case by (cases "rfold perform (g v) r0") (simp_all add: rfold_append offsets_def)
qed (simp add: offsets_def)

text \<open>The operations of a partial write, in order.\<close>

definition at_places :: "(nat \<Rightarrow> nat \<Rightarrow> bool \<Rightarrow> raid_event) \<Rightarrow> (nat \<Rightarrow> nat \<times> nat) \<Rightarrow> (nat \<Rightarrow> bool) \<Rightarrow> nat list \<Rightarrow> raid_event list" where
  "at_places ev loc nl vs = map (\<lambda>v. ev (fst (loc v)) (snd (loc v)) (nl v)) vs"

definition at_parity :: "(nat \<Rightarrow> nat \<Rightarrow> bool \<Rightarrow> raid_event) \<Rightarrow> nat \<Rightarrow> nat list \<Rightarrow> raid_event list" where
  "at_parity ev p offs = map (\<lambda>i. ev p (offs ! i) (i = length offs - 1)) [0..<length offs]"

definition partial_reads :: "(nat \<Rightarrow> nat \<times> nat) \<Rightarrow> nat \<Rightarrow> nat \<Rightarrow> nat \<Rightarrow> nat \<Rightarrow> nat \<Rightarrow> raid_event list" where
  "partial_reads loc B p stripe first end =
     (if 2 * (end - first) + 1 \<le> B then
        at_places Phys_Read loc (\<lambda>_. False) [first..<end] @ at_parity Phys_Read p (offsets loc [first..<end] [])
      else
        at_places Phys_Read loc (\<lambda>v. v + 1 = first \<and> end = stripe * B + B) [stripe * B..<first] @
        at_places Phys_Read loc (\<lambda>v. v + 1 = stripe * B + B) [end..<stripe * B + B])"

definition partial_writes :: "(nat \<Rightarrow> nat \<times> nat) \<Rightarrow> nat \<Rightarrow> nat \<Rightarrow> nat \<Rightarrow> raid_event list" where
  "partial_writes loc p first end =
     at_places Phys_Write loc (\<lambda>_. False) [first..<end] @ at_parity Phys_Write p (offsets loc [first..<end] [])"

definition partial_events :: "(nat \<Rightarrow> nat \<times> nat) \<Rightarrow> nat \<Rightarrow> nat \<Rightarrow> nat \<Rightarrow> nat \<Rightarrow> nat \<Rightarrow> raid_event list" where
  "partial_events loc B p stripe first end = partial_reads loc B p stripe first end @ partial_writes loc p first end"

definition locates :: "raid \<Rightarrow> (raid \<Rightarrow> nat \<Rightarrow> (nat \<times> nat) res) \<Rightarrow> (nat \<Rightarrow> nat \<times> nat) \<Rightarrow> bool" where
  "locates r bmap loc \<longleftrightarrow> (\<forall>r'. conf_of r' = conf_of r \<longrightarrow> (\<forall>v. bmap r' v = Inr (loc v)))"

lemma concat_singles: "concat (map (\<lambda>v. [f v]) vs) = map f vs"
  by (induction vs) simp_all

lemma read_loop:
  assumes "locates r bmap loc" "conf_of r0 = conf_of r"
  shows "rfold (\<lambda>v r. rbind (bmap r v) (\<lambda>(d, off). doSingleRead d off (nl v) r)) vs r0 =
    rfold perform (at_places Phys_Read loc nl vs) r0"
proof -
  have "rfold (\<lambda>v r. rbind (bmap r v) (\<lambda>(d, off). doSingleRead d off (nl v) r)) vs r0 =
      rfold perform (concat (map (\<lambda>v. [Phys_Read (fst (loc v)) (snd (loc v)) (nl v)]) vs)) r0"
  proof (rule rfold_events [OF _ assms(2)])
    fix v and r' :: raid assume "conf_of r' = conf_of r"
    then have "bmap r' v = Inr (loc v)" using assms(1) by (simp add: locates_def)
    then show "rbind (bmap r' v) (\<lambda>(d, off). doSingleRead d off (nl v) r') =
        rfold perform [Phys_Read (fst (loc v)) (snd (loc v)) (nl v)] r'"
      by (cases "doSingleRead (fst (loc v)) (snd (loc v)) (nl v) r'") (simp_all add: perform_def split_beta)
  qed
  then show ?thesis by (simp add: concat_singles at_places_def)
qed

lemma offs_loop:
  assumes "locates r bmap loc" "conf_of r0 = conf_of r"
    and io: "(\<And>d off nl r. io d off nl r = perform (ev d off nl) r)"
  shows "rfold (\<lambda>v (r, offs). rbind (bmap r v) (\<lambda>(d, off). rbind (io d off False r) (\<lambda>r. Inr (r, add_off off offs)))) vs (r0, []) =
    rbind (rfold perform (at_places ev loc (\<lambda>_. False) vs) r0) (\<lambda>r'. Inr (r', offsets loc vs []))"
proof -
  have "rfold (\<lambda>v (r, offs). rbind (bmap r v) (\<lambda>(d, off). rbind (io d off False r) (\<lambda>r. Inr (r, add_off off offs)))) vs (r0, []) =
    rbind (rfold perform (concat (map (\<lambda>v. [ev (fst (loc v)) (snd (loc v)) False]) vs)) r0) (\<lambda>r'. Inr (r', offsets loc vs []))"
  proof (rule rfold_events_offs [OF _ assms(2)])
    fix v and r' :: raid and offs assume "conf_of r' = conf_of r"
    then have "bmap r' v = Inr (loc v)" using assms(1) by (simp add: locates_def)
    then show "(\<lambda>(r, offs). rbind (bmap r v) (\<lambda>(d, off). rbind (io d off False r) (\<lambda>r. Inr (r, add_off off offs)))) (r', offs) =
        rbind (rfold perform [ev (fst (loc v)) (snd (loc v)) False] r') (\<lambda>r'. Inr (r', add_off (snd (loc v)) offs))"
      by (cases "perform (ev (fst (loc v)) (snd (loc v)) False) r'") (simp_all add: io split_beta)
  qed
  then show ?thesis by (simp add: concat_singles at_places_def)
qed

lemma parity_loop:
  assumes io: "\<And>d off nl r. io d off nl r = perform (ev d off nl) r"
  shows "parity_ios io p offs r = rfold perform (at_parity ev p offs) r"
proof -
  have "parity_ios io p offs r = rfold perform (concat (map (\<lambda>i. [ev p (offs ! i) (i = length offs - 1)]) [0..<length offs])) r"
    unfolding parity_ios_def
  proof (rule rfold_events [OF _ refl])
    fix i and r' :: raid show "io p (offs ! i) (i = length offs - 1) r' = rfold perform [ev p (offs ! i) (i = length offs - 1)] r'"
      by (cases "perform (ev p (offs ! i) (i = length offs - 1)) r'") (simp_all add: io)
  qed
  then show ?thesis by (simp add: concat_singles at_parity_def)
qed

lemma doPartialWrite_events:
  assumes loc: "locates r bmap loc" and p: "pmap r stripe = Inr p"
  shows "doPartialWrite stripe first end bmap pmap r =
    rfold perform (partial_events loc (blocksInStripe r) p stripe first end) r"
proof -
  let ?B = "blocksInStripe r"
  have rd: "doSingleRead d off nl x = perform (Phys_Read d off nl) x" and wr: "doSingleWrite d off nl x = perform (Phys_Write d off nl) x"
    for d off nl x by (simp_all add: perform_def)
  have W: "rbind (rfold (\<lambda>v (r, offs). rbind (bmap r v) (\<lambda>(d, off). rbind (doSingleWrite d off False r)
        (\<lambda>r. Inr (r, add_off off offs)))) [first..<end] (x, [])) (\<lambda>(r, offs). parity_ios doSingleWrite p offs r) =
      rfold perform (partial_writes loc p first end) x" if "conf_of x = conf_of r" for x
    unfolding offs_loop [of r bmap loc x doSingleWrite Phys_Write, OF loc that wr] partial_writes_def rfold_append
    by (cases "rfold perform (at_places Phys_Write loc (\<lambda>_. False) [first..<end]) x") (simp_all add: parity_loop [of doSingleWrite Phys_Write, OF wr])
  have sub: "rbind (rfold (\<lambda>v (r, offs). rbind (bmap r v) (\<lambda>(d, off). rbind (doSingleRead d off False r)
        (\<lambda>r. Inr (r, add_off off offs)))) [first..<end] (r, [])) (\<lambda>(r, offs). parity_ios doSingleRead p offs r) =
      rfold perform (partial_reads loc ?B p stripe first end) r" if "2 * (end - first) + 1 \<le> ?B"
    unfolding offs_loop [of r bmap loc r doSingleRead Phys_Read, OF loc refl rd] partial_reads_def rfold_append if_P [OF that]
    by (cases "rfold perform (at_places Phys_Read loc (\<lambda>_. False) [first..<end]) r") (simp_all add: parity_loop [of doSingleRead Phys_Read, OF rd])
  have add: "rbind (rfold (\<lambda>v r. rbind (bmap r v) (\<lambda>(d, off).
          doSingleRead d off (v + 1 = first \<and> end = stripe * ?B + ?B) r)) [stripe * ?B..<first] r)
        (rfold (\<lambda>v r. rbind (bmap r v) (\<lambda>(d, off). doSingleRead d off (v + 1 = stripe * ?B + ?B) r)) [end..<stripe * ?B + ?B]) =
      rfold perform (partial_reads loc ?B p stripe first end) r" if "\<not> 2 * (end - first) + 1 \<le> ?B"
    unfolding read_loop [OF loc refl] partial_reads_def rfold_append if_not_P [OF that]
    by (rule rbind_cong [OF refl], rule read_loop [OF loc], rule performs_conf)
  have c: "int (end - first) + 1 \<le> int ?B - int (end - first) \<longleftrightarrow> 2 * (end - first) + 1 \<le> ?B" by linarith
  have "doPartialWrite stripe first end bmap pmap r =
      rbind (rfold perform (partial_reads loc ?B p stripe first end) r) (rfold perform (partial_writes loc p first end))"
    unfolding doPartialWrite_def Let_def p rbind_Inr c
  proof (rule rbind_cong)
    show "(if 2 * (end - first) + 1 \<le> ?B then
           rbind (rfold (\<lambda>v (r, offs). rbind (bmap r v) (\<lambda>(d, off).
                    rbind (doSingleRead d off False r) (\<lambda>r. Inr (r, add_off off offs)))) [first..<end] (r, []))
             (\<lambda>(r, offs). parity_ios doSingleRead p offs r)
         else
           rbind (rfold (\<lambda>v r. rbind (bmap r v) (\<lambda>(d, off).
                    doSingleRead d off (v + 1 = first \<and> end = stripe * ?B + ?B) r)) [stripe * ?B..<first] r)
             (rfold (\<lambda>v r. rbind (bmap r v) (\<lambda>(d, off). doSingleRead d off (v + 1 = stripe * ?B + ?B) r)) [end..<stripe * ?B + ?B])) =
      rfold perform (partial_reads loc ?B p stripe first end) r"
      using sub add by (simp only: split: if_split) blast
  qed (rule W, rule performs_conf)
  then show ?thesis by (simp add: partial_events_def rfold_append)
qed


subsection \<open>The loop over the stripes of a write\<close>

lemma stripe_end:
  fixes f left B k T :: nat
  assumes "f + left = T" "k * B \<le> f" "f < T" "f < k * B + B"
  shows "(let e = (if B \<le> left then f + B else f + left) in if k * B + B \<le> e then k * B + B else e) = min T (k * B + B)"
  using assms by (auto simp: Let_def min_def)

text \<open>Each stripe is written from where the request or the stripe starts to where the first of the two ends.\<close>

lemma stripe_loop:
  assumes loc: "locates r bmap loc" and pm: "\<And>r' s. conf_of r' = conf_of r \<Longrightarrow> pmap r' s = Inr (par s)"
    and B: "0 < blocksInStripe r" and z: "0 < z" and i: "a < i * blocksInStripe r + blocksInStripe r"
    and last: "\<And>k. k < n \<Longrightarrow> (i + k) * blocksInStripe r < a + z" and r0: "conf_of r0 = conf_of r"
  shows "\<exists>st. rfold (write_stripe bmap pmap) [i..<i + n] (a + z - max a (i * blocksInStripe r), max a (i * blocksInStripe r), r0) =
    rbind (rfold perform (concat (map (\<lambda>s. partial_events loc (blocksInStripe r) (par s) s (max a (s * blocksInStripe r))
      (min (a + z) (s * blocksInStripe r + blocksInStripe r))) [i..<i + n])) r0) (\<lambda>r'. Inr (fst st, snd st, r'))"
  using i last r0
proof (induction n arbitrary: i r0)
  case 0
  show ?case by (rule exI [of _ "(a + z - max a (i * blocksInStripe r), max a (i * blocksInStripe r))"]) simp
next
  case (Suc n)
  let ?B = "blocksInStripe r" and ?ev = "\<lambda>s. partial_events loc (blocksInStripe r) (par s) s (max a (s * blocksInStripe r))
      (min (a + z) (s * blocksInStripe r + blocksInStripe r))"
  have b0: "blocksInStripe r0 = ?B" using Suc.prems(3) by simp
  have k: "i * ?B < a + z" using Suc.prems(2) [of 0] by simp
  have loc0: "locates r0 bmap loc" using loc Suc.prems(3) by (simp add: locates_def)
  have az: "a < a + z" using z by simp
  have e: "(let e = (if ?B \<le> a + z - max a (i * ?B) then max a (i * ?B) + ?B else max a (i * ?B) + (a + z - max a (i * ?B)))
      in if i * ?B + ?B \<le> e then i * ?B + ?B else e) = min (a + z) (i * ?B + ?B)"
    by (rule stripe_end) (use k az B Suc.prems(1) in auto)
  have nx: "min (a + z) (i * ?B + ?B) = max a (Suc i * ?B)" if "0 < n"
    using Suc.prems(1) Suc.prems(2) [of 1] that by (simp add: min_def max_def)
  have left: "a + z - max a (i * ?B) - (min (a + z) (i * ?B + ?B) - max a (i * ?B)) = a + z - min (a + z) (i * ?B + ?B)"
    using k az Suc.prems(1) by (auto simp: max_def min_def)
  have dp: "doPartialWrite i f e bmap pmap r0 = rfold perform (partial_events loc ?B (par i) i f e) r0" for f e
    using doPartialWrite_events [OF loc0, of pmap i "par i" f e] pm [OF Suc.prems(3)] b0 by simp
  have step: "write_stripe bmap pmap i (a + z - max a (i * ?B), max a (i * ?B), r0) =
      rbind (rfold perform (?ev i) r0) (\<lambda>r'. Inr (a + z - min (a + z) (i * ?B + ?B), min (a + z) (i * ?B + ?B), r'))"
    using e left unfolding write_stripe_def Let_def prod.case b0 dp by simp
  have up: "[i..<i + Suc n] = i # [Suc i..<Suc i + n]" by (simp add: upt_conv_Cons del: upt_Suc)
  show ?case
  proof (cases "rfold perform (?ev i) r0")
    case (Inl x)
    then show ?thesis unfolding up using step by (simp add: rfold_append del: upt_Suc)
  next
    case (Inr r1)
    then have c1: "conf_of r1 = conf_of r" using performs_conf Suc.prems(3) by metis
    show ?thesis
    proof (cases "n = 0")
      case True
      then show ?thesis unfolding up using step Inr by auto
    next
      case False
      have "\<exists>st. rfold (write_stripe bmap pmap) [Suc i..<Suc i + n] (a + z - max a (Suc i * ?B), max a (Suc i * ?B), r1) =
          rbind (rfold perform (concat (map ?ev [Suc i..<Suc i + n])) r1) (\<lambda>r'. Inr (fst st, snd st, r'))"
      proof (rule Suc.IH [OF _ _ c1])
        show "a < Suc i * ?B + ?B" using Suc.prems(1) by simp
        show "(Suc i + k) * ?B < a + z" if "k < n" for k using Suc.prems(2) [of "Suc k"] that by simp
      qed
      then show ?thesis unfolding up using step Inr nx False by (simp add: rfold_append del: upt_Suc)
    qed
  qed
qed

definition write_events :: "(nat \<Rightarrow> nat \<times> nat) \<Rightarrow> (nat \<Rightarrow> nat) \<Rightarrow> nat \<Rightarrow> nat \<Rightarrow> nat \<Rightarrow> raid_event list" where
  "write_events loc par B a z =
     concat (map (\<lambda>s. partial_events loc B (par s) s (max a (s * B)) (min (a + z) (s * B + B)))
       [a div B..<Suc ((a + z - 1) div B)])"

lemma enqueue45_events:
  assumes m: "maps45 r = (bmap, pmap)" and loc: "locates r bmap loc" and pm: "\<And>r' s. conf_of r' = conf_of r \<Longrightarrow> pmap r' s = Inr (par s)"
    and B: "0 < blocksInStripe r" and z: "0 < z"
  shows "enqueue45 a z w r =
    rbind (rfold perform (if w then write_events loc par (blocksInStripe r) a z
      else at_places Phys_Read loc (\<lambda>_. False) [a..<a + z]) r) blank_line"
proof (cases w)
  case False
  then show ?thesis
    unfolding enqueue45_def m prod.case Let_def using read_loop [OF loc refl, of "\<lambda>_. False"] by (simp only: if_True not_False_eq_True if_False)
next
  case True
  let ?B = "blocksInStripe r" and ?i = "a div blocksInStripe r" and ?j = "Suc ((a + z - 1) div blocksInStripe r)"
  have js: "nat (trunc_div (int a + int z - 1) (int ?B) + 1) = ?j"
  proof -
    have "int a + int z - 1 = int (a + z - 1)" using z by simp
    moreover have "trunc_div (int n) (int ?B) = int (n div ?B)" for n
      using B by (cases "n = 0") (simp_all add: trunc_div_def zdiv_int)
    ultimately have "nat (trunc_div (int a + int z - 1) (int ?B) + 1) = nat (int ((a + z - 1) div ?B) + 1)" by metis
    also have "\<dots> = ?j" by simp
    finally show ?thesis .
  qed
  have "a div ?B \<le> (a + z - 1) div ?B" by (rule div_le_mono) (use z in linarith)
  then have "?i < ?j" by (simp only: less_Suc_eq_le)
  then obtain n where n: "?j = ?i + n" by (metis less_imp_add_positive)
  have fst: "max a (?i * ?B) = a" by simp
  have "\<exists>st. rfold (write_stripe bmap pmap) [?i..<?i + n] (a + z - max a (?i * ?B), max a (?i * ?B), r) =
    rbind (rfold perform (concat (map (\<lambda>s. partial_events loc ?B (par s) s (max a (s * ?B))
      (min (a + z) (s * ?B + ?B))) [?i..<?i + n])) r) (\<lambda>r'. Inr (fst st, snd st, r'))"
  proof (rule stripe_loop [OF loc pm B z _ _ refl])
    show "a < ?i * ?B + ?B" using B by (metis add.commute dividend_less_div_times)
    show "(?i + k) * ?B < a + z" if "k < n" for k
    proof -
      have "?i + k \<le> (a + z - 1) div ?B" using that n by simp
      then have "(?i + k) * ?B \<le> a + z - 1" using B by (simp add: less_eq_div_iff_mult_less_eq)
      then show ?thesis using z by simp
    qed
  qed
  then obtain st where "rfold (write_stripe bmap pmap) [?i..<?j] (z, a, r) =
    rbind (rfold perform (write_events loc par ?B a z) r) (\<lambda>r'. Inr (fst st, snd st, r'))"
    unfolding fst n [symmetric] write_events_def by auto
  with js have "enqueue45 a z w r = rbind (rbind (rbind (rfold perform (write_events loc par ?B a z) r)
      (\<lambda>r'. Inr (fst st, snd st, r'))) (\<lambda>(_, _, r). Inr r)) blank_line"
    using True B unfolding enqueue45_def m prod.case Let_def by (simp del: upt_Suc)
  then show ?thesis using True by (cases "rfold perform (write_events loc par ?B a z) r") simp_all
qed


section \<open>Well-formed arrays\<close>

text \<open>The cost of an I/O is at most a seek and a transfer, 10.1 ms.\<close>

definition disk_fine :: "disk \<Rightarrow> bool" where
  "disk_fine d \<longleftrightarrow> seekTime d = 10 \<and> xferTime d = 1 / 10 \<and> numTracks d = 100 \<and> blocksPerTrack d = 100 \<and> blocksPerDisk d = 10000 \<and>
     (currAddr d = - 10000 \<or> 0 \<le> currAddr d) \<and> countIO d = countSeq d + countNseq d + countRand d \<and>
     0 \<le> utilTime d \<and> utilTime d \<le> 101 / 10 * of_nat (countIO d)"

definition raid_cols :: "raid \<Rightarrow> nat" where
  "raid_cols r = (if raidLevel r = 0 then numDisks r else if raidLevel r = 1 then numDisks r div 2 else numDisks r - 1)"

definition raid_place :: "raid \<Rightarrow> nat \<Rightarrow> nat \<times> nat" where
  "raid_place r = (if raidLevel r = 0 then place0 (chunkSize r) (numDisks r)
     else if raidLevel r = 1 then place1 (chunkSize r) (numDisks r)
     else if raidLevel r = 4 then place4 (chunkSize r) (numDisks r)
     else place5 (raid5type r = ''LA'') (chunkSize r) (numDisks r))"

definition raid_parity :: "raid \<Rightarrow> nat \<Rightarrow> nat" where
  "raid_parity r = (if raidLevel r = 4 then parity4 (numDisks r) else parity5 (numDisks r))"

definition raid_fine :: "raid \<Rightarrow> bool" where
  "raid_fine r \<longleftrightarrow> 0 < chunkSize r \<and> length (disks r) = numDisks r \<and> (\<forall>d \<in> set (disks r). disk_fine d) \<and>
     raidLevel r \<in> {0, 1, 4, 5} \<and> 0 < raid_cols r \<and> blocksInStripe r = (numDisks r - 1) * chunkSize r \<and>
     (raidLevel r = 1 \<longrightarrow> even (numDisks r)) \<and> (raidLevel r = 5 \<longrightarrow> raid5type r = ''LA'' \<or> raid5type r = ''LS'')"

text \<open>The number of blocks that whole rows within the 10000 blocks of a disk give.\<close>

definition capacity :: "raid \<Rightarrow> nat" where
  "capacity r = 10000 div chunkSize r * chunkSize r * raid_cols r"

lemma place_disk: "raid_fine r \<Longrightarrow> fst (raid_place r b) < numDisks r"
  using level0.on_disk level1.on_disk level4.on_disk left_asymmetric.on_disk left_symmetric.on_disk
  by (auto simp: raid_fine_def raid_cols_def raid_place_def split: if_splits)

lemma place_pair: "raid_fine r \<Longrightarrow> raidLevel r = 1 \<Longrightarrow> fst (raid_place r b) + 1 < numDisks r"
proof -
  assume "raid_fine r" "raidLevel r = 1"
  then have n: "0 < numDisks r div 2" "even (numDisks r)" "raid_place r b = place1 (chunkSize r) (numDisks r) b"
    by (auto simp: raid_fine_def raid_cols_def raid_place_def)
  then have "b div chunkSize r mod (numDisks r div 2) < numDisks r div 2" by (intro mod_less_divisor)
  moreover have "2 * m + 1 < n" if "m < n div 2" for m n :: nat using that by linarith
  ultimately have "2 * (b div chunkSize r mod (numDisks r div 2)) + 1 < numDisks r" by blast
  then show ?thesis using n by (simp add: place1_def)
qed

lemma place_fits: "raid_fine r \<Longrightarrow> b < capacity r \<Longrightarrow> snd (raid_place r b) < 10000"
  using level0.fits [of "chunkSize r" b 10000 "numDisks r"] level1.fits [of "chunkSize r" b 10000 "numDisks r"]
    level4.fits [of "chunkSize r" b 10000 "numDisks r"] left_asymmetric.fits [of "chunkSize r" b 10000 "numDisks r"]
    left_symmetric.fits [of "chunkSize r" b 10000 "numDisks r"]
  by (auto simp: raid_fine_def raid_cols_def raid_place_def capacity_def split: if_splits)

lemma place_exceeds: "raid_fine r \<Longrightarrow> chunkSize r dvd 10000 \<Longrightarrow> capacity r \<le> b \<Longrightarrow> 10000 \<le> snd (raid_place r b)"
  using level0.exceeds [of "chunkSize r" "numDisks r" 10000 b] level1.exceeds [of "chunkSize r" "numDisks r" 10000 b]
    level4.exceeds [of "chunkSize r" "numDisks r" 10000 b] left_asymmetric.exceeds [of "chunkSize r" "numDisks r" 10000 b]
    left_symmetric.exceeds [of "chunkSize r" "numDisks r" 10000 b]
  by (auto simp: raid_fine_def raid_cols_def raid_place_def capacity_def split: if_splits)

lemma place_inj: "raid_fine r \<Longrightarrow> raid_place r b = raid_place r c \<Longrightarrow> b = c"
  using level0.locate_inj [of "chunkSize r" "numDisks r" b c] level1.locate_inj [of "chunkSize r" "numDisks r" b c]
    level4.locate_inj [of "chunkSize r" "numDisks r" b c] left_asymmetric.locate_inj [of "chunkSize r" "numDisks r" b c]
    left_symmetric.locate_inj [of "chunkSize r" "numDisks r" b c]
  by (auto simp: raid_fine_def raid_cols_def raid_place_def split: if_splits)

abbreviation parity_level :: "raid \<Rightarrow> bool" where
  "parity_level r \<equiv> raidLevel r = 4 \<or> raidLevel r = 5"

lemma parity_disk: "raid_fine r \<Longrightarrow> parity_level r \<Longrightarrow> raid_parity r s < numDisks r"
  using level4.parity_disk [of "numDisks r" s] left_symmetric.parity_disk [of "numDisks r" s]
  by (auto simp: raid_fine_def raid_cols_def raid_parity_def)

lemma place_not_parity:
  "raid_fine r \<Longrightarrow> parity_level r \<Longrightarrow> fst (raid_place r b) \<noteq> raid_parity r (b div chunkSize r div (numDisks r - 1))"
  using level4.parity_apart [of "numDisks r" "chunkSize r" b] left_symmetric.parity_apart [of "numDisks r" "chunkSize r" b]
    left_asymmetric.parity_apart [of "numDisks r" "chunkSize r" b]
  by (auto simp: raid_fine_def raid_cols_def raid_parity_def raid_place_def)

lemma parity_places:
  "raid_fine r \<Longrightarrow> parity_level r \<Longrightarrow> d < numDisks r \<Longrightarrow>
    if d = raid_parity r (off div chunkSize r) then \<forall>b. raid_place r b \<noteq> (d, off) else \<exists>!b. raid_place r b = (d, off)"
  using level4.every_place [of "chunkSize r" "numDisks r" d off] left_symmetric.every_place [of "chunkSize r" "numDisks r" d off]
    left_asymmetric.every_place [of "chunkSize r" "numDisks r" d off]
  by (auto simp: raid_fine_def raid_cols_def raid_parity_def raid_place_def split: if_splits)

subsection \<open>The mappings compute the places\<close>

lemma bmap0_place: "raid_fine r \<Longrightarrow> raidLevel r = 0 \<Longrightarrow> bmap0 r b = Inr (raid_place r b)"
  by (simp add: raid_fine_def raid_cols_def raid_place_def bmap0_def div_res_def place0_def Let_def)

lemma bmap1_place: "raid_fine r \<Longrightarrow> raidLevel r = 1 \<Longrightarrow>
    bmap1 r b = Inr (fst (raid_place r b), fst (raid_place r b) + 1, snd (raid_place r b))"
  by (simp add: raid_fine_def raid_cols_def raid_place_def bmap1_def div_res_def place1_def Let_def)

lemma bmap4_place: "raid_fine r \<Longrightarrow> raidLevel r = 4 \<Longrightarrow> bmap4 r b = Inr (raid_place r b)"
  by (simp add: raid_fine_def raid_cols_def raid_place_def bmap4_def div_res_def place4_def place0_def Let_def)

lemma bmap5_place:
  assumes "raid_fine r" "raidLevel r = 5"
  shows "bmap5_full r b = Inr (fst (raid_place r b), parity5 (numDisks r) (b div chunkSize r div (numDisks r - 1)), snd (raid_place r b))"
proof -
  let ?N = "numDisks r" and ?q = "b div chunkSize r div (numDisks r - 1)" and ?j = "b div chunkSize r mod (numDisks r - 1)"
  have a: "0 < chunkSize r" "0 < ?N - 1" "raid5type r = ''LA'' \<or> raid5type r = ''LS''" using assms by (auto simp: raid_fine_def raid_cols_def)
  have col: "?q mod ?N < ?N" using a(2) by simp
  have F1: "nat ((int ?j - int (?q mod ?N)) mod int ?N) = (?j + (?N - ?q mod ?N)) mod ?N"
  proof -
    have "int ((?j + (?N - ?q mod ?N)) mod ?N) = (int ?j + (int ?N - int (?q mod ?N))) mod int ?N"
      using col by (simp only: of_nat_mod of_nat_add of_nat_diff less_imp_le)
    also have "\<dots> = (int ?j - int (?q mod ?N) + int ?N) mod int ?N" by (simp add: algebra_simps)
    also have "\<dots> = (int ?j - int (?q mod ?N)) mod int ?N" by (rule mod_add_self2)
    finally show ?thesis by (metis nat_int)
  qed
  have F2: "fst (raid_place r b) = disk5 (raid5type r = ''LA'') ?N ?q ?j" "snd (raid_place r b) = ?q * chunkSize r + b mod chunkSize r"
    using assms(2) by (simp_all add: raid_place_def place5_def)
  have d: "(if raid5type r = ''LA'' then Inr (if ?N - 1 - ?q mod ?N \<le> ?j then ?j + 1 else ?j)
      else if raid5type r = ''LS'' then Inr (nat ((int ?j - int (?q mod ?N)) mod int ?N)) else Inl (SystemExit 1)) =
      (Inr (fst (raid_place r b)) :: nat res)"
  proof (cases "raid5type r = ''LA''")
    case True
    show ?thesis unfolding F2(1) disk5_def if_P [OF True] ..
  next
    case False
    then have l: "raid5type r = ''LS''" using a(3) by blast
    show ?thesis unfolding F2(1) disk5_def if_not_P [OF False] if_P [OF l] F1 ..
  qed
  have "fst (raid_place r b) \<noteq> parity5 ?N ?q"
    using place_not_parity [OF assms(1), of b] assms(2) by (simp add: raid_parity_def)
  then show ?thesis
    unfolding bmap5_full_def div_res_def Let_def if_not_P [OF less_imp_neq [OF a(1), symmetric]] if_not_P [OF less_imp_neq [OF a(2), symmetric]]
      rbind_Inr d F2(2) parity5_def by simp
qed

lemma fine_cong:
  assumes "conf_of r' = conf_of r" "raidLevel r \<in> {0, 1, 4, 5}"
  shows "raid_place r' = raid_place r" "raid_cols r' = raid_cols r" "capacity r' = capacity r" "raid_parity r' = raid_parity r"
  using assms by (simp_all add: raid_place_def raid_cols_def capacity_def raid_parity_def)


lemma bmap_conf:
  assumes "conf_of r' = conf_of r"
  shows "bmap0 r' = bmap0 r" "bmap1 r' = bmap1 r" "bmap4 r' = bmap4 r" "bmap5 r' = bmap5 r" "pmap4 r' = pmap4 r" "pmap5 r' = pmap5 r"
proof -
  have c: "chunkSize r' = chunkSize r" "numDisks r' = numDisks r" "raid5type r' = raid5type r" "blocksInStripe r' = blocksInStripe r"
    using assms by simp_all
  show "bmap0 r' = bmap0 r" "bmap1 r' = bmap1 r" "bmap4 r' = bmap4 r" "bmap5 r' = bmap5 r" "pmap4 r' = pmap4 r" "pmap5 r' = pmap5 r"
    by (rule ext, simp only: bmap0_def bmap1_def bmap4_def bmap5_def bmap5_full_def pmap4_def pmap5_def c)+
qed

lemma maps_located:
  assumes fine: "raid_fine r" and lev: "parity_level r"
  shows "locates r (fst (maps45 r)) (raid_place r)" and "conf_of r' = conf_of r \<Longrightarrow> snd (maps45 r) r' s = Inr (raid_parity r s)"
proof -
  have four: "raidLevel r = 4 \<Longrightarrow> maps45 r = (bmap4, pmap4)" and five: "raidLevel r = 5 \<Longrightarrow> maps45 r = (bmap5, pmap5)"
    by (simp_all add: maps45_def)
  show "locates r (fst (maps45 r)) (raid_place r)"
    unfolding locates_def
  proof (intro allI impI)
    fix r' :: raid and v assume c: "conf_of r' = conf_of r"
    show "fst (maps45 r) r' v = Inr (raid_place r v)"
    proof (cases "raidLevel r = 4")
      case True
      show ?thesis unfolding four [OF True] fst_conv bmap_conf(3) [OF c] by (rule bmap4_place [OF fine True])
    next
      case False
      then have l: "raidLevel r = 5" using lev by simp
      show ?thesis unfolding five [OF l] fst_conv bmap_conf(4) [OF c] bmap5_def bmap5_place [OF fine l] by simp
    qed
  qed
  assume c: "conf_of r' = conf_of r"
  show "snd (maps45 r) r' s = Inr (raid_parity r s)"
  proof (cases "raidLevel r = 4")
    case True
    then show ?thesis using four bmap_conf(5) [OF c] by (simp add: pmap4_def raid_parity_def parity4_def)
  next
    case False
    then have l: "raidLevel r = 5" using lev by simp
    have B: "blocksInStripe r = (numDisks r - 1) * chunkSize r" "0 < chunkSize r" "0 < numDisks r - 1"
      using fine l by (auto simp: raid_fine_def raid_cols_def)
    have "s * ((numDisks r - 1) * chunkSize r) = s * (numDisks r - 1) * chunkSize r" by (simp only: mult.assoc)
    moreover have "s * (numDisks r - 1) * chunkSize r div chunkSize r div (numDisks r - 1) = s" using B(2,3) by simp
    ultimately have "s * blocksInStripe r div chunkSize r div (numDisks r - 1) = s" by (simp only: B(1))
    then show ?thesis
      using l five bmap_conf(6) [OF c] bmap5_place [OF fine l, of "s * blocksInStripe r"]
      by (simp add: pmap5_def raid_parity_def)
  qed
qed

text \<open>The operations of a whole request.\<close>

definition mirror_events :: "(nat \<Rightarrow> nat \<times> nat) \<Rightarrow> bool \<Rightarrow> nat \<Rightarrow> raid_event list" where
  "mirror_events loc w b = (let (d, off) = loc b in
     if w then [Phys_Write d off False, Phys_Write (d + 1) off True]
     else [Phys_Read (if off mod 2 = 0 then d else d + 1) off True])"

definition raid_ios :: "raid \<Rightarrow> nat \<Rightarrow> nat \<Rightarrow> bool \<Rightarrow> raid_event list" where
  "raid_ios r a z w =
     (if raidLevel r = 0 then at_places (if w then Phys_Write else Phys_Read) (raid_place r) (\<lambda>_. True) [a..<a + z]
      else if raidLevel r = 1 then concat (map (mirror_events (raid_place r) w) [a..<a + z])
      else if w then write_events (raid_place r) (raid_parity r) (blocksInStripe r) a z
      else at_places Phys_Read (raid_place r) (\<lambda>_. False) [a..<a + z])"

definition announce :: "nat \<Rightarrow> nat \<Rightarrow> bool \<Rightarrow> raid \<Rightarrow> raid" where
  "announce a z w r =
     (if timing r then r
      else if solve r \<or> \<not> reverse_mode r then
        let r = say (if w then Logical_Write a (int z * BLOCKSIZE) else Logical_Read a (int z * BLOCKSIZE)) r in
        if \<not> solve r then say Physical_Question r else r
      else say Operation_Question r)
     \<lparr>printPhysical := \<not> timing r \<and> (solve r \<or> reverse_mode r)\<rparr>"

lemma announce_fields:
  "chunkSize (announce a z w r) = chunkSize r" "numDisks (announce a z w r) = numDisks r" "raidLevel (announce a z w r) = raidLevel r"
  "raid5type (announce a z w r) = raid5type r" "blocksInStripe (announce a z w r) = blocksInStripe r" "disks (announce a z w r) = disks r"
  "printPhysical (announce a z w r) = (\<not> timing r \<and> (solve r \<or> reverse_mode r))" "timing (announce a z w r) = timing r"
  by (simp_all add: announce_def say_def Let_def)

lemma announce_fine: "raid_fine (announce a z w r) = raid_fine r" "raid_place (announce a z w r) = raid_place r"
  "raid_parity (announce a z w r) = raid_parity r" "capacity (announce a z w r) = capacity r" "raid_cols (announce a z w r) = raid_cols r"
  by (simp_all add: raid_fine_def raid_place_def raid_parity_def capacity_def raid_cols_def announce_fields)

lemma raid_enqueue_ios:
  assumes fine: "raid_fine r" and z: "0 < z"
  shows "raid_enqueue a z w r = rbind (rfold perform (raid_ios r a z w) (announce a z w r)) blank_line"
proof -
  let ?r = "announce a z w r"
  have fr: "raid_fine ?r" using fine by (simp add: announce_fine)
  have e: "raid_enqueue a z w r =
      (if raidLevel ?r = 0 then enqueue0 a z w ?r else if raidLevel ?r = 1 then enqueue1 a z w ?r
       else if raidLevel ?r = 4 \<or> raidLevel ?r = 5 then enqueue45 a z w ?r else Inr ?r)"
    unfolding raid_enqueue_def announce_def Let_def by simp
  have ios: "raid_ios r a z w = raid_ios ?r a z w" by (simp add: raid_ios_def announce_fine announce_fields)
  consider "raidLevel ?r = 0" | "raidLevel ?r = 1" | "parity_level ?r" using fr by (auto simp: raid_fine_def)
  then show ?thesis
  proof cases
    case 1
    let ?ev = "if w then Phys_Write else Phys_Read"
    have "rfold (\<lambda>b r. rbind (bmap0 r b) (\<lambda>(d, off). if w then doSingleWrite d off True r else doSingleRead d off True r)) [a..<a + z] ?r =
        rfold perform (concat (map (\<lambda>v. [?ev (fst (raid_place ?r v)) (snd (raid_place ?r v)) True]) [a..<a + z])) ?r"
    proof (rule rfold_events [OF _ refl])
      fix v and r' :: raid assume c: "conf_of r' = conf_of ?r"
      let ?e = "?ev (fst (raid_place ?r v)) (snd (raid_place ?r v)) True"
      show "rbind (bmap0 r' v) (\<lambda>(d, off). if w then doSingleWrite d off True r' else doSingleRead d off True r') =
          rfold perform [?e] r'"
        unfolding bmap_conf(1) [OF c] bmap0_place [OF fr 1] rbind_Inr
        by (cases w; cases "perform ?e r'") (simp_all add: split_beta perform_def)
    qed
    then show ?thesis unfolding e ios using 1 by (simp add: enqueue0_def raid_ios_def at_places_def concat_singles)
  next
    case 2
    have "rfold (\<lambda>b r. rbind (bmap1 r b) (\<lambda>(d1, d2, off).
              if w then rbind (doSingleWrite d1 off False r) (doSingleWrite d2 off True)
              else if off mod 2 = 0 then doSingleRead d1 off True r
              else doSingleRead d2 off True r)) [a..<a + z] ?r =
        rfold perform (concat (map (mirror_events (raid_place ?r) w) [a..<a + z])) ?r"
    proof (rule rfold_events [OF _ refl])
      fix v and r' :: raid assume c: "conf_of r' = conf_of ?r"
      have one: "rfold perform [ev] = perform ev" for ev
      proof
        fix x show "rfold perform [ev] x = perform ev x" by (cases "perform ev x") simp_all
      qed
      have two: "rfold perform [e1, e2] x = rbind (perform e1 x) (perform e2)" for e1 e2 x using one by (metis rfold.simps(2))
      have pf: "perform (Phys_Read d off nl) = doSingleRead d off nl" "perform (Phys_Write d off nl) = doSingleWrite d off nl" for d off nl
        by (simp_all add: fun_eq_iff perform_def)
      obtain d off where p: "raid_place ?r v = (d, off)" by (cases "raid_place ?r v")
      show "rbind (bmap1 r' v) (\<lambda>(d1, d2, off). if w then rbind (doSingleWrite d1 off False r') (doSingleWrite d2 off True)
              else if off mod 2 = 0 then doSingleRead d1 off True r' else doSingleRead d2 off True r') =
          rfold perform (mirror_events (raid_place ?r) w v) r'"
        unfolding bmap_conf(2) [OF c] bmap1_place [OF fr 2] rbind_Inr p mirror_events_def Let_def prod.case fst_conv snd_conv
        by (cases w; cases "off mod 2 = 0") (simp_all only: if_True if_False one two pf simp_thms)
    qed
    then show ?thesis unfolding e ios using 2 by (simp add: enqueue1_def raid_ios_def)
  next
    case 3
    have B: "0 < blocksInStripe ?r" using fr 3 by (auto simp: raid_fine_def raid_cols_def)
    have "maps45 ?r = (fst (maps45 ?r), snd (maps45 ?r))" by simp
    note enqueue45_events [OF this maps_located [OF fr 3] B z, of a w]
    then show ?thesis unfolding e ios using 3 by (auto simp: raid_ios_def)
  qed
qed


section \<open>When operations succeed\<close>

definition touches :: "raid_event \<Rightarrow> nat \<Rightarrow> nat \<Rightarrow> bool" where
  "touches e d off \<longleftrightarrow> (\<exists>nl. e = Phys_Read d off nl \<or> e = Phys_Write d off nl)"

lemma trunc_div_nonneg: "0 \<le> x \<Longrightarrow> trunc_div x 100 = x div 100"
  by (cases "x = 0") (simp_all add: trunc_div_def)

lemma disk_enqueue_fine:
  assumes "disk_fine d" "off < 10000"
  shows "\<exists>d'. disk_enqueue off d = Inr d' \<and> disk_fine d' \<and> countIO d' = countIO d + 1"
proof -
  have near: "\<bar>int off - currAddr d\<bar> < 100"
    if "trunc_div (currAddr d) 100 = trunc_div (int off) 100 \<or> \<bar>int off - currAddr d\<bar> < 100"
  proof (cases "currAddr d = - 10000")
    case True
    then have "trunc_div (currAddr d) 100 = - 100" by (simp add: trunc_div_def)
    moreover have "trunc_div (int off) 100 \<ge> 0" by (simp add: trunc_div_nonneg)
    ultimately show ?thesis using that by linarith
  next
    case False
    then have "0 \<le> currAddr d" using assms(1) by (simp add: disk_fine_def)
    then have "trunc_div (currAddr d) 100 = currAddr d div 100" "trunc_div (int off) 100 = int off div 100"
      by (simp_all add: trunc_div_nonneg)
    then show ?thesis using that by linarith
  qed
  have cost: "of_int \<bar>int off - currAddr d\<bar> * (1 / 10) \<le> (101 / 10 :: rat)"
    if "\<bar>int off - currAddr d\<bar> < 100"
  proof -
    have "(of_int \<bar>int off - currAddr d\<bar> :: rat) \<le> of_int 100" using that by (subst of_int_le_iff) simp
    then show ?thesis by simp
  qed
  have nn: "(0 :: rat) \<le> of_int \<bar>int off - currAddr d\<bar> * (1 / 10)" by simp
  obtain d' where d': "disk_enqueue off d = Inr d'"
    using assms by (auto simp: disk_enqueue_def disk_fine_def Let_def)
  have i: "countIO d' = countIO d + 1" "seekTime d' = seekTime d" "xferTime d' = xferTime d" "numTracks d' = numTracks d"
    "blocksPerTrack d' = blocksPerTrack d" "blocksPerDisk d' = blocksPerDisk d" "currAddr d' = int off"
    using d' by (auto simp: disk_enqueue_def Let_def rbind_eq_Inr)
  have c: "countIO d' = countSeq d' + countNseq d' + countRand d'"
    using d' assms(1) by (auto simp: disk_enqueue_def Let_def rbind_eq_Inr disk_fine_def)
  have u: "\<exists>x. utilTime d' = utilTime d + x \<and> 0 \<le> x \<and> x \<le> 101 / 10"
  proof (cases "trunc_div (currAddr d) 100 = trunc_div (int off) 100 \<or> \<bar>int off - currAddr d\<bar> < 100")
    case True
    then have "utilTime d' = utilTime d + of_int \<bar>int off - currAddr d\<bar> * (1 / 10)"
      using d' assms(1) by (auto simp: disk_enqueue_def Let_def rbind_eq_Inr disk_fine_def)
    then show ?thesis using cost [OF near [OF True]] nn by blast
  next
    case False
    then have "utilTime d' = utilTime d + 101 / 10"
      using d' assms(1) by (auto simp: disk_enqueue_def Let_def rbind_eq_Inr disk_fine_def)
    then show ?thesis by (intro exI [of _ "101 / 10"]) simp
  qed
  have "disk_fine d'"
    using assms(1) i c u unfolding disk_fine_def by (auto simp: algebra_simps)
  then show ?thesis using d' i by blast
qed

lemma disk_enqueue_beyond: "disk_fine d \<Longrightarrow> 10000 \<le> off \<Longrightarrow> disk_enqueue off d = Inl AssertionError"
  by (simp add: disk_enqueue_def disk_fine_def)

lemma perform_ok:
  assumes fine: "raid_fine r" and t: "touches e d off" and d: "d < numDisks r"
  shows "if off < 10000 then \<exists>r'. perform e r = Inr r' \<and> raid_fine r' \<and> conf_of r' = conf_of r \<and>
      printed r' = printed r @ (if printPhysical r then [e] else []) \<and>
      (\<Sum>x \<leftarrow> disks r'. countIO x) = (\<Sum>x \<leftarrow> disks r. countIO x) + 1
    else perform e r = Inl AssertionError"
proof -
  have dl: "d < length (disks r)" "disk_fine (disks r ! d)" using fine d by (auto simp: raid_fine_def)
  have p: "perform e r = disk_io e d off r"
    using t by (auto simp: touches_def perform_def doSingleRead_def doSingleWrite_def)
  show ?thesis
  proof (cases "off < 10000")
    case True
    obtain x where x: "disk_enqueue off (disks r ! d) = Inr x" "disk_fine x" "countIO x = countIO (disks r ! d) + 1"
      using disk_enqueue_fine [OF dl(2) True] by blast
    let ?r = "(if printPhysical r then say e r else r)\<lparr>disks := (disks r)[d := x]\<rparr>"
    have "disk_io e d off r = Inr ?r" using x(1) dl(1) by (simp add: disk_io_def Let_def say_def)
    moreover have "\<forall>y \<in> set ((disks r)[d := x]). disk_fine y"
      using fine x(2) set_update_subset_insert [of "disks r" d x] by (auto simp: raid_fine_def)
    then have "raid_fine ?r" using fine by (auto simp: raid_fine_def raid_cols_def say_def)
    moreover have "(\<Sum>y \<leftarrow> (disks r)[d := x]. countIO y) = (\<Sum>y \<leftarrow> disks r. countIO y) + 1"
      using x(3) sum_list_update [of d "map countIO (disks r)" "countIO x"] elem_le_sum_list [of d "map countIO (disks r)"] dl(1)
      by (simp add: map_update)
    ultimately show ?thesis using True p by (auto simp: say_def)
  next
    case False
    then show ?thesis using p dl disk_enqueue_beyond [OF dl(2)] by (simp add: disk_io_def Let_def say_def)
  qed
qed

definition in_range :: "raid_event \<Rightarrow> bool" where
  "in_range e \<longleftrightarrow> (\<exists>d off. touches e d off \<and> off < 10000)"

lemma performs_ok:
  assumes "raid_fine r" and "\<forall>e \<in> set es. \<exists>d off. touches e d off \<and> d < numDisks r"
  shows "if \<forall>e \<in> set es. in_range e
    then \<exists>r'. rfold perform es r = Inr r' \<and> raid_fine r' \<and> conf_of r' = conf_of r \<and>
      printed r' = printed r @ (if printPhysical r then es else []) \<and>
      (\<Sum>x \<leftarrow> disks r'. countIO x) = (\<Sum>x \<leftarrow> disks r. countIO x) + length es
    else rfold perform es r = Inl AssertionError"
  using assms
proof (induction es arbitrary: r)
  case (Cons e es)
  obtain d off where t: "touches e d off" "d < numDisks r" using Cons.prems(2) by auto
  have ir: "in_range e \<longleftrightarrow> off < 10000" using t(1) by (auto simp: in_range_def touches_def)
  show ?case
  proof (cases "off < 10000")
    case True
    then obtain r1 where r1: "perform e r = Inr r1" "raid_fine r1" "conf_of r1 = conf_of r"
      "printed r1 = printed r @ (if printPhysical r then [e] else [])"
      "(\<Sum>x \<leftarrow> disks r1. countIO x) = (\<Sum>x \<leftarrow> disks r. countIO x) + 1"
      using perform_ok [OF Cons.prems(1) t] by auto
    have n: "\<forall>e \<in> set es. \<exists>d off. touches e d off \<and> d < numDisks r1" using Cons.prems(2) r1(3) by simp
    show ?thesis using Cons.IH [OF r1(2) n] r1(1,3,4,5) True ir by (cases "\<forall>e \<in> set es. in_range e") auto
  next
    case False
    then have "perform e r = Inl AssertionError" using perform_ok [OF Cons.prems(1) t] by simp
    then show ?thesis using False ir by auto
  qed
qed simp


lemma set_offsets: "set (offsets loc vs offs) = set offs \<union> (\<lambda>v. snd (loc v)) ` set vs"
proof (induction vs arbitrary: offs)
  case (Cons v vs)
  then show ?case by (auto simp: offsets_def add_off_def)
qed (simp add: offsets_def)

lemma mem_at_places: "e \<in> set (at_places ev loc nl vs) \<longleftrightarrow> (\<exists>v \<in> set vs. e = ev (fst (loc v)) (snd (loc v)) (nl v))"
  by (auto simp: at_places_def)

lemma mem_at_parity: "e \<in> set (at_parity ev p offs) \<Longrightarrow> \<exists>off \<in> set offs. \<exists>nl. e = ev p off nl"
  by (auto simp: at_parity_def)

lemma at_parity_mem: "off \<in> set offs \<Longrightarrow> \<exists>nl. ev p off nl \<in> set (at_parity ev p offs)"
proof -
  assume "off \<in> set offs"
  then obtain i where "i < length offs" "off = offs ! i" by (auto simp: in_set_conv_nth)
  then have "ev p off (i = length offs - 1) \<in> set (at_parity ev p offs)" unfolding at_parity_def by simp
  then show ?thesis by blast
qed

lemma partial_touches:
  assumes "e \<in> set (partial_events loc B p s f t)" "s * B \<le> f" "f \<le> t" "t \<le> s * B + B"
  shows "\<exists>v. s * B \<le> v \<and> v < s * B + B \<and> (touches e (fst (loc v)) (snd (loc v)) \<or> touches e p (snd (loc v)))"
proof -
  have "\<exists>v \<in> {s * B..<s * B + B}. touches e (fst (loc v)) (snd (loc v)) \<or> touches e p (snd (loc v))"
    using assms
    by (auto simp: partial_events_def partial_reads_def partial_writes_def mem_at_places set_offsets touches_def
        dest!: mem_at_parity split: if_splits) force+
  then show ?thesis by auto
qed

lemma capacity_stripes: "raid_fine r \<Longrightarrow> parity_level r \<Longrightarrow> capacity r = 10000 div chunkSize r * blocksInStripe r"
  by (auto simp: raid_fine_def capacity_def raid_cols_def)

lemma stripe_within:
  assumes "raid_fine r" "parity_level r" "0 < z" "a + z \<le> capacity r" "s \<le> (a + z - 1) div blocksInStripe r"
  shows "s * blocksInStripe r + blocksInStripe r \<le> capacity r"
proof -
  have "a + z - 1 < (10000 div chunkSize r) * blocksInStripe r" using assms(3,4) capacity_stripes [OF assms(1,2)] by simp
  then have "(a + z - 1) div blocksInStripe r < 10000 div chunkSize r" by (rule less_mult_imp_div_less)
  then have "Suc s \<le> 10000 div chunkSize r" using assms(5) by simp
  then have "Suc s * blocksInStripe r \<le> 10000 div chunkSize r * blocksInStripe r" by (rule mult_le_mono1)
  then show ?thesis using capacity_stripes [OF assms(1,2)] by simp
qed

lemma stripe_bounds:
  fixes B :: nat
  assumes "0 < B" "0 < z" "a div B \<le> s" "s \<le> (a + z - 1) div B"
  shows "s * B \<le> max a (s * B)" "max a (s * B) \<le> min (a + z) (s * B + B)" "min (a + z) (s * B + B) \<le> s * B + B"
proof -
  have "s * B \<le> a + z - 1" using assms(1,4) by (simp add: less_eq_div_iff_mult_less_eq)
  moreover have "a < Suc (a div B) * B" using assms(1) by (metis dividend_less_times_div mult_Suc add.commute mult.commute)
  moreover have "Suc (a div B) * B \<le> Suc s * B" using assms(3) by (intro mult_le_mono1) simp
  ultimately have "s * B \<le> a + z - 1" "a < Suc s * B" by linarith+
  then have "s * B \<le> a + z - 1" "a < s * B + B" by simp_all
  then show "s * B \<le> max a (s * B)" "max a (s * B) \<le> min (a + z) (s * B + B)" "min (a + z) (s * B + B) \<le> s * B + B"
    using assms(2) by (auto simp: max_def min_def)
qed

lemma ios_touch:
  assumes fine: "raid_fine r" and z: "0 < z" and e: "e \<in> set (raid_ios r a z w)"
  shows "\<exists>d off. touches e d off \<and> d < numDisks r \<and> (a + z \<le> capacity r \<longrightarrow> off < 10000)"
proof -
  have one: "\<exists>d off. touches e d off \<and> d < numDisks r \<and> (a + z \<le> capacity r \<longrightarrow> off < 10000)"
    if "touches e d (snd (raid_place r v))" "d < numDisks r" "a + z \<le> capacity r \<longrightarrow> v < capacity r" for d v
    using that place_fits [OF fine, of v] by blast
  have T: "touches (Phys_Read d off nl) d off" "touches (Phys_Write d off nl) d off" for d off nl by (simp_all add: touches_def)
  consider "raidLevel r = 0" | "raidLevel r = 1" | "parity_level r" using fine by (auto simp: raid_fine_def)
  then show ?thesis
  proof cases
    case 1
    then obtain v where v: "v \<in> {a..<a + z}" "e = (if w then Phys_Write else Phys_Read) (fst (raid_place r v)) (snd (raid_place r v)) True"
      using e by (auto simp: raid_ios_def mem_at_places)
    then have "touches e (fst (raid_place r v)) (snd (raid_place r v))" using T by (cases w) simp_all
    from one [OF this place_disk [OF fine]] show ?thesis using v(1) by auto
  next
    case 2
    then obtain v where v: "v \<in> {a..<a + z}" "e \<in> set (mirror_events (raid_place r) w v)" using e by (auto simp: raid_ios_def)
    obtain d off where p: "raid_place r v = (d, off)" by (cases "raid_place r v")
    then have "e = Phys_Write d off False \<or> e = Phys_Write (d + 1) off True \<or> e = Phys_Read d off True \<or> e = Phys_Read (d + 1) off True"
      using v(2) by (auto simp: mirror_events_def split: if_splits)
    then have "touches e d (snd (raid_place r v)) \<or> touches e (d + 1) (snd (raid_place r v))" using p T by auto
    moreover have "d + 1 < numDisks r" "d < numDisks r" using place_pair [OF fine 2, of v] p by simp_all
    ultimately show ?thesis using one [of d v] one [of "d + 1" v] v(1) by auto
  next
    case 3
    let ?B = "blocksInStripe r"
    have B: "0 < ?B" using fine 3 by (auto simp: raid_fine_def raid_cols_def)
    show ?thesis
    proof (cases w)
      case False
      then obtain v where v: "v \<in> {a..<a + z}" "e = Phys_Read (fst (raid_place r v)) (snd (raid_place r v)) False"
        using e 3 by (auto simp: raid_ios_def mem_at_places)
      then have "touches e (fst (raid_place r v)) (snd (raid_place r v))" using T by simp
      from one [OF this place_disk [OF fine]] show ?thesis using v(1) by auto
    next
      case True
      then have "e \<in> set (write_events (raid_place r) (raid_parity r) ?B a z)" using e 3 by (auto simp: raid_ios_def)
      then obtain s where s: "a div ?B \<le> s" "s \<le> (a + z - 1) div ?B"
        "e \<in> set (partial_events (raid_place r) ?B (raid_parity r s) s (max a (s * ?B)) (min (a + z) (s * ?B + ?B)))"
        unfolding write_events_def by (auto simp: less_Suc_eq_le simp del: upt_Suc)
      obtain v where v: "v < s * ?B + ?B"
        "touches e (fst (raid_place r v)) (snd (raid_place r v)) \<or> touches e (raid_parity r s) (snd (raid_place r v))"
        using partial_touches [OF s(3) stripe_bounds [OF B z s(1,2)]] by blast
      have "a + z \<le> capacity r \<longrightarrow> v < capacity r" using stripe_within [OF fine 3 z _ s(2)] v(1) by auto
      then show ?thesis
        using v(2) one [of "fst (raid_place r v)" v] one [of "raid_parity r s" v] place_disk [OF fine] parity_disk [OF fine 3] by blast
    qed
  qed
qed

lemma ios_beyond:
  assumes fine: "raid_fine r" and b: "b \<in> set [a..<a + z]" and off: "10000 \<le> snd (raid_place r b)"
  shows "\<exists>e \<in> set (raid_ios r a z w). \<not> in_range e"
proof -
  have out: "\<not> in_range (Phys_Read d (snd (raid_place r b)) nl)" "\<not> in_range (Phys_Write d (snd (raid_place r b)) nl)" for d nl
    using off by (auto simp: in_range_def touches_def)
  have "\<exists>e \<in> set (raid_ios r a z w). \<exists>d nl. e = Phys_Read d (snd (raid_place r b)) nl \<or> e = Phys_Write d (snd (raid_place r b)) nl"
  proof -
    consider "raidLevel r = 0" | "raidLevel r = 1" | "parity_level r" "\<not> w" | "parity_level r" w using fine by (auto simp: raid_fine_def)
    then show ?thesis
    proof cases
      case 1
      let ?e = "(if w then Phys_Write else Phys_Read) (fst (raid_place r b)) (snd (raid_place r b)) True"
      have "?e \<in> set (raid_ios r a z w)" using 1 b by (auto simp: raid_ios_def mem_at_places simp del: set_upt)
      then show ?thesis by (cases w) auto
    next
      case 2
      have "set (mirror_events (raid_place r) w b) \<subseteq> set (raid_ios r a z w)" using 2 b by (auto simp: raid_ios_def simp del: set_upt)
      moreover have "\<exists>e \<in> set (mirror_events (raid_place r) w b). \<exists>d nl. e = Phys_Read d (snd (raid_place r b)) nl \<or> e = Phys_Write d (snd (raid_place r b)) nl"
        by (cases "raid_place r b") (auto simp: mirror_events_def)
      ultimately show ?thesis by blast
    next
      case 3
      have "Phys_Read (fst (raid_place r b)) (snd (raid_place r b)) False \<in> set (raid_ios r a z w)"
        using 3 b by (auto simp: raid_ios_def mem_at_places simp del: set_upt)
      then show ?thesis by blast
    next
      case 4
      let ?B = "blocksInStripe r" and ?s = "b div blocksInStripe r"
      have B: "0 < ?B" using fine 4 by (auto simp: raid_fine_def raid_cols_def)
      have s: "a div ?B \<le> ?s" "?s \<le> (a + z - 1) div ?B" using b by (auto intro!: div_le_mono)
      have "?s * ?B \<le> b" "b < ?s * ?B + ?B" using B by (simp, metis add.commute dividend_less_div_times)
      then have "b \<in> set [max a (?s * ?B)..<min (a + z) (?s * ?B + ?B)]" using b by simp
      then have "Phys_Write (fst (raid_place r b)) (snd (raid_place r b)) False
          \<in> set (partial_events (raid_place r) ?B (raid_parity r ?s) ?s (max a (?s * ?B)) (min (a + z) (?s * ?B + ?B)))"
        by (auto simp: partial_events_def partial_writes_def mem_at_places simp del: set_upt)
      moreover have "?s \<in> set [a div ?B..<Suc ((a + z - 1) div ?B)]" using s by (auto simp del: upt_Suc)
      ultimately have "Phys_Write (fst (raid_place r b)) (snd (raid_place r b)) False \<in> set (raid_ios r a z w)"
        using 4 by (auto simp: raid_ios_def write_events_def simp del: upt_Suc set_upt)
      then show ?thesis by blast
    qed
  qed
  then show ?thesis using out by metis
qed

lemma blank_line_fine:
  "raid_fine r \<Longrightarrow> \<exists>r'. blank_line r = Inr r' \<and> raid_fine r' \<and> disks r' = disks r \<and> (raid_place r' = raid_place r \<and> capacity r' = capacity r)"
  by (auto simp: blank_line_def say_def raid_fine_def raid_cols_def raid_place_def capacity_def)

lemma raid_enqueue_ok:
  assumes fine: "raid_fine r" and z: "0 < z" and cap: "a + z \<le> capacity r"
  shows "\<exists>r'. raid_enqueue a z w r = Inr r' \<and> raid_fine r' \<and> capacity r' = capacity r \<and>
    (\<Sum>x \<leftarrow> disks r'. countIO x) = (\<Sum>x \<leftarrow> disks r. countIO x) + length (raid_ios r a z w)"
proof -
  let ?r = "announce a z w r"
  have fr: "raid_fine ?r" and nd: "numDisks ?r = numDisks r" using fine by (simp_all add: announce_fine announce_fields)
  have t: "\<forall>e \<in> set (raid_ios r a z w). \<exists>d off. touches e d off \<and> d < numDisks ?r"
    using ios_touch [OF fine z] unfolding nd by blast
  have "\<forall>e \<in> set (raid_ios r a z w). in_range e" using ios_touch [OF fine z] cap unfolding in_range_def by blast
  then obtain r1 where r1: "rfold perform (raid_ios r a z w) ?r = Inr r1" "raid_fine r1" "conf_of r1 = conf_of ?r"
    "(\<Sum>x \<leftarrow> disks r1. countIO x) = (\<Sum>x \<leftarrow> disks ?r. countIO x) + length (raid_ios r a z w)"
    using performs_ok [OF fr t] by auto
  have "raidLevel ?r \<in> {0, 1, 4, 5}" using fr by (simp add: raid_fine_def)
  then have "capacity r1 = capacity r" using fine_cong(3) [OF r1(3)] by (simp add: announce_fine)
  then show ?thesis
    using raid_enqueue_ios [OF fine z] r1 blank_line_fine [OF r1(2)] by (auto simp: announce_fields)
qed

lemma raid_enqueue_beyond:
  assumes fine: "raid_fine r" and b: "a \<le> b" "b < a + z" and off: "10000 \<le> snd (raid_place r b)"
  shows "raid_enqueue a z w r = Inl AssertionError"
proof -
  let ?r = "announce a z w r"
  have z: "0 < z" using b by simp
  have fr: "raid_fine ?r" and nd: "numDisks ?r = numDisks r" using fine by (simp_all add: announce_fine announce_fields)
  have t: "\<forall>e \<in> set (raid_ios r a z w). \<exists>d off. touches e d off \<and> d < numDisks ?r"
    using ios_touch [OF fine z] unfolding nd by blast
  have "\<not> (\<forall>e \<in> set (raid_ios r a z w). in_range e)" using ios_beyond [OF fine _ off] b by simp
  then have "rfold perform (raid_ios r a z w) ?r = Inl AssertionError" using performs_ok [OF fr t] by simp
  then show ?thesis using raid_enqueue_ios [OF fine z] by simp
qed


section \<open>The whole run\<close>

lemma raid_go_bound:
  assumes "\<forall>d \<in> set ds. disk_fine d" "0 \<le> t" "t \<le> 101 / 10 * of_nat n"
  shows "0 \<le> foldl (\<lambda>tmax d. if utilTime d > tmax then utilTime d else tmax) t ds \<and>
    foldl (\<lambda>tmax d. if utilTime d > tmax then utilTime d else tmax) t ds \<le> 101 / 10 * of_nat (n + (\<Sum>x \<leftarrow> ds. countIO x))"
  using assms
proof (induction ds arbitrary: t n)
  case (Cons d ds)
  let ?t = "if utilTime d > t then utilTime d else t"
  have "utilTime d \<le> 101 / 10 * of_nat (countIO d)" "0 \<le> utilTime d" using Cons.prems(1) by (simp_all add: disk_fine_def)
  then have "0 \<le> ?t" "?t \<le> 101 / 10 * of_nat (n + countIO d)" using Cons.prems(2,3) by (auto simp: algebra_simps)
  from Cons.IH [OF _ this] show ?case using Cons.prems(1) by (simp add: algebra_simps)
qed simp

lemma raid_setup_fine:
  assumes s: "raid_setup opt = Inr (sequential, z, r)" and ch: "0 < chunkSize r" and nd: "0 < r_numDisks opt"
  shows "raid_fine r"
proof -
  obtain c where c: "raid_init c (r_numDisks opt) (r_level opt) (r_timing opt) (r_reverse opt) (r_solve opt) (r_raid5type opt) = Inr r"
    "r_level opt \<in> {0, 1, 4, 5}" "r_level opt = 0 \<or> 2 \<le> r_numDisks opt"
    "r_level opt = 5 \<longrightarrow> r_raid5type opt = ''LA'' \<or> r_raid5type opt = ''LS''"
    using s by (auto simp: raid_setup_def rbind_eq_Inr split: if_splits)
  have dk: "disk_fine disk_init" by (simp add: disk_fine_def disk_init_def)
  have f: "numDisks r = r_numDisks opt" "raidLevel r = r_level opt" "raid5type r = r_raid5type opt"
    "blocksInStripe r = (r_numDisks opt - 1) * chunkSize r" "disks r = replicate (r_numDisks opt) disk_init"
    "r_level opt = 1 \<longrightarrow> r_numDisks opt mod 2 = 0"
    using c(1) by (simp_all add: raid_init_def Let_def split: if_splits) auto
  have even: "r_level opt = 1 \<longrightarrow> even (r_numDisks opt)" using f(6) by presburger
  have "0 < raid_cols r" using c(2,3) nd unfolding raid_cols_def f(1,2) by (auto simp: div_greater_zero_iff)
  moreover have "\<forall>d \<in> set (disks r). disk_fine d" "length (disks r) = numDisks r" using f(5) dk unfolding f(1) by simp_all
  ultimately show ?thesis unfolding raid_fine_def f(1-4) using ch c(2,4) even by blast
qed

definition request_fits :: "bool \<Rightarrow> nat \<Rightarrow> nat \<Rightarrow> nat \<Rightarrow> nat \<Rightarrow> bool" where
  "request_fits sequential n z rng cap \<longleftrightarrow> (if sequential then n * z \<le> cap else 0 < rng \<and> rng - 1 + z \<le> cap)"

lemma raid_loop_ok:
  assumes "raid_fine r" "0 < z" "\<forall>k \<in> set ds. valid_draw k" "off + length xs * z \<le> n * z" "request_fits sq n z rng (capacity r)"
  shows "case rfold (\<lambda>_. raid_request sq z rng percent) xs (off, r, ds) of
      Inl e \<Rightarrow> e = Out_Of_Draws
    | Inr (_, r', _) \<Rightarrow> raid_fine r'"
  using assms
proof (induction xs arbitrary: off r ds)
  case (Cons x xs)
  have step: "case rfold (\<lambda>_. raid_request sq z rng percent) (x # xs) (off, r, ds) of Inl e \<Rightarrow> e = Out_Of_Draws | Inr (_, r', _) \<Rightarrow> raid_fine r'"
    if q: "raid_request sq z rng percent (off, r, ds) = rbind (next_draw ds1) (\<lambda>(k, ds2). rbind (raid_enqueue blk z (below k percent 100) r) (\<lambda>r'. Inr (off', r', ds2)))"
      and fit: "blk + z \<le> capacity r" "off' + length xs * z \<le> n * z" and v: "\<forall>k \<in> set ds1. valid_draw k" for ds1 blk off'
  proof (cases ds1)
    case (Cons k ds2)
    obtain r' where r': "raid_enqueue blk z (below k percent 100) r = Inr r'" "raid_fine r'" "capacity r' = capacity r"
      using raid_enqueue_ok [OF Cons.prems(1,2) fit(1)] by blast
    have "request_fits sq n z rng (capacity r')" using Cons.prems(5) r'(3) by simp
    from Cons.IH [OF r'(2) Cons.prems(2) _ fit(2) this, of ds2] show ?thesis
      using q Cons r'(1) v by simp
  qed (simp add: q)
  show ?case
  proof (cases sq)
    case True
    then have q: "raid_request sq z rng percent (off, r, ds) = rbind (next_draw ds) (\<lambda>(k, ds2).
        rbind (raid_enqueue off z (below k percent 100) r) (\<lambda>r'. Inr (off + z, r', ds2)))" by (simp add: raid_request_def)
    have "off + z + length xs * z \<le> n * z" using Cons.prems(4) by simp
    moreover have "n * z \<le> capacity r" using Cons.prems(5) True by (simp add: request_fits_def)
    ultimately show ?thesis by (intro step [OF q _ _ Cons.prems(3)]) linarith+
  next
    case False
    show ?thesis
    proof (cases ds)
      case (Cons k ds1)
      then have q: "raid_request sq z rng percent (off, r, ds) = rbind (next_draw ds1) (\<lambda>(k', ds2).
        rbind (raid_enqueue (pick k rng) z (below k' percent 100) r) (\<lambda>r'. Inr (off, r', ds2)))" using False by (simp add: raid_request_def)
      have f: "0 < rng" "rng - 1 + z \<le> capacity r" using Cons.prems(5) unfolding request_fits_def if_not_P [OF False] by blast+
      have "pick k rng < rng" using Cons.prems(3) Cons f(1) by (intro pick_less) simp
      then have "pick k rng + z \<le> capacity r" using f(2) by linarith
      moreover have "off + length xs * z \<le> n * z" using Cons.prems(4) by simp
      ultimately show ?thesis using Cons.prems(3) Cons by (intro step [OF q]) simp_all
    qed (simp add: raid_request_def False)
  qed
qed simp

section \<open>Properties\<close>

text \<open>
  C14. On a well-formed array of level 4 or 5 (left-symmetric or left-asymmetric) the block mapping and the parity mapping fill the disks:
  the block \<open>bmap\<close> gives for any address is on an existing disk, and every place (disk, offset) is either the parity of its
  stripe, as \<open>pmap\<close> says, and then holds no data block, or it holds exactly one data block.
\<close>

theorem raid_layout_bijective:
  assumes "raid_fine r" "raidLevel r = 4 \<or> raidLevel r = 5" "d < numDisks r"
  shows "(\<forall>b. \<exists>x off. fst (maps45 r) r b = Inr (x, off) \<and> x < numDisks r) \<and>
    (if snd (maps45 r) r (off div chunkSize r) = Inr d then \<forall>b. fst (maps45 r) r b \<noteq> Inr (d, off)
     else \<exists>!b. fst (maps45 r) r b = Inr (d, off))"
proof -
  have m: "fst (maps45 r) r b = Inr (raid_place r b)" "snd (maps45 r) r s = Inr (raid_parity r s)" for b s
    using maps_located(1) [OF assms(1,2)] maps_located(2) [OF assms(1,2) refl] unfolding locates_def by auto
  have "\<exists>x off. Inr (raid_place r b) = (Inr (x, off) :: (nat \<times> nat) res) \<and> x < numDisks r" for b
    using place_disk [OF assms(1), of b] by (cases "raid_place r b") auto
  moreover have "if raid_parity r (off div chunkSize r) = d then \<forall>b. raid_place r b \<noteq> (d, off) else \<exists>!b. raid_place r b = (d, off)"
    using parity_places [OF assms, of off] by (metis (full_types))
  ultimately show ?thesis unfolding m by (auto split: if_splits)
qed

text \<open>
  C27. A request for at least one block on a well-formed array is carried out as the reference list of physical operations
  \<open>raid_ios\<close>: one operation per block (level 0), one read or the two mirrored writes (level 1), and for writes on levels 4 and 5 the partial
  stripe writes obtained by intersecting the request with each stripe. The loop of the code that advances \<open>begin\<close> and
  \<open>left\<close> computes the same pieces.
\<close>

theorem raid_requests_as_operations:
  assumes "raid_fine r" "0 < z"
  shows "raid_enqueue a z w r = rbind (rfold perform (raid_ios r a z w) (announce a z w r)) blank_line"
  by (rule raid_enqueue_ios [OF assms])

text \<open>
  C28. A request that ends within the whole rows of an array (its capacity) always succeeds and leaves a well-formed array in which each
  physical operation was counted once. A request with a block that is placed beyond the 10000 blocks of a disk fails with the assertion
  on the address. If the chunk size divides 10000 blocks, every request that goes beyond the capacity fails in this way. (With other chunk sizes
  the last row is cut off, and its first blocks are beyond the capacity but on a disk.)
\<close>

theorem raid_request_bounds:
  assumes "raid_fine r" "0 < z"
  shows "(a + z \<le> capacity r \<longrightarrow> (\<exists>r'. raid_enqueue a z w r = Inr r' \<and> raid_fine r' \<and>
      (\<Sum>x \<leftarrow> disks r'. countIO x) = (\<Sum>x \<leftarrow> disks r. countIO x) + length (raid_ios r a z w))) \<and>
    ((\<exists>b. a \<le> b \<and> b < a + z \<and> 10000 \<le> snd (raid_place r b)) \<longrightarrow> raid_enqueue a z w r = Inl AssertionError) \<and>
    (capacity r < a + z \<and> chunkSize r dvd 10000 \<longrightarrow> raid_enqueue a z w r = Inl AssertionError)"
proof -
  have "raid_enqueue a z w r = Inl AssertionError" if "chunkSize r dvd 10000" "capacity r < a + z"
    using raid_enqueue_beyond [OF assms(1), of a "a + z - 1" z w] place_exceeds [OF assms(1) that(1), of "a + z - 1"] that(2) assms(2) by simp
  then show ?thesis using raid_enqueue_ok [OF assms] raid_enqueue_beyond [OF assms(1)] by blast
qed

text \<open>With chunks of 128 kB the block after the capacity is accepted.\<close>

theorem raid_cut_off_row:
  "\<exists>r r'. raid_init (128 * 1024) 4 0 False False False ''LS'' = Inr r \<and> raid_enqueue (capacity r) 1 False r = Inr r'"
proof -
  obtain r where r: "raid_init (128 * 1024) 4 0 False False False ''LS'' = Inr r" "chunkSize r = 32" "raidLevel r = 0" "numDisks r = 4"
    "raid_fine r"
    by (auto simp: raid_init_def BLOCKSIZE_def raid_fine_def raid_cols_def disk_fine_def disk_init_def)
  have c: "capacity r = 39936" using r by (simp add: capacity_def raid_cols_def)
  have "\<forall>e \<in> set (raid_ios r 39936 1 False). in_range e"
    using r by (auto simp: raid_ios_def at_places_def raid_place_def place0_def in_range_def touches_def)
  moreover have "\<forall>e \<in> set (raid_ios r 39936 1 False). \<exists>d off. touches e d off \<and> d < numDisks (announce 39936 1 False r)"
    using ios_touch [OF r(5), of 1 _ 39936 False] by (simp add: announce_fields) blast
  ultimately obtain r1 where r1: "rfold perform (raid_ios r 39936 1 False) (announce 39936 1 False r) = Inr r1" "raid_fine r1"
    using performs_ok [of "announce 39936 1 False r" "raid_ios r 39936 1 False"] r(5) announce_fine(1) [of 39936 1 False r]
    by (auto simp del: One_nat_def)
  then show ?thesis using raid_enqueue_ios [OF r(5), of 1 39936 False] blank_line_fine [OF r1(2)] r(1) c by auto
qed

definition reads_of :: "raid_event list \<Rightarrow> (nat \<times> nat) set" where
  "reads_of es = {(d, off). \<exists>nl. Phys_Read d off nl \<in> set es}"

definition writes_of :: "raid_event list \<Rightarrow> (nat \<times> nat) set" where
  "writes_of es = {(d, off). \<exists>nl. Phys_Write d off nl \<in> set es}"

lemma reads_writes_at:
  "reads_of (es @ fs) = reads_of es \<union> reads_of fs" "writes_of (es @ fs) = writes_of es \<union> writes_of fs"
  "reads_of (at_places Phys_Read loc nl vs) = loc ` set vs" "writes_of (at_places Phys_Read loc nl vs) = {}"
  "writes_of (at_places Phys_Write loc nl vs) = loc ` set vs" "reads_of (at_places Phys_Write loc nl vs) = {}"
  "reads_of (at_parity Phys_Write p offs) = {}" "writes_of (at_parity Phys_Read p offs) = {}"
  by (auto simp: reads_of_def writes_of_def mem_at_places image_iff dest!: mem_at_parity) (metis fst_conv snd_conv)+

lemma reads_writes_parity:
  "reads_of (at_parity Phys_Read p offs) = Pair p ` set offs" "writes_of (at_parity Phys_Write p offs) = Pair p ` set offs"
  using at_parity_mem [of _ offs Phys_Read p] at_parity_mem [of _ offs Phys_Write p]
  by (auto simp: reads_of_def writes_of_def dest!: mem_at_parity)

text \<open>
  C12. A partial stripe write on level 4 or 5 keeps the parity computable: it writes the data blocks of the request and the parity blocks
  at the same offsets, all after its reads, and for every parity block written it has read either all the other data blocks of that
  row (additive parity) or the old parity and the old contents of the blocks of the row it overwrites (subtractive parity).
\<close>

theorem raid_partial_write_parity:
  assumes "raid_fine r" "raidLevel r = 4 \<or> raidLevel r = 5" "printPhysical r"
    and "s * blocksInStripe r \<le> f" "f \<le> t" "t \<le> s * blocksInStripe r + blocksInStripe r"
    and cap: "s * blocksInStripe r + blocksInStripe r \<le> capacity r"
  shows "\<exists>r' rs ws. doPartialWrite s f t (fst (maps45 r)) (snd (maps45 r)) r = Inr r' \<and>
    printed r' = printed r @ rs @ ws \<and> writes_of rs = {} \<and> reads_of ws = {} \<and>
    writes_of ws = raid_place r ` {f..<t} \<union> (\<lambda>v. (raid_parity r s, snd (raid_place r v))) ` {f..<t} \<and>
    (\<forall>v \<in> {f..<t}. let row = {u. s * blocksInStripe r \<le> u \<and> u < s * blocksInStripe r + blocksInStripe r \<and> snd (raid_place r u) = snd (raid_place r v)} in
       raid_place r ` (row - {f..<t}) \<subseteq> reads_of rs \<or>
       insert (raid_parity r s, snd (raid_place r v)) (raid_place r ` (row \<inter> {f..<t})) \<subseteq> reads_of rs)"
proof -
  let ?B = "blocksInStripe r" and ?p = "raid_parity r s" and ?loc = "raid_place r"
  let ?rs = "partial_reads ?loc ?B ?p s f t" and ?ws = "partial_writes ?loc ?p f t"
  have ev: "doPartialWrite s f t (fst (maps45 r)) (snd (maps45 r)) r = rfold perform (?rs @ ?ws) r"
    using doPartialWrite_events [OF maps_located(1) [OF assms(1,2)], of "snd (maps45 r)" s ?p] maps_located(2) [OF assms(1,2) refl]
    by (simp add: partial_events_def)
  have T: "\<exists>d off. touches e d off \<and> d < numDisks r \<and> off < 10000" if e: "e \<in> set (?rs @ ?ws)" for e
  proof -
    obtain v where v: "v < s * ?B + ?B" "touches e (fst (?loc v)) (snd (?loc v)) \<or> touches e ?p (snd (?loc v))"
      using partial_touches [of e ?loc ?B ?p s f t] e assms(4-6) unfolding partial_events_def by blast
    have "snd (?loc v) < 10000" using v(1) cap by (intro place_fits [OF assms(1)]) simp
    then show ?thesis using v(2) place_disk [OF assms(1)] parity_disk [OF assms(1,2)] by blast
  qed
  have t: "\<forall>e \<in> set (?rs @ ?ws). \<exists>d off. touches e d off \<and> d < numDisks r" using T by blast
  have "\<forall>e \<in> set (?rs @ ?ws). in_range e" using T unfolding in_range_def by blast
  then obtain r' where run: "rfold perform (?rs @ ?ws) r = Inr r'" and pr: "printed r' = printed r @ ?rs @ ?ws"
    using performs_ok [OF assms(1) t] assms(3) by auto
  have offs: "set (offsets ?loc [f..<t] []) = (\<lambda>v. snd (?loc v)) ` {f..<t}" by (simp add: set_offsets)
  have w: "writes_of ?rs = {}" "reads_of ?ws = {}" "writes_of ?ws = ?loc ` {f..<t} \<union> (\<lambda>v. (?p, snd (?loc v))) ` {f..<t}"
    by (auto simp: partial_reads_def partial_writes_def reads_writes_at reads_writes_parity offs)
  have r: "raid_place r ` (row - {f..<t}) \<subseteq> reads_of ?rs \<or>
       insert (?p, snd (?loc v)) (?loc ` (row \<inter> {f..<t})) \<subseteq> reads_of ?rs"
    if v: "v \<in> {f..<t}" and row: "row = {u. s * ?B \<le> u \<and> u < s * ?B + ?B \<and> snd (?loc u) = snd (?loc v)}" for v row
  proof (cases "2 * (t - f) + 1 \<le> ?B")
    case True
    then have "reads_of ?rs = ?loc ` {f..<t} \<union> Pair ?p ` (\<lambda>v. snd (?loc v)) ` {f..<t}"
      by (simp add: partial_reads_def reads_writes_at reads_writes_parity offs)
    then show ?thesis using v by auto
  next
    case False
    then have "reads_of ?rs = ?loc ` {s * ?B..<f} \<union> ?loc ` {t..<s * ?B + ?B}"
      by (simp add: partial_reads_def reads_writes_at)
    moreover have "row - {f..<t} \<subseteq> {s * ?B..<f} \<union> {t..<s * ?B + ?B}" using row by auto
    ultimately show ?thesis by blast
  qed
  show ?thesis
    unfolding ev by (intro exI [of _ r'] exI [of _ ?rs] exI [of _ ?ws] conjI ballI run pr w) (unfold Let_def, rule r [OF _ refl])
qed

text \<open>
  The main program: whatever the draws, if its options are accepted and the requests they describe fit in the array, no request raises,
  and the completion time reported is at most the cost of a seek and a transfer for each physical operation.
\<close>

theorem raid_main_safe:
  assumes "raid_setup opt = Inr (sequential, z, r)" "0 < chunkSize r" "0 < r_numDisks opt" "0 < z" "\<forall>k \<in> set ds. valid_draw k"
    and "request_fits sequential (r_numRequests opt) z (r_range opt) (capacity r)"
  shows "case raid_main opt ds of
      Inl e \<Rightarrow> e = Out_Of_Draws
    | Inr (r', t) \<Rightarrow> raid_fine r' \<and> 0 \<le> t \<and> t \<le> 101 / 10 * of_nat (\<Sum>x \<leftarrow> disks r'. countIO x)"
proof -
  have fine: "raid_fine r" by (rule raid_setup_fine [OF assms(1-3)])
  have l: "case rfold (\<lambda>_. raid_request sequential z (r_range opt) (nat (r_writeFrac opt))) [0..<r_numRequests opt] (0, r, ds) of
      Inl e \<Rightarrow> e = Out_Of_Draws | Inr (_, r', _) \<Rightarrow> raid_fine r'"
    by (rule raid_loop_ok [OF fine assms(4,5) _ assms(6)]) simp
  have "0 \<le> raid_go r' \<and> raid_go r' \<le> 101 / 10 * of_nat (\<Sum>x \<leftarrow> disks r'. countIO x)" if "raid_fine r'" for r'
    using raid_go_bound [of "disks r'" 0 0] that by (simp add: raid_go_def raid_fine_def)
  then show ?thesis using l assms(1) unfolding raid_main_def by (auto split: sum.splits)
qed


section \<open>Witnesses\<close>

definition demo_raid :: raid where
  "demo_raid = \<lparr>chunkSize = 1, numDisks = 4, raidLevel = 5, timing = False, reverse_mode = False, solve = True,
     raid5type = ''LS'', blocksInStripe = 3, disks = replicate 4 disk_init, printPhysical = True, printed = []\<rparr>"

lemma demo_fine: "raid_fine demo_raid"
  by (simp add: demo_raid_def raid_fine_def raid_cols_def disk_fine_def disk_init_def)

lemma demo_fields: "raidLevel demo_raid = 5" "numDisks demo_raid = 4" "blocksInStripe demo_raid = 3" "capacity demo_raid = 30000"
  "chunkSize demo_raid = 1" "printPhysical demo_raid" "printed demo_raid = []"
  by (simp_all add: demo_raid_def capacity_def raid_cols_def)

theorem raid_layout_bijective_witness:
  "snd (maps45 demo_raid) demo_raid 7 = Inr 0 \<and> (\<forall>b. fst (maps45 demo_raid) demo_raid b \<noteq> Inr (0, 7))"
proof -
  have p: "snd (maps45 demo_raid) demo_raid 7 = Inr 0" by code_simp
  show ?thesis using raid_layout_bijective [OF demo_fine, of 0 7] p by (simp add: demo_fields)
qed

theorem raid_requests_as_operations_witness:
  "raid_enqueue 5 2 True demo_raid = rbind (rfold perform (raid_ios demo_raid 5 2 True) (announce 5 2 True demo_raid)) blank_line"
  by (rule raid_requests_as_operations [OF demo_fine]) simp

theorem raid_request_bounds_witness:
  "(\<exists>r'. raid_enqueue 5 2 True demo_raid = Inr r') \<and> raid_enqueue 29999 2 True demo_raid = Inl AssertionError"
  using raid_request_bounds [OF demo_fine, of 2 5 True] raid_request_bounds [OF demo_fine, of 2 29999 True] by (auto simp: demo_fields)

theorem raid_partial_write_parity_witness:
  "\<exists>r' rs ws. doPartialWrite 2 7 8 (fst (maps45 demo_raid)) (snd (maps45 demo_raid)) demo_raid = Inr r' \<and> printed r' = rs @ ws \<and>
    writes_of rs = {} \<and> reads_of ws = {} \<and> writes_of ws = {raid_place demo_raid 7, (raid_parity demo_raid 2, snd (raid_place demo_raid 7))}"
proof -
  have i: "{7..<8::nat} = {7}" by auto
  have c: "(5 :: nat) = 4 \<or> (5 :: nat) = 5" "2 * 3 \<le> (7 :: nat)" "7 \<le> (8 :: nat)" "8 \<le> 2 * 3 + (3 :: nat)" "2 * 3 + 3 \<le> (30000 :: nat)"
    by simp_all
  note R = raid_partial_write_parity [OF demo_fine, of 2 7 8, unfolded demo_fields i, OF c(1) demo_fields(6) c(2-5)]
  then obtain r' rs ws where "doPartialWrite 2 7 8 (fst (maps45 demo_raid)) (snd (maps45 demo_raid)) demo_raid = Inr r'"
    "printed r' = [] @ rs @ ws" "writes_of rs = {}" "reads_of ws = {}"
    "writes_of ws = raid_place demo_raid ` {7} \<union> (\<lambda>v. (raid_parity demo_raid 2, snd (raid_place demo_raid v))) ` {7}"
    by blast
  then show ?thesis by (intro exI conjI) auto
qed

theorem raid_main_safe_witness:
  "case raid_main raid_defaults [0, 2 ^ 52, 5] of
      Inl e \<Rightarrow> e = Out_Of_Draws
    | Inr (r', t) \<Rightarrow> raid_fine r' \<and> 0 \<le> t \<and> t \<le> 101 / 10 * of_nat (\<Sum>x \<leftarrow> disks r'. countIO x)"
proof -
  have four: "convert ''4k'' = Inr 4096" by code_simp
  obtain r where r: "raid_init 4096 4 0 False False False ''LS'' = Inr r" "chunkSize r = 1" "raidLevel r = 0" "numDisks r = 4"
    by (auto simp: raid_init_def BLOCKSIZE_def)
  have s: "raid_setup raid_defaults = Inr (False, 1, r)"
    using r(1) by (simp add: raid_setup_def raid_defaults_def four BLOCKSIZE_def)
  show ?thesis
    by (rule raid_main_safe [OF s]) (simp_all add: r(2-4) raid_defaults_def valid_draw_def request_fits_def capacity_def raid_cols_def)
qed

end
