(* ===== verification/Mlfq.thy ===== *)
theory Mlfq
  imports Complex_Main PyString
begin

text \<open>
  The multi-level feedback queue of \<open>cpu-sched-mlfq/mlfq.py\<close>: the options with their lists, the jobs, the main loop (boost,
  completed I/O, choice of the job, run of one tick, end of job, I/O, end of the time slice) and the final statistics. The
  loop runs with a fuel; it is shown that a sufficient fuel exists, and that no \<open>Abort\<close> and no \<open>assert\<close> can be reached.
\<close>

section \<open>Jobs, queues and events\<close>

record mjob =
  currPri :: nat
  ticksLeft :: int
  allotLeft :: int
  startTime :: int
  runTime :: int
  timeLeft :: int
  ioFreq :: int
  doingIO :: bool
  firstRun :: int
  endTime :: int

datatype io_type = JOB_BEGINS | IO_DONE

datatype mlfq_event =
    Boost int | Interrupt int io_type nat | Idle int | Run int nat nat int int int int | Finished int nat | IO_Start int nat

record mlfq_conf =
  quantum :: "int list"
  allotment :: "int list"
  numQueues :: nat
  ioTime :: int
  boost :: int
  stay :: bool
  iobump :: bool

record mlfq =
  queue :: "nat list list"
  job :: "mjob list"
  ioDone :: "(int, (nat \<times> io_type) list) dict"
  currTime :: int
  finishedJobs :: nat
  trace :: "mlfq_event list"

definition hiQueue :: "mlfq_conf \<Rightarrow> nat" where
  "hiQueue cf = numQueues cf - 1"

definition events_at :: "int \<Rightarrow> (int, (nat \<times> io_type) list) dict \<Rightarrow> (nat \<times> io_type) list" where
  "events_at t d = (case map_of d t of None \<Rightarrow> [] | Some es \<Rightarrow> es)"

definition add_event :: "int \<Rightarrow> nat \<times> io_type \<Rightarrow> (int, (nat \<times> io_type) list) dict \<Rightarrow> (int, (nat \<times> io_type) list) dict" where
  "add_event t e d = dict_set t (events_at t d @ [e]) d"

primrec find_from :: "nat \<Rightarrow> nat list list \<Rightarrow> nat option" where
  "find_from 0 qs = (if qs ! 0 \<noteq> [] then Some 0 else None)"
| "find_from (Suc q) qs = (if qs ! Suc q \<noteq> [] then Some (Suc q) else find_from q qs)"

text \<open>\<open>-1\<close> of the code is \<open>None\<close>.\<close>

definition FindQueue :: "mlfq_conf \<Rightarrow> nat list list \<Rightarrow> nat option" where
  "FindQueue cf qs = find_from (hiQueue cf) qs"

section \<open>The main loop\<close>

definition upd_job :: "nat \<Rightarrow> (mjob \<Rightarrow> mjob) \<Rightarrow> mlfq \<Rightarrow> mlfq" where
  "upd_job j f s = s\<lparr>job := (job s)[j := f (job s ! j)]\<rparr>"

definition upd_queue :: "nat \<Rightarrow> (nat list \<Rightarrow> nat list) \<Rightarrow> mlfq \<Rightarrow> mlfq" where
  "upd_queue q f s = s\<lparr>queue := (queue s)[q := f (queue s ! q)]\<rparr>"

definition note_event :: "mlfq_event \<Rightarrow> mlfq \<Rightarrow> mlfq" where
  "note_event e s = s\<lparr>trace := trace s @ [e]\<rparr>"

definition reset_job :: "mlfq_conf \<Rightarrow> mjob \<Rightarrow> mjob" where
  "reset_job cf x =
     (if timeLeft x > 0 then x\<lparr>currPri := hiQueue cf, ticksLeft := quantum cf ! hiQueue cf, allotLeft := allotment cf ! hiQueue cf\<rparr> else x)"

definition boost_step :: "mlfq_conf \<Rightarrow> mlfq \<Rightarrow> mlfq" where
  "boost_step cf s =
     (if boost cf > 0 \<and> currTime s \<noteq> 0 \<and> currTime s mod boost cf = 0 then
        let s1 = note_event (Boost (currTime s)) s;
            s2 = foldl (\<lambda>s q. upd_queue q (\<lambda>_. []) (upd_queue (hiQueue cf) (\<lambda>hi. hi @ filter (\<lambda>j. \<not> doingIO (job s ! j)) (queue s ! q)) s))
                   s1 [0..<hiQueue cf]
        in s2\<lparr>job := map (reset_job cf) (job s2)\<rparr>
      else s)"

definition deliver :: "mlfq_conf \<Rightarrow> mlfq \<Rightarrow> nat \<times> io_type \<Rightarrow> mlfq" where
  "deliver cf s e =
     (let (j, ty) = e; q = currPri (job s ! j) in
      upd_queue q (\<lambda>js. if \<not> iobump cf \<or> ty = JOB_BEGINS then js @ [j] else j # js)
        (note_event (Interrupt (currTime s) ty j) (upd_job j (\<lambda>x. x\<lparr>doingIO := False\<rparr>) s)))"

definition deliver_all :: "mlfq_conf \<Rightarrow> mlfq \<Rightarrow> mlfq" where
  "deliver_all cf s = foldl (deliver cf) s (events_at (currTime s) (ioDone s))"

text \<open>\<open>pop(0)\<close> of a queue followed by the \<open>assert\<close> that it gave the current job.\<close>

definition pop_current :: "nat \<Rightarrow> nat \<Rightarrow> mlfq \<Rightarrow> mlfq res" where
  "pop_current q j s = (case queue s ! q of [] \<Rightarrow> Inl IndexError | x # xs \<Rightarrow> rbind (py_assert (x = j)) (\<lambda>_. Inr (upd_queue q (\<lambda>_. xs) s)))"

definition issue_io :: "mlfq_conf \<Rightarrow> nat \<Rightarrow> nat \<Rightarrow> mlfq \<Rightarrow> mlfq res" where
  "issue_io cf q j s =
     rbind (pop_current q j (note_event (IO_Start (currTime s) j) s)) (\<lambda>s1.
     let s2 = upd_job j (\<lambda>x. x\<lparr>doingIO := True\<rparr>) s1;
         s3 = (if stay cf then upd_job j (\<lambda>x. x\<lparr>ticksLeft := quantum cf ! q, allotLeft := allotment cf ! q\<rparr>) s2 else s2)
     in Inr (s3\<lparr>ioDone := add_event (currTime s3 + ioTime cf) (j, IO_DONE) (ioDone s3)\<rparr>))"

definition end_of_slice :: "mlfq_conf \<Rightarrow> nat \<Rightarrow> nat \<Rightarrow> bool \<Rightarrow> mlfq \<Rightarrow> mlfq res" where
  "end_of_slice cf q j issued s =
     rbind (if issued then Inr s else pop_current q j s) (\<lambda>s1.
     let s2 = upd_job j (\<lambda>x. x\<lparr>allotLeft := allotLeft x - 1\<rparr>) s1 in
     if allotLeft (job s2 ! j) = 0 then
       (if q > 0 then
          let s3 = upd_job j (\<lambda>x. x\<lparr>currPri := q - 1, ticksLeft := quantum cf ! (q - 1), allotLeft := allotment cf ! (q - 1)\<rparr>) s2
          in Inr (if issued then s3 else upd_queue (q - 1) (\<lambda>js. js @ [j]) s3)
        else
          let s3 = upd_job j (\<lambda>x. x\<lparr>ticksLeft := quantum cf ! q, allotLeft := allotment cf ! q\<rparr>) s2
          in Inr (if issued then s3 else upd_queue q (\<lambda>js. js @ [j]) s3))
     else
       let s3 = upd_job j (\<lambda>x. x\<lparr>ticksLeft := quantum cf ! q\<rparr>) s2
       in Inr (if issued then s3 else upd_queue q (\<lambda>js. js @ [j]) s3))"

definition run_job :: "mlfq_conf \<Rightarrow> nat \<Rightarrow> nat \<Rightarrow> mlfq \<Rightarrow> mlfq res" where
  "run_job cf q j s =
     (if currPri (job s ! j) \<noteq> q then Inl (SystemExit 1)
      else
        let s1 = upd_job j (\<lambda>x. x\<lparr>timeLeft := timeLeft x - 1, ticksLeft := ticksLeft x - 1,
                   firstRun := if firstRun x = - 1 then currTime s else firstRun x\<rparr>) s;
            x = job s1 ! j;
            s2 = note_event (Run (currTime s1) j q (ticksLeft x) (allotLeft x) (timeLeft x) (runTime x)) s1
        in
        if timeLeft x < 0 then Inl (SystemExit 1)
        else
          let s3 = s2\<lparr>currTime := currTime s2 + 1\<rparr> in
          if timeLeft x = 0 then
            let s4 = upd_job j (\<lambda>x. x\<lparr>endTime := currTime s3\<rparr>)
                       (note_event (Finished (currTime s3) j) (s3\<lparr>finishedJobs := finishedJobs s3 + 1\<rparr>))
            in pop_current q j s4
          else
            let issued = (ioFreq x > 0 \<and> (runTime x - timeLeft x) mod ioFreq x = 0) in
            rbind (if issued then issue_io cf q j s3 else Inr s3) (\<lambda>s4.
            if ticksLeft x = 0 then end_of_slice cf q j issued s4 else Inr s4))"

definition mlfq_step :: "mlfq_conf \<Rightarrow> mlfq \<Rightarrow> mlfq res" where
  "mlfq_step cf s =
     (let s1 = deliver_all cf (boost_step cf s) in
      case FindQueue cf (queue s1) of
        None \<Rightarrow> Inr ((note_event (Idle (currTime s1)) s1)\<lparr>currTime := currTime s1 + 1\<rparr>)
      | Some q \<Rightarrow> run_job cf q (hd (queue s1 ! q)) s1)"

fun mlfq_loop :: "nat \<Rightarrow> mlfq_conf \<Rightarrow> mlfq \<Rightarrow> mlfq res" where
  "mlfq_loop fuel cf s =
     (if finishedJobs s < length (job s) then
        case fuel of 0 \<Rightarrow> Inl Out_Of_Fuel | Suc n \<Rightarrow> rbind (mlfq_step cf s) (mlfq_loop n cf)
      else Inr s)"

section \<open>Options and jobs\<close>

record mlfq_options =
  m_numQueues :: nat
  m_quantum :: int
  m_allotment :: int
  m_quantumList :: string
  m_allotmentList :: string
  m_numJobs :: nat
  m_maxlen :: int
  m_maxio :: int
  m_boost :: int
  m_ioTime :: int
  m_stay :: bool
  m_iobump :: bool
  m_jlist :: string
  m_solve :: bool

definition mlfq_defaults :: mlfq_options where
  "mlfq_defaults = \<lparr>m_numQueues = 3, m_quantum = 10, m_allotment = 1, m_quantumList = [], m_allotmentList = [], m_numJobs = 3,
     m_maxlen = 100, m_maxio = 10, m_boost = 0, m_ioTime = 5, m_stay = False, m_iobump = False, m_jlist = [], m_solve = False\<rparr>"

definition parse_ints :: "string list \<Rightarrow> int list res" where
  "parse_ints ws = rfold (\<lambda>w xs. rbind (py_int w) (\<lambda>n. Inr (xs @ [n]))) ws []"

text \<open>The lists are given from the highest queue down.\<close>

definition mlfq_config :: "mlfq_options \<Rightarrow> mlfq_conf res" where
  "mlfq_config opt =
     rbind (if m_quantumList opt \<noteq> [] then parse_ints (py_split CHR '','' (m_quantumList opt))
            else Inr (replicate (m_numQueues opt) (m_quantum opt))) (\<lambda>qs.
     let nq = length qs; ws = py_split CHR '','' (m_allotmentList opt) in
     rbind (if m_allotmentList opt \<noteq> [] then
              if nq \<noteq> length ws then Inl (SystemExit 1)
              else rfold (\<lambda>w xs. rbind (py_int w) (\<lambda>n.
                     if length xs + 1 \<noteq> nq \<and> n \<le> 0 then Inl (SystemExit 1) else Inr (xs @ [n]))) ws []
            else Inr (replicate nq (m_allotment opt))) (\<lambda>al.
     Inr \<lparr>quantum = (if m_quantumList opt \<noteq> [] then rev qs else qs),
          allotment = (if m_allotmentList opt \<noteq> [] then rev al else al), numQueues = nq,
          ioTime = m_ioTime opt, boost = m_boost opt, stay = m_stay opt, iobump = m_iobump opt\<rparr>))"

text \<open>A new job starts in the highest queue; with no queue at all the lookup of its quantum fails.\<close>

definition new_job :: "mlfq_conf \<Rightarrow> int \<Rightarrow> int \<Rightarrow> int \<Rightarrow> mlfq \<Rightarrow> mlfq res" where
  "new_job cf st rt freq s =
     (if numQueues cf = 0 then Inl KeyError
      else Inr (s\<lparr>job := job s @ [\<lparr>currPri = hiQueue cf, ticksLeft = quantum cf ! hiQueue cf, allotLeft = allotment cf ! hiQueue cf,
                    startTime = st, runTime = rt, timeLeft = rt, ioFreq = freq, doingIO = False, firstRun = - 1, endTime = - 1\<rparr>],
                  ioDone := add_event st (length (job s), JOB_BEGINS) (ioDone s)\<rparr>))"

definition parse_job :: "mlfq_conf \<Rightarrow> string \<Rightarrow> mlfq \<Rightarrow> mlfq res" where
  "parse_job cf w s =
     (case py_split CHR '','' w of
        [a, b, c] \<Rightarrow> rbind (py_int a) (\<lambda>st. rbind (py_int b) (\<lambda>rt. rbind (py_int c) (\<lambda>freq. new_job cf st rt freq s)))
      | _ \<Rightarrow> Inl (SystemExit 1))"

text \<open>\<open>int(random.random() * (m - 1) + 1)\<close>.\<close>

definition draw_length :: "int \<Rightarrow> draw \<Rightarrow> int" where
  "draw_length m k = trunc_div (int k * (m - 1) + 2 ^ 53) (2 ^ 53)"

definition random_job :: "mlfq_conf \<Rightarrow> int \<Rightarrow> int \<Rightarrow> mlfq \<times> draw list \<Rightarrow> (mlfq \<times> draw list) res" where
  "random_job cf maxlen maxio st =
     (let (s, ds) = st in
      rbind (next_draw ds) (\<lambda>(k1, ds1). rbind (next_draw ds1) (\<lambda>(k2, ds2).
      rbind (new_job cf 0 (draw_length maxlen k1) (draw_length maxio k2) s) (\<lambda>s. Inr (s, ds2)))))"

definition empty_mlfq :: "mlfq_conf \<Rightarrow> mlfq" where
  "empty_mlfq cf = \<lparr>queue = replicate (numQueues cf) [], job = [], ioDone = [], currTime = 0, finishedJobs = 0, trace = []\<rparr>"

definition mlfq_jobs :: "mlfq_options \<Rightarrow> mlfq_conf \<Rightarrow> draw list \<Rightarrow> mlfq res" where
  "mlfq_jobs opt cf ds =
     (if m_jlist opt \<noteq> [] then rfold (parse_job cf) (py_split CHR '':'' (m_jlist opt)) (empty_mlfq cf)
      else rbind (rfold (\<lambda>_. random_job cf (m_maxlen opt) (m_maxio opt)) [0..<m_numJobs opt] (empty_mlfq cf, ds)) (\<lambda>(s, _). Inr s))"

text \<open>Response and turnaround of each job, and their averages.\<close>

definition job_times :: "mjob \<Rightarrow> int \<times> int" where
  "job_times x = (firstRun x - startTime x, endTime x - startTime x)"

definition mlfq_stats :: "mlfq \<Rightarrow> ((int \<times> int) list \<times> rat \<times> rat) res" where
  "mlfq_stats s =
     (let ts = map job_times (job s); n = length (job s) in
      if n = 0 then Inl ZeroDivisionError
      else Inr (ts, of_int (sum_list (map fst ts)) / of_nat n, of_int (sum_list (map snd ts)) / of_nat n))"

definition mlfq_main :: "nat \<Rightarrow> mlfq_options \<Rightarrow> draw list \<Rightarrow> (mlfq_event list \<times> (int \<times> int) list \<times> rat \<times> rat) res" where
  "mlfq_main fuel opt ds =
     rbind (mlfq_config opt) (\<lambda>cf.
     rbind (mlfq_jobs opt cf ds) (\<lambda>s.
     if \<not> m_solve opt then Inl (SystemExit 0)
     else rbind (mlfq_loop fuel cf s) (\<lambda>s'. rbind (mlfq_stats s') (\<lambda>st. Inr (trace s', st)))))"


section \<open>Where a job is\<close>

definition pending :: "int \<Rightarrow> (int, (nat \<times> io_type) list) dict \<Rightarrow> nat multiset" where
  "pending t d = mset (map fst (concat (map snd (filter (\<lambda>(u, _). t \<le> u) d))))"

definition queued :: "mlfq \<Rightarrow> nat multiset" where
  "queued s = mset (concat (queue s))"

definition unfinished :: "mjob list \<Rightarrow> nat multiset" where
  "unfinished js = mset (filter (\<lambda>j. 0 < timeLeft (js ! j)) [0..<length js])"

lemma count_unfinished: "count (unfinished js) j = (if j < length js \<and> 0 < timeLeft (js ! j) then 1 else 0)"
proof -
  have "count (mset (filter P [0..<n])) j = (if j < n \<and> P j then 1 else 0)" for P n
    by (induction n) (auto simp: less_Suc_eq)
  then show ?thesis by (simp add: unfinished_def)
qed

lemma unfinished_same:
  assumes "length ks = length js" "\<And>j. j < length js \<Longrightarrow> 0 < timeLeft (ks ! j) \<longleftrightarrow> 0 < timeLeft (js ! j)"
  shows "unfinished ks = unfinished js"
  using assms by (intro multiset_eqI) (auto simp: count_unfinished)

lemma unfinished_done:
  assumes "j < length js" "0 < timeLeft (js ! j)" "\<not> 0 < timeLeft x"
  shows "unfinished js = add_mset j (unfinished (js[j := x]))"
  using assms by (intro multiset_eqI) (auto simp: count_unfinished nth_list_update)

lemma queued_update:
  assumes "q < length qs"
  shows "mset (concat (qs[q := xs])) + mset (qs ! q) = mset (concat qs) + mset xs"
  using assms
proof (induction qs arbitrary: q)
  case (Cons y ys)
  then show ?case by (cases q) (simp_all add: ac_simps)
qed simp

lemma in_queued: "j \<in># queued s \<longleftrightarrow> (\<exists>q < length (queue s). j \<in> set (queue s ! q))"
  by (auto simp: queued_def in_set_conv_nth) (metis nth_mem)+

lemma pending_other: "t \<notin> fst ` set d \<Longrightarrow> dict_set t es d = d @ [(t, es)]"
  by (rule dict_set_fresh) (simp add: dict_keys_def)

lemma pending_add:
  assumes "distinct (map fst d)" "t0 \<le> t"
  shows "pending t0 (add_event t e d) = add_mset (fst e) (pending t0 d)"
proof -
  have g: "distinct (map fst d) \<Longrightarrow> pending t0 (dict_set t (events_at t d' @ [e]) d) = add_mset (fst e) (pending t0 d)"
    if "events_at t d' = events_at t d" for d'
    using that
  proof (induction d arbitrary: d')
    case (Cons p d)
    obtain u es where p: "p = (u, es)" by (cases p)
    show ?case
    proof (cases "u = t")
      case True
      then have "events_at t d' = es" using Cons.prems(2) p by (simp add: events_at_def)
      then show ?thesis using True p assms(2) by (simp add: pending_def)
    next
      case False
      then have "events_at t d' = events_at t d" using Cons.prems(2) p by (simp add: events_at_def)
      then show ?thesis using Cons.IH [of d'] Cons.prems(1) False p by (simp add: pending_def)
    qed
  qed (use assms(2) in \<open>simp add: pending_def events_at_def\<close>)
  show ?thesis unfolding add_event_def by (rule g [OF refl assms(1)])
qed

lemma pending_advance: "distinct (map fst d) \<Longrightarrow> pending t d = mset (map fst (events_at t d)) + pending (t + 1) d"
proof (induction d)
  case (Cons p d)
  obtain u es where p: "p = (u, es)" by (cases p)
  show ?case
  proof (cases "u = t")
    case True
    then have "map_of d t = None" using Cons.prems p by (simp add: map_of_eq_None_iff)
    then have "events_at t d = []" by (simp add: events_at_def)
    then show ?thesis using Cons True p by (simp add: pending_def events_at_def)
  next
    case False
    then have "t \<le> u \<longleftrightarrow> t + 1 \<le> u" "events_at t (p # d) = events_at t d" using p by (auto simp: events_at_def)
    then show ?thesis using Cons p by (simp add: pending_def)
  qed
qed (simp add: pending_def events_at_def)

lemma add_event_keys: "distinct (map fst d) \<Longrightarrow> distinct (map fst (add_event t e d))"
  by (simp add: add_event_def)

lemma pending_mem: "j \<in># pending t d \<Longrightarrow> \<exists>u es ty. (u, es) \<in> set d \<and> t \<le> u \<and> (j, ty) \<in> set es"
  by (force simp: pending_def)

lemma events_at_mem: "x \<in> set (events_at t d) \<Longrightarrow> \<exists>es. (t, es) \<in> set d \<and> x \<in> set es"
  by (cases "map_of d t") (auto simp: events_at_def dest: map_of_SomeD)

lemma add_event_mem:
  assumes "(u, es) \<in> set (add_event t e d)" "x \<in> set es"
  shows "x = e \<and> u = t \<or> (\<exists>es'. (u, es') \<in> set d \<and> x \<in> set es')"
proof -
  have "set (dict_set t v d) \<subseteq> insert (t, v) (set d)" for v by (induction d) (auto split: if_splits)
  then have "(u, es) = (t, events_at t d @ [e]) \<or> (u, es) \<in> set d" using assms(1) unfolding add_event_def by blast
  then show ?thesis using assms(2) events_at_mem [of x t d] by auto
qed

lemma filter_update_count:
  assumes "j < length xs"
  shows "length (filter P (xs[j := y])) + (if P (xs ! j) then 1 else 0) = length (filter P xs) + (if P y then 1 else 0)"
  using assms
proof (induction xs arbitrary: j)
  case (Cons x xs)
  then show ?case by (cases j) auto
qed simp

section \<open>The invariant\<close>

definition job_ok :: "mlfq_conf \<Rightarrow> int \<Rightarrow> mjob \<Rightarrow> bool" where
  "job_ok cf t x \<longleftrightarrow> currPri x \<le> hiQueue cf \<and> 0 \<le> startTime x \<and> 0 < runTime x \<and> 0 \<le> timeLeft x \<and> timeLeft x \<le> runTime x \<and>
     (timeLeft x < runTime x \<longrightarrow> startTime x + (runTime x - timeLeft x) \<le> t \<and> startTime x \<le> firstRun x) \<and>
     (timeLeft x = runTime x \<longrightarrow> firstRun x = - 1) \<and> (timeLeft x = 0 \<longrightarrow> startTime x + runTime x \<le> endTime x)"

primrec is_run :: "nat \<Rightarrow> mlfq_event \<Rightarrow> bool" where
  "is_run j (Boost t) = False"
| "is_run j (Interrupt t ty i) = False"
| "is_run j (Idle t) = False"
| "is_run j (Run t i q a b c d) = (i = j)"
| "is_run j (Finished t i) = False"
| "is_run j (IO_Start t i) = False"

definition ticks :: "nat \<Rightarrow> mlfq \<Rightarrow> nat" where
  "ticks j s = length (filter (is_run j) (trace s))"

definition base_inv :: "mlfq_conf \<Rightarrow> mlfq \<Rightarrow> bool" where
  "base_inv cf s \<longleftrightarrow> length (queue s) = numQueues cf \<and> distinct (map fst (ioDone s)) \<and>
     (\<forall>j < length (job s). job_ok cf (currTime s) (job s ! j) \<and> int (ticks j s) = runTime (job s ! j) - timeLeft (job s ! j)) \<and>
     (\<forall>q < length (queue s). \<forall>j \<in> set (queue s ! q).
        currPri (job s ! j) = q \<and> \<not> doingIO (job s ! j) \<and> startTime (job s ! j) \<le> currTime s) \<and>
     (\<forall>(t, es) \<in> set (ioDone s). \<forall>(j, ty) \<in> set es. j < length (job s) \<and> startTime (job s ! j) \<le> t) \<and>
     finishedJobs s = length (filter (\<lambda>x. timeLeft x = 0) (job s))"

text \<open>Every unfinished job is in exactly one place: a queue or an event from time \<open>t\<close> on.\<close>

definition mlfq_inv :: "mlfq_conf \<Rightarrow> int \<Rightarrow> mlfq \<Rightarrow> bool" where
  "mlfq_inv cf t s \<longleftrightarrow> base_inv cf s \<and> queued s + pending t (ioDone s) = unfinished (job s)"

definition conf_ok :: "mlfq_conf \<Rightarrow> bool" where
  "conf_ok cf \<longleftrightarrow> 0 < numQueues cf \<and> 0 \<le> ioTime cf"

lemma in_place:
  assumes "queued s + M = unfinished (job s)" "q < length (queue s)" "j \<in> set (queue s ! q)"
  shows "j < length (job s)" "0 < timeLeft (job s ! j)"
proof -
  have "j \<in># queued s" using assms(2,3) by (auto simp: in_queued)
  then have "j \<in># unfinished (job s)" using assms(1) by (metis union_iff)
  then have "count (unfinished (job s)) j \<noteq> 0" by simp
  then show "j < length (job s)" "0 < timeLeft (job s ! j)" by (simp_all add: count_unfinished split: if_splits)
qed

lemma once:
  assumes "add_mset j M = unfinished js"
  shows "j \<notin># M" "j < length js" "0 < timeLeft (js ! j)"
proof -
  have "Suc (count M j) = count (unfinished js) j" using assms by (metis count_add_mset)
  then show "j \<notin># M" "j < length js" "0 < timeLeft (js ! j)"
    by (auto simp: count_unfinished count_eq_zero_iff [symmetric] split: if_splits)
qed


section \<open>Boosting and delivering\<close>

definition fixed_data :: "mlfq \<Rightarrow> (int \<times> int) list" where
  "fixed_data s = map (\<lambda>x. (startTime x, runTime x)) (job s)"

lemma base_invD:
  assumes "base_inv cf s"
  shows "length (queue s) = numQueues cf" "distinct (map fst (ioDone s))"
    and "\<And>j. j < length (job s) \<Longrightarrow> job_ok cf (currTime s) (job s ! j)"
    and "\<And>j. j < length (job s) \<Longrightarrow> int (ticks j s) = runTime (job s ! j) - timeLeft (job s ! j)"
    and "\<And>q j. q < numQueues cf \<Longrightarrow> j \<in> set (queue s ! q) \<Longrightarrow>
        currPri (job s ! j) = q \<and> \<not> doingIO (job s ! j) \<and> startTime (job s ! j) \<le> currTime s"
    and "\<And>t es j ty. (t, es) \<in> set (ioDone s) \<Longrightarrow> (j, ty) \<in> set es \<Longrightarrow> j < length (job s) \<and> startTime (job s ! j) \<le> t"
    and "finishedJobs s = length (filter (\<lambda>x. timeLeft x = 0) (job s))"
  using assms unfolding base_inv_def by auto

lemma ticks_note: "ticks j (note_event e s) = ticks j s + (if is_run j e then 1 else 0)"
  by (simp add: ticks_def note_event_def)

lemma boost_loop:
  assumes "hi < length (queue s)" "\<And>q j. q < hi \<Longrightarrow> j \<in> set (queue s ! q) \<Longrightarrow> \<not> doingIO (job s ! j)" "k \<le> hi"
  defines "f \<equiv> \<lambda>s q. upd_queue q (\<lambda>_. []) (upd_queue hi (\<lambda>h. h @ filter (\<lambda>j. \<not> doingIO (job s ! j)) (queue s ! q)) s)"
  shows "\<exists>qs. foldl f s [0..<k] = s\<lparr>queue := qs\<rparr> \<and> length qs = length (queue s) \<and> mset (concat qs) = mset (concat (queue s)) \<and>
    (\<forall>q < k. qs ! q = []) \<and> (\<forall>q. k \<le> q \<longrightarrow> q \<noteq> hi \<longrightarrow> qs ! q = queue s ! q) \<and> set (qs ! hi) \<subseteq> set_mset (queued s)"
  using assms(3)
proof (induction k)
  case 0
  have "set (queue s ! hi) \<subseteq> set_mset (queued s)" using assms(1) by (force simp: in_queued)
  then show ?case by (intro exI [of _ "queue s"]) simp
next
  case (Suc k)
  then obtain qs where qs: "foldl f s [0..<k] = s\<lparr>queue := qs\<rparr>" "length qs = length (queue s)" "mset (concat qs) = mset (concat (queue s))"
    "\<forall>q < k. qs ! q = []" "\<forall>q. k \<le> q \<longrightarrow> q \<noteq> hi \<longrightarrow> qs ! q = queue s ! q" "set (qs ! hi) \<subseteq> set_mset (queued s)" by auto
  have k: "k < hi" "k < length qs" "hi < length qs" "qs ! k = queue s ! k" using Suc.prems qs(2,5) assms(1) by auto
  have all: "filter (\<lambda>j. \<not> doingIO (job s ! j)) (queue s ! k) = queue s ! k" using assms(2) k(1) by (simp add: filter_id_conv)
  let ?qs = "qs[hi := qs ! hi @ queue s ! k, k := []]"
  have st: "foldl f s [0..<Suc k] = s\<lparr>queue := ?qs\<rparr>"
    using qs(1) k all by (simp add: f_def upd_queue_def)
  have "mset (concat ?qs) + mset (qs ! k) = mset (concat (qs[hi := qs ! hi @ queue s ! k]))"
    using queued_update [of k "qs[hi := qs ! hi @ queue s ! k]" "[]"] k by simp
  moreover have "mset (concat (qs[hi := qs ! hi @ queue s ! k])) = mset (concat qs) + mset (queue s ! k)"
    using queued_update [OF k(3), of "qs ! hi @ queue s ! k"] by (simp add: ac_simps)
  ultimately have "mset (concat ?qs) = mset (concat (queue s))" using k(4) qs(3) by simp
  moreover have "set (queue s ! k) \<subseteq> set_mset (queued s)" using k(1) assms(1) by (auto simp: in_queued intro!: exI [of _ k])
  ultimately show ?case using st qs k by (intro exI [of _ ?qs]) (auto simp: less_Suc_eq nth_list_update)
qed

lemma boost_inv:
  assumes inv: "mlfq_inv cf t s" and cf: "conf_ok cf"
  shows "mlfq_inv cf t (boost_step cf s) \<and> currTime (boost_step cf s) = currTime s \<and> ioDone (boost_step cf s) = ioDone s \<and>
    map timeLeft (job (boost_step cf s)) = map timeLeft (job s) \<and> fixed_data (boost_step cf s) = fixed_data s"
proof (cases "boost cf > 0 \<and> currTime s \<noteq> 0 \<and> currTime s mod boost cf = 0")
  case True
  have base: "base_inv cf s" and tok: "queued s + pending t (ioDone s) = unfinished (job s)" using inv by (simp_all add: mlfq_inv_def)
  note B = base_invD [OF base]
  let ?hi = "hiQueue cf" and ?s1 = "note_event (Boost (currTime s)) s"
  have hi: "?hi < length (queue ?s1)" using B(1) cf by (simp add: conf_ok_def hiQueue_def note_event_def)
  have io: "\<not> doingIO (job ?s1 ! j)" if "q < ?hi" "j \<in> set (queue ?s1 ! q)" for q j
    using B(5) [of q j] that hi B(1) by (simp add: note_event_def)
  let ?f = "\<lambda>s q. upd_queue q (\<lambda>_. []) (upd_queue ?hi (\<lambda>h. h @ filter (\<lambda>j. \<not> doingIO (job s ! j)) (queue s ! q)) s)"
  have "\<exists>qs. foldl ?f ?s1 [0..<?hi] = ?s1\<lparr>queue := qs\<rparr> \<and> length qs = length (queue ?s1) \<and> mset (concat qs) = mset (concat (queue ?s1)) \<and>
    (\<forall>q < ?hi. qs ! q = []) \<and> (\<forall>q. ?hi \<le> q \<longrightarrow> q \<noteq> ?hi \<longrightarrow> qs ! q = queue ?s1 ! q) \<and> set (qs ! ?hi) \<subseteq> set_mset (queued ?s1)"
    by (rule boost_loop [OF hi _ le_refl]) (rule io)
  then obtain qs where qs: "foldl (\<lambda>s q. upd_queue q (\<lambda>_. []) (upd_queue ?hi (\<lambda>h. h @ filter (\<lambda>j. \<not> doingIO (job s ! j)) (queue s ! q)) s)) ?s1 [0..<?hi]
      = ?s1\<lparr>queue := qs\<rparr>"
    "length qs = length (queue s)" "mset (concat qs) = mset (concat (queue s))" "\<forall>q < ?hi. qs ! q = []" "set (qs ! ?hi) \<subseteq> set_mset (queued s)"
    by (auto simp: note_event_def queued_def)
  define s' where "s' = ?s1\<lparr>queue := qs, job := map (reset_job cf) (job s)\<rparr>"
  have st: "boost_step cf s = s'"
    using True qs(1) by (simp add: boost_step_def s'_def Let_def note_event_def)
  have tl: "timeLeft (reset_job cf x) = timeLeft x" "runTime (reset_job cf x) = runTime x" "startTime (reset_job cf x) = startTime x"
    "doingIO (reset_job cf x) = doingIO x" for x by (simp_all add: reset_job_def)
  have jok: "job_ok cf u (reset_job cf x)" if "job_ok cf u x" for u x
    using that by (auto simp: job_ok_def reset_job_def)
  have tk: "ticks j s' = ticks j s" for j by (simp add: s'_def ticks_def note_event_def)
  have un: "unfinished (job s') = unfinished (job s)"
    by (rule unfinished_same) (simp_all add: s'_def tl)
  have q': "currPri (job s' ! j) = q \<and> \<not> doingIO (job s' ! j) \<and> startTime (job s' ! j) \<le> currTime s'"
    if q: "q < numQueues cf" "j \<in> set (queue s' ! q)" for q j
  proof -
    have eq: "q = ?hi" using qs(4) q by (cases "q = ?hi") (auto simp: s'_def hiQueue_def)
    then have "j \<in># queued s" using q(2) qs(5) by (auto simp: s'_def)
    then obtain p where p: "p < length (queue s)" "j \<in> set (queue s ! p)" by (auto simp: in_queued)
    have j: "j < length (job s)" "0 < timeLeft (job s ! j)" by (rule in_place [OF tok p])+
    show ?thesis using B(5) [of p j] p B(1) j eq by (simp add: s'_def tl) (simp add: reset_job_def note_event_def)
  qed
  have "base_inv cf s'"
    unfolding base_inv_def
  proof (intro conjI)
    show "length (queue s') = numQueues cf" using qs(2) B(1) by (simp add: s'_def)
    show "distinct (map fst (ioDone s'))" using B(2) by (simp add: s'_def note_event_def)
    show "\<forall>j<length (job s'). job_ok cf (currTime s') (job s' ! j) \<and> int (ticks j s') = runTime (job s' ! j) - timeLeft (job s' ! j)"
      using B(3,4) tk jok by (simp add: s'_def tl note_event_def)
    show "\<forall>q<length (queue s'). \<forall>j\<in>set (queue s' ! q). currPri (job s' ! j) = q \<and> \<not> doingIO (job s' ! j) \<and> startTime (job s' ! j) \<le> currTime s'"
      using q' qs(2) B(1) by (simp add: s'_def)
    show "\<forall>(t, es)\<in>set (ioDone s'). \<forall>(j, ty)\<in>set es. j < length (job s') \<and> startTime (job s' ! j) \<le> t"
      using B(6) by (fastforce simp: s'_def tl note_event_def)
    show "finishedJobs s' = length (filter (\<lambda>x. timeLeft x = 0) (job s'))"
      using B(7) by (simp add: s'_def note_event_def filter_map o_def tl)
  qed
  then show ?thesis using st tok un qs(3) unfolding mlfq_inv_def
    by (simp add: s'_def queued_def note_event_def o_def tl fixed_data_def)
next
  case False
  show ?thesis using inv unfolding boost_step_def if_not_P [OF False] by simp
qed


lemma base_invI:
  assumes "length (queue s) = numQueues cf" "distinct (map fst (ioDone s))"
    and "\<And>j. j < length (job s) \<Longrightarrow> job_ok cf (currTime s) (job s ! j)"
    and "\<And>j. j < length (job s) \<Longrightarrow> int (ticks j s) = runTime (job s ! j) - timeLeft (job s ! j)"
    and "\<And>q j. q < numQueues cf \<Longrightarrow> j \<in> set (queue s ! q) \<Longrightarrow>
        currPri (job s ! j) = q \<and> \<not> doingIO (job s ! j) \<and> startTime (job s ! j) \<le> currTime s"
    and "\<And>t es j ty. (t, es) \<in> set (ioDone s) \<Longrightarrow> (j, ty) \<in> set es \<Longrightarrow> j < length (job s) \<and> startTime (job s ! j) \<le> t"
    and "finishedJobs s = length (filter (\<lambda>x. timeLeft x = 0) (job s))"
  shows "base_inv cf s"
  unfolding base_inv_def using assms by auto

lemma deliver_spec:
  fixes ty :: io_type
  assumes base: "base_inv cf s" and cf: "conf_ok cf" and j: "j < length (job s)" "startTime (job s ! j) \<le> currTime s"
  defines "s' \<equiv> deliver cf s (j, ty)"
  shows "base_inv cf s'" and "queued s' = add_mset j (queued s)" and "unfinished (job s') = unfinished (job s)"
    and "ioDone s' = ioDone s" "currTime s' = currTime s" "map timeLeft (job s') = map timeLeft (job s)"
    "map startTime (job s') = map startTime (job s)" "fixed_data s' = fixed_data s"
proof -
  note B = base_invD [OF base]
  let ?q = "currPri (job s ! j)" and ?x = "(job s ! j)\<lparr>doingIO := False\<rparr>"
  let ?new = "if \<not> iobump cf \<or> ty = JOB_BEGINS then queue s ! ?q @ [j] else j # queue s ! ?q"
  have "?q \<le> numQueues cf - 1" "0 < numQueues cf" using B(3) [OF j(1)] cf by (simp_all add: job_ok_def conf_ok_def hiQueue_def)
  then have q: "?q < length (queue s)" using B(1) by linarith
  have st: "s' = s\<lparr>trace := trace s @ [Interrupt (currTime s) ty j], queue := (queue s)[?q := ?new], job := (job s)[j := ?x]\<rparr>"
    by (simp add: s'_def deliver_def Let_def upd_queue_def upd_job_def note_event_def)
  have same: "runTime (job s' ! k) = runTime (job s ! k)" "timeLeft (job s' ! k) = timeLeft (job s ! k)"
    "startTime (job s' ! k) = startTime (job s ! k)" "currPri (job s' ! k) = currPri (job s ! k)"
    "doingIO (job s' ! k) = (k \<noteq> j \<and> doingIO (job s ! k))" "job_ok cf t (job s' ! k) = job_ok cf t (job s ! k)"
    if "k < length (job s)" for k t
    using that j(1) by (simp_all add: st nth_list_update job_ok_def)
  have tk: "ticks k s' = ticks k s" for k by (simp add: st ticks_def)
  have mnew: "mset ?new = add_mset j (mset (queue s ! ?q))" by simp
  show "queued s' = add_mset j (queued s)"
    using queued_update [OF q, of ?new] unfolding mnew by (simp add: queued_def st)
  show "unfinished (job s') = unfinished (job s)" using same by (intro unfinished_same) (simp_all add: st)
  show "ioDone s' = ioDone s" "currTime s' = currTime s" by (simp_all add: st)
  show ml: "map timeLeft (job s') = map timeLeft (job s)" "map startTime (job s') = map startTime (job s)"
    using j(1) by (simp_all add: st map_update, simp_all add: list_update_same_conv)
  have ln: "length (job s') = length (job s)" by (simp add: st)
  show "fixed_data s' = fixed_data s" using same ln unfolding fixed_data_def by (intro nth_equalityI) simp_all
  show "base_inv cf s'"
  proof (rule base_invI)
    show "length (queue s') = numQueues cf" "distinct (map fst (ioDone s'))" using B(1,2) by (simp_all add: st)
    show "job_ok cf (currTime s') (job s' ! k)" "int (ticks k s') = runTime (job s' ! k) - timeLeft (job s' ! k)" if "k < length (job s')" for k
      using that B(3,4) [of k] same [of k] tk ln by (simp_all add: st)
    show "currPri (job s' ! k) = p \<and> \<not> doingIO (job s' ! k) \<and> startTime (job s' ! k) \<le> currTime s'"
      if p: "p < numQueues cf" "k \<in> set (queue s' ! p)" for p k
    proof (cases "k = j \<and> p = ?q")
      case True
      then show ?thesis using same [OF j(1)] j(2) by (simp add: st)
    next
      case False
      then have k: "k \<in> set (queue s ! p)"
        using p(2) q B(1) by (auto simp: st nth_list_update split: if_splits)
      show ?thesis
      proof (cases "k < length (job s)")
        case True
        then show ?thesis using same [OF True] B(5) [OF p(1) k] by (simp add: st)
      next
        case False
        then show ?thesis using B(5) [OF p(1) k] j(1) by (simp add: st)
      qed
    qed
    show "k < length (job s') \<and> startTime (job s' ! k) \<le> t" if "(t, es) \<in> set (ioDone s')" "(k, y) \<in> set es" for t es k y
      using B(6) [of t es k y] that same(3) [of k] by (simp add: st)
    have "length (filter (\<lambda>x. timeLeft x = 0) ((job s)[j := ?x])) = length (filter (\<lambda>x. timeLeft x = 0) (job s))"
      using filter_update_count [OF j(1), of "\<lambda>x. timeLeft x = 0" ?x] by simp
    then show "finishedJobs s' = length (filter (\<lambda>x. timeLeft x = 0) (job s'))" using B(7) by (simp add: st)
  qed
qed

lemma deliver_fold:
  assumes "base_inv cf s" "conf_ok cf" "\<And>j ty. (j, ty) \<in> set es \<Longrightarrow> j < length (job s) \<and> startTime (job s ! j) \<le> currTime s"
    and "queued s + mset (map fst es) + M = unfinished (job s)"
  shows "base_inv cf (foldl (deliver cf) s es) \<and> queued (foldl (deliver cf) s es) + M = unfinished (job (foldl (deliver cf) s es)) \<and>
    ioDone (foldl (deliver cf) s es) = ioDone s \<and> currTime (foldl (deliver cf) s es) = currTime s \<and>
    map timeLeft (job (foldl (deliver cf) s es)) = map timeLeft (job s) \<and> fixed_data (foldl (deliver cf) s es) = fixed_data s"
  using assms
proof (induction es arbitrary: s)
  case (Cons e es)
  obtain j ty where e: "e = (j, ty)" by (cases e)
  have j: "j < length (job s)" "startTime (job s ! j) \<le> currTime s" using Cons.prems(3) e by auto
  note D = deliver_spec [OF Cons.prems(1,2) j, where ty = ty]
  have len: "length (job (deliver cf s (j, ty))) = length (job s)" using D(6) by (metis length_map)
  have "base_inv cf (foldl (deliver cf) (deliver cf s (j, ty)) es) \<and> queued (foldl (deliver cf) (deliver cf s (j, ty)) es) + M =
      unfinished (job (foldl (deliver cf) (deliver cf s (j, ty)) es)) \<and>
    ioDone (foldl (deliver cf) (deliver cf s (j, ty)) es) = ioDone (deliver cf s (j, ty)) \<and>
    currTime (foldl (deliver cf) (deliver cf s (j, ty)) es) = currTime (deliver cf s (j, ty)) \<and>
    map timeLeft (job (foldl (deliver cf) (deliver cf s (j, ty)) es)) = map timeLeft (job (deliver cf s (j, ty))) \<and>
    fixed_data (foldl (deliver cf) (deliver cf s (j, ty)) es) = fixed_data (deliver cf s (j, ty))"
  proof (rule Cons.IH [OF D(1) Cons.prems(2)])
    show "k < length (job (deliver cf s (j, ty))) \<and> startTime (job (deliver cf s (j, ty)) ! k) \<le> currTime (deliver cf s (j, ty))"
      if "(k, y) \<in> set es" for k y
    proof -
      have k: "k < length (job s)" "startTime (job s ! k) \<le> currTime s" using Cons.prems(3) [of k y] that by auto
      have "startTime (job (deliver cf s (j, ty)) ! k) = map startTime (job (deliver cf s (j, ty))) ! k" using k(1) len by simp
      also have "\<dots> = startTime (job s ! k)" using k(1) D(7) by simp
      finally show ?thesis using k len D(5) by simp
    qed
    show "queued (deliver cf s (j, ty)) + mset (map fst es) + M = unfinished (job (deliver cf s (j, ty)))"
      using Cons.prems(4) D(2,3) e by simp
  qed
  then show ?case using D e by simp
qed simp

lemma deliver_all_inv:
  assumes inv: "mlfq_inv cf (currTime s) s" and cf: "conf_ok cf"
  shows "mlfq_inv cf (currTime s + 1) (deliver_all cf s) \<and> ioDone (deliver_all cf s) = ioDone s \<and> currTime (deliver_all cf s) = currTime s \<and>
    map timeLeft (job (deliver_all cf s)) = map timeLeft (job s) \<and> fixed_data (deliver_all cf s) = fixed_data s"
proof -
  have base: "base_inv cf s" and tok: "queued s + pending (currTime s) (ioDone s) = unfinished (job s)" using inv by (simp_all add: mlfq_inv_def)
  have "queued s + mset (map fst (events_at (currTime s) (ioDone s))) + pending (currTime s + 1) (ioDone s) = unfinished (job s)"
    using tok pending_advance [OF base_invD(2) [OF base], of "currTime s"] by (simp add: ac_simps)
  moreover have "j < length (job s) \<and> startTime (job s ! j) \<le> currTime s" if "(j, ty) \<in> set (events_at (currTime s) (ioDone s))" for j ty
    using events_at_mem [OF that] base_invD(6) [OF base] by blast
  ultimately show ?thesis
    using deliver_fold [OF base cf, of "events_at (currTime s) (ioDone s)" "pending (currTime s + 1) (ioDone s)"]
    by (simp add: deliver_all_def mlfq_inv_def)
qed


section \<open>Running a job for one tick\<close>

text \<open>The job that ran has one tick less to go; it has left the front of its queue for the end of its life, an event or some queue.\<close>

definition ran :: "mlfq_conf \<Rightarrow> nat \<Rightarrow> nat \<Rightarrow> nat list \<Rightarrow> mjob \<Rightarrow> mlfq \<Rightarrow> mlfq \<Rightarrow> bool" where
  "ran cf q j rest x' s s' \<longleftrightarrow>
     job s' = (job s)[j := x'] \<and> timeLeft x' = timeLeft (job s ! j) - 1 \<and> runTime x' = runTime (job s ! j) \<and>
     startTime x' = startTime (job s ! j) \<and> firstRun x' = (if firstRun (job s ! j) = - 1 then currTime s else firstRun (job s ! j)) \<and>
     currPri x' \<le> hiQueue cf \<and> (timeLeft x' = 0 \<longrightarrow> endTime x' = currTime s + 1) \<and>
     currTime s' = currTime s + 1 \<and> (\<forall>k. ticks k s' = ticks k s + (if k = j then 1 else 0)) \<and>
     finishedJobs s' = finishedJobs s + (if timeLeft x' = 0 then 1 else 0) \<and>
     (timeLeft x' = 0 \<and> queue s' = (queue s)[q := rest] \<and> ioDone s' = ioDone s \<or>
      timeLeft x' \<noteq> 0 \<and> queue s' = (queue s)[q := rest] \<and>
        ioDone s' = add_event (currTime s + 1 + ioTime cf) (j, IO_DONE) (ioDone s) \<or>
      timeLeft x' \<noteq> 0 \<and> ioDone s' = ioDone s \<and> \<not> doingIO x' \<and>
        (\<exists>ys. queue s' = (queue s)[q := rest, currPri x' := ys] \<and> mset ys = add_mset j (mset ((queue s)[q := rest] ! currPri x'))))"

lemma pop_queued:
  assumes "q < length qs" "qs ! q = j # rest"
  shows "mset (concat qs) = add_mset j (mset (concat (qs[q := rest])))"
  using queued_update [OF assms(1), of rest] assms(2) by simp

lemma ran_inv:
  assumes inv: "mlfq_inv cf (currTime s + 1) s" and cf: "conf_ok cf"
    and q: "q < numQueues cf" "queue s ! q = j # rest" and r: "ran cf q j rest x' s s'"
  shows "mlfq_inv cf (currTime s + 1) s'"
proof -
  have base: "base_inv cf s" and tok: "queued s + pending (currTime s + 1) (ioDone s) = unfinished (job s)" using inv by (simp_all add: mlfq_inv_def)
  note B = base_invD [OF base]
  have ql: "q < length (queue s)" using q(1) B(1) by simp
  let ?qs = "(queue s)[q := rest]" and ?P = "pending (currTime s + 1) (ioDone s)" and ?x = "job s ! j"
  have pop: "queued s = add_mset j (mset (concat ?qs))" unfolding queued_def by (rule pop_queued [OF ql q(2)])
  have tok': "add_mset j (mset (concat ?qs) + ?P) = unfinished (job s)" using tok pop by simp
  note J = once [OF tok']
  have jq: "j \<notin># mset (concat ?qs)" using J(1) by simp
  have jx: "job_ok cf (currTime s) ?x" "startTime ?x \<le> currTime s" using B(3) [OF J(2)] B(5) [OF q(1), of j] q(2) by auto
  have st: "job s' = (job s)[j := x']" "currTime s' = currTime s + 1" "\<And>k. ticks k s' = ticks k s + (if k = j then 1 else 0)"
    "finishedJobs s' = finishedJobs s + (if timeLeft x' = 0 then 1 else 0)"
    and x': "timeLeft x' = timeLeft ?x - 1" "runTime x' = runTime ?x" "startTime x' = startTime ?x"
    "firstRun x' = (if firstRun ?x = - 1 then currTime s else firstRun ?x)" "currPri x' \<le> hiQueue cf" "timeLeft x' = 0 \<longrightarrow> endTime x' = currTime s + 1"
    using r by (simp_all add: ran_def)
  have at: "job s' ! k = (if k = j then x' else job s ! k)" if "k < length (job s)" for k using that st(1) by simp
  have p: "currPri x' < length (queue s)" using x'(5) cf B(1) by (simp add: conf_ok_def hiQueue_def) linarith
  have ok: "job_ok cf (currTime s + 1) x'"
    using jx J(3) x' by (auto simp: job_ok_def)
  have okm: "job_ok cf (currTime s + 1) y" if "job_ok cf (currTime s) y" for y
    using that by (auto simp: job_ok_def)
  have fin: "finishedJobs s' = length (filter (\<lambda>x. timeLeft x = 0) (job s'))"
    using filter_update_count [OF J(2), of "\<lambda>x. timeLeft x = 0" x'] J(3) B(7) st(1,4) by (auto split: if_splits)
  have un: "unfinished (job s') = (if timeLeft x' = 0 then mset (concat ?qs) + ?P else unfinished (job s))"
  proof (cases "timeLeft x' = 0")
    case True
    then have "unfinished (job s) = add_mset j (unfinished (job s'))" using unfinished_done [OF J(2,3), of x'] st(1) by simp
    then show ?thesis using True tok' by simp
  next
    case False
    then have "0 < timeLeft x'" using x'(1) J(3) by linarith
    then have "unfinished (job s') = unfinished (job s)"
      using J(2,3) by (intro unfinished_same) (auto simp: st(1) nth_list_update split: if_splits)
    then show ?thesis using False by simp
  qed
  have old: "currPri (job s' ! k) = m \<and> \<not> doingIO (job s' ! k) \<and> startTime (job s' ! k) \<le> currTime s + 1"
    if m: "m < numQueues cf" "k \<in> set (?qs ! m)" for m k
  proof -
    have kj: "k \<noteq> j" using m jq B(1) nth_mem [of m ?qs] by (auto simp: in_set_conv_nth)
    have k: "k \<in> set (queue s ! m)" using m(2) q(2) ql by (cases "m = q") auto
    have "k < length (job s)" by (rule in_place(1) [OF tok _ k]) (use m(1) B(1) in simp)
    then show ?thesis using B(5) [OF m(1) k] at kj by simp
  qed
  have evold: "k < length (job s') \<and> startTime (job s' ! k) \<le> u" if "(u, es) \<in> set (ioDone s)" "(k, ty) \<in> set es" for u es k ty
    using B(6) [OF that] at [of k] x'(3) st(1) by (cases "k = j") simp_all
  have rest: "mlfq_inv cf (currTime s + 1) s'"
    if "length (queue s') = numQueues cf" "distinct (map fst (ioDone s'))"
      "\<And>m k. m < numQueues cf \<Longrightarrow> k \<in> set (queue s' ! m) \<Longrightarrow> currPri (job s' ! k) = m \<and> \<not> doingIO (job s' ! k) \<and> startTime (job s' ! k) \<le> currTime s + 1"
      "\<And>u es k ty. (u, es) \<in> set (ioDone s') \<Longrightarrow> (k, ty) \<in> set es \<Longrightarrow> k < length (job s') \<and> startTime (job s' ! k) \<le> u"
      "queued s' + pending (currTime s + 1) (ioDone s') = unfinished (job s')"
    unfolding mlfq_inv_def
  proof (intro conjI base_invI that(1,2) fin)
    fix k assume k: "k < length (job s')"
    then have k': "k < length (job s)" using st(1) by simp
    show "job_ok cf (currTime s') (job s' ! k)" using at [OF k'] ok okm [OF B(3) [OF k']] st(2) by simp
    show "int (ticks k s') = runTime (job s' ! k) - timeLeft (job s' ! k)"
      using at [OF k'] B(4) [OF k'] st(3) x'(1,2) by (cases "k = j") simp_all
  qed (use that st(2) in auto)
  have rr: "timeLeft x' = 0 \<and> queue s' = ?qs \<and> ioDone s' = ioDone s \<or>
      timeLeft x' \<noteq> 0 \<and> queue s' = ?qs \<and> ioDone s' = add_event (currTime s + 1 + ioTime cf) (j, IO_DONE) (ioDone s) \<or>
      timeLeft x' \<noteq> 0 \<and> ioDone s' = ioDone s \<and> \<not> doingIO x' \<and>
        (\<exists>ys. queue s' = ?qs[currPri x' := ys] \<and> mset ys = add_mset j (mset (?qs ! currPri x')))"
    using r unfolding ran_def by blast
  then consider (fin) "timeLeft x' = 0" "queue s' = ?qs" "ioDone s' = ioDone s"
    | (io) "timeLeft x' \<noteq> 0" "queue s' = ?qs" "ioDone s' = add_event (currTime s + 1 + ioTime cf) (j, IO_DONE) (ioDone s)"
    | (again) ys where "timeLeft x' \<noteq> 0" "ioDone s' = ioDone s" "\<not> doingIO x'" "queue s' = ?qs[currPri x' := ys]"
        "mset ys = add_mset j (mset (?qs ! currPri x'))"
    by blast
  then show ?thesis
  proof cases
    case fin
    show ?thesis by (rule rest) (use fin B(1,2) old evold un in \<open>auto simp: queued_def\<close>)
  next
    case io
    let ?u = "currTime s + 1 + ioTime cf"
    show ?thesis
    proof (rule rest)
      show "distinct (map fst (ioDone s'))" using io(3) B(2) by (simp add: add_event_keys)
      show "k < length (job s') \<and> startTime (job s' ! k) \<le> u" if e: "(u, es) \<in> set (ioDone s')" "(k, ty) \<in> set es" for u es k ty
        using add_event_mem [of u es ?u "(j, IO_DONE)" "ioDone s" "(k, ty)"] e io(3) evold at [OF J(2)] x'(3) jx(2) cf J(2) st(1)
        by (auto simp: conf_ok_def)
      have "pending (currTime s + 1) (ioDone s') = add_mset j ?P"
        using pending_add [OF B(2), of "currTime s + 1" ?u "(j, IO_DONE)"] cf io(3) by (simp add: conf_ok_def)
      then show "queued s' + pending (currTime s + 1) (ioDone s') = unfinished (job s')"
        using un io(1,2) tok' by (simp add: queued_def)
    qed (use io(2) B(1) old in auto)
  next
    case again
    have pl: "currPri x' < length ?qs" using p by simp
    have mq: "mset (concat (queue s')) = add_mset j (mset (concat ?qs))"
      using queued_update [OF pl, of ys] again(4,5) by simp
    show ?thesis
    proof (rule rest)
      show "currPri (job s' ! k) = m \<and> \<not> doingIO (job s' ! k) \<and> startTime (job s' ! k) \<le> currTime s + 1"
        if m: "m < numQueues cf" "k \<in> set (queue s' ! m)" for m k
      proof (cases "k = j \<and> m = currPri x'")
        case True
        then show ?thesis using at [OF J(2)] again(3) x'(3) jx(2) by simp
      next
        case False
        have "set ys = insert j (set (?qs ! currPri x'))" using again(5) by (metis set_mset_mset set_mset_add_mset_insert)
        then have "k \<in> set (?qs ! m) \<or> k = j \<and> m = currPri x'" using m(2) again(4) p by (auto simp: nth_list_update split: if_splits)
        then show ?thesis using old [OF m(1)] False by blast
      qed
      show "queued s' + pending (currTime s + 1) (ioDone s') = unfinished (job s')"
        using mq un again(1,2) tok' by (simp add: queued_def)
    qed (use again(2,4) B(1,2) evold in auto)
  qed
qed


lemma end_of_slice_spec:
  assumes j: "j < length (job s)" and q: "q < length (queue s)"
    and src: "if issued then queue s = qs else queue s ! q = j # rest \<and> qs = (queue s)[q := rest]"
    and pri: "currPri (job s ! j) = q"
  shows "\<exists>s' x'. end_of_slice cf q j issued s = Inr s' \<and> job s' = (job s)[j := x'] \<and> ioDone s' = ioDone s \<and> currTime s' = currTime s \<and>
    finishedJobs s' = finishedJobs s \<and> trace s' = trace s \<and> timeLeft x' = timeLeft (job s ! j) \<and> runTime x' = runTime (job s ! j) \<and>
    startTime x' = startTime (job s ! j) \<and> firstRun x' = firstRun (job s ! j) \<and> doingIO x' = doingIO (job s ! j) \<and> endTime x' = endTime (job s ! j) \<and>
    currPri x' \<le> q \<and> queue s' = (if issued then qs else qs[currPri x' := qs ! currPri x' @ [j]])"
proof -
  let ?x = "(job s ! j)\<lparr>allotLeft := allotLeft (job s ! j) - 1\<rparr>"
  have p: "(if issued then Inr s else pop_current q j s) = Inr (s\<lparr>queue := qs\<rparr>)"
    using src by (cases issued) (simp_all add: pop_current_def upd_queue_def)
  have J: "(job s)[j := y] ! j = y" for y using j by simp
  show ?thesis
  proof (cases "allotLeft ?x = 0")
    case True
    show ?thesis
    proof (cases "q > 0")
      case q0: True
      show ?thesis
        unfolding end_of_slice_def p rbind_Inr
        by (rule exI [of _ "s\<lparr>queue := if issued then qs else qs[q - 1 := qs ! (q - 1) @ [j]],
              job := (job s)[j := ?x\<lparr>currPri := q - 1, ticksLeft := quantum cf ! (q - 1), allotLeft := allotment cf ! (q - 1)\<rparr>]\<rparr>"],
            rule exI [of _ "?x\<lparr>currPri := q - 1, ticksLeft := quantum cf ! (q - 1), allotLeft := allotment cf ! (q - 1)\<rparr>"])
          (use True q0 J in \<open>simp add: upd_job_def upd_queue_def Let_def\<close>)
    next
      case q0: False
      show ?thesis
        unfolding end_of_slice_def p rbind_Inr
        by (rule exI [of _ "s\<lparr>queue := if issued then qs else qs[q := qs ! q @ [j]],
              job := (job s)[j := ?x\<lparr>ticksLeft := quantum cf ! q, allotLeft := allotment cf ! q\<rparr>]\<rparr>"],
            rule exI [of _ "?x\<lparr>ticksLeft := quantum cf ! q, allotLeft := allotment cf ! q\<rparr>"])
          (use True q0 J pri in \<open>simp add: upd_job_def upd_queue_def Let_def\<close>)
    qed
  next
    case False
    show ?thesis
      unfolding end_of_slice_def p rbind_Inr
      by (rule exI [of _ "s\<lparr>queue := if issued then qs else qs[q := qs ! q @ [j]], job := (job s)[j := ?x\<lparr>ticksLeft := quantum cf ! q\<rparr>]\<rparr>"],
          rule exI [of _ "?x\<lparr>ticksLeft := quantum cf ! q\<rparr>"])
        (use False J pri in \<open>simp add: upd_job_def upd_queue_def Let_def\<close>)
  qed
qed

lemma issue_io_spec:
  assumes "j < length (job s)" "queue s ! q = j # rest"
  shows "\<exists>s' x'. issue_io cf q j s = Inr s' \<and> job s' = (job s)[j := x'] \<and> queue s' = (queue s)[q := rest] \<and>
    ioDone s' = add_event (currTime s + ioTime cf) (j, IO_DONE) (ioDone s) \<and> currTime s' = currTime s \<and> finishedJobs s' = finishedJobs s \<and>
    trace s' = trace s @ [IO_Start (currTime s) j] \<and> timeLeft x' = timeLeft (job s ! j) \<and> runTime x' = runTime (job s ! j) \<and>
    startTime x' = startTime (job s ! j) \<and> firstRun x' = firstRun (job s ! j) \<and> currPri x' = currPri (job s ! j) \<and> endTime x' = endTime (job s ! j)"
proof -
  let ?x = "(job s ! j)\<lparr>doingIO := True\<rparr>"
  let ?y = "if stay cf then ?x\<lparr>ticksLeft := quantum cf ! q, allotLeft := allotment cf ! q\<rparr> else ?x"
  show ?thesis
    by (rule exI [of _ "s\<lparr>trace := trace s @ [IO_Start (currTime s) j], queue := (queue s)[q := rest], job := (job s)[j := ?y],
          ioDone := add_event (currTime s + ioTime cf) (j, IO_DONE) (ioDone s)\<rparr>"], rule exI [of _ ?y])
      (use assms in \<open>simp add: issue_io_def pop_current_def note_event_def upd_queue_def upd_job_def Let_def\<close>)
qed

lemma run_job_ran:
  assumes j: "j < length (job s)" "0 < timeLeft (job s ! j)" and q: "q < length (queue s)" "queue s ! q = j # rest"
    and x: "currPri (job s ! j) = q" "\<not> doingIO (job s ! j)" "q \<le> hiQueue cf"
  shows "\<exists>s' x'. run_job cf q j s = Inr s' \<and> ran cf q j rest x' s s' \<and>
    (\<exists>a b c d more. trace s' = trace s @ Run (currTime s) j q a b c d # more)"
proof -
  define x1 where "x1 = (job s ! j)\<lparr>timeLeft := timeLeft (job s ! j) - 1, ticksLeft := ticksLeft (job s ! j) - 1,
      firstRun := if firstRun (job s ! j) = - 1 then currTime s else firstRun (job s ! j)\<rparr>"
  let ?ev = "Run (currTime s) j q (ticksLeft x1) (allotLeft x1) (timeLeft x1) (runTime x1)"
  let ?s3 = "s\<lparr>job := (job s)[j := x1], trace := trace s @ [?ev], currTime := currTime s + 1\<rparr>"
  define issued where "issued \<longleftrightarrow> ioFreq x1 > 0 \<and> (runTime x1 - timeLeft x1) mod ioFreq x1 = 0"
  have F: "timeLeft x1 = timeLeft (job s ! j) - 1" "runTime x1 = runTime (job s ! j)" "startTime x1 = startTime (job s ! j)"
    "firstRun x1 = (if firstRun (job s ! j) = - 1 then currTime s else firstRun (job s ! j))" "currPri x1 = q" "\<not> doingIO x1"
    using x by (simp_all add: x1_def)
  have J: "(job s)[j := y] ! j = y" for y using j(1) by simp
  have tk: "ticks k t = ticks k s + (if k = j then 1 else 0)"
    if "trace t = trace s @ ?ev # more" "filter (is_run k) more = []" for k t more
    using that by (auto simp: ticks_def)
  show ?thesis
  proof (cases "timeLeft x1 = 0")
    case True
    let ?y = "x1\<lparr>endTime := currTime s + 1\<rparr>"
    let ?t = "?s3\<lparr>finishedJobs := finishedJobs s + 1, trace := trace s @ [?ev, Finished (currTime s + 1) j], job := (job s)[j := ?y],
        queue := (queue s)[q := rest]\<rparr>"
    have "run_job cf q j s = Inr ?t"
      using True x(1) J q(2) unfolding run_job_def upd_job_def note_event_def Let_def pop_current_def upd_queue_def
      by (simp flip: x1_def)
    moreover have "ran cf q j rest ?y s ?t"
      using True x F tk [of ?t "[Finished (currTime s + 1) j]"] by (simp add: ran_def)
    ultimately show ?thesis by (intro exI conjI) auto
  next
    case False
    have pos: "timeLeft x1 > 0" using False j(2) F(1) by linarith
    have rj: "run_job cf q j s = rbind (if issued then issue_io cf q j ?s3 else Inr ?s3)
        (\<lambda>s4. if ticksLeft x1 = 0 then end_of_slice cf q j issued s4 else Inr s4)"
      using False pos x(1) J unfolding run_job_def upd_job_def note_event_def Let_def issued_def by (simp flip: x1_def)
    have s3: "j < length (job ?s3)" "queue ?s3 ! q = j # rest" "job ?s3 ! j = x1" "q < length (queue ?s3)" using j q by simp_all
    have "\<exists>s4 x4 more. (if issued then issue_io cf q j ?s3 else Inr ?s3) = Inr s4 \<and> job s4 = (job s)[j := x4] \<and>
        queue s4 = (if issued then (queue s)[q := rest] else queue s) \<and>
        ioDone s4 = (if issued then add_event (currTime s + 1 + ioTime cf) (j, IO_DONE) (ioDone s) else ioDone s) \<and>
        currTime s4 = currTime s + 1 \<and> finishedJobs s4 = finishedJobs s \<and> trace s4 = trace s @ ?ev # more \<and> (\<forall>k. filter (is_run k) more = []) \<and>
        timeLeft x4 = timeLeft x1 \<and> runTime x4 = runTime x1 \<and> startTime x4 = startTime x1 \<and> firstRun x4 = firstRun x1 \<and>
        currPri x4 = q \<and> (\<not> issued \<longrightarrow> \<not> doingIO x4)"
    proof (cases issued)
      case True
      obtain s4 x4 where "issue_io cf q j ?s3 = Inr s4 \<and> job s4 = (job ?s3)[j := x4] \<and> queue s4 = (queue ?s3)[q := rest] \<and>
        ioDone s4 = add_event (currTime ?s3 + ioTime cf) (j, IO_DONE) (ioDone ?s3) \<and> currTime s4 = currTime ?s3 \<and> finishedJobs s4 = finishedJobs ?s3 \<and>
        trace s4 = trace ?s3 @ [IO_Start (currTime ?s3) j] \<and> timeLeft x4 = timeLeft (job ?s3 ! j) \<and> runTime x4 = runTime (job ?s3 ! j) \<and>
        startTime x4 = startTime (job ?s3 ! j) \<and> firstRun x4 = firstRun (job ?s3 ! j) \<and> currPri x4 = currPri (job ?s3 ! j) \<and> endTime x4 = endTime (job ?s3 ! j)"
        using issue_io_spec [OF s3(1,2), of cf] by blast
      then show ?thesis using True F s3(3)
        by (intro exI [of _ s4] exI [of _ x4] exI [of _ "[IO_Start (currTime s + 1) j]"]) simp
    next
      case False
      then show ?thesis unfolding if_not_P [OF False] using F
        by (intro exI [of _ ?s3] exI [of _ x1] exI [of _ "[]"]) simp
    qed
    then obtain s4 x4 more where s4: "(if issued then issue_io cf q j ?s3 else Inr ?s3) = Inr s4" "job s4 = (job s)[j := x4]"
        "queue s4 = (if issued then (queue s)[q := rest] else queue s)"
        "ioDone s4 = (if issued then add_event (currTime s + 1 + ioTime cf) (j, IO_DONE) (ioDone s) else ioDone s)"
        "currTime s4 = currTime s + 1" "finishedJobs s4 = finishedJobs s" "trace s4 = trace s @ ?ev # more" "\<And>k. filter (is_run k) more = []"
        "timeLeft x4 = timeLeft x1" "runTime x4 = runTime x1" "startTime x4 = startTime x1" "firstRun x4 = firstRun x1"
        "currPri x4 = q" "\<not> issued \<longrightarrow> \<not> doingIO x4" by blast
    have rj4: "run_job cf q j s = (if ticksLeft x1 = 0 then end_of_slice cf q j issued s4 else Inr s4)" using rj s4(1) by simp
    show ?thesis
    proof (cases "ticksLeft x1 = 0")
      case True
      let ?qs = "(queue s)[q := rest]"
      have src: "if issued then queue s4 = ?qs else queue s4 ! q = j # rest \<and> ?qs = (queue s4)[q := rest]"
        using s4(3) q(2) by simp
      have j4: "j < length (job s4)" "q < length (queue s4)" "currPri (job s4 ! j) = q" "job s4 ! j = x4" using s4(2,3,13) j(1) q(1) by simp_all
      obtain s' x' where e: "end_of_slice cf q j issued s4 = Inr s'" "job s' = (job s4)[j := x']" "ioDone s' = ioDone s4" "currTime s' = currTime s4"
        "finishedJobs s' = finishedJobs s4" "trace s' = trace s4" "timeLeft x' = timeLeft x4" "runTime x' = runTime x4"
        "startTime x' = startTime x4" "firstRun x' = firstRun x4" "doingIO x' = doingIO x4" "currPri x' \<le> q"
        "queue s' = (if issued then ?qs else ?qs[currPri x' := ?qs ! currPri x' @ [j]])"
        using end_of_slice_spec [OF j4(1,2) src j4(3), of cf] unfolding j4(4) by blast
      have "ran cf q j rest x' s s'"
        unfolding ran_def
      proof (intro conjI allI)
        show "currPri x' \<le> hiQueue cf" using e(12) x(3) by simp
        show "ticks k s' = ticks k s + (if k = j then 1 else 0)" for k using tk [of s' more k] s4(7,8) e(6) by simp
        show "timeLeft x' = 0 \<and> queue s' = ?qs \<and> ioDone s' = ioDone s \<or>
          timeLeft x' \<noteq> 0 \<and> queue s' = ?qs \<and> ioDone s' = add_event (currTime s + 1 + ioTime cf) (j, IO_DONE) (ioDone s) \<or>
          timeLeft x' \<noteq> 0 \<and> ioDone s' = ioDone s \<and> \<not> doingIO x' \<and>
          (\<exists>ys. queue s' = ?qs[currPri x' := ys] \<and> mset ys = add_mset j (mset (?qs ! currPri x')))"
        proof (cases issued)
          case True
          then show ?thesis using e(3,7,13) s4(4,9) pos by simp
        next
          case False
          then show ?thesis using e(3,7,11,13) s4(4,9,14) pos unfolding if_not_P [OF False]
            by (intro disjI2 conjI exI [of _ "?qs ! currPri x' @ [j]"]) auto
        qed
      qed (use e s4 pos F in simp_all)
      then show ?thesis using rj4 True e(1,6) s4(7) by (intro exI [of _ s'] exI [of _ x']) auto
    next
      case False
      have "ran cf q j rest x4 s s4"
        unfolding ran_def
      proof (intro conjI allI)
        show "ticks k s4 = ticks k s + (if k = j then 1 else 0)" for k using tk [of s4 more k] s4(7,8) by simp
        show "timeLeft x4 = 0 \<and> queue s4 = (queue s)[q := rest] \<and> ioDone s4 = ioDone s \<or>
          timeLeft x4 \<noteq> 0 \<and> queue s4 = (queue s)[q := rest] \<and> ioDone s4 = add_event (currTime s + 1 + ioTime cf) (j, IO_DONE) (ioDone s) \<or>
          timeLeft x4 \<noteq> 0 \<and> ioDone s4 = ioDone s \<and> \<not> doingIO x4 \<and>
          (\<exists>ys. queue s4 = (queue s)[q := rest, currPri x4 := ys] \<and> mset ys = add_mset j (mset ((queue s)[q := rest] ! currPri x4)))"
        proof (cases issued)
          case True
          then show ?thesis using s4(3,4,9) pos by simp
        next
          case f: False
          have "(queue s)[q := rest, q := j # rest] = queue s" using q by (simp add: list_update_same_conv)
          then show ?thesis using s4(3,4,9,13,14) pos q(1) unfolding if_not_P [OF f]
            by (intro disjI2 conjI exI [of _ "j # rest"]) (use f in auto)
        qed
      qed (use s4 x(3) pos F in simp_all)
      then show ?thesis using rj4 False s4(7) by (intro exI [of _ s4] exI [of _ x4]) auto
    qed
  qed
qed


section \<open>One step and the whole loop\<close>

lemma find_from_None: "find_from n qs = None \<longleftrightarrow> (\<forall>q \<le> n. qs ! q = [])"
  by (induction n) (auto simp: le_Suc_eq)

lemma find_from_Some: "find_from n qs = Some q \<Longrightarrow> q \<le> n \<and> qs ! q \<noteq> [] \<and> (\<forall>p. q < p \<and> p \<le> n \<longrightarrow> qs ! p = [])"
  by (induction n) (auto simp: le_Suc_eq split: if_splits)

lemma ready_inv:
  assumes inv: "mlfq_inv cf (currTime s) s" and cf: "conf_ok cf"
  defines "s1 \<equiv> deliver_all cf (boost_step cf s)"
  shows "mlfq_inv cf (currTime s + 1) s1" "currTime s1 = currTime s" "ioDone s1 = ioDone s"
    "map timeLeft (job s1) = map timeLeft (job s)" "fixed_data s1 = fixed_data s"
  using boost_inv [OF inv cf] deliver_all_inv [of cf "boost_step cf s", OF _ cf] unfolding s1_def by auto

lemma mlfq_step_cases:
  assumes inv: "mlfq_inv cf (currTime s) s" and cf: "conf_ok cf"
  defines "s1 \<equiv> deliver_all cf (boost_step cf s)"
  obtains (idle) "mlfq_step cf s = Inr ((note_event (Idle (currTime s)) s1)\<lparr>currTime := currTime s + 1\<rparr>)" "\<forall>q \<le> hiQueue cf. queue s1 ! q = []"
  | (run) q j rest x' s' a b c d more where "mlfq_step cf s = Inr s'" "q < numQueues cf" "queue s1 ! q = j # rest"
      "\<forall>p. q < p \<and> p \<le> hiQueue cf \<longrightarrow> queue s1 ! p = []" "ran cf q j rest x' s1 s'" "j < length (job s1)" "0 < timeLeft (job s1 ! j)"
      "trace s' = trace s1 @ Run (currTime s) j q a b c d # more"
proof -
  note R = ready_inv [OF inv cf, folded s1_def]
  have base: "base_inv cf s1" and tok: "queued s1 + pending (currTime s + 1) (ioDone s1) = unfinished (job s1)" using R(1) by (simp_all add: mlfq_inv_def)
  show thesis
  proof (cases "FindQueue cf (queue s1)")
    case None
    then have "\<forall>q \<le> hiQueue cf. queue s1 ! q = []" by (simp add: FindQueue_def find_from_None)
    then show ?thesis using R(2) None by (intro that(1)) (simp_all add: mlfq_step_def Let_def flip: s1_def)
  next
    case (Some q)
    then have q: "q \<le> hiQueue cf" "queue s1 ! q \<noteq> []" "\<forall>p. q < p \<and> p \<le> hiQueue cf \<longrightarrow> queue s1 ! p = []"
      using find_from_Some unfolding FindQueue_def by blast+
    then obtain j rest where jr: "queue s1 ! q = j # rest" by (cases "queue s1 ! q") auto
    have ql: "q < numQueues cf" using q(1) cf by (simp add: hiQueue_def conf_ok_def) linarith
    then have ql': "q < length (queue s1)" using base_invD(1) [OF base] by simp
    have j: "j < length (job s1)" "0 < timeLeft (job s1 ! j)" by (rule in_place [OF tok ql'], use jr in simp)+
    have x: "currPri (job s1 ! j) = q" "\<not> doingIO (job s1 ! j)" using base_invD(5) [OF base ql, of j] jr by auto
    obtain s' x' a b c d more where r: "run_job cf q j s1 = Inr s'" "ran cf q j rest x' s1 s'"
      "trace s' = trace s1 @ Run (currTime s1) j q a b c d # more"
      using run_job_ran [OF j ql' jr x q(1)] by blast
    have "mlfq_step cf s = Inr s'" using Some r(1) jr by (simp add: mlfq_step_def s1_def Let_def)
    then show ?thesis using that(2) ql jr q(3) r(2,3) j R(2) by metis
  qed
qed

definition horizon :: "mlfq \<Rightarrow> int" where
  "horizon s = Max (insert 0 (fst ` set (ioDone s)))"

definition work_left :: "mlfq \<Rightarrow> nat" where
  "work_left s = nat (sum_list (map timeLeft (job s)))"

lemma work_left_ran:
  assumes "ran cf q j rest x' s s'" "j < length (job s)" "0 < timeLeft (job s ! j)" "\<forall>k < length (job s). 0 \<le> timeLeft (job s ! k)"
  shows "work_left s' < work_left s"
proof -
  have up: "sum_list (xs[j := y]) = sum_list xs + y - xs ! j" if "j < length xs" for xs :: "int list" and y
    using that by (induction xs arbitrary: j) (auto simp: nth_Cons split: nat.splits)
  have "sum_list (map timeLeft (job s')) = sum_list (map timeLeft (job s)) - 1"
    using assms(1,2) up [of "map timeLeft (job s)" "timeLeft x'"] by (simp add: ran_def map_update)
  moreover have "0 < sum_list (map timeLeft (job s))"
  proof -
    have "timeLeft (job s ! j) \<le> sum_list (map timeLeft (job s))"
      using assms(2,4) nth_mem [OF assms(2)] by (intro member_le_sum_list) (auto simp: in_set_conv_nth)
    then show ?thesis using assms(3) by linarith
  qed
  ultimately show ?thesis by (simp add: work_left_def)
qed

lemma ran_fixed: "ran cf q j rest x' s s' \<Longrightarrow> j < length (job s) \<Longrightarrow> fixed_data s' = fixed_data s"
  by (auto simp: ran_def fixed_data_def map_update list_update_same_conv)

lemma mlfq_step_progress:
  assumes inv: "mlfq_inv cf (currTime s) s" and cf: "conf_ok cf" and more: "finishedJobs s < length (job s)"
  shows "\<exists>s'. mlfq_step cf s = Inr s' \<and> mlfq_inv cf (currTime s') s' \<and> fixed_data s' = fixed_data s \<and>
    (work_left s' < work_left s \<or> work_left s' = work_left s \<and> nat (horizon s' - currTime s') < nat (horizon s - currTime s))"
proof -
  define s1 where "s1 = deliver_all cf (boost_step cf s)"
  note R = ready_inv [OF inv cf, folded s1_def]
  have base: "base_inv cf s1" and tok: "queued s1 + pending (currTime s + 1) (ioDone s1) = unfinished (job s1)" using R(1) by (simp_all add: mlfq_inv_def)
  note B = base_invD [OF base]
  have wl: "work_left s1 = work_left s" using R(4) by (simp add: work_left_def)
  show ?thesis
    using inv cf
  proof (cases rule: mlfq_step_cases)
    case idle
    let ?s = "(note_event (Idle (currTime s)) s1)\<lparr>currTime := currTime s + 1\<rparr>"
    have "queue s1 ! q = []" if "q < length (queue s1)" for q
      using idle(2) that B(1) by (simp add: s1_def hiQueue_def)
    then have "concat (queue s1) = []" by (auto simp: in_set_conv_nth)
    then have q0: "queued s1 = {#}" by (simp add: queued_def)
    have "\<exists>x \<in> set (job s1). timeLeft x \<noteq> 0"
    proof (rule ccontr)
      assume "\<not> (\<exists>x \<in> set (job s1). timeLeft x \<noteq> 0)"
      then have "finishedJobs s1 = length (job s1)" using B(7) by simp
      moreover have "finishedJobs s1 = finishedJobs s" "length (job s1) = length (job s)"
      proof -
        have e: "length (filter (\<lambda>x. timeLeft x = 0) js) = length (filter (\<lambda>t. t = 0) (map timeLeft js))" for js :: "mjob list"
          by (simp add: filter_map o_def)
        have "base_inv cf s" using inv by (simp add: mlfq_inv_def)
        from base_invD(7) [OF this] show "finishedJobs s1 = finishedJobs s" unfolding B(7) e R(4) by simp
        show "length (job s1) = length (job s)" using R(4) by (metis length_map)
      qed
      ultimately show False using more by simp
    qed
    then obtain k where k: "k < length (job s1)" "timeLeft (job s1 ! k) \<noteq> 0" by (auto simp: in_set_conv_nth)
    then have "0 < timeLeft (job s1 ! k)" using B(3) [OF k(1)] by (auto simp: job_ok_def)
    then have "count (unfinished (job s1)) k = 1" using k(1) by (simp add: count_unfinished)
    then have "k \<in># pending (currTime s + 1) (ioDone s1)" using tok q0 by (metis count_eq_zero_iff empty_neutral(1) zero_neq_one)
    then obtain u es where u: "(u, es) \<in> set (ioDone s1)" "currTime s + 1 \<le> u" using pending_mem by blast
    have "u \<le> horizon s" using u(1) R(3) unfolding horizon_def by (intro Max_ge) (auto simp: image_iff intro: rev_bexI)
    moreover have "horizon ?s = horizon s" using R(3) by (simp add: horizon_def note_event_def)
    ultimately have "nat (horizon ?s - currTime ?s) < nat (horizon s - currTime s)" using u(2) by simp
    moreover have "work_left ?s = work_left s" using wl by (simp add: work_left_def note_event_def)
    moreover have "fixed_data ?s = fixed_data s" using R(5) by (simp add: fixed_data_def note_event_def)
    moreover have "base_inv cf ?s"
    proof (rule base_invI)
      show "job_ok cf (currTime ?s) (job ?s ! k)" "int (ticks k ?s) = runTime (job ?s ! k) - timeLeft (job ?s ! k)" if "k < length (job ?s)" for k
        using B(3,4) [of k] that R(2) by (auto simp: note_event_def job_ok_def ticks_def)
      show "currPri (job ?s ! k) = q \<and> \<not> doingIO (job ?s ! k) \<and> startTime (job ?s ! k) \<le> currTime ?s"
        if "q < numQueues cf" "k \<in> set (queue ?s ! q)" for q k
        using B(5) [of q k] that R(2) by (auto simp: note_event_def)
    qed (use B in \<open>auto simp: note_event_def\<close>)
    then have "mlfq_inv cf (currTime ?s) ?s" using tok by (simp add: mlfq_inv_def note_event_def queued_def)
    ultimately show ?thesis using idle(1) unfolding s1_def [symmetric] by blast
  next
    case (run q j rest x' s' a b c d m)
    have i1: "mlfq_inv cf (currTime s1 + 1) s1" using R(1,2) by simp
    have "mlfq_inv cf (currTime s1 + 1) s'" by (rule ran_inv [OF i1 cf run(2) run(3) [folded s1_def] run(5) [folded s1_def]])
    moreover have "currTime s' = currTime s1 + 1" using run(5) by (simp add: ran_def s1_def)
    moreover have "work_left s' < work_left s1"
      by (rule work_left_ran [OF run(5-7) [folded s1_def]]) (use B(3) in \<open>auto simp: job_ok_def\<close>)
    moreover have "fixed_data s' = fixed_data s1" by (rule ran_fixed [OF run(5,6) [folded s1_def]])
    ultimately show ?thesis using run(1) wl R(5) by simp
  qed
qed

lemmas [simp del] = mlfq_loop.simps

lemma mlfq_loop_done: "\<not> finishedJobs s < length (job s) \<Longrightarrow> mlfq_loop n cf s = Inr s"
  by (simp add: mlfq_loop.simps)

lemma mlfq_loop_Suc: "finishedJobs s < length (job s) \<Longrightarrow> mlfq_loop (Suc n) cf s = rbind (mlfq_step cf s) (mlfq_loop n cf)"
  by (simp add: mlfq_loop.simps)

lemma mlfq_loop_ends:
  assumes "mlfq_inv cf (currTime s) s" "conf_ok cf"
  shows "\<exists>n s'. (\<forall>m \<ge> n. mlfq_loop m cf s = Inr s') \<and> mlfq_inv cf (currTime s') s' \<and> \<not> finishedJobs s' < length (job s') \<and> fixed_data s' = fixed_data s"
  using assms
proof (induction s rule: wf_induct_rule [OF wf_measures [of "[work_left, \<lambda>s. nat (horizon s - currTime s)]"]])
  case (1 s)
  show ?case
  proof (cases "finishedJobs s < length (job s)")
    case True
    obtain s1 where s1: "mlfq_step cf s = Inr s1" "mlfq_inv cf (currTime s1) s1" "fixed_data s1 = fixed_data s"
      "work_left s1 < work_left s \<or> work_left s1 = work_left s \<and> nat (horizon s1 - currTime s1) < nat (horizon s - currTime s)"
      using mlfq_step_progress [OF 1(2,3) True] by blast
    obtain n s' where n: "\<forall>m \<ge> n. mlfq_loop m cf s1 = Inr s'" "mlfq_inv cf (currTime s') s'" "\<not> finishedJobs s' < length (job s')"
      "fixed_data s' = fixed_data s1"
      using 1(1) [OF _ s1(2) 1(3)] s1(4) by auto
    have "mlfq_loop m cf s = Inr s'" if le: "Suc n \<le> m" for m
    proof -
      obtain k where "m = Suc k" "n \<le> k" using le by (cases m) auto
      then show ?thesis using mlfq_loop_Suc [OF True] s1(1) n(1) by simp
    qed
    then show ?thesis using n s1(3) by (intro exI [of _ "Suc n"] exI [of _ s']) auto
  next
    case False
    then show ?thesis using 1(2) mlfq_loop_done [OF False] by blast
  qed
qed


section \<open>The initial state\<close>

definition proper_job :: "mjob \<Rightarrow> bool" where
  "proper_job x \<longleftrightarrow> 0 \<le> startTime x \<and> 0 < runTime x"

definition fresh_state :: "mlfq_conf \<Rightarrow> mlfq \<Rightarrow> bool" where
  "fresh_state cf s \<longleftrightarrow> currTime s = 0 \<and> finishedJobs s = 0 \<and> trace s = [] \<and> queue s = replicate (numQueues cf) [] \<and>
     (job s \<noteq> [] \<longrightarrow> 0 < numQueues cf) \<and> (Ball (set (job s)) proper_job \<longrightarrow> mlfq_inv cf 0 s)"

lemma unfinished_snoc: "unfinished (js @ [x]) = unfinished js + (if 0 < timeLeft x then {#length js#} else {#})"
  by (rule multiset_eqI) (auto simp: count_unfinished nth_append)

lemma empty_fresh: "fresh_state cf (empty_mlfq cf)"
proof -
  have "concat (replicate n []) = []" for n by (induction n) simp_all
  then show ?thesis
    by (auto simp: fresh_state_def empty_mlfq_def mlfq_inv_def base_inv_def queued_def pending_def unfinished_def)
qed

lemma new_job_fresh:
  assumes f: "fresh_state cf s" and n: "new_job cf st rt freq s = Inr s'"
  shows "fresh_state cf s'"
proof -
  let ?x = "\<lparr>currPri = hiQueue cf, ticksLeft = quantum cf ! hiQueue cf, allotLeft = allotment cf ! hiQueue cf,
                    startTime = st, runTime = rt, timeLeft = rt, ioFreq = freq, doingIO = False, firstRun = - 1, endTime = - 1\<rparr>"
  have s': "numQueues cf \<noteq> 0" "s' = s\<lparr>job := job s @ [?x], ioDone := add_event st (length (job s), JOB_BEGINS) (ioDone s)\<rparr>"
    using n by (auto simp: new_job_def split: if_splits)
  have fr: "currTime s = 0" "finishedJobs s = 0" "trace s = []" "queue s = replicate (numQueues cf) []" using f by (simp_all add: fresh_state_def)
  have "mlfq_inv cf 0 s'" if all: "Ball (set (job s')) proper_job"
  proof -
    have x: "proper_job ?x" and inv: "mlfq_inv cf 0 s" using all s'(2) f by (auto simp: fresh_state_def)
    have p: "0 \<le> st" "0 < rt" using x by (simp_all add: proper_job_def)
    have base: "base_inv cf s" and tok: "queued s + pending 0 (ioDone s) = unfinished (job s)" using inv by (simp_all add: mlfq_inv_def)
    note B = base_invD [OF base]
    have "base_inv cf s'"
    proof (rule base_invI)
      show "distinct (map fst (ioDone s'))" using B(2) s'(2) by (simp add: add_event_keys)
      show "job_ok cf (currTime s') (job s' ! j)" "int (ticks j s') = runTime (job s' ! j) - timeLeft (job s' ! j)"
        if j: "j < length (job s')" for j
      proof -
        consider "j < length (job s)" | "j = length (job s)" using j s'(2) by fastforce
        then show "job_ok cf (currTime s') (job s' ! j)" "int (ticks j s') = runTime (job s' ! j) - timeLeft (job s' ! j)"
          using B(3,4) [of j] p fr s'(2) by (cases; simp add: nth_append job_ok_def ticks_def)+
      qed
      show "currPri (job s' ! j) = q \<and> \<not> doingIO (job s' ! j) \<and> startTime (job s' ! j) \<le> currTime s'"
        if "q < numQueues cf" "j \<in> set (queue s' ! q)" for q j using that fr(4) s'(2) by simp
      show "j < length (job s') \<and> startTime (job s' ! j) \<le> u" if e: "(u, es) \<in> set (ioDone s')" "(j, ty) \<in> set es" for u es j ty
      proof -
        have "(j, ty) = (length (job s), JOB_BEGINS) \<and> u = st \<or> (\<exists>es'. (u, es') \<in> set (ioDone s) \<and> (j, ty) \<in> set es')"
          using add_event_mem [of u es st "(length (job s), JOB_BEGINS)" "ioDone s" "(j, ty)"] e s'(2) by simp
        then show ?thesis using B(6) [of u _ j ty] s'(2) by (auto simp: nth_append)
      qed
      show "finishedJobs s' = length (filter (\<lambda>x. timeLeft x = 0) (job s'))" using B(7) p s'(2) by simp
    qed (use B(1) s'(2) in simp)
    moreover have "pending 0 (ioDone s') = add_mset (length (job s)) (pending 0 (ioDone s))"
      using pending_add [OF B(2) p(1)] s'(2) by simp
    then have "queued s' + pending 0 (ioDone s') = unfinished (job s')"
      using tok p s'(2) by (simp add: queued_def unfinished_snoc)
    ultimately show ?thesis by (simp add: mlfq_inv_def)
  qed
  then show ?thesis using fr s' by (simp add: fresh_state_def)
qed

lemma mlfq_jobs_fresh:
  assumes "mlfq_jobs opt cf ds = Inr s"
  shows "fresh_state cf s"
proof (cases "m_jlist opt = []")
  case True
  then obtain t where t: "rfold (\<lambda>_. random_job cf (m_maxlen opt) (m_maxio opt)) [0..<m_numJobs opt] (empty_mlfq cf, ds) = Inr t" "fst t = s"
    using assms by (auto simp: mlfq_jobs_def rbind_eq_Inr)
  have "fresh_state cf (fst t)"
  proof (rule rfold_inv [where P = "\<lambda>st. fresh_state cf (fst st)", OF _ _ t(1)])
    fix k and st st' :: "mlfq \<times> draw list"
    assume "fresh_state cf (fst st)" "random_job cf (m_maxlen opt) (m_maxio opt) st = Inr st'"
    then show "fresh_state cf (fst st')"
      by (auto simp: random_job_def rbind_eq_Inr split: prod.splits dest: new_job_fresh)
  qed (simp add: empty_fresh)
  then show ?thesis using t(2) by simp
next
  case False
  show ?thesis
  proof (rule rfold_inv [where P = "fresh_state cf" and f = "parse_job cf" and s = "empty_mlfq cf" and xs = "py_split CHR '':'' (m_jlist opt)"])
    fix w and t t' :: mlfq assume "fresh_state cf t" "parse_job cf w t = Inr t'"
    then show "fresh_state cf t'" by (auto simp: parse_job_def rbind_eq_Inr split: list.splits dest: new_job_fresh)
  qed (use assms False empty_fresh in \<open>auto simp: mlfq_jobs_def\<close>)
qed

lemma mlfq_config_fields: "mlfq_config opt = Inr cf \<Longrightarrow> ioTime cf = m_ioTime opt"
  by (auto simp: mlfq_config_def Let_def rbind_eq_Inr)

section \<open>Properties\<close>

text \<open>
  C5. The simulation ends. For accepted options with a non-negative I/O time and jobs that start at a non-negative time and run for a
  positive time there is an amount of fuel from which on the loop always returns the same final state, so no \<open>Abort\<close> and no
  \<open>assert\<close> is reached; in it every job has run for exactly its run time, was first run no earlier than it started, and took at least its run time.
\<close>

theorem mlfq_terminates:
  assumes "mlfq_config opt = Inr cf" "mlfq_jobs opt cf ds = Inr s" "job s \<noteq> []" "0 \<le> m_ioTime opt"
    and "\<forall>x \<in> set (job s). 0 \<le> startTime x \<and> 0 < runTime x"
  shows "\<exists>n s'. (\<forall>m \<ge> n. mlfq_loop m cf s = Inr s') \<and> finishedJobs s' = length (job s) \<and>
    (\<forall>j < length (job s). length (filter (is_run j) (trace s')) = nat (runTime (job s ! j)) \<and>
       0 \<le> fst (job_times (job s' ! j)) \<and> runTime (job s ! j) \<le> snd (job_times (job s' ! j)))"
proof -
  have f: "fresh_state cf s" by (rule mlfq_jobs_fresh [OF assms(2)])
  have "Ball (set (job s)) proper_job" using assms(5) by (simp add: proper_job_def)
  then have inv: "mlfq_inv cf (currTime s) s" and cf: "conf_ok cf"
    using f assms(3,4) mlfq_config_fields [OF assms(1)] by (auto simp: fresh_state_def conf_ok_def)
  obtain n s' where n: "\<forall>m \<ge> n. mlfq_loop m cf s = Inr s'" "mlfq_inv cf (currTime s') s'" "\<not> finishedJobs s' < length (job s')"
    "fixed_data s' = fixed_data s"
    using mlfq_loop_ends [OF inv cf] by blast
  have base: "base_inv cf s'" using n(2) by (simp add: mlfq_inv_def)
  note B = base_invD [OF base]
  have len: "length (job s') = length (job s)" using n(4) by (metis fixed_data_def length_map)
  have eq: "finishedJobs s' = length (job s')" using n(3) B(7) length_filter_le [of "\<lambda>x. timeLeft x = 0" "job s'"] by linarith
  then have done0: "timeLeft (job s' ! j) = 0" if "j < length (job s')" for j
    using B(7) that by (metis (mono_tags, lifting) length_filter_less nth_mem less_irrefl)
  have "length (filter (is_run j) (trace s')) = nat (runTime (job s ! j)) \<and>
       0 \<le> fst (job_times (job s' ! j)) \<and> runTime (job s ! j) \<le> snd (job_times (job s' ! j))" if j: "j < length (job s)" for j
  proof -
    have j': "j < length (job s')" using j len by simp
    have "fixed_data s' ! j = fixed_data s ! j" using n(4) by simp
    then have r: "runTime (job s' ! j) = runTime (job s ! j)" using j j' by (simp add: fixed_data_def)
    show ?thesis using B(3,4) [OF j'] done0 [OF j'] r by (auto simp: job_ok_def job_times_def ticks_def)
  qed
  then show ?thesis using n(1) eq len by auto
qed

text \<open>
  C31. Every step runs the front job of the highest non-empty queue, as the queues stand after the boost and the completed I/Os of
  that time, and is idle only when all the queues are empty.
\<close>

theorem mlfq_runs_highest:
  assumes "mlfq_inv cf (currTime s) s" "conf_ok cf"
  shows "\<exists>s'. mlfq_step cf s = Inr s' \<and> (let s1 = deliver_all cf (boost_step cf s) in
    (\<forall>q \<le> hiQueue cf. queue s1 ! q = []) \<and> trace s' = trace s1 @ [Idle (currTime s)] \<or>
    (\<exists>q j rest a b c d more. q \<le> hiQueue cf \<and> queue s1 ! q = j # rest \<and> (\<forall>p. q < p \<and> p \<le> hiQueue cf \<longrightarrow> queue s1 ! p = []) \<and>
       trace s' = trace s1 @ Run (currTime s) j q a b c d # more))"
  using assms
proof (cases rule: mlfq_step_cases)
  case idle
  then show ?thesis by (intro exI conjI) (auto simp: note_event_def)
next
  case (run q j rest x' s' a b c d more)
  have "q \<le> hiQueue cf" using run(2) by (simp add: hiQueue_def)
  then show ?thesis using run by (intro exI [of _ s'] conjI) (auto simp: Let_def)
qed

text \<open>
  C25. Every step keeps the invariant that each unfinished job is in exactly one place, the queue of its priority or one future event, with
  consistent run times and counters.
\<close>

theorem mlfq_step_keeps_jobs:
  assumes "mlfq_inv cf (currTime s) s" "conf_ok cf" "finishedJobs s < length (job s)"
  shows "\<exists>s'. mlfq_step cf s = Inr s' \<and> mlfq_inv cf (currTime s') s' \<and> currTime s' = currTime s + 1"
proof -
  obtain s' where s': "mlfq_step cf s = Inr s'" "mlfq_inv cf (currTime s') s'" using mlfq_step_progress [OF assms] by blast
  have "currTime s' = currTime s + 1"
    using assms(1,2)
  proof (cases rule: mlfq_step_cases)
    case idle
    then show ?thesis using s'(1) by auto
  next
    case (run q j rest x' t a b c d more)
    then show ?thesis using s'(1) ready_inv(2) [OF assms(1,2)] by (auto simp: ran_def)
  qed
  with s' show ?thesis by blast
qed

definition two_queues :: "int \<Rightarrow> bool \<Rightarrow> mlfq_conf" where
  "two_queues io st = \<lparr>quantum = [1, 1], allotment = [1, 1], numQueues = 2, ioTime = io, boost = 0, stay = st, iobump = False\<rparr>"

definition io_job :: "mlfq_conf \<Rightarrow> mlfq res" where
  "io_job cf = new_job cf 0 3 1 (empty_mlfq cf)"

text \<open>
  The option \<open>-S\<close> (\<open>reset and stay at same priority level when issuing I/O\<close>) does not keep a job that issues its I/O in
  the last tick of its slice: the allotment is reset and then still charged, and with an allotment of one slice the job is moved down.
\<close>

theorem mlfq_stay_moves_down:
  "rbind (io_job (two_queues 5 True)) (\<lambda>s. rbind (mlfq_step (two_queues 5 True) s)
     (\<lambda>s'. Inr (map currPri (job s), trace s', map currPri (job s')))) =
   Inr ([1], [Interrupt 0 JOB_BEGINS 0, Run 0 0 1 0 1 2 3, IO_Start 1 0], [0])"
  by code_simp

text \<open>Once every queue is empty and every event is in the past, the loop can only idle.\<close>

lemma stuck_idles:
  assumes "\<forall>q \<le> hiQueue cf. queue s ! q = []" "\<forall>t \<in> fst ` set (ioDone s). t < currTime s" "boost cf = 0"
  shows "mlfq_step cf s = Inr ((note_event (Idle (currTime s)) s)\<lparr>currTime := currTime s + 1\<rparr>)"
proof -
  have "events_at (currTime s) (ioDone s) = []"
    using assms(2) by (cases "map_of (ioDone s) (currTime s)") (auto simp: events_at_def dest!: map_of_SomeD)
  then have "deliver_all cf (boost_step cf s) = s" using assms(3) by (simp add: deliver_all_def boost_step_def)
  then show ?thesis using assms(1) find_from_None [of "hiQueue cf" "queue s"] by (simp add: mlfq_step_def FindQueue_def)
qed

lemma stuck_forever:
  assumes "\<forall>q \<le> hiQueue cf. queue s ! q = []" "\<forall>t \<in> fst ` set (ioDone s). t < currTime s" "boost cf = 0" "finishedJobs s < length (job s)"
  shows "mlfq_loop n cf s = Inl Out_Of_Fuel"
  using assms
proof (induction n arbitrary: s)
  case (Suc n)
  have "mlfq_loop n cf ((note_event (Idle (currTime s)) s)\<lparr>currTime := currTime s + 1\<rparr>) = Inl Out_Of_Fuel"
    by (rule Suc.IH) (use Suc.prems in \<open>auto simp: note_event_def\<close>)
  then show ?case using stuck_idles [OF Suc.prems(1-3)] mlfq_loop_Suc [OF Suc.prems(4)] by simp
qed (simp add: mlfq_loop.simps)

text \<open>
  A negative I/O time, which the options accept, makes the simulation run forever: the end of the I/O is scheduled in the past,
  the job never comes back and the loop idles whatever the fuel.
\<close>

theorem mlfq_negative_io_time_hangs:
  "\<exists>s. io_job (two_queues (- 1) False) = Inr s \<and> (\<forall>n. mlfq_loop n (two_queues (- 1) False) s = Inl Out_Of_Fuel)"
proof -
  let ?cf = "two_queues (- 1) False"
  obtain s where s: "io_job ?cf = Inr s" by (simp add: io_job_def new_job_def two_queues_def)
  obtain s1 where s1: "mlfq_step ?cf s = Inr s1" "queue s1 = [[], []]" "ioDone s1 = [(0, [(0, JOB_BEGINS), (0, IO_DONE)])]" "currTime s1 = 1"
    "finishedJobs s1 = 0" "length (job s1) = 1"
  proof -
    have "rbind (io_job ?cf) (\<lambda>s. rbind (mlfq_step ?cf s) (\<lambda>s1. Inr (queue s1, ioDone s1, currTime s1, finishedJobs s1, length (job s1)))) =
      Inr ([[], []], [(0, [(0, JOB_BEGINS), (0, IO_DONE)])], 1, 0, 1)" by code_simp
    then show ?thesis using s that by (auto simp: rbind_eq_Inr)
  qed
  have f: "finishedJobs s < length (job s)" using s by (auto simp: io_job_def new_job_def two_queues_def empty_mlfq_def)
  have "mlfq_loop n ?cf s1 = Inl Out_Of_Fuel" for n
  proof (rule stuck_forever)
    show "\<forall>q \<le> hiQueue ?cf. queue s1 ! q = []" using s1(2) by (auto simp: two_queues_def hiQueue_def le_Suc_eq)
  qed (use s1 in \<open>simp_all add: two_queues_def\<close>)
  then have "mlfq_loop n ?cf s = Inl Out_Of_Fuel" for n
  proof (cases n)
    case 0
    then show ?thesis using f by (simp add: mlfq_loop.simps)
  next
    case (Suc m)
    then show ?thesis using \<open>\<And>n. mlfq_loop n ?cf s1 = Inl Out_Of_Fuel\<close> s1(1) mlfq_loop_Suc [OF f] by simp
  qed
  then show ?thesis using s by blast
qed

section \<open>Witnesses\<close>

definition demo_options :: mlfq_options where
  "demo_options = mlfq_defaults\<lparr>m_jlist := ''0,3,1:1,2,0'', m_solve := True\<rparr>"

lemma demo_conf: "mlfq_config demo_options = Inr \<lparr>quantum = [10, 10, 10], allotment = [1, 1, 1], numQueues = 3, ioTime = 5, boost = 0, stay = False, iobump = False\<rparr>"
  by code_simp

lemma demo_jobs: "rbind (mlfq_config demo_options) (\<lambda>cf. rbind (mlfq_jobs demo_options cf []) (\<lambda>s. Inr (map (\<lambda>x. (startTime x, runTime x)) (job s)))) =
   Inr [(0, 3), (1, 2)]"
  by code_simp

theorem mlfq_terminates_witness:
  "\<exists>cf s n s'. mlfq_config demo_options = Inr cf \<and> mlfq_jobs demo_options cf [] = Inr s \<and> mlfq_loop n cf s = Inr s' \<and> finishedJobs s' = 2"
proof -
  obtain cf s where s: "mlfq_config demo_options = Inr cf" "mlfq_jobs demo_options cf [] = Inr s"
    "map (\<lambda>x. (startTime x, runTime x)) (job s) = [(0, 3), (1, 2)]"
    using demo_jobs by (auto simp: rbind_eq_Inr)
  obtain x y where xy: "job s = [x, y]" "startTime x = 0" "runTime x = 3" "startTime y = 1" "runTime y = 2"
    using s(3) by (auto simp: map_eq_Cons_conv)
  have l: "length (job s) = 2" and p: "\<forall>x \<in> set (job s). 0 \<le> startTime x \<and> 0 < runTime x" using xy by simp_all
  obtain n s' where "\<forall>m \<ge> n. mlfq_loop m cf s = Inr s'" "finishedJobs s' = length (job s)"
    using mlfq_terminates [OF s(1,2) _ _ p] xy(1) by (auto simp: demo_options_def mlfq_defaults_def)
  then show ?thesis using s(1,2) l by fastforce
qed

lemma demo_state:
  "\<exists>s. io_job (two_queues 5 True) = Inr s \<and> mlfq_inv (two_queues 5 True) (currTime s) s \<and> conf_ok (two_queues 5 True) \<and> finishedJobs s < length (job s)"
proof -
  let ?cf = "two_queues 5 True"
  obtain s where s: "io_job ?cf = Inr s" by (simp add: io_job_def new_job_def two_queues_def)
  have f: "fresh_state ?cf s" using new_job_fresh [OF empty_fresh] s by (simp add: io_job_def)
  have "\<exists>x. job s = [x] \<and> proper_job x" using s by (auto simp: io_job_def new_job_def two_queues_def empty_mlfq_def proper_job_def)
  then show ?thesis using f s by (auto simp: fresh_state_def conf_ok_def two_queues_def)
qed

theorem mlfq_runs_highest_witness:
  "\<exists>s s'. io_job (two_queues 5 True) = Inr s \<and> mlfq_step (two_queues 5 True) s = Inr s'"
  using demo_state mlfq_runs_highest [of "two_queues 5 True"] by blast

theorem mlfq_step_keeps_jobs_witness:
  "\<exists>s s'. io_job (two_queues 5 True) = Inr s \<and> mlfq_step (two_queues 5 True) s = Inr s' \<and> mlfq_inv (two_queues 5 True) (currTime s') s'"
  using demo_state mlfq_step_keeps_jobs [of "two_queues 5 True"] by blast

end
