(* ===== verification/Paging.thy ===== *)
theory Paging
  imports Complex_Main PyString
begin

text \<open>
  The page-replacement simulator of \<open>vm-beyondphys-policy/paging-policy.py\<close>: the reference string, the seven
  policies and the loop over the references. The policies are instances of an interface that promises a victim among the cached
  pages; LRU is shown to keep the most recently used pages, which makes larger caches never worse, unlike FIFO.
\<close>

section \<open>The cache\<close>

datatype policy = FIFO | LRU | MRU | OPT | UNOPT | RAND | CLOCK

text \<open>An address is the result of \<open>int\<close> on it, read when the code reads it.\<close>

type_synonym address = "int res"

record pager =
  memory :: "int list"
  pcount :: int
  hits :: nat
  misses :: nat
  refs :: "(int, int) dict"
  draws :: "draw list"

definition pager_init :: "draw list \<Rightarrow> pager" where
  "pager_init ds = \<lparr>memory = [], pcount = 0, hits = 0, misses = 0, refs = [], draws = ds\<rparr>"

definition pop_at :: "'a list \<Rightarrow> int \<Rightarrow> ('a \<times> 'a list) res" where
  "pop_at xs i = (if 0 \<le> i then py_pop xs (nat i) else if - int (length xs) \<le> i then py_pop xs (nat (int (length xs) + i)) else Inl IndexError)"

text \<open>The next reference to a page from position \<open>i\<close> on, or the length of the reference string.\<close>

fun next_use :: "int \<Rightarrow> address list \<Rightarrow> nat \<Rightarrow> nat res" where
  "next_use page [] i = Inr i"
| "next_use page (a # as) i = rbind a (\<lambda>f. if page = f then Inr i else next_use page as (Suc i))"

definition whenReferenced :: "address list \<Rightarrow> nat \<Rightarrow> int \<Rightarrow> nat res" where
  "whenReferenced as i page = next_use page (drop (Suc i) as) (Suc i)"

text \<open>The scan of the memory by OPT: the latest next use, the last page among equals.\<close>

definition opt_scan :: "address list \<Rightarrow> nat \<Rightarrow> int list \<Rightarrow> (int \<times> int) res" where
  "opt_scan as i mem =
     rfold (\<lambda>k (best, idx). rbind (whenReferenced as i (mem ! k)) (\<lambda>w.
       Inr (if int w \<ge> best then (int w, int k) else (best, idx)))) [0..<length mem] (- 1, - 1)"

definition unopt_scan :: "address list \<Rightarrow> nat \<Rightarrow> int list \<Rightarrow> (int \<times> int) res" where
  "unopt_scan as i mem =
     rfold (\<lambda>k (best, idx). rbind (whenReferenced as i (mem ! k)) (\<lambda>w.
       Inr (if int w < best then (int w, int k) else (best, idx)))) [0..<length mem] (int (length as) + 1, - 1)"

text \<open>The scan of CLOCK picks pages at random, as the code does, until one has no reference left.\<close>

fun clock_scan :: "int \<Rightarrow> int list \<Rightarrow> (int, int) dict \<Rightarrow> draw list \<Rightarrow> (int \<times> int list \<times> (int, int) dict \<times> draw list) res" where
  "clock_scan c mem rf [] = Inl Out_Of_Draws"
| "clock_scan c mem rf (k # ds) =
     rbind (py_get mem (pick_int k c)) (\<lambda>page. rbind (dict_get rf page) (\<lambda>r.
     if r \<ge> 1 then clock_scan c mem (dict_set page (r - 1) rf) ds
     else Inr (page, remove1 page mem, dict_del page rf, ds)))"

definition pop_memory :: "int \<Rightarrow> pager \<Rightarrow> (int \<times> pager) res" where
  "pop_memory i s = rbind (pop_at (memory s) i) (\<lambda>(v, mem). Inr (v, s\<lparr>memory := mem\<rparr>))"

definition evict :: "policy \<Rightarrow> address list \<Rightarrow> nat \<Rightarrow> pager \<Rightarrow> (int \<times> pager) res" where
  "evict p as i s =
     (case p of
        FIFO \<Rightarrow> pop_memory 0 s
      | LRU \<Rightarrow> pop_memory 0 s
      | MRU \<Rightarrow> pop_memory (pcount s - 1) s
      | RAND \<Rightarrow> rbind (next_draw (draws s)) (\<lambda>(k, ds). pop_memory (pick_int k (pcount s)) (s\<lparr>draws := ds\<rparr>))
      | CLOCK \<Rightarrow> rbind (clock_scan (pcount s) (memory s) (refs s) (draws s)) (\<lambda>(v, mem, rf, ds).
          Inr (v, s\<lparr>memory := mem, refs := rf, draws := ds\<rparr>))
      | OPT \<Rightarrow> rbind (opt_scan as i (memory s)) (\<lambda>(_, idx). pop_memory idx s)
      | UNOPT \<Rightarrow> rbind (unopt_scan as i (memory s)) (\<lambda>(_, idx). pop_memory idx s))"

definition touch_ref :: "int \<Rightarrow> int \<Rightarrow> (int, int) dict \<Rightarrow> (int, int) dict" where
  "touch_ref bits n rf =
     (case map_of rf n of
        None \<Rightarrow> dict_set n 1 rf
      | Some r \<Rightarrow> dict_set n (if r + 1 > bits then bits else r + 1) rf)"

text \<open>
  One reference under any replacement: whether a hit moves the page to the recent end, and the choice of the victim, are
  parameters. What is printed is the page, whether it hit, and the victim (\<open>-1\<close> for none).
\<close>

definition access_with ::
  "bool \<Rightarrow> (address list \<Rightarrow> nat \<Rightarrow> pager \<Rightarrow> (int \<times> pager) res) \<Rightarrow> int \<Rightarrow> int \<Rightarrow> address list \<Rightarrow> nat \<Rightarrow> pager \<Rightarrow>
   ((int \<times> bool \<times> int) \<times> pager) res" where
  "access_with moves victim cachesize bits as i s =
     rbind (as ! i) (\<lambda>n.
     rbind
       (if n \<in> set (memory s) then
          Inr (True, - 1, s\<lparr>hits := hits s + 1, memory := if moves then remove1 n (memory s) @ [n] else memory s\<rparr>)
        else
          let s1 = s\<lparr>misses := misses s + 1\<rparr> in
          rbind (if pcount s1 = cachesize then victim as i s1 else Inr (- 1, s1\<lparr>pcount := pcount s1 + 1\<rparr>)) (\<lambda>(v, s2).
          let s3 = s2\<lparr>memory := memory s2 @ [n]\<rparr> in
          rbind (py_assert (v \<noteq> - 1 \<longrightarrow> v \<notin> set (memory s3))) (\<lambda>_. Inr (False, v, s3))))
       (\<lambda>(hit, v, s). Inr ((n, hit, v), s\<lparr>refs := touch_ref bits n (refs s)\<rparr>)))"

definition access_page :: "policy \<Rightarrow> int \<Rightarrow> int \<Rightarrow> address list \<Rightarrow> nat \<Rightarrow> pager \<Rightarrow> ((int \<times> bool \<times> int) \<times> pager) res" where
  "access_page p = access_with (p = LRU \<or> p = MRU) (evict p)"

definition paging_run :: "policy \<Rightarrow> int \<Rightarrow> int \<Rightarrow> address list \<Rightarrow> draw list \<Rightarrow> ((int \<times> bool \<times> int) list \<times> pager) res" where
  "paging_run p cachesize bits as ds =
     rfold (\<lambda>i (out, s). rbind (access_page p cachesize bits as i s) (\<lambda>(e, s). Inr (out @ [e], s))) [0..<length as] ([], pager_init ds)"

section \<open>The main program\<close>

record paging_options =
  p_addresses :: string
  p_file :: "string list option"
  p_numaddrs :: string
  p_policy :: string
  p_clockbits :: int
  p_cachesize :: string
  p_seed :: string
  p_maxpage :: string
  p_solve :: bool

definition paging_defaults :: paging_options where
  "paging_defaults = \<lparr>p_addresses = ''-1'', p_file = None, p_numaddrs = ''10'', p_policy = ''FIFO'', p_clockbits = 2,
     p_cachesize = ''3'', p_seed = ''0'', p_maxpage = ''10'', p_solve = False\<rparr>"

definition policy_named :: "string \<Rightarrow> policy res" where
  "policy_named w =
     (if w = ''FIFO'' then Inr FIFO else if w = ''LRU'' then Inr LRU else if w = ''MRU'' then Inr MRU
      else if w = ''OPT'' then Inr OPT else if w = ''RAND'' then Inr RAND else if w = ''UNOPT'' then Inr UNOPT
      else if w = ''CLOCK'' then Inr CLOCK else Inl (SystemExit 1))"

definition random_addresses :: "int \<Rightarrow> int \<Rightarrow> draw list \<Rightarrow> (address list \<times> draw list) res" where
  "random_addresses n maxpage ds =
     rfold (\<lambda>_ (as, ds). rbind (next_draw ds) (\<lambda>(k, ds). Inr (as @ [Inr (pick_int k maxpage)], ds))) [0..<nat n] ([], ds)"

text \<open>A file gives its lines, all read at once; a list is split and its items are read later.\<close>

definition read_addresses :: "paging_options \<Rightarrow> int \<Rightarrow> int \<Rightarrow> draw list \<Rightarrow> (address list \<times> draw list) res" where
  "read_addresses opt n maxpage ds =
     (case p_file opt of
        Some ls \<Rightarrow> rbind (rfold (\<lambda>l as. rbind (py_int l) (\<lambda>a. Inr (as @ [Inr a]))) ls []) (\<lambda>as. Inr (as, ds))
      | None \<Rightarrow>
          if p_addresses opt = ''-1'' then random_addresses n maxpage ds
          else Inr (map py_int (py_split CHR '','' (p_addresses opt)), ds))"

definition hitrate :: "pager \<Rightarrow> rat res" where
  "hitrate s = (if hits s + misses s = 0 then Inl ZeroDivisionError
     else Inr (100 * of_nat (hits s) / (of_nat (hits s) + of_nat (misses s))))"

text \<open>Without \<open>-c\<close> only the references are printed and there is no result.\<close>

definition paging_main :: "paging_options \<Rightarrow> draw list \<Rightarrow> ((int \<times> bool \<times> int) list \<times> nat \<times> nat \<times> rat) option res" where
  "paging_main opt ds =
     rbind (py_int (p_numaddrs opt)) (\<lambda>n.
     rbind (py_int (p_cachesize opt)) (\<lambda>cs.
     rbind (py_int (p_seed opt)) (\<lambda>_.
     rbind (py_int (p_maxpage opt)) (\<lambda>mp.
     rbind (read_addresses opt n mp ds) (\<lambda>(as, ds).
     if \<not> p_solve opt then rbind (rfold (\<lambda>a u. rbind a (\<lambda>_. Inr u)) as ()) (\<lambda>_. Inr None)
     else
       rbind (policy_named (p_policy opt)) (\<lambda>p.
       rbind (paging_run p cs (p_clockbits opt) as ds) (\<lambda>(out, s).
       rbind (hitrate s) (\<lambda>h. Inr (Some (out, hits s, misses s, h))))))))))"


section \<open>Replacement as an interface\<close>

text \<open>What the loop over the references relies on: a victim is a cached page, it leaves the cache, and nothing else changes.\<close>

definition evicts :: "int \<Rightarrow> pager \<Rightarrow> pager \<Rightarrow> bool" where
  "evicts v s s' \<longleftrightarrow> v \<in> set (memory s) \<and> memory s' = remove1 v (memory s) \<and> pcount s' = pcount s \<and>
     hits s' = hits s \<and> misses s' = misses s \<and> set (draws s') \<subseteq> set (draws s)"

definition cache_ok :: "int \<Rightarrow> pager \<Rightarrow> bool" where
  "cache_ok cs s \<longleftrightarrow> distinct (memory s) \<and> pcount s = int (length (memory s)) \<and> pcount s \<le> cs \<and> (\<forall>k \<in> set (draws s). valid_draw k)"

definition accessed :: "int \<Rightarrow> int \<Rightarrow> bool \<Rightarrow> pager \<Rightarrow> pager \<Rightarrow> bool" where
  "accessed cs n hit s s' \<longleftrightarrow> (hit \<longleftrightarrow> n \<in> set (memory s)) \<and>
     (if hit then hits s' = hits s + 1 \<and> misses s' = misses s \<and> set (memory s') = set (memory s) \<and> pcount s' = pcount s
      else hits s' = hits s \<and> misses s' = misses s + 1 \<and>
        (if pcount s = cs then pcount s' = cs \<and> (\<exists>v \<in> set (memory s). set (memory s') = insert n (set (memory s) - {v}))
         else pcount s' = pcount s + 1 \<and> set (memory s') = insert n (set (memory s))))"

text \<open>The counters against the references seen so far: every page costs at least its first miss, and no more when all fit.\<close>

definition stats_ok :: "int \<Rightarrow> int list \<Rightarrow> pager \<Rightarrow> bool" where
  "stats_ok cs seen s \<longleftrightarrow> set (memory s) \<subseteq> set seen \<and> hits s + misses s = length seen \<and> card (set seen) \<le> misses s \<and>
     (seen \<noteq> [] \<longrightarrow> last seen \<in> set (memory s)) \<and>
     (int (card (set seen)) \<le> cs \<longrightarrow> misses s = card (set seen) \<and> set (memory s) = set seen) \<and>
     (cs \<le> int (card (set seen)) \<longrightarrow> pcount s = cs)"

lemma stats_init: "0 < cs \<Longrightarrow> stats_ok cs [] (pager_init ds)"
  by (simp add: stats_ok_def pager_init_def)

lemma stats_step:
  assumes ok: "stats_ok cs seen s" and cache: "cache_ok cs s" and acc: "accessed cs n hit s s'" and pos: "0 < cs"
  shows "stats_ok cs (seen @ [n]) s'"
proof (cases "n \<in> set (memory s)")
  case True
  then have "insert n (set seen) = set seen" using ok by (auto simp: stats_ok_def)
  then show ?thesis using ok acc True by (auto simp: stats_ok_def accessed_def)
next
  case False
  have sub: "set (memory s) \<subseteq> set seen" using ok by (simp add: stats_ok_def)
  have cm: "card (set (memory s)) = length (memory s)" using cache by (simp add: cache_ok_def distinct_card)
  show ?thesis
  proof (cases "n \<in> set seen")
    case True
    then have ins: "insert n (set seen) = set seen" by auto
    have "\<not> int (card (set seen)) \<le> cs" using ok True False by (auto simp: stats_ok_def)
    then have pc: "pcount s = cs" "cs < int (card (set seen))" using ok by (auto simp: stats_ok_def)
    have "set (memory s') \<subseteq> set seen" "n \<in> set (memory s')" "pcount s' = cs" "hits s' = hits s" "misses s' = misses s + 1"
      using acc False pc sub True by (auto simp: accessed_def split: if_splits)
    then show ?thesis using ok pc ins by (simp add: stats_ok_def)
  next
    case new: False
    have card: "card (insert n (set seen)) = card (set seen) + 1" using new by simp
    show ?thesis
    proof (cases "int (card (set seen)) < cs")
      case True
      then have eq: "set (memory s) = set seen" "misses s = card (set seen)" using ok by (auto simp: stats_ok_def)
      then have pc: "pcount s = int (card (set seen))" using cm cache by (simp add: cache_ok_def)
      have "pcount s \<noteq> cs" using pc True by simp
      then show ?thesis using ok acc False eq pc card True by (auto simp: stats_ok_def accessed_def)
    next
      case full: False
      then have pc: "pcount s = cs" using ok by (auto simp: stats_ok_def)
      have "set (memory s') \<subseteq> insert n (set seen)" "n \<in> set (memory s')" "pcount s' = cs" "hits s' = hits s"
          "misses s' = misses s + 1"
        using acc False pc sub by (auto simp: accessed_def split: if_splits)
      then show ?thesis using ok full card by (simp add: stats_ok_def)
    qed
  qed
qed

text \<open>
  A replacement policy: whether it draws random numbers, what it needs of the reference counts, and how many draws it may
  use beyond one for an eviction.
\<close>

locale replacement =
  fixes victim :: "address list \<Rightarrow> nat \<Rightarrow> pager \<Rightarrow> (int \<times> pager) res"
    and random :: bool
    and tracked :: "int list \<Rightarrow> (int, int) dict \<Rightarrow> bool"
    and budget :: "int list \<Rightarrow> (int, int) dict \<Rightarrow> nat"
  assumes victim_law: "cache_ok cs s \<Longrightarrow> memory s \<noteq> [] \<Longrightarrow> tracked (memory s) (refs s) \<Longrightarrow> i < length pages \<Longrightarrow>
      (random \<Longrightarrow> budget (memory s) (refs s) < length (draws s)) \<Longrightarrow>
      \<exists>v s'. victim (map Inr pages) i s = Inr (v, s') \<and> evicts v s s' \<and> tracked (memory s') (refs s') \<and>
        (random \<longrightarrow> length (draws s) + budget (memory s') (refs s') \<le> length (draws s') + budget (memory s) (refs s) + 1)"
    and fill_law: "tracked mem rf \<Longrightarrow> n \<notin> set mem \<Longrightarrow>
      tracked (mem @ [n]) (touch_ref bits n rf) \<and> budget (mem @ [n]) (touch_ref bits n rf) \<le> budget mem rf + 1"
    and hit_law: "tracked mem rf \<Longrightarrow> distinct mem \<Longrightarrow> n \<in> set mem \<Longrightarrow> set mem' = set mem \<Longrightarrow> distinct mem' \<Longrightarrow>
      tracked mem' (touch_ref bits n rf) \<and> budget mem' (touch_ref bits n rf) \<le> budget mem rf + 1"
    and empty_law: "tracked [] [] \<and> budget [] [] = 0"
begin

lemma access_hit:
  assumes ok: "cache_ok cs s" and tr: "tracked (memory s) (refs s)" and i: "i < length pages" and hit: "pages ! i \<in> set (memory s)"
  shows "\<exists>s'. access_with moves victim cs bits (map Inr pages) i s = Inr ((pages ! i, True, - 1), s') \<and> cache_ok cs s' \<and>
    tracked (memory s') (refs s') \<and> accessed cs (pages ! i) True s s' \<and> draws s' = draws s \<and>
    budget (memory s') (refs s') \<le> budget (memory s) (refs s) + 1"
proof -
  let ?n = "pages ! i"
  define mem where "mem = (if moves then remove1 ?n (memory s) @ [?n] else memory s)"
  have d: "distinct (memory s)" using ok by (simp add: cache_ok_def)
  have mem: "set mem = set (memory s)" "distinct mem" "length mem = length (memory s)"
    using d hit length_pos_if_in_set [OF hit] by (auto simp: mem_def length_remove1 set_remove1_eq)
  have "access_with moves victim cs bits (map Inr pages) i s =
      Inr ((?n, True, - 1), s\<lparr>hits := hits s + 1, memory := mem, refs := touch_ref bits ?n (refs s)\<rparr>)"
    using i hit by (simp add: access_with_def mem_def)
  then show ?thesis
    using ok hit mem hit_law [OF tr d hit mem(1,2)] by (simp add: cache_ok_def accessed_def)
qed

lemma access_miss:
  assumes ok: "cache_ok cs s" and tr: "tracked (memory s) (refs s)" and i: "i < length pages" and pos: "0 < cs"
    and miss: "pages ! i \<notin> set (memory s)" and enough: "random \<Longrightarrow> budget (memory s) (refs s) < length (draws s)"
  shows "\<exists>v s'. access_with moves victim cs bits (map Inr pages) i s = Inr ((pages ! i, False, v), s') \<and> cache_ok cs s' \<and>
    tracked (memory s') (refs s') \<and> accessed cs (pages ! i) False s s' \<and>
    (random \<longrightarrow> length (draws s) + budget (memory s') (refs s') \<le> length (draws s') + budget (memory s) (refs s) + 2)"
proof (cases "pcount s = cs")
  case False
  let ?n = "pages ! i"
  let ?s = "s\<lparr>misses := misses s + 1, pcount := pcount s + 1, memory := memory s @ [?n], refs := touch_ref bits ?n (refs s)\<rparr>"
  have run: "access_with moves victim cs bits (map Inr pages) i s = Inr ((?n, False, - 1), ?s)"
    using i miss False by (simp add: access_with_def)
  have "cache_ok cs ?s" "accessed cs ?n False s ?s"
    using ok miss False by (simp_all add: cache_ok_def accessed_def)
  then show ?thesis using run fill_law [OF tr miss, of bits] by auto
next
  case True
  let ?n = "pages ! i"
  let ?s = "s\<lparr>misses := misses s + 1\<rparr>"
  have ne: "memory ?s \<noteq> []" using True pos ok by (auto simp: cache_ok_def)
  have ok1: "cache_ok cs ?s" using ok by (simp add: cache_ok_def)
  obtain v t where v: "victim (map Inr pages) i ?s = Inr (v, t)" and ev: "evicts v ?s t" and tr': "tracked (memory t) (refs t)"
    and bud: "random \<longrightarrow> length (draws ?s) + budget (memory t) (refs t) \<le> length (draws t) + budget (memory ?s) (refs ?s) + 1"
    using victim_law [OF ok1 ne _ i] tr enough by auto
  let ?t = "t\<lparr>memory := memory t @ [?n], refs := touch_ref bits ?n (refs t)\<rparr>"
  have d: "distinct (memory s)" using ok by (simp add: cache_ok_def)
  have mem: "memory t = remove1 v (memory s)" "v \<in> set (memory s)" using ev by (simp_all add: evicts_def)
  have fresh: "?n \<notin> set (memory t)" "v \<notin> set (memory t)" "v \<noteq> ?n" using mem miss d by auto
  have run: "access_with moves victim cs bits (map Inr pages) i s = Inr ((?n, False, v), ?t)"
    using i miss True v fresh by (simp add: access_with_def)
  have "cache_ok cs ?t"
    using ok ev fresh mem d length_pos_if_in_set [OF mem(2)] by (auto simp: cache_ok_def evicts_def length_remove1)
  moreover have "accessed cs ?n False s ?t"
    using ev True miss d mem by (auto simp: accessed_def evicts_def set_remove1_eq)
  ultimately show ?thesis using run fill_law [OF tr' fresh(1), of bits] bud by auto
qed

lemma run_total:
  assumes pos: "0 < cs" and valid: "\<forall>k \<in> set ds. valid_draw k" and enough: "random \<Longrightarrow> 2 * length pages \<le> length ds"
    and k: "k \<le> length pages"
  shows "\<exists>out s. rfold (\<lambda>i (out, s). rbind (access_with moves victim cs bits (map Inr pages) i s) (\<lambda>(e, s). Inr (out @ [e], s)))
      [0..<k] ([], pager_init ds) = Inr (out, s) \<and> map fst out = take k pages \<and> cache_ok cs s \<and> tracked (memory s) (refs s) \<and>
    stats_ok cs (take k pages) s \<and>
    (random \<longrightarrow> 2 * (length pages - k) + budget (memory s) (refs s) \<le> length (draws s))"
  using k
proof (induction k)
  case 0
  show ?case
    using pos valid enough empty_law stats_init [OF pos, of ds] by (simp add: cache_ok_def pager_init_def)
next
  case (Suc k)
  let ?f = "\<lambda>i (out, s). rbind (access_with moves victim cs bits (map Inr pages) i s) (\<lambda>(e, s). Inr (out @ [e], s))"
  have i: "k < length pages" using Suc.prems by simp
  obtain out s where run: "rfold ?f [0..<k] ([], pager_init ds) = Inr (out, s)" and out: "map fst out = take k pages"
    and ok: "cache_ok cs s" and tr: "tracked (memory s) (refs s)" and st: "stats_ok cs (take k pages) s"
    and bud: "random \<Longrightarrow> 2 * (length pages - k) + budget (memory s) (refs s) \<le> length (draws s)"
    using Suc i by auto
  have "\<exists>hit v s'. access_with moves victim cs bits (map Inr pages) k s = Inr ((pages ! k, hit, v), s') \<and> cache_ok cs s' \<and>
    tracked (memory s') (refs s') \<and> accessed cs (pages ! k) hit s s' \<and>
    (random \<longrightarrow> length (draws s) + budget (memory s') (refs s') \<le> length (draws s') + budget (memory s) (refs s) + 2)"
  proof (cases "pages ! k \<in> set (memory s)")
    case True
    show ?thesis using access_hit [OF ok tr i True, of moves bits] by fastforce
  next
    case False
    have "random \<Longrightarrow> budget (memory s) (refs s) < length (draws s)" using bud i by simp
    then show ?thesis using access_miss [OF ok tr i pos False, of moves bits] by fastforce
  qed
  then obtain hit v s' where acc: "access_with moves victim cs bits (map Inr pages) k s = Inr ((pages ! k, hit, v), s')"
    and ok': "cache_ok cs s'" and tr': "tracked (memory s') (refs s')" and rel: "accessed cs (pages ! k) hit s s'"
    and bud': "random \<Longrightarrow> length (draws s) + budget (memory s') (refs s') \<le> length (draws s') + budget (memory s) (refs s) + 2"
    by auto
  have tk: "take (Suc k) pages = take k pages @ [pages ! k]" using i by (simp add: take_Suc_conv_app_nth)
  have "rfold ?f [0..<Suc k] ([], pager_init ds) = Inr (out @ [(pages ! k, hit, v)], s')"
    using run acc by (simp add: rfold_append)
  moreover have "random \<longrightarrow> 2 * (length pages - Suc k) + budget (memory s') (refs s') \<le> length (draws s')"
    using bud bud' i by auto
  ultimately show ?case
    using out ok' tr' stats_step [OF st ok rel pos] tk by auto
qed

end


section \<open>The seven policies\<close>

lemma delete_at_distinct: "distinct xs \<Longrightarrow> i < length xs \<Longrightarrow> delete_at i xs = remove1 (xs ! i) xs"
proof (induction xs arbitrary: i)
  case (Cons x xs)
  then show ?case by (cases i) auto
qed simp

lemma pop_memory_evicts:
  assumes "distinct (memory s)" and "0 \<le> i" and "i < int (length (memory s))"
  shows "\<exists>v s'. pop_memory i s = Inr (v, s') \<and> evicts v s s' \<and> refs s' = refs s \<and> draws s' = draws s \<and> v = memory s ! nat i"
  using assms by (auto simp: pop_memory_def pop_at_def py_pop_def evicts_def delete_at_distinct)

text \<open>The position of the next reference, as a number: the first position after \<open>i\<close> that holds the page.\<close>

fun first_use :: "int \<Rightarrow> int list \<Rightarrow> nat \<Rightarrow> nat" where
  "first_use page [] i = i"
| "first_use page (f # fs) i = (if page = f then i else first_use page fs (Suc i))"

lemma next_use_first: "next_use page (map Inr fs) i = Inr (first_use page fs i)"
  by (induction fs arbitrary: i) auto

lemma first_use_le: "first_use page fs i \<le> i + length fs"
proof (induction fs arbitrary: i)
  case (Cons f fs)
  show ?case using Cons.IH [of "Suc i"] by simp
qed simp

definition use_after :: "int list \<Rightarrow> nat \<Rightarrow> int \<Rightarrow> nat" where
  "use_after pages i page = first_use page (drop (Suc i) pages) (Suc i)"

lemma whenReferenced_use: "whenReferenced (map Inr pages) i page = Inr (use_after pages i page)"
  by (simp add: whenReferenced_def use_after_def drop_map next_use_first)

lemma use_after_le: "i < length pages \<Longrightarrow> use_after pages i page \<le> length pages"
  using first_use_le [of page "drop (Suc i) pages" "Suc i"] by (simp add: use_after_def)

lemma opt_scan_prefix:
  "k \<le> length mem \<Longrightarrow> \<exists>best idx.
     rfold (\<lambda>k (best, idx). rbind (whenReferenced (map Inr pages) i (mem ! k)) (\<lambda>w.
       Inr (if int w \<ge> best then (int w, int k) else (best, idx)))) [0..<k] (- 1, - 1) = Inr (best, idx) \<and>
     (k = 0 \<longrightarrow> best = - 1) \<and>
     (0 < k \<longrightarrow> 0 \<le> idx \<and> idx < int k \<and> best = int (use_after pages i (mem ! nat idx))) \<and>
     (\<forall>j < k. int (use_after pages i (mem ! j)) \<le> best)"
proof (induction k)
  case (Suc k)
  then obtain best idx where "rfold (\<lambda>k (best, idx). rbind (whenReferenced (map Inr pages) i (mem ! k)) (\<lambda>w.
       Inr (if int w \<ge> best then (int w, int k) else (best, idx)))) [0..<k] (- 1, - 1) = Inr (best, idx)"
    and "k = 0 \<longrightarrow> best = - 1" and "0 < k \<longrightarrow> 0 \<le> idx \<and> idx < int k \<and> best = int (use_after pages i (mem ! nat idx))"
    and "\<forall>j < k. int (use_after pages i (mem ! j)) \<le> best"
    by auto
  then show ?case
    by (cases "k = 0") (auto simp: rfold_append whenReferenced_use less_Suc_eq)
qed simp

lemma opt_scan_latest:
  assumes "mem \<noteq> []"
  shows "\<exists>best idx. opt_scan (map Inr pages) i mem = Inr (best, idx) \<and> 0 \<le> idx \<and> idx < int (length mem) \<and>
    (\<forall>x \<in> set mem. use_after pages i x \<le> use_after pages i (mem ! nat idx))"
  using assms opt_scan_prefix [of "length mem" mem pages i] by (auto simp: opt_scan_def in_set_conv_nth)

lemma unopt_scan_prefix:
  assumes i: "i < length pages"
  shows "k \<le> length mem \<Longrightarrow> \<exists>best idx.
     rfold (\<lambda>k (best, idx). rbind (whenReferenced (map Inr pages) i (mem ! k)) (\<lambda>w.
       Inr (if int w < best then (int w, int k) else (best, idx)))) [0..<k] (int (length pages) + 1, - 1) = Inr (best, idx) \<and>
     (k = 0 \<longrightarrow> best = int (length pages) + 1) \<and>
     (0 < k \<longrightarrow> 0 \<le> idx \<and> idx < int k \<and> best = int (use_after pages i (mem ! nat idx))) \<and>
     (\<forall>j < k. best \<le> int (use_after pages i (mem ! j)))"
proof (induction k)
  case (Suc k)
  then obtain best idx where "rfold (\<lambda>k (best, idx). rbind (whenReferenced (map Inr pages) i (mem ! k)) (\<lambda>w.
       Inr (if int w < best then (int w, int k) else (best, idx)))) [0..<k] (int (length pages) + 1, - 1) = Inr (best, idx)"
    and "k = 0 \<longrightarrow> best = int (length pages) + 1"
    and "0 < k \<longrightarrow> 0 \<le> idx \<and> idx < int k \<and> best = int (use_after pages i (mem ! nat idx))"
    and "\<forall>j < k. best \<le> int (use_after pages i (mem ! j))"
    by auto
  then show ?case
    using use_after_le [OF i, of "mem ! k"] by (cases "k = 0") (auto simp: rfold_append whenReferenced_use less_Suc_eq)
qed simp

lemma unopt_scan_soonest:
  assumes "mem \<noteq> []" and "i < length pages"
  shows "\<exists>best idx. unopt_scan (map Inr pages) i mem = Inr (best, idx) \<and> 0 \<le> idx \<and> idx < int (length mem) \<and>
    (\<forall>x \<in> set mem. use_after pages i (mem ! nat idx) \<le> use_after pages i x)"
  using assms unopt_scan_prefix [of i pages "length mem" mem] by (auto simp: unopt_scan_def in_set_conv_nth)

text \<open>All policies but RAND and CLOCK choose a position of the memory without a draw.\<close>

lemma scanned_evicts:
  assumes ok: "cache_ok cs s" and ne: "memory s \<noteq> []" and i: "i < length pages" and p: "p \<notin> {RAND, CLOCK}"
  shows "\<exists>v s'. evict p (map Inr pages) i s = Inr (v, s') \<and> evicts v s s' \<and> refs s' = refs s \<and> draws s' = draws s \<and>
    (p = OPT \<longrightarrow> (\<forall>x \<in> set (memory s). use_after pages i x \<le> use_after pages i v)) \<and>
    (p = UNOPT \<longrightarrow> (\<forall>x \<in> set (memory s). use_after pages i v \<le> use_after pages i x)) \<and>
    (p \<in> {FIFO, LRU} \<longrightarrow> v = hd (memory s)) \<and> (p = MRU \<longrightarrow> v = last (memory s))"
proof -
  have d: "distinct (memory s)" and pc: "pcount s = int (length (memory s))" using ok by (simp_all add: cache_ok_def)
  have len: "0 < length (memory s)" using ne by simp
  have pop: "\<exists>v s'. pop_memory j s = Inr (v, s') \<and> evicts v s s' \<and> refs s' = refs s \<and> draws s' = draws s \<and> v = memory s ! nat j"
    if "0 \<le> j" "j < int (length (memory s))" for j
    using pop_memory_evicts [OF d that] .
  show ?thesis
  proof (cases p)
    case FIFO then show ?thesis using pop [of 0] len ne by (auto simp: evict_def hd_conv_nth)
  next
    case LRU then show ?thesis using pop [of 0] len ne by (auto simp: evict_def hd_conv_nth)
  next
    case MRU then show ?thesis using pop [of "pcount s - 1"] len pc ne by (auto simp: evict_def last_conv_nth nat_diff_distrib)
  next
    case OPT then show ?thesis using opt_scan_latest [OF ne, of pages i] pop by (fastforce simp: evict_def)
  next
    case UNOPT then show ?thesis using unopt_scan_soonest [OF ne i] pop by (fastforce simp: evict_def)
  qed (use p in auto)
qed

lemma drawn_evicts:
  assumes ok: "cache_ok cs s" and ne: "memory s \<noteq> []" and ds: "0 < length (draws s)"
  shows "\<exists>v s'. evict RAND as i s = Inr (v, s') \<and> evicts v s s' \<and> length (draws s) = length (draws s') + 1"
proof -
  obtain k ds' where ks: "draws s = k # ds'" using ds by (cases "draws s") auto
  have len: "0 < pcount s" "pcount s = int (length (memory s))" "distinct (memory s)" "valid_draw k"
    using ok ne ks by (auto simp: cache_ok_def)
  then show ?thesis
    using pop_memory_evicts [of "s\<lparr>draws := ds'\<rparr>" "pick_int k (pcount s)"] pick_int_range [OF len(4,1)] ks
    by (fastforce simp: evict_def evicts_def)
qed


text \<open>CLOCK: every draw lowers a count or ends the scan, so the counts of the cached pages pay for the draws.\<close>

definition clock_budget :: "int list \<Rightarrow> (int, int) dict \<Rightarrow> nat" where
  "clock_budget mem rf = (\<Sum>x \<in> set mem. nat (the (map_of rf x)))"

definition clock_tracked :: "int list \<Rightarrow> (int, int) dict \<Rightarrow> bool" where
  "clock_tracked mem rf \<longleftrightarrow> dict_keys rf = set mem"

lemma clock_budget_set:
  "clock_budget mem (dict_set n r rf) = clock_budget (filter (\<lambda>x. x \<noteq> n) mem) rf + (if n \<in> set mem then nat r else 0)"
proof (cases "n \<in> set mem")
  case True
  have "clock_budget mem (dict_set n r rf) = nat r + (\<Sum>x \<in> set mem - {n}. nat (the (map_of (dict_set n r rf) x)))"
    using True sum.remove [of "set mem" n "\<lambda>x. nat (the (map_of (dict_set n r rf) x))"] by (simp add: clock_budget_def)
  also have "(\<Sum>x \<in> set mem - {n}. nat (the (map_of (dict_set n r rf) x))) = clock_budget (filter (\<lambda>x. x \<noteq> n) mem) rf"
    unfolding clock_budget_def by (rule sum.cong) auto
  finally show ?thesis using True by simp
next
  case False
  then have f: "filter (\<lambda>x. x \<noteq> n) mem = mem" by (auto simp: filter_id_conv)
  have "clock_budget mem (dict_set n r rf) = clock_budget mem rf"
    unfolding clock_budget_def by (rule sum.cong) (use False in auto)
  then show ?thesis using False f by simp
qed

lemma clock_budget_split:
  "n \<in> set mem \<Longrightarrow> clock_budget mem rf = clock_budget (filter (\<lambda>x. x \<noteq> n) mem) rf + nat (the (map_of rf n))"
proof -
  assume n: "n \<in> set mem"
  have "clock_budget (filter (\<lambda>x. x \<noteq> n) mem) rf = (\<Sum>x \<in> set mem - {n}. nat (the (map_of rf x)))"
    unfolding clock_budget_def by (rule sum.cong) auto
  then show ?thesis
    using n sum.remove [of "set mem" n "\<lambda>x. nat (the (map_of rf x))"] by (simp add: clock_budget_def)
qed

lemma clock_budget_cong: "set mem = set mem' \<Longrightarrow> clock_budget mem rf = clock_budget mem' rf"
  by (simp add: clock_budget_def)

lemma clock_scan_runs:
  assumes "distinct mem" and "mem \<noteq> []" and "clock_tracked mem rf" and "clock_budget mem rf < length ds" and "\<forall>k \<in> set ds. valid_draw k"
  shows "\<exists>v rf' ds'. clock_scan (int (length mem)) mem rf ds = Inr (v, remove1 v mem, rf', ds') \<and> v \<in> set mem \<and>
    clock_tracked (remove1 v mem) rf' \<and> set ds' \<subseteq> set ds \<and>
    length ds + clock_budget (remove1 v mem) rf' \<le> length ds' + clock_budget mem rf + 1"
  using assms
proof (induction ds arbitrary: rf)
  case (Cons k ds)
  let ?c = "int (length mem)"
  have r: "0 \<le> pick_int k ?c" "pick_int k ?c < ?c" using pick_int_range [of k ?c] Cons.prems by auto
  define page where "page = mem ! nat (pick_int k ?c)"
  have get: "py_get mem (pick_int k ?c) = Inr page" and page: "page \<in> set mem"
    using r by (auto simp: py_get_def page_def)
  obtain q where q: "map_of rf page = Some q"
    using page Cons.prems(3) dict_keys_map_of [of page rf] by (auto simp: clock_tracked_def)
  then have dg: "dict_get rf page = Inr q" by (simp add: dict_get_def)
  show ?case
  proof (cases "q \<ge> 1")
    case True
    let ?rf = "dict_set page (q - 1) rf"
    have less: "clock_budget mem ?rf + 1 = clock_budget mem rf"
      using page q True by (simp add: clock_budget_set clock_budget_split [OF page, of rf])
    have tr: "clock_tracked mem ?rf" using Cons.prems(3) page by (auto simp: clock_tracked_def)
    have step: "clock_scan ?c mem rf (k # ds) = clock_scan ?c mem ?rf ds" using get dg True by simp
    have lt: "clock_budget mem ?rf < length ds" using less Cons.prems(4) by simp
    have va: "\<forall>k \<in> set ds. valid_draw k" using Cons.prems(5) by simp
    obtain v rf' ds' where rec: "clock_scan ?c mem ?rf ds = Inr (v, remove1 v mem, rf', ds')" "v \<in> set mem"
      "clock_tracked (remove1 v mem) rf'" "set ds' \<subseteq> set ds"
      "length ds + clock_budget (remove1 v mem) rf' \<le> length ds' + clock_budget mem ?rf + 1"
      using Cons.IH [OF Cons.prems(1,2) tr lt va] by auto
    have "length (k # ds) + clock_budget (remove1 v mem) rf' \<le> length ds' + clock_budget mem rf + 1" using rec(5) less by simp
    then show ?thesis using rec step by auto
  next
    case False
    let ?rf = "dict_del page rf"
    have step: "clock_scan ?c mem rf (k # ds) = Inr (page, remove1 page mem, ?rf, ds)" using get dg False by simp
    have tr: "clock_tracked (remove1 page mem) ?rf"
      using Cons.prems(1,3) by (auto simp: clock_tracked_def dict_keys_map_of set_eq_iff split: if_splits)
    have "clock_budget (remove1 page mem) ?rf = clock_budget (remove1 page mem) rf"
      unfolding clock_budget_def using Cons.prems(1) by (auto intro!: sum.cong)
    also have "\<dots> \<le> clock_budget mem rf"
      unfolding clock_budget_def by (rule sum_mono2) (simp_all add: set_remove1_subset)
    finally have "length (k # ds) + clock_budget (remove1 page mem) ?rf \<le> length ds + clock_budget mem rf + 1" by simp
    moreover have "set ds \<subseteq> set (k # ds)" by auto
    ultimately show ?thesis using step tr page by blast
  qed
qed simp

lemma clock_touch:
  assumes tr: "dict_keys rf = set mem" and mem': "set mem' = insert n (set mem)"
  shows "clock_tracked mem' (touch_ref bits n rf) \<and> clock_budget mem' (touch_ref bits n rf) \<le> clock_budget mem rf + 1"
proof -
  have n: "n \<in> set mem'" using mem' by simp
  have filt: "clock_budget (filter (\<lambda>x. x \<noteq> n) mem') rf = clock_budget (filter (\<lambda>x. x \<noteq> n) mem) rf"
    by (rule clock_budget_cong) (use mem' in auto)
  show ?thesis
  proof (cases "map_of rf n")
    case None
    then have "n \<notin> set mem" using tr dict_keys_map_of [of n rf] by auto
    then have "filter (\<lambda>x. x \<noteq> n) mem = mem" by (auto simp: filter_id_conv)
    then show ?thesis using None n tr mem' filt
      by (simp add: touch_ref_def clock_tracked_def clock_budget_set)
  next
    case (Some r)
    then have nm: "n \<in> set mem" using tr dict_keys_map_of [of n rf] by auto
    have "clock_budget mem rf = clock_budget (filter (\<lambda>x. x \<noteq> n) mem) rf + nat r"
      using clock_budget_split [OF nm, of rf] Some by simp
    moreover have "nat bits \<le> Suc (nat r)" if "bits \<le> r" using that by simp
    moreover have "nat (r + 1) \<le> Suc (nat r)" by simp
    ultimately show ?thesis using Some n tr mem' filt
      by (simp add: touch_ref_def clock_tracked_def clock_budget_set)
  qed
qed

lemma clock_evicts:
  assumes ok: "cache_ok cs s" and ne: "memory s \<noteq> []" and tr: "clock_tracked (memory s) (refs s)"
    and bud: "clock_budget (memory s) (refs s) < length (draws s)"
  shows "\<exists>v s'. evict CLOCK as i s = Inr (v, s') \<and> evicts v s s' \<and> clock_tracked (memory s') (refs s') \<and>
    length (draws s) + clock_budget (memory s') (refs s') \<le> length (draws s') + clock_budget (memory s) (refs s) + 1"
proof -
  have d: "distinct (memory s)" and pc: "pcount s = int (length (memory s))" and va: "\<forall>k \<in> set (draws s). valid_draw k"
    using ok by (simp_all add: cache_ok_def)
  show ?thesis using clock_scan_runs [OF d ne tr bud va] pc by (fastforce simp: evict_def evicts_def)
qed

text \<open>The interpretations: the policies without draws, RAND and CLOCK.\<close>

lemma scanned_replacement:
  assumes "p \<notin> {RAND, CLOCK}"
  shows "replacement (evict p) False (\<lambda>_ _. True) (\<lambda>_ _. 0)"
proof
  fix cs s i and pages :: "int list"
  assume "cache_ok cs s" "memory s \<noteq> []" "i < length pages"
  from scanned_evicts [OF this assms]
  show "\<exists>v s'. evict p (map Inr pages) i s = Inr (v, s') \<and> evicts v s s' \<and> True \<and>
      (False \<longrightarrow> length (draws s) + 0 \<le> length (draws s') + 0 + 1)"
    by blast
qed simp_all

interpretation fifo: replacement "evict FIFO" False "\<lambda>_ _. True" "\<lambda>_ _. 0" by (rule scanned_replacement) simp
interpretation lru: replacement "evict LRU" False "\<lambda>_ _. True" "\<lambda>_ _. 0" by (rule scanned_replacement) simp
interpretation mru: replacement "evict MRU" False "\<lambda>_ _. True" "\<lambda>_ _. 0" by (rule scanned_replacement) simp
interpretation opt: replacement "evict OPT" False "\<lambda>_ _. True" "\<lambda>_ _. 0" by (rule scanned_replacement) simp
interpretation unopt: replacement "evict UNOPT" False "\<lambda>_ _. True" "\<lambda>_ _. 0" by (rule scanned_replacement) simp

interpretation rand: replacement "evict RAND" True "\<lambda>_ _. True" "\<lambda>_ _. 0"
proof
  fix cs s i and pages :: "int list"
  assume "cache_ok cs s" "memory s \<noteq> []" "True \<Longrightarrow> 0 < length (draws s)"
  from drawn_evicts [OF this(1,2), of "map Inr pages" i] this(3)
  show "\<exists>v s'. evict RAND (map Inr pages) i s = Inr (v, s') \<and> evicts v s s' \<and> True \<and>
      (True \<longrightarrow> length (draws s) + 0 \<le> length (draws s') + 0 + 1)"
    by fastforce
qed simp_all

interpretation clock: replacement "evict CLOCK" True clock_tracked clock_budget
proof
  fix cs s i and pages :: "int list"
  assume "cache_ok cs s" "memory s \<noteq> []" "clock_tracked (memory s) (refs s)"
    "True \<Longrightarrow> clock_budget (memory s) (refs s) < length (draws s)"
  then show "\<exists>v s'. evict CLOCK (map Inr pages) i s = Inr (v, s') \<and> evicts v s s' \<and> clock_tracked (memory s') (refs s') \<and>
      (True \<longrightarrow> length (draws s) + clock_budget (memory s') (refs s') \<le>
        length (draws s') + clock_budget (memory s) (refs s) + 1)"
    using clock_evicts by simp
next
  fix mem rf n bits
  assume "clock_tracked mem rf" "n \<notin> set mem"
  then show "clock_tracked (mem @ [n]) (touch_ref bits n rf) \<and> clock_budget (mem @ [n]) (touch_ref bits n rf) \<le> clock_budget mem rf + 1"
    by (intro clock_touch) (auto simp: clock_tracked_def)
next
  fix mem rf n mem' bits
  assume "clock_tracked mem rf" "n \<in> set mem" "set mem' = set mem"
  then show "clock_tracked mem' (touch_ref bits n rf) \<and> clock_budget mem' (touch_ref bits n rf) \<le> clock_budget mem rf + 1"
    by (intro clock_touch) (auto simp: clock_tracked_def)
qed (simp add: clock_tracked_def clock_budget_def dict_keys_def)


lemma paging_total:
  assumes "0 < cs" and "\<forall>k \<in> set ds. valid_draw k" and "p \<in> {RAND, CLOCK} \<Longrightarrow> 2 * length pages \<le> length ds"
  shows "\<exists>out s. paging_run p cs bits (map Inr pages) ds = Inr (out, s) \<and> map fst out = pages \<and> cache_ok cs s \<and> stats_ok cs pages s"
proof (cases p)
  case FIFO then show ?thesis
    using fifo.run_total [OF assms(1,2), of pages "length pages" False bits] by (auto simp: paging_run_def access_page_def)
next
  case LRU then show ?thesis
    using lru.run_total [OF assms(1,2), of pages "length pages" True bits] by (auto simp: paging_run_def access_page_def)
next
  case MRU then show ?thesis
    using mru.run_total [OF assms(1,2), of pages "length pages" True bits] by (auto simp: paging_run_def access_page_def)
next
  case OPT then show ?thesis
    using opt.run_total [OF assms(1,2), of pages "length pages" False bits] by (auto simp: paging_run_def access_page_def)
next
  case UNOPT then show ?thesis
    using unopt.run_total [OF assms(1,2), of pages "length pages" False bits] by (auto simp: paging_run_def access_page_def)
next
  case RAND then show ?thesis
    using rand.run_total [OF assms(1,2), of pages "length pages" False bits] assms(3) by (auto simp: paging_run_def access_page_def)
next
  case CLOCK then show ?thesis
    using clock.run_total [OF assms(1,2), of pages "length pages" False bits] assms(3) by (auto simp: paging_run_def access_page_def)
qed

text \<open>
  C13. With room for a page, no policy raises, and its cache holds as many distinct pages as fit: every reference is a hit or
  a miss, every page misses at least once, and exactly once when all of them fit. RAND and CLOCK need at most two draws a reference.
\<close>

theorem paging_run_bounds:
  assumes "0 < cs" and "\<forall>k \<in> set ds. valid_draw k" and "p \<in> {RAND, CLOCK} \<Longrightarrow> 2 * length pages \<le> length ds"
  shows "\<exists>out s. paging_run p cs bits (map Inr pages) ds = Inr (out, s) \<and> map fst out = pages \<and> distinct (memory s) \<and>
    set (memory s) \<subseteq> set pages \<and> int (length (memory s)) = min cs (int (card (set pages))) \<and>
    hits s + misses s = length pages \<and> card (set pages) \<le> misses s \<and>
    (int (card (set pages)) \<le> cs \<longrightarrow> misses s = card (set pages))"
proof -
  obtain out s where r: "paging_run p cs bits (map Inr pages) ds = Inr (out, s)" "map fst out = pages"
    and ok: "cache_ok cs s" and st: "stats_ok cs pages s"
    using paging_total [OF assms] by blast
  have "card (set (memory s)) = length (memory s)" using ok by (simp add: cache_ok_def distinct_card)
  then have "int (length (memory s)) = min cs (int (card (set pages)))" using ok st by (auto simp: cache_ok_def stats_ok_def)
  then show ?thesis using r ok st by (auto simp: cache_ok_def stats_ok_def)
qed

lemma paging_run_bounds_witness:
  "\<exists>out s. paging_run CLOCK 2 2 (map Inr [7, 8, 7, 9]) (replicate 8 0) = Inr (out, s) \<and> length (memory s) = 2 \<and> 3 \<le> misses s"
proof -
  have "\<exists>out s. paging_run CLOCK 2 2 (map Inr [7, 8, 7, 9]) (replicate 8 0) = Inr (out, s) \<and> map fst out = [7, 8, 7, 9] \<and>
    distinct (memory s) \<and> set (memory s) \<subseteq> set [7, 8, 7, 9] \<and> int (length (memory s)) = min 2 (int (card (set [7, 8, 7, 9 :: int]))) \<and>
    hits s + misses s = length [7, 8, 7, 9 :: int] \<and> card (set [7, 8, 7, 9 :: int]) \<le> misses s \<and>
    (int (card (set [7, 8, 7, 9 :: int])) \<le> 2 \<longrightarrow> misses s = card (set [7, 8, 7, 9 :: int]))"
    by (rule paging_run_bounds) (simp_all add: valid_draw_def)
  moreover have "card (set [7, 8, 7, 9 :: int]) = 3" by (simp add: card_insert_if)
  ultimately show ?thesis by auto
qed

section \<open>LRU and the size of the cache\<close>

text \<open>The reference definition: the last \<open>c\<close> distinct pages of the references, in the order of their last use.\<close>

definition recent :: "nat \<Rightarrow> 'a list \<Rightarrow> 'a list" where
  "recent c xs = drop (length (remdups xs) - c) (remdups xs)"

lemma remdups_snoc: "remdups (xs @ [n]) = remove1 n (remdups xs) @ [n]"
  by (induction xs) (auto simp: remove1_append remove1_idem)

lemma distinct_recent [simp]: "distinct (recent c xs)"
  by (simp add: recent_def)

lemma length_recent_le [simp]: "length (recent c xs) \<le> c"
  by (simp add: recent_def)

lemma recent_split: "\<exists>old. remdups xs = old @ recent c xs \<and> length old = length (remdups xs) - c"
  by (rule exI [of _ "take (length (remdups xs) - c) (remdups xs)"]) (simp add: recent_def)

lemma recent_hit:
  assumes n: "n \<in> set (recent c xs)"
  shows "recent c (xs @ [n]) = remove1 n (recent c xs) @ [n]"
proof -
  obtain old where old: "remdups xs = old @ recent c xs" "length old = length (remdups xs) - c" using recent_split by blast
  have "distinct (old @ recent c xs)" using old by (metis distinct_remdups)
  then have "n \<notin> set old" using n by auto
  then have r: "remdups (xs @ [n]) = old @ (remove1 n (recent c xs) @ [n])" by (simp add: remdups_snoc old(1) remove1_append)
  have len: "length (remdups (xs @ [n])) - c = length old"
    using r old n length_pos_if_in_set [OF n] by (simp add: length_remove1)
  have "recent c (xs @ [n]) = drop (length old) (old @ (remove1 n (recent c xs) @ [n]))"
    unfolding recent_def [of c "xs @ [n]"] len unfolding r ..
  then show ?thesis by simp
qed

lemma recent_room:
  assumes n: "n \<notin> set (recent c xs)" and room: "length (recent c xs) < c"
  shows "recent c (xs @ [n]) = recent c xs @ [n]"
proof -
  have "length (remdups xs) \<le> c" using room by (simp add: recent_def)
  then have all: "recent c xs = remdups xs" by (simp add: recent_def)
  then have "remdups (xs @ [n]) = remdups xs @ [n]" using n by (simp add: remdups_snoc remove1_idem)
  then show ?thesis using all room by (simp add: recent_def)
qed

lemma recent_full:
  assumes n: "n \<notin> set (recent c xs)" and full: "length (recent c xs) = c" and c: "0 < c"
  shows "recent c (xs @ [n]) = tl (recent c xs) @ [n]"
proof -
  obtain old where old: "remdups xs = old @ recent c xs" "length old = length (remdups xs) - c" using recent_split by blast
  have r: "remdups (xs @ [n]) = (remove1 n old @ recent c xs) @ [n]"
    using n by (simp add: remdups_snoc old(1) remove1_append remove1_idem)
  have len: "length (remdups (xs @ [n])) - c = Suc (length (remove1 n old))" using r full by simp
  have "recent c (xs @ [n]) = drop (Suc (length (remove1 n old))) ((remove1 n old @ recent c xs) @ [n])"
    unfolding recent_def [of c "xs @ [n]"] len unfolding r ..
  then show ?thesis using full c by (cases "recent c xs") auto
qed

lemma recent_mono: "c \<le> c' \<Longrightarrow> set (recent c xs) \<subseteq> set (recent c' xs)"
  unfolding recent_def by (rule set_drop_subset_set_drop) simp

lemma access_lru:
  assumes cs: "0 < cs" and i: "i < length pages" and mem: "memory s = recent (nat cs) (take i pages)"
    and pc: "pcount s = int (length (memory s))"
  shows "\<exists>v s'. access_page LRU cs bits (map Inr pages) i s = Inr ((pages ! i, pages ! i \<in> set (memory s), v), s') \<and>
    memory s' = recent (nat cs) (take (Suc i) pages) \<and> pcount s' = int (length (memory s')) \<and>
    hits s' = hits s + of_bool (pages ! i \<in> set (memory s)) \<and> misses s' = misses s + of_bool (pages ! i \<notin> set (memory s))"
proof -
  let ?n = "pages ! i"
  have tk: "take (Suc i) pages = take i pages @ [?n]" using i by (simp add: take_Suc_conv_app_nth)
  consider (hit) "?n \<in> set (memory s)" | (room) "?n \<notin> set (memory s)" "length (memory s) < nat cs"
    | (full) "?n \<notin> set (memory s)" "length (memory s) = nat cs"
    using mem length_recent_le [of "nat cs" "take i pages"] by (metis le_neq_implies_less)
  then show ?thesis
  proof cases
    case hit
    have "recent (nat cs) (take (Suc i) pages) = remove1 ?n (memory s) @ [?n]" unfolding tk mem by (rule recent_hit) (use hit mem in simp)
    then show ?thesis using hit i pc length_pos_if_in_set [OF hit]
      by (auto simp: access_page_def access_with_def length_remove1)
  next
    case room
    have "recent (nat cs) (take (Suc i) pages) = memory s @ [?n]" unfolding tk mem by (rule recent_room) (use room mem in simp_all)
    moreover have "pcount s \<noteq> cs" using room pc by simp
    ultimately show ?thesis using room i pc by (simp add: access_page_def access_with_def)
  next
    case full
    have eq: "recent (nat cs) (take (Suc i) pages) = tl (memory s) @ [?n]"
      unfolding tk mem by (rule recent_full) (use full mem cs in simp_all)
    obtain v mem' where m: "memory s = v # mem'" using full cs by (cases "memory s") auto
    have "distinct (memory s)" using mem by simp
    then show ?thesis using full i pc eq m cs
      by (simp add: access_page_def access_with_def evict_def pop_memory_def pop_at_def py_pop_def)
  qed
qed

lemma lru_prefix:
  assumes cs: "0 < cs"
  shows "k \<le> length pages \<Longrightarrow> \<exists>out s. rfold (\<lambda>i (out, s). rbind (access_page LRU cs bits (map Inr pages) i s) (\<lambda>(e, s). Inr (out @ [e], s)))
      [0..<k] ([], pager_init ds) = Inr (out, s) \<and>
    map (\<lambda>(n, hit, v). hit) out = map (\<lambda>i. pages ! i \<in> set (recent (nat cs) (take i pages))) [0..<k] \<and>
    memory s = recent (nat cs) (take k pages) \<and> pcount s = int (length (memory s)) \<and>
    hits s = length (filter (\<lambda>i. pages ! i \<in> set (recent (nat cs) (take i pages))) [0..<k]) \<and> hits s + misses s = k"
proof (induction k)
  case 0
  show ?case by (simp add: pager_init_def recent_def)
next
  case (Suc k)
  let ?f = "\<lambda>i (out, s). rbind (access_page LRU cs bits (map Inr pages) i s) (\<lambda>(e, s). Inr (out @ [e], s))"
  obtain out s where run: "rfold ?f [0..<k] ([], pager_init ds) = Inr (out, s)"
    and out: "map (\<lambda>(n, hit, v). hit) out = map (\<lambda>i. pages ! i \<in> set (recent (nat cs) (take i pages))) [0..<k]"
    and mem: "memory s = recent (nat cs) (take k pages)" and pc: "pcount s = int (length (memory s))"
    and h: "hits s = length (filter (\<lambda>i. pages ! i \<in> set (recent (nat cs) (take i pages))) [0..<k])" "hits s + misses s = k"
    using Suc.IH [OF Suc_leD [OF Suc.prems]] by (elim exE conjE) (rule that)
  have i: "k < length pages" using Suc.prems by simp
  obtain v s' where acc: "access_page LRU cs bits (map Inr pages) k s = Inr ((pages ! k, pages ! k \<in> set (memory s), v), s')"
    and mem': "memory s' = recent (nat cs) (take (Suc k) pages)" and pc': "pcount s' = int (length (memory s'))"
    and h': "hits s' = hits s + of_bool (pages ! k \<in> set (memory s))" "misses s' = misses s + of_bool (pages ! k \<notin> set (memory s))"
    using access_lru [OF cs i mem pc, of bits] by blast
  have "rfold ?f [0..<Suc k] ([], pager_init ds) = Inr (out @ [(pages ! k, pages ! k \<in> set (memory s), v)], s')"
    using run acc by (simp add: rfold_append)
  moreover have "map (\<lambda>(n, hit, v). hit) (out @ [(pages ! k, pages ! k \<in> set (memory s), v)]) =
      map (\<lambda>i. pages ! i \<in> set (recent (nat cs) (take i pages))) [0..<Suc k]"
    using out mem by simp
  moreover have "hits s' = length (filter (\<lambda>i. pages ! i \<in> set (recent (nat cs) (take i pages))) [0..<Suc k])"
    using h(1) h'(1) mem by simp
  moreover have "hits s' + misses s' = Suc k" using h(2) h' by (simp add: of_bool_def)
  ultimately show ?case using mem' pc' by blast
qed

text \<open>
  C9. LRU is the reference definition: after any references its memory is the most recently used distinct pages in order, and a
  reference hits exactly when the page is among the most recently used before it.
\<close>

theorem lru_keeps_recent:
  assumes "0 < cs"
  shows "\<exists>out s. paging_run LRU cs bits (map Inr pages) ds = Inr (out, s) \<and> memory s = recent (nat cs) pages \<and>
    map (\<lambda>(n, hit, v). hit) out = map (\<lambda>i. pages ! i \<in> set (recent (nat cs) (take i pages))) [0..<length pages]"
  using lru_prefix [OF assms, of "length pages" pages bits ds] unfolding paging_run_def by auto

lemma lru_keeps_recent_witness:
  "\<exists>out s. paging_run LRU 2 2 (map Inr [1, 2, 1, 3]) [] = Inr (out, s) \<and> memory s = [1, 3] \<and>
    map (\<lambda>(n, hit, v). hit) out = [False, False, True, False]"
  using lru_keeps_recent [of 2 2 "[1, 2, 1, 3]" "[]"] by (simp add: recent_def upt_rec)

text \<open>
  C19. LRU has the inclusion property: on the same references a larger cache holds every page a smaller one holds and has no more
  misses.
\<close>

theorem lru_larger_cache:
  assumes "0 < c" and "c \<le> c'"
  shows "\<exists>out s out' s'. paging_run LRU c bits (map Inr pages) ds = Inr (out, s) \<and>
    paging_run LRU c' bits (map Inr pages) ds = Inr (out', s') \<and> set (memory s) \<subseteq> set (memory s') \<and> misses s' \<le> misses s"
proof -
  let ?hit = "\<lambda>c i. pages ! i \<in> set (recent (nat c) (take i pages))"
  obtain out s where s: "paging_run LRU c bits (map Inr pages) ds = Inr (out, s)" "memory s = recent (nat c) pages"
    "hits s = length (filter (?hit c) [0..<length pages])" "hits s + misses s = length pages"
    using lru_prefix [OF assms(1), of "length pages" pages bits ds] unfolding paging_run_def by auto
  have c': "0 < c'" using assms by simp
  obtain out' s' where s': "paging_run LRU c' bits (map Inr pages) ds = Inr (out', s')" "memory s' = recent (nat c') pages"
    "hits s' = length (filter (?hit c') [0..<length pages])" "hits s' + misses s' = length pages"
    using lru_prefix [OF c', of "length pages" pages bits ds] unfolding paging_run_def by auto
  have sub: "set (recent (nat c) xs) \<subseteq> set (recent (nat c') xs)" for xs :: "int list"
    using assms by (intro recent_mono) simp
  have "{i. i < length pages \<and> ?hit c i} \<subseteq> {i. i < length pages \<and> ?hit c' i}" using sub by blast
  then have "card {i. i < length pages \<and> ?hit c i} \<le> card {i. i < length pages \<and> ?hit c' i}" by (rule card_mono [rotated]) simp
  then have "hits s \<le> hits s'"
    unfolding s(3) s'(3) by (simp add: length_filter_conv_card cong: conj_cong)
  then show ?thesis using s s' sub by fastforce
qed

lemma lru_larger_cache_witness:
  "\<exists>out s out' s'. paging_run LRU 3 2 (map Inr [1, 2, 3, 4, 1, 2, 5, 1, 2, 3, 4, 5]) [] = Inr (out, s) \<and>
    paging_run LRU 4 2 (map Inr [1, 2, 3, 4, 1, 2, 5, 1, 2, 3, 4, 5]) [] = Inr (out', s') \<and>
    set (memory s) \<subseteq> set (memory s') \<and> misses s' \<le> misses s"
  by (rule lru_larger_cache) simp_all

text \<open>
  FIFO is not so: on twelve references to five pages a cache of four pages has ten misses and one of three pages nine
  (Belady's anomaly).
\<close>

theorem fifo_anomaly:
  "map_sum id (\<lambda>(out, s). misses s) (paging_run FIFO 3 2 (map Inr [1, 2, 3, 4, 1, 2, 5, 1, 2, 3, 4, 5]) []) = Inr 9 \<and>
   map_sum id (\<lambda>(out, s). misses s) (paging_run FIFO 4 2 (map Inr [1, 2, 3, 4, 1, 2, 5, 1, 2, 3, 4, 5]) []) = Inr 10"
  by code_simp


section \<open>Runs of the program\<close>

lemma random_addresses_run:
  assumes m: "0 < m" and valid: "\<forall>k \<in> set ds. valid_draw k"
  shows "j \<le> length ds \<Longrightarrow> \<exists>pages. rfold (\<lambda>_ (as, ds). rbind (next_draw ds) (\<lambda>(k, ds). Inr (as @ [Inr (pick_int k m) :: address], ds))) [0..<j] ([], ds) =
      Inr (map Inr pages, drop j ds) \<and> length pages = j \<and> (\<forall>x \<in> set pages. 0 \<le> x \<and> x < m)"
proof (induction j)
  case (Suc j)
  obtain pages where pages: "rfold (\<lambda>_ (as, ds). rbind (next_draw ds) (\<lambda>(k, ds). Inr (as @ [Inr (pick_int k m) :: address], ds))) [0..<j] ([], ds) =
      Inr (map Inr pages, drop j ds)" "length pages = j" "\<forall>x \<in> set pages. 0 \<le> x \<and> x < m"
    using Suc.IH [OF Suc_leD [OF Suc.prems]] by blast
  have d: "drop j ds = ds ! j # drop (Suc j) ds" using Suc.prems by (simp add: Cons_nth_drop_Suc)
  have "0 \<le> pick_int (ds ! j) m \<and> pick_int (ds ! j) m < m" using valid Suc.prems m by (intro pick_int_range) auto
  then show ?case using pages d by (intro exI [of _ "pages @ [pick_int (ds ! j) m]"]) (auto simp: rfold_append)
qed simp

lemma hitrate_range:
  assumes "hits s + misses s = n" and "0 < n"
  shows "\<exists>h. hitrate s = Inr h \<and> 0 \<le> h \<and> h \<le> 100"
proof -
  have "(100 * of_nat (hits s) :: rat) \<le> 100 * (of_nat (hits s) + of_nat (misses s))" by simp
  moreover have "(0 :: rat) < of_nat (hits s) + of_nat (misses s)" using assms by (metis of_nat_0_less_iff of_nat_add)
  ultimately have "100 * of_nat (hits s) / (of_nat (hits s) + of_nat (misses s)) \<le> (100 :: rat)"
    by (simp add: pos_divide_le_eq)
  then show ?thesis using assms by (simp add: hitrate_def)
qed

text \<open>
  With generated references the program ends normally for every policy: it generates as many references as asked for, all
  below \<open>-m\<close>, each is counted as a hit or a miss, and the printed hit rate is a percentage.
\<close>

theorem paging_main_safe:
  assumes "p_file opt = None" and "p_addresses opt = ''-1''" and "p_numaddrs opt = show_int n" and "p_cachesize opt = show_int cs"
    and "p_seed opt = show_int sd" and "p_maxpage opt = show_int m" and "policy_named (p_policy opt) = Inr p" and "p_solve opt"
    and "0 < n" and "0 < cs" and "0 < m" and "\<forall>k \<in> set ds. valid_draw k" and "3 * nat n \<le> length ds"
  shows "\<exists>out h mi r. paging_main opt ds = Inr (Some (out, h, mi, r)) \<and> length out = nat n \<and>
    (\<forall>(x, hit, v) \<in> set out. 0 \<le> x \<and> x < m) \<and> h + mi = nat n \<and> 0 < mi \<and> 0 \<le> r \<and> r \<le> 100"
proof -
  have "nat n \<le> length ds" using assms(13) by simp
  then obtain pages where gen: "random_addresses n m ds = Inr (map Inr pages, drop (nat n) ds)"
    and len: "length pages = nat n" and rng: "\<forall>x \<in> set pages. 0 \<le> x \<and> x < m"
    using random_addresses_run [OF assms(11,12), of "nat n"] unfolding random_addresses_def by blast
  have va: "\<forall>k \<in> set (drop (nat n) ds). valid_draw k" using assms(12) by (meson in_set_dropD)
  have enough: "2 * length pages \<le> length (drop (nat n) ds)" using assms(13) len by simp
  obtain out s where run: "paging_run p cs (p_clockbits opt) (map Inr pages) (drop (nat n) ds) = Inr (out, s)"
    and out: "map fst out = pages" and st: "hits s + misses s = length pages" "card (set pages) \<le> misses s"
    using paging_total [OF assms(10) va enough, of p "p_clockbits opt"] by (auto simp: stats_ok_def)
  have ne: "pages \<noteq> []" using len assms(9) by auto
  then have mi: "0 < misses s" using st(2) by (metis card_gt_0_iff List.finite_set le_zero_eq not_gr_zero set_empty)
  obtain h where h: "hitrate s = Inr h" "0 \<le> h" "h \<le> 100" using hitrate_range [OF st(1)] ne by auto
  have "paging_main opt ds = Inr (Some (out, hits s, misses s, h))"
    using assms(1-8) gen run h(1) by (simp add: paging_main_def py_int_show_int read_addresses_def)
  moreover have "\<forall>(x, hit, v) \<in> set out. 0 \<le> x \<and> x < m" using rng out by force
  moreover have "length out = nat n" using out len by (metis length_map)
  ultimately show ?thesis using st(1) len mi h by auto
qed

lemma paging_main_safe_witness:
  "\<exists>out h mi r. paging_main (paging_defaults\<lparr>p_numaddrs := show_int 2, p_cachesize := show_int 3, p_seed := show_int 0,
      p_maxpage := show_int 10, p_policy := ''RAND'', p_solve := True\<rparr>) (replicate 6 5) = Inr (Some (out, h, mi, r)) \<and>
    length out = 2 \<and> h + mi = 2"
proof -
  let ?opt = "paging_defaults\<lparr>p_numaddrs := show_int 2, p_cachesize := show_int 3, p_seed := show_int 0,
      p_maxpage := show_int 10, p_policy := ''RAND'', p_solve := True\<rparr>"
  have "\<exists>out h mi r. paging_main ?opt (replicate 6 5) = Inr (Some (out, h, mi, r)) \<and> length out = nat 2 \<and>
    (\<forall>(x, hit, v) \<in> set out. 0 \<le> x \<and> x < 10) \<and> h + mi = nat 2 \<and> 0 < mi \<and> 0 \<le> r \<and> r \<le> 100"
    by (rule paging_main_safe [where p = RAND and n = 2 and cs = 3 and sd = 0 and m = 10])
      (simp_all add: paging_defaults_def policy_named_def valid_draw_def)
  then show ?thesis by auto
qed

text \<open>
  The inputs the program does not check: a cache of no pages raises on its first reference whatever the policy, and no
  references make the hit rate divide by zero.
\<close>

theorem paging_unchecked_inputs:
  "paging_run p 0 bits (Inr n # as) (k # ds) = Inl IndexError \<and>
   paging_main (paging_defaults\<lparr>p_numaddrs := ''0'', p_solve := True\<rparr>) ds = Inl ZeroDivisionError"
proof
  have up: "[0..<length (Inr n # as)] = 0 # [Suc 0..<length (Inr n # as)]" by (simp add: upt_conv_Cons del: upt_Suc)
  have "access_page p 0 bits (Inr n # as) 0 (pager_init (k # ds)) = Inl IndexError"
    by (cases p) (simp_all add: access_page_def access_with_def pager_init_def evict_def pop_memory_def pop_at_def py_pop_def
      opt_scan_def unopt_scan_def py_get_def pick_int_def pick_def)
  then show "paging_run p 0 bits (Inr n # as) (k # ds) = Inl IndexError" unfolding paging_run_def up by simp
  have nums: "py_int ''0'' = Inr 0" "py_int ''3'' = Inr 3" "py_int ''10'' = Inr 10" by code_simp+
  have "paging_main (paging_defaults\<lparr>p_numaddrs := ''0'', p_solve := True\<rparr>) ds =
      rbind (py_int ''0'') (\<lambda>n. rbind (py_int ''3'') (\<lambda>cs. rbind (py_int ''0'') (\<lambda>_. rbind (py_int ''10'') (\<lambda>mp.
      rbind (random_addresses n mp ds) (\<lambda>(as, ds). rbind (paging_run FIFO cs 2 as ds) (\<lambda>(out, s).
      rbind (hitrate s) (\<lambda>h. Inr (Some (out, hits s, misses s, h)))))))))"
    by (simp add: paging_main_def paging_defaults_def read_addresses_def policy_named_def)
  also have "\<dots> = Inl ZeroDivisionError"
    using nums by (simp add: random_addresses_def paging_run_def hitrate_def pager_init_def)
  finally show "paging_main (paging_defaults\<lparr>p_numaddrs := ''0'', p_solve := True\<rparr>) ds = Inl ZeroDivisionError" .
qed

end
