(* ===== verification/PyFloat.thy ===== *)
theory PyFloat
  imports Complex_Main PyString
begin

text \<open>
  The conversion \<open>float(s)\<close> of Python, with its value as an exact rational, for the option parsers that read times and percentages.
\<close>

text \<open>
  The text of a Python float with no exponent. Other texts made of digits, signs, dots and spaces are errors; what has letters or
  underscores is outside the model.
\<close>

definition plain_decimal :: "string \<Rightarrow> rat option" where
  "plain_decimal t =
     (case py_split CHR ''.'' t of
        [a] \<Rightarrow> if isdigit a then Some (of_nat (digits_val 0 a)) else None
      | [a, b] \<Rightarrow>
          if list_all is_digit (a @ b) \<and> a @ b \<noteq> []
          then Some (of_nat (digits_val 0 a) + of_nat (digits_val 0 b) / 10 ^ length b) else None
      | _ \<Rightarrow> None)"

definition py_float :: "string \<Rightarrow> rat res" where
  "py_float s =
     (let t = strip s; u = (if t \<noteq> [] \<and> (hd t = CHR ''-'' \<or> hd t = CHR ''+'') then tl t else t)
      in case plain_decimal u of
           Some r \<Rightarrow> Inr (if t \<noteq> [] \<and> hd t = CHR ''-'' then - r else r)
         | None \<Rightarrow> if list_all (\<lambda>c. is_digit c \<or> is_space c \<or> c \<in> set ''+-.'') s then Inl ValueError else Inl Outside_Model)"

end
