(* ===== verification/ProcRun.thy ===== *)
theory ProcRun
  imports PyFloat
begin

text \<open>
  The process simulator of \<open>cpu-intro/process-run.py\<close>: processes that compute and issue I/O, the two switch policies, the two
  behaviours at the end of an I/O, and the main loop. Its state machine is shown never to fail an assertion and to end with
  every process done within a bound given by the programs.
\<close>

section \<open>Processes\<close>

datatype pstate = RUNNING | READY | DONE | BLOCKED

datatype instr = DO_COMPUTE | DO_IO | DO_IO_DONE

datatype switch_on = SWITCH_ON_IO | SWITCH_ON_END

datatype io_behavior = IO_RUN_LATER | IO_RUN_IMMEDIATE

record process =
  proc_pc :: nat
  proc_pid :: nat
  code :: "instr list"
  proc_state :: pstate

text \<open>The processes are numbered from 0, so the dict over them is a list.\<close>

record scheduler =
  proc_info :: "process list"
  process_switch_behavior :: switch_on
  io_done_behavior :: io_behavior
  io_length :: int
  io_finish_times :: "int list list"
  curr_proc :: nat

definition scheduler_init :: "switch_on \<Rightarrow> io_behavior \<Rightarrow> int \<Rightarrow> scheduler" where
  "scheduler_init sw io L = \<lparr>proc_info = [], process_switch_behavior = sw, io_done_behavior = io, io_length = L,
     io_finish_times = [], curr_proc = 0\<rparr>"

definition new_process :: "scheduler \<Rightarrow> nat \<times> scheduler" where
  "new_process s =
     (length (proc_info s),
      s\<lparr>proc_info := proc_info s @ [\<lparr>proc_pc = 0, proc_pid = length (proc_info s), code = [], proc_state = READY\<rparr>]\<rparr>)"

definition append_code :: "nat \<Rightarrow> instr list \<Rightarrow> scheduler \<Rightarrow> scheduler" where
  "append_code pid is s =
     s\<lparr>proc_info := (proc_info s)[pid := (proc_info s ! pid)\<lparr>code := code (proc_info s ! pid) @ is\<rparr>]\<rparr>"

definition parse_line :: "string \<Rightarrow> instr list res" where
  "parse_line line =
     (case line of
        [] \<Rightarrow> Inl IndexError
      | opcode # arg \<Rightarrow>
          if opcode = CHR ''c'' then rbind (py_int arg) (\<lambda>num. Inr (replicate (nat num) DO_COMPUTE))
          else if opcode = CHR ''i'' then Inr [DO_IO, DO_IO_DONE]
          else Inl (SystemExit 1))"

definition load_program :: "string \<Rightarrow> scheduler \<Rightarrow> scheduler res" where
  "load_program program s =
     (let (pid, s) = new_process s
      in rfold (\<lambda>line s. rbind (parse_line line) (\<lambda>is. Inr (append_code pid is s))) (py_split CHR '','' program) s)"

definition load_step :: "nat \<Rightarrow> rat \<Rightarrow> scheduler \<times> draw list \<Rightarrow> (scheduler \<times> draw list) res" where
  "load_step pid chance_cpu = (\<lambda>(s, ds). rbind (next_draw ds) (\<lambda>(k, ds).
     Inr (if of_nat k < chance_cpu * 2 ^ 53 then append_code pid [DO_COMPUTE] s else append_code pid [DO_IO, DO_IO_DONE] s, ds)))"

definition proc_load :: "string \<Rightarrow> scheduler \<times> draw list \<Rightarrow> (scheduler \<times> draw list) res" where
  "proc_load program_description = (\<lambda>(s, ds).
     let (pid, s) = new_process s in
     case py_split CHR '':'' program_description of
       [a, b] \<Rightarrow> rbind (py_int a) (\<lambda>num_instructions. rbind (py_float b) (\<lambda>f.
         rfold (\<lambda>_. load_step pid (f / 100)) [0..<nat num_instructions] (s, ds)))
     | _ \<Rightarrow> Inl (SystemExit 1))"

section \<open>Changes of state\<close>

definition proc_at :: "scheduler \<Rightarrow> nat \<Rightarrow> process res" where
  "proc_at s pid = (if pid < length (proc_info s) then Inr (proc_info s ! pid) else Inl KeyError)"

definition set_state :: "nat \<Rightarrow> pstate \<Rightarrow> scheduler \<Rightarrow> scheduler" where
  "set_state pid x s = s\<lparr>proc_info := (proc_info s)[pid := (proc_info s ! pid)\<lparr>proc_state := x\<rparr>]\<rparr>"

definition move_to :: "pstate \<Rightarrow> pstate \<Rightarrow> nat \<Rightarrow> scheduler \<Rightarrow> scheduler res" where
  "move_to x expected pid s =
     rbind (proc_at s pid) (\<lambda>p. rbind (py_assert (proc_state p = expected)) (\<lambda>_. Inr (set_state pid x s)))"

definition move_to_ready :: "pstate \<Rightarrow> nat option \<Rightarrow> scheduler \<Rightarrow> scheduler res" where
  "move_to_ready expected pid s = move_to READY expected (case pid of None \<Rightarrow> curr_proc s | Some i \<Rightarrow> i) s"

definition move_to_wait :: "pstate \<Rightarrow> scheduler \<Rightarrow> scheduler res" where
  "move_to_wait expected s = move_to BLOCKED expected (curr_proc s) s"

definition move_to_running :: "pstate \<Rightarrow> scheduler \<Rightarrow> scheduler res" where
  "move_to_running expected s = move_to RUNNING expected (curr_proc s) s"

definition move_to_done :: "pstate \<Rightarrow> scheduler \<Rightarrow> scheduler res" where
  "move_to_done expected s = move_to DONE expected (curr_proc s) s"

definition next_proc :: "nat option \<Rightarrow> scheduler \<Rightarrow> scheduler res" where
  "next_proc pid s =
     (case pid of
        Some i \<Rightarrow> move_to_running READY (s\<lparr>curr_proc := i\<rparr>)
      | None \<Rightarrow>
          case find (\<lambda>i. proc_state (proc_info s ! i) = READY)
                 ([curr_proc s + 1..<length (proc_info s)] @ [0..<curr_proc s + 1]) of
            Some i \<Rightarrow> move_to_running READY (s\<lparr>curr_proc := i\<rparr>)
          | None \<Rightarrow> Inr s)"

definition get_num_active :: "scheduler \<Rightarrow> nat" where
  "get_num_active s = length (filter (\<lambda>p. proc_state p \<noteq> DONE) (proc_info s))"

definition get_num_runnable :: "scheduler \<Rightarrow> nat" where
  "get_num_runnable s = length (filter (\<lambda>p. proc_state p = READY \<or> proc_state p = RUNNING) (proc_info s))"

definition get_ios_in_flight :: "int \<Rightarrow> scheduler \<Rightarrow> nat" where
  "get_ios_in_flight current_time s = sum_list (map (\<lambda>ts. length (filter (\<lambda>t. current_time < t) ts)) (io_finish_times s))"

definition check_if_done :: "scheduler \<Rightarrow> scheduler res" where
  "check_if_done s =
     rbind (proc_at s (curr_proc s)) (\<lambda>p.
     if code p = [] \<and> proc_state p = RUNNING then rbind (move_to_done RUNNING s) (next_proc None) else Inr s)"

section \<open>A tick of the clock\<close>

text \<open>What the end of an I/O does with the processor, once its process is ready.\<close>

definition wake_up :: "nat \<Rightarrow> scheduler \<Rightarrow> scheduler res" where
  "wake_up pid s =
     (if io_done_behavior s = IO_RUN_IMMEDIATE then
        rbind (if curr_proc s \<noteq> pid \<and> proc_state (proc_info s ! curr_proc s) = RUNNING then move_to_ready RUNNING None s else Inr s)
          (next_proc (Some pid))
      else
        rbind (if process_switch_behavior s = SWITCH_ON_END \<and> 1 < get_num_runnable s then next_proc (Some pid) s else Inr s) (\<lambda>s.
        if get_num_runnable s = 1 then next_proc (Some pid) s else Inr s))"

definition io_finish :: "int \<Rightarrow> nat \<Rightarrow> scheduler \<Rightarrow> scheduler res" where
  "io_finish clock_tick pid s =
     (if clock_tick \<in> set (io_finish_times s ! pid)
      then rbind (move_to_ready BLOCKED (Some pid) s) (\<lambda>s. rbind (wake_up pid s) check_if_done)
      else Inr s)"

definition pop_instr :: "scheduler \<Rightarrow> instr option \<times> scheduler" where
  "pop_instr s =
     (let p = proc_info s ! curr_proc s in
      if proc_state p = RUNNING \<and> code p \<noteq> []
      then (Some (hd (code p)), s\<lparr>proc_info := (proc_info s)[curr_proc s := p\<lparr>code := tl (code p)\<rparr>]\<rparr>)
      else (None, s))"

definition issue_io :: "int \<Rightarrow> scheduler \<Rightarrow> scheduler res" where
  "issue_io clock_tick s =
     rbind (move_to_wait RUNNING s) (\<lambda>s.
     let s = s\<lparr>io_finish_times := (io_finish_times s)[curr_proc s :=
           io_finish_times s ! curr_proc s @ [clock_tick + io_length s + 1]]\<rparr>
     in if process_switch_behavior s = SWITCH_ON_IO then next_proc None s else Inr s)"

text \<open>A printed row: the tick, whether an I/O ended, the column of each process, the instruction and the I/Os in flight.\<close>

datatype cell = Run instr | State pstate

type_synonym row = "int \<times> bool \<times> cell list \<times> instr option \<times> nat"

definition print_row :: "int \<Rightarrow> bool \<Rightarrow> instr option \<Rightarrow> scheduler \<Rightarrow> row" where
  "print_row clock_tick io_done i s =
     (clock_tick, io_done,
      map (\<lambda>pid. case i of Some x \<Rightarrow> if pid = curr_proc s then Run x else State (proc_state (proc_info s ! pid))
                 | None \<Rightarrow> State (proc_state (proc_info s ! pid))) [0..<length (proc_info s)],
      i, get_ios_in_flight clock_tick s)"

record stats =
  clock_tick :: int
  cpu_busy :: nat
  io_busy :: nat

definition proc_tick :: "stats \<times> row list \<times> scheduler \<Rightarrow> (stats \<times> row list \<times> scheduler) res" where
  "proc_tick = (\<lambda>(z, rows, s).
     let t = clock_tick z + 1; pids = [0..<length (proc_info s)];
         io_done = (\<exists>pid \<in> set pids. t \<in> set (io_finish_times s ! pid)) in
     rbind (rfold (io_finish t) pids s) (\<lambda>s.
     let (i, s) = pop_instr s; row = print_row t io_done i s;
         z = \<lparr>clock_tick = t, cpu_busy = cpu_busy z + (if i = None then 0 else 1),
              io_busy = io_busy z + (if 0 < get_ios_in_flight t s then 1 else 0)\<rparr> in
     rbind (if i = Some DO_IO then issue_io t s else Inr s) (\<lambda>s.
     rbind (check_if_done s) (\<lambda>s. Inr (z, rows @ [row], s)))))"

fun proc_loop :: "nat \<Rightarrow> stats \<times> row list \<times> scheduler \<Rightarrow> (stats \<times> row list \<times> scheduler) res" where
  "proc_loop fuel (z, rows, s) =
     (if get_num_active s = 0 then Inr (z, rows, s)
      else case fuel of 0 \<Rightarrow> Inl Out_Of_Fuel | Suc f \<Rightarrow> rbind (proc_tick (z, rows, s)) (proc_loop f))"

declare proc_loop.simps [simp del]

definition proc_run :: "nat \<Rightarrow> scheduler \<Rightarrow> (stats \<times> row list \<times> scheduler) option res" where
  "proc_run fuel s =
     (if proc_info s = [] then Inr None
      else rbind (move_to_running READY (s\<lparr>io_finish_times := replicate (length (proc_info s)) [], curr_proc := 0\<rparr>)) (\<lambda>s.
           rbind (proc_loop fuel (\<lparr>clock_tick = 0, cpu_busy = 0, io_busy = 0\<rparr>, [], s)) (\<lambda>r. Inr (Some r))))"

section \<open>The main program\<close>

record proc_options =
  o_program :: string
  o_process_list :: string
  o_io_length :: int
  o_switch :: string
  o_iodone :: string
  o_solve :: bool
  o_print_stats :: bool

definition proc_defaults :: proc_options where
  "proc_defaults = \<lparr>o_program = [], o_process_list = [], o_io_length = 5, o_switch = ''SWITCH_ON_IO'', o_iodone = ''IO_RUN_LATER'',
     o_solve = False, o_print_stats = False\<rparr>"

definition switch_named :: "string \<Rightarrow> switch_on res" where
  "switch_named w = (if w = ''SWITCH_ON_IO'' then Inr SWITCH_ON_IO else if w = ''SWITCH_ON_END'' then Inr SWITCH_ON_END else Inl AssertionError)"

definition io_named :: "string \<Rightarrow> io_behavior res" where
  "io_named w = (if w = ''IO_RUN_IMMEDIATE'' then Inr IO_RUN_IMMEDIATE else if w = ''IO_RUN_LATER'' then Inr IO_RUN_LATER else Inl AssertionError)"

definition load_all :: "proc_options \<Rightarrow> scheduler \<Rightarrow> draw list \<Rightarrow> scheduler res" where
  "load_all opt s ds =
     (if o_program opt \<noteq> [] then rfold load_program (py_split CHR '':'' (o_program opt)) s
      else rbind (rfold proc_load (py_split CHR '','' (o_process_list opt)) (s, ds)) (\<lambda>(s, _). Inr s))"

text \<open>Unpacking no result raises; the percentages are printed only on demand.\<close>

definition percentages :: "stats \<Rightarrow> (rat \<times> rat) res" where
  "percentages z =
     (if clock_tick z = 0 then Inl ZeroDivisionError
      else Inr (100 * of_nat (cpu_busy z) / of_int (clock_tick z), 100 * of_nat (io_busy z) / of_int (clock_tick z)))"

definition proc_main :: "nat \<Rightarrow> proc_options \<Rightarrow> draw list \<Rightarrow> (stats \<times> row list \<times> (rat \<times> rat) option) res" where
  "proc_main fuel opt ds =
     rbind (switch_named (o_switch opt)) (\<lambda>sw.
     rbind (io_named (o_iodone opt)) (\<lambda>io.
     rbind (load_all opt (scheduler_init sw io (o_io_length opt)) ds) (\<lambda>s.
     rbind (py_assert (0 \<le> o_io_length opt)) (\<lambda>_.
     if \<not> o_solve opt then Inl (SystemExit 0)
     else rbind (proc_run fuel s) (\<lambda>r.
       case r of
         None \<Rightarrow> Inl TypeError
       | Some (z, rows, _) \<Rightarrow>
           if o_print_stats opt then rbind (percentages z) (\<lambda>p. Inr (z, rows, Some p)) else Inr (z, rows, None))))))"


section \<open>The invariant of the process table\<close>

abbreviation np :: "scheduler \<Rightarrow> nat" where
  "np s \<equiv> length (proc_info s)"

abbreviation st :: "scheduler \<Rightarrow> nat \<Rightarrow> pstate" where
  "st s i \<equiv> proc_state (proc_info s ! i)"

abbreviation cd :: "scheduler \<Rightarrow> nat \<Rightarrow> instr list" where
  "cd s i \<equiv> code (proc_info s ! i)"

text \<open>Every I/O of a program is followed by the instruction that handles its end.\<close>

fun io_handled :: "instr list \<Rightarrow> bool" where
  "io_handled [] = True"
| "io_handled (DO_IO # is) = (is \<noteq> [] \<and> hd is = DO_IO_DONE \<and> io_handled is)"
| "io_handled (i # is) = io_handled is"

text \<open>
  The end of the I/O a process waits for: within a tick the processes below \<open>k\<close> have been looked at, so their ends are after
  \<open>c + 1\<close>, those of the others after \<open>c\<close>.
\<close>

definition seen_until :: "int \<Rightarrow> nat \<Rightarrow> nat \<Rightarrow> int" where
  "seen_until c k i = (if i < k then c + 1 else c)"

definition waiting :: "int \<Rightarrow> nat \<Rightarrow> scheduler \<Rightarrow> nat \<Rightarrow> int list" where
  "waiting c k s i = filter (\<lambda>t. seen_until c k i < t) (io_finish_times s ! i)"

definition table_ok :: "int \<Rightarrow> nat \<Rightarrow> scheduler \<Rightarrow> bool" where
  "table_ok c k s \<longleftrightarrow> length (io_finish_times s) = np s \<and> curr_proc s < np s \<and> 0 \<le> io_length s \<and>
     (\<forall>i < np s. io_handled (cd s i) \<and> (st s i = DONE \<longrightarrow> cd s i = []) \<and>
       (st s i = BLOCKED \<longrightarrow> cd s i \<noteq> [] \<and> (\<exists>t. waiting c k s i = [t])) \<and> (st s i \<noteq> BLOCKED \<longrightarrow> waiting c k s i = []))"

text \<open>
  Only the current process runs, a process is ready only while another one runs, and under SWITCH_ON_END the processor
  waits for the process that issued an I/O.
\<close>

definition cpu_ok :: "scheduler \<Rightarrow> bool" where
  "cpu_ok s \<longleftrightarrow> (\<forall>i < np s. (st s i = RUNNING \<longrightarrow> i = curr_proc s) \<and>
     (st s i = READY \<longrightarrow> st s (curr_proc s) = RUNNING \<or> process_switch_behavior s = SWITCH_ON_END \<and> st s (curr_proc s) = BLOCKED) \<and>
     (st s i = BLOCKED \<and> process_switch_behavior s = SWITCH_ON_END \<longrightarrow> i = curr_proc s))"

definition same_programs :: "scheduler \<Rightarrow> scheduler \<Rightarrow> bool" where
  "same_programs s s' \<longleftrightarrow> np s' = np s \<and> (\<forall>i < np s. cd s' i = cd s i) \<and> io_finish_times s' = io_finish_times s \<and>
     process_switch_behavior s' = process_switch_behavior s \<and> io_done_behavior s' = io_done_behavior s \<and> io_length s' = io_length s"

text \<open>Ticks a process may still need: its instructions, the waits of its I/Os, and one to end when it has none left.\<close>

definition ticks_left :: "int \<Rightarrow> nat \<Rightarrow> scheduler \<Rightarrow> nat \<Rightarrow> nat" where
  "ticks_left c k s i = length (cd s i) + nat (io_length s) * count_list (cd s i) DO_IO +
     (case waiting c k s i of [] \<Rightarrow> 0 | t # _ \<Rightarrow> nat (t - seen_until c k i - 1)) + of_bool (st s i \<noteq> DONE \<and> cd s i = [])"

definition all_ticks :: "int \<Rightarrow> nat \<Rightarrow> scheduler \<Rightarrow> nat" where
  "all_ticks c k s = (\<Sum>i < np s. ticks_left c k s i)"

lemma set_state_simps [simp]:
  "np (set_state i x s) = np s" "io_finish_times (set_state i x s) = io_finish_times s" "curr_proc (set_state i x s) = curr_proc s"
  "process_switch_behavior (set_state i x s) = process_switch_behavior s" "io_done_behavior (set_state i x s) = io_done_behavior s"
  "io_length (set_state i x s) = io_length s"
  by (simp_all add: set_state_def)

lemma nth_set_state [simp]:
  "i < np s \<Longrightarrow> st (set_state i x s) j = (if j = i then x else st s j)"
  "cd (set_state i x s) j = cd s j"
  by (auto simp: set_state_def nth_list_update) (metis list_update_beyond not_less nth_list_update_eq nth_list_update_neq process.select_convs(3) process.surjective process.update_convs(4))

lemma move_to_runs: "pid < np s \<Longrightarrow> st s pid = expected \<Longrightarrow> move_to x expected pid s = Inr (set_state pid x s)"
  by (simp add: move_to_def proc_at_def)

lemma dispatch: "i < np s \<Longrightarrow> st s i = READY \<Longrightarrow> next_proc (Some i) s = Inr (set_state i RUNNING (s\<lparr>curr_proc := i\<rparr>))"
  by (simp add: next_proc_def move_to_running_def move_to_runs)

lemma same_programs_refl [simp]: "same_programs s s"
  by (simp add: same_programs_def)

lemma same_programs_trans: "same_programs s t \<Longrightarrow> same_programs t u \<Longrightarrow> same_programs s u"
  by (simp add: same_programs_def)

lemma same_programs_set [simp]: "same_programs s (set_state i x s)" "same_programs s (s\<lparr>curr_proc := j\<rparr>)"
  by (simp_all add: same_programs_def)

lemma all_ticks_same:
  assumes "same_programs s s'" and "\<And>i. i < np s \<Longrightarrow> (st s' i = DONE) = (st s i = DONE)"
  shows "all_ticks c k s' = all_ticks c k s"
proof -
  have "ticks_left c k s' i = ticks_left c k s i" if "i < np s" for i
    using assms(1) assms(2) [OF that] that by (simp add: same_programs_def ticks_left_def waiting_def)
  then show ?thesis using assms(1) by (simp add: all_ticks_def same_programs_def)
qed

lemma table_ok_same:
  assumes "table_ok c k s" and "same_programs s s'" and "curr_proc s' < np s"
    and "\<And>i. i < np s \<Longrightarrow> (st s' i = DONE \<longrightarrow> cd s i = []) \<and> (st s' i = BLOCKED \<longleftrightarrow> st s i = BLOCKED)"
  shows "table_ok c k s'"
  using assms unfolding table_ok_def same_programs_def waiting_def by (metis (no_types, lifting))

lemma next_proc_runs:
  assumes ok: "table_ok c k s" and idle: "\<And>i. i < np s \<Longrightarrow> st s i \<noteq> RUNNING"
    and blocked: "process_switch_behavior s = SWITCH_ON_END \<Longrightarrow> (\<forall>i < np s. st s i \<noteq> BLOCKED)"
  shows "\<exists>s'. next_proc None s = Inr s' \<and> table_ok c k s' \<and> cpu_ok s' \<and> same_programs s s' \<and>
    (\<forall>i < np s. (st s' i = DONE \<longleftrightarrow> st s i = DONE) \<and> (st s' i = BLOCKED \<longleftrightarrow> st s i = BLOCKED)) \<and>
    all_ticks c k s' = all_ticks c k s"
proof -
  let ?pids = "[curr_proc s + 1..<np s] @ [0..<curr_proc s + 1]"
  have curr: "curr_proc s < np s" using ok by (simp add: table_ok_def)
  then have pids: "set ?pids = {0..<np s}" by auto
  show ?thesis
  proof (cases "find (\<lambda>i. st s i = READY) ?pids")
    case None
    then have none: "\<And>i. i < np s \<Longrightarrow> st s i \<noteq> READY" using pids by (auto simp: find_None_iff)
    have run: "next_proc None s = Inr s" using None by (simp add: next_proc_def)
    have "cpu_ok s" using none idle blocked by (auto simp: cpu_ok_def)
    then show ?thesis using run ok by simp
  next
    case (Some j)
    obtain m where "m < length ?pids" "st s (?pids ! m) = READY" "j = ?pids ! m" using Some unfolding find_Some_iff by blast
    then have "j \<in> set ?pids \<and> st s j = READY" using nth_mem by blast
    then have j: "j < np s" "st s j = READY" unfolding pids by auto
    let ?s = "set_state j RUNNING (s\<lparr>curr_proc := j\<rparr>)"
    have same: "same_programs s ?s" by (rule same_programs_trans [of _ "s\<lparr>curr_proc := j\<rparr>"]) simp_all
    have run: "next_proc None s = Inr ?s"
      using Some j by (simp add: next_proc_def move_to_running_def move_to_runs)
    have "table_ok c k ?s"
      by (rule table_ok_same [OF ok same]) (use j ok in \<open>auto simp: table_ok_def\<close>)
    moreover have "cpu_ok ?s" using j idle blocked by (auto simp: cpu_ok_def)
    moreover have "all_ticks c k ?s = all_ticks c k s" by (rule all_ticks_same [OF same]) (use j in auto)
    ultimately show ?thesis using run same j by auto
  qed
qed


lemma check_if_done_runs:
  assumes ok: "table_ok c k s" and cpu: "cpu_ok s"
  shows "\<exists>s'. check_if_done s = Inr s' \<and> table_ok c k s' \<and> cpu_ok s' \<and> same_programs s s' \<and>
    (\<forall>i < np s. st s' i = BLOCKED \<longleftrightarrow> st s i = BLOCKED) \<and>
    all_ticks c k s' + of_bool (st s (curr_proc s) = RUNNING \<and> cd s (curr_proc s) = []) = all_ticks c k s"
proof -
  let ?i = "curr_proc s"
  have curr: "?i < np s" using ok by (simp add: table_ok_def)
  show ?thesis
  proof (cases "cd s ?i = [] \<and> st s ?i = RUNNING")
    case False
    then show ?thesis using ok cpu curr by (auto simp: check_if_done_def proc_at_def)
  next
    case True
    define s1 where "s1 = set_state ?i DONE s"
    have one: "\<And>i. i < np s \<Longrightarrow> st s i = RUNNING \<Longrightarrow> i = ?i" using cpu by (auto simp: cpu_ok_def)
    have ok1: "table_ok c k s1"
      by (rule table_ok_same [OF ok]) (use True curr ok in \<open>auto simp: s1_def table_ok_def\<close>)
    have idle: "st s1 i \<noteq> RUNNING" if "i < np s1" for i using that one curr by (auto simp: s1_def)
    have bl: "process_switch_behavior s1 = SWITCH_ON_END \<Longrightarrow> \<forall>i < np s1. st s1 i \<noteq> BLOCKED"
    proof (intro allI impI)
      fix i assume e: "process_switch_behavior s1 = SWITCH_ON_END" and i: "i < np s1"
      have "st s i = BLOCKED \<Longrightarrow> i = ?i" using cpu e i by (simp add: s1_def cpu_ok_def)
      then show "st s1 i \<noteq> BLOCKED" using True curr i by (cases "i = ?i") (auto simp: s1_def)
    qed
    obtain s' where s': "next_proc None s1 = Inr s'" "table_ok c k s'" "cpu_ok s'" "same_programs s1 s'"
      "\<forall>i < np s1. (st s' i = DONE \<longleftrightarrow> st s1 i = DONE) \<and> (st s' i = BLOCKED \<longleftrightarrow> st s1 i = BLOCKED)"
      "all_ticks c k s' = all_ticks c k s1"
      using next_proc_runs [OF ok1 idle bl] by blast
    have run: "check_if_done s = Inr s'"
      using True curr s'(1) by (simp add: check_if_done_def proc_at_def move_to_done_def move_to_runs s1_def)
    have "ticks_left c k s1 i = ticks_left c k s i" if "i < np s" "i \<noteq> ?i" for i
      using that curr by (simp add: s1_def ticks_left_def waiting_def)
    moreover have "ticks_left c k s1 ?i + 1 = ticks_left c k s ?i"
      using True curr by (simp add: s1_def ticks_left_def waiting_def)
    ultimately have "all_ticks c k s1 + 1 = all_ticks c k s"
      using curr by (simp add: all_ticks_def s1_def sum.remove [of "{..<np s}" ?i])
    moreover have "same_programs s s'" by (rule same_programs_trans [OF _ s'(4)]) (simp add: s1_def)
    moreover have "\<forall>i < np s. st s' i = BLOCKED \<longleftrightarrow> st s i = BLOCKED"
      using s'(5) True curr by (simp add: s1_def)
    ultimately show ?thesis using run s' True by auto
  qed
qed

text \<open>The end of an I/O: the process leaves the wait; whether it runs at once or becomes ready, the table stays well-formed.\<close>

lemma woken_table:
  assumes ok: "table_ok c k s" and k: "k < np s" and due: "c + 1 \<in> set (io_finish_times s ! k)" and s1: "s1 = set_state k READY s"
  shows "st s k = BLOCKED" and "table_ok c (k + 1) s1" and "all_ticks c (k + 1) s1 \<le> all_ticks c k s"
    and "(\<exists>i < k. st s i = BLOCKED) \<longrightarrow> (\<exists>i < k. st s1 i = BLOCKED)"
proof -
  have "c + 1 \<in> set (waiting c k s k)" using due by (simp add: waiting_def seen_until_def)
  then have ne: "waiting c k s k \<noteq> []" by auto
  then show bl: "st s k = BLOCKED" using ok k by (auto simp: table_ok_def)
  then obtain t where t: "waiting c k s k = [t]" using ok k by (auto simp: table_ok_def)
  with \<open>c + 1 \<in> set (waiting c k s k)\<close> have t1: "waiting c k s k = [c + 1]" by simp
  have other: "waiting c (k + 1) s1 i = waiting c k s i" if "i \<noteq> k" for i
    using that by (auto simp: waiting_def seen_until_def s1 intro: filter_cong)
  have "waiting c (k + 1) s1 k = filter (\<lambda>t. c + 1 < t) (waiting c k s k)"
    by (auto simp: waiting_def seen_until_def s1 intro: filter_cong)
  then have mine: "waiting c (k + 1) s1 k = []" using t1 by simp
  have cdk: "cd s k \<noteq> []" using ok k bl by (auto simp: table_ok_def)
  show "table_ok c (k + 1) s1"
    unfolding table_ok_def
  proof (intro conjI allI impI)
    fix i assume "i < np s1"
    then have i: "i < np s" by (simp add: s1)
    show "io_handled (cd s1 i)" using ok i by (simp add: table_ok_def s1)
    show "cd s1 i = []" if "st s1 i = DONE" using that ok i k by (auto simp: table_ok_def s1 split: if_splits)
    show "cd s1 i \<noteq> []" if "st s1 i = BLOCKED" using that ok i k by (auto simp: table_ok_def s1 split: if_splits)
    show "\<exists>t. waiting c (k + 1) s1 i = [t]" if b: "st s1 i = BLOCKED"
    proof -
      have "i \<noteq> k" "st s i = BLOCKED" using b k by (auto simp: s1 split: if_splits)
      then show ?thesis using other [of i] ok i by (auto simp: table_ok_def)
    qed
    show "waiting c (k + 1) s1 i = []" if b: "st s1 i \<noteq> BLOCKED"
    proof (cases "i = k")
      case False
      then have "st s i \<noteq> BLOCKED" using b k by (simp add: s1)
      then show ?thesis using other [OF False] ok i by (auto simp: table_ok_def)
    qed (use mine in simp)
  qed (use ok in \<open>simp_all add: table_ok_def s1\<close>)
  have "ticks_left c (k + 1) s1 i = ticks_left c k s i" if "i < np s" for i
  proof (cases "i = k")
    case True
    then show ?thesis using mine t1 cdk k bl by (simp add: ticks_left_def seen_until_def s1)
  next
    case False
    have "seen_until c (k + 1) i = seen_until c k i" using False by (simp add: seen_until_def)
    then show ?thesis using other [OF False] k False by (simp add: ticks_left_def s1 split: list.split)
  qed
  then show "all_ticks c (k + 1) s1 \<le> all_ticks c k s" by (simp add: all_ticks_def s1)
  show "(\<exists>i < k. st s i = BLOCKED) \<longrightarrow> (\<exists>i < k. st s1 i = BLOCKED)"
    using k by (metis nat_less_le nth_set_state(1) s1)
qed

lemma not_due_table:
  assumes ok: "table_ok c k s" and k: "k < np s" and due: "c + 1 \<notin> set (io_finish_times s ! k)"
  shows "table_ok c (k + 1) s" and "all_ticks c (k + 1) s + of_bool (st s k = BLOCKED) \<le> all_ticks c k s"
proof -
  have other: "waiting c (k + 1) s i = waiting c k s i" if "i \<noteq> k" for i
    using that by (auto simp: waiting_def seen_until_def intro: filter_cong)
  have mine: "waiting c (k + 1) s k = waiting c k s k"
    unfolding waiting_def seen_until_def using due by (auto intro!: filter_cong) (metis add.commute zless_imp_add1_zle order_le_imp_less_or_eq)
  show "table_ok c (k + 1) s"
    using ok other mine unfolding table_ok_def by metis
  have late: "c + 2 \<le> t" if "waiting c k s k = [t]" for t
  proof -
    have "t \<in> set (waiting c k s k)" using that by simp
    then have "c < t" "t \<in> set (io_finish_times s ! k)" by (auto simp: waiting_def seen_until_def)
    then show ?thesis using due by (cases "t = c + 1") auto
  qed
  have one: "ticks_left c (k + 1) s k + of_bool (st s k = BLOCKED) \<le> ticks_left c k s k"
    using ok k mine late by (auto simp: table_ok_def ticks_left_def seen_until_def split: list.splits)
  have rest: "ticks_left c (k + 1) s i = ticks_left c k s i" if "i \<noteq> k" for i
  proof -
    have "seen_until c (k + 1) i = seen_until c k i" using that by (simp add: seen_until_def)
    then show ?thesis using other [OF that] by (simp add: ticks_left_def split: list.split)
  qed
  then show "all_ticks c (k + 1) s + of_bool (st s k = BLOCKED) \<le> all_ticks c k s"
    using one k by (simp add: all_ticks_def sum.remove [of "{..<np s}" k])
qed


lemma runnable_cases:
  assumes k: "k < np s" and rdy: "st s k = READY"
  shows "get_num_runnable s = 1 \<longleftrightarrow> (\<forall>i < np s. st s i = READY \<or> st s i = RUNNING \<longrightarrow> i = k)" and "1 \<le> get_num_runnable s"
proof -
  let ?R = "{i. i < np s \<and> (st s i = READY \<or> st s i = RUNNING)}"
  have card: "get_num_runnable s = card ?R" by (simp add: get_num_runnable_def length_filter_conv_card)
  have kR: "k \<in> ?R" using assms by simp
  have fin: "finite ?R" by simp
  have "?R \<noteq> {}" using kR by blast
  then have "card ?R \<noteq> 0" unfolding card_eq_0_iff using fin by blast
  then show "1 \<le> get_num_runnable s" unfolding card by linarith
  show "get_num_runnable s = 1 \<longleftrightarrow> (\<forall>i < np s. st s i = READY \<or> st s i = RUNNING \<longrightarrow> i = k)"
  proof
    assume "get_num_runnable s = 1"
    then obtain x where x: "?R = {x}" unfolding card by (rule card_1_singletonE)
    have "i = k" if "i \<in> ?R" for i using that kR unfolding x by (metis singletonD)
    then show "\<forall>i < np s. st s i = READY \<or> st s i = RUNNING \<longrightarrow> i = k" by simp
  next
    assume "\<forall>i < np s. st s i = READY \<or> st s i = RUNNING \<longrightarrow> i = k"
    then have "?R \<subseteq> {k}" by auto
    then have "?R = {k}" using kR by (metis subset_singletonD empty_iff)
    then show "get_num_runnable s = 1" unfolding card by simp
  qed
qed

text \<open>The effect of waking process \<open>k\<close>, when it runs at once.\<close>

definition run_instead :: "nat \<Rightarrow> scheduler \<Rightarrow> scheduler" where
  "run_instead k s =
     (let s = (if curr_proc s \<noteq> k \<and> st s (curr_proc s) = RUNNING then set_state (curr_proc s) READY s else s)
      in set_state k RUNNING (s\<lparr>curr_proc := k\<rparr>))"

lemma wake_up_cases:
  assumes k: "k < np s" and rdy: "st s k = READY" and curr: "curr_proc s < np s"
    and one: "\<And>i. i < np s \<Longrightarrow> st s i = RUNNING \<Longrightarrow> i = curr_proc s"
    and others: "\<And>i. i < np s \<Longrightarrow> i \<noteq> k \<Longrightarrow> st s i = READY \<Longrightarrow>
      st s (curr_proc s) = RUNNING \<or> process_switch_behavior s = SWITCH_ON_END \<and> curr_proc s = k"
    and at_end: "process_switch_behavior s = SWITCH_ON_END \<Longrightarrow> curr_proc s = k"
  shows "wake_up k s = Inr (run_instead k s) \<or> wake_up k s = Inr s \<and> st s (curr_proc s) = RUNNING \<and> process_switch_behavior s = SWITCH_ON_IO"
proof (cases "io_done_behavior s = IO_RUN_IMMEDIATE")
  case True
  then show ?thesis using k rdy curr
    by (simp add: wake_up_def run_instead_def Let_def dispatch move_to_ready_def move_to_runs)
next
  case later: False
  show ?thesis
  proof (cases "get_num_runnable s = 1")
    case True
    then have "\<not> (curr_proc s \<noteq> k \<and> st s (curr_proc s) = RUNNING)" using runnable_cases(1) [OF k rdy] curr by auto
    then have eq: "run_instead k s = set_state k RUNNING (s\<lparr>curr_proc := k\<rparr>)" by (auto simp: run_instead_def Let_def)
    show ?thesis using later True k rdy unfolding eq by (simp add: wake_up_def dispatch)
  next
    case False
    then have many: "1 < get_num_runnable s" using runnable_cases(2) [OF k rdy] by simp
    show ?thesis
    proof (cases "process_switch_behavior s")
      case SWITCH_ON_END
      then have c: "curr_proc s = k" by (rule at_end)
      let ?s = "set_state k RUNNING (s\<lparr>curr_proc := k\<rparr>)"
      have "get_num_runnable ?s = get_num_runnable s"
        unfolding get_num_runnable_def length_filter_conv_card
        by (rule arg_cong [where f = card]) (use k rdy in auto)
      then have "get_num_runnable ?s \<noteq> 1" using many by simp
      then show ?thesis using later many SWITCH_ON_END k rdy c
        by (simp add: wake_up_def run_instead_def Let_def dispatch)
    next
      case SWITCH_ON_IO
      obtain j where "j < np s" "j \<noteq> k" "st s j = READY \<or> st s j = RUNNING"
        using False runnable_cases(1) [OF k rdy] by blast
      then have "st s (curr_proc s) = RUNNING" using one others SWITCH_ON_IO by fastforce
      then show ?thesis using later False SWITCH_ON_IO by (simp add: wake_up_def)
    qed
  qed
qed


lemma run_instead_props:
  assumes k: "k < np s" and curr: "curr_proc s < np s" and rdy: "st s k = READY"
  shows "st (run_instead k s) i = (if i = k then RUNNING else if i = curr_proc s \<and> st s i = RUNNING then READY else st s i)"
    and "curr_proc (run_instead k s) = k" and "same_programs s (run_instead k s)"
proof -
  show "st (run_instead k s) i = (if i = k then RUNNING else if i = curr_proc s \<and> st s i = RUNNING then READY else st s i)"
    using k curr by (auto simp: run_instead_def Let_def)
  show "curr_proc (run_instead k s) = k" by (simp add: run_instead_def Let_def)
  show "same_programs s (run_instead k s)" by (auto simp: run_instead_def Let_def same_programs_def)
qed

lemma io_finish_runs:
  assumes ok: "table_ok c k s" and cpu: "cpu_ok s" and k: "k < np s"
  shows "\<exists>s'. io_finish (c + 1) k s = Inr s' \<and> table_ok c (k + 1) s' \<and> cpu_ok s' \<and> same_programs s s' \<and>
    (\<forall>i < np s. st s' i = BLOCKED \<longleftrightarrow> st s i = BLOCKED \<and> (i = k \<longrightarrow> c + 1 \<notin> set (io_finish_times s ! k))) \<and>
    all_ticks c (k + 1) s' + of_bool (st s' k = BLOCKED) \<le> all_ticks c k s"
proof (cases "c + 1 \<in> set (io_finish_times s ! k)")
  case False
  then show ?thesis
    using not_due_table [OF ok k False] cpu by (auto simp: io_finish_def)
next
  case due: True
  define s1 where "s1 = set_state k READY s"
  have curr: "curr_proc s < np s" using ok by (simp add: table_ok_def)
  have bl: "st s k = BLOCKED" and ok1: "table_ok c (k + 1) s1" and t1: "all_ticks c (k + 1) s1 \<le> all_ticks c k s"
    using woken_table [OF ok k due s1_def] by auto
  have k1: "k < np s1" "curr_proc s1 < np s1" "curr_proc s1 = curr_proc s" "process_switch_behavior s1 = process_switch_behavior s"
    using k curr by (simp_all add: s1_def)
  have st1: "st s1 i = (if i = k then READY else st s i)" for i using k by (simp add: s1_def)
  have one: "i = curr_proc s1" if "i < np s1" "st s1 i = RUNNING" for i
    using that cpu st1 by (auto simp: s1_def cpu_ok_def split: if_splits)
  have at_end: "curr_proc s1 = k" if "process_switch_behavior s1 = SWITCH_ON_END"
    using that bl cpu k unfolding cpu_ok_def k1 by auto
  have others: "st s1 (curr_proc s1) = RUNNING \<or> process_switch_behavior s1 = SWITCH_ON_END \<and> curr_proc s1 = k"
    if "i < np s1" "i \<noteq> k" "st s1 i = READY" for i
  proof -
    have "i < np s" "st s i = READY" using that st1 by (simp_all add: s1_def)
    then have "st s (curr_proc s) = RUNNING \<or> process_switch_behavior s = SWITCH_ON_END"
      using cpu unfolding cpu_ok_def by blast
    then show ?thesis using at_end bl st1 k1 by auto
  qed
  have step: "io_finish (c + 1) k s = rbind (wake_up k s1) check_if_done"
    using due k bl by (simp add: io_finish_def move_to_ready_def move_to_runs s1_def)
  have rdy: "st s1 k = READY" by (simp add: st1)
  have woken: "wake_up k s1 = Inr (run_instead k s1) \<or> wake_up k s1 = Inr s1 \<and> st s1 (curr_proc s1) = RUNNING \<and> process_switch_behavior s1 = SWITCH_ON_IO"
  proof (rule wake_up_cases [OF k1(1) rdy k1(2)])
  qed (use one others at_end in blast)+
  have "\<exists>s2. wake_up k s1 = Inr s2 \<and> table_ok c (k + 1) s2 \<and> cpu_ok s2 \<and> same_programs s1 s2 \<and>
      (\<forall>i < np s. st s2 i = BLOCKED \<longleftrightarrow> st s1 i = BLOCKED) \<and> all_ticks c (k + 1) s2 = all_ticks c (k + 1) s1"
    using woken
  proof (elim disjE conjE)
    assume run: "wake_up k s1 = Inr (run_instead k s1)"
    note ri = run_instead_props [OF k1(1,2) rdy]
    have "table_ok c (k + 1) (run_instead k s1)"
      by (rule table_ok_same [OF ok1 ri(3)]) (use ri(1,2) ok1 k1 rdy in \<open>auto simp: table_ok_def split: if_splits\<close>)
    moreover have "cpu_ok (run_instead k s1)"
      unfolding cpu_ok_def
    proof (intro allI impI conjI)
      fix i assume "i < np (run_instead k s1)"
      then have i: "i < np s1" using ri(3) by (simp add: same_programs_def)
      show "i = curr_proc (run_instead k s1)" if "st (run_instead k s1) i = RUNNING"
        using that one [OF i] by (auto simp: ri(1,2) split: if_splits)
      show "st (run_instead k s1) (curr_proc (run_instead k s1)) = RUNNING \<or>
          process_switch_behavior (run_instead k s1) = SWITCH_ON_END \<and> st (run_instead k s1) (curr_proc (run_instead k s1)) = BLOCKED"
        by (simp add: ri(1,2))
      assume e: "st (run_instead k s1) i = BLOCKED \<and> process_switch_behavior (run_instead k s1) = SWITCH_ON_END"
      then have "process_switch_behavior s1 = SWITCH_ON_END" using ri(3) by (simp add: same_programs_def)
      moreover have "i \<noteq> k" "st s i = BLOCKED" using e by (auto simp: ri(1) st1 split: if_splits)
      moreover have "i < np s" using i by (simp add: s1_def)
      ultimately show "i = curr_proc (run_instead k s1)" using cpu at_end k1 unfolding cpu_ok_def by (metis ri(2))
    qed
    moreover have "all_ticks c (k + 1) (run_instead k s1) = all_ticks c (k + 1) s1"
      by (rule all_ticks_same [OF ri(3)]) (use ri(1) rdy in auto)
    moreover have "\<forall>i < np s. st (run_instead k s1) i = BLOCKED \<longleftrightarrow> st s1 i = BLOCKED" using ri(1) rdy by auto
    ultimately show ?thesis using run ri(3) by blast
  next
    assume "wake_up k s1 = Inr s1" "st s1 (curr_proc s1) = RUNNING" "process_switch_behavior s1 = SWITCH_ON_IO"
    moreover have "cpu_ok s1" unfolding cpu_ok_def using calculation one by auto
    ultimately show ?thesis using ok1 by simp
  qed
  then obtain s2 where s2: "wake_up k s1 = Inr s2" "table_ok c (k + 1) s2" "cpu_ok s2" "same_programs s1 s2"
      "\<forall>i < np s. st s2 i = BLOCKED \<longleftrightarrow> st s1 i = BLOCKED" "all_ticks c (k + 1) s2 = all_ticks c (k + 1) s1"
    by blast
  obtain s3 where s3: "check_if_done s2 = Inr s3" "table_ok c (k + 1) s3" "cpu_ok s3" "same_programs s2 s3"
      "\<forall>i < np s2. st s3 i = BLOCKED \<longleftrightarrow> st s2 i = BLOCKED" "all_ticks c (k + 1) s3 \<le> all_ticks c (k + 1) s2"
    using check_if_done_runs [OF s2(2,3)] by (metis le_add1)
  have n: "np s2 = np s" using s2(4) by (simp add: same_programs_def s1_def)
  have same: "same_programs s s3"
    using s2(4) s3(4) by (intro same_programs_trans [of s s1 s3]) (auto simp: s1_def intro: same_programs_trans)
  have blocked: "st s3 i = BLOCKED \<longleftrightarrow> st s i = BLOCKED \<and> (i = k \<longrightarrow> c + 1 \<notin> set (io_finish_times s ! k))" if "i < np s" for i
    using that s2(5) s3(5) n st1 due by auto
  have "all_ticks c (k + 1) s3 + of_bool (st s3 k = BLOCKED) \<le> all_ticks c k s"
    using s3(6) s2(6) t1 blocked [OF k] due by simp
  then show ?thesis using step s2(1) s3 same blocked by auto
qed


lemma io_loop_runs:
  assumes ok: "table_ok c 0 s" and cpu: "cpu_ok s"
  shows "k \<le> np s \<Longrightarrow> \<exists>s'. rfold (io_finish (c + 1)) [0..<k] s = Inr s' \<and> table_ok c k s' \<and> cpu_ok s' \<and> same_programs s s' \<and>
    (\<forall>i < np s. st s' i = BLOCKED \<longleftrightarrow> st s i = BLOCKED \<and> (i < k \<longrightarrow> c + 1 \<notin> set (io_finish_times s ! i))) \<and>
    all_ticks c k s' + of_bool (\<exists>i < k. st s' i = BLOCKED) \<le> all_ticks c 0 s"
proof (induction k)
  case 0
  show ?case using ok cpu by simp
next
  case (Suc k)
  obtain s1 where s1: "rfold (io_finish (c + 1)) [0..<k] s = Inr s1" "table_ok c k s1" "cpu_ok s1" "same_programs s s1"
    and bl1: "\<And>i. i < np s \<Longrightarrow> st s1 i = BLOCKED \<longleftrightarrow> st s i = BLOCKED \<and> (i < k \<longrightarrow> c + 1 \<notin> set (io_finish_times s ! i))"
    and t1: "all_ticks c k s1 + of_bool (\<exists>i < k. st s1 i = BLOCKED) \<le> all_ticks c 0 s"
    using Suc.IH [OF Suc_leD [OF Suc.prems]] by blast
  have n: "np s1 = np s" "io_finish_times s1 = io_finish_times s" using s1(4) by (simp_all add: same_programs_def)
  have k: "k < np s1" using Suc.prems n by simp
  obtain s2 where s2: "io_finish (c + 1) k s1 = Inr s2" "table_ok c (k + 1) s2" "cpu_ok s2" "same_programs s1 s2"
    and bl2: "\<And>i. i < np s1 \<Longrightarrow> st s2 i = BLOCKED \<longleftrightarrow> st s1 i = BLOCKED \<and> (i = k \<longrightarrow> c + 1 \<notin> set (io_finish_times s1 ! k))"
    and t2: "all_ticks c (k + 1) s2 + of_bool (st s2 k = BLOCKED) \<le> all_ticks c k s1"
    using io_finish_runs [OF s1(2,3) k] by blast
  have run: "rfold (io_finish (c + 1)) [0..<Suc k] s = Inr s2" using s1(1) s2(1) by (simp add: rfold_append)
  have same: "same_programs s s2" using s1(4) s2(4) by (rule same_programs_trans)
  have bl: "st s2 i = BLOCKED \<longleftrightarrow> st s i = BLOCKED \<and> (i < Suc k \<longrightarrow> c + 1 \<notin> set (io_finish_times s ! i))" if "i < np s" for i
    using bl1 [OF that] bl2 [of i] that n by (auto simp: less_Suc_eq)
  have "(\<exists>i < Suc k. st s2 i = BLOCKED) \<longrightarrow> (\<exists>i < k. st s1 i = BLOCKED) \<or> st s2 k = BLOCKED"
    using bl2 k by (metis less_Suc_eq less_trans)
  then have "of_bool (\<exists>i < Suc k. st s2 i = BLOCKED) \<le> of_bool (\<exists>i < k. st s1 i = BLOCKED) + (of_bool (st s2 k = BLOCKED) :: nat)"
    by (auto simp: of_bool_def)
  then have "all_ticks c (Suc k) s2 + of_bool (\<exists>i < Suc k. st s2 i = BLOCKED) \<le> all_ticks c 0 s" using t1 t2 by simp
  then show ?case using run s2(2,3) same bl by auto
qed

lemma next_clock:
  assumes "table_ok c (np s) s"
  shows "table_ok (c + 1) 0 s" and "all_ticks (c + 1) 0 s = all_ticks c (np s) s"
proof -
  have w: "waiting (c + 1) 0 s i = waiting c (np s) s i" "seen_until (c + 1) 0 i = seen_until c (np s) i" if "i < np s" for i
    using that by (simp_all add: waiting_def seen_until_def)
  show "table_ok (c + 1) 0 s" using assms w unfolding table_ok_def by metis
  show "all_ticks (c + 1) 0 s = all_ticks c (np s) s"
    unfolding all_ticks_def ticks_left_def by (rule sum.cong) (simp_all add: w cong: list.case_cong)
qed

definition code_left :: "scheduler \<Rightarrow> nat" where
  "code_left s = (\<Sum>i < np s. length (cd s i))"

lemma code_left_same: "same_programs s s' \<Longrightarrow> code_left s' = code_left s"
  by (simp add: same_programs_def code_left_def)

text \<open>Sums over the processes when only one of them changes.\<close>

lemma sum_change:
  fixes f g :: "nat \<Rightarrow> nat"
  assumes "j < n" and "\<And>i. i < n \<Longrightarrow> i \<noteq> j \<Longrightarrow> f i = g i"
  shows "(\<Sum>i < n. f i) + g j = (\<Sum>i < n. g i) + f j"
proof -
  have "(\<Sum>i < n. f i) = f j + (\<Sum>i \<in> {..<n} - {j}. f i)" "(\<Sum>i < n. g i) = g j + (\<Sum>i \<in> {..<n} - {j}. g i)"
    using assms(1) by (simp_all add: sum.remove)
  moreover have "(\<Sum>i \<in> {..<n} - {j}. f i) = (\<Sum>i \<in> {..<n} - {j}. g i)" by (rule sum.cong) (use assms(2) in auto)
  ultimately show ?thesis by simp
qed

text \<open>Executing an instruction of the current process.\<close>

lemma popped_table:
  assumes ok: "table_ok c 0 s" and cpu: "cpu_ok s" and run: "st s (curr_proc s) = RUNNING" and cd: "cd s (curr_proc s) = x # xs"
    and s1: "s1 = s\<lparr>proc_info := (proc_info s)[curr_proc s := (proc_info s ! curr_proc s)\<lparr>code := xs\<rparr>]\<rparr>"
  shows "pop_instr s = (Some x, s1)" and "table_ok c 0 s1" and "cpu_ok s1" and "code_left s1 + 1 = code_left s"
    and "all_ticks c 0 s1 + 1 + nat (io_length s) * of_bool (x = DO_IO) = all_ticks c 0 s + of_bool (xs = [])"
proof -
  let ?j = "curr_proc s"
  have j: "?j < np s" using ok by (simp add: table_ok_def)
  have st1: "st s1 i = st s i" for i using j by (auto simp: s1 nth_list_update)
  have cd1: "cd s1 i = (if i = ?j then xs else cd s i)" for i using j by (auto simp: s1 nth_list_update)
  have w1: "waiting c 0 s1 i = waiting c 0 s i" for i by (simp add: s1 waiting_def)
  have n: "np s1 = np s" "curr_proc s1 = ?j" "io_length s1 = io_length s" "io_finish_times s1 = io_finish_times s"
    "process_switch_behavior s1 = process_switch_behavior s"
    by (simp_all add: s1)
  show "pop_instr s = (Some x, s1)" using run cd by (simp add: pop_instr_def s1)
  have "io_handled (x # xs)" using ok j cd unfolding table_ok_def by metis
  then have h: "io_handled xs" by (cases x) auto
  show "table_ok c 0 s1"
    unfolding table_ok_def n
  proof (intro conjI allI impI)
    fix i assume i: "i < np s"
    show "io_handled (cd s1 i)" using ok i h by (simp add: table_ok_def cd1)
    show "cd s1 i = []" if "st s1 i = DONE" using that ok i run by (auto simp: table_ok_def cd1 st1)
    show "cd s1 i \<noteq> []" if "st s1 i = BLOCKED" using that ok i run by (auto simp: table_ok_def cd1 st1)
    show "\<exists>t. waiting c 0 s1 i = [t]" if "st s1 i = BLOCKED" using that ok i unfolding table_ok_def st1 w1 by blast
    show "waiting c 0 s1 i = []" if "st s1 i \<noteq> BLOCKED" using that ok i unfolding table_ok_def st1 w1 by blast
  qed (use ok in \<open>simp_all add: table_ok_def\<close>)
  show "cpu_ok s1" using cpu unfolding cpu_ok_def n st1 .
  have "(\<Sum>i < np s. length (cd s1 i)) + length (cd s ?j) = (\<Sum>i < np s. length (cd s i)) + length (cd s1 ?j)"
    by (rule sum_change [OF j]) (simp add: cd1)
  then show "code_left s1 + 1 = code_left s" using cd by (simp add: code_left_def n cd1)
  have "(\<Sum>i < np s. ticks_left c 0 s1 i) + ticks_left c 0 s ?j = (\<Sum>i < np s. ticks_left c 0 s i) + ticks_left c 0 s1 ?j"
    by (rule sum_change [OF j]) (simp add: ticks_left_def w1 cd1 st1 n)
  moreover have "ticks_left c 0 s1 ?j + 1 + nat (io_length s) * of_bool (x = DO_IO) = ticks_left c 0 s ?j + of_bool (xs = [])"
    using cd run by (simp add: ticks_left_def w1 cd1 st1 n)
  ultimately show "all_ticks c 0 s1 + 1 + nat (io_length s) * of_bool (x = DO_IO) = all_ticks c 0 s + of_bool (xs = [])"
    by (simp add: all_ticks_def n)
qed


lemma issue_io_runs:
  assumes ok: "table_ok c 0 s" and cpu: "cpu_ok s" and run: "st s (curr_proc s) = RUNNING" and cd: "cd s (curr_proc s) \<noteq> []"
  shows "\<exists>s'. issue_io c s = Inr s' \<and> table_ok c 0 s' \<and> cpu_ok s' \<and> np s' = np s \<and> io_length s' = io_length s \<and>
    code_left s' = code_left s \<and> all_ticks c 0 s' = all_ticks c 0 s + nat (io_length s)"
proof -
  let ?j = "curr_proc s" and ?due = "c + io_length s + 1"
  define s1 where "s1 = set_state ?j BLOCKED s"
  define s2 where "s2 = s1\<lparr>io_finish_times := (io_finish_times s)[?j := io_finish_times s ! ?j @ [?due]]\<rparr>"
  have j: "?j < np s" and L: "0 \<le> io_length s" and fin: "length (io_finish_times s) = np s" using ok by (simp_all add: table_ok_def)
  have st2: "st s2 i = (if i = ?j then BLOCKED else st s i)" for i using j by (simp add: s2_def s1_def)
  have cd2: "cd s2 i = cd s i" for i by (simp add: s2_def s1_def)
  have n: "np s2 = np s" "curr_proc s2 = ?j" "io_length s2 = io_length s" "process_switch_behavior s2 = process_switch_behavior s"
    by (simp_all add: s2_def s1_def)
  have "waiting c 0 s ?j = []" using ok j run by (auto simp: table_ok_def)
  then have w2: "waiting c 0 s2 i = (if i = ?j then [?due] else waiting c 0 s i)" for i
    using j fin L by (simp add: s2_def s1_def waiting_def seen_until_def)
  have one: "i = ?j" if "i < np s" "st s i = RUNNING" for i using that cpu by (auto simp: cpu_ok_def)
  have ok2: "table_ok c 0 s2"
    unfolding table_ok_def n
  proof (intro conjI allI impI)
    fix i assume i: "i < np s"
    show "io_handled (cd s2 i)" using ok i by (simp add: table_ok_def cd2)
    show "cd s2 i = []" if "st s2 i = DONE" using that ok i by (auto simp: table_ok_def cd2 st2 split: if_splits)
    show "cd s2 i \<noteq> []" if "st s2 i = BLOCKED" using that ok i cd by (auto simp: table_ok_def cd2 st2 split: if_splits)
    show "\<exists>t. waiting c 0 s2 i = [t]" if "st s2 i = BLOCKED"
      using that ok i by (cases "i = ?j") (auto simp: table_ok_def w2 st2)
    show "waiting c 0 s2 i = []" if "st s2 i \<noteq> BLOCKED"
      using that ok i by (cases "i = ?j") (auto simp: table_ok_def w2 st2)
  qed (use ok fin in \<open>simp_all add: table_ok_def s2_def s1_def\<close>)
  have "(\<Sum>i < np s. ticks_left c 0 s2 i) + ticks_left c 0 s ?j = (\<Sum>i < np s. ticks_left c 0 s i) + ticks_left c 0 s2 ?j"
    by (rule sum_change [OF j]) (simp add: ticks_left_def w2 cd2 st2 n)
  moreover have "ticks_left c 0 s2 ?j = ticks_left c 0 s ?j + nat (io_length s)"
    using \<open>waiting c 0 s ?j = []\<close> cd by (simp add: ticks_left_def w2 cd2 st2 n seen_until_def)
  ultimately have t2: "all_ticks c 0 s2 = all_ticks c 0 s + nat (io_length s)" by (simp add: all_ticks_def n)
  have c2: "code_left s2 = code_left s" by (simp add: code_left_def n cd2)
  have step: "issue_io c s = (if process_switch_behavior s2 = SWITCH_ON_IO then next_proc None s2 else Inr s2)"
    using j run by (simp add: issue_io_def move_to_wait_def move_to_runs s1_def s2_def Let_def)
  show ?thesis
  proof (cases "process_switch_behavior s")
    case SWITCH_ON_IO
    have idle: "st s2 i \<noteq> RUNNING" if "i < np s2" for i using that one by (auto simp: st2 n)
    have "process_switch_behavior s2 \<noteq> SWITCH_ON_END" using SWITCH_ON_IO n by simp
    then obtain s3 where s3: "next_proc None s2 = Inr s3" "table_ok c 0 s3" "cpu_ok s3" "same_programs s2 s3" "all_ticks c 0 s3 = all_ticks c 0 s2"
      using next_proc_runs [OF ok2 idle] by metis
    then show ?thesis using step SWITCH_ON_IO n t2 c2 code_left_same [OF s3(4)] by (simp add: same_programs_def)
  next
    case SWITCH_ON_END
    have "cpu_ok s2"
      unfolding cpu_ok_def
    proof (intro allI impI conjI)
      fix i assume "i < np s2"
      then have i: "i < np s" by (simp add: n)
      show "i = curr_proc s2" if "st s2 i = RUNNING" using that one [OF i] by (auto simp: st2 n split: if_splits)
      show "st s2 (curr_proc s2) = RUNNING \<or> process_switch_behavior s2 = SWITCH_ON_END \<and> st s2 (curr_proc s2) = BLOCKED"
        using SWITCH_ON_END by (simp add: st2 n)
      assume "st s2 i = BLOCKED \<and> process_switch_behavior s2 = SWITCH_ON_END"
      then have b: "st s2 i = BLOCKED" by simp
      have endb: "st s i = BLOCKED \<Longrightarrow> i = ?j" using cpu i SWITCH_ON_END unfolding cpu_ok_def by blast
      show "i = curr_proc s2"
      proof (cases "i = ?j")
        case False
        then show ?thesis using b endb by (simp add: st2)
      qed (simp add: n)
    qed
    then show ?thesis using step SWITCH_ON_END n t2 c2 ok2 by simp
  qed
qed

text \<open>The second half of a tick: the instruction, the start of an I/O, and the end of the current process.\<close>

definition exec_part :: "int \<Rightarrow> scheduler \<Rightarrow> scheduler res" where
  "exec_part c s = (let (i, s) = pop_instr s in rbind (if i = Some DO_IO then issue_io c s else Inr s) check_if_done)"

lemma exec_part_runs:
  assumes ok: "table_ok c 0 s" and cpu: "cpu_ok s"
  shows "\<exists>s'. exec_part c s = Inr s' \<and> table_ok c 0 s' \<and> cpu_ok s' \<and> np s' = np s \<and>
    code_left s' + of_bool (fst (pop_instr s) \<noteq> None) = code_left s \<and>
    all_ticks c 0 s' + of_bool (st s (curr_proc s) = RUNNING) \<le> all_ticks c 0 s"
proof (cases "st s (curr_proc s) = RUNNING \<and> cd s (curr_proc s) \<noteq> []")
  case False
  obtain s' where s': "check_if_done s = Inr s'" "table_ok c 0 s'" "cpu_ok s'" "same_programs s s'"
    "all_ticks c 0 s' + of_bool (st s (curr_proc s) = RUNNING \<and> cd s (curr_proc s) = []) = all_ticks c 0 s"
    using check_if_done_runs [OF ok cpu] by blast
  have pop: "pop_instr s = (None, s)" using False by (simp add: pop_instr_def Let_def)
  show ?thesis
    using False s' pop code_left_same [OF s'(4)] by (auto simp: exec_part_def same_programs_def)
next
  case True
  then obtain x xs where cd: "cd s (curr_proc s) = x # xs" by (cases "cd s (curr_proc s)") auto
  have run: "st s (curr_proc s) = RUNNING" using True by simp
  define s1 where s1: "s1 = s\<lparr>proc_info := (proc_info s)[curr_proc s := (proc_info s ! curr_proc s)\<lparr>code := xs\<rparr>]\<rparr>"
  note pop = popped_table [OF ok cpu run cd s1]
  have j: "curr_proc s < np s" using ok by (simp add: table_ok_def)
  have f1: "curr_proc s1 = curr_proc s" "np s1 = np s" "io_length s1 = io_length s" "st s1 (curr_proc s) = RUNNING" "cd s1 (curr_proc s) = xs"
    using j run by (simp_all add: s1)
  have "\<exists>s2. (if x = DO_IO then issue_io c s1 else Inr s1) = Inr s2 \<and> table_ok c 0 s2 \<and> cpu_ok s2 \<and> np s2 = np s \<and> code_left s2 + 1 = code_left s \<and>
      all_ticks c 0 s2 + 1 = all_ticks c 0 s + of_bool (xs = []) \<and> (xs = [] \<longrightarrow> s2 = s1)"
  proof (cases "x = DO_IO")
    case False
    then show ?thesis using pop f1 by simp
  next
    case io: True
    have "io_handled (DO_IO # xs)" using ok j cd io unfolding table_ok_def by metis
    then have "xs \<noteq> []" by simp
    then show ?thesis using issue_io_runs [OF pop(2,3)] pop(4,5) f1 io by auto
  qed
  then obtain s2 where s2: "(if x = DO_IO then issue_io c s1 else Inr s1) = Inr s2" "table_ok c 0 s2" "cpu_ok s2" "np s2 = np s"
    "code_left s2 + 1 = code_left s" "all_ticks c 0 s2 + 1 = all_ticks c 0 s + of_bool (xs = [])" "xs = [] \<longrightarrow> s2 = s1"
    by blast
  obtain s3 where s3: "check_if_done s2 = Inr s3" "table_ok c 0 s3" "cpu_ok s3" "same_programs s2 s3"
    "all_ticks c 0 s3 + of_bool (st s2 (curr_proc s2) = RUNNING \<and> cd s2 (curr_proc s2) = []) = all_ticks c 0 s2"
    using check_if_done_runs [OF s2(2,3)] by blast
  have step: "exec_part c s = Inr s3" using pop(1) s2(1) s3(1) by (simp add: exec_part_def split: if_splits)
  have "all_ticks c 0 s3 + 1 \<le> all_ticks c 0 s"
    using s3(5) s2(6,7) f1 by (cases "xs = []") simp_all
  then show ?thesis
    using step s3 s2(4,5) code_left_same [OF s3(4)] pop(1) run by (simp add: same_programs_def)
qed

lemma proc_tick_split:
  "proc_tick (z, rows, s) =
    (let t = clock_tick z + 1 in
     rbind (rfold (io_finish t) [0..<np s] s) (\<lambda>s1.
     rbind (exec_part t s1) (\<lambda>s2.
     Inr (\<lparr>clock_tick = t, cpu_busy = cpu_busy z + (if fst (pop_instr s1) = None then 0 else 1),
           io_busy = io_busy z + (if 0 < get_ios_in_flight t (snd (pop_instr s1)) then 1 else 0)\<rparr>,
         rows @ [print_row t (\<exists>pid \<in> set [0..<np s]. t \<in> set (io_finish_times s ! pid)) (fst (pop_instr s1)) (snd (pop_instr s1))], s2))))"
  unfolding proc_tick_def exec_part_def Let_def
  by (simp add: split_beta rbind_def split: sum.split)

lemma active_cases:
  assumes ok: "table_ok c 0 s" and cpu: "cpu_ok s" and active: "get_num_active s \<noteq> 0"
  shows "st s (curr_proc s) = RUNNING \<or> (\<exists>i < np s. st s i = BLOCKED)"
proof -
  obtain i where i: "i < np s" "st s i \<noteq> DONE"
    using active by (auto simp: get_num_active_def filter_empty_conv in_set_conv_nth)
  have curr: "curr_proc s < np s" using ok by (simp add: table_ok_def)
  show ?thesis using i cpu curr unfolding cpu_ok_def by (cases "st s i") blast+
qed

text \<open>A tick never fails an assertion, keeps the table, and uses up one of the ticks left.\<close>

lemma proc_tick_runs:
  assumes ok: "table_ok (clock_tick z) 0 s" and cpu: "cpu_ok s" and active: "get_num_active s \<noteq> 0"
  shows "\<exists>z' rows' s'. proc_tick (z, rows, s) = Inr (z', rows', s') \<and> clock_tick z' = clock_tick z + 1 \<and>
    table_ok (clock_tick z') 0 s' \<and> cpu_ok s' \<and> np s' = np s \<and>
    cpu_busy z' + code_left s' = cpu_busy z + code_left s \<and> all_ticks (clock_tick z') 0 s' < all_ticks (clock_tick z) 0 s \<and>
    cpu_busy z' \<le> cpu_busy z + 1 \<and> io_busy z' \<le> io_busy z + 1 \<and> length rows' = length rows + 1"
proof -
  let ?c = "clock_tick z"
  obtain s1 where s1: "rfold (io_finish (?c + 1)) [0..<np s] s = Inr s1" "table_ok ?c (np s) s1" "cpu_ok s1" "same_programs s s1"
    and bl: "\<forall>i < np s. st s1 i = BLOCKED \<longleftrightarrow> st s i = BLOCKED \<and> (i < np s \<longrightarrow> ?c + 1 \<notin> set (io_finish_times s ! i))"
    and t1: "all_ticks ?c (np s) s1 + of_bool (\<exists>i < np s. st s1 i = BLOCKED) \<le> all_ticks ?c 0 s"
    using io_loop_runs [OF ok cpu order_refl] by blast
  have n1: "np s1 = np s" using s1(4) by (simp add: same_programs_def)
  have ok1: "table_ok (?c + 1) 0 s1" and eq1: "all_ticks (?c + 1) 0 s1 = all_ticks ?c (np s) s1"
    using next_clock [of ?c s1] s1(2) n1 by simp_all
  obtain s2 where s2: "exec_part (?c + 1) s1 = Inr s2" "table_ok (?c + 1) 0 s2" "cpu_ok s2" "np s2 = np s1"
    "code_left s2 + of_bool (fst (pop_instr s1) \<noteq> None) = code_left s1"
    "all_ticks (?c + 1) 0 s2 + of_bool (st s1 (curr_proc s1) = RUNNING) \<le> all_ticks (?c + 1) 0 s1"
    using exec_part_runs [OF ok1 s1(3)] by blast
  have busy: "st s1 (curr_proc s1) = RUNNING \<or> (\<exists>i < np s. st s1 i = BLOCKED)"
  proof (cases "\<exists>i < np s. st s i = BLOCKED")
    case True
    then obtain i where i: "i < np s" "st s i = BLOCKED" by blast
    then have "cd s1 i \<noteq> []" using ok s1(4) by (auto simp: table_ok_def same_programs_def)
    then have "st s1 i \<noteq> DONE" using s1(2) i n1 by (auto simp: table_ok_def)
    then have "get_num_active s1 \<noteq> 0" using i n1 nth_mem [of i "proc_info s1"] by (auto simp: get_num_active_def filter_empty_conv)
    then show ?thesis using active_cases [OF ok1 s1(3)] n1 by simp
  next
    case none: False
    then have run: "st s (curr_proc s) = RUNNING" using active_cases [OF ok cpu active] by blast
    have idle: "?c + 1 \<notin> set (io_finish_times s ! i)" if "i < np s" for i
    proof
      assume "?c + 1 \<in> set (io_finish_times s ! i)"
      then have "?c + 1 \<in> set (waiting ?c 0 s i)" by (simp add: waiting_def seen_until_def)
      moreover have "waiting ?c 0 s i = []" using that ok none by (auto simp: table_ok_def)
      ultimately show False by simp
    qed
    have "rfold (io_finish (?c + 1)) xs s = Inr s" if "\<forall>i \<in> set xs. i < np s" for xs
      using that idle by (induction xs) (simp_all add: io_finish_def)
    then have "s1 = s" using s1(1) by simp
    then show ?thesis using run by simp
  qed
  have less: "all_ticks (?c + 1) 0 s2 < all_ticks ?c 0 s"
    using busy s2(6) t1 eq1 by (auto simp: of_bool_def split: if_splits)
  have code: "code_left s1 = code_left s" using code_left_same [OF s1(4)] .
  show ?thesis
    unfolding proc_tick_split Let_def using s1(1) s2 n1 less code by (auto simp: of_bool_def)
qed


section \<open>Runs\<close>

lemma proc_loop_runs:
  assumes "table_ok (clock_tick z) 0 s" and "cpu_ok s" and "all_ticks (clock_tick z) 0 s \<le> fuel"
    and "int (cpu_busy z) \<le> clock_tick z" and "int (io_busy z) \<le> clock_tick z" and "int (length rows) = clock_tick z"
  shows "\<exists>z' rows' s'. proc_loop fuel (z, rows, s) = Inr (z', rows', s') \<and> get_num_active s' = 0 \<and> table_ok (clock_tick z') 0 s' \<and>
    np s' = np s \<and> cpu_busy z' + code_left s' = cpu_busy z + code_left s \<and>
    clock_tick z' \<le> clock_tick z + int (all_ticks (clock_tick z) 0 s) \<and>
    int (cpu_busy z') \<le> clock_tick z' \<and> int (io_busy z') \<le> clock_tick z' \<and> int (length rows') = clock_tick z'"
  using assms
proof (induction fuel arbitrary: z rows s)
  case 0
  then have "get_num_active s = 0" using proc_tick_runs [OF 0(1,2)] by fastforce
  then show ?case using 0 by (simp add: proc_loop.simps)
next
  case (Suc fuel)
  show ?case
  proof (cases "get_num_active s = 0")
    case True
    then show ?thesis using Suc.prems by (simp add: proc_loop.simps)
  next
    case False
    obtain z1 rows1 s1 where s1: "proc_tick (z, rows, s) = Inr (z1, rows1, s1)" "clock_tick z1 = clock_tick z + 1"
      "table_ok (clock_tick z1) 0 s1" "cpu_ok s1" "np s1 = np s" "cpu_busy z1 + code_left s1 = cpu_busy z + code_left s"
      "all_ticks (clock_tick z1) 0 s1 < all_ticks (clock_tick z) 0 s" "cpu_busy z1 \<le> cpu_busy z + 1" "io_busy z1 \<le> io_busy z + 1"
      "length rows1 = length rows + 1"
      using proc_tick_runs [OF Suc.prems(1,2) False, of rows] by blast
    have f: "all_ticks (clock_tick z1) 0 s1 \<le> fuel" using s1(7) Suc.prems(3) by simp
    have b: "int (cpu_busy z1) \<le> clock_tick z1" "int (io_busy z1) \<le> clock_tick z1" "int (length rows1) = clock_tick z1"
      using s1(2,8,9,10) Suc.prems(4,5,6) by simp_all
    obtain z' rows' s' where r: "proc_loop fuel (z1, rows1, s1) = Inr (z', rows', s')" "get_num_active s' = 0" "table_ok (clock_tick z') 0 s'"
      "np s' = np s1" "cpu_busy z' + code_left s' = cpu_busy z1 + code_left s1"
      "clock_tick z' \<le> clock_tick z1 + int (all_ticks (clock_tick z1) 0 s1)"
      "int (cpu_busy z') \<le> clock_tick z'" "int (io_busy z') \<le> clock_tick z'" "int (length rows') = clock_tick z'"
      using Suc.IH [OF s1(3,4) f b] by blast
    have "clock_tick z' \<le> clock_tick z + int (all_ticks (clock_tick z) 0 s)" using r(6) s1(2,7) by simp
    moreover have "proc_loop (Suc fuel) (z, rows, s) = Inr (z', rows', s')" using False s1(1) r(1) by (simp add: proc_loop.simps)
    ultimately show ?thesis using r s1 by auto
  qed
qed

text \<open>A scheduler whose programs are loaded, and the time the processes can take: their instructions and the waits of their I/Os.\<close>

definition loaded :: "scheduler \<Rightarrow> bool" where
  "loaded s \<longleftrightarrow> proc_info s \<noteq> [] \<and> (\<forall>p \<in> set (proc_info s). proc_state p = READY \<and> io_handled (code p))"

definition all_instrs :: "scheduler \<Rightarrow> nat" where
  "all_instrs s = sum_list (map (\<lambda>p. length (code p)) (proc_info s))"

definition time_bound :: "scheduler \<Rightarrow> nat" where
  "time_bound s = sum_list (map (\<lambda>p. length (code p) + nat (io_length s) * count_list (code p) DO_IO + of_bool (code p = [])) (proc_info s))"

lemma proc_run_total:
  assumes ld: "loaded s" and L: "0 \<le> io_length s" and fuel: "time_bound s \<le> fuel"
  shows "\<exists>z rows s'. proc_run fuel s = Inr (Some (z, rows, s')) \<and> (\<forall>p \<in> set (proc_info s'). proc_state p = DONE \<and> code p = []) \<and>
    np s' = np s \<and> cpu_busy z = all_instrs s \<and> clock_tick z \<le> int (time_bound s) \<and>
    int (cpu_busy z) \<le> clock_tick z \<and> int (io_busy z) \<le> clock_tick z \<and> int (length rows) = clock_tick z"
proof -
  let ?s0 = "s\<lparr>io_finish_times := replicate (np s) [], curr_proc := 0\<rparr>"
  let ?s = "set_state 0 RUNNING ?s0"
  let ?z = "\<lparr>clock_tick = 0, cpu_busy = 0, io_busy = 0\<rparr>"
  have n: "0 < np s" using ld by (simp add: loaded_def)
  have rdy: "st s i = READY" "io_handled (cd s i)" if "i < np s" for i using ld that by (simp_all add: loaded_def)
  have w: "waiting 0 0 ?s i = []" if "i < np s" for i using that by (simp add: waiting_def)
  have ok: "table_ok 0 0 ?s" unfolding table_ok_def using n rdy w L by auto
  have cpu: "cpu_ok ?s" unfolding cpu_ok_def using n rdy by auto
  have tl: "ticks_left 0 0 ?s i = length (cd s i) + nat (io_length s) * count_list (cd s i) DO_IO + of_bool (cd s i = [])" if "i < np s" for i
    using that w rdy n by (simp add: ticks_left_def)
  have at: "all_ticks 0 0 ?s = time_bound s"
    unfolding all_ticks_def time_bound_def sum_list_sum_nth using tl by (simp add: atLeast0LessThan)
  have cl: "code_left ?s = all_instrs s"
    unfolding code_left_def all_instrs_def sum_list_sum_nth using n by (simp add: atLeast0LessThan)
  obtain z rows s' where r: "proc_loop fuel (?z, [], ?s) = Inr (z, rows, s')" "get_num_active s' = 0" "table_ok (clock_tick z) 0 s'"
    "np s' = np s" "cpu_busy z + code_left s' = all_instrs s" "clock_tick z \<le> int (time_bound s)"
    "int (cpu_busy z) \<le> clock_tick z" "int (io_busy z) \<le> clock_tick z" "int (length rows) = clock_tick z"
    using proc_loop_runs [of ?z ?s fuel "[]"] ok cpu fuel at cl by auto
  have dn: "st s' i = DONE \<and> cd s' i = []" if "i < np s'" for i
  proof -
    have "st s' i = DONE" using r(2) that nth_mem [OF that] by (auto simp: get_num_active_def filter_empty_conv)
    then show ?thesis using r(3) that by (auto simp: table_ok_def)
  qed
  have dn': "\<forall>p \<in> set (proc_info s'). proc_state p = DONE \<and> code p = []" using dn by (metis in_set_conv_nth)
  have "code_left s' = 0" using dn by (simp add: code_left_def)
  then have "cpu_busy z = all_instrs s" using r(5) by simp
  moreover have "proc_run fuel s = Inr (Some (z, rows, s'))"
    using n rdy r(1) by (simp add: proc_run_def move_to_running_def move_to_runs)
  ultimately show ?thesis using r dn' by blast
qed

text \<open>
  C6. Whatever the switch policy and the behaviour at the end of an I/O, a run of loaded programs fails no assertion and ends: every
  process is done, each instruction was executed once, and the time is at most the instructions plus the waits of the I/Os.
\<close>

theorem proc_run_terminates:
  assumes "loaded s" and "0 \<le> io_length s" and "time_bound s \<le> fuel"
  shows "\<exists>z rows s'. proc_run fuel s = Inr (Some (z, rows, s')) \<and> (\<forall>p \<in> set (proc_info s'). proc_state p = DONE \<and> code p = []) \<and>
    np s' = np s \<and> cpu_busy z = all_instrs s \<and> clock_tick z \<le> int (time_bound s)"
  using proc_run_total [OF assms] by blast

lemma proc_run_ticks:
  assumes "loaded s" and "proc_run fuel s = Inr (Some (z, rows, s'))"
  shows "0 < clock_tick z"
proof -
  let ?z = "\<lparr>clock_tick = 0, cpu_busy = 0, io_busy = 0\<rparr>"
  have mono: "clock_tick z \<le> clock_tick z'" if "proc_loop f (z, rows, s) = Inr (z', rows', s')" for f z rows s z' rows' s'
    using that
  proof (induction f arbitrary: z rows s)
    case 0
    then show ?case by (auto simp: proc_loop.simps split: if_splits)
  next
    case (Suc f)
    show ?case
    proof (cases "get_num_active s = 0")
      case True
      then show ?thesis using Suc.prems by (simp add: proc_loop.simps)
    next
      case False
      then obtain z1 rows1 s1 where t: "proc_tick (z, rows, s) = Inr (z1, rows1, s1)" "proc_loop f (z1, rows1, s1) = Inr (z', rows', s')"
        using Suc.prems by (auto simp: proc_loop.simps)
      have "clock_tick z1 = clock_tick z + 1" using t(1) by (auto simp: proc_tick_split Let_def rbind_eq_Inr)
      then show ?thesis using Suc.IH [OF t(2)] by simp
    qed
  qed
  define s0 where "s0 = set_state 0 RUNNING (s\<lparr>io_finish_times := replicate (np s) [], curr_proc := 0\<rparr>)"
  have n: "0 < np s" "st s 0 = READY" using assms(1) by (auto simp: loaded_def)
  have "0 < np s0" "st s0 0 \<noteq> DONE" using n by (simp_all add: s0_def)
  then have act: "get_num_active s0 \<noteq> 0" using nth_mem [of 0 "proc_info s0"] by (auto simp: get_num_active_def filter_empty_conv)
  have run: "proc_loop fuel (?z, [], s0) = Inr (z, rows, s')"
    using assms(2) n by (auto simp: proc_run_def move_to_running_def move_to_runs s0_def)
  then obtain f z1 rows1 s1 where t: "proc_tick (?z, [], s0) = Inr (z1, rows1, s1)" "proc_loop f (z1, rows1, s1) = Inr (z, rows, s')"
    using act by (cases fuel) (auto simp: proc_loop.simps)
  have "clock_tick z1 = 1" using t(1) by (auto simp: proc_tick_split Let_def rbind_eq_Inr)
  then show ?thesis using mono [OF t(2)] by simp
qed

definition two_programs :: "switch_on \<Rightarrow> io_behavior \<Rightarrow> scheduler" where
  "two_programs sw io = (scheduler_init sw io 3)\<lparr>proc_info :=
     [\<lparr>proc_pc = 0, proc_pid = 0, code = [DO_IO, DO_IO_DONE, DO_COMPUTE], proc_state = READY\<rparr>,
      \<lparr>proc_pc = 0, proc_pid = 1, code = [DO_COMPUTE, DO_COMPUTE], proc_state = READY\<rparr>]\<rparr>"

lemma proc_run_terminates_witness:
  "\<exists>z rows s'. proc_run 8 (two_programs SWITCH_ON_IO IO_RUN_LATER) = Inr (Some (z, rows, s')) \<and> cpu_busy z = 5 \<and> clock_tick z \<le> 8"
proof -
  let ?s = "two_programs SWITCH_ON_IO IO_RUN_LATER"
  have l: "loaded ?s" and L: "0 \<le> io_length ?s" and b: "time_bound ?s \<le> 8" and v: "all_instrs ?s = 5" "time_bound ?s = 8"
    by (simp_all add: two_programs_def scheduler_init_def loaded_def time_bound_def all_instrs_def)
  show ?thesis using proc_run_terminates [OF l L b] unfolding v by auto
qed

text \<open>
  C21. Every tick keeps the process table well-typed: at most the current process runs, a process is ready only while the
  processor is taken, blocked processes are those with an I/O in flight, and done processes have no code left.
\<close>

theorem proc_tick_typed:
  assumes "table_ok (clock_tick z) 0 s" and "cpu_ok s" and "get_num_active s \<noteq> 0"
  shows "\<exists>z' rows' s'. proc_tick (z, rows, s) = Inr (z', rows', s') \<and> clock_tick z' = clock_tick z + 1 \<and>
    table_ok (clock_tick z') 0 s' \<and> cpu_ok s'"
  using proc_tick_runs [OF assms, of rows] by blast

lemma proc_tick_typed_witness:
  "\<exists>z' rows' s'. proc_tick (\<lparr>clock_tick = 0, cpu_busy = 0, io_busy = 0\<rparr>, [],
      set_state 0 RUNNING ((two_programs SWITCH_ON_END IO_RUN_LATER)\<lparr>io_finish_times := [[], []]\<rparr>)) = Inr (z', rows', s') \<and>
    table_ok 1 0 s' \<and> cpu_ok s'"
proof -
  let ?z = "\<lparr>clock_tick = 0, cpu_busy = 0, io_busy = 0\<rparr>"
  let ?s = "set_state 0 RUNNING ((two_programs SWITCH_ON_END IO_RUN_LATER)\<lparr>io_finish_times := [[], []]\<rparr>)"
  have "table_ok (clock_tick ?z) 0 ?s" "cpu_ok ?s" "get_num_active ?s \<noteq> 0"
    by (simp_all add: two_programs_def scheduler_init_def table_ok_def cpu_ok_def set_state_def get_num_active_def waiting_def
      All_less_Suc numeral_2_eq_2)
  from proc_tick_typed [OF this, of "[]"] show ?thesis by auto
qed


section \<open>Loading\<close>

text \<open>The text of a program given with \<open>-P\<close>: \<open>Some n\<close> computes for \<open>n\<close>, \<open>None\<close> is an I/O.\<close>

definition command_text :: "nat option \<Rightarrow> string" where
  "command_text c = (case c of Some n \<Rightarrow> CHR ''c'' # show_int (int n) | None \<Rightarrow> ''i'')"

definition command_code :: "nat option \<Rightarrow> instr list" where
  "command_code c = (case c of Some n \<Rightarrow> replicate n DO_COMPUTE | None \<Rightarrow> [DO_IO, DO_IO_DONE])"

lemma parse_line_text: "parse_line (command_text c) = Inr (command_code c)"
  by (cases c) (simp_all add: parse_line_def command_text_def command_code_def py_int_show_int)

lemma show_int_nat_digits: "list_all is_digit (show_int (int n))"
  using show_nat_digits [of "show_nat n" n] by (simp add: show_int_def isdigit_def)

lemma no_separator: "CHR '','' \<notin> set (command_text c)"
proof (cases c)
  case (Some n)
  have "CHR '','' \<notin> set (show_int (int n))"
  proof
    assume "CHR '','' \<in> set (show_int (int n))"
    then have "is_digit CHR '',''" using show_int_nat_digits [of n] by (metis list_all_iff)
    then show False by (simp add: is_digit_def)
  qed
  then show ?thesis using Some by (simp add: command_text_def)
qed (simp add: command_text_def)

lemma io_handled_append: "io_handled xs \<Longrightarrow> io_handled ys \<Longrightarrow> io_handled (xs @ ys)"
proof (induction xs rule: io_handled.induct)
  case (2 "is")
  then show ?case by (cases "is") auto
qed auto

lemma io_handled_parsed: "parse_line line = Inr is \<Longrightarrow> io_handled is"
proof -
  have "io_handled (replicate n DO_COMPUTE)" for n by (induction n) auto
  then show "parse_line line = Inr is \<Longrightarrow> io_handled is"
    by (auto simp: parse_line_def split: list.splits if_splits)
qed

text \<open>Appending to the process that was created last.\<close>

lemma append_code_last:
  "proc_info s = ps @ [p] \<Longrightarrow> append_code (length ps) is s = s\<lparr>proc_info := ps @ [p\<lparr>code := code p @ is\<rparr>]\<rparr>"
  by (simp add: append_code_def list_update_append)

lemma load_lines:
  "proc_info s = ps @ [p] \<Longrightarrow>
   rfold (\<lambda>line s. rbind (parse_line line) (\<lambda>is. Inr (append_code (length ps) is s))) (map command_text cs) s =
     Inr (s\<lparr>proc_info := ps @ [p\<lparr>code := code p @ concat (map command_code cs)\<rparr>]\<rparr>)"
proof (induction cs arbitrary: s p)
  case (Cons c cs)
  then show ?case by (simp add: parse_line_text append_code_last)
qed simp

text \<open>
  C34. Loading the text of a program adds one ready process with exactly the program's instructions, an I/O followed by the
  instruction that handles its end.
\<close>

theorem load_program_text:
  assumes "cs \<noteq> []"
  shows "load_program (py_join CHR '','' (map command_text cs)) s =
    Inr (s\<lparr>proc_info := proc_info s @
      [\<lparr>proc_pc = 0, proc_pid = length (proc_info s), code = concat (map command_code cs), proc_state = READY\<rparr>]\<rparr>)"
proof -
  have "py_split CHR '','' (py_join CHR '','' (map command_text cs)) = map command_text cs"
    using assms no_separator by (intro py_split_join) auto
  then show ?thesis
    using load_lines [of "s\<lparr>proc_info := proc_info s @ [\<lparr>proc_pc = 0, proc_pid = length (proc_info s), code = [], proc_state = READY\<rparr>]\<rparr>"
        "proc_info s" _ cs]
    by (simp add: load_program_def new_process_def)
qed

lemma load_program_text_witness:
  "load_program (py_join CHR '','' (map command_text [Some 2, None])) (scheduler_init SWITCH_ON_IO IO_RUN_LATER 5) =
    Inr ((scheduler_init SWITCH_ON_IO IO_RUN_LATER 5)\<lparr>proc_info :=
      [\<lparr>proc_pc = 0, proc_pid = 0, code = [DO_COMPUTE, DO_COMPUTE, DO_IO, DO_IO_DONE], proc_state = READY\<rparr>]\<rparr>)"
proof -
  have "[Some 2, None] \<noteq> ([] :: nat option list)" by simp
  from load_program_text [OF this, of "scheduler_init SWITCH_ON_IO IO_RUN_LATER 5"] show ?thesis
    by (simp add: scheduler_init_def command_code_def numeral_2_eq_2)
qed

text \<open>Whatever is loaded is fit to run.\<close>

definition loading :: "scheduler \<Rightarrow> scheduler \<Rightarrow> bool" where
  "loading s s' \<longleftrightarrow> (\<forall>p \<in> set (proc_info s'). proc_state p = READY \<and> io_handled (code p)) \<and> np s \<le> np s' \<and> io_length s' = io_length s \<and>
     process_switch_behavior s' = process_switch_behavior s \<and> io_done_behavior s' = io_done_behavior s"

lemma loading_append:
  assumes "loading s0 s" and "io_handled is" and "pid < np s"
  shows "loading s0 (append_code pid is s)"
  using assms by (auto simp: loading_def append_code_def set_conv_nth nth_list_update io_handled_append)

lemma new_process_loading:
  assumes "loading s0 s" and "new_process s = (pid, s1)"
  shows "loading s0 s1" and "pid < np s1" and "np s1 = np s + 1"
  using assms by (auto simp: loading_def new_process_def)

lemma append_code_np [simp]: "np (append_code pid is s) = np s"
  by (simp add: append_code_def)

lemma load_program_loading:
  assumes ok: "loading s0 s" and run: "load_program t s = Inr s'"
  shows "loading s0 s' \<and> proc_info s' \<noteq> []"
proof -
  obtain pid s1 where new: "new_process s = (pid, s1)" by (cases "new_process s")
  note n = new_process_loading [OF ok new]
  have "rfold (\<lambda>line s. rbind (parse_line line) (\<lambda>is. Inr (append_code pid is s))) (py_split CHR '','' t) s1 = Inr s'"
    using run by (simp add: load_program_def new)
  then have "loading s0 s' \<and> pid < np s' \<and> np s' = np s1"
    by (rule rfold_inv [where P = "\<lambda>u. loading s0 u \<and> pid < np u \<and> np u = np s1", rotated 2])
      (use n in \<open>auto simp: rbind_eq_Inr intro: loading_append io_handled_parsed\<close>)
  then show ?thesis by auto
qed

lemma proc_load_loading:
  assumes ok: "loading s0 s" and run: "proc_load t (s, ds) = Inr (s', ds')"
  shows "loading s0 s' \<and> proc_info s' \<noteq> []"
proof -
  obtain pid s1 where new: "new_process s = (pid, s1)" by (cases "new_process s")
  note n = new_process_loading [OF ok new]
  obtain m r where "rfold (\<lambda>_. load_step pid (r / 100)) [0..<nat m] (s1, ds) = Inr (s', ds')"
    using run by (auto simp: proc_load_def new rbind_eq_Inr split: list.splits)
  then have "(\<lambda>(u, _). loading s0 u \<and> pid < np u \<and> np u = np s1) (s', ds')"
    by (rule rfold_inv [where P = "\<lambda>(u, _). loading s0 u \<and> pid < np u \<and> np u = np s1", rotated 2])
      (use n in \<open>auto simp: load_step_def rbind_eq_Inr split: if_splits intro!: loading_append\<close>)
  then show ?thesis by auto
qed

lemma load_all_loaded:
  assumes "load_all opt (scheduler_init sw io L) ds = Inr s"
  shows "loaded s" and "io_length s = L"
proof -
  let ?s0 = "scheduler_init sw io L"
  have i: "loading ?s0 ?s0" by (simp add: loading_def scheduler_init_def)
  have "loading ?s0 s \<and> proc_info s \<noteq> []"
  proof (cases "o_program opt = []")
    case False
    obtain t ts where ts: "py_split CHR '':'' (o_program opt) = t # ts" by (cases "py_split CHR '':'' (o_program opt)") auto
    with assms False obtain s1 where s1: "load_program t ?s0 = Inr s1" "rfold load_program ts s1 = Inr s"
      by (auto simp: load_all_def)
    have p1: "loading ?s0 s1 \<and> proc_info s1 \<noteq> []" using load_program_loading [OF i s1(1)] by simp
    have step: "loading ?s0 u' \<and> proc_info u' \<noteq> []" if "loading ?s0 u \<and> proc_info u \<noteq> []" "load_program x u = Inr u'" for x u u'
      using load_program_loading [of ?s0 u x u'] that by simp
    have "loading ?s0 s \<and> proc_info s \<noteq> []"
      by (rule rfold_inv [where f = load_program and xs = ts and s = s1 and P = "\<lambda>u. loading ?s0 u \<and> proc_info u \<noteq> []"])
        (use step p1 s1(2) in blast)+
    then show ?thesis by auto
  next
    case True
    obtain t ts where ts: "py_split CHR '','' (o_process_list opt) = t # ts" by (cases "py_split CHR '','' (o_process_list opt)") auto
    with assms True obtain s1 ds1 ds2 where s1: "proc_load t (?s0, ds) = Inr (s1, ds1)" "rfold proc_load ts (s1, ds1) = Inr (s, ds2)"
      by (auto simp: load_all_def rbind_eq_Inr)
    have p1: "(\<lambda>(u, _). loading ?s0 u \<and> proc_info u \<noteq> []) (s1, ds1)" using proc_load_loading [OF i s1(1)] by simp
    have step: "(\<lambda>(u, _). loading ?s0 u \<and> proc_info u \<noteq> []) w'" if "(\<lambda>(u, _). loading ?s0 u \<and> proc_info u \<noteq> []) w" "proc_load x w = Inr w'"
      for x and w w' :: "scheduler \<times> draw list"
      using proc_load_loading [of ?s0 "fst w" x "snd w" "fst w'" "snd w'"] that by (cases w; cases w') simp
    have "(\<lambda>(u, _). loading ?s0 u \<and> proc_info u \<noteq> []) (s, ds2)"
      by (rule rfold_inv [where f = proc_load and xs = ts and s = "(s1, ds1)" and P = "\<lambda>(u, _). loading ?s0 u \<and> proc_info u \<noteq> []"])
        (use step p1 s1(2) in blast)+
    then show ?thesis by auto
  qed
  then show "loaded s" and "io_length s = L" by (auto simp: loaded_def loading_def scheduler_init_def)
qed

text \<open>
  When the options are valid and the programs load, the program ends normally for every way of giving the programs, and its
  processor and I/O statistics are percentages unless no time passed.
\<close>

theorem proc_main_safe:
  assumes "switch_named (o_switch opt) = Inr sw" and "io_named (o_iodone opt) = Inr io" and "0 \<le> o_io_length opt" and "o_solve opt"
    and "load_all opt (scheduler_init sw io (o_io_length opt)) ds = Inr s" and "time_bound s \<le> fuel"
  shows "\<exists>z rows pc. proc_main fuel opt ds = Inr (z, rows, pc) \<and> cpu_busy z = all_instrs s \<and> int (length rows) = clock_tick z \<and>
    (case pc of None \<Rightarrow> \<not> o_print_stats opt | Some (u, v) \<Rightarrow> 0 \<le> u \<and> u \<le> 100 \<and> 0 \<le> v \<and> v \<le> 100)"
proof -
  have ld: "loaded s" and L: "0 \<le> io_length s" using load_all_loaded [OF assms(5)] assms(3) by simp_all
  obtain z rows s' where r: "proc_run fuel s = Inr (Some (z, rows, s'))" "cpu_busy z = all_instrs s" "int (length rows) = clock_tick z"
    and b: "int (cpu_busy z) \<le> clock_tick z" "int (io_busy z) \<le> clock_tick z"
    using proc_run_total [OF ld L assms(6)] by blast
  have pos: "clock_tick z \<noteq> 0"
    using proc_run_ticks [OF ld r(1)] by simp
  then have p: "0 < clock_tick z" using b by simp
  have pct: "0 \<le> 100 * of_nat n / (of_int (clock_tick z) :: rat) \<and> 100 * of_nat n / (of_int (clock_tick z) :: rat) \<le> 100"
    if "int n \<le> clock_tick z" for n
  proof -
    have "(of_nat n :: rat) \<le> of_int (clock_tick z)" using that by (metis of_int_le_iff of_int_of_nat_eq)
    then show ?thesis using p by (simp add: pos_divide_le_eq)
  qed
  show ?thesis
    using assms(1-5) r pos pct b by (simp add: proc_main_def percentages_def)
qed

lemma proc_main_safe_witness:
  "\<exists>z rows pc. proc_main 10 (proc_defaults\<lparr>o_program := ''c2:i'', o_solve := True, o_print_stats := True\<rparr>) [] = Inr (z, rows, pc) \<and>
    cpu_busy z = 4"
proof -
  let ?opt = "proc_defaults\<lparr>o_program := ''c2:i'', o_solve := True, o_print_stats := True\<rparr>"
  let ?s = "(scheduler_init SWITCH_ON_IO IO_RUN_LATER 5)\<lparr>proc_info :=
      [\<lparr>proc_pc = 0, proc_pid = 0, code = [DO_COMPUTE, DO_COMPUTE], proc_state = READY\<rparr>,
       \<lparr>proc_pc = 0, proc_pid = 1, code = [DO_IO, DO_IO_DONE], proc_state = READY\<rparr>]\<rparr>"
  have l: "load_all ?opt (scheduler_init SWITCH_ON_IO IO_RUN_LATER (o_io_length ?opt)) [] = Inr ?s" by code_simp
  have n: "switch_named (o_switch ?opt) = Inr SWITCH_ON_IO" "io_named (o_iodone ?opt) = Inr IO_RUN_LATER" "0 \<le> o_io_length ?opt" "o_solve ?opt"
    by (simp_all add: proc_defaults_def switch_named_def io_named_def)
  have "time_bound ?s \<le> 10" "all_instrs ?s = 4" by (simp_all add: time_bound_def all_instrs_def scheduler_init_def)
  then show ?thesis using proc_main_safe [OF n l, of 10] by auto
qed

end
