(* ===== verification/Multilevel.thy ===== *)
theory Multilevel
  imports PyString
begin

unbundle bit_operations_syntax

text \<open>
  The two-level page tables of \<open>vm-smalltables/paging-multilevel-translate.py\<close>: a physical memory of 128 pages of 32 bytes that
  holds the page directory, the pages of the page table and the pages of a process. What the tables translate is shown
  to be the map from virtual to physical pages that the allocation intended.
\<close>

section \<open>The operating system\<close>

definition pageSize :: nat where "pageSize = 32"
definition physPages :: nat where "physPages = 128"
definition physMem :: nat where "physMem = pageSize * physPages"
definition vaPages :: nat where "vaPages = 1024"
definition pageBits :: nat where "pageBits = 5"
definition PDE_MASK :: nat where "PDE_MASK = 0x7c00"
definition PDE_SHIFT :: nat where "PDE_SHIFT = 10"
definition PTE_MASK :: nat where "PTE_MASK = 0x03e0"
definition PTE_SHIFT :: nat where "PTE_SHIFT = 5"
definition OFFSET_MASK :: nat where "OFFSET_MASK = 0x1f"

record os =
  usedPages :: "nat list"
  usedPagesCount :: nat
  maxPageCount :: nat
  memory :: "nat list"
  pdbr :: "(int, nat) dict"

definition os_init :: os where
  "os_init = \<lparr>usedPages = replicate (physMem div pageSize) 0, usedPagesCount = 0, maxPageCount = physMem div pageSize,
     memory = replicate physMem 0, pdbr = []\<rparr>"

definition mem_get :: "nat \<Rightarrow> os \<Rightarrow> nat res" where
  "mem_get a s = (if a < length (memory s) then Inr (memory s ! a) else Inl IndexError)"

definition mem_set :: "nat \<Rightarrow> nat \<Rightarrow> os \<Rightarrow> os res" where
  "mem_set a v s = (if a < length (memory s) then Inr (s\<lparr>memory := (memory s)[a := v]\<rparr>) else Inl IndexError)"

fun find_unused :: "nat \<Rightarrow> nat list \<Rightarrow> draw list \<Rightarrow> (nat \<times> draw list) res" where
  "find_unused n used [] = Inl Out_Of_Draws"
| "find_unused n used (k # ds) =
     rbind (py_get used (int (pick k n))) (\<lambda>u. if u = 1 then find_unused n used ds else Inr (pick k n, ds))"

definition findFree :: "os \<times> draw list \<Rightarrow> (nat \<times> os \<times> draw list) res" where
  "findFree = (\<lambda>(s, ds).
     rbind (py_assert (usedPagesCount s < maxPageCount s)) (\<lambda>_.
     rbind (find_unused (maxPageCount s) (usedPages s) ds) (\<lambda>(look, ds).
     Inr (look, s\<lparr>usedPagesCount := usedPagesCount s + 1, usedPages := (usedPages s)[look := 1]\<rparr>, ds))))"

definition initPageDir :: "nat \<Rightarrow> os \<Rightarrow> os res" where
  "initPageDir whichPage s =
     (let whichByte = push_bit pageBits whichPage
      in rfold (\<lambda>i. mem_set i 0x7f) [whichByte..<whichByte + pageSize] s)"

definition initPageTablePage :: "nat \<Rightarrow> os \<Rightarrow> os res" where
  "initPageTablePage whichPage s = initPageDir whichPage s"

text \<open>An entry: whether it is valid, the page it names, and the address of the entry.\<close>

definition getPageTableEntry :: "nat \<Rightarrow> nat \<Rightarrow> os \<Rightarrow> (nat \<times> nat \<times> nat) res" where
  "getPageTableEntry virtualAddr ptePage s =
     (let pteBits = drop_bit PTE_SHIFT (virtualAddr AND PTE_MASK);
          pteAddr = push_bit pageBits ptePage OR pteBits
      in rbind (mem_get pteAddr s) (\<lambda>pte. Inr (drop_bit 7 (pte AND 0x80), pte AND 0x7f, pteAddr)))"

definition getPageDirEntry :: "int \<Rightarrow> nat \<Rightarrow> os \<Rightarrow> (nat \<times> nat \<times> nat) res" where
  "getPageDirEntry pid virtualAddr s =
     rbind (dict_get (pdbr s) pid) (\<lambda>pageDir.
     let pdeBits = drop_bit PDE_SHIFT (virtualAddr AND PDE_MASK);
         pdeAddr = push_bit pageBits pageDir OR pdeBits
     in rbind (mem_get pdeAddr s) (\<lambda>pde. Inr (drop_bit 7 (pde AND 0x80), pde AND 0x7f, pdeAddr)))"

definition setPageTableEntry :: "nat \<Rightarrow> nat \<Rightarrow> os \<Rightarrow> os res" where
  "setPageTableEntry pteAddr physicalPage s = mem_set pteAddr (0x80 OR physicalPage) s"

definition setPageDirEntry :: "nat \<Rightarrow> nat \<Rightarrow> os \<Rightarrow> os res" where
  "setPageDirEntry pdeAddr physicalPage s = mem_set pdeAddr (0x80 OR physicalPage) s"

definition allocVirtualPage :: "int \<Rightarrow> nat \<Rightarrow> nat \<Rightarrow> os \<times> draw list \<Rightarrow> (os \<times> draw list) res" where
  "allocVirtualPage pid virtualPage physicalPage = (\<lambda>(s, ds).
     let virtualAddr = push_bit pageBits virtualPage in
     rbind (getPageDirEntry pid virtualAddr s) (\<lambda>(valid, ptPtr, pdeAddr).
     rbind
       (if valid = 0 then
          rbind (py_assert (ptPtr = 127)) (\<lambda>_.
          rbind (findFree (s, ds)) (\<lambda>(ptePage, s, ds).
          rbind (setPageDirEntry pdeAddr ptePage s) (\<lambda>s.
          rbind (initPageTablePage ptePage s) (\<lambda>s. Inr (ptePage, s, ds)))))
        else Inr (ptPtr, s, ds)) (\<lambda>(ptePage, s, ds).
     rbind (getPageTableEntry virtualAddr ptePage s) (\<lambda>(valid, pfn, pteAddr).
     rbind (py_assert (valid = 0)) (\<lambda>_.
     rbind (py_assert (pfn = 127)) (\<lambda>_.
     rbind (setPageTableEntry pteAddr physicalPage s) (\<lambda>s. Inr (s, ds))))))))"

text \<open>\<open>-1\<close> is a fault in the directory, \<open>-2\<close> a fault in the page table.\<close>

definition translate :: "int \<Rightarrow> nat \<Rightarrow> os \<Rightarrow> int res" where
  "translate pid virtualAddr s =
     rbind (getPageDirEntry pid virtualAddr s) (\<lambda>(valid, ptPtr, _).
     if valid = 1 then
       rbind (getPageTableEntry virtualAddr ptPtr s) (\<lambda>(valid, pfn, _).
       if valid = 1 then Inr (int (push_bit pageBits pfn OR (virtualAddr AND OFFSET_MASK))) else Inr (- 2))
     else Inr (- 1))"

definition fillPage :: "nat \<Rightarrow> os \<times> draw list \<Rightarrow> (os \<times> draw list) res" where
  "fillPage whichPage sd =
     rfold (\<lambda>j (s, ds). rbind (next_draw ds) (\<lambda>(k, ds).
       rbind (mem_set (whichPage * pageSize + j) (pick k 31) s) (\<lambda>s. Inr (s, ds)))) [0..<pageSize] sd"

fun fresh_vpage :: "nat list \<Rightarrow> draw list \<Rightarrow> (nat \<times> draw list) res" where
  "fresh_vpage used [] = Inl Out_Of_Draws"
| "fresh_vpage used (k # ds) = (if pick k vaPages \<in> set used then fresh_vpage used ds else Inr (pick k vaPages, ds))"

definition alloc_step :: "int \<Rightarrow> nat list \<times> os \<times> draw list \<Rightarrow> (nat list \<times> os \<times> draw list) res" where
  "alloc_step pid = (\<lambda>(allocatedVPs, s, ds).
     rbind (fresh_vpage allocatedVPs ds) (\<lambda>(vp, ds).
     rbind (findFree (s, ds)) (\<lambda>(pp, s, ds).
     rbind (allocVirtualPage pid vp pp (s, ds)) (\<lambda>sd.
     rbind (fillPage pp sd) (\<lambda>(s, ds). Inr (allocatedVPs @ [vp], s, ds))))))"

definition procAlloc :: "int \<Rightarrow> nat \<Rightarrow> os \<times> draw list \<Rightarrow> (nat list \<times> os \<times> draw list) res" where
  "procAlloc pid numPages sd =
     rbind (findFree sd) (\<lambda>(pageDir, s, ds).
     rbind (initPageDir pageDir (s\<lparr>pdbr := dict_set pid pageDir (pdbr s)\<rparr>)) (\<lambda>s.
     rfold (\<lambda>_. alloc_step pid) [0..<numPages] ([], s, ds)))"

section \<open>The main program\<close>

text \<open>A line of the trace: the virtual address, and with \<open>-c\<close> its translation and the value read.\<close>

type_synonym trace_line = "nat \<times> (int \<times> nat option) option"

definition gen_vaddr :: "nat list \<Rightarrow> nat \<Rightarrow> draw list \<Rightarrow> (nat \<times> draw list) res" where
  "gen_vaddr used i ds =
     rbind (next_draw ds) (\<lambda>(k, ds). rbind (next_draw ds) (\<lambda>(k', ds).
     if k * 100 > 50 * 2 ^ 53 \<or> i \<ge> length used then Inr (pick k' (1024 * 32), ds)
     else Inr (push_bit 5 (used ! i) OR pick k' 32, ds)))"

definition trace_line :: "bool \<Rightarrow> nat \<Rightarrow> os \<Rightarrow> trace_line res" where
  "trace_line solve vaddr s =
     (if solve then
        rbind (translate 1 vaddr s) (\<lambda>r.
        if r > - 1 then rbind (mem_get (nat r) s) (\<lambda>v. Inr (vaddr, Some (r, Some v))) else Inr (vaddr, Some (r, None)))
      else Inr (vaddr, None))"

definition multilevel_main :: "int \<Rightarrow> int \<Rightarrow> bool \<Rightarrow> draw list \<Rightarrow> trace_line list res" where
  "multilevel_main allocated num solve ds =
     rbind (procAlloc 1 (nat allocated) (os_init, ds)) (\<lambda>(used, s, ds).
     rbind (rfold (\<lambda>i (out, ds). rbind (gen_vaddr used i ds) (\<lambda>(vaddr, ds).
       rbind (trace_line solve vaddr s) (\<lambda>l. Inr (out @ [l], ds)))) [0..<nat num] ([], ds)) (\<lambda>(out, _). Inr out))"

section \<open>Bits\<close>

lemma or_field: "b < 2 ^ n \<Longrightarrow> push_bit n p OR b = p * 2 ^ n + (b :: nat)"
proof -
  assume "b < 2 ^ n"
  then have b: "take_bit n b = b" by (rule take_bit_nat_eq_self)
  have "push_bit n p AND take_bit n b = 0" by (rule bit_eqI) (auto simp: bit_simps)
  then have "push_bit n p OR take_bit n b = push_bit n p + take_bit n b" by (rule disjunctive_add_eq_or [symmetric])
  then show ?thesis unfolding b by (simp add: push_bit_eq_mult)
qed

lemma or_page: "b < 32 \<Longrightarrow> push_bit 5 p OR b = p * 32 + (b :: nat)"
  using or_field [of b 5 p] by simp

lemma field_bits: "drop_bit n (v AND push_bit n (mask m)) = v div 2 ^ n mod 2 ^ m" for v :: nat
proof -
  have "drop_bit n (v AND push_bit n (mask m)) = take_bit m (drop_bit n v)" by (rule bit_eqI) (auto simp: bit_simps)
  then show ?thesis by (simp add: take_bit_eq_mod drop_bit_eq_div)
qed

lemma pde_bits: "drop_bit 10 (v AND 0x7c00) = v div 1024 mod (32 :: nat)"
  using field_bits [of 10 v 5] by (simp add: push_bit_eq_mult mask_eq_exp_minus_1)

lemma pte_bits: "drop_bit 5 (v AND 0x03e0) = v div 32 mod (32 :: nat)"
  using field_bits [of 5 v 5] by (simp add: push_bit_eq_mult mask_eq_exp_minus_1)

lemma offset_bits: "v AND 0x1f = v mod (32 :: nat)"
proof -
  have "(0x1f :: nat) = mask 5" by (simp add: mask_eq_exp_minus_1)
  then show ?thesis by (simp only: take_bit_eq_mask [symmetric] take_bit_eq_mod) simp
qed

lemma valid_entry:
  assumes "p < 128"
  shows "(0x80 OR p) AND 0x7f = (p :: nat)" and "drop_bit 7 ((0x80 OR p) AND 0x80) = (1 :: nat)"
proof -
  have or: "0x80 OR p = 128 + p" using or_field [of p 7 1] assms by simp
  have "(128 + p) AND 0x7f = (128 + p) mod 128"
    using take_bit_eq_mask [of 7 "128 + p"] by (simp add: take_bit_eq_mod mask_eq_exp_minus_1)
  then show "(0x80 OR p) AND 0x7f = p" unfolding or using assms by simp
  show "drop_bit 7 ((0x80 OR p) AND 0x80) = 1"
    unfolding or using field_bits [of 7 "128 + p" 1] assms by (simp add: mask_eq_exp_minus_1 push_bit_eq_mult)
qed

lemma invalid_entry: "drop_bit 7 (0x7f AND 0x80) = (0 :: nat)" "0x7f AND 0x7f = (127 :: nat)"
  by simp_all


section \<open>What the tables hold\<close>

definition used_set :: "os \<Rightarrow> nat set" where
  "used_set s = {p. p < 128 \<and> usedPages s ! p = 1}"

definition cell :: "os \<Rightarrow> nat \<Rightarrow> nat \<Rightarrow> nat" where
  "cell s p j = memory s ! (p * 32 + j)"

definition os_ok :: "os \<Rightarrow> bool" where
  "os_ok s \<longleftrightarrow> length (usedPages s) = 128 \<and> length (memory s) = 4096 \<and> maxPageCount s = 128 \<and> usedPagesCount s = card (used_set s)"

definition entry :: "nat option \<Rightarrow> nat" where
  "entry e = (case e of None \<Rightarrow> 0x7f | Some p \<Rightarrow> 0x80 OR p)"

text \<open>
  The directory \<open>pd\<close> of a process holds the pages \<open>T\<close> of its page table, and these hold its map \<open>M\<close> from virtual to
  physical pages; all these pages are different and in use.
\<close>

definition tables :: "int \<Rightarrow> nat \<Rightarrow> (nat \<rightharpoonup> nat) \<Rightarrow> (nat \<rightharpoonup> nat) \<Rightarrow> os \<Rightarrow> bool" where
  "tables pid pd T M s \<longleftrightarrow> map_of (pdbr s) pid = Some pd \<and>
     {pd} \<union> ran T \<union> ran M \<subseteq> used_set s \<and> pd \<notin> ran T \<and> pd \<notin> ran M \<and> ran T \<inter> ran M = {} \<and>
     inj_on T (dom T) \<and> inj_on M (dom M) \<and> dom T \<subseteq> {..<32} \<and> dom M \<subseteq> {..<1024} \<and>
     (\<forall>vp \<in> dom M. T (vp div 32) \<noteq> None) \<and>
     (\<forall>i < 32. cell s pd i = entry (T i)) \<and>
     (\<forall>i p. T i = Some p \<longrightarrow> (\<forall>j < 32. cell s p j = entry (M (i * 32 + j))))"

lemma finite_used [simp]: "finite (used_set s)"
  by (simp add: used_set_def)

lemma used_lt: "p \<in> used_set s \<Longrightarrow> p < 128"
  by (simp add: used_set_def)

lemma cell_address: "p < 128 \<Longrightarrow> j < 32 \<Longrightarrow> p * 32 + j < (4096 :: nat)"
  by simp

lemma cell_inj: "j < 32 \<Longrightarrow> k < 32 \<Longrightarrow> p * 32 + j = q * 32 + k \<longleftrightarrow> p = q \<and> j = (k :: nat)"
proof
  assume jk: "j < 32" "k < 32" and eq: "p * 32 + j = q * 32 + k"
  have "(p * 32 + j) div 32 = p" "(p * 32 + j) mod 32 = j" "(q * 32 + k) div 32 = q" "(q * 32 + k) mod 32 = k" using jk by simp_all
  then show "p = q \<and> j = k" using eq by metis
qed simp

lemma mem_set_cell:
  assumes "os_ok s" and "p < 128" and "j < 32"
  shows "\<exists>s'. mem_set (p * 32 + j) v s = Inr s' \<and> s' = s\<lparr>memory := (memory s)[p * 32 + j := v]\<rparr> \<and> os_ok s' \<and>
    (\<forall>q k. k < 32 \<longrightarrow> cell s' q k = (if q = p \<and> k = j then v else cell s q k))"
proof -
  let ?s = "s\<lparr>memory := (memory s)[p * 32 + j := v]\<rparr>"
  have len: "p * 32 + j < length (memory s)" using assms cell_address [OF assms(2,3)] by (simp add: os_ok_def)
  have "os_ok ?s" using assms(1) by (simp add: os_ok_def used_set_def)
  moreover have "cell ?s q k = (if q = p \<and> k = j then v else cell s q k)" if "k < 32" for q k
    using len cell_inj [OF assms(3) that, of p q] by (auto simp: cell_def nth_list_update)
  ultimately show ?thesis using len by (simp add: mem_set_def)
qed

lemma mem_get_cell: "os_ok s \<Longrightarrow> p < 128 \<Longrightarrow> j < 32 \<Longrightarrow> mem_get (p * 32 + j) s = Inr (cell s p j)"
  using cell_address [of p j] by (simp add: mem_get_def os_ok_def cell_def)

lemma initPageDir_cells:
  assumes ok: "os_ok s" and p: "p < 128"
  shows "\<exists>s'. initPageDir p s = Inr s' \<and> os_ok s' \<and> used_set s' = used_set s \<and> pdbr s' = pdbr s \<and>
    (\<forall>q k. k < 32 \<longrightarrow> cell s' q k = (if q = p then 0x7f else cell s q k))"
proof -
  have "n \<le> 32 \<Longrightarrow> \<exists>s'. rfold (\<lambda>i. mem_set i 0x7f) [p * 32..<p * 32 + n] s = Inr s' \<and> os_ok s' \<and> used_set s' = used_set s \<and>
    pdbr s' = pdbr s \<and> (\<forall>q k. k < 32 \<longrightarrow> cell s' q k = (if q = p \<and> k < n then 0x7f else cell s q k))" for n
  proof (induction n)
    case (Suc n)
    then obtain s1 where s1: "rfold (\<lambda>i. mem_set i 0x7f) [p * 32..<p * 32 + n] s = Inr s1" "os_ok s1" "used_set s1 = used_set s"
      "pdbr s1 = pdbr s" "\<forall>q k. k < 32 \<longrightarrow> cell s1 q k = (if q = p \<and> k < n then 0x7f else cell s q k)"
      by auto
    have n: "n < 32" using Suc.prems by simp
    obtain s2 where s2: "mem_set (p * 32 + n) 0x7f s1 = Inr s2" "s2 = s1\<lparr>memory := (memory s1)[p * 32 + n := 0x7f]\<rparr>" "os_ok s2"
      "\<forall>q k. k < 32 \<longrightarrow> cell s2 q k = (if q = p \<and> k = n then 0x7f else cell s1 q k)"
      using mem_set_cell [OF s1(2) p n] by blast
    have "used_set s2 = used_set s1" "pdbr s2 = pdbr s1" using s2(2) by (simp_all add: used_set_def)
    moreover have "rfold (\<lambda>i. mem_set i 0x7f) [p * 32..<p * 32 + Suc n] s = Inr s2"
      using s1(1) s2(1) by (simp add: rfold_append)
    ultimately show ?case using s1 s2(3,4) by (auto simp: less_Suc_eq)
  qed (use ok in simp)
  from this [of 32] show ?thesis
    by (auto simp: initPageDir_def pageBits_def pageSize_def push_bit_eq_mult)
qed

lemma fillPage_cells:
  assumes ok: "os_ok s" and p: "p < 128" and va: "\<forall>k \<in> set ds. valid_draw k"
  shows "or_no_draws (\<lambda>(s', ds'). os_ok s' \<and> used_set s' = used_set s \<and> pdbr s' = pdbr s \<and> set ds' \<subseteq> set ds \<and>
    (\<forall>q k. k < 32 \<longrightarrow> (q \<noteq> p \<longrightarrow> cell s' q k = cell s q k) \<and> (q = p \<longrightarrow> cell s' q k < 31))) (fillPage p (s, ds))"
proof -
  let ?P = "\<lambda>n (s', ds'). os_ok s' \<and> used_set s' = used_set s \<and> pdbr s' = pdbr s \<and> set ds' \<subseteq> set ds \<and>
    (\<forall>q k. k < 32 \<longrightarrow> (q \<noteq> p \<longrightarrow> cell s' q k = cell s q k) \<and> (q = p \<and> k < n \<longrightarrow> cell s' q k < 31))"
  have all: "or_no_draws (?P 32) (rfold (\<lambda>j (s, ds). rbind (next_draw ds) (\<lambda>(k, ds).
       rbind (mem_set (p * pageSize + j) (pick k 31) s) (\<lambda>s. Inr (s, ds)))) [0..<32] (s, ds))"
  proof (rule or_no_draws_fold [where P = ?P])
    show "?P 0 (s, ds)" using ok by simp
    fix j t
    assume j: "j < 32" and P: "?P j t"
    obtain s1 ds1 where t: "t = (s1, ds1)" by (cases t)
    show "or_no_draws (?P (Suc j)) ((case t of (s, ds) \<Rightarrow> rbind (next_draw ds) (\<lambda>(k, ds).
       rbind (mem_set (p * pageSize + j) (pick k 31) s) (\<lambda>s. Inr (s, ds)))))"
    proof (cases ds1)
      case Nil
      then show ?thesis by (simp add: t)
    next
      case (Cons d ds2)
      have "d \<in> set ds" using P Cons t by auto
      then have d: "pick d 31 < 31" using va by (intro pick_less) auto
      have ok1: "os_ok s1" using P t by simp
      obtain s2 where s2: "mem_set (p * 32 + j) (pick d 31) s1 = Inr s2" "s2 = s1\<lparr>memory := (memory s1)[p * 32 + j := pick d 31]\<rparr>" "os_ok s2"
        "\<forall>q k. k < 32 \<longrightarrow> cell s2 q k = (if q = p \<and> k = j then pick d 31 else cell s1 q k)"
        using mem_set_cell [OF ok1 p j] by blast
      have "used_set s2 = used_set s1" "pdbr s2 = pdbr s1" using s2(2) by (simp_all add: used_set_def)
      then show ?thesis using P t Cons s2(1,3,4) d by (auto simp: pageSize_def less_Suc_eq)
    qed
  qed
  then show ?thesis by (auto simp: fillPage_def pageSize_def elim!: or_no_draws_mono)
qed


lemma find_unused_spec:
  assumes "length used = 128" and "\<forall>k \<in> set ds. valid_draw k"
  shows "or_no_draws (\<lambda>(p, ds'). p < 128 \<and> used ! p \<noteq> 1 \<and> set ds' \<subseteq> set ds) (find_unused 128 used ds)"
  using assms(2)
proof (induction ds)
  case (Cons k ds)
  have k: "pick k 128 < 128" using Cons.prems by (intro pick_less) auto
  then have get: "py_get used (int (pick k 128)) = Inr (used ! pick k 128)" using assms(1) by (simp add: py_get_nat)
  have IH: "or_no_draws (\<lambda>(p, ds'). p < 128 \<and> used ! p \<noteq> 1 \<and> set ds' \<subseteq> set ds) (find_unused 128 used ds)"
    using Cons by simp
  show ?case
  proof (cases "used ! pick k 128 = 1")
    case True
    have "or_no_draws (\<lambda>(p, ds'). p < 128 \<and> used ! p \<noteq> 1 \<and> set ds' \<subseteq> set (k # ds)) (find_unused 128 used ds)"
      by (rule or_no_draws_mono [OF IH]) auto
    then show ?thesis using get True by simp
  next
    case False
    then show ?thesis using get k by auto
  qed
qed simp

lemma findFree_spec:
  assumes ok: "os_ok s" and room: "card (used_set s) < 128" and va: "\<forall>k \<in> set ds. valid_draw k"
  shows "or_no_draws (\<lambda>(p, s', ds'). p < 128 \<and> p \<notin> used_set s \<and> os_ok s' \<and> used_set s' = insert p (used_set s) \<and>
    pdbr s' = pdbr s \<and> memory s' = memory s \<and> set ds' \<subseteq> set ds) (findFree (s, ds))"
proof -
  have u: "length (usedPages s) = 128" "maxPageCount s = 128" "usedPagesCount s < 128" using ok room by (simp_all add: os_ok_def)
  have spec: "or_no_draws (\<lambda>(p, ds'). p < 128 \<and> usedPages s ! p \<noteq> 1 \<and> set ds' \<subseteq> set ds) (find_unused 128 (usedPages s) ds)"
    using find_unused_spec [OF u(1) va] .
  then show ?thesis
  proof (cases "find_unused 128 (usedPages s) ds")
    case (Inr r)
    obtain p ds' where r: "r = (p, ds')" by (cases r)
    let ?s = "s\<lparr>usedPagesCount := usedPagesCount s + 1, usedPages := (usedPages s)[p := 1]\<rparr>"
    have p: "p < 128" "usedPages s ! p \<noteq> 1" "set ds' \<subseteq> set ds" using spec Inr r by simp_all
    have us: "used_set ?s = insert p (used_set s)" using p u(1) by (auto simp: used_set_def nth_list_update)
    have np: "p \<notin> used_set s" using p by (simp add: used_set_def)
    have "os_ok ?s" using ok np us by (simp add: os_ok_def)
    then show ?thesis using u p us np Inr r by (simp add: findFree_def)
  qed (use u in \<open>simp add: findFree_def\<close>)
qed

text \<open>Reading the entries of the tables.\<close>

definition decode :: "nat \<Rightarrow> nat \<times> nat" where
  "decode e = (drop_bit 7 (e AND 0x80), e AND 0x7f)"

lemma decode_entry: "(\<And>p. e = Some p \<Longrightarrow> p < 128) \<Longrightarrow> decode (entry e) = (case e of None \<Rightarrow> (0, 127) | Some p \<Rightarrow> (1, p))"
  unfolding decode_def entry_def by (cases e) (simp_all only: option.case valid_entry invalid_entry)

lemma getPageDirEntry_decode:
  "getPageDirEntry pid v s = rbind (dict_get (pdbr s) pid) (\<lambda>pd.
     rbind (mem_get (pd * 32 + v div 1024 mod 32) s) (\<lambda>e. Inr (fst (decode e), snd (decode e), pd * 32 + v div 1024 mod 32)))"
proof -
  have e: "push_bit 5 p OR (v div 1024 mod 32) = p * 32 + v div 1024 mod 32" for p by (rule or_page) simp
  show ?thesis
    unfolding getPageDirEntry_def PDE_MASK_def PDE_SHIFT_def pageBits_def Let_def pde_bits e decode_def fst_conv snd_conv ..
qed

lemma getPageTableEntry_decode:
  "getPageTableEntry v p s =
     rbind (mem_get (p * 32 + v div 32 mod 32) s) (\<lambda>e. Inr (fst (decode e), snd (decode e), p * 32 + v div 32 mod 32))"
proof -
  have e: "push_bit 5 p OR (v div 32 mod 32) = p * 32 + v div 32 mod 32" by (rule or_page) simp
  show ?thesis
    unfolding getPageTableEntry_def PTE_MASK_def PTE_SHIFT_def pageBits_def Let_def pte_bits e decode_def fst_conv snd_conv ..
qed

lemma dir_entry:
  assumes "os_ok s" and "tables pid pd T M s" and "v < 32768"
  shows "getPageDirEntry pid v s =
    Inr (case T (v div 1024) of None \<Rightarrow> (0, 127, pd * 32 + v div 1024) | Some p \<Rightarrow> (1, p, pd * 32 + v div 1024))"
proof -
  have i: "v div 1024 < 32" "v div 1024 mod 32 = v div 1024" using assms(3) by auto
  have pd: "pd < 128" "map_of (pdbr s) pid = Some pd" using assms(2) used_lt by (auto simp: tables_def)
  have c: "cell s pd (v div 1024) = entry (T (v div 1024))" using assms(2) i by (simp add: tables_def)
  have lt: "p < 128" if "T (v div 1024) = Some p" for p using assms(2) that used_lt by (auto simp: tables_def ran_def)
  show ?thesis
    using pd i mem_get_cell [OF assms(1) pd(1) i(1)] decode_entry [OF lt]
    by (simp add: getPageDirEntry_decode dict_get_def c split: option.splits)
qed

lemma table_entry:
  assumes "os_ok s" and "tables pid pd T M s" and "v < 32768" and "T (v div 1024) = Some p"
  shows "getPageTableEntry v p s =
    Inr (case M (v div 32) of None \<Rightarrow> (0, 127, p * 32 + v div 32 mod 32) | Some q \<Rightarrow> (1, q, p * 32 + v div 32 mod 32))"
proof -
  have j: "v div 32 mod 32 < 32" by simp
  have "v div 32 div 32 = v div 1024" by (simp add: div_mult2_eq [symmetric])
  then have idx: "v div 1024 * 32 + v div 32 mod 32 = v div 32" by (metis div_mult_mod_eq)
  have p: "p < 128" using assms(2,4) used_lt by (auto simp: tables_def ran_def)
  have c: "cell s p (v div 32 mod 32) = entry (M (v div 32))" using assms(2,4) j idx unfolding tables_def by metis
  have lt: "q < 128" if "M (v div 32) = Some q" for q using assms(2) that used_lt by (auto simp: tables_def ran_def)
  show ?thesis
    using mem_get_cell [OF assms(1) p j] decode_entry [OF lt]
    by (simp add: getPageTableEntry_decode c split: option.splits)
qed

lemma translate_tables:
  assumes "os_ok s" and "tables pid pd T M s" and "v < 32768"
  shows "\<exists>r. translate pid v s = Inr r \<and>
    (case M (v div 32) of Some p \<Rightarrow> r = int (p * 32 + v mod 32) | None \<Rightarrow> r = - 1 \<or> r = - 2)"
proof (cases "T (v div 1024)")
  case None
  have "v div 32 div 32 = v div 1024" by (simp add: div_mult2_eq [symmetric])
  then have "M (v div 32) = None" using assms(2) None unfolding tables_def by (metis domIff)
  then show ?thesis using dir_entry [OF assms] None by (simp add: translate_def)
next
  case (Some p)
  have "v mod 32 < 32" by simp
  then show ?thesis
    using dir_entry [OF assms] Some table_entry [OF assms Some]
    by (cases "M (v div 32)") (simp_all add: translate_def pageBits_def OFFSET_MASK_def offset_bits or_page)
qed


section \<open>Allocation\<close>

text \<open>The pages in use are the directory, the page table, the mapped pages and those in \<open>X\<close>.\<close>

definition alloc_ok :: "int \<Rightarrow> nat \<Rightarrow> (nat \<rightharpoonup> nat) \<Rightarrow> (nat \<rightharpoonup> nat) \<Rightarrow> nat set \<Rightarrow> os \<Rightarrow> bool" where
  "alloc_ok pid pd T M X s \<longleftrightarrow> os_ok s \<and> tables pid pd T M s \<and> used_set s = {pd} \<union> ran T \<union> ran M \<union> X"

lemma ran_card:
  assumes "dom f \<subseteq> {..<n::nat}"
  shows "finite (ran f)" and "card (ran f) \<le> card (dom f)" and "card (dom f) \<le> n"
proof -
  have fin: "finite (dom f)" using assms finite_subset by blast
  have r: "ran f = (\<lambda>x. the (f x)) ` dom f" by (force simp: ran_def image_iff dom_def)
  show "finite (ran f)" unfolding r using fin by simp
  show "card (ran f) \<le> card (dom f)" unfolding r using fin by (rule card_image_le)
  show "card (dom f) \<le> n" using card_mono [OF _ assms] by simp
qed

lemma used_card:
  assumes "alloc_ok pid pd T M X s" and "finite X"
  shows "card (used_set s) \<le> 1 + card (dom T) + card (dom M) + card X"
proof -
  have t: "dom T \<subseteq> {..<32}" "dom M \<subseteq> {..<1024}" using assms(1) by (simp_all add: alloc_ok_def tables_def)
  have "card (used_set s) \<le> card {pd} + card (ran T) + card (ran M) + card X"
    using assms(1) unfolding alloc_ok_def
    by (auto intro!: order_trans [OF card_Un_le] add_mono card_Un_le order_trans [OF card_insert_le_m1] simp: card_insert_if ran_card(1) [OF t(1)])
  then show ?thesis using ran_card(2) [OF t(1)] ran_card(2) [OF t(2)] by simp
qed

text \<open>A new page of the page table.\<close>

lemma new_table_page:
  assumes ok: "alloc_ok pid pd T M X s" and i: "i < 32" "T i = None" and p: "p < 128" "p \<in> X"
    and X: "X \<inter> ({pd} \<union> ran T \<union> ran M) = {}"
  shows "\<exists>s'. rbind (setPageDirEntry (pd * 32 + i) p s) (initPageTablePage p) = Inr s' \<and> pdbr s' = pdbr s \<and>
    alloc_ok pid pd (T(i \<mapsto> p)) M (X - {p}) s' \<and> (\<forall>q k. q \<noteq> pd \<and> q \<noteq> p \<and> k < 32 \<longrightarrow> cell s' q k = cell s q k)"
proof -
  have os: "os_ok s" and tb: "tables pid pd T M s" and us: "used_set s = {pd} \<union> ran T \<union> ran M \<union> X"
    using ok by (simp_all add: alloc_ok_def)
  have pd: "pd < 128" using tb used_lt by (auto simp: tables_def)
  obtain s1 where s1: "mem_set (pd * 32 + i) (0x80 OR p) s = Inr s1" "s1 = s\<lparr>memory := (memory s)[pd * 32 + i := 0x80 OR p]\<rparr>" "os_ok s1"
    and c1: "\<And>q k. k < 32 \<Longrightarrow> cell s1 q k = (if q = pd \<and> k = i then 0x80 OR p else cell s q k)"
    using mem_set_cell [OF os pd i(1)] by blast
  have u1: "used_set s1 = used_set s" "pdbr s1 = pdbr s" using s1(2) by (simp_all add: used_set_def)
  obtain s2 where s2: "initPageDir p s1 = Inr s2" "os_ok s2" "used_set s2 = used_set s1" "pdbr s2 = pdbr s1"
    and c2: "\<And>q k. k < 32 \<Longrightarrow> cell s2 q k = (if q = p then 0x7f else cell s1 q k)"
    using initPageDir_cells [OF s1(3) p(1)] by blast
  have ne: "p \<noteq> pd" "p \<notin> ran T" "p \<notin> ran M" using p X by auto
  have ranT: "ran (T(i \<mapsto> p)) = insert p (ran T)" using i(2) by simp
  have noM: "M (i * 32 + j) = None" if "j < 32" for j
  proof (rule ccontr)
    assume "M (i * 32 + j) \<noteq> None"
    then have "T ((i * 32 + j) div 32) \<noteq> None" using tb unfolding tables_def by blast
    then show False using that i(2) by simp
  qed
  have "tables pid pd (T(i \<mapsto> p)) M s2"
    unfolding tables_def
  proof (intro conjI)
    show "map_of (pdbr s2) pid = Some pd" using tb u1 s2 by (simp add: tables_def)
    show "{pd} \<union> ran (T(i \<mapsto> p)) \<union> ran M \<subseteq> used_set s2" using us ranT p u1 s2 by auto
    show "inj_on (T(i \<mapsto> p)) (dom (T(i \<mapsto> p)))" using tb ne(2) unfolding tables_def by (auto simp: inj_on_def ran_def dom_def)
    show "\<forall>k < 32. cell s2 pd k = entry ((T(i \<mapsto> p)) k)" using tb ne c1 c2 by (auto simp: tables_def entry_def)
    show "\<forall>k q. (T(i \<mapsto> p)) k = Some q \<longrightarrow> (\<forall>j < 32. cell s2 q j = entry (M (k * 32 + j)))"
    proof (intro allI impI)
      fix k q j :: nat assume T': "(T(i \<mapsto> p)) k = Some q" and j: "j < 32"
      show "cell s2 q j = entry (M (k * 32 + j))"
      proof (cases "k = i")
        case True
        then show ?thesis using T' noM [OF j] c2 [OF j] by (simp add: entry_def)
      next
        case False
        then have T: "T k = Some q" using T' by simp
        then have "q \<noteq> p" "q \<noteq> pd" using ne tb by (auto simp: ran_def tables_def)
        then show ?thesis using T tb j c1 c2 by (auto simp: tables_def)
      qed
    qed
    show "pd \<notin> ran (T(i \<mapsto> p))" "pd \<notin> ran M" "ran (T(i \<mapsto> p)) \<inter> ran M = {}" using tb ne ranT by (auto simp: tables_def)
    show "inj_on M (dom M)" "dom M \<subseteq> {..<1024}" using tb by (simp_all add: tables_def)
    show "dom (T(i \<mapsto> p)) \<subseteq> {..<32}" "\<forall>vp \<in> dom M. (T(i \<mapsto> p)) (vp div 32) \<noteq> None" using tb i by (auto simp: tables_def)
  qed
  moreover have "used_set s2 = {pd} \<union> ran (T(i \<mapsto> p)) \<union> ran M \<union> (X - {p})" using us ranT p u1 s2 by auto
  moreover have "rbind (setPageDirEntry (pd * 32 + i) p s) (initPageTablePage p) = Inr s2"
    using s1(1) s2(1) by (simp add: setPageDirEntry_def initPageTablePage_def)
  ultimately show ?thesis using s2(2,4) u1 c1 c2 by (auto simp: alloc_ok_def)
qed

text \<open>A new entry of the page table.\<close>

lemma new_entry:
  assumes ok: "alloc_ok pid pd T M X s" and T: "T (vp div 32) = Some t" and vp: "vp < 1024" "M vp = None"
    and p: "p < 128" "p \<in> X" "p \<notin> {pd} \<union> ran T \<union> ran M"
  shows "\<exists>s'. setPageTableEntry (t * 32 + vp mod 32) p s = Inr s' \<and> alloc_ok pid pd T (M(vp \<mapsto> p)) (X - {p}) s' \<and> pdbr s' = pdbr s \<and>
    (\<forall>q k. q \<noteq> t \<and> k < 32 \<longrightarrow> cell s' q k = cell s q k)"
proof -
  have os: "os_ok s" and tb: "tables pid pd T M s" and us: "used_set s = {pd} \<union> ran T \<union> ran M \<union> X"
    using ok by (simp_all add: alloc_ok_def)
  have t: "t < 128" "t \<noteq> pd" "t \<in> ran T" using T tb used_lt by (auto simp: tables_def ran_def)
  have m: "vp mod 32 < 32" by simp
  obtain s1 where s1: "mem_set (t * 32 + vp mod 32) (0x80 OR p) s = Inr s1" "s1 = s\<lparr>memory := (memory s)[t * 32 + vp mod 32 := 0x80 OR p]\<rparr>" "os_ok s1"
    and c1: "\<And>q k. k < 32 \<Longrightarrow> cell s1 q k = (if q = t \<and> k = vp mod 32 then 0x80 OR p else cell s q k)"
    using mem_set_cell [OF os t(1) m] by blast
  have u1: "used_set s1 = used_set s" "pdbr s1 = pdbr s" using s1(2) by (simp_all add: used_set_def)
  have ranM: "ran (M(vp \<mapsto> p)) = insert p (ran M)" using vp(2) by simp
  have "tables pid pd T (M(vp \<mapsto> p)) s1"
    unfolding tables_def
  proof (intro conjI)
    show "map_of (pdbr s1) pid = Some pd" using tb u1 by (simp add: tables_def)
    show "{pd} \<union> ran T \<union> ran (M(vp \<mapsto> p)) \<subseteq> used_set s1" using us ranM p u1 by auto
    show "inj_on (M(vp \<mapsto> p)) (dom (M(vp \<mapsto> p)))" using tb p(3) unfolding tables_def by (auto simp: inj_on_def ran_def dom_def)
    show "\<forall>k < 32. cell s1 pd k = entry (T k)" using tb t c1 by (auto simp: tables_def)
    show "\<forall>k q. T k = Some q \<longrightarrow> (\<forall>j < 32. cell s1 q j = entry ((M(vp \<mapsto> p)) (k * 32 + j)))"
    proof (intro allI impI)
      fix k q j :: nat assume Tk: "T k = Some q" and j: "j < 32"
      have iff: "k * 32 + j = vp \<longleftrightarrow> k = vp div 32 \<and> j = vp mod 32" using j by auto
      have "q = t \<longleftrightarrow> k = vp div 32" using tb T Tk unfolding tables_def inj_on_def by (metis domI option.inject)
      then show "cell s1 q j = entry ((M(vp \<mapsto> p)) (k * 32 + j))"
        using c1 [OF j, of q] iff tb Tk j by (auto simp: tables_def entry_def)
    qed
    show "pd \<notin> ran T" "pd \<notin> ran (M(vp \<mapsto> p))" "ran T \<inter> ran (M(vp \<mapsto> p)) = {}" using tb p(3) ranM by (auto simp: tables_def)
    show "inj_on T (dom T)" "dom T \<subseteq> {..<32}" using tb by (simp_all add: tables_def)
    show "dom (M(vp \<mapsto> p)) \<subseteq> {..<1024}" "\<forall>v \<in> dom (M(vp \<mapsto> p)). T (v div 32) \<noteq> None" using tb vp T by (auto simp: tables_def)
  qed
  moreover have "used_set s1 = {pd} \<union> ran T \<union> ran (M(vp \<mapsto> p)) \<union> (X - {p})" using us ranM p u1 by auto
  ultimately show ?thesis using s1(1,3) u1 c1 by (auto simp: alloc_ok_def setPageTableEntry_def)
qed


lemma findFree_alloc:
  assumes ok: "alloc_ok pid pd T M X s" and X: "finite X" and room: "1 + card (dom T) + card (dom M) + card X < 128"
    and va: "\<forall>k \<in> set ds. valid_draw k"
  shows "or_no_draws (\<lambda>(p, s', ds'). p < 128 \<and> p \<notin> {pd} \<union> ran T \<union> ran M \<union> X \<and> alloc_ok pid pd T M (insert p X) s' \<and>
    pdbr s' = pdbr s \<and> cell s' = cell s \<and> set ds' \<subseteq> set ds) (findFree (s, ds))"
proof -
  have os: "os_ok s" and us: "used_set s = {pd} \<union> ran T \<union> ran M \<union> X" and tb: "tables pid pd T M s"
    using ok by (simp_all add: alloc_ok_def)
  have "card (used_set s) < 128" using used_card [OF ok X] room by simp
  from findFree_spec [OF os this va] show ?thesis
  proof (rule or_no_draws_mono)
    fix r assume "case r of (p, s', ds') \<Rightarrow> p < 128 \<and> p \<notin> used_set s \<and> os_ok s' \<and> used_set s' = insert p (used_set s) \<and>
      pdbr s' = pdbr s \<and> memory s' = memory s \<and> set ds' \<subseteq> set ds"
    moreover obtain p s' ds' where r: "r = (p, s', ds')" by (cases r)
    ultimately have p: "p < 128" "p \<notin> used_set s" "os_ok s'" "used_set s' = insert p (used_set s)" "pdbr s' = pdbr s"
      "memory s' = memory s" "set ds' \<subseteq> set ds"
      by simp_all
    have c: "cell s' = cell s" using p(6) by (simp add: cell_def fun_eq_iff)
    have "tables pid pd T M s'" using tb p c by (auto simp: tables_def)
    then show "case r of (p, s', ds') \<Rightarrow> p < 128 \<and> p \<notin> {pd} \<union> ran T \<union> ran M \<union> X \<and> alloc_ok pid pd T M (insert p X) s' \<and>
      pdbr s' = pdbr s \<and> cell s' = cell s \<and> set ds' \<subseteq> set ds"
      using p c us r by (auto simp: alloc_ok_def)
  qed
qed

lemma allocVirtualPage_spec:
  assumes ok: "alloc_ok pid pd T M {pp} s" and pp: "pp < 128" "pp \<notin> {pd} \<union> ran T \<union> ran M" and vp: "vp < 1024" "M vp = None"
    and room: "card (dom M) \<le> 94" and va: "\<forall>k \<in> set ds. valid_draw k"
  shows "or_no_draws (\<lambda>(s', ds'). \<exists>T'. alloc_ok pid pd T' (M(vp \<mapsto> pp)) {} s' \<and> set ds' \<subseteq> set ds \<and>
    (\<forall>q \<in> ran M. \<forall>k < 32. cell s' q k = cell s q k)) (allocVirtualPage pid vp pp (s, ds))"
proof -
  let ?v = "push_bit pageBits vp" and ?i = "vp div 32"
  have v: "?v < 32768" "?v div 1024 = ?i" "?v div 32 = vp" "?v div 32 mod 32 = vp mod 32"
    using vp(1) by (simp_all add: pageBits_def push_bit_eq_mult div_mult2_eq [symmetric])
  have i: "?i < 32" using vp(1) by simp
  have os: "os_ok s" and tb: "tables pid pd T M s" using ok by (simp_all add: alloc_ok_def)
  have finish: "or_no_draws (\<lambda>(s', ds'). \<exists>T'. alloc_ok pid pd T' (M(vp \<mapsto> pp)) {} s' \<and> set ds' \<subseteq> set ds \<and>
      (\<forall>q \<in> ran M. \<forall>k < 32. cell s' q k = cell s q k))
      (rbind (getPageTableEntry ?v t s1) (\<lambda>(valid, pfn, pteAddr). rbind (py_assert (valid = 0)) (\<lambda>_.
       rbind (py_assert (pfn = 127)) (\<lambda>_. rbind (setPageTableEntry pteAddr pp s1) (\<lambda>s. Inr (s, ds1))))))"
    if ok1: "alloc_ok pid pd T1 M {pp} s1" and T1: "T1 ?i = Some t" "pp \<notin> ran T1" and same: "\<forall>q \<in> ran M. \<forall>k < 32. cell s1 q k = cell s q k"
      and ds1: "set ds1 \<subseteq> set ds" for T1 t s1 ds1
  proof -
    have os1: "os_ok s1" and tb1: "tables pid pd T1 M s1" using ok1 by (simp_all add: alloc_ok_def)
    have e: "getPageTableEntry ?v t s1 = Inr (0, 127, t * 32 + vp mod 32)"
      using table_entry [OF os1 tb1 v(1)] T1(1) v vp(2) by simp
    have "pp \<notin> {pd} \<union> ran T1 \<union> ran M" using T1(2) pp(2) by auto
    from new_entry [OF ok1 T1(1) vp pp(1) _ this] obtain s2 where s2: "setPageTableEntry (t * 32 + vp mod 32) pp s1 = Inr s2"
      "alloc_ok pid pd T1 (M(vp \<mapsto> pp)) {} s2" "\<forall>q k. q \<noteq> t \<and> k < 32 \<longrightarrow> cell s2 q k = cell s1 q k"
      by auto
    have tM: "t \<notin> ran M" using tb1 T1(1) by (auto simp: tables_def ran_def)
    have "cell s2 q k = cell s q k" if "q \<in> ran M" "k < 32" for q k
    proof -
      have "q \<noteq> t" using that(1) tM by blast
      then show ?thesis using s2(3) same that by simp
    qed
    then show ?thesis using e s2(1,2) ds1 by auto
  qed
  show ?thesis
  proof (cases "T ?i")
    case (Some t)
    have "getPageDirEntry pid ?v s = Inr (1, t, pd * 32 + ?i)" using dir_entry [OF os tb v(1)] v Some by simp
    then show ?thesis using finish [OF ok Some _ _ order_refl] pp(2) by (simp add: allocVirtualPage_def)
  next
    case None
    have e: "getPageDirEntry pid ?v s = Inr (0, 127, pd * 32 + ?i)" using dir_entry [OF os tb v(1)] v None by simp
    have "dom T \<subseteq> {..<32} - {?i}" using tb None by (auto simp: tables_def)
    then have "card (dom T) \<le> card ({..<32} - {?i})" by (intro card_mono) auto
    then have T31: "card (dom T) \<le> 31" using i by simp
    have room1: "1 + card (dom T) + card (dom M) + card {pp} < 128" using T31 room by simp
    have ff: "or_no_draws (\<lambda>(p, s', ds'). p < 128 \<and> p \<notin> {pd} \<union> ran T \<union> ran M \<union> {pp} \<and> alloc_ok pid pd T M (insert p {pp}) s' \<and>
      pdbr s' = pdbr s \<and> cell s' = cell s \<and> set ds' \<subseteq> set ds) (findFree (s, ds))"
      by (rule findFree_alloc [OF ok _ room1 va]) simp
    show ?thesis
    proof (cases "findFree (s, ds)")
      case (Inl x)
      then show ?thesis using e ff by (simp add: allocVirtualPage_def)
    next
      case (Inr r)
      obtain p s1 ds1 where r: "r = (p, s1, ds1)" by (cases r)
      have p: "p < 128" "p \<notin> {pd} \<union> ran T \<union> ran M \<union> {pp}" "alloc_ok pid pd T M {p, pp} s1" "pdbr s1 = pdbr s" "cell s1 = cell s"
        "set ds1 \<subseteq> set ds"
        using ff Inr r by simp_all
      have "{p, pp} \<inter> ({pd} \<union> ran T \<union> ran M) = {}" using p(2) pp(2) by auto
      from new_table_page [OF p(3) i None p(1) _ this] obtain s2 where s2: "rbind (setPageDirEntry (pd * 32 + ?i) p s1) (initPageTablePage p) = Inr s2"
        "alloc_ok pid pd (T(?i \<mapsto> p)) M ({p, pp} - {p}) s2" "\<forall>q k. q \<noteq> pd \<and> q \<noteq> p \<and> k < 32 \<longrightarrow> cell s2 q k = cell s1 q k"
        by auto
      have X: "{p, pp} - {p} = {pp}" using p(2) by auto
      have ok2: "alloc_ok pid pd (T(?i \<mapsto> p)) M {pp} s2" using s2(2) unfolding X .
      have "pp \<notin> ran (T(?i \<mapsto> p))" using pp(2) p(2) None by auto
      moreover have "\<forall>q \<in> ran M. \<forall>k < 32. cell s2 q k = cell s q k"
        using s2(3) p(2,5) tb by (auto simp: tables_def)
      ultimately have f: "or_no_draws (\<lambda>(s', ds'). \<exists>T'. alloc_ok pid pd T' (M(vp \<mapsto> pp)) {} s' \<and> set ds' \<subseteq> set ds \<and>
        (\<forall>q \<in> ran M. \<forall>k < 32. cell s' q k = cell s q k))
        (rbind (getPageTableEntry ?v p s2) (\<lambda>(valid, pfn, pteAddr). rbind (py_assert (valid = 0)) (\<lambda>_.
         rbind (py_assert (pfn = 127)) (\<lambda>_. rbind (setPageTableEntry pteAddr pp s2) (\<lambda>s. Inr (s, ds1))))))"
        using finish [OF ok2, of p ds1] p(6) by simp
      obtain s3 where "setPageDirEntry (pd * 32 + ?i) p s1 = Inr s3" "initPageTablePage p s3 = Inr s2" using s2(1) by blast
      then show ?thesis using e Inr r f by (simp add: allocVirtualPage_def)
    qed
  qed
qed

lemma fresh_vpage_spec:
  "\<forall>k \<in> set ds. valid_draw k \<Longrightarrow>
   or_no_draws (\<lambda>(vp, ds'). vp < 1024 \<and> vp \<notin> set used \<and> set ds' \<subseteq> set ds) (fresh_vpage used ds)"
proof (induction ds)
  case (Cons k ds)
  have k: "pick k vaPages < 1024" using Cons.prems pick_less [of k 1024] by (simp add: vaPages_def)
  have IH: "or_no_draws (\<lambda>(vp, ds'). vp < 1024 \<and> vp \<notin> set used \<and> set ds' \<subseteq> set ds) (fresh_vpage used ds)" using Cons by simp
  have "or_no_draws (\<lambda>(vp, ds'). vp < 1024 \<and> vp \<notin> set used \<and> set ds' \<subseteq> set (k # ds)) (fresh_vpage used ds)"
    by (rule or_no_draws_mono [OF IH]) auto
  then show ?case using k by auto
qed simp

lemma tables_data:
  assumes tb: "tables pid pd T M s" and "pp \<noteq> pd" and "pp \<notin> ran T" and "used_set s' = used_set s" and "pdbr s' = pdbr s"
    and c: "\<And>q k. k < 32 \<Longrightarrow> q \<noteq> pp \<Longrightarrow> cell s' q k = cell s q k"
  shows "tables pid pd T M s'"
proof -
  have "T i \<noteq> Some pp" for i using assms(3) by (auto simp: ran_def)
  then have "cell s' p j = cell s p j" if "T i = Some p" "j < 32" for i p j using c that by metis
  moreover have "cell s' pd i = cell s pd i" if "i < 32" for i using c assms(2) that by metis
  ultimately show ?thesis using tb assms(4,5) by (simp add: tables_def)
qed

text \<open>What the allocation of \<open>n\<close> pages has done: distinct virtual pages, mapped to distinct pages of data.\<close>

definition allocated :: "int \<Rightarrow> nat \<Rightarrow> draw list \<Rightarrow> nat \<Rightarrow> nat list \<times> os \<times> draw list \<Rightarrow> bool" where
  "allocated pid pd ds n = (\<lambda>(vps, s, ds'). distinct vps \<and> length vps = n \<and> set ds' \<subseteq> set ds \<and>
     (\<exists>T M. alloc_ok pid pd T M {} s \<and> dom M = set vps \<and> (\<forall>q \<in> ran M. \<forall>k < 32. cell s q k < 31)))"

lemma alloc_step_spec:
  assumes al: "allocated pid pd ds n (vps, s, ds1)" and n: "n < 95" and va: "\<forall>k \<in> set ds. valid_draw k"
  shows "or_no_draws (allocated pid pd ds (Suc n)) (alloc_step pid (vps, s, ds1))"
proof -
  obtain T M where ok: "alloc_ok pid pd T M {} s" and dM: "dom M = set vps" and data: "\<forall>q \<in> ran M. \<forall>k < 32. cell s q k < 31"
    and vps: "distinct vps" "length vps = n" "set ds1 \<subseteq> set ds"
    using al by (auto simp: allocated_def)
  have cM: "card (dom M) = n" using dM vps by (simp add: distinct_card)
  have cT: "card (dom T) \<le> 32" using ok ran_card(3) [of T 32] by (simp add: alloc_ok_def tables_def)
  have va1: "\<forall>k \<in> set ds1. valid_draw k" using va vps(3) by auto
  have fv: "or_no_draws (\<lambda>(vp, ds'). vp < 1024 \<and> vp \<notin> set vps \<and> set ds' \<subseteq> set ds1) (fresh_vpage vps ds1)"
    by (rule fresh_vpage_spec [OF va1])
  show ?thesis
    unfolding alloc_step_def prod.case
  proof (rule or_no_draws_bind [OF fv])
    fix r assume "case r of (vp, ds') \<Rightarrow> vp < 1024 \<and> vp \<notin> set vps \<and> set ds' \<subseteq> set ds1"
    then obtain vp ds2 where r: "r = (vp, ds2)" "vp < 1024" "vp \<notin> set vps" "set ds2 \<subseteq> set ds1" by (cases r) auto
    have va2: "\<forall>k \<in> set ds2. valid_draw k" using va1 r by auto
    have room: "1 + card (dom T) + card (dom M) + card ({} :: nat set) < 128" using cM cT n by simp
    have ff: "or_no_draws (\<lambda>(p, s', ds'). p < 128 \<and> p \<notin> {pd} \<union> ran T \<union> ran M \<union> {} \<and> alloc_ok pid pd T M (insert p {}) s' \<and>
      pdbr s' = pdbr s \<and> cell s' = cell s \<and> set ds' \<subseteq> set ds2) (findFree (s, ds2))"
      by (rule findFree_alloc [OF ok _ room va2]) simp
    show "or_no_draws (allocated pid pd ds (Suc n)) (case r of (vp, ds) \<Rightarrow> rbind (findFree (s, ds)) (\<lambda>(pp, s, ds).
        rbind (allocVirtualPage pid vp pp (s, ds)) (\<lambda>sd. rbind (fillPage pp sd) (\<lambda>(s, ds). Inr (vps @ [vp], s, ds)))))"
      unfolding r prod.case
    proof (rule or_no_draws_bind [OF ff])
      fix u assume u: "case u of (p, s', ds') \<Rightarrow> p < 128 \<and> p \<notin> {pd} \<union> ran T \<union> ran M \<union> {} \<and> alloc_ok pid pd T M (insert p {}) s' \<and>
        pdbr s' = pdbr s \<and> cell s' = cell s \<and> set ds' \<subseteq> set ds2"
      obtain pp s1 ds3 where ueq: "u = (pp, s1, ds3)" by (cases u)
      have pp: "pp < 128" "pp \<notin> {pd} \<union> ran T \<union> ran M" "alloc_ok pid pd T M {pp} s1" "cell s1 = cell s" "set ds3 \<subseteq> set ds2"
        using u ueq by simp_all
      have va3: "\<forall>k \<in> set ds3. valid_draw k" using va2 pp(5) by auto
      have Mvp: "M vp = None" using dM r(3) by auto
      have av: "or_no_draws (\<lambda>(s', ds'). \<exists>T'. alloc_ok pid pd T' (M(vp \<mapsto> pp)) {} s' \<and> set ds' \<subseteq> set ds3 \<and>
        (\<forall>q \<in> ran M. \<forall>k < 32. cell s' q k = cell s1 q k)) (allocVirtualPage pid vp pp (s1, ds3))"
        by (rule allocVirtualPage_spec [OF pp(3,1,2) r(2) Mvp _ va3]) (use cM n in simp)
      show "or_no_draws (allocated pid pd ds (Suc n)) (case u of (pp, s, ds) \<Rightarrow>
          rbind (allocVirtualPage pid vp pp (s, ds)) (\<lambda>sd. rbind (fillPage pp sd) (\<lambda>(s, ds). Inr (vps @ [vp], s, ds))))"
        unfolding ueq prod.case
      proof (rule or_no_draws_bind [OF av])
        fix w assume w: "case w of (s', ds') \<Rightarrow> \<exists>T'. alloc_ok pid pd T' (M(vp \<mapsto> pp)) {} s' \<and> set ds' \<subseteq> set ds3 \<and>
          (\<forall>q \<in> ran M. \<forall>k < 32. cell s' q k = cell s1 q k)"
        obtain s2 ds4 where weq: "w = (s2, ds4)" by (cases w)
        obtain T' where ok2: "alloc_ok pid pd T' (M(vp \<mapsto> pp)) {} s2" and ds4: "set ds4 \<subseteq> set ds3"
          and same: "\<forall>q \<in> ran M. \<forall>k < 32. cell s2 q k = cell s1 q k"
          using w weq by auto
        have va4: "\<forall>k \<in> set ds4. valid_draw k" using va3 ds4 by auto
        have os2: "os_ok s2" and tb2: "tables pid pd T' (M(vp \<mapsto> pp)) s2" using ok2 by (simp_all add: alloc_ok_def)
        have ppM: "pp \<in> ran (M(vp \<mapsto> pp))" by (auto simp: ran_def)
        show "or_no_draws (allocated pid pd ds (Suc n)) (rbind (fillPage pp w) (\<lambda>(s, ds). Inr (vps @ [vp], s, ds)))"
          unfolding weq
        proof (rule or_no_draws_bind [OF fillPage_cells [OF os2 pp(1) va4]])
          fix x assume x: "case x of (s', ds') \<Rightarrow> os_ok s' \<and> used_set s' = used_set s2 \<and> pdbr s' = pdbr s2 \<and> set ds' \<subseteq> set ds4 \<and>
            (\<forall>q k. k < 32 \<longrightarrow> (q \<noteq> pp \<longrightarrow> cell s' q k = cell s2 q k) \<and> (q = pp \<longrightarrow> cell s' q k < 31))"
          obtain s3 ds5 where xeq: "x = (s3, ds5)" by (cases x)
          have s3: "os_ok s3" "used_set s3 = used_set s2" "pdbr s3 = pdbr s2" "set ds5 \<subseteq> set ds4"
            and c3: "\<And>q k. k < 32 \<Longrightarrow> q \<noteq> pp \<Longrightarrow> cell s3 q k = cell s2 q k" "\<And>k. k < 32 \<Longrightarrow> cell s3 pp k < 31"
            using x xeq by auto
          have "pp \<noteq> pd" "pp \<notin> ran T'" using tb2 ppM by (auto simp: tables_def)
          then have "tables pid pd T' (M(vp \<mapsto> pp)) s3" using s3 c3(1) by (intro tables_data [OF tb2]) simp_all
          then have "alloc_ok pid pd T' (M(vp \<mapsto> pp)) {} s3" using ok2 s3 by (simp add: alloc_ok_def)
          moreover have "dom (M(vp \<mapsto> pp)) = set (vps @ [vp])" using dM by simp
          moreover have "\<forall>q \<in> ran (M(vp \<mapsto> pp)). \<forall>k < 32. cell s3 q k < 31"
          proof (intro ballI allI impI)
            fix q k assume q: "q \<in> ran (M(vp \<mapsto> pp))" and k: "(k :: nat) < 32"
            show "cell s3 q k < 31"
            proof (cases "q = pp")
              case False
              then have "q \<in> ran M" using q Mvp by auto
              then show ?thesis using c3(1) [OF k False] same data pp(4) k by simp
            qed (use c3(2) k in simp)
          qed
          ultimately have ex: "\<exists>T M. alloc_ok pid pd T M {} s3 \<and> dom M = set (vps @ [vp]) \<and> (\<forall>q \<in> ran M. \<forall>k < 32. cell s3 q k < 31)"
            by blast
          have "set ds5 \<subseteq> set ds" using s3(4) ds4 pp(5) r(4) vps(3) by blast
          then show "or_no_draws (allocated pid pd ds (Suc n)) (case x of (s, ds) \<Rightarrow> Inr (vps @ [vp], s, ds))"
            using ex xeq vps(1,2) r(3) unfolding allocated_def by simp
        qed
      qed
    qed
  qed
qed


lemma os_init_ok: "os_ok os_init" "used_set os_init = {}"
  by (auto simp: os_ok_def os_init_def used_set_def physMem_def physPages_def pageSize_def)

lemma procAlloc_spec:
  assumes n: "n \<le> 95" and va: "\<forall>k \<in> set ds. valid_draw k"
  shows "or_no_draws (\<lambda>r. \<exists>pd. allocated pid pd ds n r) (procAlloc pid n (os_init, ds))"
proof -
  have ff: "or_no_draws (\<lambda>(p, s', ds'). p < 128 \<and> p \<notin> used_set os_init \<and> os_ok s' \<and> used_set s' = insert p (used_set os_init) \<and>
    pdbr s' = pdbr os_init \<and> memory s' = memory os_init \<and> set ds' \<subseteq> set ds) (findFree (os_init, ds))"
    by (rule findFree_spec [OF os_init_ok(1) _ va]) (simp add: os_init_ok)
  show ?thesis
    unfolding procAlloc_def
  proof (rule or_no_draws_bind [OF ff])
    fix u assume u: "case u of (p, s', ds') \<Rightarrow> p < 128 \<and> p \<notin> used_set os_init \<and> os_ok s' \<and> used_set s' = insert p (used_set os_init) \<and>
      pdbr s' = pdbr os_init \<and> memory s' = memory os_init \<and> set ds' \<subseteq> set ds"
    obtain pd s1 ds1 where ueq: "u = (pd, s1, ds1)" by (cases u)
    have pd: "pd < 128" "os_ok s1" "used_set s1 = {pd}" "set ds1 \<subseteq> set ds" using u ueq by (simp_all add: os_init_ok)
    let ?s = "s1\<lparr>pdbr := dict_set pid pd (pdbr s1)\<rparr>"
    have ok: "os_ok ?s" "used_set ?s = {pd}" using pd by (simp_all add: os_ok_def used_set_def)
    obtain s2 where s2: "initPageDir pd ?s = Inr s2" "os_ok s2" "used_set s2 = used_set ?s" "pdbr s2 = pdbr ?s"
      "\<forall>q k. k < 32 \<longrightarrow> cell s2 q k = (if q = pd then 0x7f else cell ?s q k)"
      using initPageDir_cells [OF ok(1) pd(1)] by blast
    have "alloc_ok pid pd Map.empty Map.empty {} s2"
      using s2 ok by (simp add: alloc_ok_def tables_def entry_def)
    then have "allocated pid pd ds 0 ([], s2, ds1)" using pd(4) by (auto simp: allocated_def)
    then have "or_no_draws (allocated pid pd ds n) (rfold (\<lambda>_. alloc_step pid) [0..<n] ([], s2, ds1))"
    proof (rule or_no_draws_fold)
      fix i t assume i: "i < n" and al: "allocated pid pd ds i t"
      obtain vps s3 ds3 where t: "t = (vps, s3, ds3)" by (cases t)
      show "or_no_draws (allocated pid pd ds (Suc i)) (alloc_step pid t)"
        unfolding t by (rule alloc_step_spec [OF al [unfolded t] _ va]) (use i n in simp)
    qed
    then have "or_no_draws (\<lambda>r. \<exists>pd. allocated pid pd ds n r) (rfold (\<lambda>_. alloc_step pid) [0..<n] ([], s2, ds1))"
      by (rule or_no_draws_mono) blast
    then show "or_no_draws (\<lambda>r. \<exists>pd. allocated pid pd ds n r) (case u of (pageDir, s, ds) \<Rightarrow>
        rbind (initPageDir pageDir (s\<lparr>pdbr := dict_set pid pageDir (pdbr s)\<rparr>)) (\<lambda>s. rfold (\<lambda>_. alloc_step pid) [0..<n] ([], s, ds)))"
      using ueq s2(1) by simp
  qed
qed

text \<open>What a translation answers for the map from virtual pages to pages of memory.\<close>

definition translates_by :: "(nat \<rightharpoonup> nat) \<Rightarrow> os \<Rightarrow> nat \<Rightarrow> int \<Rightarrow> bool" where
  "translates_by M s v r \<longleftrightarrow>
     (case M (v div 32) of
        Some p \<Rightarrow> r = int (p * 32 + v mod 32) \<and> (\<exists>x < 31. mem_get (nat r) s = Inr x)
      | None \<Rightarrow> r = - 1 \<or> r = - 2)"

lemma allocated_translates:
  assumes al: "allocated pid pd ds n (vps, s, ds')"
  shows "\<exists>M. dom M = set vps \<and> inj_on M (dom M) \<and> (\<forall>v < 32768. \<exists>r. translate pid v s = Inr r \<and> translates_by M s v r)"
proof -
  obtain T M where ok: "alloc_ok pid pd T M {} s" and dM: "dom M = set vps" and data: "\<forall>q \<in> ran M. \<forall>k < 32. cell s q k < 31"
    using al by (auto simp: allocated_def)
  have os: "os_ok s" and tb: "tables pid pd T M s" using ok by (simp_all add: alloc_ok_def)
  have "\<exists>r. translate pid v s = Inr r \<and> translates_by M s v r" if v: "v < 32768" for v
  proof -
    obtain r where r: "translate pid v s = Inr r"
      "case M (v div 32) of Some p \<Rightarrow> r = int (p * 32 + v mod 32) | None \<Rightarrow> r = - 1 \<or> r = - 2"
      using translate_tables [OF os tb v] by blast
    have k: "v mod 32 < 32" by simp
    have "translates_by M s v r"
    proof (cases "M (v div 32)")
      case (Some p)
      then have "p \<in> ran M" by (rule ranI)
      then have p: "p < 128" "cell s p (v mod 32) < 31" using tb used_lt data k by (auto simp: tables_def)
      have r': "r = int (p * 32 + v mod 32)" using r(2) Some by simp
      have "mem_get (nat r) s = Inr (cell s p (v mod 32))" unfolding r' nat_int by (rule mem_get_cell [OF os p(1) k])
      then show ?thesis using Some r' p(2) by (simp add: translates_by_def)
    qed (use r(2) in \<open>simp add: translates_by_def\<close>)
    then show ?thesis using r(1) by blast
  qed
  moreover have "inj_on M (dom M)" using tb by (simp add: tables_def)
  ultimately show ?thesis using dM by blast
qed

text \<open>
  C3. The page tables in memory refine the map from virtual to physical pages: allocating up to 95 pages fails no assertion and
  no index, the allocated virtual pages are distinct and go to distinct pages of data, and every translation through the
  two levels gives that page's address, or a fault when the virtual page is not allocated.
\<close>

theorem multilevel_refines_map:
  assumes "n \<le> 95" and "\<forall>k \<in> set ds. valid_draw k"
  shows "or_no_draws (\<lambda>(vps, s, _). distinct vps \<and> length vps = n \<and>
    (\<exists>M. dom M = set vps \<and> inj_on M (dom M) \<and> (\<forall>v < 32768. \<exists>r. translate pid v s = Inr r \<and> translates_by M s v r)))
    (procAlloc pid n (os_init, ds))"
proof (rule or_no_draws_mono [OF procAlloc_spec [OF assms]])
  fix r assume r: "\<exists>pd. allocated pid pd ds n r"
  obtain vps s ds' where eq: "r = (vps, s, ds')" by (cases r)
  from r eq obtain pd where al: "allocated pid pd ds n (vps, s, ds')" by auto
  then show "case r of (vps, s, _) \<Rightarrow> distinct vps \<and> length vps = n \<and>
      (\<exists>M. dom M = set vps \<and> inj_on M (dom M) \<and> (\<forall>v < 32768. \<exists>r. translate pid v s = Inr r \<and> translates_by M s v r))"
    using allocated_translates [OF al] unfolding eq prod.case by (simp add: allocated_def)
qed

lemma multilevel_refines_map_witness:
  "or_no_draws (\<lambda>(vps, s, _). distinct vps \<and> length vps = 2 \<and>
    (\<exists>M. dom M = set vps \<and> inj_on M (dom M) \<and> (\<forall>v < 32768. \<exists>r. translate 1 v s = Inr r \<and> translates_by M s v r)))
    (procAlloc 1 2 (os_init, map (\<lambda>i. (i mod 128) * 2 ^ 46) [0..<200]))"
  by (rule multilevel_refines_map) (auto simp: valid_draw_def)


text \<open>The trace of the main program.\<close>

lemma gen_vaddr_spec:
  assumes va: "\<forall>k \<in> set ds. valid_draw k" and used: "\<forall>vp \<in> set used. vp < 1024"
  shows "or_no_draws (\<lambda>(v, ds'). v < 32768 \<and> set ds' \<subseteq> set ds) (gen_vaddr used i ds)"
proof (cases ds)
  case (Cons k ds1)
  show ?thesis
  proof (cases ds1)
    case (Cons k' ds2)
    have k': "valid_draw k'" using va \<open>ds = k # ds1\<close> Cons by simp
    have p: "pick k' 32768 < 32768" "pick k' 32 < 32" using pick_less [OF k'] by simp_all
    have "push_bit 5 (used ! i) OR pick k' 32 < 32768" if "i < length used"
    proof -
      have "used ! i < 1024" using used that by simp
      then show ?thesis unfolding or_page [OF p(2)] using p(2) by simp
    qed
    then show ?thesis using p \<open>ds = k # ds1\<close> Cons by (auto simp: gen_vaddr_def)
  qed (simp add: \<open>ds = k # ds1\<close> gen_vaddr_def)
qed (simp add: gen_vaddr_def)

text \<open>
  The main program with up to 95 pages never fails: every line of its trace is a virtual address of the process with its
  translation, the value read through a valid one being a byte that the allocation put there.
\<close>

theorem multilevel_main_safe:
  assumes "allocated_pages \<le> 95" and "\<forall>k \<in> set ds. valid_draw k"
  shows "or_no_draws (\<lambda>out. length out = nat num \<and>
    (\<forall>(v, l) \<in> set out. v < 32768 \<and> (case l of None \<Rightarrow> \<not> solve | Some (r, None) \<Rightarrow> r = - 1 \<or> r = - 2
      | Some (r, Some x) \<Rightarrow> 0 \<le> r \<and> r < 4096 \<and> x < 31))) (multilevel_main allocated_pages num solve ds)"
proof -
  have n: "nat allocated_pages \<le> 95" using assms(1) by simp
  let ?ok = "\<lambda>(v :: nat, l). v < 32768 \<and> (case l of None \<Rightarrow> \<not> solve | Some (r, None) \<Rightarrow> r = - 1 \<or> r = - 2
      | Some (r, Some x) \<Rightarrow> (0 :: int) \<le> r \<and> r < 4096 \<and> x < (31 :: nat))"
  let ?P = "\<lambda>i (out, ds'). length out = i \<and> set ds' \<subseteq> set ds \<and> (\<forall>l \<in> set out. ?ok l)"
  show ?thesis
    unfolding multilevel_main_def
  proof (rule or_no_draws_bind [OF procAlloc_spec [OF n assms(2)]])
    fix u assume u: "\<exists>pd. allocated 1 pd ds (nat allocated_pages) u"
    obtain used s ds1 where ueq: "u = (used, s, ds1)" by (cases u)
    obtain pd where al: "allocated 1 pd ds (nat allocated_pages) (used, s, ds1)" using u ueq by auto
    have ds1: "set ds1 \<subseteq> set ds" using al by (simp add: allocated_def)
    have used: "\<forall>vp \<in> set used. vp < 1024" using al by (auto simp: allocated_def alloc_ok_def tables_def)
    have mem: "os_ok s" using al by (auto simp: allocated_def alloc_ok_def)
    obtain M where tr: "\<And>v. v < 32768 \<Longrightarrow> \<exists>r. translate 1 v s = Inr r \<and> translates_by M s v r"
      using allocated_translates [OF al] by blast
    have line: "\<exists>l. trace_line solve v s = Inr l \<and> ?ok l" if v: "v < 32768" for v
    proof (cases solve)
      case True
      obtain r where r: "translate 1 v s = Inr r" "translates_by M s v r" using tr [OF v] by blast
      show ?thesis
      proof (cases "M (v div 32)")
        case None
        then show ?thesis using r True v by (auto simp: translates_by_def trace_line_def)
      next
        case (Some p)
        then obtain x where x: "x < 31" "mem_get (nat r) s = Inr x" "0 \<le> r" using r(2) by (auto simp: translates_by_def)
        then have "nat r < 4096" using mem by (auto simp: mem_get_def os_ok_def split: if_splits)
        then show ?thesis using r True v x by (auto simp: trace_line_def)
      qed
    qed (use v in \<open>simp add: trace_line_def\<close>)
    have "or_no_draws (?P (nat num)) (rfold (\<lambda>i (out, ds). rbind (gen_vaddr used i ds) (\<lambda>(vaddr, ds).
       rbind (trace_line solve vaddr s) (\<lambda>l. Inr (out @ [l], ds)))) [0..<nat num] ([], ds1))"
    proof (rule or_no_draws_fold [where P = ?P])
      show "?P 0 ([], ds1)" using ds1 by simp
      fix i t assume t: "?P i t"
      obtain out ds2 where teq: "t = (out, ds2)" by (cases t)
      have va2: "\<forall>k \<in> set ds2. valid_draw k" using t teq assms(2) by auto
      show "or_no_draws (?P (Suc i)) (case t of (out, ds) \<Rightarrow> rbind (gen_vaddr used i ds) (\<lambda>(vaddr, ds).
         rbind (trace_line solve vaddr s) (\<lambda>l. Inr (out @ [l], ds))))"
        unfolding teq prod.case
      proof (rule or_no_draws_bind [OF gen_vaddr_spec [OF va2 used]])
        fix w :: "nat \<times> draw list" assume w: "case w of (v, ds') \<Rightarrow> v < 32768 \<and> set ds' \<subseteq> set ds2"
        obtain v :: nat and ds3 where weq: "w = (v, ds3)" by (cases w)
        obtain l where l: "trace_line solve v s = Inr l" "?ok l" using line [of v] w weq by auto
        have P: "?P (Suc i) (out @ [l], ds3)" using l(2) t teq w weq by auto
        have step: "(case w of (vaddr, ds) \<Rightarrow> rbind (trace_line solve vaddr s) (\<lambda>l. Inr (out @ [l], ds))) = Inr (out @ [l], ds3)"
          by (simp add: weq l(1))
        show "or_no_draws (?P (Suc i)) (case w of (vaddr, ds) \<Rightarrow> rbind (trace_line solve vaddr s) (\<lambda>l. Inr (out @ [l], ds)))"
          unfolding step or_no_draws_simps by (rule P)
      qed
    qed
    then show "or_no_draws (\<lambda>out. length out = nat num \<and> (\<forall>x \<in> set out. ?ok x))
      (case u of (used, s, ds) \<Rightarrow> rbind (rfold (\<lambda>i (out, ds). rbind (gen_vaddr used i ds) (\<lambda>(vaddr, ds).
       rbind (trace_line solve vaddr s) (\<lambda>l. Inr (out @ [l], ds)))) [0..<nat num] ([], ds)) (\<lambda>(out, _). Inr out))"
      unfolding ueq prod.case by (rule or_no_draws_bind) auto
  qed
qed

lemma multilevel_main_safe_witness:
  "or_no_draws (\<lambda>out. length out = nat 1 \<and>
    (\<forall>(v, l) \<in> set out. v < 32768 \<and> (case l of None \<Rightarrow> \<not> True | Some (r, None) \<Rightarrow> r = - 1 \<or> r = - 2
      | Some (r, Some x) \<Rightarrow> 0 \<le> r \<and> r < 4096 \<and> x < 31))) (multilevel_main 64 1 True (map (\<lambda>i. (i mod 128) * 2 ^ 46) [0..<5000]))"
  by (rule multilevel_main_safe) (auto simp: valid_draw_def)

end
