(* ===== verification/Multi.thy ===== *)
theory Multi
  imports Complex_Main PyString
begin

text \<open>
  The multiprocessor scheduler of \<open>cpu-sched-multi/multi.py\<close>: jobs with working sets and affinities, the cache of each CPU, one
  central queue or one queue per CPU with job stealing, and the simulation. A job is shown to be in one place and never on a
  CPU outside its affinity; the simulation ends under a central queue, and can hang when stealing meets affinities.
\<close>

section \<open>Jobs and caches\<close>

record job =
  job_name :: string
  run_time :: int
  working_set_size :: int
  affinity :: "int list"
  time_left :: int

type_synonym jobs = "(string, job) dict"

record conf =
  per_cpu_queues :: bool
  peek_interval :: int
  num_cpus :: nat
  time_slice :: int
  random_order :: bool
  cache_size :: int
  cache_rate_cold :: int
  cache_rate_warm :: int
  cache_warmup_time :: int

record cache =
  cache_contents :: "string list"
  cache_warming :: "string list"
  cache_warming_counter :: "(string, int) dict"

definition cache_init :: cache where
  "cache_init = \<lparr>cache_contents = [], cache_warming = [], cache_warming_counter = []\<rparr>"

definition total_working_set :: "jobs \<Rightarrow> cache \<Rightarrow> int res" where
  "total_working_set js c = rfold (\<lambda>n t. rbind (dict_get js n) (\<lambda>j. Inr (t + working_set_size j))) (cache_contents c) 0"

definition kick_out :: "conf \<Rightarrow> cache \<Rightarrow> cache" where
  "kick_out cf c =
     (let gone = last (cache_contents c)
      in c\<lparr>cache_contents := butlast (cache_contents c), cache_warming := cache_warming c @ [gone],
           cache_warming_counter := dict_set gone (cache_warmup_time cf) (cache_warming_counter c)\<rparr>)"

function adjust_loop :: "conf \<Rightarrow> jobs \<Rightarrow> int \<Rightarrow> cache \<Rightarrow> cache res" where
  "adjust_loop cf js total_set c =
     (if total_set > cache_size cf then
        if cache_contents c = [] then Inl IndexError
        else rbind (dict_get js (last (cache_contents c))) (\<lambda>j. adjust_loop cf js (total_set - working_set_size j) (kick_out cf c))
      else Inr c)"
  by pat_completeness auto
termination
  by (relation "measure (\<lambda>(cf, js, t, c). length (cache_contents c))") (auto simp: kick_out_def Let_def)

declare adjust_loop.simps [simp del]

definition adjust_size :: "conf \<Rightarrow> jobs \<Rightarrow> cache \<Rightarrow> cache res" where
  "adjust_size cf js c = rbind (total_working_set js c) (\<lambda>t. adjust_loop cf js t c)"

definition cache_new_job :: "conf \<Rightarrow> jobs \<Rightarrow> string \<Rightarrow> cache \<Rightarrow> cache res" where
  "cache_new_job cf js n c =
     (if n \<notin> set (cache_contents c) \<and> n \<notin> set (cache_warming c) then
        if cache_warmup_time cf = 0 then adjust_size cf js (c\<lparr>cache_contents := n # cache_contents c\<rparr>)
        else Inr (c\<lparr>cache_warming := cache_warming c @ [n],
                    cache_warming_counter := dict_set n (cache_warmup_time cf) (cache_warming_counter c)\<rparr>)
      else Inr c)"

definition get_rate :: "conf \<Rightarrow> cache \<Rightarrow> string \<Rightarrow> int" where
  "get_rate cf c n = (if n \<in> set (cache_contents c) then cache_rate_warm cf else cache_rate_cold cf)"

definition update_warming :: "conf \<Rightarrow> jobs \<Rightarrow> string \<Rightarrow> cache \<Rightarrow> cache res" where
  "update_warming cf js n c =
     (if n \<in> set (cache_warming c) then
        rbind (dict_get (cache_warming_counter c) n) (\<lambda>k.
        let c = c\<lparr>cache_warming_counter := dict_set n (k - 1) (cache_warming_counter c)\<rparr> in
        if k - 1 \<le> 0
        then adjust_size cf js (c\<lparr>cache_warming := remove1 n (cache_warming c), cache_contents := n # cache_contents c\<rparr>)
        else Inr c)
      else Inr c)"

section \<open>The scheduler\<close>

datatype cpu_state = IDLE | RUNNING

record cpu =
  sched_state :: cpu_state
  sched_current :: string
  stats_ran :: nat
  stats_ran_warm :: nat
  cpu_cache :: cache

text \<open>With a central queue all CPUs share queue 0.\<close>

record sched =
  jobs :: jobs
  queues :: "string list list"
  cpus :: "cpu list"
  system_time :: int
  jobs_finished :: nat
  mdraws :: "draw list"

definition queue_of :: "conf \<Rightarrow> nat \<Rightarrow> nat" where
  "queue_of cf c = (if per_cpu_queues cf then c else 0)"

definition runs_on :: "job \<Rightarrow> nat \<Rightarrow> bool" where
  "runs_on j c \<longleftrightarrow> affinity j = [] \<or> int c \<in> set (affinity j)"

definition upd_queue :: "nat \<Rightarrow> (string list \<Rightarrow> string list) \<Rightarrow> sched \<Rightarrow> sched" where
  "upd_queue q f s = s\<lparr>queues := (queues s)[q := f (queues s ! q)]\<rparr>"

definition upd_cpu :: "nat \<Rightarrow> (cpu \<Rightarrow> cpu) \<Rightarrow> sched \<Rightarrow> sched" where
  "upd_cpu c f s = s\<lparr>cpus := (cpus s)[c := f (cpus s ! c)]\<rparr>"

definition handle_one_interrupt :: "conf \<Rightarrow> bool \<Rightarrow> nat \<Rightarrow> sched \<Rightarrow> sched" where
  "handle_one_interrupt cf interrupt c s =
     (if interrupt \<and> sched_state (cpus s ! c) = RUNNING then
        let n = sched_current (cpus s ! c)
        in upd_queue (queue_of cf c) (\<lambda>q. q @ [n]) (upd_cpu c (\<lambda>u. u\<lparr>sched_state := IDLE, sched_current := []\<rparr>) s)
      else s)"

definition handle_interrupts :: "conf \<Rightarrow> sched \<Rightarrow> sched res" where
  "handle_interrupts cf s =
     (if time_slice cf = 0 then Inl ZeroDivisionError
      else Inr (fold (handle_one_interrupt cf (system_time s mod time_slice cf = 0 \<and> system_time s > 0)) [0..<num_cpus cf] s))"

text \<open>The first job of the queue that may run on the CPU.\<close>

fun find_job :: "jobs \<Rightarrow> nat \<Rightarrow> string list \<Rightarrow> string option res" where
  "find_job js c [] = Inr None"
| "find_job js c (n # ns) = rbind (dict_get js n) (\<lambda>j. if runs_on j c then Inr (Some n) else find_job js c ns)"

definition get_job :: "conf \<Rightarrow> nat \<Rightarrow> sched \<Rightarrow> sched res" where
  "get_job cf c s =
     rbind (find_job (jobs s) c (queues s ! queue_of cf c)) (\<lambda>r.
     case r of
       None \<Rightarrow> Inr s
     | Some n \<Rightarrow>
         rbind (cache_new_job cf (jobs s) n (cpu_cache (cpus s ! c))) (\<lambda>ca.
         Inr (upd_cpu c (\<lambda>u. u\<lparr>sched_state := RUNNING, sched_current := n, cpu_cache := ca\<rparr>) (upd_queue (queue_of cf c) (remove1 n) s))))"

text \<open>\<open>random.shuffle\<close> and \<open>random.choice\<close> take an index below the length.\<close>

fun shuffle_from :: "nat \<Rightarrow> 'a list \<Rightarrow> draw list \<Rightarrow> ('a list \<times> draw list) res" where
  "shuffle_from 0 xs ds = Inr (xs, ds)"
| "shuffle_from (Suc i) xs ds = rbind (next_draw ds) (\<lambda>(k, ds).
     let j = pick k (Suc (Suc i)) in shuffle_from i (xs[Suc i := xs ! j, j := xs ! Suc i]) ds)"

definition py_shuffle :: "'a list \<Rightarrow> draw list \<Rightarrow> ('a list \<times> draw list) res" where
  "py_shuffle xs ds = shuffle_from (length xs - 1) xs ds"

definition py_choice :: "'a list \<Rightarrow> draw list \<Rightarrow> ('a \<times> draw list) res" where
  "py_choice xs ds = (if xs = [] then Inl IndexError else rbind (next_draw ds) (\<lambda>(k, ds). Inr (xs ! pick k (length xs), ds)))"

definition assign_jobs :: "conf \<Rightarrow> sched \<Rightarrow> sched res" where
  "assign_jobs cf s =
     rbind (if random_order cf then py_shuffle [0..<num_cpus cf] (mdraws s) else Inr ([0..<num_cpus cf], mdraws s)) (\<lambda>(cpu_list, ds).
     rfold (\<lambda>c s. if sched_state (cpus s ! c) = IDLE then get_job cf c s else Inr s) cpu_list (s\<lparr>mdraws := ds\<rparr>))"

text \<open>
  The test for stealing asks whether the CPU number is a component of the tuple of the job, not of its affinity; the
  components that can equal a number are the run time and the size of the working set.
\<close>

definition in_job_tuple :: "nat \<Rightarrow> job \<Rightarrow> bool" where
  "in_job_tuple c j \<longleftrightarrow> run_time j = int c \<or> working_set_size j = int c"

fun find_steal :: "jobs \<Rightarrow> nat \<Rightarrow> string list \<Rightarrow> string option res" where
  "find_steal js c [] = Inr None"
| "find_steal js c (n # ns) = rbind (dict_get js n) (\<lambda>j.
     if affinity j = [] \<or> in_job_tuple c j then Inr (Some n) else find_steal js c ns)"

definition steal_for :: "conf \<Rightarrow> nat \<Rightarrow> sched \<Rightarrow> sched res" where
  "steal_for cf c s =
     (if queues s ! c = [] then
        rbind (py_choice (remove1 c [0..<num_cpus cf]) (mdraws s)) (\<lambda>(other, ds).
        let s = s\<lparr>mdraws := ds\<rparr> in
        rbind (find_steal (jobs s) c (queues s ! other)) (\<lambda>r.
        case r of None \<Rightarrow> Inr s
        | Some n \<Rightarrow> Inr (upd_queue c (\<lambda>q. q @ [n]) (upd_queue other (remove1 n) s))))
      else Inr s)"

definition steal_jobs :: "conf \<Rightarrow> sched \<Rightarrow> sched res" where
  "steal_jobs cf s =
     (if \<not> per_cpu_queues cf \<or> peek_interval cf \<le> 0 then Inr s
      else if system_time s > 0 \<and> system_time s mod peek_interval cf = 0 then rfold (steal_for cf) [0..<num_cpus cf] s
      else Inr s)"

definition run_one_tick :: "conf \<Rightarrow> nat \<Rightarrow> sched \<Rightarrow> sched res" where
  "run_one_tick cf c s =
     (let u = cpus s ! c; n = sched_current u; rate = get_rate cf (cpu_cache u) n in
      rbind (dict_get (jobs s) n) (\<lambda>j.
      let left = max 0 (time_left j - rate) in
      rbind (update_warming cf (jobs s) n (cpu_cache u)) (\<lambda>ca.
      let s1 = upd_cpu c (\<lambda>u. u\<lparr>stats_ran := stats_ran u + 1, stats_ran_warm := stats_ran_warm u + (if rate > 1 then 1 else 0),
                  cpu_cache := ca\<rparr>) (s\<lparr>jobs := dict_set n (j\<lparr>time_left := left\<rparr>) (jobs s)\<rparr>) in
      if left \<le> 0
      then Inr (upd_cpu c (\<lambda>u. u\<lparr>sched_state := IDLE, sched_current := []\<rparr>) (s1\<lparr>jobs_finished := jobs_finished s1 + 1\<rparr>))
      else Inr s1)))"

definition run_jobs :: "conf \<Rightarrow> sched \<Rightarrow> sched res" where
  "run_jobs cf s = rfold (\<lambda>c s. if sched_state (cpus s ! c) = RUNNING then run_one_tick cf c s else Inr s) [0..<num_cpus cf] s"

definition multi_tick :: "conf \<Rightarrow> sched \<Rightarrow> sched res" where
  "multi_tick cf s =
     rbind (handle_interrupts cf s) (\<lambda>s. rbind (steal_jobs cf s) (\<lambda>s. rbind (assign_jobs cf s) (\<lambda>s.
     rbind (run_jobs cf s) (\<lambda>s. Inr (s\<lparr>system_time := system_time s + 1\<rparr>)))))"

fun multi_loop :: "nat \<Rightarrow> conf \<Rightarrow> nat \<Rightarrow> sched \<Rightarrow> sched res" where
  "multi_loop fuel cf num_jobs s =
     (if jobs_finished s < num_jobs
      then case fuel of 0 \<Rightarrow> Inl Out_Of_Fuel | Suc f \<Rightarrow> rbind (multi_tick cf s) (multi_loop f cf num_jobs)
      else Inr s)"

declare multi_loop.simps [simp del]


section \<open>Setting up\<close>

definition gen_job :: "int \<Rightarrow> int \<Rightarrow> nat \<Rightarrow> string list \<times> draw list \<Rightarrow> (string list \<times> draw list) res" where
  "gen_job max_run max_wset j = (\<lambda>(out, ds).
     rbind (next_draw ds) (\<lambda>(k1, ds). rbind (next_draw ds) (\<lambda>(k2, ds).
     let r = trunc_div (int k1 * max_run) (10 * 2 ^ 53) * 10; w = trunc_div (int k2 * max_wset) (10 * 2 ^ 53) * 10
     in Inr (out @ [show_nat j @ '':'' @ show_int r @ '':'' @ show_int w], ds))))"

text \<open>The jobs and their names, in the order of the list.\<close>

definition parse_job :: "string \<Rightarrow> jobs \<times> string list \<Rightarrow> (jobs \<times> string list) res" where
  "parse_job e = (\<lambda>(js, names).
     case py_split CHR '':'' e of
       [n, r, w] \<Rightarrow> rbind (py_int r) (\<lambda>r. rbind (py_int w) (\<lambda>w.
         let js = dict_set n \<lparr>job_name = n, run_time = r, working_set_size = w, affinity = [], time_left = r\<rparr> js in
         if n \<in> set names then Inl (SystemExit 1) else Inr (js, names @ [n])))
     | _ \<Rightarrow> Inl (SystemExit 1))"

definition add_affinity :: "nat \<Rightarrow> string \<Rightarrow> string \<Rightarrow> jobs \<Rightarrow> jobs res" where
  "add_affinity n name c js =
     rbind (py_int c) (\<lambda>i. rbind (dict_get js name) (\<lambda>j.
     if i < 0 \<or> int n \<le> i then Inl (SystemExit 1) else Inr (dict_set name (j\<lparr>affinity := affinity j @ [i]\<rparr>) js)))"

definition parse_affinity :: "nat \<Rightarrow> string list \<Rightarrow> string \<Rightarrow> jobs \<Rightarrow> jobs res" where
  "parse_affinity n names e js =
     (case py_split CHR '':'' e of
        [name, l] \<Rightarrow>
          if name \<notin> set names then Inl (SystemExit 1) else rfold (add_affinity n name) (py_split CHR ''.'' l) js
      | _ \<Rightarrow> Inl (SystemExit 1))"

text \<open>One round over the CPUs: each takes the first job left that may run on it.\<close>

definition take_job :: "jobs \<Rightarrow> nat \<Rightarrow> string list list \<times> string list \<Rightarrow> (string list list \<times> string list) res" where
  "take_job js c = (\<lambda>(qs, left). rbind (find_job js c left) (\<lambda>r.
     case r of None \<Rightarrow> Inr (qs, left) | Some n \<Rightarrow> Inr (qs[c := qs ! c @ [n]], remove1 n left)))"

fun assign_rounds :: "nat \<Rightarrow> nat \<Rightarrow> jobs \<Rightarrow> string list list \<times> string list \<Rightarrow> string list list res" where
  "assign_rounds fuel n js (qs, left) =
     (if left = [] then Inr qs
      else case fuel of 0 \<Rightarrow> Inl Out_Of_Fuel | Suc f \<Rightarrow> rbind (rfold (take_job js) [0..<n] (qs, left)) (assign_rounds f n js))"

declare assign_rounds.simps [simp del]

definition cpu_init :: cpu where
  "cpu_init = \<lparr>sched_state = IDLE, sched_current = [], stats_ran = 0, stats_ran_warm = 0, cpu_cache = cache_init\<rparr>"

definition make_queues :: "nat \<Rightarrow> conf \<Rightarrow> jobs \<Rightarrow> string list \<Rightarrow> string list list res" where
  "make_queues fuel cf js names =
     (if per_cpu_queues cf then assign_rounds fuel (num_cpus cf) js (replicate (num_cpus cf) [], names) else Inr [names])"

text \<open>The scheduler and the number of its jobs.\<close>

definition multi_init :: "nat \<Rightarrow> conf \<Rightarrow> string \<Rightarrow> string \<Rightarrow> int \<Rightarrow> int \<Rightarrow> int \<Rightarrow> draw list \<Rightarrow> (sched \<times> nat) res" where
  "multi_init fuel cf job_list aff job_num max_run max_wset ds =
     rbind (if job_list = [] then rbind (rfold (gen_job max_run max_wset) [0..<nat job_num] ([], ds)) (\<lambda>(es, ds). Inr (py_join CHR '','' es, ds))
            else Inr (job_list, ds)) (\<lambda>(l, ds).
     rbind (rfold parse_job (py_split CHR '','' l) ([], [])) (\<lambda>(js, names).
     rbind (if aff = [] then Inr js else rfold (parse_affinity (num_cpus cf) names) (py_split CHR '','' aff) js) (\<lambda>js.
     rbind (make_queues fuel cf js names) (\<lambda>qs.
     Inr (\<lparr>jobs = js, queues = qs, cpus = replicate (num_cpus cf) cpu_init, system_time = 0, jobs_finished = 0, mdraws = ds\<rparr>,
          length names)))))"

record multi_options =
  o_job_num :: int
  o_max_run :: int
  o_max_wset :: int
  o_job_list :: string
  o_affinity :: string
  o_conf :: conf
  o_compute :: bool

definition multi_defaults :: multi_options where
  "multi_defaults = \<lparr>o_job_num = 3, o_max_run = 100, o_max_wset = 200, o_job_list = [], o_affinity = [],
     o_conf = \<lparr>per_cpu_queues = False, peek_interval = 30, num_cpus = 2, time_slice = 10, random_order = False, cache_size = 100,
       cache_rate_cold = 1, cache_rate_warm = 2, cache_warmup_time = 10\<rparr>, o_compute = False\<rparr>"

definition utilization :: "sched \<Rightarrow> (rat \<times> rat) list res" where
  "utilization s =
     (if system_time s = 0 \<and> cpus s \<noteq> [] then Inl ZeroDivisionError
      else Inr (map (\<lambda>u. (100 * of_nat (stats_ran u) / of_int (system_time s), 100 * of_nat (stats_ran_warm u) / of_int (system_time s))) (cpus s)))"

text \<open>With \<open>-c\<close> the time and the utilization of each CPU are printed.\<close>

definition multi_main :: "nat \<Rightarrow> multi_options \<Rightarrow> draw list \<Rightarrow> (int \<times> (rat \<times> rat) list) option res" where
  "multi_main fuel opt ds =
     rbind (multi_init fuel (o_conf opt) (o_job_list opt) (o_affinity opt) (o_job_num opt) (o_max_run opt) (o_max_wset opt) ds) (\<lambda>(s, n).
     rbind (multi_loop fuel (o_conf opt) n s) (\<lambda>s.
     if o_compute opt then rbind (utilization s) (\<lambda>us. Inr (Some (system_time s, us))) else Inr None))"


section \<open>The caches\<close>

abbreviation jb :: "jobs \<Rightarrow> string \<Rightarrow> job" where
  "jb js n \<equiv> the (map_of js n)"

definition wset_sum :: "jobs \<Rightarrow> string list \<Rightarrow> int" where
  "wset_sum js ns = sum_list (map (\<lambda>n. working_set_size (jb js n)) ns)"

text \<open>The jobs in a cache and those warming up are different jobs, and the working sets in the cache fit.\<close>

definition cache_tracks :: "jobs \<Rightarrow> cache \<Rightarrow> bool" where
  "cache_tracks js c \<longleftrightarrow> distinct (cache_contents c @ cache_warming c) \<and> set (cache_contents c @ cache_warming c) \<subseteq> dict_keys js \<and>
     set (cache_warming c) \<subseteq> dict_keys (cache_warming_counter c)"

definition cache_ok :: "conf \<Rightarrow> jobs \<Rightarrow> cache \<Rightarrow> bool" where
  "cache_ok cf js c \<longleftrightarrow> cache_tracks js c \<and> wset_sum js (cache_contents c) \<le> cache_size cf"

lemma total_working_set_sum:
  "set (cache_contents c) \<subseteq> dict_keys js \<Longrightarrow> total_working_set js c = Inr (wset_sum js (cache_contents c))"
proof -
  have "set ns \<subseteq> dict_keys js \<Longrightarrow>
    rfold (\<lambda>n t. rbind (dict_get js n) (\<lambda>j. Inr (t + working_set_size j))) ns a = Inr (a + wset_sum js ns)" for ns a
  proof (induction ns arbitrary: a)
    case (Cons n ns)
    then obtain j where "map_of js n = Some j" by (auto simp: dict_keys_map_of)
    then show ?case using Cons by (simp add: dict_get_def wset_sum_def add.assoc)
  qed (simp add: wset_sum_def)
  then show "set (cache_contents c) \<subseteq> dict_keys js \<Longrightarrow> total_working_set js c = Inr (wset_sum js (cache_contents c))"
    by (simp add: total_working_set_def)
qed

lemma adjust_loop_runs:
  assumes "0 \<le> cache_size cf" and "cache_tracks js c" and "t = wset_sum js (cache_contents c)"
  shows "\<exists>c'. adjust_loop cf js t c = Inr c' \<and> cache_ok cf js c' \<and>
    set (cache_contents c' @ cache_warming c') = set (cache_contents c @ cache_warming c)"
  using assms
proof (induction cf js t c rule: adjust_loop.induct)
  case (1 cf js t c)
  show ?case
  proof (cases "t > cache_size cf")
    case False
    then show ?thesis using 1 by (simp add: adjust_loop.simps cache_ok_def)
  next
    case True
    then have ne: "cache_contents c \<noteq> []" using 1 by (auto simp: wset_sum_def)
    define g where "g = last (cache_contents c)"
    have con: "cache_contents c = butlast (cache_contents c) @ [g]" using ne by (simp add: g_def)
    then have gs: "g \<in> set (cache_contents c)" by (metis in_set_conv_decomp)
    then have "g \<in> dict_keys js" using 1(3) by (auto simp: cache_tracks_def)
    then obtain j where j: "map_of js g = Some j" by (auto simp: dict_keys_map_of)
    let ?c = "kick_out cf c"
    have con': "cache_contents ?c = butlast (cache_contents c)" "cache_warming ?c = cache_warming c @ [g]"
      "cache_warming_counter ?c = dict_set g (cache_warmup_time cf) (cache_warming_counter c)"
      by (simp_all add: kick_out_def g_def Let_def)
    have same: "set (cache_contents ?c @ cache_warming ?c) = set (cache_contents c @ cache_warming c)"
      unfolding con' by (subst (2) con) auto
    have "distinct (butlast (cache_contents c) @ [g] @ cache_warming c)" using 1(3) con unfolding cache_tracks_def by (metis append_assoc)
    then have "distinct (cache_contents ?c @ cache_warming ?c)" unfolding con' by auto
    moreover have "set (cache_contents ?c @ cache_warming ?c) \<subseteq> dict_keys js" using same 1(3) by (simp add: cache_tracks_def)
    ultimately have tr: "cache_tracks js ?c" using 1(3) con' by (auto simp: cache_tracks_def)
    have "wset_sum js (cache_contents c) = wset_sum js (butlast (cache_contents c)) + working_set_size j"
      by (subst con) (simp add: wset_sum_def j)
    then have t: "t - working_set_size j = wset_sum js (cache_contents ?c)" using 1 con' by simp
    have dg: "dict_get js (last (cache_contents c)) = Inr j" using j by (simp add: dict_get_def g_def)
    obtain c' where "adjust_loop cf js (t - working_set_size j) ?c = Inr c'" "cache_ok cf js c'"
      "set (cache_contents c' @ cache_warming c') = set (cache_contents ?c @ cache_warming ?c)"
      using 1(1) [OF True ne dg 1(2) tr t] by blast
    then show ?thesis using True ne dg same by (subst adjust_loop.simps) simp
  qed
qed

lemma adjust_size_runs:
  assumes "0 \<le> cache_size cf" and "cache_tracks js c"
  shows "\<exists>c'. adjust_size cf js c = Inr c' \<and> cache_ok cf js c'"
proof -
  have "set (cache_contents c) \<subseteq> dict_keys js" using assms(2) by (simp add: cache_tracks_def)
  then show ?thesis
    using adjust_loop_runs [OF assms refl] total_working_set_sum by (auto simp: adjust_size_def)
qed

lemma cache_new_job_runs:
  assumes "0 \<le> cache_size cf" and "cache_ok cf js c" and "n \<in> dict_keys js"
  shows "\<exists>c'. cache_new_job cf js n c = Inr c' \<and> cache_ok cf js c'"
proof (cases "n \<notin> set (cache_contents c) \<and> n \<notin> set (cache_warming c)")
  case True
  show ?thesis
  proof (cases "cache_warmup_time cf = 0")
    case True
    have "cache_tracks js (c\<lparr>cache_contents := n # cache_contents c\<rparr>)"
      using assms \<open>n \<notin> set (cache_contents c) \<and> n \<notin> set (cache_warming c)\<close> by (auto simp: cache_ok_def cache_tracks_def)
    from adjust_size_runs [OF assms(1) this] show ?thesis
      using True \<open>n \<notin> set (cache_contents c) \<and> n \<notin> set (cache_warming c)\<close> by (simp add: cache_new_job_def)
  next
    case False
    then show ?thesis
      using assms \<open>n \<notin> set (cache_contents c) \<and> n \<notin> set (cache_warming c)\<close>
      by (auto simp: cache_new_job_def cache_ok_def cache_tracks_def)
  qed
qed (use assms in \<open>auto simp: cache_new_job_def\<close>)

lemma update_warming_runs:
  assumes "0 \<le> cache_size cf" and "cache_ok cf js c"
  shows "\<exists>c'. update_warming cf js n c = Inr c' \<and> cache_ok cf js c'"
proof (cases "n \<in> set (cache_warming c)")
  case True
  then obtain k where k: "map_of (cache_warming_counter c) n = Some k"
    using assms(2) by (auto simp: cache_ok_def cache_tracks_def dict_keys_map_of subset_iff)
  let ?c = "c\<lparr>cache_warming_counter := dict_set n (k - 1) (cache_warming_counter c)\<rparr>"
  have d: "distinct (cache_warming c)" "n \<notin> set (cache_contents c)" using True assms(2) by (auto simp: cache_ok_def cache_tracks_def)
  have tr: "cache_tracks js (?c\<lparr>cache_warming := remove1 n (cache_warming c), cache_contents := n # cache_contents c\<rparr>)"
    using assms(2) True d by (auto simp: cache_ok_def cache_tracks_def)
  have "cache_ok cf js ?c" using assms(2) by (auto simp: cache_ok_def cache_tracks_def)
  then show ?thesis
    using True k adjust_size_runs [OF assms(1) tr] by (simp add: update_warming_def dict_get_def Let_def)
qed (use assms in \<open>simp add: update_warming_def\<close>)


text \<open>Only the time left of a job changes in a run.\<close>

definition static :: "jobs \<Rightarrow> string \<Rightarrow> job option" where
  "static js n = map_option (\<lambda>j. j\<lparr>time_left := 0\<rparr>) (map_of js n)"

lemma static_keys: "static js' = static js \<Longrightarrow> dict_keys js' = dict_keys js"
  unfolding set_eq_iff dict_keys_map_of static_def fun_eq_iff by (metis option.map_disc_iff option.exhaust_sel)

lemma static_job:
  assumes "static js' = static js" and "n \<in> dict_keys js"
  shows "affinity (jb js' n) = affinity (jb js n)" and "working_set_size (jb js' n) = working_set_size (jb js n)"
    and "run_time (jb js' n) = run_time (jb js n)"
proof -
  obtain j where j: "map_of js n = Some j" using assms(2) by (auto simp: dict_keys_map_of)
  have "static js' n = Some (j\<lparr>time_left := 0\<rparr>)" using assms(1) j by (simp add: static_def)
  then obtain j' where "map_of js' n = Some j'" "j'\<lparr>time_left := 0\<rparr> = j\<lparr>time_left := 0\<rparr>" by (auto simp: static_def)
  then show "affinity (jb js' n) = affinity (jb js n)" "working_set_size (jb js' n) = working_set_size (jb js n)"
    "run_time (jb js' n) = run_time (jb js n)"
    using j by (cases j, cases j', simp)+
qed

lemma cache_ok_static:
  assumes st: "static js' = static js" and ok: "cache_ok cf js c"
  shows "cache_ok cf js' c"
proof -
  have "wset_sum js' (cache_contents c) = wset_sum js (cache_contents c)"
    unfolding wset_sum_def
    by (rule arg_cong [where f = sum_list], rule map_cong) (use static_job(2) [OF st] ok in \<open>auto simp: cache_ok_def cache_tracks_def\<close>)
  then show ?thesis using ok static_keys [OF st] by (simp add: cache_ok_def cache_tracks_def)
qed

section \<open>Where the jobs are\<close>

definition occupant :: "cpu \<Rightarrow> string list" where
  "occupant u = (if sched_state u = RUNNING then [sched_current u] else [])"

text \<open>The unfinished jobs: those in the queues and those running.\<close>

definition place :: "sched \<Rightarrow> string multiset" where
  "place s = mset (concat (queues s)) + mset (concat (map occupant (cpus s)))"

definition multi_ok :: "conf \<Rightarrow> nat \<Rightarrow> sched \<Rightarrow> bool" where
  "multi_ok cf N s \<longleftrightarrow> length (cpus s) = num_cpus cf \<and> length (queues s) = (if per_cpu_queues cf then num_cpus cf else 1) \<and>
     (\<forall>x. count (place s) x \<le> 1) \<and> set_mset (place s) \<subseteq> dict_keys (jobs s) \<and> size (place s) + jobs_finished s = N \<and>
     (\<forall>c < num_cpus cf. cache_ok cf (jobs s) (cpu_cache (cpus s ! c)) \<and>
       (sched_state (cpus s ! c) = RUNNING \<longrightarrow> runs_on (jb (jobs s) (sched_current (cpus s ! c))) c))"

text \<open>With \<open>H\<close>, every waiting job has a CPU that takes jobs from its queue and that it may run on.\<close>

definition homes :: "bool \<Rightarrow> conf \<Rightarrow> sched \<Rightarrow> bool" where
  "homes H cf s \<longleftrightarrow> (\<forall>q < length (queues s). \<forall>x \<in> set (queues s ! q). H \<longrightarrow> (\<exists>c < num_cpus cf. queue_of cf c = q \<and> runs_on (jb (jobs s) x) c))"

definition work :: "sched \<Rightarrow> nat" where
  "work s = (\<Sum>x \<in># place s. nat (time_left (jb (jobs s) x)) + 1)"

lemma mset_concat_update:
  "i < length xs \<Longrightarrow> mset (concat (xs[i := y])) + mset (xs ! i) = mset (concat xs) + mset y"
proof (induction xs arbitrary: i)
  case (Cons x xs)
  then show ?case by (cases i) (auto simp: ac_simps)
qed simp

lemma place_queue:
  "q < length (queues s) \<Longrightarrow> place (upd_queue q f s) + mset (queues s ! q) = place s + mset (f (queues s ! q))"
  using mset_concat_update [of q "queues s" "f (queues s ! q)"] by (simp add: place_def upd_queue_def ac_simps)

lemma place_cpu:
  "c < length (cpus s) \<Longrightarrow> place (upd_cpu c f s) + mset (occupant (cpus s ! c)) = place s + mset (occupant (f (cpus s ! c)))"
  using mset_concat_update [of c "map occupant (cpus s)" "occupant (f (cpus s ! c))"]
  by (simp add: place_def upd_cpu_def map_update ac_simps)

lemma in_queue_place: "q < length (queues s) \<Longrightarrow> x \<in> set (queues s ! q) \<Longrightarrow> x \<in># place s"
  by (auto simp: place_def)

lemma current_place: "c < length (cpus s) \<Longrightarrow> sched_state (cpus s ! c) = RUNNING \<Longrightarrow> sched_current (cpus s ! c) \<in># place s"
  using nth_mem [of c "cpus s"] by (fastforce simp: place_def occupant_def)

lemma upd_simps [simp]:
  "jobs (upd_queue q f s) = jobs s" "cpus (upd_queue q f s) = cpus s" "length (queues (upd_queue q f s)) = length (queues s)"
  "jobs_finished (upd_queue q f s) = jobs_finished s" "mdraws (upd_queue q f s) = mdraws s" "system_time (upd_queue q f s) = system_time s"
  "jobs (upd_cpu c g s) = jobs s" "queues (upd_cpu c g s) = queues s" "length (cpus (upd_cpu c g s)) = length (cpus s)"
  "jobs_finished (upd_cpu c g s) = jobs_finished s" "mdraws (upd_cpu c g s) = mdraws s" "system_time (upd_cpu c g s) = system_time s"
  by (simp_all add: upd_queue_def upd_cpu_def)

lemma upd_nth:
  "q < length (queues s) \<Longrightarrow> queues (upd_queue q f s) ! i = (if i = q then f (queues s ! q) else queues s ! i)"
  "c < length (cpus s) \<Longrightarrow> cpus (upd_cpu c g s) ! i = (if i = c then g (cpus s ! c) else cpus s ! i)"
  by (simp_all add: upd_queue_def upd_cpu_def nth_list_update)

lemma queue_of_less: "multi_ok cf N s \<Longrightarrow> c < num_cpus cf \<Longrightarrow> queue_of cf c < length (queues s)"
  by (simp add: multi_ok_def queue_of_def)

text \<open>Changes that leave every job where it may be.\<close>

definition moved :: "sched \<Rightarrow> sched \<Rightarrow> bool" where
  "moved s s' \<longleftrightarrow> place s' = place s \<and> jobs s' = jobs s \<and> jobs_finished s' = jobs_finished s \<and> system_time s' = system_time s"

lemma moved_work: "moved s s' \<Longrightarrow> work s' = work s"
  by (simp add: moved_def work_def)

lemma moved_trans: "moved s t \<Longrightarrow> moved t u \<Longrightarrow> moved s u"
  by (simp add: moved_def)

lemma interrupt_ok:
  assumes ok: "multi_ok cf N s" and ho: "homes H cf s" and c: "c < num_cpus cf"
  shows "multi_ok cf N (handle_one_interrupt cf b c s) \<and> homes H cf (handle_one_interrupt cf b c s) \<and> moved s (handle_one_interrupt cf b c s) \<and>
    mdraws (handle_one_interrupt cf b c s) = mdraws s"
proof (cases "b \<and> sched_state (cpus s ! c) = RUNNING")
  case False
  then have "handle_one_interrupt cf b c s = s" unfolding handle_one_interrupt_def by (rule if_not_P)
  then show ?thesis using ok ho by (simp add: moved_def)
next
  case True
  define n where "n = sched_current (cpus s ! c)"
  define s1 where "s1 = upd_cpu c (\<lambda>u. u\<lparr>sched_state := IDLE, sched_current := []\<rparr>) s"
  let ?q = "queue_of cf c"
  define s2 where "s2 = upd_queue ?q (\<lambda>q. q @ [n]) s1"
  have eq: "handle_one_interrupt cf b c s = s2" using True by (simp add: handle_one_interrupt_def s2_def s1_def n_def Let_def)
  have cl: "c < length (cpus s)" using ok c by (simp add: multi_ok_def)
  have q: "?q < length (queues s1)" using queue_of_less [OF ok c] by (simp add: s1_def)
  have "place s1 + {#n#} = place s" using place_cpu [OF cl, of "\<lambda>u. u\<lparr>sched_state := IDLE, sched_current := []\<rparr>"] True
    by (simp add: s1_def occupant_def n_def)
  moreover have "place s2 + mset (queues s1 ! ?q) = place s1 + mset (queues s1 ! ?q) + {#n#}"
    using place_queue [OF q, of "\<lambda>q. q @ [n]"] by (simp add: s2_def)
  ultimately have pl: "place s2 = place s" by (simp add: ac_simps)
  have mv: "moved s s2" using pl by (simp add: moved_def s2_def s1_def)
  have run: "runs_on (jb (jobs s) n) c" using ok c True by (simp add: multi_ok_def n_def)
  have ok2: "multi_ok cf N s2"
    using ok pl cl by (auto simp: multi_ok_def s2_def s1_def upd_nth)
  have "homes H cf s2"
    unfolding homes_def
  proof (rule allI, rule impI, rule ballI)
    fix k x assume k: "k < length (queues s2)" and x: "x \<in> set (queues s2 ! k)"
    have "x = n \<and> k = ?q \<or> x \<in> set (queues s ! k)" using x q by (auto simp: s2_def s1_def upd_nth split: if_splits)
    moreover have "k < length (queues s)" "jobs s2 = jobs s" using k by (simp_all add: s2_def s1_def)
    ultimately show "H \<longrightarrow> (\<exists>c < num_cpus cf. queue_of cf c = k \<and> runs_on (jb (jobs s2) x) c)"
      using ho run c unfolding homes_def by metis
  qed
  then show ?thesis using ok2 mv by (simp add: eq s2_def s1_def)
qed


lemma interrupts_ok:
  assumes ok: "multi_ok cf N s" and ho: "homes H cf s" and ts: "time_slice cf \<noteq> 0"
  shows "\<exists>s'. handle_interrupts cf s = Inr s' \<and> multi_ok cf N s' \<and> homes H cf s' \<and> moved s s' \<and> mdraws s' = mdraws s"
proof -
  have "\<forall>c \<in> set cs. c < num_cpus cf \<Longrightarrow> multi_ok cf N s \<Longrightarrow> homes H cf s \<Longrightarrow>
    multi_ok cf N (fold (handle_one_interrupt cf b) cs s) \<and> homes H cf (fold (handle_one_interrupt cf b) cs s) \<and>
    moved s (fold (handle_one_interrupt cf b) cs s) \<and> mdraws (fold (handle_one_interrupt cf b) cs s) = mdraws s" for b cs s
  proof (induction cs arbitrary: s)
    case (Cons c cs)
    have c: "c < num_cpus cf" using Cons.prems(1) by simp
    note one = interrupt_ok [OF Cons.prems(2,3) c, of b]
    show ?case using Cons.IH [of "handle_one_interrupt cf b c s"] one Cons.prems(1) moved_trans by fastforce
  qed (simp add: moved_def)
  from this [of "[0..<num_cpus cf]"] show ?thesis using ok ho ts by (simp add: handle_interrupts_def)
qed

lemma find_job_runs:
  "set ns \<subseteq> dict_keys js \<Longrightarrow> \<exists>r. find_job js c ns = Inr r \<and> (r = None \<longrightarrow> (\<forall>x \<in> set ns. \<not> runs_on (jb js x) c)) \<and>
    (\<forall>n. r = Some n \<longrightarrow> n \<in> set ns \<and> runs_on (jb js n) c)"
proof (induction ns)
  case (Cons n ns)
  then have "n \<in> dict_keys js" by simp
  then obtain j where "map_of js n = Some j" by (auto simp: dict_keys_map_of)
  then show ?case using Cons by (auto simp: dict_get_def)
qed simp

lemma queue_keys: "multi_ok cf N s \<Longrightarrow> q < length (queues s) \<Longrightarrow> set (queues s ! q) \<subseteq> dict_keys (jobs s)"
  unfolding multi_ok_def by (meson in_queue_place subset_iff)

text \<open>After a CPU looked for a job, it runs one or its queue has none for it.\<close>

definition served :: "conf \<Rightarrow> sched \<Rightarrow> nat \<Rightarrow> bool" where
  "served cf s c \<longleftrightarrow> sched_state (cpus s ! c) = RUNNING \<or> (\<forall>x \<in> set (queues s ! queue_of cf c). \<not> runs_on (jb (jobs s) x) c)"

lemma get_job_ok:
  assumes ok: "multi_ok cf N s" and ho: "homes H cf s" and c: "c < num_cpus cf" and idle: "sched_state (cpus s ! c) = IDLE"
    and size: "0 \<le> cache_size cf"
  shows "\<exists>s'. get_job cf c s = Inr s' \<and> multi_ok cf N s' \<and> homes H cf s' \<and> moved s s' \<and> mdraws s' = mdraws s \<and>
    served cf s' c \<and> (\<forall>d < num_cpus cf. served cf s d \<longrightarrow> served cf s' d)"
proof -
  let ?q = "queue_of cf c"
  have q: "?q < length (queues s)" using queue_of_less [OF ok c] .
  have cl: "c < length (cpus s)" using ok c by (simp add: multi_ok_def)
  obtain r where r: "find_job (jobs s) c (queues s ! ?q) = Inr r" "r = None \<longrightarrow> (\<forall>x \<in> set (queues s ! ?q). \<not> runs_on (jb (jobs s) x) c)"
    "\<forall>n. r = Some n \<longrightarrow> n \<in> set (queues s ! ?q) \<and> runs_on (jb (jobs s) n) c"
    using find_job_runs [OF queue_keys [OF ok q]] by blast
  show ?thesis
  proof (cases r)
    case None
    then show ?thesis using r ok ho by (simp add: get_job_def moved_def served_def)
  next
    case (Some n)
    then have n: "n \<in> set (queues s ! ?q)" "runs_on (jb (jobs s) n) c" using r by auto
    have cok: "cache_ok cf (jobs s) (cpu_cache (cpus s ! c))" using ok c by (simp add: multi_ok_def)
    have nk: "n \<in> dict_keys (jobs s)" using n(1) queue_keys [OF ok q] by blast
    obtain ca where ca: "cache_new_job cf (jobs s) n (cpu_cache (cpus s ! c)) = Inr ca" "cache_ok cf (jobs s) ca"
      using cache_new_job_runs [OF size cok nk] by blast
    define s1 where "s1 = upd_queue ?q (remove1 n) s"
    define s2 where "s2 = upd_cpu c (\<lambda>u. u\<lparr>sched_state := RUNNING, sched_current := n, cpu_cache := ca\<rparr>) s1"
    have run: "get_job cf c s = Inr s2" using r(1) Some ca(1) by (simp add: get_job_def s2_def s1_def)
    define R where "R = mset (queues s ! ?q) - {#n#}"
    have R: "mset (queues s ! ?q) = add_mset n R" using n(1) by (simp add: R_def)
    have "place s1 + mset (queues s ! ?q) = place s + (mset (queues s ! ?q) - {#n#})"
      using place_queue [OF q, of "remove1 n"] by (simp add: s1_def)
    then have "place s1 + {#n#} = place s" unfolding R by simp
    moreover have "place s2 = place s1 + {#n#}"
      using place_cpu [of c s1 "\<lambda>u. u\<lparr>sched_state := RUNNING, sched_current := n, cpu_cache := ca\<rparr>"] cl idle
      by (simp add: s2_def s1_def occupant_def)
    ultimately have pl: "place s2 = place s" by simp
    have mv: "moved s s2" using pl by (simp add: moved_def s2_def s1_def)
    have qs: "queues s2 ! k = (if k = ?q then remove1 n (queues s ! ?q) else queues s ! k)" for k
      using q by (simp add: s2_def s1_def upd_nth)
    have cs: "cpus s2 ! d = (if d = c then (cpus s ! c)\<lparr>sched_state := RUNNING, sched_current := n, cpu_cache := ca\<rparr> else cpus s ! d)" for d
      using cl by (simp add: s2_def s1_def upd_nth)
    have js: "jobs s2 = jobs s" "length (cpus s2) = length (cpus s)" "length (queues s2) = length (queues s)" "jobs_finished s2 = jobs_finished s"
      by (simp_all add: s2_def s1_def)
    have sub: "set (queues s2 ! k) \<subseteq> set (queues s ! k)" for k using qs by (simp add: set_remove1_subset)
    have ok2: "multi_ok cf N s2" using ok unfolding multi_ok_def js pl using cs ca(2) n(2) by auto
    have ho2: "homes H cf s2" using ho sub unfolding homes_def js by (meson subsetD)
    have sc: "served cf s2 c" by (simp add: served_def cs)
    have sd: "served cf s2 d" if "served cf s d" for d
      using that sub unfolding served_def js cs by (auto split: if_splits)
    show ?thesis using run ok2 ho2 mv sc sd by (auto simp: s2_def s1_def)
  qed
qed

lemma shuffle_from_perm:
  "i < length xs \<Longrightarrow> i \<le> length ds \<Longrightarrow> \<forall>k \<in> set ds. valid_draw k \<Longrightarrow>
   \<exists>ys. shuffle_from i xs ds = Inr (ys, drop i ds) \<and> mset ys = mset xs"
proof (induction i arbitrary: xs ds)
  case (Suc i)
  obtain k ds' where ds: "ds = k # ds'" using Suc.prems(2) by (cases ds) auto
  let ?j = "pick k (Suc (Suc i))"
  have "?j < Suc (Suc i)" using Suc.prems(3) ds by (intro pick_less) auto
  then have j: "?j < length xs" using Suc.prems(1) by simp
  let ?xs = "xs[Suc i := xs ! ?j, ?j := xs ! Suc i]"
  have m: "mset ?xs = mset xs" by (rule mset_swap [OF j Suc.prems(1)])
  obtain ys where "shuffle_from i ?xs ds' = Inr (ys, drop i ds')" "mset ys = mset ?xs"
    using Suc.IH [of ?xs ds'] Suc.prems ds by auto
  then show ?case using m ds by (simp add: Let_def)
qed simp

lemma assign_jobs_ok:
  assumes ok: "multi_ok cf N s" and ho: "homes H cf s" and size: "0 \<le> cache_size cf" and n: "0 < num_cpus cf"
    and ds: "num_cpus cf \<le> length (mdraws s)" "\<forall>k \<in> set (mdraws s). valid_draw k"
  shows "\<exists>s'. assign_jobs cf s = Inr s' \<and> multi_ok cf N s' \<and> homes H cf s' \<and> moved s s' \<and>
    length (mdraws s) \<le> length (mdraws s') + num_cpus cf \<and> set (mdraws s') \<subseteq> set (mdraws s) \<and> (\<forall>c < num_cpus cf. served cf s' c)"
proof -
  obtain cl ds' where cl: "(if random_order cf then py_shuffle [0..<num_cpus cf] (mdraws s) else Inr ([0..<num_cpus cf], mdraws s)) = Inr (cl, ds')"
    "set cl = {0..<num_cpus cf}" "length (mdraws s) \<le> length ds' + num_cpus cf" "set ds' \<subseteq> set (mdraws s)"
  proof (cases "random_order cf")
    case True
    have "num_cpus cf - 1 < length [0..<num_cpus cf]" "num_cpus cf - 1 \<le> length (mdraws s)" using n ds(1) by simp_all
    from shuffle_from_perm [OF this ds(2)] obtain ys where
      "shuffle_from (num_cpus cf - 1) [0..<num_cpus cf] (mdraws s) = Inr (ys, drop (num_cpus cf - 1) (mdraws s))" "mset ys = mset [0..<num_cpus cf]"
      by blast
    moreover have "set ys = {0..<num_cpus cf}" using calculation(2) by (metis mset_eq_setD set_upt)
    moreover have "length (mdraws s) \<le> length (drop (num_cpus cf - 1) (mdraws s)) + num_cpus cf" by simp
    moreover have "set (drop (num_cpus cf - 1) (mdraws s)) \<subseteq> set (mdraws s)" by (rule set_drop_subset)
    ultimately show ?thesis using True that [of ys "drop (num_cpus cf - 1) (mdraws s)"] by (simp add: py_shuffle_def)
  qed (use that in auto)
  have loop: "\<exists>s'. rfold (\<lambda>c s. if sched_state (cpus s ! c) = IDLE then get_job cf c s else Inr s) cs t = Inr s' \<and>
      multi_ok cf N s' \<and> homes H cf s' \<and> moved t s' \<and> mdraws s' = mdraws t \<and> (\<forall>c \<in> set cs. served cf s' c) \<and>
      (\<forall>c < num_cpus cf. served cf t c \<longrightarrow> served cf s' c)"
    if "\<forall>c \<in> set cs. c < num_cpus cf" "multi_ok cf N t" "homes H cf t" for cs t
    using that
  proof (induction cs arbitrary: t)
    case (Cons c cs)
    have c: "c < num_cpus cf" using Cons.prems(1) by simp
    have "\<exists>t'. (if sched_state (cpus t ! c) = IDLE then get_job cf c t else Inr t) = Inr t' \<and> multi_ok cf N t' \<and> homes H cf t' \<and> moved t t' \<and>
        mdraws t' = mdraws t \<and> served cf t' c \<and> (\<forall>d < num_cpus cf. served cf t d \<longrightarrow> served cf t' d)"
    proof (cases "sched_state (cpus t ! c) = IDLE")
      case True
      then show ?thesis using get_job_ok [OF Cons.prems(2,3) c True size] by simp
    next
      case False
      then have "sched_state (cpus t ! c) = RUNNING" by (cases "sched_state (cpus t ! c)") auto
      then show ?thesis using Cons.prems by (simp add: moved_def served_def)
    qed
    then obtain t' where t': "(if sched_state (cpus t ! c) = IDLE then get_job cf c t else Inr t) = Inr t'" "multi_ok cf N t'" "homes H cf t'"
      "moved t t'" "mdraws t' = mdraws t" "served cf t' c" "\<forall>d < num_cpus cf. served cf t d \<longrightarrow> served cf t' d"
      by blast
    obtain s' where s': "rfold (\<lambda>c s. if sched_state (cpus s ! c) = IDLE then get_job cf c s else Inr s) cs t' = Inr s'"
      "multi_ok cf N s'" "homes H cf s'" "moved t' s'" "mdraws s' = mdraws t'" "\<forall>c \<in> set cs. served cf s' c"
      "\<forall>c < num_cpus cf. served cf t' c \<longrightarrow> served cf s' c"
      using Cons.IH [OF _ t'(2,3)] Cons.prems(1) by auto
    have "rfold (\<lambda>c s. if sched_state (cpus s ! c) = IDLE then get_job cf c s else Inr s) (c # cs) t = Inr s'"
      using t'(1) s'(1) by simp
    moreover have "moved t s'" using moved_trans t'(4) s'(4) by blast
    ultimately show ?case using s' t' c by auto
  qed (simp add: moved_def)
  let ?s = "s\<lparr>mdraws := ds'\<rparr>"
  have pl: "place ?s = place s" by (simp add: place_def)
  have ok': "multi_ok cf N ?s" "homes H cf ?s" "moved s ?s" using ok ho by (simp_all add: multi_ok_def homes_def moved_def pl)
  obtain s' where "rfold (\<lambda>c s. if sched_state (cpus s ! c) = IDLE then get_job cf c s else Inr s) cl ?s = Inr s'"
      "multi_ok cf N s'" "homes H cf s'" "moved ?s s'" "mdraws s' = ds'" "\<forall>c \<in> set cl. served cf s' c"
    using loop [OF _ ok'(1,2), of cl] cl(2) by auto
  then show ?thesis using cl ok'(3) moved_trans by (auto simp: assign_jobs_def)
qed


text \<open>Stealing is harmless without affinities; with them the test on the tuple may move a job where it cannot run.\<close>

definition calm :: "bool \<Rightarrow> conf \<Rightarrow> jobs \<Rightarrow> bool" where
  "calm H cf js \<longleftrightarrow> \<not> per_cpu_queues cf \<or> peek_interval cf \<le> 0 \<or> 2 \<le> num_cpus cf \<and> (H \<longrightarrow> (\<forall>x \<in> dict_keys js. affinity (jb js x) = []))"

lemma find_steal_runs:
  "set ns \<subseteq> dict_keys js \<Longrightarrow> \<exists>r. find_steal js c ns = Inr r \<and> (\<forall>n. r = Some n \<longrightarrow> n \<in> set ns)"
proof (induction ns)
  case (Cons n ns)
  then have "n \<in> dict_keys js" by simp
  then obtain j where "map_of js n = Some j" by (auto simp: dict_keys_map_of)
  then show ?case using Cons by (auto simp: dict_get_def)
qed simp

lemma steal_for_ok:
  assumes ok: "multi_ok cf N s" and ho: "homes H cf s" and per: "per_cpu_queues cf" and n: "2 \<le> num_cpus cf"
    and free: "H \<Longrightarrow> \<forall>x \<in> dict_keys (jobs s). affinity (jb (jobs s) x) = []" and c: "c < num_cpus cf"
    and ds: "mdraws s \<noteq> []" "\<forall>k \<in> set (mdraws s). valid_draw k"
  shows "\<exists>s'. steal_for cf c s = Inr s' \<and> multi_ok cf N s' \<and> homes H cf s' \<and> moved s s' \<and>
    length (mdraws s) \<le> length (mdraws s') + 1 \<and> set (mdraws s') \<subseteq> set (mdraws s)"
proof (cases "queues s ! c = []")
  case False
  then show ?thesis using ok ho by (simp add: steal_for_def moved_def)
next
  case True
  let ?others = "remove1 c [0..<num_cpus cf]"
  obtain k ds' where k: "mdraws s = k # ds'" using ds(1) by (cases "mdraws s") auto
  have len: "length ?others = num_cpus cf - 1" using c by (simp add: length_remove1)
  then have "?others \<noteq> []" using n by auto
  then have p: "pick k (length ?others) < length ?others" using ds(2) k by (intro pick_less) auto
  define other where "other = ?others ! pick k (length ?others)"
  have "other \<in> set ?others" unfolding other_def by (rule nth_mem [OF p])
  then have o: "other < num_cpus cf" "other \<noteq> c" by auto
  have ch: "py_choice ?others (mdraws s) = Inr (other, ds')" using \<open>?others \<noteq> []\<close> k by (simp add: py_choice_def other_def)
  define s0 where "s0 = s\<lparr>mdraws := ds'\<rparr>"
  have s0: "place s0 = place s" "jobs s0 = jobs s" "queues s0 = queues s" "cpus s0 = cpus s" "jobs_finished s0 = jobs_finished s"
    "system_time s0 = system_time s" "mdraws s0 = ds'"
    by (simp_all add: s0_def place_def)
  have ok0: "multi_ok cf N s0" "homes H cf s0" using ok ho by (simp_all add: multi_ok_def homes_def s0)
  have ql: "other < length (queues s0)" "c < length (queues s0)" using ok0(1) o c per by (simp_all add: multi_ok_def)
  obtain r where r: "find_steal (jobs s0) c (queues s0 ! other) = Inr r" "\<forall>n. r = Some n \<longrightarrow> n \<in> set (queues s0 ! other)"
    using find_steal_runs [OF queue_keys [OF ok0(1) ql(1)]] by blast
  show ?thesis
  proof (cases r)
    case None
    then show ?thesis using True ch r ok0 s0 k by (auto simp: steal_for_def moved_def s0_def [symmetric] Let_def)
  next
    case (Some m)
    define s1 where "s1 = upd_queue other (remove1 m) s0"
    define s2 where "s2 = upd_queue c (\<lambda>q. q @ [m]) s1"
    have m: "m \<in> set (queues s0 ! other)" using r Some by simp
    have run: "steal_for cf c s = Inr s2" using True ch r(1) Some s0(2,3) by (simp add: steal_for_def s0_def [symmetric] s1_def s2_def Let_def)
    define R where "R = mset (queues s0 ! other) - {#m#}"
    have R: "mset (queues s0 ! other) = add_mset m R" using m by (simp add: R_def)
    have "place s1 + mset (queues s0 ! other) = place s0 + (mset (queues s0 ! other) - {#m#})"
      using place_queue [OF ql(1), of "remove1 m"] by (simp add: s1_def)
    then have "add_mset m (place s1) = place s0" unfolding R by simp
    moreover have "place s2 + mset (queues s1 ! c) = place s1 + mset (queues s1 ! c) + {#m#}"
      using place_queue [of c s1 "\<lambda>q. q @ [m]"] ql by (simp add: s2_def s1_def)
    ultimately have pl: "place s2 = place s" using s0 by (simp add: ac_simps)
    have js: "jobs s2 = jobs s" "cpus s2 = cpus s" "length (queues s2) = length (queues s)" "jobs_finished s2 = jobs_finished s"
      "mdraws s2 = ds'" "system_time s2 = system_time s"
      by (simp_all add: s2_def s1_def s0)
    have qs: "queues s2 ! i = (if i = c then queues s ! c @ [m] else if i = other then remove1 m (queues s ! other) else queues s ! i)" for i
      using ql o by (simp add: s2_def s1_def upd_nth s0)
    have mk: "m \<in> dict_keys (jobs s)" using m queue_keys [OF ok0(1) ql(1)] s0 by auto
    have "multi_ok cf N s2" using ok unfolding multi_ok_def js pl .
    moreover have "homes H cf s2"
      unfolding homes_def js
    proof (rule allI, rule impI, rule ballI)
      fix q x assume q: "q < length (queues s)" and x: "x \<in> set (queues s2 ! q)"
      have "x \<in> dict_keys (jobs s)" using x q queue_keys [OF ok q] queue_keys [OF ok, of other] ql mk s0 set_remove1_subset [of m "queues s ! other"]
          queue_keys [OF ok, of c]
        by (auto simp: qs split: if_splits)
      then have "H \<longrightarrow> affinity (jb (jobs s) x) = []" using free by blast
      moreover have "q < num_cpus cf" using q ok per by (simp add: multi_ok_def)
      ultimately show "H \<longrightarrow> (\<exists>c < num_cpus cf. queue_of cf c = q \<and> runs_on (jb (jobs s) x) c)"
        using per by (auto simp: queue_of_def runs_on_def)
    qed
    moreover have "moved s s2" using pl js by (simp add: moved_def)
    ultimately show ?thesis using run js k by auto
  qed
qed

lemma steal_jobs_ok:
  assumes ok: "multi_ok cf N s" and ho: "homes H cf s" and calm: "calm H cf (jobs s)"
    and ds: "num_cpus cf \<le> length (mdraws s)" "\<forall>k \<in> set (mdraws s). valid_draw k"
  shows "\<exists>s'. steal_jobs cf s = Inr s' \<and> multi_ok cf N s' \<and> homes H cf s' \<and> moved s s' \<and>
    length (mdraws s) \<le> length (mdraws s') + num_cpus cf \<and> set (mdraws s') \<subseteq> set (mdraws s)"
proof (cases "per_cpu_queues cf \<and> 0 < peek_interval cf \<and> system_time s > 0 \<and> system_time s mod peek_interval cf = 0")
  case False
  then have "steal_jobs cf s = Inr s" by (auto simp: steal_jobs_def)
  then show ?thesis using ok ho by (simp add: moved_def)
next
  case True
  then have n: "2 \<le> num_cpus cf" and free: "H \<longrightarrow> (\<forall>x \<in> dict_keys (jobs s). affinity (jb (jobs s) x) = [])" using calm by (auto simp: calm_def)
  have "j \<le> num_cpus cf \<Longrightarrow> \<exists>s'. rfold (steal_for cf) [0..<j] s = Inr s' \<and> multi_ok cf N s' \<and> homes H cf s' \<and> moved s s' \<and>
    length (mdraws s) \<le> length (mdraws s') + j \<and> set (mdraws s') \<subseteq> set (mdraws s)" for j
  proof (induction j)
    case (Suc j)
    obtain t where t: "rfold (steal_for cf) [0..<j] s = Inr t" "multi_ok cf N t" "homes H cf t" "moved s t"
      "length (mdraws s) \<le> length (mdraws t) + j" "set (mdraws t) \<subseteq> set (mdraws s)"
      using Suc.IH [OF Suc_leD [OF Suc.prems]] by blast
    have free': "H \<Longrightarrow> \<forall>x \<in> dict_keys (jobs t). affinity (jb (jobs t) x) = []" using free t(4) by (simp add: moved_def)
    have j: "j < num_cpus cf" using Suc.prems by simp
    have "0 < length (mdraws t)" using t(5) ds(1) j by linarith
    then have ne: "mdraws t \<noteq> []" by simp
    have va: "\<forall>k \<in> set (mdraws t). valid_draw k" using t(6) ds(2) by blast
    obtain s' where "steal_for cf j t = Inr s'" "multi_ok cf N s'" "homes H cf s'" "moved t s'" "length (mdraws t) \<le> length (mdraws s') + 1"
      "set (mdraws s') \<subseteq> set (mdraws t)"
      using steal_for_ok [OF t(2,3) _ n free' j ne va] True by blast
    then show ?case using t moved_trans by (auto simp: rfold_append)
  qed (use ok ho in \<open>simp add: moved_def\<close>)
  from this [of "num_cpus cf"] show ?thesis using True by (simp add: steal_jobs_def)
qed

text \<open>A tick of a CPU brings its job nearer to its end.\<close>

lemma run_one_tick_ok:
  assumes ok: "multi_ok cf N s" and ho: "homes H cf s" and c: "c < num_cpus cf" and run: "sched_state (cpus s ! c) = RUNNING"
    and size: "0 \<le> cache_size cf" and rates: "1 \<le> cache_rate_cold cf" "1 \<le> cache_rate_warm cf"
  shows "\<exists>s'. run_one_tick cf c s = Inr s' \<and> multi_ok cf N s' \<and> homes H cf s' \<and> static (jobs s') = static (jobs s) \<and>
    mdraws s' = mdraws s \<and> system_time s' = system_time s \<and> work s' < work s \<and>
    (\<forall>d. d \<noteq> c \<longrightarrow> sched_state (cpus s' ! d) = sched_state (cpus s ! d))"
proof -
  have cl: "c < length (cpus s)" using ok c by (simp add: multi_ok_def)
  define n where "n = sched_current (cpus s ! c)"
  define rate where "rate = get_rate cf (cpu_cache (cpus s ! c)) n"
  have rate: "1 \<le> rate" using rates by (simp add: rate_def get_rate_def)
  have n: "n \<in># place s" using current_place [OF cl run] by (simp add: n_def)
  then have "n \<in> dict_keys (jobs s)" using ok by (auto simp: multi_ok_def)
  then obtain j where j: "map_of (jobs s) n = Some j" by (auto simp: dict_keys_map_of)
  define left where "left = max 0 (time_left j - rate)"
  obtain P where P: "place s = add_mset n P" using n by (metis mset_add)
  have "count (place s) n \<le> 1" using ok by (simp add: multi_ok_def)
  then have nP: "n \<notin># P" using P by (simp add: not_in_iff)
  have cok: "cache_ok cf (jobs s) (cpu_cache (cpus s ! c))" using ok c by (simp add: multi_ok_def)
  obtain ca where ca: "update_warming cf (jobs s) n (cpu_cache (cpus s ! c)) = Inr ca" "cache_ok cf (jobs s) ca"
    using update_warming_runs [OF size cok] by blast
  define js where "js = dict_set n (j\<lparr>time_left := left\<rparr>) (jobs s)"
  have jn: "map_of js x = (if x = n then Some (j\<lparr>time_left := left\<rparr>) else map_of (jobs s) x)" for x
    by (simp add: js_def)
  have st: "static js = static (jobs s)" by (rule ext) (simp add: static_def jn j)
  have sums: "(\<Sum>x \<in># P. nat (time_left (jb js x)) + 1) = (\<Sum>x \<in># P. nat (time_left (jb (jobs s) x)) + 1)"
    by (rule arg_cong [where f = sum_mset], rule image_mset_cong) (use nP in \<open>auto simp: jn\<close>)
  have ws: "work s = nat (time_left j) + 1 + (\<Sum>x \<in># P. nat (time_left (jb (jobs s) x)) + 1)" by (simp add: work_def P j)
  have keys: "dict_keys js = dict_keys (jobs s)" by (rule static_keys [OF st])
  have runs: "runs_on (jb js x) d = runs_on (jb (jobs s) x) d" if "x \<in> dict_keys (jobs s)" for x d
    using static_job(1) [OF st that] by (simp add: runs_on_def)
  define f where "f = (\<lambda>u::cpu. u\<lparr>stats_ran := stats_ran u + 1, stats_ran_warm := stats_ran_warm u + (if rate > 1 then 1 else 0), cpu_cache := ca\<rparr>)"
  have f: "sched_state (f u) = sched_state u" "sched_current (f u) = sched_current u" "cpu_cache (f u) = ca" "occupant (f u) = occupant u" for u
    by (simp_all add: f_def occupant_def)
  define s1 where "s1 = upd_cpu c f (s\<lparr>jobs := js\<rparr>)"
  have js1: "jobs s1 = js" "queues s1 = queues s" "length (cpus s1) = length (cpus s)" "jobs_finished s1 = jobs_finished s"
    "mdraws s1 = mdraws s" "system_time s1 = system_time s"
    by (simp_all add: s1_def)
  have cs1: "cpus s1 ! d = (if d = c then f (cpus s ! c) else cpus s ! d)" for d
    using cl by (simp add: s1_def upd_nth)
  have pj: "place (s\<lparr>jobs := js\<rparr>) = place s" by (simp add: place_def)
  have pl1: "place s1 = place s"
    using place_cpu [of c "s\<lparr>jobs := js\<rparr>" f] cl pj by (simp add: s1_def f)
  have homes1: "homes H cf t" if "queues t = queues s" "jobs t = js" for t
    unfolding homes_def that
  proof (rule allI, rule impI, rule ballI)
    fix q x assume q: "q < length (queues s)" and x: "x \<in> set (queues s ! q)"
    have "x \<in> dict_keys (jobs s)" using queue_keys [OF ok q] x by blast
    then show "H \<longrightarrow> (\<exists>c < num_cpus cf. queue_of cf c = q \<and> runs_on (jb js x) c)" using ho q x runs unfolding homes_def by metis
  qed
  have cur: "sched_current (cpus s ! d) \<in> dict_keys (jobs s)" if "d < num_cpus cf" "sched_state (cpus s ! d) = RUNNING" for d
  proof -
    have "sched_current (cpus s ! d) \<in># place s" using current_place [of d s] that ok by (simp add: multi_ok_def)
    then show ?thesis using ok by (auto simp: multi_ok_def)
  qed
  have caches: "cache_ok cf js (cpu_cache (cpus s1 ! d))" if "d < num_cpus cf" for d
    using cache_ok_static [OF st] ca(2) ok that by (auto simp: cs1 f multi_ok_def)
  have on: "runs_on (jb js (sched_current (cpus s1 ! d))) d" if "d < num_cpus cf" "sched_state (cpus s1 ! d) = RUNNING" for d
  proof -
    have "sched_state (cpus s ! d) = RUNNING" "sched_current (cpus s1 ! d) = sched_current (cpus s ! d)"
      using that(2) by (auto simp: cs1 f split: if_splits)
    then show ?thesis using runs [OF cur [OF that(1)]] ok that(1) by (simp add: multi_ok_def)
  qed
  have get: "dict_get (jobs s) n = Inr j" using j by (simp add: dict_get_def)
  have eq: "run_one_tick cf c s = (if left \<le> 0
      then Inr (upd_cpu c (\<lambda>u. u\<lparr>sched_state := IDLE, sched_current := []\<rparr>) (s1\<lparr>jobs_finished := jobs_finished s1 + 1\<rparr>)) else Inr s1)"
    unfolding run_one_tick_def Let_def n_def [symmetric] rate_def [symmetric] get rbind_Inr left_def [symmetric] ca(1) js_def [symmetric]
      f_def [symmetric] s1_def [symmetric] ..
  show ?thesis
  proof (cases "left \<le> 0")
    case False
    have "left < time_left j" "0 < left" using False rate by (auto simp: left_def)
    then have "nat left < nat (time_left j)" by simp
    moreover have "work s1 = nat left + 1 + (\<Sum>x \<in># P. nat (time_left (jb (jobs s) x)) + 1)"
      using sums by (simp add: work_def pl1 js1 P jn)
    ultimately have "work s1 < work s" unfolding ws by linarith
    moreover have "multi_ok cf N s1"
      using ok caches on unfolding multi_ok_def pl1 js1 keys by blast
    ultimately show ?thesis using False eq homes1 [OF js1(2,1)] st js1 cs1 f by auto
  next
    case True
    let ?g = "\<lambda>u. u\<lparr>sched_state := IDLE, sched_current := []\<rparr>"
    define s2 where "s2 = upd_cpu c ?g (s1\<lparr>jobs_finished := jobs_finished s1 + 1\<rparr>)"
    have eq2: "run_one_tick cf c s = Inr s2" using True eq by (simp add: s2_def)
    have pf: "place (s1\<lparr>jobs_finished := jobs_finished s1 + 1\<rparr>) = place s" using pl1 by (simp add: place_def)
    have "place s2 + {#n#} = place s"
      using place_cpu [of c "s1\<lparr>jobs_finished := jobs_finished s1 + 1\<rparr>" ?g] cl pf run js1 cs1 f by (simp add: s2_def occupant_def n_def)
    then have pl2: "place s2 = P" using P by simp
    have js2: "jobs s2 = js" "queues s2 = queues s" "length (cpus s2) = length (cpus s)" "jobs_finished s2 = jobs_finished s + 1"
      "mdraws s2 = mdraws s" "system_time s2 = system_time s"
      using js1 by (simp_all add: s2_def)
    have cs2: "cpus s2 ! d = (if d = c then ?g (cpus s1 ! c) else cpus s1 ! d)" for d
      using cl js1 by (simp add: s2_def upd_nth)
    have "work s2 = (\<Sum>x \<in># P. nat (time_left (jb (jobs s) x)) + 1)" using sums by (simp add: work_def pl2 js2)
    then have "work s2 < work s" unfolding ws by linarith
    moreover have "count P x \<le> 1" for x
    proof -
      have "count (place s) x \<le> 1" using ok by (simp add: multi_ok_def)
      then show ?thesis unfolding P by (simp split: if_splits)
    qed
    moreover have "set_mset P \<subseteq> dict_keys js" using ok unfolding keys multi_ok_def P by simp
    moreover have "size P + (jobs_finished s + 1) = N" using ok unfolding multi_ok_def P by simp
    moreover have "cache_ok cf js (cpu_cache (cpus s2 ! d))" "sched_state (cpus s2 ! d) = RUNNING \<longrightarrow> runs_on (jb js (sched_current (cpus s2 ! d))) d"
      if "d < num_cpus cf" for d
      using caches [OF that] on [OF that] by (auto simp: cs2 f)
    ultimately have "work s2 < work s" "multi_ok cf N s2" using ok unfolding multi_ok_def pl2 js2 by auto
    then show ?thesis using eq2 homes1 [OF js2(2,1)] st js2 cs1 cs2 f by auto
  qed
qed

lemma run_jobs_ok:
  assumes size: "0 \<le> cache_size cf" and rates: "1 \<le> cache_rate_cold cf" "1 \<le> cache_rate_warm cf"
    and ok: "multi_ok cf N s" and ho: "homes H cf s"
  shows "\<exists>s'. run_jobs cf s = Inr s' \<and> multi_ok cf N s' \<and> homes H cf s' \<and> static (jobs s') = static (jobs s) \<and>
    mdraws s' = mdraws s \<and> system_time s' = system_time s \<and> work s' \<le> work s \<and>
    ((\<exists>c < num_cpus cf. sched_state (cpus s ! c) = RUNNING) \<longrightarrow> work s' < work s)"
proof -
  let ?f = "\<lambda>c s. if sched_state (cpus s ! c) = RUNNING then run_one_tick cf c s else Inr s"
  have "\<forall>c \<in> set cs. c < num_cpus cf \<Longrightarrow> multi_ok cf N s \<Longrightarrow> homes H cf s \<Longrightarrow>
    \<exists>s'. rfold ?f cs s = Inr s' \<and> multi_ok cf N s' \<and> homes H cf s' \<and> static (jobs s') = static (jobs s) \<and>
      mdraws s' = mdraws s \<and> system_time s' = system_time s \<and> work s' \<le> work s \<and>
      ((\<exists>c \<in> set cs. sched_state (cpus s ! c) = RUNNING) \<longrightarrow> work s' < work s)" for cs s
  proof (induction cs arbitrary: s)
    case (Cons c cs)
    have c: "c < num_cpus cf" "\<forall>c \<in> set cs. c < num_cpus cf" using Cons.prems(1) by simp_all
    show ?case
    proof (cases "sched_state (cpus s ! c) = RUNNING")
      case True
      obtain t where t: "run_one_tick cf c s = Inr t" "multi_ok cf N t" "homes H cf t" "static (jobs t) = static (jobs s)"
        "mdraws t = mdraws s" "system_time t = system_time s" "work t < work s"
        using run_one_tick_ok [OF Cons.prems(2,3) c(1) True size rates] by blast
      obtain s' where s': "rfold ?f cs t = Inr s'" "multi_ok cf N s'" "homes H cf s'" "static (jobs s') = static (jobs t)"
        "mdraws s' = mdraws t" "system_time s' = system_time t" "work s' \<le> work t"
        using Cons.IH [OF c(2) t(2,3)] by blast
      then show ?thesis using True t by auto
    next
      case False
      then show ?thesis using Cons.IH [OF c(2) Cons.prems(2,3)] by auto
    qed
  qed simp
  from this [of "[0..<num_cpus cf]" s] show ?thesis using ok ho by (simp add: run_jobs_def Bex_def)
qed

text \<open>A tick never fails and leaves each unfinished job in one place; while a job is left, it brings the end nearer.\<close>

definition sane :: "conf \<Rightarrow> bool" where
  "sane cf \<longleftrightarrow> time_slice cf \<noteq> 0 \<and> 0 \<le> cache_size cf \<and> 1 \<le> cache_rate_cold cf \<and> 1 \<le> cache_rate_warm cf \<and> 0 < num_cpus cf"

lemma calm_static:
  assumes "static js' = static js" and "calm H cf js"
  shows "calm H cf js'"
  using assms(2) static_job(1) [OF assms(1)] unfolding calm_def static_keys [OF assms(1)] by auto

lemma someone_runs:
  assumes ok: "multi_ok cf N s" and ho: "homes True cf s" and served: "\<forall>c < num_cpus cf. served cf s c" and x: "x \<in># place s"
  shows "\<exists>c < num_cpus cf. sched_state (cpus s ! c) = RUNNING"
proof -
  consider "x \<in> set (concat (queues s))" | "x \<in> set (concat (map occupant (cpus s)))" using x by (auto simp: place_def)
  then show ?thesis
  proof cases
    case 1
    then obtain l where l: "l \<in> set (queues s)" "x \<in> set l" by auto
    then obtain q where q: "q < length (queues s)" "x \<in> set (queues s ! q)" by (metis in_set_conv_nth)
    then obtain c where "c < num_cpus cf" "queue_of cf c = q" "runs_on (jb (jobs s) x) c" using ho by (auto simp: homes_def)
    then show ?thesis using served q by (auto simp: served_def)
  next
    case 2
    then obtain u where u: "u \<in> set (cpus s)" "x \<in> set (occupant u)" by auto
    then obtain c where "c < length (cpus s)" "cpus s ! c = u" by (metis in_set_conv_nth)
    moreover have "sched_state u = RUNNING" using u(2) by (simp add: occupant_def split: if_splits)
    ultimately show ?thesis using ok by (auto simp: multi_ok_def)
  qed
qed

lemma multi_tick_ok:
  assumes cf: "sane cf" and ok: "multi_ok cf N s" and ho: "homes H cf s" and calm: "calm H cf (jobs s)"
    and ds: "2 * num_cpus cf \<le> length (mdraws s)" "\<forall>k \<in> set (mdraws s). valid_draw k"
  shows "\<exists>s'. multi_tick cf s = Inr s' \<and> multi_ok cf N s' \<and> homes H cf s' \<and> static (jobs s') = static (jobs s) \<and>
    length (mdraws s) \<le> length (mdraws s') + 2 * num_cpus cf \<and> set (mdraws s') \<subseteq> set (mdraws s) \<and>
    system_time s' = system_time s + 1 \<and> (H \<longrightarrow> place s \<noteq> {#} \<longrightarrow> work s' < work s)"
proof -
  have size: "0 \<le> cache_size cf" and rates: "1 \<le> cache_rate_cold cf" "1 \<le> cache_rate_warm cf" and ts: "time_slice cf \<noteq> 0"
    and n: "0 < num_cpus cf" using cf by (simp_all add: sane_def)
  obtain a where a: "handle_interrupts cf s = Inr a" "multi_ok cf N a" "homes H cf a" "moved s a" "mdraws a = mdraws s"
    using interrupts_ok [OF ok ho ts] by blast
  have ca: "calm H cf (jobs a)" using calm a(4) by (simp add: moved_def)
  have da: "num_cpus cf \<le> length (mdraws a)" "\<forall>k \<in> set (mdraws a). valid_draw k" using ds a(5) by simp_all
  obtain b where b: "steal_jobs cf a = Inr b" "multi_ok cf N b" "homes H cf b" "moved a b"
    "length (mdraws a) \<le> length (mdraws b) + num_cpus cf" "set (mdraws b) \<subseteq> set (mdraws a)"
    using steal_jobs_ok [OF a(2,3) ca da] by blast
  have db: "num_cpus cf \<le> length (mdraws b)" "\<forall>k \<in> set (mdraws b). valid_draw k" using ds b(5,6) a(5) by auto
  obtain c where c: "assign_jobs cf b = Inr c" "multi_ok cf N c" "homes H cf c" "moved b c"
    "length (mdraws b) \<le> length (mdraws c) + num_cpus cf" "set (mdraws c) \<subseteq> set (mdraws b)" "\<forall>i < num_cpus cf. served cf c i"
    using assign_jobs_ok [OF b(2,3) size n db] by blast
  obtain d where d: "run_jobs cf c = Inr d" "multi_ok cf N d" "homes H cf d" "static (jobs d) = static (jobs c)"
    "mdraws d = mdraws c" "system_time d = system_time c" "(\<exists>i < num_cpus cf. sched_state (cpus c ! i) = RUNNING) \<longrightarrow> work d < work c"
    using run_jobs_ok [OF size rates c(2,3)] by blast
  have mv: "moved s c" using a(4) b(4) c(4) moved_trans by blast
  let ?d = "d\<lparr>system_time := system_time d + 1\<rparr>"
  have "multi_tick cf s = Inr ?d" using a(1) b(1) c(1) d(1) by (simp add: multi_tick_def)
  moreover have pl: "place ?d = place d" by (simp add: place_def)
  moreover have "multi_ok cf N ?d" "homes H cf ?d" using d(2,3) pl by (simp_all add: multi_ok_def homes_def)
  moreover have "static (jobs ?d) = static (jobs s)" "system_time ?d = system_time s + 1" using d(4,6) mv by (simp_all add: moved_def)
  moreover have "length (mdraws s) \<le> length (mdraws ?d) + 2 * num_cpus cf" "set (mdraws ?d) \<subseteq> set (mdraws s)"
    using a(5) b(5,6) c(5,6) d(5) by auto
  moreover have "work ?d < work s" if H and left: "place s \<noteq> {#}"
  proof -
    obtain x where x: "x \<in># place c" using left mv by (auto simp: moved_def)
    have "homes True cf c" using c(3) \<open>H\<close> by (simp add: homes_def)
    then have "\<exists>i < num_cpus cf. sched_state (cpus c ! i) = RUNNING" using someone_runs [OF c(2) _ c(7) x] by blast
    then have "work d < work c" using d(7) by blast
    moreover have "work ?d = work d" using pl by (simp add: work_def)
    ultimately show ?thesis using moved_work [OF mv] by simp
  qed
  ultimately show ?thesis by blast
qed

lemma multi_loop_ends:
  assumes "sane cf" and "multi_ok cf N s" and "homes True cf s" and "calm True cf (jobs s)" and "work s \<le> fuel"
    and "2 * num_cpus cf * work s \<le> length (mdraws s)" and "\<forall>k \<in> set (mdraws s). valid_draw k"
  shows "\<exists>s'. multi_loop fuel cf N s = Inr s' \<and> multi_ok cf N s' \<and> jobs_finished s' = N \<and> place s' = {#} \<and>
    static (jobs s') = static (jobs s) \<and> system_time s \<le> system_time s' \<and> system_time s' \<le> system_time s + int (work s)"
  using assms
proof (induction fuel arbitrary: s)
  case 0
  then have "place s = {#}" by (cases "place s") (auto simp: work_def)
  then show ?case using 0 by (auto simp: multi_loop.simps multi_ok_def)
next
  case (Suc f)
  show ?case
  proof (cases "place s = {#}")
    case True
    then show ?thesis using Suc.prems by (auto simp: multi_loop.simps multi_ok_def)
  next
    case False
    then have fin: "jobs_finished s < N" using Suc.prems(2) by (simp add: multi_ok_def) (metis less_add_same_cancel2 nonempty_has_size)
    have "0 < work s" using False by (cases "place s") (auto simp: work_def)
    then have "2 * num_cpus cf * 1 \<le> 2 * num_cpus cf * work s" by (intro mult_le_mono2) simp
    then have dn: "2 * num_cpus cf \<le> length (mdraws s)" using Suc.prems(6) by linarith
    obtain t where t: "multi_tick cf s = Inr t" "multi_ok cf N t" "homes True cf t" "static (jobs t) = static (jobs s)"
      "length (mdraws s) \<le> length (mdraws t) + 2 * num_cpus cf" "set (mdraws t) \<subseteq> set (mdraws s)"
      "system_time t = system_time s + 1" "work t < work s"
      using multi_tick_ok [OF Suc.prems(1-4) dn Suc.prems(7)] False by blast
    have "2 * num_cpus cf * (work t + 1) \<le> 2 * num_cpus cf * work s" using t(8) by (intro mult_le_mono2) simp
    then have dt: "2 * num_cpus cf * work t \<le> length (mdraws t)" using t(5) Suc.prems(6) by (simp add: distrib_left)
    have "work t \<le> f" using t(8) Suc.prems(5) by simp
    then obtain s' where s': "multi_loop f cf N t = Inr s'" "multi_ok cf N s'" "jobs_finished s' = N" "place s' = {#}"
      "static (jobs s') = static (jobs t)" "system_time t \<le> system_time s'" "system_time s' \<le> system_time t + int (work t)"
      using Suc.IH [OF Suc.prems(1) t(2,3) calm_static [OF t(4) Suc.prems(4)] _ dt] t(6) Suc.prems(7) by blast
    have "multi_loop (Suc f) cf N s = Inr s'" using fin t(1) s'(1) by (subst multi_loop.simps) simp
    then show ?thesis using s' t by auto
  qed
qed


section \<open>The first state\<close>

definition parsed :: "nat \<Rightarrow> string list \<Rightarrow> jobs \<Rightarrow> bool" where
  "parsed n names js \<longleftrightarrow> distinct names \<and> dict_keys js = set names \<and>
     (\<forall>x \<in> set names. \<forall>i \<in> set (affinity (jb js x)). 0 \<le> i \<and> i < int n)"

lemma parse_job_keeps: "parsed n names js \<Longrightarrow> parse_job e (js, names) = Inr (js', names') \<Longrightarrow> parsed n names' js'"
  by (auto simp: rbind_eq_Inr parse_job_def Let_def parsed_def split: list.splits if_splits)

lemma add_affinity_keeps:
  assumes p: "parsed n names js" and run: "add_affinity n x c js = Inr js'"
  shows "parsed n names js'"
proof -
  obtain i j where i: "\<not> (i < 0 \<or> int n \<le> i)" and j: "map_of js x = Some j" and js: "js' = dict_set x (j\<lparr>affinity := affinity j @ [i]\<rparr>) js"
    using run unfolding add_affinity_def rbind_eq_Inr dict_get_Inr by (metis Inl_Inr_False Inr_inject)
  have "x \<in> dict_keys js" using j by (auto simp: dict_keys_map_of)
  moreover from this have "x \<in> set names" using p by (simp add: parsed_def)
  ultimately show ?thesis using p i j by (auto simp: parsed_def js insert_absorb)
qed

lemma parse_affinity_keeps:
  assumes "parsed n names js" and "parse_affinity n names e js = Inr js'"
  shows "parsed n names js'"
proof -
  obtain x l where "rfold (add_affinity n x) (py_split CHR ''.'' l) js = Inr js'"
    using assms(2) by (auto simp: parse_affinity_def split: list.splits if_splits)
  from rfold_inv [where P = "parsed n names", OF _ assms(1) this] show ?thesis using add_affinity_keeps by metis
qed

lemma parsed_runs_somewhere:
  assumes "parsed n names js" and "x \<in> set names" and "0 < n"
  shows "\<exists>c < n. runs_on (jb js x) c"
proof (cases "affinity (jb js x)")
  case (Cons i l)
  then have "0 \<le> i" "i < int n" using assms by (auto simp: parsed_def)
  then have "nat i < n" "int (nat i) = i" by auto
  then show ?thesis using Cons by (auto simp: runs_on_def)
qed (use assms(3) in \<open>auto simp: runs_on_def\<close>)

text \<open>Dealing the jobs out to the queues.\<close>

definition dealt :: "jobs \<Rightarrow> nat \<Rightarrow> string list \<Rightarrow> string list list \<Rightarrow> string list \<Rightarrow> bool" where
  "dealt js n names qs left \<longleftrightarrow> length qs = n \<and> mset (concat qs) + mset left = mset names \<and>
     (\<forall>q < n. \<forall>x \<in> set (qs ! q). runs_on (jb js x) q)"

lemma take_job_ok:
  assumes d: "dealt js n names qs left" and keys: "set names \<subseteq> dict_keys js" and c: "c < n"
  shows "\<exists>qs' left'. take_job js c (qs, left) = Inr (qs', left') \<and> dealt js n names qs' left' \<and>
    (left' = left \<or> length left' < length left) \<and> (left \<noteq> [] \<longrightarrow> runs_on (jb js (hd left)) c \<longrightarrow> length left' < length left)"
proof -
  have "mset left \<subseteq># mset names" using d unfolding dealt_def by (metis mset_subset_eq_add_right)
  then have "set left \<subseteq> dict_keys js" using keys set_mset_mono by fastforce
  then obtain r where r: "find_job js c left = Inr r" "r = None \<longrightarrow> (\<forall>x \<in> set left. \<not> runs_on (jb js x) c)"
    "\<forall>n. r = Some n \<longrightarrow> n \<in> set left \<and> runs_on (jb js n) c"
    using find_job_runs by blast
  show ?thesis
  proof (cases r)
    case None
    then have "left \<noteq> [] \<Longrightarrow> \<not> runs_on (jb js (hd left)) c" using r(2) by simp
    then show ?thesis using None r(1) d by (simp add: take_job_def)
  next
    case (Some x)
    then have x: "x \<in> set left" "runs_on (jb js x) c" using r(3) by auto
    let ?qs = "qs[c := qs ! c @ [x]]"
    have cl: "c < length qs" using d c by (simp add: dealt_def)
    have "mset (concat ?qs) + mset (qs ! c) = mset (concat qs) + mset (qs ! c @ [x])" by (rule mset_concat_update [OF cl])
    then have m: "mset (concat ?qs) = mset (concat qs) + {#x#}" by simp
    have "mset left = add_mset x (mset (remove1 x left))" using x(1) by simp
    then have "mset (concat ?qs) + mset (remove1 x left) = mset names" using d m unfolding dealt_def by (metis add_mset_add_single union_mset_add_mset_left union_mset_add_mset_right)
    then have "dealt js n names ?qs (remove1 x left)" using d x(2) cl unfolding dealt_def by (auto simp: nth_list_update)
    moreover have "length (remove1 x left) < length left" using x(1) by (metis One_nat_def Suc_pred length_pos_if_in_set length_remove1 lessI)
    ultimately show ?thesis using Some r(1) by (simp add: take_job_def)
  qed
qed

lemma round_ok:
  assumes "dealt js n names qs left" and "set names \<subseteq> dict_keys js" and "\<forall>c \<in> set cs. c < n"
  shows "\<exists>qs' left'. rfold (take_job js) cs (qs, left) = Inr (qs', left') \<and> dealt js n names qs' left' \<and> length left' \<le> length left \<and>
    (left \<noteq> [] \<longrightarrow> (\<exists>c \<in> set cs. runs_on (jb js (hd left)) c) \<longrightarrow> length left' < length left)"
  using assms
proof (induction cs arbitrary: qs left)
  case (Cons c cs)
  have c: "c < n" "\<forall>c \<in> set cs. c < n" using Cons.prems(3) by simp_all
  obtain qs1 left1 where t: "take_job js c (qs, left) = Inr (qs1, left1)" "dealt js n names qs1 left1"
    "left1 = left \<or> length left1 < length left" "left \<noteq> [] \<longrightarrow> runs_on (jb js (hd left)) c \<longrightarrow> length left1 < length left"
    using take_job_ok [OF Cons.prems(1,2) c(1)] by blast
  obtain qs' left' where r: "rfold (take_job js) cs (qs1, left1) = Inr (qs', left')" "dealt js n names qs' left'"
    "length left' \<le> length left1" "left1 \<noteq> [] \<longrightarrow> (\<exists>c \<in> set cs. runs_on (jb js (hd left1)) c) \<longrightarrow> length left' < length left1"
    using Cons.IH [OF t(2) Cons.prems(2) c(2)] by blast
  have "rfold (take_job js) (c # cs) (qs, left) = Inr (qs', left')" using t(1) r(1) by simp
  then show ?case using t r by fastforce
qed simp

lemma assign_rounds_ok:
  assumes "dealt js n names qs left" and "set names \<subseteq> dict_keys js" and "\<forall>x \<in> set names. \<exists>c < n. runs_on (jb js x) c"
    and "length left \<le> fuel"
  shows "\<exists>qs'. assign_rounds fuel n js (qs, left) = Inr qs' \<and> dealt js n names qs' []"
  using assms
proof (induction fuel arbitrary: qs left)
  case 0
  then show ?case by (simp add: assign_rounds.simps)
next
  case (Suc f)
  show ?case
  proof (cases "left = []")
    case True
    then show ?thesis using Suc.prems by (simp add: assign_rounds.simps)
  next
    case False
    have "hd left \<in> set names" using False Suc.prems(1) unfolding dealt_def
      by (metis hd_in_set set_mset_mset union_iff)
    then obtain c where c: "c < n" "runs_on (jb js (hd left)) c" using Suc.prems(3) by blast
    obtain qs1 left1 where t: "rfold (take_job js) [0..<n] (qs, left) = Inr (qs1, left1)" "dealt js n names qs1 left1"
      "left \<noteq> [] \<longrightarrow> (\<exists>c \<in> set [0..<n]. runs_on (jb js (hd left)) c) \<longrightarrow> length left1 < length left"
      using round_ok [OF Suc.prems(1,2), of "[0..<n]"] by auto
    have "length left1 < length left" using t(3) False c by auto
    then obtain qs' where "assign_rounds f n js (qs1, left1) = Inr qs'" "dealt js n names qs' []"
      using Suc.IH [OF t(2) Suc.prems(2,3)] Suc.prems(4) by auto
    then show ?thesis using t(1) False by (subst assign_rounds.simps) simp
  qed
qed

lemma make_queues_ok:
  assumes p: "parsed (num_cpus cf) names js" and n: "0 < num_cpus cf" and fuel: "length names \<le> fuel"
  shows "\<exists>qs. make_queues fuel cf js names = Inr qs \<and> length qs = (if per_cpu_queues cf then num_cpus cf else 1) \<and>
    mset (concat qs) = mset names \<and> (\<forall>q < length qs. \<forall>x \<in> set (qs ! q). \<exists>c < num_cpus cf. queue_of cf c = q \<and> runs_on (jb js x) c)"
proof (cases "per_cpu_queues cf")
  case False
  then show ?thesis using parsed_runs_somewhere [OF p _ n] by (auto simp: make_queues_def queue_of_def)
next
  case True
  have d: "dealt js (num_cpus cf) names (replicate (num_cpus cf) []) names" by (simp add: dealt_def)
  have k: "set names \<subseteq> dict_keys js" using p by (simp add: parsed_def)
  have "\<forall>x \<in> set names. \<exists>c < num_cpus cf. runs_on (jb js x) c" using parsed_runs_somewhere [OF p _ n] by blast
  from assign_rounds_ok [OF d k this fuel] obtain qs where
    "assign_rounds fuel (num_cpus cf) js (replicate (num_cpus cf) [], names) = Inr qs" "dealt js (num_cpus cf) names qs []"
    by blast
  then show ?thesis using True by (auto simp: make_queues_def queue_of_def dealt_def)
qed

lemma make_queues_mono:
  assumes p: "parsed (num_cpus cf) names js" and n: "0 < num_cpus cf" and run: "make_queues fuel cf js names = Inr qs"
  shows "make_queues (fuel + k) cf js names = Inr qs"
proof (cases "per_cpu_queues cf")
  case True
  have "assign_rounds fuel m js st = Inr qs \<Longrightarrow> assign_rounds (fuel + k) m js st = Inr qs" for m st
  proof (induction fuel arbitrary: st)
    case 0
    then show ?case by (cases st) (auto simp: assign_rounds.simps split: if_splits)
  next
    case (Suc f)
    obtain q l where st: "st = (q, l)" by (cases st)
    then show ?case using Suc by (cases "l = []") (auto simp: assign_rounds.simps [of "Suc f"] assign_rounds.simps [of "Suc (f + k)"] rbind_eq_Inr)
  qed
  then show ?thesis using run True by (simp add: make_queues_def)
qed (use run in \<open>simp add: make_queues_def\<close>)

lemma multi_init_ok:
  assumes n: "0 < num_cpus cf" and size: "0 \<le> cache_size cf"
    and run: "multi_init fuel cf L A jn mr mw ds = Inr (s, N)"
  shows "multi_ok cf N s \<and> homes True cf s \<and> system_time s = 0 \<and> jobs_finished s = 0"
proof -
  obtain l ds1 js0 names js qs where st: "rfold parse_job (py_split CHR '','' l) ([], []) = Inr (js0, names)"
    "(if A = [] then Inr js0 else rfold (parse_affinity (num_cpus cf) names) (py_split CHR '','' A) js0) = Inr js"
    "make_queues fuel cf js names = Inr qs" "N = length names"
    "s = \<lparr>jobs = js, queues = qs, cpus = replicate (num_cpus cf) cpu_init, system_time = 0, jobs_finished = 0, mdraws = ds1\<rparr>"
    using run unfolding multi_init_def by (auto simp: rbind_eq_Inr)
  have "(\<lambda>(js, names). parsed (num_cpus cf) names js) (js0, names)"
  proof (rule rfold_inv [OF _ _ st(1)])
    show "case ([], []) of (js, names) \<Rightarrow> parsed (num_cpus cf) names js" by (simp add: parsed_def dict_keys_def)
  qed (auto intro: parse_job_keeps)
  then have p0: "parsed (num_cpus cf) names js0" by simp
  have p: "parsed (num_cpus cf) names js"
  proof (cases "A = []")
    case False
    have "rfold (parse_affinity (num_cpus cf) names) (py_split CHR '','' A) js0 = Inr js" using False st(2) by simp
    from rfold_inv [where P = "parsed (num_cpus cf) names", OF _ p0 this] show ?thesis using parse_affinity_keeps by metis
  qed (use st(2) p0 in simp)
  obtain qs' where qs': "make_queues (length names + fuel) cf js names = Inr qs'"
    "length qs' = (if per_cpu_queues cf then num_cpus cf else 1)" "mset (concat qs') = mset names"
    "\<forall>q < length qs'. \<forall>x \<in> set (qs' ! q). \<exists>c < num_cpus cf. queue_of cf c = q \<and> runs_on (jb js x) c"
    using make_queues_ok [OF p n, of "length names + fuel"] by auto
  have "make_queues (fuel + length names) cf js names = Inr qs" by (rule make_queues_mono [OF p n st(3)])
  then have "qs' = qs" using qs'(1) by (simp add: add.commute)
  note qs = qs' [unfolded this]
  have pl: "place s = mset names" using qs(3) by (simp add: place_def st(5) occupant_def cpu_init_def)
  have cache: "cache_ok cf js cache_init" using size by (simp add: cache_ok_def cache_tracks_def cache_init_def wset_sum_def)
  have "\<forall>x. count (mset names) x \<le> 1" "set names = dict_keys js"
    using p distinct_count_atmost_1 [of names] by (simp_all add: parsed_def)
  then have "multi_ok cf N s" unfolding multi_ok_def pl using qs(2) cache st(4) by (simp add: st(5) cpu_init_def)
  moreover have "homes True cf s" using qs(4) by (simp add: homes_def st(5))
  ultimately show ?thesis by (simp add: st(5))
qed


section \<open>Whole runs\<close>

text \<open>
  C7. From any job list and affinities that the program accepts, the simulation runs all jobs to their end, in at most the sum of the
  run times and one tick per job. The options must be sane, and either there is no stealing (one queue, or a peek interval of 0) or
  there are at least two CPUs and no job has an affinity.
\<close>

theorem multi_terminates:
  assumes "sane cf" and "multi_init fuel0 cf L A jn mr mw ds = Inr (s, N)" and "calm True cf (jobs s)"
    and "work s \<le> fuel" and "2 * num_cpus cf * work s \<le> length (mdraws s)" and "\<forall>k \<in> set (mdraws s). valid_draw k"
  shows "\<exists>s'. multi_loop fuel cf N s = Inr s' \<and> jobs_finished s' = N \<and> concat (queues s') = [] \<and>
    (\<forall>u \<in> set (cpus s'). sched_state u = IDLE) \<and> system_time s' \<le> int (work s)"
proof -
  have n: "0 < num_cpus cf" "0 \<le> cache_size cf" using assms(1) by (simp_all add: sane_def)
  note i = multi_init_ok [OF n assms(2)]
  obtain s' where s': "multi_loop fuel cf N s = Inr s'" "jobs_finished s' = N" "place s' = {#}" "system_time s' \<le> system_time s + int (work s)"
    using multi_loop_ends [OF assms(1) _ _ assms(3-6)] i by blast
  have "sched_state u = IDLE" if "u \<in> set (cpus s')" for u
    using s'(3) that by (cases "sched_state u") (auto simp: place_def occupant_def)
  moreover have "concat (queues s') = []" using s'(3) by (simp add: place_def)
  ultimately show ?thesis using s' i by auto
qed

text \<open>The options of the witness: two CPUs with their own queues and stealing at every fifth tick.\<close>

definition demo_conf :: conf where
  "demo_conf = (o_conf multi_defaults)\<lparr>per_cpu_queues := True, peek_interval := 5, random_order := True\<rparr>"

lemma demo_init:
  "multi_init 2 demo_conf ''a:3:120,b:1:10'' [] 0 0 0 ds =
     Inr (\<lparr>jobs = [(''a'', \<lparr>job_name = ''a'', run_time = 3, working_set_size = 120, affinity = [], time_left = 3\<rparr>),
                 (''b'', \<lparr>job_name = ''b'', run_time = 1, working_set_size = 10, affinity = [], time_left = 1\<rparr>)],
          queues = [[''a''], [''b'']], cpus = [cpu_init, cpu_init], system_time = 0, jobs_finished = 0, mdraws = ds\<rparr>, 2)"
  by code_simp

theorem multi_terminates_witness:
  "\<exists>s s'. multi_init 2 demo_conf ''a:3:120,b:1:10'' [] 0 0 0 (replicate 24 0) = Inr (s, 2) \<and>
     multi_loop 6 demo_conf 2 s = Inr s' \<and> jobs_finished s' = 2 \<and> system_time s' \<le> 6"
proof -
  obtain s where s: "multi_init 2 demo_conf ''a:3:120,b:1:10'' [] 0 0 0 (replicate 24 0) = Inr (s, 2)" "work s = 6" "mdraws s = replicate 24 0"
    "calm True demo_conf (jobs s)"
    using demo_init [of "replicate 24 0"]
    by (auto simp: work_def place_def occupant_def cpu_init_def calm_def dict_keys_def demo_conf_def multi_defaults_def)
  have "sane demo_conf" "num_cpus demo_conf = 2" by (simp_all add: sane_def demo_conf_def multi_defaults_def)
  then show ?thesis using multi_terminates [of demo_conf 2 _ _ _ _ _ _ s 2 6] s by (fastforce simp: valid_draw_def)
qed

text \<open>The invariant holds after any number of ticks.\<close>

lemma multi_ticks_ok:
  assumes "sane cf" and "multi_init fuel0 cf L A jn mr mw ds = Inr (s, N)" and "calm False cf (jobs s)"
    and "2 * num_cpus cf * t \<le> length (mdraws s)" and "\<forall>k \<in> set (mdraws s). valid_draw k"
  shows "\<exists>s'. rfold (\<lambda>_. multi_tick cf) [0..<t] s = Inr s' \<and> multi_ok cf N s' \<and> static (jobs s') = static (jobs s) \<and>
    system_time s' = int t \<and> length (mdraws s) \<le> length (mdraws s') + 2 * num_cpus cf * t \<and> set (mdraws s') \<subseteq> set (mdraws s)"
  using assms(4)
proof (induction t)
  case 0
  have "0 < num_cpus cf" "0 \<le> cache_size cf" using assms(1) by (simp_all add: sane_def)
  then show ?case using multi_init_ok [OF _ _ assms(2)] by simp
next
  case (Suc t)
  then obtain a where a: "rfold (\<lambda>_. multi_tick cf) [0..<t] s = Inr a" "multi_ok cf N a" "static (jobs a) = static (jobs s)"
    "system_time a = int t" "length (mdraws s) \<le> length (mdraws a) + 2 * num_cpus cf * t" "set (mdraws a) \<subseteq> set (mdraws s)"
    by auto
  have d: "2 * num_cpus cf \<le> length (mdraws a)" "\<forall>k \<in> set (mdraws a). valid_draw k"
    using a(5,6) Suc.prems assms(5) by (simp, blast)
  obtain b where b: "multi_tick cf a = Inr b" "multi_ok cf N b" "static (jobs b) = static (jobs a)"
    "length (mdraws a) \<le> length (mdraws b) + 2 * num_cpus cf" "set (mdraws b) \<subseteq> set (mdraws a)" "system_time b = system_time a + 1"
    using multi_tick_ok [OF assms(1) a(2) _ calm_static [OF a(3) assms(3)] d] by (auto simp: homes_def)
  have "length (mdraws s) \<le> length (mdraws b) + 2 * num_cpus cf * Suc t" using a(5) b(4) by simp
  moreover have "system_time b = int (Suc t)" using a(4) b(6) by simp
  moreover have "static (jobs b) = static (jobs s)" using a(3) b(3) by simp
  moreover have "set (mdraws b) \<subseteq> set (mdraws s)" using a(6) b(5) by blast
  ultimately show ?case using a(1) b(1,2) by (auto simp: rfold_append)
qed

text \<open>
  The comment on \<open>cache_contents\<close> says that the working sets in a cache fit together, or the cache holds a single job whose working set
  may be too big. The second case never occurs: \<open>adjust_size\<close> also kicks out a job that is alone.
\<close>

lemma multi_caches_fit:
  assumes "sane cf" and "multi_init fuel0 cf L A jn mr mw ds = Inr (s, N)" and "calm False cf (jobs s)"
    and "2 * num_cpus cf * t \<le> length (mdraws s)" and "\<forall>k \<in> set (mdraws s). valid_draw k"
    and "rfold (\<lambda>_. multi_tick cf) [0..<t] s = Inr s'" and "c < num_cpus cf"
  shows "wset_sum (jobs s) (cache_contents (cpu_cache (cpus s' ! c))) \<le> cache_size cf"
proof -
  have s': "multi_ok cf N s'" "static (jobs s') = static (jobs s)" using multi_ticks_ok [OF assms(1-5)] assms(6) by auto
  show ?thesis using cache_ok_static [OF s'(2) [symmetric]] s'(1) assms(7) by (auto simp: multi_ok_def cache_ok_def)
qed

text \<open>
  C11. The options must be sane, and either there is no stealing (one queue, or a peek interval of 0) or there are at least two CPUs. Then
  every tick succeeds, and after every tick, stealing included, each job is either finished, or waiting in exactly one queue, or running
  on exactly one CPU that its affinity allows, and each cache is as the comment in the code says: its working sets fit together, or it holds
  one job only.
\<close>

theorem multi_keeps_jobs:
  assumes "sane cf" and "multi_init fuel0 cf L A jn mr mw ds = Inr (s, N)" and "calm False cf (jobs s)"
    and "2 * num_cpus cf * t \<le> length (mdraws s)" and "\<forall>k \<in> set (mdraws s). valid_draw k"
  shows "\<exists>s'. rfold (\<lambda>_. multi_tick cf) [0..<t] s = Inr s' \<and> system_time s' = int t \<and>
    distinct (concat (queues s') @ concat (map occupant (cpus s'))) \<and>
    length (concat (queues s') @ concat (map occupant (cpus s'))) + jobs_finished s' = N \<and>
    (\<forall>c < num_cpus cf. sched_state (cpus s' ! c) = RUNNING \<longrightarrow> runs_on (jb (jobs s) (sched_current (cpus s' ! c))) c) \<and>
    (\<forall>c < num_cpus cf. wset_sum (jobs s) (cache_contents (cpu_cache (cpus s' ! c))) \<le> cache_size cf \<or> length (cache_contents (cpu_cache (cpus s' ! c))) = 1)"
proof -
  from multi_ticks_ok [OF assms] obtain s' where s': "rfold (\<lambda>_. multi_tick cf) [0..<t] s = Inr s'" "multi_ok cf N s'"
    "static (jobs s') = static (jobs s)" "system_time s' = int t"
    by blast
  let ?l = "concat (queues s') @ concat (map occupant (cpus s'))"
  have pl: "place s' = mset ?l" by (simp add: place_def)
  have one: "count (mset ?l) x \<le> 1" for x using s'(2) unfolding multi_ok_def pl by blast
  have "(\<forall>x. count (mset xs) x \<le> 1) \<Longrightarrow> distinct xs" for xs :: "string list"
  proof (induction xs)
    case (Cons y ys)
    have "count (mset ys) x \<le> count (mset (y # ys)) x" for x by simp
    then have "count (mset ys) x \<le> 1" for x using Cons.prems le_trans by blast
    moreover have "count (mset ys) y = 0" using spec [OF Cons.prems, of y] by simp
    ultimately show ?case using Cons.IH by (simp add: count_eq_zero_iff)
  qed simp
  then have "distinct ?l" using one by blast
  moreover have "length ?l + jobs_finished s' = N" using s'(2) unfolding multi_ok_def pl by simp
  moreover have "runs_on (jb (jobs s) (sched_current (cpus s' ! c))) c" if "c < num_cpus cf" "sched_state (cpus s' ! c) = RUNNING" for c
  proof -
    have "sched_current (cpus s' ! c) \<in># place s'" using current_place [of c s'] that s'(2) by (simp add: multi_ok_def)
    then have "sched_current (cpus s' ! c) \<in> dict_keys (jobs s)" using s'(2) static_keys [OF s'(3)] by (auto simp: multi_ok_def)
    from static_job(1) [OF s'(3) this] show ?thesis using s'(2) that unfolding multi_ok_def runs_on_def by metis
  qed
  ultimately show ?thesis using s'(1,4) multi_caches_fit [OF assms s'(1)] by blast
qed

theorem multi_keeps_jobs_witness:
  "\<exists>s s'. multi_init 2 demo_conf ''a:3:120,b:1:10'' [] 0 0 0 (replicate 24 0) = Inr (s, 2) \<and>
     rfold (\<lambda>_. multi_tick demo_conf) [0..<6] s = Inr s' \<and> length (concat (queues s') @ concat (map occupant (cpus s'))) + jobs_finished s' = 2"
proof -
  obtain s where s: "multi_init 2 demo_conf ''a:3:120,b:1:10'' [] 0 0 0 (replicate 24 0) = Inr (s, 2)" "mdraws s = replicate 24 0"
    "calm False demo_conf (jobs s)"
    using demo_init [of "replicate 24 0"] by (auto simp: calm_def demo_conf_def multi_defaults_def)
  have "sane demo_conf" "num_cpus demo_conf = 2" by (simp_all add: sane_def demo_conf_def multi_defaults_def)
  then show ?thesis using multi_keeps_jobs [of demo_conf 2 _ _ _ _ _ _ s 2 6] s by (fastforce simp: valid_draw_def)
qed

text \<open>
  The jobs are dealt to the queues in at most as many rounds as there are jobs: each job goes to exactly one queue, and that
  queue belongs to a CPU that the affinity of the job allows.
\<close>

theorem multi_deal_total:
  assumes "distinct names" and "dict_keys js = set names" and "0 < n" and "length names \<le> fuel"
    and "\<forall>x \<in> set names. \<forall>i \<in> set (affinity (jb js x)). 0 \<le> i \<and> i < int n"
  shows "\<exists>qs. assign_rounds fuel n js (replicate n [], names) = Inr qs \<and> length qs = n \<and> mset (concat qs) = mset names \<and>
    (\<forall>q < n. \<forall>x \<in> set (qs ! q). runs_on (jb js x) q)"
proof -
  have p: "parsed n names js" using assms by (simp add: parsed_def)
  have d: "dealt js n names (replicate n []) names" by (simp add: dealt_def)
  have "\<forall>x \<in> set names. \<exists>c < n. runs_on (jb js x) c" using parsed_runs_somewhere [OF p _ assms(3)] by blast
  from assign_rounds_ok [OF d _ this assms(4)] assms(2) show ?thesis by (auto simp: dealt_def)
qed

theorem multi_deal_total_witness:
  "\<exists>qs. assign_rounds 1 2 [(''a'', \<lparr>job_name = ''a'', run_time = 3, working_set_size = 1, affinity = [1], time_left = 3\<rparr>)]
      (replicate 2 [], [''a'']) = Inr qs \<and> length qs = 2 \<and> mset (concat qs) = {#''a''#}"
  using multi_deal_total [of "[''a'']" "[(''a'', \<lparr>job_name = ''a'', run_time = 3, working_set_size = 1, affinity = [1], time_left = 3\<rparr>)]" 2 1]
  by (fastforce simp: dict_keys_def)


section \<open>Stealing with affinities\<close>

text \<open>
  Job \<open>a\<close> may run on CPU 0 only, but its working set has size 1, so CPU 1 steals it: CPU 1 may not run it, and CPU 0 never
  steals it back.
\<close>

definition hang_conf :: conf where
  "hang_conf = (o_conf multi_defaults)\<lparr>per_cpu_queues := True, peek_interval := 1, time_slice := 1\<rparr>"

definition hang_jobs :: jobs where
  "hang_jobs = [(''b'', \<lparr>job_name = ''b'', run_time = 40, working_set_size = 5, affinity = [0], time_left = 40\<rparr>),
     (''a'', \<lparr>job_name = ''a'', run_time = 100, working_set_size = 1, affinity = [0], time_left = 100\<rparr>)]"

lemma hang_conf_simps [simp]:
  "per_cpu_queues hang_conf" "peek_interval hang_conf = 1" "time_slice hang_conf = 1" "num_cpus hang_conf = 2" "\<not> random_order hang_conf"
  by (simp_all add: hang_conf_def multi_defaults_def)

lemma two_cpus: "[0..<2] = [0, 1::nat]" "remove1 0 [0, 1::nat] = [1]" "remove1 1 [0, 1::nat] = [0]"
  by (simp_all add: upt_rec)

definition stuck :: "sched \<Rightarrow> bool" where
  "stuck s \<longleftrightarrow> (\<exists>u v. queues s = [[], [''a'']] \<and> cpus s = [u, v] \<and> sched_state v = IDLE \<and> system_time s > 0 \<and>
     (sched_state u = RUNNING \<and> sched_current u = ''b'' \<and> jobs_finished s = 0 \<or> sched_state u = IDLE \<and> jobs_finished s = 1))"

lemma hang_job:
  assumes "static js = static hang_jobs"
  shows "\<exists>j. map_of js ''a'' = Some j \<and> affinity j = [0] \<and> run_time j = 100 \<and> working_set_size j = 1"
    and "\<exists>j. map_of js ''b'' = Some j \<and> affinity j = [0]"
proof -
  have "''a'' \<in> dict_keys hang_jobs" "''b'' \<in> dict_keys hang_jobs" by (simp_all add: hang_jobs_def dict_keys_def)
  moreover from this have "''a'' \<in> dict_keys js" "''b'' \<in> dict_keys js" using static_keys [OF assms] by simp_all
  ultimately show "\<exists>j. map_of js ''a'' = Some j \<and> affinity j = [0] \<and> run_time j = 100 \<and> working_set_size j = 1"
    "\<exists>j. map_of js ''b'' = Some j \<and> affinity j = [0]"
    using static_job [OF assms, of "''a''"] static_job(1) [OF assms, of "''b''"] by (auto simp: dict_keys_map_of hang_jobs_def)
qed

text \<open>The state when stealing and assigning: CPU 0 idle, with \<open>b\<close> in its queue or finished.\<close>

definition waiting :: "sched \<Rightarrow> bool" where
  "waiting s \<longleftrightarrow> (\<exists>u v. cpus s = [u, v] \<and> sched_state u = IDLE \<and> sched_state v = IDLE \<and> system_time s > 0 \<and>
     (queues s = [[''b''], [''a'']] \<and> jobs_finished s = 0 \<or> queues s = [[], [''a'']] \<and> jobs_finished s = 1))"

lemma stuck_interrupts: "stuck s \<Longrightarrow> handle_interrupts hang_conf s = Inr s' \<Longrightarrow> waiting s' \<and> jobs s' = jobs s"
  by (auto simp: stuck_def waiting_def handle_interrupts_def handle_one_interrupt_def two_cpus upd_queue_def upd_cpu_def queue_of_def Let_def)

lemma waiting_steal:
  assumes "waiting s" and "static (jobs s) = static hang_jobs" and "steal_jobs hang_conf s = Inr s'" and "\<forall>k \<in> set (mdraws s). valid_draw k"
  shows "waiting s' \<and> jobs s' = jobs s"
proof -
  have "pick k (Suc 0) = 0" if "valid_draw k" for k using pick_less [OF that, of 1] by simp
  then show ?thesis
    using assms hang_job(1) [OF assms(2)]
    by (cases "mdraws s") (auto simp: waiting_def steal_jobs_def steal_for_def two_cpus py_choice_def in_job_tuple_def dict_get_def Let_def)
qed

lemma waiting_assign:
  assumes "waiting s" and "static (jobs s) = static hang_jobs" and "assign_jobs hang_conf s = Inr s'"
  shows "stuck s' \<and> jobs s' = jobs s"
  using assms hang_job [OF assms(2)]
  by (auto simp: waiting_def stuck_def assign_jobs_def get_job_def two_cpus queue_of_def runs_on_def dict_get_def upd_queue_def upd_cpu_def
      rbind_eq_Inr)

lemma stuck_run:
  assumes "stuck s" and "run_jobs hang_conf s = Inr s'"
  shows "stuck s'"
proof -
  obtain u v where s: "queues s = [[], [''a'']]" "cpus s = [u, v]" "sched_state v = IDLE" "system_time s > 0"
    "sched_state u = RUNNING \<and> sched_current u = ''b'' \<and> jobs_finished s = 0 \<or> sched_state u = IDLE \<and> jobs_finished s = 1"
    using assms(1) by (auto simp: stuck_def)
  show ?thesis
  proof (cases "sched_state u = RUNNING")
    case False
    then show ?thesis using assms s by (simp add: run_jobs_def two_cpus)
  next
    case True
    then obtain t where t: "run_one_tick hang_conf 0 s = Inr t" "(if sched_state (cpus t ! Suc 0) = RUNNING then run_one_tick hang_conf (Suc 0) t else Inr t) = Inr s'"
      using assms(2) s(2) True unfolding run_jobs_def by (auto simp: two_cpus rbind_eq_Inr)
    have "queues t = queues s \<and> system_time t = system_time s \<and> (\<exists>n. cpus t = [n, v] \<and>
        (sched_state n = RUNNING \<and> sched_current n = sched_current u \<and> jobs_finished t = jobs_finished s \<or>
         sched_state n = IDLE \<and> jobs_finished t = Suc (jobs_finished s)))"
      using t(1) s(2) True unfolding run_one_tick_def Let_def rbind_eq_Inr upd_cpu_def
      by (elim exE conjE) (auto split: if_splits)
    then show ?thesis using s t(2) True by (auto simp: stuck_def)
  qed
qed

lemma stuck_tick:
  assumes "stuck s" and st: "static (jobs s) = static hang_jobs" and "multi_tick hang_conf s = Inr s'" and v: "\<forall>k \<in> set (mdraws s). valid_draw k"
  shows "stuck s'"
proof -
  obtain a b c d where r: "handle_interrupts hang_conf s = Inr a" "steal_jobs hang_conf a = Inr b" "assign_jobs hang_conf b = Inr c"
    "run_jobs hang_conf c = Inr d" "s' = d\<lparr>system_time := system_time d + 1\<rparr>"
    using assms(3) unfolding multi_tick_def by (auto simp: rbind_eq_Inr)
  have m: "mdraws a = mdraws s"
    using r(1) by (auto simp: handle_interrupts_def handle_one_interrupt_def two_cpus upd_queue_def upd_cpu_def Let_def)
  have a: "waiting a" "jobs a = jobs s" using stuck_interrupts [OF assms(1) r(1)] by simp_all
  have b: "waiting b" "jobs b = jobs a" using waiting_steal [OF a(1) _ r(2)] a(2) st m v by simp_all
  have "stuck c" using waiting_assign [OF b(1) _ r(3)] a(2) b(2) st by simp
  then have "stuck d" by (rule stuck_run [OF _ r(4)])
  then show ?thesis unfolding r(5) by (auto simp: stuck_def)
qed

lemma stuck_loop:
  assumes "stuck s" and "multi_ok hang_conf 2 s" and "static (jobs s) = static hang_jobs"
    and "4 * fuel \<le> length (mdraws s)" and "\<forall>k \<in> set (mdraws s). valid_draw k"
  shows "multi_loop fuel hang_conf 2 s = Inl Out_Of_Fuel"
  using assms
proof (induction fuel arbitrary: s)
  case 0
  then have "jobs_finished s < 2" by (auto simp: stuck_def)
  then show ?case by (simp add: multi_loop.simps)
next
  case (Suc f)
  have fin: "jobs_finished s < 2" using Suc.prems(1) by (auto simp: stuck_def)
  have cf: "sane hang_conf" by (simp add: sane_def) (simp add: hang_conf_def multi_defaults_def)
  have calm: "calm False hang_conf (jobs s)" "homes False hang_conf s" by (simp_all add: calm_def homes_def)
  have ds: "2 * num_cpus hang_conf \<le> length (mdraws s)" using Suc.prems(4) by simp
  obtain t where t: "multi_tick hang_conf s = Inr t" "multi_ok hang_conf 2 t" "static (jobs t) = static (jobs s)"
    "length (mdraws s) \<le> length (mdraws t) + 2 * num_cpus hang_conf" "set (mdraws t) \<subseteq> set (mdraws s)"
    using multi_tick_ok [OF cf Suc.prems(2) calm(2,1) ds Suc.prems(5)] by blast
  have st: "stuck t" by (rule stuck_tick [OF Suc.prems(1,3) t(1) Suc.prems(5)])
  have "multi_loop f hang_conf 2 t = Inl Out_Of_Fuel"
    using Suc.IH [OF st t(2)] t(3-5) Suc.prems(3-5) by auto
  then show ?case using fin t(1) by (subst multi_loop.simps) simp
qed

definition hang_start :: "draw list \<Rightarrow> sched" where
  "hang_start ds = \<lparr>jobs = hang_jobs, queues = [[''b'', ''a''], []], cpus = [cpu_init, cpu_init], system_time = 0, jobs_finished = 0, mdraws = ds\<rparr>"

lemma hang_init: "multi_init 2 hang_conf ''b:40:5,a:100:1'' ''b:0,a:0'' 0 0 0 ds = Inr (hang_start ds, 2)"
  unfolding hang_start_def by code_simp

text \<open>The first tick starts \<open>b\<close>, at the second \<open>a\<close> is stolen.\<close>

definition hang_second :: "draw list \<Rightarrow> sched" where
  "hang_second ds =
     \<lparr>jobs = dict_set ''b'' (jb hang_jobs ''b''\<lparr>time_left := 39\<rparr>) hang_jobs, queues = [[''a''], []],
      cpus = [\<lparr>sched_state = RUNNING, sched_current = ''b'', stats_ran = 1, stats_ran_warm = 0,
        cpu_cache = \<lparr>cache_contents = [], cache_warming = [''b''], cache_warming_counter = [(''b'', 9)]\<rparr>\<rparr>, cpu_init],
      system_time = 1, jobs_finished = 0, mdraws = ds\<rparr>"

lemma hang_tick1: "multi_tick hang_conf (hang_start ds) = Inr (hang_second ds)"
  unfolding hang_start_def hang_second_def by code_simp

lemma hang_tick2:
  assumes k: "valid_draw k" and run: "multi_tick hang_conf (hang_second (k # ds)) = Inr s'"
  shows "stuck s'"
proof -
  have p: "pick k (Suc 0) = 0" using pick_less [OF k, of 1] by simp
  obtain a b c d where r: "handle_interrupts hang_conf (hang_second (k # ds)) = Inr a" "steal_jobs hang_conf a = Inr b"
    "assign_jobs hang_conf b = Inr c" "run_jobs hang_conf c = Inr d" "s' = d\<lparr>system_time := system_time d + 1\<rparr>"
    using run unfolding multi_tick_def by (auto simp: rbind_eq_Inr)
  have st: "static (jobs (hang_second (k # ds))) = static hang_jobs"
    by (rule ext) (simp add: hang_second_def static_def hang_jobs_def)
  have a: "queues a = [[''a'', ''b''], []]" "mdraws a = k # ds" "jobs a = jobs (hang_second (k # ds))" "jobs_finished a = 0" "system_time a = 1"
    "\<exists>u v. cpus a = [u, v] \<and> sched_state u = IDLE \<and> sched_state v = IDLE"
    using r(1) by (auto simp: hang_second_def handle_interrupts_def handle_one_interrupt_def two_cpus upd_queue_def upd_cpu_def queue_of_def
        cpu_init_def Let_def)
  have b: "waiting b \<and> jobs b = jobs a"
    using r(2) a p hang_job [OF st]
    by (auto simp: steal_jobs_def steal_for_def two_cpus py_choice_def in_job_tuple_def dict_get_def Let_def upd_queue_def waiting_def rbind_eq_Inr)
  have "stuck c" using waiting_assign [OF _ _ r(3)] b a(3) st by simp
  then have "stuck d" by (rule stuck_run [OF _ r(4)])
  then show ?thesis unfolding r(5) by (auto simp: stuck_def)
qed

text \<open>
  C23. Stealing tests the CPU number against the tuple of the job and not against its affinity: with two jobs bound to CPU 0,
  CPU 1 takes the one whose working set has size 1 and can neither run it nor give it back. The simulation goes on for ever:
  whatever the random numbers and however many steps are allowed, the loop is still running.
\<close>

theorem multi_steal_hangs:
  assumes "\<forall>k \<in> set ds. valid_draw k" and "4 * fuel \<le> length ds"
  shows "\<exists>s. multi_init 2 hang_conf ''b:40:5,a:100:1'' ''b:0,a:0'' 0 0 0 ds = Inr (s, 2) \<and> multi_loop fuel hang_conf 2 s = Inl Out_Of_Fuel"
proof -
  have cf: "sane hang_conf" by (simp add: sane_def) (simp add: hang_conf_def multi_defaults_def)
  have "multi_loop fuel hang_conf 2 (hang_start ds) = Inl Out_Of_Fuel"
  proof (cases fuel)
    case 0
    then show ?thesis by (simp add: multi_loop.simps hang_start_def)
  next
    case (Suc f)
    have l1: "multi_loop fuel hang_conf 2 (hang_start ds) = multi_loop f hang_conf 2 (hang_second ds)"
      using Suc hang_tick1 by (subst multi_loop.simps) (simp add: hang_start_def)
    show ?thesis
    proof (cases f)
      case 0
      then show ?thesis unfolding l1 by (simp add: multi_loop.simps hang_second_def)
    next
      case (Suc g)
      obtain k ds' where k: "ds = k # ds'" using assms(2) \<open>fuel = Suc f\<close> by (cases ds) auto
      have i: "multi_ok hang_conf 2 (hang_start ds)"
        using multi_init_ok [OF _ _ hang_init] cf by (simp add: sane_def)
      have hs: "calm False hang_conf (jobs s)" "homes False hang_conf s" for s by (simp_all add: calm_def homes_def)
      have d: "2 * num_cpus hang_conf \<le> length ds" using assms(2) \<open>fuel = Suc f\<close> by simp
      obtain s1 where s1: "multi_tick hang_conf (hang_start ds) = Inr s1" "multi_ok hang_conf 2 s1" "static (jobs s1) = static (jobs (hang_start ds))"
        using multi_tick_ok [OF cf i hs(2,1)] d assms(1) by (auto simp: hang_start_def)
      then have ok: "multi_ok hang_conf 2 (hang_second ds)" "static (jobs (hang_second ds)) = static hang_jobs"
        using hang_tick1 by (simp_all add: hang_start_def)
      obtain t where t: "multi_tick hang_conf (hang_second ds) = Inr t" "multi_ok hang_conf 2 t" "static (jobs t) = static (jobs (hang_second ds))"
        "length ds \<le> length (mdraws t) + 4" "set (mdraws t) \<subseteq> set ds"
        using multi_tick_ok [OF cf ok(1) hs(2,1)] d assms(1) by (auto simp: hang_second_def)
      have "stuck t" using hang_tick2 [of k ds' t] t(1) assms(1) k by simp
      then have "multi_loop g hang_conf 2 t = Inl Out_Of_Fuel"
        using stuck_loop [of t g] t ok(2) assms \<open>fuel = Suc f\<close> Suc by auto
      moreover have "multi_loop f hang_conf 2 (hang_second ds) = multi_loop g hang_conf 2 t"
        using Suc t(1) by (subst multi_loop.simps) (simp add: hang_second_def)
      ultimately show ?thesis using l1 by simp
    qed
  qed
  then show ?thesis using hang_init by blast
qed

theorem multi_steal_hangs_witness:
  "\<exists>s. multi_init 2 hang_conf ''b:40:5,a:100:1'' ''b:0,a:0'' 0 0 0 (replicate 4000 0) = Inr (s, 2) \<and>
     multi_loop 1000 hang_conf 2 s = Inl Out_Of_Fuel"
  by (rule multi_steal_hangs) (auto simp: valid_draw_def)

text \<open>
  With one CPU and its own queue, as with \<open>-n 1 -p -q 7 -L a:100:1\<close>, the program dies with an IndexError at time 30, the first time
  it wants to steal: there is no other CPU to choose from.
\<close>

theorem multi_one_cpu_steal_fails:
  "multi_main 31 (multi_defaults\<lparr>o_job_list := ''a:100:1'',
     o_conf := (o_conf multi_defaults)\<lparr>per_cpu_queues := True, num_cpus := 1, time_slice := 7\<rparr>\<rparr>) ds = Inl IndexError"
  by code_simp

end
