(* ===== verification/AddrTrans.thy ===== *)
theory AddrTrans
  imports PyString
begin

unbundle bit_operations_syntax

text \<open>
  Address translation by registers and by a linear table: \<open>vm-mechanism/relocation.py\<close> (base and bounds),
  \<open>vm-segmentation/segmentation.py\<close> (two segments) and \<open>vm-paging/paging-linear-translate.py\<close>. A translation is shown to stay in its
  segment or page and never to send two addresses to one place, under the checks that the programs make or, where these miss a case,
  the checks they should make.
\<close>

section \<open>Sizes and registers\<close>

definition convert :: "string \<Rightarrow> int res" where
  "convert s =
     (if s = [] then Inl IndexError
      else let lastchar = last s in
        if lastchar = CHR ''k'' \<or> lastchar = CHR ''K'' then rbind (py_int (butlast s)) (\<lambda>n. Inr (n * 1024))
        else if lastchar = CHR ''m'' \<or> lastchar = CHR ''M'' then rbind (py_int (butlast s)) (\<lambda>n. Inr (n * (1024 * 1024)))
        else if lastchar = CHR ''g'' \<or> lastchar = CHR ''G'' then rbind (py_int (butlast s)) (\<lambda>n. Inr (n * (1024 * 1024 * 1024)))
        else py_int s)"

definition abort_if :: "bool \<Rightarrow> unit res" where
  "abort_if condition = (if condition then Inl (SystemExit 1) else Inr ())"

text \<open>\<open>int(asize/4.0 + (asize/4.0 * random.random()))\<close>.\<close>

definition random_len :: "int \<Rightarrow> draw \<Rightarrow> int" where
  "random_len asize k = trunc_div (asize * (2 ^ 53 + int k)) (2 ^ 55)"

fun find_base :: "int \<Rightarrow> int \<Rightarrow> draw list \<Rightarrow> (int \<times> draw list) res" where
  "find_base psize limit [] = Inl Out_Of_Draws"
| "find_base psize limit (k # ds) =
     (let base = pick_int k psize in if base + limit < psize then Inr (base, ds) else find_base psize limit ds)"

datatype reply = Unanswered | Violation | Valid int

section \<open>Base and bounds\<close>

record reloc_options =
  ro_asize :: string
  ro_psize :: string
  ro_num :: int
  ro_base :: string
  ro_limit :: string
  ro_solve :: bool

definition reloc_defaults :: reloc_options where
  "reloc_defaults = \<lparr>ro_asize = ''1k'', ro_psize = ''16k'', ro_num = 5, ro_base = ''-1'', ro_limit = ''-1'', ro_solve = False\<rparr>"

definition reloc_translate :: "int \<Rightarrow> int \<Rightarrow> int \<Rightarrow> reply" where
  "reloc_translate base limit vaddr = (if vaddr \<ge> limit then Violation else Valid (vaddr + base))"

definition reloc_line :: "bool \<Rightarrow> int \<Rightarrow> int \<Rightarrow> int \<Rightarrow> nat \<Rightarrow> (int \<times> reply) list \<times> draw list \<Rightarrow> ((int \<times> reply) list \<times> draw list) res" where
  "reloc_line solve asize base limit i = (\<lambda>(out, ds). rbind (next_draw ds) (\<lambda>(k, ds).
     let vaddr = pick_int k asize in Inr (out @ [(vaddr, if solve then reloc_translate base limit vaddr else Unanswered)], ds)))"

text \<open>The registers and the answers that the program prints.\<close>

definition relocation_main :: "reloc_options \<Rightarrow> draw list \<Rightarrow> (int \<times> int \<times> (int \<times> reply) list) res" where
  "relocation_main opt ds =
     rbind (convert (ro_asize opt)) (\<lambda>asize. rbind (convert (ro_psize opt)) (\<lambda>psize.
     if psize \<le> 1 then Inl (SystemExit 1) else if asize = 0 then Inl (SystemExit 1) else if psize \<le> asize then Inl (SystemExit 1)
     else
       rbind (convert (ro_limit opt)) (\<lambda>limit. rbind (convert (ro_base opt)) (\<lambda>base.
       rbind (if limit = - 1 then rbind (next_draw ds) (\<lambda>(k, ds). Inr (random_len asize k, ds)) else Inr (limit, ds)) (\<lambda>(limit, ds).
       rbind (if base = - 1 then find_base psize limit ds else Inr (base, ds)) (\<lambda>(base, ds).
       if base + limit > psize then Inl (SystemExit 1)
       else rbind (rfold (reloc_line (ro_solve opt) asize base limit) [0..<nat (ro_num opt)] ([], ds)) (\<lambda>(out, ds). Inr (base, limit, out))))))))"

section \<open>Two segments\<close>

record seg_options =
  so_addresses :: string
  so_asize :: string
  so_psize :: string
  so_num :: int
  so_base0 :: string
  so_len0 :: string
  so_base1 :: string
  so_len1 :: string
  so_solve :: bool

definition seg_defaults :: seg_options where
  "seg_defaults = \<lparr>so_addresses = ''-1'', so_asize = ''1k'', so_psize = ''16k'', so_num = 5, so_base0 = ''-1'', so_len0 = ''-1'',
     so_base1 = ''-1'', so_len1 = ''-1'', so_solve = False\<rparr>"

text \<open>\<open>base1\<close> is the lower end of segment 1, which grows downwards from \<open>base1 + len1\<close>.\<close>

record seg_regs =
  base0 :: int
  len0 :: int
  base1 :: int
  len1 :: int

datatype seg_reply = SEG0 reply | SEG1 reply | Not_Asked

fun find_base1 :: "int \<Rightarrow> int \<Rightarrow> int \<Rightarrow> int \<Rightarrow> draw list \<Rightarrow> (int \<times> draw list) res" where
  "find_base1 psize b0 l0 l1 [] = Inl Out_Of_Draws"
| "find_base1 psize b0 l0 l1 (k # ds) =
     (let b1 = pick_int k psize in
      if b1 + l1 < psize \<and> (b1 > b0 + l0 \<or> b1 + l1 < b0) then Inr (b1, ds) else find_base1 psize b0 l0 l1 ds)"

definition pick_len :: "int \<Rightarrow> int \<Rightarrow> draw list \<Rightarrow> (int \<times> draw list) res" where
  "pick_len asize l ds = (if l = - 1 then rbind (next_draw ds) (\<lambda>(k, ds). Inr (random_len asize k, ds)) else Inr (l, ds))"

definition seg_registers :: "seg_options \<Rightarrow> int \<Rightarrow> int \<Rightarrow> draw list \<Rightarrow> (seg_regs \<times> draw list) res" where
  "seg_registers opt asize psize ds =
     rbind (convert (so_len0 opt)) (\<lambda>l0. rbind (convert (so_len1 opt)) (\<lambda>l1.
     rbind (convert (so_base0 opt)) (\<lambda>b0. rbind (convert (so_base1 opt)) (\<lambda>b1.
     rbind (pick_len asize l0 ds) (\<lambda>(l0, ds). rbind (pick_len asize l1 ds) (\<lambda>(l1, ds).
     rbind (abort_if ((b0 = - 1 \<or> b1 = - 1) \<and> psize \<le> 2 * asize)) (\<lambda>_.
     rbind (if b0 = - 1 then find_base psize l0 ds else Inr (b0, ds)) (\<lambda>(b0, ds).
     rbind (if b1 = - 1 then find_base1 psize b0 l0 l1 ds else Inr (b1 - l1, ds)) (\<lambda>(b1, ds).
     rbind (abort_if (psize < b0 + l0 - 1)) (\<lambda>_. rbind (abort_if (psize < b1)) (\<lambda>_.
     rbind (abort_if (2 * l0 > asize)) (\<lambda>_. rbind (abort_if (2 * l1 > asize)) (\<lambda>_.
     rbind (abort_if (l0 + b0 > b1 \<and> b1 > b0)) (\<lambda>_.
     Inr (\<lparr>base0 = b0, len0 = l0, base1 = b1, len1 = l1\<rparr>, ds)))))))))))))))"

definition seg_translate :: "int \<Rightarrow> seg_regs \<Rightarrow> int \<Rightarrow> seg_reply" where
  "seg_translate asize r vaddr =
     (if 2 * vaddr \<ge> asize then
        let paddr = base1 r + len1 r + (vaddr - asize)
        in SEG1 (if paddr < base1 r then Violation else Valid paddr)
      else SEG0 (if vaddr \<ge> len0 r then Violation else Valid (vaddr + base0 r)))"

text \<open>Generated addresses are numbers, given ones are converted when they are used.\<close>

definition gen_addrs :: "int \<Rightarrow> int \<Rightarrow> draw list \<Rightarrow> (int res list \<times> draw list) res" where
  "gen_addrs asize num ds =
     rfold (\<lambda>_ (l, ds). rbind (next_draw ds) (\<lambda>(k, ds). Inr (l @ [Inr (pick_int k asize)], ds))) [0..<nat num] ([], ds)"

definition addr_list :: "string \<Rightarrow> int \<Rightarrow> int \<Rightarrow> draw list \<Rightarrow> (int res list \<times> draw list) res" where
  "addr_list addresses asize num ds =
     (if addresses = ''-1'' then gen_addrs asize num ds else Inr (map py_int (py_split CHR '','' addresses), ds))"

definition seg_line :: "bool \<Rightarrow> int \<Rightarrow> seg_regs \<Rightarrow> int res \<Rightarrow> (int \<times> seg_reply) list \<Rightarrow> (int \<times> seg_reply) list res" where
  "seg_line solve asize r vstr out = rbind vstr (\<lambda>vaddr.
     if vaddr < 0 \<or> vaddr \<ge> asize then Inl (SystemExit 1)
     else Inr (out @ [(vaddr, if solve then seg_translate asize r vaddr else Not_Asked)]))"

definition segmentation_main :: "seg_options \<Rightarrow> draw list \<Rightarrow> (seg_regs \<times> (int \<times> seg_reply) list) res" where
  "segmentation_main opt ds =
     rbind (convert (so_asize opt)) (\<lambda>asize. rbind (convert (so_psize opt)) (\<lambda>psize.
     rbind (abort_if (psize \<le> 4)) (\<lambda>_. rbind (abort_if (asize = 0)) (\<lambda>_. rbind (abort_if (psize \<le> asize)) (\<lambda>_.
     rbind (seg_registers opt asize psize ds) (\<lambda>(r, ds).
     rbind (addr_list (so_addresses opt) asize (so_num opt) ds) (\<lambda>(l, ds).
     rbind (rfold (seg_line (so_solve opt) asize r) l []) (\<lambda>out. Inr (r, out)))))))))"

section \<open>A linear page table\<close>

record lin_options =
  lo_addresses :: string
  lo_asize :: string
  lo_psize :: string
  lo_pagesize :: string
  lo_num :: int
  lo_used :: int
  lo_solve :: bool

definition lin_defaults :: lin_options where
  "lin_defaults = \<lparr>lo_addresses = ''-1'', lo_asize = ''16k'', lo_psize = ''64k'', lo_pagesize = ''4k'', lo_num = 5, lo_used = 50, lo_solve = False\<rparr>"

text \<open>\<open>int(math.log(n) / math.log(2))\<close>, with the logarithm taken exactly.\<close>

fun int_log2 :: "nat \<Rightarrow> nat" where
  "int_log2 n = (if n \<le> 1 then 0 else Suc (int_log2 (n div 2)))"

declare int_log2.simps [simp del]

definition mustbepowerof2 :: "nat \<Rightarrow> int \<Rightarrow> unit res" where
  "mustbepowerof2 bits sz = (if 2 ^ bits \<noteq> sz then Inl (SystemExit 1) else Inr ())"

definition mustbemultipleof :: "int \<Rightarrow> int \<Rightarrow> unit res" where
  "mustbemultipleof bignum num =
     (if num = 0 then Inl ZeroDivisionError else if trunc_div bignum num * num \<noteq> bignum then Inl (SystemExit 1) else Inr ())"

definition log_bits :: "int \<Rightarrow> nat res" where
  "log_bits n = (if n \<le> 0 then Inl ValueError else Inr (int_log2 (nat n)))"

text \<open>One entry of the table: a free page of the memory, or not valid.\<close>

fun fill_entry :: "nat \<Rightarrow> int \<Rightarrow> bool list \<Rightarrow> draw list \<Rightarrow> (int \<times> bool list \<times> draw list) res" where
  "fill_entry pages pct used [] = Inl Out_Of_Draws"
| "fill_entry pages pct used (k # ds) =
     (if int k * 100 > (100 - pct) * 2 ^ 53 then
        case ds of
          [] \<Rightarrow> Inl Out_Of_Draws
        | k2 # ds2 \<Rightarrow>
            let u = pick k2 pages in
            rbind (py_get used (int u)) (\<lambda>b. if \<not> b then Inr (int u, used[u := True], ds2) else fill_entry pages pct used ds2)
      else Inr (- 1, used, ds))"

definition fill_step :: "nat \<Rightarrow> int \<Rightarrow> nat \<Rightarrow> int list \<times> bool list \<times> draw list \<Rightarrow> (int list \<times> bool list \<times> draw list) res" where
  "fill_step pages pct v = (\<lambda>(pt, used, ds). rbind (fill_entry pages pct used ds) (\<lambda>(e, used, ds). Inr (pt @ [e], used, ds)))"

definition fill_table :: "nat \<Rightarrow> int \<Rightarrow> nat \<Rightarrow> draw list \<Rightarrow> (int list \<times> bool list \<times> draw list) res" where
  "fill_table pages pct vpages ds =
     rfold (fill_step pages pct) [0..<vpages] ([], replicate pages False, ds)"

definition pagemask :: "nat \<Rightarrow> int" where
  "pagemask pagebits = push_bit pagebits 1 - 1"

definition vpnmask :: "nat \<Rightarrow> int" where
  "vpnmask pagebits = 0xFFFFFFFF AND NOT (pagemask pagebits)"

datatype lin_reply = Not_Solved | Not_Valid int | Mapped int int

text \<open>The reply names the virtual page; a valid one has the physical address first.\<close>

definition lin_translate :: "nat \<Rightarrow> int list \<Rightarrow> int \<Rightarrow> lin_reply res" where
  "lin_translate pagebits pt vaddr =
     (let vpn = drop_bit pagebits (vaddr AND vpnmask pagebits) in
      rbind (py_get pt vpn) (\<lambda>e.
      if e < 0 then Inr (Not_Valid vpn)
      else let pfn = e; offset = vaddr AND pagemask pagebits in Inr (Mapped (push_bit pagebits pfn OR offset) vpn)))"

definition lin_line :: "bool \<Rightarrow> nat \<Rightarrow> int list \<Rightarrow> int res \<Rightarrow> (int \<times> lin_reply) list \<Rightarrow> (int \<times> lin_reply) list res" where
  "lin_line solve pagebits pt vstr out = rbind vstr (\<lambda>vaddr.
     if \<not> solve then Inr (out @ [(vaddr, Not_Solved)]) else rbind (lin_translate pagebits pt vaddr) (\<lambda>r. Inr (out @ [(vaddr, r)])))"

definition linear_main :: "lin_options \<Rightarrow> draw list \<Rightarrow> (int list \<times> (int \<times> lin_reply) list) res" where
  "linear_main opt ds =
     rbind (convert (lo_asize opt)) (\<lambda>asize. rbind (convert (lo_psize opt)) (\<lambda>psize. rbind (convert (lo_pagesize opt)) (\<lambda>pagesize.
     rbind (abort_if (psize \<le> 1)) (\<lambda>_. rbind (abort_if (asize < 1)) (\<lambda>_. rbind (abort_if (psize \<le> asize)) (\<lambda>_.
     rbind (convert ''1g'') (\<lambda>g. rbind (abort_if (psize \<ge> g \<or> asize \<ge> g)) (\<lambda>_.
     rbind (mustbemultipleof asize pagesize) (\<lambda>_. rbind (mustbemultipleof psize pagesize) (\<lambda>_.
     let pages = nat (trunc_div psize pagesize); vpages = nat (trunc_div asize pagesize) in
     rbind (log_bits asize) (\<lambda>vabits. rbind (mustbepowerof2 vabits asize) (\<lambda>_.
     rbind (log_bits pagesize) (\<lambda>pagebits. rbind (mustbepowerof2 pagebits pagesize) (\<lambda>_.
     rbind (fill_table pages (lo_used opt) vpages ds) (\<lambda>(pt, used, ds).
     rbind (addr_list (lo_addresses opt) asize (lo_num opt) ds) (\<lambda>(l, ds).
     rbind (rfold (lin_line (lo_solve opt) pagebits pt) l []) (\<lambda>out. Inr (pt, out))))))))))))))))))"

section \<open>Registers\<close>

lemma abort_if_Inr [simp]: "abort_if b = Inr u \<longleftrightarrow> \<not> b"
  by (simp add: abort_if_def)

lemma find_base_Inr:
  "find_base psize limit ds = Inr (base, ds') \<Longrightarrow> 0 \<le> psize \<Longrightarrow> 0 \<le> base \<and> base + limit < psize \<and> set ds' \<subseteq> set ds"
  by (induction ds) (auto simp: Let_def pick_int_nonneg split: if_splits)

lemma find_base1_Inr:
  "find_base1 psize b0 l0 l1 ds = Inr (b1, ds') \<Longrightarrow> 0 \<le> psize \<Longrightarrow>
   0 \<le> b1 \<and> b1 + l1 < psize \<and> (b1 > b0 + l0 \<or> b1 + l1 < b0) \<and> set ds' \<subseteq> set ds"
  by (induction ds) (auto simp: Let_def pick_int_nonneg split: if_splits)

lemma next_draw_Inr: "next_draw ds = Inr (k, ds') \<longleftrightarrow> ds = k # ds'"
  by (cases ds) auto

lemma reloc_lines:
  assumes "0 < asize" and "\<forall>k \<in> set ds. valid_draw k" and "rfold (reloc_line solve asize base limit) is ([], ds) = Inr (out, ds')"
  shows "\<forall>(va, r) \<in> set out. 0 \<le> va \<and> va < asize \<and> r = (if solve then reloc_translate base limit va else Unanswered)"
proof -
  define P where "P = (\<lambda>(out, ds). (\<forall>k \<in> set ds. valid_draw k) \<and>
    (\<forall>va r. (va, r) \<in> set out \<longrightarrow> 0 \<le> va \<and> va < asize \<and> r = (if solve then reloc_translate base limit va else Unanswered)))"
  have "P (out, ds')"
  proof (rule rfold_inv [where P = P, OF _ _ assms(3)])
    fix i s s' assume "P s" "reloc_line solve asize base limit i s = Inr s'"
    then show "P s'" using pick_int_range [OF _ assms(1)]
      by (cases s) (auto simp: P_def reloc_line_def rbind_eq_Inr next_draw_Inr Let_def)
  qed (use assms(2) in \<open>simp add: P_def\<close>)
  then show ?thesis by (auto simp: P_def)
qed

text \<open>
  Base and bounds isolate the process: the region of a base that the program found lies in the physical memory, every address below
  the limit is translated into the region, and every other address of the address space is a violation.
\<close>

theorem relocation_isolates:
  assumes "relocation_main opt ds = Inr (base, limit, out)" and "ro_solve opt" and "\<forall>k \<in> set ds. valid_draw k"
    and "convert (ro_asize opt) = Inr asize" and "convert (ro_psize opt) = Inr psize" and "0 < asize"
    and "convert (ro_base opt) = Inr (- 1)" and "(va, r) \<in> set out"
  shows "0 \<le> va \<and> va < asize \<and> 0 \<le> base \<and> base + limit < psize \<and>
    (if va < limit then r = Valid (base + va) \<and> base \<le> base + va \<and> base + va < base + limit else r = Violation)"
proof -
  obtain l0 ds1 ds2 ds3 where *: "convert (ro_limit opt) = Inr l0" "\<not> psize \<le> 1"
    "(if l0 = - 1 then rbind (next_draw ds) (\<lambda>(k, ds). Inr (random_len asize k, ds)) else Inr (l0, ds)) = Inr (limit, ds1)"
    "find_base psize limit ds1 = Inr (base, ds2)"
    "rfold (reloc_line (ro_solve opt) asize base limit) [0..<nat (ro_num opt)] ([], ds2) = Inr (out, ds3)"
    using assms(1,4,5,7) unfolding relocation_main_def by (auto simp: rbind_eq_Inr split: if_splits)
  have "set ds1 \<subseteq> set ds" using *(3) by (auto simp: rbind_eq_Inr next_draw_Inr split: if_splits)
  then have v: "\<forall>k \<in> set ds2. valid_draw k" using find_base_Inr [OF *(4)] *(2) assms(3) by auto
  have "0 \<le> base \<and> base + limit < psize" using find_base_Inr [OF *(4)] *(2) by simp
  moreover have "0 \<le> va \<and> va < asize \<and> r = reloc_translate base limit va"
    using reloc_lines [OF assms(6) v *(5)] assms(2,8) by auto
  ultimately show ?thesis by (auto simp: reloc_translate_def)
qed

theorem relocation_isolates_witness:
  "relocation_main (reloc_defaults\<lparr>ro_limit := ''512'', ro_num := 1, ro_solve := True\<rparr>) [2 ^ 52, 2 ^ 51] = Inr (8192, 512, [(256, Valid 8448)]) \<and>
   0 \<le> (256 :: int) \<and> (256 :: int) < 1024 \<and> (8448 :: int) < 8192 + 512"
proof -
  have c: "convert ''1k'' = Inr 1024" "convert ''16k'' = Inr 16384" "convert ''-1'' = Inr (- 1)" "convert ''512'' = Inr 512" by code_simp+
  have m: "relocation_main (reloc_defaults\<lparr>ro_limit := ''512'', ro_num := 1, ro_solve := True\<rparr>) [2 ^ 52, 2 ^ 51] = Inr (8192, 512, [(256, Valid 8448)])"
    using c by (simp add: relocation_main_def reloc_defaults_def pick_int_def pick_def reloc_line_def reloc_translate_def Let_def)
  with c show ?thesis
    using relocation_isolates [OF m, of 1024 16384 256 "Valid 8448"] by (simp add: reloc_defaults_def valid_draw_def)
qed

text \<open>
  With a limit as large as the physical memory, as with \<open>-l 16k\<close>, the search for a base never ends: no supply of random numbers
  is enough. The check that the region fits comes only after the search.
\<close>

theorem relocation_search_hangs:
  "relocation_main (reloc_defaults\<lparr>ro_limit := ''16k''\<rparr>) ds = Inl Out_Of_Draws"
proof -
  have c: "convert ''1k'' = Inr 1024" "convert ''16k'' = Inr 16384" "convert ''-1'' = Inr (- 1)" by code_simp+
  have "0 \<le> pick_int k 16384" for k by (rule pick_int_nonneg) simp
  then have "find_base 16384 16384 ds = Inl Out_Of_Draws" by (induction ds) (simp_all add: Let_def not_less)
  then show ?thesis using c by (simp add: relocation_main_def reloc_defaults_def)
qed

section \<open>Segments\<close>

lemma seg_lines:
  assumes "rfold (seg_line True asize r) l [] = Inr out"
  shows "\<forall>(va, a) \<in> set out. 0 \<le> va \<and> va < asize \<and> a = seg_translate asize r va"
proof -
  define P where "P = (\<lambda>out. \<forall>(va, a) \<in> set out. 0 \<le> va \<and> va < asize \<and> a = seg_translate asize r va)"
  have "P out"
  proof (rule rfold_inv [where P = P, OF _ _ assms])
    fix v s s' assume "P s" "seg_line True asize r v s = Inr s'"
    then show "P s'" by (auto simp: P_def seg_line_def rbind_eq_Inr split: if_splits)
  qed (simp add: P_def)
  then show ?thesis by (simp add: P_def)
qed

lemma seg_regs_random:
  assumes "seg_registers opt asize psize ds = Inr (r, ds')" and "convert (so_base0 opt) = Inr (- 1)" and "convert (so_base1 opt) = Inr (- 1)"
    and "0 \<le> psize"
  shows "0 \<le> base0 r \<and> base0 r + len0 r < psize \<and> 0 \<le> base1 r \<and> base1 r + len1 r < psize \<and>
    (base1 r > base0 r + len0 r \<or> base1 r + len1 r < base0 r)"
proof -
  obtain l0 l1 ds1 b0 ds2 b1 where *: "find_base psize l0 ds1 = Inr (b0, ds2)" "find_base1 psize b0 l0 l1 ds2 = Inr (b1, ds')"
    "r = \<lparr>base0 = b0, len0 = l0, base1 = b1, len1 = l1\<rparr>"
    using assms(1-3) unfolding seg_registers_def by (auto simp: rbind_eq_Inr)
  then show ?thesis using find_base_Inr [OF *(1)] find_base1_Inr [OF *(2)] assms(4) by simp
qed

definition place_of :: "seg_reply \<Rightarrow> int option" where
  "place_of a = (case a of SEG0 (Valid p) \<Rightarrow> Some p | SEG1 (Valid p) \<Rightarrow> Some p | _ \<Rightarrow> None)"

lemma place_of_translate:
  "place_of (seg_translate asize r va) =
     (if 2 * va \<ge> asize then if va - asize < - len1 r then None else Some (base1 r + len1 r + (va - asize))
      else if va \<ge> len0 r then None else Some (va + base0 r))"
  by (auto simp: place_of_def seg_translate_def)

text \<open>
  C30. With segments that the program placed, two addresses of a trace never share a place: every valid translation lies inside
  its segment and inside the physical memory, and different virtual addresses have different physical addresses.
\<close>

theorem segments_separate:
  assumes "segmentation_main opt ds = Inr (r, out)" and "so_solve opt"
    and "convert (so_base0 opt) = Inr (- 1)" and "convert (so_base1 opt) = Inr (- 1)" and "convert (so_psize opt) = Inr psize"
    and "(va, a) \<in> set out" and "place_of a = Some p"
  shows "0 \<le> p \<and> p < psize \<and> (case a of SEG0 _ \<Rightarrow> base0 r \<le> p \<and> p < base0 r + len0 r | SEG1 _ \<Rightarrow> base1 r \<le> p \<and> p < base1 r + len1 r | _ \<Rightarrow> False) \<and>
    (\<forall>(va', a') \<in> set out. place_of a' = Some p \<longrightarrow> va' = va)"
proof -
  obtain asize ds1 l ds2 where *: "\<not> psize \<le> 4" "seg_registers opt asize psize ds = Inr (r, ds1)" "rfold (seg_line True asize r) l [] = Inr out"
    using assms(1,2,5) unfolding segmentation_main_def by (auto simp: rbind_eq_Inr)
  note reg = seg_regs_random [OF *(2) assms(3,4)]
  have sep: "0 \<le> base0 r" "base0 r + len0 r < psize" "0 \<le> base1 r" "base1 r + len1 r < psize"
    "base1 r > base0 r + len0 r \<or> base1 r + len1 r < base0 r"
    using reg *(1) by auto
  have va: "0 \<le> va" "va < asize" "a = seg_translate asize r va" using seg_lines [OF *(3)] assms(6) by auto
  have p: "place_of (seg_translate asize r va) = Some p" using assms(7) va(3) by simp
  have "va' = va" if "(va', a') \<in> set out" "place_of a' = Some p" for va' a'
  proof -
    have va': "0 \<le> va'" "va' < asize" "a' = seg_translate asize r va'" using seg_lines [OF *(3)] that(1) by auto
    then show ?thesis using p that(2) sep va(1,2) unfolding va'(3) place_of_translate by (auto split: if_splits)
  qed
  moreover have "0 \<le> p \<and> p < psize \<and>
      (case a of SEG0 _ \<Rightarrow> base0 r \<le> p \<and> p < base0 r + len0 r | SEG1 _ \<Rightarrow> base1 r \<le> p \<and> p < base1 r + len1 r | _ \<Rightarrow> False)"
    using p sep va unfolding place_of_translate by (auto simp: seg_translate_def Let_def split: if_splits)
  ultimately show ?thesis by blast
qed

theorem segments_separate_witness:
  "\<exists>r out. segmentation_main (seg_defaults\<lparr>so_len0 := ''512'', so_len1 := ''512'', so_addresses := ''3,1023'', so_solve := True\<rparr>) [0, 2 ^ 52] = Inr (r, out) \<and>
     (3, SEG0 (Valid 3)) \<in> set out \<and> (3 :: int) < 16384"
proof -
  let ?o = "seg_defaults\<lparr>so_len0 := ''512'', so_len1 := ''512'', so_addresses := ''3,1023'', so_solve := True\<rparr>"
  have c: "convert ''1k'' = Inr 1024" "convert ''16k'' = Inr 16384" "convert ''-1'' = Inr (- 1)" "convert ''512'' = Inr 512"
    "map py_int (py_split CHR '','' ''3,1023'') = [Inr 3, Inr 1023]" by code_simp+
  have m: "segmentation_main ?o [0, 2 ^ 52] = Inr (\<lparr>base0 = 0, len0 = 512, base1 = 8192, len1 = 512\<rparr>, [(3, SEG0 (Valid 3)), (1023, SEG1 (Valid 8703))])"
    using c by (simp add: segmentation_main_def seg_registers_def seg_defaults_def pick_len_def pick_int_def pick_def addr_list_def seg_line_def
        seg_translate_def abort_if_def Let_def)
  have "(3 :: int) < 16384"
    using segments_separate [OF m, of 16384 3 "SEG0 (Valid 3)" 3] c by (simp add: seg_defaults_def place_of_def)
  then show ?thesis using m by auto
qed

text \<open>
  The checks on segments that the user places miss cases: segment 1 may start at or below segment 0 and overlap it, so that two
  virtual addresses have the same physical address, and segment 0 may end one byte beyond the physical memory.
\<close>

theorem segment_checks_miss:
  "segmentation_main (seg_defaults\<lparr>so_base0 := ''0'', so_len0 := ''512'', so_base1 := ''512'', so_len1 := ''512'',
       so_addresses := ''0,512'', so_solve := True\<rparr>) [] =
     Inr (\<lparr>base0 = 0, len0 = 512, base1 = 0, len1 = 512\<rparr>, [(0, SEG0 (Valid 0)), (512, SEG1 (Valid 0))]) \<and>
   segmentation_main (seg_defaults\<lparr>so_base0 := ''16285'', so_len0 := ''100'', so_base1 := ''512'', so_len1 := ''512'',
       so_addresses := ''99'', so_solve := True\<rparr>) [] =
     Inr (\<lparr>base0 = 16285, len0 = 100, base1 = 0, len1 = 512\<rparr>, [(99, SEG0 (Valid 16384))]) \<and>
   convert (so_psize seg_defaults) = Inr 16384"
proof -
  have c: "convert ''1k'' = Inr 1024" "convert ''16k'' = Inr 16384" "convert ''512'' = Inr 512" "convert ''0'' = Inr 0" "convert ''100'' = Inr 100"
    "map py_int (py_split CHR '','' ''0,512'') = [Inr 0, Inr 512]" "map py_int (py_split CHR '','' ''99'') = [Inr 99]"
    by code_simp+
  have "convert ''16285'' = Inr 16285"
    by (simp add: convert_def py_int_def nat_text_def isdigit_def is_digit_def digit_val_def strip_def lstrip_def rstrip_def is_space_def)
  then show ?thesis
    using c by (simp add: segmentation_main_def seg_registers_def seg_defaults_def pick_len_def addr_list_def seg_line_def seg_translate_def
        abort_if_def Let_def)
qed

section \<open>Pages\<close>

lemma fill_entry_Inr:
  assumes "fill_entry pages pct used ds = Inr (e, used', ds')"
  shows "set ds' \<subseteq> set ds \<and> (e = - 1 \<and> used' = used \<or> (\<exists>u < length used. e = int u \<and> \<not> used ! u \<and> used' = used[u := True]))"
  using assms
proof (induction pages pct used ds rule: fill_entry.induct)
  case (2 pages pct used k ds)
  show ?case
  proof (cases "int k * 100 > (100 - pct) * 2 ^ 53")
    case True
    then obtain k2 ds2 where ds: "ds = k2 # ds2" using 2(2) by (cases ds) auto
    define u where "u = pick k2 pages"
    have b: "rbind (py_get used (int u)) (\<lambda>b. if \<not> b then Inr (int u, used[u := True], ds2) else fill_entry pages pct used ds2) = Inr (e, used', ds')"
      using 2(2) True unfolding u_def by (simp add: ds Let_def)
    then have u: "u < length used" by (auto simp: py_get_nat split: if_splits)
    show ?thesis
    proof (cases "used ! u")
      case False
      then show ?thesis using b u by (auto simp: py_get_nat ds)
    next
      case t: True
      have "fill_entry pages pct used ds2 = Inr (e, used', ds')" using b u t by (simp add: py_get_nat)
      moreover have "set ds2 \<subseteq> set (k # ds)" by (auto simp: ds)
      ultimately show ?thesis
        using 2(1) [OF True ds, of u "used ! u"] u t by (fastforce simp: u_def [symmetric] py_get_nat ds)
    qed
  qed (use 2(2) in auto)
qed simp

definition table_ok :: "nat \<Rightarrow> int list \<Rightarrow> bool list \<Rightarrow> bool" where
  "table_ok pages pt used \<longleftrightarrow> length used = pages \<and> (\<forall>e \<in> set pt. e = - 1 \<or> 0 \<le> e \<and> e < int pages \<and> used ! nat e) \<and>
     (\<forall>i j. i < length pt \<longrightarrow> j < length pt \<longrightarrow> pt ! i = pt ! j \<longrightarrow> 0 \<le> pt ! i \<longrightarrow> i = j)"

lemma table_ok_append:
  assumes ok: "table_ok pages pt used" and e: "e = - 1 \<and> used' = used \<or> (\<exists>u < length used. e = int u \<and> \<not> used ! u \<and> used' = used[u := True])"
  shows "table_ok pages (pt @ [e]) used'"
proof -
  have len: "length used' = pages" using ok e by (auto simp: table_ok_def)
  have keep: "used' ! k" if "used ! k" "k < pages" for k using that e ok by (auto simp: table_ok_def nth_list_update)
  have ent: "x = - 1 \<or> 0 \<le> x \<and> x < int pages \<and> used' ! nat x" if "x \<in> set (pt @ [e])" for x
  proof (cases "x \<in> set pt")
    case True
    then have "x = - 1 \<or> 0 \<le> x \<and> x < int pages \<and> used ! nat x" using ok by (simp add: table_ok_def)
    then show ?thesis using keep [of "nat x"] by auto
  next
    case False
    then show ?thesis using that e ok by (auto simp: table_ok_def)
  qed
  have new: "e \<noteq> pt ! i" if i: "i < length pt" and pos: "0 \<le> e" for i
  proof
    assume eq: "e = pt ! i"
    then obtain u where u: "e = int u" "\<not> used ! u" using e pos by auto
    have "pt ! i \<in> set pt" using i by simp
    then have "used ! nat (pt ! i)" using ok eq pos by (auto simp: table_ok_def)
    then show False using u eq by (metis nat_int)
  qed
  have inj: "i = j" if i: "i < length (pt @ [e])" and j: "j < length (pt @ [e])" and eq: "(pt @ [e]) ! i = (pt @ [e]) ! j" and pos: "0 \<le> (pt @ [e]) ! i"
    for i j
  proof (cases "i < length pt \<and> j < length pt")
    case True
    then show ?thesis using ok eq pos unfolding table_ok_def by (simp add: nth_append)
  next
    case False
    then show ?thesis using i j eq pos new [of i] new [of j] by (auto simp: nth_append less_Suc_eq split: if_splits)
  qed
  show ?thesis unfolding table_ok_def using len ent inj by blast
qed

lemma fill_table_ok:
  assumes "fill_table pages pct vpages ds = Inr (pt, used, ds')"
  shows "length pt = vpages \<and> table_ok pages pt used \<and> set ds' \<subseteq> set ds"
proof -
  have "rfold (fill_step pages pct) [0..<n]
      ([], replicate pages False, ds) = Inr (pt, used, ds') \<Longrightarrow> length pt = n \<and> table_ok pages pt used \<and> set ds' \<subseteq> set ds" for n pt used ds'
  proof (induction n arbitrary: pt used ds')
    case (Suc n)
    obtain p u d where a: "rfold (fill_step pages pct) [0..<n] ([], replicate pages False, ds) = Inr (p, u, d)"
      "fill_step pages pct n (p, u, d) = Inr (pt, used, ds')"
      using Suc.prems by (auto simp: rfold_append rbind_eq_Inr)
    then obtain e where e: "fill_entry pages pct u d = Inr (e, used, ds')" "pt = p @ [e]" by (auto simp: fill_step_def rbind_eq_Inr)
    show ?case using Suc.IH [OF a(1)] fill_entry_Inr [OF e(1)] table_ok_append [of pages p u e used] e(2) by auto
  qed (auto simp: table_ok_def)
  then show ?thesis using assms by (simp add: fill_table_def)
qed

lemma pagemask_mask: "pagemask b = mask b"
  by (simp add: pagemask_def mask_eq_exp_minus_1 push_bit_eq_mult)

lemma vpn_bits: "b \<le> 32 \<Longrightarrow> drop_bit b (va AND vpnmask b) = va mod 2 ^ 32 div 2 ^ b"
proof -
  assume b: "b \<le> 32"
  have m: "(0xFFFFFFFF :: int) = mask 32" by (simp add: mask_eq_exp_minus_1)
  have "drop_bit b (va AND vpnmask b) = drop_bit b (take_bit 32 va)"
    unfolding vpnmask_def m pagemask_mask by (rule bit_eqI) (auto simp: bit_simps)
  then show ?thesis by (simp add: take_bit_eq_mod drop_bit_eq_div)
qed

lemma join_page: "0 \<le> p \<Longrightarrow> push_bit b p OR (va AND pagemask b) = p * 2 ^ b + va mod 2 ^ b" for p va :: int
proof -
  have o: "va AND pagemask b = take_bit b va" by (simp add: pagemask_mask take_bit_eq_mask)
  have "push_bit b p AND take_bit b va = 0" by (rule bit_eqI) (auto simp: bit_simps)
  then have "push_bit b p OR take_bit b va = push_bit b p + take_bit b va" by (rule disjunctive_add_eq_or [symmetric])
  then show ?thesis unfolding o by (simp add: push_bit_eq_mult take_bit_eq_mod)
qed

text \<open>The translation in terms of division: page and offset.\<close>

lemma lin_translate_div:
  assumes "b \<le> 32" and "\<forall>e \<in> set pt. e = - 1 \<or> 0 \<le> e"
  shows "lin_translate b pt va = (let vpn = va mod 2 ^ 32 div 2 ^ b in
     if int (length pt) \<le> vpn then Inl IndexError
     else Inr (if pt ! nat vpn < 0 then Not_Valid vpn else Mapped (pt ! nat vpn * 2 ^ b + va mod 2 ^ b) vpn))"
proof -
  let ?v = "va mod 2 ^ 32 div 2 ^ b"
  have v: "0 \<le> ?v" by (simp add: pos_imp_zdiv_nonneg_iff)
  show ?thesis
    unfolding lin_translate_def Let_def vpn_bits [OF assms(1)] using v join_page [of "pt ! nat ?v" b va] by (simp add: py_get_def)
qed

text \<open>
  C26. The linear table isolates pages: each valid entry has a frame of its own in the physical memory, so every address of the address space is
  either reported as not valid or translated to its own place in the physical memory, with the offset kept, and
  two addresses never share a place.
\<close>

theorem linear_isolates:
  assumes "linear_main opt ds = Inr (pt, out)" and "lo_solve opt"
    and "convert (lo_asize opt) = Inr asize" and "convert (lo_psize opt) = Inr psize" and "convert (lo_pagesize opt) = Inr pagesize"
    and "(va, Mapped pa v) \<in> set out" and "0 \<le> va" and "va < asize"
  shows "v = va div pagesize \<and> 0 \<le> pa \<and> pa < psize \<and> pa mod pagesize = va mod pagesize \<and>
    (\<forall>(va', r') \<in> set out. \<forall>v'. 0 \<le> va' \<longrightarrow> va' < asize \<longrightarrow> r' = Mapped pa v' \<longrightarrow> va' = va)"
proof -
  have g: "convert ''1g'' = Inr 1073741824" by code_simp
  obtain pagebits used ds1 l ds2 where *: "1 < psize" "1 \<le> asize" "asize < psize" "psize < 1073741824" "asize < 1073741824"
    "mustbemultipleof asize pagesize = Inr ()" "mustbemultipleof psize pagesize = Inr ()"
    "log_bits pagesize = Inr pagebits" "mustbepowerof2 pagebits pagesize = Inr ()"
    "fill_table (nat (trunc_div psize pagesize)) (lo_used opt) (nat (trunc_div asize pagesize)) ds = Inr (pt, used, ds1)"
    "rfold (lin_line True pagebits pt) l [] = Inr out"
    using assms(1-5) unfolding linear_main_def g Let_def by (auto simp: rbind_eq_Inr)
  have P: "pagesize = 2 ^ pagebits" using *(9) by (simp add: mustbepowerof2_def split: if_splits)
  have P0: "0 < pagesize" unfolding P by simp
  have quo: "trunc_div a pagesize = a div pagesize" if "0 < a" for a using that P0 by (simp add: trunc_div_def)
  have mult: "asize div pagesize * pagesize = asize" "psize div pagesize * pagesize = psize"
    using *(1,2,6,7) quo [of asize] quo [of psize] by (simp_all add: mustbemultipleof_def split: if_splits)
  have "pagesize \<le> asize" using mult(1) *(2) P0 by (metis dvd_triv_right zdvd_imp_le zero_less_one order_less_le_trans)
  then have "(2 :: int) ^ pagebits < 2 ^ 32" using P *(5) by simp
  then have b: "pagebits \<le> 32" using power_less_imp_less_exp [of "2 :: int"] by (metis less_imp_le_nat one_less_numeral_iff semiring_norm(76))
  have tab: "length pt = nat (asize div pagesize)" "table_ok (nat (psize div pagesize)) pt used"
    using fill_table_ok [OF *(10)] quo [of asize] quo [of psize] *(1,2) by simp_all
  have pos: "\<forall>e \<in> set pt. e = - 1 \<or> 0 \<le> e" using tab(2) by (auto simp: table_ok_def)
  have lines: "\<forall>va r. (va, r) \<in> set out \<longrightarrow> lin_translate pagebits pt va = Inr r"
  proof (rule rfold_inv [where P = "\<lambda>out. \<forall>va r. (va, r) \<in> set out \<longrightarrow> lin_translate pagebits pt va = Inr r", OF _ _ *(11)])
    fix x s s' assume "\<forall>va r. (va, r) \<in> set s \<longrightarrow> lin_translate pagebits pt va = Inr r" "lin_line True pagebits pt x s = Inr s'"
    then show "\<forall>va r. (va, r) \<in> set s' \<longrightarrow> lin_translate pagebits pt va = Inr r" by (auto simp: lin_line_def rbind_eq_Inr)
  qed simp
  have tr: "w = a div pagesize \<and> a div pagesize < asize div pagesize \<and> 0 \<le> a div pagesize \<and> 0 \<le> pt ! nat (a div pagesize) \<and>
      q = pt ! nat (a div pagesize) * pagesize + a mod pagesize"
    if "(a, Mapped q w) \<in> set out" "0 \<le> a" "a < asize" for a q w
  proof -
    have am: "a mod 2 ^ 32 = a" using that(2,3) *(5) by simp
    have t: "lin_translate pagebits pt a = (let vpn = a div pagesize in if int (length pt) \<le> vpn then Inl IndexError
       else Inr (if pt ! nat vpn < 0 then Not_Valid vpn else Mapped (pt ! nat vpn * pagesize + a mod pagesize) vpn))"
      using lin_translate_div [OF b pos, of a, unfolded am] unfolding P .
    have "a div pagesize * pagesize \<le> a" using P0 by (metis div_mult_mod_eq le_add_same_cancel1 pos_mod_sign)
    then have "a div pagesize * pagesize < asize div pagesize * pagesize" using that(3) mult(1) by simp
    then have d: "a div pagesize < asize div pagesize" "0 \<le> a div pagesize"
      using that(2) P0 by (simp_all add: pos_imp_zdiv_nonneg_iff)
    then have "\<not> int (length pt) \<le> a div pagesize" using tab(1) by simp
    then show ?thesis using t lines that(1) d by (auto simp: Let_def split: if_splits)
  qed
  note t = tr [OF assms(6-8)]
  let ?e = "pt ! nat (va div pagesize)"
  have idx: "nat (va div pagesize) < length pt" using t tab(1) by simp
  then have "?e \<in> set pt" by simp
  then have "?e = - 1 \<or> ?e < int (nat (psize div pagesize))" using tab(2) \<open>?e \<in> set pt\<close> unfolding table_ok_def by blast
  moreover have "0 \<le> psize div pagesize" using P0 *(1) by (simp add: pos_imp_zdiv_nonneg_iff)
  ultimately have e: "0 \<le> ?e" "?e < psize div pagesize" using t by auto
  have m: "0 \<le> va mod pagesize" "va mod pagesize < pagesize" using P0 by simp_all
  have "(?e + 1) * pagesize \<le> psize div pagesize * pagesize" using e(2) P0 by (intro mult_right_mono) simp_all
  then have "pa < psize" using t m mult(2) by (simp add: distrib_right)
  moreover have "0 \<le> pa" using t e(1) m P0 by simp
  moreover have "pa mod pagesize = va mod pagesize" using t by simp
  moreover have "va' = va" if "(va', Mapped pa v') \<in> set out" "0 \<le> va'" "va' < asize" for va' v'
  proof -
    note t' = tr [OF that]
    let ?e' = "pt ! nat (va' div pagesize)"
    have "pa mod pagesize = va' mod pagesize" using t' by simp
    then have o: "va' mod pagesize = va mod pagesize" using t by simp
    have "pa = ?e' * pagesize + va' mod pagesize" "pa = ?e * pagesize + va mod pagesize" using t t' by blast+
    moreover have "(x * pagesize + y mod pagesize) div pagesize = x" for x y using P0 by simp
    ultimately have "pa div pagesize = ?e'" "pa div pagesize = ?e" by metis+
    then have "?e = ?e'" by simp
    moreover have "nat (va' div pagesize) < length pt" using t' tab(1) by simp
    ultimately have "nat (va div pagesize) = nat (va' div pagesize)" using tab(2) idx e(1) unfolding table_ok_def by blast
    moreover have "0 \<le> va div pagesize" "0 \<le> va' div pagesize" using t t' by blast+
    ultimately have "va div pagesize = va' div pagesize" by simp
    then show ?thesis using o by (metis mult_div_mod_eq)
  qed
  ultimately show ?thesis using t by blast
qed

theorem linear_isolates_witness:
  "\<exists>out. linear_main (lin_defaults\<lparr>lo_pagesize := ''8k'', lo_addresses := ''8200'', lo_solve := True\<rparr>) [0, 2 ^ 53 - 1, 2 ^ 52] = Inr ([- 1, 4], out) \<and>
     (8200, Mapped 32776 1) \<in> set out \<and> (32776 :: int) < 65536"
proof -
  let ?o = "lin_defaults\<lparr>lo_pagesize := ''8k'', lo_addresses := ''8200'', lo_solve := True\<rparr>"
  have c: "convert ''16k'' = Inr 16384" "convert ''64k'' = Inr 65536" "convert ''8k'' = Inr 8192" "convert ''1g'' = Inr 1073741824" by code_simp+
  have a: "addr_list ''8200'' 16384 5 ds = Inr ([Inr 8200], ds)" for ds
    by (simp add: addr_list_def py_int_def nat_text_def isdigit_def is_digit_def digit_val_def strip_def lstrip_def rstrip_def is_space_def)
  have l: "log_bits 16384 = Inr 14" "log_bits 8192 = Inr 13" by (simp_all add: log_bits_def int_log2.simps)
  have t: "lin_translate 13 [- 1, 4] 8200 = Inr (Mapped 32776 1)" by (simp add: lin_translate_div)
  have two: "[0..<2] = [0, 1 :: nat]" by (simp add: upt_rec)
  have m: "linear_main ?o [0, 2 ^ 53 - 1, 2 ^ 52] = Inr ([- 1, 4], [(8200, Mapped 32776 1)])"
    using c a l t two
    by (simp add: linear_main_def lin_defaults_def abort_if_def mustbemultipleof_def mustbepowerof2_def trunc_div_def fill_table_def fill_step_def
        pick_def py_get_def lin_line_def Let_def)
  have "(32776 :: int) < 65536"
    using linear_isolates [OF m, of 16384 65536 8192 8200 32776 1] c by (simp add: lin_defaults_def)
  then show ?thesis using m by auto
qed

text \<open>
  Addresses given with \<open>-A\<close> are not checked against the address space: those up to 4 GB end in an IndexError, and larger ones are
  taken modulo 4 GB and translated as if they were addresses of the process.
\<close>

theorem linear_aliases:
  assumes "b \<le> 32" and "\<forall>e \<in> set pt. e = - 1 \<or> 0 \<le> e" and "int (length pt) * 2 ^ b \<le> 2 ^ 32"
  shows "(0 \<le> va \<and> va < 2 ^ 32 \<and> int (length pt) * 2 ^ b \<le> va \<longrightarrow> lin_translate b pt va = Inl IndexError) \<and>
    lin_translate b pt (va + 2 ^ 32) = lin_translate b pt va"
proof -
  have "lin_translate b pt (va + 2 ^ 32) = lin_translate b pt va"
  proof -
    have "(2 :: int) ^ b dvd 2 ^ 32" using assms(1) by (rule le_imp_power_dvd)
    then have "(va + 2 ^ 32) mod 2 ^ b = va mod 2 ^ b" by (metis mod_add_right_eq mod_0_imp_dvd dvd_imp_mod_0 add.right_neutral)
    moreover have "(va + 2 ^ 32) mod 2 ^ 32 = va mod 2 ^ 32" by simp
    ultimately show ?thesis unfolding lin_translate_div [OF assms(1,2)] by (simp only:)
  qed
  moreover have "lin_translate b pt va = Inl IndexError" if "0 \<le> va" "va < 2 ^ 32" "int (length pt) * 2 ^ b \<le> va"
  proof -
    have "va mod 2 ^ 32 = va" using that(1,2) by simp
    moreover have "int (length pt) \<le> va div 2 ^ b" using zdiv_mono1 [OF that(3), of "2 ^ b"] by simp
    ultimately show ?thesis unfolding lin_translate_div [OF assms(1,2)] Let_def by simp
  qed
  ultimately show ?thesis by blast
qed

theorem linear_aliases_witness:
  "lin_translate 12 [3, - 1] (4294967301 + 2 ^ 32) = lin_translate 12 [3, - 1] 4294967301 \<and> lin_translate 12 [3, - 1] 8192 = Inl IndexError"
  using linear_aliases [of 12 "[3, - 1]" 4294967301] linear_aliases [of 12 "[3, - 1]" 8192] by simp

end
