(* ===== verification/Checksum.thy ===== *)
theory Checksum
  imports PyString
begin

unbundle bit_operations_syntax

text \<open>
  The checksums of \<open>file-integrity/checksum.py\<close>: sum modulo 256, exclusive or, and Fletcher. They are given in closed form,
  and it is shown which changes of the data each of them detects.
\<close>

section \<open>The loop over the values\<close>

record sums =
  sum_add :: int
  sum_xor :: int
  fletcher_a :: int
  fletcher_b :: int

definition sums_init :: sums where
  "sums_init = \<lparr>sum_add = 0, sum_xor = 0, fletcher_a = 0, fletcher_b = 0\<rparr>"

definition sums_step :: "int \<Rightarrow> sums \<Rightarrow> sums" where
  "sums_step v s =
     (let a = (fletcher_a s + v) mod 255
      in \<lparr>sum_add = (sum_add s + v) mod 256, sum_xor = sum_xor s XOR v, fletcher_a = a, fletcher_b = (fletcher_b s + a) mod 255\<rparr>)"

definition sums_of :: "int list \<Rightarrow> sums" where
  "sums_of vs = fold sums_step vs sums_init"

text \<open>The values: given with \<open>-D\<close> or drawn.\<close>

definition data_values :: "string \<Rightarrow> int \<Rightarrow> draw list \<Rightarrow> (int list \<times> draw list) res" where
  "data_values dat sz ds =
     (if dat \<noteq> [] then rbind (rfold (\<lambda>t vs. rbind (py_int t) (\<lambda>v. Inr (vs @ [v]))) (py_split CHR '','' dat) []) (\<lambda>vs. Inr (vs, ds))
      else rfold (\<lambda>_ (vs, ds). rbind (next_draw ds) (\<lambda>(k, ds). Inr (vs @ [pick_int k 256], ds))) [0..<nat sz] ([], ds))"

definition checksum_main :: "string \<Rightarrow> int \<Rightarrow> bool \<Rightarrow> draw list \<Rightarrow> (int list \<times> sums option) res" where
  "checksum_main dat sz solve ds = rbind (data_values dat sz ds) (\<lambda>(vs, ds). Inr (vs, if solve then Some (sums_of vs) else None))"

section \<open>Closed forms\<close>

text \<open>The sum of the values, each weighted by the number of values from it to the end.\<close>

fun weighted :: "int list \<Rightarrow> int" where
  "weighted [] = 0"
| "weighted (v # vs) = int (length (v # vs)) * v + weighted vs"

lemma mod_add_shift: "((x mod m + y) mod m :: int) = (x + y) mod m"
  by (rule mod_add_left_eq)

lemma sums_fold:
  "fold sums_step vs s = \<lparr>sum_add = (if vs = [] then sum_add s else (sum_add s + sum_list vs) mod 256), sum_xor = fold (\<lambda>v x. x XOR v) vs (sum_xor s),
     fletcher_a = (if vs = [] then fletcher_a s else (fletcher_a s + sum_list vs) mod 255),
     fletcher_b = (if vs = [] then fletcher_b s else (fletcher_b s + int (length vs) * fletcher_a s + weighted vs) mod 255)\<rparr>"
proof (induction vs arbitrary: s)
  case (Cons v vs)
  let ?a = "fletcher_a s + v" and ?n = "int (length vs)"
  have b: "((fletcher_b s + ?a mod 255) mod 255 + ?n * (?a mod 255) + weighted vs) mod 255 =
      (fletcher_b s + int (length (v # vs)) * fletcher_a s + weighted (v # vs)) mod 255"
  proof -
    have "((fletcher_b s + ?a mod 255) mod 255 + ?n * (?a mod 255) + weighted vs) mod 255 = (fletcher_b s + ?a + ?n * ?a + weighted vs) mod 255"
      by (intro mod_add_cong mod_mult_cong) (simp_all add: mod_add_right_eq add.assoc)
    then show ?thesis by (simp add: algebra_simps)
  qed
  have ad: "((sum_add s + v) mod 256 + sum_list vs) mod 256 = (sum_add s + sum_list (v # vs)) mod 256"
    and fa: "((fletcher_a s + v) mod 255 + sum_list vs) mod 255 = (fletcher_a s + sum_list (v # vs)) mod 255"
    by (simp_all add: mod_add_left_eq add.assoc)
  have sel: "sum_add (sums_step v s) = (sum_add s + v) mod 256" "sum_xor (sums_step v s) = sum_xor s XOR v"
    "fletcher_a (sums_step v s) = ?a mod 255" "fletcher_b (sums_step v s) = (fletcher_b s + ?a mod 255) mod 255"
    by (simp_all add: sums_step_def Let_def)
  show ?case
  proof (cases "vs = []")
    case True
    then show ?thesis by (simp add: sums_step_def Let_def add.assoc mod_simps)
  next
    case False
    then show ?thesis unfolding fold_simps Cons.IH sel ad fa b by simp
  qed
qed simp

text \<open>
  The loop computes the sum of the values modulo 256, their exclusive or, and the two Fletcher sums: the sum
  and the sum weighted by position, both modulo 255.
\<close>

theorem sums_closed_form:
  "sums_of vs = \<lparr>sum_add = sum_list vs mod 256, sum_xor = fold (\<lambda>v x. x XOR v) vs 0, fletcher_a = sum_list vs mod 255, fletcher_b = weighted vs mod 255\<rparr>"
  by (simp add: sums_of_def sums_fold sums_init_def)

section \<open>What the checksums detect\<close>

lemma sums_parts:
  "sum_add (sums_of vs) = sum_list vs mod 256" "sum_xor (sums_of vs) = fold (\<lambda>v x. x XOR v) vs 0"
  "fletcher_a (sums_of vs) = sum_list vs mod 255" "fletcher_b (sums_of vs) = weighted vs mod 255"
  by (simp_all add: sums_of_def sums_fold sums_init_def)

lemma fold_xor: "fold (\<lambda>v x. x XOR v) vs (a :: int) = a XOR fold (\<lambda>v x. x XOR v) vs 0"
proof (induction vs arbitrary: a)
  case (Cons v vs)
  show ?case using Cons [of "a XOR v"] Cons [of v] by (simp add: xor.assoc)
qed simp

lemma fold_xor_append: "fold (\<lambda>v x. x XOR v) (xs @ v # ys) (0 :: int) = (fold (\<lambda>v x. x XOR v) xs 0 XOR fold (\<lambda>v x. x XOR v) ys 0) XOR v"
  using fold_xor [of ys "fold (\<lambda>v x. x XOR v) xs 0 XOR v"] by (simp add: ac_simps)

lemma xor_cancel: "(a XOR v = a XOR w) = (v = (w :: int))"
  by (metis xor.assoc xor.left_neutral xor_self_eq)

lemma mod_eq_small: "(a + v) mod m = (a + w) mod m \<longleftrightarrow> m dvd v - w" for a v w m :: int
  by (metis add_diff_cancel_left mod_eq_dvd_iff)

lemma weighted_append: "weighted (xs @ zs) = weighted xs + int (length zs) * sum_list xs + weighted zs"
  by (induction xs) (simp_all add: algebra_simps)

lemma weighted_change:
  "weighted (xs @ v # ys) = (weighted xs + int (length ys + 1) * sum_list xs + weighted ys) + int (length (v # ys)) * v"
  by (simp add: weighted_append)

text \<open>
  C38. A change of one byte is always detected by the sum and by the exclusive or. The Fletcher checksum is the pair of its two
  sums: the pair stays the same exactly when the byte changes between 0 and 255. The first of the two detects every other change;
  the second one alone misses a change exactly when 255 divides the difference times the number of values from the byte to the end.
\<close>

theorem change_detected:
  assumes "0 \<le> v" and "v < 256" and "0 \<le> w" and "w < 256" and "v \<noteq> w"
  shows "sum_add (sums_of (xs @ v # ys)) \<noteq> sum_add (sums_of (xs @ w # ys)) \<and>
    sum_xor (sums_of (xs @ v # ys)) \<noteq> sum_xor (sums_of (xs @ w # ys)) \<and>
    (fletcher_a (sums_of (xs @ v # ys)) = fletcher_a (sums_of (xs @ w # ys)) \<longleftrightarrow> {v, w} = {0, 255}) \<and>
    (fletcher_b (sums_of (xs @ v # ys)) = fletcher_b (sums_of (xs @ w # ys)) \<longleftrightarrow> 255 dvd int (length (v # ys)) * (v - w)) \<and>
    ((fletcher_a (sums_of (xs @ v # ys)), fletcher_b (sums_of (xs @ v # ys))) =
       (fletcher_a (sums_of (xs @ w # ys)), fletcher_b (sums_of (xs @ w # ys))) \<longleftrightarrow> {v, w} = {0, 255})"
proof -
  have s: "sum_list (xs @ x # ys) = (sum_list xs + sum_list ys) + x" for x by simp
  have "\<not> 256 dvd v - w"
  proof
    assume "256 dvd v - w"
    then obtain q where q: "v - w = 256 * q" by (auto simp: dvd_def)
    have "q < 1" "- 1 < q" using q assms by linarith+
    then show False using q assms(5) by simp
  qed
  then have "sum_add (sums_of (xs @ v # ys)) \<noteq> sum_add (sums_of (xs @ w # ys))" unfolding sums_parts s mod_eq_small .
  moreover have "sum_xor (sums_of (xs @ v # ys)) \<noteq> sum_xor (sums_of (xs @ w # ys))"
    unfolding sums_parts fold_xor_append xor_cancel by (rule assms(5))
  moreover have a: "255 dvd v - w \<longleftrightarrow> {v, w} = {0, 255}"
  proof
    assume "255 dvd v - w"
    then obtain q where "v - w = 255 * q" by (auto simp: dvd_def)
    then have "q = 1 \<or> q = - 1" using assms by auto
    then show "{v, w} = {0, 255}" using \<open>v - w = 255 * q\<close> assms by (auto simp: doubleton_eq_iff)
  qed (auto simp: doubleton_eq_iff)
  moreover have b: "fletcher_b (sums_of (xs @ v # ys)) = fletcher_b (sums_of (xs @ w # ys)) \<longleftrightarrow> 255 dvd int (length (v # ys)) * (v - w)"
    unfolding sums_parts weighted_change mod_eq_small by (simp add: right_diff_distrib)
  moreover have fa: "fletcher_a (sums_of (xs @ v # ys)) = fletcher_a (sums_of (xs @ w # ys)) \<longleftrightarrow> 255 dvd v - w"
    unfolding sums_parts s mod_eq_small ..
  ultimately show ?thesis unfolding fa b prod.inject using dvd_mult [of 255 "v - w" "int (length (v # ys))"] by blast
qed

theorem change_detected_witness:
  "sum_add (sums_of ([1] @ 0 # [2])) \<noteq> sum_add (sums_of ([1] @ 255 # [2])) \<and>
   (fletcher_a (sums_of ([1] @ 0 # [2])), fletcher_b (sums_of ([1] @ 0 # [2]))) =
     (fletcher_a (sums_of ([1] @ 255 # [2])), fletcher_b (sums_of ([1] @ 255 # [2])))"
  using change_detected [of 0 255 "[1]" "[2]"] by simp

text \<open>
  Only the second Fletcher sum sees the order of the values: a permutation leaves the others as they are, and a swap
  of two neighbours changes it exactly when they differ modulo 255.
\<close>

theorem swap_detected:
  "sum_add (sums_of (xs @ v # w # ys)) = sum_add (sums_of (xs @ w # v # ys)) \<and>
   sum_xor (sums_of (xs @ v # w # ys)) = sum_xor (sums_of (xs @ w # v # ys)) \<and>
   fletcher_a (sums_of (xs @ v # w # ys)) = fletcher_a (sums_of (xs @ w # v # ys)) \<and>
   (fletcher_b (sums_of (xs @ v # w # ys)) = fletcher_b (sums_of (xs @ w # v # ys)) \<longleftrightarrow> v mod 255 = w mod 255)"
proof -
  let ?c = "weighted xs + int (length ys + 2) * sum_list xs + weighted ys + int (length ys + 1) * (v + w)"
  have v: "weighted (xs @ v # w # ys) = ?c + v" and w: "weighted (xs @ w # v # ys) = ?c + w"
    unfolding weighted_append by (simp_all add: algebra_simps)
  have "fletcher_b (sums_of (xs @ v # w # ys)) = fletcher_b (sums_of (xs @ w # v # ys)) \<longleftrightarrow> v mod 255 = w mod 255"
    unfolding sums_parts v w mod_eq_small by (simp add: mod_eq_dvd_iff)
  moreover have "sum_xor (sums_of (xs @ v # w # ys)) = sum_xor (sums_of (xs @ w # v # ys))"
    unfolding sums_parts by (simp add: xor.assoc xor.commute [of v w])
  ultimately show ?thesis unfolding sums_parts by (simp add: add.left_commute)
qed

end
