(* ===== verification/Afs.thy ===== *)
theory Afs
  imports Complex_Main PyString
begin

text \<open>
  The Andrew file system of \<open>dist-afs/afs.py\<close>: the server with its callbacks, the cache and the file descriptors of each client, the
  actions of the clients and the scheduling loop. It is shown that a valid clean copy always agrees with the server, that an
  open gets the contents of the last close, and that the random clients run to their end.
\<close>

section \<open>The server and the clients\<close>

record centry =
  c_data :: int
  c_dirty :: bool
  c_refcnt :: int
  c_valid :: bool

record ccache =
  entries :: "(string, centry) dict"
  hitcnt :: nat
  misscnt :: nat
  invalidcnt :: nat

datatype micro = MICRO_OPEN string nat | MICRO_READ nat | MICRO_WRITE nat | MICRO_CLOSE nat

text \<open>A client is known to the server by its number. The descriptor table has 1024 entries, unused ones are empty.\<close>

record client =
  cl_cache :: ccache
  cl_fd :: "string list"
  readcnt :: nat
  writecnt :: nat
  cl_done :: bool
  acnt :: nat
  acts :: "micro list"

datatype event = EvOpen string nat | EvRead nat int | EvWrite nat int int | EvClose nat

record afs =
  contents :: "(string, int) dict"
  callbacks :: "string list list"
  getcnt :: nat
  putcnt :: nat
  next_value :: int
  clients :: "client list"
  afs_trace :: "(nat \<times> event) list"

definition zassert :: "bool \<Rightarrow> unit res" where
  "zassert cond = (if cond then Inr () else Inl (SystemExit 1))"

section \<open>The client cache\<close>

definition with_entry :: "string \<Rightarrow> (centry \<Rightarrow> centry) \<Rightarrow> ccache \<Rightarrow> ccache res" where
  "with_entry f g ca = rbind (dict_get (entries ca) f) (\<lambda>e. Inr (ca\<lparr>entries := dict_set f (g e) (entries ca)\<rparr>))"

definition assert_cached :: "string \<Rightarrow> ccache \<Rightarrow> unit res" where
  "assert_cached f ca = py_assert (f \<in> dict_keys (entries ca))"

definition cache_put :: "string \<Rightarrow> int \<Rightarrow> bool \<Rightarrow> int \<Rightarrow> ccache \<Rightarrow> ccache" where
  "cache_put f d dirty refcnt ca =
     ca\<lparr>entries := dict_set f \<lparr>c_data = d, c_dirty = dirty, c_refcnt = refcnt, c_valid = True\<rparr> (entries ca)\<rparr>"

definition cache_update :: "string \<Rightarrow> int \<Rightarrow> ccache \<Rightarrow> ccache res" where
  "cache_update f d = with_entry f (\<lambda>e. e\<lparr>c_data := d, c_dirty := True\<rparr>)"

definition cache_invalidate :: "string \<Rightarrow> ccache \<Rightarrow> ccache res" where
  "cache_invalidate f ca =
     (if f \<notin> dict_keys (entries ca) then Inr ca
      else with_entry f (\<lambda>e. e\<lparr>c_valid := False\<rparr>) (ca\<lparr>invalidcnt := invalidcnt ca + 1\<rparr>))"

definition cache_checkvalid :: "string \<Rightarrow> ccache \<Rightarrow> ccache res" where
  "cache_checkvalid f ca =
     rbind (zassert (f \<in> dict_keys (entries ca))) (\<lambda>_. rbind (dict_get (entries ca) f) (\<lambda>e.
     Inr (if \<not> c_valid e \<and> c_refcnt e = 0 then ca\<lparr>entries := dict_del f (entries ca)\<rparr> else ca)))"

definition cache_checkget :: "string \<Rightarrow> ccache \<Rightarrow> centry option \<times> ccache" where
  "cache_checkget f ca =
     (case map_of (entries ca) f of
        Some e \<Rightarrow> (Some e, ca\<lparr>entries := dict_set f e (entries ca), hitcnt := hitcnt ca + 1\<rparr>)
      | None \<Rightarrow> (None, ca\<lparr>misscnt := misscnt ca + 1\<rparr>))"

definition cache_get :: "string \<Rightarrow> ccache \<Rightarrow> centry res" where
  "cache_get f ca = rbind (assert_cached f ca) (\<lambda>_. dict_get (entries ca) f)"

definition cache_incref :: "string \<Rightarrow> ccache \<Rightarrow> ccache res" where
  "cache_incref f ca = rbind (assert_cached f ca) (\<lambda>_. with_entry f (\<lambda>e. e\<lparr>c_refcnt := c_refcnt e + 1\<rparr>) ca)"

definition cache_decref :: "string \<Rightarrow> ccache \<Rightarrow> ccache res" where
  "cache_decref f ca = rbind (assert_cached f ca) (\<lambda>_. with_entry f (\<lambda>e. e\<lparr>c_refcnt := c_refcnt e - 1\<rparr>) ca)"

definition cache_setclean :: "string \<Rightarrow> ccache \<Rightarrow> ccache res" where
  "cache_setclean f ca = rbind (assert_cached f ca) (\<lambda>_. with_entry f (\<lambda>e. e\<lparr>c_dirty := False\<rparr>) ca)"

definition cache_isdirty :: "string \<Rightarrow> ccache \<Rightarrow> bool res" where
  "cache_isdirty f ca = rbind (assert_cached f ca) (\<lambda>_. rbind (dict_get (entries ca) f) (\<lambda>e. Inr (c_dirty e)))"

definition cache_setvalid :: "string \<Rightarrow> ccache \<Rightarrow> ccache res" where
  "cache_setvalid f ca = rbind (assert_cached f ca) (\<lambda>_. with_entry f (\<lambda>e. e\<lparr>c_valid := True\<rparr>) ca)"

section \<open>File descriptors\<close>

text \<open>With \<open>sfd = None\<close> (the code's -1) the first free descriptor is taken.\<close>

definition fd_alloc :: "string \<Rightarrow> nat option \<Rightarrow> string list \<Rightarrow> (int \<times> string list) res" where
  "fd_alloc f sfd fds =
     (case sfd of
        Some i \<Rightarrow>
          if length fds \<le> i then Inl KeyError
          else rbind (zassert (fds ! i = [])) (\<lambda>_. Inr (int i, fds[i := f]))
      | None \<Rightarrow> (case index_of [] fds of None \<Rightarrow> Inr (- 1, fds) | Some i \<Rightarrow> Inr (int i, fds[i := f])))"

text \<open>The range check of \<open>lookup\<close> looks at the global variable \<open>i\<close> of the main program, not at the descriptor.\<close>

definition fd_lookup :: "int \<Rightarrow> string list \<Rightarrow> nat \<Rightarrow> string res" where
  "fd_lookup gi fds sfd =
     rbind (zassert (0 \<le> gi \<and> gi < int (length fds))) (\<lambda>_.
     if length fds \<le> sfd then Inl KeyError
     else rbind (zassert (fds ! sfd \<noteq> [])) (\<lambda>_. Inr (fds ! sfd)))"

section \<open>Server and client operations\<close>

definition cache_of :: "nat \<Rightarrow> afs \<Rightarrow> ccache" where
  "cache_of c w = cl_cache (clients w ! c)"

definition upd_client :: "nat \<Rightarrow> (client \<Rightarrow> client) \<Rightarrow> afs \<Rightarrow> afs" where
  "upd_client c g w = w\<lparr>clients := (clients w)[c := g (clients w ! c)]\<rparr>"

definition set_cache :: "nat \<Rightarrow> ccache \<Rightarrow> afs \<Rightarrow> afs" where
  "set_cache c ca w = upd_client c (\<lambda>u. u\<lparr>cl_cache := ca\<rparr>) w"

definition on_cache :: "nat \<Rightarrow> (ccache \<Rightarrow> ccache res) \<Rightarrow> afs \<Rightarrow> afs res" where
  "on_cache c g w = rbind (g (cache_of c w)) (\<lambda>ca. Inr (set_cache c ca w))"

definition server_get :: "nat \<Rightarrow> string \<Rightarrow> afs \<Rightarrow> (int \<times> afs) res" where
  "server_get c f w =
     rbind (zassert (f \<in> dict_keys (contents w))) (\<lambda>_.
     let w = w\<lparr>getcnt := getcnt w + 1\<rparr>;
         cbs = callbacks w ! c;
         w = (if f \<notin> set cbs then w\<lparr>callbacks := (callbacks w)[c := cbs @ [f]]\<rparr> else w)
     in rbind (dict_get (contents w) f) (\<lambda>v. Inr (v, w)))"

text \<open>The callback to one client; the callback stays on the list.\<close>

definition break_callback :: "nat \<Rightarrow> string \<Rightarrow> nat \<Rightarrow> afs \<Rightarrow> afs res" where
  "break_callback c f d w = (if f \<in> set (callbacks w ! d) \<and> d \<noteq> c then on_cache d (cache_invalidate f) w else Inr w)"

definition server_put :: "nat \<Rightarrow> string \<Rightarrow> int \<Rightarrow> afs \<Rightarrow> afs res" where
  "server_put c f v w =
     rbind (zassert (f \<in> dict_keys (contents w))) (\<lambda>_.
     rfold (break_callback c f) [0..<length (clients w)] (w\<lparr>putcnt := putcnt w + 1, contents := dict_set f v (contents w)\<rparr>))"

definition getfile :: "nat \<Rightarrow> string \<Rightarrow> afs \<Rightarrow> afs res" where
  "getfile c f w =
     (let (item, ca) = cache_checkget f (cache_of c w); w = set_cache c ca w in
      rbind (if (case item of None \<Rightarrow> False | Some e \<Rightarrow> c_valid e) then Inr w
             else rbind (server_get c f w) (\<lambda>(v, w). Inr (set_cache c (cache_put f v False 0 (cache_of c w)) w))) (\<lambda>w.
      on_cache c (cache_incref f) w))"

definition putfile :: "nat \<Rightarrow> string \<Rightarrow> int \<Rightarrow> afs \<Rightarrow> afs res" where
  "putfile c f v w =
     rbind (server_put c f v w) (\<lambda>w. rbind (on_cache c (cache_setclean f) w) (on_cache c (cache_setvalid f)))"

definition log_event :: "nat \<Rightarrow> event \<Rightarrow> afs \<Rightarrow> afs" where
  "log_event c e w = w\<lparr>afs_trace := afs_trace w @ [(c, e)]\<rparr>"

fun client_action :: "int \<Rightarrow> nat \<Rightarrow> micro \<Rightarrow> afs \<Rightarrow> afs res" where
  "client_action gi c (MICRO_OPEN f fd) w = rbind (getfile c f w) (\<lambda>w. Inr (log_event c (EvOpen f fd) w))"
| "client_action gi c (MICRO_READ fd) w =
     rbind (fd_lookup gi (cl_fd (clients w ! c)) fd) (\<lambda>f.
     let w = upd_client c (\<lambda>u. u\<lparr>readcnt := readcnt u + 1\<rparr>) w in
     rbind (cache_get f (cache_of c w)) (\<lambda>e. Inr (log_event c (EvRead fd (c_data e)) w)))"
| "client_action gi c (MICRO_WRITE fd) w =
     rbind (fd_lookup gi (cl_fd (clients w ! c)) fd) (\<lambda>f.
     let w = upd_client c (\<lambda>u. u\<lparr>writecnt := writecnt u + 1\<rparr>) w in
     rbind (cache_get f (cache_of c w)) (\<lambda>e.
     let v = next_value w; w = w\<lparr>next_value := v + 1\<rparr> in
     rbind (on_cache c (cache_update f v) w) (\<lambda>w. Inr (log_event c (EvWrite fd (c_data e) v) w))))"
| "client_action gi c (MICRO_CLOSE fd) w =
     rbind (fd_lookup gi (cl_fd (clients w ! c)) fd) (\<lambda>f.
     rbind (cache_get f (cache_of c w)) (\<lambda>e.
     rbind (cache_isdirty f (cache_of c w)) (\<lambda>d.
     rbind (if d then putfile c f (c_data e) w else Inr w) (\<lambda>w.
     rbind (on_cache c (cache_decref f) w) (\<lambda>w. rbind (on_cache c (cache_checkvalid f) w) (\<lambda>w. Inr (log_event c (EvClose fd) w)))))))"

text \<open>A step answers -1 when the client was done, 0 when it just finished and 1 otherwise.\<close>

definition client_step :: "int \<Rightarrow> nat \<Rightarrow> afs \<Rightarrow> (int \<times> afs) res" where
  "client_step gi c w =
     (let u = clients w ! c in
      if cl_done u then Inr (- 1, w)
      else if acnt u = length (acts u) then Inr (0, upd_client c (\<lambda>u. u\<lparr>cl_done := True\<rparr>) w)
      else rbind (client_action gi c (acts u ! acnt u) w) (\<lambda>w. Inr (1, upd_client c (\<lambda>u. u\<lparr>acnt := acnt u + 1\<rparr>) w)))"

section \<open>Setting up\<close>

definition cache_empty :: ccache where
  "cache_empty = \<lparr>entries = [], hitcnt = 0, misscnt = 0, invalidcnt = 0\<rparr>"

definition new_client :: client where
  "new_client = \<lparr>cl_cache = cache_empty, cl_fd = replicate 1024 [], readcnt = 0, writecnt = 0, cl_done = False, acnt = 0, acts = []\<rparr>"

text \<open>One random action: open a file, read or write it, close it.\<close>

definition random_step :: "string list \<Rightarrow> rat \<Rightarrow> nat \<Rightarrow> client \<times> draw list \<Rightarrow> (client \<times> draw list) res" where
  "random_step flist ratio j = (\<lambda>(u, ds).
     rbind (next_draw ds) (\<lambda>(k, ds). rbind (py_get flist (int (pick k (length flist)))) (\<lambda>f.
     rbind (next_draw ds) (\<lambda>(r, ds). rbind (fd_alloc f None (cl_fd u)) (\<lambda>(fd, fds).
     rbind (zassert (0 \<le> fd)) (\<lambda>_.
     let op = (if of_nat r / 2 ^ 53 < ratio then MICRO_READ (nat fd) else MICRO_WRITE (nat fd))
     in Inr (u\<lparr>cl_fd := fds, acts := acts u @ [MICRO_OPEN f (nat fd), op, MICRO_CLOSE (nat fd)]\<rparr>, ds)))))))"

definition random_client :: "string list \<Rightarrow> rat \<Rightarrow> int \<Rightarrow> draw list \<Rightarrow> (client \<times> draw list) res" where
  "random_client flist ratio numsteps ds = rfold (random_step flist ratio) [0..<nat numsteps] (new_client, ds)"

definition digit :: "char \<Rightarrow> nat res" where
  "digit c = rbind (py_int [c]) (\<lambda>i. Inr (nat i))"

text \<open>One action of the option \<open>-A\<close>.\<close>

definition parse_action :: "string \<Rightarrow> client \<Rightarrow> client res" where
  "parse_action a u =
     (if a = [] then Inl IndexError
      else if hd a = CHR ''o'' then
        rbind (zassert (length a = 3)) (\<lambda>_. rbind (digit (a ! 2)) (\<lambda>fd.
        rbind (fd_alloc [a ! 1] (Some fd) (cl_fd u)) (\<lambda>(_, fds).
        Inr (u\<lparr>cl_fd := fds, acts := acts u @ [MICRO_OPEN [a ! 1] fd]\<rparr>))))
      else if hd a \<in> {CHR ''r'', CHR ''w'', CHR ''c''} then
        rbind (zassert (length a = 2)) (\<lambda>_. rbind (digit (a ! 1)) (\<lambda>fd.
        Inr (u\<lparr>acts := acts u @ [(if hd a = CHR ''r'' then MICRO_READ else if hd a = CHR ''w'' then MICRO_WRITE else MICRO_CLOSE) fd]\<rparr>)))
      else Inl (SystemExit 1))"

definition parse_client :: "string \<Rightarrow> client res" where
  "parse_client clist = rfold parse_action (py_split CHR '':'' clist) new_client"

record afs_options =
  numclients :: int
  numsteps :: int
  numfiles :: int
  readratio :: rat
  actions :: string
  schedule :: string

definition afs_defaults :: afs_options where
  "afs_defaults = \<lparr>numclients = 2, numsteps = 2, numfiles = 1, readratio = 1 / 2, actions = [], schedule = []\<rparr>"

definition filelist :: "int \<Rightarrow> string list" where
  "filelist n = map (\<lambda>c. [c]) (take (nat n) ''abcdefghijklmnopqrstuvwxyz'')"

definition make_clients :: "afs_options \<Rightarrow> draw list \<Rightarrow> (client list \<times> draw list) res" where
  "make_clients opt ds =
     (if actions opt \<noteq> [] then rfold (\<lambda>cl (us, ds). rbind (parse_client cl) (\<lambda>u. Inr (us @ [u], ds))) (py_split CHR '','' (actions opt)) ([], ds)
      else rfold (\<lambda>_ (us, ds). rbind (random_client (filelist (numfiles opt)) (readratio opt) (numsteps opt) ds) (\<lambda>(u, ds). Inr (us @ [u], ds)))
        [0..<nat (numclients opt)] ([], ds))"

definition afs_init :: "afs_options \<Rightarrow> client list \<Rightarrow> afs" where
  "afs_init opt us =
     (let fl = filelist (numfiles opt) in
      \<lparr>contents = zip fl (map int [0..<length fl]), callbacks = replicate (length us) [], getcnt = 0, putcnt = 0,
       next_value = int (length fl), clients = us, afs_trace = []\<rparr>)"

text \<open>Every client occurs in the schedule.\<close>

definition check_schedule :: "string \<Rightarrow> nat \<Rightarrow> unit res" where
  "check_schedule sched n =
     rfold (\<lambda>i _. rbind (rfold (\<lambda>ch cnt. rbind (py_int [ch]) (\<lambda>v. Inr (if v = int i then cnt + 1 else cnt))) sched (0 :: nat)) (\<lambda>cnt.
       zassert (cnt \<noteq> 0))) [0..<n] ()"

text \<open>The value of the global variable \<open>i\<close> when the clients run.\<close>

definition global_i :: "afs_options \<Rightarrow> nat \<Rightarrow> int" where
  "global_i opt n = (if schedule opt \<noteq> [] then int n - 1 else if actions opt \<noteq> [] then int n else int n - 1)"

text \<open>The next client: drawn, or the next of the schedule.\<close>

definition next_client :: "string \<Rightarrow> nat \<Rightarrow> nat \<times> draw list \<Rightarrow> (nat \<times> nat \<times> draw list) res" where
  "next_client sched n = (\<lambda>(cur, ds).
     if sched = [] then rbind (next_draw ds) (\<lambda>(k, ds). if pick k n < n then Inr (pick k n, cur, ds) else Inl IndexError)
     else rbind (py_int [sched ! cur]) (\<lambda>i.
       if i < int n then Inr (nat i, (if cur + 1 = length sched then 0 else cur + 1), ds) else Inl IndexError))"

fun afs_loop :: "nat \<Rightarrow> int \<Rightarrow> string \<Rightarrow> nat \<Rightarrow> afs \<Rightarrow> nat \<times> draw list \<Rightarrow> afs res" where
  "afs_loop fuel gi sched running w st =
     (if running = 0 then Inr w
      else case fuel of
        0 \<Rightarrow> Inl Out_Of_Fuel
      | Suc f \<Rightarrow>
          rbind (next_client sched (length (clients w)) st) (\<lambda>(c, st).
          rbind (client_step gi c w) (\<lambda>(rc, w). afs_loop f gi sched (if rc = 0 then running - 1 else running) w st)))"

declare afs_loop.simps [simp del]

definition afs_main :: "nat \<Rightarrow> afs_options \<Rightarrow> draw list \<Rightarrow> afs res" where
  "afs_main fuel opt ds =
     rbind (zassert (0 < numfiles opt \<and> numfiles opt \<le> 26)) (\<lambda>_. rbind (zassert (0 \<le> readratio opt \<and> readratio opt \<le> 1)) (\<lambda>_.
     rbind (make_clients opt ds) (\<lambda>(us, ds).
     let w = afs_init opt us; n = length us in
     rbind (if schedule opt \<noteq> [] then check_schedule (schedule opt) n else Inr ()) (\<lambda>_.
     afs_loop fuel (global_i opt n) (schedule opt) n w (0, ds)))))"

section \<open>The protocol\<close>

text \<open>
  The abstract protocol: the contents of the server and, per client, the cached entries. An open reuses a valid entry or fetches the
  contents, a write changes the entry, and the close of a dirty file stores it and invalidates the copies of all others.
\<close>

type_synonym view = "(string \<Rightarrow> int option) \<times> (nat \<Rightarrow> string \<Rightarrow> centry option)"

definition inval :: "string \<Rightarrow> (string \<Rightarrow> centry option) \<Rightarrow> string \<Rightarrow> centry option" where
  "inval f m = (case m f of None \<Rightarrow> m | Some e \<Rightarrow> m(f \<mapsto> e\<lparr>c_valid := False\<rparr>))"

text \<open>What the actions of the code do to the view; the protocol they are meant to follow is \<open>afs_protocol\<close> below.\<close>

definition opened :: "int \<Rightarrow> centry option \<Rightarrow> centry" where
  "opened v e = (case e of
     Some e \<Rightarrow> if c_valid e then e\<lparr>c_refcnt := c_refcnt e + 1\<rparr> else \<lparr>c_data = v, c_dirty = False, c_refcnt = 1, c_valid = True\<rparr>
   | None \<Rightarrow> \<lparr>c_data = v, c_dirty = False, c_refcnt = 1, c_valid = True\<rparr>)"

fun abs_step :: "nat \<Rightarrow> string \<Rightarrow> int \<Rightarrow> micro \<Rightarrow> view \<Rightarrow> view" where
  "abs_step c f v (MICRO_OPEN _ _) (C, M) = (C, M(c := (M c)(f \<mapsto> opened (the (C f)) (M c f))))"
| "abs_step c f v (MICRO_READ _) (C, M) = (C, M)"
| "abs_step c f v (MICRO_WRITE _) (C, M) = (C, M(c := (M c)(f \<mapsto> (the (M c f))\<lparr>c_data := v, c_dirty := True\<rparr>)))"
| "abs_step c f v (MICRO_CLOSE _) (C, M) =
     (let e = the (M c f) in
      if c_dirty e
      then (C(f \<mapsto> c_data e), (\<lambda>d. inval f (M d))(c := (M c)(f \<mapsto> e\<lparr>c_dirty := False, c_valid := True, c_refcnt := c_refcnt e - 1\<rparr>)))
      else if \<not> c_valid e \<and> c_refcnt e = 1 then (C, M(c := (M c)(f := None)))
      else (C, M(c := (M c)(f \<mapsto> e\<lparr>c_refcnt := c_refcnt e - 1\<rparr>))))"

definition cached :: "nat \<Rightarrow> afs \<Rightarrow> string \<Rightarrow> centry option" where
  "cached c w = map_of (entries (cache_of c w))"

definition view_of :: "afs \<Rightarrow> view" where
  "view_of w = (map_of (contents w), \<lambda>d. if d < length (clients w) then cached d w else Map.empty)"

text \<open>What a cache operation leaves alone.\<close>

definition skel :: "client \<Rightarrow> string list \<times> bool \<times> nat \<times> micro list" where
  "skel u = (cl_fd u, cl_done u, acnt u, acts u)"

definition skels :: "afs \<Rightarrow> (string list \<times> bool \<times> nat \<times> micro list) list" where
  "skels w = map skel (clients w)"

lemma skels_length: "skels w' = skels w \<Longrightarrow> length (clients w') = length (clients w)"
  unfolding skels_def by (metis length_map)

text \<open>Every cached file has a callback.\<close>

definition promised :: "afs \<Rightarrow> bool" where
  "promised w \<longleftrightarrow> length (callbacks w) = length (clients w) \<and> (\<forall>c < length (clients w). dom (cached c w) \<subseteq> set (callbacks w ! c))"

lemma with_entry_Some: "map_of (entries ca) f = Some e \<Longrightarrow> with_entry f g ca = Inr (ca\<lparr>entries := dict_set f (g e) (entries ca)\<rparr>)"
  by (simp add: with_entry_def dict_get_def)

lemma cached_Some: "map_of (entries ca) f = Some e \<Longrightarrow> f \<in> dict_keys (entries ca)"
  by (auto simp: dict_keys_map_of)

lemma set_cache_simps [simp]:
  "length (clients (set_cache c ca w)) = length (clients w)" "contents (set_cache c ca w) = contents w"
  "callbacks (set_cache c ca w) = callbacks w" "next_value (set_cache c ca w) = next_value w" "afs_trace (set_cache c ca w) = afs_trace w"
  "c < length (clients w) \<Longrightarrow> cache_of d (set_cache c ca w) = (if d = c then ca else cache_of d w)"
  by (auto simp: set_cache_def upd_client_def cache_of_def nth_list_update)

lemma skels_set_cache [simp]: "c < length (clients w) \<Longrightarrow> skels (set_cache c ca w) = skels w"
  by (simp add: skels_def set_cache_def upd_client_def map_update skel_def list_update_same_conv)

lemma cached_set_cache: "c < length (clients w) \<Longrightarrow> cached d (set_cache c ca w) = (if d = c then map_of (entries ca) else cached d w)"
  by (simp add: cached_def)

text \<open>One operation on the entry of a file.\<close>

lemma on_cache_entry:
  assumes "c < length (clients w)" and "cached c w f = Some e"
    and "g (cache_of c w) = Inr ((cache_of c w)\<lparr>entries := dict_set f e' (entries (cache_of c w))\<rparr>)"
  shows "\<exists>w'. on_cache c g w = Inr w' \<and> skels w' = skels w \<and> contents w' = contents w \<and> callbacks w' = callbacks w \<and>
    next_value w' = next_value w \<and> afs_trace w' = afs_trace w \<and> (\<forall>d. cached d w' = (if d = c then (cached c w)(f \<mapsto> e') else cached d w))"
proof -
  let ?ca = "(cache_of c w)\<lparr>entries := dict_set f e' (entries (cache_of c w))\<rparr>"
  have "on_cache c g w = Inr (set_cache c ?ca w)" using assms(3) by (simp add: on_cache_def)
  moreover have "cached d (set_cache c ?ca w) = (if d = c then (cached c w)(f \<mapsto> e') else cached d w)" for d
    using cached_set_cache [OF assms(1), of d ?ca] by (simp add: cached_def)
  ultimately show ?thesis using assms(1) by auto
qed

lemma cache_ops:
  assumes "map_of (entries ca) f = Some e"
  shows "cache_update f v ca = Inr (ca\<lparr>entries := dict_set f (e\<lparr>c_data := v, c_dirty := True\<rparr>) (entries ca)\<rparr>)"
    and "cache_incref f ca = Inr (ca\<lparr>entries := dict_set f (e\<lparr>c_refcnt := c_refcnt e + 1\<rparr>) (entries ca)\<rparr>)"
    and "cache_decref f ca = Inr (ca\<lparr>entries := dict_set f (e\<lparr>c_refcnt := c_refcnt e - 1\<rparr>) (entries ca)\<rparr>)"
    and "cache_setclean f ca = Inr (ca\<lparr>entries := dict_set f (e\<lparr>c_dirty := False\<rparr>) (entries ca)\<rparr>)"
    and "cache_setvalid f ca = Inr (ca\<lparr>entries := dict_set f (e\<lparr>c_valid := True\<rparr>) (entries ca)\<rparr>)"
    and "cache_isdirty f ca = Inr (c_dirty e)" and "cache_get f ca = Inr e"
  using assms cached_Some [OF assms]
  by (simp_all add: cache_update_def cache_incref_def cache_decref_def cache_setclean_def cache_setvalid_def cache_isdirty_def cache_get_def
      assert_cached_def with_entry_Some dict_get_def)

lemma break_callback_ok:
  assumes "d < length (clients w)"
  shows "\<exists>w'. break_callback c f d w = Inr w' \<and> skels w' = skels w \<and> contents w' = contents w \<and> callbacks w' = callbacks w \<and>
    next_value w' = next_value w \<and> afs_trace w' = afs_trace w \<and>
    (\<forall>i. cached i w' = (if i = d \<and> d \<noteq> c \<and> f \<in> set (callbacks w ! d) then inval f (cached d w) else cached i w))"
proof (cases "f \<in> set (callbacks w ! d) \<and> d \<noteq> c")
  case False
  then show ?thesis by (auto simp: break_callback_def)
next
  case True
  show ?thesis
  proof (cases "cached d w f")
    case None
    then have "f \<notin> dict_keys (entries (cache_of d w))" by (simp add: cached_def dict_keys_map_of)
    then have "break_callback c f d w = Inr (set_cache d (cache_of d w) w)"
      using True by (simp add: break_callback_def on_cache_def cache_invalidate_def)
    then show ?thesis using None assms by (auto simp: inval_def cached_set_cache) (simp_all add: cached_def)
  next
    case (Some e)
    let ?ca = "(cache_of d w)\<lparr>invalidcnt := invalidcnt (cache_of d w) + 1, entries := dict_set f (e\<lparr>c_valid := False\<rparr>) (entries (cache_of d w))\<rparr>"
    have m: "map_of (entries (cache_of d w)) f = Some e" using Some by (simp add: cached_def)
    then have "cache_invalidate f (cache_of d w) = Inr ?ca"
      using cached_Some [OF m] with_entry_Some [of "(cache_of d w)\<lparr>invalidcnt := invalidcnt (cache_of d w) + 1\<rparr>" f e] by (simp add: cache_invalidate_def)
    then have "break_callback c f d w = Inr (set_cache d ?ca w)" using True by (simp add: break_callback_def on_cache_def)
    moreover have "cached i (set_cache d ?ca w) = (if i = d then inval f (cached d w) else cached i w)" for i
      using cached_set_cache [OF assms, of i ?ca] Some by (simp add: cached_def inval_def)
    ultimately show ?thesis using True assms by auto
  qed
qed

lemma break_callbacks_ok:
  assumes "j \<le> length (clients w)"
  shows "\<exists>w'. rfold (break_callback c f) [0..<j] w = Inr w' \<and> skels w' = skels w \<and> contents w' = contents w \<and> callbacks w' = callbacks w \<and>
    next_value w' = next_value w \<and> afs_trace w' = afs_trace w \<and>
    (\<forall>i. cached i w' = (if i < j \<and> i \<noteq> c \<and> f \<in> set (callbacks w ! i) then inval f (cached i w) else cached i w))"
  using assms
proof (induction j)
  case (Suc j)
  then obtain a where a: "rfold (break_callback c f) [0..<j] w = Inr a" "skels a = skels w" "contents a = contents w" "callbacks a = callbacks w"
    "next_value a = next_value w" "afs_trace a = afs_trace w"
    "\<forall>i. cached i a = (if i < j \<and> i \<noteq> c \<and> f \<in> set (callbacks w ! i) then inval f (cached i w) else cached i w)"
    by auto
  have "j < length (clients a)" using skels_length [OF a(2)] Suc.prems by simp
  then obtain b where b: "break_callback c f j a = Inr b" "skels b = skels a" "contents b = contents a" "callbacks b = callbacks a"
    "next_value b = next_value a" "afs_trace b = afs_trace a"
    "\<forall>i. cached i b = (if i = j \<and> j \<noteq> c \<and> f \<in> set (callbacks a ! j) then inval f (cached j a) else cached i a)"
    using break_callback_ok by blast
  have "cached i b = (if i < Suc j \<and> i \<noteq> c \<and> f \<in> set (callbacks w ! i) then inval f (cached i w) else cached i w)" for i
    using a(4,7) b(7) by (auto simp: less_Suc_eq)
  then show ?case using a b by (auto simp: rfold_append)
qed simp

text \<open>The operations in terms of the entries.\<close>

lemma server_get_ok:
  assumes "c < length (callbacks w)" and "map_of (contents w) f = Some v"
  shows "\<exists>w'. server_get c f w = Inr (v, w') \<and> clients w' = clients w \<and> contents w' = contents w \<and> next_value w' = next_value w \<and>
    afs_trace w' = afs_trace w \<and> length (callbacks w') = length (callbacks w) \<and> f \<in> set (callbacks w' ! c) \<and>
    (\<forall>d. set (callbacks w ! d) \<subseteq> set (callbacks w' ! d))"
  using assms by (auto simp: server_get_def zassert_def dict_keys_map_of dict_get_def Let_def nth_list_update)

lemma getfile_ok:
  assumes c: "c < length (clients w)" and p: "promised w" and f: "map_of (contents w) f = Some v"
  shows "\<exists>w'. getfile c f w = Inr w' \<and> skels w' = skels w \<and> contents w' = contents w \<and> promised w' \<and> next_value w' = next_value w \<and>
    afs_trace w' = afs_trace w \<and> (\<forall>d. cached d w' = (if d = c then (cached c w)(f \<mapsto> opened v (cached c w f)) else cached d w))"
proof -
  define ca where "ca = snd (cache_checkget f (cache_of c w))"
  have item: "fst (cache_checkget f (cache_of c w)) = cached c w f" by (auto simp: cache_checkget_def cached_def split: option.split)
  have ent: "map_of (entries ca) = cached c w" by (auto simp: ca_def cache_checkget_def cached_def fun_eq_iff split: option.split)
  define w1 where "w1 = set_cache c ca w"
  have w1: "skels w1 = skels w" "contents w1 = contents w" "callbacks w1 = callbacks w" "next_value w1 = next_value w" "afs_trace w1 = afs_trace w"
    "length (clients w1) = length (clients w)"
    using c by (simp_all add: w1_def)
  have c1: "cached d w1 = cached d w" for d using c ent by (simp add: w1_def cached_set_cache)
  show ?thesis
  proof (cases "case cached c w f of None \<Rightarrow> False | Some e \<Rightarrow> c_valid e")
    case True
    then obtain e where e: "cached c w f = Some e" "c_valid e" by (auto split: option.splits)
    have g: "getfile c f w = on_cache c (cache_incref f) w1"
      using True by (simp add: getfile_def case_prod_beta item ca_def [symmetric] w1_def [symmetric] Let_def)
    have "cached c w1 f = Some e" using e c1 by simp
    then have "map_of (entries (cache_of c w1)) f = Some e" by (simp add: cached_def)
    then obtain w2 where w2: "on_cache c (cache_incref f) w1 = Inr w2" "skels w2 = skels w1" "contents w2 = contents w1" "callbacks w2 = callbacks w1"
      "next_value w2 = next_value w1" "afs_trace w2 = afs_trace w1"
      "\<forall>d. cached d w2 = (if d = c then (cached c w1)(f \<mapsto> e\<lparr>c_refcnt := c_refcnt e + 1\<rparr>) else cached d w1)"
      using on_cache_entry [of c w1 f e "cache_incref f" "e\<lparr>c_refcnt := c_refcnt e + 1\<rparr>"] cache_ops(2) [of "cache_of c w1" f e] c w1(6)
        \<open>cached c w1 f = Some e\<close> by auto
    have l: "length (clients w2) = length (clients w)" using skels_length [OF w2(2)] w1 by simp
    have o: "opened v (cached c w f) = e\<lparr>c_refcnt := c_refcnt e + 1\<rparr>" using e by (simp add: opened_def)
    have fc: "f \<in> set (callbacks w ! c)" using p c e(1) unfolding promised_def by (meson domI subsetD)
    have "dom (cached d w2) \<subseteq> set (callbacks w ! d)" if "d < length (clients w)" for d
    proof (cases "d = c")
      case True
      then show ?thesis using p c fc w2(7) c1 unfolding promised_def by auto
    next
      case False
      then show ?thesis using p that w2(7) c1 unfolding promised_def by simp
    qed
    then have "promised w2" using l w2(4) w1(3) p by (simp add: promised_def)
    then show ?thesis using g w1 w2 c1 o by auto
  next
    case False
    have cb: "c < length (callbacks w1)" using c p w1 by (simp add: promised_def)
    obtain w2 where w2: "server_get c f w1 = Inr (v, w2)" "clients w2 = clients w1" "contents w2 = contents w1" "next_value w2 = next_value w1"
      "afs_trace w2 = afs_trace w1" "length (callbacks w2) = length (callbacks w1)" "f \<in> set (callbacks w2 ! c)"
      "\<forall>d. set (callbacks w1 ! d) \<subseteq> set (callbacks w2 ! d)"
      using server_get_ok [OF cb, of f v] f w1 by auto
    define w3 where "w3 = set_cache c (cache_put f v False 0 (cache_of c w2)) w2"
    have g: "getfile c f w = on_cache c (cache_incref f) w3"
      using False w2(1) by (simp add: getfile_def case_prod_beta item ca_def [symmetric] w1_def [symmetric] w3_def Let_def)
    have c2: "c < length (clients w2)" "cached d w2 = cached d w" for d using c w1 w2(2) c1 by (simp_all add: cached_def cache_of_def)
    let ?n = "\<lparr>c_data = v, c_dirty = False, c_refcnt = 0, c_valid = True\<rparr>"
    have c3: "cached d w3 = (if d = c then (cached c w)(f \<mapsto> ?n) else cached d w)" for d
      using cached_set_cache [OF c2(1)] c2(2) [of c] c2(2) [of d] by (simp add: w3_def cache_put_def) (simp add: cached_def)
    have w3: "skels w3 = skels w" "contents w3 = contents w" "callbacks w3 = callbacks w2" "next_value w3 = next_value w" "afs_trace w3 = afs_trace w"
      "length (clients w3) = length (clients w)"
      using c2(1) w1 w2 by (simp_all add: w3_def skels_def [symmetric]) (simp_all add: skels_def)
    have "cached c w3 f = Some ?n" using c3 by simp
    then have "map_of (entries (cache_of c w3)) f = Some ?n" by (simp add: cached_def)
    then obtain w4 where w4: "on_cache c (cache_incref f) w3 = Inr w4" "skels w4 = skels w3" "contents w4 = contents w3" "callbacks w4 = callbacks w3"
      "next_value w4 = next_value w3" "afs_trace w4 = afs_trace w3"
      "\<forall>d. cached d w4 = (if d = c then (cached c w3)(f \<mapsto> ?n\<lparr>c_refcnt := 1\<rparr>) else cached d w3)"
      using on_cache_entry [of c w3 f ?n "cache_incref f" "?n\<lparr>c_refcnt := 1\<rparr>"] cache_ops(2) [of "cache_of c w3" f ?n] c w3(6)
        \<open>cached c w3 f = Some ?n\<close> by auto
    have l: "length (clients w4) = length (clients w)" using skels_length [OF w4(2)] w3 by simp
    have o: "opened v (cached c w f) = ?n\<lparr>c_refcnt := 1\<rparr>" using False by (auto simp: opened_def split: option.splits)
    have "dom (cached d w4) \<subseteq> set (callbacks w4 ! d)" if "d < length (clients w)" for d
    proof -
      have "dom (cached d w) \<subseteq> set (callbacks w ! d)" using p that by (simp add: promised_def)
      then have "dom (cached d w) \<subseteq> set (callbacks w2 ! d)" using w2(8) w1(3) by auto
      then show ?thesis using w4(4,7) w3(3) c3 w2(7) by (auto split: if_splits)
    qed
    then have "promised w4" using l w4(4) w3(3) w2(6) w1(3) p by (simp add: promised_def)
    then show ?thesis using g w3 w4 c3 o by auto
  qed
qed

lemma putfile_ok:
  assumes c: "c < length (clients w)" and p: "promised w" and f: "f \<in> dict_keys (contents w)" and e: "cached c w f = Some e"
  shows "\<exists>w'. putfile c f v w = Inr w' \<and> skels w' = skels w \<and> contents w' = dict_set f v (contents w) \<and> callbacks w' = callbacks w \<and>
    next_value w' = next_value w \<and> afs_trace w' = afs_trace w \<and>
    (\<forall>d < length (clients w). cached d w' = (if d = c then (cached c w)(f \<mapsto> e\<lparr>c_dirty := False, c_valid := True\<rparr>) else inval f (cached d w)))"
proof -
  let ?w = "w\<lparr>putcnt := putcnt w + 1, contents := dict_set f v (contents w)\<rparr>"
  obtain a where a: "rfold (break_callback c f) [0..<length (clients w)] ?w = Inr a" "skels a = skels ?w" "contents a = contents ?w"
    "callbacks a = callbacks ?w" "next_value a = next_value ?w" "afs_trace a = afs_trace ?w"
    "\<forall>i. cached i a = (if i < length (clients w) \<and> i \<noteq> c \<and> f \<in> set (callbacks ?w ! i) then inval f (cached i ?w) else cached i ?w)"
    using break_callbacks_ok [of "length (clients w)" ?w c f] by auto
  have cw: "cached i ?w = cached i w" "skels ?w = skels w" for i by (simp_all add: cached_def cache_of_def skels_def)
  have la: "c < length (clients a)" using skels_length [OF a(2)] c by simp
  have sp: "server_put c f v w = Inr a" using a(1) f by (simp add: server_put_def zassert_def)
  have ea: "cached c a f = Some e" using a(7) cw e by simp
  then have "map_of (entries (cache_of c a)) f = Some e" by (simp add: cached_def)
  then obtain b where b: "on_cache c (cache_setclean f) a = Inr b" "skels b = skels a" "contents b = contents a" "callbacks b = callbacks a"
    "next_value b = next_value a" "afs_trace b = afs_trace a"
    "\<forall>d. cached d b = (if d = c then (cached c a)(f \<mapsto> e\<lparr>c_dirty := False\<rparr>) else cached d a)"
    using on_cache_entry [OF la ea] cache_ops(4) by blast
  have lb: "c < length (clients b)" using skels_length [OF b(2)] la by simp
  let ?e = "e\<lparr>c_dirty := False\<rparr>"
  have eb: "cached c b f = Some ?e" using b(7) by simp
  then have "map_of (entries (cache_of c b)) f = Some ?e" by (simp add: cached_def)
  then obtain d where d: "on_cache c (cache_setvalid f) b = Inr d" "skels d = skels b" "contents d = contents b" "callbacks d = callbacks b"
    "next_value d = next_value b" "afs_trace d = afs_trace b"
    "\<forall>i. cached i d = (if i = c then (cached c b)(f \<mapsto> ?e\<lparr>c_valid := True\<rparr>) else cached i b)"
    using on_cache_entry [OF lb eb] cache_ops(5) by blast
  have "putfile c f v w = Inr d" using sp b(1) d(1) by (simp add: putfile_def)
  moreover have "cached i d = (if i = c then (cached c w)(f \<mapsto> e\<lparr>c_dirty := False, c_valid := True\<rparr>) else inval f (cached i w))"
    if "i < length (clients w)" for i
  proof (cases "i = c")
    case True
    then show ?thesis using a(7) b(7) d(7) cw by simp
  next
    case False
    have "inval f (cached i w) = cached i w" if "f \<notin> set (callbacks w ! i)"
    proof -
      have "f \<notin> dom (cached i w)" using that p \<open>i < length (clients w)\<close> unfolding promised_def by blast
      then show ?thesis by (auto simp: inval_def split: option.split)
    qed
    then show ?thesis using False a(7) b(7) d(7) cw that by auto
  qed
  ultimately show ?thesis using a(2-6) b(2-6) d(2-6) cw by auto
qed

section \<open>Actions refine the protocol\<close>

text \<open>A valid clean copy has the contents of the server, and only files of the server are cached.\<close>

definition coh :: "view \<Rightarrow> bool" where
  "coh V \<longleftrightarrow> (\<forall>c f e. snd V c f = Some e \<longrightarrow> f \<in> dom (fst V) \<and> (c_valid e \<and> \<not> c_dirty e \<longrightarrow> fst V f = Some (c_data e)))"

definition coherent :: "afs \<Rightarrow> bool" where
  "coherent w \<longleftrightarrow> promised w \<and> coh (view_of w)"

fun file_of :: "client \<Rightarrow> micro \<Rightarrow> string" where
  "file_of u (MICRO_OPEN f fd) = f"
| "file_of u (MICRO_READ fd) = cl_fd u ! fd"
| "file_of u (MICRO_WRITE fd) = cl_fd u ! fd"
| "file_of u (MICRO_CLOSE fd) = cl_fd u ! fd"

definition fd_used :: "int \<Rightarrow> nat \<Rightarrow> nat \<Rightarrow> afs \<Rightarrow> bool" where
  "fd_used gi c fd w \<longleftrightarrow> (let fds = cl_fd (clients w ! c) in
     0 \<le> gi \<and> gi < int (length fds) \<and> fd < length fds \<and> fds ! fd \<noteq> [] \<and> cached c w (fds ! fd) \<noteq> None)"

fun enabled :: "int \<Rightarrow> nat \<Rightarrow> micro \<Rightarrow> afs \<Rightarrow> bool" where
  "enabled gi c (MICRO_OPEN f fd) w \<longleftrightarrow> f \<in> dict_keys (contents w)"
| "enabled gi c (MICRO_READ fd) w \<longleftrightarrow> fd_used gi c fd w"
| "enabled gi c (MICRO_WRITE fd) w \<longleftrightarrow> fd_used gi c fd w"
| "enabled gi c (MICRO_CLOSE fd) w \<longleftrightarrow> fd_used gi c fd w"

fun event_of :: "micro \<Rightarrow> centry option \<Rightarrow> int \<Rightarrow> event" where
  "event_of (MICRO_OPEN f fd) e v = EvOpen f fd"
| "event_of (MICRO_READ fd) e v = EvRead fd (c_data (the e))"
| "event_of (MICRO_WRITE fd) e v = EvWrite fd (c_data (the e)) v"
| "event_of (MICRO_CLOSE fd) e v = EvClose fd"

definition is_write :: "micro \<Rightarrow> bool" where
  "is_write a = (case a of MICRO_WRITE _ \<Rightarrow> True | _ \<Rightarrow> False)"

lemma coherent_keys:
  assumes "coherent w" and "c < length (clients w)" and "cached c w f = Some e"
  shows "f \<in> dict_keys (contents w)"
  using assms by (auto simp: coherent_def coh_def view_of_def dict_keys_map_of split: if_splits)

lemma fd_lookup_used: "fd_used gi c fd w \<Longrightarrow> fd_lookup gi (cl_fd (clients w ! c)) fd = Inr (cl_fd (clients w ! c) ! fd)"
  by (simp add: fd_used_def fd_lookup_def zassert_def Let_def)

lemma upd_client_keeps:
  assumes "\<And>u. skel (g u) = skel u" and "\<And>u. cl_cache (g u) = cl_cache u" and "c < length (clients w)"
  shows "skels (upd_client c g w) = skels w" "cached d (upd_client c g w) = cached d w" "contents (upd_client c g w) = contents w"
    "callbacks (upd_client c g w) = callbacks w" "next_value (upd_client c g w) = next_value w" "afs_trace (upd_client c g w) = afs_trace w"
    "length (clients (upd_client c g w)) = length (clients w)" "cache_of d (upd_client c g w) = cache_of d w"
  using assms by (auto simp: skels_def upd_client_def map_update cached_def cache_of_def nth_list_update list_update_same_conv)

lemma view_eqI:
  assumes "length (clients w') = length (clients w)" and "map_of (contents w') = C"
    and "\<And>d. d < length (clients w) \<Longrightarrow> cached d w' = M d" and "\<And>d. length (clients w) \<le> d \<Longrightarrow> M d = Map.empty"
  shows "view_of w' = (C, M)"
  using assms by (auto simp: view_of_def fun_eq_iff)

lemma promisedI:
  assumes "promised w" and "length (clients w') = length (clients w)" and "callbacks w' = callbacks w"
    and "\<And>d. d < length (clients w) \<Longrightarrow> dom (cached d w') \<subseteq> dom (cached d w)"
  shows "promised w'"
  using assms unfolding promised_def by (metis subset_trans)

lemma dom_inval: "dom (inval f m) = dom m"
  by (auto simp: inval_def split: option.splits if_splits)

lemma dom_upd: "m f \<noteq> None \<Longrightarrow> dom (m(f \<mapsto> e)) = dom m"
  by auto

text \<open>Removing the entry of an invalid file that nobody has open any more.\<close>

lemma checkvalid_ok:
  assumes "c < length (clients w)" and "cached c w f = Some e"
  shows "\<exists>w'. on_cache c (cache_checkvalid f) w = Inr w' \<and> skels w' = skels w \<and> contents w' = contents w \<and> callbacks w' = callbacks w \<and>
    next_value w' = next_value w \<and> afs_trace w' = afs_trace w \<and>
    (\<forall>d. cached d w' = (if d = c \<and> \<not> c_valid e \<and> c_refcnt e = 0 then (cached c w)(f := None) else cached d w))"
proof -
  have m: "map_of (entries (cache_of c w)) f = Some e" using assms(2) by (simp add: cached_def)
  let ?ca = "if \<not> c_valid e \<and> c_refcnt e = 0 then (cache_of c w)\<lparr>entries := dict_del f (entries (cache_of c w))\<rparr> else cache_of c w"
  have "on_cache c (cache_checkvalid f) w = Inr (set_cache c ?ca w)"
    using cached_Some [OF m] m by (simp add: on_cache_def cache_checkvalid_def zassert_def dict_get_def)
  moreover have "cached d (set_cache c ?ca w) = (if d = c \<and> \<not> c_valid e \<and> c_refcnt e = 0 then (cached c w)(f := None) else cached d w)" for d
    using cached_set_cache [OF assms(1), of d ?ca] by (auto simp: cached_def)
  ultimately show ?thesis using assms(1) by (auto simp del: if_split)
qed

lemma close_ok:
  assumes c: "c < length (clients w)" and co: "coherent w" and e: "cached c w f = Some e"
  shows "\<exists>w'. rbind (if c_dirty e then putfile c f (c_data e) w else Inr w) (\<lambda>w.
      rbind (on_cache c (cache_decref f) w) (on_cache c (cache_checkvalid f))) = Inr w' \<and> skels w' = skels w \<and> promised w' \<and>
    next_value w' = next_value w \<and> afs_trace w' = afs_trace w \<and> view_of w' = abs_step c f v (MICRO_CLOSE fd) (view_of w)"
proof -
  have p: "promised w" using co by (simp add: coherent_def)
  define e1 where "e1 = (if c_dirty e then e\<lparr>c_dirty := False, c_valid := True\<rparr> else e)"
  obtain a where a: "(if c_dirty e then putfile c f (c_data e) w else Inr w) = Inr a" "skels a = skels w"
    "contents a = (if c_dirty e then dict_set f (c_data e) (contents w) else contents w)" "callbacks a = callbacks w"
    "next_value a = next_value w" "afs_trace a = afs_trace w"
    "\<forall>d < length (clients w). cached d a = (if d = c then (cached c w)(f \<mapsto> e1) else if c_dirty e then inval f (cached d w) else cached d w)"
  proof (cases "c_dirty e")
    case True
    then show ?thesis using that putfile_ok [OF c p coherent_keys [OF co c e] e, of "c_data e"] by (auto simp: e1_def)
  next
    case False
    then show ?thesis using that [of w] e by (simp add: e1_def map_upd_triv)
  qed
  have la: "length (clients a) = length (clients w)" using skels_length [OF a(2)] .
  have ca: "c < length (clients a)" using la c by simp
  have ea: "cached c a f = Some e1" using a(7) c by simp
  then have "map_of (entries (cache_of c a)) f = Some e1" by (simp add: cached_def)
  then obtain b where b: "on_cache c (cache_decref f) a = Inr b" "skels b = skels a" "contents b = contents a" "callbacks b = callbacks a"
    "next_value b = next_value a" "afs_trace b = afs_trace a"
    "\<forall>d. cached d b = (if d = c then (cached c a)(f \<mapsto> e1\<lparr>c_refcnt := c_refcnt e1 - 1\<rparr>) else cached d a)"
    using on_cache_entry [OF ca ea] cache_ops(3) by blast
  define e2 where "e2 = e1\<lparr>c_refcnt := c_refcnt e1 - 1\<rparr>"
  have lb: "c < length (clients b)" using skels_length [OF b(2)] ca by simp
  have eb: "cached c b f = Some e2" using b(7) by (simp add: e2_def)
  obtain d where d: "on_cache c (cache_checkvalid f) b = Inr d" "skels d = skels b" "contents d = contents b" "callbacks d = callbacks b"
    "next_value d = next_value b" "afs_trace d = afs_trace b"
    "\<forall>i. cached i d = (if i = c \<and> \<not> c_valid e2 \<and> c_refcnt e2 = 0 then (cached c b)(f := None) else cached i b)"
    using checkvalid_ok [OF lb eb] by blast
  have sk: "skels d = skels w" using a(2) b(2) d(2) by simp
  have ld: "length (clients d) = length (clients w)" by (rule skels_length [OF sk])
  have fin: "cached i d = (if i = c then if \<not> c_valid e2 \<and> c_refcnt e2 = 0 then (cached c w)(f := None) else (cached c w)(f \<mapsto> e2)
      else if c_dirty e then inval f (cached i w) else cached i w)" if "i < length (clients w)" for i
    using that a(7) b(7) d(7) c by (auto simp: e2_def)
  have "dom (cached i d) \<subseteq> dom (cached i w)" if "i < length (clients w)" for i
    using fin [OF that] e dom_inval [of f "cached i w"] by (auto split: if_splits)
  then have pr: "promised d" using promisedI [OF p ld] a(4) b(4) d(4) by simp
  have C: "map_of (contents d) = (if c_dirty e then (map_of (contents w))(f \<mapsto> c_data e) else map_of (contents w))"
    using a(3) b(3) d(3) by simp
  have e2: "c_valid e2 = (c_dirty e \<or> c_valid e)" "c_refcnt e2 = c_refcnt e - 1"
    "e2 = (if c_dirty e then e\<lparr>c_dirty := False, c_valid := True, c_refcnt := c_refcnt e - 1\<rparr> else e\<lparr>c_refcnt := c_refcnt e - 1\<rparr>)"
    by (auto simp: e2_def e1_def)
  have ie: "inval f Map.empty = Map.empty" by (simp add: inval_def)
  have vw: "view_of d = abs_step c f v (MICRO_CLOSE fd) (view_of w)"
  proof (cases "c_dirty e")
    case True
    have "view_of d = ((map_of (contents w))(f \<mapsto> c_data e),
        (\<lambda>i. inval f (snd (view_of w) i))(c := (cached c w)(f \<mapsto> e\<lparr>c_dirty := False, c_valid := True, c_refcnt := c_refcnt e - 1\<rparr>)))"
      by (rule view_eqI [OF ld]) (use True C fin e2 c ie in \<open>auto simp: view_of_def\<close>)
    then show ?thesis using True e c by (simp add: view_of_def Let_def)
  next
    case False
    show ?thesis
    proof (cases "\<not> c_valid e \<and> c_refcnt e = 1")
      case True
      have "view_of d = (map_of (contents w), (snd (view_of w))(c := (cached c w)(f := None)))"
        by (rule view_eqI [OF ld]) (use False True C fin e2 c in \<open>auto simp: view_of_def\<close>)
      then show ?thesis using False True e c by (simp add: view_of_def Let_def)
    next
      case opn: False
      have "view_of d = (map_of (contents w), (snd (view_of w))(c := (cached c w)(f \<mapsto> e\<lparr>c_refcnt := c_refcnt e - 1\<rparr>)))"
        by (rule view_eqI [OF ld]) (use False opn C fin e2 c in \<open>auto simp: view_of_def\<close>)
      then show ?thesis using False opn e c by (auto simp: view_of_def Let_def)
    qed
  qed
  show ?thesis using a(1,5,6) b(1,5,6) d(1,5,6) sk pr vw by (intro exI [of _ d]) simp
qed

lemma log_keeps [simp]:
  "skels (log_event c ev w) = skels w" "promised (log_event c ev w) = promised w" "view_of (log_event c ev w) = view_of w"
  "next_value (log_event c ev w) = next_value w" "afs_trace (log_event c ev w) = afs_trace w @ [(c, ev)]"
  by (simp_all add: log_event_def skels_def promised_def view_of_def cached_def cache_of_def cong: if_cong)

lemma action_ok:
  assumes co: "coherent w" and c: "c < length (clients w)" and en: "enabled gi c a w"
  shows "\<exists>w'. client_action gi c a w = Inr w' \<and> skels w' = skels w \<and> promised w' \<and>
    view_of w' = abs_step c (file_of (clients w ! c) a) (next_value w) a (view_of w) \<and>
    next_value w' = next_value w + (if is_write a then 1 else 0) \<and>
    afs_trace w' = afs_trace w @ [(c, event_of a (cached c w (file_of (clients w ! c) a)) (next_value w))]"
proof -
  have p: "promised w" using co by (simp add: coherent_def)
  obtain M where V: "view_of w = (map_of (contents w), M)" "M c = cached c w" "\<And>d. d < length (clients w) \<Longrightarrow> M d = cached d w"
    "\<And>d. length (clients w) \<le> d \<Longrightarrow> M d = Map.empty"
    using c by (simp add: view_of_def)
  show ?thesis
  proof (cases a)
    case (MICRO_OPEN f fd)
    then obtain v where v: "map_of (contents w) f = Some v" using en by (auto simp: dict_keys_map_of)
    obtain w1 where w1: "getfile c f w = Inr w1" "skels w1 = skels w" "contents w1 = contents w" "promised w1" "next_value w1 = next_value w"
      "afs_trace w1 = afs_trace w" "\<forall>d. cached d w1 = (if d = c then (cached c w)(f \<mapsto> opened v (cached c w f)) else cached d w)"
      using getfile_ok [OF c p v] by blast
    have "view_of w1 = (map_of (contents w), M(c := (cached c w)(f \<mapsto> opened v (cached c w f))))"
      by (rule view_eqI [OF skels_length [OF w1(2)]]) (use w1 c V in auto)
    then show ?thesis using MICRO_OPEN w1 v V(1,2) by (simp add: is_write_def)
  next
    case (MICRO_READ fd)
    define f where "f = cl_fd (clients w ! c) ! fd"
    have u: "fd_used gi c fd w" using en MICRO_READ by simp
    then obtain e where e: "cached c w f = Some e" by (auto simp: fd_used_def f_def Let_def)
    define w1 where "w1 = upd_client c (\<lambda>u. u\<lparr>readcnt := readcnt u + 1\<rparr>) w"
    have k: "skels w1 = skels w" "cached d w1 = cached d w" "contents w1 = contents w" "callbacks w1 = callbacks w" "next_value w1 = next_value w"
      "afs_trace w1 = afs_trace w" "length (clients w1) = length (clients w)" "cache_of d w1 = cache_of d w" for d
      unfolding w1_def by (rule upd_client_keeps; simp add: skel_def c)+
    have g: "cache_get f (cache_of c w1) = Inr e" using cache_ops(7) [of "cache_of c w" f e] e k(8) by (simp add: cached_def)
    have "client_action gi c a w = Inr (log_event c (EvRead fd (c_data e)) w1)"
      using MICRO_READ fd_lookup_used [OF u] g by (simp add: f_def [symmetric] w1_def Let_def)
    moreover have "view_of w1 = view_of w" "promised w1" using k p by (simp_all add: view_of_def promised_def cong: if_cong)
    ultimately show ?thesis using MICRO_READ k e by (cases "view_of w") (simp add: f_def is_write_def)
  next
    case (MICRO_WRITE fd)
    define f where "f = cl_fd (clients w ! c) ! fd"
    have u: "fd_used gi c fd w" using en MICRO_WRITE by simp
    then obtain e where e: "cached c w f = Some e" by (auto simp: fd_used_def f_def Let_def)
    define w1 where "w1 = upd_client c (\<lambda>u. u\<lparr>writecnt := writecnt u + 1\<rparr>) w"
    have k: "skels w1 = skels w" "cached d w1 = cached d w" "contents w1 = contents w" "callbacks w1 = callbacks w" "next_value w1 = next_value w"
      "afs_trace w1 = afs_trace w" "length (clients w1) = length (clients w)" "cache_of d w1 = cache_of d w" for d
      unfolding w1_def by (rule upd_client_keeps; simp add: skel_def c)+
    define w2 where "w2 = w1\<lparr>next_value := next_value w + 1\<rparr>"
    have k2: "skels w2 = skels w" "cached d w2 = cached d w" "contents w2 = contents w" "callbacks w2 = callbacks w" "next_value w2 = next_value w + 1"
      "afs_trace w2 = afs_trace w" "length (clients w2) = length (clients w)" "cache_of d w2 = cache_of d w" for d
      using k k(2) [of d] k(8) [of d] by (simp_all add: w2_def skels_def cached_def cache_of_def)
    let ?e = "e\<lparr>c_data := next_value w, c_dirty := True\<rparr>"
    have g: "cache_get f (cache_of c w1) = Inr e" using cache_ops(7) [of "cache_of c w" f e] e k(8) by (simp add: cached_def)
    have c2: "c < length (clients w2)" "cached c w2 f = Some e" using c k2 e by simp_all
    then have "map_of (entries (cache_of c w2)) f = Some e" by (simp add: cached_def)
    then obtain w3 where w3: "on_cache c (cache_update f (next_value w)) w2 = Inr w3" "skels w3 = skels w2" "contents w3 = contents w2"
      "callbacks w3 = callbacks w2" "next_value w3 = next_value w2" "afs_trace w3 = afs_trace w2"
      "\<forall>d. cached d w3 = (if d = c then (cached c w2)(f \<mapsto> ?e) else cached d w2)"
      using on_cache_entry [OF c2] cache_ops(1) by blast
    have run: "client_action gi c a w = Inr (log_event c (EvWrite fd (c_data e) (next_value w)) w3)"
      using MICRO_WRITE fd_lookup_used [OF u] g w3(1) k(5) by (simp add: f_def [symmetric] w1_def w2_def Let_def)
    have sk: "skels w3 = skels w" using w3(2) k2(1) by simp
    have "view_of w3 = (map_of (contents w), M(c := (cached c w)(f \<mapsto> ?e)))"
      by (rule view_eqI [OF skels_length [OF sk]]) (use w3 k2 c V in auto)
    moreover have "promised w3"
      by (rule promisedI [OF p skels_length [OF sk]]) (use w3 k2 e in \<open>auto split: if_splits\<close>)
    ultimately show ?thesis using MICRO_WRITE run w3 k2 e V(1,2) by (simp add: f_def is_write_def)
  next
    case (MICRO_CLOSE fd)
    define f where "f = cl_fd (clients w ! c) ! fd"
    have u: "fd_used gi c fd w" using en MICRO_CLOSE by simp
    then obtain e where e: "cached c w f = Some e" by (auto simp: fd_used_def f_def Let_def)
    have m: "map_of (entries (cache_of c w)) f = Some e" using e by (simp add: cached_def)
    obtain w1 where w1: "rbind (if c_dirty e then putfile c f (c_data e) w else Inr w) (\<lambda>w.
        rbind (on_cache c (cache_decref f) w) (on_cache c (cache_checkvalid f))) = Inr w1" "skels w1 = skels w" "promised w1"
      "next_value w1 = next_value w" "afs_trace w1 = afs_trace w" "view_of w1 = abs_step c f (next_value w) (MICRO_CLOSE fd) (view_of w)"
      using close_ok [OF c co e] by blast
    have "client_action gi c a w = Inr (log_event c (EvClose fd) w1)"
      using MICRO_CLOSE fd_lookup_used [OF u] cache_ops(6,7) [OF m] w1(1) by (auto simp: f_def [symmetric] rbind_eq_Inr)
    then show ?thesis using MICRO_CLOSE w1 by (simp add: f_def is_write_def)
  qed
qed

lemma action_enabled:
  assumes co: "coherent w" and c: "c < length (clients w)" and run: "client_action gi c a w = Inr w'"
  shows "enabled gi c a w"
proof -
  have used: "fd_used gi c fd w" if "fd_lookup gi (cl_fd (clients w ! c)) fd = Inr f" "cache_get f (cache_of c w) = Inr e" for fd f e
  proof -
    have "f \<in> dict_keys (entries (cache_of c w))" using that(2) by (auto simp: cache_get_def assert_cached_def)
    then have "cached c w f \<noteq> None" by (auto simp: cached_def dict_keys_map_of)
    then show ?thesis using that(1) by (auto simp: fd_used_def fd_lookup_def zassert_def Let_def split: if_splits)
  qed
  show ?thesis
  proof (cases a)
    case (MICRO_OPEN f fd)
    show ?thesis
    proof (rule ccontr)
      assume "\<not> ?thesis"
      then have nf: "f \<notin> dict_keys (contents w)" using MICRO_OPEN by simp
      then have "cached c w f = None" using coherent_keys [OF co c] by (cases "cached c w f") auto
      then have "fst (cache_checkget f (cache_of c w)) = None" by (simp add: cache_checkget_def cached_def)
      then have "getfile c f w = Inl (SystemExit 1)" using nf by (simp add: getfile_def case_prod_beta server_get_def zassert_def Let_def)
      then show False using run MICRO_OPEN by simp
    qed
  next
    case (MICRO_READ fd)
    have "cache_of c (upd_client c (\<lambda>u. u\<lparr>readcnt := readcnt u + 1\<rparr>) w) = cache_of c w"
      by (rule upd_client_keeps) (simp_all add: skel_def c)
    then show ?thesis using run MICRO_READ used by (auto simp: Let_def rbind_eq_Inr)
  next
    case (MICRO_WRITE fd)
    have "cache_of c (upd_client c (\<lambda>u. u\<lparr>writecnt := writecnt u + 1\<rparr>) w) = cache_of c w"
      by (rule upd_client_keeps) (simp_all add: skel_def c)
    then show ?thesis using run MICRO_WRITE used by (auto simp: Let_def rbind_eq_Inr)
  next
    case (MICRO_CLOSE fd)
    then show ?thesis using run used by (auto simp: rbind_eq_Inr)
  qed
qed

lemma coh_step:
  assumes "coh V" and "f \<in> dom (fst V)" and "(\<exists>g fd. a = MICRO_OPEN g fd) \<or> snd V c f \<noteq> None"
  shows "coh (abs_step c f v a V)"
proof -
  obtain C M where V: "V = (C, M)" by (cases V)
  have ok: "f' \<in> dom C" "c_valid e \<Longrightarrow> \<not> c_dirty e \<Longrightarrow> C f' = Some (c_data e)" if "M d f' = Some e" for d f' e
    using assms(1) that unfolding coh_def V by auto
  show ?thesis
  proof (cases a)
    case (MICRO_OPEN g fd)
    obtain x where x: "C f = Some x" using assms(2) V by auto
    have "c_valid (opened x (M c f)) \<Longrightarrow> \<not> c_dirty (opened x (M c f)) \<Longrightarrow> c_data (opened x (M c f)) = x"
      using ok(2) [of c f] x by (auto simp: opened_def split: option.splits if_splits)
    then show ?thesis using MICRO_OPEN ok x unfolding coh_def V by (auto split: if_splits)
  next
    case (MICRO_READ fd)
    then show ?thesis using assms(1) V by simp
  next
    case (MICRO_WRITE fd)
    then show ?thesis using ok assms(2) unfolding coh_def V by (auto split: if_splits)
  next
    case (MICRO_CLOSE fd)
    then obtain e where e: "M c f = Some e" using assms(3) V by auto
    have iv: "inval f (M d) f' = (if f' = f then map_option (\<lambda>e. e\<lparr>c_valid := False\<rparr>) (M d f) else M d f')" for d f'
      by (auto simp: inval_def split: option.split)
    show ?thesis
      using MICRO_CLOSE ok e assms(2) unfolding coh_def V
      by (auto simp: Let_def iv split: if_splits)
  qed
qed

section \<open>Coherence of every run\<close>

text \<open>The file of an action that is possible exists on the server, and is in the cache unless the action opens it.\<close>

lemma enabled_key:
  assumes co: "coherent w" and c: "c < length (clients w)" and en: "enabled gi c a w"
  shows "file_of (clients w ! c) a \<in> dom (fst (view_of w)) \<and>
    ((\<exists>g fd. a = MICRO_OPEN g fd) \<or> snd (view_of w) c (file_of (clients w ! c) a) \<noteq> None)"
proof -
  have key: "(\<exists>g fd. a = MICRO_OPEN g fd) \<or> snd (view_of w) c (file_of (clients w ! c) a) \<noteq> None"
    using en c by (cases a) (auto simp: fd_used_def view_of_def Let_def)
  have "file_of (clients w ! c) a \<in> dom (fst (view_of w))"
  proof (cases "\<exists>g fd. a = MICRO_OPEN g fd")
    case True
    then show ?thesis using en by (auto simp: view_of_def dict_keys_map_of)
  next
    case False
    then obtain e where "cached c w (file_of (clients w ! c) a) = Some e" using key c by (auto simp: view_of_def)
    then show ?thesis using coherent_keys [OF co c] by (auto simp: view_of_def dict_keys_map_of)
  qed
  then show ?thesis using key by blast
qed

text \<open>The names and the descriptors stay as they are.\<close>

lemma step_keeps:
  assumes co: "coherent w" and c: "c < length (clients w)" and run: "client_step gi c w = Inr (rc, w')"
  shows "coherent w' \<and> length (clients w') = length (clients w)"
proof -
  have upd: "coherent (upd_client c g v) \<and> length (clients (upd_client c g v)) = length (clients v)"
    if "coherent v" "\<And>u. cl_cache (g u) = cl_cache u" "c < length (clients v)" for g v
  proof -
    have "cached d (upd_client c g v) = cached d v" for d
      using that(2,3) by (auto simp: cached_def cache_of_def upd_client_def nth_list_update)
    then show ?thesis using that(1) by (simp add: coherent_def promised_def view_of_def upd_client_def cong: if_cong)
  qed
  consider "rc = - 1" "w' = w" | "w' = upd_client c (\<lambda>u. u\<lparr>cl_done := True\<rparr>) w"
    | v where "client_action gi c (acts (clients w ! c) ! acnt (clients w ! c)) w = Inr v" "w' = upd_client c (\<lambda>u. u\<lparr>acnt := acnt u + 1\<rparr>) v"
    using run by (auto simp: client_step_def Let_def rbind_eq_Inr split: if_splits)
  then show ?thesis
  proof cases
    case 1
    then show ?thesis using co by simp
  next
    case 2
    then show ?thesis using upd [OF co _ c] by simp
  next
    case 3
    let ?a = "acts (clients w ! c) ! acnt (clients w ! c)" and ?u = "clients w ! c"
    have en: "enabled gi c ?a w" by (rule action_enabled [OF co c 3(1)])
    obtain v where v: "client_action gi c ?a w = Inr v" "skels v = skels w" "promised v"
      "view_of v = abs_step c (file_of ?u ?a) (next_value w) ?a (view_of w)"
      using action_ok [OF co c en] by blast
    note key = enabled_key [OF co c en]
    then have "coh (view_of v)" unfolding v(4) using co by (intro coh_step) (simp_all add: coherent_def)
    then have "coherent v" using v(3) by (simp add: coherent_def)
    moreover have "length (clients v) = length (clients w)" by (rule skels_length [OF v(2)])
    ultimately show ?thesis using upd [of v "\<lambda>u. u\<lparr>acnt := acnt u + 1\<rparr>"] 3 v(1) c by simp
  qed
qed

text \<open>The clients start with an empty cache.\<close>

definition fresh_clients :: "client list \<Rightarrow> bool" where
  "fresh_clients us \<longleftrightarrow> (\<forall>u \<in> set us. cl_cache u = cache_empty)"

lemma init_coherent: "fresh_clients us \<Longrightarrow> coherent (afs_init opt us)"
  by (auto simp: coherent_def promised_def coh_def view_of_def cached_def cache_of_def afs_init_def fresh_clients_def cache_empty_def Let_def
      split: if_splits)

lemma make_clients_fresh:
  assumes "make_clients opt ds = Inr (us, ds')"
  shows "fresh_clients us"
proof -
  have p: "cl_cache u = cache_empty" if "parse_client cl = Inr u" for cl u
  proof (rule rfold_inv [where P = "\<lambda>u. cl_cache u = cache_empty"])
    show "rfold parse_action (py_split CHR '':'' cl) new_client = Inr u" using that by (simp add: parse_client_def)
  qed (auto simp: parse_action_def new_client_def rbind_eq_Inr split: if_splits)
  have r: "cl_cache u = cache_empty" if "random_client fl ra k ds = Inr (u, ds')" for fl ra k ds u ds'
  proof -
    have "case (u, ds') of (u, ds) \<Rightarrow> cl_cache u = cache_empty"
    proof (rule rfold_inv [where P = "\<lambda>(u, ds). cl_cache u = cache_empty"])
      show "rfold (random_step fl ra) [0..<nat k] (new_client, ds) = Inr (u, ds')" using that by (simp add: random_client_def)
    qed (auto simp: random_step_def new_client_def rbind_eq_Inr Let_def)
    then show ?thesis by simp
  qed
  have "case (us, ds') of (us, ds) \<Rightarrow> fresh_clients us"
  proof (cases "actions opt = []")
    case False
    have "rfold (\<lambda>cl (us, ds). rbind (parse_client cl) (\<lambda>u. Inr (us @ [u], ds))) (py_split CHR '','' (actions opt)) ([], ds) = Inr (us, ds')"
      using assms False by (simp add: make_clients_def)
    then show ?thesis
      by (rule rfold_inv [where P = "\<lambda>(us, ds). fresh_clients us", rotated 2]) (auto simp: fresh_clients_def rbind_eq_Inr p)
  next
    case True
    have "rfold (\<lambda>_ (us, ds). rbind (random_client (filelist (numfiles opt)) (readratio opt) (numsteps opt) ds) (\<lambda>(u, ds). Inr (us @ [u], ds)))
        [0..<nat (numclients opt)] ([], ds) = Inr (us, ds')"
      using assms True by (simp add: make_clients_def)
    then show ?thesis
      by (rule rfold_inv [where P = "\<lambda>(us, ds). fresh_clients us", rotated 2]) (auto simp: fresh_clients_def rbind_eq_Inr, drule r, simp)
  qed
  then show ?thesis by simp
qed

definition afs_run :: "int \<Rightarrow> nat list \<Rightarrow> afs \<Rightarrow> afs res" where
  "afs_run gi cs w = rfold (\<lambda>c w. rbind (client_step gi c w) (\<lambda>(rc, w). Inr w)) cs w"

lemma afs_run_keeps:
  assumes "coherent w" and "\<forall>c \<in> set cs. c < length (clients w)" and "afs_run gi cs w = Inr w'"
  shows "coherent w' \<and> length (clients w') = length (clients w)"
  unfolding afs_run_def
proof (rule rfold_inv [where P = "\<lambda>v. coherent v \<and> length (clients v) = length (clients w)"])
  fix c v v' assume c: "c \<in> set cs" and v: "coherent v \<and> length (clients v) = length (clients w)"
    and r: "rbind (client_step gi c v) (\<lambda>(rc, w). Inr w) = Inr v'"
  obtain rc where "client_step gi c v = Inr (rc, v')" using r by (auto simp: rbind_eq_Inr)
  then show "coherent v' \<and> length (clients v') = length (clients w)" using step_keeps [of v c gi rc v'] assms(2) c v by simp
qed (use assms in \<open>simp_all add: afs_run_def\<close>)

text \<open>
  C15. Callbacks keep the caches coherent: in every run, whatever the actions of the clients and the order of their steps, a valid copy
  without unsaved changes has the contents of the server, and the server has a callback for each cached file.
\<close>

theorem afs_coherent:
  assumes "make_clients opt ds = Inr (us, ds')" and "\<forall>c \<in> set cs. c < length us" and "afs_run gi cs (afs_init opt us) = Inr w"
    and "c < length us" and "cached c w f = Some e"
  shows "f \<in> set (callbacks w ! c) \<and> (c_valid e \<and> \<not> c_dirty e \<longrightarrow> map_of (contents w) f = Some (c_data e))"
proof -
  have n: "length (clients (afs_init opt us)) = length us" by (simp add: afs_init_def Let_def)
  have co: "coherent w" "length (clients w) = length us"
    using afs_run_keeps [OF init_coherent [OF make_clients_fresh [OF assms(1)]] _ assms(3)] assms(2) n by simp_all
  have "dom (cached c w) \<subseteq> set (callbacks w ! c)" using co assms(4) by (auto simp: coherent_def promised_def)
  moreover have "snd (view_of w) c f = Some e" using assms(4,5) co(2) by (simp add: view_of_def)
  then have "c_valid e \<and> \<not> c_dirty e \<longrightarrow> fst (view_of w) f = Some (c_data e)" using co(1) unfolding coherent_def coh_def by blast
  ultimately show ?thesis using assms(5) by (auto simp: view_of_def)
qed

section \<open>The protocol\<close>

text \<open>
  What the comment on the client cache and the README say. An open of a file that the client has open already only counts: the client keeps the
  value it has, even when a callback has invalidated it, until the last close. An open of a file that is not open takes a valid copy as it is,
  and fetches the contents of the server otherwise. A read changes nothing. A write changes the copy of the client and nothing else, also
  after a callback. A close of a changed copy stores it and invalidates the copies of all other clients; the last close of an
  invalidated copy drops it.
\<close>

definition has_open :: "centry option \<Rightarrow> bool" where
  "has_open e \<longleftrightarrow> (\<exists>e'. e = Some e' \<and> 0 < c_refcnt e')"

definition usable :: "centry option \<Rightarrow> bool" where
  "usable e \<longleftrightarrow> (\<exists>e'. e = Some e' \<and> c_valid e')"

definition one_more :: "centry \<Rightarrow> centry" where
  "one_more e = e\<lparr>c_refcnt := c_refcnt e + 1\<rparr>"

definition one_less :: "centry \<Rightarrow> centry" where
  "one_less e = e\<lparr>c_refcnt := c_refcnt e - 1\<rparr>"

fun afs_protocol :: "nat \<Rightarrow> string \<Rightarrow> int \<Rightarrow> micro \<Rightarrow> view \<Rightarrow> view" where
  "afs_protocol c f v (MICRO_OPEN _ _) (C, M) =
     (if has_open (M c f) \<or> usable (M c f) then (C, M(c := (M c)(f := map_option one_more (M c f))))
      else (C, M(c := (M c)(f := map_option (\<lambda>x. \<lparr>c_data = x, c_dirty = False, c_refcnt = 1, c_valid = True\<rparr>) (C f)))))"
| "afs_protocol c f v (MICRO_READ _) (C, M) = (C, M)"
| "afs_protocol c f v (MICRO_WRITE _) (C, M) = (C, M(c := (M c)(f := map_option (\<lambda>e. e\<lparr>c_data := v, c_dirty := True\<rparr>) (M c f))))"
| "afs_protocol c f v (MICRO_CLOSE _) (C, M) = (case M c f of
     None \<Rightarrow> (C, M)
   | Some e \<Rightarrow>
       if c_dirty e
       then (C(f \<mapsto> c_data e),
             \<lambda>d g. if g \<noteq> f then M d g
                  else if d = c then Some (one_less e\<lparr>c_dirty := False, c_valid := True\<rparr>)
                  else map_option (\<lambda>e. e\<lparr>c_valid := False\<rparr>) (M d f))
       else if \<not> c_valid e \<and> c_refcnt e = 1 then (C, M(c := (M c)(f := None)))
       else (C, M(c := (M c)(f \<mapsto> one_less e))))"

text \<open>The one case in which the code does something else: it opens a copy again that is still open and was invalidated.\<close>

definition stale_reopen :: "micro \<Rightarrow> centry option \<Rightarrow> bool" where
  "stale_reopen a e \<longleftrightarrow> (\<exists>f fd. a = MICRO_OPEN f fd) \<and> has_open e \<and> \<not> usable e"

lemma abs_step_protocol:
  assumes "\<not> stale_reopen a (snd V c f)" and "f \<in> dom (fst V)" and "(\<exists>g fd. a = MICRO_OPEN g fd) \<or> snd V c f \<noteq> None"
  shows "abs_step c f v a V = afs_protocol c f v a V"
proof -
  obtain C M where V: "V = (C, M)" by (cases V)
  have iv: "inval f m = (\<lambda>g. if g \<noteq> f then m g else map_option (\<lambda>e. e\<lparr>c_valid := False\<rparr>) (m f))" for m
    by (auto simp: inval_def fun_eq_iff split: option.split)
  show ?thesis
    using assms unfolding V
    by (cases a)
      (auto simp: stale_reopen_def has_open_def usable_def opened_def one_more_def one_less_def Let_def iv fun_eq_iff split: option.split if_splits)
qed

text \<open>
  C20. An action that the code performs in a coherent state does to the contents of the server and to all caches what the protocol of the
  comment and the README says, and traces what the client saw, unless it opens a file whose invalidated copy the client still has open.
  In that case (and only there) the code departs from the protocol: it replaces the copy by the contents of the server with one reference,
  and drops unsaved changes.
\<close>

theorem afs_action_refines:
  assumes "coherent w" and "c < length (clients w)" and "client_action gi c a w = Inr w'"
  shows "let f = file_of (clients w ! c) a; e = cached c w f
    in view_of w' = (if stale_reopen a e then (fst (view_of w), (snd (view_of w))(c := (snd (view_of w) c)(f \<mapsto>
                       \<lparr>c_data = the (map_of (contents w) f), c_dirty = False, c_refcnt = 1, c_valid = True\<rparr>)))
                     else afs_protocol c f (next_value w) a (view_of w)) \<and>
       afs_trace w' = afs_trace w @ [(c, event_of a e (next_value w))]"
proof -
  let ?f = "file_of (clients w ! c) a"
  have en: "enabled gi c a w" by (rule action_enabled [OF assms])
  obtain v where "client_action gi c a w = Inr v" "view_of v = abs_step c ?f (next_value w) a (view_of w)"
    "afs_trace v = afs_trace w @ [(c, event_of a (cached c w ?f) (next_value w))]"
    using action_ok [OF assms(1,2) en] by blast
  then have v: "view_of w' = abs_step c ?f (next_value w) a (view_of w)"
    "afs_trace w' = afs_trace w @ [(c, event_of a (cached c w ?f) (next_value w))]"
    using assms(3) by simp_all
  have sv: "snd (view_of w) c = cached c w" using assms(2) by (simp add: view_of_def)
  note key = enabled_key [OF assms(1,2) en]
  show ?thesis
  proof (cases "stale_reopen a (cached c w ?f)")
    case True
    then obtain g fd e where "a = MICRO_OPEN g fd" "cached c w g = Some e" "\<not> c_valid e" by (auto simp: stale_reopen_def has_open_def usable_def)
    then show ?thesis using v sv True by (simp add: view_of_def opened_def Let_def)
  next
    case False
    then show ?thesis using v abs_step_protocol [of a "view_of w" c ?f] key sv by (simp add: Let_def)
  qed
qed

text \<open>Two clients, the first writes the file that the second reads.\<close>

definition demo_client :: "(nat \<Rightarrow> micro) \<Rightarrow> client" where
  "demo_client op = new_client\<lparr>cl_fd := (replicate 1024 [])[1 := ''a''], acts := [MICRO_OPEN ''a'' 1, op 1, MICRO_CLOSE 1]\<rparr>"

definition demo_opt :: afs_options where
  "demo_opt = afs_defaults\<lparr>actions := ''oa1:w1:c1,oa1:r1:c1'', schedule := ''01''\<rparr>"

lemma demo_clients: "make_clients demo_opt ds = Inr ([demo_client MICRO_WRITE, demo_client MICRO_READ], ds)"
proof -
  have sp: "py_split CHR '','' ''oa1:w1:c1,oa1:r1:c1'' = [''oa1:w1:c1'', ''oa1:r1:c1'']" "py_split CHR '':'' ''oa1:w1:c1'' = [''oa1'', ''w1'', ''c1'']"
    "py_split CHR '':'' ''oa1:r1:c1'' = [''oa1'', ''r1'', ''c1'']" "digit CHR ''1'' = Inr 1"
    by code_simp+
  show ?thesis
    by (simp add: make_clients_def demo_opt_def afs_defaults_def sp parse_client_def parse_action_def zassert_def fd_alloc_def new_client_def
        demo_client_def numeral_2_eq_2)
qed

lemma demo_client_simps:
  "acts (demo_client op) = [MICRO_OPEN ''a'' 1, op 1, MICRO_CLOSE 1]" "acnt (demo_client op) = 0" "\<not> cl_done (demo_client op)"
  "cl_cache (demo_client op) = cache_empty"
  by (simp_all add: demo_client_def new_client_def)

definition demo_start :: afs where
  "demo_start = afs_init demo_opt [demo_client MICRO_WRITE, demo_client MICRO_READ]"

lemma demo_start_simps:
  "clients demo_start = [demo_client MICRO_WRITE, demo_client MICRO_READ]" "contents demo_start = [(''a'', 0)]" "afs_trace demo_start = []"
  "coherent demo_start" "cached 0 demo_start = Map.empty"
proof -
  show w: "clients demo_start = [demo_client MICRO_WRITE, demo_client MICRO_READ]" "contents demo_start = [(''a'', 0)]" "afs_trace demo_start = []"
    by (simp_all add: demo_start_def afs_init_def demo_opt_def afs_defaults_def filelist_def Let_def)
  show "coherent demo_start" unfolding demo_start_def by (rule init_coherent) (simp add: fresh_clients_def demo_client_simps)
  show "cached 0 demo_start = Map.empty" by (simp add: cached_def cache_of_def w demo_client_simps cache_empty_def)
qed

lemma demo_open:
  "\<exists>v. client_action 1 0 (MICRO_OPEN ''a'' 1) demo_start = Inr v \<and> length (clients v) = 2 \<and> cached 0 v ''a'' = Some (opened 0 None)"
proof -
  have en: "enabled 1 0 (MICRO_OPEN ''a'' 1) demo_start" and l: "0 < length (clients demo_start)" by (simp_all add: demo_start_simps dict_keys_def)
  obtain v where v: "client_action 1 0 (MICRO_OPEN ''a'' 1) demo_start = Inr v" "skels v = skels demo_start"
    "view_of v = abs_step 0 ''a'' (next_value demo_start) (MICRO_OPEN ''a'' 1) (view_of demo_start)"
    using action_ok [OF demo_start_simps(4) l en, unfolded file_of.simps] by blast
  have lv: "length (clients v) = 2" using skels_length [OF v(2)] by (simp add: demo_start_simps(1))
  have "cached 0 v = snd (view_of v) 0" using lv by (simp add: view_of_def)
  also have "\<dots> = [''a'' \<mapsto> opened 0 None]" unfolding v(3) by (simp add: view_of_def demo_start_simps)
  finally show ?thesis using v(1) lv by simp
qed

theorem afs_coherent_witness:
  "\<exists>w. afs_run 1 [0] demo_start = Inr w \<and> ''a'' \<in> set (callbacks w ! 0) \<and> map_of (contents w) ''a'' = Some 0"
proof -
  obtain v where v: "client_action 1 0 (MICRO_OPEN ''a'' 1) demo_start = Inr v" "length (clients v) = 2" "cached 0 v ''a'' = Some (opened 0 None)"
    using demo_open by blast
  define w where "w = upd_client 0 (\<lambda>u. u\<lparr>acnt := acnt u + 1\<rparr>) v"
  have r: "afs_run 1 [0] demo_start = Inr w"
    using v(1) by (simp add: afs_run_def client_step_def demo_start_simps(1) demo_client_simps w_def Let_def)
  have c: "cached 0 w ''a'' = Some (opened 0 None)"
    using v(2,3) by (simp add: cached_def cache_of_def w_def upd_client_def)
  have "make_clients demo_opt [] = Inr ([demo_client MICRO_WRITE, demo_client MICRO_READ], [])" by (rule demo_clients)
  from afs_coherent [OF this _ r [unfolded demo_start_def] _ c] show ?thesis using r by (auto simp: opened_def)
qed

theorem afs_action_refines_witness:
  "\<exists>w'. client_action 1 0 (MICRO_OPEN ''a'' 1) demo_start = Inr w' \<and> afs_trace w' = [(0, EvOpen ''a'' 1)] \<and>
     view_of w' = afs_protocol 0 ''a'' (next_value demo_start) (MICRO_OPEN ''a'' 1) (view_of demo_start)"
proof -
  obtain v where v: "client_action 1 0 (MICRO_OPEN ''a'' 1) demo_start = Inr v" using demo_open by blast
  then show ?thesis using afs_action_refines [OF demo_start_simps(4) _ v]
    by (auto simp: demo_start_simps(1,3,5) Let_def stale_reopen_def has_open_def)
qed

section \<open>Random clients\<close>

definition idle :: "(string \<Rightarrow> centry option) \<Rightarrow> bool" where
  "idle m \<longleftrightarrow> (\<forall>g e. m g = Some e \<longrightarrow> \<not> c_dirty e \<and> c_refcnt e = 0)"

definition busy :: "string \<Rightarrow> bool \<Rightarrow> (string \<Rightarrow> centry option) \<Rightarrow> bool" where
  "busy f d m \<longleftrightarrow> (\<exists>e. m f = Some e \<and> c_dirty e = d \<and> c_refcnt e = 1) \<and> (\<forall>g e. g \<noteq> f \<longrightarrow> m g = Some e \<longrightarrow> \<not> c_dirty e \<and> c_refcnt e = 0)"

lemma inval_at: "inval f m g = (if g = f then map_option (\<lambda>e. e\<lparr>c_valid := False\<rparr>) (m f) else m g)"
  by (auto simp: inval_def split: option.split)

lemma idle_inval: "idle m \<Longrightarrow> idle (inval f m)"
  by (auto simp: idle_def inval_at split: if_splits)

lemma busy_inval:
  assumes "busy g d m"
  shows "busy g d (inval f m)"
proof -
  obtain e where e: "m g = Some e" "c_dirty e = d" "c_refcnt e = 1" using assms by (auto simp: busy_def)
  have "\<exists>e. inval f m g = Some e \<and> c_dirty e = d \<and> c_refcnt e = 1" using e by (cases "g = f") (simp_all add: inval_at)
  moreover have "\<not> c_dirty e' \<and> c_refcnt e' = 0" if hg: "h \<noteq> g" and iv: "inval f m h = Some e'" for h e'
  proof -
    have other: "\<not> c_dirty x \<and> c_refcnt x = 0" if "m h = Some x" for x using assms that hg unfolding busy_def by blast
    show ?thesis
    proof (cases "h = f")
      case True
      then obtain x where "m h = Some x" "e' = x\<lparr>c_valid := False\<rparr>" using iv by (auto simp: inval_at)
      then show ?thesis using other by simp
    next
      case False
      then show ?thesis using iv other by (simp add: inval_at)
    qed
  qed
  ultimately show ?thesis unfolding busy_def by blast
qed

text \<open>A session: a file, its descriptor, and whether the file is written.\<close>

type_synonym session = "string \<times> nat \<times> bool"

definition rw :: "session \<Rightarrow> micro" where
  "rw s = (case s of (f, fd, wr) \<Rightarrow> if wr then MICRO_WRITE fd else MICRO_READ fd)"

definition sess :: "session \<Rightarrow> micro list" where
  "sess s = [MICRO_OPEN (fst s) (fst (snd s)), rw s, MICRO_CLOSE (fst (snd s))]"

definition good_sess :: "string set \<Rightarrow> string list \<Rightarrow> session \<Rightarrow> bool" where
  "good_sess F fds s \<longleftrightarrow> (case s of (f, fd, wr) \<Rightarrow> f \<in> F \<and> f \<noteq> [] \<and> fd < length fds \<and> fds ! fd = f)"

definition phase :: "string set \<Rightarrow> string list \<Rightarrow> micro list \<Rightarrow> (string \<Rightarrow> centry option) \<Rightarrow> bool" where
  "phase F fds rest m \<longleftrightarrow> (\<exists>ss. (\<forall>s \<in> set ss. good_sess F fds s) \<and>
     (rest = concat (map sess ss) \<and> idle m \<or>
      (\<exists>s. good_sess F fds s \<and>
        (rest = rw s # MICRO_CLOSE (fst (snd s)) # concat (map sess ss) \<and> busy (fst s) False m \<or>
         (\<exists>d. rest = MICRO_CLOSE (fst (snd s)) # concat (map sess ss) \<and> busy (fst s) d m)))))"

lemma phaseI:
  assumes "\<forall>s \<in> set ss. good_sess F fds s"
  shows "rest = concat (map sess ss) \<Longrightarrow> idle m \<Longrightarrow> phase F fds rest m"
    and "good_sess F fds s \<Longrightarrow> rest = rw s # MICRO_CLOSE (fst (snd s)) # concat (map sess ss) \<Longrightarrow> busy (fst s) False m \<Longrightarrow> phase F fds rest m"
    and "good_sess F fds s \<Longrightarrow> rest = MICRO_CLOSE (fst (snd s)) # concat (map sess ss) \<Longrightarrow> busy (fst s) d m \<Longrightarrow> phase F fds rest m"
proof -
  show "phase F fds rest m" if "rest = concat (map sess ss)" "idle m"
    unfolding phase_def using assms that by blast
  show "phase F fds rest m" if "good_sess F fds s" "rest = rw s # MICRO_CLOSE (fst (snd s)) # concat (map sess ss)" "busy (fst s) False m"
    unfolding phase_def by (intro exI [of _ ss] conjI disjI2 exI [of _ s] disjI1 assms that)
  show "phase F fds rest m" if "good_sess F fds s" "rest = MICRO_CLOSE (fst (snd s)) # concat (map sess ss)" "busy (fst s) d m"
    unfolding phase_def by (rule exI [of _ ss], rule conjI, rule assms, rule disjI2, rule exI [of _ s]) (use that in blast)
qed

definition proper :: "string set \<Rightarrow> string list \<times> bool \<times> nat \<times> micro list \<Rightarrow> (string \<Rightarrow> centry option) \<Rightarrow> bool" where
  "proper F k m \<longleftrightarrow> (case k of (fds, dn, n, as) \<Rightarrow> length fds = 1024 \<and> n \<le> length as \<and> (dn \<longrightarrow> n = length as) \<and> phase F fds (drop n as) m)"

lemma phase_inval: "phase F fds rest m \<Longrightarrow> phase F fds rest (inval f m)"
  unfolding phase_def using idle_inval [of m f] busy_inval [of _ _ m f] by blast

lemma proper_inval: "proper F k m \<Longrightarrow> proper F k (inval f m)"
  using phase_inval by (auto simp: proper_def)

lemma proper_others:
  assumes "d \<noteq> c" and "proper F k (snd V d)"
  shows "proper F k (snd (abs_step c f v a V) d)"
  using assms proper_inval by (cases V; cases a) (auto simp: Let_def)

lemma drop_Cons:
  assumes "drop n as = a # rest"
  shows "n < length as \<and> as ! n = a \<and> drop (Suc n) as = rest"
proof -
  have n: "n < length as" using assms by (metis drop_all list.distinct(1) not_le)
  then have "drop n as = as ! n # drop (Suc n) as" by (simp add: Cons_nth_drop_Suc)
  then show ?thesis using n assms by simp
qed

text \<open>The action of a random client never fails and brings the client to its next state.\<close>

lemma proper_action:
  assumes pr: "proper F (fds, dn, n, as) (snd V c)" and n: "n < length as" and V: "dom (fst V) = F"
    and fds: "cl_fd u = fds"
  shows "proper F (fds, False, Suc n, as) (snd (abs_step c (file_of u (as ! n)) v (as ! n) V) c)"
    and "file_of u (as ! n) \<in> F"
    and "(\<exists>f fd. as ! n = MICRO_OPEN f fd) \<or> (\<exists>fd. fd < length fds \<and> fds ! fd \<noteq> [] \<and> snd V c (fds ! fd) \<noteq> None \<and> file_of u (as ! n) = fds ! fd \<and>
      as ! n \<in> {MICRO_READ fd, MICRO_WRITE fd, MICRO_CLOSE fd})"
proof -
  obtain C M where CM: "V = (C, M)" by (cases V)
  have len: "length fds = 1024" and "phase F fds (drop n as) (M c)" using pr by (simp_all add: proper_def CM)
  then obtain ss where ss: "\<forall>s \<in> set ss. good_sess F fds s"
    and ph: "drop n as = concat (map sess ss) \<and> idle (M c) \<or>
        (\<exists>s. good_sess F fds s \<and> (drop n as = rw s # MICRO_CLOSE (fst (snd s)) # concat (map sess ss) \<and> busy (fst s) False (M c) \<or>
           (\<exists>d. drop n as = MICRO_CLOSE (fst (snd s)) # concat (map sess ss) \<and> busy (fst s) d (M c))))"
    unfolding phase_def by blast
  have "proper F (fds, False, Suc n, as) (snd (abs_step c (file_of u (as ! n)) v (as ! n) V) c) \<and> file_of u (as ! n) \<in> F \<and>
    ((\<exists>f fd. as ! n = MICRO_OPEN f fd) \<or> (\<exists>fd. fd < length fds \<and> fds ! fd \<noteq> [] \<and> M c (fds ! fd) \<noteq> None \<and> file_of u (as ! n) = fds ! fd \<and>
      as ! n \<in> {MICRO_READ fd, MICRO_WRITE fd, MICRO_CLOSE fd}))"
    using ph
  proof (elim disjE exE conjE)
    assume d: "drop n as = concat (map sess ss)" and i: "idle (M c)"
    have "drop n as \<noteq> []" using n by simp
    then have "concat (map sess ss) \<noteq> []" unfolding d .
    then obtain s ss' where s: "ss = s # ss'" by (cases ss) auto
    obtain f fd wr where f: "s = (f, fd, wr)" by (cases s)
    have dd: "drop n as = MICRO_OPEN f fd # rw s # MICRO_CLOSE fd # concat (map sess ss')" using d s f by (simp add: sess_def)
    note nx = drop_Cons [OF dd]
    have g: "good_sess F fds s" "\<forall>s \<in> set ss'. good_sess F fds s" using ss s by simp_all
    then obtain x where x: "C f = Some x" using V CM f by (auto simp: good_sess_def)
    have "busy f False ((M c)(f \<mapsto> opened x (M c f)))"
      using i by (auto simp: busy_def idle_def opened_def split: option.split)
    then have "phase F fds (drop (Suc n) as) ((M c)(f \<mapsto> opened x (M c f)))" using phaseI(2) [OF g(2,1)] nx f by simp
    then show ?thesis using nx g f x len n CM by (auto simp: proper_def good_sess_def)
  next
    fix s assume g: "good_sess F fds s" and d: "drop n as = rw s # MICRO_CLOSE (fst (snd s)) # concat (map sess ss)" and b: "busy (fst s) False (M c)"
    obtain f fd wr where f: "s = (f, fd, wr)" by (cases s)
    note nx = drop_Cons [OF d]
    obtain e where e: "M c f = Some e" "\<not> c_dirty e" "c_refcnt e = 1" using b f by (auto simp: busy_def)
    show ?thesis
    proof (cases wr)
      case False
      then have a: "as ! n = MICRO_READ fd" using nx f by (simp add: rw_def)
      have "drop (Suc n) as = MICRO_CLOSE (fst (snd s)) # concat (map sess ss)" using nx by simp
      then have "phase F fds (drop (Suc n) as) (M c)" using phaseI(3) [OF ss g _ b] by simp
      then show ?thesis using a g f len n fds e CM by (auto simp: proper_def good_sess_def)
    next
      case True
      then have a: "as ! n = MICRO_WRITE fd" using nx f by (simp add: rw_def)
      have dr: "drop (Suc n) as = MICRO_CLOSE (fst (snd s)) # concat (map sess ss)" using nx by simp
      have "busy f True ((M c)(f \<mapsto> e\<lparr>c_data := v, c_dirty := True\<rparr>))" using b e f by (auto simp: busy_def)
      then have "phase F fds (drop (Suc n) as) ((M c)(f \<mapsto> e\<lparr>c_data := v, c_dirty := True\<rparr>))" using phaseI(3) [OF ss g dr, of True] f by simp
      then show ?thesis using a g f len n fds e CM by (auto simp: proper_def good_sess_def)
    qed
  next
    fix s b assume g: "good_sess F fds s" and d: "drop n as = MICRO_CLOSE (fst (snd s)) # concat (map sess ss)" and bu: "busy (fst s) b (M c)"
    obtain f fd wr where f: "s = (f, fd, wr)" by (cases s)
    have a: "as ! n = MICRO_CLOSE fd" and dr: "drop (Suc n) as = concat (map sess ss)" using drop_Cons [OF d] f by simp_all
    obtain e where e: "M c f = Some e" "c_dirty e = b" "c_refcnt e = 1" using bu f by (auto simp: busy_def)
    have fl: "file_of u (as ! n) = f" using a fds g f by (simp add: good_sess_def)
    have "idle (snd (abs_step c f v (MICRO_CLOSE fd) V) c)"
      using bu e f by (auto simp: CM busy_def idle_def Let_def split: if_splits)
    then have "phase F fds (drop (Suc n) as) (snd (abs_step c f v (MICRO_CLOSE fd) V) c)" by (rule phaseI(1) [OF ss dr])
    then show ?thesis using a g f len n fds e CM fl by (auto simp: proper_def good_sess_def)
  qed
  then show "proper F (fds, False, Suc n, as) (snd (abs_step c (file_of u (as ! n)) v (as ! n) V) c)" "file_of u (as ! n) \<in> F"
    "(\<exists>f fd. as ! n = MICRO_OPEN f fd) \<or> (\<exists>fd. fd < length fds \<and> fds ! fd \<noteq> [] \<and> snd V c (fds ! fd) \<noteq> None \<and> file_of u (as ! n) = fds ! fd \<and>
      as ! n \<in> {MICRO_READ fd, MICRO_WRITE fd, MICRO_CLOSE fd})"
    unfolding CM by simp_all
qed

text \<open>The state of a run of random clients.\<close>

definition sound :: "string set \<Rightarrow> afs \<Rightarrow> bool" where
  "sound F w \<longleftrightarrow> coherent w \<and> dom (map_of (contents w)) = F \<and> (\<forall>c < length (clients w). proper F (skel (clients w ! c)) (cached c w))"

definition remaining :: "string list \<times> bool \<times> nat \<times> micro list \<Rightarrow> nat" where
  "remaining k = (case k of (fds, dn, n, as) \<Rightarrow> if dn then 0 else length as - n + 1)"

definition is_done :: "string list \<times> bool \<times> nat \<times> micro list \<Rightarrow> bool" where
  "is_done k = fst (snd k)"

lemma remaining_0: "remaining k = 0 \<longleftrightarrow> is_done k"
  by (cases k) (simp add: remaining_def is_done_def)

lemma upd_skels:
  assumes "c < length (clients v)" and "\<And>u. cl_cache (g u) = cl_cache u"
  shows "skels (upd_client c g v) = (skels v)[c := skel (g (clients v ! c))]" and "cached d (upd_client c g v) = cached d v"
    and "contents (upd_client c g v) = contents v" and "coherent (upd_client c g v) = coherent v"
proof -
  show c: "cached d (upd_client c g v) = cached d v" for d
    using assms by (auto simp: cached_def cache_of_def upd_client_def nth_list_update)
  show "skels (upd_client c g v) = (skels v)[c := skel (g (clients v ! c))]" by (simp add: skels_def upd_client_def map_update)
  show "contents (upd_client c g v) = contents v" by (simp add: upd_client_def)
  show "coherent (upd_client c g v) = coherent v"
    using c by (simp add: coherent_def promised_def view_of_def upd_client_def cong: if_cong)
qed

lemma soundI:
  assumes "coherent w" and "dom (map_of (contents w)) = F" and "\<And>c. c < length (skels w) \<Longrightarrow> proper F (skels w ! c) (cached c w)"
  shows "sound F w"
  using assms by (simp add: sound_def skels_def)

text \<open>A step of a random client: it does its next action, finishes, or was done.\<close>

lemma sound_step:
  assumes w: "sound F w" and c: "c < length (clients w)" and gi: "0 \<le> gi" "gi < 1024"
  shows "\<exists>rc w' k. client_step gi c w = Inr (rc, w') \<and> sound F w' \<and> skels w' = (skels w)[c := k] \<and>
    (if is_done (skels w ! c) then rc \<noteq> 0 \<and> k = skels w ! c
     else remaining (skels w ! c) = remaining k + 1 \<and> (rc = 0 \<longleftrightarrow> is_done k))"
proof -
  let ?u = "clients w ! c"
  obtain fds dn n as where k: "skel ?u = (fds, dn, n, as)" by (cases "skel ?u") auto
  then have u: "cl_fd ?u = fds" "cl_done ?u = dn" "acnt ?u = n" "acts ?u = as" by (simp_all add: skel_def)
  have sk: "skels w ! c = (fds, dn, n, as)" using c k by (simp add: skels_def)
  have lens: "length (skels w) = length (clients w)" by (simp add: skels_def)
  have pr: "proper F (skels w ! d) (cached d w)" if "d < length (clients w)" for d
    using w that by (simp add: sound_def skels_def)
  have prc: "proper F (fds, dn, n, as) (cached c w)" using pr [OF c] sk by simp
  have co: "coherent w" "dom (map_of (contents w)) = F" using w by (simp_all add: sound_def)
  consider "dn" | "\<not> dn" "n = length as" | "\<not> dn" "n < length as" using prc by (fastforce simp: proper_def)
  then show ?thesis
  proof cases
    case 1
    then have "client_step gi c w = Inr (- 1, w)" using u by (simp add: client_step_def)
    then show ?thesis using w sk 1 list_update_id [of "skels w" c] by (intro exI [of _ "- 1"] exI [of _ w] exI [of _ "skels w ! c"]) (simp add: is_done_def)
  next
    case 2
    let ?w = "upd_client c (\<lambda>u. u\<lparr>cl_done := True\<rparr>) w"
    note up = upd_skels [of c w "\<lambda>u. u\<lparr>cl_done := True\<rparr>", OF c, simplified]
    have sk': "skels ?w = (skels w)[c := (fds, True, n, as)]" using up(1) u by (simp add: skel_def)
    have "sound F ?w"
    proof (rule soundI)
      fix d assume "d < length (skels ?w)"
      then have d: "d < length (clients w)" using sk' lens by simp
      show "proper F (skels ?w ! d) (cached d ?w)"
      proof (cases "d = c")
        case True
        then show ?thesis using prc 2 d lens unfolding sk' up(2) by (simp add: proper_def)
      next
        case False
        then show ?thesis using pr [OF d] unfolding sk' up(2) by simp
      qed
    qed (use up co in simp_all)
    moreover have "client_step gi c w = Inr (0, ?w)" using u 2 by (simp add: client_step_def)
    ultimately show ?thesis using sk sk' 2 by (intro exI [of _ 0] exI [of _ ?w] exI [of _ "(fds, True, n, as)"]) (simp add: is_done_def remaining_def)
  next
    case 3
    have V: "dom (fst (view_of w)) = F" "snd (view_of w) d = cached d w" if "d < length (clients w)" for d
      using co(2) that by (simp_all add: view_of_def)
    have "proper F (fds, dn, n, as) (snd (view_of w) c)" using prc V(2) [OF c] by simp
    note pa = proper_action [OF this 3(2) V(1) [OF c] u(1)]
    have len: "length fds = 1024" using prc by (simp add: proper_def)
    have en: "enabled gi c (as ! n) w"
      using pa(2,3) gi len u(1) V(2) [OF c] co(2) by (auto simp: fd_used_def dict_keys_map_of Let_def)
    obtain v where v: "client_action gi c (as ! n) w = Inr v" "skels v = skels w" "promised v"
      "view_of v = abs_step c (file_of ?u (as ! n)) (next_value w) (as ! n) (view_of w)"
      using action_ok [OF co(1) c en] by blast
    have lv: "length (clients v) = length (clients w)" by (rule skels_length [OF v(2)])
    have cv: "snd (view_of v) d = cached d v" if "d < length (clients w)" for d using that lv by (simp add: view_of_def)
    have fd: "file_of ?u (as ! n) \<in> dom (fst (view_of w))" using pa(2) V(1) [OF c] by simp
    have key: "(\<exists>g fd. as ! n = MICRO_OPEN g fd) \<or> snd (view_of w) c (file_of ?u (as ! n)) \<noteq> None" using pa(3) by metis
    have "coh (view_of v)" unfolding v(4) using co(1) by (intro coh_step [OF _ fd key]) (simp add: coherent_def)
    then have cov: "coherent v" using v(3) by (simp add: coherent_def)
    have domv: "dom (map_of (contents v)) = F"
    proof -
      have "dom (fst (view_of v)) = dom (fst (view_of w))"
        unfolding v(4) using fd by (cases "view_of w"; cases "as ! n") (auto simp: Let_def)
      then show ?thesis using V(1) [OF c] by (simp add: view_of_def)
    qed
    let ?w = "upd_client c (\<lambda>u. u\<lparr>acnt := Suc (acnt u)\<rparr>) v"
    have cl: "c < length (clients v)" using lv c by simp
    note up = upd_skels [of c v "\<lambda>u. u\<lparr>acnt := Suc (acnt u)\<rparr>", OF cl, simplified]
    have "skel (clients v ! c) = (fds, dn, n, as)" using v(2) sk cl unfolding skels_def by (metis nth_map)
    then have sk': "skels ?w = (skels w)[c := (fds, dn, Suc n, as)]" using up(1) v(2) by (simp add: skel_def)
    have "sound F ?w"
    proof (rule soundI)
      fix d assume "d < length (skels ?w)"
      then have d: "d < length (clients w)" using sk' lens by simp
      have e: "cached d v = snd (abs_step c (file_of ?u (as ! n)) (next_value w) (as ! n) (view_of w)) d" using cv [OF d] v(4) by simp
      show "proper F (skels ?w ! d) (cached d ?w)"
      proof (cases "d = c")
        case True
        then show ?thesis using pa(1) 3 d lens e unfolding sk' up(2) by simp
      next
        case False
        have "proper F (skels w ! d) (snd (view_of w) d)" using pr [OF d] V(2) [OF d] by simp
        then show ?thesis using proper_others [OF False] e False unfolding sk' up(2) by simp
      qed
    qed (use up cov domv in simp_all)
    moreover have "client_step gi c w = Inr (1, ?w)" using u 3 v(1) by (simp add: client_step_def)
    ultimately show ?thesis using sk sk' 3
      by (intro exI [of _ 1] exI [of _ ?w] exI [of _ "(fds, dn, Suc n, as)"]) (simp add: is_done_def remaining_def)
  qed
qed

section \<open>The main loop\<close>

definition total_left :: "afs \<Rightarrow> nat" where
  "total_left w = sum_list (map remaining (skels w))"

definition not_done :: "afs \<Rightarrow> nat" where
  "not_done w = sum_list (map (\<lambda>k. if is_done k then 0 else 1) (skels w))"

lemma sum_list_map_update:
  fixes f :: "'a \<Rightarrow> nat"
  assumes "c < length xs"
  shows "sum_list (map f (xs[c := k])) + f (xs ! c) = sum_list (map f xs) + f k"
proof -
  have "f (xs ! c) \<le> sum_list (map f xs)" using assms by (intro member_le_sum_list) simp_all
  then show ?thesis using assms by (simp add: map_update sum_list_update)
qed

lemma not_done_pos: "0 < not_done w \<longleftrightarrow> (\<exists>c < length (clients w). \<not> is_done (skels w ! c))"
proof -
  have "not_done w = 0 \<longleftrightarrow> (\<forall>k \<in> set (skels w). is_done k)" by (auto simp: not_done_def split: if_splits)
  also have "\<dots> \<longleftrightarrow> (\<forall>c < length (clients w). is_done (skels w ! c))" by (auto simp: all_set_conv_all_nth skels_def)
  finally show ?thesis by auto
qed

text \<open>A schedule of digits that name existing clients, each of them.\<close>

definition fair :: "string \<Rightarrow> nat \<Rightarrow> bool" where
  "fair sched n \<longleftrightarrow> (\<forall>ch \<in> set sched. \<exists>i < n. py_int [ch] = Inr (int i)) \<and> (\<forall>i < n. \<exists>ch \<in> set sched. py_int [ch] = Inr (int i))"

definition turn :: "string \<Rightarrow> nat \<Rightarrow> nat" where
  "turn sched p = (case py_int [sched ! p] of Inr i \<Rightarrow> nat i | Inl _ \<Rightarrow> 0)"

lemma fair_turn:
  assumes "fair sched n" and "p < length sched"
  shows "py_int [sched ! p] = Inr (int (turn sched p)) \<and> turn sched p < n"
proof -
  have "sched ! p \<in> set sched" using assms(2) by simp
  then obtain i where "i < n" "py_int [sched ! p] = Inr (int i)" using assms(1) unfolding fair_def by blast
  then show ?thesis by (simp add: turn_def)
qed

lemma fair_all: "fair sched n \<Longrightarrow> c < n \<Longrightarrow> \<exists>p < length sched. turn sched p = c"
  unfolding fair_def turn_def by (metis in_set_conv_nth nat_int old.sum.simps(6))

lemma cyclic_position:
  fixes cur p L :: nat
  assumes "p < L" and "cur < L"
  shows "\<exists>k < L. (cur + k) mod L = p"
proof (cases "cur \<le> p")
  case True
  then show ?thesis using assms by (intro exI [of _ "p - cur"]) simp
next
  case False
  then have "cur + (L - cur + p) = L + p" using assms by simp
  then show ?thesis using assms False by (intro exI [of _ "L - cur + p"]) simp
qed

lemma next_mod: "cur < L \<Longrightarrow> 0 < k \<Longrightarrow> ((if cur + 1 = L then 0 else cur + 1) + (k - 1)) mod L = (cur + k) mod (L :: nat)"
  by (cases "cur + 1 = L") (auto simp: le_mod_geq [symmetric], metis Suc_pred add.commute add_Suc_right mod_add_self1 plus_1_eq_Suc)

lemma loop_ends:
  assumes "sound F w" and gi: "0 \<le> gi" "gi < 1024" and fair: "fair sched n" and "length (clients w) = n" and "running = not_done w"
    and "cur < length sched" and "k < length sched"
    and "running = 0 \<or> \<not> is_done (skels w ! turn sched ((cur + k) mod length sched)) \<and> (total_left w - 1) * length sched + k < fuel"
  shows "\<exists>w'. afs_loop fuel gi sched running w (cur, ds) = Inr w' \<and> sound F w' \<and> length (clients w') = n \<and> not_done w' = 0"
  using assms(1,5-)
proof (induction fuel arbitrary: w running cur k)
  case 0
  then show ?case by (auto simp: afs_loop.simps)
next
  case (Suc f)
  show ?case
  proof (cases "running = 0")
    case True
    then show ?thesis using Suc.prems by (auto simp: afs_loop.simps)
  next
    case False
    let ?L = "length sched" and ?c = "turn sched cur" and ?cur = "if cur + 1 = length sched then 0 else cur + 1"
    have k: "\<not> is_done (skels w ! turn sched ((cur + k) mod ?L))" "(total_left w - 1) * ?L + k < Suc f" using Suc.prems(6) False by simp_all
    have c: "py_int [sched ! cur] = Inr (int ?c)" "?c < n" using fair_turn [OF fair Suc.prems(4)] by simp_all
    have cl: "?c < length (clients w)" "?c < length (skels w)" using c(2) Suc.prems(2) by (simp_all add: skels_def)
    have cur: "?cur < ?L" using Suc.prems(4) by auto
    have nx: "next_client sched (length (clients w)) (cur, ds) = Inr (?c, ?cur, ds)"
      using c Suc.prems(2,4) by (auto simp: next_client_def)
    obtain rc w' q where st: "client_step gi ?c w = Inr (rc, w')" "sound F w'" "skels w' = (skels w)[?c := q]"
      "if is_done (skels w ! ?c) then rc \<noteq> 0 \<and> q = skels w ! ?c else remaining (skels w ! ?c) = remaining q + 1 \<and> (rc = 0 \<longleftrightarrow> is_done q)"
      using sound_step [OF Suc.prems(1) cl(1) gi] by blast
    have lw: "length (clients w') = n" using arg_cong [OF st(3), of length] Suc.prems(2) by (simp add: skels_def)
    have tot: "total_left w' + remaining (skels w ! ?c) = total_left w + remaining q"
      unfolding total_left_def st(3) by (rule sum_list_map_update [OF cl(2)])
    have nd: "not_done w' + (if is_done (skels w ! ?c) then 0 else 1) = not_done w + (if is_done q then 0 else 1)"
      unfolding not_done_def st(3) by (rule sum_list_map_update [OF cl(2)])
    define r where "r = (if rc = 0 then running - 1 else running)"
    have rr: "r = not_done w'" using nd st(4) Suc.prems(3) by (auto simp: r_def split: if_splits)
    have go: "afs_loop (Suc f) gi sched running w (cur, ds) = afs_loop f gi sched r w' (?cur, ds)"
      using False nx st(1) by (subst afs_loop.simps) (simp add: r_def)
    show ?thesis
    proof (cases "is_done (skels w ! ?c)")
      case True
      have same: "skels w' = skels w" using st(3,4) True by simp
      have "k \<noteq> 0" using k(1) True Suc.prems(4) by (cases k) auto
      then have "0 < k" by simp
      have tl: "total_left w' = total_left w" using tot st(4) True by simp
      have pos: "\<not> is_done (skels w' ! turn sched ((?cur + (k - 1)) mod ?L))"
        using k(1) same next_mod [OF Suc.prems(4) \<open>0 < k\<close>] by simp
      have kk: "k - 1 < ?L" "(total_left w' - 1) * ?L + (k - 1) < f" using Suc.prems(5) k(2) \<open>0 < k\<close> tl by simp_all
      show ?thesis unfolding go using Suc.IH [OF st(2) lw rr cur kk(1)] pos kk(2) by blast
    next
      case nd: False
      have dec: "total_left w = total_left w' + 1" using tot st(4) nd by simp
      show ?thesis
      proof (cases "r = 0")
        case True
        then show ?thesis unfolding go using Suc.IH [OF st(2) lw rr cur Suc.prems(5)] by blast
      next
        case rn: False
        then obtain c' where c': "c' < n" "\<not> is_done (skels w' ! c')" using not_done_pos [of w'] rr lw by auto
        then obtain p where p: "p < ?L" "turn sched p = c'" using fair_all [OF fair] by blast
        obtain k' where k': "k' < ?L" "(?cur + k') mod ?L = p" using cyclic_position [OF p(1) cur] by blast
        have "0 < total_left w'"
        proof -
          have "skels w' ! c' \<in> set (skels w')" using c'(1) lw by (simp add: skels_def)
          then have "remaining (skels w' ! c') \<le> total_left w'" unfolding total_left_def by (intro member_le_sum_list) simp_all
          then show ?thesis using c'(2) remaining_0 [of "skels w' ! c'"] by simp
        qed
        then obtain m where "total_left w' = Suc m" by (cases "total_left w'") auto
        then have "(total_left w' - 1) * ?L + k' < f" using k(2) k'(1) dec by simp
        then show ?thesis unfolding go using Suc.IH [OF st(2) lw rr cur k'(1)] k'(2) p(2) c'(2) by simp
      qed
    qed
  qed
qed

section \<open>Whole runs\<close>

lemma index_of_first: "index_of x xs = Some i \<Longrightarrow> k < i \<Longrightarrow> xs ! k \<noteq> x"
proof (induction xs arbitrary: i k)
  case (Cons y ys)
  then show ?case by (cases k) (auto split: if_splits)
qed simp

text \<open>A client after some of its random actions were made.\<close>

definition ready :: "string set \<Rightarrow> nat \<Rightarrow> client \<Rightarrow> bool" where
  "ready F j u \<longleftrightarrow> length (cl_fd u) = 1024 \<and> (\<forall>k. j \<le> k \<longrightarrow> k < 1024 \<longrightarrow> cl_fd u ! k = []) \<and> cl_cache u = cache_empty \<and> \<not> cl_done u \<and> acnt u = 0 \<and>
     (\<exists>ss. acts u = concat (map sess ss) \<and> length ss = j \<and> (\<forall>s \<in> set ss. good_sess F (cl_fd u) s))"

lemma random_step_ok:
  assumes r: "ready (set fl) j u" and j: "j < 1024" and fl: "fl \<noteq> []" "[] \<notin> set fl" and ds: "2 \<le> length ds" "\<forall>k \<in> set ds. valid_draw k"
  shows "\<exists>u'. random_step fl ra i (u, ds) = Inr (u', drop 2 ds) \<and> ready (set fl) (Suc j) u'"
proof -
  obtain k q ds' where d: "ds = k # q # ds'" using ds(1) by (cases ds; cases "tl ds") auto
  let ?f = "fl ! pick k (length fl)"
  have p: "pick k (length fl) < length fl" using ds(2) d fl(1) by (intro pick_less) auto
  then have f: "?f \<in> set fl" "?f \<noteq> []" using fl(2) nth_mem [OF p] by metis+
  have len: "length (cl_fd u) = 1024" and free: "\<And>k. j \<le> k \<Longrightarrow> k < 1024 \<Longrightarrow> cl_fd u ! k = []" using r by (simp_all add: ready_def)
  have "[] \<in> set (cl_fd u)" using free [of j] j len nth_mem [of j "cl_fd u"] by simp
  then obtain i' where i': "index_of [] (cl_fd u) = Some i'" using index_of_None by (cases "index_of [] (cl_fd u)") auto
  have il: "i' < 1024" "cl_fd u ! i' = []" using index_of_Some [OF i'] len by simp_all
  have ij: "i' \<le> j" using index_of_first [OF i', of j] free [of j] j by (metis le_refl not_le)
  let ?fds = "(cl_fd u)[i' := ?f]" and ?wr = "\<not> (of_nat q / 2 ^ 53 < ra)"
  let ?u = "u\<lparr>cl_fd := ?fds, acts := acts u @ sess (?f, i', ?wr)\<rparr>"
  have run: "random_step fl ra i (u, ds) = Inr (?u, drop 2 ds)"
    using p i' by (simp add: random_step_def d py_get_nat fd_alloc_def zassert_def sess_def rw_def Let_def)
  obtain ss where ss: "acts u = concat (map sess ss)" "length ss = j" "\<forall>s \<in> set ss. good_sess (set fl) (cl_fd u) s"
    using r by (auto simp: ready_def)
  have "good_sess (set fl) ?fds s" if "s \<in> set ss" for s
  proof -
    obtain g fd wr where s: "s = (g, fd, wr)" by (cases s)
    have "good_sess (set fl) (cl_fd u) s" using ss(3) that by blast
    moreover from this have "fd \<noteq> i'" using il(2) s by (auto simp: good_sess_def)
    ultimately show ?thesis using s by (auto simp: good_sess_def)
  qed
  moreover have "good_sess (set fl) ?fds (?f, i', ?wr)" using f il len by (simp add: good_sess_def)
  ultimately have "\<forall>s \<in> set (ss @ [(?f, i', ?wr)]). good_sess (set fl) ?fds s" by auto
  moreover have "acts ?u = concat (map sess (ss @ [(?f, i', ?wr)]))" using ss(1) by simp
  moreover have "length (ss @ [(?f, i', ?wr)]) = Suc j" using ss(2) by simp
  ultimately have "\<exists>ss. acts ?u = concat (map sess ss) \<and> length ss = Suc j \<and> (\<forall>s \<in> set ss. good_sess (set fl) (cl_fd ?u) s)"
    by (intro exI [of _ "ss @ [(?f, i', ?wr)]"]) simp
  moreover have "\<forall>k. Suc j \<le> k \<longrightarrow> k < 1024 \<longrightarrow> ?fds ! k = []" using free ij by (simp add: nth_list_update)
  ultimately have "ready (set fl) (Suc j) ?u" using r len by (simp add: ready_def)
  then show ?thesis using run by blast
qed

lemma random_client_ok:
  assumes fl: "fl \<noteq> []" "[] \<notin> set fl" and m: "m \<le> 1024" and ds: "2 * m \<le> length ds" "\<forall>k \<in> set ds. valid_draw k"
  shows "\<exists>u. random_client fl ra (int m) ds = Inr (u, drop (2 * m) ds) \<and> ready (set fl) m u"
proof -
  have "j \<le> m \<Longrightarrow> \<exists>u. rfold (random_step fl ra) [0..<j] (new_client, ds) = Inr (u, drop (2 * j) ds) \<and> ready (set fl) j u" for j
  proof (induction j)
    case 0
    show ?case by (simp add: ready_def new_client_def)
  next
    case (Suc j)
    then obtain u where u: "rfold (random_step fl ra) [0..<j] (new_client, ds) = Inr (u, drop (2 * j) ds)" "ready (set fl) j u" by auto
    have "j < 1024" "2 \<le> length (drop (2 * j) ds)" using Suc.prems m ds(1) by simp_all
    moreover have "\<forall>k \<in> set (drop (2 * j) ds). valid_draw k" using ds(2) set_drop_subset [of "2 * j" ds] by blast
    ultimately obtain u' where "random_step fl ra j (u, drop (2 * j) ds) = Inr (u', drop 2 (drop (2 * j) ds))" "ready (set fl) (Suc j) u'"
      using random_step_ok [OF u(2) _ fl] by blast
    then show ?case using u(1) by (auto simp: rfold_append drop_drop add.commute)
  qed
  from this [of m] show ?thesis by (simp add: random_client_def)
qed

lemma make_clients_ok:
  assumes a: "actions opt = []" and m: "numsteps opt = int m" "m \<le> 1024" and n: "numclients opt = int n"
    and fl: "filelist (numfiles opt) \<noteq> []" "[] \<notin> set (filelist (numfiles opt))"
    and ds: "2 * m * n \<le> length ds" "\<forall>k \<in> set ds. valid_draw k"
  shows "\<exists>us ds'. make_clients opt ds = Inr (us, ds') \<and> length us = n \<and> (\<forall>u \<in> set us. ready (set (filelist (numfiles opt))) m u)"
proof -
  let ?fl = "filelist (numfiles opt)"
  let ?f = "\<lambda>_ (us, ds). rbind (random_client ?fl (readratio opt) (numsteps opt) ds) (\<lambda>(u, ds). Inr (us @ [u], ds))"
  have "j \<le> n \<Longrightarrow> \<exists>us. rfold ?f [0..<j] ([], ds) = Inr (us, drop (2 * m * j) ds) \<and> length us = j \<and> (\<forall>u \<in> set us. ready (set ?fl) m u)" for j
  proof (induction j)
    case (Suc j)
    then obtain us where us: "rfold ?f [0..<j] ([], ds) = Inr (us, drop (2 * m * j) ds)" "length us = j" "\<forall>u \<in> set us. ready (set ?fl) m u" by auto
    have "2 * m * Suc j \<le> 2 * m * n" using Suc.prems by (intro mult_le_mono2) simp
    then have "2 * m \<le> length (drop (2 * m * j) ds)" using ds(1) by simp
    moreover have "\<forall>k \<in> set (drop (2 * m * j) ds). valid_draw k" using ds(2) set_drop_subset [of "2 * m * j" ds] by blast
    ultimately obtain u where u: "random_client ?fl (readratio opt) (int m) (drop (2 * m * j) ds) = Inr (u, drop (2 * m) (drop (2 * m * j) ds))"
      "ready (set ?fl) m u"
      using random_client_ok [OF fl m(2)] by blast
    have "rfold ?f [0..<Suc j] ([], ds) = Inr (us @ [u], drop (2 * m * Suc j) ds)"
      using us(1) u(1) m(1) by (simp add: rfold_append drop_drop algebra_simps)
    then show ?case using us(2,3) u(2) by auto
  qed simp
  from this [of n] obtain us where "rfold ?f [0..<n] ([], ds) = Inr (us, drop (2 * m * n) ds)" "length us = n" "\<forall>u \<in> set us. ready (set ?fl) m u" by blast
  then show ?thesis using a n by (auto simp: make_clients_def)
qed

lemma check_schedule_fair:
  assumes "fair sched n"
  shows "check_schedule sched n = Inr ()"
proof -
  have cnt: "\<forall>ch \<in> set xs. \<exists>i < n. py_int [ch] = Inr (int i) \<Longrightarrow>
    \<exists>k'. rfold (\<lambda>ch cnt. rbind (py_int [ch]) (\<lambda>v. Inr (if v = int i then cnt + 1 else cnt))) xs k = Inr k' \<and> k \<le> k' \<and>
      ((\<exists>ch \<in> set xs. py_int [ch] = Inr (int i)) \<longrightarrow> k < k')" for xs i and k :: nat
  proof (induction xs arbitrary: k)
    case (Cons ch xs)
    obtain v where v: "py_int [ch] = Inr (int v)" using Cons.prems by auto
    have xs: "\<forall>ch \<in> set xs. \<exists>i < n. py_int [ch] = Inr (int i)" using Cons.prems by simp
    show ?case using Cons.IH [OF xs, of "if v = i then k + 1 else k"] v by (auto split: if_splits)
  qed simp
  have "j \<le> n \<Longrightarrow> check_schedule sched j = Inr ()" for j
  proof (induction j)
    case (Suc j)
    obtain ch where "ch \<in> set sched" "py_int [ch] = Inr (int j)" using assms Suc.prems unfolding fair_def by (metis Suc_le_lessD)
    then obtain k' where "rfold (\<lambda>ch cnt. rbind (py_int [ch]) (\<lambda>v. Inr (if v = int j then cnt + 1 else cnt))) sched 0 = Inr k'" "(0 :: nat) < k'"
      using cnt [of sched j 0] assms unfolding fair_def by blast
    then show ?case using Suc by (simp add: check_schedule_def rfold_append zassert_def)
  qed (simp add: check_schedule_def)
  then show ?thesis by simp
qed

lemma filelist_ok:
  assumes "0 < numfiles opt" and "numfiles opt \<le> 26"
  shows "filelist (numfiles opt) \<noteq> []" "[] \<notin> set (filelist (numfiles opt))"
  using assms by (auto simp: filelist_def)

lemma init_sound:
  assumes "\<forall>u \<in> set us. ready (set (filelist (numfiles opt))) m u"
  shows "sound (set (filelist (numfiles opt))) (afs_init opt us)" and "not_done (afs_init opt us) = length us"
    and "total_left (afs_init opt us) = length us * (3 * m + 1)"
proof -
  let ?w = "afs_init opt us" and ?fl = "filelist (numfiles opt)"
  have cl: "clients ?w = us" by (simp add: afs_init_def Let_def)
  have "coherent ?w" using assms by (intro init_coherent) (simp add: fresh_clients_def ready_def)
  moreover have "dom (map_of (contents ?w)) = set ?fl" by (simp add: afs_init_def Let_def dom_map_of_zip)
  moreover have "proper (set ?fl) (skels ?w ! c) (cached c ?w)" if "c < length (skels ?w)" for c
  proof -
    have c: "c < length us" using that cl by (simp add: skels_def)
    then have r: "ready (set ?fl) m (us ! c)" using assms by simp
    then obtain ss where ss: "acts (us ! c) = concat (map sess ss)" "\<forall>s \<in> set ss. good_sess (set ?fl) (cl_fd (us ! c)) s" by (auto simp: ready_def)
    have "cached c ?w = Map.empty" using r by (simp add: cached_def cache_of_def cl ready_def cache_empty_def)
    then have "idle (cached c ?w)" by (simp add: idle_def)
    then have "phase (set ?fl) (cl_fd (us ! c)) (acts (us ! c)) (cached c ?w)" by (rule phaseI(1) [OF ss(2,1)])
    then show ?thesis using r c by (simp add: proper_def skels_def cl skel_def ready_def)
  qed
  ultimately show "sound (set ?fl) ?w" by (rule soundI)
  have nd: "\<not> is_done (skel u) \<and> remaining (skel u) = 3 * m + 1" if u: "u \<in> set us" for u
  proof -
    obtain ss where "acts u = concat (map sess ss)" "length ss = m" using assms u by (auto simp: ready_def)
    moreover have "length (concat (map sess ss)) = 3 * length ss" by (induction ss) (simp_all add: sess_def)
    ultimately show ?thesis using assms u by (auto simp: ready_def is_done_def remaining_def skel_def)
  qed
  have "map (\<lambda>k. if is_done k then 0 else 1) (skels ?w) = map (\<lambda>_. 1 :: nat) us" unfolding skels_def cl using nd by simp
  then show "not_done ?w = length us" by (simp add: not_done_def sum_list_triv)
  have "map remaining (skels ?w) = map (\<lambda>_. 3 * m + 1) us" unfolding skels_def cl using nd by simp
  then show "total_left ?w = length us * (3 * m + 1)" by (simp add: total_left_def sum_list_triv)
qed

text \<open>
  C24. Under a schedule that names every client, the random clients run to their end without an abort or a failed assertion, and then every
  cached copy is clean, no file is open, and every valid copy has the contents of the server.
\<close>

theorem afs_clients_finish:
  assumes "actions opt = []" and "fair (schedule opt) n" and "numclients opt = int n" and "0 < n" and "n \<le> 1024"
    and "numsteps opt = int m" and "m \<le> 1024" and "0 < numfiles opt" and "numfiles opt \<le> 26" and "0 \<le> readratio opt" and "readratio opt \<le> 1"
    and "2 * m * n \<le> length ds" and "\<forall>k \<in> set ds. valid_draw k" and "n * (3 * m + 1) * length (schedule opt) \<le> fuel"
  shows "\<exists>w. afs_main fuel opt ds = Inr w \<and> length (clients w) = n \<and>
    (\<forall>c < n. cl_done (clients w ! c) \<and>
      (\<forall>f e. cached c w f = Some e \<longrightarrow> \<not> c_dirty e \<and> c_refcnt e = 0 \<and> (c_valid e \<longrightarrow> map_of (contents w) f = Some (c_data e))))"
proof -
  let ?F = "set (filelist (numfiles opt))" and ?s = "schedule opt"
  note fl = filelist_ok [OF assms(8,9)]
  obtain us ds' where us: "make_clients opt ds = Inr (us, ds')" "length us = n" "\<forall>u \<in> set us. ready ?F m u"
    using make_clients_ok [OF assms(1,6,7,3) fl assms(12,13)] by blast
  let ?w = "afs_init opt us"
  note i = init_sound [OF us(3)]
  have lc: "length (clients ?w) = n" using us(2) by (simp add: afs_init_def Let_def)
  have ne: "0 < length ?s" using assms(2,4) by (auto simp: fair_def)
  then have sne: "?s \<noteq> []" by simp
  have gi: "0 \<le> global_i opt n" "global_i opt n < 1024" using sne assms(4,5) by (simp_all add: global_i_def)
  obtain p where p: "p < length ?s" "turn ?s p = 0" using fair_all [OF assms(2,4)] by blast
  have nd: "\<not> is_done (skels ?w ! 0)"
  proof -
    have "us ! 0 \<in> set us" using us(2) assms(4) by simp
    then have "\<not> cl_done (us ! 0)" using us(3) by (auto simp: ready_def)
    then show ?thesis using us(2) assms(4) by (simp add: skels_def afs_init_def is_done_def skel_def Let_def)
  qed
  have "(n * (3 * m + 1) - 1) * length ?s + p < n * (3 * m + 1) * length ?s"
    using p(1) assms(4) by (cases "n * (3 * m + 1)") (auto simp del: mult_Suc_right)
  then have k: "(total_left ?w - 1) * length ?s + p < fuel" using assms(14) i(3) us(2) by simp
  have "\<exists>w'. afs_loop fuel (global_i opt n) ?s (not_done ?w) ?w (0, ds') = Inr w' \<and> sound ?F w' \<and> length (clients w') = n \<and> not_done w' = 0"
    by (rule loop_ends [OF i(1) gi assms(2) lc refl ne p(1)]) (use p nd k in simp)
  then obtain w where w: "afs_loop fuel (global_i opt n) ?s n ?w (0, ds') = Inr w" "sound ?F w" "length (clients w) = n" "not_done w = 0"
    using i(2) us(2) by auto
  have "afs_main fuel opt ds = Inr w"
    using w(1) us(1,2) check_schedule_fair [OF assms(2)] sne assms(8-11) by (simp add: afs_main_def zassert_def Let_def)
  moreover have "cl_done (clients w ! c) \<and> (\<forall>f e. cached c w f = Some e \<longrightarrow> \<not> c_dirty e \<and> c_refcnt e = 0 \<and> (c_valid e \<longrightarrow> map_of (contents w) f = Some (c_data e)))"
    if c: "c < n" for c
  proof -
    let ?u = "clients w ! c"
    have dn: "is_done (skels w ! c)" using w(4) not_done_pos [of w] w(3) c by auto
    then have d: "cl_done ?u" using c w(3) by (simp add: is_done_def skels_def skel_def)
    have pr: "proper ?F (skel ?u) (cached c w)" using w(2,3) c by (simp add: sound_def)
    then have "phase ?F (cl_fd ?u) [] (cached c w)" using d by (auto simp: proper_def skel_def)
    then have id: "idle (cached c w)" by (auto simp: phase_def)
    have co: "coh (view_of w)" using w(2) by (simp add: sound_def coherent_def)
    have "c_valid e \<longrightarrow> map_of (contents w) f = Some (c_data e)" if "cached c w f = Some e" for f e
    proof -
      have "snd (view_of w) c f = Some e" using that c w(3) by (simp add: view_of_def)
      then have "c_valid e \<and> \<not> c_dirty e \<longrightarrow> fst (view_of w) f = Some (c_data e)" using co unfolding coh_def by blast
      then show ?thesis using id that by (auto simp: idle_def view_of_def)
    qed
    then show ?thesis using d id by (auto simp: idle_def)
  qed
  ultimately show ?thesis using w(3) by blast
qed

lemma fair_01:
  assumes "set sched = {CHR ''0'', CHR ''1''}"
  shows "fair sched 2"
  unfolding fair_def
proof (intro conjI ballI allI impI)
  have i: "py_int [CHR ''0''] = Inr (int 0)" "py_int [CHR ''1''] = Inr (int 1)" by code_simp+
  fix ch assume "ch \<in> set sched"
  then consider "ch = CHR ''0''" | "ch = CHR ''1''" using assms by auto
  then show "\<exists>i < 2. py_int [ch] = Inr (int i)"
  proof cases
    case 1 then show ?thesis using i(1) by (intro exI [of _ 0]) simp
  next
    case 2 then show ?thesis using i(2) by (intro exI [of _ 1]) simp
  qed
next
  have i: "py_int [CHR ''0''] = Inr (int 0)" "py_int [CHR ''1''] = Inr (int 1)" by code_simp+
  fix j :: nat assume "j < 2"
  then consider "j = 0" | "j = 1" by linarith
  then show "\<exists>ch \<in> set sched. py_int [ch] = Inr (int j)"
  proof cases
    case 1 then show ?thesis using i(1) assms by (intro bexI [of _ "CHR ''0''"]) auto
  next
    case 2 then show ?thesis using i(2) assms by (intro bexI [of _ "CHR ''1''"]) auto
  qed
qed

theorem afs_clients_finish_witness:
  "\<exists>w. afs_main 28 (afs_defaults\<lparr>schedule := ''01''\<rparr>) (replicate 8 0) = Inr w \<and> length (clients w) = 2"
proof -
  have f: "fair ''01'' 2" by (rule fair_01) auto
  show ?thesis
    using afs_clients_finish [of "afs_defaults\<lparr>schedule := ''01''\<rparr>" 2 2 "replicate 8 0" 28] f
    by (auto simp: afs_defaults_def valid_draw_def)
qed

text \<open>Two clients: the first writes, the second writes and closes, and the first opens the file again before its close.\<close>

definition lost_opt :: afs_options where
  "lost_opt = afs_defaults\<lparr>actions := ''oa1:w1:oa2:c1:c2,oa1:w1:c1'', schedule := ''0011110000''\<rparr>"

definition lost_clients :: "client list" where
  "lost_clients = [new_client\<lparr>cl_fd := (replicate 1024 [])[1 := ''a'', 2 := ''a''], acts := [MICRO_OPEN ''a'' 1, MICRO_WRITE 1, MICRO_OPEN ''a'' 2, MICRO_CLOSE 1, MICRO_CLOSE 2]\<rparr>,
     new_client\<lparr>cl_fd := (replicate 1024 [])[1 := ''a''], acts := [MICRO_OPEN ''a'' 1, MICRO_WRITE 1, MICRO_CLOSE 1]\<rparr>]"

lemma lost_clients: "make_clients lost_opt ds = Inr (lost_clients, ds)"
proof -
  have sp: "py_split CHR '','' ''oa1:w1:oa2:c1:c2,oa1:w1:c1'' = [''oa1:w1:oa2:c1:c2'', ''oa1:w1:c1'']"
    "py_split CHR '':'' ''oa1:w1:oa2:c1:c2'' = [''oa1'', ''w1'', ''oa2'', ''c1'', ''c2'']"
    "py_split CHR '':'' ''oa1:w1:c1'' = [''oa1'', ''w1'', ''c1'']" "digit CHR ''1'' = Inr 1" "digit CHR ''2'' = Inr 2"
    by code_simp+
  show ?thesis
    by (simp add: make_clients_def lost_opt_def afs_defaults_def sp parse_client_def parse_action_def zassert_def fd_alloc_def new_client_def
        lost_clients_def numeral_2_eq_2)
qed

text \<open>
  An open of a file that the client has open, and whose copy was invalidated in between, throws away the changes of the client and its count
  of open descriptors: the value 1 written by the first client never reaches the server, although its close is the last one,
  and the reference count ends at -1.
\<close>

theorem afs_reopen_loses_write:
  "\<exists>w e. afs_main 10 lost_opt [] = Inr w \<and> (0, EvWrite 1 0 1) \<in> set (afs_trace w) \<and> last (afs_trace w) = (0, EvClose 2) \<and>
     map_of (contents w) ''a'' = Some 2 \<and> cached 0 w ''a'' = Some e \<and> c_refcnt e = - 1"
proof -
  have i: "py_int ''0'' = Inr 0" "py_int ''1'' = Inr 1" by code_simp+
  have "\<exists>w e. afs_loop 10 1 ''0011110000'' 2 (afs_init lost_opt lost_clients) (0, []) = Inr w \<and> (0, EvWrite 1 0 1) \<in> set (afs_trace w) \<and>
      last (afs_trace w) = (0, EvClose 2) \<and> map_of (contents w) ''a'' = Some 2 \<and> cached 0 w ''a'' = Some e \<and> c_refcnt e = - 1"
    by (simp add: eval_nat_numeral afs_loop.simps next_client_def i client_step_def afs_init_def lost_clients_def new_client_def lost_opt_def
        afs_defaults_def filelist_def getfile_def putfile_def server_get_def server_put_def break_callback_def on_cache_def set_cache_def
        upd_client_def cache_of_def cache_empty_def cache_checkget_def cache_put_def cache_incref_def cache_decref_def cache_setclean_def
        cache_setvalid_def cache_isdirty_def cache_get_def cache_update_def cache_invalidate_def cache_checkvalid_def assert_cached_def
        with_entry_def dict_get_def dict_keys_def py_assert_def zassert_def fd_lookup_def log_event_def cached_def Let_def)
  moreover have cs: "check_schedule ''0011110000'' 2 = Inr ()" by (rule check_schedule_fair, rule fair_01) auto
  moreover have "afs_main 10 lost_opt [] = afs_loop 10 1 ''0011110000'' 2 (afs_init lost_opt lost_clients) (0, [])"
  proof -
    have o: "schedule lost_opt = ''0011110000''" "numfiles lost_opt = 1" "readratio lost_opt = 0.5" "int (length lost_clients) = 2" "length lost_clients = 2"
      "global_i lost_opt 2 = 1" "zassert True = Inr ()"
      by (simp_all add: lost_opt_def afs_defaults_def lost_clients_def global_i_def zassert_def)
    show ?thesis using cs by (simp add: afs_main_def lost_clients o)
  qed
  ultimately show ?thesis by simp
qed

text \<open>
  The check of a descriptor looks at the global variable \<open>i\<close> and not at the descriptor: with more than 1024 clients the first read, write
  or close aborts although its descriptor is open.
\<close>

theorem afs_many_clients_abort:
  assumes "1024 < n" and "length (cl_fd (clients w ! c)) = 1024" and "schedule opt = []" and "actions opt = []" and "a \<in> {MICRO_READ fd, MICRO_WRITE fd, MICRO_CLOSE fd}"
  shows "client_action (global_i opt n) c a w = Inl (SystemExit 1)"
  using assms by (auto simp: global_i_def fd_lookup_def zassert_def)

theorem afs_many_clients_abort_witness:
  "client_action (global_i afs_defaults 1025) 0 (MICRO_READ 0) (afs_init afs_defaults [new_client\<lparr>cl_fd := replicate 1024 ''a''\<rparr>]) = Inl (SystemExit 1)"
  by (rule afs_many_clients_abort) (simp_all add: afs_init_def afs_defaults_def Let_def)

end
