(* ===== verification/Sched.thy ===== *)
theory Sched
  imports PyFloat
begin

text \<open>
  The scheduling policies of \<open>cpu-sched/scheduler.py\<close>: the job list, first in first out, shortest job first and round robin, with the response,
  turnaround and wait times they report. Shortest job first is shown to be optimal, and round robin to end, with its statistics.
\<close>

section \<open>Jobs\<close>

text \<open>A job is its number and its run time.\<close>

type_synonym job = "nat \<times> rat"

record sched_options =
  jobs :: int
  jlist :: string
  maxlen :: int
  policy :: string
  quantum :: int
  solve :: bool

definition sched_defaults :: sched_options where
  "sched_defaults = \<lparr>jobs = 3, jlist = [], maxlen = 10, policy = ''FIFO'', quantum = 1, solve = False\<rparr>"

definition random_job :: "int \<Rightarrow> nat \<Rightarrow> job list \<times> draw list \<Rightarrow> (job list \<times> draw list) res" where
  "random_job m jobnum = (\<lambda>(js, ds). rbind (next_draw ds) (\<lambda>(k, ds). Inr (js @ [(jobnum, of_int (pick_int k m + 1))], ds)))"

definition listed_job :: "string \<Rightarrow> job list \<Rightarrow> job list res" where
  "listed_job t js = rbind (py_float t) (\<lambda>r. Inr (js @ [(length js, r)]))"

definition make_joblist :: "sched_options \<Rightarrow> draw list \<Rightarrow> job list res" where
  "make_joblist opt ds =
     (if jlist opt = [] then rbind (rfold (random_job (maxlen opt)) [0..<nat (jobs opt)] ([], ds)) (\<lambda>(js, ds). Inr js)
      else rfold listed_job (py_split CHR '','' (jlist opt)) [])"

section \<open>First in, first out\<close>

text \<open>A line of the execution trace: the time, the job, how long it ran, and whether it was done.\<close>

type_synonym trace_line = "rat \<times> nat \<times> rat \<times> bool"

text \<open>A line of the statistics: the job, its response, turnaround and wait.\<close>

type_synonym stat_line = "nat \<times> rat \<times> rat \<times> rat"

record report =
  rtrace :: "trace_line list"
  rlines :: "stat_line list"
  avg_response :: rat
  avg_turnaround :: rat
  avg_wait :: rat

record fifo_stats =
  t_now :: rat
  cnt :: nat
  turnaroundSum :: rat
  waitSum :: rat
  responseSum :: rat
  slines :: "stat_line list"

definition fifo_trace :: "job list \<Rightarrow> trace_line list" where
  "fifo_trace js = snd (fold (\<lambda>(j, r) (thetime, tr). (thetime + r, tr @ [(thetime, j, r, True)])) js (0, []))"

definition fifo_stat :: "job \<Rightarrow> fifo_stats \<Rightarrow> fifo_stats" where
  "fifo_stat = (\<lambda>(jobnum, runtime) s.
     let response = t_now s; turnaround = t_now s + runtime; wait = t_now s
     in \<lparr>t_now = t_now s + runtime, cnt = cnt s + 1, turnaroundSum = turnaroundSum s + turnaround, waitSum = waitSum s + wait,
         responseSum = responseSum s + response, slines = slines s @ [(jobnum, response, turnaround, wait)]\<rparr>)"

definition fifo_start :: fifo_stats where
  "fifo_start = \<lparr>t_now = 0, cnt = 0, turnaroundSum = 0, waitSum = 0, responseSum = 0, slines = []\<rparr>"

definition averages :: "trace_line list \<Rightarrow> stat_line list \<Rightarrow> rat \<Rightarrow> rat \<Rightarrow> rat \<Rightarrow> nat \<Rightarrow> report res" where
  "averages tr ls resp turn wt n =
     (if n = 0 then Inl ZeroDivisionError
      else Inr \<lparr>rtrace = tr, rlines = ls, avg_response = resp / of_nat n, avg_turnaround = turn / of_nat n, avg_wait = wt / of_nat n\<rparr>)"

definition run_fifo :: "job list \<Rightarrow> report res" where
  "run_fifo js =
     (let s = fold fifo_stat js fifo_start
      in averages (fifo_trace js) (slines s) (responseSum s) (turnaroundSum s) (waitSum s) (cnt s))"

section \<open>Round robin\<close>

record rr =
  runlist :: "job list"
  jobcount :: nat
  thetime :: rat
  turnaround_of :: "rat list"
  response_of :: "rat list"
  lastran :: "rat list"
  wait_of :: "rat list"
  trace :: "trace_line list"

definition rr_start :: "job list \<Rightarrow> rr" where
  "rr_start js =
     (let n = length js in
      \<lparr>runlist = js, jobcount = n, thetime = 0, turnaround_of = replicate n 0, response_of = replicate n (- 1), lastran = replicate n 0,
       wait_of = replicate n 0, trace = []\<rparr>)"

definition rr_step :: "rat \<Rightarrow> rr \<Rightarrow> rr res" where
  "rr_step q s =
     (case runlist s of
        [] \<Rightarrow> Inl IndexError
      | (j, runtime) # js \<Rightarrow>
          let now = thetime s;
              s1 = s\<lparr>runlist := js, response_of := (if response_of s ! j = - 1 then (response_of s)[j := now] else response_of s),
                     wait_of := (wait_of s)[j := wait_of s ! j + (now - lastran s ! j)]\<rparr>;
              ranfor = (if q < runtime then q else runtime);
              s2 = (if q < runtime then s1\<lparr>runlist := js @ [(j, runtime - q)]\<rparr>
                    else s1\<lparr>turnaround_of := (turnaround_of s1)[j := now + ranfor], jobcount := jobcount s1 - 1\<rparr>)
          in Inr (s2\<lparr>thetime := now + ranfor, lastran := (lastran s2)[j := now + ranfor], trace := trace s2 @ [(now, j, ranfor, \<not> q < runtime)]\<rparr>))"

fun rr_loop :: "nat \<Rightarrow> rat \<Rightarrow> rr \<Rightarrow> rr res" where
  "rr_loop fuel q s =
     (if jobcount s = 0 then Inr s
      else case fuel of 0 \<Rightarrow> Inl Out_Of_Fuel | Suc f \<Rightarrow> rbind (rr_step q s) (rr_loop f q))"

declare rr_loop.simps [simp del]

definition run_rr :: "nat \<Rightarrow> rat \<Rightarrow> job list \<Rightarrow> report res" where
  "run_rr fuel q js =
     rbind (rr_loop fuel q (rr_start js)) (\<lambda>s.
     let n = length js
     in averages (trace s) (map (\<lambda>i. (i, response_of s ! i, turnaround_of s ! i, wait_of s ! i)) [0..<n])
          (sum_list (map (\<lambda>i. response_of s ! i) [0..<n])) (sum_list (map (\<lambda>i. turnaround_of s ! i) [0..<n]))
          (sum_list (map (\<lambda>i. wait_of s ! i) [0..<n])) n)"

section \<open>The program\<close>

definition run_policy :: "nat \<Rightarrow> sched_options \<Rightarrow> job list \<Rightarrow> report res" where
  "run_policy fuel opt js =
     (if policy opt = ''SJF'' then run_fifo (sort_key snd js)
      else if policy opt = ''FIFO'' then run_fifo js
      else if policy opt = ''RR'' then run_rr fuel (of_int (quantum opt)) js
      else Inl (SystemExit 0))"

definition sched_main :: "nat \<Rightarrow> sched_options \<Rightarrow> draw list \<Rightarrow> (job list \<times> report option) res" where
  "sched_main fuel opt ds =
     rbind (make_joblist opt ds) (\<lambda>js.
     if solve opt then rbind (run_policy fuel opt js) (\<lambda>r. Inr (js, Some r)) else Inr (js, None))"

section \<open>First in, first out, and its order\<close>

text \<open>The jobs of a list that the program made are numbered in order.\<close>

definition numbered :: "job list \<Rightarrow> bool" where
  "numbered js \<longleftrightarrow> map fst js = [0..<length js]"

lemma numbered_nth: "numbered js \<Longrightarrow> i < length js \<Longrightarrow> js ! i = (i, map snd js ! i)"
  unfolding numbered_def by (metis add.left_neutral length_map nth_map nth_upt prod.collapse)

lemma random_jobs:
  assumes "0 < m" and "n \<le> length ds" and "\<forall>k \<in> set ds. valid_draw k"
  shows "\<exists>js. rfold (random_job m) [0..<n] ([], ds) = Inr (js, drop n ds) \<and> numbered js \<and> length js = n \<and> (\<forall>r \<in> set (map snd js). 1 \<le> r \<and> r \<le> of_int m)"
  using assms(2)
proof (induction n)
  case 0
  then show ?case by (simp add: numbered_def)
next
  case (Suc n)
  then obtain js where js: "rfold (random_job m) [0..<n] ([], ds) = Inr (js, drop n ds)" "numbered js" "length js = n"
    "\<forall>r \<in> set (map snd js). 1 \<le> r \<and> r \<le> of_int m" by auto
  have d: "drop n ds = ds ! n # drop (Suc n) ds" using Suc.prems by (simp add: Cons_nth_drop_Suc)
  have p: "0 \<le> pick_int (ds ! n) m" "pick_int (ds ! n) m + 1 \<le> m" using pick_int_range [of "ds ! n" m] assms Suc.prems by auto
  then have "(1 :: rat) \<le> of_int (pick_int (ds ! n) m + 1)" "(of_int (pick_int (ds ! n) m + 1) :: rat) \<le> of_int m"
    by (simp_all only: of_int_le_iff of_int_1_le_iff)
  then have "random_job m n (js, drop n ds) = Inr (js @ [(n, of_int (pick_int (ds ! n) m + 1))], drop (Suc n) ds)"
    "numbered (js @ [(n, of_int (pick_int (ds ! n) m + 1))])"
    "\<forall>r \<in> set (map snd (js @ [(n, of_int (pick_int (ds ! n) m + 1))])). 1 \<le> r \<and> r \<le> of_int m"
    using js by (simp_all add: random_job_def d numbered_def)
  then show ?case using js by (simp add: rfold_append)
qed

definition durations :: "job list \<Rightarrow> rat list" where
  "durations js = map snd js"

text \<open>The wait of the job at each place, when the jobs before it run to their end.\<close>

fun waits :: "rat \<Rightarrow> rat list \<Rightarrow> rat list" where
  "waits t [] = []"
| "waits t (r # rs) = t # waits (t + r) rs"

lemma length_waits [simp]: "length (waits t rs) = length rs"
  by (induction t rs rule: waits.induct) auto

lemma waits_nth: "i < length rs \<Longrightarrow> waits t rs ! i = t + sum_list (take i rs)"
  by (induction t rs arbitrary: i rule: waits.induct) (auto simp: nth_Cons' take_Cons' less_Suc_eq_0_disj)

lemma fifo_fold:
  "fold fifo_stat js s =
     \<lparr>t_now = t_now s + sum_list (durations js), cnt = cnt s + length js,
      turnaroundSum = turnaroundSum s + sum_list (waits (t_now s) (durations js)) + sum_list (durations js),
      waitSum = waitSum s + sum_list (waits (t_now s) (durations js)), responseSum = responseSum s + sum_list (waits (t_now s) (durations js)),
      slines = slines s @ map2 (\<lambda>(j, r) w. (j, w, w + r, w)) js (waits (t_now s) (durations js))\<rparr>"
  by (induction js arbitrary: s) (auto simp: fifo_stat_def durations_def Let_def algebra_simps split_beta)

lemma run_fifo_eq:
  "run_fifo js = averages (fifo_trace js) (map2 (\<lambda>(j, r) w. (j, w, w + r, w)) js (waits 0 (durations js)))
     (sum_list (waits 0 (durations js))) (sum_list (waits 0 (durations js)) + sum_list (durations js)) (sum_list (waits 0 (durations js))) (length js)"
  by (simp add: run_fifo_def fifo_fold fifo_start_def Let_def)

lemma sum_waits_shift: "sum_list (waits t rs) = of_nat (length rs) * t + sum_list (waits 0 rs)"
proof (induction rs arbitrary: t)
  case (Cons r rs)
  show ?case using Cons.IH [of "t + r"] Cons.IH [of r] by (simp add: algebra_simps)
qed simp

lemma sum_waits_Cons: "sum_list (waits 0 (r # rs)) = of_nat (length rs) * r + sum_list (waits 0 rs)"
  using sum_waits_shift [of r rs] by simp

lemma waits_insort: "sum_list (waits 0 (insort r rs)) \<le> sum_list (waits 0 (r # rs))"
proof (induction rs)
  case (Cons x rs)
  show ?case
  proof (cases "r \<le> x")
    case False
    then have "sum_list (waits 0 (insort r (x # rs))) \<le> of_nat (length rs + 1) * x + sum_list (waits 0 (r # rs))"
      using Cons.IH by (simp add: sum_waits_Cons del: waits.simps)
    also have "\<dots> \<le> sum_list (waits 0 (r # x # rs))"
      using False by (simp add: sum_waits_Cons algebra_simps del: waits.simps)
    finally show ?thesis .
  qed simp
qed simp

lemma waits_sort: "sum_list (waits 0 (sort rs)) \<le> sum_list (waits 0 rs)"
proof (induction rs)
  case (Cons r rs)
  have "sum_list (waits 0 (sort (r # rs))) \<le> sum_list (waits 0 (r # sort rs))" using waits_insort by simp
  also have "\<dots> \<le> sum_list (waits 0 (r # rs))" using Cons.IH by (simp add: sum_waits_Cons del: waits.simps)
  finally show ?case .
qed simp

lemma durations_sort: "durations (sort_key snd js) = sort (durations js)"
  unfolding durations_def by (rule properties_for_sort [symmetric]) (simp_all add: mset_map [symmetric] del: mset_map, simp add: mset_map)


section \<open>Round robin ends with the right statistics\<close>

definition burst :: "rat \<Rightarrow> rat list \<Rightarrow> nat \<Rightarrow> rat" where
  "burst q os k = sum_list (map (min q) (take k os))"

lemma burst_Suc: "k < length os \<Longrightarrow> burst q os (Suc k) = burst q os k + min q (os ! k)"
  by (simp add: burst_def take_Suc_conv_app_nth)

lemma burst_0 [simp]: "burst q os 0 = 0"
  by (simp add: burst_def)

lemma burst_nonneg: "0 \<le> q \<Longrightarrow> \<forall>r \<in> set os. 0 \<le> r \<Longrightarrow> 0 \<le> burst q os k"
  unfolding burst_def by (intro sum_list_nonneg) (auto dest: in_set_takeD)

text \<open>The times of each job add up, whether it is on the run list or done.\<close>

definition accounted :: "rat list \<Rightarrow> rr \<Rightarrow> bool" where
  "accounted os s \<longleftrightarrow>
     length (turnaround_of s) = length os \<and> length (response_of s) = length os \<and> length (lastran s) = length os \<and> length (wait_of s) = length os \<and>
     jobcount s = length (runlist s) \<and> distinct (map fst (runlist s)) \<and> 0 \<le> thetime s \<and>
     (\<forall>(j, r) \<in> set (runlist s). j < length os \<and> 0 < r \<and> lastran s ! j \<le> thetime s \<and> wait_of s ! j + (os ! j - r) = lastran s ! j) \<and>
     (\<forall>j < length os. j \<notin> fst ` set (runlist s) \<longrightarrow> turnaround_of s ! j = wait_of s ! j + os ! j)"

text \<open>The first \<open>k\<close> jobs had their first turn, the others wait for it at the front of the list.\<close>

definition first_turns :: "rat \<Rightarrow> rat list \<Rightarrow> nat \<Rightarrow> rr \<Rightarrow> bool" where
  "first_turns q os k s \<longleftrightarrow> k \<le> length os \<and>
     (\<exists>rest. runlist s = map (\<lambda>j. (j, os ! j)) [k..<length os] @ rest \<and> (\<forall>(j, r) \<in> set rest. j < k \<and> q < os ! j)) \<and>
     (\<forall>j < k. response_of s ! j = burst q os j \<and> response_of s ! j \<le> wait_of s ! j \<and> (os ! j \<le> q \<longrightarrow> wait_of s ! j = response_of s ! j)) \<and>
     (\<forall>j. k \<le> j \<and> j < length os \<longrightarrow> response_of s ! j = - 1 \<and> lastran s ! j = 0 \<and> wait_of s ! j = 0) \<and>
     (k < length os \<longrightarrow> thetime s = burst q os k)"

lemma rr_step_Cons:
  assumes "runlist s = (j, r) # js"
  shows "rr_step q s = Inr \<lparr>runlist = js @ (if q < r then [(j, r - q)] else []), jobcount = jobcount s - (if q < r then 0 else 1),
     thetime = thetime s + min q r, turnaround_of = (if q < r then turnaround_of s else (turnaround_of s)[j := thetime s + r]),
     response_of = (if response_of s ! j = - 1 then (response_of s)[j := thetime s] else response_of s),
     lastran = (lastran s)[j := thetime s + min q r], wait_of = (wait_of s)[j := wait_of s ! j + (thetime s - lastran s ! j)],
     trace = trace s @ [(thetime s, j, min q r, \<not> q < r)]\<rparr>"
  using assms by (simp add: rr_step_def Let_def)

lemma rr_step_accounted:
  assumes "accounted os s" and "rr_step q s = Inr s'" and "0 < q"
  shows "accounted os s'"
proof -
  from assms(2) obtain j r js where rl: "runlist s = (j, r) # js" by (auto simp: rr_step_def split: list.splits)
  have s': "s' = the (Some s')" by simp
  have a: "j < length os" "0 < r" "lastran s ! j \<le> thetime s" "wait_of s ! j + (os ! j - r) = lastran s ! j" "j \<notin> fst ` set js" "distinct (map fst js)"
    "0 \<le> thetime s" "jobcount s = Suc (length js)"
    using assms(1) rl by (auto simp: accounted_def)
  have b: "i < length os \<and> 0 < x \<and> lastran s ! i \<le> thetime s \<and> wait_of s ! i + (os ! i - x) = lastran s ! i \<and> i \<noteq> j" if "(i, x) \<in> set js" for i x
    using assms(1) rl that a(5) by (force simp: accounted_def)
  have c: "turnaround_of s ! i = wait_of s ! i + os ! i" if "i < length os" "i \<notin> fst ` set js" "i \<noteq> j" for i
    using assms(1) rl that by (auto simp: accounted_def)
  have l: "length (turnaround_of s) = length os" "length (response_of s) = length os" "length (lastran s) = length os" "length (wait_of s) = length os"
    using assms(1) by (auto simp: accounted_def)
  have m: "0 < min q r" using assms(3) a(2) by simp
  show ?thesis
  proof (cases "q < r")
    case True
    have "s' = \<lparr>runlist = js @ [(j, r - q)], jobcount = jobcount s, thetime = thetime s + q, turnaround_of = turnaround_of s,
        response_of = (if response_of s ! j = - 1 then (response_of s)[j := thetime s] else response_of s), lastran = (lastran s)[j := thetime s + q],
        wait_of = (wait_of s)[j := wait_of s ! j + (thetime s - lastran s ! j)], trace = trace s @ [(thetime s, j, q, False)]\<rparr>"
      using assms(2) rr_step_Cons [OF rl, of q] True by simp
    then show ?thesis using True a assms(3) l unfolding accounted_def
      by (auto dest!: b intro!: c)
  next
    case False
    then have "s' = \<lparr>runlist = js, jobcount = jobcount s - 1, thetime = thetime s + r, turnaround_of = (turnaround_of s)[j := thetime s + r],
        response_of = (if response_of s ! j = - 1 then (response_of s)[j := thetime s] else response_of s), lastran = (lastran s)[j := thetime s + r],
        wait_of = (wait_of s)[j := wait_of s ! j + (thetime s - lastran s ! j)], trace = trace s @ [(thetime s, j, r, True)]\<rparr>"
      using assms(2) rr_step_Cons [OF rl, of q] by simp
    then show ?thesis using a l unfolding accounted_def
      by (auto simp: nth_list_update dest!: b intro!: c)
  qed
qed

lemma rr_step_first_turns:
  assumes "accounted os s" and "first_turns q os k s" and "rr_step q s = Inr s'" and "0 < q" and "\<forall>r \<in> set os. 0 < r"
  shows "\<exists>k'. first_turns q os k' s'"
proof -
  from assms(3) obtain j r js where rl: "runlist s = (j, r) # js" by (auto simp: rr_step_def split: list.splits)
  note s' = rr_step_Cons [OF rl, of q, unfolded assms(3)]
  have l: "length (turnaround_of s) = length os" "length (response_of s) = length os" "length (lastran s) = length os" "length (wait_of s) = length os"
    using assms(1) by (auto simp: accounted_def)
  obtain rest where rest: "runlist s = map (\<lambda>j. (j, os ! j)) [k..<length os] @ rest" "\<forall>(j, r) \<in> set rest. j < k \<and> q < os ! j" and k: "k \<le> length os"
    using assms(2) by (auto simp: first_turns_def)
  have r: "response_of s ! i = burst q os i" "response_of s ! i \<le> wait_of s ! i" "os ! i \<le> q \<Longrightarrow> wait_of s ! i = response_of s ! i" if "i < k" for i
    using assms(2) that by (auto simp: first_turns_def)
  have f: "response_of s ! i = - 1" "lastran s ! i = 0" "wait_of s ! i = 0" if "k \<le> i" "i < length os" for i
    using assms(2) that by (auto simp: first_turns_def)
  show ?thesis
  proof (cases "k < length os")
    case True
    then have j: "j = k" "r = os ! k" "js = map (\<lambda>j. (j, os ! j)) [Suc k..<length os] @ rest" using rest(1) rl by (auto simp: upt_conv_Cons)
    have t: "thetime s = burst q os k" using assms(2) True by (auto simp: first_turns_def)
    have "first_turns q os (Suc k) s'"
      unfolding first_turns_def
    proof (intro conjI)
      show "\<exists>rest. runlist s' = map (\<lambda>j. (j, os ! j)) [Suc k..<length os] @ rest \<and> (\<forall>(j, r) \<in> set rest. j < Suc k \<and> q < os ! j)"
        using s' j rest(2) by (intro exI [of _ "rest @ (if q < r then [(k, r - q)] else [])"]) (auto split: if_splits)
      show "\<forall>i < Suc k. response_of s' ! i = burst q os i \<and> response_of s' ! i \<le> wait_of s' ! i \<and> (os ! i \<le> q \<longrightarrow> wait_of s' ! i = response_of s' ! i)"
        using s' j t f [of k] r l True by (auto simp: less_Suc_eq)
      show "\<forall>i. Suc k \<le> i \<and> i < length os \<longrightarrow> response_of s' ! i = - 1 \<and> lastran s' ! i = 0 \<and> wait_of s' ! i = 0"
        using s' j f l True by auto
      show "Suc k < length os \<longrightarrow> thetime s' = burst q os (Suc k)" using s' j t True by (simp add: burst_Suc)
    qed (use True in simp)
    then show ?thesis by blast
  next
    case False
    then have kn: "k = length os" using k by simp
    then have rj: "rest = (j, r) # js" using rest(1) rl by simp
    then have j: "j < k" "q < os ! j" using rest(2) by auto
    have nn: "0 \<le> burst q os j" using burst_nonneg [of q os j] assms(4,5) by (simp add: less_imp_le)
    then have ne: "response_of s ! j \<noteq> - 1" using r(1) [OF j(1)] by auto
    have "lastran s ! j \<le> thetime s" using assms(1) rl by (auto simp: accounted_def)
    then have le: "burst q os j \<le> wait_of s ! j + (thetime s - lastran s ! j)" using r(1,2) [OF j(1)] by linarith
    have "first_turns q os k s'"
      unfolding first_turns_def
    proof (intro conjI)
      show "\<exists>rest. runlist s' = map (\<lambda>j. (j, os ! j)) [k..<length os] @ rest \<and> (\<forall>(j, r) \<in> set rest. j < k \<and> q < os ! j)"
        using s' j rest(2) rj kn by (intro exI [of _ "js @ (if q < r then [(j, r - q)] else [])"]) (auto split: if_splits)
      have "response_of s' = response_of s" "wait_of s' = (wait_of s)[j := wait_of s ! j + (thetime s - lastran s ! j)]" using s' ne by simp_all
      then show "\<forall>i < k. response_of s' ! i = burst q os i \<and> response_of s' ! i \<le> wait_of s' ! i \<and> (os ! i \<le> q \<longrightarrow> wait_of s' ! i = response_of s' ! i)"
        using r l kn j le by (auto simp: nth_list_update)
    qed (use kn in auto)
    then show ?thesis by blast
  qed
qed

text \<open>The number of turns that are left.\<close>

definition turns :: "rat \<Rightarrow> rat list \<Rightarrow> nat" where
  "turns q rs = sum_list (map (\<lambda>r. nat \<lceil>r / q\<rceil>) rs)"

lemma turns_short: "0 < q \<Longrightarrow> 0 < r \<Longrightarrow> r \<le> q \<Longrightarrow> nat \<lceil>r / q\<rceil> = 1"
proof -
  assume a: "0 < q" "0 < r" "r \<le> q"
  then have "\<lceil>r / q\<rceil> = 1" by (intro ceiling_unique) auto
  then show ?thesis by simp
qed

lemma turns_long: "0 < q \<Longrightarrow> q < r \<Longrightarrow> nat \<lceil>r / q\<rceil> = Suc (nat \<lceil>(r - q) / q\<rceil>)"
proof -
  assume a: "0 < q" "q < r"
  have "r / q = (r - q) / q + 1" using a by (simp add: field_simps)
  then have "\<lceil>r / q\<rceil> = \<lceil>(r - q) / q\<rceil> + 1" by (metis ceiling_add_one)
  moreover have "0 \<le> \<lceil>(r - q) / q\<rceil>" using a by (simp add: le_ceiling_iff less_le_trans [of "- 1" 0])
  ultimately show ?thesis using Suc_nat_eq_nat_zadd1 [of "\<lceil>(r - q) / q\<rceil>"] by (simp add: add.commute)
qed

lemma rr_step_turns:
  assumes "accounted os s" and "rr_step q s = Inr s'" and "0 < q"
  shows "turns q (durations (runlist s)) = Suc (turns q (durations (runlist s')))"
proof -
  from assms(2) obtain j r js where rl: "runlist s = (j, r) # js" by (auto simp: rr_step_def split: list.splits)
  then have "0 < r" using assms(1) by (auto simp: accounted_def)
  then show ?thesis using rr_step_Cons [OF rl, of q] assms(2,3) rl turns_short [of q r] turns_long [of q r]
    by (auto simp: turns_def durations_def)
qed

lemma rr_loop_ends:
  assumes "accounted os s" and "first_turns q os k s" and "0 < q" and "\<forall>r \<in> set os. 0 < r" and "turns q (durations (runlist s)) \<le> fuel"
  shows "\<exists>s' k. rr_loop fuel q s = Inr s' \<and> accounted os s' \<and> first_turns q os k s' \<and> runlist s' = []"
  using assms
proof (induction fuel arbitrary: s k)
  case 0
  have "runlist s = []"
  proof (rule ccontr)
    assume "runlist s \<noteq> []"
    then obtain j r js where rl: "runlist s = (j, r) # js" by (cases "runlist s") auto
    then obtain s' where "rr_step q s = Inr s'" using rr_step_Cons [OF rl] by blast
    then show False using rr_step_turns [OF 0(1) _ 0(3)] 0(5) by auto
  qed
  moreover from this have "jobcount s = 0" using 0(1) by (simp add: accounted_def)
  ultimately show ?case using 0 by (auto simp: rr_loop.simps)
next
  case (Suc f)
  show ?case
  proof (cases "runlist s")
    case Nil
    then have "jobcount s = 0" using Suc.prems(1) by (simp add: accounted_def)
    then show ?thesis using Suc.prems Nil by (auto simp: rr_loop.simps)
  next
    case (Cons jr js)
    then have "jobcount s \<noteq> 0" using Suc.prems(1) by (simp add: accounted_def)
    moreover obtain s' where s': "rr_step q s = Inr s'" using rr_step_Cons Cons by (cases jr) blast
    moreover obtain k' where k': "first_turns q os k' s'" using rr_step_first_turns [OF Suc.prems(1,2) s' Suc.prems(3,4)] by blast
    moreover have "turns q (durations (runlist s')) \<le> f" using rr_step_turns [OF Suc.prems(1) s' Suc.prems(3)] Suc.prems(5) by simp
    ultimately show ?thesis
      using Suc.IH [OF rr_step_accounted [OF Suc.prems(1) s' Suc.prems(3)] k' Suc.prems(3,4)] by (simp add: rr_loop.simps)
  qed
qed


lemma rr_start_runlist [simp]: "runlist (rr_start js) = js" "jobcount (rr_start js) = length js"
  by (simp_all add: rr_start_def Let_def)

lemma rr_start_ok:
  assumes "numbered js" and "\<forall>r \<in> set (durations js). 0 < r"
  shows "accounted (durations js) (rr_start js)" and "first_turns q (durations js) 0 (rr_start js)"
proof -
  have nth: "js ! i = (i, durations js ! i)" if "i < length js" for i
    using numbered_nth [OF assms(1) that] by (simp add: durations_def)
  have js: "js = map (\<lambda>j. (j, durations js ! j)) [0..<length js]" by (rule nth_equalityI) (auto simp: nth)
  have m: "j < length js \<and> r = durations js ! j \<and> 0 < r" if jr: "(j, r) \<in> set js" for j r
  proof -
    obtain i where i: "i < length js" "js ! i = (j, r)" using jr by (auto simp: in_set_conv_nth)
    then have "i = j" "r = durations js ! j" using nth [OF i(1)] by auto
    then show ?thesis using i assms(2) by (auto simp: durations_def)
  qed
  have "set (map fst js) = {0..<length js}" using assms(1) by (simp add: numbered_def)
  moreover have "distinct (map fst js)" using assms(1) by (simp add: numbered_def)
  ultimately show "accounted (durations js) (rr_start js)"
    by (auto simp: accounted_def rr_start_def Let_def durations_def [of js] dest: m)
  show "first_turns q (durations js) 0 (rr_start js)"
    using js by (auto simp: first_turns_def rr_start_def Let_def durations_def)
qed

lemma rr_ends:
  assumes "numbered js" and "js \<noteq> []" and "\<forall>r \<in> set (durations js). 0 < r" and "0 < q" and "turns q (durations js) \<le> fuel"
  shows "\<exists>r. run_rr fuel q js = Inr r \<and> length (rlines r) = length js \<and>
    (\<forall>i < length js. \<exists>resp turn w. rlines r ! i = (i, resp, turn, w) \<and> turn = w + durations js ! i \<and> resp = burst q (durations js) i \<and> resp \<le> w \<and>
      (durations js ! i \<le> q \<longrightarrow> w = resp))"
proof -
  obtain s k where s: "rr_loop fuel q (rr_start js) = Inr s" "accounted (durations js) s" "first_turns q (durations js) k s" "runlist s = []"
    using rr_loop_ends [OF rr_start_ok [OF assms(1,3)] assms(4,3), of fuel] assms(5) by auto
  have k: "k = length js" using s(3,4) by (auto simp: first_turns_def durations_def)
  have "\<forall>i < length js. turnaround_of s ! i = wait_of s ! i + durations js ! i" using s(2,4) by (auto simp: accounted_def durations_def)
  moreover have "\<forall>i < length js. response_of s ! i = burst q (durations js) i \<and> burst q (durations js) i \<le> wait_of s ! i \<and>
      (durations js ! i \<le> q \<longrightarrow> wait_of s ! i = burst q (durations js) i)" using s(3) k by (auto simp: first_turns_def)
  ultimately show ?thesis using s(1) assms(2) by (simp add: run_rr_def averages_def Let_def)
qed

text \<open>
  C35. Round robin with a positive quantum on jobs with positive run times ends, after one step per (started) quantum of each job, and its
  statistics are right: the turnaround is the wait and the run time, job \<open>i\<close> gets its first turn when each earlier job has run for one
  quantum or less, no job waits for less than that, and a job that fits into one quantum waits for nothing more.
\<close>

theorem round_robin_ends:
  assumes "numbered js" and "js \<noteq> []" and "\<forall>r \<in> set (durations js). 0 < r" and "0 < q" and "turns q (durations js) \<le> fuel"
  shows "\<exists>r. run_rr fuel q js = Inr r \<and> length (rlines r) = length js \<and>
    (\<forall>i < length js. \<exists>resp turn w. rlines r ! i = (i, resp, turn, w) \<and> turn = w + durations js ! i \<and> resp = burst q (durations js) i \<and> resp \<le> w \<and>
      (durations js ! i \<le> q \<longrightarrow> w = resp))"
  by (rule rr_ends [OF assms])

theorem round_robin_ends_witness:
  "\<exists>r. run_rr 7 2 [(0, 3), (1, 1), (2, 7)] = Inr r \<and> length (rlines r) = 3"
proof -
  have c: "\<lceil>3 / 2 :: rat\<rceil> = 2" "\<lceil>1 / 2 :: rat\<rceil> = 1" "\<lceil>7 / 2 :: rat\<rceil> = 4" by (simp_all add: ceiling_unique)
  have "turns 2 (durations [(0, 3), (1, 1), (2, 7)]) \<le> 7" by (simp add: turns_def durations_def c)
  then show ?thesis using round_robin_ends [of "[(0, 3), (1, 1), (2, 7)]" 2 7] by (auto simp: numbered_def durations_def)
qed

text \<open>
  C39. Shortest job first is optimal: among all orders in which the jobs can run to their end it has the least average response, turnaround and wait.
\<close>

theorem shortest_first_optimal:
  assumes "policy opt = ''SJF''" and "mset js' = mset js" and "run_policy fuel opt js = Inr r" and "run_fifo js' = Inr r'"
  shows "avg_response r \<le> avg_response r' \<and> avg_turnaround r \<le> avg_turnaround r' \<and> avg_wait r \<le> avg_wait r'"
proof -
  let ?d = "durations js" and ?d' = "durations js'"
  have m: "mset ?d' = mset ?d" using assms(2) by (simp add: durations_def)
  have n: "length js' = length js" using assms(2) mset_eq_length by blast
  have so: "sort ?d' = sort ?d" by (rule properties_for_sort) (simp_all add: m)
  have su: "sum_list ?d' = sum_list ?d" "sum_list (sort ?d) = sum_list ?d" using m by (metis sum_mset_sum_list, metis mset_sort sum_mset_sum_list)
  have w: "sum_list (waits 0 (sort ?d)) \<le> sum_list (waits 0 ?d')" using waits_sort [of ?d'] so by simp
  have "run_fifo (sort_key snd js) = Inr r" using assms(1,3) by (simp add: run_policy_def)
  then show ?thesis using assms(4) w su n
    by (auto simp: run_fifo_eq averages_def durations_sort divide_right_mono split: if_splits)
qed

theorem shortest_first_optimal_witness:
  "avg_wait (the (case run_policy 0 (sched_defaults\<lparr>policy := ''SJF''\<rparr>) [(0, 10), (1, 2)] of Inr r \<Rightarrow> Some r | Inl e \<Rightarrow> None)) \<le> 5"
proof -
  have r: "\<exists>r. run_policy 0 (sched_defaults\<lparr>policy := ''SJF''\<rparr>) [(0, 10), (1, 2)] = Inr r"
    by (simp add: run_policy_def sched_defaults_def run_fifo_eq averages_def)
  have r': "\<exists>r'. run_fifo [(0, 10), (1, 2)] = Inr r' \<and> avg_wait r' = 5" by (simp add: run_fifo_eq averages_def durations_def)
  from r r' obtain r r' where rr: "run_policy 0 (sched_defaults\<lparr>policy := ''SJF''\<rparr>) [(0, 10), (1, 2)] = Inr r" "run_fifo [(0, 10), (1, 2)] = Inr r'" "avg_wait r' = 5"
    by blast
  show ?thesis using shortest_first_optimal [OF _ _ rr(1,2)] rr(1,3) by (simp add: sched_defaults_def)
qed

text \<open>
  When no job is longer than the quantum, round robin reports the same statistics as first in, first out.
\<close>

theorem long_quantum_is_fifo:
  assumes "numbered js" and "js \<noteq> []" and "\<forall>r \<in> set (durations js). 0 < r \<and> r \<le> q" and "length js \<le> fuel"
  shows "\<exists>r r'. run_rr fuel q js = Inr r \<and> run_fifo js = Inr r' \<and> rlines r = rlines r'"
proof -
  let ?d = "durations js"
  have len: "length ?d = length js" by (simp add: durations_def)
  have "0 < hd ?d \<and> hd ?d \<le> q" using assms(2,3) by (cases js) (auto simp: durations_def)
  then have q: "0 < q" by simp
  have "map (\<lambda>r. nat \<lceil>r / q\<rceil>) ?d = map (\<lambda>_. 1) ?d" using assms(3) turns_short [OF q] by (auto intro: map_cong)
  then have t: "turns q ?d = length js" unfolding turns_def by (simp add: len sum_list_triv del: map_eq_conv)
  have b: "burst q ?d i = sum_list (take i ?d)" for i
  proof -
    have "map (min q) (take i ?d) = take i ?d" using assms(3) by (intro map_idI) (auto dest!: in_set_takeD)
    then show ?thesis by (simp add: burst_def)
  qed
  obtain r where r: "run_rr fuel q js = Inr r" "length (rlines r) = length js" and
    l: "\<forall>i < length js. \<exists>resp turn w. rlines r ! i = (i, resp, turn, w) \<and> turn = w + ?d ! i \<and> resp = burst q ?d i \<and> resp \<le> w \<and> (?d ! i \<le> q \<longrightarrow> w = resp)"
    using rr_ends [OF assms(1,2) _ q, of fuel] assms(3,4) t by auto
  obtain r' where r': "run_fifo js = Inr r'" "rlines r' = map2 (\<lambda>(j, r) w. (j, w, w + r, w)) js (waits 0 ?d)"
    using assms(2) by (simp add: run_fifo_eq averages_def)
  have "rlines r = rlines r'"
  proof (rule nth_equalityI)
    fix i assume "i < length (rlines r)"
    then have i: "i < length js" using r(2) by simp
    have "?d ! i \<le> q" using assms(3) i len by simp
    then have "rlines r ! i = (i, burst q ?d i, burst q ?d i + ?d ! i, burst q ?d i)" using l i by fastforce
    moreover have "js ! i = (i, ?d ! i)" using numbered_nth [OF assms(1) i] by (simp add: durations_def)
    ultimately show "rlines r ! i = rlines r' ! i" using i len by (simp add: r'(2) waits_nth b)
  qed (simp add: r r' len)
  then show ?thesis using r r' by blast
qed

theorem long_quantum_is_fifo_witness:
  "\<exists>r r'. run_rr 2 10 [(0, 3), (1, 1)] = Inr r \<and> run_fifo [(0, 3), (1, 1)] = Inr r' \<and> rlines r = rlines r'"
  by (rule long_quantum_is_fifo) (simp_all add: numbered_def durations_def)

lemma hang_step:
  assumes "q \<le> 0" and "\<exists>(j, r) \<in> set (runlist s). 0 < r" and "jobcount s = length (runlist s)"
  shows "\<exists>s'. rr_step q s = Inr s' \<and> (\<exists>(j, r) \<in> set (runlist s'). 0 < r) \<and> jobcount s' = length (runlist s')"
proof -
  obtain j r js where rl: "runlist s = (j, r) # js" using assms(2) by (cases "runlist s") auto
  show ?thesis using rr_step_Cons [OF rl, of q] assms rl by (cases "q < r") auto
qed

lemma hang_loop:
  assumes "q \<le> 0" and "\<exists>(j, r) \<in> set (runlist s). 0 < r" and "jobcount s = length (runlist s)"
  shows "rr_loop fuel q s = Inl Out_Of_Fuel"
  using assms(2,3)
proof (induction fuel arbitrary: s)
  case 0
  then show ?case by (auto simp: rr_loop.simps)
next
  case (Suc f)
  then have "jobcount s \<noteq> 0" by auto
  moreover obtain s' where "rr_step q s = Inr s'" "\<exists>(j, r) \<in> set (runlist s'). 0 < r" "jobcount s' = length (runlist s')"
    using hang_step [OF assms(1) Suc.prems] by blast
  ultimately show ?case using Suc.IH by (simp add: rr_loop.simps)
qed

text \<open>
  With a quantum that is not positive round robin never ends when there is a job with a positive run time: no number of steps is enough.
\<close>

theorem quantum_zero_hangs:
  assumes "q \<le> 0" and "numbered js" and "\<exists>r \<in> set (durations js). 0 < r"
  shows "run_rr fuel q js = Inl Out_Of_Fuel"
proof -
  have "\<exists>(j, r) \<in> set (runlist (rr_start js)). 0 < r" using assms(3) by (auto simp: durations_def)
  then show ?thesis using hang_loop [OF assms(1), of "rr_start js"] by (simp add: run_rr_def)
qed

theorem quantum_zero_hangs_witness: "run_rr 5 0 [(0, 3)] = Inl Out_Of_Fuel"
  by (rule quantum_zero_hangs) (simp_all add: numbered_def durations_def)

lemma turns_bound:
  assumes "1 \<le> q" and "\<forall>r \<in> set rs. 0 \<le> r \<and> r \<le> of_int m"
  shows "turns q rs \<le> length rs * nat m"
  using assms(2)
proof (induction rs)
  case (Cons r rs)
  have "r / q \<le> r / 1" using assms(1) Cons.prems by (intro divide_left_mono) auto
  then have "r / q \<le> of_int m" using Cons.prems by (auto intro: order_trans)
  then have "nat \<lceil>r / q\<rceil> \<le> nat m" by (simp add: ceiling_le_iff nat_mono)
  then show ?case using Cons by (simp add: turns_def)
qed (simp add: turns_def)

text \<open>
  With its own random jobs the program ends under each of the three policies: it makes the number of jobs it was asked for,
  numbered in order and of length 1 to \<open>maxlen\<close>, and one step per job and time unit is enough for round robin.
\<close>

theorem random_jobs_end:
  assumes "jlist opt = []" and "0 < jobs opt" and "0 < maxlen opt" and "0 < quantum opt" and "policy opt \<in> {''SJF'', ''FIFO'', ''RR''}" and "solve opt"
    and "nat (jobs opt) \<le> length ds" and "\<forall>k \<in> set ds. valid_draw k" and "nat (jobs opt) * nat (maxlen opt) \<le> fuel"
  shows "\<exists>js r. sched_main fuel opt ds = Inr (js, Some r) \<and> numbered js \<and> int (length js) = jobs opt \<and>
    (\<forall>t \<in> set (durations js). 1 \<le> t \<and> t \<le> of_int (maxlen opt)) \<and> length (rlines r) = length js"
proof -
  obtain js where js: "rfold (random_job (maxlen opt)) [0..<nat (jobs opt)] ([], ds) = Inr (js, drop (nat (jobs opt)) ds)" "numbered js"
    "length js = nat (jobs opt)" "\<forall>r \<in> set (durations js). 1 \<le> r \<and> r \<le> of_int (maxlen opt)"
    using random_jobs [OF assms(3,7,8)] by (auto simp: durations_def)
  have ne: "js \<noteq> []" using js(3) assms(2) by auto
  have pos: "\<forall>r \<in> set (durations js). 0 < r" using js(4) by fastforce
  have q: "1 \<le> (of_int (quantum opt) :: rat)" using assms(4) by (metis int_one_le_iff_zero_less of_int_1_le_iff)
  have "turns (of_int (quantum opt)) (durations js) \<le> length (durations js) * nat (maxlen opt)"
    using js(4) by (intro turns_bound [OF q]) fastforce
  then have t: "turns (of_int (quantum opt)) (durations js) \<le> fuel" using js(3) assms(9) by (simp add: durations_def)
  have "\<exists>r. run_policy fuel opt js = Inr r \<and> length (rlines r) = length js"
  proof (cases "policy opt = ''RR''")
    case True
    then show ?thesis using rr_ends [OF js(2) ne pos _ t] assms(4) by (auto simp: run_policy_def)
  next
    case False
    then show ?thesis using assms(5) ne by (auto simp: run_policy_def run_fifo_eq averages_def durations_def)
  qed
  then show ?thesis using assms(1,2,6) js by (auto simp: sched_main_def make_joblist_def)
qed

theorem random_jobs_end_witness:
  "\<exists>js r. sched_main 30 (sched_defaults\<lparr>policy := ''RR'', solve := True\<rparr>) [0, 5, 7] = Inr (js, Some r) \<and> length (rlines r) = 3"
  using random_jobs_end [of "sched_defaults\<lparr>policy := ''RR'', solve := True\<rparr>" "[0, 5, 7]" 30]
  by (auto simp: sched_defaults_def valid_draw_def)

text \<open>With no job every policy ends with a division by zero, after its trace.\<close>

theorem no_jobs_division:
  "sched_main fuel (sched_defaults\<lparr>jobs := 0, policy := p, solve := True\<rparr>) ds = Inl (if p \<in> {''SJF'', ''FIFO'', ''RR''} then ZeroDivisionError else SystemExit 0)"
  by (auto simp: sched_main_def sched_defaults_def make_joblist_def run_policy_def run_fifo_eq run_rr_def rr_loop.simps averages_def)

end
