(* ===== verification/Lottery.thy ===== *)
theory Lottery
  imports PyString
begin

text \<open>
  The lottery scheduler of \<open>cpu-sched-lottery/lottery.py\<close>: the job list with run times and tickets, the draw of a winner, the accounting and the
  loop. Every job wins for as many numbers as it has tickets, and jobs with tickets all finish; jobs without tickets end the program with an error.
\<close>

section \<open>Jobs\<close>

text \<open>A job is its number, its run time and its tickets.\<close>

type_synonym lot_job = "nat \<times> int \<times> int"

record lot_options =
  jobs :: int
  jlist :: string
  maxlen :: int
  maxticket :: int
  quantum :: int
  solve :: bool

definition lot_defaults :: lot_options where
  "lot_defaults = \<lparr>jobs = 3, jlist = [], maxlen = 10, maxticket = 100, quantum = 1, solve = False\<rparr>"

text \<open>The loops that draw until the number is not zero.\<close>

fun draw_nonzero :: "int \<Rightarrow> draw list \<Rightarrow> (int \<times> draw list) res" where
  "draw_nonzero m [] = Inl Out_Of_Draws"
| "draw_nonzero m (k # ks) = (if pick_int k m = 0 then draw_nonzero m ks else Inr (pick_int k m, ks))"

text \<open>The job list with \<open>runTotal\<close> and \<open>tickTotal\<close>.\<close>

record lot_setup =
  joblist :: "lot_job list"
  runTotal :: int
  tickTotal :: int

definition add_job :: "int \<Rightarrow> int \<Rightarrow> lot_setup \<Rightarrow> lot_setup" where
  "add_job runtime tickets s =
     \<lparr>joblist = joblist s @ [(length (joblist s), runtime, tickets)], runTotal = runTotal s + runtime, tickTotal = tickTotal s + tickets\<rparr>"

definition random_job :: "lot_options \<Rightarrow> nat \<Rightarrow> lot_setup \<times> draw list \<Rightarrow> (lot_setup \<times> draw list) res" where
  "random_job opt jobnum = (\<lambda>(s, ds).
     rbind (draw_nonzero (maxlen opt) ds) (\<lambda>(runtime, ds). rbind (draw_nonzero (maxticket opt) ds) (\<lambda>(tickets, ds).
     Inr (add_job runtime tickets s, ds))))"

definition listed_job :: "string \<Rightarrow> lot_setup \<Rightarrow> lot_setup res" where
  "listed_job entry s =
     (case py_split CHR '':'' entry of
        [a, b] \<Rightarrow> rbind (py_int a) (\<lambda>runtime. rbind (py_int b) (\<lambda>tickets. Inr (add_job runtime tickets s)))
      | _ \<Rightarrow> Inl ValueError)"

definition no_lot_jobs :: lot_setup where
  "no_lot_jobs = \<lparr>joblist = [], runTotal = 0, tickTotal = 0\<rparr>"

definition make_joblist :: "lot_options \<Rightarrow> draw list \<Rightarrow> (lot_setup \<times> draw list) res" where
  "make_joblist opt ds =
     (if jlist opt = [] then rfold (random_job opt) [0..<nat (jobs opt)] (no_lot_jobs, ds)
      else rbind (rfold listed_job (py_split CHR '','' (jlist opt)) no_lot_jobs) (\<lambda>s. Inr (s, ds)))"

section \<open>The lottery\<close>

text \<open>A line of the output: the random number, the winning ticket, the job that runs, and the time at which it is done.\<close>

type_synonym lot_line = "int \<times> int \<times> nat \<times> int option"

text \<open>The variables \<open>wjob\<close>, \<open>wrun\<close> and \<open>wtix\<close> keep their values from one slice to the next; they are unbound before the first.\<close>

record lot =
  lot_jobs :: "lot_job list"
  left :: int
  clock :: int
  tix :: int
  wvars :: "lot_job option"
  lines :: "lot_line list"

fun find_winner :: "int \<Rightarrow> int \<Rightarrow> lot_job list \<Rightarrow> lot_job option" where
  "find_winner winner current [] = None"
| "find_winner winner current ((job, runtime, tickets) # js) =
     (if winner < current + tickets then Some (job, runtime, tickets) else find_winner winner (current + tickets) js)"

definition lot_account :: "int \<Rightarrow> int \<Rightarrow> int \<Rightarrow> lot_job \<Rightarrow> lot \<Rightarrow> lot" where
  "lot_account q r winner = (\<lambda>(wjob, wrun, wtix) s.
     let wrun = (if q \<le> wrun then wrun - q else 0);
         now = clock s + q;
         s = s\<lparr>clock := now\<rparr>;
         (s, wtix, fin) = (if wrun = 0 then (s\<lparr>tix := tix s - wtix, left := left s - 1\<rparr>, 0, Some now) else (s, wtix, None))
     in s\<lparr>lot_jobs := (lot_jobs s)[wjob := (wjob, wrun, wtix)], wvars := Some (wjob, wrun, wtix), lines := lines s @ [(r, winner, wjob, fin)]\<rparr>)"

definition lot_slice :: "int \<Rightarrow> draw \<Rightarrow> lot \<Rightarrow> lot res" where
  "lot_slice q k s =
     (let r = pick_int k 1000001 in
      if tix s = 0 then Inl ZeroDivisionError
      else let winner = r mod tix s in
        case (case find_winner winner 0 (lot_jobs s) of Some w \<Rightarrow> Some w | None \<Rightarrow> wvars s) of
          None \<Rightarrow> Inl NameError
        | Some w \<Rightarrow> Inr (lot_account q r winner w s))"

text \<open>The slices: at most \<open>n\<close>, and none after the last job is done.\<close>

fun lot_loop :: "nat \<Rightarrow> int \<Rightarrow> draw list \<Rightarrow> lot \<Rightarrow> lot res" where
  "lot_loop 0 q ds s = Inr s"
| "lot_loop (Suc n) q ds s =
     rbind (next_draw ds) (\<lambda>(k, ds). rbind (lot_slice q k s) (\<lambda>s. if left s = 0 then Inr s else lot_loop n q ds s))"

definition lot_start :: "lot_setup \<Rightarrow> lot" where
  "lot_start u = \<lparr>lot_jobs = joblist u, left = int (length (joblist u)), clock = 0, tix = tickTotal u, wvars = None, lines = []\<rparr>"

text \<open>The numbers that the reader will need, when no solution is asked for.\<close>

definition needed_numbers :: "int \<Rightarrow> draw list \<Rightarrow> int list res" where
  "needed_numbers n ds = rbind (rfold (\<lambda>_ (rs, ds). rbind (next_draw ds) (\<lambda>(k, ds). Inr (rs @ [pick_int k 1000001], ds))) [0..<nat n] ([], ds)) (\<lambda>(rs, ds). Inr rs)"

definition lottery_main :: "lot_options \<Rightarrow> draw list \<Rightarrow> (lot_setup \<times> (int list + lot)) res" where
  "lottery_main opt ds =
     rbind (make_joblist opt ds) (\<lambda>(u, ds).
     if solve opt then rbind (lot_loop (nat (runTotal u)) (quantum opt) ds (lot_start u)) (\<lambda>s. Inr (u, Inr s))
     else rbind (needed_numbers (runTotal u) ds) (\<lambda>rs. Inr (u, Inl rs)))"


section \<open>Every ticket wins\<close>

definition tickets_of :: "lot_job \<Rightarrow> int" where
  "tickets_of = (\<lambda>(j, r, t). t)"

definition run_of :: "lot_job \<Rightarrow> int" where
  "run_of = (\<lambda>(j, r, t). r)"

lemma lot_job_sel [simp]: "tickets_of (j, r, t) = t" "run_of (j, r, t) = r"
  by (simp_all add: tickets_of_def run_of_def)

definition total_tickets :: "lot_job list \<Rightarrow> int" where
  "total_tickets js = sum_list (map tickets_of js)"

definition lot_numbered :: "lot_job list \<Rightarrow> bool" where
  "lot_numbered js \<longleftrightarrow> map fst js = [0..<length js]"

lemma tt_simps [simp]: "total_tickets [] = 0" "total_tickets (x # js) = tickets_of x + total_tickets js" "total_tickets (us @ vs) = total_tickets us + total_tickets vs"
  by (simp_all add: total_tickets_def)

lemma tt_nonneg: "\<forall>x \<in> set js. 0 \<le> tickets_of x \<Longrightarrow> 0 \<le> total_tickets js"
  unfolding total_tickets_def by (intro sum_list_nonneg) auto

lemma find_winner_skip:
  assumes "\<forall>x \<in> set us. 0 \<le> tickets_of x" and "cur + total_tickets us \<le> w"
  shows "find_winner w cur (us @ vs) = find_winner w (cur + total_tickets us) vs"
  using assms
proof (induction us arbitrary: cur)
  case (Cons x us)
  obtain j r t where x: "x = (j, r, t)" by (cases x)
  have "0 \<le> total_tickets us" using Cons.prems(1) by (intro tt_nonneg) simp
  then show ?case using Cons.IH [of "cur + t"] Cons.prems x by (simp add: add.assoc)
qed simp

lemma in_interval:
  assumes "0 \<le> w" and "w < total_tickets js"
  shows "\<exists>i < length js. total_tickets (take i js) \<le> w \<and> w < total_tickets (take (Suc i) js)"
  using assms
proof (induction js arbitrary: w)
  case (Cons x js)
  show ?case
  proof (cases "w < tickets_of x")
    case True
    then show ?thesis using Cons.prems by (intro exI [of _ 0]) simp
  next
    case False
    then obtain i where "i < length js" "total_tickets (take i js) \<le> w - tickets_of x" "w - tickets_of x < total_tickets (take (Suc i) js)"
      using Cons.IH [of "w - tickets_of x"] Cons.prems by auto
    then show ?thesis by (intro exI [of _ "Suc i"]) simp
  qed
qed simp

lemma find_winner_at:
  assumes "\<forall>x \<in> set js. 0 \<le> tickets_of x" and "i < length js" and "total_tickets (take i js) \<le> w" and "w < total_tickets (take (Suc i) js)"
  shows "find_winner w 0 js = Some (js ! i)"
proof -
  have "find_winner w 0 js = find_winner w (total_tickets (take i js)) (drop i js)"
    using find_winner_skip [of "take i js" 0 w "drop i js"] assms(1,3) by (auto dest: in_set_takeD)
  moreover have "drop i js = js ! i # drop (Suc i) js" using assms(2) by (simp add: Cons_nth_drop_Suc)
  moreover have "total_tickets (take (Suc i) js) = total_tickets (take i js) + tickets_of (js ! i)" using assms(2) by (simp add: take_Suc_conv_app_nth)
  ultimately show ?thesis using assms(4) by (cases "js ! i") simp
qed

lemma find_winner_live:
  assumes "\<forall>x \<in> set js. 0 \<le> tickets_of x" and "0 \<le> w" and "w < total_tickets js"
  shows "\<exists>i < length js. find_winner w 0 js = Some (js ! i) \<and> 0 < tickets_of (js ! i)"
proof -
  obtain i where i: "i < length js" "total_tickets (take i js) \<le> w" "w < total_tickets (take (Suc i) js)" using in_interval [OF assms(2,3)] by blast
  then have "0 < tickets_of (js ! i)" by (simp add: take_Suc_conv_app_nth)
  then show ?thesis using find_winner_at [OF assms(1) i] i(1) by blast
qed

lemma lot_numbered_nth: "lot_numbered js \<Longrightarrow> i < length js \<Longrightarrow> fst (js ! i) = i"
  unfolding lot_numbered_def by (metis add.left_neutral length_map nth_map nth_upt)

text \<open>The numbers that make the job win are its tickets, numbered from the tickets of the jobs before it.\<close>

lemma find_winner_iff:
  assumes "lot_numbered js" and "\<forall>x \<in> set js. 0 \<le> tickets_of x" and "i < length js" and "0 \<le> w" and "w < total_tickets js"
  shows "find_winner w 0 js = Some (js ! i) \<longleftrightarrow> total_tickets (take i js) \<le> w \<and> w < total_tickets (take i js) + tickets_of (js ! i)"
proof -
  have t: "total_tickets (take (Suc i) js) = total_tickets (take i js) + tickets_of (js ! i)" using assms(3) by (simp add: take_Suc_conv_app_nth)
  obtain k where k: "k < length js" "total_tickets (take k js) \<le> w" "w < total_tickets (take (Suc k) js)" using in_interval [OF assms(4,5)] by blast
  have "k = i" if "js ! k = js ! i" using that lot_numbered_nth [OF assms(1)] assms(3) k(1) by metis
  then show ?thesis using find_winner_at [OF assms(2) k] find_winner_at [OF assms(2,3)] k t by auto
qed

lemma slice_of_winner:
  assumes "lot_numbered (lot_jobs s)" and "\<forall>x \<in> set (lot_jobs s). 0 \<le> tickets_of x" and "tix s = total_tickets (lot_jobs s)" and "0 < tix s"
    and "i < length (lot_jobs s)"
  shows "(\<exists>s' fin. lot_slice q k s = Inr s' \<and> lines s' = lines s @ [(pick_int k 1000001, pick_int k 1000001 mod tix s, i, fin)]) \<longleftrightarrow>
    find_winner (pick_int k 1000001 mod tix s) 0 (lot_jobs s) = Some (lot_jobs s ! i)"
proof -
  let ?w = "pick_int k 1000001 mod tix s"
  obtain l where l: "l < length (lot_jobs s)" "find_winner ?w 0 (lot_jobs s) = Some (lot_jobs s ! l)"
    using find_winner_live [OF assms(2), of ?w] assms(3,4) by auto
  have n: "fst (lot_jobs s ! l) = l" "fst (lot_jobs s ! i) = i" using lot_numbered_nth [OF assms(1)] l(1) assms(5) by auto
  obtain j r t where x: "lot_jobs s ! l = (j, r, t)" by (cases "lot_jobs s ! l")
  have sl: "lot_slice q k s = Inr (lot_account q (pick_int k 1000001) ?w (j, r, t) s)" using assms(4) l(2) x by (simp add: lot_slice_def Let_def)
  have "\<exists>fin. lines (lot_account q (pick_int k 1000001) ?w (j, r, t) s) = lines s @ [(pick_int k 1000001, ?w, j, fin)]"
    by (auto simp: lot_account_def Let_def)
  then obtain fin where fin: "lines (lot_account q (pick_int k 1000001) ?w (j, r, t) s) = lines s @ [(pick_int k 1000001, ?w, j, fin)]" by blast
  have "lot_jobs s ! l = lot_jobs s ! i \<longleftrightarrow> j = i" using n x by (metis fst_conv)
  then show ?thesis unfolding sl l(2) by (auto simp: fin)
qed

text \<open>Every number up to 1000000 is drawn by some value of the random generator.\<close>

lemma numbers_drawn: "{pick_int k 1000001 |k. valid_draw k} = {0..<1000001}"
proof (intro set_eqI iffI)
  fix r :: int assume "r \<in> {0..<1000001}"
  then have r: "0 \<le> r" "r < 1000001" by auto
  define k where "k = (nat r * 2 ^ 53 + 1000000) div 1000001"
  have "k * 1000001 \<le> nat r * 2 ^ 53 + 1000000" "nat r * 2 ^ 53 + 1000000 < k * 1000001 + 1000001" unfolding k_def using dividend_less_div_times [of 1000001 "nat r * 2 ^ 53 + 1000000"] by (simp_all add: algebra_simps div_times_less_eq_dividend)
  moreover have "nat r \<le> 1000000" using r by simp
  ultimately have "valid_draw k" "k * 1000001 div 2 ^ 53 = nat r" unfolding valid_draw_def by (simp, intro div_nat_eqI) simp_all
  then have "pick_int k 1000001 = r" using r by (simp add: pick_int_def pick_def)
  then show "r \<in> {pick_int k 1000001 |k. valid_draw k}" using \<open>valid_draw k\<close> by blast
qed (use pick_int_range [of _ 1000001] in force)

lemma residues_count:
  assumes "0 \<le> lo" and "0 \<le> t" and "lo + t \<le> T" and "0 < T" and "0 \<le> R" and "R < T"
  shows "int (card {r. 0 \<le> r \<and> r < T * int n + R \<and> lo \<le> r mod T \<and> r mod T < lo + t}) = t * int n + max 0 (min t (R - lo))"
proof (induction n)
  case 0
  have "r mod T = r" if "0 \<le> r" "r < R" for r using that assms by simp
  then have "{r. 0 \<le> r \<and> r < T * int 0 + R \<and> lo \<le> r mod T \<and> r mod T < lo + t} = {lo..<min (lo + t) R}" using assms(1) by fastforce
  then show ?case using assms(2) by (auto simp: min_def max_def)
next
  case (Suc n)
  let ?S = "\<lambda>n. {r. 0 \<le> r \<and> r < T * int n + R \<and> lo \<le> r mod T \<and> r mod T < lo + t}"
  have b: "T * int (Suc n) + R = (T * int n + R) + T" by (simp add: algebra_simps)
  have nn: "0 \<le> T * int n" using assms(4) by simp
  have "?S (Suc n) = {lo..<lo + t} \<union> (\<lambda>r. r + T) ` ?S n"
  proof (intro set_eqI iffI)
    fix r assume r: "r \<in> ?S (Suc n)"
    show "r \<in> {lo..<lo + t} \<union> (\<lambda>r. r + T) ` ?S n"
    proof (cases "r < T")
      case True
      then have "r mod T = r" using r by simp
      then show ?thesis using r by simp
    next
      case False
      then have "r - T \<in> ?S n" using r b by simp
      then show ?thesis by (intro UnI2 image_eqI [of _ _ "r - T"]) simp_all
    qed
  next
    fix r assume "r \<in> {lo..<lo + t} \<union> (\<lambda>r. r + T) ` ?S n"
    then show "r \<in> ?S (Suc n)"
    proof
      assume r: "r \<in> {lo..<lo + t}"
      then have "r < T" using assms(3) by simp
      moreover have "T \<le> T * int n + R + T" using nn assms(5) by linarith
      ultimately have "r < T * int n + R + T" by linarith
      then show ?thesis using r \<open>r < T\<close> assms(1) unfolding b by simp
    next
      assume "r \<in> (\<lambda>r. r + T) ` ?S n"
      then show ?thesis using assms(4) unfolding b by auto
    qed
  qed
  moreover have "finite (?S n)" by (rule finite_subset [of _ "{0..<T * int n + R}"]) auto
  moreover have "{lo..<lo + t} \<inter> (\<lambda>r. r + T) ` ?S n = {}" using assms(3) by auto
  ultimately have "card (?S (Suc n)) = nat t + card (?S n)" by (simp add: card_Un_disjoint card_image inj_on_def)
  then show ?case using Suc assms(2) by (simp add: algebra_simps)
qed

text \<open>
  C36. The numbers that can be drawn for a slice are 0 to 1000000. When the jobs are numbered in order and there are tickets left, each draw
  of a slice makes some job run, and job \<open>i\<close> runs exactly when the number modulo the tickets left falls on a ticket of the job. So the number of
  draws that make it run is its tickets times the full rounds of the ticket total in 1000001, plus those of its tickets that lie in the last,
  incomplete round: in proportion to the tickets when the total divides 1000001, and otherwise up to one more per ticket, for the jobs listed
  first.
\<close>

theorem lottery_share:
  assumes "lot_numbered (lot_jobs s)" and "\<forall>x \<in> set (lot_jobs s). 0 \<le> tickets_of x" and "tix s = total_tickets (lot_jobs s)" and "0 < tix s"
    and "i < length (lot_jobs s)"
  shows "{pick_int k 1000001 |k. valid_draw k} = {0..<1000001} \<and>
    (valid_draw k \<longrightarrow> (\<exists>s' j fin. lot_slice q k s = Inr s' \<and> lines s' = lines s @ [(pick_int k 1000001, pick_int k 1000001 mod tix s, j, fin)])) \<and>
    int (card {r. \<exists>k s' fin. valid_draw k \<and> pick_int k 1000001 = r \<and> lot_slice q k s = Inr s' \<and> lines s' = lines s @ [(r, r mod tix s, i, fin)]}) =
      tickets_of (lot_jobs s ! i) * (1000001 div tix s) +
      max 0 (min (tickets_of (lot_jobs s ! i)) (1000001 mod tix s - total_tickets (take i (lot_jobs s))))"
proof -
  let ?js = "lot_jobs s" and ?T = "tix s" and ?lo = "total_tickets (take i (lot_jobs s))" and ?t = "tickets_of (lot_jobs s ! i)"
  have wt: "0 \<le> r mod ?T" "r mod ?T < total_tickets ?js" for r using assms(3,4) pos_mod_bound [of ?T r] by simp_all
  have "\<exists>s' j fin. lot_slice q k s = Inr s' \<and> lines s' = lines s @ [(pick_int k 1000001, pick_int k 1000001 mod ?T, j, fin)]"
    using find_winner_live [OF assms(2) wt] slice_of_winner [OF assms(1-4)] by blast
  moreover have "{r. \<exists>k s' fin. valid_draw k \<and> pick_int k 1000001 = r \<and> lot_slice q k s = Inr s' \<and> lines s' = lines s @ [(r, r mod ?T, i, fin)]} =
      {r \<in> {pick_int k 1000001 |k. valid_draw k}. find_winner (r mod ?T) 0 ?js = Some (?js ! i)}"
    using slice_of_winner [OF assms] by blast
  moreover have "\<dots> = {r. 0 \<le> r \<and> r < ?T * int (nat (1000001 div ?T)) + 1000001 mod ?T \<and> ?lo \<le> r mod ?T \<and> r mod ?T < ?lo + ?t}"
    unfolding numbers_drawn find_winner_iff [OF assms(1,2,5) wt] using assms(4) by (auto simp: pos_imp_zdiv_nonneg_iff)
  moreover have "?lo + ?t \<le> ?T"
  proof -
    have "total_tickets ?js = ?lo + ?t + total_tickets (drop (Suc i) ?js)"
      using arg_cong [OF id_take_nth_drop [OF assms(5)], of total_tickets] by simp
    moreover have "0 \<le> total_tickets (drop (Suc i) ?js)" using assms(2) by (auto intro!: tt_nonneg dest: in_set_dropD)
    ultimately show ?thesis using assms(3) by simp
  qed
  moreover have "0 \<le> ?lo" "0 \<le> ?t" using assms(2,5) by (auto intro!: tt_nonneg dest: in_set_takeD)
  ultimately show ?thesis using residues_count [of ?lo ?t ?T "1000001 mod ?T" "nat (1000001 div ?T)"] assms(4) numbers_drawn
    by (simp add: pos_imp_zdiv_nonneg_iff)
qed

theorem lottery_share_witness:
  "int (card {r. \<exists>k s' fin. valid_draw k \<and> pick_int k 1000001 = r \<and> lot_slice 1 k (lot_start \<lparr>joblist = [(0, 5, 75), (1, 5, 25)], runTotal = 10, tickTotal = 100\<rparr>) = Inr s' \<and>
      lines s' = [(r, r mod 100, 0, fin)]}) = 750001"
  using lottery_share [of "lot_start \<lparr>joblist = [(0, 5, 75), (1, 5, 25)], runTotal = 10, tickTotal = 100\<rparr>" 0 0 1]
  by (simp add: lot_numbered_def lot_start_def)

section \<open>The lottery ends\<close>

text \<open>A job has tickets exactly as long as it has time left.\<close>

definition good_jobs :: "lot_job list \<Rightarrow> bool" where
  "good_jobs js \<longleftrightarrow> lot_numbered js \<and> (\<forall>x \<in> set js. 0 \<le> run_of x \<and> 0 \<le> tickets_of x \<and> (run_of x = 0 \<longleftrightarrow> tickets_of x = 0))"

definition unfinished :: "lot_job list \<Rightarrow> nat" where
  "unfinished js = length (filter (\<lambda>x. run_of x \<noteq> 0) js)"

definition time_left :: "lot_job list \<Rightarrow> int" where
  "time_left js = sum_list (map run_of js)"

text \<open>The time that a job of length \<open>r\<close> takes in slices of \<open>q\<close>.\<close>

definition in_slices :: "int \<Rightarrow> int \<Rightarrow> int" where
  "in_slices q r = q * ((r + q - 1) div q)"

definition slices_left :: "int \<Rightarrow> lot_job list \<Rightarrow> int" where
  "slices_left q js = sum_list (map (\<lambda>x. in_slices q (run_of x)) js)"

definition lot_inv :: "int \<Rightarrow> int \<Rightarrow> lot \<Rightarrow> bool" where
  "lot_inv q T s \<longleftrightarrow> good_jobs (lot_jobs s) \<and> tix s = total_tickets (lot_jobs s) \<and> left s = int (unfinished (lot_jobs s)) \<and> clock s + slices_left q (lot_jobs s) = T"

lemma split_at: "i < length js \<Longrightarrow> js = take i js @ js ! i # drop (Suc i) js"
  by (rule id_take_nth_drop)

lemma in_slices_step: "0 < q \<Longrightarrow> 0 < r \<Longrightarrow> in_slices q r = q + in_slices q (if q \<le> r then r - q else 0)"
proof -
  assume a: "0 < q" "0 < r"
  show ?thesis
  proof (cases "q \<le> r")
    case True
    have "(r + q - 1) div q = (r - q + q - 1 + q) div q" by (simp add: algebra_simps)
    also have "\<dots> = (r - q + q - 1) div q + 1" using a by (intro div_add_self2) simp
    finally show ?thesis using True by (simp add: in_slices_def algebra_simps)
  next
    case False
    have "(r + q - 1) div q = (r - 1 + q) div q" by (simp add: algebra_simps)
    then have "(r + q - 1) div q = (r - 1) div q + 1" using a div_add_self2 [of q "r - 1"] by linarith
    moreover have "(r - 1) div q = 0" "(q - 1) div q = 0" using False a by simp_all
    ultimately show ?thesis using False by (simp add: in_slices_def)
  qed
qed

lemma lot_account_inv:
  assumes "lot_inv q T s" and "0 < q" and "i < length (lot_jobs s)" and "0 < tickets_of (lot_jobs s ! i)"
  shows "lot_inv q T (lot_account q r w (lot_jobs s ! i) s)" and "time_left (lot_jobs (lot_account q r w (lot_jobs s ! i) s)) < time_left (lot_jobs s)"
proof -
  let ?js = "lot_jobs s" and ?s' = "lot_account q r w (lot_jobs s ! i) s"
  obtain j x t where x: "?js ! i = (j, x, t)" by (cases "?js ! i")
  have g: "lot_numbered ?js" "\<forall>y \<in> set ?js. 0 \<le> run_of y \<and> 0 \<le> tickets_of y \<and> (run_of y = 0 \<longleftrightarrow> tickets_of y = 0)"
    using assms(1) by (auto simp: lot_inv_def good_jobs_def)
  have j: "j = i" using lot_numbered_nth [OF g(1) assms(3)] x by simp
  have "(j, x, t) \<in> set ?js" using assms(3) x by (metis nth_mem)
  then have xt: "0 < t" "0 < x" using g(2) assms(4) x by force+
  let ?x = "if q \<le> x then x - q else 0" and ?t = "if (if q \<le> x then x - q else 0) = 0 then 0 else t"
  have js': "lot_jobs ?s' = ?js[i := (i, ?x, ?t)]" and tx: "tix ?s' = tix s - (t - ?t)" and lf: "left ?s' = left s - (if ?x = 0 then 1 else 0)"
    and ck: "clock ?s' = clock s + q"
    using x j by (simp_all add: lot_account_def Let_def)
  have sp: "?js = take i ?js @ (i, x, t) # drop (Suc i) ?js" using split_at [OF assms(3)] x j by simp
  have sp': "lot_jobs ?s' = take i ?js @ (i, ?x, ?t) # drop (Suc i) ?js" using js' assms(3) by (simp add: upd_conv_take_nth_drop)
  have m: "map f (lot_jobs ?s') = (map f ?js)[i := f (i, ?x, ?t)]" for f :: "lot_job \<Rightarrow> nat" by (simp add: js' map_update)
  have "map fst (lot_jobs ?s') = map fst ?js" using lot_numbered_nth [OF g(1) assms(3)] assms(3) unfolding js' by (simp add: map_update list_update_same_conv)
  then have n: "lot_numbered (lot_jobs ?s')" using g(1) js' by (simp add: lot_numbered_def)
  have "set (lot_jobs ?s') \<subseteq> insert (i, ?x, ?t) (set ?js)" unfolding js' by (rule set_update_subset_insert)
  moreover have "0 \<le> ?x \<and> 0 \<le> ?t \<and> (?x = 0 \<longleftrightarrow> ?t = 0)" using xt by simp
  ultimately have gj: "good_jobs (lot_jobs ?s')" using n g(2) unfolding good_jobs_def by force
  have tot: "total_tickets ?js = total_tickets (take i ?js) + t + total_tickets (drop (Suc i) ?js)" by (subst sp) simp
  have tot': "total_tickets (lot_jobs ?s') = total_tickets (take i ?js) + ?t + total_tickets (drop (Suc i) ?js)" unfolding sp' by simp
  have u: "unfinished ?js = unfinished (take i ?js) + 1 + unfinished (drop (Suc i) ?js)" using xt by (subst sp) (simp add: unfinished_def)
  have u': "unfinished (lot_jobs ?s') = unfinished (take i ?js) + (if ?x = 0 then 0 else 1) + unfinished (drop (Suc i) ?js)"
    unfolding sp' by (simp add: unfinished_def)
  have l: "slices_left q ?js = slices_left q (take i ?js) + in_slices q x + slices_left q (drop (Suc i) ?js)" by (subst sp) (simp add: slices_left_def)
  have l': "slices_left q (lot_jobs ?s') = slices_left q (take i ?js) + in_slices q ?x + slices_left q (drop (Suc i) ?js)"
    unfolding sp' by (simp add: slices_left_def)
  show "lot_inv q T ?s'"
    using assms(1) gj tx lf ck tot tot' u u' l l' in_slices_step [OF assms(2) xt(2)] unfolding lot_inv_def by (auto split: if_splits)
  have "time_left ?js = time_left (take i ?js) + x + time_left (drop (Suc i) ?js)" by (subst sp) (simp add: time_left_def)
  moreover have "time_left (lot_jobs ?s') = time_left (take i ?js) + ?x + time_left (drop (Suc i) ?js)" unfolding sp' by (simp add: time_left_def)
  ultimately show "time_left (lot_jobs ?s') < time_left ?js" using xt assms(2) by (auto split: if_splits)
qed


lemma lot_slice_ok:
  assumes "lot_inv q T s" and "0 < q" and "0 < left s"
  shows "\<exists>s'. lot_slice q k s = Inr s' \<and> lot_inv q T s' \<and> time_left (lot_jobs s') < time_left (lot_jobs s)"
proof -
  let ?js = "lot_jobs s" and ?w = "pick_int k 1000001 mod tix s"
  have g: "\<forall>x \<in> set ?js. 0 \<le> tickets_of x" "\<forall>x \<in> set ?js. run_of x = 0 \<longleftrightarrow> tickets_of x = 0" and t: "tix s = total_tickets ?js" "left s = int (unfinished ?js)"
    using assms(1) by (auto simp: lot_inv_def good_jobs_def)
  have "filter (\<lambda>x. run_of x \<noteq> 0) ?js \<noteq> []" using assms(3) t(2) unfolding unfinished_def by auto
  then obtain x where x: "x \<in> set ?js" "run_of x \<noteq> 0" by (auto simp: filter_empty_conv)
  then have "0 < tickets_of x" using g by (metis order_le_less)
  moreover have "tickets_of x \<le> total_tickets ?js"
    unfolding total_tickets_def using x(1) g(1) by (intro member_le_sum_list) auto
  ultimately have tp: "0 < tix s" using t(1) by simp
  then have "0 \<le> ?w" "?w < total_tickets ?js" using t(1) by simp_all
  then obtain i where i: "i < length ?js" "find_winner ?w 0 ?js = Some (?js ! i)" "0 < tickets_of (?js ! i)" using find_winner_live [OF g(1)] by blast
  then have "lot_slice q k s = Inr (lot_account q (pick_int k 1000001) ?w (?js ! i) s)" using tp by (simp add: lot_slice_def Let_def)
  then show ?thesis using lot_account_inv [OF assms(1,2) i(1,3)] by blast
qed

lemma time_left_nonneg: "good_jobs js \<Longrightarrow> 0 \<le> time_left js"
  unfolding time_left_def good_jobs_def by (intro sum_list_nonneg) auto

lemma lot_loop_ends:
  assumes "lot_inv q T s" and "0 < q" and "0 < left s" and "time_left (lot_jobs s) \<le> int n" and "n \<le> length ds"
  shows "\<exists>s'. lot_loop n q ds s = Inr s' \<and> lot_inv q T s' \<and> left s' = 0"
  using assms
proof (induction n arbitrary: s ds)
  case 0
  obtain s' where "lot_inv q T s'" "time_left (lot_jobs s') < time_left (lot_jobs s)" using lot_slice_ok [OF 0(1-3)] by blast
  then have "0 \<le> time_left (lot_jobs s')" using time_left_nonneg by (simp add: lot_inv_def)
  then show ?case using 0(4) \<open>time_left (lot_jobs s') < time_left (lot_jobs s)\<close> by simp
next
  case (Suc n)
  obtain k ks where ds: "ds = k # ks" using Suc.prems(5) by (cases ds) auto
  obtain s' where s': "lot_slice q k s = Inr s'" "lot_inv q T s'" "time_left (lot_jobs s') < time_left (lot_jobs s)"
    using lot_slice_ok [OF Suc.prems(1-3)] by blast
  show ?case
  proof (cases "left s' = 0")
    case True
    then show ?thesis using s' ds by simp
  next
    case False
    then have "0 < left s'" using s'(2) by (simp add: lot_inv_def)
    then show ?thesis using Suc.IH [OF s'(2) Suc.prems(2), of ks] s' ds False Suc.prems(4,5) by simp
  qed
qed

text \<open>
  C40. When every job has tickets and time to run, the lottery ends within its \<open>runTotal\<close> slices, whatever the draws: all jobs are
  done, and the clock shows the sum of the run times, each rounded up to whole slices.
\<close>

theorem lottery_finishes:
  assumes "lot_numbered js" and "js \<noteq> []" and "\<forall>x \<in> set js. 0 < run_of x \<and> 0 < tickets_of x" and "0 < q"
    and "u = \<lparr>joblist = js, runTotal = time_left js, tickTotal = total_tickets js\<rparr>" and "nat (runTotal u) \<le> length ds"
  shows "\<exists>s. lot_loop (nat (runTotal u)) q ds (lot_start u) = Inr s \<and> left s = 0 \<and> (\<forall>x \<in> set (lot_jobs s). run_of x = 0) \<and> clock s = slices_left q js"
proof -
  have f: "unfinished js = length js" unfolding unfinished_def using assms(3) by (subst filter_True) auto
  have g: "good_jobs js" using assms(1,3) by (auto simp: good_jobs_def less_le)
  have i: "lot_inv q (slices_left q js) (lot_start u)" using f g by (simp add: lot_inv_def lot_start_def assms(5))
  have "time_left (lot_jobs (lot_start u)) \<le> int (nat (runTotal u))" using time_left_nonneg [OF g] by (simp add: lot_start_def assms(5))
  then obtain s where s: "lot_loop (nat (runTotal u)) q ds (lot_start u) = Inr s" "lot_inv q (slices_left q js) s" "left s = 0"
    using lot_loop_ends [OF i assms(4) _ _ assms(6)] assms(2) by (auto simp: lot_start_def assms(5))
  then have z: "\<forall>x \<in> set (lot_jobs s). run_of x = 0" by (auto simp: lot_inv_def unfinished_def filter_empty_conv)
  then have "map (\<lambda>x. in_slices q (run_of x)) (lot_jobs s) = map (\<lambda>x. 0) (lot_jobs s)" using assms(4) by (simp add: in_slices_def)
  then have "slices_left q (lot_jobs s) = 0" by (simp add: slices_left_def del: map_eq_conv)
  then show ?thesis using s z by (simp add: lot_inv_def)
qed

theorem lottery_finishes_witness:
  "\<exists>s. lot_loop 8 2 (replicate 8 3) (lot_start \<lparr>joblist = [(0, 5, 75), (1, 3, 25)], runTotal = 8, tickTotal = 100\<rparr>) = Inr s \<and> clock s = 10"
  using lottery_finishes [of "[(0, 5, 75), (1, 3, 25)]" 2 "\<lparr>joblist = [(0, 5, 75), (1, 3, 25)], runTotal = 8, tickTotal = 100\<rparr>" "replicate 8 3"]
  by (auto simp: lot_numbered_def time_left_def slices_left_def in_slices_def)

text \<open>
  A job without tickets never runs: once all others are done the ticket total is zero, and while jobs and slices are left the program ends with a
  division by zero, for every draw. So ends the list \<open>1:10,1:0\<close>.
\<close>

theorem lottery_no_tickets:
  "lot_loop (Suc n) q (k # ds) (s\<lparr>tix := 0\<rparr>) = Inl ZeroDivisionError \<and>
   lottery_main (lot_defaults\<lparr>jlist := ''1:10,1:0'', solve := True\<rparr>) [k, k'] = Inl ZeroDivisionError"
proof -
  have p: "py_split CHR '','' ''1:10,1:0'' = [''1:10'', ''1:0'']" "py_split CHR '':'' ''1:10'' = [''1'', ''10'']" "py_split CHR '':'' ''1:0'' = [''1'', ''0'']"
    "py_int ''1'' = Inr 1" "py_int ''10'' = Inr 10" "py_int ''0'' = Inr 0" by code_simp+
  have "make_joblist (lot_defaults\<lparr>jlist := ''1:10,1:0'', solve := True\<rparr>) [k, k'] =
      Inr (\<lparr>joblist = [(0, 1, 10), (1, 1, 0)], runTotal = 2, tickTotal = 10\<rparr>, [k, k'])"
    by (simp add: make_joblist_def lot_defaults_def p listed_job_def no_lot_jobs_def add_job_def)
  moreover have "pick_int k 1000001 mod 10 < 10" by simp
  ultimately show ?thesis
    by (simp add: lottery_main_def lot_defaults_def lot_start_def numeral_2_eq_2 lot_slice_def Let_def lot_account_def)
qed

text \<open>
  A random run time is at least 1 and below \<open>maxlen\<close>, never \<open>maxlen\<close> itself; with \<open>maxlen = 1\<close> the loop that draws it never ends.
\<close>

theorem random_length_below_max:
  assumes "\<forall>k \<in> set ds. valid_draw k" and "0 < m"
  shows "(\<forall>v ds'. draw_nonzero m ds = Inr (v, ds') \<longrightarrow> 1 \<le> v \<and> v < m) \<and> (m = 1 \<longrightarrow> draw_nonzero m ds = Inl Out_Of_Draws)"
  using assms(1)
proof (induction ds)
  case (Cons k ks)
  then have "0 \<le> pick_int k m \<and> pick_int k m < m" using pick_int_range [of k m] assms(2) by simp
  then show ?case using Cons by auto
qed simp

theorem random_length_below_max_witness: "draw_nonzero 1 [7, 9] = Inl Out_Of_Draws"
  using random_length_below_max [of "[7, 9]" 1] by (simp add: valid_draw_def)

end
