(* ===== verification/Fork.thy ===== *)
theory Fork
  imports Complex_Main PyString
begin

text \<open>
  The process trees of \<open>cpu-api/fork.py\<close>: the class \<open>Forker\<close> with its tables of children and parents, the generator of names, fork and exit with the two
  ways to give orphans a new parent, the parser of actions, the drawing of the tree and the run. The tables are shown to represent a tree
  on which fork and exit are simple operations, so that the random runs never fail and the drawing shows each process once.
\<close>

section \<open>The state\<close>

text \<open>The value -1 in a table, for a process that is gone, is \<open>None\<close>.\<close>

record forker =
  process_list :: "string list"
  children :: "(string, string list option) dict"
  parents :: "(string, string option) dict"
  curr_names :: "string list"
  curr_index :: nat

record fork_options =
  fork_percentage :: rat
  max_actions :: int
  action_list :: string
  show_tree :: bool
  just_final :: bool
  leaf_only :: bool
  local_reparent :: bool
  print_style :: string
  solve :: bool

definition fork_defaults :: fork_options where
  "fork_defaults = \<lparr>fork_percentage = 7 / 10, max_actions = 5, action_list = [], show_tree = False, just_final = False, leaf_only = False,
     local_reparent = False, print_style = ''fancy'', solve = False\<rparr>"

definition root_name :: string where
  "root_name = ''a''"

definition base_names :: "string list" where
  "base_names = map (\<lambda>c. [c]) ''abcdefghijklmnopqrstuvwxyzABCDEFGHIJKLMNOPQRSTUVWXYZ''"

definition new_forker :: forker where
  "new_forker = \<lparr>process_list = [root_name], children = [(root_name, Some [])], parents = [], curr_names = base_names, curr_index = 1\<rparr>"

definition grow_names :: "forker \<Rightarrow> forker" where
  "grow_names s = s\<lparr>curr_names := concat (map (\<lambda>b1. map (\<lambda>b2. b1 @ b2) base_names) (curr_names s)), curr_index := 0\<rparr>"

definition get_name :: "forker \<Rightarrow> (string \<times> forker) res" where
  "get_name s =
     (let s = (if curr_index s = length (curr_names s) then grow_names s else s)
      in rbind (py_get (curr_names s) (int (curr_index s))) (\<lambda>n. Inr (n, s\<lparr>curr_index := curr_index s + 1\<rparr>)))"

section \<open>The drawing\<close>

text \<open>The pieces in front of a name; each style has its characters for them.\<close>

datatype piece = Indent | Vertical | Blank | Elbow | Tee | Plain

type_synonym line = "piece list \<times> string"

text \<open>The children of a process; a process that is gone has none to go through.\<close>

definition kids :: "string \<Rightarrow> forker \<Rightarrow> string list res" where
  "kids p s = rbind (dict_get (children s) p) (\<lambda>k. case k of None \<Rightarrow> Inl TypeError | Some cs \<Rightarrow> Inr cs)"

type_synonym pmask = "(int, bool) dict"

definition prefix_of :: "nat \<Rightarrow> pmask \<Rightarrow> bool \<Rightarrow> piece list res" where
  "prefix_of level pm is_last =
     (if level = 0 then Inr []
      else rbind (rfold (\<lambda>i ps. rbind (dict_get pm (int i)) (\<lambda>b. Inr (ps @ [if b then Vertical else Blank]))) [0..<level - 1] []) (\<lambda>ps.
        rbind (dict_get pm (int level - 1)) (\<lambda>b. Inr (ps @ [if b then (if is_last then Elbow else Tee) else Plain]))))"

text \<open>The msk is one dictionary that all calls share. The fuel bounds the depth of the recursion.\<close>

primrec walk :: "nat \<Rightarrow> string \<Rightarrow> forker \<Rightarrow> string \<Rightarrow> nat \<Rightarrow> bool \<Rightarrow> pmask \<Rightarrow> (line list \<times> pmask) res" where
  "walk 0 style s p level is_last pm = Inl Out_Of_Fuel"
| "walk (Suc f) style s p level is_last pm =
     (if style = ''basic'' then
        rbind (kids p s) (\<lambda>cs.
        rbind (rfold (\<lambda>c ls. rbind (walk f style s c (level + 1) False []) (\<lambda>(l, _). Inr (ls @ l))) cs [(replicate level Indent, p)]) (\<lambda>ls.
        Inr (ls, pm)))
      else if style \<notin> {''line1'', ''line2'', ''fancy''} then Inl (SystemExit 1)
      else
        rbind (prefix_of level pm is_last) (\<lambda>pre.
        let pm = (if is_last then dict_set (int level - 1) False pm else pm);
            pm = dict_set (int level) True pm
        in rbind (kids p s) (\<lambda>cs.
           rbind (rfold (\<lambda>c (ls, pm). rbind (walk f style s c (level + 1) False pm) (\<lambda>(l, pm). Inr (ls @ l, pm))) (butlast cs) ([(pre, p)], pm)) (\<lambda>(ls, pm).
           rfold (\<lambda>c (ls, pm). rbind (walk f style s c (level + 1) True pm) (\<lambda>(l, pm). Inr (ls @ l, pm))) (drop (length cs - 1) cs) (ls, pm)))))"

definition print_tree :: "nat \<Rightarrow> string \<Rightarrow> forker \<Rightarrow> line list res" where
  "print_tree fuel style s = rbind (walk fuel style s root_name 0 False []) (\<lambda>(ls, _). Inr ls)"

section \<open>Fork and exit\<close>

definition append_child :: "string \<Rightarrow> string \<Rightarrow> forker \<Rightarrow> forker res" where
  "append_child p c s =
     rbind (dict_get (children s) p) (\<lambda>k. case k of
       None \<Rightarrow> Inl AttributeError
     | Some cs \<Rightarrow> Inr (s\<lparr>children := dict_set p (Some (cs @ [c])) (children s)\<rparr>))"

definition do_fork :: "string \<Rightarrow> string \<Rightarrow> forker \<Rightarrow> forker res" where
  "do_fork p c s =
     rbind (append_child p c (s\<lparr>process_list := process_list s @ [c], children := dict_set c (Some []) (children s)\<rparr>)) (\<lambda>s.
     Inr (s\<lparr>parents := dict_set c (Some p) (parents s)\<rparr>))"

primrec collect_children :: "nat \<Rightarrow> forker \<Rightarrow> string \<Rightarrow> string list res" where
  "collect_children 0 s p = Inl Out_Of_Fuel"
| "collect_children (Suc f) s p =
     rbind (kids p s) (\<lambda>cs. rfold (\<lambda>c l. rbind (collect_children f s c) (\<lambda>l'. Inr (l @ l'))) cs [p])"

text \<open>The parent of an exiting process may be -1, which is no key of the table of children.\<close>

definition the_parent :: "string option \<Rightarrow> string res" where
  "the_parent q = (case q of None \<Rightarrow> Inl KeyError | Some q \<Rightarrow> Inr q)"

text \<open>
  The loop over the orphans goes through the list of the exiting process. When that process is its own parent the loop
  appends to the list that it goes through, and never ends.
\<close>

definition local_orphans :: "string \<Rightarrow> string option \<Rightarrow> forker \<Rightarrow> forker res" where
  "local_orphans p exit_parent s =
     rbind (kids p s) (\<lambda>cs.
     if exit_parent = Some p \<and> cs \<noteq> [] then Inl Out_Of_Fuel
     else rfold (\<lambda>orphan s. rbind (the_parent exit_parent) (\<lambda>q.
       append_child q orphan (s\<lparr>parents := dict_set orphan exit_parent (parents s)\<rparr>))) cs s)"

definition root_orphan :: "string \<Rightarrow> forker \<Rightarrow> forker res" where
  "root_orphan d s =
     append_child root_name d (s\<lparr>children := dict_set d (Some []) (children s), parents := dict_set d (Some root_name) (parents s)\<rparr>)"

definition root_orphans :: "nat \<Rightarrow> string \<Rightarrow> forker \<Rightarrow> forker res" where
  "root_orphans fuel p s =
     rbind (collect_children fuel s p) (\<lambda>ds. rbind (py_remove ds p) (\<lambda>ds. rfold root_orphan ds s))"

definition do_exit :: "nat \<Rightarrow> bool \<Rightarrow> string \<Rightarrow> forker \<Rightarrow> forker res" where
  "do_exit fuel loc p s =
     (if p = root_name then Inl (SystemExit 1)
      else rbind (dict_get (parents s) p) (\<lambda>exit_parent.
        rbind (py_remove (process_list s) p) (\<lambda>pl.
        let s = s\<lparr>process_list := pl\<rparr> in
        rbind (if loc then local_orphans p exit_parent s else root_orphans fuel p s) (\<lambda>s.
        rbind (the_parent exit_parent) (\<lambda>q. rbind (dict_get (children s) q) (\<lambda>k. case k of
            None \<Rightarrow> Inl AttributeError
          | Some cs \<Rightarrow> rbind (py_remove cs p) (\<lambda>cs'.
              Inr (s\<lparr>children := dict_set p None (dict_set q (Some cs') (children s)), parents := dict_set p None (parents s)\<rparr>))))))))"

section \<open>The run\<close>

text \<open>One or two names; the text after the sign of an exit is not looked at.\<close>

definition check_legal :: "string \<Rightarrow> string list res" where
  "check_legal a =
     (if CHR ''+'' \<in> set a then (case py_split CHR ''+'' a of [x, y] \<Rightarrow> Inr [x, y] | _ \<Rightarrow> Inl (SystemExit 1))
      else if CHR ''-'' \<in> set a then (case py_split CHR ''-'' a of [x, y] \<Rightarrow> Inr [x] | _ \<Rightarrow> Inl (SystemExit 1))
      else Inl (SystemExit 1))"

text \<open>The random actions. Each round takes two draws, so the recursion is over the draws.\<close>

fun random_actions :: "rat \<Rightarrow> int \<Rightarrow> string list \<Rightarrow> string list \<Rightarrow> forker \<Rightarrow> draw list \<Rightarrow> (string list \<times> forker) res" where
  "random_actions fp n temp acts s (k # k' # ds) =
     (if n \<le> 0 then Inr (acts, s)
      else rbind (py_get temp (int (pick k' (length temp)))) (\<lambda>choice.
        if of_nat k < fp * 2 ^ 53 then
          rbind (get_name s) (\<lambda>(new_child, s). random_actions fp (n - 1) (temp @ [new_child]) (acts @ [choice @ ''+'' @ new_child]) s ds)
        else if choice = root_name then random_actions fp n temp acts s ds
        else random_actions fp (n - 1) (remove1 choice temp) (acts @ [choice @ ''-'']) s ds))"
| "random_actions fp n temp acts s ds = (if n \<le> 0 then Inr (acts, s) else Inl Out_Of_Draws)"

definition run_action :: "nat \<Rightarrow> fork_options \<Rightarrow> string \<Rightarrow> forker \<Rightarrow> (string \<times> forker) res" where
  "run_action fuel opt a s =
     rbind (check_legal a) (\<lambda>tmp.
     if length tmp = 2 then
       if tmp ! 0 \<notin> set (process_list s) then Inl (SystemExit 1)
       else rbind (do_fork (tmp ! 0) (tmp ! 1) s) (\<lambda>s. Inr (tmp ! 0 @ '' forks '' @ tmp ! 1, s))
     else
       if tmp ! 0 \<notin> set (process_list s) then Inl (SystemExit 1)
       else rbind (if leaf_only opt then rbind (kids (tmp ! 0) s) (\<lambda>cs. Inr (cs \<noteq> [])) else Inr False) (\<lambda>has_children.
         if has_children then Inr (tmp ! 0 @ '' EXITS (failed: has children)'', s)
         else rbind (do_exit fuel (local_reparent opt) (tmp ! 0) s) (\<lambda>s. Inr (tmp ! 0 @ '' EXITS'', s))))"

datatype fork_output = Action string | Action_Hidden | Tree "line list" | Tree_Hidden

definition draw_tree :: "nat \<Rightarrow> fork_options \<Rightarrow> forker \<Rightarrow> fork_output list res" where
  "draw_tree fuel opt s = rbind (print_tree fuel (print_style opt) s) (\<lambda>ls. Inr [Tree ls])"

definition report_action :: "nat \<Rightarrow> fork_options \<Rightarrow> string \<Rightarrow> forker \<Rightarrow> fork_output list res" where
  "report_action fuel opt action s =
     (if show_tree opt then
        rbind (if just_final opt then Inr [] else draw_tree fuel opt s) (\<lambda>t. Inr ((if solve opt then Action action else Action_Hidden) # t))
      else
        rbind (if just_final opt then Inr [] else if solve opt then draw_tree fuel opt s else Inr [Tree_Hidden]) (\<lambda>t. Inr (Action action # t)))"

definition report_final :: "nat \<Rightarrow> fork_options \<Rightarrow> forker \<Rightarrow> fork_output list res" where
  "report_final fuel opt s =
     (if just_final opt then (if show_tree opt \<or> solve opt then draw_tree fuel opt s else Inr [Tree_Hidden]) else Inr [])"

definition run_step :: "nat \<Rightarrow> fork_options \<Rightarrow> string \<Rightarrow> fork_output list \<times> forker \<Rightarrow> (fork_output list \<times> forker) res" where
  "run_step fuel opt a = (\<lambda>(out, s).
     rbind (run_action fuel opt a s) (\<lambda>(action, s). rbind (report_action fuel opt action s) (\<lambda>t. Inr (out @ t, s))))"

definition run_actions :: "nat \<Rightarrow> fork_options \<Rightarrow> string list \<Rightarrow> fork_output list \<times> forker \<Rightarrow> (fork_output list \<times> forker) res" where
  "run_actions fuel opt acts st =
     rbind (rfold (run_step fuel opt) acts st) (\<lambda>(out, s). rbind (report_final fuel opt s) (\<lambda>t. Inr (out @ t, s)))"

definition forker_run :: "nat \<Rightarrow> fork_options \<Rightarrow> draw list \<Rightarrow> (fork_output list \<times> forker) res" where
  "forker_run fuel opt ds =
     rbind (draw_tree fuel opt new_forker) (\<lambda>out.
     rbind (if action_list opt \<noteq> [] then Inr (py_split CHR '','' (action_list opt), new_forker)
            else random_actions (fork_percentage opt) (max_actions opt) [root_name] [] new_forker ds) (\<lambda>(acts, s).
     run_actions fuel opt acts (out, s)))"

definition fork_main :: "nat \<Rightarrow> fork_options \<Rightarrow> draw list \<Rightarrow> (fork_output list \<times> forker) res" where
  "fork_main fuel opt ds = (if fork_percentage opt \<le> 1 / 1000 then Inl (SystemExit 1) else forker_run fuel opt ds)"


section \<open>Trees\<close>

datatype ptree = Node (label: string) (subs: "ptree list")

fun names :: "ptree \<Rightarrow> string list" where
  "names (Node n ts) = n # concat (map names ts)"

fun edges :: "ptree \<Rightarrow> (string \<times> string list) list" where
  "edges (Node n ts) = (n, map label ts) # concat (map edges ts)"

fun subtrees :: "ptree \<Rightarrow> ptree list" where
  "subtrees (Node n ts) = Node n ts # concat (map subtrees ts)"

text \<open>Add trees below a process, or take the tree of a process away.\<close>

fun attach :: "string \<Rightarrow> ptree list \<Rightarrow> ptree \<Rightarrow> ptree" where
  "attach q us (Node n ts) = Node n (map (attach q us) ts @ (if n = q then us else []))"

fun prune :: "string \<Rightarrow> ptree \<Rightarrow> ptree" where
  "prune p (Node n ts) = Node n (map (prune p) (filter (\<lambda>t. label t \<noteq> p) ts))"

definition leaf :: "string \<Rightarrow> ptree" where
  "leaf n = Node n []"

text \<open>What fork and exit do to the tree: orphans go to the parent with their own children, or all descendants become children of the root.\<close>

definition subtree :: "string \<Rightarrow> ptree \<Rightarrow> ptree" where
  "subtree p t = (case find (\<lambda>u. label u = p) (subtrees t) of Some u \<Rightarrow> u | None \<Rightarrow> leaf p)"

definition parent_in :: "ptree \<Rightarrow> string \<Rightarrow> string" where
  "parent_in t p = (case find (\<lambda>(q, cs). p \<in> set cs) (edges t) of Some (q, cs) \<Rightarrow> q | None \<Rightarrow> [])"

definition tree_fork :: "string \<Rightarrow> string \<Rightarrow> ptree \<Rightarrow> ptree" where
  "tree_fork p c t = attach p [leaf c] t"

definition tree_exit :: "bool \<Rightarrow> string \<Rightarrow> ptree \<Rightarrow> ptree" where
  "tree_exit loc p t =
     (if loc then attach (parent_in t p) (subs (subtree p t)) (prune p t)
      else attach root_name (map leaf (tl (names (subtree p t)))) (prune p t))"

lemma label_in_names [simp]: "label t \<in> set (names t)"
  by (cases t) simp

lemma map_fst_edges: "map fst (edges t) = names t"
  by (induction t) (simp add: map_concat o_def cong: map_cong)

lemma names_edges: "set (names t) = fst ` set (edges t)"
  by (metis map_fst_edges set_map)

lemma edges_names: "(n, cs) \<in> set (edges t) \<Longrightarrow> n \<in> set (names t)"
  unfolding names_edges by force

lemma edges_total: "n \<in> set (names t) \<Longrightarrow> \<exists>cs. (n, cs) \<in> set (edges t)"
  unfolding names_edges by force

lemma children_names: "(n, cs) \<in> set (edges t) \<Longrightarrow> c \<in> set cs \<Longrightarrow> c \<in> set (names t)"
proof (induction t)
  case (Node m ts)
  then show ?case by (auto simp: image_iff) (metis label_in_names)
qed

lemma names_distinct_edges: "distinct (names t) \<Longrightarrow> (n, cs) \<in> set (edges t) \<Longrightarrow> (n, cs') \<in> set (edges t) \<Longrightarrow> cs = cs'"
  using eq_key_imp_eq_value [of "edges t"] by (simp add: map_fst_edges)

lemma child_has_parent: "c \<in> set (names t) \<Longrightarrow> c = label t \<or> (\<exists>n cs. (n, cs) \<in> set (edges t) \<and> c \<in> set cs)"
proof (induction t)
  case (Node m ts)
  show ?case
  proof (cases "c = m")
    case False
    then obtain t where t: "t \<in> set ts" "c \<in> set (names t)" using Node.prems by auto
    show ?thesis
    proof (cases "c = label t")
      case True
      then show ?thesis using t(1) by (auto intro!: exI [of _ m] exI [of _ "map label ts"])
    next
      case False
      then obtain n cs where "(n, cs) \<in> set (edges t)" "c \<in> set cs" using Node.IH [OF t] by blast
      then show ?thesis using t(1) by (auto intro!: exI [of _ n] exI [of _ cs])
    qed
  qed simp
qed

text \<open>A process occurs once as a child, never as the root, when the names are distinct.\<close>

lemma mset_children: "mset (names t) = add_mset (label t) (mset (concat (map snd (edges t))))"
proof (induction t)
  case (Node m ts)
  have "mset (concat (map names us)) = mset (map label us) + mset (concat (map snd (concat (map edges us))))" if "set us \<subseteq> set ts" for us
    using that
  proof (induction us)
    case (Cons u us)
    then show ?case using Node.IH [of u] by simp
  qed simp
  then show ?case by simp
qed

lemma distinct_mset: "mset xs = mset ys \<Longrightarrow> distinct xs = distinct ys"
  by (rule mset_eq_imp_distinct_iff)

lemma distinct_children:
  assumes "distinct (names t)"
  shows "distinct (concat (map snd (edges t)))" and "label t \<notin> set (concat (map snd (edges t)))"
proof -
  have "distinct (label t # concat (map snd (edges t)))"
    using assms mset_children [of t] distinct_mset [of "names t" "label t # concat (map snd (edges t))"] by simp
  then show "distinct (concat (map snd (edges t)))" "label t \<notin> set (concat (map snd (edges t)))" by auto
qed

lemma distinct_concat_once:
  assumes "distinct (concat (map snd es))" and "(n, cs) \<in> set es" and "(m, ds) \<in> set es" and "c \<in> set cs" and "c \<in> set ds"
  shows "(n, cs) = (m, ds)"
  using assms
proof (induction es)
  case (Cons e es)
  then show ?case by (cases e) force
qed simp

lemma one_parent:
  "distinct (names t) \<Longrightarrow> (n, cs) \<in> set (edges t) \<Longrightarrow> c \<in> set cs \<Longrightarrow> (m, ds) \<in> set (edges t) \<Longrightarrow> c \<in> set ds \<Longrightarrow> n = m \<and> cs = ds"
  using distinct_concat_once [OF distinct_children(1)] by blast

lemma root_no_child: "distinct (names t) \<Longrightarrow> (n, cs) \<in> set (edges t) \<Longrightarrow> label t \<notin> set cs"
  using distinct_children(2) [of t] by force

lemma distinct_cs: "distinct (names t) \<Longrightarrow> (n, cs) \<in> set (edges t) \<Longrightarrow> distinct cs"
  using distinct_children(1) [of t] by (auto simp: distinct_concat_iff)

lemma label_attach [simp]: "label (attach q us t) = label t"
  by (cases t) simp

lemma label_prune [simp]: "label (prune p t) = label t"
  by (cases t) simp

lemma attach_absent: "q \<notin> set (names t) \<Longrightarrow> attach q us t = t"
  by (induction t) (auto intro: map_idI)

lemma prune_absent: "p \<notin> set (names t) \<Longrightarrow> prune p t = t"
proof (induction t)
  case (Node n ts)
  have "filter (\<lambda>t. label t \<noteq> p) ts = ts" using Node.prems label_in_names by (force simp: filter_id_conv)
  then show ?case using Node by (auto intro: map_idI)
qed

text \<open>The child of a node under which a name lies.\<close>

lemma split_children:
  assumes "distinct (concat (map names ts))" and "q \<in> set (concat (map names ts))"
  obtains as t bs where "ts = as @ t # bs" "q \<in> set (names t)" "\<forall>u \<in> set as. q \<notin> set (names u)" "\<forall>u \<in> set bs. q \<notin> set (names u)"
proof -
  obtain t where t: "t \<in> set ts" "q \<in> set (names t)" using assms(2) by auto
  obtain as bs where ts: "ts = as @ t # bs" using t(1) by (meson split_list)
  have "\<forall>u \<in> set as. q \<notin> set (names u)" "\<forall>u \<in> set bs. q \<notin> set (names u)" using assms(1) t(2) ts by auto
  then show ?thesis by (rule that [OF ts t(2)])
qed

lemma attach_list:
  assumes "\<forall>u \<in> set as. q \<notin> set (names u)" and "\<forall>u \<in> set bs. q \<notin> set (names u)"
  shows "map (attach q us) (as @ t # bs) = as @ attach q us t # bs"
  using assms by (auto intro: map_idI attach_absent)

lemma mset_names_attach:
  assumes "distinct (names t)" and "q \<in> set (names t)"
  shows "mset (names (attach q us t)) = mset (names t) + mset (concat (map names us))"
  using assms
proof (induction t)
  case (Node n ts)
  show ?case
  proof (cases "n = q")
    case True
    then have "map (attach q us) ts = ts" using Node.prems(1) by (auto intro!: map_idI attach_absent)
    then show ?thesis using True by simp
  next
    case False
    then obtain as t bs where ts: "ts = as @ t # bs" "q \<in> set (names t)" "\<forall>u \<in> set as. q \<notin> set (names u)" "\<forall>u \<in> set bs. q \<notin> set (names u)"
      using split_children [of ts q] Node.prems by auto
    have "map (attach q us) ts = as @ attach q us t # bs" using attach_list [OF ts(3,4)] ts(1) by simp
    moreover have "mset (names (attach q us t)) = mset (names t) + mset (concat (map names us))" using Node.IH [of t] ts(1,2) Node.prems(1) by simp
    ultimately show ?thesis using False ts(1) by simp
  qed
qed

lemma edges_attach:
  assumes "distinct (names t)" and "(n, cs) \<in> set (edges (attach q us t))" and "q \<in> set (names t)"
  shows "(n \<noteq> q \<and> (n, cs) \<in> set (edges t)) \<or> (n = q \<and> (\<exists>cs0. (q, cs0) \<in> set (edges t) \<and> cs = cs0 @ map label us)) \<or> (\<exists>u \<in> set us. (n, cs) \<in> set (edges u))"
  using assms
proof (induction t)
  case (Node m ts)
  show ?case
  proof (cases "m = q")
    case True
    then have id: "map (attach q us) ts = ts" using Node.prems(1) by (auto intro!: map_idI attach_absent)
    have ne: "n \<noteq> q" if "t \<in> set ts" "(n, cs) \<in> set (edges t)" for t using that edges_names [OF that(2)] Node.prems(1) True by auto
    show ?thesis using Node.prems(2) True id ne by auto
  next
    case False
    then obtain as t bs where ts: "ts = as @ t # bs" "q \<in> set (names t)" "\<forall>u \<in> set as. q \<notin> set (names u)" "\<forall>u \<in> set bs. q \<notin> set (names u)"
      using split_children [of ts q] Node.prems by auto
    have m: "map (attach q us) ts = as @ attach q us t # bs" using attach_list [OF ts(3,4)] ts(1) by simp
    have e: "attach q us (Node m ts) = Node m (as @ attach q us t # bs)" using m False by simp
    have ne: "n \<noteq> q" if "u \<in> set as \<union> set bs" "(n, cs) \<in> set (edges u)" for u using edges_names [OF that(2)] that(1) ts(3,4) by auto
    have "(n, cs) = (m, map label ts) \<or> (\<exists>u \<in> set as \<union> set bs. (n, cs) \<in> set (edges u)) \<or> (n, cs) \<in> set (edges (attach q us t))"
      using Node.prems(2) unfolding e by (auto simp: ts(1))
    then show ?thesis
    proof (elim disjE)
      assume "(n, cs) \<in> set (edges (attach q us t))"
      then show ?thesis using Node.IH [of t] ts(1,2) Node.prems(1) by auto
    qed (use False ts(1) ne in auto)
  qed
qed

lemma prune_list: "\<forall>u \<in> set us. p \<notin> set (names u) \<Longrightarrow> map (prune p) (filter (\<lambda>t. label t \<noteq> p) us) = us"
proof (induction us)
  case (Cons u us)
  then have "label u \<noteq> p" using label_in_names [of u] by auto
  then show ?case using Cons by (simp add: prune_absent)
qed simp

text \<open>Taking the tree of a process away divides the names.\<close>

lemma prune_names:
  assumes "distinct (names t)" and "p \<in> set (names t)" and "p \<noteq> label t"
  shows "\<exists>u \<in> set (subtrees t). label u = p \<and> mset (names t) = mset (names (prune p t)) + mset (names u)"
  using assms
proof (induction t)
  case (Node n ts)
  obtain as t bs where ts: "ts = as @ t # bs" "p \<in> set (names t)" "\<forall>u \<in> set as. p \<notin> set (names u)" "\<forall>u \<in> set bs. p \<notin> set (names u)"
    using split_children [of ts p] Node.prems by auto
  have m: "map (prune p) (filter (\<lambda>t. label t \<noteq> p) ts) = as @ (if label t = p then [] else [prune p t]) @ bs"
    using ts prune_list [OF ts(3)] prune_list [OF ts(4)] by simp
  show ?case
  proof (cases "label t = p")
    case True
    have "t \<in> set (subtrees t)" by (cases t) simp
    then show ?thesis using True m ts(1) by auto
  next
    case False
    then obtain u where "u \<in> set (subtrees t)" "label u = p" "mset (names t) = mset (names (prune p t)) + mset (names u)"
      using Node.IH [of t] ts(1,2) Node.prems(1) by auto
    then show ?thesis using False m ts(1) by (auto intro!: bexI [of _ u])
  qed
qed

lemma edges_prune: "(n, cs) \<in> set (edges (prune p t)) \<Longrightarrow> \<exists>cs0. (n, cs0) \<in> set (edges t) \<and> cs = filter (\<lambda>c. c \<noteq> p) cs0"
proof (induction t)
  case (Node m ts)
  have "map label (map (prune p) (filter (\<lambda>t. label t \<noteq> p) ts)) = filter (\<lambda>c. c \<noteq> p) (map label ts)"
    by (simp add: o_def filter_map cong: map_cong)
  then show ?case using Node by (auto simp: o_def) blast+
qed

lemma edges_subtree: "u \<in> set (subtrees t) \<Longrightarrow> set (edges u) \<subseteq> set (edges t)"
  by (induction t) auto

lemma names_subtree: "u \<in> set (subtrees t) \<Longrightarrow> set (names u) \<subseteq> set (names t)"
  using edges_subtree [of u t] unfolding names_edges by blast

lemma subtree_edges: "u \<in> set (subtrees t) \<Longrightarrow> (label u, map label (subs u)) \<in> set (edges t)"
  using edges_subtree [of u t] by (cases u) auto


section \<open>The tables represent a tree\<close>

definition matches :: "forker \<Rightarrow> ptree \<Rightarrow> bool" where
  "matches s t \<longleftrightarrow> (\<forall>(n, cs) \<in> set (edges t). map_of (children s) n = Some (Some cs) \<and> (\<forall>c \<in> set cs. map_of (parents s) c = Some (Some n)))"

definition represents :: "forker \<Rightarrow> ptree \<Rightarrow> bool" where
  "represents s t \<longleftrightarrow>
     label t = root_name \<and> distinct (names t) \<and> distinct (process_list s) \<and> set (process_list s) = set (names t) \<and> matches s t"

lemma matches_kids: "matches s t \<Longrightarrow> (n, cs) \<in> set (edges t) \<Longrightarrow> kids n s = Inr cs"
  by (force simp: matches_def kids_def dict_get_def)

lemma matches_Node:
  assumes "matches s (Node n ts)"
  shows "kids n s = Inr (map label ts)" and "u \<in> set ts \<Longrightarrow> matches s u"
  using assms matches_kids [OF assms, of n "map label ts"] by (auto simp: matches_def)

lemma represents_length: "represents s t \<Longrightarrow> length (names t) = length (process_list s)"
  unfolding represents_def by (metis distinct_card)

lemma rfold_collect:
  assumes "\<And>u. u \<in> set us \<Longrightarrow> g (label u) = Inr (h u)"
  shows "rfold (\<lambda>c l. rbind (g c) (\<lambda>l'. Inr (l @ l'))) (map label us) acc = Inr (acc @ concat (map h us))"
  using assms by (induction us arbitrary: acc) auto

lemma names_child: "u \<in> set ts \<Longrightarrow> length (names u) < length (names (Node n ts))"
  by (induction ts) (auto simp: less_Suc_eq_le intro: le_trans)

lemma collect_ok: "matches s t \<Longrightarrow> length (names t) \<le> fuel \<Longrightarrow> collect_children fuel s (label t) = Inr (names t)"
proof (induction t arbitrary: fuel)
  case (Node n ts)
  then obtain f where f: "fuel = Suc f" by (cases fuel) auto
  have "collect_children f s (label u) = Inr (names u)" if "u \<in> set ts" for u
    using Node.IH [OF that, of f] matches_Node(2) [OF Node.prems(1) that] names_child [OF that, of n] Node.prems(2) f by simp
  then show ?case using matches_Node(1) [OF Node.prems(1)] rfold_collect [of ts "collect_children f s" names "[n]"] f by simp
qed

section \<open>The drawing is that of the tree\<close>

text \<open>A msk says for every level above whether its line goes on.\<close>

definition prefix_spec :: "bool list \<Rightarrow> bool \<Rightarrow> piece list" where
  "prefix_spec msk is_last =
     (if msk = [] then []
      else map (\<lambda>b. if b then Vertical else Blank) (butlast msk) @ [if last msk then (if is_last then Elbow else Tee) else Plain])"

definition mask_below :: "bool list \<Rightarrow> bool \<Rightarrow> bool list" where
  "mask_below msk is_last = (if is_last then msk[length msk - 1 := False] else msk) @ [True]"

fun tree_lines :: "bool list \<Rightarrow> bool \<Rightarrow> ptree \<Rightarrow> line list" and forest_lines :: "bool list \<Rightarrow> ptree list \<Rightarrow> line list" where
  "tree_lines msk is_last (Node n ts) = (prefix_spec msk is_last, n) # forest_lines (mask_below msk is_last) ts"
| "forest_lines msk [] = []"
| "forest_lines msk [t] = tree_lines msk True t"
| "forest_lines msk (t # u # us) = tree_lines msk False t @ forest_lines msk (u # us)"

fun basic_lines :: "nat \<Rightarrow> ptree \<Rightarrow> line list" where
  "basic_lines level (Node n ts) = (replicate level Indent, n) # concat (map (basic_lines (level + 1)) ts)"

lemma forest_lines_snoc: "forest_lines msk (us @ [v]) = concat (map (tree_lines msk False) us) @ tree_lines msk True v"
proof (induction us)
  case (Cons u us)
  then show ?case by (cases us) auto
qed simp

lemma tree_lines_names:
  "map snd (tree_lines msk is_last t) = names t"
  "map snd (forest_lines msk ts) = concat (map names ts)"
  by (induction msk is_last t and msk ts rule: tree_lines_forest_lines.induct) auto

lemma basic_lines_names: "map snd (basic_lines level t) = names t"
  by (induction t arbitrary: level) (simp add: map_concat o_def cong: map_cong)

lemma walk_basic: "matches s t \<Longrightarrow> length (names t) \<le> fuel \<Longrightarrow> walk fuel ''basic'' s (label t) level is_last pm = Inr (basic_lines level t, pm)"
proof (induction t arbitrary: fuel level is_last pm)
  case (Node n ts)
  then obtain f where f: "fuel = Suc f" by (cases fuel) auto
  have w: "walk f ''basic'' s (label u) (level + 1) False [] = Inr (basic_lines (level + 1) u, [])" if "u \<in> set ts" for u
    using Node.IH [OF that, of f] matches_Node(2) [OF Node.prems(1) that] names_child [OF that, of n] Node.prems(2) f by simp
  have "rfold (\<lambda>c ls. rbind (walk f ''basic'' s c (level + 1) False []) (\<lambda>(l, _). Inr (ls @ l))) (map label us) acc =
      Inr (acc @ concat (map (basic_lines (level + 1)) us))" if "set us \<subseteq> set ts" for us acc
    using that by (induction us arbitrary: acc) (auto simp: w [simplified])
  from this [of ts "[(replicate level Indent, n)]"] show ?case using matches_Node(1) [OF Node.prems(1)] f by simp
qed

text \<open>The shared msk agrees with the msk of the specification.\<close>

definition mask_is :: "pmask \<Rightarrow> bool list \<Rightarrow> bool" where
  "mask_is pm msk \<longleftrightarrow> (\<forall>i < length msk. map_of pm (int i) = Some (msk ! i))"

lemma prefix_ok:
  assumes "mask_is pm msk"
  shows "prefix_of (length msk) pm is_last = Inr (prefix_spec msk is_last)"
proof (cases "msk = []")
  case False
  have g: "dict_get pm (int i) = Inr (msk ! i)" if "i < length msk" for i using assms that by (simp add: mask_is_def dict_get_def)
  have r: "rfold (\<lambda>i ps. rbind (dict_get pm (int i)) (\<lambda>b. Inr (ps @ [if b then Vertical else Blank]))) [0..<n] [] =
      Inr (map (\<lambda>b. if b then Vertical else Blank) (take n msk))" if "n \<le> length msk" for n
    using that by (induction n) (simp_all add: rfold_append g take_Suc_conv_app_nth)
  have "int (length msk) - 1 = int (length msk - 1)" using False by (simp add: of_nat_diff Suc_leI)
  then have "dict_get pm (int (length msk) - 1) = dict_get pm (int (length msk - 1))" by (simp only:)
  also have "\<dots> = Inr (msk ! (length msk - 1))" by (rule g) (use False in simp)
  finally have l: "dict_get pm (int (length msk) - 1) = Inr (last msk)" using False by (simp add: last_conv_nth)
  show ?thesis using False l r [of "length msk - 1"] by (simp add: prefix_of_def prefix_spec_def butlast_conv_take)
qed (simp add: prefix_of_def prefix_spec_def)

lemma walk_fancy:
  assumes "style \<in> {''line1'', ''line2'', ''fancy''}"
  shows "matches s t \<Longrightarrow> length (names t) \<le> fuel \<Longrightarrow> mask_is pm msk \<Longrightarrow> (is_last \<longrightarrow> msk \<noteq> []) \<Longrightarrow>
    \<exists>pm'. walk fuel style s (label t) (length msk) is_last pm = Inr (tree_lines msk is_last t, pm') \<and>
      mask_is pm' (if is_last then msk[length msk - 1 := False] else msk)"
proof (induction t arbitrary: fuel msk is_last pm)
  case (Node n ts)
  let ?m = "mask_below msk is_last"
  obtain f where f: "fuel = Suc f" using Node.prems(2) by (cases fuel) auto
  let ?pm = "dict_set (int (length msk)) True (if is_last then dict_set (int (length msk) - 1) False pm else pm)"
  have lm: "length ?m = length msk + 1" by (simp add: mask_below_def)
  have pm: "mask_is ?pm ?m"
    unfolding mask_is_def
  proof (intro allI impI)
    fix i assume i: "i < length ?m"
    show "map_of ?pm (int i) = Some (?m ! i)"
    proof (cases "i = length msk")
      case False
      then have il: "i < length msk" using i lm by simp
      have "int i = int (length msk) - 1 \<longleftrightarrow> i = length msk - 1" using il by linarith
      then show ?thesis using il Node.prems(3) False by (simp add: mask_is_def mask_below_def nth_append nth_list_update)
    qed (simp add: mask_below_def nth_append)
  qed
  have w: "\<exists>pm'. walk f style s (label u) (length ?m) l pm = Inr (tree_lines ?m l u, pm') \<and> mask_is pm' (if l then ?m[length ?m - 1 := False] else ?m)"
    if "u \<in> set ts" "mask_is pm ?m" for u l pm
    using Node.IH [OF that(1), of f pm ?m l] matches_Node(2) [OF Node.prems(1) that(1)] names_child [OF that(1), of n] Node.prems(2) f that(2) lm
    by (auto simp: mask_below_def)
  let ?go = "\<lambda>l c (ls, pm). rbind (walk f style s c (length msk + 1) l pm) (\<lambda>(l, pm). Inr (ls @ l, pm))"
  have loop: "\<exists>pm'. rfold (?go False) (map label us) (acc, pm) = Inr (acc @ concat (map (tree_lines ?m False) us), pm') \<and> mask_is pm' ?m"
    if "set us \<subseteq> set ts" "mask_is pm ?m" for us acc pm
    using that
  proof (induction us arbitrary: acc pm)
    case (Cons u us)
    obtain pm1 where "walk f style s (label u) (length ?m) False pm = Inr (tree_lines ?m False u, pm1)" "mask_is pm1 ?m" using w [of u pm False] Cons.prems by auto
    then show ?case using Cons.IH [of pm1 "acc @ tree_lines ?m False u"] Cons.prems(1) lm by simp
  qed simp
  have res: "\<exists>pm'. rbind (rfold (?go False) (butlast (map label ts)) ([(prefix_spec msk is_last, n)], ?pm)) (rfold (?go True) (drop (length ts - 1) (map label ts))) =
      Inr (tree_lines msk is_last (Node n ts), pm') \<and> mask_is pm' (if is_last then msk[length msk - 1 := False] else msk)"
  proof (cases ts rule: rev_cases)
    case Nil
    have "mask_is ?pm (if is_last then msk[length msk - 1 := False] else msk)" using pm by (auto simp: mask_is_def mask_below_def nth_append)
    then show ?thesis using Nil by simp
  next
    case (snoc us v)
    obtain pm1 where 1: "rfold (?go False) (map label us) ([(prefix_spec msk is_last, n)], ?pm) =
        Inr ([(prefix_spec msk is_last, n)] @ concat (map (tree_lines ?m False) us), pm1)" "mask_is pm1 ?m"
      using loop [of us ?pm "[(prefix_spec msk is_last, n)]"] pm snoc by auto
    obtain pm2 where 2: "walk f style s (label v) (length ?m) True pm1 = Inr (tree_lines ?m True v, pm2)" "mask_is pm2 (?m[length ?m - 1 := False])"
      using w [of v pm1 True] 1(2) snoc by auto
    have "mask_is pm2 (if is_last then msk[length msk - 1 := False] else msk)"
      using 2(2) by (auto simp: mask_is_def mask_below_def nth_append list_update_append split: if_splits)
    then show ?thesis using 1 2 snoc lm by (simp add: forest_lines_snoc)
  qed
  show ?case using res matches_Node(1) [OF Node.prems(1)] f prefix_ok [OF Node.prems(3)] assms
    by (auto simp: Let_def split_beta)
qed

lemma print_tree_ok:
  assumes "represents s t" and "style \<in> {''basic'', ''line1'', ''line2'', ''fancy''}" and "length (process_list s) \<le> fuel"
  shows "print_tree fuel style s = Inr (if style = ''basic'' then basic_lines 0 t else tree_lines [] False t)"
proof -
  have m: "matches s t" "label t = root_name" "length (names t) \<le> fuel" using assms represents_length by (auto simp: represents_def)
  show ?thesis
  proof (cases "style = ''basic''")
    case True
    then show ?thesis using walk_basic [OF m(1,3), of 0] m(2) by (simp add: print_tree_def)
  next
    case False
    then show ?thesis using walk_fancy [of style s t fuel "[]" "[]" False] m assms(2) by (auto simp: print_tree_def mask_is_def)
  qed
qed


section \<open>Fork and exit on the tree\<close>

definition holds :: "forker \<Rightarrow> string \<Rightarrow> string list \<Rightarrow> bool" where
  "holds s n cs \<longleftrightarrow> map_of (children s) n = Some (Some cs) \<and> (\<forall>c \<in> set cs. map_of (parents s) c = Some (Some n))"

lemma matches_holds: "matches s t \<longleftrightarrow> (\<forall>n cs. (n, cs) \<in> set (edges t) \<longrightarrow> holds s n cs)"
  unfolding matches_def holds_def by blast

lemma matches_attach:
  assumes "distinct (names t)" and "q \<in> set (names t)"
    and "\<And>n cs. (n, cs) \<in> set (edges t) \<Longrightarrow> n \<noteq> q \<Longrightarrow> holds s n cs" and "\<And>cs. (q, cs) \<in> set (edges t) \<Longrightarrow> holds s q (cs @ map label us)"
    and "\<And>u. u \<in> set us \<Longrightarrow> matches s u"
  shows "matches s (attach q us t)"
  unfolding matches_holds
proof (intro allI impI)
  fix n cs assume "(n, cs) \<in> set (edges (attach q us t))"
  from edges_attach [OF assms(1) this assms(2)] show "holds s n cs"
    using assms(3,4) assms(5) unfolding matches_holds by blast
qed

lemma fork_ok:
  assumes "represents s t" and "p \<in> set (process_list s)" and "c \<notin> set (process_list s)"
  shows "\<exists>s'. do_fork p c s = Inr s' \<and> represents s' (tree_fork p c t) \<and> process_list s' = process_list s @ [c] \<and>
    curr_names s' = curr_names s \<and> curr_index s' = curr_index s"
proof -
  have r: "label t = root_name" "distinct (names t)" "distinct (process_list s)" "set (process_list s) = set (names t)" "matches s t"
    using assms(1) by (auto simp: represents_def)
  have pt: "p \<in> set (names t)" and ct: "c \<notin> set (names t)" using assms(2,3) r(4) by auto
  then have pc: "p \<noteq> c" by auto
  obtain cs0 where cs0: "(p, cs0) \<in> set (edges t)" using edges_total [OF pt] by blast
  then have k: "map_of (children s) p = Some (Some cs0)" using r(5) by (force simp: matches_def)
  let ?s' = "s\<lparr>process_list := process_list s @ [c], children := dict_set p (Some (cs0 @ [c])) (dict_set c (Some []) (children s)), parents := dict_set c (Some p) (parents s)\<rparr>"
  have d: "do_fork p c s = Inr ?s'" using k pc by (simp add: do_fork_def append_child_def dict_get_def)
  have "matches ?s' (attach p [leaf c] t)"
  proof (rule matches_attach [OF r(2) pt])
    fix n cs assume e: "(n, cs) \<in> set (edges t)" "n \<noteq> p"
    then have "n \<noteq> c" "c \<notin> set cs" using edges_names children_names ct by blast+
    then show "holds ?s' n cs" using e r(5) by (auto simp: matches_holds holds_def)
  next
    fix cs assume e: "(p, cs) \<in> set (edges t)"
    then have "cs = cs0" "c \<notin> set cs" using names_distinct_edges [OF r(2) e cs0] children_names [OF e] ct by blast+
    then show "holds ?s' p (cs @ map label [leaf c])" using e r(5) by (auto simp: matches_holds holds_def leaf_def)
  next
    fix u assume "u \<in> set [leaf c]"
    then show "matches ?s' u" using pc by (simp add: matches_def leaf_def)
  qed
  moreover have m: "mset (names (attach p [leaf c] t)) = mset (c # names t)" using mset_names_attach [OF r(2) pt, of "[leaf c]"] by (simp add: leaf_def)
  moreover have "distinct (names (attach p [leaf c] t))" using distinct_mset [OF m] ct r(2) by simp
  moreover have "set (names (attach p [leaf c] t)) = insert c (set (names t))" using mset_eq_setD [OF m] by simp
  ultimately have "represents ?s' (tree_fork p c t)" using r(1,3,4) assms(3) by (simp add: represents_def tree_fork_def)
  then show ?thesis using d by auto
qed

lemma labels_subtrees: "map label (subtrees t) = names t"
  by (induction t) (simp add: map_concat o_def cong: map_cong)

lemma find_unique:
  assumes "x \<in> set xs" and "P x" and "\<And>y. y \<in> set xs \<Longrightarrow> P y \<Longrightarrow> y = x"
  shows "find P xs = Some x"
proof (cases "find P xs")
  case None
  then show ?thesis using assms(1,2) by (simp add: find_None_iff)
next
  case (Some y)
  then have "y \<in> set xs" "P y" by (auto simp: find_Some_iff)
  then show ?thesis using assms(3) Some by simp
qed

lemma subtree_eq: "distinct (names t) \<Longrightarrow> u \<in> set (subtrees t) \<Longrightarrow> subtree (label u) t = u"
proof -
  assume a: "distinct (names t)" "u \<in> set (subtrees t)"
  have "distinct (map label (subtrees t))" using a(1) by (simp only: labels_subtrees)
  then have "inj_on label (set (subtrees t))" by (simp only: distinct_map)
  then have "find (\<lambda>v. label v = label u) (subtrees t) = Some u" using a(2) by (intro find_unique) (auto dest: inj_onD)
  then show ?thesis by (simp add: subtree_def)
qed

lemma parent_eq: "distinct (names t) \<Longrightarrow> (q, cs) \<in> set (edges t) \<Longrightarrow> p \<in> set cs \<Longrightarrow> parent_in t p = q"
proof -
  assume a: "distinct (names t)" "(q, cs) \<in> set (edges t)" "p \<in> set cs"
  have "find (\<lambda>(q, cs). p \<in> set cs) (edges t) = Some (q, cs)"
  proof (rule find_unique [OF a(2)])
    fix e assume "e \<in> set (edges t)" "case e of (q, cs) \<Rightarrow> p \<in> set cs"
    then show "e = (q, cs)" using one_parent [OF a] by (cases e) auto
  qed (use a in simp)
  then show ?thesis by (simp add: parent_in_def)
qed

text \<open>What a process in the tree, other than the root, leaves behind.\<close>

lemma exit_parts:
  assumes "represents s t" and "p \<in> set (process_list s)" and "p \<noteq> root_name"
  obtains u q cs where "u = subtree p t" "label u = p" "mset (names t) = mset (names (prune p t)) + mset (names u)" "set (edges u) \<subseteq> set (edges t)"
    "(q, cs) \<in> set (edges t)" "p \<in> set cs" "q = parent_in t p" "q \<in> set (names (prune p t))" "q \<notin> set (names u)" "(p, map label (subs u)) \<in> set (edges t)"
proof -
  have r: "label t = root_name" "distinct (names t)" "set (process_list s) = set (names t)" using assms(1) by (auto simp: represents_def)
  have pt: "p \<in> set (names t)" "p \<noteq> label t" using assms(2,3) r by auto
  obtain u where u: "u \<in> set (subtrees t)" "label u = p" "mset (names t) = mset (names (prune p t)) + mset (names u)"
    using prune_names [OF r(2) pt] by blast
  obtain q cs where q: "(q, cs) \<in> set (edges t)" "p \<in> set cs" using child_has_parent [OF pt(1)] pt(2) by blast
  have du: "distinct (names u)" using r(2) u(3) by (metis distinct_append distinct_mset mset_append)
  have qu: "q \<notin> set (names u)"
  proof
    assume "q \<in> set (names u)"
    then obtain cs' where "(q, cs') \<in> set (edges u)" using edges_total by blast
    moreover from this have "cs' = cs" using edges_subtree [OF u(1)] names_distinct_edges [OF r(2) _ q(1)] by blast
    ultimately show False using root_no_child [OF du] q(2) u(2) by blast
  qed
  have "q \<in> set (names t)" using edges_names [OF q(1)] .
  then have "q \<in> set (names (prune p t))" using qu arg_cong [OF u(3), of set_mset] by auto
  then show ?thesis
    using that [OF _ u(2,3) edges_subtree [OF u(1)] q _ _ qu] subtree_eq [OF r(2) u(1)] parent_eq [OF r(2) q] subtree_edges [OF u(1)] u(2) by simp
qed

lemma remove_filter: "distinct cs \<Longrightarrow> p \<in> set cs \<Longrightarrow> remove1 p (cs @ os) = filter (\<lambda>c. c \<noteq> p) cs @ os"
proof (induction cs)
  case (Cons c cs)
  have "filter (\<lambda>c. c \<noteq> p) cs = cs" if "p \<notin> set cs" using that by (auto simp: filter_id_conv)
  then show ?case using Cons by auto
qed simp


lemma local_loop:
  assumes "map_of (children s) q = Some (Some cs)"
  shows "\<exists>s'. rfold (\<lambda>orphan s. rbind (the_parent (Some q)) (\<lambda>r. append_child r orphan (s\<lparr>parents := dict_set orphan (Some q) (parents s)\<rparr>))) os s = Inr s' \<and>
    map_of (children s') = (map_of (children s))(q \<mapsto> Some (cs @ os)) \<and>
    map_of (parents s') = (\<lambda>x. if x \<in> set os then Some (Some q) else map_of (parents s) x) \<and>
    process_list s' = process_list s \<and> curr_names s' = curr_names s \<and> curr_index s' = curr_index s"
  using assms
proof (induction os arbitrary: s cs)
  case Nil
  then show ?case by (auto simp: fun_eq_iff)
next
  case (Cons x os)
  let ?s1 = "s\<lparr>parents := dict_set x (Some q) (parents s), children := dict_set q (Some (cs @ [x])) (children s)\<rparr>"
  have a: "append_child q x (s\<lparr>parents := dict_set x (Some q) (parents s)\<rparr>) = Inr ?s1" using Cons.prems by (simp add: append_child_def dict_get_def)
  have pre: "map_of (children ?s1) q = Some (Some (cs @ [x]))" by simp
  obtain s' where "rfold (\<lambda>orphan s. rbind (the_parent (Some q)) (\<lambda>r. append_child r orphan (s\<lparr>parents := dict_set orphan (Some q) (parents s)\<rparr>))) os ?s1 = Inr s'"
    "map_of (children s') = (map_of (children ?s1))(q \<mapsto> Some ((cs @ [x]) @ os))"
    "map_of (parents s') = (\<lambda>y. if y \<in> set os then Some (Some q) else map_of (parents ?s1) y)"
    "process_list s' = process_list ?s1 \<and> curr_names s' = curr_names ?s1 \<and> curr_index s' = curr_index ?s1"
    using Cons.IH [OF pre] by blast
  then show ?case using a by (simp add: the_parent_def fun_eq_iff)
qed

lemma root_loop:
  assumes "map_of (children s) root_name = Some (Some cs)" and "root_name \<notin> set ds"
  shows "\<exists>s'. rfold root_orphan ds s = Inr s' \<and>
    map_of (children s') = (\<lambda>x. if x = root_name then Some (Some (cs @ ds)) else if x \<in> set ds then Some (Some []) else map_of (children s) x) \<and>
    map_of (parents s') = (\<lambda>x. if x \<in> set ds then Some (Some root_name) else map_of (parents s) x) \<and>
    process_list s' = process_list s \<and> curr_names s' = curr_names s \<and> curr_index s' = curr_index s"
  using assms
proof (induction ds arbitrary: s cs)
  case Nil
  then show ?case by (auto simp: fun_eq_iff)
next
  case (Cons x ds)
  let ?s1 = "s\<lparr>children := dict_set root_name (Some (cs @ [x])) (dict_set x (Some []) (children s)), parents := dict_set x (Some root_name) (parents s)\<rparr>"
  have a: "root_orphan x s = Inr ?s1" using Cons.prems by (simp add: root_orphan_def append_child_def dict_get_def)
  have pre: "map_of (children ?s1) root_name = Some (Some (cs @ [x]))" by simp
  obtain s' where "rfold root_orphan ds ?s1 = Inr s'"
    "map_of (children s') = (\<lambda>y. if y = root_name then Some (Some ((cs @ [x]) @ ds)) else if y \<in> set ds then Some (Some []) else map_of (children ?s1) y)"
    "map_of (parents s') = (\<lambda>y. if y \<in> set ds then Some (Some root_name) else map_of (parents ?s1) y)"
    "process_list s' = process_list ?s1 \<and> curr_names s' = curr_names ?s1 \<and> curr_index s' = curr_index ?s1"
    using Cons.IH [OF pre] Cons.prems(2) by auto
  then show ?case using a by (simp add: fun_eq_iff)
qed

text \<open>The end of an exit, after the orphans have their new parent.\<close>

lemma exit_end:
  assumes "p \<noteq> root_name" and "map_of (parents s) p = Some (Some q)" and "p \<in> set (process_list s)"
    and "(if loc then local_orphans p (Some q) (s\<lparr>process_list := remove1 p (process_list s)\<rparr>)
          else root_orphans fuel p (s\<lparr>process_list := remove1 p (process_list s)\<rparr>)) = Inr s1"
    and "map_of (children s1) q = Some (Some cs)" and "p \<in> set cs" and "q \<noteq> p"
  shows "\<exists>s'. do_exit fuel loc p s = Inr s' \<and> map_of (children s') = (map_of (children s1))(q \<mapsto> Some (remove1 p cs), p \<mapsto> None) \<and>
    map_of (parents s') = (map_of (parents s1))(p \<mapsto> None) \<and> process_list s' = process_list s1 \<and> curr_names s' = curr_names s1 \<and> curr_index s' = curr_index s1"
  using assms by (auto simp: do_exit_def dict_get_def py_remove_def the_parent_def Let_def)

lemma exit_represents:
  assumes "represents s t" and "p \<in> set (process_list s)" and "p \<noteq> root_name" and "mset (names t) = mset (names (prune p t)) + mset (names u)"
    and "label u = p" and "r \<in> set (names (prune p t))" and "mset (concat (map names us)) = mset (tl (names u))"
    and "process_list s' = remove1 p (process_list s)" and "matches s' (attach r us (prune p t))"
  shows "represents s' (attach r us (prune p t))"
proof -
  have r: "label t = root_name" "distinct (names t)" "distinct (process_list s)" "set (process_list s) = set (names t)" using assms(1) by (auto simp: represents_def)
  have dT: "distinct (names (prune p t))" using r(2) assms(4) by (metis distinct_append distinct_mset mset_append)
  have nu: "names u = p # tl (names u)" using assms(5) by (cases u) simp
  have m: "mset (names t) = mset (p # names (attach r us (prune p t)))"
    using mset_names_attach [OF dT assms(6), of us] assms(4,7) arg_cong [OF nu, of mset] by simp
  then have "distinct (p # names (attach r us (prune p t)))" using r(2) distinct_mset by blast
  moreover have "set (names t) = insert p (set (names (attach r us (prune p t))))" using mset_eq_setD [OF m] by simp
  ultimately show ?thesis using r assms(8,9) by (auto simp: represents_def)
qed


lemma exit_local_ok:
  assumes "represents s t" and "p \<in> set (process_list s)" and "p \<noteq> root_name"
  shows "\<exists>s'. do_exit fuel True p s = Inr s' \<and> represents s' (tree_exit True p t) \<and> process_list s' = remove1 p (process_list s) \<and>
    curr_names s' = curr_names s \<and> curr_index s' = curr_index s"
proof -
  obtain u q cs where u: "u = subtree p t" "label u = p" "mset (names t) = mset (names (prune p t)) + mset (names u)" "set (edges u) \<subseteq> set (edges t)"
    "(q, cs) \<in> set (edges t)" "p \<in> set cs" "q = parent_in t p" "q \<in> set (names (prune p t))" "q \<notin> set (names u)" "(p, map label (subs u)) \<in> set (edges t)"
    using exit_parts [OF assms] by metis
  let ?os = "map label (subs u)" and ?T = "prune p t"
  have dn: "distinct (names t)" and ma: "matches s t" using assms(1) by (auto simp: represents_def)
  have disj: "set (names ?T) \<inter> set (names u) = {}" "distinct (names ?T)" "distinct (names u)"
    using dn u(3) by (metis distinct_append distinct_mset mset_append)+
  have pu: "p \<in> set (names u)" using u(2) label_in_names by blast
  have qp: "q \<noteq> p" using u(9) pu by blast
  have h: "holds s n cs'" if "(n, cs') \<in> set (edges t)" for n cs' using ma that by (simp add: matches_holds)
  have hq: "map_of (children s) q = Some (Some cs)" and hp: "map_of (parents s) p = Some (Some q)" using h [OF u(5)] u(6) by (auto simp: holds_def)
  let ?s0 = "s\<lparr>process_list := remove1 p (process_list s)\<rparr>"
  have k: "kids p ?s0 = Inr ?os" using h [OF u(10)] by (simp add: holds_def kids_def dict_get_def)
  have c0: "map_of (children ?s0) q = Some (Some cs)" using hq by simp
  obtain s1 where s1: "local_orphans p (Some q) ?s0 = Inr s1" "map_of (children s1) = (map_of (children s))(q \<mapsto> Some (cs @ ?os))"
    "map_of (parents s1) = (\<lambda>x. if x \<in> set ?os then Some (Some q) else map_of (parents s) x)"
    "process_list s1 = remove1 p (process_list s) \<and> curr_names s1 = curr_names s \<and> curr_index s1 = curr_index s"
    using local_loop [OF c0, of ?os] k qp by (auto simp: local_orphans_def cong: if_cong)
  have rm: "remove1 p (cs @ ?os) = filter (\<lambda>c. c \<noteq> p) cs @ ?os" by (rule remove_filter [OF distinct_cs [OF dn u(5)] u(6)])
  have "map_of (children s1) q = Some (Some (cs @ ?os))" using s1(2) by simp
  then obtain s' where s': "do_exit fuel True p s = Inr s'"
    "map_of (children s') = (map_of (children s1))(q \<mapsto> Some (filter (\<lambda>c. c \<noteq> p) cs @ ?os), p \<mapsto> None)"
    "map_of (parents s') = (map_of (parents s1))(p \<mapsto> None)" "process_list s' = process_list s1 \<and> curr_names s' = curr_names s1 \<and> curr_index s' = curr_index s1"
    using exit_end [OF assms(3) hp assms(2), of True fuel s1 "cs @ ?os"] s1(1) u(6) qp rm by auto
  have ou: "set ?os \<subseteq> set (names u)"
  proof
    fix x assume "x \<in> set ?os"
    moreover have "(label u, ?os) \<in> set (edges u)" by (cases u) simp
    ultimately show "x \<in> set (names u)" using children_names by blast
  qed
  have po: "p \<notin> set ?os" using one_parent [OF dn u(10) _ u(5,6)] qp by blast
  have notos: "c \<notin> set ?os" if "(n, cs') \<in> set (edges t)" "c \<in> set cs'" "n \<noteq> p" for n cs' c
    using one_parent [OF dn that(1,2) u(10)] that(3) by blast
  have notp: "p \<notin> set cs'" if "(n, cs') \<in> set (edges t)" "n \<noteq> q" for n cs'
    using one_parent [OF dn that(1) _ u(5,6)] that(2) by blast
  have same: "holds s' n cs'" if "(n, cs') \<in> set (edges t)" "n \<noteq> q" "n \<noteq> p" for n cs'
  proof -
    have "map_of (children s') n = map_of (children s) n" using that(2,3) by (simp add: s1(2) s'(2))
    moreover have "map_of (parents s') c = map_of (parents s) c" if "c \<in> set cs'" for c
    proof -
      have "c \<notin> set ?os" "c \<noteq> p" using notos [OF \<open>(n, cs') \<in> set (edges t)\<close> that \<open>n \<noteq> p\<close>] notp [OF \<open>(n, cs') \<in> set (edges t)\<close> \<open>n \<noteq> q\<close>] that by blast+
      then show ?thesis by (simp add: s1(3) s'(3))
    qed
    ultimately show ?thesis using h [OF that(1)] by (simp add: holds_def)
  qed
  have m: "matches s' (attach q (subs u) ?T)"
  proof (rule matches_attach [OF disj(2) u(8)])
    fix n cs' assume e: "(n, cs') \<in> set (edges ?T)" "n \<noteq> q"
    then obtain cs0 where cs0: "(n, cs0) \<in> set (edges t)" "cs' = filter (\<lambda>c. c \<noteq> p) cs0" using edges_prune by blast
    have "filter (\<lambda>c. c \<noteq> p) cs0 = cs0" using notp [OF cs0(1) e(2)] by (auto simp: filter_id_conv)
    then have "cs' = cs0" using cs0(2) by simp
    moreover have "n \<noteq> p" using edges_names [OF e(1)] disj(1) pu by blast
    ultimately show "holds s' n cs'" using same [OF cs0(1) e(2)] by simp
  next
    fix cs' assume e: "(q, cs') \<in> set (edges ?T)"
    then obtain cs0 where "(q, cs0) \<in> set (edges t)" "cs' = filter (\<lambda>c. c \<noteq> p) cs0" using edges_prune by blast
    then have "cs' = filter (\<lambda>c. c \<noteq> p) cs" using names_distinct_edges [OF dn _ u(5)] by blast
    then show "holds s' q (cs' @ map label (subs u))" using s'(2,3) s1(3) qp h [OF u(5)] po by (auto simp: holds_def)
  next
    fix v assume v: "v \<in> set (subs u)"
    then have ev: "set (edges v) \<subseteq> set (edges u)" by (cases u) auto
    have "p \<notin> set (names v)" using v disj(3) u(2) by (cases u) auto
    moreover have "q \<notin> set (names v)" using v u(9) by (cases u) auto
    ultimately show "matches s' v" unfolding matches_holds using same ev u(4) edges_names by blast
  qed
  have tl: "mset (concat (map names (subs u))) = mset (tl (names u))" by (cases u) simp
  have "represents s' (attach q (subs u) ?T)"
    using exit_represents [OF assms u(3) u(2) u(8) tl _ m] s'(4) s1(4) by simp
  then show ?thesis using s' s1(4) u(1,7) by (auto simp: tree_exit_def)
qed

lemma exit_root_ok:
  assumes "represents s t" and "p \<in> set (process_list s)" and "p \<noteq> root_name" and "length (process_list s) \<le> fuel"
  shows "\<exists>s'. do_exit fuel False p s = Inr s' \<and> represents s' (tree_exit False p t) \<and> process_list s' = remove1 p (process_list s) \<and>
    curr_names s' = curr_names s \<and> curr_index s' = curr_index s"
proof -
  obtain u q cs where u: "u = subtree p t" "label u = p" "mset (names t) = mset (names (prune p t)) + mset (names u)" "set (edges u) \<subseteq> set (edges t)"
    "(q, cs) \<in> set (edges t)" "p \<in> set cs" "q = parent_in t p" "q \<in> set (names (prune p t))" "q \<notin> set (names u)" "(p, map label (subs u)) \<in> set (edges t)"
    using exit_parts [OF assms(1-3)] by metis
  let ?T = "prune p t" and ?ds = "tl (names u)"
  have dn: "distinct (names t)" and ma: "matches s t" and lt: "label t = root_name" using assms(1) by (auto simp: represents_def)
  have disj: "set (names ?T) \<inter> set (names u) = {}" "distinct (names ?T)" "distinct (names u)"
    using dn u(3) by (metis distinct_append distinct_mset mset_append)+
  have nu: "names u = p # ?ds" using u(2) by (cases u) simp
  have rT: "root_name \<in> set (names ?T)" using label_in_names [of ?T] lt by simp
  then have rds: "root_name \<notin> set ?ds" using disj(1) nu by (metis disjoint_iff list.set_intros(2))
  have sn: "set (names u) = insert p (set ?ds)" by (subst nu) simp
  have qp: "q \<noteq> p" and qds: "q \<notin> set ?ds" using u(9) sn by auto
  have "distinct (p # ?ds)" using disj(3) nu by metis
  then have pds: "p \<notin> set ?ds" by simp
  have h: "holds s n cs'" if "(n, cs') \<in> set (edges t)" for n cs' using ma that by (simp add: matches_holds)
  have hq: "map_of (children s) q = Some (Some cs)" and hp: "map_of (parents s) p = Some (Some q)" using h [OF u(5)] u(6) by (auto simp: holds_def)
  let ?s0 = "s\<lparr>process_list := remove1 p (process_list s)\<rparr>"
  obtain cr where cr: "(root_name, cr) \<in> set (edges t)" using edges_total [of root_name t] label_in_names [of t] lt by auto
  have c0: "map_of (children ?s0) root_name = Some (Some cr)" using h [OF cr] by (simp add: holds_def)
  have mu: "matches ?s0 u" using ma u(4) by (auto simp: matches_def)
  have "length (names t) = length (names ?T) + length (names u)" using arg_cong [OF u(3), of size] by simp
  then have "length (names u) \<le> fuel" using represents_length [OF assms(1)] assms(4) by simp
  then have cc: "collect_children fuel ?s0 p = Inr (p # ?ds)" using collect_ok [OF mu, of fuel] u(2) nu by simp
  obtain s1 where s1: "root_orphans fuel p ?s0 = Inr s1"
    "map_of (children s1) = (\<lambda>x. if x = root_name then Some (Some (cr @ ?ds)) else if x \<in> set ?ds then Some (Some []) else map_of (children s) x)"
    "map_of (parents s1) = (\<lambda>x. if x \<in> set ?ds then Some (Some root_name) else map_of (parents s) x)"
    "process_list s1 = remove1 p (process_list s) \<and> curr_names s1 = curr_names s \<and> curr_index s1 = curr_index s"
    using root_loop [OF c0 rds] cc by (auto simp: root_orphans_def py_remove_def cong: if_cong)
  define cq where "cq = (if q = root_name then cr @ ?ds else cs)"
  have crq: "q = root_name \<Longrightarrow> cr = cs" using names_distinct_edges [OF dn cr] u(5) by blast
  have kq: "map_of (children s1) q = Some (Some cq)" using s1(2) hq qds by (simp add: cq_def)
  have pcq: "p \<in> set cq" using crq u(6) by (auto simp: cq_def)
  have rm: "remove1 p (cs @ xs) = filter (\<lambda>c. c \<noteq> p) cs @ xs" for xs by (rule remove_filter [OF distinct_cs [OF dn u(5)] u(6)])
  obtain s' where s': "do_exit fuel False p s = Inr s'" "map_of (children s') = (map_of (children s1))(q \<mapsto> Some (remove1 p cq), p \<mapsto> None)"
    "map_of (parents s') = (map_of (parents s1))(p \<mapsto> None)" "process_list s' = process_list s1 \<and> curr_names s' = curr_names s1 \<and> curr_index s' = curr_index s1"
    using exit_end [OF assms(3) hp assms(2), of False fuel s1 cq] s1(1) kq pcq qp by auto
  have notds: "c \<notin> set ?ds" if "(n, cs') \<in> set (edges t)" "c \<in> set cs'" "n \<in> set (names ?T)" for n cs' c
  proof
    assume c: "c \<in> set ?ds"
    then have "c \<noteq> label u" "c \<in> set (names u)" using pds u(2) sn by auto
    then obtain m ds' where m: "(m, ds') \<in> set (edges u)" "c \<in> set ds'" using child_has_parent by blast
    then have "m = n" using one_parent [OF dn _ m(2) that(1,2)] u(4) by blast
    then show False using edges_names [OF m(1)] that(3) disj(1) by blast
  qed
  have notp: "p \<notin> set cs'" if "(n, cs') \<in> set (edges t)" "n \<noteq> q" for n cs'
    using one_parent [OF dn that(1) _ u(5,6)] that(2) by blast
  have np: "n \<noteq> p \<and> n \<notin> set ?ds" if "n \<in> set (names ?T)" for n using that disj(1) sn by blast
  have kids': "map_of (children s') n = Some (Some (filter (\<lambda>c. c \<noteq> p) cs' @ (if n = root_name then ?ds else [])))"
    if e: "(n, cs') \<in> set (edges t)" "n \<in> set (names ?T)" for n cs'
  proof (cases "n = q")
    case True
    then have "cs' = cs" using names_distinct_edges [OF dn e(1)] u(5) by blast
    then show ?thesis using True s'(2) rm [of ?ds] rm [of "[]"] crq qp by (auto simp: cq_def)
  next
    case False
    then have f: "filter (\<lambda>c. c \<noteq> p) cs' = cs'" using notp [OF e(1)] by (auto simp: filter_id_conv)
    have "n = root_name \<Longrightarrow> cr = cs'" using names_distinct_edges [OF dn cr] e(1) by blast
    then show ?thesis using f False np [OF e(2)] s'(2) s1(2) h [OF e(1)] by (auto simp: holds_def)
  qed
  have par': "map_of (parents s') c = Some (Some n)" if "(n, cs') \<in> set (edges t)" "n \<in> set (names ?T)" "c \<in> set cs'" "c \<noteq> p" for n cs' c
    using notds [OF that(1,3,2)] that(4) s'(3) s1(3) h [OF that(1)] that(3) by (simp add: holds_def)
  have m: "matches s' (attach root_name (map leaf ?ds) ?T)"
  proof (rule matches_attach [OF disj(2) rT])
    fix n cs' assume e: "(n, cs') \<in> set (edges ?T)" "n \<noteq> root_name"
    then obtain cs0 where cs0: "(n, cs0) \<in> set (edges t)" "cs' = filter (\<lambda>c. c \<noteq> p) cs0" using edges_prune by blast
    then show "holds s' n cs'" using kids' [OF cs0(1) edges_names [OF e(1)]] par' [OF cs0(1) edges_names [OF e(1)]] e(2) by (auto simp: holds_def)
  next
    fix cs' assume e: "(root_name, cs') \<in> set (edges ?T)"
    then obtain cs0 where cs0: "(root_name, cs0) \<in> set (edges t)" "cs' = filter (\<lambda>c. c \<noteq> p) cs0" using edges_prune by blast
    have "map_of (parents s') d = Some (Some root_name)" if "d \<in> set ?ds" for d using that pds s'(3) s1(3) by auto
    then show "holds s' root_name (cs' @ map label (map leaf ?ds))"
      using kids' [OF cs0(1) rT] par' [OF cs0(1) rT] cs0(2) by (auto simp: holds_def leaf_def o_def)
  next
    fix v assume "v \<in> set (map leaf ?ds)"
    then obtain d where d: "v = leaf d" "d \<in> set ?ds" by auto
    then have "d \<noteq> root_name" "d \<noteq> q" "d \<noteq> p" using rds qds pds by auto
    then show "matches s' v" using d s'(2) s1(2) by (simp add: matches_def leaf_def)
  qed
  have tl: "mset (concat (map names (map leaf ?ds))) = mset ?ds" by (simp add: leaf_def o_def)
  have "represents s' (attach root_name (map leaf ?ds) ?T)"
    using exit_represents [OF assms(1-3) u(3) u(2) rT tl _ m] s'(4) s1(4) by simp
  then show ?thesis using s' s1(4) u(1) by (auto simp: tree_exit_def)
qed


lemma exit_ok:
  assumes "represents s t" and "p \<in> set (process_list s)" and "p \<noteq> root_name" and "length (process_list s) \<le> fuel"
  shows "\<exists>s'. do_exit fuel loc p s = Inr s' \<and> represents s' (tree_exit loc p t) \<and> process_list s' = remove1 p (process_list s) \<and>
    curr_names s' = curr_names s \<and> curr_index s' = curr_index s"
  using exit_local_ok [OF assms(1-3)] exit_root_ok [OF assms] by (cases loc) auto

section \<open>Names\<close>

text \<open>Names that an action list can carry.\<close>

definition plain :: "string \<Rightarrow> bool" where
  "plain x \<longleftrightarrow> CHR ''+'' \<notin> set x \<and> CHR ''-'' \<notin> set x"

definition fresh_names :: "forker \<Rightarrow> string set \<Rightarrow> bool" where
  "fresh_names s used \<longleftrightarrow> (\<exists>L. distinct (curr_names s) \<and> curr_names s \<noteq> [] \<and> (\<forall>x \<in> set (curr_names s). length x = L \<and> plain x) \<and>
     curr_index s \<le> length (curr_names s) \<and> (\<forall>x \<in> used. length x < L \<or> x \<in> set (take (curr_index s) (curr_names s))))"

lemma base_names: "distinct base_names" "base_names \<noteq> []" "x \<in> set base_names \<Longrightarrow> length x = 1 \<and> plain x"
proof -
  have "list_all (\<lambda>x. length x = 1 \<and> plain x) base_names" "distinct base_names" by code_simp+
  then show "distinct base_names" "x \<in> set base_names \<Longrightarrow> length x = 1 \<and> plain x" by (auto simp: list_all_iff)
qed (simp add: base_names_def)

lemma grow_distinct:
  assumes "distinct xs" and "\<forall>x \<in> set xs. length x = L"
  shows "distinct (concat (map (\<lambda>b1. map (\<lambda>b2. b1 @ b2) base_names) xs))"
  using assms
proof (induction xs)
  case (Cons x xs)
  have "distinct (map (\<lambda>b2. x @ b2) base_names)" using base_names(1) by (simp add: distinct_map inj_on_def)
  moreover have "set (map (\<lambda>b2. x @ b2) base_names) \<inter> set (concat (map (\<lambda>b1. map (\<lambda>b2. b1 @ b2) base_names) xs)) = {}"
  proof (intro equals0I)
    fix y assume "y \<in> set (map (\<lambda>b2. x @ b2) base_names) \<inter> set (concat (map (\<lambda>b1. map (\<lambda>b2. b1 @ b2) base_names) xs))"
    then have "\<exists>b2. y = x @ b2" "\<exists>b1 \<in> set xs. \<exists>b2. y = b1 @ b2" by fastforce+
    then obtain b2 b1 b2' where "x @ b2 = b1 @ b2'" "b1 \<in> set xs" by metis
    moreover from this(2) have "length b1 = length x" using Cons.prems(2) by simp
    ultimately show False using Cons.prems(1) by (metis append_eq_append_conv distinct.simps(2))
  qed
  ultimately show ?case using Cons by simp
qed simp

lemma grow_fresh: "fresh_names s used \<Longrightarrow> fresh_names (if curr_index s = length (curr_names s) then grow_names s else s) used \<and>
    curr_index (if curr_index s = length (curr_names s) then grow_names s else s) < length (curr_names (if curr_index s = length (curr_names s) then grow_names s else s))"
proof (cases "curr_index s = length (curr_names s)")
  case True
  assume "fresh_names s used"
  then obtain L where L: "distinct (curr_names s)" "curr_names s \<noteq> []" "\<forall>x \<in> set (curr_names s). length x = L \<and> plain x"
    "\<forall>x \<in> used. length x < L \<or> x \<in> set (curr_names s)" using True by (auto simp: fresh_names_def)
  let ?ns = "concat (map (\<lambda>b1. map (\<lambda>b2. b1 @ b2) base_names) (curr_names s))"
  have ne: "?ns \<noteq> []" using L(2) base_names(2) by (cases "curr_names s") auto
  have "\<forall>x \<in> set ?ns. length x = L + 1 \<and> plain x" using L(3) base_names(3) by (fastforce simp: plain_def)
  moreover have "\<forall>x \<in> used. length x < L + 1" using L(3,4) by fastforce
  ultimately have "fresh_names (grow_names s) used"
    using grow_distinct [of "curr_names s" L] L(1,3) ne unfolding fresh_names_def grow_names_def by (intro exI [of _ "L + 1"]) auto
  moreover have "0 < length ?ns" using ne by simp
  ultimately show ?thesis using True by (simp add: grow_names_def)
qed (auto simp: fresh_names_def)

lemma get_name_ok:
  assumes "fresh_names s used"
  shows "\<exists>n s'. get_name s = Inr (n, s') \<and> n \<notin> used \<and> plain n \<and> fresh_names s' (insert n used) \<and>
    process_list s' = process_list s \<and> children s' = children s \<and> parents s' = parents s"
proof -
  define u where "u = (if curr_index s = length (curr_names s) then grow_names s else s)"
  have f: "fresh_names u used" "curr_index u < length (curr_names u)" using grow_fresh [OF assms] by (simp_all add: u_def)
  obtain L where L: "distinct (curr_names u)" "\<forall>x \<in> set (curr_names u). length x = L \<and> plain x"
    "\<forall>x \<in> used. length x < L \<or> x \<in> set (take (curr_index u) (curr_names u))" using f(1) by (auto simp: fresh_names_def)
  let ?n = "curr_names u ! curr_index u"
  have n: "length ?n = L" "plain ?n" using L(2) f(2) by (simp_all add: nth_mem)
  have "?n \<notin> set (take (curr_index u) (curr_names u))" using L(1) f(2) by (auto simp: in_set_conv_nth nth_eq_iff_index_eq)
  then have "?n \<notin> used" using L(3) n(1) by blast
  moreover have "fresh_names (u\<lparr>curr_index := curr_index u + 1\<rparr>) (insert ?n used)"
    using L f(2) unfolding fresh_names_def by (intro exI [of _ L]) (auto simp: take_Suc_conv_app_nth)
  moreover have "get_name s = Inr (?n, u\<lparr>curr_index := curr_index u + 1\<rparr>)" using f(2) by (simp add: get_name_def u_def Let_def py_get_nat)
  ultimately show ?thesis using n(2) by (auto simp: u_def grow_names_def)
qed

section \<open>Random runs\<close>

text \<open>An action list that forks new processes from live ones and ends live ones.\<close>

fun fits :: "string set \<Rightarrow> string list \<Rightarrow> string list \<Rightarrow> bool" where
  "fits used temp [] \<longleftrightarrow> True"
| "fits used temp (a # as) \<longleftrightarrow>
     (\<exists>p c. p \<in> set temp \<and> c \<notin> used \<and> plain p \<and> plain c \<and> a = p @ ''+'' @ c \<and> fits (insert c used) (temp @ [c]) as) \<or>
     (\<exists>p. p \<in> set temp \<and> p \<noteq> root_name \<and> plain p \<and> a = p @ ''-'' \<and> fits used (remove1 p temp) as)"

text \<open>The rounds that fork.\<close>

fun fork_rounds :: "rat \<Rightarrow> draw list \<Rightarrow> nat" where
  "fork_rounds fp (k # k' # ds) = (if of_nat k < fp * 2 ^ 53 then 1 else 0) + fork_rounds fp ds"
| "fork_rounds fp ds = 0"

lemma random_actions_ok:
  assumes "fresh_names s used" and "set temp \<subseteq> used" and "\<forall>x \<in> set temp. plain x" and "root_name \<in> set temp" and "\<forall>k \<in> set ds. valid_draw k"
    and "nat n \<le> fork_rounds fp ds"
  shows "\<exists>new s'. random_actions fp n temp acts s ds = Inr (acts @ new, s') \<and> fits used temp new \<and> int (length new) \<le> max 0 n \<and>
    process_list s' = process_list s \<and> children s' = children s \<and> parents s' = parents s"
  using assms
proof (induction fp n temp acts s ds arbitrary: used rule: random_actions.induct)
  case (1 fp n temp acts s k k' ds)
  show ?case
  proof (cases "n \<le> 0")
    case False
    have "pick k' (length temp) < length temp" using pick_less [of k' "length temp"] 1(7,8) length_pos_if_in_set [OF 1(7)] by auto
    then obtain ch where ch: "py_get temp (int (pick k' (length temp))) = Inr ch" "ch \<in> set temp" by (simp add: py_get_nat)
    have pl: "plain ch" using ch(2) 1(6) by blast
    show ?thesis
    proof (cases "of_nat k < fp * 2 ^ 53")
      case True
      obtain c s1 where c: "get_name s = Inr (c, s1)" "c \<notin> used" "plain c" "fresh_names s1 (insert c used)"
        "process_list s1 = process_list s \<and> children s1 = children s \<and> parents s1 = parents s" using get_name_ok [OF 1(4)] by blast
      have "nat (n - 1) \<le> fork_rounds fp ds" using 1(9) True False by simp
      then obtain new s' where n: "random_actions fp (n - 1) (temp @ [c]) (acts @ [ch @ ''+'' @ c]) s1 ds = Inr ((acts @ [ch @ ''+'' @ c]) @ new, s')"
        "fits (insert c used) (temp @ [c]) new" "int (length new) \<le> max 0 (n - 1)" "process_list s' = process_list s1 \<and> children s' = children s1 \<and> parents s' = parents s1"
        using 1(1) [OF False ch(1) True c(1) refl, of "insert c used"] 1(5-8) c(3,4) by auto
      then show ?thesis using False True ch c pl by (intro exI [of _ "(ch @ ''+'' @ c) # new"] exI [of _ s']) auto
    next
      case kf: False
      have le: "nat n \<le> fork_rounds fp ds" using 1(9) kf by simp
      show ?thesis
      proof (cases "ch = root_name")
        case True
        then obtain new s' where "random_actions fp n temp acts s ds = Inr (acts @ new, s')" "fits used temp new" "int (length new) \<le> max 0 n"
          "process_list s' = process_list s \<and> children s' = children s \<and> parents s' = parents s"
          using 1(2) [OF False ch(1) kf True 1(4-7) _ le] 1(8) by auto
        then show ?thesis using False kf True ch by auto
      next
        case nr: False
        have sub: "set (remove1 ch temp) \<subseteq> set temp" by (rule set_remove1_subset)
        have sub1: "set (remove1 ch temp) \<subseteq> used" "\<forall>x \<in> set (remove1 ch temp). plain x" using sub 1(5,6) by blast+
        have "nat (n - 1) \<le> fork_rounds fp ds" using le by simp
        then obtain new s' where "random_actions fp (n - 1) (remove1 ch temp) (acts @ [ch @ ''-'']) s ds = Inr ((acts @ [ch @ ''-'']) @ new, s')"
          "fits used (remove1 ch temp) new" "int (length new) \<le> max 0 (n - 1)" "process_list s' = process_list s \<and> children s' = children s \<and> parents s' = parents s"
          using 1(3) [OF False ch(1) kf nr 1(4) sub1] sub1 1(7,8) nr by auto
        then show ?thesis using False kf nr ch pl by (intro exI [of _ "(ch @ ''-'') # new"] exI [of _ s']) auto
      qed
    qed
  qed auto
qed auto

lemma parse_fork: "plain p \<Longrightarrow> plain c \<Longrightarrow> check_legal (p @ ''+'' @ c) = Inr [p, c]"
  by (simp add: check_legal_def plain_def py_split_append py_split_plain)

lemma parse_exit: "plain p \<Longrightarrow> check_legal (p @ ''-'') = Inr [p]"
  by (simp add: check_legal_def plain_def py_split_append)

definition good_style :: "string \<Rightarrow> bool" where
  "good_style st \<longleftrightarrow> st \<in> {''basic'', ''line1'', ''line2'', ''fancy''}"

lemma draw_ok: "represents s t \<Longrightarrow> good_style (print_style opt) \<Longrightarrow> length (process_list s) \<le> fuel \<Longrightarrow> \<exists>out. draw_tree fuel opt s = Inr out"
  using print_tree_ok [of s t "print_style opt" fuel] by (simp add: draw_tree_def good_style_def)

lemma report_ok: "represents s t \<Longrightarrow> good_style (print_style opt) \<Longrightarrow> length (process_list s) \<le> fuel \<Longrightarrow> \<exists>out. report_action fuel opt a s = Inr out"
  using draw_ok [of s t opt fuel] by (auto simp: report_action_def)

lemma leaf_check: "represents s t \<Longrightarrow> p \<in> set (process_list s) \<Longrightarrow> \<exists>b. (if lo then rbind (kids p s) (\<lambda>cs. Inr (cs \<noteq> [])) else Inr False) = Inr b"
  using edges_total [of p t] matches_kids [of s t p] by (auto simp: represents_def)

lemma run_ok:
  assumes "represents s t" and "fits used temp acts" and "set (process_list s) \<subseteq> used" and "set temp \<subseteq> set (process_list s)"
    and "good_style (print_style opt)" and "length (process_list s) + length acts \<le> fuel" and "distinct temp"
  shows "\<exists>out' s' t'. rfold (run_step fuel opt) acts (out, s) = Inr (out', s') \<and> represents s' t' \<and> length (process_list s') \<le> fuel"
  using assms
proof (induction acts arbitrary: s t used temp out)
  case Nil
  then show ?case by auto
next
  case (Cons a as)
  have lf: "length (process_list s) \<le> fuel" using Cons.prems(6) by simp
  from Cons.prems(2) show ?case
    unfolding fits.simps
  proof (elim disjE exE conjE)
    fix p c assume f: "p \<in> set temp" "c \<notin> used" "plain p" "plain c" "a = p @ ''+'' @ c" "fits (insert c used) (temp @ [c]) as"
    have pc: "p \<in> set (process_list s)" "c \<notin> set (process_list s)" using f(1,2) Cons.prems(3,4) by auto
    obtain s1 where s1: "do_fork p c s = Inr s1" "represents s1 (tree_fork p c t)" "process_list s1 = process_list s @ [c]"
      using fork_ok [OF Cons.prems(1) pc] by blast
    obtain r where r: "report_action fuel opt (p @ '' forks '' @ c) s1 = Inr r"
      using report_ok [OF s1(2) Cons.prems(5)] s1(3) Cons.prems(6) by fastforce
    have "run_step fuel opt a (out, s) = Inr (out @ r, s1)"
      using parse_fork [OF f(3,4)] f(5) pc(1) s1(1) r by (simp add: run_step_def run_action_def)
    moreover have "set (process_list s1) \<subseteq> insert c used" "set (temp @ [c]) \<subseteq> set (process_list s1)" using s1(3) Cons.prems(3,4) by auto
    moreover have "length (process_list s1) + length as \<le> fuel" using s1(3) Cons.prems(6) by simp
    moreover have "distinct (temp @ [c])" using Cons.prems(3,4,7) f(2) by auto
    ultimately show ?thesis using Cons.IH [OF s1(2) f(6) _ _ Cons.prems(5), of "out @ r"] by simp
  next
    fix p assume f: "p \<in> set temp" "p \<noteq> root_name" "plain p" "a = p @ ''-''" "fits used (remove1 p temp) as"
    have pc: "p \<in> set (process_list s)" using f(1) Cons.prems(4) by auto
    obtain b where b: "(if leaf_only opt then rbind (kids p s) (\<lambda>cs. Inr (cs \<noteq> [])) else Inr False) = Inr b" using leaf_check [OF Cons.prems(1) pc] by blast
    have dp: "distinct (process_list s)" using Cons.prems(1) by (simp add: represents_def)
    show ?thesis
    proof (cases b)
      case True
      obtain r where "report_action fuel opt (p @ '' EXITS (failed: has children)'') s = Inr r" using report_ok [OF Cons.prems(1,5) lf] by blast
      then have "run_step fuel opt a (out, s) = Inr (out @ r, s)"
        using parse_exit [OF f(3)] f(4) pc b True by (cases "leaf_only opt") (auto simp: run_step_def run_action_def)
      moreover have "set (remove1 p temp) \<subseteq> set (process_list s)" using Cons.prems(4) set_remove1_subset by fastforce
      ultimately show ?thesis using Cons.IH [OF Cons.prems(1) f(5) Cons.prems(3) _ Cons.prems(5), of "out @ r"] Cons.prems(6,7) by auto
    next
      case False
      obtain s1 where s1: "do_exit fuel (local_reparent opt) p s = Inr s1" "represents s1 (tree_exit (local_reparent opt) p t)" "process_list s1 = remove1 p (process_list s)"
        using exit_ok [OF Cons.prems(1) pc f(2) lf] by blast
      have l1: "length (process_list s1) \<le> length (process_list s)" using s1(3) by (simp add: length_remove1)
      obtain r where r: "report_action fuel opt (p @ '' EXITS'') s1 = Inr r" using report_ok [OF s1(2) Cons.prems(5)] l1 lf by fastforce
      have "run_step fuel opt a (out, s) = Inr (out @ r, s1)"
        using parse_exit [OF f(3)] f(4) pc b False s1(1) r by (cases "leaf_only opt") (auto simp: run_step_def run_action_def)
      moreover have "set (process_list s1) \<subseteq> used" using s1(3) Cons.prems(3) set_remove1_subset by fastforce
      moreover have "set (remove1 p temp) \<subseteq> set (process_list s1)"
        using s1(3) Cons.prems(4,7) dp by (auto simp: set_remove1_eq)
      moreover have "distinct (remove1 p temp)" using Cons.prems(7) by simp
      ultimately show ?thesis using Cons.IH [OF s1(2) f(5) _ _ Cons.prems(5), of "out @ r"] Cons.prems(6) l1 by auto
    qed
  qed
qed


lemma start_represents: "represents new_forker (leaf root_name)"
  by (simp add: represents_def new_forker_def leaf_def matches_def)

lemma start_fresh: "fresh_names new_forker {root_name}"
proof -
  have "\<forall>x \<in> set base_names. length x = 1 \<and> plain x" using base_names(3) by blast
  moreover have "root_name \<in> set (take 1 base_names)" "1 \<le> length base_names" by (simp_all add: base_names_def root_name_def)
  ultimately show ?thesis using base_names(1,2) unfolding fresh_names_def new_forker_def by (intro exI [of _ 1]) simp
qed

section \<open>Properties\<close>

text \<open>
  C16. The tables of the program represent a tree: a fork of a new process by a live one adds a leaf, and an exit takes the process
  away and gives its children to its parent (with \<open>local_reparent\<close>) or all its descendants to the root.
\<close>

theorem fork_exit_refine_tree:
  assumes "represents s t" and "p \<in> set (process_list s)" and "c \<notin> set (process_list s)" and "length (process_list s) \<le> fuel"
  shows "(\<exists>s'. do_fork p c s = Inr s' \<and> represents s' (tree_fork p c t) \<and> process_list s' = process_list s @ [c]) \<and>
    (p \<noteq> root_name \<longrightarrow> (\<exists>s'. do_exit fuel loc p s = Inr s' \<and> represents s' (tree_exit loc p t) \<and> process_list s' = remove1 p (process_list s)))"
  using fork_ok [OF assms(1-3)] exit_ok [OF assms(1,2) _ assms(4)] by blast

theorem fork_exit_refine_tree_witness:
  "\<exists>s'. do_fork root_name ''b'' new_forker = Inr s' \<and> represents s' (tree_fork root_name ''b'' (leaf root_name))"
proof -
  have "root_name \<in> set (process_list new_forker)" "''b'' \<notin> set (process_list new_forker)" "length (process_list new_forker) \<le> 1"
    by (simp_all add: new_forker_def root_name_def)
  from conjunct1 [OF fork_exit_refine_tree [OF start_represents this]] show ?thesis by metis
qed

text \<open>
  The drawing is that of the tree, in each style: every live process has exactly one line, in depth-first order, and the pieces in
  front of it are those of the specification, although all calls share one mask.
\<close>

theorem drawing_shows_tree:
  assumes "represents s t" and "good_style style" and "length (process_list s) \<le> fuel"
  shows "\<exists>ls. print_tree fuel style s = Inr ls \<and> ls = (if style = ''basic'' then basic_lines 0 t else tree_lines [] False t) \<and>
    map snd ls = names t \<and> distinct (map snd ls) \<and> set (map snd ls) = set (process_list s)"
proof -
  let ?ls = "if style = ''basic'' then basic_lines 0 t else tree_lines [] False t"
  have "print_tree fuel style s = Inr ?ls" using assms by (intro print_tree_ok) (simp_all only: good_style_def)
  moreover have "map snd ?ls = names t" by (simp add: tree_lines_names basic_lines_names)
  moreover have "distinct (names t)" "set (names t) = set (process_list s)" using assms(1) by (simp_all only: represents_def)
  ultimately show ?thesis by (intro exI [of _ ?ls]) (simp only: simp_thms)
qed

theorem drawing_shows_tree_witness: "\<exists>ls. print_tree 1 ''fancy'' new_forker = Inr ls \<and> map snd ls = [root_name]"
  using drawing_shows_tree [OF start_represents, of "''fancy''" 1] by (auto simp: good_style_def new_forker_def leaf_def)

text \<open>
  C32. A random run never fails: with enough draws that fork it performs its actions, every name it makes is new, every
  action is accepted, every tree is drawn, and the tables represent a tree at the end.
\<close>

theorem random_run_succeeds:
  assumes "action_list opt = []" and "1 / 1000 < fork_percentage opt" and "good_style (print_style opt)" and "\<forall>k \<in> set ds. valid_draw k"
    and "nat (max_actions opt) \<le> fork_rounds (fork_percentage opt) ds" and "nat (max_actions opt) + 1 \<le> fuel"
  shows "\<exists>out s t. fork_main fuel opt ds = Inr (out, s) \<and> represents s t"
proof -
  have "plain root_name" by (simp add: plain_def root_name_def)
  then obtain new s1 where r: "random_actions (fork_percentage opt) (max_actions opt) [root_name] [] new_forker ds = Inr (new, s1)"
    "fits {root_name} [root_name] new" "int (length new) \<le> max 0 (max_actions opt)"
    "process_list s1 = process_list new_forker \<and> children s1 = children new_forker \<and> parents s1 = parents new_forker"
    using random_actions_ok [OF start_fresh, of "[root_name]" ds "max_actions opt" "fork_percentage opt" "[]"] assms(4,5) by auto
  have rep: "represents s1 (leaf root_name)" using start_represents r(4) by (simp add: represents_def matches_def)
  have pl: "process_list s1 = [root_name]" using r(4) by (simp add: new_forker_def)
  obtain out where out: "draw_tree fuel opt new_forker = Inr out" using draw_ok [OF start_represents assms(3), of fuel] assms(6) by (auto simp: new_forker_def)
  have "length (process_list s1) + length new \<le> fuel" using pl r(3) assms(6) by (simp add: max_def split: if_splits)
  then obtain out1 s2 t where s2: "rfold (run_step fuel opt) new (out, s1) = Inr (out1, s2)" "represents s2 t" "length (process_list s2) \<le> fuel"
    using run_ok [OF rep r(2) _ _ assms(3), of fuel out] pl by auto
  obtain out2 where "report_final fuel opt s2 = Inr out2" using draw_ok [OF s2(2) assms(3) s2(3)] by (cases "just_final opt"; cases "show_tree opt \<or> solve opt") (auto simp: report_final_def)
  then have "fork_main fuel opt ds = Inr (out1 @ out2, s2)"
    using assms(1,2) r(1) out s2(1) by (simp add: fork_main_def forker_run_def run_actions_def)
  then show ?thesis using s2(2) by blast
qed

theorem random_run_succeeds_witness: "\<exists>out s t. fork_main 6 fork_defaults (replicate 10 0) = Inr (out, s) \<and> represents s t"
proof -
  have "fork_rounds (7 / 10) (replicate 10 0) = 5" by (simp add: eval_nat_numeral)
  then show ?thesis using random_run_succeeds [of fork_defaults "replicate 10 0" 6]
    by (simp add: fork_defaults_def good_style_def valid_draw_def)
qed

lemma walk_loop:
  assumes "kids p s = Inr [p]"
  shows "\<forall>i < level. int i \<in> dict_keys pm \<Longrightarrow> (is_last \<longrightarrow> 0 < level) \<Longrightarrow> walk fuel ''fancy'' s p level is_last pm = Inl Out_Of_Fuel"
proof (induction fuel arbitrary: level is_last pm)
  case (Suc f)
  define msk where "msk = map (\<lambda>i. the (map_of pm (int i))) [0..<level]"
  have "mask_is pm msk" using Suc.prems(1) by (auto simp: mask_is_def msk_def dict_keys_map_of)
  then obtain pre where "prefix_of level pm is_last = Inr pre" using prefix_ok [of pm msk is_last] by (auto simp: msk_def)
  moreover have "walk f ''fancy'' s p (level + 1) True (dict_set (int level) True (if is_last then dict_set (int level - 1) False pm else pm)) = Inl Out_Of_Fuel"
    by (rule Suc.IH) (use Suc.prems(1) in \<open>auto simp: less_Suc_eq\<close>)
  ultimately show ?case using assms by (cases is_last) (simp_all add: Let_def)
qed simp

lemma draw_new: "draw_tree (Suc f) (fork_defaults\<lparr>action_list := a, show_tree := True\<rparr>) new_forker = Inr [Tree [([], root_name)]]"
  by (simp add: draw_tree_def print_tree_def fork_defaults_def prefix_of_def kids_def new_forker_def dict_get_def Let_def)

text \<open>
  The checks of a given action list miss names that are in use: after \<open>a+a\<close> the tree is its own subtree and the drawing never ends, after
  \<open>a+b,a+b,b-\<close> the process \<open>b\<close> is live but its children are gone, and the drawing fails with a \<open>TypeError\<close>; the text after \<open>-\<close> is not looked at.
\<close>

theorem reused_names:
  "fork_main fuel (fork_defaults\<lparr>action_list := ''a+a'', show_tree := True\<rparr>) ds = Inl Out_Of_Fuel \<and>
   fork_main 3 (fork_defaults\<lparr>action_list := ''a+b,a+b,b-'', show_tree := True\<rparr>) ds = Inl TypeError \<and>
   check_legal ''b-c'' = Inr [''b'']"
proof (intro conjI)
  have sp: "py_split CHR '','' ''a+a'' = [''a+a'']" "check_legal ''a+a'' = Inr [''a'', ''a'']" "py_split CHR '','' ''a+b,a+b,b-'' = [''a+b'', ''a+b'', ''b-'']"
    "check_legal ''a+b'' = Inr [''a'', ''b'']" "check_legal ''b-'' = Inr [''b'']" by code_simp+
  let ?o = "fork_defaults\<lparr>action_list := ''a+a'', show_tree := True\<rparr>"
  define s1 where "s1 = new_forker\<lparr>process_list := [''a'', ''a''], children := [(''a'', Some [''a''])], parents := [(''a'', Some ''a'')]\<rparr>"
  have f1: "do_fork ''a'' ''a'' new_forker = Inr s1" by (simp add: do_fork_def new_forker_def append_child_def dict_get_def root_name_def s1_def)
  have "kids ''a'' s1 = Inr [''a'']" by (simp add: s1_def kids_def dict_get_def)
  then have w: "draw_tree fuel ?o s1 = Inl Out_Of_Fuel" for fuel
    using walk_loop [of "''a''" s1 0 "[]" False fuel] by (simp add: draw_tree_def print_tree_def fork_defaults_def root_name_def)
  show "fork_main fuel ?o ds = Inl Out_Of_Fuel"
  proof (cases fuel)
    case 0
    then show ?thesis by (simp add: fork_main_def forker_run_def fork_defaults_def draw_tree_def print_tree_def)
  next
    case (Suc f)
    have "run_action (Suc f) ?o ''a+a'' new_forker = Inr (''a forks a'', s1)"
      using f1 by (simp add: run_action_def sp new_forker_def root_name_def)
    moreover have "show_tree ?o" "\<not> just_final ?o" by (simp_all add: fork_defaults_def)
    ultimately have "run_step (Suc f) ?o ''a+a'' (out, new_forker) = Inl Out_Of_Fuel" for out
      using w [of "Suc f"] by (simp add: run_step_def report_action_def)
    then show ?thesis using draw_new [of f "''a+a''"] Suc
      by (simp add: fork_main_def forker_run_def run_actions_def sp) (simp add: fork_defaults_def sp)
  qed
  show "fork_main 3 (fork_defaults\<lparr>action_list := ''a+b,a+b,b-'', show_tree := True\<rparr>) ds = Inl TypeError"
    by (simp add: fork_main_def forker_run_def run_actions_def sp fork_defaults_def eval_nat_numeral draw_tree_def print_tree_def prefix_of_def kids_def new_forker_def
        dict_get_def Let_def run_step_def run_action_def report_action_def do_fork_def append_child_def root_name_def do_exit_def root_orphans_def py_remove_def the_parent_def)
  show "check_legal ''b-c'' = Inr [''b'']" by code_simp
qed

end
