(* ===== verification/Spec2Isabelle.thy ===== *)
theory Spec2Isabelle
  imports Malloc Ssd X86 Vsfs Raid Mlfq Paging ProcRun Multilevel Multi AddrTrans Checksum Afs Sched Lottery Fork
begin

text \<open>
  A verification library for the simulators of the OSTEP homework (\<open>ostep-homework-master\<close>). Every simulator is a Python program of one
  file that reads options, builds a small world (a heap, a disk, a set of jobs, a page table), runs a loop over it and prints what happened;
  the programs do not call each other, but they share their structure and parts of their text. There is one theory per program, over two
  theories with what they share.

  The shared theories. \<open>Prelude\<close> holds Python's run-time errors as values (\<open>py_error\<close>; a result is \<open>Inl error\<close> or \<open>Inr value\<close>, sequenced by
  \<open>rbind\<close>), loops whose body may raise (\<open>rfold\<close>), list and dict operations with what Python does out of range, and the
  interfaces \<open>step_system\<close> and \<open>total_system\<close> of a machine that runs a sequence of operations and keeps an invariant. \<open>PyString\<close> holds the
  string methods the option parsers and the assemblers use (\<open>split\<close>, \<open>strip\<close>, \<open>int\<close>, \<open>join\<close>) with their round trips.

  The programs, with their theories, their state and what is shown.

  \<^item> \<open>Malloc\<close>: \<open>vm-freespace/malloc.py\<close>. The class \<open>malloc\<close> is a record with the free list and the size map; \<open>malloc\<close>, \<open>free\<close>, the
    orders of the list and coalescing are its operations. The extents of the two lists tile the heap after every operation.
  \<^item> \<open>Ssd\<close>: \<open>file-ssd/ssd.py\<close>. The pages with their states, the forward and reverse maps and the log cursor. The interface \<open>block_device\<close>
    is interpreted on the log-structured, the direct and the ideal device. A run of commands answers exactly as an abstract device that holds a
    partial map, also while the collector runs, as long as the log has more than one block to spare; without, it is shown to lose data.
  \<^item> \<open>X86\<close>: \<open>threads-locks/x86.py\<close>. The processor, the two-pass loader, the processes and the run loop with interrupts. The run refines
    an interleaving of threads that have their own registers over a shared memory, for any number of turns, finished or not.
  \<^item> \<open>Vsfs\<close>: \<open>file-implementation/vsfs.py\<close>. Bitmaps (an instance of \<open>slot_allocator\<close>), inodes, data blocks and the requests. The
    invariant connects all of them and excludes every failing assertion.
  \<^item> \<open>Raid\<close>: \<open>file-raid/raid.py\<close>. The disks with their times, the mappings of the four levels (instances of \<open>striping\<close> and \<open>parity_striping\<close>),
    reads and writes of stripes. The layouts are injective, parity is written for every changed stripe.
  \<^item> \<open>Mlfq\<close>, \<open>ProcRun\<close>, \<open>Multi\<close>: \<open>cpu-sched-mlfq/mlfq.py\<close>, \<open>cpu-intro/process-run.py\<close> and \<open>cpu-sched-multi/multi.py\<close>. One definition per phase of
    the main loop, composed in the order of the code. Jobs are never lost or duplicated; the loops end, with the conditions that they need.
  \<^item> \<open>Paging\<close>: \<open>vm-beyondphys-policy/paging-policy.py\<close>. The seven policies are instances of the interface \<open>replacement\<close>; LRU keeps the most
    recently used pages, FIFO shows the anomaly.
  \<^item> \<open>Multilevel\<close>: \<open>vm-smalltables/paging-multilevel-translate.py\<close>. The tables in physical memory refine a map from virtual to physical pages.
  \<^item> \<open>AddrTrans\<close>: \<open>vm-mechanism/relocation.py\<close>, \<open>vm-segmentation/segmentation.py\<close>, \<open>vm-paging/paging-linear-translate.py\<close>. Translations
    stay in their region and do not share places; the theorems also show the inputs that the programs' own checks miss.
  \<^item> \<open>Checksum\<close>: \<open>file-integrity/checksum.py\<close>. Closed forms of the three sums and the errors each of them detects.
  \<^item> \<open>Afs\<close>: \<open>dist-afs/afs.py\<close>. Server, callbacks, caches, descriptors and the schedule. The actions follow the
    protocol that the comments describe, except in one case, which is given; a valid clean copy agrees with the server, and random clients
    finish under a fair schedule.
  \<^item> \<open>Sched\<close>, with \<open>PyFloat\<close>: \<open>cpu-sched/scheduler.py\<close>. The job list (\<open>float\<close> is read as an exact rational), the three policies and their
    statistics. Round robin ends within its turns, and shortest job first is optimal among all orders.
  \<^item> \<open>Lottery\<close>: \<open>cpu-sched-lottery/lottery.py\<close>. The job list, the draw of a ticket, the accounting. The share of each job in the draws is exact, with
    the bias of the modulus; jobs with tickets finish.
  \<^item> \<open>Fork\<close>: \<open>cpu-api/fork.py\<close>. The tables of names, parents and children, and the actions of a random run. The tables represent an ordered
    tree, and \<open>fork\<close> and both forms of \<open>exit\<close> do to it what they should.

  Conventions. A random number is a \<open>draw\<close>, the integer \<open>k\<close> below \<open>2 ^ 53\<close> for which \<open>random.random()\<close> returns \<open>k / 2 ^ 53\<close>; the draws of a
  run are a list that is an argument of the model, and the theorems hold for every list of valid draws. A list that is too short gives
  \<open>Out_Of_Draws\<close>. A loop without an obvious bound takes a fuel, and the value \<open>Out_Of_Fuel\<close> says that it was not enough; for every such loop either
  a bound is proved that is enough (stated in the theorem, in the quantities of the input) or it is proved that no fuel is enough, which is a loop
  that hangs. The exceptions are the loops that end or not by what they are given: a simulated program of \<open>X86\<close> may spin (\<open>spins_for_ever\<close> says that the run then
  never ends), so its theorem is about every number of turns; and the generator of commands of \<open>Ssd\<close> tries again until the draws give a
  command that is possible, so its theorem names the end of the fuel among the outcomes. Python's unbounded integers are \<open>int\<close> or \<open>nat\<close>; bit operations are those of \<open>int\<close>. Floats are exact rationals, and \<open>int(log(n, 2))\<close> is the
  exact integer logarithm: rounding is not modelled. The semantics is that of Python 3. Strings are lists of ASCII characters. A value that the
  model cannot continue with as Python would is \<open>Outside_Model\<close>; it is never the result in a theorem about success.

  Each property stands right after a text block with its number. A property with hypotheses is followed by its witness, an instance at a
  concrete input. Defects of the programs are theorems too: a concrete run, or all inputs of a class, with the error or the hang that results.

  Not modelled. Printing, the option parser and the seeding of the generator, in every program. \<open>disk.py\<close>, \<open>disk-precise.py\<close> and
  \<open>raid-graphics.py\<close> draw on a Tk canvas and keep their state in it; \<open>generator.py\<close> writes the text of C programs from templates.
  Not modelled for their size, although they have a core of their own: \<open>lfs.py\<close>, \<open>ffs.py\<close> and \<open>fsck.py\<close>; \<open>threads-intro/x86.py\<close> and
  \<open>file-devices/process-run.py\<close> are near copies of programs that are. Python's limit on the depth of recursion is not modelled.
\<close>

end
